(* ===== verification/Prelude.thy ===== *)
theory Prelude
  imports Main "HOL-Library.Word"
begin

text \<open>
  Shared vocabulary of the HeatOS development: the names of the machine types of
  \<^verbatim>\<open>src/src/include/types.h\<close> for the i386 build, byte strings, the last
  \<open>n\<close> elements of a list, and the generic list, map and word lemmas that the
  components share.  The two \<^theory_text>\<open>named_theorems\<close> collections gather the
  unfolding equations of the constants (\<open>const_defs\<close>) and the facts that a model
  loop returns (\<open>returns\<close>).
\<close>

unbundle bit_operations_syntax

named_theorems const_defs \<open>unfolding equations of the source's preprocessor constants\<close>
named_theorems returns \<open>facts stating that a loop of the model returns\<close>

section \<open>Machine types\<close>

type_synonym u8 = "8 word"
type_synonym u16 = "16 word"
type_synonym u32 = "32 word"
type_synonym u64 = "64 word"

text \<open>A C string, without its terminator, and raw bytes are lists of bytes.\<close>

type_synonym bytes = "u8 list"

definition lit :: "string \<Rightarrow> bytes" where
  "lit s = map of_char s"

lemma lit_Nil [simp]: "lit [] = []"
  by (simp add: lit_def)

lemma lit_Cons [simp]: "lit (c # cs) = of_char c # lit cs"
  by (simp add: lit_def)

lemma lit_append [simp]: "lit (a @ b) = lit a @ lit b"
  by (simp add: lit_def)

lemma length_lit [simp]: "length (lit s) = length s"
  by (simp add: lit_def)

abbreviation chr_nl :: u8 where "chr_nl \<equiv> 10"
abbreviation chr_sp :: u8 where "chr_sp \<equiv> 32"
abbreviation chr_slash :: u8 where "chr_slash \<equiv> 47"
abbreviation chr_dot :: u8 where "chr_dot \<equiv> 46"

text \<open>\<open>int\<close> to \<open>uint8_t\<close> and back: reduction modulo 256 and zero extension.\<close>

definition byte_of_nat :: "nat \<Rightarrow> u8" where
  "byte_of_nat n = word_of_nat n"

lemma unat_byte_of_nat: "n < 256 \<Longrightarrow> unat (byte_of_nat n) = n"
  by (simp add: byte_of_nat_def unat_of_nat)

text \<open>Signed division of C: truncation toward zero.\<close>

definition c_div :: "int \<Rightarrow> int \<Rightarrow> int" where
  "c_div a b = sgn a * sgn b * (\<bar>a\<bar> div \<bar>b\<bar>)"

definition c_mod :: "int \<Rightarrow> int \<Rightarrow> int" where
  "c_mod a b = a - c_div a b * b"

lemma uint_u32_less [simp]: "uint (v :: u32) < 4294967296"
  using uint_lt2p [of v] by simp

lemma unat_u32_less [simp]: "unat (v :: u32) < 4294967296"
  using unsigned_less [of v] by simp

lemma unat_u16_less [simp]: "unat (v :: u16) < 65536"
  using unsigned_less [of v] by simp

lemma unat_u8_less [simp]: "unat (v :: u8) < 256"
  using unsigned_less [of v] by simp

lemma sint_u32: "sint (v :: u32) = (if uint v < 2 ^ 31 then uint v else uint v - 2 ^ 32)"
proof -
  have r: "0 \<le> uint v" "uint v < 2 ^ 32" using unsigned_less [of v] by simp_all
  then have "uint v div 2 ^ 31 = (if 2 ^ 31 \<le> uint v then 1 else 0)"
    by (simp add: div_pos_geq div_pos_pos_trivial)
  then have "bit (uint v) 31 \<longleftrightarrow> 2 ^ 31 \<le> uint v"
    by (simp add: bit_iff_odd)
  moreover have "take_bit 32 (uint v) = uint v" using r by (simp add: take_bit_int_eq_self)
  ultimately show ?thesis by (simp add: sint_uint signed_take_bit_eq_take_bit_minus)
qed

text \<open>The literal masks of the source.\<close>

lemma mask_literals:
  "(65535 :: 'a::len word) = mask 16" "(255 :: 'a::len word) = mask 8" "(15 :: 'a::len word) = mask 4"
  "(240 :: u8) = push_bit 4 (mask 4)"
  by (simp_all add: mask_eq_exp_minus_1 push_bit_eq_mult)

section \<open>The last elements of a list\<close>

definition take_last :: "nat \<Rightarrow> 'a list \<Rightarrow> 'a list" where
  "take_last n xs = drop (length xs - n) xs"

lemma length_take_last [simp]: "length (take_last n xs) = min n (length xs)"
  by (simp add: take_last_def)

lemma take_last_all [simp]: "length xs \<le> n \<Longrightarrow> take_last n xs = xs"
  by (simp add: take_last_def)

lemma take_last_Nil [simp]: "take_last n [] = []"
  by (simp add: take_last_def)

lemma take_last_append:
  "take_last n (xs @ ys) = take_last (n - length ys) xs @ take_last n ys"
  by (cases "length ys \<le> n") (auto simp: take_last_def)

lemma take_last_take_last_append:
  "take_last n (take_last n xs @ ys) = take_last n (xs @ ys)"
  by (cases "length xs \<le> n") (auto simp: take_last_append take_last_def add.commute)

lemma map_take_last: "map f (take_last n xs) = take_last n (map f xs)"
  by (simp add: take_last_def drop_map)

lemma set_take_last: "x \<in> set (take_last n xs) \<Longrightarrow> x \<in> set xs"
  by (auto simp: take_last_def dest: in_set_dropD)

section \<open>Lists\<close>

lemma takeWhile_append_stop: "(\<forall>x\<in>set xs. P x) \<Longrightarrow> \<not> P y \<Longrightarrow> takeWhile P (xs @ y # ys) = xs"
  by (induction xs) auto

lemma takeWhile_replicate_stop: "(\<forall>x\<in>set xs. P x) \<Longrightarrow> \<not> P y \<Longrightarrow> takeWhile P (xs @ replicate k y) = xs"
  by (cases k) (auto simp: takeWhile_append_stop)

lemma nth_append_at: "i = length xs \<Longrightarrow> (xs @ y # ys) ! i = y"
  by simp

lemma last_map_upt: "map f [i..<Suc n] = (if i \<le> n then map f [i..<n] @ [f n] else [])"
  by simp

lemma sint_small: "0 \<le> x \<Longrightarrow> x < 2147483648 \<Longrightarrow> sint (word_of_int x :: u32) = x"
  by (simp add: sint_sbintrunc' signed_take_bit_int_eq_self_iff)

end
