(* ===== verification/CString.thy ===== *)
theory CString
  imports Prelude
begin

text \<open>
  The C library of the kernel, \<^verbatim>\<open>src/src/lib/string.c\<close>, over an explicit
  byte store.  A store maps addresses to bytes; \<open>0\<close> is the null pointer, and pointer
  arithmetic inside one object does not wrap.  A loop that only a terminator stops is a
  \<^theory_text>\<open>partial_function (option)\<close>: \<open>None\<close> is a run that never returns.
  The second half relates the store to byte lists: \<open>cstr_at m p s\<close> says that the
  terminated string \<open>s\<close> lies at \<open>p\<close>, and the list functions with the suffix
  \<open>_l\<close>, which the other components use, are shown to compute what the store
  functions compute.
\<close>

type_synonym addr = nat
type_synonym mem = "addr \<Rightarrow> u8"

section \<open>Length and comparison\<close>

partial_function (option) strlen_loop :: "mem \<Rightarrow> addr \<Rightarrow> nat \<Rightarrow> nat option" where
  "strlen_loop m s n = (if m (s + n) \<noteq> 0 then strlen_loop m s (Suc n) else Some n)"

definition strlen :: "mem \<Rightarrow> addr \<Rightarrow> nat option" where
  "strlen m s = strlen_loop m s 0"

function strnlen_loop :: "mem \<Rightarrow> addr \<Rightarrow> nat \<Rightarrow> nat \<Rightarrow> nat" where
  "strnlen_loop m s max_len n =
     (if n < max_len \<and> m (s + n) \<noteq> 0 then strnlen_loop m s max_len (Suc n) else n)"
  by pat_completeness auto
termination
  by (relation "measure (\<lambda>(m, s, max_len, n). max_len - n)") auto

declare strnlen_loop.simps [simp del]

definition strnlen :: "mem \<Rightarrow> addr \<Rightarrow> nat \<Rightarrow> nat" where
  "strnlen m s max_len = strnlen_loop m s max_len 0"

definition byte_diff :: "u8 \<Rightarrow> u8 \<Rightarrow> int" where
  "byte_diff a b = int (unat a) - int (unat b)"

partial_function (option) strcmp :: "mem \<Rightarrow> addr \<Rightarrow> addr \<Rightarrow> int option" where
  "strcmp m a b =
     (if m a \<noteq> 0 \<and> m a = m b then strcmp m (Suc a) (Suc b) else Some (byte_diff (m a) (m b)))"

fun strncmp :: "mem \<Rightarrow> addr \<Rightarrow> addr \<Rightarrow> nat \<Rightarrow> int" where
  "strncmp m a b 0 = 0"
| "strncmp m a b (Suc n) =
     (if m a \<noteq> 0 \<and> m a = m b then strncmp m (Suc a) (Suc b) n else byte_diff (m a) (m b))"

section \<open>Copying strings\<close>

partial_function (option) copy_loop :: "mem \<Rightarrow> addr \<Rightarrow> addr \<Rightarrow> mem option" where
  "copy_loop m d src =
     (let m' = m(d := m src)
      in if m src \<noteq> 0 then copy_loop m' (Suc d) (Suc src) else Some m')"

definition strcpy :: "mem \<Rightarrow> addr \<Rightarrow> addr \<Rightarrow> (mem \<times> addr) option" where
  "strcpy m dst src = map_option (\<lambda>m'. (m', dst)) (copy_loop m dst src)"

function strncpy_copy :: "mem \<Rightarrow> addr \<Rightarrow> addr \<Rightarrow> nat \<Rightarrow> nat \<Rightarrow> mem \<times> nat" where
  "strncpy_copy m dst src n i =
     (if i < n \<and> m (src + i) \<noteq> 0
      then strncpy_copy (m(dst + i := m (src + i))) dst src n (Suc i)
      else (m, i))"
  by pat_completeness auto
termination
  by (relation "measure (\<lambda>(m, dst, src, n, i). n - i)") auto

function strncpy_pad :: "mem \<Rightarrow> addr \<Rightarrow> nat \<Rightarrow> nat \<Rightarrow> mem" where
  "strncpy_pad m dst n i = (if i < n then strncpy_pad (m(dst + i := 0)) dst n (Suc i) else m)"
  by pat_completeness auto
termination
  by (relation "measure (\<lambda>(m, dst, n, i). n - i)") auto

declare strncpy_copy.simps [simp del] strncpy_pad.simps [simp del]

definition strncpy :: "mem \<Rightarrow> addr \<Rightarrow> addr \<Rightarrow> nat \<Rightarrow> mem \<times> addr" where
  "strncpy m dst src n =
     (let (m1, i) = strncpy_copy m dst src n 0 in (strncpy_pad m1 dst n i, dst))"

partial_function (option) skip_to_end :: "mem \<Rightarrow> addr \<Rightarrow> addr option" where
  "skip_to_end m d = (if m d \<noteq> 0 then skip_to_end m (Suc d) else Some d)"

definition strcat :: "mem \<Rightarrow> addr \<Rightarrow> addr \<Rightarrow> (mem \<times> addr) option" where
  "strcat m dst src =
     (case skip_to_end m dst of
        None \<Rightarrow> None
      | Some d \<Rightarrow> map_option (\<lambda>m'. (m', dst)) (copy_loop m d src))"

section \<open>Memory blocks\<close>

fun memset_loop :: "mem \<Rightarrow> addr \<Rightarrow> u8 \<Rightarrow> nat \<Rightarrow> mem" where
  "memset_loop m d v 0 = m"
| "memset_loop m d v (Suc n) = memset_loop (m(d := v)) (Suc d) v n"

definition memset :: "mem \<Rightarrow> addr \<Rightarrow> int \<Rightarrow> nat \<Rightarrow> mem" where
  "memset m dst val n = memset_loop m dst (word_of_int val) n"

fun byte_loop :: "mem \<Rightarrow> addr \<Rightarrow> addr \<Rightarrow> nat \<Rightarrow> mem" where
  "byte_loop m d s 0 = m"
| "byte_loop m d s (Suc n) = byte_loop (m(d := m s)) (Suc d) (Suc s) n"

fun memcpy_align :: "mem \<Rightarrow> addr \<Rightarrow> addr \<Rightarrow> nat \<Rightarrow> mem \<times> addr \<times> addr \<times> nat" where
  "memcpy_align m d s 0 = (m, d, s, 0)"
| "memcpy_align m d s (Suc n) =
     (if d mod 4 \<noteq> 0 \<or> s mod 4 \<noteq> 0 then memcpy_align (m(d := m s)) (Suc d) (Suc s) n
      else (m, d, s, Suc n))"

text \<open>One \<open>uint32_t\<close> assignment: all four bytes are read before any is written.\<close>

definition copy_word :: "mem \<Rightarrow> addr \<Rightarrow> addr \<Rightarrow> mem" where
  "copy_word m d s = m(d := m s, d + 1 := m (s + 1), d + 2 := m (s + 2), d + 3 := m (s + 3))"

function memcpy_words :: "mem \<Rightarrow> addr \<Rightarrow> addr \<Rightarrow> nat \<Rightarrow> mem \<times> addr \<times> addr \<times> nat" where
  "memcpy_words m d s n =
     (if 4 \<le> n then memcpy_words (copy_word m d s) (d + 4) (s + 4) (n - 4) else (m, d, s, n))"
  by pat_completeness auto
termination
  by (relation "measure (\<lambda>(m, d, s, n). n)") auto

declare memcpy_words.simps [simp del]

definition memcpy :: "mem \<Rightarrow> addr \<Rightarrow> addr \<Rightarrow> nat \<Rightarrow> mem" where
  "memcpy m dst src n =
     (if dst = src \<or> n = 0 then m
      else let (m1, d1, s1, n1) = memcpy_align m dst src n;
               (m2, d2, s2, n2) = memcpy_words m1 d1 s1 n1
           in byte_loop m2 d2 s2 n2)"

text \<open>The backward loop of \<open>memmove\<close>: \<open>*--d = *--s\<close> from \<open>d + n\<close> down.\<close>

fun memmove_back :: "mem \<Rightarrow> addr \<Rightarrow> addr \<Rightarrow> nat \<Rightarrow> mem" where
  "memmove_back m d s 0 = m"
| "memmove_back m d s (Suc n) = memmove_back (m(d + n := m (s + n))) d s n"

definition memmove :: "mem \<Rightarrow> addr \<Rightarrow> addr \<Rightarrow> nat \<Rightarrow> mem" where
  "memmove m dst src n =
     (if dst = src \<or> n = 0 then m
      else if dst < src \<or> src + n \<le> dst then memcpy m dst src n
      else memmove_back m dst src n)"

fun memcmp :: "mem \<Rightarrow> addr \<Rightarrow> addr \<Rightarrow> nat \<Rightarrow> int" where
  "memcmp m a b 0 = 0"
| "memcmp m a b (Suc n) =
     (if m a \<noteq> m b then byte_diff (m a) (m b) else memcmp m (Suc a) (Suc b) n)"

section \<open>Searching\<close>

text \<open>A null pointer result is \<open>0\<close>.\<close>

partial_function (option) strchr_loop :: "mem \<Rightarrow> addr \<Rightarrow> u8 \<Rightarrow> addr option" where
  "strchr_loop m s c =
     (if m s \<noteq> c then (if m s = 0 then Some 0 else strchr_loop m (Suc s) c) else Some s)"

definition strchr :: "mem \<Rightarrow> addr \<Rightarrow> int \<Rightarrow> addr option" where
  "strchr m s c = strchr_loop m s (word_of_int c)"

partial_function (option) strstr_loop :: "mem \<Rightarrow> addr \<Rightarrow> addr \<Rightarrow> nat \<Rightarrow> addr option" where
  "strstr_loop m h needle k =
     (if m h \<noteq> 0
      then (if strncmp m h needle k = 0 then Some h else strstr_loop m (Suc h) needle k)
      else Some 0)"

definition strstr :: "mem \<Rightarrow> addr \<Rightarrow> addr \<Rightarrow> addr option" where
  "strstr m haystack needle =
     (if haystack = 0 \<or> needle = 0 then Some 0
      else case strlen m needle of
             None \<Rightarrow> None
           | Some k \<Rightarrow> if k = 0 then Some haystack else strstr_loop m haystack needle k)"

section \<open>Tokens\<close>

partial_function (option) is_delim_char :: "mem \<Rightarrow> u8 \<Rightarrow> addr \<Rightarrow> bool option" where
  "is_delim_char m c delim =
     (if m delim \<noteq> 0 then (if c = m delim then Some True else is_delim_char m c (Suc delim))
      else Some False)"

text \<open>
  \<open>skip_class m want p delim\<close> is the loop \<open>while (*p && is_delim_char(*p, delim) == want) p++\<close>;
  \<open>strtok_r\<close> runs it with \<open>want\<close> true and then false.
\<close>

partial_function (option) skip_class :: "mem \<Rightarrow> bool \<Rightarrow> addr \<Rightarrow> addr \<Rightarrow> addr option" where
  "skip_class m want p delim =
     (if m p = 0 then Some p
      else Option.bind (is_delim_char m (m p) delim)
             (\<lambda>b. if b = want then skip_class m want (Suc p) delim else Some p))"

text \<open>
  \<open>strtok_r\<close>: the result is the store, the value left in \<open>*saveptr\<close> and the token's
  address.  \<open>saveptr\<close> itself is given as \<open>None\<close> when the caller passes a null pointer,
  and the default delimiter \<open>" "\<close> lies at the address \<open>space_str\<close>.
\<close>

definition strtok_r ::
  "mem \<Rightarrow> addr \<Rightarrow> addr \<Rightarrow> addr \<Rightarrow> addr option \<Rightarrow> (mem \<times> addr option \<times> addr) option" where
  "strtok_r m space_str str delim0 saveptr =
     (case saveptr of
        None \<Rightarrow> Some (m, None, 0)
      | Some saved \<Rightarrow>
          let delim = (if delim0 = 0 \<or> m delim0 = 0 then space_str else delim0);
              p = (if str \<noteq> 0 then str else saved)
          in if p = 0 then Some (m, Some saved, 0)
             else Option.bind (skip_class m True p delim)
               (\<lambda>p1. if m p1 = 0 then Some (m, Some p1, 0)
                     else Option.bind (skip_class m False p1 delim)
                       (\<lambda>p2. if m p2 \<noteq> 0 then Some (m(p2 := 0), Some (Suc p2), p1)
                             else Some (m, Some p2, p1))))"

text \<open>\<open>strtok\<close> keeps \<open>saveptr\<close> in a static variable, which the model passes along.\<close>

definition strtok :: "mem \<Rightarrow> addr \<Rightarrow> addr \<Rightarrow> addr \<Rightarrow> addr \<Rightarrow> (mem \<times> addr \<times> addr) option" where
  "strtok m space_str state str delim =
     map_option (\<lambda>(m', st, tok). (m', the st, tok)) (strtok_r m space_str str delim (Some state))"

section \<open>Numbers\<close>

definition digit_char :: "nat \<Rightarrow> u8" where
  "digit_char d = byte_of_nat (if d < 10 then 48 + d else 65 + d - 10)"

text \<open>
  The digit loop of \<open>itoa\<close> and \<open>utoa\<close>, least significant digit first: the contents of
  \<open>tmp\<close>.  A zero base traps and base one never ends; both are \<open>None\<close>.
\<close>

partial_function (option) digits_loop :: "nat \<Rightarrow> nat \<Rightarrow> bytes \<Rightarrow> bytes option" where
  "digits_loop v base tmp =
     (if base = 0 then None
      else let tmp' = tmp @ [digit_char (v mod base)]
           in if v div base \<noteq> 0 then digits_loop (v div base) base tmp' else Some tmp')"

definition utoa_str :: "u32 \<Rightarrow> nat \<Rightarrow> bytes option" where
  "utoa_str value base = map_option rev (digits_loop (unat value) base [])"

definition itoa_str :: "u32 \<Rightarrow> nat \<Rightarrow> bytes option" where
  "itoa_str value base =
     (let neg = (sint value < 0 \<and> base = 10);
          uval = (if neg then - value else value)
      in map_option (\<lambda>tmp. rev (if neg then tmp @ [45] else tmp)) (digits_loop (unat uval) base []))"

fun store_bytes :: "mem \<Rightarrow> addr \<Rightarrow> bytes \<Rightarrow> mem" where
  "store_bytes m p [] = m"
| "store_bytes m p (b # bs) = store_bytes (m(p := b)) (Suc p) bs"

definition utoa :: "mem \<Rightarrow> u32 \<Rightarrow> addr \<Rightarrow> nat \<Rightarrow> mem option" where
  "utoa m value buf base = map_option (\<lambda>s. store_bytes m buf (s @ [0])) (utoa_str value base)"

definition itoa :: "mem \<Rightarrow> u32 \<Rightarrow> addr \<Rightarrow> nat \<Rightarrow> mem option" where
  "itoa m value buf base = map_option (\<lambda>s. store_bytes m buf (s @ [0])) (itoa_str value base)"

section \<open>Strings in the store and strings as lists\<close>

primrec cstr_at :: "mem \<Rightarrow> addr \<Rightarrow> bytes \<Rightarrow> bool" where
  "cstr_at m p [] \<longleftrightarrow> m p = 0"
| "cstr_at m p (c # s) \<longleftrightarrow> m p = c \<and> c \<noteq> 0 \<and> cstr_at m (Suc p) s"

text \<open>The list counterparts used by the other components.\<close>

fun strcmp_l :: "bytes \<Rightarrow> bytes \<Rightarrow> int" where
  "strcmp_l [] [] = 0"
| "strcmp_l [] (b # bs) = byte_diff 0 b"
| "strcmp_l (a # as) [] = byte_diff a 0"
| "strcmp_l (a # as) (b # bs) = (if a = b then strcmp_l as bs else byte_diff a b)"

fun strncmp_l :: "bytes \<Rightarrow> bytes \<Rightarrow> nat \<Rightarrow> int" where
  "strncmp_l as bs 0 = 0"
| "strncmp_l [] [] (Suc n) = 0"
| "strncmp_l [] (b # bs) (Suc n) = byte_diff 0 b"
| "strncmp_l (a # as) [] (Suc n) = byte_diff a 0"
| "strncmp_l (a # as) (b # bs) (Suc n) = (if a = b then strncmp_l as bs n else byte_diff a b)"

text \<open>What \<open>strncpy(dst, src, n)\<close> leaves in the first \<open>n\<close> bytes of \<open>dst\<close>.\<close>

definition strncpy_l :: "bytes \<Rightarrow> nat \<Rightarrow> bytes" where
  "strncpy_l src n = take n src @ replicate (n - length src) 0"

text \<open>The string a fixed-size array holds: its bytes before the first terminator.\<close>

definition cstr_of :: "bytes \<Rightarrow> bytes" where
  "cstr_of arr = takeWhile (\<lambda>b. b \<noteq> 0) arr"

subsection \<open>Length and comparison\<close>

lemma byte_diff_0_iff [simp]: "byte_diff a b = 0 \<longleftrightarrow> a = b"
  by (simp add: byte_diff_def word_uint_eq_iff)

lemma byte_diff_neg_iff [simp]: "byte_diff a b < 0 \<longleftrightarrow> a < b"
  by (simp add: byte_diff_def word_less_def)

lemma strlen_loop_cstr [returns]:
  "cstr_at m (p + n) s \<Longrightarrow> strlen_loop m p n = Some (n + length s)"
proof (induction s arbitrary: n)
  case Nil
  then show ?case by (simp add: strlen_loop.simps)
next
  case (Cons c s)
  from Cons.prems have "m (p + n) \<noteq> 0" and "cstr_at m (p + Suc n) s" by auto
  then show ?case using Cons.IH [of "Suc n"] by (simp add: strlen_loop.simps [of m p n])
qed

lemma strlen_cstr [returns]: "cstr_at m p s \<Longrightarrow> strlen m p = Some (length s)"
  using strlen_loop_cstr [of m p 0 s] by (simp add: strlen_def)

lemma strnlen_loop_cstr:
  "cstr_at m (p + n) s \<Longrightarrow> n \<le> k \<Longrightarrow> strnlen_loop m p k n = min k (n + length s)"
proof (induction s arbitrary: n)
  case Nil
  then show ?case by (simp add: strnlen_loop.simps)
next
  case (Cons c s)
  show ?case
  proof (cases "n < k")
    case True
    with Cons.prems Cons.IH [of "Suc n"] show ?thesis
      by (simp add: strnlen_loop.simps [of m p k n])
  next
    case False
    with Cons.prems have "k = n" by simp
    then show ?thesis by (simp add: strnlen_loop.simps [of m p n n])
  qed
qed

lemma strcmp_cstr [returns]:
  "cstr_at m a s \<Longrightarrow> cstr_at m b t \<Longrightarrow> strcmp m a b = Some (strcmp_l s t)"
  by (induction s t arbitrary: a b rule: strcmp_l.induct) (auto simp: strcmp.simps)

lemma strncmp_cstr:
  "cstr_at m a s \<Longrightarrow> cstr_at m b t \<Longrightarrow> strncmp m a b n = strncmp_l s t n"
  by (induction s t n arbitrary: a b rule: strncmp_l.induct) auto

lemma strcmp_l_0_iff [simp]: "0 \<notin> set s \<Longrightarrow> 0 \<notin> set t \<Longrightarrow> strcmp_l s t = 0 \<longleftrightarrow> s = t"
  by (induction s t rule: strcmp_l.induct) auto

lemma strcmp_l_neg_iff:
  "0 \<notin> set s \<Longrightarrow> 0 \<notin> set t \<Longrightarrow> strcmp_l s t < 0 \<longleftrightarrow> (s, t) \<in> lexord {(x, y). x < y}"
  by (induction s t rule: strcmp_l.induct) (auto simp: word_gt_0 simp flip: word_neq_0_conv)

lemma strncmp_l_0_iff:
  "0 \<notin> set s \<Longrightarrow> 0 \<notin> set t \<Longrightarrow> strncmp_l s t n = 0 \<longleftrightarrow> take n s = take n t"
  by (induction s t n rule: strncmp_l.induct) auto

lemma cstr_at_no_nul: "cstr_at m p s \<Longrightarrow> 0 \<notin> set s"
  by (induction s arbitrary: p) auto

lemma cstr_at_cong:
  "(\<And>i. p \<le> i \<Longrightarrow> i \<le> p + length s \<Longrightarrow> m i = m' i) \<Longrightarrow> cstr_at m p s = cstr_at m' p s"
proof (induction s arbitrary: p)
  case Nil
  then show ?case by simp
next
  case (Cons c s)
  have "cstr_at m (Suc p) s = cstr_at m' (Suc p) s"
    by (rule Cons.IH) (simp add: Cons.prems)
  with Cons.prems [of p] show ?case by simp
qed

subsection \<open>Block copies\<close>

text \<open>What a block copy should do, reading every source byte from the old store.\<close>

definition block_moved :: "mem \<Rightarrow> addr \<Rightarrow> addr \<Rightarrow> nat \<Rightarrow> mem" where
  "block_moved m d s n = (\<lambda>a. if d \<le> a \<and> a < d + n then m (s + (a - d)) else m a)"

lemma block_moved_0 [simp]: "block_moved m d s 0 = m"
  by (rule ext) (auto simp: block_moved_def)

lemma block_moved_same [simp]: "block_moved m d d n = m"
  by (rule ext) (simp add: block_moved_def)

text \<open>
  A prefix may be moved first when the rest of the source lies behind or before what the
  prefix writes.
\<close>

lemma block_moved_split:
  assumes "d \<le> s \<or> s + n + k \<le> d"
  shows "block_moved (block_moved m d s n) (d + n) (s + n) k = block_moved m d s (n + k)"
  using assms by (auto simp: block_moved_def fun_eq_iff)

lemma block_moved_Suc_back:
  assumes "s \<le> d"
  shows "block_moved (m(d + n := m (s + n))) d s n = block_moved m d s (Suc n)"
  using assms by (auto simp: block_moved_def fun_eq_iff less_Suc_eq)

lemma block_moved_1: "block_moved m d s (Suc 0) = m(d := m s)"
  by (rule ext) (auto simp: block_moved_def)

lemma block_moved_Suc:
  assumes "d \<le> s \<or> s + Suc n \<le> d"
  shows "block_moved (m(d := m s)) (Suc d) (Suc s) n = block_moved m d s (Suc n)"
  using block_moved_split [of d s "Suc 0" n m] assms by (simp add: block_moved_1)

lemma copy_word_block: "copy_word m d s = block_moved m d s 4"
proof (rule ext)
  fix a
  consider "a < d" | "a = d" | "a = d + 1" | "a = d + 2" | "a = d + 3" | "d + 4 \<le> a" by linarith
  then show "copy_word m d s a = block_moved m d s 4 a"
    by cases (simp_all add: copy_word_def block_moved_def)
qed

lemma byte_loop_block:
  "d \<le> s \<or> s + n \<le> d \<Longrightarrow> byte_loop m d s n = block_moved m d s n"
proof (induction n arbitrary: m d s)
  case 0
  then show ?case by simp
next
  case (Suc n)
  then have "byte_loop (m(d := m s)) (Suc d) (Suc s) n = block_moved (m(d := m s)) (Suc d) (Suc s) n"
    by (intro Suc.IH) auto
  with Suc.prems show ?case by (simp add: block_moved_Suc)
qed

lemma memcpy_align_block:
  assumes "d \<le> s \<or> s + n \<le> d"
  shows "\<exists>k \<le> n. memcpy_align m d s n = (block_moved m d s k, d + k, s + k, n - k)"
  using assms
proof (induction n arbitrary: m d s)
  case 0
  then show ?case by simp
next
  case (Suc n)
  show ?case
  proof (cases "d mod 4 \<noteq> 0 \<or> s mod 4 \<noteq> 0")
    case True
    from Suc.prems have "Suc d \<le> Suc s \<or> Suc s + n \<le> Suc d" by auto
    from Suc.IH [OF this, of "m(d := m s)"] obtain k where "k \<le> n"
      and "memcpy_align (m(d := m s)) (Suc d) (Suc s) n =
           (block_moved (m(d := m s)) (Suc d) (Suc s) k, Suc d + k, Suc s + k, n - k)" by blast
    moreover have "block_moved (m(d := m s)) (Suc d) (Suc s) k = block_moved m d s (Suc k)"
      using Suc.prems \<open>k \<le> n\<close> by (intro block_moved_Suc) auto
    ultimately show ?thesis using True by (intro exI [of _ "Suc k"]) simp
  next
    case False
    then show ?thesis by (intro exI [of _ 0]) simp
  qed
qed

lemma memcpy_words_block:
  assumes "d \<le> s \<and> (d \<noteq> s \<longrightarrow> d + 4 \<le> s) \<or> s + n \<le> d"
  shows "\<exists>k \<le> n. memcpy_words m d s n = (block_moved m d s k, d + k, s + k, n - k)"
  using assms
proof (induction n arbitrary: m d s rule: less_induct)
  case (less n)
  show ?case
  proof (cases "4 \<le> n")
    case True
    then have "n - 4 < n" by simp
    moreover have "d + 4 \<le> s + 4 \<and> (d + 4 \<noteq> s + 4 \<longrightarrow> d + 4 + 4 \<le> s + 4) \<or> s + 4 + (n - 4) \<le> d + 4"
      using less.prems True by auto
    ultimately obtain k where k: "k \<le> n - 4"
      and eq: "memcpy_words (copy_word m d s) (d + 4) (s + 4) (n - 4) =
           (block_moved (copy_word m d s) (d + 4) (s + 4) k, d + 4 + k, s + 4 + k, n - 4 - k)"
      using less.IH by blast
    have "block_moved (copy_word m d s) (d + 4) (s + 4) k = block_moved m d s (4 + k)"
      unfolding copy_word_block using less.prems k True by (intro block_moved_split) auto
    with eq k True show ?thesis
      by (intro exI [of _ "4 + k"]) (simp add: memcpy_words.simps [of m d s n])
  next
    case False
    then show ?thesis by (intro exI [of _ 0]) (simp add: memcpy_words.simps [of m d s n])
  qed
qed

lemma memcpy_align_aligned:
  "memcpy_align m d s n = (m', d', s', n') \<Longrightarrow> n' \<noteq> 0 \<Longrightarrow> d' mod 4 = 0 \<and> s' mod 4 = 0"
  by (induction m d s n rule: memcpy_align.induct) (auto split: if_splits)

lemma aligned_gap: "(d::nat) mod 4 = 0 \<Longrightarrow> s mod 4 = 0 \<Longrightarrow> d < s \<Longrightarrow> d + 4 \<le> s"
  by presburger

lemma memcpy_block:
  assumes ok: "dst \<le> src \<or> src + n \<le> dst"
  shows "memcpy m dst src n = block_moved m dst src n"
proof (cases "dst = src \<or> n = 0")
  case True
  then show ?thesis by (auto simp: memcpy_def)
next
  case False
  obtain k where k: "k \<le> n"
    and al: "memcpy_align m dst src n = (block_moved m dst src k, dst + k, src + k, n - k)"
    using memcpy_align_block [OF ok] by blast
  let ?m1 = "block_moved m dst src k"
  have "dst + k \<le> src + k \<and> (dst + k \<noteq> src + k \<longrightarrow> dst + k + 4 \<le> src + k) \<or> src + k + (n - k) \<le> dst + k"
    if "n - k \<noteq> 0"
    using ok k memcpy_align_aligned [OF al that] aligned_gap [of "dst + k" "src + k"] by auto
  then obtain j where j: "j \<le> n - k"
    and wd: "memcpy_words ?m1 (dst + k) (src + k) (n - k) =
       (block_moved ?m1 (dst + k) (src + k) j, dst + k + j, src + k + j, n - k - j)"
    using memcpy_words_block [of "dst + k" "src + k" "n - k" ?m1]
    by (cases "n - k = 0") (auto simp: memcpy_words.simps)
  have m2: "block_moved ?m1 (dst + k) (src + k) j = block_moved m dst src (k + j)"
    using ok k j by (intro block_moved_split) auto
  have "byte_loop (block_moved m dst src (k + j)) (dst + (k + j)) (src + (k + j)) (n - (k + j)) =
        block_moved m dst src n"
    using ok k j block_moved_split [of dst src "k + j" "n - (k + j)" m]
    by (subst byte_loop_block) auto
  with False al wd m2 k j show ?thesis
    by (simp add: memcpy_def add.assoc)
qed

lemma memmove_back_block: "s \<le> d \<Longrightarrow> memmove_back m d s n = block_moved m d s n"
  by (induction n arbitrary: m) (simp_all add: block_moved_Suc_back)

lemma memmove_block: "memmove m dst src n = block_moved m dst src n"
  by (auto simp: memmove_def memcpy_block memmove_back_block)

subsection \<open>String copies\<close>

lemma store_bytes_other: "a < p \<or> p + length bs \<le> a \<Longrightarrow> store_bytes m p bs a = m a"
  by (induction bs arbitrary: m p) auto

lemma store_bytes_nth: "i < length bs \<Longrightarrow> store_bytes m p bs (p + i) = bs ! i"
proof (induction bs arbitrary: m p i)
  case Nil
  then show ?case by simp
next
  case (Cons b bs)
  show ?case
  proof (cases i)
    case 0
    then show ?thesis by (simp add: store_bytes_other)
  next
    case (Suc j)
    have "store_bytes (m(p := b)) (Suc p) bs (Suc p + j) = bs ! j"
      by (rule Cons.IH) (use Cons.prems Suc in simp)
    with Suc show ?thesis by simp
  qed
qed

lemma cstr_at_nth:
  "cstr_at m p s \<longleftrightarrow> (\<forall>i < length s. m (p + i) = s ! i \<and> s ! i \<noteq> 0) \<and> m (p + length s) = 0"
proof (induction s arbitrary: p)
  case Nil
  then show ?case by simp
next
  case (Cons c s)
  then show ?case by (auto simp: less_Suc_eq_0_disj)
qed

lemma cstr_at_store:
  assumes "0 \<notin> set s"
  shows "cstr_at (store_bytes m p (s @ [0])) p s"
proof -
  have "store_bytes m p (s @ [0]) (p + i) = s ! i" if "i < length s" for i
    using store_bytes_nth [of i "s @ [0]" m p] that by (simp add: nth_append)
  moreover have "store_bytes m p (s @ [0]) (p + length s) = 0"
    using store_bytes_nth [of "length s" "s @ [0]" m p] by simp
  ultimately show ?thesis using assms by (auto simp: cstr_at_nth dest: nth_mem)
qed

lemma copy_loop_cstr [returns]:
  assumes "cstr_at m src s" and "d + length s < src \<or> src + length s < d"
  shows "copy_loop m d src = Some (store_bytes m d (s @ [0]))"
  using assms
proof (induction s arbitrary: m d src)
  case Nil
  then show ?case by (simp add: copy_loop.simps fun_upd_def)
next
  case (Cons c s)
  from Cons.prems have c: "m src = c" "c \<noteq> 0" and s: "cstr_at m (Suc src) s" by auto
  have "cstr_at (m(d := c)) (Suc src) s"
    using s Cons.prems(2) by (subst cstr_at_cong [of _ _ _ m]) auto
  then have "copy_loop (m(d := c)) (Suc d) (Suc src) = Some (store_bytes (m(d := c)) (Suc d) (s @ [0]))"
    by (rule Cons.IH) (use Cons.prems(2) in auto)
  with c show ?case by (simp add: copy_loop.simps [of m d src])
qed

lemma skip_to_end_cstr [returns]: "cstr_at m p s \<Longrightarrow> skip_to_end m p = Some (p + length s)"
  by (induction s arbitrary: p) (simp_all add: skip_to_end.simps)

lemma cstr_at_append:
  "(\<forall>i < length s. m (p + i) = s ! i \<and> s ! i \<noteq> 0) \<Longrightarrow> cstr_at m (p + length s) t \<Longrightarrow> cstr_at m p (s @ t)"
proof (induction s arbitrary: p)
  case Nil
  then show ?case by simp
next
  case (Cons c s)
  from Cons.prems(1) have "m p = c" "c \<noteq> 0" by (auto dest: spec [of _ 0])
  moreover have "\<forall>i < length s. m (Suc p + i) = s ! i \<and> s ! i \<noteq> 0"
    using Cons.prems(1) by (auto dest: spec [of _ "Suc _"])
  ultimately show ?case using Cons.IH [of "Suc p"] Cons.prems(2) by simp
qed

subsection \<open>Bounded copies\<close>

lemma strncpy_pad_at:
  "strncpy_pad m dst n i a = (if dst + i \<le> a \<and> a < dst + n then 0 else m a)"
proof (induction m dst n i rule: strncpy_pad.induct)
  case (1 m dst n i)
  show ?case
  proof (cases "i < n")
    case True
    then have "strncpy_pad (m(dst + i := 0)) dst n (Suc i) a =
        (if dst + Suc i \<le> a \<and> a < dst + n then 0 else (m(dst + i := 0)) a)"
      by (rule 1)
    with True show ?thesis
      by (simp only: strncpy_pad.simps [of m dst n i]) auto
  next
    case False
    then show ?thesis by (auto simp: strncpy_pad.simps [of m dst n i])
  qed
qed

lemma strncpy_copy_cstr:
  assumes "cstr_at m (src + i) s" and "i \<le> n"
    and "dst + n \<le> src \<or> src + i + length s < dst"
  shows "strncpy_copy m dst src n i =
           (store_bytes m (dst + i) (take (n - i) s), min n (i + length s))"
  using assms
proof (induction s arbitrary: m i)
  case Nil
  then show ?case by (simp add: strncpy_copy.simps)
next
  case (Cons c s)
  show ?case
  proof (cases "i < n")
    case True
    from Cons.prems have c: "m (src + i) = c" "c \<noteq> 0" and s: "cstr_at m (src + Suc i) s" by auto
    have "cstr_at (m(dst + i := c)) (src + Suc i) s"
      using s Cons.prems(3) True by (subst cstr_at_cong [of _ _ _ m]) auto
    then have "strncpy_copy (m(dst + i := c)) dst src n (Suc i) =
        (store_bytes (m(dst + i := c)) (dst + Suc i) (take (n - Suc i) s), min n (Suc i + length s))"
      by (rule Cons.IH) (use Cons.prems True in auto)
    with c True show ?thesis
      by (simp add: strncpy_copy.simps [of m dst src n i] take_Cons' flip: diff_Suc_eq_diff_pred)
  next
    case False
    with Cons.prems(2) have "i = n" by simp
    then show ?thesis by (simp add: strncpy_copy.simps)
  qed
qed

lemma strncpy_cstr:
  assumes "cstr_at m src s" and "dst + n \<le> src \<or> src + length s < dst" and "i < n"
  shows "fst (strncpy m dst src n) (dst + i) = strncpy_l s n ! i"
proof -
  have eq: "strncpy_copy m dst src n 0 = (store_bytes m dst (take n s), min n (length s))"
    using strncpy_copy_cstr [of m src 0 s n dst] assms by simp
  show ?thesis
  proof (cases "i < length s")
    case True
    with assms(3) have "store_bytes m dst (take n s) (dst + i) = take n s ! i"
      by (intro store_bytes_nth) simp
    with True assms(3) eq show ?thesis
      by (auto simp: strncpy_def strncpy_pad_at strncpy_l_def nth_append)
  next
    case False
    with assms(3) eq show ?thesis
      by (simp add: strncpy_def strncpy_pad_at strncpy_l_def nth_append)
  qed
qed

subsection \<open>Tokens\<close>

lemma is_delim_char_cstr [returns]: "cstr_at m p ds \<Longrightarrow> is_delim_char m c p = Some (c \<in> set ds)"
  by (induction ds arbitrary: p) (auto simp: is_delim_char.simps)

lemma skip_class_cstr [returns]:
  assumes "cstr_at m delim ds" and "cstr_at m p s"
  shows "skip_class m want p delim = Some (p + length (takeWhile (\<lambda>c. (c \<in> set ds) = want) s))"
  using assms
  by (induction s arbitrary: p) (auto simp: skip_class.simps is_delim_char_cstr)

lemma cstr_at_drop: "cstr_at m p s \<Longrightarrow> k \<le> length s \<Longrightarrow> cstr_at m (p + k) (drop k s)"
proof (induction s arbitrary: p k)
  case Nil
  then show ?case by simp
next
  case (Cons c s)
  show ?case
  proof (cases k)
    case 0
    with Cons.prems show ?thesis by simp
  next
    case (Suc j)
    with Cons.prems Cons.IH [of "Suc p" j] show ?thesis by simp
  qed
qed

lemma cstr_at_head: "cstr_at m p s \<Longrightarrow> m p = (case s of [] \<Rightarrow> 0 | c # _ \<Rightarrow> c)"
  by (cases s) auto

lemma drop_takeWhile: "drop (length (takeWhile P xs)) xs = dropWhile P xs"
  by (metis append_eq_conv_conj takeWhile_dropWhile_id)

lemma cstr_at_takeWhile:
  "cstr_at m p s \<Longrightarrow> cstr_at m (p + length (takeWhile P s)) (dropWhile P s)"
  using cstr_at_drop [of m p s "length (takeWhile P s)"]
  by (simp add: drop_takeWhile length_takeWhile_le)

lemma cstr_at_cut:
  "cstr_at m p s \<Longrightarrow> k \<le> length s \<Longrightarrow> cstr_at (m(p + k := 0)) p (take k s)"
  by (auto simp: cstr_at_nth)

subsection \<open>Numbers\<close>

text \<open>Reading a numeral back, most significant digit first.\<close>

definition digit_val :: "u8 \<Rightarrow> nat" where
  "digit_val c = (if unat c < 65 then unat c - 48 else unat c - 55)"

definition num_of :: "nat \<Rightarrow> bytes \<Rightarrow> nat" where
  "num_of base s = foldl (\<lambda>a c. a * base + digit_val c) 0 s"

definition dec_of :: "bytes \<Rightarrow> int" where
  "dec_of s = (case s of [] \<Rightarrow> 0 | c # t \<Rightarrow> if c = 45 then - int (num_of 10 t) else int (num_of 10 s))"

lemma unat_digit_char: "d < 36 \<Longrightarrow> unat (digit_char d) = (if d < 10 then 48 + d else 55 + d)"
  by (simp add: digit_char_def unat_byte_of_nat)

lemma digit_val_char [simp]: "d < 36 \<Longrightarrow> digit_val (digit_char d) = d"
  by (simp add: digit_val_def unat_digit_char)

lemma digit_char_neq: "d < 36 \<Longrightarrow> digit_char d \<noteq> 0" "d < 36 \<Longrightarrow> digit_char d \<noteq> 45"
  using unat_digit_char [of d] by (auto split: if_splits)

lemma digits_loop_returns:
  assumes "2 \<le> base" and "base \<le> 36" and "v < base ^ Suc k"
  shows "\<exists>ds. digits_loop v base tmp = Some (tmp @ ds) \<and> ds \<noteq> [] \<and> length ds \<le> Suc k \<and>
           foldr (\<lambda>c a. a * base + digit_val c) ds 0 = v \<and>
           (\<forall>c\<in>set ds. \<exists>d < base. c = digit_char d)"
  using assms(3)
proof (induction k arbitrary: v tmp)
  case 0
  with assms show ?case by (auto simp: digits_loop.simps)
next
  case (Suc k)
  show ?case
  proof (cases "v div base = 0")
    case True
    moreover have "v < base" using True assms by (simp add: div_eq_0_iff)
    ultimately show ?thesis using assms by (auto simp: digits_loop.simps)
  next
    case False
    have "v div base < base ^ Suc k"
      using Suc.prems assms by (simp add: div_less_iff_less_mult mult.commute)
    from Suc.IH [OF this, of "tmp @ [digit_char (v mod base)]"] obtain ds where
      "digits_loop (v div base) base (tmp @ [digit_char (v mod base)]) =
         Some (tmp @ digit_char (v mod base) # ds)" "length ds \<le> Suc k"
      "foldr (\<lambda>c a. a * base + digit_val c) ds 0 = v div base"
      "\<forall>c\<in>set ds. \<exists>d < base. c = digit_char d" by auto
    moreover have "digit_val (digit_char (v mod base)) = v mod base"
      using assms by (intro digit_val_char order_less_le_trans [OF mod_less_divisor]) auto
    moreover have "\<exists>d < base. digit_char (v mod base) = digit_char d"
      using assms by (intro exI [of _ "v mod base"]) simp
    ultimately show ?thesis using False assms
      by (intro exI [of _ "digit_char (v mod base) # ds"])
        (auto simp: digits_loop.simps [of v base tmp])
  qed
qed

lemma num_of_rev: "num_of base (rev ds) = foldr (\<lambda>c a. a * base + digit_val c) ds 0"
  by (simp add: num_of_def foldl_conv_foldr)

lemma utoa_str_returns:
  assumes "2 \<le> base" and "base \<le> 36" and "unat v < base ^ Suc k"
  shows "\<exists>s. utoa_str v base = Some s \<and> s \<noteq> [] \<and> length s \<le> Suc k \<and> num_of base s = unat v \<and>
           (\<forall>c\<in>set s. \<exists>d < base. c = digit_char d)"
  using digits_loop_returns [OF assms, of "[]"] by (auto simp: utoa_str_def num_of_rev)


lemma itoa_str_returns:
  "\<exists>s. itoa_str v 10 = Some s \<and> s \<noteq> [] \<and> length s \<le> 11 \<and> dec_of s = sint v \<and> 0 \<notin> set s"
proof -
  let ?u = "if sint v < 0 then - v else v"
  have "unat ?u < 10 ^ Suc 9" by (rule order_less_trans [OF unat_u32_less]) simp
  from digits_loop_returns [of 10, OF _ _ this, of "[]"] obtain ds where
    ds: "digits_loop (unat ?u) 10 [] = Some ds" "ds \<noteq> []" "length ds \<le> 10"
      "num_of 10 (rev ds) = unat ?u" "\<forall>c\<in>set ds. \<exists>d < 10. c = digit_char d"
    by (auto simp: num_of_rev)
  have nz: "0 \<notin> set ds" "45 \<notin> set ds" using ds(5) digit_char_neq by force+
  show ?thesis
  proof (cases "sint v < 0")
    case True
    have "int (unat (- v)) = - sint v"
      using True
      by (simp add: sint_u32 uint_word_ariths zmod_zminus1_eq_if split: if_splits)
    with True ds nz show ?thesis by (simp add: itoa_str_def dec_of_def)
  next
    case False
    have "hd (rev ds) \<noteq> 45" using nz ds(2) by (metis hd_in_set rev_is_Nil_conv set_rev)
    moreover have "int (unat v) = sint v" using False
      by (simp add: sint_u32 split: if_splits)
    ultimately show ?thesis using False ds nz
      by (cases "rev ds") (auto simp: itoa_str_def dec_of_def)
  qed
qed

text \<open>
  The text a caller finds in its buffer after \<open>utoa\<close> and after \<open>itoa\<close> in base ten.
  The empty default is never taken: both loops return (\<open>utoa_text_eq\<close>, \<open>itoa_text_eq\<close>).
\<close>

definition utoa_text :: "u32 \<Rightarrow> nat \<Rightarrow> bytes" where
  "utoa_text v base = (case utoa_str v base of Some s \<Rightarrow> s | None \<Rightarrow> [])"

definition itoa_text :: "u32 \<Rightarrow> bytes" where
  "itoa_text v = (case itoa_str v 10 of Some s \<Rightarrow> s | None \<Rightarrow> [])"

lemma utoa_text_eq:
  assumes "2 \<le> base" and "base \<le> 36"
  shows "utoa_str v base = Some (utoa_text v base)"
    and "num_of base (utoa_text v base) = unat v"
    and "utoa_text v base \<noteq> []"
    and "\<forall>c\<in>set (utoa_text v base). \<exists>d < base. c = digit_char d"
proof -
  have "unat v < 2 ^ Suc 31" by (rule order_less_le_trans [OF unat_u32_less]) simp
  also have "\<dots> \<le> base ^ Suc 31" using assms(1) by (intro power_mono) auto
  finally have "unat v < base ^ Suc 31" .
  from utoa_str_returns [OF assms this] obtain s where "utoa_str v base = Some s" "s \<noteq> []"
    "num_of base s = unat v" "\<forall>c\<in>set s. \<exists>d < base. c = digit_char d" by blast
  then show "utoa_str v base = Some (utoa_text v base)" "num_of base (utoa_text v base) = unat v"
    "utoa_text v base \<noteq> []" "\<forall>c\<in>set (utoa_text v base). \<exists>d < base. c = digit_char d"
    by (simp_all add: utoa_text_def)
qed

lemma length_utoa_text_10: "length (utoa_text v 10) \<le> 10"
proof -
  have "unat v < 10 ^ Suc 9" by (rule order_less_trans [OF unat_u32_less]) simp
  from utoa_str_returns [of 10, OF _ _ this] show ?thesis by (auto simp: utoa_text_def)
qed

lemma length_utoa_text_16: "length (utoa_text v 16) \<le> 8"
proof -
  have "unat v < 16 ^ Suc 7" by (rule order_less_le_trans [OF unat_u32_less]) simp
  from utoa_str_returns [of 16, OF _ _ this] show ?thesis by (auto simp: utoa_text_def)
qed

lemma itoa_text_eq:
  "itoa_str v 10 = Some (itoa_text v)" "dec_of (itoa_text v) = sint v" "length (itoa_text v) \<le> 11"
  "0 \<notin> set (itoa_text v)"
  using itoa_str_returns [of v] by (auto simp: itoa_text_def)

section \<open>Properties of the library\<close>

text \<open>
  \<open>memmove\<close> is right for every overlap: whatever the two regions and their
  alignment, each destination byte gets the source byte of the old store, and every other
  byte keeps its value.
\<close>

lemma memmove_correct:
  "memmove m dst src n a = (if dst \<le> a \<and> a < dst + n then m (src + (a - dst)) else m a)"
  by (simp add: memmove_block block_moved_def)

text \<open>
  \<open>memcpy\<close>, with its byte-aligning prefix, its word loop and its byte tail, copies
  the block and touches nothing else, whenever the destination does not start inside the
  source block.
\<close>

lemma memcpy_correct:
  assumes "dst \<le> src \<or> src + n \<le> dst"
  shows "memcpy m dst src n a = (if dst \<le> a \<and> a < dst + n then m (src + (a - dst)) else m a)"
  using assms by (simp add: memcpy_block block_moved_def)

theorem memcpy_correct_witness:
  "memcpy (\<lambda>a. byte_of_nat a) 100 7 9 105 = 12 \<and> memcpy (\<lambda>a. byte_of_nat a) 100 7 9 109 = 109"
  using memcpy_correct [of 100 7 9 "\<lambda>a. byte_of_nat a" 105]
    memcpy_correct [of 100 7 9 "\<lambda>a. byte_of_nat a" 109]
  by (simp add: byte_of_nat_def)

text \<open>
  \<open>strcat\<close> returns, the destination then holds the concatenation, and only the
  bytes behind the old string change, when the source lies outside what is written.
\<close>

lemma strcat_correct:
  assumes "cstr_at m dst s" and "cstr_at m src t"
    and "dst + length s + length t < src \<or> src + length t < dst"
  shows "\<exists>m'. strcat m dst src = Some (m', dst) \<and> cstr_at m' dst (s @ t) \<and>
           (\<forall>a. a < dst + length s \<or> dst + length s + length t < a \<longrightarrow> m' a = m a)"
proof -
  let ?m' = "store_bytes m (dst + length s) (t @ [0])"
  have "copy_loop m (dst + length s) src = Some ?m'"
    using assms by (intro copy_loop_cstr) auto
  moreover have "cstr_at ?m' dst (s @ t)"
  proof (rule cstr_at_append)
    show "\<forall>i < length s. ?m' (dst + i) = s ! i \<and> s ! i \<noteq> 0"
      using assms(1) by (simp add: cstr_at_nth store_bytes_other)
    show "cstr_at ?m' (dst + length s) t"
      using cstr_at_no_nul [OF assms(2)] by (rule cstr_at_store)
  qed
  ultimately show ?thesis
    using assms(1) by (auto simp: strcat_def skip_to_end_cstr store_bytes_other)
qed

definition demo_mem :: mem where
  "demo_mem = (\<lambda>a. if a = 10 then 97 else if a = 20 then 98 else if a = 21 then 99 else 0)"

theorem strcat_correct_witness:
  "\<exists>m'. strcat demo_mem 10 20 = Some (m', 10) \<and> cstr_at m' 10 [97, 98, 99]"
  using strcat_correct [of demo_mem 10 "[97]" 20 "[98, 99]"] by (auto simp: demo_mem_def)

text \<open>
  \<open>strcmp\<close> returns on any two terminated strings: zero exactly for equal strings,
  and negative exactly when the first is smaller in the lexicographic order of unsigned
  bytes.
\<close>

lemma strcmp_correct:
  assumes "cstr_at m a s" and "cstr_at m b t"
  shows "\<exists>r. strcmp m a b = Some r \<and> (r = 0 \<longleftrightarrow> s = t) \<and> (r < 0 \<longleftrightarrow> (s, t) \<in> lexord {(x, y). x < y})"
  using assms by (simp add: strcmp_cstr cstr_at_no_nul strcmp_l_neg_iff)

theorem strcmp_correct_witness:
  "\<exists>r. strcmp demo_mem 10 20 = Some r \<and> r < 0"
  using strcmp_correct [of demo_mem 10 "[97]" 20 "[98, 99]"] by (auto simp: demo_mem_def)

text \<open>
  One call of \<open>strtok_r\<close> on a fresh string: it returns; the token is the longest
  delimiter-free run after the leading delimiters, now a terminated string at the returned
  address; the save pointer addresses exactly the text after the token's delimiter; and
  with only delimiters left the call returns a null pointer.
\<close>

lemma strtok_r_correct:
  assumes "cstr_at m str s" and "cstr_at m delim ds" and "ds \<noteq> []" and "0 < str" and "0 < delim"
    and "str + length s < delim \<or> delim + length ds < str"
  defines "r \<equiv> dropWhile (\<lambda>c. c \<in> set ds) s"
    and "tok \<equiv> takeWhile (\<lambda>c. c \<notin> set ds) (dropWhile (\<lambda>c. c \<in> set ds) s)"
  shows "\<exists>m' save p. strtok_r m sp str delim (Some old) = Some (m', Some save, p) \<and>
           (if r = [] then p = 0 \<and> m' = m
            else p = str + (length s - length r) \<and> cstr_at m' p tok \<and>
                 cstr_at m' save (drop (Suc (length tok)) r))"
proof -
  let ?p1 = "str + length (takeWhile (\<lambda>c. c \<in> set ds) s)"
  let ?p2 = "?p1 + length tok"
  have head: "m delim \<noteq> 0" using assms(2,3) by (cases ds) auto
  have r: "cstr_at m ?p1 r" unfolding r_def using assms(1) by (rule cstr_at_takeWhile)
  have s1: "skip_class m True str delim = Some ?p1"
    using skip_class_cstr [OF assms(2,1), of True] by simp
  have s2: "skip_class m False ?p1 delim = Some ?p2"
    using skip_class_cstr [OF assms(2) r, of False] by (simp add: tok_def r_def)
  have len: "length (takeWhile (\<lambda>c. c \<in> set ds) s) = length s - length r"
    by (metis add_diff_cancel_right' length_append r_def takeWhile_dropWhile_id)
  have tokr: "tok = take (length tok) r" unfolding tok_def r_def by (rule takeWhile_eq_take)
  have le: "length tok \<le> length r" by (metis tokr length_take min.cobounded1)
  have rest: "cstr_at m ?p2 (drop (length tok) r)" using r le by (rule cstr_at_drop)
  have base: "strtok_r m sp str delim (Some old) =
      (if m ?p1 = 0 then Some (m, Some ?p1, 0)
       else if m ?p2 \<noteq> 0 then Some (m(?p2 := 0), Some (Suc ?p2), ?p1) else Some (m, Some ?p2, ?p1))"
    using assms(4,5) head s1 s2 by (simp add: strtok_r_def)
  show ?thesis
  proof (cases "r = []")
    case True
    with r have "m ?p1 = 0" by simp
    with base True show ?thesis by simp
  next
    case False
    with r have p1: "m ?p1 \<noteq> 0" by (cases r) auto
    show ?thesis
    proof (cases "drop (length tok) r")
      case Nil
      with rest have "m ?p2 = 0" by simp
      moreover have "tok = r" using Nil tokr by (metis append_Nil2 append_take_drop_id)
      ultimately show ?thesis using base p1 False r rest Nil len by auto
    next
      case (Cons c t)
      with rest have c: "m ?p2 = c" "c \<noteq> 0" "cstr_at m (Suc ?p2) t" by auto
      have "cstr_at (m(?p2 := 0)) ?p1 tok"
        using cstr_at_cut [OF r le] tokr by simp
      moreover have "cstr_at (m(?p2 := 0)) (Suc ?p2) t"
        using c(3) by (subst cstr_at_cong [of _ _ _ m]) auto
      moreover have "drop (Suc (length tok)) r = t" using Cons by (simp add: drop_Suc drop_tl)
      ultimately show ?thesis using base p1 c(1,2) False len by auto
    qed
  qed
qed

definition tok_mem :: mem where
  "tok_mem = (\<lambda>a. if a = 10 then 44 else if a = 11 then 97 else if a = 12 then 44
                    else if a = 13 then 98 else if a = 20 then 44 else 0)"

theorem strtok_r_correct_witness:
  "\<exists>m' save. strtok_r tok_mem 50 10 20 (Some 0) = Some (m', Some save, 11) \<and>
     cstr_at m' 11 [97] \<and> cstr_at m' save [98]"
  using strtok_r_correct [of tok_mem 10 "[44, 97, 44, 98]" 20 "[44]" 50 0]
  by (auto simp: tok_mem_def)

text \<open>
  \<open>itoa\<close> in base ten returns for every \<open>int\<close>, \<open>INT_MIN\<close> included: the text it
  stores is terminated, reads back as the number, and together with its terminator takes
  at most twelve bytes, so the 34-byte scratch array never overflows.
\<close>

lemma itoa_roundtrip:
  "\<exists>m' s. itoa m v buf 10 = Some m' \<and> cstr_at m' buf s \<and> dec_of s = sint v \<and> length s + 1 \<le> 12"
  using itoa_str_returns [of v] cstr_at_store by (fastforce simp: itoa_def)

text \<open>
  \<open>utoa\<close> returns in every base from 2 to 36; the digits read back as the value, and
  they fit the 34-byte scratch array even in base two.
\<close>

lemma utoa_roundtrip:
  assumes "2 \<le> base" and "base \<le> 36"
  shows "\<exists>m' s. utoa m v buf base = Some m' \<and> cstr_at m' buf s \<and> num_of base s = unat v \<and>
           length s \<le> 32"
proof -
  have "unat v < 2 ^ Suc 31" by (rule order_less_le_trans [OF unat_u32_less]) simp
  also have "\<dots> \<le> base ^ Suc 31" using assms(1) by (intro power_mono) auto
  finally have "unat v < base ^ Suc 31" .
  from utoa_str_returns [OF assms this] obtain s where s: "utoa_str v base = Some s" "length s \<le> 32" "num_of base s = unat v"
    "\<forall>c\<in>set s. \<exists>d < base. c = digit_char d"
    by auto
  have "0 \<notin> set s" using s(4) assms(2) digit_char_neq(1) by (metis order_less_le_trans)
  then show ?thesis using s cstr_at_store by (fastforce simp: utoa_def)
qed

theorem utoa_roundtrip_witness:
  "\<exists>m' s. utoa demo_mem 255 40 16 = Some m' \<and> cstr_at m' 40 s \<and> num_of 16 s = 255"
  using utoa_roundtrip [of 16 demo_mem 255 40] by auto

end
