(* ===== verification/File_Store.thy ===== *)
theory File_Store
  imports Prelude
begin

text \<open>
  The contract of a store of files of bounded total size in which every write takes fresh
  room: what a write to one file promises about that file, about the others and about the
  room left.  The RAM disk implements it (\<^verbatim>\<open>Ramdisk\<close>); the file commands rely on
  it.
\<close>

locale file_store =
  fixes wf :: "'s \<Rightarrow> bool"
    and is_file :: "'s \<Rightarrow> 'n \<Rightarrow> bool"
    and contents :: "'s \<Rightarrow> 'n \<Rightarrow> bytes"
    and put :: "'n \<Rightarrow> bytes \<Rightarrow> 's \<Rightarrow> bool \<times> 's"
    and room :: "'s \<Rightarrow> nat"
    and limit :: nat
  assumes put_ok: "wf s \<Longrightarrow> is_file s n \<Longrightarrow> length data \<le> room s \<Longrightarrow> length data < limit \<Longrightarrow>
      \<exists>s'. put n data s = (True, s') \<and> wf s' \<and> contents s' n = data \<and> room s' = room s - length data \<and>
        (\<forall>m. is_file s' m = is_file s m) \<and> (\<forall>m. is_file s m \<and> m \<noteq> n \<longrightarrow> contents s' m = contents s m)"
    and put_refused: "wf s \<Longrightarrow> \<not> (is_file s n \<and> length data \<le> room s) \<Longrightarrow> length data < limit \<Longrightarrow>
      put n data s = (False, s)"
begin

fun puts :: "('n \<times> bytes) list \<Rightarrow> 's \<Rightarrow> bool \<times> 's" where
  "puts [] s = (True, s)"
| "puts ((n, data) # ws) s = (let (ok, s') = put n data s in if ok then puts ws s' else (False, s'))"

lemma put_wf: "wf s \<Longrightarrow> length data < limit \<Longrightarrow> wf (snd (put n data s))"
  using put_ok [of s n data] put_refused [of s n data] by (cases "is_file s n \<and> length data \<le> room s") auto

text \<open>Writes that fit together all succeed, and every file holds what was last written to it.\<close>

lemma last_write:
  assumes "wf s" and "\<forall>(n, d)\<in>set ws. is_file s n \<and> length d < limit"
    and "(\<Sum>(n, d)\<leftarrow>ws. length d) \<le> room s"
  shows "\<exists>s'. puts ws s = (True, s') \<and> wf s' \<and> room s' = room s - (\<Sum>(n, d)\<leftarrow>ws. length d) \<and>
     (\<forall>m. is_file s' m = is_file s m) \<and>
     (\<forall>m. is_file s m \<longrightarrow> contents s' m = (case map_of (rev ws) m of None \<Rightarrow> contents s m | Some d \<Rightarrow> d))"
  using assms
proof (induction ws arbitrary: s)
  case (Cons w ws)
  obtain n d where w: "w = (n, d)" by (cases w)
  obtain s1 where s1: "put n d s = (True, s1)" "wf s1" "contents s1 n = d" "room s1 = room s - length d"
      "\<forall>m. is_file s1 m = is_file s m" "\<forall>m. is_file s m \<and> m \<noteq> n \<longrightarrow> contents s1 m = contents s m"
    using put_ok [of s n d] Cons.prems w by auto
  have "\<forall>(n, d)\<in>set ws. is_file s1 n \<and> length d < limit" "(\<Sum>(n, d)\<leftarrow>ws. length d) \<le> room s1"
    using Cons.prems s1 w by auto
  then obtain s' where s': "puts ws s1 = (True, s')" "wf s'" "room s' = room s1 - (\<Sum>(n, d)\<leftarrow>ws. length d)"
      "\<forall>m. is_file s' m = is_file s1 m"
      "\<forall>m. is_file s1 m \<longrightarrow> contents s' m = (case map_of (rev ws) m of None \<Rightarrow> contents s1 m | Some d \<Rightarrow> d)"
    using Cons.IH [OF s1(2)] by blast
  show ?case
    using s' s1 w by (intro exI [of _ s']) (auto simp: map_add_def split: option.splits)
qed simp

end

end
