(* ===== verification/Ramdisk.thy ===== *)
theory Ramdisk
  imports CString File_Store
begin

text \<open>
  The RAM disk, \<^verbatim>\<open>src/src/lib/ramdisk.c\<close>: 64 nodes in parallel arrays, a
  tree threaded through first-child and next-sibling indices, and an 8192-byte pool from
  which every write takes fresh space.  Node names are the C strings the 12-byte arrays
  hold.  Walking a sibling list is a \<^theory_text>\<open>partial_function (option)\<close>: \<open>None\<close>
  is a walk that never ends, which the invariant excludes and which deleting a child of the
  root directory makes possible.
\<close>

section \<open>State\<close>

definition RAMDISK_MAX_NODES :: nat where [const_defs]: "RAMDISK_MAX_NODES = 64"
definition RAMDISK_NAME_LEN :: nat where [const_defs]: "RAMDISK_NAME_LEN = 12"
definition RAMDISK_DATA_CAP :: nat where [const_defs]: "RAMDISK_DATA_CAP = 8192"

datatype fs_node_type = FS_TYPE_FREE | FS_TYPE_DIR | FS_TYPE_FILE

record fs =
  fs_cwd :: nat
  fs_data_free :: nat
  fs_node_type :: "nat \<Rightarrow> fs_node_type"
  fs_node_parent :: "nat \<Rightarrow> nat"
  fs_node_first_child :: "nat \<Rightarrow> nat"
  fs_node_next_sibling :: "nat \<Rightarrow> nat"
  fs_node_size :: "nat \<Rightarrow> nat"
  fs_node_data_off :: "nat \<Rightarrow> nat"
  fs_node_name :: "nat \<Rightarrow> bytes"
  fs_data_pool :: "nat \<Rightarrow> u8"

section \<open>Names and paths\<close>

definition to_lower_c :: "u8 \<Rightarrow> u8" where
  "to_lower_c c = (if 65 \<le> c \<and> c \<le> 90 then c - 65 + 97 else c)"

definition fs_copy_name12_lower :: "bytes \<Rightarrow> bytes" where
  "fs_copy_name12_lower src = map to_lower_c (take (RAMDISK_NAME_LEN - 1) src)"

definition is_sep :: "u8 \<Rightarrow> bool" where "is_sep c \<longleftrightarrow> c = chr_sp \<or> c = chr_slash"

text \<open>The token and the rest of the path; no token when only separators are left.\<close>

definition fs_next_token :: "bytes \<Rightarrow> (bytes \<times> bytes) option" where
  "fs_next_token p0 =
     (let p = dropWhile is_sep p0
      in if p = [] then None
         else Some (map to_lower_c (take (RAMDISK_NAME_LEN - 1) (takeWhile (\<lambda>c. \<not> is_sep c) p)),
                    dropWhile (\<lambda>c. \<not> is_sep c) p))"

section \<open>Nodes\<close>

definition fs_alloc_node :: "fs \<Rightarrow> nat" where
  "fs_alloc_node f =
     (case List.find (\<lambda>i. fs_node_type f i = FS_TYPE_FREE) [1..<RAMDISK_MAX_NODES] of
        Some i \<Rightarrow> i | None \<Rightarrow> 0)"

partial_function (option) fs_find_loop :: "fs \<Rightarrow> bytes \<Rightarrow> nat \<Rightarrow> nat option" where
  "fs_find_loop f token n =
     (if n \<noteq> 0 then
        if fs_node_type f n \<noteq> FS_TYPE_FREE \<and> strncmp_l (fs_node_name f n) token RAMDISK_NAME_LEN = 0 then Some n
        else fs_find_loop f token (fs_node_next_sibling f n)
      else Some 0)"

definition fs_find_child :: "fs \<Rightarrow> nat \<Rightarrow> bytes \<Rightarrow> nat option" where
  "fs_find_child f parent token = fs_find_loop f token (fs_node_first_child f parent)"

definition fs_is_dir :: "fs \<Rightarrow> nat \<Rightarrow> bool" where
  "fs_is_dir f node = (if node \<ge> RAMDISK_MAX_NODES then False else fs_node_type f node = FS_TYPE_DIR)"

definition fs_is_file :: "fs \<Rightarrow> nat \<Rightarrow> bool" where
  "fs_is_file f node = (if node \<ge> RAMDISK_MAX_NODES then False else fs_node_type f node = FS_TYPE_FILE)"

definition fs_cwd_get :: "fs \<Rightarrow> nat" where "fs_cwd_get f = fs_cwd f"

definition fs_cwd_set :: "nat \<Rightarrow> fs \<Rightarrow> fs" where
  "fs_cwd_set node f = (if node < RAMDISK_MAX_NODES \<and> fs_is_dir f node then f\<lparr>fs_cwd := node\<rparr> else f)"

text \<open>The body that \<open>fs_mkdir_child\<close> and \<open>fs_create_file\<close> share but for the type.\<close>

definition fs_link_node :: "fs_node_type \<Rightarrow> nat \<Rightarrow> nat \<Rightarrow> bytes \<Rightarrow> fs \<Rightarrow> fs" where
  "fs_link_node ty n parent token f =
     (let f1 = f\<lparr>fs_node_type := (fs_node_type f)(n := ty),
                 fs_node_parent := (fs_node_parent f)(n := parent),
                 fs_node_first_child := (fs_node_first_child f)(n := 0)\<rparr>;
          f2 = f1\<lparr>fs_node_next_sibling := (fs_node_next_sibling f1)(n := fs_node_first_child f1 parent)\<rparr>
      in f2\<lparr>fs_node_first_child := (fs_node_first_child f2)(parent := n),
            fs_node_size := (fs_node_size f2)(n := 0),
            fs_node_data_off := (fs_node_data_off f2)(n := 0),
            fs_node_name := (fs_node_name f2)(n := fs_copy_name12_lower token)\<rparr>)"

definition fs_new_child :: "fs_node_type \<Rightarrow> nat \<Rightarrow> bytes option \<Rightarrow> fs \<Rightarrow> (bool \<times> fs) option" where
  "fs_new_child ty parent name f =
     (case name of None \<Rightarrow> Some (False, f)
      | Some nm \<Rightarrow>
          if parent \<ge> RAMDISK_MAX_NODES \<or> \<not> fs_is_dir f parent then Some (False, f)
          else let token = fs_copy_name12_lower nm
               in if token = [] then Some (False, f)
                  else case fs_find_child f parent token of
                         None \<Rightarrow> None
                       | Some c \<Rightarrow>
                           if c \<noteq> 0 then Some (False, f)
                           else let n = fs_alloc_node f
                                in if n = 0 then Some (False, f)
                                   else Some (True, fs_link_node ty n parent token f))"

definition fs_mkdir_child :: "nat \<Rightarrow> bytes option \<Rightarrow> fs \<Rightarrow> (bool \<times> fs) option" where
  "fs_mkdir_child parent name f = fs_new_child FS_TYPE_DIR parent name f"

definition fs_create_file :: "nat \<Rightarrow> bytes option \<Rightarrow> fs \<Rightarrow> (bool \<times> fs) option" where
  "fs_create_file parent name f = fs_new_child FS_TYPE_FILE parent name f"

section \<open>Resolving a path\<close>

partial_function (option) fs_resolve_loop :: "fs \<Rightarrow> nat \<Rightarrow> bytes \<Rightarrow> nat option option" where
  "fs_resolve_loop f cur p =
     (case fs_next_token p of
        None \<Rightarrow> Some (Some cur)
      | Some (token, p1) \<Rightarrow>
          if token = [] then Some (Some cur)
          else Option.bind
                 (if strcmp_l token [chr_dot] = 0 then Some (Some cur)
                  else if strcmp_l token [chr_dot, chr_dot] = 0
                  then Some (Some (if cur \<noteq> 0 then fs_node_parent f cur else cur))
                  else map_option (\<lambda>child. if child = 0 then None else Some child) (fs_find_child f cur token))
                 (\<lambda>next. case next of
                    None \<Rightarrow> Some None
                  | Some cur1 \<Rightarrow>
                      let p2 = dropWhile (\<lambda>c. c = chr_slash) p1
                      in if p2 = [] then Some (Some cur1) else fs_resolve_loop f cur1 p2))"

text \<open>
  \<open>fs_resolve_checked\<close> with a non-null \<open>out_node\<close>: \<open>Some (Some n)\<close> is true with
  \<open>*out_node = n\<close>, \<open>Some None\<close> is false.
\<close>

definition fs_resolve_checked :: "fs \<Rightarrow> bytes option \<Rightarrow> nat option option" where
  "fs_resolve_checked f path =
     (case path of
        None \<Rightarrow> Some (Some (fs_cwd f))
      | Some [] \<Rightarrow> Some (Some (fs_cwd f))
      | Some (c # cs) \<Rightarrow> if c = chr_slash then fs_resolve_loop f 0 cs else fs_resolve_loop f (fs_cwd f) (c # cs))"

definition fs_resolve :: "fs \<Rightarrow> bytes option \<Rightarrow> nat option" where
  "fs_resolve f path = map_option (\<lambda>r. case r of None \<Rightarrow> 0 | Some n \<Rightarrow> n) (fs_resolve_checked f path)"

section \<open>Listing and paths of nodes\<close>

text \<open>The result and the iterator that is stored; no store when \<open>dir\<close> is not a directory.\<close>

definition fs_list_begin :: "fs \<Rightarrow> nat \<Rightarrow> bool \<times> nat option" where
  "fs_list_begin f dir =
     (if \<not> fs_is_dir f dir then (False, None)
      else (fs_node_first_child f dir \<noteq> 0, Some (fs_node_first_child f dir)))"

text \<open>The child and the advanced iterator.\<close>

definition fs_list_next :: "fs \<Rightarrow> nat \<Rightarrow> (nat \<times> nat) option" where
  "fs_list_next f iter = (if iter = 0 then None else Some (iter, fs_node_next_sibling f iter))"

definition fs_get_name :: "fs \<Rightarrow> nat \<Rightarrow> bytes" where
  "fs_get_name f node = (if node \<ge> RAMDISK_MAX_NODES then [] else fs_node_name f node)"

text \<open>The first loop of \<open>fs_build_path\<close> collects the nodes up to the root, at most 64.\<close>

function path_stack :: "fs \<Rightarrow> nat \<Rightarrow> nat \<Rightarrow> nat list" where
  "path_stack f depth cur =
     cur # (if cur = 0 then []
            else if depth + 1 \<ge> RAMDISK_MAX_NODES then []
            else path_stack f (depth + 1) (fs_node_parent f cur))"
  by pat_completeness auto
termination
  by (relation "measure (\<lambda>(f, depth, cur). RAMDISK_MAX_NODES - depth)") auto

declare path_stack.simps [simp del]

text \<open>
  The second loop appends the names from the top of the stack; \<open>Inl\<close> is the early return
  on a full buffer.
\<close>

fun path_put :: "nat \<Rightarrow> bytes \<Rightarrow> bytes \<Rightarrow> bytes + bytes" where
  "path_put buf_size buf [] = Inr buf"
| "path_put buf_size buf (c # cs) =
     (if length buf + 1 \<ge> buf_size then Inl buf else path_put buf_size (buf @ [c]) cs)"

fun path_names :: "fs \<Rightarrow> nat \<Rightarrow> bytes \<Rightarrow> nat list \<Rightarrow> bytes + bytes" where
  "path_names f buf_size buf [] = Inr buf"
| "path_names f buf_size buf (n # ns) =
     (if n = 0 then path_names f buf_size buf ns
      else case path_put buf_size buf (take RAMDISK_NAME_LEN (fs_node_name f n)) of
             Inl b \<Rightarrow> Inl b
           | Inr b \<Rightarrow>
               if ns = [] then path_names f buf_size b ns
               else case path_put buf_size b [chr_slash] of
                      Inl b' \<Rightarrow> Inl b'
                    | Inr b' \<Rightarrow> path_names f buf_size b' ns)"

text \<open>The string left in \<open>buf\<close>; \<open>None\<close> when nothing is stored.\<close>

definition fs_build_path :: "fs \<Rightarrow> nat \<Rightarrow> bool \<Rightarrow> nat \<Rightarrow> bytes option" where
  "fs_build_path f node buf_null buf_size =
     (if buf_null \<or> buf_size = 0 then None
      else if node \<ge> RAMDISK_MAX_NODES then Some []
      else case path_names f buf_size [chr_slash] (rev (path_stack f 0 node)) of
             Inl b \<Rightarrow> Some (take (buf_size - 1) b)
           | Inr b \<Rightarrow> Some (take (if length b \<ge> buf_size then buf_size - 1 else length b) b))"

section \<open>Deleting, reading and writing\<close>

partial_function (option) fs_prev_loop :: "fs \<Rightarrow> nat \<Rightarrow> nat \<Rightarrow> nat option" where
  "fs_prev_loop f node cur =
     (if cur \<noteq> 0 \<and> fs_node_next_sibling f cur \<noteq> node then fs_prev_loop f node (fs_node_next_sibling f cur)
      else Some cur)"

definition fs_unlink :: "nat \<Rightarrow> fs \<Rightarrow> fs option" where
  "fs_unlink node f =
     (let parent = fs_node_parent f node
      in if parent \<noteq> 0 then
           let cur = fs_node_first_child f parent
           in if cur = node
              then Some (f\<lparr>fs_node_first_child := (fs_node_first_child f)(parent := fs_node_next_sibling f node)\<rparr>)
              else map_option
                     (\<lambda>cur. if cur \<noteq> 0
                        then f\<lparr>fs_node_next_sibling := (fs_node_next_sibling f)(cur := fs_node_next_sibling f node)\<rparr>
                        else f)
                     (fs_prev_loop f node cur)
         else Some f)"

definition fs_delete :: "nat \<Rightarrow> fs \<Rightarrow> (bool \<times> fs) option" where
  "fs_delete node f =
     (if node = 0 \<or> node \<ge> RAMDISK_MAX_NODES \<or> fs_node_type f node = FS_TYPE_FREE then Some (False, f)
      else if fs_node_type f node = FS_TYPE_DIR \<and> fs_node_first_child f node \<noteq> 0 then Some (False, f)
      else map_option (\<lambda>f1. (True, f1\<lparr>fs_node_type := (fs_node_type f1)(node := FS_TYPE_FREE)\<rparr>)) (fs_unlink node f))"

text \<open>The result and the bytes stored at \<open>buf\<close>.\<close>

definition fs_read :: "fs \<Rightarrow> nat \<Rightarrow> bool \<Rightarrow> int \<Rightarrow> int \<times> bytes" where
  "fs_read f node buf_null sz =
     (if node \<ge> RAMDISK_MAX_NODES \<or> \<not> fs_is_file f node \<or> buf_null then (-1, [])
      else let actual0 = int (fs_node_size f node);
               actual = (if sz < actual0 then sz else actual0)
           in (actual, if actual > 0
                       then map (\<lambda>i. fs_data_pool f (fs_node_data_off f node + i)) [0..<nat actual] else []))"

text \<open>
  \<open>buf\<close> is \<open>None\<close> when null, else the \<open>size\<close> bytes it points at.  The sum
  \<open>fs_data_free + size\<close> is a 32-bit \<open>int\<close>.
\<close>

definition fs_write :: "nat \<Rightarrow> bytes option \<Rightarrow> int \<Rightarrow> fs \<Rightarrow> bool \<times> fs" where
  "fs_write node buf sz f =
     (if node \<ge> RAMDISK_MAX_NODES \<or> \<not> fs_is_file f node \<or> sz < 0 then (False, f)
      else if sz > 0 \<and> buf = None then (False, f)
      else if sint (word_of_int (int (fs_data_free f) + sz) :: u32) > int RAMDISK_DATA_CAP then (False, f)
      else let f1 = f\<lparr>fs_node_data_off := (fs_node_data_off f)(node := fs_data_free f),
                      fs_node_size := (fs_node_size f)(node := nat sz mod 65536)\<rparr>
           in (True, if sz > 0
                     then f1\<lparr>fs_data_pool := (\<lambda>a. if fs_data_free f \<le> a \<and> a < fs_data_free f + nat sz
                                                 then the buf ! (a - fs_data_free f) else fs_data_pool f1 a),
                             fs_data_free := (fs_data_free f + nat sz mod 65536) mod 65536\<rparr>
                     else f1))"

section \<open>The demo files\<close>

text \<open>
  The path that \<open>ramdisk_write_demo_file\<close> resolves: the name itself, or the path of the
  parent with the name appended when it fits the 24-byte array.
\<close>

definition demo_path :: "fs \<Rightarrow> nat \<Rightarrow> bytes \<Rightarrow> bytes option" where
  "demo_path f parent name =
     (if parent \<noteq> 0 then
        case fs_build_path f parent False (RAMDISK_NAME_LEN * 2) of
          None \<Rightarrow> None
        | Some path \<Rightarrow>
            if length path + 1 + length name + 1 < RAMDISK_NAME_LEN * 2
            then Some ((if strcmp_l path [chr_slash] \<noteq> 0 then path @ [chr_slash] else path) @ name)
            else None
      else None)"

definition ramdisk_write_demo_file :: "nat \<Rightarrow> bytes \<Rightarrow> bytes \<Rightarrow> fs \<Rightarrow> fs option" where
  "ramdisk_write_demo_file parent name data f =
     (case fs_create_file parent (Some name) f of
        None \<Rightarrow> None
      | Some (ok, f1) \<Rightarrow>
          if \<not> ok then Some f1
          else case fs_resolve f1 (Some name) of
                 None \<Rightarrow> None
               | Some node0 \<Rightarrow>
                   (case (case demo_path f1 parent name of None \<Rightarrow> Some node0 | Some path \<Rightarrow> fs_resolve f1 (Some path)) of
                      None \<Rightarrow> None
                    | Some node \<Rightarrow>
                        if node \<noteq> 0 then Some (snd (fs_write node (Some data) (int (length data)) f1)) else Some f1))"

definition ppm_pixel :: "nat \<Rightarrow> nat \<Rightarrow> bytes" where
  "ppm_pixel x y =
     (if 9 < x \<and> x < 22 \<and> 7 < y \<and> y < 18 then [245, 244, 232]
      else [byte_of_nat (40 + x * 5), byte_of_nat (110 + y * 4), byte_of_nat (160 + (x + y) * 2)])"

definition ppm :: bytes where
  "ppm = [80, 54, 10, 51, 50, 32, 50, 52, 10, 50, 53, 53, 10] @
         concat (map (\<lambda>y. concat (map (\<lambda>x. ppm_pixel x y) [0..<32])) [0..<24])"

definition ramdisk_seed_ppm_demo :: "nat \<Rightarrow> bytes \<Rightarrow> fs \<Rightarrow> fs option" where
  "ramdisk_seed_ppm_demo parent name f = ramdisk_write_demo_file parent name ppm f"

definition hjar :: bytes where
  "hjar =
   [72, 74, 65, 82, 1, 252, 25, 72, 101, 97, 116, 79, 83, 32, 74, 65, 82, 32, 100, 101, 109, 111,
    32, 115, 116, 97, 114, 116, 101, 100, 10, 252, 18, 82, 117, 110, 110, 105, 110, 103, 32, 102,
    114, 111, 109, 32, 47, 106, 97, 118, 97, 252, 1, 10, 16, 7, 16, 5, 96, 252, 8, 55, 32, 43, 32,
    53, 32, 61, 32, 254, 177]"

definition ramdisk_seed_java_demo :: "nat \<Rightarrow> bytes \<Rightarrow> fs \<Rightarrow> fs option" where
  "ramdisk_seed_java_demo parent name f = ramdisk_write_demo_file parent name hjar f"

definition zipjar :: bytes where
  "zipjar =
   [80, 75, 3, 4, 20, 0, 0, 0, 0, 0, 0, 0, 0, 0, 0, 0, 0, 0, 15, 0, 0, 0, 15, 0, 0, 0, 9, 0, 0, 0,
    104, 101, 108, 108, 111, 46, 116, 120, 116, 104, 101, 108, 108, 111, 32, 102, 114, 111, 109,
    32, 106, 97, 114, 10, 80, 75, 1, 2, 20, 0, 20, 0, 0, 0, 0, 0, 0, 0, 0, 0, 0, 0, 0, 0, 15, 0, 0,
    0, 15, 0, 0, 0, 9, 0, 0, 0, 0, 0, 0, 0, 0, 0, 0, 0, 0, 0, 0, 0, 0, 0, 104, 101, 108, 108, 111,
    46, 116, 120, 116, 80, 75, 5, 6, 0, 0, 0, 0, 1, 0, 1, 0, 55, 0, 0, 0, 54, 0, 0, 0, 0, 0]"

definition ramdisk_seed_zip_jar_demo :: "nat \<Rightarrow> bytes \<Rightarrow> fs \<Rightarrow> fs option" where
  "ramdisk_seed_zip_jar_demo parent name f = ramdisk_write_demo_file parent name zipjar f"

definition tinyjvm_hello_class :: bytes where
  "tinyjvm_hello_class =
   [202, 254, 186, 190, 0, 0, 0, 52, 0, 29, 1, 0, 5, 72, 101, 108, 108, 111, 7, 0, 1, 1, 0, 16,
    106, 97, 118, 97, 47, 108, 97, 110, 103, 47, 79, 98, 106, 101, 99, 116, 7, 0, 3, 1, 0, 6, 60,
    105, 110, 105, 116, 62, 1, 0, 3, 40, 41, 86, 12, 0, 5, 0, 6, 10, 0, 4, 0, 7, 1, 0, 16, 106, 97,
    118, 97, 47, 108, 97, 110, 103, 47, 83, 121, 115, 116, 101, 109, 7, 0, 9, 1, 0, 3, 111, 117,
    116, 1, 0, 21, 76, 106, 97, 118, 97, 47, 105, 111, 47, 80, 114, 105, 110, 116, 83, 116, 114,
    101, 97, 109, 59, 12, 0, 11, 0, 12, 9, 0, 10, 0, 13, 1, 0, 19, 106, 97, 118, 97, 47, 105, 111,
    47, 80, 114, 105, 110, 116, 83, 116, 114, 101, 97, 109, 7, 0, 15, 1, 0, 7, 112, 114, 105, 110,
    116, 108, 110, 1, 0, 21, 40, 76, 106, 97, 118, 97, 47, 108, 97, 110, 103, 47, 83, 116, 114,
    105, 110, 103, 59, 41, 86, 12, 0, 17, 0, 18, 10, 0, 16, 0, 19, 1, 0, 18, 72, 101, 108, 108,
    111, 32, 102, 114, 111, 109, 32, 84, 105, 110, 121, 74, 86, 77, 8, 0, 21, 1, 0, 4, 40, 73, 41,
    86, 12, 0, 17, 0, 23, 10, 0, 16, 0, 24, 1, 0, 4, 67, 111, 100, 101, 1, 0, 4, 109, 97, 105, 110,
    1, 0, 22, 40, 91, 76, 106, 97, 118, 97, 47, 108, 97, 110, 103, 47, 83, 116, 114, 105, 110, 103,
    59, 41, 86, 0, 33, 0, 2, 0, 4, 0, 0, 0, 0, 0, 1, 0, 9, 0, 27, 0, 28, 0, 1, 0, 26, 0, 0, 0, 29,
    0, 2, 0, 1, 0, 0, 0, 17, 178, 0, 14, 18, 22, 182, 0, 20, 178, 0, 14, 16, 12, 182, 0, 25, 177,
    0, 0, 0, 0, 0, 0]"

definition ramdisk_seed_class_demo :: "nat \<Rightarrow> bytes \<Rightarrow> fs \<Rightarrow> fs option" where
  "ramdisk_seed_class_demo parent name f = ramdisk_write_demo_file parent name tinyjvm_hello_class f"

definition tinyjvm_hello_jar :: bytes where
  "tinyjvm_hello_jar =
   [80, 75, 3, 4, 20, 0, 0, 0, 0, 0, 92, 156, 114, 92, 73, 89, 133, 142, 44, 0, 0, 0, 44, 0, 0, 0,
    20, 0, 0, 0, 77, 69, 84, 65, 45, 73, 78, 70, 47, 77, 65, 78, 73, 70, 69, 83, 84, 46, 77, 70,
    77, 97, 110, 105, 102, 101, 115, 116, 45, 86, 101, 114, 115, 105, 111, 110, 58, 32, 49, 46, 48,
    13, 10, 77, 97, 105, 110, 45, 67, 108, 97, 115, 115, 58, 32, 72, 101, 108, 108, 111, 13, 10,
    13, 10, 80, 75, 3, 4, 20, 0, 0, 0, 0, 0, 92, 156, 114, 92, 205, 6, 82, 122, 80, 1, 0, 0, 80, 1,
    0, 0, 11, 0, 0, 0, 72, 101, 108, 108, 111, 46, 99, 108, 97, 115, 115, 202, 254, 186, 190, 0, 0,
    0, 52, 0, 29, 1, 0, 5, 72, 101, 108, 108, 111, 7, 0, 1, 1, 0, 16, 106, 97, 118, 97, 47, 108,
    97, 110, 103, 47, 79, 98, 106, 101, 99, 116, 7, 0, 3, 1, 0, 6, 60, 105, 110, 105, 116, 62, 1,
    0, 3, 40, 41, 86, 12, 0, 5, 0, 6, 10, 0, 4, 0, 7, 1, 0, 16, 106, 97, 118, 97, 47, 108, 97, 110,
    103, 47, 83, 121, 115, 116, 101, 109, 7, 0, 9, 1, 0, 3, 111, 117, 116, 1, 0, 21, 76, 106, 97,
    118, 97, 47, 105, 111, 47, 80, 114, 105, 110, 116, 83, 116, 114, 101, 97, 109, 59, 12, 0, 11,
    0, 12, 9, 0, 10, 0, 13, 1, 0, 19, 106, 97, 118, 97, 47, 105, 111, 47, 80, 114, 105, 110, 116,
    83, 116, 114, 101, 97, 109, 7, 0, 15, 1, 0, 7, 112, 114, 105, 110, 116, 108, 110, 1, 0, 21, 40,
    76, 106, 97, 118, 97, 47, 108, 97, 110, 103, 47, 83, 116, 114, 105, 110, 103, 59, 41, 86, 12,
    0, 17, 0, 18, 10, 0, 16, 0, 19, 1, 0, 18, 72, 101, 108, 108, 111, 32, 102, 114, 111, 109, 32,
    84, 105, 110, 121, 74, 86, 77, 8, 0, 21, 1, 0, 4, 40, 73, 41, 86, 12, 0, 17, 0, 23, 10, 0, 16,
    0, 24, 1, 0, 4, 67, 111, 100, 101, 1, 0, 4, 109, 97, 105, 110, 1, 0, 22, 40, 91, 76, 106, 97,
    118, 97, 47, 108, 97, 110, 103, 47, 83, 116, 114, 105, 110, 103, 59, 41, 86, 0, 33, 0, 2, 0, 4,
    0, 0, 0, 0, 0, 1, 0, 9, 0, 27, 0, 28, 0, 1, 0, 26, 0, 0, 0, 29, 0, 2, 0, 1, 0, 0, 0, 17, 178,
    0, 14, 18, 22, 182, 0, 20, 178, 0, 14, 16, 12, 182, 0, 25, 177, 0, 0, 0, 0, 0, 0, 80, 75, 1, 2,
    20, 0, 20, 0, 0, 0, 0, 0, 92, 156, 114, 92, 73, 89, 133, 142, 44, 0, 0, 0, 44, 0, 0, 0, 20, 0,
    0, 0, 0, 0, 0, 0, 0, 0, 0, 0, 128, 1, 0, 0, 0, 0, 77, 69, 84, 65, 45, 73, 78, 70, 47, 77, 65,
    78, 73, 70, 69, 83, 84, 46, 77, 70, 80, 75, 1, 2, 20, 0, 20, 0, 0, 0, 0, 0, 92, 156, 114, 92,
    205, 6, 82, 122, 80, 1, 0, 0, 80, 1, 0, 0, 11, 0, 0, 0, 0, 0, 0, 0, 0, 0, 0, 0, 128, 1, 94, 0,
    0, 0, 72, 101, 108, 108, 111, 46, 99, 108, 97, 115, 115, 80, 75, 5, 6, 0, 0, 0, 0, 2, 0, 2, 0,
    123, 0, 0, 0, 215, 1, 0, 0, 0, 0]"

definition ramdisk_seed_tinyjvm_jar_demo :: "nat \<Rightarrow> bytes \<Rightarrow> fs \<Rightarrow> fs option" where
  "ramdisk_seed_tinyjvm_jar_demo parent name f = ramdisk_write_demo_file parent name tinyjvm_hello_jar f"

definition demo_text :: bytes where
  "demo_text =
     lit ''HeatOS demo files'' @ [10] @
     lit ''- sample.ppm : image preview test'' @ [10] @
     lit ''- tinyjvm.jar: TinyJVM runnable jar demo'' @ [10] @
     lit ''- hello.class: TinyJVM direct class demo'' @ [10] @
     lit ''- hello.jar  : HeatOS mini-Java archive (HJAR)'' @ [10] @
     lit ''- sample.jar : ZIP/JAR parsing demo'' @ [10]"

definition ramdisk_seed_text_demo :: "nat \<Rightarrow> bytes \<Rightarrow> fs \<Rightarrow> fs option" where
  "ramdisk_seed_text_demo parent name f = ramdisk_write_demo_file parent name demo_text f"

definition ramdisk_seed_demo_files :: "fs \<Rightarrow> fs option" where
  "ramdisk_seed_demo_files f =
     Option.bind (fs_resolve f (Some (lit ''/home''))) (\<lambda>home.
     Option.bind (fs_resolve f (Some (lit ''/java''))) (\<lambda>java.
     Option.bind (if home \<noteq> 0 then Option.bind (ramdisk_seed_ppm_demo home (lit ''sample.ppm'') f)
                      (ramdisk_seed_text_demo home (lit ''readme.txt'')) else Some f) (\<lambda>f1.
     if java \<noteq> 0 then
       Option.bind (ramdisk_seed_tinyjvm_jar_demo java (lit ''tinyjvm.jar'') f1) (\<lambda>f2.
       Option.bind (ramdisk_seed_class_demo java (lit ''hello.class'') f2) (\<lambda>f3.
       Option.bind (ramdisk_seed_java_demo java (lit ''hello.jar'') f3)
         (ramdisk_seed_zip_jar_demo java (lit ''sample.jar''))))
     else Some f1)))"

section \<open>Initialisation\<close>

definition fs_cleared :: fs where
  "fs_cleared = \<lparr>fs_cwd = 0, fs_data_free = 0, fs_node_type = (\<lambda>_. FS_TYPE_FREE)(0 := FS_TYPE_DIR),
     fs_node_parent = (\<lambda>_. 0), fs_node_first_child = (\<lambda>_. 0), fs_node_next_sibling = (\<lambda>_. 0),
     fs_node_size = (\<lambda>_. 0), fs_node_data_off = (\<lambda>_. 0), fs_node_name = (\<lambda>_. []), fs_data_pool = (\<lambda>_. 0)\<rparr>"

fun fs_mkdirs :: "nat \<Rightarrow> bytes list \<Rightarrow> fs \<Rightarrow> fs option" where
  "fs_mkdirs parent [] f = Some f"
| "fs_mkdirs parent (nm # nms) f =
     Option.bind (fs_mkdir_child parent (Some nm) f) (\<lambda>(_, f1). fs_mkdirs parent nms f1)"

definition ramdisk_init :: "fs option" where
  "ramdisk_init =
     Option.bind (fs_mkdirs 0 [lit ''apps'', lit ''docs'', lit ''home'', lit ''java'', lit ''plasma'', lit ''system''] fs_cleared) (\<lambda>f1.
     Option.bind (fs_resolve f1 (Some (lit ''/plasma''))) (\<lambda>plasma_root.
     Option.bind (if plasma_root \<noteq> 0 then fs_mkdirs plasma_root [lit ''apps'', lit ''config'', lit ''session''] f1 else Some f1)
       ramdisk_seed_demo_files))"

section \<open>The tree invariant\<close>

lemma MAX_NODES_pos [simp]: "0 < RAMDISK_MAX_NODES"
  by (simp add: const_defs)

fun siblings :: "fs \<Rightarrow> nat \<Rightarrow> nat list \<Rightarrow> bool" where
  "siblings f n [] \<longleftrightarrow> n = 0"
| "siblings f n (x # xs) \<longleftrightarrow> n = x \<and> x \<noteq> 0 \<and> siblings f (fs_node_next_sibling f x) xs"

definition name_ok :: "bytes \<Rightarrow> bool" where
  "name_ok nm \<longleftrightarrow> nm \<noteq> [] \<and> length nm < RAMDISK_NAME_LEN \<and> 0 \<notin> set nm \<and> map to_lower_c nm = nm"

definition live :: "fs \<Rightarrow> nat \<Rightarrow> bool" where
  "live f n \<longleftrightarrow> n < RAMDISK_MAX_NODES \<and> fs_node_type f n \<noteq> FS_TYPE_FREE"

definition extent :: "fs \<Rightarrow> nat \<Rightarrow> nat set" where
  "extent f n = {fs_node_data_off f n..<fs_node_data_off f n + fs_node_size f n}"

text \<open>
  \<open>ch d\<close> is the list of children of \<open>d\<close> and \<open>rk\<close> a rank that grows from parent to
  child: the live nodes form a tree with root 0.
\<close>

definition tree_inv :: "fs \<Rightarrow> (nat \<Rightarrow> nat list) \<Rightarrow> (nat \<Rightarrow> nat) \<Rightarrow> bool" where
  "tree_inv f ch rk \<longleftrightarrow> fs_node_type f 0 = FS_TYPE_DIR \<and> fs_cwd f < RAMDISK_MAX_NODES \<and>
     (\<forall>d<RAMDISK_MAX_NODES. siblings f (fs_node_first_child f d) (ch d) \<and> distinct (map (fs_node_name f) (ch d)) \<and>
        (fs_node_type f d \<noteq> FS_TYPE_DIR \<longrightarrow> ch d = []) \<and>
        (\<forall>c\<in>set (ch d). live f c \<and> c \<noteq> 0 \<and> fs_node_parent f c = d \<and> name_ok (fs_node_name f c))) \<and>
     (\<forall>n. live f n \<and> n \<noteq> 0 \<longrightarrow> n \<in> set (ch (fs_node_parent f n)) \<and> rk (fs_node_parent f n) < rk n) \<and>
     (\<forall>n<RAMDISK_MAX_NODES. fs_node_parent f n < RAMDISK_MAX_NODES \<and> 0 \<notin> set (fs_node_name f n))"

definition data_inv :: "fs \<Rightarrow> bool" where
  "data_inv f \<longleftrightarrow> fs_data_free f \<le> RAMDISK_DATA_CAP \<and>
     (\<forall>n<RAMDISK_MAX_NODES. fs_node_type f n = FS_TYPE_FILE \<longrightarrow> fs_node_data_off f n + fs_node_size f n \<le> fs_data_free f) \<and>
     (\<forall>n<RAMDISK_MAX_NODES. \<forall>k<RAMDISK_MAX_NODES. fs_node_type f n = FS_TYPE_FILE \<and> fs_node_type f k = FS_TYPE_FILE \<and> n \<noteq> k \<longrightarrow>
        extent f n \<inter> extent f k = {})"

definition fs_wf :: "fs \<Rightarrow> bool" where
  "fs_wf f \<longleftrightarrow> (\<exists>ch rk. tree_inv f ch rk) \<and> data_inv f"

definition fs_contents :: "fs \<Rightarrow> nat \<Rightarrow> bytes" where
  "fs_contents f n = map (\<lambda>i. fs_data_pool f (fs_node_data_off f n + i)) [0..<fs_node_size f n]"

lemma length_fs_contents [simp]: "length (fs_contents f n) = fs_node_size f n"
  by (simp add: fs_contents_def)

text \<open>The pure lookup of a child by name, by which the walks are described.\<close>

definition children :: "fs \<Rightarrow> nat \<Rightarrow> nat set" where
  "children f d = {c. live f c \<and> c \<noteq> 0 \<and> fs_node_parent f c = d}"

lemma to_lower_nonzero [simp]: "to_lower_c c = 0 \<longleftrightarrow> c = 0"
  by (auto simp: to_lower_c_def word_le_nat_alt unat_word_ariths) (auto simp: word_less_nat_alt word_unat_eq_iff unat_word_ariths)

lemma to_lower_idem [simp]: "to_lower_c (to_lower_c c) = to_lower_c c"
proof (cases "65 \<le> c \<and> c \<le> 90")
  case True
  then have "unat (c - 65 + 97) = unat c + 32"
    by (auto simp: word_le_nat_alt unat_word_ariths unat_sub)
  then show ?thesis using True by (auto simp: to_lower_c_def word_le_nat_alt)
qed (auto simp: to_lower_c_def)

lemma name_eq: "strncmp_l a b RAMDISK_NAME_LEN = 0 \<longleftrightarrow> a = b"
  if "length a < RAMDISK_NAME_LEN" "length b < RAMDISK_NAME_LEN" "0 \<notin> set a" "0 \<notin> set b"
  using that by (simp add: strncmp_l_0_iff)

lemma fs_find_loop_list:
  assumes "siblings f n xs" and "\<forall>x\<in>set xs. name_ok (fs_node_name f x)"
    and "length token < RAMDISK_NAME_LEN" and "0 \<notin> set token"
  shows "fs_find_loop f token n =
     Some (case List.find (\<lambda>x. fs_node_type f x \<noteq> FS_TYPE_FREE \<and> fs_node_name f x = token) xs of None \<Rightarrow> 0 | Some x \<Rightarrow> x)"
  using assms(1,2)
proof (induction xs arbitrary: n)
  case Nil
  then show ?case by (simp add: fs_find_loop.simps)
next
  case (Cons x xs)
  then show ?case using assms(3,4)
    by (subst fs_find_loop.simps) (auto simp: name_eq name_ok_def)
qed

lemma fs_find_loop_siblings:
  assumes "siblings f n xs" and "\<forall>x\<in>set xs. live f x \<and> name_ok (fs_node_name f x)"
    and "length token < RAMDISK_NAME_LEN" and "0 \<notin> set token"
  shows "fs_find_loop f token n =
     Some (case List.find (\<lambda>x. fs_node_name f x = token) xs of None \<Rightarrow> 0 | Some x \<Rightarrow> x)"
proof -
  have "List.find (\<lambda>x. fs_node_type f x \<noteq> FS_TYPE_FREE \<and> fs_node_name f x = token) xs = List.find (\<lambda>x. fs_node_name f x = token) xs"
    using assms(2) by (intro find_cong) (auto simp: live_def)
  then show ?thesis using fs_find_loop_list [of f n xs token] assms by simp
qed

lemma tree_inv_children: "tree_inv f ch rk \<Longrightarrow> d < RAMDISK_MAX_NODES \<Longrightarrow> set (ch d) = children f d"
  unfolding tree_inv_def children_def by blast

lemma tree_inv_dir:
  "tree_inv f ch rk \<Longrightarrow> d < RAMDISK_MAX_NODES \<Longrightarrow>
   siblings f (fs_node_first_child f d) (ch d) \<and> distinct (map (fs_node_name f) (ch d)) \<and>
   (fs_node_type f d \<noteq> FS_TYPE_DIR \<longrightarrow> ch d = []) \<and> (\<forall>c\<in>set (ch d). name_ok (fs_node_name f c))"
  unfolding tree_inv_def by blast

lemma children_name_ok: "tree_inv f ch rk \<Longrightarrow> d < RAMDISK_MAX_NODES \<Longrightarrow> c \<in> children f d \<Longrightarrow> name_ok (fs_node_name f c)"
  using tree_inv_dir tree_inv_children by blast

lemma children_name_inj:
  assumes "tree_inv f ch rk" and "d < RAMDISK_MAX_NODES" and "c \<in> children f d" and "e \<in> children f d"
    and "fs_node_name f c = fs_node_name f e"
  shows "c = e"
  using assms tree_inv_dir [OF assms(1,2)] tree_inv_children [OF assms(1,2)]
  by (auto simp: distinct_map dest: inj_onD)

lemma find_SomeD': "List.find P xs = Some x \<Longrightarrow> P x \<and> x \<in> set xs"
  by (auto simp: find_Some_iff)

lemma fs_find_child_spec:
  assumes inv: "tree_inv f ch rk" and d: "d < RAMDISK_MAX_NODES"
    and tok: "length token < RAMDISK_NAME_LEN" "0 \<notin> set token"
  obtains r where "fs_find_child f d token = Some r" "r = 0 \<Longrightarrow> \<forall>c\<in>children f d. fs_node_name f c \<noteq> token"
    "r \<noteq> 0 \<Longrightarrow> r \<in> children f d \<and> fs_node_name f r = token"
proof -
  note t = tree_inv_dir [OF inv d] and c = tree_inv_children [OF inv d]
  have l: "\<forall>x\<in>set (ch d). live f x \<and> name_ok (fs_node_name f x)" using t c by (auto simp: children_def)
  define r where "r = (case List.find (\<lambda>x. fs_node_name f x = token) (ch d) of None \<Rightarrow> 0 | Some x \<Rightarrow> x)"
  have "fs_find_child f d token = Some r"
    using fs_find_loop_siblings [OF _ l tok] t by (simp add: fs_find_child_def r_def)
  moreover have "\<forall>c\<in>children f d. fs_node_name f c \<noteq> token" if "r = 0"
    using that c by (auto simp: r_def find_None_iff children_def split: option.splits dest!: find_SomeD')
  moreover have "r \<in> children f d \<and> fs_node_name f r = token" if "r \<noteq> 0"
    using that c by (auto simp: r_def split: option.splits dest: find_SomeD')
  ultimately show thesis using that by blast
qed

lemma fs_find_child_is:
  assumes "tree_inv f ch rk" and "c \<in> children f d" and "d < RAMDISK_MAX_NODES"
  shows "fs_find_child f d (fs_node_name f c) = Some c"
proof -
  have n: "name_ok (fs_node_name f c)" using children_name_ok assms by blast
  then obtain r where "fs_find_child f d (fs_node_name f c) = Some r"
      "r = 0 \<Longrightarrow> \<forall>e\<in>children f d. fs_node_name f e \<noteq> fs_node_name f c"
      "r \<noteq> 0 \<Longrightarrow> r \<in> children f d \<and> fs_node_name f r = fs_node_name f c"
    using fs_find_child_spec [OF assms(1,3), of "fs_node_name f c"] by (auto simp: name_ok_def)
  then show ?thesis using children_name_inj [OF assms(1,3) _ assms(2)] assms(2) by blast
qed

section \<open>Creating nodes\<close>

lemma fs_alloc_node_free:
  "fs_alloc_node f \<noteq> 0 \<Longrightarrow> fs_alloc_node f < RAMDISK_MAX_NODES \<and> fs_node_type f (fs_alloc_node f) = FS_TYPE_FREE"
  by (auto simp: fs_alloc_node_def split: option.splits dest: find_SomeD')

lemma fs_alloc_node_full:
  "fs_alloc_node f = 0 \<longleftrightarrow> (\<forall>n. 0 < n \<and> n < RAMDISK_MAX_NODES \<longrightarrow> fs_node_type f n \<noteq> FS_TYPE_FREE)"
  by (auto simp: fs_alloc_node_def find_None_iff split: option.splits dest: find_SomeD')

lemma siblings_cong:
  "(\<And>x. x \<in> set xs \<Longrightarrow> fs_node_next_sibling f' x = fs_node_next_sibling f x) \<Longrightarrow> siblings f' n xs = siblings f n xs"
  by (induction xs arbitrary: n) auto

lemma link_fields:
  assumes "n \<noteq> parent"
  shows "fs_node_type (fs_link_node ty n parent tok f) = (fs_node_type f)(n := ty)"
    "fs_node_parent (fs_link_node ty n parent tok f) = (fs_node_parent f)(n := parent)"
    "fs_node_first_child (fs_link_node ty n parent tok f) = (fs_node_first_child f)(n := 0, parent := n)"
    "fs_node_next_sibling (fs_link_node ty n parent tok f) = (fs_node_next_sibling f)(n := fs_node_first_child f parent)"
    "fs_node_name (fs_link_node ty n parent tok f) = (fs_node_name f)(n := fs_copy_name12_lower tok)"
    "fs_node_size (fs_link_node ty n parent tok f) = (fs_node_size f)(n := 0)"
    "fs_node_data_off (fs_link_node ty n parent tok f) = (fs_node_data_off f)(n := 0)"
    "fs_data_pool (fs_link_node ty n parent tok f) = fs_data_pool f"
    "fs_data_free (fs_link_node ty n parent tok f) = fs_data_free f"
    "fs_cwd (fs_link_node ty n parent tok f) = fs_cwd f"
  using assms by (simp_all add: fs_link_node_def Let_def)

lemma copy_name_idem: "length tok < RAMDISK_NAME_LEN \<Longrightarrow> map to_lower_c tok = tok \<Longrightarrow> fs_copy_name12_lower tok = tok"
  by (simp add: fs_copy_name12_lower_def const_defs)

lemma copy_name_ok: "0 \<notin> set nm \<Longrightarrow> fs_copy_name12_lower nm \<noteq> [] \<Longrightarrow> name_ok (fs_copy_name12_lower nm)"
  by (auto simp: name_ok_def fs_copy_name12_lower_def const_defs dest: in_set_takeD)

lemma link_tree_inv:
  assumes inv: "tree_inv f ch rk" and n: "n \<noteq> 0" "n < RAMDISK_MAX_NODES" "fs_node_type f n = FS_TYPE_FREE"
    and d: "d < RAMDISK_MAX_NODES" "fs_node_type f d = FS_TYPE_DIR" and ty: "ty \<noteq> FS_TYPE_FREE"
    and tok: "name_ok tok" "\<forall>c\<in>children f d. fs_node_name f c \<noteq> tok"
  shows "tree_inv (fs_link_node ty n d tok f) (ch(n := [], d := n # ch d)) (rk(n := Suc (rk d)))"
proof -
  let ?f = "fs_link_node ty n d tok f" and ?ch = "ch(n := [], d := n # ch d)"
  have nd: "n \<noteq> d" using n(3) d(2) by auto
  note F = link_fields [OF nd, of ty tok f]
  have nm: "fs_copy_name12_lower tok = tok" using copy_name_idem tok(1) by (simp add: name_ok_def)
  have chn: "ch n = []" using inv n by (simp add: tree_inv_def)
  have fresh: "n \<notin> set (ch e)" if "e < RAMDISK_MAX_NODES" for e
    using tree_inv_children [OF inv that] n(3) by (auto simp: children_def live_def)
  have sib: "siblings ?f m (ch e) = siblings f m (ch e)" if "e < RAMDISK_MAX_NODES" for e m
    using fresh [OF that] by (intro siblings_cong) (auto simp: F)
  have lv: "live ?f c \<longleftrightarrow> live f c \<or> c = n" for c using n(2) ty by (auto simp: live_def F)
  have names: "map (fs_node_name ?f) (ch e) = map (fs_node_name f) (ch e)" if "e < RAMDISK_MAX_NODES" for e
    using fresh [OF that] by (auto simp: F)
  have dirs: "siblings ?f (fs_node_first_child ?f e) (?ch e) \<and> distinct (map (fs_node_name ?f) (?ch e)) \<and>
        (fs_node_type ?f e \<noteq> FS_TYPE_DIR \<longrightarrow> ?ch e = []) \<and>
        (\<forall>c\<in>set (?ch e). live ?f c \<and> c \<noteq> 0 \<and> fs_node_parent ?f c = e \<and> name_ok (fs_node_name ?f c))"
    if e: "e < RAMDISK_MAX_NODES" for e
  proof -
    note t = tree_inv_dir [OF inv e] and c = tree_inv_children [OF inv e]
    consider "e = d" | "e = n" | "e \<noteq> d" "e \<noteq> n" by blast
    then show ?thesis
    proof cases
      case 1
      then show ?thesis using t c n(1) tok sib [OF e] names [OF e] fresh [OF e] d(2) nd
        by (auto simp: F nm lv children_def)
    next
      case 2
      then show ?thesis using nd by (simp add: F)
    next
      case 3
      then show ?thesis using t c sib [OF e] names [OF e] fresh [OF e] by (auto simp: F lv children_def)
    qed
  qed
  have up: "m \<in> set (?ch (fs_node_parent ?f m)) \<and> (rk(n := Suc (rk d))) (fs_node_parent ?f m) < (rk(n := Suc (rk d))) m"
    if "live ?f m" "m \<noteq> 0" for m
  proof (cases "m = n")
    case True
    then show ?thesis using nd by (simp add: F)
  next
    case False
    then have l: "live f m" using that lv by blast
    then have p: "m \<in> set (ch (fs_node_parent f m))" "rk (fs_node_parent f m) < rk m"
      using inv that(2) by (auto simp: tree_inv_def)
    then have "fs_node_parent f m \<noteq> n" using chn by auto
    then show ?thesis using p False by (auto simp: F)
  qed
  have "fs_node_type ?f 0 = FS_TYPE_DIR" "fs_cwd ?f < RAMDISK_MAX_NODES"
      "\<forall>m<RAMDISK_MAX_NODES. fs_node_parent ?f m < RAMDISK_MAX_NODES \<and> 0 \<notin> set (fs_node_name ?f m)"
    using inv n(1) d(1) tok(1) nm by (simp_all add: F tree_inv_def name_ok_def)
  then show ?thesis unfolding tree_inv_def using dirs up by blast
qed

lemma fs_wfE:
  assumes "fs_wf f"
  obtains ch rk where "tree_inv f ch rk" "data_inv f"
  using assms unfolding fs_wf_def by blast

lemma link_data_inv:
  assumes "data_inv f" and "n \<noteq> d" and "fs_node_type f n = FS_TYPE_FREE"
  shows "data_inv (fs_link_node ty n d tok f)"
  using assms(1,3) unfolding data_inv_def by (auto simp: link_fields [OF assms(2)] extent_def)

lemma link_contents:
  "n \<noteq> d \<Longrightarrow> fs_contents (fs_link_node ty n d tok f) m = (if m = n then [] else fs_contents f m)"
  by (simp add: fs_contents_def link_fields)

lemma link_children:
  assumes "n \<noteq> d" and "n < RAMDISK_MAX_NODES" and "n \<noteq> 0" and "fs_node_type f n = FS_TYPE_FREE" and "ty \<noteq> FS_TYPE_FREE"
  shows "children (fs_link_node ty n d tok f) e = (if e = d then insert n (children f d) else children f e)"
  using assms by (auto simp: children_def live_def link_fields)

text \<open>
  What one creation does: \<open>n\<close> was free and is now a child of \<open>d\<close> with the name and the
  type, empty; nothing else changed.
\<close>

definition created :: "fs \<Rightarrow> fs_node_type \<Rightarrow> nat \<Rightarrow> bytes \<Rightarrow> nat \<Rightarrow> fs \<Rightarrow> bool" where
  "created f ty d tok n f' \<longleftrightarrow> \<not> live f n \<and> n \<noteq> 0 \<and> n < RAMDISK_MAX_NODES \<and> fs_node_type f' n = ty \<and>
     fs_node_name f' n = tok \<and> fs_contents f' n = [] \<and>
     (\<forall>e. children f' e = (if e = d then insert n (children f d) else children f e)) \<and>
     (\<forall>m. m \<noteq> n \<longrightarrow> fs_node_type f' m = fs_node_type f m \<and> fs_node_name f' m = fs_node_name f m \<and>
        fs_node_parent f' m = fs_node_parent f m \<and> fs_contents f' m = fs_contents f m) \<and>
     fs_cwd f' = fs_cwd f \<and> fs_data_free f' = fs_data_free f"

lemma fs_new_child_spec:
  assumes wf: "fs_wf f" and nm: "0 \<notin> set nm" and ty: "ty \<noteq> FS_TYPE_FREE"
  defines "tok \<equiv> fs_copy_name12_lower nm"
  shows "\<exists>b f'. fs_new_child ty d (Some nm) f = Some (b, f') \<and> fs_wf f' \<and>
     (b \<longleftrightarrow> fs_is_dir f d \<and> tok \<noteq> [] \<and> (\<forall>c\<in>children f d. fs_node_name f c \<noteq> tok) \<and> fs_alloc_node f \<noteq> 0) \<and>
     (if b then created f ty d tok (fs_alloc_node f) f' else f' = f)"
proof (cases "fs_is_dir f d \<and> tok \<noteq> []")
  case False
  then show ?thesis using wf
    by (intro exI [of _ False] exI [of _ f]) (auto simp: fs_new_child_def Let_def tok_def fs_is_dir_def)
next
  case True
  then have d: "d < RAMDISK_MAX_NODES" "fs_node_type f d = FS_TYPE_DIR" by (auto simp: fs_is_dir_def split: if_splits)
  obtain ch rk where inv: "tree_inv f ch rk" "data_inv f" using wf by (rule fs_wfE)
  have t: "name_ok tok" using copy_name_ok [OF nm] True by (simp add: tok_def)
  then obtain r where r: "fs_find_child f d tok = Some r" "r = 0 \<Longrightarrow> \<forall>c\<in>children f d. fs_node_name f c \<noteq> tok"
      "r \<noteq> 0 \<Longrightarrow> r \<in> children f d \<and> fs_node_name f r = tok"
    using fs_find_child_spec [OF inv(1) d(1), of tok] by (auto simp: name_ok_def)
  let ?n = "fs_alloc_node f"
  have run: "fs_new_child ty d (Some nm) f =
      (if r \<noteq> 0 \<or> ?n = 0 then Some (False, f) else Some (True, fs_link_node ty ?n d tok f))"
    using True d r(1) by (simp add: fs_new_child_def Let_def tok_def [symmetric] fs_is_dir_def)
  show ?thesis
  proof (cases "r \<noteq> 0 \<or> ?n = 0")
    case True
    then show ?thesis using run wf r(3) by auto
  next
    case no: False
    note n = fs_alloc_node_free [of f]
    have nd: "?n \<noteq> d" using n no d by auto
    have "tree_inv (fs_link_node ty ?n d tok f) (ch(?n := [], d := ?n # ch d)) (rk(?n := Suc (rk d)))"
      using link_tree_inv [OF inv(1), of ?n d ty tok] n no d ty t r(2) by auto
    moreover have "data_inv (fs_link_node ty ?n d tok f)" using link_data_inv [OF inv(2) nd] n no by simp
    ultimately have "fs_wf (fs_link_node ty ?n d tok f)" unfolding fs_wf_def by blast
    moreover have "created f ty d tok ?n (fs_link_node ty ?n d tok f)"
      using n no nd ty t link_children [OF nd, of f ty tok]
      by (auto simp: created_def live_def link_fields [OF nd] link_contents [OF nd] copy_name_idem name_ok_def)
    ultimately show ?thesis using run no True r(2) by auto
  qed
qed

section \<open>Writing and reading\<close>

lemma fs_write_accepts:
  assumes "data_inv f" and "0 \<le> sz" and "sz < 2147400000"
  shows "sint (word_of_int (int (fs_data_free f) + sz) :: u32) = int (fs_data_free f) + sz"
proof -
  have "int (fs_data_free f) \<le> 8192" using assms(1) by (simp add: data_inv_def const_defs)
  then have "signed_take_bit 31 (int (fs_data_free f) + sz) = int (fs_data_free f) + sz"
    using assms(2,3) by (simp add: signed_take_bit_int_eq_self)
  moreover have "sint (word_of_int x :: u32) = signed_take_bit 31 x" for x by transfer simp
  ultimately show ?thesis by (simp only:)
qed

lemma write_frame:
  "fs_write n (Some data) (int (length data)) f = (b, f') \<Longrightarrow>
   fs_node_type f' = fs_node_type f \<and> fs_node_parent f' = fs_node_parent f \<and> fs_node_name f' = fs_node_name f \<and>
   fs_node_first_child f' = fs_node_first_child f \<and> fs_node_next_sibling f' = fs_node_next_sibling f \<and> fs_cwd f' = fs_cwd f"
  by (auto simp: fs_write_def Let_def split: if_splits)

lemma tree_inv_frame:
  assumes "tree_inv f ch rk" and "fs_node_type f' = fs_node_type f" "fs_node_parent f' = fs_node_parent f"
    "fs_node_name f' = fs_node_name f" "fs_node_first_child f' = fs_node_first_child f"
    "fs_node_next_sibling f' = fs_node_next_sibling f" "fs_cwd f' < RAMDISK_MAX_NODES"
  shows "tree_inv f' ch rk"
proof -
  have "siblings f' n xs = siblings f n xs" for n xs by (rule siblings_cong) (simp add: assms)
  moreover have "live f' n = live f n" for n by (simp add: live_def assms)
  ultimately show ?thesis using assms unfolding tree_inv_def by simp
qed

definition write_ok :: "fs \<Rightarrow> nat \<Rightarrow> bytes \<Rightarrow> bool" where
  "write_ok f n data \<longleftrightarrow> fs_is_file f n \<and> fs_data_free f + length data \<le> RAMDISK_DATA_CAP"

lemma fs_write_state:
  assumes inv: "data_inv f" and len: "length data < 2147400000"
  shows "fs_write n (Some data) (int (length data)) f =
     (if write_ok f n data
      then (True, f\<lparr>fs_node_data_off := (fs_node_data_off f)(n := fs_data_free f),
                    fs_node_size := (fs_node_size f)(n := length data),
                    fs_data_pool := (\<lambda>a. if fs_data_free f \<le> a \<and> a < fs_data_free f + length data
                                         then data ! (a - fs_data_free f) else fs_data_pool f a),
                    fs_data_free := fs_data_free f + length data\<rparr>)
      else (False, f))"
proof -
  have s: "sint (word_of_int (int (fs_data_free f) + int (length data)) :: u32) = int (fs_data_free f) + int (length data)"
    using fs_write_accepts [OF inv, of "int (length data)"] len by simp
  have test: "(int RAMDISK_DATA_CAP < int (fs_data_free f) + int (length data)) = (RAMDISK_DATA_CAP < fs_data_free f + length data)"
    by linarith
  show ?thesis
  proof (cases "write_ok f n data")
    case True
    then have le: "fs_data_free f + length data \<le> 8192" by (simp add: write_ok_def const_defs)
    show ?thesis
    proof (cases "data = []")
      case empty: True
      have pool: "(\<lambda>a. if fs_data_free f \<le> a \<and> a < fs_data_free f + length data then data ! (a - fs_data_free f) else fs_data_pool f a) = fs_data_pool f"
        by (rule ext) (use empty in auto)
      have id: "f\<lparr>fs_node_data_off := x, fs_node_size := y, fs_data_pool := fs_data_pool f, fs_data_free := fs_data_free f + length data\<rparr>
          = f\<lparr>fs_node_data_off := x, fs_node_size := y\<rparr>" for x y using empty by (cases f) simp
      show ?thesis unfolding pool id using True s test le empty
        by (simp add: fs_write_def Let_def write_ok_def fs_is_file_def not_less split: if_splits)
    next
      case False
      then show ?thesis using True s test le
        by (simp add: fs_write_def Let_def write_ok_def fs_is_file_def not_less cong: if_cong split: if_splits)
    qed
  next
    case False
    then show ?thesis using s test by (auto simp: fs_write_def Let_def write_ok_def fs_is_file_def)
  qed
qed

lemma fs_write_spec:
  assumes wf: "fs_wf f" and len: "length data < 2147400000"
  shows "\<exists>f'. fs_write n (Some data) (int (length data)) f = (write_ok f n data, f') \<and> fs_wf f' \<and>
     (if write_ok f n data
      then fs_contents f' n = data \<and> fs_data_free f' = fs_data_free f + length data \<and>
           (\<forall>m. fs_is_file f m \<and> m \<noteq> n \<longrightarrow> fs_contents f' m = fs_contents f m)
      else f' = f)"
proof (cases "write_ok f n data")
  case False
  obtain ch rk where "tree_inv f ch rk" "data_inv f" using wf by (rule fs_wfE)
  then show ?thesis using fs_write_state [OF _ len, of f n] False wf by auto
next
  case True
  obtain ch rk where inv: "tree_inv f ch rk" "data_inv f" using wf by (rule fs_wfE)
  let ?f = "f\<lparr>fs_node_data_off := (fs_node_data_off f)(n := fs_data_free f),
                    fs_node_size := (fs_node_size f)(n := length data),
                    fs_data_pool := (\<lambda>a. if fs_data_free f \<le> a \<and> a < fs_data_free f + length data
                                         then data ! (a - fs_data_free f) else fs_data_pool f a),
                    fs_data_free := fs_data_free f + length data\<rparr>"
  have w: "fs_write n (Some data) (int (length data)) f = (True, ?f)" using fs_write_state [OF inv(2) len] True by simp
  have "tree_inv ?f ch rk" by (rule tree_inv_frame [OF inv(1)]) (use inv(1) in \<open>simp_all add: tree_inv_def\<close>)
  moreover have old: "fs_node_data_off f m + fs_node_size f m \<le> fs_data_free f" if "fs_is_file f m" for m
    using that inv(2) by (auto simp: data_inv_def fs_is_file_def split: if_splits)
  moreover have "data_inv ?f"
    using inv(2) True old unfolding data_inv_def
    by (fastforce simp: extent_def write_ok_def fs_is_file_def split: if_splits)
  moreover have "fs_contents ?f n = data" by (rule nth_equalityI) (simp_all add: fs_contents_def)
  moreover have "fs_contents ?f m = fs_contents f m" if "fs_is_file f m" "m \<noteq> n" for m
    using old [OF that(1)] that(2) by (auto simp: fs_contents_def)
  ultimately show ?thesis using w True unfolding fs_wf_def by auto
qed

lemma fs_read_contents:
  assumes "fs_is_file f n" and "0 \<le> sz"
  shows "fs_read f n False sz = (int (min (nat sz) (fs_node_size f n)), take (nat sz) (fs_contents f n))"
proof -
  have "\<not> RAMDISK_MAX_NODES \<le> n" using assms(1) by (auto simp: fs_is_file_def split: if_splits)
  then show ?thesis using assms
    by (auto simp: fs_read_def Let_def fs_contents_def take_map min_def)
qed

section \<open>Deleting nodes\<close>

lemma siblings_nonzero: "siblings f n xs \<Longrightarrow> x \<in> set xs \<Longrightarrow> x \<noteq> 0"
  by (induction xs arbitrary: n) auto

lemma fs_prev_loop_siblings:
  "siblings f n (xs @ a # c # ys) \<Longrightarrow> distinct (xs @ a # c # ys) \<Longrightarrow> fs_prev_loop f c n = Some a"
proof (induction xs arbitrary: n)
  case Nil
  then show ?case by (subst fs_prev_loop.simps) auto
next
  case (Cons x xs)
  have "fs_node_next_sibling f x \<noteq> c" using Cons.prems by (cases xs) auto
  then show ?case using Cons.prems Cons.IH [of "fs_node_next_sibling f x"] by (subst fs_prev_loop.simps) auto
qed

lemma siblings_remove:
  assumes "siblings f n (xs @ a # c # ys)" and "distinct (xs @ a # c # ys)"
    and "fs_node_next_sibling f' = (fs_node_next_sibling f)(a := fs_node_next_sibling f c)"
  shows "siblings f' n (xs @ a # ys)"
  using assms(1,2)
proof (induction xs arbitrary: n)
  case Nil
  have "siblings f' k ys = siblings f k ys" for k
    by (rule siblings_cong) (use Nil.prems(2) assms(3) in auto)
  then show ?case using Nil.prems assms(3) by simp
next
  case (Cons x xs)
  then show ?case using assms(3) by auto
qed

text \<open>Unlinking a child of a directory other than the root.\<close>

lemma fs_unlink_ok:
  assumes inv: "tree_inv f ch rk" and n: "live f n" "n \<noteq> 0" and p: "fs_node_parent f n \<noteq> 0"
  shows "\<exists>f'. fs_unlink n f = Some f' \<and>
     siblings f' (fs_node_first_child f' (fs_node_parent f n)) (remove1 n (ch (fs_node_parent f n))) \<and>
     (\<forall>e<RAMDISK_MAX_NODES. e \<noteq> fs_node_parent f n \<longrightarrow>
        siblings f' (fs_node_first_child f' e) (ch e)) \<and>
     fs_node_type f' = fs_node_type f \<and> fs_node_parent f' = fs_node_parent f \<and> fs_node_name f' = fs_node_name f \<and>
     fs_node_size f' = fs_node_size f \<and> fs_node_data_off f' = fs_node_data_off f \<and> fs_data_pool f' = fs_data_pool f \<and>
     fs_data_free f' = fs_data_free f \<and> fs_cwd f' = fs_cwd f"
proof -
  let ?p = "fs_node_parent f n"
  have lt: "?p < RAMDISK_MAX_NODES" using inv n by (auto simp: tree_inv_def live_def)
  have mem: "n \<in> set (ch ?p)" using inv n by (auto simp: tree_inv_def)
  have sib: "siblings f (fs_node_first_child f e) (ch e)" if "e < RAMDISK_MAX_NODES" for e
    using tree_inv_dir [OF inv that] by blast
  have dist: "distinct (ch ?p)" using tree_inv_dir [OF inv lt] by (simp add: distinct_map)
  have other: "x \<notin> set (ch e)" if "x \<in> set (ch ?p)" "e < RAMDISK_MAX_NODES" "e \<noteq> ?p" for x e
    using that tree_inv_children [OF inv lt] tree_inv_children [OF inv that(2)] by (auto simp: children_def)
  obtain xs ys where s: "ch ?p = xs @ n # ys" using mem by (auto simp: in_set_conv_decomp)
  show ?thesis
  proof (cases xs rule: rev_cases)
    case Nil
    then have fc: "fs_node_first_child f ?p = n" "siblings f (fs_node_next_sibling f n) ys"
      using sib [OF lt] s by auto
    let ?f = "f\<lparr>fs_node_first_child := (fs_node_first_child f)(?p := fs_node_next_sibling f n)\<rparr>"
    have "siblings ?f k l = siblings f k l" for k l by (rule siblings_cong) simp
    then show ?thesis using fc sib s Nil p
      by (intro exI [of _ ?f]) (auto simp: fs_unlink_def Let_def)
  next
    case (snoc xs' a)
    have ch: "ch ?p = xs' @ a # n # ys" using s snoc by simp
    have s1: "siblings f (fs_node_first_child f ?p) (xs' @ a # n # ys)" using sib [OF lt] ch by simp
    have d1: "distinct (xs' @ a # n # ys)" using dist ch by simp
    have a0: "a \<noteq> 0" using siblings_nonzero [OF s1, of a] by simp
    have fc: "fs_node_first_child f ?p \<noteq> n" using s1 d1 by (cases xs') auto
    let ?f = "f\<lparr>fs_node_next_sibling := (fs_node_next_sibling f)(a := fs_node_next_sibling f n)\<rparr>"
    have u: "fs_unlink n f = Some ?f"
      using p fc fs_prev_loop_siblings [OF s1 d1] a0 by (simp add: fs_unlink_def Let_def)
    have "siblings ?f (fs_node_first_child f ?p) (xs' @ a # ys)" by (rule siblings_remove [OF s1 d1]) simp
    moreover have "remove1 n (ch ?p) = xs' @ a # ys" using d1 ch by (simp add: remove1_append)
    moreover have "siblings ?f (fs_node_first_child f e) (ch e)" if "e < RAMDISK_MAX_NODES" "e \<noteq> ?p" for e
    proof -
      have "a \<notin> set (ch e)" using other [of a e] that ch by simp
      then have "siblings ?f (fs_node_first_child f e) (ch e) = siblings f (fs_node_first_child f e) (ch e)"
        by (intro siblings_cong) auto
      then show ?thesis using sib that by simp
    qed
    ultimately show ?thesis using u by (intro exI [of _ ?f]) simp
  qed
qed

lemma fs_delete_spec:
  assumes wf: "fs_wf f"
  defines "may \<equiv> \<lambda>n. live f n \<and> n \<noteq> 0 \<and> (fs_node_type f n = FS_TYPE_DIR \<longrightarrow> children f n = {})"
  shows "(may n \<and> fs_node_parent f n \<noteq> 0 \<longrightarrow>
      (\<exists>f'. fs_delete n f = Some (True, f') \<and> fs_wf f' \<and> \<not> live f' n \<and>
         (\<forall>d. children f' d = children f d - {n}) \<and>
         (\<forall>m. m \<noteq> n \<longrightarrow> fs_node_type f' m = fs_node_type f m \<and> fs_node_name f' m = fs_node_name f m \<and>
            fs_contents f' m = fs_contents f m))) \<and>
     (\<not> may n \<longrightarrow> fs_delete n f = Some (False, f))"
proof -
  obtain ch rk where inv: "tree_inv f ch rk" "data_inv f" using wf by (rule fs_wfE)
  have empty: "fs_node_first_child f n = 0 \<longleftrightarrow> children f n = {}" if "n < RAMDISK_MAX_NODES" for n
    using tree_inv_dir [OF inv(1) that] tree_inv_children [OF inv(1) that] by (cases "ch n") auto
  have "\<exists>f'. fs_delete n f = Some (True, f') \<and> fs_wf f' \<and> \<not> live f' n \<and>
         (\<forall>d. children f' d = children f d - {n}) \<and>
         (\<forall>m. m \<noteq> n \<longrightarrow> fs_node_type f' m = fs_node_type f m \<and> fs_node_name f' m = fs_node_name f m \<and>
            fs_contents f' m = fs_contents f m)"
    if m: "may n" and p: "fs_node_parent f n \<noteq> 0"
  proof -
    let ?p = "fs_node_parent f n"
    have n: "live f n" "n \<noteq> 0" "n < RAMDISK_MAX_NODES" using m by (auto simp: may_def live_def)
    obtain f1 where u: "fs_unlink n f = Some f1" "siblings f1 (fs_node_first_child f1 ?p) (remove1 n (ch ?p))"
        "\<forall>e<RAMDISK_MAX_NODES. e \<noteq> ?p \<longrightarrow> siblings f1 (fs_node_first_child f1 e) (ch e)"
      and F: "fs_node_type f1 = fs_node_type f" "fs_node_parent f1 = fs_node_parent f" "fs_node_name f1 = fs_node_name f"
        "fs_node_size f1 = fs_node_size f" "fs_node_data_off f1 = fs_node_data_off f" "fs_data_pool f1 = fs_data_pool f"
        "fs_data_free f1 = fs_data_free f" "fs_cwd f1 = fs_cwd f"
      using fs_unlink_ok [OF inv(1) n(1,2) p] by blast
    define f' where "f' = f1\<lparr>fs_node_type := (fs_node_type f1)(n := FS_TYPE_FREE)\<rparr>"
    have del: "fs_delete n f = Some (True, f')"
      using m n u(1) empty [OF n(3)] by (auto simp: fs_delete_def may_def live_def f'_def)
    have G: "fs_node_type f' = (fs_node_type f)(n := FS_TYPE_FREE)" "fs_node_parent f' = fs_node_parent f"
        "fs_node_name f' = fs_node_name f" "fs_node_size f' = fs_node_size f" "fs_node_data_off f' = fs_node_data_off f"
        "fs_data_pool f' = fs_data_pool f" "fs_data_free f' = fs_data_free f" "fs_cwd f' = fs_cwd f"
        "fs_node_first_child f' = fs_node_first_child f1" "fs_node_next_sibling f' = fs_node_next_sibling f1"
      by (simp_all add: f'_def F)
    have lv: "live f' c \<longleftrightarrow> live f c \<and> c \<noteq> n" for c by (auto simp: live_def G)
    have chl: "children f' d = children f d - {n}" for d by (auto simp: children_def lv G)
    have chn: "ch n = []" using m tree_inv_dir [OF inv(1) n(3)] tree_inv_children [OF inv(1) n(3)]
      by (auto simp: may_def)
    have sib: "siblings f' k l = siblings f1 k l" for k l by (rule siblings_cong) (simp add: G(10))
    let ?ch = "ch(?p := remove1 n (ch ?p))"
    have dirs: "siblings f' (fs_node_first_child f' e) (?ch e) \<and> distinct (map (fs_node_name f') (?ch e)) \<and>
        (fs_node_type f' e \<noteq> FS_TYPE_DIR \<longrightarrow> ?ch e = []) \<and>
        (\<forall>c\<in>set (?ch e). live f' c \<and> c \<noteq> 0 \<and> fs_node_parent f' c = e \<and> name_ok (fs_node_name f' c))"
      if e: "e < RAMDISK_MAX_NODES" for e
    proof -
      note t = tree_inv_dir [OF inv(1) e] and c = tree_inv_children [OF inv(1) e]
      have d: "distinct (ch e)" using t by (simp add: distinct_map)
      have nin: "n \<notin> set (ch e)" if "e \<noteq> ?p" using that c by (auto simp: children_def)
      have sub: "set (?ch e) \<subseteq> set (ch e) - {n}" using nin d by auto
      have "siblings f' (fs_node_first_child f' e) (?ch e)" using u(2,3) e by (auto simp: sib) (auto simp: G(9))
      moreover have "distinct (map (fs_node_name f') (?ch e))"
        using t d by (auto simp: G distinct_map intro: inj_on_subset dest: notin_set_remove1)
      moreover have "?ch e = []" if "fs_node_type f' e \<noteq> FS_TYPE_DIR"
        using that t chn by (auto simp: G split: if_splits)
      moreover have "\<forall>c\<in>set (?ch e). live f' c \<and> c \<noteq> 0 \<and> fs_node_parent f' c = e \<and> name_ok (fs_node_name f' c)"
        using sub t c by (auto simp: lv children_def G)
      ultimately show ?thesis by blast
    qed
    have up: "m \<in> set (?ch (fs_node_parent f' m)) \<and> rk (fs_node_parent f' m) < rk m" if "live f' m" "m \<noteq> 0" for m
    proof -
      have m: "live f m" "m \<noteq> n" using that lv by auto
      then have "m \<in> set (ch (fs_node_parent f m))" "rk (fs_node_parent f m) < rk m"
        using inv(1) that(2) by (auto simp: tree_inv_def)
      then show ?thesis using m(2) by (auto simp: G)
    qed
    have "fs_node_type f' 0 = FS_TYPE_DIR" "fs_cwd f' < RAMDISK_MAX_NODES"
        "\<forall>m<RAMDISK_MAX_NODES. fs_node_parent f' m < RAMDISK_MAX_NODES \<and> 0 \<notin> set (fs_node_name f' m)"
      using inv(1) n(2) by (simp_all add: G tree_inv_def)
    then have "tree_inv f' ?ch rk" unfolding tree_inv_def using dirs up by blast
    moreover have "data_inv f'" using inv(2) by (auto simp: data_inv_def G extent_def)
    ultimately have "fs_wf f'" unfolding fs_wf_def by blast
    then show ?thesis using del lv [of n] chl by (auto simp: G fs_contents_def)
  qed
  moreover have "fs_delete n f = Some (False, f)" if "\<not> may n"
    using that empty [of n] by (auto simp: fs_delete_def may_def live_def)
  ultimately show ?thesis by blast
qed

section \<open>Resolving paths\<close>

lemma next_token_shorter: "fs_next_token p = Some (t, p') \<Longrightarrow> length p' < length p \<and> t \<noteq> []"
proof -
  assume a: "fs_next_token p = Some (t, p')"
  let ?q = "dropWhile is_sep p"
  have q: "?q \<noteq> []" "t = map to_lower_c (take (RAMDISK_NAME_LEN - 1) (takeWhile (\<lambda>c. \<not> is_sep c) ?q))"
      "p' = dropWhile (\<lambda>c. \<not> is_sep c) ?q"
    using a by (auto simp: fs_next_token_def Let_def split: if_splits)
  then obtain c cs where c: "?q = c # cs" "\<not> is_sep c" by (metis hd_dropWhile list.exhaust list.sel(1))
  have "length p' \<le> length cs" using q(3) c by (simp add: length_dropWhile_le)
  moreover have "length ?q \<le> length p" by (rule length_dropWhile_le)
  ultimately show ?thesis using c q(2) by (auto simp: const_defs)
qed

function tokens :: "bytes \<Rightarrow> bytes list" where
  "tokens p = (case fs_next_token p of None \<Rightarrow> [] | Some (t, p') \<Rightarrow> t # tokens p')"
  by pat_completeness auto
termination
  by (relation "measure length") (auto dest: next_token_shorter)

declare tokens.simps [simp del]

lemma tokens_Nil [simp]: "tokens [] = []"
  by (simp add: tokens.simps fs_next_token_def)

text \<open>The walk over the tree by the names of the path.\<close>

definition child_of :: "fs \<Rightarrow> nat \<Rightarrow> bytes \<Rightarrow> nat option" where
  "child_of f d t =
     List.find (\<lambda>c. fs_node_type f c \<noteq> FS_TYPE_FREE \<and> fs_node_parent f c = d \<and> fs_node_name f c = t) [1..<RAMDISK_MAX_NODES]"

fun walk :: "fs \<Rightarrow> nat \<Rightarrow> bytes list \<Rightarrow> nat option" where
  "walk f cur [] = Some cur"
| "walk f cur (t # ts) =
     (if t = [chr_dot] then walk f cur ts
      else if t = [chr_dot, chr_dot] then walk f (if cur \<noteq> 0 then fs_node_parent f cur else cur) ts
      else case child_of f cur t of None \<Rightarrow> None | Some c \<Rightarrow> walk f c ts)"

lemma child_of_None: "child_of f d t = None \<longleftrightarrow> (\<forall>c\<in>children f d. fs_node_name f c \<noteq> t)"
  by (auto simp: child_of_def find_None_iff children_def live_def)

lemma child_of_Some: "child_of f d t = Some c \<Longrightarrow> c \<in> children f d \<and> fs_node_name f c = t"
  by (auto simp: child_of_def children_def live_def dest: find_SomeD')

lemma child_of_is:
  "tree_inv f ch rk \<Longrightarrow> d < RAMDISK_MAX_NODES \<Longrightarrow> c \<in> children f d \<Longrightarrow> child_of f d (fs_node_name f c) = Some c"
  by (metis child_of_None child_of_Some children_name_inj not_None_eq)

lemma find_child_of:
  assumes "tree_inv f ch rk" and "d < RAMDISK_MAX_NODES" and "length t < RAMDISK_NAME_LEN" and "0 \<notin> set t"
  shows "fs_find_child f d t = Some (case child_of f d t of None \<Rightarrow> 0 | Some c \<Rightarrow> c)"
proof -
  obtain r where r: "fs_find_child f d t = Some r" "r = 0 \<Longrightarrow> \<forall>c\<in>children f d. fs_node_name f c \<noteq> t"
    "r \<noteq> 0 \<Longrightarrow> r \<in> children f d \<and> fs_node_name f r = t"
    using fs_find_child_spec [OF assms] by blast
  show ?thesis
  proof (cases "r = 0")
    case True
    then show ?thesis using r child_of_None [of f d t] by simp
  next
    case False
    then show ?thesis using r child_of_is [OF assms(1,2), of r] by auto
  qed
qed

lemma next_token_ok:
  "fs_next_token p = Some (t, p') \<Longrightarrow> 0 \<notin> set p \<Longrightarrow> length t < RAMDISK_NAME_LEN \<and> 0 \<notin> set t \<and> 0 \<notin> set p'"
  by (auto simp: fs_next_token_def Let_def const_defs split: if_splits dest!: in_set_takeD set_takeWhileD set_dropWhileD)

lemma next_token_skip: "fs_next_token (dropWhile (\<lambda>c. c = chr_slash) p) = fs_next_token p"
proof -
  have "dropWhile is_sep (dropWhile (\<lambda>c. c = chr_slash) p) = dropWhile is_sep p"
    by (induction p) (auto simp: is_sep_def)
  then show ?thesis by (simp add: fs_next_token_def)
qed

lemma tokens_skip: "tokens (dropWhile (\<lambda>c. c = chr_slash) p) = tokens p"
  by (subst (1 2) tokens.simps) (simp add: next_token_skip)

lemma children_less: "c \<in> children f d \<Longrightarrow> c < RAMDISK_MAX_NODES"
  by (simp add: children_def live_def)

lemma fs_resolve_loop_walk:
  assumes inv: "tree_inv f ch rk"
  shows "cur < RAMDISK_MAX_NODES \<Longrightarrow> 0 \<notin> set p \<Longrightarrow> fs_resolve_loop f cur p = Some (walk f cur (tokens p))"
proof (induction p arbitrary: cur rule: length_induct)
  case (1 p)
  show ?case
  proof (cases "fs_next_token p")
    case None
    then show ?thesis by (simp add: fs_resolve_loop.simps tokens.simps [of p])
  next
    case (Some tp)
    obtain t p1 where tp: "tp = (t, p1)" by (cases tp)
    note s = next_token_shorter [OF Some [unfolded tp]] and o = next_token_ok [OF Some [unfolded tp] 1(3)]
    let ?p2 = "dropWhile (\<lambda>c. c = chr_slash) p1"
    have p2: "length ?p2 < length p" "0 \<notin> set ?p2" "tokens ?p2 = tokens p1"
      using s o length_dropWhile_le [of "\<lambda>c. c = chr_slash" p1] by (auto simp: tokens_skip dest: set_dropWhileD)
    have cont: "(if ?p2 = [] then Some (Some c) else fs_resolve_loop f c ?p2) = Some (walk f c (tokens p1))"
      if "c < RAMDISK_MAX_NODES" for c
    proof (cases "?p2 = []")
      case True
      then have "tokens p1 = []" using p2(3) tokens_Nil by metis
      then show ?thesis using True by simp
    next
      case False
      then show ?thesis using 1(1) p2 that by auto
    qed
    have tk: "tokens p = t # tokens p1" using Some tp by (simp add: tokens.simps [of p])
    have dots: "strcmp_l t [chr_dot] = 0 \<longleftrightarrow> t = [chr_dot]" "strcmp_l t [chr_dot, chr_dot] = 0 \<longleftrightarrow> t = [chr_dot, chr_dot]"
      using o by simp_all
    have par: "fs_node_parent f cur < RAMDISK_MAX_NODES" using inv 1(2) by (simp add: tree_inv_def)
    have ch: "c < RAMDISK_MAX_NODES" "c \<noteq> 0" if "child_of f cur t = Some c" for c
      using child_of_Some [OF that] by (auto simp: children_def live_def)
    have fc: "fs_find_child f cur t = Some (case child_of f cur t of None \<Rightarrow> 0 | Some c \<Rightarrow> c)"
      using find_child_of [OF inv 1(2)] o by blast
    show ?thesis
      unfolding tk
      by (subst fs_resolve_loop.simps)
        (use Some tp s cont par ch fc 1(2) in \<open>auto simp: dots Let_def split: option.splits\<close>)
  qed
qed

lemma walk_less:
  assumes inv: "tree_inv f ch rk"
  shows "cur < RAMDISK_MAX_NODES \<Longrightarrow> walk f cur ts = Some n \<Longrightarrow> n < RAMDISK_MAX_NODES"
proof (induction ts arbitrary: cur)
  case (Cons t ts)
  have "fs_node_parent f cur < RAMDISK_MAX_NODES" using inv Cons.prems(1) by (simp add: tree_inv_def)
  then show ?case
    using Cons child_of_Some [of f cur t] children_less [of _ f cur]
    by (auto split: if_splits option.splits) (use Cons.IH [OF MAX_NODES_pos] in blast)
qed simp

text \<open>
  The components of a path, spelled out without the tokenizer of the code: the words between
  the spaces (32) and slashes (47), each cut to 11 characters and with its capital letters
  (65 to 90) turned into small ones.
\<close>

fun split_at_sep :: "bytes \<Rightarrow> bytes list" where
  "split_at_sep [] = [[]]"
| "split_at_sep (c # p) =
     (if c = 32 \<or> c = 47 then [] # split_at_sep p else (c # hd (split_at_sep p)) # tl (split_at_sep p))"

definition components :: "bytes \<Rightarrow> bytes list" where
  "components path =
     map (\<lambda>w. map (\<lambda>c. if 65 \<le> c \<and> c \<le> 90 then c + 32 else c) (take 11 w)) (filter (\<lambda>w. w \<noteq> []) (split_at_sep path))"

lemma split_at_sep_word:
  "split_at_sep p = takeWhile (\<lambda>c. \<not> is_sep c) p #
     (case dropWhile (\<lambda>c. \<not> is_sep c) p of [] \<Rightarrow> [] | _ # r \<Rightarrow> split_at_sep r)"
  by (induction p) (auto simp: is_sep_def)

lemma components_sep: "components (dropWhile is_sep p) = components p"
  by (induction p) (auto simp: components_def is_sep_def)

lemma components_Nil: "components [] = []"
  by (simp add: components_def)

lemma components_word:
  assumes "p = c # cs" and "\<not> is_sep c"
  shows "components p = map to_lower_c (take (RAMDISK_NAME_LEN - 1) (takeWhile (\<lambda>c. \<not> is_sep c) p)) #
     components (dropWhile (\<lambda>c. \<not> is_sep c) p)"
proof -
  let ?r = "dropWhile (\<lambda>c. \<not> is_sep c) p"
  have low: "(\<lambda>c. if 65 \<le> c \<and> c \<le> 90 then c + 32 else c) = to_lower_c"
    by (rule ext) (simp add: to_lower_c_def)
  have rest: "components ?r = components (case ?r of [] \<Rightarrow> [] | _ # q \<Rightarrow> q)"
  proof (cases ?r)
    case (Cons d q)
    then have "is_sep d" by (metis hd_dropWhile list.sel(1) list.distinct(1))
    then show ?thesis unfolding Cons by (auto simp: components_def is_sep_def)
  next
    case Nil
    then show ?thesis by (simp only: list.case)
  qed
  show ?thesis
    unfolding rest unfolding components_def low using assms
    by (subst split_at_sep_word, cases ?r) (simp_all add: const_defs del: split_at_sep.simps(2) dropWhile_eq_Nil_conv)
qed

lemma tokens_components: "tokens p = components p"
proof (induction p rule: length_induct)
  case (1 p)
  show ?case
  proof (cases "dropWhile is_sep p")
    case Nil
    have "components p = []" using components_sep [of p] components_Nil unfolding Nil by simp
    then show ?thesis using Nil by (simp add: tokens.simps [of p] fs_next_token_def)
  next
    case (Cons c cs)
    then have c: "\<not> is_sep c" by (metis hd_dropWhile list.sel(1) list.distinct(1))
    have less: "length (dropWhile (\<lambda>c. \<not> is_sep c) (c # cs)) < length p"
      using c length_dropWhile_le [of is_sep p] length_dropWhile_le [of "\<lambda>c. \<not> is_sep c" cs] Cons by simp
    have "components p = components (c # cs)" using components_sep [of p] Cons by simp
    then show ?thesis
      using components_word [OF refl c, of cs] 1 [rule_format, OF less] Cons
      by (subst tokens.simps) (simp add: fs_next_token_def)
  qed
qed

section \<open>Paths of nodes\<close>

fun descends :: "fs \<Rightarrow> nat \<Rightarrow> nat list \<Rightarrow> nat \<Rightarrow> bool" where
  "descends f d [] n \<longleftrightarrow> d = n"
| "descends f d (x # xs) n \<longleftrightarrow> x \<in> children f d \<and> descends f x xs n"

lemma descends_snoc: "descends f d (xs @ [x]) n \<longleftrightarrow> n = x \<and> (\<exists>e. descends f d xs e \<and> x \<in> children f e)"
  by (induction xs arbitrary: d) auto

lemma live_descends:
  assumes inv: "tree_inv f ch rk" and "live f n"
  shows "\<exists>ns. descends f 0 ns n \<and> distinct ns \<and> (\<forall>x\<in>set ns. x \<noteq> 0 \<and> live f x \<and> rk x \<le> rk n)"
  using assms(2)
proof (induction "rk n" arbitrary: n rule: less_induct)
  case less
  show ?case
  proof (cases "n = 0")
    case True
    then show ?thesis by (intro exI [of _ "[]"]) simp
  next
    case False
    let ?p = "fs_node_parent f n"
    have up: "n \<in> set (ch ?p)" "rk ?p < rk n" using inv False less.prems by (auto simp: tree_inv_def)
    have lt: "?p < RAMDISK_MAX_NODES" using inv less.prems by (auto simp: tree_inv_def live_def)
    have "live f ?p" using up(1) tree_inv_dir [OF inv lt] lt by (auto simp: live_def)
    then obtain ns where ns: "descends f 0 ns ?p" "distinct ns" "\<forall>x\<in>set ns. x \<noteq> 0 \<and> live f x \<and> rk x \<le> rk ?p"
      using less.hyps up(2) by blast
    have "n \<notin> set ns" using ns(3) up(2) by auto
    moreover have "n \<in> children f ?p" using False less.prems by (simp add: children_def)
    ultimately have "descends f 0 (ns @ [n]) n" "distinct (ns @ [n])" using ns by (auto simp: descends_snoc)
    moreover have "\<forall>x\<in>set (ns @ [n]). x \<noteq> 0 \<and> live f x \<and> rk x \<le> rk n" using ns(3) up(2) False less.prems by auto
    ultimately show ?thesis by blast
  qed
qed

lemma live_list_short: "distinct ns \<Longrightarrow> \<forall>x\<in>set ns. x \<noteq> 0 \<and> live f x \<Longrightarrow> length ns < RAMDISK_MAX_NODES"
proof -
  assume d: "distinct ns" and l: "\<forall>x\<in>set ns. x \<noteq> 0 \<and> live f x"
  have "set ns \<subseteq> {1..<RAMDISK_MAX_NODES}" using l by (auto simp: live_def)
  then have "card (set ns) \<le> card {1..<RAMDISK_MAX_NODES}" by (intro card_mono) auto
  then show ?thesis using distinct_card [OF d] by (simp add: const_defs)
qed

lemma path_stack_descends:
  "descends f 0 ns n \<Longrightarrow> depth + length ns < RAMDISK_MAX_NODES \<Longrightarrow> path_stack f depth n = rev (0 # ns)"
proof (induction ns arbitrary: n depth rule: rev_induct)
  case Nil
  then show ?case by (simp add: path_stack.simps)
next
  case (snoc x xs)
  then obtain e where e: "n = x" "descends f 0 xs e" "x \<in> children f e" by (auto simp: descends_snoc)
  have "fs_node_parent f x = e" "x \<noteq> 0" using e(3) by (auto simp: children_def)
  then show ?case using snoc e by (subst path_stack.simps) auto
qed

fun join :: "bytes list \<Rightarrow> bytes" where
  "join [] = []"
| "join [x] = x"
| "join (x # y # r) = x @ chr_slash # join (y # r)"

lemma path_put_fit: "length buf + length cs < buf_size \<Longrightarrow> path_put buf_size buf cs = Inr (buf @ cs)"
  by (induction buf_size buf cs rule: path_put.induct) auto

lemma path_names_fit:
  assumes "\<forall>x\<in>set ns. x \<noteq> 0 \<and> length (fs_node_name f x) < RAMDISK_NAME_LEN"
    and "length buf + length (join (map (fs_node_name f) ns)) < buf_size"
  shows "path_names f buf_size buf ns = Inr (buf @ join (map (fs_node_name f) ns))"
  using assms
proof (induction ns arbitrary: buf)
  case (Cons x xs)
  show ?case
  proof (cases xs)
    case Nil
    then show ?thesis using Cons.prems by (simp add: path_put_fit)
  next
    case (Cons y ys)
    then show ?thesis using Cons.prems Cons.IH [of "buf @ fs_node_name f x @ [chr_slash]"] \<open>xs = y # ys\<close>
      by (auto simp: path_put_fit)
  qed
qed simp

text \<open>Names that a path can spell.\<close>

definition spellable :: "bytes \<Rightarrow> bool" where
  "spellable nm \<longleftrightarrow> (\<forall>c\<in>set nm. \<not> is_sep c) \<and> nm \<noteq> [chr_dot] \<and> nm \<noteq> [chr_dot, chr_dot]"

lemma next_token_name:
  assumes "name_ok nm" and "\<forall>c\<in>set nm. \<not> is_sep c" and "rest = [] \<or> is_sep (hd rest)"
  shows "fs_next_token (nm @ rest) = Some (nm, rest)"
proof -
  have ne: "nm \<noteq> []" "length nm \<le> RAMDISK_NAME_LEN - 1" "map to_lower_c nm = nm" using assms(1) by (auto simp: name_ok_def)
  have "dropWhile is_sep (nm @ rest) = nm @ rest" using ne assms(2) by (cases nm) auto
  moreover have "takeWhile (\<lambda>c. \<not> is_sep c) (nm @ rest) = nm" "dropWhile (\<lambda>c. \<not> is_sep c) (nm @ rest) = rest"
    using assms(2,3) by (cases rest; simp add: takeWhile_append dropWhile_append)+
  ultimately show ?thesis using ne by (simp add: fs_next_token_def)
qed

lemma tokens_slash: "tokens (chr_slash # p) = tokens p"
  using tokens_skip [of "chr_slash # p"] tokens_skip [of p] by simp

lemma tokens_join: "\<forall>nm\<in>set nms. name_ok nm \<and> (\<forall>c\<in>set nm. \<not> is_sep c) \<Longrightarrow> tokens (join nms) = nms"
proof (induction nms rule: join.induct)
  case (2 x)
  then show ?case using next_token_name [of x "[]"] by (simp add: tokens.simps [of x])
next
  case (3 x y r)
  then have "fs_next_token (x @ chr_slash # join (y # r)) = Some (x, chr_slash # join (y # r))"
    by (intro next_token_name) (auto simp: is_sep_def)
  then show ?case using 3 by (subst tokens.simps) (simp add: tokens_slash)
qed simp

lemma walk_descends:
  assumes inv: "tree_inv f ch rk" and sp: "\<forall>c. live f c \<and> c \<noteq> 0 \<longrightarrow> spellable (fs_node_name f c)"
  shows "d < RAMDISK_MAX_NODES \<Longrightarrow> descends f d ns n \<Longrightarrow> walk f d (map (fs_node_name f) ns) = Some n"
proof (induction ns arbitrary: d)
  case (Cons x xs)
  then have x: "x \<in> children f d" "descends f x xs n" by auto
  have "spellable (fs_node_name f x)" using sp x(1) by (auto simp: children_def)
  then show ?case using Cons.IH [of x] x children_less [OF x(1)] child_of_is [OF inv Cons.prems(1) x(1)]
    by (simp add: spellable_def)
qed simp

lemma join_no_nul: "\<forall>nm\<in>set nms. 0 \<notin> set nm \<Longrightarrow> 0 \<notin> set (join nms)"
  by (induction nms rule: join.induct) auto

lemma join_length: "\<forall>nm\<in>set nms. length nm < k \<Longrightarrow> length (join nms) \<le> k * length nms"
  by (induction nms rule: join.induct) auto

lemma build_path_resolve:
  assumes inv: "tree_inv f ch rk" and sp: "\<forall>c. live f c \<and> c \<noteq> 0 \<longrightarrow> spellable (fs_node_name f c)"
    and n: "live f n" and big: "RAMDISK_NAME_LEN * RAMDISK_MAX_NODES < buf_size"
  shows "\<exists>path. fs_build_path f n False buf_size = Some path \<and> fs_resolve_checked f (Some path) = Some (Some n)"
proof -
  obtain ns where ns: "descends f 0 ns n" "distinct ns" "\<forall>x\<in>set ns. x \<noteq> 0 \<and> live f x"
    using live_descends [OF inv n] by blast
  have len: "length ns < RAMDISK_MAX_NODES" using live_list_short ns(2,3) by blast
  let ?nms = "map (fs_node_name f) ns"
  have ok: "name_ok (fs_node_name f x)" if "x \<in> set ns" for x
  proof -
    have l: "live f x" "x \<noteq> 0" using ns(3) that by auto
    then have "x \<in> set (ch (fs_node_parent f x))" "fs_node_parent f x < RAMDISK_MAX_NODES"
      using inv by (auto simp: tree_inv_def live_def)
    then show ?thesis using tree_inv_dir [OF inv] by blast
  qed
  have nm: "\<forall>nm\<in>set ?nms. name_ok nm \<and> (\<forall>c\<in>set nm. \<not> is_sep c)"
    using ok ns(3) sp by (auto simp: spellable_def)
  have "length (join ?nms) \<le> RAMDISK_NAME_LEN * length ns"
    using join_length [of ?nms RAMDISK_NAME_LEN] ok by (auto simp: name_ok_def)
  also have "\<dots> \<le> RAMDISK_NAME_LEN * RAMDISK_MAX_NODES - RAMDISK_NAME_LEN" using len by (simp add: const_defs)
  finally have short: "1 + length (join ?nms) < buf_size" using big by (simp add: const_defs)
  have "path_names f buf_size [chr_slash] ns = Inr (chr_slash # join ?nms)"
    using path_names_fit [of ns f "[chr_slash]" buf_size] ok ns(3) short by (auto simp: name_ok_def)
  moreover have "path_stack f 0 n = rev (0 # ns)" using path_stack_descends [OF ns(1), of 0] len by simp
  ultimately have b: "fs_build_path f n False buf_size = Some (chr_slash # join ?nms)"
    using n short by (simp add: fs_build_path_def live_def)
  have z: "0 \<notin> set (join ?nms)"
    using nm by (intro join_no_nul) (auto simp: name_ok_def)
  have "fs_resolve_checked f (Some (chr_slash # join ?nms)) = Some (walk f 0 (tokens (join ?nms)))"
    using fs_resolve_loop_walk [OF inv, of 0 "join ?nms"] z by (simp add: fs_resolve_checked_def)
  also have "\<dots> = Some (Some n)" using tokens_join [OF nm] walk_descends [OF inv sp _ ns(1)] by simp
  finally show ?thesis using b by blast
qed

section \<open>The RAM disk as a file store\<close>

definition fs_put :: "nat \<Rightarrow> bytes \<Rightarrow> fs \<Rightarrow> bool \<times> fs" where
  "fs_put n data f = fs_write n (Some data) (int (length data)) f"

definition fs_room :: "fs \<Rightarrow> nat" where
  "fs_room f = RAMDISK_DATA_CAP - fs_data_free f"

lemma fs_put_law:
  assumes "fs_wf f" and "length data < 2147400000"
  shows "\<exists>f'. fs_put n data f = (fs_is_file f n \<and> length data \<le> fs_room f, f') \<and> fs_wf f' \<and>
     (if fs_is_file f n \<and> length data \<le> fs_room f
      then fs_contents f' n = data \<and> fs_room f' = fs_room f - length data \<and>
           (\<forall>m. fs_is_file f' m = fs_is_file f m) \<and> (\<forall>m. fs_is_file f m \<and> m \<noteq> n \<longrightarrow> fs_contents f' m = fs_contents f m)
      else f' = f)"
proof -
  have "fs_data_free f \<le> RAMDISK_DATA_CAP" using assms(1) by (auto simp: fs_wf_def data_inv_def)
  then have ok: "write_ok f n data \<longleftrightarrow> fs_is_file f n \<and> length data \<le> fs_room f"
    by (auto simp: write_ok_def fs_room_def)
  obtain f' where f': "fs_write n (Some data) (int (length data)) f = (write_ok f n data, f')" "fs_wf f'"
      "if write_ok f n data
      then fs_contents f' n = data \<and> fs_data_free f' = fs_data_free f + length data \<and>
           (\<forall>m. fs_is_file f m \<and> m \<noteq> n \<longrightarrow> fs_contents f' m = fs_contents f m)
      else f' = f"
    using fs_write_spec [OF assms] by blast
  have "fs_is_file f' m = fs_is_file f m" for m using write_frame [OF f'(1)] by (simp add: fs_is_file_def)
  then show ?thesis using f' ok by (intro exI [of _ f']) (auto simp: fs_put_def fs_room_def split: if_splits)
qed

interpretation fst_store: file_store fs_wf fs_is_file fs_contents fs_put fs_room 2147400000
proof unfold_locales
  fix f :: fs and n :: nat and data :: bytes
  assume a: "fs_wf f" "length data < 2147400000"
  show "\<exists>s'. fs_put n data f = (True, s') \<and> fs_wf s' \<and> fs_contents s' n = data \<and> fs_room s' = fs_room f - length data \<and>
        (\<forall>m. fs_is_file s' m = fs_is_file f m) \<and> (\<forall>m. fs_is_file f m \<and> m \<noteq> n \<longrightarrow> fs_contents s' m = fs_contents f m)"
    if "fs_is_file f n" "length data \<le> fs_room f" using fs_put_law [OF a, of n] that by auto
  show "fs_put n data f = (False, f)" if "\<not> (fs_is_file f n \<and> length data \<le> fs_room f)"
    using fs_put_law [OF a, of n] that by auto
qed

fun fs_puts :: "(nat \<times> bytes) list \<Rightarrow> fs \<Rightarrow> bool \<times> fs" where
  "fs_puts [] f = (True, f)"
| "fs_puts ((n, data) # ws) f = (let (ok, f') = fs_put n data f in if ok then fs_puts ws f' else (False, f'))"

lemma fs_puts_eq: "fs_puts ws f = fst_store.puts ws f"
  by (induction ws arbitrary: f) (auto split: prod.splits)

section \<open>Deleting a child of the root\<close>

text \<open>
  \<open>fs_delete\<close> does not unlink a child of the root directory.  If the freed node is reused
  by the next creation in the root while it still stands in the list, the list of the root
  becomes a cycle; looking for a name that is not on it then never ends.
\<close>

lemma fs_find_loop_diverges:
  assumes closed: "\<And>n. n \<in> S \<Longrightarrow> n \<noteq> 0 \<and> fs_node_next_sibling f n \<in> S \<and>
      strncmp_l (fs_node_name f n) token RAMDISK_NAME_LEN \<noteq> 0"
    and "n \<in> S"
  shows "fs_find_loop f token n = None"
proof (rule ccontr)
  assume "fs_find_loop f token n \<noteq> None"
  then obtain r where r: "fs_find_loop f token n = Some r" by auto
  have "g = f \<longrightarrow> t = token \<longrightarrow> n \<notin> S" if "fs_find_loop g t n = Some r" for g t n r
    by (rule fs_find_loop.raw_induct [where P = "\<lambda>g t n r. g = f \<longrightarrow> t = token \<longrightarrow> n \<notin> S", OF _ that])
      (use closed in \<open>fastforce split: if_splits\<close>)
  then show False using r assms(2) by blast
qed

lemma siblings_next_in:
  "siblings f n (xs @ c # ys) \<Longrightarrow> x \<in> set xs \<Longrightarrow> fs_node_next_sibling f x \<in> set (xs @ [c])"
proof (induction xs arbitrary: n)
  case (Cons y xs)
  then show ?case by (cases xs) auto
qed simp

lemma fs_alloc_lowest:
  assumes "fs_node_type f n = FS_TYPE_FREE" and "0 < n" and "n < RAMDISK_MAX_NODES"
    and "\<forall>m. 0 < m \<and> m < n \<longrightarrow> fs_node_type f m \<noteq> FS_TYPE_FREE"
  shows "fs_alloc_node f = n"
proof -
  have "[1..<RAMDISK_MAX_NODES] = [1..<n] @ n # [Suc n..<RAMDISK_MAX_NODES]"
    using assms(2,3) upt_add_eq_append [of 1 n "RAMDISK_MAX_NODES - n"] by (simp add: upt_conv_Cons)
  moreover have "List.find (\<lambda>i. fs_node_type f i = FS_TYPE_FREE) ([1..<n] @ n # ys) = Some n" for ys
    using assms by (auto simp: find_Some_iff nth_append intro!: exI [of _ "n - 1"])
  ultimately show ?thesis by (simp add: fs_alloc_node_def)
qed

lemma root_reuse_cycle:
  assumes inv: "tree_inv f ch rk" and n: "n \<in> children f 0" "fs_node_type f n = FS_TYPE_FILE"
    and low: "\<forall>m. 0 < m \<and> m < n \<longrightarrow> fs_node_type f m \<noteq> FS_TYPE_FREE"
    and nm: "name_ok nm" "\<forall>c\<in>children f 0. fs_node_name f c \<noteq> nm"
  shows "\<exists>f1 f2. fs_delete n f = Some (True, f1) \<and> fs_create_file 0 (Some nm) f1 = Some (True, f2) \<and>
     (\<forall>tok. length tok < RAMDISK_NAME_LEN \<and> 0 \<notin> set tok \<and> tok \<noteq> nm \<and> (\<forall>c\<in>children f 0. fs_node_name f c \<noteq> tok) \<longrightarrow>
        fs_find_child f2 0 tok = None)"
proof -
  define f1 where "f1 = f\<lparr>fs_node_type := (fs_node_type f)(n := FS_TYPE_FREE)\<rparr>"
  have n0: "n \<noteq> 0" "n < RAMDISK_MAX_NODES" "fs_node_parent f n = 0" using n by (auto simp: children_def live_def)
  have del: "fs_delete n f = Some (True, f1)"
    using n n0 by (simp add: fs_delete_def fs_unlink_def Let_def f1_def)
  note t = tree_inv_dir [OF inv MAX_NODES_pos] and c = tree_inv_children [OF inv MAX_NODES_pos]
  obtain xs ys where s: "ch 0 = xs @ n # ys" using n(1) c by (metis in_set_conv_decomp)
  have s1: "siblings f1 k l = siblings f k l" for k l by (rule siblings_cong) (simp add: f1_def)
  have sib: "siblings f1 (fs_node_first_child f 0) (xs @ n # ys)" using t s s1 by simp
  have find1: "fs_find_child f1 0 nm = Some 0"
  proof -
    have "fs_find_loop f1 nm (fs_node_first_child f 0) =
        Some (case List.find (\<lambda>x. fs_node_type f1 x \<noteq> FS_TYPE_FREE \<and> fs_node_name f1 x = nm) (ch 0) of None \<Rightarrow> 0 | Some x \<Rightarrow> x)"
      by (rule fs_find_loop_list) (use sib s t nm(1) in \<open>auto simp: f1_def name_ok_def\<close>)
    moreover have "List.find (\<lambda>x. fs_node_type f1 x \<noteq> FS_TYPE_FREE \<and> fs_node_name f1 x = nm) (ch 0) = None"
      using nm(2) c by (auto simp: find_None_iff f1_def)
    ultimately show ?thesis by (simp add: fs_find_child_def f1_def)
  qed
  have al: "fs_alloc_node f1 = n" by (rule fs_alloc_lowest) (use n0 low in \<open>auto simp: f1_def\<close>)
  define f2 where "f2 = fs_link_node FS_TYPE_FILE n 0 nm f1"
  have tok: "fs_copy_name12_lower nm = nm" using copy_name_idem nm(1) by (simp add: name_ok_def)
  have t0: "fs_node_type f1 0 = FS_TYPE_DIR" using inv n0 by (simp add: tree_inv_def f1_def)
  have cr: "fs_create_file 0 (Some nm) f1 = Some (True, f2)"
    using find1 al n0 nm(1) t0
    by (simp add: fs_create_file_def fs_new_child_def Let_def tok f2_def fs_is_dir_def name_ok_def)
  note F = link_fields [OF n0(1), of FS_TYPE_FILE nm f1, folded f2_def]
  have dist: "n \<notin> set xs" using t s by (auto simp: distinct_map)
  have hd: "fs_node_first_child f 0 \<in> set (xs @ [n])" using sib by (cases xs) auto
  have "fs_find_loop f2 tk n = None"
    if tk: "length tk < RAMDISK_NAME_LEN" "0 \<notin> set tk" "tk \<noteq> nm" "\<forall>c\<in>children f 0. fs_node_name f c \<noteq> tk" for tk
  proof (rule fs_find_loop_diverges [where S = "set (xs @ [n])"])
    fix x assume x: "x \<in> set (xs @ [n])"
    then have x0: "x \<in> children f 0" using c s by auto
    then have "name_ok (fs_node_name f x)" using t c by auto
    then have "strncmp_l (fs_node_name f2 x) tk RAMDISK_NAME_LEN \<noteq> 0"
      using tk x0 nm(1) tok by (auto simp: F f1_def name_eq name_ok_def)
    moreover have "fs_node_next_sibling f2 x \<in> set (xs @ [n])"
      using x hd siblings_next_in [OF sib, of x] dist by (cases "x = n") (auto simp: F f1_def)
    ultimately show "x \<noteq> 0 \<and> fs_node_next_sibling f2 x \<in> set (xs @ [n]) \<and>
        strncmp_l (fs_node_name f2 x) tk RAMDISK_NAME_LEN \<noteq> 0" using x0 by (auto simp: children_def)
  qed simp
  moreover have "fs_node_first_child f2 0 = n" by (simp add: F)
  ultimately have "\<forall>tok. length tok < RAMDISK_NAME_LEN \<and> 0 \<notin> set tok \<and> tok \<noteq> nm \<and>
      (\<forall>c\<in>children f 0. fs_node_name f c \<noteq> tok) \<longrightarrow> fs_find_child f2 0 tok = None"
    by (simp add: fs_find_child_def)
  then show ?thesis using del cr by blast
qed

section \<open>Initialisation establishes the invariant\<close>

lemma fs_cleared_wf: "fs_wf fs_cleared"
proof -
  have "tree_inv fs_cleared (\<lambda>_. []) (\<lambda>_. 0)"
    by (auto simp: tree_inv_def fs_cleared_def live_def split: if_splits)
  moreover have "data_inv fs_cleared" by (auto simp: data_inv_def fs_cleared_def)
  ultimately show ?thesis unfolding fs_wf_def by blast
qed

lemma fs_mkdirs_wf: "fs_wf f \<Longrightarrow> \<forall>nm\<in>set nms. 0 \<notin> set nm \<Longrightarrow> \<exists>f'. fs_mkdirs d nms f = Some f' \<and> fs_wf f'"
proof (induction nms arbitrary: f)
  case (Cons nm nms)
  obtain b f1 where "fs_mkdir_child d (Some nm) f = Some (b, f1)" "fs_wf f1"
    using fs_new_child_spec [OF Cons.prems(1), of nm FS_TYPE_DIR d] Cons.prems(2) by (auto simp: fs_mkdir_child_def)
  then show ?case using Cons by simp
qed simp

lemma fs_resolve_total:
  assumes "fs_wf f" and "0 \<notin> set path"
  shows "\<exists>n. fs_resolve f (Some path) = Some n"
proof -
  obtain ch rk where inv: "tree_inv f ch rk" using assms(1) by (rule fs_wfE)
  have "fs_cwd f < RAMDISK_MAX_NODES" using inv by (simp add: tree_inv_def)
  then show ?thesis using assms(2) fs_resolve_loop_walk [OF inv]
    by (cases path) (auto simp: fs_resolve_def fs_resolve_checked_def)
qed

lemma path_put_no_nul: "0 \<notin> set buf \<Longrightarrow> 0 \<notin> set cs \<Longrightarrow>
    case path_put k buf cs of Inl b \<Rightarrow> 0 \<notin> set b | Inr b \<Rightarrow> 0 \<notin> set b"
  by (induction k buf cs rule: path_put.induct) auto

lemma path_names_no_nul:
  assumes "\<forall>n\<in>set ns. 0 \<notin> set (fs_node_name f n)"
  shows "0 \<notin> set buf \<Longrightarrow> case path_names f k buf ns of Inl b \<Rightarrow> 0 \<notin> set b | Inr b \<Rightarrow> 0 \<notin> set b"
  using assms
proof (induction ns arbitrary: buf)
  case (Cons n ns)
  have nm: "0 \<notin> set (take RAMDISK_NAME_LEN (fs_node_name f n))" using Cons.prems by (auto dest: in_set_takeD)
  note p1 = path_put_no_nul [OF Cons.prems(1) nm, of k]
  show ?case
    using Cons p1 path_put_no_nul [of _ "[chr_slash]" k]
    by (fastforce split: sum.splits)
qed simp

lemma path_stack_less:
  assumes inv: "tree_inv f ch rk"
  shows "n < RAMDISK_MAX_NODES \<Longrightarrow> \<forall>x\<in>set (path_stack f depth n). x < RAMDISK_MAX_NODES"
proof (induction "RAMDISK_MAX_NODES - depth" arbitrary: depth n)
  case 0
  then show ?case by (subst path_stack.simps) auto
next
  case (Suc k)
  have "fs_node_parent f n < RAMDISK_MAX_NODES" using inv Suc.prems by (simp add: tree_inv_def)
  moreover have "k = RAMDISK_MAX_NODES - (depth + 1)" using Suc.hyps(2) by simp
  ultimately show ?case using Suc.hyps(1) [of "depth + 1"] Suc.prems by (subst path_stack.simps) auto
qed

lemma build_path_no_nul:
  assumes inv: "tree_inv f ch rk" and b: "fs_build_path f n nul k = Some p"
  shows "0 \<notin> set p"
proof (cases "n < RAMDISK_MAX_NODES")
  case True
  have "\<forall>x\<in>set (rev (path_stack f 0 n)). 0 \<notin> set (fs_node_name f x)"
    using path_stack_less [OF inv True, of 0] inv by (auto simp: tree_inv_def)
  from path_names_no_nul [OF this, of "[chr_slash]" k] show ?thesis
    using b True by (auto simp: fs_build_path_def split: if_splits sum.splits dest!: in_set_takeD)
qed (use b in \<open>auto simp: fs_build_path_def split: if_splits\<close>)

lemma ramdisk_write_demo_file_wf:
  assumes wf: "fs_wf f" and nm: "0 \<notin> set nm" and len: "length data < 2147400000"
  shows "\<exists>f'. ramdisk_write_demo_file d nm data f = Some f' \<and> fs_wf f'"
proof -
  obtain b f1 where c: "fs_create_file d (Some nm) f = Some (b, f1)" "fs_wf f1"
    using fs_new_child_spec [OF wf nm, of FS_TYPE_FILE d] by (auto simp: fs_create_file_def)
  obtain ch rk where inv: "tree_inv f1 ch rk" using c(2) by (rule fs_wfE)
  obtain n0 where n0: "fs_resolve f1 (Some nm) = Some n0" using fs_resolve_total [OF c(2) nm] by blast
  have "\<exists>n. (case demo_path f1 d nm of None \<Rightarrow> Some n0 | Some path \<Rightarrow> fs_resolve f1 (Some path)) = Some n"
  proof (cases "demo_path f1 d nm")
    case (Some p)
    have "0 \<notin> set p" using Some nm build_path_no_nul [OF inv] by (auto simp: demo_path_def split: if_splits option.splits)
    then show ?thesis using Some fs_resolve_total [OF c(2)] by simp
  qed simp
  then obtain n where n: "(case demo_path f1 d nm of None \<Rightarrow> Some n0 | Some path \<Rightarrow> fs_resolve f1 (Some path)) = Some n" ..
  obtain f2 where "fs_write n (Some data) (int (length data)) f1 = (write_ok f1 n data, f2)" "fs_wf f2"
    using fs_write_spec [OF c(2) len] by blast
  then show ?thesis using c n0 n by (auto simp: ramdisk_write_demo_file_def)
qed

lemma length_ppm: "length ppm = 2317"
proof -
  have px: "length (ppm_pixel x y) = 3" for x y by (simp add: ppm_pixel_def)
  have row: "length (concat (map (\<lambda>x. ppm_pixel x y) xs)) = 3 * length xs" for y xs
    by (induction xs) (simp_all add: px)
  have "length (concat (map (\<lambda>y. concat (map (\<lambda>x. ppm_pixel x y) [0..<32])) ys)) = 96 * length ys" for ys
    by (induction ys) (simp_all add: row)
  then show ?thesis by (simp add: ppm_def)
qed

lemma table_lengths: "length hjar = 71" "length zipjar = 131" "length tinyjvm_hello_class = 336"
    "length tinyjvm_hello_jar = 616" "length demo_text = 217"
  by (simp_all add: hjar_def zipjar_def tinyjvm_hello_class_def tinyjvm_hello_jar_def demo_text_def)

lemma seed_wf:
  assumes "fs_wf f" and "0 \<notin> set nm"
  shows "\<exists>f'. ramdisk_seed_ppm_demo d nm f = Some f' \<and> fs_wf f'"
    "\<exists>f'. ramdisk_seed_text_demo d nm f = Some f' \<and> fs_wf f'"
    "\<exists>f'. ramdisk_seed_tinyjvm_jar_demo d nm f = Some f' \<and> fs_wf f'"
    "\<exists>f'. ramdisk_seed_class_demo d nm f = Some f' \<and> fs_wf f'"
    "\<exists>f'. ramdisk_seed_java_demo d nm f = Some f' \<and> fs_wf f'"
    "\<exists>f'. ramdisk_seed_zip_jar_demo d nm f = Some f' \<and> fs_wf f'"
  using ramdisk_write_demo_file_wf [OF assms]
  by (simp_all add: ramdisk_seed_ppm_demo_def ramdisk_seed_text_demo_def ramdisk_seed_tinyjvm_jar_demo_def
      ramdisk_seed_class_demo_def ramdisk_seed_java_demo_def ramdisk_seed_zip_jar_demo_def length_ppm table_lengths)

lemma seed_demo_files_wf:
  assumes wf: "fs_wf f"
  shows "\<exists>f'. ramdisk_seed_demo_files f = Some f' \<and> fs_wf f'"
proof -
  obtain h where h: "fs_resolve f (Some (lit ''/home'')) = Some h" using fs_resolve_total [OF wf, of "lit ''/home''"] by auto
  obtain j where j: "fs_resolve f (Some (lit ''/java'')) = Some j" using fs_resolve_total [OF wf, of "lit ''/java''"] by auto
  obtain fa where fa: "ramdisk_seed_ppm_demo h (lit ''sample.ppm'') f = Some fa" "fs_wf fa"
    using seed_wf(1) [OF wf, of "lit ''sample.ppm''"] by auto
  obtain fb where fb: "ramdisk_seed_text_demo h (lit ''readme.txt'') fa = Some fb" "fs_wf fb"
    using seed_wf(2) [OF fa(2), of "lit ''readme.txt''"] by auto
  define f1 where "f1 = (if h \<noteq> 0 then fb else f)"
  have f1: "fs_wf f1" using fb(2) wf by (simp add: f1_def)
  obtain f2 where f2: "ramdisk_seed_tinyjvm_jar_demo j (lit ''tinyjvm.jar'') f1 = Some f2" "fs_wf f2"
    using seed_wf(3) [OF f1, of "lit ''tinyjvm.jar''"] by auto
  obtain f3 where f3: "ramdisk_seed_class_demo j (lit ''hello.class'') f2 = Some f3" "fs_wf f3"
    using seed_wf(4) [OF f2(2), of "lit ''hello.class''"] by auto
  obtain f4 where f4: "ramdisk_seed_java_demo j (lit ''hello.jar'') f3 = Some f4" "fs_wf f4"
    using seed_wf(5) [OF f3(2), of "lit ''hello.jar''"] by auto
  obtain f5 where f5: "ramdisk_seed_zip_jar_demo j (lit ''sample.jar'') f4 = Some f5" "fs_wf f5"
    using seed_wf(6) [OF f4(2), of "lit ''sample.jar''"] by auto
  have "ramdisk_seed_demo_files f = Some (if j \<noteq> 0 then f5 else f1)"
    using h j fa(1) fb(1) f2(1) f3(1) f4(1) f5(1)
    by (simp add: ramdisk_seed_demo_files_def f1_def del: lit_Cons split: if_splits)
  then show ?thesis using f1 f5(2) by simp
qed

text \<open>The disk of the examples: a directory \<open>a\<close> in the root, with a file \<open>b\<close> in it.\<close>

lemma dir_disk:
  "\<exists>f. fs_mkdir_child 0 (Some [65]) fs_cleared = Some (True, f) \<and> fs_wf f \<and> created fs_cleared FS_TYPE_DIR 0 [97] 1 f \<and>
     children f 0 = {1} \<and> children f 1 = {} \<and> fs_node_name f 1 = [97] \<and> fs_node_type f 1 = FS_TYPE_DIR \<and> fs_cwd f = 0"
proof -
  have d: "fs_is_dir fs_cleared 0" "children fs_cleared 0 = {}" "children fs_cleared 1 = {}" "fs_cwd fs_cleared = 0"
    by (auto simp: fs_is_dir_def fs_cleared_def children_def live_def const_defs split: if_splits)
  have t: "fs_copy_name12_lower [65] = [97]" by (simp add: fs_copy_name12_lower_def to_lower_c_def const_defs)
  have n: "fs_alloc_node fs_cleared = 1" by (simp add: fs_alloc_node_def fs_cleared_def const_defs upt_rec)
  show ?thesis
    using fs_new_child_spec [OF fs_cleared_wf, of "[65]" FS_TYPE_DIR 0] d t n
    by (auto simp: fs_mkdir_child_def created_def)
qed

lemma nested_disk:
  "\<exists>f1 f. fs_mkdir_child 0 (Some [65]) fs_cleared = Some (True, f1) \<and> fs_create_file 1 (Some [98]) f1 = Some (True, f) \<and>
     fs_wf f \<and> children f 0 = {1} \<and> children f 1 = {2} \<and> live f 2 \<and> fs_node_parent f 2 = 1 \<and> fs_node_type f 2 = FS_TYPE_FILE"
proof -
  obtain f1 where f1: "fs_mkdir_child 0 (Some [65]) fs_cleared = Some (True, f1)" "fs_wf f1"
      "created fs_cleared FS_TYPE_DIR 0 [97] 1 f1" "children f1 0 = {1}" "children f1 1 = {}" "fs_node_type f1 1 = FS_TYPE_DIR"
    using dir_disk by blast
  have two: "fs_node_type f1 2 = FS_TYPE_FREE" using f1(3) by (simp add: created_def fs_cleared_def)
  have n: "fs_alloc_node f1 = 2" using f1(6) two by (simp add: fs_alloc_node_def const_defs upt_rec numeral_2_eq_2)
  have t: "fs_copy_name12_lower [98] = [98]" by (simp add: fs_copy_name12_lower_def to_lower_c_def const_defs)
  have d: "fs_is_dir f1 1" using f1(6) by (simp add: fs_is_dir_def const_defs)
  obtain f where f: "fs_create_file 1 (Some [98]) f1 = Some (True, f)" "fs_wf f" "created f1 FS_TYPE_FILE 1 [98] 2 f"
    using fs_new_child_spec [OF f1(2), of "[98]" FS_TYPE_FILE 1] f1(5) d t n by (auto simp: fs_create_file_def)
  have c: "children f 0 = {1}" "children f 1 = {2}" "fs_node_type f 2 = FS_TYPE_FILE"
    using f(3) f1(4,5) by (auto simp: created_def)
  then have "2 \<in> children f 1" by simp
  then have "live f 2" "fs_node_parent f 2 = 1" by (auto simp: children_def)
  then show ?thesis using f1(1) f c by blast
qed

section \<open>Properties of the RAM disk\<close>



text \<open>
  C11.  \<open>fs_delete\<close> of a file or an empty directory whose parent is not the root returns
  true, frees exactly that node, takes it out of its parent and keeps the disk well formed and
  all other contents; of the root, a free node or a directory with children it returns false
  and changes nothing.
\<close>

theorem fs_delete_correct:
  assumes "fs_wf f"
  shows "(live f n \<and> n \<noteq> 0 \<and> (fs_node_type f n = FS_TYPE_DIR \<longrightarrow> children f n = {}) \<and> fs_node_parent f n \<noteq> 0 \<longrightarrow>
      (\<exists>f'. fs_delete n f = Some (True, f') \<and> fs_wf f' \<and> \<not> live f' n \<and>
         (\<forall>d. children f' d = children f d - {n}) \<and>
         (\<forall>m. m \<noteq> n \<longrightarrow> fs_node_type f' m = fs_node_type f m \<and> fs_node_name f' m = fs_node_name f m \<and>
            fs_contents f' m = fs_contents f m))) \<and>
     (\<not> live f n \<or> n = 0 \<or> fs_node_type f n = FS_TYPE_DIR \<and> children f n \<noteq> {} \<longrightarrow> fs_delete n f = Some (False, f))"
  using fs_delete_spec [OF assms, of n] by blast

theorem fs_delete_correct_witness:
  "fs_delete 5 fs_cleared = Some (False, fs_cleared) \<and>
   (\<exists>f1 f f'. fs_mkdir_child 0 (Some [65]) fs_cleared = Some (True, f1) \<and> fs_create_file 1 (Some [98]) f1 = Some (True, f) \<and>
      children f 1 = {2} \<and> fs_delete 1 f = Some (False, f) \<and>
      fs_delete 2 f = Some (True, f') \<and> fs_wf f' \<and> \<not> live f' 2 \<and> children f' 1 = {} \<and> children f' 0 = {1})"
proof (intro conjI)
  show "fs_delete 5 fs_cleared = Some (False, fs_cleared)"
    using fs_delete_correct [OF fs_cleared_wf, of 5] by (simp add: live_def fs_cleared_def)
  obtain f1 f where f: "fs_mkdir_child 0 (Some [65]) fs_cleared = Some (True, f1)"
      "fs_create_file 1 (Some [98]) f1 = Some (True, f)" "fs_wf f" "children f 0 = {1}" "children f 1 = {2}"
      "live f 2" "fs_node_parent f 2 = 1" "fs_node_type f 2 = FS_TYPE_FILE"
    using nested_disk by blast
  have one: "fs_node_type f 1 = FS_TYPE_DIR"
  proof -
    obtain ch rk where inv: "tree_inv f ch rk" using f(3) by (rule fs_wfE)
    have "ch 1 \<noteq> []" using tree_inv_children [OF inv, of 1] f(5) by (auto simp: const_defs)
    then show ?thesis using tree_inv_dir [OF inv, of 1] by (auto simp: const_defs)
  qed
  have no: "fs_delete 1 f = Some (False, f)" using fs_delete_correct [OF f(3), of 1] f(5) one by simp
  obtain f' where "fs_delete 2 f = Some (True, f')" "fs_wf f'" "\<not> live f' 2" "\<forall>d. children f' d = children f d - {2}"
    using fs_delete_correct [OF f(3), of 2] f(6-8) by auto
  then show "\<exists>f1 f f'. fs_mkdir_child 0 (Some [65]) fs_cleared = Some (True, f1) \<and>
      fs_create_file 1 (Some [98]) f1 = Some (True, f) \<and> children f 1 = {2} \<and> fs_delete 1 f = Some (False, f) \<and>
      fs_delete 2 f = Some (True, f') \<and> fs_wf f' \<and> \<not> live f' 2 \<and> children f' 1 = {} \<and> children f' 0 = {1}"
    using f(1,2,4,5) no by auto
qed

text \<open>
  C21.  Deleting a file in the root directory does not take it out of the list of the root.
  When the node is then the lowest free one, as it is if all nodes below it are in use, the
  next file created in the root closes the list to a cycle: from then on looking up any name
  that is not in the root never returns.
\<close>

theorem fs_root_delete_hangs:
  assumes "fs_wf f" and "n \<in> children f 0" and "fs_node_type f n = FS_TYPE_FILE"
    and "\<forall>m. 0 < m \<and> m < n \<longrightarrow> fs_node_type f m \<noteq> FS_TYPE_FREE"
    and "name_ok nm" and "\<forall>c\<in>children f 0. fs_node_name f c \<noteq> nm"
  shows "\<exists>f1 f2. fs_delete n f = Some (True, f1) \<and> fs_create_file 0 (Some nm) f1 = Some (True, f2) \<and>
     (\<forall>tok. length tok < RAMDISK_NAME_LEN \<and> 0 \<notin> set tok \<and> tok \<noteq> nm \<and> (\<forall>c\<in>children f 0. fs_node_name f c \<noteq> tok) \<longrightarrow>
        fs_find_child f2 0 tok = None)"
proof -
  obtain ch rk where "tree_inv f ch rk" using assms(1) by (rule fs_wfE)
  then show ?thesis using root_reuse_cycle assms(2-6) by blast
qed

theorem fs_root_delete_hangs_witness:
  "\<exists>f f1 f2. fs_create_file 0 (Some [97]) fs_cleared = Some (True, f) \<and> fs_delete 1 f = Some (True, f1) \<and>
     fs_create_file 0 (Some [98]) f1 = Some (True, f2) \<and> fs_find_child f2 0 [99] = None"
proof -
  have d: "fs_is_dir fs_cleared 0" "children fs_cleared 0 = {}"
    by (auto simp: fs_is_dir_def fs_cleared_def children_def live_def const_defs split: if_splits)
  have t: "fs_copy_name12_lower [97] = [97]" by (simp add: fs_copy_name12_lower_def to_lower_c_def const_defs)
  have n: "fs_alloc_node fs_cleared = 1" by (simp add: fs_alloc_node_def fs_cleared_def const_defs upt_rec)
  obtain f where f: "fs_create_file 0 (Some [97]) fs_cleared = Some (True, f)" "fs_wf f"
      "created fs_cleared FS_TYPE_FILE 0 [97] 1 f"
    using fs_new_child_spec [OF fs_cleared_wf, of "[97]" FS_TYPE_FILE 0] d t n by (auto simp: fs_create_file_def)
  have c: "children f 0 = {1}" "fs_node_type f 1 = FS_TYPE_FILE" "fs_node_name f 1 = [97]"
    using f(3) d by (auto simp: created_def)
  have "name_ok [98]" by (simp add: name_ok_def to_lower_c_def const_defs)
  then obtain f1 f2 where "fs_delete 1 f = Some (True, f1)" "fs_create_file 0 (Some [98]) f1 = Some (True, f2)"
      "\<forall>tok. length tok < RAMDISK_NAME_LEN \<and> 0 \<notin> set tok \<and> tok \<noteq> [98] \<and> (\<forall>c\<in>children f 0. fs_node_name f c \<noteq> tok) \<longrightarrow>
        fs_find_child f2 0 tok = None"
    using fs_root_delete_hangs [OF f(2), of 1 "[98]"] c by auto
  then show ?thesis using f(1) c by (auto simp: const_defs)
qed

text \<open>
  C7.  Reading what was written: writes to files that fit the free room of the pool together
  all succeed and keep the disk well formed; afterwards \<open>fs_read\<close> returns for every file
  what was last written to it, cut to the length asked for, and the old contents for a file
  that was not written to.
\<close>

theorem fs_write_read:
  assumes "fs_wf f" and "\<forall>(n, d)\<in>set ws. fs_is_file f n \<and> length d < 2147400000"
    and "(\<Sum>(n, d)\<leftarrow>ws. length d) \<le> fs_room f" and "fs_is_file f m" and "0 \<le> sz"
  shows "\<exists>f'. fs_puts ws f = (True, f') \<and> fs_wf f' \<and> fs_room f' = fs_room f - (\<Sum>(n, d)\<leftarrow>ws. length d) \<and>
     (let data = (case map_of (rev ws) m of None \<Rightarrow> fs_contents f m | Some d \<Rightarrow> d)
      in fs_read f' m False sz = (int (length (take (nat sz) data)), take (nat sz) data))"
proof -
  obtain f' where f': "fst_store.puts ws f = (True, f')" "fs_wf f'" "fs_room f' = fs_room f - (\<Sum>(n, d)\<leftarrow>ws. length d)"
      "\<forall>m. fs_is_file f' m = fs_is_file f m"
      "\<forall>m. fs_is_file f m \<longrightarrow> fs_contents f' m = (case map_of (rev ws) m of None \<Rightarrow> fs_contents f m | Some d \<Rightarrow> d)"
    using fst_store.last_write [OF assms(1-3)] by blast
  have "fs_read f' m False sz = (int (length (take (nat sz) (fs_contents f' m))), take (nat sz) (fs_contents f' m))"
    using fs_read_contents [of f' m sz] f'(4) assms(4,5) by (simp add: min.commute)
  then show ?thesis using f' assms(4) by (auto simp: fs_puts_eq Let_def)
qed

theorem fs_write_read_witness:
  "\<exists>f f'. fs_create_file 0 (Some [97]) fs_cleared = Some (True, f) \<and> fs_puts [(1, [1, 2, 3]), (1, [7, 8])] f = (True, f') \<and>
     fs_read f' 1 False 100 = (2, [7, 8])"
proof -
  have d: "fs_is_dir fs_cleared 0" "children fs_cleared 0 = {}"
    by (auto simp: fs_is_dir_def fs_cleared_def children_def live_def const_defs split: if_splits)
  have t: "fs_copy_name12_lower [97] = [97]" by (simp add: fs_copy_name12_lower_def to_lower_c_def const_defs)
  have n: "fs_alloc_node fs_cleared = 1" by (simp add: fs_alloc_node_def fs_cleared_def const_defs upt_rec)
  obtain f where f: "fs_create_file 0 (Some [97]) fs_cleared = Some (True, f)" "fs_wf f"
      "created fs_cleared FS_TYPE_FILE 0 [97] 1 f"
    using fs_new_child_spec [OF fs_cleared_wf, of "[97]" FS_TYPE_FILE 0] d t n by (auto simp: fs_create_file_def)
  have c: "fs_is_file f 1" "fs_room f = 8192"
    using f(3) by (auto simp: created_def fs_is_file_def fs_room_def fs_cleared_def const_defs)
  then show ?thesis
    using fs_write_read [OF f(2), of "[(1, [1, 2, 3]), (1, [7, 8])]" 1 100] f(1) by (auto simp: Let_def)
qed

text \<open>
  C22.  Path resolution returns on every well-formed disk, and its result is the walk over
  the tree by the components of the path: from the root for a path that starts with a slash,
  else from the current directory, with \<open>.\<close> and \<open>..\<close> as usual and every other
  component a child by its name in lower case, cut to 11 characters.  The components are the
  nonempty words between spaces and slashes (\<open>components\<close>).
\<close>

theorem fs_resolve_correct:
  assumes "fs_wf f" and "0 \<notin> set path"
  shows "fs_resolve_checked f (Some path) =
     Some (walk f (case path of c # _ \<Rightarrow> if c = 47 then 0 else fs_cwd f | [] \<Rightarrow> fs_cwd f) (components path))"
proof -
  obtain ch rk where inv: "tree_inv f ch rk" using assms(1) by (rule fs_wfE)
  have "fs_cwd f < RAMDISK_MAX_NODES" using inv by (simp add: tree_inv_def)
  then show ?thesis using assms(2) fs_resolve_loop_walk [OF inv]
    by (cases path) (auto simp: fs_resolve_checked_def tokens_slash tokens_components [symmetric])
qed

theorem fs_resolve_correct_witness:
  "fs_resolve_checked fs_cleared (Some [47, 46, 46]) = Some (Some 0) \<and>
   (\<exists>f. fs_mkdir_child 0 (Some [65]) fs_cleared = Some (True, f) \<and>
      fs_resolve_checked f (Some [65]) = Some (Some 1) \<and>
      fs_resolve_checked f (Some [47, 65, 47, 46]) = Some (Some 1) \<and>
      fs_resolve_checked f (Some [47, 97, 32, 46, 46]) = Some (Some 0) \<and>
      fs_resolve_checked f (Some [47, 98]) = Some None)"
proof -
  obtain f where f: "fs_mkdir_child 0 (Some [65]) fs_cleared = Some (True, f)" "fs_wf f" "children f 0 = {1}"
      "fs_node_name f 1 = [97]" "fs_cwd f = 0"
    using dir_disk by blast
  obtain ch rk where inv: "tree_inv f ch rk" using f(2) by (rule fs_wfE)
  have a: "child_of f 0 [97] = Some 1" using child_of_is [OF inv MAX_NODES_pos, of 1] f(3,4) by simp
  have b: "child_of f 0 [98] = None" using f(3,4) by (simp add: child_of_None)
  have "1 \<in> children f 0" using f(3) by simp
  then have "fs_node_parent f 1 = 0" by (simp add: children_def)
  then show ?thesis
    using fs_resolve_correct [OF fs_cleared_wf, of "[47, 46, 46]"] f(1,5) a b
      fs_resolve_correct [OF f(2), of "[65]"] fs_resolve_correct [OF f(2), of "[47, 65, 47, 46]"]
      fs_resolve_correct [OF f(2), of "[47, 97, 32, 46, 46]"] fs_resolve_correct [OF f(2), of "[47, 98]"]
    by (simp add: components_def)
qed

text \<open>
  Round trip of paths: on a well-formed disk whose names a path can spell, the path that
  \<open>fs_build_path\<close> writes for a node resolves to that node, whatever the current
  directory is, if the buffer has room for the deepest path.
\<close>

lemma fs_path_roundtrip:
  assumes "fs_wf f" and "\<forall>c. live f c \<and> c \<noteq> 0 \<longrightarrow> spellable (fs_node_name f c)"
    and "live f n" and "RAMDISK_NAME_LEN * RAMDISK_MAX_NODES < buf_size"
  shows "\<exists>path. fs_build_path f n False buf_size = Some path \<and> fs_resolve_checked f (Some path) = Some (Some n)"
proof -
  obtain ch rk where "tree_inv f ch rk" using assms(1) by (rule fs_wfE)
  then show ?thesis using build_path_resolve assms(2-4) by blast
qed

theorem fs_path_roundtrip_witness:
  "\<exists>path. fs_build_path fs_cleared 0 False 1000 = Some path \<and> fs_resolve_checked fs_cleared (Some path) = Some (Some 0)"
  by (rule fs_path_roundtrip [OF fs_cleared_wf])
    (auto simp: live_def fs_cleared_def const_defs split: if_splits)

text \<open>
  \<open>ramdisk_init\<close> returns and leaves a well-formed disk.
\<close>

lemma ramdisk_init_wf: "\<exists>f. ramdisk_init = Some f \<and> fs_wf f"
proof -
  let ?dirs = "[lit ''apps'', lit ''docs'', lit ''home'', lit ''java'', lit ''plasma'', lit ''system'']"
  let ?sub = "[lit ''apps'', lit ''config'', lit ''session'']"
  obtain f1 where f1: "fs_mkdirs 0 ?dirs fs_cleared = Some f1" "fs_wf f1"
    using fs_mkdirs_wf [OF fs_cleared_wf, of ?dirs 0] by auto
  obtain p where p: "fs_resolve f1 (Some (lit ''/plasma'')) = Some p"
    using fs_resolve_total [OF f1(2), of "lit ''/plasma''"] by auto
  obtain f2 where f2: "fs_mkdirs p ?sub f1 = Some f2" "fs_wf f2"
    using fs_mkdirs_wf [OF f1(2), of ?sub p] by auto
  obtain fa where fa: "ramdisk_seed_demo_files f1 = Some fa" "fs_wf fa" using seed_demo_files_wf [OF f1(2)] by blast
  obtain fb where fb: "ramdisk_seed_demo_files f2 = Some fb" "fs_wf fb" using seed_demo_files_wf [OF f2(2)] by blast
  have "ramdisk_init = Some (if p \<noteq> 0 then fb else fa)"
    using f1(1) p f2(1) fa(1) fb(1) by (simp add: ramdisk_init_def del: lit_Cons fs_mkdirs.simps)
  then show ?thesis using fa(2) fb(2) by (cases "p = 0") auto
qed

end
