(* ===== verification/Vga.thy ===== *)
theory Vga
  imports CString
begin

text \<open>
  The text screen, \<^verbatim>\<open>src/src/drivers/vga.c\<close>.  The frame buffer is a function from the
  \<^verbatim>\<open>int\<close> index that the code uses to a 16-bit cell, so that an index outside the screen is a
  write outside the screen, as in the code; the port writes of the cursor registers are kept
  as a log, oldest first.
\<close>

definition VGA_WIDTH :: int where [const_defs]: "VGA_WIDTH = 80"
definition VGA_HEIGHT :: int where [const_defs]: "VGA_HEIGHT = 25"

record vga =
  cells :: "int \<Rightarrow> u16"
  crtc :: "(nat \<times> u8) list"

definition VGA_ATTR :: "nat \<Rightarrow> nat \<Rightarrow> u8" where
  "VGA_ATTR fg bg = byte_of_nat (bg * 16 OR fg)"

text \<open>A cell: the character in the low byte, the attribute in the high byte.\<close>

definition vga_entry :: "u8 \<Rightarrow> u8 \<Rightarrow> u16" where
  "vga_entry c attr = ucast c OR push_bit 8 (ucast attr)"

definition put_cell :: "int \<Rightarrow> u16 \<Rightarrow> vga \<Rightarrow> vga" where
  "put_cell i e v = v\<lparr>cells := (cells v)(i := e)\<rparr>"

definition vga_clear :: "u8 \<Rightarrow> vga \<Rightarrow> vga" where
  "vga_clear attr v = fold (\<lambda>i. put_cell i (vga_entry chr_sp attr)) [0..VGA_WIDTH * VGA_HEIGHT - 1] v"

definition vga_init :: "vga \<Rightarrow> vga" where
  "vga_init v = vga_clear (VGA_ATTR 7 0) v"

definition vga_putchar_at :: "int \<Rightarrow> int \<Rightarrow> u8 \<Rightarrow> u8 \<Rightarrow> vga \<Rightarrow> vga" where
  "vga_putchar_at row col c attr v =
     (if row \<ge> 0 \<and> row < VGA_HEIGHT \<and> col \<ge> 0 \<and> col < VGA_WIDTH
      then put_cell (row * VGA_WIDTH + col) (vga_entry c attr) v else v)"

fun vga_write_at :: "int \<Rightarrow> int \<Rightarrow> bytes \<Rightarrow> u8 \<Rightarrow> vga \<Rightarrow> vga" where
  "vga_write_at row col [] attr v = v"
| "vga_write_at row col (c # s) attr v =
     (if col < VGA_WIDTH then vga_write_at row (col + 1) s attr (vga_putchar_at row col c attr v) else v)"

text \<open>The two nested loops; \<open>[a..b]\<close> is empty when \<open>b < a\<close>.\<close>

definition vga_fill_rect :: "int \<Rightarrow> int \<Rightarrow> int \<Rightarrow> int \<Rightarrow> u8 \<Rightarrow> u8 \<Rightarrow> vga \<Rightarrow> vga" where
  "vga_fill_rect row col h w c attr v =
     fold (\<lambda>r. fold (\<lambda>cc. put_cell (r * VGA_WIDTH + cc) (vga_entry c attr))
                 [col..min (col + w) VGA_WIDTH - 1])
       [row..min (row + h) VGA_HEIGHT - 1] v"

definition vga_fill_row :: "int \<Rightarrow> u8 \<Rightarrow> u8 \<Rightarrow> vga \<Rightarrow> vga" where
  "vga_fill_row row c attr v = vga_fill_rect row 0 1 VGA_WIDTH c attr v"

definition vga_read_at :: "int \<Rightarrow> int \<Rightarrow> vga \<Rightarrow> u16" where
  "vga_read_at row col v =
     (if row \<ge> 0 \<and> row < VGA_HEIGHT \<and> col \<ge> 0 \<and> col < VGA_WIDTH
      then cells v (row * VGA_WIDTH + col) else 0)"

text \<open>
  One \<^verbatim>\<open>memcpy\<close> of a row onto the row above.  The two rows do not overlap, so the copy is the
  copy of the cells (\<open>memcpy_block\<close> of the string library).
\<close>

definition copy_row :: "int \<Rightarrow> vga \<Rightarrow> vga" where
  "copy_row r v =
     v\<lparr>cells := (\<lambda>i. if r * VGA_WIDTH \<le> i \<and> i < (r + 1) * VGA_WIDTH
                      then cells v (i + VGA_WIDTH) else cells v i)\<rparr>"

definition vga_scroll_up :: "int \<Rightarrow> int \<Rightarrow> u8 \<Rightarrow> vga \<Rightarrow> vga" where
  "vga_scroll_up top_row bottom_row attr v =
     fold (\<lambda>c. put_cell ((bottom_row - 1) * VGA_WIDTH + c) (vga_entry chr_sp attr)) [0..VGA_WIDTH - 1]
       (fold copy_row [top_row..bottom_row - 2] v)"

definition vga_set_cursor :: "int \<Rightarrow> int \<Rightarrow> vga \<Rightarrow> vga" where
  "vga_set_cursor row col v =
     (let pos = word_of_int (row * VGA_WIDTH + col) :: u16
      in v\<lparr>crtc := crtc v @ [(980, 15), (981, ucast (pos AND 255)),
                            (980, 14), (981, ucast (drop_bit 8 pos AND 255))]\<rparr>)"

section \<open>What the operations leave on the screen\<close>

lemma crtc_put_cell [simp]: "crtc (put_cell i e v) = crtc v"
  by (simp add: put_cell_def)

lemma cells_put_cell [simp]: "cells (put_cell i e v) = (cells v)(i := e)"
  by (simp add: put_cell_def)

lemma cells_fold_put_cell:
  "cells (fold (\<lambda>i. put_cell (f i) e) is v) j = (if j \<in> f ` set is then e else cells v j)"
  by (induction "is" arbitrary: v) auto

lemma cells_vga_set_cursor [simp]: "cells (vga_set_cursor row col v) = cells v"
  by (simp add: vga_set_cursor_def Let_def)

lemma vga_clear_cells:
  "cells (vga_clear attr v) i = (if 0 \<le> i \<and> i < 2000 then vga_entry chr_sp attr else cells v i)"
  unfolding vga_clear_def cells_fold_put_cell by (auto simp: const_defs)

lemma vga_putchar_at_cells:
  "cells (vga_putchar_at row col c attr v) i =
     (if 0 \<le> row \<and> row < 25 \<and> 0 \<le> col \<and> col < 80 \<and> i = row * 80 + col
      then vga_entry c attr else cells v i)"
  by (auto simp: vga_putchar_at_def const_defs)

lemma vga_read_putchar:
  "vga_read_at r k (vga_putchar_at row col c attr v) =
     (if 0 \<le> row \<and> row < 25 \<and> 0 \<le> col \<and> col < 80 \<and> r = row \<and> k = col
      then vga_entry c attr else vga_read_at r k v)"
proof -
  have "r = row \<and> k = col" if "r * 80 + k = row * 80 + col" "0 \<le> k" "k < 80" "0 \<le> col" "col < 80"
  proof -
    have "r = row" using that by linarith
    with that show ?thesis by simp
  qed
  then show ?thesis by (auto simp: vga_read_at_def vga_putchar_at_cells const_defs)
qed

lemma vga_putchar_at_off_screen:
  "i < 0 \<or> 2000 \<le> i \<Longrightarrow> cells (vga_putchar_at row col c attr v) i = cells v i"
  by (auto simp: vga_putchar_at_cells)

lemma vga_write_at_off_screen:
  "i < 0 \<or> 2000 \<le> i \<Longrightarrow> cells (vga_write_at row col s attr v) i = cells v i"
  by (induction row col s attr v rule: vga_write_at.induct)
    (auto simp: vga_putchar_at_off_screen)

lemma vga_read_write_at:
  assumes "0 \<le> row" "row < 25" "0 \<le> col" "0 \<le> k" "k < 80"
  shows "vga_read_at r k (vga_write_at row col s attr v) =
    (if r = row \<and> col \<le> k \<and> k < col + int (length s)
     then vga_entry (s ! nat (k - col)) attr else vga_read_at r k v)"
  using assms
proof (induction row col s attr v rule: vga_write_at.induct)
  case (2 row col c s attr v)
  show ?case
  proof (cases "col < 80")
    case True
    then show ?thesis
      using 2 by (auto simp: vga_read_putchar const_defs nth_Cons' nat_diff_distrib' algebra_simps nat_add_distrib)
  qed (use 2 in \<open>auto simp: const_defs\<close>)
qed auto

lemma copy_rows_cells:
  "cells (fold copy_row [top_row..top_row + int n - 1] v) i =
    (if top_row * 80 \<le> i \<and> i < (top_row + int n) * 80 then cells v (i + 80) else cells v i)"
proof (induction n arbitrary: top_row v)
  case 0
  then show ?case by auto
next
  case (Suc n)
  have "[top_row..top_row + int (Suc n) - 1] = top_row # [top_row + 1..top_row + 1 + int n - 1]"
    by (subst upto_rec1) (simp_all add: algebra_simps)
  then show ?case
    by (simp only: fold_simps comp_apply Suc.IH) (auto simp: copy_row_def const_defs algebra_simps)
qed

lemma vga_scroll_up_cells:
  assumes "top_row < bottom_row"
  shows "cells (vga_scroll_up top_row bottom_row attr v) i =
    (if (bottom_row - 1) * 80 \<le> i \<and> i < bottom_row * 80 then vga_entry chr_sp attr
     else if top_row * 80 \<le> i \<and> i < (bottom_row - 1) * 80 then cells v (i + 80) else cells v i)"
proof -
  have "[top_row..bottom_row - 2] = [top_row..top_row + int (nat (bottom_row - 1 - top_row)) - 1]" using assms by simp
  moreover have "(i \<in> (\<lambda>c. (bottom_row - 1) * 80 + c) ` {0..79}) \<longleftrightarrow> (bottom_row - 1) * 80 \<le> i \<and> i < bottom_row * 80"
    by (rule iffI) (auto simp: image_iff algebra_simps intro!: bexI [of _ "i - (bottom_row - 1) * 80"])
  ultimately show ?thesis
    using assms copy_rows_cells [of top_row "nat (bottom_row - 1 - top_row)" v i]
    unfolding vga_scroll_up_def cells_fold_put_cell by (simp add: const_defs)
qed

end
