(* ===== verification/Bounded_Ring.thy ===== *)
theory Bounded_Ring
  imports Prelude
begin

text \<open>
  The contract of a bounded ring buffer, as a locale, and the array ring that implements
  it in two places of the kernel: the kernel log (\<^verbatim>\<open>klog.c\<close>) and the command
  history (\<^verbatim>\<open>terminal.c\<close>).  The contract says that a push keeps the last
  \<open>cap\<close> elements; the client lemma lifts it to any sequence of pushes.
\<close>

section \<open>The contract\<close>

locale bounded_ring =
  fixes cap :: nat
    and push :: "'a \<Rightarrow> 's \<Rightarrow> 's"
    and contents :: "'s \<Rightarrow> 'a list"
    and wf :: "'s \<Rightarrow> bool"
  assumes contents_push: "wf s \<Longrightarrow> contents (push x s) = take_last cap (contents s @ [x])"
    and wf_push: "wf s \<Longrightarrow> wf (push x s)"
    and contents_bounded: "wf s \<Longrightarrow> length (contents s) \<le> cap"
begin

lemma wf_pushes: "wf s \<Longrightarrow> wf (fold push xs s)"
  by (induction xs arbitrary: s) (auto intro: wf_push)

lemma contents_pushes: "wf s \<Longrightarrow> contents (fold push xs s) = take_last cap (contents s @ xs)"
proof (induction xs arbitrary: s)
  case Nil
  then show ?case by (simp add: contents_bounded)
next
  case (Cons x xs)
  then show ?case
    using take_last_take_last_append [of cap "contents s @ [x]" xs]
    by (simp add: wf_push contents_push)
qed

lemma pushes_fit: "wf s \<Longrightarrow> length (contents s) + length xs \<le> cap \<Longrightarrow>
    contents (fold push xs s) = contents s @ xs"
  by (simp add: contents_pushes)

lemma recent_survive: "wf s \<Longrightarrow> length xs \<le> cap \<Longrightarrow> take_last (length xs) (contents (fold push xs s)) = xs"
  by (auto simp: contents_pushes take_last_append) (simp add: take_last_def)

end

section \<open>The array ring\<close>

text \<open>
  The live elements of an array of \<open>cap\<close> slots whose next free slot is \<open>head\<close> and whose
  fill is \<open>fill\<close>, oldest first.
\<close>

definition ring_contents :: "nat \<Rightarrow> (nat \<Rightarrow> 'a) \<Rightarrow> nat \<Rightarrow> nat \<Rightarrow> 'a list" where
  "ring_contents cap arr head fill = map (\<lambda>i. arr ((head + cap - fill + i) mod cap)) [0..<fill]"

lemma length_ring_contents [simp]: "length (ring_contents cap arr head fill) = fill"
  by (simp add: ring_contents_def)

lemma nth_ring_contents [simp]:
  "i < fill \<Longrightarrow> ring_contents cap arr head fill ! i = arr ((head + cap - fill + i) mod cap)"
  by (simp add: ring_contents_def)

lemma ring_slot_step:
  fixes head cap fill i :: nat
  assumes "head < cap" and "fill \<le> cap"
  shows "((head + 1) mod cap + cap - fill + i) mod cap = (head + cap - fill + Suc i) mod cap"
proof (cases "head + 1 = cap")
  case True
  then have "head + cap - fill + Suc i = (cap - fill + i) + cap" using assms by simp
  then have "(head + cap - fill + Suc i) mod cap = (cap - fill + i) mod cap" by (metis mod_add_self2)
  then show ?thesis using True by simp
next
  case False
  then have "(head + 1) mod cap = head + 1" using assms by simp
  moreover have "head + 1 + cap - fill + i = head + cap - fill + Suc i" using assms by simp
  ultimately show ?thesis by (simp only:)
qed

lemma ring_slot_head:
  fixes head cap fill i :: nat
  assumes "head < cap" and "fill \<le> cap"
  shows "(head + cap - fill + fill) mod cap = head"
  using assms by simp

lemma ring_slot_other:
  fixes head cap fill i :: nat
  assumes "head < cap" and "fill \<le> cap" and "i < fill" and "fill < cap \<or> 0 < i"
  shows "(head + cap - fill + i) mod cap \<noteq> head"
proof -
  define k where "k = fill - i"
  have k: "0 < k" "k < cap" "head + cap - fill + i = head + cap - k" using assms by (auto simp: k_def)
  show ?thesis
  proof (cases "k \<le> head")
    case True
    then have "head + cap - k = (head - k) + cap" using k by simp
    moreover have "((head - k) + cap) mod cap = head - k" using assms(1) by simp
    ultimately have "(head + cap - fill + i) mod cap = head - k" using k(3) by (simp only:)
    then show ?thesis using k(1) True by linarith
  next
    case False
    then have "head + cap - k < cap" using k by simp
    then show ?thesis using k False by simp
  qed
qed

lemma ring_contents_push:
  assumes "head < cap" and "fill \<le> cap"
  shows "ring_contents cap (arr(head := x)) ((head + 1) mod cap) (if fill < cap then fill + 1 else fill) =
         take_last cap (ring_contents cap arr head fill @ [x])"
proof (cases "fill < cap")
  case True
  have "ring_contents cap (arr(head := x)) ((head + 1) mod cap) (Suc fill) =
        ring_contents cap arr head fill @ [x]"
  proof (rule nth_equalityI)
    fix i assume "i < length (ring_contents cap (arr(head := x)) ((head + 1) mod cap) (Suc fill))"
    then have i: "i < Suc fill" by simp
    have slot: "((head + 1) mod cap + cap - Suc fill + i) mod cap = (head + cap - fill + i) mod cap"
      using ring_slot_step [of head cap "Suc fill" i] assms True
      by (simp add: Suc_diff_le add.assoc flip: add_Suc_right)
    show "ring_contents cap (arr(head := x)) ((head + 1) mod cap) (Suc fill) ! i =
          (ring_contents cap arr head fill @ [x]) ! i"
    proof (cases "i < fill")
      case less: True
      then show ?thesis
        using i slot ring_slot_other [OF assms less] True by (simp add: nth_append)
    next
      case False
      then have "i = fill" using i by simp
      then show ?thesis using slot ring_slot_head [OF assms] by (simp add: nth_append)
    qed
  qed simp
  with True show ?thesis by simp
next
  case False
  then have sz: "fill = cap" using assms by simp
  have "ring_contents cap (arr(head := x)) ((head + 1) mod cap) cap =
        drop 1 (ring_contents cap arr head cap @ [x])"
  proof (rule nth_equalityI)
    fix i assume "i < length (ring_contents cap (arr(head := x)) ((head + 1) mod cap) cap)"
    then have i: "i < cap" by simp
    have slot: "((head + 1) mod cap + cap - cap + i) mod cap = (head + cap - cap + Suc i) mod cap"
      using ring_slot_step [of head cap cap i] assms sz by simp
    show "ring_contents cap (arr(head := x)) ((head + 1) mod cap) cap ! i =
          drop 1 (ring_contents cap arr head cap @ [x]) ! i"
    proof (cases "Suc i < cap")
      case True
      then show ?thesis
        using i slot ring_slot_other [of head cap cap "Suc i"] assms sz by (auto simp: nth_append)
    next
      case False
      then have "Suc i = cap" using i by simp
      then show ?thesis using i slot assms sz by (auto simp: nth_append)
    qed
  qed simp
  with sz show ?thesis by (simp add: take_last_def)
qed

end
