(* ===== verification/Terminal.thy ===== *)
theory Terminal
  imports Vga Bounded_Ring
begin

text \<open>
  The shell's terminal, \<^verbatim>\<open>src/src/terminal/terminal.c\<close>: text output on the screen, the
  command history, the line editor and the loop that runs a command line.  Character arrays
  are lists of bytes of the array's size; \<open>cstr_of\<close> reads the string an array holds.  The
  command table \<open>cmd_dispatch\<close> is an argument of the definitions, a function on the
  terminal and the rest of the system; it is instantiated with the shell's own table where
  the commands are modelled.
\<close>

section \<open>State\<close>

definition HIST_SIZE :: nat where [const_defs]: "HIST_SIZE = 50"
definition HIST_LEN :: nat where [const_defs]: "HIST_LEN = 256"

record terminal =
  cursor_x :: int
  cursor_y :: int
  g_history :: "nat \<Rightarrow> bytes"
  g_hist_count :: nat
  g_hist_next :: nat
  g_pending :: bytes
  g_nav_pos :: nat
  cmdbuf :: bytes
  cmdlen :: nat
  cursor_pos :: nat
  edit_row :: int
  edit_col :: int
  scr :: vga

text \<open>Key codes of \<^verbatim>\<open>keyboard.h\<close>.\<close>

definition KEY_UP :: nat where [const_defs]: "KEY_UP = 256"
definition KEY_DOWN :: nat where [const_defs]: "KEY_DOWN = 257"
definition KEY_LEFT :: nat where [const_defs]: "KEY_LEFT = 258"
definition KEY_RIGHT :: nat where [const_defs]: "KEY_RIGHT = 259"
definition KEY_ENTER :: nat where [const_defs]: "KEY_ENTER = 260"
definition KEY_BACKSPACE :: nat where [const_defs]: "KEY_BACKSPACE = 261"
definition KEY_ESCAPE :: nat where [const_defs]: "KEY_ESCAPE = 262"
definition KEY_TAB :: nat where [const_defs]: "KEY_TAB = 263"
definition KEY_F1 :: nat where [const_defs]: "KEY_F1 = 272"
definition KEY_F2 :: nat where [const_defs]: "KEY_F2 = 273"
definition KEY_F3 :: nat where [const_defs]: "KEY_F3 = 274"
definition KEY_F4 :: nat where [const_defs]: "KEY_F4 = 275"
definition KEY_F10 :: nat where [const_defs]: "KEY_F10 = 281"
definition KEY_HOME :: nat where [const_defs]: "KEY_HOME = 288"
definition KEY_END :: nat where [const_defs]: "KEY_END = 289"
definition KEY_DELETE :: nat where [const_defs]: "KEY_DELETE = 290"
definition KEY_PAGEUP :: nat where [const_defs]: "KEY_PAGEUP = 291"
definition KEY_PAGEDOWN :: nat where [const_defs]: "KEY_PAGEDOWN = 292"

section \<open>Output\<close>

definition term_cursor :: "terminal \<Rightarrow> terminal" where
  "term_cursor t = t\<lparr>scr := vga_set_cursor (cursor_y t) (cursor_x t) (scr t)\<rparr>"

definition term_emit :: "u8 \<Rightarrow> u8 \<Rightarrow> terminal \<Rightarrow> terminal" where
  "term_emit c attr t =
     (if c = 10 then t\<lparr>cursor_x := 0, cursor_y := cursor_y t + 1\<rparr>
      else if c = 8 then
        (if cursor_x t > 0
         then t\<lparr>cursor_x := cursor_x t - 1,
                scr := vga_putchar_at (cursor_y t) (cursor_x t - 1) chr_sp attr (scr t)\<rparr>
         else t)
      else
        (let t1 = t\<lparr>scr := vga_putchar_at (cursor_y t) (cursor_x t) c attr (scr t),
                    cursor_x := cursor_x t + 1\<rparr>
         in if cursor_x t1 \<ge> VGA_WIDTH then t1\<lparr>cursor_x := 0, cursor_y := cursor_y t1 + 1\<rparr> else t1))"

definition term_scroll :: "u8 \<Rightarrow> terminal \<Rightarrow> terminal" where
  "term_scroll attr t =
     (if cursor_y t \<ge> VGA_HEIGHT
      then t\<lparr>scr := vga_scroll_up 0 (VGA_HEIGHT - 1) attr (scr t),
             cursor_y := VGA_HEIGHT - 1, edit_row := VGA_HEIGHT - 1\<rparr>
      else t)"

definition term_putc :: "u8 \<Rightarrow> u8 \<Rightarrow> terminal \<Rightarrow> terminal" where
  "term_putc c attr t = term_cursor (term_scroll attr (term_emit c attr t))"

definition term_puts :: "bytes \<Rightarrow> terminal \<Rightarrow> terminal" where
  "term_puts s t = fold (\<lambda>c. term_putc c 7) s t"

definition term_reset_screen :: "terminal \<Rightarrow> terminal" where
  "term_reset_screen t = term_cursor (t\<lparr>scr := vga_clear 7 (scr t), cursor_x := 0, cursor_y := 0\<rparr>)"

section \<open>History\<close>

definition hist_push :: "bytes \<Rightarrow> terminal \<Rightarrow> terminal" where
  "hist_push entry t =
     t\<lparr>g_history := (g_history t)(g_hist_next t := entry),
       g_hist_next := (g_hist_next t + 1) mod HIST_SIZE,
       g_hist_count := (if g_hist_count t < HIST_SIZE then g_hist_count t + 1 else g_hist_count t)\<rparr>"

definition hist_add :: "bytes option \<Rightarrow> terminal \<Rightarrow> terminal" where
  "hist_add cmd t =
     (case cmd of None \<Rightarrow> t
      | Some s \<Rightarrow> if s = [] then t else hist_push (strncpy_l s (HIST_LEN - 1) @ [0]) t)"

definition hist_get :: "nat \<Rightarrow> terminal \<Rightarrow> bytes option" where
  "hist_get steps_back t =
     (if steps_back < 1 \<or> steps_back > g_hist_count t then None
      else Some (g_history t ((g_hist_next t + HIST_SIZE * 2 - steps_back) mod HIST_SIZE)))"

definition hist_line :: "nat \<Rightarrow> terminal \<Rightarrow> terminal" where
  "hist_line i t =
     (case hist_get (g_hist_count t - i + 1) t of None \<Rightarrow> t
      | Some entry \<Rightarrow>
          term_puts [10] (term_puts (cstr_of entry)
            (term_puts (if i < 10 then lit ''   '' else lit ''  '')
              (term_puts (itoa_text (word_of_nat i)) (term_puts (lit ''  '') t)))))"

definition term_print_history :: "terminal \<Rightarrow> terminal" where
  "term_print_history t =
     (if g_hist_count t = 0 then term_puts (lit ''  (no history)'' @ [10]) t
      else fold hist_line [1..<g_hist_count t + 1] t)"

section \<open>Line editor\<close>

definition redraw_input :: "terminal \<Rightarrow> terminal" where
  "redraw_input t =
     (let col = edit_col t; row = edit_row t; avail = nat (VGA_WIDTH - col);
          v1 = fold (\<lambda>i. vga_putchar_at row (col + int i) (cmdbuf t ! i) 7) [0..<min (cmdlen t) avail] (scr t);
          v2 = fold (\<lambda>i. vga_putchar_at row (col + int i) chr_sp 7) [cmdlen t..<avail] v1
      in term_cursor (t\<lparr>scr := v2, cursor_x := col + int (cursor_pos t), cursor_y := row\<rparr>))"

text \<open>Loading an array into the command buffer and moving the cursor to its end.\<close>

definition load_line :: "bytes \<Rightarrow> terminal \<Rightarrow> terminal" where
  "load_line entry t =
     (let buf = strncpy_l (cstr_of entry) (HIST_LEN - 1) @ [0]
      in redraw_input (t\<lparr>cmdbuf := buf, cmdlen := length (cstr_of buf), cursor_pos := length (cstr_of buf)\<rparr>))"

definition load_history_entry :: "nat \<Rightarrow> terminal \<Rightarrow> terminal" where
  "load_history_entry steps_back t =
     (case hist_get steps_back t of None \<Rightarrow> t | Some entry \<Rightarrow> load_line entry t)"

definition print_prompt :: "terminal \<Rightarrow> terminal" where
  "print_prompt t = (let t1 = term_puts (lit ''> '') t in t1\<lparr>edit_row := cursor_y t1, edit_col := cursor_x t1\<rparr>)"

definition lower_char :: "u8 \<Rightarrow> u8" where
  "lower_char c = (if c \<ge> 65 \<and> c \<le> 90 then c - 65 + 97 else c)"

definition str_to_lower_in_place :: "bytes option \<Rightarrow> bytes option" where
  "str_to_lower_in_place s = map_option (map lower_char) s"

function shift_left :: "bytes \<Rightarrow> nat \<Rightarrow> nat \<Rightarrow> bytes" where
  "shift_left buf i n = (if i < n then shift_left (buf[i := buf ! (i + 1)]) (i + 1) n else buf)"
  by pat_completeness auto
termination by (relation "measure (\<lambda>(buf, i, n). n - i)") auto

declare shift_left.simps [simp del]

fun shift_right :: "bytes \<Rightarrow> nat \<Rightarrow> nat \<Rightarrow> bytes" where
  "shift_right buf i p = (if i > p then shift_right (buf[i := buf ! (i - 1)]) (i - 1) p else buf)"

declare shift_right.simps [simp del]

section \<open>Running a command line\<close>

text \<open>
  The command word and its arguments: the word ends at the first space, the arguments begin
  at the next character that is not a space, and are absent when nothing follows.
\<close>

definition split_command :: "bytes \<Rightarrow> bytes \<times> bytes option" where
  "split_command tmp =
     (if chr_sp \<in> set tmp then
        (let rest = dropWhile (\<lambda>c. c = chr_sp) (tl (dropWhile (\<lambda>c. c \<noteq> chr_sp) tmp))
         in (takeWhile (\<lambda>c. c \<noteq> chr_sp) tmp, if rest = [] then None else Some rest))
      else (tmp, None))"

definition help_lines :: "bytes list" where
  "help_lines =
    [lit ''Available commands:'' @ [10],
     lit ''  File:    ls mkdir rm touch cat cd pwd tree cp find grep rmdir mv'' @ [10],
     lit ''  Network: ping wget nslookup ifconfig netstat traceroute curl telnet'' @ [10],
     lit ''  System:  echo uname whoami date ps kill top dmesg kstats reboot shutdown'' @ [10],
     lit ''  System+: uptime sleep calc beep history'' @ [10],
     lit ''  Java:    java [file]  jarinfo [file]  /java'' @ [10],
     lit ''  Games:   catnake pong'' @ [10],
     lit ''  Apps:    mamu kat desktop'' @ [10],
     lit ''  Tips:    echo > file  |  Up/Down=history  |  Home/End=line ends'' @ [10]]"

type_synonym 'w dispatch = "bytes \<Rightarrow> bytes option \<Rightarrow> 'w \<times> terminal \<Rightarrow> (bool \<times> 'w \<times> terminal) option"

definition run_command :: "'w dispatch \<Rightarrow> bytes \<Rightarrow> 'w \<times> terminal \<Rightarrow> ('w \<times> terminal) option" where
  "run_command disp line s =
     (let (word, args) = split_command (cstr_of (strncpy_l line (HIST_LEN - 1) @ [0]));
          tmp = map lower_char word; (w, t) = s
      in if strcmp_l tmp (lit ''help'') = 0 then Some (w, fold term_puts help_lines t)
         else if strcmp_l tmp (lit ''clear'') = 0 then Some (w, term_reset_screen t)
         else if strcmp_l tmp (lit ''history'') = 0 then Some (w, term_print_history t)
         else (case disp tmp args (w, t) of None \<Rightarrow> None
               | Some (handled, w1, t1) \<Rightarrow>
                   if handled then Some (w1, t1)
                   else Some (w1, term_puts (lit ''  (try '' @ [39] @ lit ''help'' @ [39] @ lit '')'' @ [10])
                          (term_puts tmp (term_puts (lit ''Unknown command: '') t1)))))"

definition key_enter :: "'w dispatch \<Rightarrow> 'w \<times> terminal \<Rightarrow> ('w \<times> terminal) option" where
  "key_enter disp s =
     (let (w, t) = s;
          t1 = t\<lparr>cmdbuf := (cmdbuf t)[cmdlen t := 0]\<rparr>;
          t2 = (term_putc 10 7 t1)\<lparr>g_nav_pos := 0\<rparr>;
          line = cstr_of (cmdbuf t2);
          r = (if cmdlen t2 > 0 then run_command disp line (w, hist_add (Some line) t2) else Some (w, t2))
      in case r of None \<Rightarrow> None
         | Some (w3, t3) \<Rightarrow>
             Some (w3, print_prompt (t3\<lparr>cmdlen := 0, cursor_pos := 0, cmdbuf := (cmdbuf t3)[0 := 0]\<rparr>)))"

definition key_backspace :: "terminal \<Rightarrow> terminal" where
  "key_backspace t =
     (if cursor_pos t > 0 then
        (let buf = shift_left (cmdbuf t) (cursor_pos t - 1) (cmdlen t - 1)
         in redraw_input (t\<lparr>cmdbuf := buf[cmdlen t - 1 := 0], cmdlen := cmdlen t - 1,
                            cursor_pos := cursor_pos t - 1\<rparr>))
      else t)"

definition key_delete :: "terminal \<Rightarrow> terminal" where
  "key_delete t =
     (if cursor_pos t < cmdlen t then
        (let buf = shift_left (cmdbuf t) (cursor_pos t) (cmdlen t - 1)
         in redraw_input (t\<lparr>cmdbuf := buf[cmdlen t - 1 := 0], cmdlen := cmdlen t - 1\<rparr>))
      else t)"

definition key_up :: "terminal \<Rightarrow> terminal" where
  "key_up t =
     (let t1 = (if g_nav_pos t = 0
                then t\<lparr>g_pending := strncpy_l (cstr_of (cmdbuf t)) (HIST_LEN - 1) @ [0]\<rparr> else t)
      in if g_nav_pos t1 < g_hist_count t1
         then load_history_entry (g_nav_pos t1 + 1) (t1\<lparr>g_nav_pos := g_nav_pos t1 + 1\<rparr>) else t1)"

definition key_down :: "terminal \<Rightarrow> terminal" where
  "key_down t =
     (if g_nav_pos t > 1 then load_history_entry (g_nav_pos t - 1) (t\<lparr>g_nav_pos := g_nav_pos t - 1\<rparr>)
      else if g_nav_pos t = 1 then load_line (g_pending t) (t\<lparr>g_nav_pos := 0\<rparr>)
      else t)"

definition key_insert :: "u8 \<Rightarrow> terminal \<Rightarrow> terminal" where
  "key_insert c t =
     (let buf = (shift_right (cmdbuf t) (cmdlen t) (cursor_pos t))[cursor_pos t := c]
      in redraw_input (t\<lparr>cmdbuf := buf[cmdlen t + 1 := 0], cmdlen := cmdlen t + 1,
                         cursor_pos := cursor_pos t + 1\<rparr>))"

text \<open>One round of the loop of \<open>terminal_run\<close> for the key that \<open>keyboard_poll\<close> returned.\<close>

definition edit_key :: "nat \<Rightarrow> terminal \<Rightarrow> terminal" where
  "edit_key key t =
     (if key = KEY_BACKSPACE \<or> key = 8 then key_backspace t
      else if key = KEY_DELETE then key_delete t
      else if key = KEY_LEFT then
        (if cursor_pos t > 0 then redraw_input (t\<lparr>cursor_pos := cursor_pos t - 1\<rparr>) else t)
      else if key = KEY_RIGHT then
        (if cursor_pos t < cmdlen t then redraw_input (t\<lparr>cursor_pos := cursor_pos t + 1\<rparr>) else t)
      else if key = KEY_HOME then redraw_input (t\<lparr>cursor_pos := 0\<rparr>)
      else if key = KEY_END then redraw_input (t\<lparr>cursor_pos := cmdlen t\<rparr>)
      else if key = KEY_UP then key_up t
      else if key = KEY_DOWN then key_down t
      else if key \<ge> 32 \<and> key \<le> 126 \<and> cmdlen t < HIST_LEN - 1 then key_insert (byte_of_nat key) t
      else t)"

definition terminal_key :: "'w dispatch \<Rightarrow> nat \<Rightarrow> 'w \<times> terminal \<Rightarrow> ('w \<times> terminal) option" where
  "terminal_key disp key s =
     (if key = 0 then Some s
      else if key = KEY_ENTER \<or> key = 10 then key_enter disp s
      else Some (fst s, edit_key key (snd s)))"

definition terminal_start :: "terminal \<Rightarrow> terminal" where
  "terminal_start t =
     (let t1 = term_puts (lit ''Welcome to HeatOS!'' @ [10]) (term_reset_screen t);
          t2 = term_puts (lit ''Type '' @ [39] @ lit ''help'' @ [39] @
                 lit '' for commands.  Up/Down=history  Home/End/Del=editing'' @ [10]) t1;
          t3 = print_prompt t2
      in t3\<lparr>cmdlen := 0, cursor_pos := 0, cmdbuf := (cmdbuf t3)[0 := 0]\<rparr>)"

text \<open>The shell loop over the keys that the keyboard delivers.\<close>

fun terminal_loop :: "'w dispatch \<Rightarrow> nat list \<Rightarrow> 'w \<times> terminal \<Rightarrow> ('w \<times> terminal) option" where
  "terminal_loop disp [] s = Some s"
| "terminal_loop disp (key # keys) s =
     (case terminal_key disp key s of None \<Rightarrow> None | Some s1 \<Rightarrow> terminal_loop disp keys s1)"

definition terminal_run :: "'w dispatch \<Rightarrow> nat list \<Rightarrow> 'w \<times> terminal \<Rightarrow> ('w \<times> terminal) option" where
  "terminal_run disp keys s = terminal_loop disp keys (fst s, terminal_start (snd s))"

section \<open>The display\<close>

text \<open>
  The state of the editor apart from the display; the display invariant; and what every
  output operation keeps: the editor state and every cell outside the screen.
\<close>

definition editor_part where
  "editor_part t = (g_history t, g_hist_count t, g_hist_next t, g_pending t, g_nav_pos t,
     cmdbuf t, cmdlen t, cursor_pos t)"

definition on_screen :: "terminal \<Rightarrow> bool" where
  "on_screen t \<longleftrightarrow> 0 \<le> cursor_x t \<and> 0 \<le> cursor_y t \<and> cursor_y t < 25 \<and>
     0 \<le> edit_row t \<and> edit_row t < 25 \<and> 0 \<le> edit_col t \<and> edit_col t < 80"

definition same_outside :: "terminal \<Rightarrow> terminal \<Rightarrow> bool" where
  "same_outside t t' \<longleftrightarrow> (\<forall>i. i < 0 \<or> 2000 \<le> i \<longrightarrow> cells (scr t') i = cells (scr t) i)"

definition draws :: "terminal \<Rightarrow> terminal \<Rightarrow> bool" where
  "draws t t' \<longleftrightarrow> (on_screen t \<longrightarrow> on_screen t') \<and> editor_part t' = editor_part t \<and> same_outside t t'"

lemma same_outside_refl [simp]: "same_outside t t"
  by (simp add: same_outside_def)

lemma same_outside_trans: "same_outside t u \<Longrightarrow> same_outside u v \<Longrightarrow> same_outside t v"
  by (simp add: same_outside_def)

lemma draws_refl [simp, intro]: "draws t t"
  by (simp add: draws_def)

lemma draws_trans [trans]: "draws t u \<Longrightarrow> draws u v \<Longrightarrow> draws t v"
  unfolding draws_def using same_outside_trans by metis

lemma draws_fold: "(\<And>x t. draws t (f x t)) \<Longrightarrow> draws t (fold f xs t)"
  by (induction xs arbitrary: t) (auto intro: draws_trans)

lemma draws_term_putc [intro]: "draws t (term_putc c attr t)"
  by (auto simp: draws_def term_putc_def term_cursor_def term_scroll_def term_emit_def Let_def
      on_screen_def editor_part_def same_outside_def vga_scroll_up_cells vga_putchar_at_off_screen const_defs)

lemma draws_term_puts [intro]: "draws t (term_puts s t)"
  unfolding term_puts_def by (rule draws_fold) (rule draws_term_putc)

lemma draws_puts: "draws t u \<Longrightarrow> draws t (term_puts s u)"
  by (rule draws_trans [OF _ draws_term_puts])

lemma draws_term_reset_screen [intro]: "draws t (term_reset_screen t)"
  by (auto simp: draws_def term_reset_screen_def term_cursor_def on_screen_def editor_part_def
      same_outside_def vga_clear_cells)

lemma draws_hist_line [intro]: "draws t (hist_line i t)"
  unfolding hist_line_def by (cases "hist_get (g_hist_count t - i + 1) t") (simp_all add: draws_puts)

lemma draws_term_print_history [intro]: "draws t (term_print_history t)"
  unfolding term_print_history_def by (simp add: draws_puts draws_fold draws_hist_line del: upt_Suc)

lemma term_putc_cursor_x:
  "c \<noteq> 8 \<Longrightarrow> 0 \<le> cursor_x t \<Longrightarrow> 0 \<le> cursor_x (term_putc c attr t) \<and> cursor_x (term_putc c attr t) < 80"
  by (auto simp: term_putc_def term_cursor_def term_scroll_def term_emit_def Let_def const_defs)

lemma off_screen_fold:
  "i < 0 \<or> 2000 \<le> i \<Longrightarrow> cells (fold (\<lambda>k. vga_putchar_at row (f k) (g k) a) xs v) i = cells v i"
  by (induction xs arbitrary: v) (simp_all add: vga_putchar_at_off_screen)

lemma same_outside_redraw: "same_outside t (redraw_input t)"
  by (auto simp: same_outside_def redraw_input_def Let_def term_cursor_def off_screen_fold)

lemma redraw_editor_part [simp]: "editor_part (redraw_input t) = editor_part t"
  by (simp add: redraw_input_def Let_def term_cursor_def editor_part_def)

lemma on_screen_redraw: "on_screen t \<Longrightarrow> on_screen (redraw_input t)"
  by (auto simp: redraw_input_def Let_def term_cursor_def on_screen_def)

lemma draws_redraw_input [intro]: "draws t (redraw_input t)"
  by (simp add: draws_def same_outside_redraw on_screen_redraw)

lemma draws_prompt:
  "on_screen t \<Longrightarrow> on_screen (print_prompt t) \<and> editor_part (print_prompt t) = editor_part t \<and>
    same_outside t (print_prompt t)"
proof -
  assume t: "on_screen t"
  let ?t1 = "term_puts (lit ''> '') t"
  have d: "draws t ?t1" ..
  have "0 \<le> cursor_x ?t1 \<and> cursor_x ?t1 < 80"
  proof -
    have "0 \<le> cursor_x (term_putc 62 7 t)"
      using t term_putc_cursor_x [of 62 t 7] by (simp add: on_screen_def)
    then show ?thesis
      using term_putc_cursor_x [of 32 "term_putc 62 7 t" 7] by (simp add: term_puts_def)
  qed
  with d t show ?thesis
    by (auto simp: draws_def print_prompt_def Let_def on_screen_def editor_part_def same_outside_def)
qed

section \<open>The history as a bounded ring\<close>

definition hist_wf :: "terminal \<Rightarrow> bool" where
  "hist_wf t \<longleftrightarrow> g_hist_next t < HIST_SIZE \<and> g_hist_count t \<le> HIST_SIZE"

definition hist_arrays :: "terminal \<Rightarrow> bytes list" where
  "hist_arrays t = ring_contents HIST_SIZE (g_history t) (g_hist_next t) (g_hist_count t)"

interpretation hist: bounded_ring HIST_SIZE hist_push hist_arrays hist_wf
proof unfold_locales
  fix t x
  assume t: "hist_wf t"
  then show "hist_arrays (hist_push x t) = take_last HIST_SIZE (hist_arrays t @ [x])"
    using ring_contents_push [of "g_hist_next t" HIST_SIZE "g_hist_count t" "g_history t" x]
    by (simp add: hist_arrays_def hist_push_def hist_wf_def)
  show "hist_wf (hist_push x t)" using t by (auto simp: hist_wf_def hist_push_def HIST_SIZE_def)
  show "length (hist_arrays t) \<le> HIST_SIZE" using t by (simp add: hist_arrays_def hist_wf_def)
qed

lemma length_hist_arrays [simp]: "length (hist_arrays t) = g_hist_count t"
  by (simp add: hist_arrays_def)

lemma hist_get_nth:
  assumes "hist_wf t" and "1 \<le> k" and "k \<le> g_hist_count t"
  shows "hist_get k t = Some (hist_arrays t ! (g_hist_count t - k))"
proof -
  have le: "g_hist_count t \<le> 50" using assms(1) by (simp add: hist_wf_def HIST_SIZE_def)
  have "(g_hist_next t + 50 - g_hist_count t + (g_hist_count t - k)) = g_hist_next t + 50 - k"
    using assms le by simp
  moreover have "(g_hist_next t + 100 - k) mod 50 = (g_hist_next t + 50 - k) mod 50"
  proof -
    have "g_hist_next t + 100 - k = (g_hist_next t + 50 - k) + 50" using assms le by simp
    then show ?thesis by (metis mod_add_self2)
  qed
  ultimately show ?thesis
    using assms by (simp add: hist_get_def hist_arrays_def HIST_SIZE_def)
qed

section \<open>The editor it implements\<close>

text \<open>
  The abstract editor: the text before and after the cursor, the remembered lines, oldest
  first, how far back the user has gone, and the line that was being typed when browsing
  began.
\<close>

record editor =
  before :: bytes
  after :: bytes
  recent :: "bytes list"
  steps :: nat
  draft :: bytes

definition ed_line :: "editor \<Rightarrow> bytes" where
  "ed_line e = before e @ after e"

definition ed_key :: "nat \<Rightarrow> editor \<Rightarrow> editor" where
  "ed_key key e =
     (if key = KEY_BACKSPACE \<or> key = 8 then e\<lparr>before := butlast (before e)\<rparr>
      else if key = KEY_DELETE then e\<lparr>after := tl (after e)\<rparr>
      else if key = KEY_LEFT then
        (if before e = [] then e else e\<lparr>before := butlast (before e), after := last (before e) # after e\<rparr>)
      else if key = KEY_RIGHT then
        (if after e = [] then e else e\<lparr>before := before e @ [hd (after e)], after := tl (after e)\<rparr>)
      else if key = KEY_HOME then e\<lparr>before := [], after := ed_line e\<rparr>
      else if key = KEY_END then e\<lparr>before := ed_line e, after := []\<rparr>
      else if key = KEY_UP then
        (let e1 = (if steps e = 0 then e\<lparr>draft := ed_line e\<rparr> else e)
         in if steps e < length (recent e)
            then e1\<lparr>before := recent e ! (length (recent e) - steps e - 1), after := [], steps := steps e + 1\<rparr>
            else e1)
      else if key = KEY_DOWN then
        (if steps e > 1
         then e\<lparr>before := recent e ! (length (recent e) - (steps e - 1)), after := [], steps := steps e - 1\<rparr>
         else if steps e = 1 then e\<lparr>before := draft e, after := [], steps := 0\<rparr> else e)
      else if 32 \<le> key \<and> key \<le> 126 \<and> length (ed_line e) < 255
        then e\<lparr>before := before e @ [byte_of_nat key]\<rparr>
      else e)"

definition ed_enter :: "editor \<Rightarrow> editor" where
  "ed_enter e =
     e\<lparr>before := [], after := [], steps := 0,
       recent := (if ed_line e = [] then recent e else take_last 50 (recent e @ [ed_line e]))\<rparr>"

definition ed_step :: "nat \<Rightarrow> editor \<Rightarrow> editor" where
  "ed_step key e =
     (if key = 0 then e else if key = KEY_ENTER \<or> key = 10 then ed_enter e else ed_key key e)"

definition line_of :: "terminal \<Rightarrow> bytes" where
  "line_of t = take (cmdlen t) (cmdbuf t)"

definition ed_abs :: "terminal \<Rightarrow> editor" where
  "ed_abs t = \<lparr>before = take (cursor_pos t) (line_of t), after = drop (cursor_pos t) (line_of t),
     recent = map cstr_of (hist_arrays t), steps = g_nav_pos t, draft = cstr_of (g_pending t)\<rparr>"

definition editor_wf :: "terminal \<Rightarrow> bool" where
  "editor_wf t \<longleftrightarrow> hist_wf t \<and> length (cmdbuf t) = 256 \<and> cmdlen t \<le> 255 \<and> cursor_pos t \<le> cmdlen t \<and>
     cmdbuf t ! cmdlen t = 0 \<and> 0 \<notin> set (line_of t) \<and> g_nav_pos t \<le> g_hist_count t \<and>
     length (cstr_of (g_pending t)) \<le> 255 \<and>
     (\<forall>a \<in> set (hist_arrays t). cstr_of a \<noteq> [] \<and> length (cstr_of a) \<le> 255)"

section \<open>The buffer loops\<close>

lemma length_shift_left [simp]: "length (shift_left buf i n) = length buf"
  by (induction buf i n rule: shift_left.induct) (subst shift_left.simps, simp)

lemma length_shift_right [simp]: "length (shift_right buf i p) = length buf"
  by (induction buf i p rule: shift_right.induct) (subst shift_right.simps, simp)

lemma nth_shift_left:
  "n < length buf \<Longrightarrow> j < length buf \<Longrightarrow>
    shift_left buf i n ! j = (if i \<le> j \<and> j < n then buf ! (j + 1) else buf ! j)"
proof (induction buf i n rule: shift_left.induct)
  case (1 buf i n)
  show ?case
  proof (cases "i < n")
    case True
    then have "shift_left buf i n ! j =
        (if i + 1 \<le> j \<and> j < n then (buf[i := buf ! (i + 1)]) ! (j + 1) else (buf[i := buf ! (i + 1)]) ! j)"
      using 1 by (subst shift_left.simps) simp
    then show ?thesis using True 1(2,3) by (auto simp: nth_list_update)
  qed (subst shift_left.simps, auto)
qed

lemma nth_shift_right:
  "i < length buf \<Longrightarrow> j < length buf \<Longrightarrow>
    shift_right buf i p ! j = (if p < j \<and> j \<le> i then buf ! (j - 1) else buf ! j)"
proof (induction buf i p rule: shift_right.induct)
  case (1 buf i p)
  show ?case
  proof (cases "i > p")
    case True
    then have "shift_right buf i p ! j =
        (if p < j \<and> j \<le> i - 1 then (buf[i := buf ! (i - 1)]) ! (j - 1) else (buf[i := buf ! (i - 1)]) ! j)"
      using 1 by (subst shift_right.simps) simp
    then show ?thesis using True 1(2,3) by (auto simp: nth_list_update)
  qed (subst shift_right.simps, auto)
qed

lemma take_shift_left:
  assumes "p < n" and "n < length buf"
  shows "take (n - 1) (shift_left buf p (n - 1)) = take p buf @ drop (p + 1) (take n buf)"
  by (rule nth_equalityI) (use assms in \<open>auto simp: nth_shift_left nth_append\<close>)

lemma take_shift_right:
  assumes "p \<le> n" and "n + 1 < length buf"
  shows "take (n + 1) ((shift_right buf n p)[p := c]) = take p buf @ c # drop p (take n buf)"
  by (rule nth_equalityI)
    (use assms in \<open>auto simp: nth_shift_right nth_append nth_Cons' nth_list_update\<close>)

lemma cstr_of_take:
  assumes "n < length buf" and "buf ! n = 0" and "0 \<notin> set (take n buf)"
  shows "cstr_of buf = take n buf"
proof -
  have "buf = take n buf @ 0 # drop (Suc n) buf" using assms by (metis id_take_nth_drop)
  moreover have "takeWhile (\<lambda>b. b \<noteq> 0) (take n buf @ 0 # drop (Suc n) buf) = take n buf"
    using assms(3) by (intro takeWhile_append_stop) auto
  ultimately show ?thesis by (simp add: cstr_of_def)
qed

lemma cstr_of_no_nul [simp]: "0 \<notin> set (cstr_of a)"
  using set_takeWhileD [of 0 "\<lambda>b. b \<noteq> 0" a] by (auto simp: cstr_of_def)

lemma strncpy_l_array:
  assumes "0 \<notin> set s" and "length s \<le> n"
  shows "length (strncpy_l s n @ [0]) = n + 1" and "take (length s) (strncpy_l s n @ [0]) = s"
    and "(strncpy_l s n @ [0]) ! length s = 0" and "cstr_of (strncpy_l s n @ [0]) = s"
proof -
  show "length (strncpy_l s n @ [0]) = n + 1" "take (length s) (strncpy_l s n @ [0]) = s"
    using assms(2) by (simp_all add: strncpy_l_def)
  show "(strncpy_l s n @ [0]) ! length s = 0"
    using assms(2) by (cases "length s = n") (simp_all add: strncpy_l_def nth_append)
  have "strncpy_l s n @ [0] = s @ replicate (n - length s + 1) 0"
    using assms(2) by (simp add: strncpy_l_def replicate_append_same)
  moreover have "takeWhile (\<lambda>b. b \<noteq> 0) (s @ replicate (n - length s + 1) 0) = s"
    using assms(1) by (intro takeWhile_replicate_stop) auto
  ultimately show "cstr_of (strncpy_l s n @ [0]) = s" by (simp add: cstr_of_def)
qed

section \<open>Each key refines the editor\<close>

text \<open>
  Every branch of the loop sets the buffer, the length, the cursor and the browsing state and
  redraws; the lemma reduces a branch to those fields.
\<close>

definition ed_ok :: "terminal \<Rightarrow> terminal \<Rightarrow> editor \<Rightarrow> bool" where
  "ed_ok t t' e \<longleftrightarrow> on_screen t' \<and> editor_wf t' \<and> same_outside t t' \<and> ed_abs t' = e"

lemma editor_part_cong:
  "editor_part t' = editor_part t \<Longrightarrow> editor_wf t' = editor_wf t \<and> ed_abs t' = ed_abs t"
  by (simp add: editor_part_def editor_wf_def ed_abs_def line_of_def hist_wf_def hist_arrays_def)

lemma ed_ok_redraw:
  assumes "on_screen t" and "on_screen t1" and "same_outside t t1" and "editor_wf t1"
  shows "ed_ok t (redraw_input t1) (ed_abs t1)"
  using assms draws_redraw_input [of t1] editor_part_cong [of "redraw_input t1" t1]
  by (auto simp: ed_ok_def draws_def intro: same_outside_trans)

lemma line_of_length [simp]: "editor_wf t \<Longrightarrow> length (line_of t) = cmdlen t"
  by (simp add: line_of_def editor_wf_def)

lemma cstr_of_cmdbuf: "editor_wf t \<Longrightarrow> cstr_of (cmdbuf t) = line_of t"
  unfolding line_of_def by (rule cstr_of_take) (auto simp: editor_wf_def line_of_def)

lemma on_screen_update [simp]:
  "on_screen (t\<lparr>cmdbuf := b, cmdlen := n, cursor_pos := p\<rparr>) = on_screen t"
  "on_screen (t\<lparr>cursor_pos := p\<rparr>) = on_screen t"
  "on_screen (t\<lparr>cmdbuf := b, cmdlen := n\<rparr>) = on_screen t"
  "on_screen (t\<lparr>g_nav_pos := k\<rparr>) = on_screen t"
  "on_screen (t\<lparr>g_pending := pd\<rparr>) = on_screen t"
  by (simp_all add: on_screen_def)

lemma same_outside_update [simp]:
  "same_outside t (u\<lparr>cmdbuf := b, cmdlen := n, cursor_pos := p\<rparr>) = same_outside t u"
  "same_outside t (u\<lparr>cursor_pos := p\<rparr>) = same_outside t u"
  "same_outside t (u\<lparr>cmdbuf := b, cmdlen := n\<rparr>) = same_outside t u"
  "same_outside t (u\<lparr>g_nav_pos := k\<rparr>) = same_outside t u"
  "same_outside t (u\<lparr>g_pending := pd\<rparr>) = same_outside t u"
  by (simp_all add: same_outside_def)

text \<open>A state whose buffer holds the line \<open>xs @ ys\<close> with the cursor between its two parts.\<close>

lemma ed_buffer:
  assumes "editor_wf t" and "length b = 256" and "take (length xs + length ys) b = xs @ ys"
    and "b ! (length xs + length ys) = 0" and "0 \<notin> set xs \<union> set ys" and "length xs + length ys \<le> 255"
  shows "editor_wf (t\<lparr>cmdbuf := b, cmdlen := length xs + length ys, cursor_pos := length xs\<rparr>)"
    and "ed_abs (t\<lparr>cmdbuf := b, cmdlen := length xs + length ys, cursor_pos := length xs\<rparr>) =
      (ed_abs t)\<lparr>before := xs, after := ys\<rparr>"
  using assms by (auto simp: editor_wf_def ed_abs_def line_of_def hist_wf_def hist_arrays_def)

lemma ed_load_line:
  assumes "on_screen t" and "on_screen u" and "same_outside t u" and "editor_wf u"
    and "length (cstr_of a) \<le> 255"
  shows "ed_ok t (load_line a u) ((ed_abs u)\<lparr>before := cstr_of a, after := []\<rparr>)"
proof -
  let ?s = "cstr_of a" and ?b = "strncpy_l (cstr_of a) (HIST_LEN - 1) @ [0]"
  note arr = strncpy_l_array [of ?s "HIST_LEN - 1", simplified HIST_LEN_def]
  have b: "length ?b = 256" "take (length ?s) ?b = ?s" "?b ! length ?s = 0" "cstr_of ?b = ?s"
    using arr assms(5) by (simp_all add: HIST_LEN_def)
  have "editor_wf (u\<lparr>cmdbuf := ?b, cmdlen := length ?s + length ([] :: bytes), cursor_pos := length ?s\<rparr>)"
    "ed_abs (u\<lparr>cmdbuf := ?b, cmdlen := length ?s + length ([] :: bytes), cursor_pos := length ?s\<rparr>) =
      (ed_abs u)\<lparr>before := ?s, after := []\<rparr>"
    using ed_buffer [OF assms(4) b(1), of ?s "[]"] b assms(5) by simp_all
  then show ?thesis
    using ed_ok_redraw [OF assms(1), of "u\<lparr>cmdbuf := ?b, cmdlen := length ?s, cursor_pos := length ?s\<rparr>"]
      assms(2,3) b(4) by (simp add: load_line_def Let_def)
qed

lemma ed_ok_cursor:
  assumes "on_screen t" and "editor_wf t" and "p \<le> cmdlen t"
  shows "ed_ok t (redraw_input (t\<lparr>cursor_pos := p\<rparr>))
    ((ed_abs t)\<lparr>before := take p (line_of t), after := drop p (line_of t)\<rparr>)"
proof -
  have "editor_wf (t\<lparr>cursor_pos := p\<rparr>)" using assms
    by (simp add: editor_wf_def line_of_def hist_wf_def hist_arrays_def)
  moreover have "ed_abs (t\<lparr>cursor_pos := p\<rparr>) =
      (ed_abs t)\<lparr>before := take p (line_of t), after := drop p (line_of t)\<rparr>"
    by (simp add: ed_abs_def line_of_def hist_arrays_def)
  ultimately show ?thesis using ed_ok_redraw [OF assms(1), of "t\<lparr>cursor_pos := p\<rparr>"] assms(1) by simp
qed

lemma ed_ok_buffer:
  assumes "on_screen t" and "editor_wf t" and "length b = 256" and "take (length xs + length ys) b = xs @ ys"
    and "b ! (length xs + length ys) = 0" and "0 \<notin> set xs \<union> set ys" and "length xs + length ys \<le> 255"
  shows "ed_ok t (redraw_input (t\<lparr>cmdbuf := b, cmdlen := length xs + length ys, cursor_pos := length xs\<rparr>))
    ((ed_abs t)\<lparr>before := xs, after := ys\<rparr>)"
  using ed_ok_redraw [OF assms(1), of "t\<lparr>cmdbuf := b, cmdlen := length xs + length ys, cursor_pos := length xs\<rparr>"]
    ed_buffer [OF assms(2-)] assms(1) by simp

lemma ed_ok_same: "on_screen t \<Longrightarrow> editor_wf t \<Longrightarrow> ed_ok t t (ed_abs t)"
  by (simp add: ed_ok_def)

lemma ed_ok_backspace:
  assumes t: "on_screen t" "editor_wf t"
  shows "ed_ok t (key_backspace t) ((ed_abs t)\<lparr>before := butlast (before (ed_abs t))\<rparr>)"
proof (cases "cursor_pos t = 0")
  case True
  then show ?thesis using ed_ok_same [OF t] by (simp add: key_backspace_def ed_abs_def)
next
  case False
  let ?p = "cursor_pos t" and ?n = "cmdlen t"
  let ?xs = "take (?p - 1) (line_of t)" and ?ys = "drop ?p (line_of t)"
  let ?b = "(shift_left (cmdbuf t) (?p - 1) (?n - 1))[?n - 1 := 0]"
  have w: "?p \<le> ?n" "?n \<le> 255" "length (cmdbuf t) = 256" "0 \<notin> set (line_of t)" using t(2) by (auto simp: editor_wf_def)
  have len: "length ?xs = ?p - 1" "length ?ys = ?n - ?p" "length ?xs + length ?ys = ?n - 1"
    using False w t(2) by auto
  have "take (?n - 1) ?b = ?xs @ ?ys"
    using take_shift_left [of "?p - 1" ?n "cmdbuf t"] False w by (simp add: line_of_def)
  moreover have "0 \<notin> set ?xs \<union> set ?ys" using w(4) by (meson Un_iff in_set_dropD in_set_takeD)
  ultimately have "ed_ok t (redraw_input (t\<lparr>cmdbuf := ?b, cmdlen := length ?xs + length ?ys, cursor_pos := length ?xs\<rparr>))
    ((ed_abs t)\<lparr>before := ?xs, after := ?ys\<rparr>)"
    using len w False by (intro ed_ok_buffer [OF t]) auto
  moreover have "(ed_abs t)\<lparr>before := butlast (before (ed_abs t))\<rparr> = (ed_abs t)\<lparr>before := ?xs, after := ?ys\<rparr>"
    using w t(2) by (simp add: ed_abs_def butlast_take)
  moreover have "key_backspace t = redraw_input (t\<lparr>cmdbuf := ?b, cmdlen := ?n - 1, cursor_pos := ?p - 1\<rparr>)"
    using False by (simp add: key_backspace_def Let_def)
  ultimately show ?thesis using len by (simp only:)
qed

lemma ed_ok_delete:
  assumes t: "on_screen t" "editor_wf t"
  shows "ed_ok t (key_delete t) ((ed_abs t)\<lparr>after := tl (after (ed_abs t))\<rparr>)"
proof (cases "cursor_pos t < cmdlen t")
  case False
  then show ?thesis using ed_ok_same [OF t] t(2) by (simp add: key_delete_def ed_abs_def)
next
  case True
  let ?p = "cursor_pos t" and ?n = "cmdlen t"
  let ?xs = "take ?p (line_of t)" and ?ys = "drop (?p + 1) (line_of t)"
  let ?b = "(shift_left (cmdbuf t) ?p (?n - 1))[?n - 1 := 0]"
  have w: "?p \<le> ?n" "?n \<le> 255" "length (cmdbuf t) = 256" "0 \<notin> set (line_of t)" using t(2) by (auto simp: editor_wf_def)
  have len: "length ?xs = ?p" "length ?xs + length ?ys = ?n - 1"
    using True w t(2) by auto
  have "take (?n - 1) ?b = ?xs @ ?ys"
    using take_shift_left [of ?p ?n "cmdbuf t"] True w by (simp add: line_of_def)
  moreover have "0 \<notin> set ?xs \<union> set ?ys" using w(4) by (meson Un_iff in_set_dropD in_set_takeD)
  ultimately have "ed_ok t (redraw_input (t\<lparr>cmdbuf := ?b, cmdlen := length ?xs + length ?ys, cursor_pos := length ?xs\<rparr>))
    ((ed_abs t)\<lparr>before := ?xs, after := ?ys\<rparr>)"
    using len w True by (intro ed_ok_buffer [OF t]) auto
  moreover have "(ed_abs t)\<lparr>after := tl (after (ed_abs t))\<rparr> = (ed_abs t)\<lparr>before := ?xs, after := ?ys\<rparr>"
    by (simp add: ed_abs_def tl_drop drop_Suc)
  moreover have "key_delete t = redraw_input (t\<lparr>cmdbuf := ?b, cmdlen := ?n - 1, cursor_pos := ?p\<rparr>)"
    using True by (cases t) (simp add: key_delete_def Let_def)
  ultimately show ?thesis using len by (simp only:)
qed

lemma byte_of_key: "32 \<le> key \<Longrightarrow> key \<le> 126 \<Longrightarrow> byte_of_nat key \<noteq> 0"
  using unat_byte_of_nat [of key] by auto

lemma ed_ok_insert:
  assumes t: "on_screen t" "editor_wf t" and c: "c \<noteq> 0" and room: "cmdlen t < 255"
  shows "ed_ok t (key_insert c t) ((ed_abs t)\<lparr>before := before (ed_abs t) @ [c]\<rparr>)"
proof -
  let ?p = "cursor_pos t" and ?n = "cmdlen t"
  let ?xs = "take ?p (line_of t) @ [c]" and ?ys = "drop ?p (line_of t)"
  let ?b = "((shift_right (cmdbuf t) ?n ?p)[?p := c])[?n + 1 := 0]"
  have w: "?p \<le> ?n" "?n \<le> 255" "length (cmdbuf t) = 256" "0 \<notin> set (line_of t)" using t(2) by (auto simp: editor_wf_def)
  have len: "length ?xs = ?p + 1" "length ?xs + length ?ys = ?n + 1"
    using room w t(2) by auto
  have "take (?n + 1) ?b = ?xs @ ?ys"
    using take_shift_right [of ?p ?n "cmdbuf t" c] room w by (simp add: line_of_def)
  moreover have "0 \<notin> set ?xs \<union> set ?ys" using w(4) c by (auto dest: in_set_takeD in_set_dropD)
  ultimately have "ed_ok t (redraw_input (t\<lparr>cmdbuf := ?b, cmdlen := length ?xs + length ?ys, cursor_pos := length ?xs\<rparr>))
    ((ed_abs t)\<lparr>before := ?xs, after := ?ys\<rparr>)"
    using len w room by (intro ed_ok_buffer [OF t]) auto
  moreover have "(ed_abs t)\<lparr>before := before (ed_abs t) @ [c]\<rparr> = (ed_abs t)\<lparr>before := ?xs, after := ?ys\<rparr>"
    by (simp add: ed_abs_def)
  moreover have "key_insert c t = redraw_input (t\<lparr>cmdbuf := ?b, cmdlen := ?n + 1, cursor_pos := ?p + 1\<rparr>)"
    by (simp add: key_insert_def Let_def)
  ultimately show ?thesis using len by (simp only:)
qed

lemma ed_ok_eq: "ed_ok t t' e \<Longrightarrow> u' = t' \<Longrightarrow> e' = e \<Longrightarrow> ed_ok t u' e'"
  by simp

lemma ed_ok_from: "ed_ok u t' e \<Longrightarrow> same_outside t u \<Longrightarrow> ed_ok t t' e"
  unfolding ed_ok_def using same_outside_trans by blast

lemma ed_load_history:
  assumes t: "on_screen t" "editor_wf t" and k: "1 \<le> k" "k \<le> g_hist_count t"
  shows "ed_ok t (load_history_entry k t)
    ((ed_abs t)\<lparr>before := recent (ed_abs t) ! (length (recent (ed_abs t)) - k), after := []\<rparr>)"
proof -
  let ?a = "hist_arrays t ! (g_hist_count t - k)"
  have wf: "hist_wf t" using t(2) by (simp add: editor_wf_def)
  have "?a \<in> set (hist_arrays t)" using k by (intro nth_mem) simp
  then have "length (cstr_of ?a) \<le> 255" using t(2) by (simp add: editor_wf_def)
  then have "ed_ok t (load_line ?a t) ((ed_abs t)\<lparr>before := cstr_of ?a, after := []\<rparr>)"
    using ed_load_line [OF t(1) t(1) same_outside_refl t(2)] by blast
  moreover have "cstr_of ?a = recent (ed_abs t) ! (length (recent (ed_abs t)) - k)"
    using k by (simp add: ed_abs_def)
  ultimately show ?thesis using hist_get_nth [OF wf k] by (simp add: load_history_entry_def)
qed

lemma editor_wf_nav:
  "editor_wf t \<Longrightarrow> k \<le> g_hist_count t \<Longrightarrow> editor_wf (t\<lparr>g_nav_pos := k\<rparr>)"
  "ed_abs (t\<lparr>g_nav_pos := k\<rparr>) = (ed_abs t)\<lparr>steps := k\<rparr>"
  by (simp_all add: editor_wf_def ed_abs_def line_of_def hist_wf_def hist_arrays_def)

lemma editor_wf_pending:
  assumes "editor_wf t"
  defines "u \<equiv> t\<lparr>g_pending := strncpy_l (cstr_of (cmdbuf t)) (HIST_LEN - 1) @ [0]\<rparr>"
  shows "editor_wf u" and "ed_abs u = (ed_abs t)\<lparr>draft := line_of t\<rparr>"
proof -
  have l: "cstr_of (cmdbuf t) = line_of t" "length (line_of t) \<le> 255" "0 \<notin> set (line_of t)"
    using assms cstr_of_cmdbuf [OF assms(1)] by (auto simp: editor_wf_def line_of_length [OF assms(1)])
  then have "cstr_of (strncpy_l (line_of t) (HIST_LEN - 1) @ [0]) = line_of t"
    using strncpy_l_array(4) [of "line_of t" "HIST_LEN - 1"] by (simp add: HIST_LEN_def)
  then show "editor_wf u" "ed_abs u = (ed_abs t)\<lparr>draft := line_of t\<rparr>"
    using assms(1) l by (simp_all add: u_def editor_wf_def ed_abs_def line_of_def hist_wf_def hist_arrays_def)
qed

lemma ed_line_abs [simp]: "ed_line (ed_abs t) = line_of t"
  by (simp add: ed_line_def ed_abs_def)

lemma ed_abs_sel [simp]:
  "steps (ed_abs t) = g_nav_pos t" "length (recent (ed_abs t)) = g_hist_count t"
  "draft (ed_abs t) = cstr_of (g_pending t)"
  by (simp_all add: ed_abs_def)

lemma ed_ok_up:
  assumes t: "on_screen t" "editor_wf t"
  shows "ed_ok t (key_up t) (ed_key KEY_UP (ed_abs t))"
proof -
  define u where "u = (if g_nav_pos t = 0
    then t\<lparr>g_pending := strncpy_l (cstr_of (cmdbuf t)) (HIST_LEN - 1) @ [0]\<rparr> else t)"
  have u: "on_screen u" "same_outside t u" "editor_wf u" "g_nav_pos u = g_nav_pos t"
    "g_hist_count u = g_hist_count t" "recent (ed_abs u) = recent (ed_abs t)"
    using t editor_wf_pending [OF t(2)] by (auto simp: u_def)
  have ua: "ed_abs u = (if g_nav_pos t = 0 then (ed_abs t)\<lparr>draft := line_of t\<rparr> else ed_abs t)"
    using editor_wf_pending(2) [OF t(2)] by (simp add: u_def)
  have key: "key_up t = (if g_nav_pos t < g_hist_count t
      then load_history_entry (g_nav_pos t + 1) (u\<lparr>g_nav_pos := g_nav_pos t + 1\<rparr>) else u)"
    using u(4,5) by (simp add: key_up_def u_def Let_def)
  show ?thesis
  proof (cases "g_nav_pos t < g_hist_count t")
    case True
    let ?v = "u\<lparr>g_nav_pos := g_nav_pos t + 1\<rparr>"
    have v: "on_screen ?v" "same_outside t ?v" "editor_wf ?v" "ed_abs ?v = (ed_abs u)\<lparr>steps := g_nav_pos t + 1\<rparr>"
      using u True editor_wf_nav by auto
    have "ed_ok t (load_history_entry (g_nav_pos t + 1) ?v)
      ((ed_abs ?v)\<lparr>before := recent (ed_abs ?v) ! (length (recent (ed_abs ?v)) - (g_nav_pos t + 1)), after := []\<rparr>)"
      using u(5) True by (intro ed_ok_from [OF ed_load_history [OF v(1,3)] v(2)]) simp_all
    then show ?thesis
      by (rule ed_ok_eq) (use True v(4) u(5,6) ua in \<open>simp_all add: key ed_key_def const_defs Let_def\<close>)
  next
    case False
    have "ed_ok t u (ed_abs u)" using ed_ok_same [OF u(1,3)] u(2) by (rule ed_ok_from)
    then show ?thesis
      by (rule ed_ok_eq) (use False ua in \<open>simp_all add: key ed_key_def const_defs Let_def\<close>)
  qed
qed

lemma ed_ok_down:
  assumes t: "on_screen t" "editor_wf t"
  shows "ed_ok t (key_down t) (ed_key KEY_DOWN (ed_abs t))"
proof -
  have nav: "g_nav_pos t \<le> g_hist_count t" using t(2) by (simp add: editor_wf_def)
  consider "g_nav_pos t > 1" | "g_nav_pos t = 1" | "g_nav_pos t = 0" by linarith
  then show ?thesis
  proof cases
    case 1
    let ?k = "g_nav_pos t - 1" and ?v = "t\<lparr>g_nav_pos := g_nav_pos t - 1\<rparr>"
    have v: "on_screen ?v" "same_outside t ?v" "editor_wf ?v" "ed_abs ?v = (ed_abs t)\<lparr>steps := ?k\<rparr>"
      using t nav editor_wf_nav by auto
    have "ed_ok t (load_history_entry ?k ?v)
      ((ed_abs ?v)\<lparr>before := recent (ed_abs ?v) ! (length (recent (ed_abs ?v)) - ?k), after := []\<rparr>)"
      using nav 1 by (intro ed_ok_from [OF ed_load_history [OF v(1,3)] v(2)]) simp_all
    then show ?thesis
      by (rule ed_ok_eq) (use 1 v(4) in \<open>simp_all add: key_down_def ed_key_def const_defs\<close>)
  next
    case 2
    let ?v = "t\<lparr>g_nav_pos := 0\<rparr>"
    have v: "on_screen ?v" "same_outside t ?v" "editor_wf ?v" "ed_abs ?v = (ed_abs t)\<lparr>steps := 0\<rparr>"
      using t editor_wf_nav by auto
    have "length (cstr_of (g_pending t)) \<le> 255" using t(2) by (simp add: editor_wf_def)
    then have "ed_ok t (load_line (g_pending t) ?v)
      ((ed_abs ?v)\<lparr>before := cstr_of (g_pending t), after := []\<rparr>)"
      by (rule ed_load_line [OF t(1) v(1-3)])
    then show ?thesis
      by (rule ed_ok_eq) (use 2 v(4) in \<open>simp_all add: key_down_def ed_key_def const_defs\<close>)
  next
    case 3
    then show ?thesis using ed_ok_same [OF t] by (simp add: key_down_def ed_key_def const_defs)
  qed
qed

lemma edit_key_cases:
  obtains (bsp) "key = KEY_BACKSPACE \<or> key = 8" | (del) "key = KEY_DELETE" | (left) "key = KEY_LEFT"
  | (right) "key = KEY_RIGHT" | (home) "key = KEY_HOME" | (end_key) "key = KEY_END" | (up) "key = KEY_UP"
  | (down) "key = KEY_DOWN" | (chr) "32 \<le> key" "key \<le> 126"
  | (other) "key \<notin> {KEY_BACKSPACE, 8, KEY_DELETE, KEY_LEFT, KEY_RIGHT, KEY_HOME, KEY_END, KEY_UP, KEY_DOWN}"
      "\<not> (32 \<le> key \<and> key \<le> 126)"
  by blast

lemma edit_key_refines:
  assumes t: "on_screen t" "editor_wf t"
  shows "ed_ok t (edit_key key t) (ed_key key (ed_abs t))"
proof -
  have w: "cursor_pos t \<le> cmdlen t" "length (line_of t) = cmdlen t" "cmdlen t \<le> 255"
    using t(2) by (simp_all add: editor_wf_def)
  note same = ed_ok_same [OF t]
  show ?thesis
  proof (cases key rule: edit_key_cases)
    case bsp
    then show ?thesis using ed_ok_backspace [OF t] by (auto simp: edit_key_def ed_key_def)
  next
    case del
    then show ?thesis using ed_ok_delete [OF t] by (simp add: edit_key_def ed_key_def const_defs)
  next
    case left
    have "ed_ok t (redraw_input (t\<lparr>cursor_pos := cursor_pos t - 1\<rparr>))
      ((ed_abs t)\<lparr>before := take (cursor_pos t - 1) (line_of t), after := drop (cursor_pos t - 1) (line_of t)\<rparr>)"
      using w by (intro ed_ok_cursor [OF t]) simp
    moreover have "butlast (take (cursor_pos t) (line_of t)) = take (cursor_pos t - 1) (line_of t)"
      using w by (simp add: butlast_take)
    moreover have "last (take (cursor_pos t) (line_of t)) # drop (cursor_pos t) (line_of t) =
        drop (cursor_pos t - 1) (line_of t)" if pos: "cursor_pos t > 0"
    proof -
      obtain q where q: "cursor_pos t = Suc q" using pos gr0_conv_Suc by blast
      then have "q < length (line_of t)" using w by simp
      then show ?thesis using q by (simp add: take_Suc_conv_app_nth Cons_nth_drop_Suc)
    qed
    ultimately have "ed_ok t (redraw_input (t\<lparr>cursor_pos := cursor_pos t - 1\<rparr>)) (ed_key key (ed_abs t))"
      if "cursor_pos t > 0"
      by (rule_tac ed_ok_eq) (use left that w in \<open>auto simp: ed_key_def ed_abs_def const_defs\<close>)
    moreover have "ed_key key (ed_abs t) = ed_abs t" if "cursor_pos t = 0"
      using left that by (simp add: ed_key_def ed_abs_def const_defs)
    ultimately show ?thesis using left same by (simp add: edit_key_def const_defs)
  next
    case right
    have "ed_ok t (redraw_input (t\<lparr>cursor_pos := cursor_pos t + 1\<rparr>))
      ((ed_abs t)\<lparr>before := take (cursor_pos t + 1) (line_of t), after := drop (cursor_pos t + 1) (line_of t)\<rparr>)"
      if "cursor_pos t < cmdlen t" using that by (intro ed_ok_cursor [OF t]) simp
    then have "ed_ok t (redraw_input (t\<lparr>cursor_pos := cursor_pos t + 1\<rparr>)) (ed_key key (ed_abs t))"
      if "cursor_pos t < cmdlen t"
      by (rule_tac ed_ok_eq) (use right that w in \<open>auto simp: ed_key_def ed_abs_def const_defs
        take_Suc_conv_app_nth hd_drop_conv_nth tl_drop drop_Suc\<close>)
    moreover have "ed_key key (ed_abs t) = ed_abs t" if "\<not> cursor_pos t < cmdlen t"
      using right that w by (simp add: ed_key_def ed_abs_def const_defs)
    ultimately show ?thesis using right same by (simp add: edit_key_def const_defs)
  next
    case home
    then show ?thesis using ed_ok_cursor [OF t, of 0] by (simp add: edit_key_def ed_key_def const_defs)
  next
    case end_key
    then show ?thesis using ed_ok_cursor [OF t, of "cmdlen t"] w by (simp add: edit_key_def ed_key_def const_defs)
  next
    case up
    then show ?thesis using ed_ok_up [OF t] by (simp add: edit_key_def const_defs)
  next
    case down
    then show ?thesis using ed_ok_down [OF t] by (simp add: edit_key_def const_defs)
  next
    case chr
    then show ?thesis using ed_ok_insert [OF t byte_of_key [OF chr]] same w
      by (simp add: edit_key_def ed_key_def const_defs)
  next
    case other
    then show ?thesis using same by (auto simp: edit_key_def ed_key_def)
  qed
qed

section \<open>The shell loop, for any command table\<close>

text \<open>
  The contract of a command table, on the states \<open>wok\<close> of the rest of the system, which it keeps: a
  command changes the terminal only through its output operations, so that the line editor finds
  its own state unchanged.
\<close>

locale command_table =
  fixes disp :: "'w dispatch" and wok :: "'w \<Rightarrow> bool"
  assumes table_draws: "disp c a (w, t) = Some (h, w', t') \<Longrightarrow> wok w \<Longrightarrow> draws t t'"
    and table_keeps: "disp c a (w, t) = Some (h, w', t') \<Longrightarrow> wok w \<Longrightarrow> wok w'"
begin

lemma run_command_draws:
  assumes "run_command disp l (w, t) = Some (w', t')" and "wok w"
  shows "draws t t'" "wok w'"
  using assms
  by (auto simp: run_command_def Let_def split: prod.splits option.splits if_splits
      intro!: draws_fold draws_term_reset_screen draws_term_print_history draws_puts draws_term_puts
      intro: table_draws table_keeps)

end

lemma hist_add_line:
  assumes t: "editor_wf t" and l: "l \<noteq> []" "0 \<notin> set l" "length l \<le> 255" and nav: "g_nav_pos t = 0"
  shows "editor_wf (hist_add (Some l) t)"
    and "recent (ed_abs (hist_add (Some l) t)) = take_last 50 (recent (ed_abs t) @ [l])"
proof -
  let ?a = "strncpy_l l (HIST_LEN - 1) @ [0]"
  have a: "cstr_of ?a = l" using strncpy_l_array(4) [of l "HIST_LEN - 1"] l by (simp add: HIST_LEN_def)
  have h: "hist_add (Some l) t = hist_push ?a t" using l(1) by (simp add: hist_add_def)
  have wf: "hist_wf t" using t by (simp add: editor_wf_def)
  have c: "hist_arrays (hist_push ?a t) = take_last 50 (hist_arrays t @ [?a])"
    using hist.contents_push [OF wf, of ?a] by (simp add: HIST_SIZE_def)
  then show "recent (ed_abs (hist_add (Some l) t)) = take_last 50 (recent (ed_abs t) @ [l])"
    using a by (simp add: h ed_abs_def map_take_last)
  have "cstr_of b \<noteq> [] \<and> length (cstr_of b) \<le> 255" if "b \<in> set (hist_arrays (hist_push ?a t))" for b
    using set_take_last [of b 50 "hist_arrays t @ [?a]"] that c a l t by (auto simp: editor_wf_def)
  then show "editor_wf (hist_add (Some l) t)"
    using t nav hist.wf_push [OF wf, of ?a] unfolding h editor_wf_def
    by (simp add: hist_push_def line_of_def)
qed

lemma hist_add_frame:
  "g_pending (hist_add l t) = g_pending t" "scr (hist_add l t) = scr t" "on_screen (hist_add l t) = on_screen t"
  "g_nav_pos (hist_add l t) = g_nav_pos t" "cmdlen (hist_add l t) = cmdlen t"
  by (auto simp: hist_add_def hist_push_def on_screen_def split: option.splits)

text \<open>The reset of the line after a command, and the prompt.\<close>

lemma finish_line:
  assumes "on_screen t" and "editor_wf t"
  defines "u \<equiv> print_prompt (t\<lparr>cmdlen := 0, cursor_pos := 0, cmdbuf := (cmdbuf t)[0 := 0]\<rparr>)"
  shows "ed_ok t u ((ed_abs t)\<lparr>before := [], after := []\<rparr>)"
proof -
  let ?v = "t\<lparr>cmdlen := 0, cursor_pos := 0, cmdbuf := (cmdbuf t)[0 := 0]\<rparr>"
  have v: "on_screen ?v" "same_outside t ?v" using assms(1) by (simp_all add: on_screen_def same_outside_def)
  have "cmdbuf t \<noteq> []" using assms(2) by (auto simp: editor_wf_def)
  then have "editor_wf ?v" "ed_abs ?v = (ed_abs t)\<lparr>before := [], after := []\<rparr>"
    using assms(2) by (simp_all add: editor_wf_def ed_abs_def line_of_def hist_wf_def hist_arrays_def)
  with draws_prompt [OF v(1)] v(2) editor_part_cong [of "print_prompt ?v" ?v] show ?thesis
    by (auto simp: ed_ok_def u_def intro: same_outside_trans)
qed

context command_table
begin

lemma key_enter_refines:
  assumes t: "on_screen t" "editor_wf t" and w: "wok w" and k: "key_enter disp (w, t) = Some (w', t')"
  shows "ed_ok t t' (ed_enter (ed_abs t))" "wok w'"
proof -
  define t1 where "t1 = t\<lparr>cmdbuf := (cmdbuf t)[cmdlen t := 0]\<rparr>"
  define t2 where "t2 = (term_putc 10 7 t1)\<lparr>g_nav_pos := 0\<rparr>"
  have t1: "t1 = t" using t(2) by (cases t) (simp add: t1_def editor_wf_def list_update_same_conv)
  have d: "draws t (term_putc 10 7 t)" ..
  then have t2: "on_screen t2" "same_outside t t2" "editor_wf t2" "ed_abs t2 = (ed_abs t)\<lparr>steps := 0\<rparr>"
    "g_nav_pos t2 = 0"
    using t editor_part_cong [of "term_putc 10 7 t" t] editor_wf_nav [where t = "term_putc 10 7 t" and k = 0]
    by (auto simp: t2_def t1 draws_def)
  have line: "cstr_of (cmdbuf t2) = line_of t" "cmdlen t2 = length (line_of t)"
    using cstr_of_cmdbuf [OF t2(3)] line_of_length [OF t2(3)] arg_cong [OF t2(4), of ed_line]
    by (simp_all add: ed_line_def ed_abs_def)
  define r where "r = (if cmdlen t2 > 0 then run_command disp (line_of t) (w, hist_add (Some (line_of t)) t2) else Some (w, t2))"
  have "key_enter disp (w, t) = (case r of None \<Rightarrow> None | Some (w3, t3) \<Rightarrow>
      Some (w3, print_prompt (t3\<lparr>cmdlen := 0, cursor_pos := 0, cmdbuf := (cmdbuf t3)[0 := 0]\<rparr>)))"
    unfolding key_enter_def Let_def prod.case t1_def [symmetric] t2_def [symmetric] line(1) r_def by simp
  then obtain t3 where t3: "r = Some (w', t3)"
    "t' = print_prompt (t3\<lparr>cmdlen := 0, cursor_pos := 0, cmdbuf := (cmdbuf t3)[0 := 0]\<rparr>)"
    using k by (auto split: option.splits)
  let ?h = "if line_of t = [] then t2 else hist_add (Some (line_of t)) t2"
  have l: "0 \<notin> set (line_of t)" "length (line_of t) \<le> 255" using t(2) by (auto simp: editor_wf_def)
  have h: "on_screen ?h" "same_outside t ?h" "editor_wf ?h"
    "ed_abs ?h = (ed_abs ?h)\<lparr>steps := 0\<rparr>" "draft (ed_abs ?h) = draft (ed_abs t)"
    "recent (ed_abs ?h) = recent (ed_enter (ed_abs t))"
    using t2 hist_add_line [OF t2(3) _ l t2(5)]
    by (auto simp: hist_add_frame same_outside_def ed_enter_def ed_line_def ed_abs_def)
  have "draws ?h t3" using t3(1) run_command_draws(1) [OF _ w] line(2) by (auto simp: r_def split: if_splits)
  then have e: "on_screen t3" "same_outside t t3" "editor_wf t3" "ed_abs t3 = ed_abs ?h"
    using h editor_part_cong [of t3 ?h] by (auto simp: draws_def intro: same_outside_trans)
  have "ed_ok t t' ((ed_abs t3)\<lparr>before := [], after := []\<rparr>)"
    unfolding t3(2) by (rule ed_ok_from [OF finish_line [OF e(1,3)] e(2)])
  then show "ed_ok t t' (ed_enter (ed_abs t))"
    by (rule ed_ok_eq) (use h e(4) in \<open>auto simp: ed_enter_def ed_abs_def\<close>)
  show "wok w'" using t3(1) run_command_draws(2) [OF _ w] w by (auto simp: r_def split: if_splits)
qed

lemma terminal_key_refines:
  assumes "on_screen t" and "editor_wf t" and "wok w" and "terminal_key disp key (w, t) = Some (w', t')"
  shows "ed_ok t t' (ed_step key (ed_abs t))" "wok w'"
  using assms edit_key_refines [OF assms(1,2), of key] key_enter_refines [OF assms(1,2,3)] ed_ok_same [OF assms(1,2)]
  by (auto simp: terminal_key_def ed_step_def split: if_splits)

lemma terminal_loop_refines:
  assumes "on_screen t" and "editor_wf t" and "wok w" and "terminal_loop disp keys (w, t) = Some (w', t')"
  shows "ed_ok t t' (fold ed_step keys (ed_abs t)) \<and> wok w'"
  using assms
proof (induction keys arbitrary: w t)
  case Nil
  then show ?case using ed_ok_same by simp
next
  case (Cons key keys)
  then obtain w1 t1 where 1: "terminal_key disp key (w, t) = Some (w1, t1)"
    "terminal_loop disp keys (w1, t1) = Some (w', t')" by (auto split: option.splits)
  have s: "ed_ok t t1 (ed_step key (ed_abs t))" "wok w1" using terminal_key_refines [OF Cons.prems(1-3) 1(1)] .
  then have "ed_ok t1 t' (fold ed_step keys (ed_abs t1)) \<and> wok w'" using Cons.IH [OF _ _ _ 1(2)] by (simp add: ed_ok_def)
  then show ?case using s by (auto simp: ed_ok_def intro: same_outside_trans)
qed

end

lemma terminal_loop_returns:
  assumes "\<And>c a s. disp c a s \<noteq> None"
  shows "\<exists>s'. terminal_loop disp keys s = Some s'"
proof (induction keys arbitrary: s)
  case (Cons key keys)
  have disp: "disp c a s = None \<longleftrightarrow> False" for c a s using assms by blast
  have "run_command disp l s \<noteq> None" for l s
    by (auto simp: run_command_def Let_def disp split: prod.splits option.splits)
  then have run: "run_command disp l s = None \<longleftrightarrow> False" for l s by blast
  have "terminal_key disp key s \<noteq> None"
    by (auto simp: terminal_key_def key_enter_def Let_def run split: prod.splits option.splits)
  then show ?case using Cons.IH by (auto split: option.splits)
qed simp

lemma terminal_start_refines:
  assumes "on_screen t" and "editor_wf t"
  shows "ed_ok t (terminal_start t) ((ed_abs t)\<lparr>before := [], after := []\<rparr>)"
proof -
  define u where "u = term_puts (lit ''Type '' @ [39] @ lit ''help'' @ [39] @
      lit '' for commands.  Up/Down=history  Home/End/Del=editing'' @ [10])
    (term_puts (lit ''Welcome to HeatOS!'' @ [10]) (term_reset_screen t))"
  have d: "draws t u" unfolding u_def by (intro draws_puts draws_term_reset_screen)
  then have p: "on_screen (print_prompt u)" "same_outside t (print_prompt u)" "editor_part (print_prompt u) = editor_part t"
    using draws_prompt [of u] assms(1) by (auto simp: draws_def intro: same_outside_trans)
  have w: "editor_wf (print_prompt u)" "ed_abs (print_prompt u) = ed_abs t"
    using editor_part_cong [OF p(3)] assms(2) by simp_all
  let ?v = "(print_prompt u)\<lparr>cmdlen := 0, cursor_pos := 0, cmdbuf := (cmdbuf (print_prompt u))[0 := 0]\<rparr>"
  have "cmdbuf (print_prompt u) \<noteq> []" using w(1) by (auto simp: editor_wf_def)
  then have "editor_wf ?v" "ed_abs ?v = (ed_abs (print_prompt u))\<lparr>before := [], after := []\<rparr>"
    using w(1) by (simp_all add: editor_wf_def ed_abs_def line_of_def hist_wf_def hist_arrays_def)
  moreover have "on_screen ?v" "same_outside t ?v" using p by (simp_all add: on_screen_def same_outside_def)
  moreover have "terminal_start t = ?v" unfolding terminal_start_def Let_def u_def ..
  ultimately show ?thesis using w(2) by (simp add: ed_ok_def)
qed

section \<open>Typing and recalling on the abstract editor\<close>

definition type_keys :: "bytes \<Rightarrow> nat list" where
  "type_keys l = map unat l @ [KEY_ENTER]"

definition typable :: "bytes \<Rightarrow> bool" where
  "typable l \<longleftrightarrow> l \<noteq> [] \<and> length l \<le> 255 \<and> (\<forall>c \<in> set l. 32 \<le> unat c \<and> unat c \<le> 126)"

lemma ed_step_char:
  assumes "32 \<le> unat c" and "unat c \<le> 126" and "after e = []" and "length (before e) < 255"
  shows "ed_step (unat c) e = e\<lparr>before := before e @ [c]\<rparr>"
  using assms by (simp add: ed_step_def ed_key_def ed_line_def const_defs byte_of_nat_def)

lemma ed_type:
  assumes "\<forall>c \<in> set l. 32 \<le> unat c \<and> unat c \<le> 126" and "after e = []" and "length (before e) + length l \<le> 255"
  shows "fold ed_step (map unat l) e = e\<lparr>before := before e @ l\<rparr>"
  using assms
proof (induction l arbitrary: e)
  case (Cons c l)
  then show ?case using ed_step_char [of c e] by simp
qed simp

lemma ed_type_line:
  assumes "typable l" and "before e = []" and "after e = []"
  shows "fold ed_step (type_keys l) e = e\<lparr>steps := 0, recent := take_last 50 (recent e @ [l])\<rparr>"
proof -
  have "fold ed_step (map unat l) e = e\<lparr>before := l\<rparr>"
    using assms ed_type [of l e] by (simp add: typable_def)
  then show ?thesis
    using assms by (simp add: type_keys_def ed_step_def ed_enter_def ed_line_def const_defs typable_def)
qed

lemma ed_type_lines:
  assumes "\<forall>l \<in> set ls. typable l" and "before e = []" and "after e = []" and "steps e = 0"
    and "length (recent e) \<le> 50"
  shows "fold ed_step (concat (map type_keys ls)) e = e\<lparr>recent := take_last 50 (recent e @ ls)\<rparr>"
  using assms
proof (induction ls arbitrary: e)
  case (Cons l ls)
  then show ?case
    using ed_type_line [of l e] take_last_take_last_append [of 50 "recent e @ [l]" ls] by simp
qed simp

lemma ed_up_step:
  assumes "steps e < length (recent e)"
  shows "ed_step KEY_UP e = e\<lparr>before := rev (recent e) ! steps e, after := [], steps := steps e + 1,
    draft := (if steps e = 0 then ed_line e else draft e)\<rparr>"
  using assms by (simp add: ed_step_def ed_key_def const_defs Let_def rev_nth)

lemma ed_ups:
  assumes "n < length (recent e)" and "steps e = 0"
  shows "before (fold ed_step (replicate (Suc n) KEY_UP) e) = rev (recent e) ! n \<and>
    after (fold ed_step (replicate (Suc n) KEY_UP) e) = [] \<and>
    steps (fold ed_step (replicate (Suc n) KEY_UP) e) = Suc n \<and>
    recent (fold ed_step (replicate (Suc n) KEY_UP) e) = recent e"
  using assms
proof (induction n)
  case 0
  then show ?case by (simp add: ed_up_step)
next
  case (Suc n)
  let ?e = "fold ed_step (replicate (Suc n) KEY_UP) e"
  have r: "replicate (Suc (Suc n)) KEY_UP = replicate (Suc n) KEY_UP @ [KEY_UP]"
    by (metis replicate_Suc replicate_append_same)
  have "steps ?e = Suc n" "recent ?e = recent e" using Suc by auto
  then show ?case
    unfolding r using ed_up_step [of ?e] Suc.prems by (simp del: replicate_Suc)
qed

section \<open>Properties\<close>

text \<open>
  For every command table whose commands return and change the terminal through its
  output operations only, and every sequence of keys, the shell loop returns; the state it
  reaches is the one of the abstract editor (insertion, deletion, cursor movement, history
  with its draft line, Enter) after the same keys; the cursor stays on the screen, the
  buffers stay within their 256 bytes and no cell outside the 80 by 25 screen is written.
\<close>

lemma terminal_refines:
  assumes "on_screen t" and "editor_wf t"
    and "\<And>c a s. disp c a s \<noteq> None"
    and "\<And>c a w t h w' t'. disp c a (w, t) = Some (h, w', t') \<Longrightarrow> draws t t'"
  shows "\<exists>w' t'. terminal_run disp keys (w, t) = Some (w', t') \<and>
    ed_abs t' = fold ed_step keys ((ed_abs t)\<lparr>before := [], after := []\<rparr>) \<and>
    on_screen t' \<and> editor_wf t' \<and> same_outside t t'"
proof -
  have table: "command_table disp (\<lambda>_. True)" using assms(4) by unfold_locales
  have s: "ed_ok t (terminal_start t) ((ed_abs t)\<lparr>before := [], after := []\<rparr>)"
    using terminal_start_refines [OF assms(1,2)] .
  obtain w' t' where r: "terminal_loop disp keys (w, terminal_start t) = Some (w', t')"
    using terminal_loop_returns [of disp keys "(w, terminal_start t)"] assms(3) by auto
  have "ed_ok (terminal_start t) t' (fold ed_step keys (ed_abs (terminal_start t)))"
    using command_table.terminal_loop_refines [OF table _ _ _ r] s by (simp add: ed_ok_def)
  moreover have "same_outside t t'"
    using s calculation by (auto simp: ed_ok_def intro: same_outside_trans)
  ultimately show ?thesis using s r by (simp add: ed_ok_def terminal_run_def)
qed

text \<open>The terminal's static variables as the loader leaves them.\<close>

definition terminal_boot :: terminal where
  "terminal_boot = \<lparr>cursor_x = 0, cursor_y = 0, g_history = (\<lambda>_. replicate 256 0), g_hist_count = 0,
     g_hist_next = 0, g_pending = replicate 256 0, g_nav_pos = 0, cmdbuf = replicate 256 0, cmdlen = 0,
     cursor_pos = 0, edit_row = 0, edit_col = 2, scr = \<lparr>cells = (\<lambda>_. 0), crtc = []\<rparr>\<rparr>"

lemma cstr_of_zeros [simp]: "cstr_of (replicate n 0) = []"
  by (simp add: cstr_of_def)

lemma terminal_boot_wf: "on_screen terminal_boot" "editor_wf terminal_boot"
  "ed_abs terminal_boot = \<lparr>before = [], after = [], recent = [], steps = 0, draft = []\<rparr>"
  by (simp_all add: terminal_boot_def on_screen_def editor_wf_def hist_wf_def hist_arrays_def line_of_def
      ed_abs_def ring_contents_def const_defs)

theorem terminal_refines_witness:
  "\<exists>w' t'. terminal_run (\<lambda>c a (w, t). Some (True, (w :: unit), term_puts c t))
      [108, 115, 258, 120, 260, 256, 290, 261] ((), terminal_boot) = Some (w', t') \<and>
    ed_abs t' = \<lparr>before = [108, 120], after = [], recent = [[108, 120, 115]], steps = 1, draft = []\<rparr>"
proof -
  have "\<exists>w' t'. terminal_run (\<lambda>c a (w, t). Some (True, (w :: unit), term_puts c t))
      [108, 115, 258, 120, 260, 256, 290, 261] ((), terminal_boot) = Some (w', t') \<and>
    ed_abs t' = fold ed_step [108, 115, 258, 120, 260, 256, 290, 261] ((ed_abs terminal_boot)\<lparr>before := [], after := []\<rparr>) \<and>
    on_screen t' \<and> editor_wf t' \<and> same_outside terminal_boot t'"
    by (rule terminal_refines) (auto simp: terminal_boot_wf)
  moreover have "fold ed_step [108, 115, 258, 120, 260, 256, 290, 261] ((ed_abs terminal_boot)\<lparr>before := [], after := []\<rparr>) =
      \<lparr>before = [108, 120], after = [], recent = [[108, 120, 115]], steps = 1, draft = []\<rparr>"
    by (simp add: terminal_boot_wf ed_step_def ed_key_def ed_enter_def ed_line_def const_defs byte_of_nat_def Let_def)
  ultimately show ?thesis by auto
qed

text \<open>
  Recall: after the lines \<open>ls\<close> have been typed and entered at a fresh terminal, pressing
  Up \<open>n + 1\<close> times shows the line entered \<open>n\<close> lines before the last one, for every line that
  the history of fifty still holds.
\<close>

lemma history_recall:
  assumes "\<forall>l \<in> set ls. typable l" and "n < length ls" and "n < 50"
    and "\<And>c a s. disp c a s \<noteq> None"
    and "\<And>c a w t h w' t'. disp c a (w, t) = Some (h, w', t') \<Longrightarrow> draws t t'"
  shows "\<exists>w' t'. terminal_run disp (concat (map type_keys ls) @ replicate (Suc n) KEY_UP) (w, terminal_boot) =
      Some (w', t') \<and> line_of t' = rev ls ! n"
proof -
  let ?keys = "concat (map type_keys ls) @ replicate (Suc n) KEY_UP"
  have table: "command_table disp (\<lambda>_. True)" using assms(5) by unfold_locales
  have s: "ed_ok terminal_boot (terminal_start terminal_boot) (ed_abs terminal_boot)"
    using terminal_start_refines [OF terminal_boot_wf(1,2)] by (simp add: terminal_boot_wf)
  obtain w' t' where r: "terminal_loop disp ?keys (w, terminal_start terminal_boot) = Some (w', t')"
    using terminal_loop_returns [of disp ?keys "(w, terminal_start terminal_boot)"] assms(4) by (metis (no_types) surj_pair)
  have e: "ed_abs t' = fold ed_step ?keys (ed_abs terminal_boot)"
    using command_table.terminal_loop_refines [OF table _ _ _ r] s by (simp add: ed_ok_def)
  let ?e = "fold ed_step (concat (map type_keys ls)) (ed_abs terminal_boot)"
  have ls: "?e = (ed_abs terminal_boot)\<lparr>recent := take_last 50 ls\<rparr>"
    using ed_type_lines [of ls "ed_abs terminal_boot"] assms(1) by (simp add: terminal_boot_wf)
  have "line_of t' = ed_line (fold ed_step (replicate (Suc n) KEY_UP) ?e)"
    using arg_cong [OF e, of ed_line] by simp
  also have "\<dots> = rev (take_last 50 ls) ! n"
    using ed_ups [of n ?e] assms(2,3) ls by (simp add: ed_line_def terminal_boot_wf)
  also have "\<dots> = rev ls ! n" using assms(2,3) by (simp add: take_last_def rev_nth)
  finally show ?thesis using r by (auto simp: terminal_run_def)
qed

theorem history_recall_witness:
  "\<exists>w' t'. terminal_run (\<lambda>c a (w, t). Some (False, (w :: unit), t))
      (concat (map type_keys [[108, 115], [112, 119, 100]]) @ replicate (Suc 1) KEY_UP) ((), terminal_boot) =
      Some (w', t') \<and> line_of t' = [108, 115]"
  using history_recall [of "[[108, 115], [112, 119, 100]]" 1 "\<lambda>c a (w, t). Some (False, (w :: unit), t)" "()"]
  by (auto simp: typable_def)

lemma read_fold_putchar:
  assumes "0 \<le> row" "row < 25" "0 \<le> col" "\<forall>i \<in> set is. col + int i < 80" "distinct is"
  shows "vga_read_at r k (fold (\<lambda>i. vga_putchar_at row (col + int i) (f i) a) is v) =
    (if r = row \<and> nat (k - col) \<in> set is \<and> col \<le> k then vga_entry (f (nat (k - col))) a
     else vga_read_at r k v)"
  using assms(4,5)
proof (induction "is" arbitrary: v)
  case (Cons i "is")
  have "k = col + int i \<longleftrightarrow> nat (k - col) = i \<and> col \<le> k" by auto
  with Cons show ?case using assms(1-3) by (auto simp: vga_read_putchar)
qed simp

lemma redraw_screen:
  assumes "on_screen t" and "editor_wf t"
  shows "edit_col t \<le> k \<and> k < 80 \<longrightarrow> vga_read_at (edit_row t) k (scr (redraw_input t)) =
      vga_entry (if nat (k - edit_col t) < length (line_of t) then line_of t ! nat (k - edit_col t) else chr_sp) 7"
    and "r \<noteq> edit_row t \<longrightarrow> vga_read_at r k (scr (redraw_input t)) = vga_read_at r k (scr t)"
    and "cursor_x (redraw_input t) = edit_col t + int (length (before (ed_abs t)))"
    and "cursor_y (redraw_input t) = edit_row t"
proof -
  let ?row = "edit_row t" and ?col = "edit_col t" and ?avail = "nat (80 - edit_col t)"
  let ?v1 = "fold (\<lambda>i. vga_putchar_at ?row (?col + int i) (cmdbuf t ! i) 7) [0..<min (cmdlen t) ?avail] (scr t)"
  let ?v2 = "fold (\<lambda>i. vga_putchar_at ?row (?col + int i) chr_sp 7) [cmdlen t..<?avail] ?v1"
  have s: "0 \<le> ?row" "?row < 25" "0 \<le> ?col" "?col < 80" using assms(1) by (auto simp: on_screen_def)
  have cells: "cells (scr (redraw_input t)) = cells ?v2"
    by (simp add: redraw_input_def Let_def term_cursor_def VGA_WIDTH_def)
  have rd: "vga_read_at r k (scr (redraw_input t)) = vga_read_at r k ?v2" for r k
    by (simp add: vga_read_at_def cells)
  have v1: "vga_read_at r k ?v1 = (if r = ?row \<and> nat (k - ?col) \<in> set [0..<min (cmdlen t) ?avail] \<and> ?col \<le> k
      then vga_entry (cmdbuf t ! nat (k - ?col)) 7 else vga_read_at r k (scr t))" for r k
    using s by (intro read_fold_putchar) auto
  have v2: "vga_read_at r k ?v2 = (if r = ?row \<and> nat (k - ?col) \<in> set [cmdlen t..<?avail] \<and> ?col \<le> k
      then vga_entry chr_sp 7 else vga_read_at r k ?v1)" for r k
    using s by (intro read_fold_putchar) auto
  show "?col \<le> k \<and> k < 80 \<longrightarrow> vga_read_at ?row k (scr (redraw_input t)) =
      vga_entry (if nat (k - ?col) < length (line_of t) then line_of t ! nat (k - ?col) else chr_sp) 7"
    using line_of_length [OF assms(2)] assms(2) unfolding rd v2 v1 by (auto simp: line_of_def editor_wf_def)
  show "r \<noteq> ?row \<longrightarrow> vga_read_at r k (scr (redraw_input t)) = vga_read_at r k (scr t)"
    unfolding rd v2 v1 by simp
  show "cursor_x (redraw_input t) = ?col + int (length (before (ed_abs t)))" "cursor_y (redraw_input t) = ?row"
    using assms(2) line_of_length [OF assms(2)]
    by (simp_all add: redraw_input_def Let_def term_cursor_def ed_abs_def editor_wf_def)
qed

text \<open>
  What the editor shows is what it holds: redrawing puts the line into the cells of the
  prompt's row from the prompt on, blanks the rest of the row, changes no other row, and
  places the cursor on the editing position.
\<close>

lemma redraw_shows_line:
  assumes "on_screen t" and "editor_wf t"
  shows "(edit_col t \<le> k \<and> k < 80 \<longrightarrow> vga_read_at (edit_row t) k (scr (redraw_input t)) =
      vga_entry (if nat (k - edit_col t) < length (line_of t) then line_of t ! nat (k - edit_col t) else chr_sp) 7) \<and>
    (r \<noteq> edit_row t \<longrightarrow> vga_read_at r k (scr (redraw_input t)) = vga_read_at r k (scr t)) \<and>
    cursor_x (redraw_input t) = edit_col t + int (length (before (ed_abs t))) \<and>
    cursor_y (redraw_input t) = edit_row t"
  using redraw_screen [OF assms] by blast

theorem redraw_shows_line_witness:
  "vga_read_at 0 3 (scr (redraw_input (terminal_boot\<lparr>cmdbuf := [108, 115] @ replicate 254 0, cmdlen := 2\<rparr>))) = vga_entry 115 7"
proof -
  let ?t = "terminal_boot\<lparr>cmdbuf := [108, 115] @ replicate 254 0, cmdlen := 2\<rparr>"
  have l: "line_of ?t = [108, 115]" by (simp add: line_of_def take_Cons')
  have "on_screen ?t" by (simp add: terminal_boot_def on_screen_def)
  moreover have "editor_wf ?t" unfolding editor_wf_def l
    by (simp add: terminal_boot_def hist_wf_def hist_arrays_def ring_contents_def const_defs nth_append)
  ultimately show ?thesis using redraw_shows_line [of ?t 3 0] l by (simp add: terminal_boot_def)
qed

text \<open>
  The scroll at the end of the screen leaves the last row out: \<open>term_putc\<close> passes
  \<open>VGA_HEIGHT - 1\<close> to \<open>vga_scroll_up\<close>, whose second bound is exclusive.  A line feed on the last row moves
  the rows above up by one, blanks the row before the last, leaves the last row as it is
  and sets the cursor to its first column, so that the next line overwrites the last one
  instead of following it.
\<close>

lemma newline_overwrites_last_row:
  assumes "cursor_y t = 24" and "0 \<le> k" and "k < 80"
  shows "vga_read_at 24 k (scr (term_putc 10 a t)) = vga_read_at 24 k (scr t) \<and>
    vga_read_at 23 k (scr (term_putc 10 a t)) = vga_entry chr_sp a \<and>
    (0 \<le> r \<and> r < 23 \<longrightarrow> vga_read_at r k (scr (term_putc 10 a t)) = vga_read_at (r + 1) k (scr t)) \<and>
    cursor_y (term_putc 10 a t) = 24 \<and> cursor_x (term_putc 10 a t) = 0"
  using assms
  by (auto simp: term_putc_def term_emit_def term_scroll_def term_cursor_def const_defs vga_read_at_def
      vga_scroll_up_cells algebra_simps)

theorem newline_overwrites_last_row_witness:
  "vga_read_at 24 5 (scr (term_putc 10 7 (terminal_boot\<lparr>cursor_y := 24,
      scr := \<lparr>cells = (\<lambda>_. vga_entry 120 7), crtc = []\<rparr>\<rparr>))) = vga_entry 120 7"
  using newline_overwrites_last_row [of "terminal_boot\<lparr>cursor_y := 24,
      scr := \<lparr>cells = (\<lambda>_. vga_entry 120 7), crtc = []\<rparr>\<rparr>" 5 7 0]
  by (simp add: vga_read_at_def const_defs)

end
