(* ===== verification/File_Commands.thy ===== *)
theory File_Commands
  imports Ramdisk Terminal
begin

text \<open>
  The shell commands that work on the RAM disk: \<^verbatim>\<open>cd.c\<close>, \<^verbatim>\<open>pwd.c\<close>,
  \<^verbatim>\<open>ls.c\<close>, \<^verbatim>\<open>tree.c\<close>, \<^verbatim>\<open>find.c\<close>,
  \<^verbatim>\<open>mkdir.c\<close>, \<^verbatim>\<open>touch.c\<close>, \<^verbatim>\<open>rm.c\<close>,
  \<^verbatim>\<open>rmdir.c\<close>, \<^verbatim>\<open>cp.c\<close>, \<^verbatim>\<open>mv.c\<close>,
  \<^verbatim>\<open>echo.c\<close> and \<^verbatim>\<open>grep.c\<close> of \<^verbatim>\<open>src/src/commands\<close>, and
  \<^verbatim>\<open>src/src/apps/kat.c\<close> behind \<open>cat\<close> and \<open>kat\<close>.  A command maps its
  argument string (\<open>None\<close> is the null pointer), the disk and the terminal to the new disk
  and terminal; \<open>None\<close> is a command that never returns, which only a cyclic sibling list
  can cause.
\<close>

section \<open>Output and arguments\<close>

type_synonym 's cmd = "bytes option \<Rightarrow> 's \<times> terminal \<Rightarrow> ('s \<times> terminal) option"

definition say :: "bytes list \<Rightarrow> 's \<times> terminal \<Rightarrow> 's \<times> terminal" where
  "say ms s = (fst s, fold term_puts ms (snd s))"

definition no_args :: "bytes option \<Rightarrow> bool" where
  "no_args args \<longleftrightarrow> args = None \<or> args = Some []"

definition skip_spaces :: "bytes \<Rightarrow> bytes" where
  "skip_spaces s = dropWhile (\<lambda>c. c = chr_sp) s"

definition trim_right_spaces :: "bytes \<Rightarrow> bytes" where
  "trim_right_spaces s = rev (dropWhile (\<lambda>c. c = chr_sp) (rev s))"

section \<open>The working directory\<close>

definition cmd_cd :: "fs cmd" where
  "cmd_cd args s =
     (let (f, t) = s
      in if no_args args then Some (fs_cwd_set 0 f, t)
         else case fs_resolve_checked f args of
                None \<Rightarrow> None
              | Some None \<Rightarrow> Some (say [lit ''cd: directory not found: '', the args, [10]] s)
              | Some (Some target) \<Rightarrow>
                  if \<not> fs_is_dir f target then Some (say [lit ''cd: not a directory: '', the args, [10]] s)
                  else Some (fs_cwd_set target f, t))"

definition cmd_pwd :: "fs cmd" where
  "cmd_pwd args s =
     map_option (\<lambda>path. say [path, [10]] s) (fs_build_path (fst s) (fs_cwd_get (fst s)) False 256)"

section \<open>Listing\<close>

text \<open>The iterator that the commands use after \<open>fs_list_begin\<close> returned true.\<close>

definition list_start :: "fs \<Rightarrow> nat \<Rightarrow> nat option" where
  "list_start f dir = (case fs_list_begin f dir of (ok, it) \<Rightarrow> if ok then it else None)"

text \<open>The loop of \<open>cmd_ls\<close> over the sibling list.\<close>

definition ls_entry :: "fs \<Rightarrow> nat \<Rightarrow> bytes list" where
  "ls_entry f child = [fs_get_name f child] @ (if fs_is_dir f child then [[chr_slash]] else []) @ [lit ''  '']"

partial_function (option) ls_loop :: "fs \<Rightarrow> nat \<Rightarrow> terminal \<Rightarrow> terminal option" where
  "ls_loop f iter t =
     (case fs_list_next f iter of
        None \<Rightarrow> Some t
      | Some (child, iter1) \<Rightarrow> ls_loop f iter1 (fold term_puts (ls_entry f child) t))"

definition ls_node :: "nat \<Rightarrow> fs \<times> terminal \<Rightarrow> (fs \<times> terminal) option" where
  "ls_node target s =
     (let (f, t) = s
      in if fs_is_file f target then Some (say [fs_get_name f target, [10]] s)
         else case list_start f target of
                Some iter \<Rightarrow> map_option (\<lambda>t1. say [[10]] (f, t1)) (ls_loop f iter t)
              | None \<Rightarrow> Some (say [lit ''(empty)'' @ [10]] s))"

definition cmd_ls :: "fs cmd" where
  "cmd_ls args s =
     (if no_args args then ls_node (fs_cwd_get (fst s)) s
      else case fs_resolve_checked (fst s) args of
             None \<Rightarrow> None
           | Some None \<Rightarrow> Some (say [lit ''ls: path not found'' @ [10]] s)
           | Some (Some target) \<Rightarrow> ls_node target s)"

text \<open>
  The loop and the recursion of \<open>tree_recursive\<close>; the test at its start finds the iterator
  of the directory, so the recursion goes through the loop.
\<close>

definition tree_head :: "fs \<Rightarrow> nat \<Rightarrow> nat \<Rightarrow> bytes list" where
  "tree_head f depth child =
     replicate depth (lit ''  '') @ [lit ''|- '', fs_get_name f child,
       (if fs_is_dir f child then [chr_slash, 10] else [10])]"

partial_function (option) tree_loop :: "fs \<Rightarrow> nat \<Rightarrow> nat \<Rightarrow> terminal \<Rightarrow> terminal option" where
  "tree_loop f depth iter t =
     (case fs_list_next f iter of
        None \<Rightarrow> Some t
      | Some (child, iter1) \<Rightarrow>
          Option.bind
            (if fs_is_dir f child then
               (case list_start f child of
                  Some it \<Rightarrow> tree_loop f (depth + 1) it (fold term_puts (tree_head f depth child) t)
                | None \<Rightarrow> Some (fold term_puts (tree_head f depth child) t))
             else Some (fold term_puts (tree_head f depth child) t))
            (\<lambda>t1. tree_loop f depth iter1 t1))"

definition tree_recursive :: "fs \<Rightarrow> nat \<Rightarrow> nat \<Rightarrow> terminal \<Rightarrow> terminal option" where
  "tree_recursive f node depth t =
     (case list_start f node of Some it \<Rightarrow> tree_loop f depth it t | None \<Rightarrow> Some t)"

definition cmd_tree :: "fs cmd" where
  "cmd_tree args s =
     (let (f, t) = say [lit ''./'' @ [10]] s
      in map_option (\<lambda>t1. (f, t1)) (tree_recursive f (fs_cwd_get f) 1 t))"

section \<open>Searching\<close>

definition ascii_lower :: "u8 \<Rightarrow> u8" where
  "ascii_lower c = (if c \<ge> 65 \<and> c \<le> 90 then c - 65 + 97 else c)"

text \<open>The inner loop at one position of the haystack, and the outer loop.\<close>

fun match_at :: "bytes \<Rightarrow> bytes \<Rightarrow> bool" where
  "match_at h [] = True"
| "match_at [] (n # ns) = False"
| "match_at (h # hs) (n # ns) = (ascii_lower h = ascii_lower n \<and> match_at hs ns)"

fun match_from :: "bytes \<Rightarrow> bytes \<Rightarrow> bool" where
  "match_from [] needle = False"
| "match_from (h # hs) needle = (match_at (h # hs) needle \<or> match_from hs needle)"

definition contains_nocase :: "bytes \<Rightarrow> bytes \<Rightarrow> bool" where
  "contains_nocase haystack needle = (if needle = [] then True else match_from haystack needle)"

text \<open>What \<open>find_recursive\<close> prints for one node: its path in the 256-byte array.\<close>

definition find_hit :: "fs \<Rightarrow> bytes \<Rightarrow> nat \<Rightarrow> bytes list" where
  "find_hit f pattern child =
     (if contains_nocase (fs_get_name f child) pattern
      then (case fs_build_path f child False 256 of Some path \<Rightarrow> [path, [10]] | None \<Rightarrow> [])
      else [])"

partial_function (option) find_loop :: "fs \<Rightarrow> bytes \<Rightarrow> nat \<Rightarrow> terminal \<Rightarrow> terminal option" where
  "find_loop f pattern iter t =
     (case fs_list_next f iter of
        None \<Rightarrow> Some t
      | Some (child, iter1) \<Rightarrow>
          Option.bind
            (if fs_is_dir f child then
               (case list_start f child of
                  Some it \<Rightarrow> find_loop f pattern it (fold term_puts (find_hit f pattern child) t)
                | None \<Rightarrow> Some (fold term_puts (find_hit f pattern child) t))
             else Some (fold term_puts (find_hit f pattern child) t))
            (\<lambda>t1. find_loop f pattern iter1 t1))"

definition find_recursive :: "fs \<Rightarrow> nat \<Rightarrow> bytes \<Rightarrow> terminal \<Rightarrow> terminal option" where
  "find_recursive f node pattern t =
     (case list_start f node of Some it \<Rightarrow> find_loop f pattern it t | None \<Rightarrow> Some t)"

definition cmd_find :: "fs cmd" where
  "cmd_find args s =
     (let (f, t) = s; pattern = skip_spaces (case args of None \<Rightarrow> [] | Some a \<Rightarrow> a)
      in map_option (\<lambda>t1. (f, t1)) (find_recursive f (fs_cwd_get f) pattern t))"

definition split_pattern_file :: "bytes option \<Rightarrow> nat \<Rightarrow> nat \<Rightarrow> (bytes \<times> bytes) option" where
  "split_pattern_file args pattern_size file_size =
     (if no_args args then None
      else let p = skip_spaces (the args);
               pattern = take (pattern_size - 1) (takeWhile (\<lambda>c. c \<noteq> chr_sp) p);
               file = take (file_size - 1) (skip_spaces (drop (length pattern) p))
           in if pattern \<noteq> [] \<and> file \<noteq> [] then Some (pattern, file) else None)"

text \<open>
  The loop of \<open>cmd_grep\<close> over the buffer with its terminator: \<open>line\<close> holds the characters
  from \<open>line_start\<close>, and the result is the text and the number of matches.
\<close>

fun grep_loop :: "bytes \<Rightarrow> bytes \<Rightarrow> bytes \<Rightarrow> u32 \<Rightarrow> nat \<times> bytes list" where
  "grep_loop pattern [] line line_num = (0, [])"
| "grep_loop pattern (c # cs) line line_num =
     (if c = 10 \<or> c = 0 then
        let hit = contains_nocase line pattern;
            shown = (if hit then [itoa_text line_num, lit '': '', line, [10]] else []);
            k = (if hit then 1 else 0)
        in if c = 0 then (k, shown)
           else let (m, more) = grep_loop pattern cs [] (line_num + 1) in (k + m, shown @ more)
      else grep_loop pattern cs (line @ [c]) line_num)"

definition cmd_grep :: "fs cmd" where
  "cmd_grep args s =
     (let f = fst s
      in case split_pattern_file args 64 256 of
           None \<Rightarrow> Some (say [lit ''Usage: grep <pattern> <file>'' @ [10]] s)
         | Some (pattern, file_name) \<Rightarrow>
             (case fs_resolve_checked f (Some file_name) of
                None \<Rightarrow> None
              | Some r \<Rightarrow>
                  if r = None \<or> \<not> fs_is_file f (the r) then Some (say [lit ''grep: file not found'' @ [10]] s)
                  else let (bytes, file_buf) = fs_read f (the r) False (int RAMDISK_DATA_CAP)
                       in if bytes > 0 then
                            let (matches, shown) = grep_loop pattern (file_buf @ [0]) [] 1
                            in Some (say (shown @ (if matches = 0 then [lit ''No matches'' @ [10]] else [])) s)
                          else if bytes = 0 then Some (say [lit ''No matches'' @ [10]] s)
                          else Some (say [lit ''grep: read failed'' @ [10]] s)))"

definition KAT_BUFFER_SIZE :: nat where [const_defs]: "KAT_BUFFER_SIZE = 4096"

definition kat_run :: "fs cmd" where
  "kat_run filename s =
     (let f = fst s
      in if no_args filename then Some (say [lit ''kat: missing file operand'' @ [10]] s)
         else case fs_resolve f filename of
                None \<Rightarrow> None
              | Some node \<Rightarrow>
                  if node = 0 then
                    Some (say [lit ''kat: '', the filename, lit '': No such file or directory'' @ [10]] s)
                  else if \<not> fs_is_file f node then
                    Some (say [lit ''kat: '', the filename, lit '': Is a directory'' @ [10]] s)
                  else let (bytes_read, buffer) = fs_read f node False (int KAT_BUFFER_SIZE - 1)
                       in if bytes_read < 0 then
                            Some (say [lit ''kat: '', the filename, lit '': Error reading file'' @ [10]] s)
                          else Some (say [cstr_of (buffer @ [0]), [10]] s))"

definition cmd_kat :: "fs cmd" where "cmd_kat args s = kat_run args s"
definition cmd_cat :: "fs cmd" where "cmd_cat args s = kat_run args s"

section \<open>Creating and removing\<close>

definition cmd_mkdir :: "fs cmd" where
  "cmd_mkdir args s =
     (if no_args args then Some (say [lit ''Usage: mkdir <name>'' @ [10]] s)
      else case fs_mkdir_child (fs_cwd_get (fst s)) args (fst s) of
             None \<Rightarrow> None
           | Some (ok, f1) \<Rightarrow>
               Some (say [if ok then lit ''OK'' @ [10] else lit ''mkdir: failed (exists/invalid/full)'' @ [10]] (f1, snd s)))"

definition cmd_touch :: "fs cmd" where
  "cmd_touch args s =
     (if no_args args then Some (say [lit ''Usage: touch <name>'' @ [10]] s)
      else case fs_create_file (fs_cwd_get (fst s)) args (fst s) of
             None \<Rightarrow> None
           | Some (ok, f1) \<Rightarrow>
               Some (say [if ok then lit ''OK'' @ [10] else lit ''touch: failed (exists/invalid/full)'' @ [10]] (f1, snd s)))"

definition cmd_rm :: "fs cmd" where
  "cmd_rm args s =
     (let f = fst s
      in if no_args args then Some (say [lit ''Usage: rm <name>'' @ [10]] s)
         else case fs_resolve_checked f args of
                None \<Rightarrow> None
              | Some None \<Rightarrow> Some (say [lit ''rm: not found'' @ [10]] s)
              | Some (Some target) \<Rightarrow>
                  if target = 0 then Some (say [lit ''rm: cannot remove root'' @ [10]] s)
                  else if target = fs_cwd_get f then Some (say [lit ''rm: cannot remove current directory'' @ [10]] s)
                  else map_option
                         (\<lambda>(ok, f1). say [if ok then lit ''OK'' @ [10]
                                          else lit ''rm: failed (non-empty dir or invalid)'' @ [10]] (f1, snd s))
                         (fs_delete target f))"

definition cmd_rmdir :: "fs cmd" where
  "cmd_rmdir args s =
     (let f = fst s
      in if no_args args then Some (say [lit ''Usage: rmdir <dirname>'' @ [10]] s)
         else case fs_resolve_checked f args of
                None \<Rightarrow> None
              | Some None \<Rightarrow> Some (say [lit ''rmdir: directory not found'' @ [10]] s)
              | Some (Some target) \<Rightarrow>
                  if target = 0 then Some (say [lit ''rmdir: cannot remove root'' @ [10]] s)
                  else if target = fs_cwd_get f then Some (say [lit ''rmdir: cannot remove current directory'' @ [10]] s)
                  else if \<not> fs_is_dir f target then Some (say [lit ''rmdir: not a directory'' @ [10]] s)
                  else if (case list_start f target of None \<Rightarrow> False | Some it \<Rightarrow> fs_list_next f it \<noteq> None)
                  then Some (say [lit ''rmdir: directory not empty'' @ [10]] s)
                  else map_option
                         (\<lambda>(ok, f1). say [if ok then lit ''OK'' @ [10] else lit ''rmdir: failed to remove'' @ [10]] (f1, snd s))
                         (fs_delete target f))"

section \<open>Copying and moving\<close>

definition split_two_args :: "bytes option \<Rightarrow> nat \<Rightarrow> nat \<Rightarrow> (bytes \<times> bytes) option" where
  "split_two_args args asz bsz =
     (case args of
        None \<Rightarrow> None
      | Some args0 \<Rightarrow>
          let p = skip_spaces args0
          in if p = [] then None
             else let a = take (asz - 1) (takeWhile (\<lambda>c. c \<noteq> chr_sp) p);
                      b = take (bsz - 1) (skip_spaces (drop (length a) p))
                  in if a \<noteq> [] \<and> b \<noteq> [] then Some (a, b) else None)"

text \<open>The position behind the last slash, 0 if there is none.\<close>

definition split_pos :: "bytes \<Rightarrow> nat" where
  "split_pos tmp = fold (\<lambda>i split. if tmp ! i = chr_slash then i + 1 else split) [0..<length tmp] 0"

definition split_parent_and_name :: "bytes \<Rightarrow> nat \<Rightarrow> nat \<Rightarrow> (bytes \<times> bytes) option" where
  "split_parent_and_name path psz nsz =
     (let p = skip_spaces path; tmp = trim_right_spaces (take 255 p); n = length tmp; split = split_pos tmp;
          named = (\<lambda>parent. let name = take (nsz - 1) (drop split tmp)
                            in if name \<noteq> [] then Some (parent, name) else None)
      in if p = [] \<or> n = 0 then None
         else if split = 0 then (if psz < 2 then None else named [chr_dot])
         else if split = n then None
         else if split = 1 then (if psz < 2 then None else named [chr_slash])
         else if split - 1 + 1 > psz then None
         else named (take (split - 1) tmp))"

text \<open>
  The creation of a missing destination.  The two commands that create a file by its path
  print different messages for each failure, \<open>cp\<close> one per case and \<open>echo\<close> the same for all:
  \<open>Inl\<close> is the message that \<open>cp\<close> prints.
\<close>

definition create_by_path :: "bytes \<Rightarrow> fs \<Rightarrow> ((bytes + nat) \<times> fs) option" where
  "create_by_path dst f =
     (case split_parent_and_name dst 256 RAMDISK_NAME_LEN of
        None \<Rightarrow> Some (Inl (lit ''cp: invalid destination path'' @ [10]), f)
      | Some (parent_path, child_name) \<Rightarrow>
          Option.bind (fs_resolve_checked f (Some parent_path)) (\<lambda>r.
            if r = None \<or> \<not> fs_is_dir f (the r)
            then Some (Inl (lit ''cp: destination parent not found'' @ [10]), f)
            else Option.bind (fs_create_file (the r) (Some child_name) f) (\<lambda>(ok, f1).
              if \<not> ok then Some (Inl (lit ''cp: failed to create destination file'' @ [10]), f1)
              else Option.bind (fs_resolve_checked f1 (Some dst)) (\<lambda>r1.
                if r1 = None \<or> \<not> fs_is_file f1 (the r1)
                then Some (Inl (lit ''cp: destination resolution failed'' @ [10]), f1)
                else Some (Inr (the r1), f1)))))"

text \<open>The result of \<open>cmd_copy_file_path\<close>: the number of bytes, or \<open>None\<close> for false; and its last part.\<close>

definition copy_data :: "nat \<Rightarrow> nat \<Rightarrow> fs \<times> terminal \<Rightarrow> int option \<times> fs \<times> terminal" where
  "copy_data src_node dst_node s =
     (let f1 = fst s; r = fs_read f1 src_node False (int RAMDISK_DATA_CAP); bytes = fst r; copy_buf = snd r
      in if bytes < 0 then (None, say [lit ''cp: read failed'' @ [10]] s)
         else let w = fs_write dst_node (Some copy_buf) bytes f1
              in if \<not> fst w then (None, say [lit ''cp: write failed'' @ [10]] (snd w, snd s))
                 else (Some bytes, snd w, snd s))"

definition copy_target :: "bytes \<Rightarrow> fs \<Rightarrow> ((bytes + nat) \<times> fs) option" where
  "copy_target dst_path f =
     Option.bind (fs_resolve_checked f (Some dst_path)) (\<lambda>dst.
       case dst of
         Some d \<Rightarrow> if \<not> fs_is_file f d then Some (Inl (lit ''cp: destination must be a file path'' @ [10]), f)
                   else Some (Inr d, f)
       | None \<Rightarrow> create_by_path dst_path f)"

definition cmd_copy_file_path :: "bytes \<Rightarrow> bytes \<Rightarrow> fs \<times> terminal \<Rightarrow> (int option \<times> fs \<times> terminal) option" where
  "cmd_copy_file_path src_path dst_path s =
     Option.bind (fs_resolve_checked (fst s) (Some src_path)) (\<lambda>src.
       if src = None \<or> \<not> fs_is_file (fst s) (the src)
       then Some (None, say [lit ''cp: source not found or not a file'' @ [10]] s)
       else map_option
              (\<lambda>(d, f1). case d of Inl msg \<Rightarrow> (None, say [msg] (f1, snd s))
                 | Inr dst_node \<Rightarrow> copy_data (the src) dst_node (f1, snd s))
              (copy_target dst_path (fst s)))"

definition cmd_cp :: "fs cmd" where
  "cmd_cp args s =
     (case split_two_args args 256 256 of
        None \<Rightarrow> Some (say [lit ''Usage: cp <source> <dest>'' @ [10]] s)
      | Some (src, dst) \<Rightarrow>
          map_option (\<lambda>(r, s1). case r of None \<Rightarrow> s1
              | Some bytes \<Rightarrow> say [lit ''Copied '', itoa_text (word_of_int bytes), lit '' bytes'' @ [10]] s1)
            (cmd_copy_file_path src dst s))"

definition cmd_mv :: "fs cmd" where
  "cmd_mv args s =
     (case split_two_args args 256 256 of
        None \<Rightarrow> Some (say [lit ''Usage: mv <source> <dest>'' @ [10]] s)
      | Some (src, dst) \<Rightarrow>
          Option.bind (fs_resolve_checked (fst s) (Some src)) (\<lambda>r.
          if r = None \<or> \<not> fs_is_file (fst s) (the r) then Some (say [lit ''mv: source not found'' @ [10]] s)
          else Option.bind (fs_resolve_checked (fst s) (Some dst)) (\<lambda>q.
          if q = r then Some (say [lit ''mv: source and destination are identical'' @ [10]] s)
          else Option.bind (cmd_copy_file_path src dst s) (\<lambda>(copied, f1, t1).
          if copied = None then Some (f1, t1)
          else map_option (\<lambda>(ok, f2). say [if ok then lit ''OK'' @ [10]
                   else lit ''mv: move copied, but source deletion failed'' @ [10]] (f2, t1))
                 (fs_delete (the r) f1)))))"

section \<open>Writing text\<close>

definition resolve_or_create_file :: "bytes \<Rightarrow> fs \<Rightarrow> (nat option \<times> fs) option" where
  "resolve_or_create_file path f =
     (if path = [] then Some (None, f)
      else Option.bind (fs_resolve_checked f (Some path)) (\<lambda>r.
        case r of
          Some node \<Rightarrow> Some (if fs_is_file f node then Some node else None, f)
        | None \<Rightarrow> map_option (\<lambda>(d, f1). (case d of Inl msg \<Rightarrow> None | Inr node \<Rightarrow> Some node, f1)) (create_by_path path f)))"

definition cmd_echo :: "fs cmd" where
  "cmd_echo args s =
     (if no_args args then Some (say [[10]] s)
      else let work = take 255 (the args)
           in if 62 \<notin> set work then Some (say [work, [10]] s)
              else let body = trim_right_spaces (takeWhile (\<lambda>c. c \<noteq> 62) work);
                       redir = skip_spaces (tl (dropWhile (\<lambda>c. c \<noteq> 62) work))
                   in if redir = [] then Some (say [lit ''echo: missing redirect target'' @ [10]] s)
                      else Option.bind (resolve_or_create_file redir (fst s)) (\<lambda>(node, f1).
                        case node of
                          None \<Rightarrow> Some (say [lit ''echo: invalid redirect target'' @ [10]] (f1, snd s))
                        | Some n \<Rightarrow>
                            let (ok, f2) = fs_write n (Some body) (int (length body)) f1
                            in if ok then Some (f2, snd s)
                               else Some (say [lit ''echo: write failed'' @ [10]] (f2, snd s))))"

section \<open>Output only\<close>

lemma snd_say_draws: "draws t (snd (say ms (f, t)))"
  unfolding say_def by (simp add: draws_fold draws_term_puts)

lemma fold_puts_draws: "draws t u \<Longrightarrow> draws t (fold term_puts ms u)"
  by (erule draws_trans) (rule draws_fold, rule draws_term_puts)

lemma say_pair: "say ms (f, t) = (f, fold term_puts ms t)"
  by (simp add: say_def)

lemma say_append: "say (xs @ ys) s = say ys (say xs s)"
  by (simp add: say_def)

lemma puts_step: "draws (fold term_puts ms t) t' \<Longrightarrow> draws t t'"
  by (rule draws_trans [OF fold_puts_draws [OF draws_refl]])

lemma ls_loop_draws:
  assumes "ls_loop f iter t = Some t'"
  shows "draws t t'"
  using assms
proof (rule ls_loop.raw_induct [where P = "\<lambda>f iter t t'. draws t t'", rotated])
  fix loop f iter t t'
  assume IH: "\<And>f iter t t'. loop f iter t = Some t' \<Longrightarrow> draws t t'"
    and run: "(case fs_list_next f iter of None \<Rightarrow> Some t
        | Some (child, iter1) \<Rightarrow> loop f iter1 (fold term_puts (ls_entry f child) t)) = Some t'"
  show "draws t t'" using run by (auto split: option.splits dest!: IH intro: puts_step)
qed

text \<open>The step that the loops of \<open>tree\<close> and \<open>find\<close> share.\<close>

lemma visit_draws:
  assumes IH: "\<And>it u v. sub it u = Some v \<Longrightarrow> draws u v" "\<And>it u v. loop it u = Some v \<Longrightarrow> draws u v"
    and run: "(case fs_list_next f iter of None \<Rightarrow> Some t
        | Some (child, iter1) \<Rightarrow>
            Option.bind
              (if fs_is_dir f child then
                 (case list_start f child of Some it \<Rightarrow> sub it (fold term_puts (head child) t)
                  | None \<Rightarrow> Some (fold term_puts (head child) t))
               else Some (fold term_puts (head child) t))
              (\<lambda>t1. loop iter1 t1)) = Some t'"
  shows "draws t t'"
proof (cases "fs_list_next f iter")
  case None
  then show ?thesis using run by simp
next
  case (Some p)
  obtain child iter1 where p: "p = (child, iter1)" by force
  let ?u = "fold term_puts (head child) t"
  obtain t1 where t1: "(if fs_is_dir f child then (case list_start f child of Some it \<Rightarrow> sub it ?u | None \<Rightarrow> Some ?u)
      else Some ?u) = Some t1" "loop iter1 t1 = Some t'"
    using run Some by (auto simp: p bind_eq_Some_conv)
  have "draws ?u t1" using t1(1) IH(1) by (auto split: if_splits option.splits)
  then show ?thesis using IH(2) [OF t1(2)] by (blast intro: puts_step draws_trans)
qed

lemma tree_loop_draws:
  assumes "tree_loop f depth iter t = Some t'"
  shows "draws t t'"
  using assms
  by (rule tree_loop.raw_induct [where P = "\<lambda>f depth iter t t'. draws t t'", rotated]) (rule visit_draws)

lemma find_loop_draws:
  assumes "find_loop f pattern iter t = Some t'"
  shows "draws t t'"
  using assms
  by (rule find_loop.raw_induct [where P = "\<lambda>f pattern iter t t'. draws t t'", rotated]) (rule visit_draws)

text \<open>
  A command that, whenever it returns, has changed the terminal only by output.
\<close>

definition quiet :: "'s cmd \<Rightarrow> bool" where
  "quiet c \<longleftrightarrow> (\<forall>args f t f' t'. c args (f, t) = Some (f', t') \<longrightarrow> draws t t')"

lemmas quiet_rules = say_pair fold_puts_draws draws_refl draws_term_puts draws_puts

lemma ls_node_draws: "ls_node n (f, t) = Some (f', t') \<Longrightarrow> draws t t'"
  by (auto simp: ls_node_def quiet_rules split: if_splits option.splits dest!: ls_loop_draws intro: draws_puts)

lemma copy_data_draws: "copy_data a b (f, t) = (r, f', t') \<Longrightarrow> draws t t'"
  by (auto simp: copy_data_def Let_def quiet_rules split: if_splits)

lemma copy_file_path_draws:
  "cmd_copy_file_path a b (f, t) = Some (r, f', t') \<Longrightarrow> draws t t'"
  apply (auto simp: cmd_copy_file_path_def bind_eq_Some_conv quiet_rules split: if_split_asm)
  subgoal for src d f1 by (cases d) (auto simp: quiet_rules dest: copy_data_draws)
  done

lemma quiet_I: "(\<And>args f t f' t'. c args (f, t) = Some (f', t') \<Longrightarrow> draws t t') \<Longrightarrow> quiet c"
  by (auto simp: quiet_def)

lemma quiet_file_commands:
  "quiet cmd_cd" "quiet cmd_pwd" "quiet cmd_ls" "quiet cmd_tree" "quiet cmd_find" "quiet cmd_grep" "quiet cmd_kat"
  "quiet cmd_cat" "quiet cmd_mkdir" "quiet cmd_touch" "quiet cmd_rm" "quiet cmd_rmdir" "quiet cmd_cp" "quiet cmd_mv"
  "quiet cmd_echo"
proof -
  show "quiet cmd_cd" by (rule quiet_I) (auto simp: cmd_cd_def quiet_rules split: if_splits option.splits)
  show "quiet cmd_pwd" by (rule quiet_I) (auto simp: cmd_pwd_def say_pair draws_puts)
  show "quiet cmd_ls"
    by (rule quiet_I) (auto simp: cmd_ls_def quiet_rules split: if_splits option.splits dest: ls_node_draws)
  show "quiet cmd_tree"
    by (rule quiet_I) (auto simp: cmd_tree_def tree_recursive_def quiet_rules split: option.splits
        dest!: tree_loop_draws intro: draws_trans)
  show "quiet cmd_find"
    by (rule quiet_I) (auto simp: cmd_find_def find_recursive_def quiet_rules split: option.splits dest: find_loop_draws)
  show "quiet cmd_grep"
    by (rule quiet_I) (auto simp: cmd_grep_def Let_def quiet_rules case_prod_unfold split: if_splits option.splits)
  show "quiet cmd_kat" "quiet cmd_cat"
    by (rule quiet_I, auto simp: cmd_kat_def cmd_cat_def kat_run_def Let_def quiet_rules case_prod_unfold
        split: if_splits option.splits)+
  show "quiet cmd_mkdir" "quiet cmd_touch"
    by (rule quiet_I, auto simp: cmd_mkdir_def cmd_touch_def quiet_rules split: if_splits option.splits)+
  show "quiet cmd_rm" "quiet cmd_rmdir"
    by (rule quiet_I, auto simp: cmd_rm_def cmd_rmdir_def Let_def quiet_rules split: if_splits option.splits)+
  show "quiet cmd_cp"
    by (rule quiet_I) (auto simp: cmd_cp_def quiet_rules split: if_splits option.splits
        dest!: copy_file_path_draws intro: draws_puts)
  show "quiet cmd_mv"
    by (rule quiet_I) (auto simp: cmd_mv_def quiet_rules bind_eq_Some_conv split: if_splits option.splits
        dest!: copy_file_path_draws intro: draws_puts)
  show "quiet cmd_echo"
    by (rule quiet_I) (auto simp: cmd_echo_def Let_def quiet_rules bind_eq_Some_conv case_prod_unfold
        split: if_splits option.splits)
qed

section \<open>The walk over a directory tree\<close>

text \<open>
  \<open>visits f k it l\<close>: a recursive listing that starts at the iterator \<open>it\<close> on depth \<open>k\<close>
  comes to an end and meets the nodes of \<open>l\<close>, each with its depth, in this order.
\<close>

inductive visits :: "fs \<Rightarrow> nat \<Rightarrow> nat \<Rightarrow> (nat \<times> nat) list \<Rightarrow> bool" for f where
  stop: "visits f k 0 []"
| sub: "it \<noteq> 0 \<Longrightarrow> fs_is_dir f it \<Longrightarrow> visits f (Suc k) (fs_node_first_child f it) l1 \<Longrightarrow>
    visits f k (fs_node_next_sibling f it) l2 \<Longrightarrow> visits f k it ((k, it) # l1 @ l2)"
| leaf: "it \<noteq> 0 \<Longrightarrow> \<not> fs_is_dir f it \<Longrightarrow> visits f k (fs_node_next_sibling f it) l2 \<Longrightarrow>
    visits f k it ((k, it) # l2)"

lemma list_start_eq:
  "list_start f d = (if fs_is_dir f d \<and> fs_node_first_child f d \<noteq> 0 then Some (fs_node_first_child f d) else None)"
  by (simp add: list_start_def fs_list_begin_def)

lemma visits_0 [simp]: "visits f k 0 l \<longleftrightarrow> l = []"
  by (auto elim: visits.cases intro: stop)

lemma tree_loop_visits:
  "visits f k it l \<Longrightarrow> tree_loop f k it t = Some (fold (\<lambda>(e, n). fold term_puts (tree_head f e n)) l t)"
proof (induction arbitrary: t rule: visits.induct)
  case (stop k)
  then show ?case by (simp add: tree_loop.simps fs_list_next_def)
next
  case (sub it k l1 l2)
  then show ?case
    by (cases "fs_node_first_child f it = 0")
      (auto simp: tree_loop.simps [of f k it] fs_list_next_def list_start_eq)
next
  case (leaf it k l2)
  then show ?case by (simp add: tree_loop.simps [of f k it] fs_list_next_def)
qed

lemma find_loop_visits:
  "visits f k it l \<Longrightarrow> find_loop f pattern it t = Some (fold (\<lambda>(e, n). fold term_puts (find_hit f pattern n)) l t)"
proof (induction arbitrary: t rule: visits.induct)
  case (stop k)
  then show ?case by (simp add: find_loop.simps fs_list_next_def)
next
  case (sub it k l1 l2)
  then show ?case
    by (cases "fs_node_first_child f it = 0")
      (auto simp: find_loop.simps [of f pattern it] fs_list_next_def list_start_eq)
next
  case (leaf it k l2)
  then show ?case by (simp add: find_loop.simps [of f pattern it] fs_list_next_def)
qed

lemma ls_loop_siblings:
  "siblings f it xs \<Longrightarrow> ls_loop f it t = Some (fold (\<lambda>n. fold term_puts (ls_entry f n)) xs t)"
proof (induction xs arbitrary: it t)
  case Nil
  then show ?case by (simp add: ls_loop.simps fs_list_next_def)
next
  case (Cons x xs)
  then show ?case by (simp add: ls_loop.simps [of f x] fs_list_next_def)
qed

text \<open>The nodes below \<open>x\<close> and \<open>x\<close> itself, with their depth under \<open>x\<close>.\<close>

definition below :: "fs \<Rightarrow> nat \<Rightarrow> (nat \<times> nat) set" where
  "below f x = {(length ns, n) | ns n. descends f x ns n}"

lemma below_step: "below f x = insert (0, x) (\<Union>c\<in>children f x. (\<lambda>(e, n). (Suc e, n)) ` below f c)"
proof (intro set_eqI iffI)
  fix p assume "p \<in> below f x"
  then obtain ns n where p: "p = (length ns, n)" "descends f x ns n" by (auto simp: below_def)
  then show "p \<in> insert (0, x) (\<Union>c\<in>children f x. (\<lambda>(e, n). (Suc e, n)) ` below f c)"
    by (cases ns) (force simp: below_def)+
next
  fix p assume "p \<in> insert (0, x) (\<Union>c\<in>children f x. (\<lambda>(e, n). (Suc e, n)) ` below f c)"
  then consider "p = (0, x)" | c ns n where "c \<in> children f x" "p = (Suc (length ns), n)" "descends f c ns n"
    by (auto simp: below_def)
  then show "p \<in> below f x"
  proof cases
    case 1
    then show ?thesis by (auto simp: below_def intro: exI [of _ "[]"])
  next
    case 2
    then show ?thesis unfolding below_def by (auto intro!: exI [of _ "c # ns"])
  qed
qed

lemma child_rank: "tree_inv f ch rk \<Longrightarrow> c \<in> children f d \<Longrightarrow> rk d < rk c"
  by (auto simp: tree_inv_def children_def)

lemma descends_rank:
  assumes inv: "tree_inv f ch rk"
  shows "descends f x ns n \<Longrightarrow> rk x \<le> rk n"
proof (induction ns arbitrary: x)
  case (Cons y ys)
  then have "y \<in> children f x" "rk y \<le> rk n" by auto
  moreover have "rk x < rk y" using child_rank [OF inv] calculation(1) by blast
  ultimately show ?case by simp
qed simp

lemma descends_disjoint:
  assumes inv: "tree_inv f ch rk"
  shows "descends f x ns n \<Longrightarrow> descends f y ms n \<Longrightarrow> x \<in> children f d \<Longrightarrow> y \<in> children f d \<Longrightarrow> x = y"
proof (induction ns arbitrary: ms n rule: rev_induct)
  case Nil
  show ?case
  proof (cases ms rule: rev_exhaust)
    case (snoc zs z)
    then have "descends f y zs d" using Nil by (auto simp: descends_snoc children_def)
    then have "rk y \<le> rk d" by (rule descends_rank [OF inv])
    moreover have "rk d < rk y" using child_rank [OF inv] Nil by blast
    ultimately show ?thesis by simp
  qed (use Nil in auto)
next
  case (snoc z zs)
  then obtain e where e: "n = z" "descends f x zs e" "z \<in> children f e" by (auto simp: descends_snoc)
  show ?case
  proof (cases ms rule: rev_exhaust)
    case Nil
    then have "e = d" using snoc e by (auto simp: children_def)
    then have "rk x \<le> rk d" using e(2) descends_rank [OF inv] by blast
    moreover have "rk d < rk x" using child_rank [OF inv] snoc.prems(3) by blast
    ultimately show ?thesis by simp
  next
    case ms: (snoc us u)
    then obtain e' where e': "n = u" "descends f y us e'" "u \<in> children f e'" using snoc.prems(2) by (auto simp: descends_snoc)
    then have "e' = e" using e by (auto simp: children_def)
    then show ?thesis using snoc.IH [OF e(2)] e'(2) snoc.prems(3,4) by simp
  qed
qed

text \<open>On a well-formed tree the walk ends, and meets every node below exactly once.\<close>

lemma visits_siblings:
  assumes inv: "tree_inv f ch rk"
    and sub: "\<And>x. x \<in> set xs \<Longrightarrow> \<exists>l. visits f (Suc k) (fs_node_first_child f x) l \<and> distinct (map snd l) \<and>
        set l = (\<Union>c\<in>children f x. (\<lambda>(e, n). (Suc k + e, n)) ` below f c)"
    and xs: "siblings f it xs" "set xs \<subseteq> children f d" "distinct xs"
  shows "\<exists>l. visits f k it l \<and> distinct (map snd l) \<and> set l = (\<Union>x\<in>set xs. (\<lambda>(e, n). (k + e, n)) ` below f x)"
  using sub xs
proof (induction xs arbitrary: it)
  case Nil
  then show ?case by (intro exI [of _ "[]"]) simp
next
  case (Cons x xs)
  then have it: "it = x" "x \<noteq> 0" "siblings f (fs_node_next_sibling f x) xs" "x \<in> children f d" by auto
  obtain l2 where l2: "visits f k (fs_node_next_sibling f x) l2" "distinct (map snd l2)"
      "set l2 = (\<Union>x\<in>set xs. (\<lambda>(e, n). (k + e, n)) ` below f x)"
    using Cons.IH [OF Cons.prems(1) it(3)] Cons.prems by auto
  obtain l1 where l1: "visits f (Suc k) (fs_node_first_child f x) l1" "distinct (map snd l1)"
      "set l1 = (\<Union>c\<in>children f x. (\<lambda>(e, n). (Suc k + e, n)) ` below f c)"
    using Cons.prems(1) [of x] by auto
  have top: "(\<lambda>(e, n). (k + e, n)) ` below f x = insert (k, x) (set l1)"
    unfolding l1(3) by (subst below_step) (simp add: image_UN image_image case_prod_unfold)
  have x: "x < RAMDISK_MAX_NODES" using children_less [OF it(4)] .
  have v: "visits f k it ((k, x) # l1 @ l2)"
  proof (cases "fs_is_dir f x")
    case True
    then show ?thesis using visits.sub [OF it(2) True l1(1) l2(1)] it(1) by simp
  next
    case False
    then have "children f x = {}"
      using tree_inv_dir [OF inv x] tree_inv_children [OF inv x] x by (simp add: fs_is_dir_def)
    then have "l1 = []" using l1(3) by simp
    then show ?thesis using visits.leaf [OF it(2) False l2(1)] it(1) by simp
  qed
  have "x \<notin> snd ` set l1"
  proof
    assume "x \<in> snd ` set l1"
    then obtain c ns where "c \<in> children f x" "descends f c ns x" unfolding l1(3) by (auto simp: below_def)
    then show False using child_rank [OF inv] descends_rank [OF inv] by (metis less_le_not_le)
  qed
  moreover have "n \<notin> snd ` set l2" if "n \<in> snd ` insert (k, x) (set l1)" for n
  proof
    assume "n \<in> snd ` set l2"
    then obtain y ms where y: "y \<in> set xs" "descends f y ms n" unfolding l2(3) by (auto simp: below_def)
    moreover have "n \<in> snd ` (\<lambda>(e, n). (k + e, n)) ` below f x" using that by (simp add: top)
    then obtain ns where "descends f x ns n" by (auto simp: below_def)
    ultimately have "x = y" using descends_disjoint [OF inv] it(4) Cons.prems(3) by (meson list.set_intros(2) subsetD)
    then show False using y(1) Cons.prems(4) by simp
  qed
  ultimately have "distinct (map snd ((k, x) # l1 @ l2))" using l1(2) l2(2) by auto
  moreover have "set ((k, x) # l1 @ l2) = (\<Union>x\<in>set (x # xs). (\<lambda>(e, n). (k + e, n)) ` below f x)"
    using top l2(3) by auto
  ultimately show ?case using v by blast
qed

lemma visits_children:
  assumes inv: "tree_inv f ch rk" and d: "d < RAMDISK_MAX_NODES"
  shows "\<exists>l. visits f k (fs_node_first_child f d) l \<and> distinct (map snd l) \<and>
      set l = (\<Union>c\<in>children f d. (\<lambda>(e, n). (k + e, n)) ` below f c)"
  using d
proof (induction "Max (rk ` {..<RAMDISK_MAX_NODES}) - rk d" arbitrary: d k rule: less_induct)
  case less
  note t = tree_inv_dir [OF inv less.prems] and c = tree_inv_children [OF inv less.prems]
  have "\<exists>l. visits f (Suc k) (fs_node_first_child f x) l \<and> distinct (map snd l) \<and>
        set l = (\<Union>c\<in>children f x. (\<lambda>(e, n). (Suc k + e, n)) ` below f c)" if "x \<in> set (ch d)" for x
  proof (rule less.hyps)
    show "x < RAMDISK_MAX_NODES" using children_less that c by blast
    then have "rk x \<le> Max (rk ` {..<RAMDISK_MAX_NODES})" by (intro Max_ge) auto
    then show "Max (rk ` {..<RAMDISK_MAX_NODES}) - rk x < Max (rk ` {..<RAMDISK_MAX_NODES}) - rk d"
      using child_rank [OF inv, of x d] that c by auto
  qed
  from visits_siblings [OF inv this, of "ch d" "fs_node_first_child f d" d] show ?case
    using t c by (auto simp: distinct_map)
qed

section \<open>The disk under the commands\<close>

text \<open>
  The state of the disk that the shell keeps: well formed, and the current directory is a
  directory.  Arguments come from the command line and hold no terminator.
\<close>

definition shell_wf :: "fs \<Rightarrow> bool" where
  "shell_wf f \<longleftrightarrow> fs_wf f \<and> fs_is_dir f (fs_cwd f)"

definition clean :: "bytes option \<Rightarrow> bool" where
  "clean args \<longleftrightarrow> (case args of None \<Rightarrow> True | Some a \<Rightarrow> 0 \<notin> set a)"

lemma parent_live:
  assumes inv: "tree_inv f ch rk" and n: "live f n" "n \<noteq> 0"
  shows "live f (fs_node_parent f n)"
proof -
  let ?p = "fs_node_parent f n"
  have up: "n \<in> set (ch ?p)" and lt: "?p < RAMDISK_MAX_NODES" using inv n by (auto simp: tree_inv_def live_def)
  then show ?thesis using tree_inv_dir [OF inv lt] lt by (auto simp: live_def)
qed

lemma walk_live:
  assumes inv: "tree_inv f ch rk"
  shows "live f cur \<Longrightarrow> walk f cur ts = Some n \<Longrightarrow> live f n"
proof (induction ts arbitrary: cur)
  case (Cons x ts)
  have "live f 0" using inv by (simp add: tree_inv_def live_def)
  moreover have "live f c" if "child_of f cur x = Some c" for c using child_of_Some [OF that] by (simp add: children_def)
  ultimately show ?case using Cons parent_live [OF inv Cons.prems(1)]
    by (auto split: if_splits option.splits)
qed simp

lemma resolve_spec:
  assumes wf: "shell_wf f" and p: "0 \<notin> set p"
  obtains r where "fs_resolve_checked f (Some p) = Some r" "\<And>n. r = Some n \<Longrightarrow> live f n"
proof -
  obtain ch rk where inv: "tree_inv f ch rk" using wf unfolding shell_wf_def by (blast elim: fs_wfE)
  have cwd: "live f (fs_cwd f)" "fs_cwd f < RAMDISK_MAX_NODES"
    using wf by (auto simp: shell_wf_def fs_is_dir_def live_def split: if_splits)
  have root: "live f 0" using inv by (simp add: tree_inv_def live_def)
  show thesis
  proof (cases p)
    case Nil
    then show ?thesis using that [of "Some (fs_cwd f)"] cwd by (simp add: fs_resolve_checked_def)
  next
    case (Cons c cs)
    show ?thesis
    proof (cases "c = chr_slash")
      case True
      then have "fs_resolve_checked f (Some p) = Some (walk f 0 (tokens cs))"
        using Cons p fs_resolve_loop_walk [OF inv MAX_NODES_pos, of cs] by (simp add: fs_resolve_checked_def)
      then show ?thesis using that walk_live [OF inv root] by blast
    next
      case False
      then have "fs_resolve_checked f (Some p) = Some (walk f (fs_cwd f) (tokens p))"
        using Cons p fs_resolve_loop_walk [OF inv cwd(2), of p] by (simp add: fs_resolve_checked_def)
      then show ?thesis using that walk_live [OF inv cwd(1)] by blast
    qed
  qed
qed

lemma new_child_shell:
  assumes wf: "shell_wf f" and nm: "0 \<notin> set nm" and ty: "ty \<noteq> FS_TYPE_FREE"
  obtains b f1 where "fs_new_child ty d (Some nm) f = Some (b, f1)" "shell_wf f1"
    "\<And>m. fs_is_file f m \<Longrightarrow> fs_is_file f1 m \<and> fs_contents f1 m = fs_contents f m \<and> fs_node_parent f1 m = fs_node_parent f m" "fs_data_free f1 = fs_data_free f"
    "\<And>m. fs_is_dir f m \<Longrightarrow> fs_is_dir f1 m" "\<not> b \<Longrightarrow> f1 = f" "fs_cwd f1 = fs_cwd f"
proof -
  obtain b f1 where r: "fs_new_child ty d (Some nm) f = Some (b, f1)" "fs_wf f1"
      "if b then created f ty d (fs_copy_name12_lower nm) (fs_alloc_node f) f1 else f1 = f"
    using fs_new_child_spec [OF _ nm ty, of f d] wf by (auto simp: shell_wf_def)
  have same: "fs_node_type f1 m = fs_node_type f m \<and> fs_contents f1 m = fs_contents f m \<and>
      fs_node_parent f1 m = fs_node_parent f m" if "live f m" for m
  proof (cases b)
    case True
    then have c: "created f ty d (fs_copy_name12_lower nm) (fs_alloc_node f) f1" using r(3) by simp
    then have "m \<noteq> fs_alloc_node f" using that by (auto simp: created_def)
    then show ?thesis using c unfolding created_def by blast
  qed (use r(3) in simp)
  have frame: "fs_is_file f m \<Longrightarrow> fs_is_file f1 m \<and> fs_contents f1 m = fs_contents f m \<and> fs_node_parent f1 m = fs_node_parent f m"
      "fs_is_dir f m \<Longrightarrow> fs_is_dir f1 m" for m
    using same [of m] by (auto simp: live_def fs_is_file_def fs_is_dir_def split: if_splits)
  have cwd: "fs_cwd f1 = fs_cwd f" "fs_data_free f1 = fs_data_free f"
    using r(3) by (cases b; simp add: created_def)+
  have "shell_wf f1" using r(2) wf frame(2) cwd(1) by (simp add: shell_wf_def)
  moreover have "f1 = f" if "\<not> b" using r(3) that by simp
  ultimately show thesis using that [OF r(1) _ frame(1) cwd(2) frame(2) _ cwd(1)] by blast
qed

lemma write_shell:
  assumes wf: "shell_wf f" and len: "length data < 2147400000"
  obtains f1 where "fs_write n (Some data) (int (length data)) f = (write_ok f n data, f1)" "shell_wf f1"
    "write_ok f n data \<Longrightarrow> fs_contents f1 n = data" "\<not> write_ok f n data \<Longrightarrow> f1 = f"
    "\<And>m. fs_is_file f m \<Longrightarrow> m \<noteq> n \<Longrightarrow> fs_contents f1 m = fs_contents f m"
    "fs_node_type f1 = fs_node_type f" "fs_node_parent f1 = fs_node_parent f" "fs_node_name f1 = fs_node_name f"
    "fs_node_first_child f1 = fs_node_first_child f" "fs_node_next_sibling f1 = fs_node_next_sibling f"
    "fs_cwd f1 = fs_cwd f"
proof -
  obtain f1 where w: "fs_write n (Some data) (int (length data)) f = (write_ok f n data, f1)" "fs_wf f1"
      "if write_ok f n data
      then fs_contents f1 n = data \<and> fs_data_free f1 = fs_data_free f + length data \<and>
           (\<forall>m. fs_is_file f m \<and> m \<noteq> n \<longrightarrow> fs_contents f1 m = fs_contents f m)
      else f1 = f"
    using fs_write_spec [OF _ len, of f n] wf unfolding shell_wf_def by metis
  note fr = write_frame [OF w(1)]
  then have "shell_wf f1" using w(2) wf by (simp add: shell_wf_def fs_is_dir_def split: if_splits)
  then show thesis by (rule that [OF w(1)]) (use w(3) fr in \<open>simp_all split: if_splits\<close>)
qed

lemma resolve_frame:
  assumes "fs_node_type f1 = fs_node_type f" "fs_node_parent f1 = fs_node_parent f" "fs_node_name f1 = fs_node_name f"
    "fs_node_first_child f1 = fs_node_first_child f" "fs_node_next_sibling f1 = fs_node_next_sibling f"
    "fs_cwd f1 = fs_cwd f" and wf: "shell_wf f" "shell_wf f1" and p: "0 \<notin> set p"
  shows "fs_resolve_checked f1 (Some p) = fs_resolve_checked f (Some p)"
proof -
  have w: "walk f1 = walk f"
  proof (intro ext)
    fix c ts show "walk f1 c ts = walk f c ts"
      by (induction ts arbitrary: c) (simp_all add: child_of_def assms(1-3) cong: option.case_cong if_cong)
  qed
  obtain ch rk ch' rk' where inv: "tree_inv f ch rk" "tree_inv f1 ch' rk'"
    using wf unfolding shell_wf_def by (metis fs_wfE)
  have cwd: "fs_cwd f < RAMDISK_MAX_NODES" using inv(1) by (simp add: tree_inv_def)
  show ?thesis using p w assms(6) cwd fs_resolve_loop_walk [OF inv(1)] fs_resolve_loop_walk [OF inv(2)]
    by (cases p) (simp_all add: fs_resolve_checked_def)
qed

text \<open>Parts of an argument hold no terminator either.\<close>

lemma set_skip_spaces: "set (skip_spaces s) \<subseteq> set s"
  by (auto simp: skip_spaces_def dest: set_dropWhileD)

lemma set_tl_dropWhile: "set (tl (dropWhile P xs)) \<subseteq> set xs"
  by (induction xs) auto

lemma set_trim_right: "set (trim_right_spaces s) \<subseteq> set s"
  by (auto simp: trim_right_spaces_def dest: set_dropWhileD)

lemma split_two_args_clean:
  "split_two_args args m k = Some (a, b) \<Longrightarrow> clean args \<Longrightarrow> 0 \<notin> set a \<and> 0 \<notin> set b"
  using set_skip_spaces
  by (auto simp: split_two_args_def clean_def Let_def split: option.splits if_splits
      dest!: in_set_takeD in_set_dropD set_takeWhileD)

lemma split_parent_clean:
  assumes "split_parent_and_name path psz nsz = Some (a, b)" and "0 \<notin> set path"
  shows "0 \<notin> set a \<and> 0 \<notin> set b"
proof -
  let ?tmp = "trim_right_spaces (take 255 (skip_spaces path))"
  have tmp: "0 \<notin> set ?tmp" using assms(2) set_trim_right [of "take 255 (skip_spaces path)"] set_skip_spaces [of path]
    by (auto dest: in_set_takeD)
  have "set a \<subseteq> {chr_dot, chr_slash} \<union> set ?tmp \<and> set b \<subseteq> set ?tmp"
    using assms(1) unfolding split_parent_and_name_def Let_def
    by (auto split: if_splits dest: in_set_takeD in_set_dropD)
  then show ?thesis using tmp by auto
qed

text \<open>What creating a file by its path gives.\<close>

lemma create_by_path_spec:
  assumes wf: "shell_wf f" and p: "0 \<notin> set dst"
  obtains r f1 where "create_by_path dst f = Some (r, f1)" "shell_wf f1"
    "\<And>m. fs_is_file f m \<Longrightarrow> fs_is_file f1 m \<and> fs_contents f1 m = fs_contents f m \<and> fs_node_parent f1 m = fs_node_parent f m" "fs_data_free f1 = fs_data_free f"
    "\<And>n. r = Inr n \<Longrightarrow> fs_is_file f1 n \<and> fs_resolve_checked f1 (Some dst) = Some (Some n)" "fs_cwd f1 = fs_cwd f"
proof (cases "split_parent_and_name dst 256 RAMDISK_NAME_LEN")
  case None
  show thesis by (rule that [of "Inl (lit ''cp: invalid destination path'' @ [10])" f])
      (use None wf in \<open>simp_all add: create_by_path_def\<close>)
next
  case (Some q)
  obtain pp nm where q: "q = (pp, nm)" by force
  have cl: "0 \<notin> set pp" "0 \<notin> set nm" using split_parent_clean [OF Some [unfolded q] p] by auto
  obtain rp where rp: "fs_resolve_checked f (Some pp) = Some rp" using resolve_spec [OF wf cl(1)] by metis
  show thesis
  proof (cases "rp = None \<or> \<not> fs_is_dir f (the rp)")
    case True
    show ?thesis by (rule that [of "Inl (lit ''cp: destination parent not found'' @ [10])" f])
        (use Some q rp True wf in \<open>auto simp: create_by_path_def\<close>)
  next
    case False
    obtain ok f1 where c: "fs_create_file (the rp) (Some nm) f = Some (ok, f1)" "shell_wf f1"
        "\<And>m. fs_is_file f m \<Longrightarrow> fs_is_file f1 m \<and> fs_contents f1 m = fs_contents f m \<and> fs_node_parent f1 m = fs_node_parent f m" "fs_data_free f1 = fs_data_free f"
        "fs_cwd f1 = fs_cwd f"
      using new_child_shell [OF wf cl(2), of FS_TYPE_FILE "the rp"] unfolding fs_create_file_def by (metis fs_node_type.distinct(3))
    obtain r1 where r1: "fs_resolve_checked f1 (Some dst) = Some r1" using resolve_spec [OF c(2) p] by metis
    let ?r = "if \<not> ok then Inl (lit ''cp: failed to create destination file'' @ [10])
       else if r1 = None \<or> \<not> fs_is_file f1 (the r1) then Inl (lit ''cp: destination resolution failed'' @ [10]) else Inr (the r1)"
    have run: "create_by_path dst f = Some (?r, f1)"
      using Some q rp False c(1) r1 by (auto simp: create_by_path_def)
    show ?thesis by (rule that [OF run c(2,3,4) _ c(5)]) (use r1 in \<open>auto split: if_splits\<close>)
  qed
qed

lemma resolve_or_create_spec:
  assumes wf: "shell_wf f" and p: "0 \<notin> set dst" "dst \<noteq> []"
  obtains r f1 where "resolve_or_create_file dst f = Some (r, f1)" "shell_wf f1"
    "\<And>m. fs_is_file f m \<Longrightarrow> fs_is_file f1 m \<and> fs_contents f1 m = fs_contents f m \<and> fs_node_parent f1 m = fs_node_parent f m" "fs_data_free f1 = fs_data_free f"
    "\<And>n. r = Some n \<Longrightarrow> fs_is_file f1 n \<and> fs_resolve_checked f1 (Some dst) = Some (Some n)" "fs_cwd f1 = fs_cwd f"
proof -
  obtain q where q: "fs_resolve_checked f (Some dst) = Some q" using resolve_spec [OF wf p(1)] by metis
  show thesis
  proof (cases q)
    case (Some n)
    show ?thesis by (rule that [of "if fs_is_file f n then Some n else None" f])
        (use q Some wf p in \<open>auto simp: resolve_or_create_file_def split: if_splits\<close>)
  next
    case None
    obtain r f1 where c: "create_by_path dst f = Some (r, f1)" "shell_wf f1"
      "\<And>m. fs_is_file f m \<Longrightarrow> fs_is_file f1 m \<and> fs_contents f1 m = fs_contents f m \<and> fs_node_parent f1 m = fs_node_parent f m" "fs_data_free f1 = fs_data_free f"
      "\<And>n. r = Inr n \<Longrightarrow> fs_is_file f1 n \<and> fs_resolve_checked f1 (Some dst) = Some (Some n)" "fs_cwd f1 = fs_cwd f"
      using create_by_path_spec [OF wf p(1)] by blast
    show ?thesis by (rule that [of "case r of Inl msg \<Rightarrow> None | Inr n \<Rightarrow> Some n" f1, OF _ c(2,3,4) _ c(6)])
        (use q None c(1,5) p in \<open>auto simp: resolve_or_create_file_def split: sum.splits\<close>)
  qed
qed

section \<open>The commands return and keep the disk well formed\<close>

definition keeps :: "fs cmd \<Rightarrow> bool" where
  "keeps c \<longleftrightarrow> (\<forall>args f t. shell_wf f \<and> clean args \<longrightarrow> (\<exists>f' t'. c args (f, t) = Some (f', t') \<and> shell_wf f'))"

lemma keeps_I:
  "(\<And>args f t. shell_wf f \<Longrightarrow> clean args \<Longrightarrow> \<exists>f' t'. c args (f, t) = Some (f', t') \<and> shell_wf f') \<Longrightarrow> keeps c"
  by (auto simp: keeps_def)

lemma clean_args: "clean args \<Longrightarrow> \<not> no_args args \<Longrightarrow> \<exists>a. args = Some a \<and> a \<noteq> [] \<and> 0 \<notin> set a"
  by (cases args) (auto simp: clean_def no_args_def)

lemma shell_tree: "shell_wf f \<Longrightarrow> (\<And>ch rk. tree_inv f ch rk \<Longrightarrow> P) \<Longrightarrow> P"
  by (auto simp: shell_wf_def fs_wf_def)

lemma shell_cwd: "shell_wf f \<Longrightarrow> fs_is_dir f (fs_cwd f) \<and> fs_cwd f < RAMDISK_MAX_NODES"
  by (auto simp: shell_wf_def fs_is_dir_def split: if_splits)

lemma cwd_set_shell: "shell_wf f \<Longrightarrow> fs_is_dir f d \<Longrightarrow> shell_wf (fs_cwd_set d f)"
proof -
  assume wf: "shell_wf f" and d: "fs_is_dir f d"
  obtain ch rk where inv: "tree_inv f ch rk" "data_inv f" using wf unfolding shell_wf_def by (blast elim: fs_wfE)
  have lt: "d < RAMDISK_MAX_NODES" using d by (auto simp: fs_is_dir_def split: if_splits)
  have "tree_inv (f\<lparr>fs_cwd := d\<rparr>) ch rk" by (rule tree_inv_frame [OF inv(1)]) (simp_all add: lt)
  moreover have "data_inv (f\<lparr>fs_cwd := d\<rparr>)" using inv(2) by (simp add: data_inv_def extent_def)
  ultimately show ?thesis using d lt by (auto simp: shell_wf_def fs_wf_def fs_cwd_set_def fs_is_dir_def)
qed

lemma root_is_dir: "shell_wf f \<Longrightarrow> fs_is_dir f 0"
  by (erule shell_tree) (simp add: tree_inv_def fs_is_dir_def)

lemma build_path_stores: "0 < k \<Longrightarrow> \<exists>p. fs_build_path f n False k = Some p"
  by (auto simp: fs_build_path_def split: sum.splits)

lemma ls_node_total:
  assumes wf: "shell_wf f" and n: "live f n"
  shows "\<exists>t'. ls_node n (f, t) = Some (f, t')"
proof -
  obtain ch rk where inv: "tree_inv f ch rk" using wf by (rule shell_tree)
  have "n < RAMDISK_MAX_NODES" using n by (simp add: live_def)
  then have "siblings f (fs_node_first_child f n) (ch n)" using tree_inv_dir [OF inv] by blast
  then show ?thesis by (auto simp: ls_node_def say_pair list_start_eq ls_loop_siblings)
qed

lemma args_cases:
  assumes wf: "shell_wf f" and cl: "clean args"
  obtains "no_args args"
  | r where "\<not> no_args args" "fs_resolve_checked f args = Some r" "\<And>n. r = Some n \<Longrightarrow> live f n"
proof (cases "no_args args")
  case False
  then obtain a where a: "args = Some a" "0 \<notin> set a" using clean_args [OF cl] by blast
  obtain r where "fs_resolve_checked f (Some a) = Some r" "\<And>n. r = Some n \<Longrightarrow> live f n"
    using resolve_spec [OF wf a(2)] by metis
  then show thesis using that(2) False a(1) by blast
qed (use that in blast)

lemma keeps_cd: "keeps cmd_cd"
proof (rule keeps_I)
  fix args f and t :: terminal assume wf: "shell_wf f" and cl: "clean args"
  show "\<exists>f' t'. cmd_cd args (f, t) = Some (f', t') \<and> shell_wf f'"
  proof (cases rule: args_cases [OF wf cl])
    case 1
    then show ?thesis using cwd_set_shell [OF wf root_is_dir [OF wf]] by (simp add: cmd_cd_def)
  next
    case (2 r)
    then show ?thesis using wf cwd_set_shell [OF wf] by (cases r) (auto simp: cmd_cd_def say_pair)
  qed
qed

lemma keeps_pwd: "keeps cmd_pwd"
  by (rule keeps_I) (use build_path_stores [of 256] in \<open>auto simp: cmd_pwd_def say_pair\<close>)

lemma keeps_ls: "keeps cmd_ls"
proof (rule keeps_I)
  fix args f and t :: terminal assume wf: "shell_wf f" and cl: "clean args"
  have one: "\<exists>f' t'. ls_node n (f, t) = Some (f', t') \<and> shell_wf f'" if "live f n" for n
    using ls_node_total [OF wf that] wf by blast
  show "\<exists>f' t'. cmd_ls args (f, t) = Some (f', t') \<and> shell_wf f'"
  proof (cases rule: args_cases [OF wf cl])
    case 1
    have "live f (fs_cwd f)" using shell_cwd [OF wf] by (auto simp: live_def fs_is_dir_def)
    then show ?thesis using 1 one by (simp add: cmd_ls_def fs_cwd_get_def)
  next
    case (2 r)
    then show ?thesis using wf one by (cases r) (auto simp: cmd_ls_def say_pair)
  qed
qed

lemma cwd_visits:
  assumes "shell_wf f"
  obtains l where "visits f k (fs_node_first_child f (fs_cwd f)) l" "distinct (map snd l)"
    "set l = (\<Union>c\<in>children f (fs_cwd f). (\<lambda>(e, n). (k + e, n)) ` below f c)"
proof -
  obtain ch rk where inv: "tree_inv f ch rk" using assms by (rule shell_tree)
  show thesis using that visits_children [OF inv, of "fs_cwd f" k] shell_cwd [OF assms] by blast
qed

lemma cmd_tree_run:
  assumes "visits f 1 (fs_node_first_child f (fs_cwd f)) l" and "shell_wf f"
  shows "cmd_tree args (f, t) =
    Some (f, fold (\<lambda>(e, n). fold term_puts (tree_head f e n)) l (term_puts (lit ''./'' @ [10]) t))"
  using assms(1) tree_loop_visits [OF assms(1)] shell_cwd [OF assms(2)]
  by (auto simp: cmd_tree_def tree_recursive_def say_pair list_start_eq fs_cwd_get_def)

lemma cmd_find_run:
  assumes "visits f k (fs_node_first_child f (fs_cwd f)) l" and "shell_wf f"
  shows "cmd_find args (f, t) = Some (f, fold (\<lambda>(e, n). fold term_puts
      (find_hit f (skip_spaces (case args of None \<Rightarrow> [] | Some a \<Rightarrow> a)) n)) l t)"
  using assms(1) find_loop_visits [OF assms(1)] shell_cwd [OF assms(2)]
  by (auto simp: cmd_find_def find_recursive_def list_start_eq fs_cwd_get_def)

lemma keeps_tree: "keeps cmd_tree"
  by (rule keeps_I) (meson cmd_tree_run cwd_visits)

lemma keeps_find: "keeps cmd_find"
  by (rule keeps_I) (meson cmd_find_run cwd_visits)

lemma split_pattern_clean:
  assumes "split_pattern_file args m k = Some (a, b)" and "clean args"
  shows "0 \<notin> set b"
proof -
  obtain s where s: "args = Some s" "0 \<notin> set s"
    using assms by (cases args) (auto simp: split_pattern_file_def no_args_def clean_def)
  have "set b \<subseteq> set s"
    using assms(1) s(1) by (auto simp: split_pattern_file_def Let_def skip_spaces_def split: if_splits
        dest!: in_set_takeD set_dropWhileD in_set_dropD)
  then show ?thesis using s(2) by auto
qed

lemma keeps_grep: "keeps cmd_grep"
proof (rule keeps_I)
  fix args f and t :: terminal assume wf: "shell_wf f" and cl: "clean args"
  show "\<exists>f' t'. cmd_grep args (f, t) = Some (f', t') \<and> shell_wf f'"
  proof (cases "split_pattern_file args 64 256")
    case None
    then show ?thesis using wf by (simp add: cmd_grep_def say_pair)
  next
    case (Some q)
    obtain pat nm where q: "q = (pat, nm)" by force
    then obtain r where "fs_resolve_checked f (Some nm) = Some r"
      using resolve_spec [OF wf] split_pattern_clean [OF Some [unfolded q] cl] by metis
    then show ?thesis using Some q wf by (auto simp: cmd_grep_def Let_def say_pair case_prod_unfold)
  qed
qed

lemma keeps_kat: "keeps cmd_kat" "keeps cmd_cat"
proof -
  have kat: "\<exists>f' t'. kat_run args (f, t) = Some (f', t') \<and> shell_wf f'" if wf: "shell_wf f" and cl: "clean args" for args f t
    by (cases rule: args_cases [OF wf cl])
      (use wf in \<open>auto simp: kat_run_def fs_resolve_def Let_def say_pair case_prod_unfold\<close>)
  then show "keeps cmd_kat" "keeps cmd_cat" unfolding keeps_def cmd_kat_def cmd_cat_def by blast+
qed

lemma keeps_create: "keeps cmd_mkdir" "keeps cmd_touch"
proof -
  have new: "\<exists>b f1. fs_new_child ty d args f = Some (b, f1) \<and> shell_wf f1"
    if "shell_wf f" "clean args" "\<not> no_args args" "ty \<noteq> FS_TYPE_FREE" for ty d args f
    using clean_args [OF that(2,3)] new_child_shell [OF that(1) _ that(4), of _ d] by metis
  show "keeps cmd_mkdir"
  proof (rule keeps_I)
    fix args f and t :: terminal assume "shell_wf f" "clean args"
    then show "\<exists>f' t'. cmd_mkdir args (f, t) = Some (f', t') \<and> shell_wf f'"
      using new [of f args FS_TYPE_DIR "fs_cwd f"]
      by (cases "no_args args") (auto simp: cmd_mkdir_def fs_mkdir_child_def fs_cwd_get_def say_pair)
  qed
  show "keeps cmd_touch"
  proof (rule keeps_I)
    fix args f and t :: terminal assume "shell_wf f" "clean args"
    then show "\<exists>f' t'. cmd_touch args (f, t) = Some (f', t') \<and> shell_wf f'"
      using new [of f args FS_TYPE_FILE "fs_cwd f"]
      by (cases "no_args args") (auto simp: cmd_touch_def fs_create_file_def fs_cwd_get_def say_pair)
  qed
qed

section \<open>Copying\<close>

lemma file_size_bound:
  assumes "shell_wf f" and "fs_is_file f n"
  shows "fs_node_size f n \<le> 8192"
proof -
  have "data_inv f" using assms(1) by (simp add: shell_wf_def fs_wf_def)
  moreover have "n < RAMDISK_MAX_NODES" "fs_node_type f n = FS_TYPE_FILE"
    using assms(2) by (auto simp: fs_is_file_def split: if_splits)
  ultimately have "fs_node_data_off f n + fs_node_size f n \<le> fs_data_free f" "fs_data_free f \<le> RAMDISK_DATA_CAP"
    unfolding data_inv_def by blast+
  then show ?thesis by (simp add: RAMDISK_DATA_CAP_def)
qed

lemma read_all: "shell_wf f \<Longrightarrow> fs_is_file f n \<Longrightarrow>
    fs_read f n False (int RAMDISK_DATA_CAP) = (int (length (fs_contents f n)), fs_contents f n)"
  using file_size_bound [of f n] by (simp add: fs_read_contents RAMDISK_DATA_CAP_def min_def)

lemma copy_data_spec:
  assumes wf: "shell_wf f" and s: "fs_is_file f s"
  shows "\<exists>f1. copy_data s d (f, t) =
      (if write_ok f d (fs_contents f s) then (Some (int (length (fs_contents f s))), f1, t)
       else (None, f, term_puts (lit ''cp: write failed'' @ [10]) t)) \<and>
    shell_wf f1 \<and> (write_ok f d (fs_contents f s) \<longrightarrow> fs_contents f1 d = fs_contents f s) \<and>
    (\<forall>m. fs_is_file f m \<and> m \<noteq> d \<longrightarrow> fs_contents f1 m = fs_contents f m) \<and>
    (\<forall>m. fs_is_file f1 m = fs_is_file f m) \<and> (\<forall>m. fs_node_parent f1 m = fs_node_parent f m) \<and> fs_cwd f1 = fs_cwd f \<and>
    (\<forall>p. 0 \<notin> set p \<longrightarrow> fs_resolve_checked f1 (Some p) = fs_resolve_checked f (Some p))"
proof -
  let ?c = "fs_contents f s"
  have len: "length ?c < 2147400000" using file_size_bound [OF wf s] by simp
  obtain f1 where w: "fs_write d (Some ?c) (int (length ?c)) f = (write_ok f d ?c, f1)" "shell_wf f1"
    "write_ok f d ?c \<Longrightarrow> fs_contents f1 d = ?c" "\<not> write_ok f d ?c \<Longrightarrow> f1 = f"
    "\<And>m. fs_is_file f m \<Longrightarrow> m \<noteq> d \<Longrightarrow> fs_contents f1 m = fs_contents f m"
    "fs_node_type f1 = fs_node_type f" "fs_node_parent f1 = fs_node_parent f" "fs_node_name f1 = fs_node_name f"
    "fs_node_first_child f1 = fs_node_first_child f" "fs_node_next_sibling f1 = fs_node_next_sibling f"
    "fs_cwd f1 = fs_cwd f"
    using write_shell [OF wf len, of d] by blast
  have run: "copy_data s d (f, t) =
      (if write_ok f d ?c then (Some (int (length ?c)), f1, t)
       else (None, f, term_puts (lit ''cp: write failed'' @ [10]) t))"
    using w(1,4) read_all [OF wf s] by (auto simp: copy_data_def Let_def say_pair)
  show ?thesis
    by (rule exI [of _ f1], intro conjI run w(2,11))
      (use w(3,5) in \<open>simp_all add: fs_is_file_def w(6,7) resolve_frame [OF w(6-11) wf w(2)]\<close>)
qed

lemma copy_target_spec:
  assumes wf: "shell_wf f" and p: "0 \<notin> set dst"
  obtains r f1 where "copy_target dst f = Some (r, f1)" "shell_wf f1"
    "\<And>m. fs_is_file f m \<Longrightarrow> fs_is_file f1 m \<and> fs_contents f1 m = fs_contents f m \<and> fs_node_parent f1 m = fs_node_parent f m" "fs_data_free f1 = fs_data_free f"
    "\<And>n. r = Inr n \<Longrightarrow> fs_is_file f1 n \<and> fs_resolve_checked f1 (Some dst) = Some (Some n)" "fs_cwd f1 = fs_cwd f"
proof -
  obtain q where q: "fs_resolve_checked f (Some dst) = Some q" using resolve_spec [OF wf p(1)] by metis
  show thesis
  proof (cases q)
    case (Some n)
    show ?thesis
      by (rule that [of "if fs_is_file f n then Inr n else Inl (lit ''cp: destination must be a file path'' @ [10])" f])
        (use q Some wf in \<open>auto simp: copy_target_def split: if_splits\<close>)
  next
    case None
    then have "copy_target dst f = create_by_path dst f" using q by (simp add: copy_target_def)
    then show ?thesis using create_by_path_spec [OF wf p] that by metis
  qed
qed

text \<open>The outcome of a copy: on success the destination holds the source; else no file changed.\<close>

definition copied :: "fs \<Rightarrow> bytes \<Rightarrow> bytes \<Rightarrow> int option \<Rightarrow> fs \<Rightarrow> bool" where
  "copied f src dst r f' \<longleftrightarrow>
     (case r of
        None \<Rightarrow> (\<forall>m. fs_is_file f m \<longrightarrow> fs_is_file f' m \<and> fs_contents f' m = fs_contents f m \<and>
          fs_node_parent f' m = fs_node_parent f m)
      | Some k \<Rightarrow> \<exists>s d. fs_resolve_checked f (Some src) = Some (Some s) \<and> fs_is_file f s \<and>
          fs_resolve_checked f' (Some dst) = Some (Some d) \<and> fs_is_file f' d \<and>
          fs_contents f' d = fs_contents f s \<and> k = int (length (fs_contents f s)) \<and>
          (\<forall>m. fs_is_file f m \<longrightarrow> fs_is_file f' m \<and> fs_node_parent f' m = fs_node_parent f m \<and>
             (m \<noteq> d \<longrightarrow> fs_contents f' m = fs_contents f m)))"

lemma copy_file_path_spec:
  assumes wf: "shell_wf f" and p: "0 \<notin> set src" "0 \<notin> set dst"
  obtains r f' t' where "cmd_copy_file_path src dst (f, t) = Some (r, f', t')" "shell_wf f'" "copied f src dst r f'"
    "r \<noteq> None \<Longrightarrow> t' = t" "fs_cwd f' = fs_cwd f"
proof -
  obtain q where q: "fs_resolve_checked f (Some src) = Some q" using resolve_spec [OF wf p(1)] by metis
  show thesis
  proof (cases "q = None \<or> \<not> fs_is_file f (the q)")
    case True
    show ?thesis by (rule that [of None f "term_puts (lit ''cp: source not found or not a file'' @ [10]) t"])
        (use q True wf in \<open>auto simp: cmd_copy_file_path_def say_pair copied_def\<close>)
  next
    case False
    then obtain s where s: "q = Some s" "fs_is_file f s" by auto
    obtain r1 f1 where c: "copy_target dst f = Some (r1, f1)" "shell_wf f1"
      "\<And>m. fs_is_file f m \<Longrightarrow> fs_is_file f1 m \<and> fs_contents f1 m = fs_contents f m \<and> fs_node_parent f1 m = fs_node_parent f m"
      "\<And>n. r1 = Inr n \<Longrightarrow> fs_is_file f1 n \<and> fs_resolve_checked f1 (Some dst) = Some (Some n)" "fs_cwd f1 = fs_cwd f"
      using copy_target_spec [OF wf p(2)] by metis
    show ?thesis
    proof (cases r1)
      case (Inl msg)
      show ?thesis by (rule that [of None f1 "term_puts msg t"])
          (use q s c Inl in \<open>auto simp: cmd_copy_file_path_def say_pair copied_def\<close>)
    next
      case (Inr d)
      have s1: "fs_is_file f1 s" "fs_contents f1 s = fs_contents f s" using c(3) [OF s(2)] by auto
      note d = c(4) [OF Inr]
      obtain f2 where w: "copy_data s d (f1, t) =
          (if write_ok f1 d (fs_contents f s) then (Some (int (length (fs_contents f s))), f2, t)
           else (None, f1, term_puts (lit ''cp: write failed'' @ [10]) t))"
        "shell_wf f2" "write_ok f1 d (fs_contents f s) \<longrightarrow> fs_contents f2 d = fs_contents f s"
        "\<forall>m. fs_is_file f1 m \<and> m \<noteq> d \<longrightarrow> fs_contents f2 m = fs_contents f1 m"
        "\<forall>m. fs_is_file f2 m = fs_is_file f1 m" "fs_cwd f2 = fs_cwd f1" "\<forall>m. fs_node_parent f2 m = fs_node_parent f1 m"
        "\<forall>p. 0 \<notin> set p \<longrightarrow> fs_resolve_checked f2 (Some p) = fs_resolve_checked f1 (Some p)"
        using copy_data_spec [OF c(2) s1(1), of d t] unfolding s1(2) by (elim exE conjE)
      have run: "cmd_copy_file_path src dst (f, t) = Some (copy_data s d (f1, t))"
        using q s c(1) Inr by (simp add: cmd_copy_file_path_def)
      show ?thesis
      proof (cases "write_ok f1 d (fs_contents f s)")
        case True
        have "copied f src dst (Some (int (length (fs_contents f s)))) f2"
          unfolding copied_def option.case
          by (rule exI [of _ s], rule exI [of _ d]) (use q s d w(3) True w(4,5,7,8) p(2) c(3) in simp)
        then show ?thesis using that [of "Some (int (length (fs_contents f s)))" f2 t] run w(1,2,6) True c(5) by simp
      next
        case False
        then show ?thesis using that [of None f1] run w(1) c(2,3,5) by (simp add: copied_def)
      qed
    qed
  qed
qed

lemma keeps_cp: "keeps cmd_cp"
proof (rule keeps_I)
  fix args f and t :: terminal assume wf: "shell_wf f" and cl: "clean args"
  show "\<exists>f' t'. cmd_cp args (f, t) = Some (f', t') \<and> shell_wf f'"
  proof (cases "split_two_args args 256 256")
    case (Some q)
    obtain a b where q: "q = (a, b)" by force
    have p: "0 \<notin> set a" "0 \<notin> set b" using split_two_args_clean [OF Some [unfolded q] cl] by auto
    obtain r f' t' where "cmd_copy_file_path a b (f, t) = Some (r, f', t')" "shell_wf f'"
      using copy_file_path_spec [OF wf p, of t] by metis
    then show ?thesis using Some q by (cases r) (auto simp: cmd_cp_def say_pair)
  qed (use wf in \<open>simp add: cmd_cp_def say_pair\<close>)
qed

section \<open>Removing\<close>

definition deletable :: "fs \<Rightarrow> nat \<Rightarrow> bool" where
  "deletable f n \<longleftrightarrow> live f n \<and> n \<noteq> 0 \<and> (fs_node_type f n = FS_TYPE_DIR \<longrightarrow> children f n = {})"

text \<open>
  The outcome of deleting \<open>n\<close>: every other node keeps its type, name and contents; and the
  disk stays well formed if \<open>n\<close> was not in the root directory.
\<close>

definition deleted :: "fs \<Rightarrow> nat \<Rightarrow> fs \<Rightarrow> bool" where
  "deleted f n f' \<longleftrightarrow> \<not> live f' n \<and> fs_cwd f' = fs_cwd f \<and>
     (\<forall>m. m \<noteq> n \<longrightarrow> fs_node_type f' m = fs_node_type f m \<and> fs_node_name f' m = fs_node_name f m \<and>
        fs_contents f' m = fs_contents f m) \<and>
     (fs_node_parent f n \<noteq> 0 \<longrightarrow> shell_wf f' \<and> (\<forall>d. children f' d = children f d - {n}))"

lemma unlink_cwd: "fs_unlink n f = Some f1 \<Longrightarrow> fs_cwd f1 = fs_cwd f"
  by (auto simp: fs_unlink_def Let_def split: if_splits)

lemma delete_cwd: "fs_delete n f = Some (b, f1) \<Longrightarrow> fs_cwd f1 = fs_cwd f"
  by (auto simp: fs_delete_def unlink_cwd split: if_splits)

lemma delete_shell:
  assumes wf: "shell_wf f" and n: "n \<noteq> fs_cwd f"
  shows "\<exists>f1. fs_delete n f = Some (deletable f n, f1) \<and> (if deletable f n then deleted f n f1 else f1 = f)"
proof (cases "deletable f n \<and> fs_node_parent f n = 0")
  case True
  have e: "fs_node_type f n = FS_TYPE_DIR \<longrightarrow> fs_node_first_child f n = 0"
  proof
    assume d: "fs_node_type f n = FS_TYPE_DIR"
    obtain ch rk where inv: "tree_inv f ch rk" using wf by (rule shell_tree)
    have "n < RAMDISK_MAX_NODES" using True by (simp add: deletable_def live_def)
    then show "fs_node_first_child f n = 0"
      using True d tree_inv_dir [OF inv, of n] tree_inv_children [OF inv, of n] by (auto simp: deletable_def)
  qed
  let ?f = "f\<lparr>fs_node_type := (fs_node_type f)(n := FS_TYPE_FREE)\<rparr>"
  have "fs_delete n f = Some (True, ?f)"
    using True e by (auto simp: fs_delete_def fs_unlink_def deletable_def live_def)
  moreover have "deleted f n ?f" using True by (simp add: deleted_def live_def fs_contents_def)
  ultimately show ?thesis using True by auto
next
  case False
  have fw: "fs_wf f" using wf by (simp add: shell_wf_def)
  show ?thesis
  proof (cases "deletable f n")
    case True
    then have "live f n \<and> n \<noteq> 0 \<and> (fs_node_type f n = FS_TYPE_DIR \<longrightarrow> children f n = {}) \<and> fs_node_parent f n \<noteq> 0"
      using False by (simp add: deletable_def)
    then obtain f1 where d: "fs_delete n f = Some (True, f1)" "fs_wf f1" "\<not> live f1 n"
        "\<forall>d. children f1 d = children f d - {n}"
        "\<forall>m. m \<noteq> n \<longrightarrow> fs_node_type f1 m = fs_node_type f m \<and> fs_node_name f1 m = fs_node_name f m \<and>
            fs_contents f1 m = fs_contents f m"
      using fs_delete_spec [OF fw, of n] by blast
    have "fs_is_dir f1 (fs_cwd f1)" using shell_cwd [OF wf] d(5) n delete_cwd [OF d(1)] by (simp add: fs_is_dir_def)
    then have "deleted f n f1" using d delete_cwd [OF d(1)] by (simp add: deleted_def shell_wf_def)
    then show ?thesis using d(1) True by auto
  next
    case no: False
    then have "fs_delete n f = Some (False, f)" using fs_delete_spec [OF fw, of n] unfolding deletable_def by blast
    then show ?thesis using no by simp
  qed
qed

lemma resolved_dir_empty:
  assumes "shell_wf f" and "fs_is_dir f n"
  shows "(case list_start f n of None \<Rightarrow> False | Some it \<Rightarrow> fs_list_next f it \<noteq> None) \<longleftrightarrow> children f n \<noteq> {}"
proof -
  obtain ch rk where inv: "tree_inv f ch rk" using assms(1) by (rule shell_tree)
  have n: "n < RAMDISK_MAX_NODES" using assms(2) by (auto simp: fs_is_dir_def split: if_splits)
  show ?thesis using tree_inv_dir [OF inv n] tree_inv_children [OF inv n] assms(2)
    by (cases "ch n") (auto simp: list_start_eq fs_list_next_def)
qed

text \<open>When \<open>rm\<close> and \<open>rmdir\<close> remove the node that their argument names.\<close>

definition rm_ok :: "fs \<Rightarrow> nat \<Rightarrow> bool" where
  "rm_ok f n \<longleftrightarrow> n \<noteq> fs_cwd f \<and> deletable f n"

lemma cmd_rm_run:
  assumes wf: "shell_wf f" and a: "args = Some a" "a \<noteq> []" and r: "fs_resolve_checked f args = Some (Some n)"
  shows "\<exists>f' m. cmd_rm args (f, t) = Some (f', term_puts m t) \<and>
    (if rm_ok f n then m = lit ''OK'' @ [10] \<and> deleted f n f' else f' = f)"
proof (cases "n = 0 \<or> n = fs_cwd f")
  case True
  then show ?thesis using a r by (auto simp: cmd_rm_def no_args_def rm_ok_def deletable_def say_pair fs_cwd_get_def Let_def)
next
  case False
  then obtain f1 where "fs_delete n f = Some (deletable f n, f1)" "if deletable f n then deleted f n f1 else f1 = f"
    using delete_shell [OF wf, of n] by blast
  then show ?thesis using a r False by (auto simp: cmd_rm_def no_args_def rm_ok_def say_pair fs_cwd_get_def Let_def)
qed

lemma cmd_rmdir_run:
  assumes wf: "shell_wf f" and a: "args = Some a" "a \<noteq> []" and r: "fs_resolve_checked f args = Some (Some n)"
  shows "\<exists>f' m. cmd_rmdir args (f, t) = Some (f', term_puts m t) \<and>
    (if rm_ok f n \<and> fs_is_dir f n then m = lit ''OK'' @ [10] \<and> deleted f n f' else f' = f)"
proof (cases "n = 0 \<or> n = fs_cwd f \<or> \<not> fs_is_dir f n \<or> children f n \<noteq> {}")
  case True
  then show ?thesis using a r resolved_dir_empty [OF wf, of n]
    by (auto simp: cmd_rmdir_def no_args_def rm_ok_def deletable_def say_pair fs_cwd_get_def Let_def fs_is_dir_def
        split: if_splits)
next
  case False
  then obtain f1 where "fs_delete n f = Some (deletable f n, f1)" "if deletable f n then deleted f n f1 else f1 = f"
    using delete_shell [OF wf, of n] by blast
  then show ?thesis using a r False resolved_dir_empty [OF wf, of n]
    by (auto simp: cmd_rmdir_def no_args_def rm_ok_def say_pair fs_cwd_get_def Let_def)
qed

lemma file_deletable: "shell_wf f \<Longrightarrow> fs_is_file f n \<Longrightarrow> deletable f n \<and> n \<noteq> fs_cwd f"
  using root_is_dir [of f] shell_cwd [of f]
  by (cases "n = 0") (auto simp: deletable_def live_def fs_is_file_def fs_is_dir_def split: if_splits)

lemma cmd_mv_run:
  assumes wf: "shell_wf f" and sp: "split_two_args args 256 256 = Some (src, dst)"
    and r: "fs_resolve_checked f (Some src) = Some (Some s)" "fs_is_file f s"
    and q: "fs_resolve_checked f (Some dst) = Some q" "q \<noteq> Some s"
    and c: "cmd_copy_file_path src dst (f, t) = Some (k, f1, t1)" "shell_wf f1" "copied f src dst k f1"
  shows "if k = None then cmd_mv args (f, t) = Some (f1, t1)
    else \<exists>f2. cmd_mv args (f, t) = Some (f2, term_puts (lit ''OK'' @ [10]) t1) \<and> deleted f1 s f2"
proof (cases k)
  case None
  then show ?thesis using sp r q c by (simp add: cmd_mv_def)
next
  case (Some b)
  then have "fs_is_file f1 s" using c(3) r by (fastforce simp: copied_def)
  then have d: "deletable f1 s" "s \<noteq> fs_cwd f1" using file_deletable [OF c(2)] by auto
  obtain f2 where "fs_delete s f1 = Some (True, f2)" "deleted f1 s f2" using delete_shell [OF c(2) d(2)] d(1) by auto
  then show ?thesis using Some sp r q c by (auto simp: cmd_mv_def say_pair)
qed

lemma rm_keeps:
  assumes wf: "shell_wf f" and cl: "clean args"
    and safe: "\<forall>n. fs_resolve_checked f args = Some (Some n) \<longrightarrow> fs_node_parent f n \<noteq> 0"
  shows "\<exists>f' t'. cmd_rm args (f, t) = Some (f', t') \<and> shell_wf f'"
proof (cases rule: args_cases [OF wf cl])
  case (2 r)
  obtain a where a: "args = Some a" "a \<noteq> []" using 2(1) by (cases args) (auto simp: no_args_def)
  show ?thesis
  proof (cases r)
    case (Some n)
    then show ?thesis using cmd_rm_run [OF wf a, of n t] 2(2) safe wf by (auto simp: deleted_def split: if_splits)
  qed (use 2 wf in \<open>simp add: cmd_rm_def say_pair\<close>)
qed (use wf in \<open>simp add: cmd_rm_def say_pair\<close>)

lemma rmdir_keeps:
  assumes wf: "shell_wf f" and cl: "clean args"
    and safe: "\<forall>n. fs_resolve_checked f args = Some (Some n) \<longrightarrow> fs_node_parent f n \<noteq> 0"
  shows "\<exists>f' t'. cmd_rmdir args (f, t) = Some (f', t') \<and> shell_wf f'"
proof (cases rule: args_cases [OF wf cl])
  case (2 r)
  obtain a where a: "args = Some a" "a \<noteq> []" using 2(1) by (cases args) (auto simp: no_args_def)
  show ?thesis
  proof (cases r)
    case (Some n)
    then show ?thesis using cmd_rmdir_run [OF wf a, of n t] 2(2) safe wf by (auto simp: deleted_def split: if_splits)
  qed (use 2 wf in \<open>simp add: cmd_rmdir_def say_pair\<close>)
qed (use wf in \<open>simp add: cmd_rmdir_def say_pair\<close>)

lemma mv_keeps:
  assumes wf: "shell_wf f" and cl: "clean args"
    and safe: "\<forall>src dst n. split_two_args args 256 256 = Some (src, dst) \<and> fs_resolve_checked f (Some src) = Some (Some n) \<longrightarrow>
         fs_node_parent f n \<noteq> 0"
  shows "\<exists>f' t'. cmd_mv args (f, t) = Some (f', t') \<and> shell_wf f'"
proof (cases "split_two_args args 256 256")
  case (Some q)
  obtain src dst where q: "q = (src, dst)" by force
  have p: "0 \<notin> set src" "0 \<notin> set dst" using split_two_args_clean [OF Some [unfolded q] cl] by auto
  obtain r where r: "fs_resolve_checked f (Some src) = Some r" using resolve_spec [OF wf p(1)] by metis
  obtain d where d: "fs_resolve_checked f (Some dst) = Some d" using resolve_spec [OF wf p(2)] by metis
  obtain k f1 t1 where c: "cmd_copy_file_path src dst (f, t) = Some (k, f1, t1)" "shell_wf f1" "copied f src dst k f1"
    using copy_file_path_spec [OF wf p, of t] by metis
  show ?thesis
  proof (cases "\<exists>s. r = Some s \<and> fs_is_file f s \<and> d \<noteq> Some s")
    case True
    then obtain s where s: "r = Some s" "fs_is_file f s" "d \<noteq> Some s" by blast
    have "fs_node_parent f1 s = fs_node_parent f s" using c(3) s(2) by (cases k) (auto simp: copied_def)
    then have "fs_node_parent f1 s \<noteq> 0" using safe Some q r s(1) by auto
    then show ?thesis
      using cmd_mv_run [OF wf Some [unfolded q] r [unfolded s(1)] s(2) d s(3) c(1-3)] c(2)
      by (auto simp: deleted_def split: if_splits)
  qed (use Some q r d wf in \<open>auto simp: cmd_mv_def say_pair\<close>)
qed (use wf in \<open>simp add: cmd_mv_def say_pair\<close>)

section \<open>Redirected output\<close>

lemma echo_parts:
  assumes "62 \<notin> set body" and "\<not> (\<exists>b. body = b @ [chr_sp])" and "p \<noteq> []" and "hd p \<noteq> chr_sp"
    and "length body + length p + 3 \<le> 255"
  defines "work \<equiv> take 255 (body @ [chr_sp, 62, chr_sp] @ p)"
  shows "62 \<in> set work" "trim_right_spaces (takeWhile (\<lambda>c. c \<noteq> 62) work) = body"
    "skip_spaces (tl (dropWhile (\<lambda>c. c \<noteq> 62) work)) = p"
proof -
  have w: "work = body @ chr_sp # 62 # chr_sp # p" using assms(5) by (simp add: work_def)
  have ne: "\<And>c. c \<in> set body \<Longrightarrow> c \<noteq> 62" using assms(1) by auto
  have tr: "dropWhile (\<lambda>c. c = chr_sp) (rev body) = rev body"
    using assms(2) by (cases body rule: rev_exhaust) auto
  show "62 \<in> set work" by (simp add: w)
  have "takeWhile (\<lambda>c. c \<noteq> 62) work = body @ [chr_sp]" using ne by (simp add: w takeWhile_append)
  then show "trim_right_spaces (takeWhile (\<lambda>c. c \<noteq> 62) work) = body" using tr by (simp add: trim_right_spaces_def)
  have "dropWhile (\<lambda>c. c \<noteq> 62) work = 62 # chr_sp # p" using ne by (simp add: w dropWhile_append)
  then show "skip_spaces (tl (dropWhile (\<lambda>c. c \<noteq> 62) work)) = p"
    using assms(3,4) by (cases p) (simp_all add: skip_spaces_def)
qed

text \<open>A redirection that finds or creates its file leaves the text there, or reports that the pool is full.\<close>

lemma echo_redirect:
  assumes wf: "shell_wf f" and na: "args = Some a" "a \<noteq> []" "0 \<notin> set a"
    and w: "62 \<in> set (take 255 a)"
    and body: "trim_right_spaces (takeWhile (\<lambda>c. c \<noteq> 62) (take 255 a)) = body"
    and redir: "skip_spaces (tl (dropWhile (\<lambda>c. c \<noteq> 62) (take 255 a))) = p" and p: "p \<noteq> []"
  shows "\<exists>r f1 f2 m. resolve_or_create_file p f = Some (r, f1) \<and> shell_wf f1 \<and> fs_data_free f1 = fs_data_free f \<and>
    cmd_echo args (f, t) = Some (f2, fold term_puts m t) \<and> shell_wf f2 \<and>
    (case r of None \<Rightarrow> f2 = f1 \<and> m = [lit ''echo: invalid redirect target'' @ [10]]
     | Some n \<Rightarrow> fs_is_file f1 n \<and>
         (if write_ok f1 n body then m = [] \<and> fs_is_file f2 n \<and> fs_contents f2 n = body \<and>
            fs_resolve_checked f2 (Some p) = Some (Some n)
          else f2 = f1 \<and> m = [lit ''echo: write failed'' @ [10]])) \<and>
    (\<forall>x. fs_is_file f x \<and> r \<noteq> Some x \<longrightarrow> fs_is_file f2 x \<and> fs_contents f2 x = fs_contents f x)"
proof -
  have "set p \<subseteq> set (take 255 a)"
    using redir set_skip_spaces [of "tl (dropWhile (\<lambda>c. c \<noteq> 62) (take 255 a))"]
      set_tl_dropWhile [of "\<lambda>c. c \<noteq> 62" "take 255 a"] by blast
  then have p0: "0 \<notin> set p" using na(3) by (auto dest: in_set_takeD)
  obtain r f1 where c: "resolve_or_create_file p f = Some (r, f1)" "shell_wf f1"
    "\<And>m. fs_is_file f m \<Longrightarrow> fs_is_file f1 m \<and> fs_contents f1 m = fs_contents f m \<and> fs_node_parent f1 m = fs_node_parent f m" "fs_data_free f1 = fs_data_free f"
    "\<And>n. r = Some n \<Longrightarrow> fs_is_file f1 n \<and> fs_resolve_checked f1 (Some p) = Some (Some n)" "fs_cwd f1 = fs_cwd f"
    using resolve_or_create_spec [OF wf p0 p] by blast
  show ?thesis
  proof (cases r)
    case None
    have run: "cmd_echo args (f, t) = Some (f1, fold term_puts [lit ''echo: invalid redirect target'' @ [10]] t)"
      using c(1) None na w body redir p by (auto simp: cmd_echo_def no_args_def Let_def say_pair)
    show ?thesis by (intro exI conjI, rule c(1), rule c(2), rule c(4), rule run, rule c(2)) (use None c(3) in auto)
  next
    case (Some n)
    have "length body \<le> 255"
    proof -
      have "length body \<le> length (takeWhile (\<lambda>c. c \<noteq> 62) (take 255 a))"
        unfolding body [symmetric] trim_right_spaces_def using length_dropWhile_le [of _ "rev (takeWhile (\<lambda>c. c \<noteq> 62) (take 255 a))"] by simp
      also have "\<dots> \<le> length (take 255 a)" by (rule length_takeWhile_le)
      finally show ?thesis by simp
    qed
    then have len: "length body < 2147400000" by simp
    obtain f2 where g: "fs_write n (Some body) (int (length body)) f1 = (write_ok f1 n body, f2)" "shell_wf f2"
      "write_ok f1 n body \<Longrightarrow> fs_contents f2 n = body" "\<not> write_ok f1 n body \<Longrightarrow> f2 = f1"
      "\<And>m. fs_is_file f1 m \<Longrightarrow> m \<noteq> n \<Longrightarrow> fs_contents f2 m = fs_contents f1 m"
      "fs_node_type f2 = fs_node_type f1" "fs_node_parent f2 = fs_node_parent f1" "fs_node_name f2 = fs_node_name f1"
      "fs_node_first_child f2 = fs_node_first_child f1" "fs_node_next_sibling f2 = fs_node_next_sibling f1"
      "fs_cwd f2 = fs_cwd f1"
      using write_shell [OF c(2) len, of n] by blast
    have run: "cmd_echo args (f, t) = Some (f2, fold term_puts
        (if write_ok f1 n body then [] else [lit ''echo: write failed'' @ [10]]) t)"
      using c(1) Some na w body redir p g(1) by (auto simp: cmd_echo_def no_args_def Let_def say_pair)
    have res: "fs_resolve_checked f2 (Some p) = Some (Some n)"
      using resolve_frame [OF g(6-11) c(2) g(2) p0] c(5) [OF Some] by simp
    have fl: "fs_is_file f2 x = fs_is_file f1 x" for x by (simp add: fs_is_file_def g(6))
    show ?thesis
      by (intro exI conjI, rule c(1), rule c(2), rule c(4), rule run, rule g(2))
        (use Some g(3-5) res fl c(3) c(5) [OF Some] in auto)
  qed
qed

lemma keeps_echo: "keeps cmd_echo"
proof (rule keeps_I)
  fix args f and t :: terminal assume wf: "shell_wf f" and cl: "clean args"
  show "\<exists>f' t'. cmd_echo args (f, t) = Some (f', t') \<and> shell_wf f'"
  proof (cases "no_args args")
    case False
    then obtain a where a: "args = Some a" "a \<noteq> []" "0 \<notin> set a" using clean_args [OF cl] by blast
    show ?thesis
    proof (cases "62 \<in> set (take 255 a) \<and> skip_spaces (tl (dropWhile (\<lambda>c. c \<noteq> 62) (take 255 a))) \<noteq> []")
      case True
      then show ?thesis using echo_redirect [OF wf a _ refl refl, of t] by metis
    next
      case no: False
      then show ?thesis using a wf by (auto simp: cmd_echo_def no_args_def Let_def say_pair)
    qed
  qed (use wf in \<open>simp add: cmd_echo_def say_pair\<close>)
qed

section \<open>Searching text\<close>

lemma match_at_prefix: "match_at h n \<longleftrightarrow> (\<exists>ys. map ascii_lower h = map ascii_lower n @ ys)"
  by (induction h n rule: match_at.induct) auto

lemma match_from_sublist:
  "n \<noteq> [] \<Longrightarrow> match_from h n \<longleftrightarrow> (\<exists>xs ys. map ascii_lower h = xs @ map ascii_lower n @ ys)"
proof (induction h)
  case (Cons c h)
  have "(\<exists>xs ys. map ascii_lower (c # h) = xs @ map ascii_lower n @ ys) \<longleftrightarrow>
      (\<exists>ys. map ascii_lower (c # h) = map ascii_lower n @ ys) \<or> (\<exists>xs ys. map ascii_lower h = xs @ map ascii_lower n @ ys)"
    (is "?l \<longleftrightarrow> ?r")
  proof
    assume ?l
    then obtain xs ys where "map ascii_lower (c # h) = xs @ map ascii_lower n @ ys" by blast
    then show ?r by (cases xs) auto
  next
    assume ?r
    then show ?l by (metis append_Cons append_Nil list.simps(9))
  qed
  then show ?case using Cons.IH [OF Cons.prems] by (simp only: match_from.simps match_at_prefix)
qed simp

text \<open>The text occurs, up to the case of letters.\<close>

definition occurs :: "bytes \<Rightarrow> bytes \<Rightarrow> bool" where
  "occurs n h \<longleftrightarrow> (\<exists>xs ys. map ascii_lower h = xs @ map ascii_lower n @ ys)"

lemma contains_occurs: "contains_nocase h n \<longleftrightarrow> occurs n h"
  by (cases "n = []") (auto simp: contains_nocase_def occurs_def match_from_sublist)

fun lines_of :: "bytes \<Rightarrow> bytes list" where
  "lines_of [] = [[]]"
| "lines_of (c # cs) = (if c = 10 then [] # lines_of cs else (c # hd (lines_of cs)) # tl (lines_of cs))"

lemma lines_of_nonempty [simp]: "lines_of cs \<noteq> []"
  by (induction cs) auto

text \<open>What \<open>grep\<close> prints: number and text of every line in which the pattern occurs.\<close>

definition grep_hits :: "bytes \<Rightarrow> nat \<Rightarrow> bytes list \<Rightarrow> bytes list" where
  "grep_hits pattern k ls = concat (map (\<lambda>(i, l). if occurs pattern l
     then [itoa_text (word_of_nat i), lit '': '', l, [10]] else []) (enumerate k ls))"

lemma grep_hits_simps:
  "grep_hits pattern k [] = []"
  "grep_hits pattern k (l # ls) = (if occurs pattern l then [itoa_text (word_of_nat k), lit '': '', l, [10]] else []) @
     grep_hits pattern (Suc k) ls"
  by (simp_all add: grep_hits_def)

lemma grep_loop_lines:
  assumes "0 \<notin> set cs"
  shows "snd (grep_loop pattern (cs @ [0]) line (word_of_nat k)) =
      grep_hits pattern k ((line @ hd (lines_of cs)) # tl (lines_of cs))"
    and "fst (grep_loop pattern (cs @ [0]) line (word_of_nat k)) =
      length (filter (occurs pattern) ((line @ hd (lines_of cs)) # tl (lines_of cs)))"
  using assms
proof (induction cs arbitrary: line k)
  case Nil
  {
    case 1
    show ?case by (simp add: grep_hits_simps contains_occurs)
  next
    case 2
    show ?case by (simp add: contains_occurs)
  }
next
  case (Cons c cs)
  obtain l r where ls: "lines_of cs = l # r" using lines_of_nonempty [of cs] by (cases "lines_of cs") auto
  have s: "word_of_nat (Suc k) = (word_of_nat k + 1 :: u32)" for k by simp
  {
    case (1 line k)
    then show ?case using Cons.IH(1) [of "line @ [c]" k] Cons.IH(1) [of "[]" "Suc k"] ls unfolding s
      by (cases "c = 10") (auto simp: grep_hits_simps contains_occurs case_prod_unfold Let_def)
  next
    case (2 line k)
    then show ?case using Cons.IH(2) [of "line @ [c]" k] Cons.IH(2) [of "[]" "Suc k"] ls unfolding s
      by (cases "c = 10") (auto simp: contains_occurs case_prod_unfold Let_def)
  }
qed

lemma grep_hits_empty: "grep_hits pattern k ls = [] \<longleftrightarrow> filter (occurs pattern) ls = []"
  by (induction ls arbitrary: k) (auto simp: grep_hits_simps)

lemma cleared_shell: "shell_wf fs_cleared"
  using fs_cleared_wf by (simp add: shell_wf_def fs_is_dir_def fs_cleared_def RAMDISK_MAX_NODES_def)

section \<open>Properties\<close>

text \<open>A disk with the file \<open>a\<close> in the directory \<open>d\<close>, which is the current directory.\<close>

definition disk_da :: fs where
  "disk_da = fs_cwd_set 1 (fs_link_node FS_TYPE_FILE 2 1 [97] (fs_link_node FS_TYPE_DIR 1 0 [100] fs_cleared))"

lemma disk_da_names: "fs_copy_name12_lower [97] = [97]" "fs_copy_name12_lower [100] = [100]"
  by (simp_all add: fs_copy_name12_lower_def to_lower_c_def const_defs)

lemma disk_da_shell: "shell_wf disk_da"
proof -
  have c: "0 \<notin> set [100 :: u8]" "0 \<notin> set [97 :: u8]" by simp_all
  let ?f1 = "fs_link_node FS_TYPE_DIR 1 0 [100] fs_cleared" and ?f2 = "fs_link_node FS_TYPE_FILE 2 1 [97] (fs_link_node FS_TYPE_DIR 1 0 [100] fs_cleared)"
  have r1: "fs_new_child FS_TYPE_DIR 0 (Some [100]) fs_cleared = Some (True, ?f1)"
    by (simp add: fs_new_child_def disk_da_names fs_cleared_def fs_is_dir_def fs_find_child_def
        fs_find_loop.simps fs_alloc_node_def upt_rec const_defs)
  have f1: "shell_wf ?f1"
    by (rule new_child_shell [OF cleared_shell c(1), of FS_TYPE_DIR 0]) (use r1 in auto)
  have r2: "fs_new_child FS_TYPE_FILE 1 (Some [97]) ?f1 = Some (True, ?f2)"
    by (simp add: fs_new_child_def disk_da_names fs_cleared_def fs_is_dir_def fs_find_child_def
        fs_find_loop.simps fs_alloc_node_def upt_rec const_defs fs_link_node_def numeral_2_eq_2)
  have f2: "shell_wf ?f2"
    by (rule new_child_shell [OF f1 c(2), of FS_TYPE_FILE 1]) (use r2 in auto)
  show ?thesis unfolding disk_da_def
    by (rule cwd_set_shell [OF f2]) (simp add: fs_is_dir_def fs_link_node_def const_defs)
qed

lemma disk_da_resolve: "fs_resolve_checked disk_da (Some [97]) = Some (Some 2)" "fs_is_file disk_da 2"
  "fs_contents disk_da 2 = []" "fs_data_free disk_da = 0" "fs_node_size disk_da 2 = 0" "fs_resolve_checked disk_da (Some [46]) = Some (Some 1)"
  "fs_node_parent disk_da 2 = 1"
proof -
  have tok: "fs_next_token [97] = Some ([97], [])" "fs_next_token [46] = Some ([46], [])"
    by (simp_all add: fs_next_token_def is_sep_def to_lower_c_def const_defs)
  have eq: "strncmp_l [97] [97] 12 = 0" by (simp add: eval_nat_numeral)
  have find: "fs_find_child disk_da 1 [97] = Some 2"
    by (simp add: fs_find_child_def disk_da_def fs_cwd_set_def fs_link_node_def fs_find_loop.simps
        disk_da_names fs_cleared_def const_defs fs_is_dir_def eq)
  have cwd: "fs_cwd disk_da = 1" by (simp add: disk_da_def fs_cwd_set_def fs_link_node_def const_defs fs_is_dir_def)
  show "fs_resolve_checked disk_da (Some [97]) = Some (Some 2)" "fs_resolve_checked disk_da (Some [46]) = Some (Some 1)"
    using tok find cwd by (simp_all add: fs_resolve_checked_def fs_resolve_loop.simps)
  show "fs_node_parent disk_da 2 = 1"
    by (simp add: disk_da_def fs_cwd_set_def fs_link_node_def fs_is_dir_def const_defs fs_cleared_def)
  show "fs_is_file disk_da 2" "fs_contents disk_da 2 = []" "fs_data_free disk_da = 0" "fs_node_size disk_da 2 = 0"
    by (simp_all add: disk_da_def fs_cwd_set_def fs_link_node_def fs_is_file_def fs_is_dir_def const_defs fs_contents_def fs_cleared_def)
qed

text \<open>
  C18.  On a well-formed disk every file command returns, whatever its arguments are, leaves
  the disk well formed with the current directory still a directory, and touches the
  terminal by output only; \<open>rm\<close>, \<open>rmdir\<close> and \<open>mv\<close> do so when the node they remove is
  not an entry of the root directory.
\<close>

theorem file_commands_safe:
  assumes wf: "shell_wf f" and cl: "clean args"
  shows "(\<forall>c\<in>{cmd_cd, cmd_pwd, cmd_ls, cmd_tree, cmd_find, cmd_grep, cmd_kat, cmd_cat, cmd_mkdir, cmd_touch, cmd_cp, cmd_echo}.
       \<exists>f' t'. c args (f, t) = Some (f', t') \<and> shell_wf f' \<and> draws t t') \<and>
     ((\<forall>n. fs_resolve_checked f args = Some (Some n) \<longrightarrow> fs_node_parent f n \<noteq> 0) \<longrightarrow>
       (\<forall>c\<in>{cmd_rm, cmd_rmdir}. \<exists>f' t'. c args (f, t) = Some (f', t') \<and> shell_wf f' \<and> draws t t')) \<and>
     ((\<forall>src dst n. split_two_args args 256 256 = Some (src, dst) \<and> fs_resolve_checked f (Some src) = Some (Some n) \<longrightarrow>
         fs_node_parent f n \<noteq> 0) \<longrightarrow>
       (\<exists>f' t'. cmd_mv args (f, t) = Some (f', t') \<and> shell_wf f' \<and> draws t t'))"
proof -
  have keep: "\<exists>f' t'. c args (f, t) = Some (f', t') \<and> shell_wf f' \<and> draws t t'" if "keeps c" "quiet c" for c
    using that wf cl unfolding keeps_def quiet_def by meson
  have drop: "\<exists>f' t'. c args (f, t) = Some (f', t') \<and> shell_wf f' \<and> draws t t'"
    if "\<exists>f' t'. c args (f, t) = Some (f', t') \<and> shell_wf f'" "quiet c" for c
    using that unfolding quiet_def by meson
  show ?thesis
    using keep [OF keeps_cd] keep [OF keeps_pwd] keep [OF keeps_ls] keep [OF keeps_tree] keep [OF keeps_find]
      keep [OF keeps_grep] keep [OF keeps_kat(1)] keep [OF keeps_kat(2)] keep [OF keeps_create(1)] keep [OF keeps_create(2)]
      keep [OF keeps_cp] keep [OF keeps_echo] quiet_file_commands drop [of cmd_rm] rm_keeps [OF wf cl, of t]
      drop [of cmd_rmdir] rmdir_keeps [OF wf cl, of t] drop [of cmd_mv] mv_keeps [OF wf cl, of t]
    by auto
qed

theorem file_commands_safe_witness:
  "(\<exists>f' t'. cmd_mkdir (Some [97]) (fs_cleared, terminal_boot) = Some (f', t') \<and> shell_wf f' \<and> draws terminal_boot t') \<and>
   (\<exists>f' t'. cmd_rm (Some [97]) (disk_da, terminal_boot) = Some (f', t') \<and> shell_wf f' \<and> draws terminal_boot t')"
proof -
  have "clean (Some [97])" by (simp add: clean_def)
  from file_commands_safe [OF cleared_shell this, of terminal_boot] file_commands_safe [OF disk_da_shell this, of terminal_boot]
  show ?thesis using disk_da_resolve(1,7) by auto
qed

text \<open>
  Copying and moving: after a successful copy the destination path names a file with the
  contents of the source and every other file is unchanged, after a failed one no file has
  changed; a copy onto an existing file succeeds when the pool has room; and \<open>mv\<close> is the
  copy followed by the deletion of the source, unless both paths name one file.
\<close>

lemma cp_mv_correct:
  assumes "shell_wf f" and "clean args" and "split_two_args args 256 256 = Some (src, dst)"
  shows "\<exists>k f1 t1. cmd_copy_file_path src dst (f, t) = Some (k, f1, t1) \<and> shell_wf f1 \<and> copied f src dst k f1 \<and>
     (\<forall>s d. fs_resolve_checked f (Some src) = Some (Some s) \<and> fs_is_file f s \<and>
        fs_resolve_checked f (Some dst) = Some (Some d) \<and> fs_is_file f d \<and>
        fs_data_free f + length (fs_contents f s) \<le> RAMDISK_DATA_CAP \<longrightarrow> k = Some (int (length (fs_contents f s)))) \<and>
     cmd_cp args (f, t) = Some (f1, case k of None \<Rightarrow> t1
       | Some b \<Rightarrow> fold term_puts [lit ''Copied '', itoa_text (word_of_int b), lit '' bytes'' @ [10]] t) \<and>
     (k \<noteq> None \<and> fs_resolve_checked f (Some src) \<noteq> fs_resolve_checked f (Some dst) \<longrightarrow>
        (\<exists>s f2. fs_resolve_checked f (Some src) = Some (Some s) \<and> deleted f1 s f2 \<and>
           cmd_mv args (f, t) = Some (f2, term_puts (lit ''OK'' @ [10]) t)))"
proof -
  have p: "0 \<notin> set src" "0 \<notin> set dst" using split_two_args_clean [OF assms(3,2)] by auto
  obtain k f1 t1 where c: "cmd_copy_file_path src dst (f, t) = Some (k, f1, t1)" "shell_wf f1" "copied f src dst k f1"
      "k \<noteq> None \<Longrightarrow> t1 = t" "fs_cwd f1 = fs_cwd f"
    using copy_file_path_spec [OF assms(1) p, of t] by blast
  have room: "k = Some (int (length (fs_contents f s)))"
    if "fs_resolve_checked f (Some src) = Some (Some s)" "fs_is_file f s" "fs_resolve_checked f (Some dst) = Some (Some d)"
      "fs_is_file f d" "fs_data_free f + length (fs_contents f s) \<le> RAMDISK_DATA_CAP" for s d
    using c(1) copy_data_spec [OF assms(1) that(2), of d t] that
    by (auto simp: cmd_copy_file_path_def copy_target_def write_ok_def)
  have cp: "cmd_cp args (f, t) = Some (f1, case k of None \<Rightarrow> t1
       | Some b \<Rightarrow> fold term_puts [lit ''Copied '', itoa_text (word_of_int b), lit '' bytes'' @ [10]] t)"
    using c assms(3) by (cases k) (auto simp: cmd_cp_def say_pair)
  have mv: "\<exists>s f2. fs_resolve_checked f (Some src) = Some (Some s) \<and> deleted f1 s f2 \<and>
           cmd_mv args (f, t) = Some (f2, term_puts (lit ''OK'' @ [10]) t)"
    if k: "k \<noteq> None" "fs_resolve_checked f (Some src) \<noteq> fs_resolve_checked f (Some dst)"
  proof -
    obtain s where s: "fs_resolve_checked f (Some src) = Some (Some s)" "fs_is_file f s"
      using c(3) k(1) by (auto simp: copied_def)
    obtain q where q: "fs_resolve_checked f (Some dst) = Some q" using resolve_spec [OF assms(1) p(2)] by metis
    show ?thesis using cmd_mv_run [OF assms(1,3) s q _ c(1-3)] s q k c(4) [OF k(1)] by auto
  qed
  show ?thesis using c(1-3) room cp mv by (intro exI conjI) blast+
qed

theorem cp_mv_correct_witness:
  "\<exists>f1 t1. cmd_copy_file_path [97] [97] (disk_da, terminal_boot) = Some (Some 0, f1, t1) \<and> shell_wf f1"
proof -
  have a: "clean (Some [97, 32, 97])" "split_two_args (Some [97, 32, 97]) 256 256 = Some ([97], [97])"
    by (simp_all add: clean_def split_two_args_def skip_spaces_def Let_def)
  show ?thesis using cp_mv_correct [OF disk_da_shell a, of terminal_boot] disk_da_resolve by auto
qed

text \<open>
  C28.  Redirected text can be read back: \<open>echo text > path\<close> on a path that names a file or can
  be created, with room in the pool, prints nothing, keeps every other file, and \<open>cat path\<close>
  then prints exactly the text.
\<close>

theorem echo_cat:
  assumes wf: "shell_wf f" and body: "0 \<notin> set body" "62 \<notin> set body" "\<not> (\<exists>b. body = b @ [chr_sp])"
    and p: "0 \<notin> set p" "p \<noteq> []" "hd p \<noteq> chr_sp" "length body + length p + 3 \<le> 255"
    and r: "resolve_or_create_file p f = Some (Some n, f1)" "fs_data_free f + length body \<le> RAMDISK_DATA_CAP"
  shows "\<exists>f2. cmd_echo (Some (body @ [chr_sp, 62, chr_sp] @ p)) (f, t) = Some (f2, t) \<and> shell_wf f2 \<and>
     (\<forall>x. fs_is_file f x \<and> x \<noteq> n \<longrightarrow> fs_is_file f2 x \<and> fs_contents f2 x = fs_contents f x) \<and>
     cmd_cat (Some p) (f2, t) = Some (f2, term_puts [10] (term_puts body t))"
proof -
  let ?a = "body @ [chr_sp, 62, chr_sp] @ p"
  note parts = echo_parts [OF body(2,3) p(2,3,4)]
  have a: "Some ?a = Some ?a" "?a \<noteq> []" "0 \<notin> set ?a" using body p by auto
  obtain f2 m where e: "shell_wf f1" "cmd_echo (Some ?a) (f, t) = Some (f2, fold term_puts m t)" "shell_wf f2"
    "fs_is_file f1 n" "fs_data_free f1 = fs_data_free f"
    "if write_ok f1 n body then m = [] \<and> fs_is_file f2 n \<and> fs_contents f2 n = body \<and>
       fs_resolve_checked f2 (Some p) = Some (Some n) else f2 = f1 \<and> m = [lit ''echo: write failed'' @ [10]]"
    "\<forall>x. fs_is_file f x \<and> x \<noteq> n \<longrightarrow> fs_is_file f2 x \<and> fs_contents f2 x = fs_contents f x"
    using echo_redirect [OF wf a parts p(2), of t] r(1) by auto
  then have w: "m = []" "fs_is_file f2 n" "fs_contents f2 n = body" "fs_resolve_checked f2 (Some p) = Some (Some n)"
    using r(2) by (simp_all add: write_ok_def)
  have n: "n \<noteq> 0" using file_deletable [OF e(3) w(2)] by (simp add: deletable_def)
  have size: "fs_node_size f2 n = length body" using w(3) length_fs_contents [of f2 n] by simp
  have rd: "fs_read f2 n False (int KAT_BUFFER_SIZE - 1) = (int (length body), body)"
    using fs_read_contents [OF w(2), of "int KAT_BUFFER_SIZE - 1"] p(4) size w(3) by (simp add: KAT_BUFFER_SIZE_def)
  have "cstr_of (body @ [0]) = body" using body(1) by (auto simp: cstr_of_def takeWhile_append)
  then have "cmd_cat (Some p) (f2, t) = Some (f2, term_puts [10] (term_puts body t))"
    using p(2) w(2,4) n rd by (simp add: cmd_cat_def kat_run_def no_args_def fs_resolve_def say_pair)
  then show ?thesis using e(2,3,7) w(1) by auto
qed

theorem echo_cat_witness:
  "\<exists>f2. cmd_echo (Some ([104, 105] @ [chr_sp, 62, chr_sp] @ [97])) (disk_da, terminal_boot) = Some (f2, terminal_boot) \<and>
     cmd_cat (Some [97]) (f2, terminal_boot) = Some (f2, term_puts [10] (term_puts [104, 105] terminal_boot))"
proof -
  have r: "resolve_or_create_file [97] disk_da = Some (Some 2, disk_da)"
    using disk_da_resolve by (simp add: resolve_or_create_file_def)
  show ?thesis
    using echo_cat [OF disk_da_shell, of "[104, 105]" "[97]" 2 disk_da terminal_boot] r disk_da_resolve(4)
    by (auto simp: RAMDISK_DATA_CAP_def)
qed

text \<open>
  C29.  \<open>find\<close> ends and prints exactly once the path of each node below the current directory in
  whose name the pattern occurs, up to the case of letters, and of no other node.
\<close>

theorem find_correct:
  fixes args :: "bytes option"
  assumes wf: "shell_wf f"
  defines "pattern \<equiv> skip_spaces (case args of None \<Rightarrow> [] | Some a \<Rightarrow> a)"
  shows "\<exists>ns. distinct ns \<and>
     set ns = {n. (\<exists>ds. ds \<noteq> [] \<and> descends f (fs_cwd f) ds n) \<and> occurs pattern (fs_get_name f n)} \<and>
     cmd_find args (f, t) = Some (f, fold (\<lambda>n. fold term_puts [the (fs_build_path f n False 256), [10]]) ns t)"
proof -
  obtain l where l: "visits f 0 (fs_node_first_child f (fs_cwd f)) l" "distinct (map snd l)"
      "set l = (\<Union>c\<in>children f (fs_cwd f). (\<lambda>(e, n). (0 + e, n)) ` below f c)"
    using wf by (rule cwd_visits)
  let ?ns = "filter (\<lambda>n. occurs pattern (fs_get_name f n)) (map snd l)"
  have hit: "find_hit f pattern n = (if occurs pattern (fs_get_name f n) then [the (fs_build_path f n False 256), [10]] else [])" for n
    using build_path_stores [of 256 f n] by (auto simp: find_hit_def contains_occurs)
  have "fold (\<lambda>(e, n). fold term_puts (find_hit f pattern n)) xs u =
      fold (\<lambda>n. fold term_puts [the (fs_build_path f n False 256), [10]])
        (filter (\<lambda>n. occurs pattern (fs_get_name f n)) (map snd xs)) u" for xs :: "(nat \<times> nat) list" and u
    by (induction xs arbitrary: u) (auto simp: hit)
  then have run: "cmd_find args (f, t) = Some (f, fold (\<lambda>n. fold term_puts [the (fs_build_path f n False 256), [10]]) ?ns t)"
    using cmd_find_run [OF l(1) wf, of args t] by (simp add: pattern_def)
  have "snd ` set l = {n. \<exists>ds. ds \<noteq> [] \<and> descends f (fs_cwd f) ds n}"
  proof (intro set_eqI iffI)
    fix n assume "n \<in> snd ` set l"
    then obtain c ns where "c \<in> children f (fs_cwd f)" "descends f c ns n" unfolding l(3) by (auto simp: below_def)
    then show "n \<in> {n. \<exists>ds. ds \<noteq> [] \<and> descends f (fs_cwd f) ds n}" by (auto intro!: exI [of _ "c # ns"])
  next
    fix n assume "n \<in> {n. \<exists>ds. ds \<noteq> [] \<and> descends f (fs_cwd f) ds n}"
    then obtain c ns where "c \<in> children f (fs_cwd f)" "descends f c ns n" by (auto simp: neq_Nil_conv)
    then show "n \<in> snd ` set l" unfolding l(3) by (force simp: below_def)
  qed
  then have "set ?ns = {n. (\<exists>ds. ds \<noteq> [] \<and> descends f (fs_cwd f) ds n) \<and> occurs pattern (fs_get_name f n)}" by auto
  then show ?thesis using run l(2) distinct_filter by blast
qed

theorem find_correct_witness:
  "\<exists>ns. distinct ns \<and> cmd_find (Some [65]) (disk_da, terminal_boot) =
     Some (disk_da, fold (\<lambda>n. fold term_puts [the (fs_build_path disk_da n False 256), [10]]) ns terminal_boot)"
  using find_correct [OF disk_da_shell, of "Some [65]" terminal_boot] by blast

text \<open>
  C30.  \<open>grep\<close> prints, with their numbers and in their order, exactly the lines of the file in
  which the pattern occurs, up to the case of letters, or that there is none.
\<close>

theorem grep_correct:
  assumes wf: "shell_wf f" and sp: "split_pattern_file args 64 256 = Some (pattern, name)"
    and r: "fs_resolve_checked f (Some name) = Some (Some n)" "fs_is_file f n"
    and c: "0 \<notin> set (fs_contents f n)" "fs_contents f n \<noteq> []"
  shows "cmd_grep args (f, t) = Some (f, fold term_puts
     (if filter (occurs pattern) (lines_of (fs_contents f n)) = [] then [lit ''No matches'' @ [10]]
      else grep_hits pattern 1 (lines_of (fs_contents f n))) t)"
proof -
  let ?c = "fs_contents f n"
  have ls: "([] @ hd (lines_of ?c)) # tl (lines_of ?c) = lines_of ?c" by simp
  have g: "grep_loop pattern (?c @ [0]) [] 1 = (length (filter (occurs pattern) (lines_of ?c)), grep_hits pattern 1 (lines_of ?c))"
    using grep_loop_lines [OF c(1), of pattern "[]" 1] unfolding ls by (simp add: prod_eq_iff)
  have "fs_node_size f n \<noteq> 0" using c(2) length_fs_contents [of f n] by (metis length_0_conv)
  then show ?thesis
    using sp r g read_all [OF wf r(2)] grep_hits_empty [of pattern 1 "lines_of ?c"]
    by (auto simp: cmd_grep_def say_pair)
qed

theorem grep_correct_witness:
  "\<exists>f. shell_wf f \<and> cmd_grep (Some [73, 32, 97]) (f, terminal_boot) =
     Some (f, fold term_puts [itoa_text 1, lit '': '', [104, 105], [10]] terminal_boot)"
proof -
  have ok: "write_ok disk_da 2 [104, 105]" using disk_da_resolve by (simp add: write_ok_def RAMDISK_DATA_CAP_def)
  obtain f1 where w: "shell_wf f1" "fs_contents f1 2 = [104, 105]" "fs_is_file f1 2"
      "fs_resolve_checked f1 (Some [97]) = Some (Some 2)"
  proof (rule write_shell [OF disk_da_shell, of "[104, 105]" 2])
    fix f1
    assume a: "shell_wf f1" "write_ok disk_da 2 [104, 105] \<Longrightarrow> fs_contents f1 2 = [104, 105]"
      and fr: "fs_node_type f1 = fs_node_type disk_da" "fs_node_parent f1 = fs_node_parent disk_da" "fs_node_name f1 = fs_node_name disk_da"
      "fs_node_first_child f1 = fs_node_first_child disk_da" "fs_node_next_sibling f1 = fs_node_next_sibling disk_da"
      "fs_cwd f1 = fs_cwd disk_da"
    have "fs_resolve_checked f1 (Some [97]) = Some (Some 2)"
      using resolve_frame [OF fr disk_da_shell a(1), of "[97]"] disk_da_resolve(1) by simp
    moreover have "fs_is_file f1 2" using disk_da_resolve(2) by (simp add: fs_is_file_def fr(1) split: if_splits)
    ultimately show thesis using that a ok by blast
  qed simp
  have sp: "split_pattern_file (Some [73, 32, 97]) 64 256 = Some ([73], [97])"
    by (simp add: split_pattern_file_def no_args_def skip_spaces_def Let_def)
  have l: "lines_of [104, 105] = [[104, 105]]" by simp
  have "map ascii_lower [104, 105] = [104] @ map ascii_lower [73] @ []" by (simp add: ascii_lower_def)
  then have "occurs [73] [104, 105]" unfolding occurs_def by blast
  then have "cmd_grep (Some [73, 32, 97]) (f1, terminal_boot) =
     Some (f1, fold term_puts [itoa_text 1, lit '': '', [104, 105], [10]] terminal_boot)"
    using grep_correct [OF w(1) sp w(4,3), of terminal_boot] unfolding w(2) l by (simp add: grep_hits_simps)
  then show ?thesis using w(1) by blast
qed

end
