(* ===== verification/Class_File.thy ===== *)
theory Class_File
  imports File_Commands
begin

text \<open>
  The file formats that the Java command reads, the first part of
  \<^verbatim>\<open>src/src/commands/java.c\<close>: the entries of ZIP archives and the class file with its
  constant pool and methods.  A file is the list of its bytes and an offset an integer.  The
  outer \<open>None\<close> of a result stands for code that does not return or that leaves the behaviour C
  defines: a read outside the bytes of the file, a signed sum that overflows.  Under it
  \<open>Inl\<close> is a routine that printed some messages and returned false.
\<close>

unbundle bit_operations_syntax

section \<open>Reading\<close>

type_synonym 'a parse = "(bytes list + 'a) option"

abbreviation fail :: "'a parse" where "fail \<equiv> Some (Inl [])"
abbreviation done_with :: "'a \<Rightarrow> 'a parse" where "done_with x \<equiv> Some (Inr x)"

definition pbind :: "'a parse \<Rightarrow> ('a \<Rightarrow> 'b parse) \<Rightarrow> 'b parse" where
  "pbind p g = (case p of None \<Rightarrow> None | Some (Inl ms) \<Rightarrow> Some (Inl ms) | Some (Inr x) \<Rightarrow> g x)"

lemma pbind_simps [simp]:
  "pbind None g = None" "pbind (Some (Inl ms)) g = Some (Inl ms)" "pbind (Some (Inr x)) g = g x"
  by (simp_all add: pbind_def)

lemma pbind_cong [fundef_cong]: "p = q \<Longrightarrow> (\<And>x. q = Some (Inr x) \<Longrightarrow> g x = h x) \<Longrightarrow> pbind p g = pbind q h"
  by (auto simp: pbind_def split: option.split sum.split)

lemma pbind_done: "pbind p g = Some (Inr y) \<longleftrightarrow> (\<exists>x. p = Some (Inr x) \<and> g x = Some (Inr y))"
  by (auto simp: pbind_def split: option.splits sum.splits)

text \<open>Reads with the bounds of the file, and sums that stay in an \<open>int\<close>.\<close>

definition byte_at :: "bytes \<Rightarrow> int \<Rightarrow> u8 option" where
  "byte_at d i = (if 0 \<le> i \<and> i < int (length d) then Some (d ! nat i) else None)"

definition int_add :: "int \<Rightarrow> int \<Rightarrow> int option" where
  "int_add a b = (if - 2147483648 \<le> a + b \<and> a + b \<le> 2147483647 then Some (a + b) else None)"

definition sub_bytes :: "bytes \<Rightarrow> int \<Rightarrow> int \<Rightarrow> bytes" where
  "sub_bytes d off n = take (nat n) (drop (nat off) d)"

definition rd_le16 :: "bytes \<Rightarrow> int \<Rightarrow> u16 option" where
  "rd_le16 d p =
     Option.bind (byte_at d p) (\<lambda>b0. Option.bind (byte_at d (p + 1)) (\<lambda>b1.
       Some (ucast b0 OR push_bit 8 (ucast b1))))"

definition rd_le32 :: "bytes \<Rightarrow> int \<Rightarrow> u32 option" where
  "rd_le32 d p =
     Option.bind (byte_at d p) (\<lambda>b0. Option.bind (byte_at d (p + 1)) (\<lambda>b1.
     Option.bind (byte_at d (p + 2)) (\<lambda>b2. Option.bind (byte_at d (p + 3)) (\<lambda>b3.
       Some (ucast b0 OR push_bit 8 (ucast b1) OR push_bit 16 (ucast b2) OR push_bit 24 (ucast b3))))))"

definition rd_be16 :: "bytes \<Rightarrow> int \<Rightarrow> u16 option" where
  "rd_be16 d p =
     Option.bind (byte_at d p) (\<lambda>b0. Option.bind (byte_at d (p + 1)) (\<lambda>b1.
       Some (push_bit 8 (ucast b0) OR ucast b1)))"

definition rd_be32 :: "bytes \<Rightarrow> int \<Rightarrow> u32 option" where
  "rd_be32 d p =
     Option.bind (byte_at d p) (\<lambda>b0. Option.bind (byte_at d (p + 1)) (\<lambda>b1.
     Option.bind (byte_at d (p + 2)) (\<lambda>b2. Option.bind (byte_at d (p + 3)) (\<lambda>b3.
       Some (push_bit 24 (ucast b0) OR push_bit 16 (ucast b1) OR push_bit 8 (ucast b2) OR ucast b3)))))"

definition ends_with_bytes :: "bytes \<Rightarrow> bytes \<Rightarrow> bool" where
  "ends_with_bytes s suffix \<longleftrightarrow>
     length s \<ge> length suffix \<and> drop (length s - length suffix) s = suffix"

section \<open>Archives\<close>

record zip_entry =
  ze_name :: bytes
  ze_payload :: bytes
  ze_len :: u32
  ze_method :: u16

text \<open>The entry at an offset and the offset behind it.\<close>

definition java_zip_next_entry :: "bytes \<Rightarrow> int \<Rightarrow> (zip_entry \<times> int) parse" where
  "java_zip_next_entry d off =
     (let sz = int (length d)
      in if off + 30 > sz then fail
      else Option.bind (rd_le32 d off) (\<lambda>sig.
      if sig \<noteq> 0x04034B50 then fail
      else Option.bind (rd_le16 d (off + 6)) (\<lambda>flags. Option.bind (rd_le16 d (off + 8)) (\<lambda>method.
      Option.bind (rd_le32 d (off + 18)) (\<lambda>comp_size. Option.bind (rd_le16 d (off + 26)) (\<lambda>name_len.
      Option.bind (rd_le16 d (off + 28)) (\<lambda>extra_len.
        let name_off = off + 30; data_off = name_off + int (unat name_len) + int (unat extra_len)
        in if name_off + int (unat name_len) > sz \<or> data_off > sz then fail
           else Option.bind (int_add data_off (sint comp_size)) (\<lambda>end_off.
           if end_off > sz then fail
           else if flags AND 8 \<noteq> 0 then fail
           else done_with
             (\<lparr>ze_name = sub_bytes d name_off (int (unat name_len)), ze_payload = sub_bytes d data_off (sint comp_size),
               ze_len = comp_size, ze_method = method\<rparr>, end_off)))))))))"

partial_function (option) zip_find_loop :: "bytes \<Rightarrow> bytes \<Rightarrow> int \<Rightarrow> zip_entry option option" where
  "zip_find_loop d target off =
     (case java_zip_next_entry d off of
        None \<Rightarrow> None
      | Some (Inl _) \<Rightarrow> Some None
      | Some (Inr (e, off1)) \<Rightarrow> if ze_name e = target then Some (Some e) else zip_find_loop d target off1)"

definition java_zip_find_entry :: "bytes \<Rightarrow> bytes \<Rightarrow> zip_entry option option" where
  "java_zip_find_entry d target = zip_find_loop d target 0"

partial_function (option) zip_class_loop :: "bytes \<Rightarrow> int \<Rightarrow> zip_entry option option" where
  "zip_class_loop d off =
     (case java_zip_next_entry d off of
        None \<Rightarrow> None
      | Some (Inl _) \<Rightarrow> Some None
      | Some (Inr (e, off1)) \<Rightarrow>
          if ends_with_bytes (ze_name e) (lit ''.class'') then Some (Some e) else zip_class_loop d off1)"

text \<open>The name is copied into an array of \<open>name_cap\<close> bytes.\<close>

definition java_zip_find_first_class :: "bytes \<Rightarrow> nat \<Rightarrow> (zip_entry \<times> bytes) option option" where
  "java_zip_find_first_class d name_cap =
     map_option (map_option (\<lambda>e. (e, cstr_of (take (name_cap - 1) (ze_name e))))) (zip_class_loop d 0)"

partial_function (option) zip_list_loop :: "bytes \<Rightarrow> int \<Rightarrow> zip_entry list option" where
  "zip_list_loop d off =
     (case java_zip_next_entry d off of
        None \<Rightarrow> None
      | Some (Inl _) \<Rightarrow> Some []
      | Some (Inr (e, off1)) \<Rightarrow> Option.bind (zip_list_loop d off1) (\<lambda>es. Some (e # es)))"

declare zip_find_loop.simps [code] zip_class_loop.simps [code] zip_list_loop.simps [code]

definition list_line :: "zip_entry \<Rightarrow> bytes list" where
  "list_line e =
     [lit ''  - '', ze_name e, lit ''  method='', utoa_text (ucast (ze_method e)) 10,
      lit ''  bytes='', utoa_text (ze_len e) 10, [10]]"

definition java_zip_list_entries :: "bytes \<Rightarrow> terminal \<Rightarrow> (bool \<times> terminal) option" where
  "java_zip_list_entries d t =
     map_option
       (\<lambda>es. let t1 = fold term_puts (concat (map list_line es)) t
             in if es = [] then (False, term_puts (lit ''jarinfo: no local file headers found'' @ [10]) t1)
                else (True, fold term_puts [lit ''jarinfo: entries parsed='', utoa_text (word_of_nat (length es)) 10, [10]] t1))
       (zip_list_loop d 0)"

text \<open>The line \<open>Main-Class:\<close> of the manifest, as the path of its class.\<close>

definition is_eol :: "u8 \<Rightarrow> bool" where "is_eol c \<longleftrightarrow> c = 10 \<or> c = 13"

definition manifest_name :: "bytes \<Rightarrow> nat \<Rightarrow> bytes option" where
  "manifest_name rest cap =
     (let name = map (\<lambda>c. if c = chr_dot then chr_slash else c)
                   (take (cap - 7) (dropWhile (\<lambda>c. c = chr_sp \<or> c = 9) rest))
      in if name = [] then None
         else if length name + 6 \<ge> cap then None
         else Some (cstr_of (name @ lit ''.class'')))"

lemma eol_progress:
  assumes "d \<noteq> []"
  shows "length (dropWhile is_eol (dropWhile (\<lambda>c. \<not> is_eol c) d)) < length d"
proof (cases d)
  case (Cons c cs)
  have "length (dropWhile is_eol (dropWhile (\<lambda>c. \<not> is_eol c) cs)) \<le> length cs"
    by (meson length_dropWhile_le le_trans)
  then show ?thesis using Cons length_dropWhile_le [of is_eol cs] by (simp add: less_Suc_eq_le)
qed (use assms in simp)

function manifest_loop :: "bytes \<Rightarrow> nat \<Rightarrow> bytes option" where
  "manifest_loop d cap =
     (if d = [] then None
      else let line = takeWhile (\<lambda>c. \<not> is_eol c) d;
               d1 = dropWhile is_eol (dropWhile (\<lambda>c. \<not> is_eol c) d)
           in if length line < 11 then manifest_loop d1 cap
              else if take 11 line \<noteq> lit ''Main-Class:'' then manifest_loop d1 cap
              else manifest_name (drop 11 line) cap)"
  by pat_completeness auto
termination
  by (relation "measure (length \<circ> fst)") (simp_all add: eol_progress)

declare manifest_loop.simps [simp del]

definition java_manifest_main_class :: "bytes \<Rightarrow> nat \<Rightarrow> bytes option" where
  "java_manifest_main_class payload out_cap = (if out_cap < 8 then None else manifest_loop payload out_cap)"

section \<open>Class files\<close>

record jcp_entry =
  ce_tag :: u8
  ce_a :: u32
  ce_b :: u32

record jmethod =
  access_flags :: u16
  name_index :: u16
  desc_index :: u16
  max_stack :: u16
  max_locals :: u16
  jm_code :: "int option"
  jm_code_len :: u32

record jclass =
  jc_bytes :: bytes
  jc_minor :: u16
  jc_major :: u16
  jc_cp_count :: u16
  jc_cp :: "jcp_entry list"
  jc_this :: u16
  jc_methods :: "jmethod list"

definition JVM_CP_MAX :: nat where "JVM_CP_MAX = 256"
definition JVM_METHOD_MAX :: nat where "JVM_METHOD_MAX = 64"

definition jcp_zero :: jcp_entry where "jcp_zero = \<lparr>ce_tag = 0, ce_a = 0, ce_b = 0\<rparr>"

text \<open>The constant pool: the pointers and lengths the lookups return are the bytes themselves.\<close>

definition cp_entry :: "jclass \<Rightarrow> u16 \<Rightarrow> u8 \<Rightarrow> jcp_entry option" where
  "cp_entry jc idx tag =
     (if idx = 0 \<or> idx \<ge> jc_cp_count jc then None
      else let e = jc_cp jc ! unat idx in if ce_tag e \<noteq> tag then None else Some e)"

definition cp_utf8 :: "jclass \<Rightarrow> u16 \<Rightarrow> bytes option" where
  "cp_utf8 jc idx =
     Option.bind (cp_entry jc idx 1) (\<lambda>e.
       if sint (ce_a e) + sint (ce_b e) > int (length (jc_bytes jc)) then None
       else Some (sub_bytes (jc_bytes jc) (sint (ce_a e)) (int (unat (ucast (ce_b e) :: u16)))))"

definition bytes_eq_lit :: "bytes \<Rightarrow> bytes \<Rightarrow> bool" where
  "bytes_eq_lit s l \<longleftrightarrow> length s = length l \<and> s = l"

definition cp_utf8_eq :: "jclass \<Rightarrow> u16 \<Rightarrow> bytes \<Rightarrow> bool" where
  "cp_utf8_eq jc idx l = (case cp_utf8 jc idx of None \<Rightarrow> False | Some s \<Rightarrow> bytes_eq_lit s l)"

definition cp_class_name :: "jclass \<Rightarrow> u16 \<Rightarrow> bytes option" where
  "cp_class_name jc class_idx = Option.bind (cp_entry jc class_idx 7) (\<lambda>e. cp_utf8 jc (ucast (ce_a e)))"

definition cp_name_type :: "jclass \<Rightarrow> u16 \<Rightarrow> (bytes \<times> bytes) option" where
  "cp_name_type jc nt_idx =
     Option.bind (cp_entry jc nt_idx 12) (\<lambda>e.
     Option.bind (cp_utf8 jc (ucast (ce_a e))) (\<lambda>name.
     Option.bind (cp_utf8 jc (ucast (ce_b e))) (\<lambda>desc. Some (name, desc))))"

definition cp_resolve_ref :: "jclass \<Rightarrow> u16 \<Rightarrow> u8 \<Rightarrow> (bytes \<times> bytes \<times> bytes) option" where
  "cp_resolve_ref jc ref_idx expect_tag =
     Option.bind (cp_entry jc ref_idx expect_tag) (\<lambda>e.
     Option.bind (cp_class_name jc (ucast (ce_a e))) (\<lambda>cls.
     Option.bind (cp_name_type jc (ucast (ce_b e))) (\<lambda>(name, desc). Some (cls, name, desc))))"

subsection \<open>The parser\<close>

text \<open>The loop over the attributes of a member or of the class.\<close>

fun skip_attrs :: "bytes \<Rightarrow> nat \<Rightarrow> int \<Rightarrow> int parse" where
  "skip_attrs d 0 off = done_with off"
| "skip_attrs d (Suc k) off =
     (if off + 6 > int (length d) then fail
      else Option.bind (rd_be32 d (off + 2)) (\<lambda>alen.
           Option.bind (int_add (off + 6) (sint alen)) (\<lambda>off1.
             if off1 > int (length d) then fail else skip_attrs d k off1)))"

definition parse_member_info_skip :: "bytes \<Rightarrow> int \<Rightarrow> int parse" where
  "parse_member_info_skip d off =
     (if off + 8 > int (length d) then fail
      else Option.bind (rd_be16 d (off + 6)) (\<lambda>attr_count. skip_attrs d (unat attr_count) (off + 8)))"

fun skip_members :: "bytes \<Rightarrow> nat \<Rightarrow> int \<Rightarrow> int parse" where
  "skip_members d 0 off = done_with off"
| "skip_members d (Suc k) off = pbind (parse_member_info_skip d off) (skip_members d k)"

text \<open>The \<open>switch\<close> over the tag of a pool entry: its two fields and the offset behind it.\<close>

definition cp_body :: "bytes \<Rightarrow> u8 \<Rightarrow> int \<Rightarrow> (u32 \<times> u32 \<times> int) parse" where
  "cp_body d tag off =
     (let sz = int (length d)
      in if tag = 1 then
           (if off + 2 > sz then fail
            else Option.bind (rd_be16 d off) (\<lambda>len.
              if off + 2 + int (unat len) > sz then fail
              else done_with (word_of_int (off + 2), ucast len, off + 2 + int (unat len))))
         else if tag = 3 \<or> tag = 4 then
           (if off + 4 > sz then fail else Option.bind (rd_be32 d off) (\<lambda>v. done_with (v, 0, off + 4)))
         else if tag = 5 \<or> tag = 6 then (if off + 8 > sz then fail else done_with (0, 0, off + 8))
         else if tag = 7 \<or> tag = 8 \<or> tag = 16 then
           (if off + 2 > sz then fail else Option.bind (rd_be16 d off) (\<lambda>v. done_with (ucast v, 0, off + 2)))
         else if tag = 9 \<or> tag = 10 \<or> tag = 11 \<or> tag = 12 \<or> tag = 18 then
           (if off + 4 > sz then fail
            else Option.bind (rd_be16 d off) (\<lambda>v. Option.bind (rd_be16 d (off + 2)) (\<lambda>w.
              done_with (ucast v, ucast w, off + 4))))
         else if tag = 15 then
           (if off + 3 > sz then fail
            else Option.bind (byte_at d off) (\<lambda>v. Option.bind (rd_be16 d (off + 1)) (\<lambda>w.
              done_with (ucast v, ucast w, off + 3))))
         else Some (Inl [lit ''java: unsupported constant pool tag'' @ [10]]))"

function cp_loop :: "bytes \<Rightarrow> nat \<Rightarrow> nat \<Rightarrow> int \<Rightarrow> jcp_entry list \<Rightarrow> (jcp_entry list \<times> int) parse" where
  "cp_loop d cnt i off cp =
     (if i \<ge> cnt then done_with (cp, off)
      else if off \<ge> int (length d) then fail
      else Option.bind (byte_at d off) (\<lambda>tag.
           pbind (cp_body d tag (off + 1)) (\<lambda>(a, b, off1).
             let cp1 = cp[i := \<lparr>ce_tag = tag, ce_a = a, ce_b = b\<rparr>]
             in if tag = 5 \<or> tag = 6
                then cp_loop d cnt (i + 2) off1
                       (if i + 1 < cnt then cp1[i + 1 := (cp1 ! (i + 1))\<lparr>ce_tag := 0\<rparr>] else cp1)
                else cp_loop d cnt (i + 1) off1 cp1)))"
  by pat_completeness auto
termination
  by (relation "measure (\<lambda>(d, cnt, i, off, cp). cnt - i)") auto

declare cp_loop.simps [simp del]

text \<open>One attribute of a method: its code is taken when it is named \<open>Code\<close> and fits.\<close>

definition method_code :: "bytes \<Rightarrow> jclass \<Rightarrow> u16 \<Rightarrow> u32 \<Rightarrow> int \<Rightarrow> int \<Rightarrow> jmethod \<Rightarrow> jmethod option" where
  "method_code d jc attr_name_idx attr_len attr_info attr_end m =
     (if cp_utf8_eq jc attr_name_idx (lit ''Code'') \<and> attr_len \<ge> 8 \<and> attr_info + 8 \<le> int (length d)
      then Option.bind (rd_be32 d (attr_info + 4)) (\<lambda>code_len.
           Option.bind (int_add (attr_info + 8) (sint code_len)) (\<lambda>code_end.
             if code_end \<le> attr_end
             then Option.bind (rd_be16 d attr_info) (\<lambda>ms. Option.bind (rd_be16 d (attr_info + 2)) (\<lambda>ml.
               Some (m\<lparr>max_stack := ms, max_locals := ml, jm_code_len := code_len, jm_code := Some (attr_info + 8)\<rparr>)))
             else Some m))
      else Some m)"

fun method_attrs :: "bytes \<Rightarrow> jclass \<Rightarrow> nat \<Rightarrow> int \<Rightarrow> jmethod \<Rightarrow> (jmethod \<times> int) parse" where
  "method_attrs d jc 0 off m = done_with (m, off)"
| "method_attrs d jc (Suc k) off m =
     (if off + 6 > int (length d) then fail
      else Option.bind (rd_be16 d off) (\<lambda>attr_name_idx. Option.bind (rd_be32 d (off + 2)) (\<lambda>attr_len.
           Option.bind (int_add (off + 6) (sint attr_len)) (\<lambda>off1.
             if off1 > int (length d) then fail
             else Option.bind (method_code d jc attr_name_idx attr_len (off + 6) off1 m) (\<lambda>m1.
                  method_attrs d jc k off1 m1)))))"

definition parse_method :: "bytes \<Rightarrow> jclass \<Rightarrow> int \<Rightarrow> (jmethod \<times> int) parse" where
  "parse_method d jc off =
     (if off + 8 > int (length d) then fail
      else Option.bind (rd_be16 d off) (\<lambda>fl. Option.bind (rd_be16 d (off + 2)) (\<lambda>ni.
           Option.bind (rd_be16 d (off + 4)) (\<lambda>di. Option.bind (rd_be16 d (off + 6)) (\<lambda>attr_count.
             method_attrs d jc (unat attr_count) (off + 8)
               \<lparr>access_flags = fl, name_index = ni, desc_index = di, max_stack = 0, max_locals = 0,
                 jm_code = None, jm_code_len = 0\<rparr>)))))"

fun parse_methods :: "bytes \<Rightarrow> nat \<Rightarrow> int \<Rightarrow> jclass \<Rightarrow> (jclass \<times> int) parse" where
  "parse_methods d 0 off jc = done_with (jc, off)"
| "parse_methods d (Suc k) off jc =
     pbind (parse_method d jc off) (\<lambda>(m, off1).
       parse_methods d k off1
         (if length (jc_methods jc) < JVM_METHOD_MAX then jc\<lparr>jc_methods := jc_methods jc @ [m]\<rparr> else jc))"

text \<open>The part behind the constant pool: interfaces, fields, methods and class attributes.\<close>

definition parse_body :: "bytes \<Rightarrow> jclass \<Rightarrow> int \<Rightarrow> jclass parse" where
  "parse_body d jc off =
     (let sz = int (length d)
      in if off + 8 > sz then fail
      else Option.bind (rd_be16 d (off + 2)) (\<lambda>this. Option.bind (rd_be16 d (off + 6)) (\<lambda>interfaces_count.
        let off1 = off + 8 + int (unat interfaces_count) * 2
        in if off1 > sz then fail
        else if off1 + 2 > sz then fail
        else Option.bind (rd_be16 d off1) (\<lambda>fields_count.
        pbind (skip_members d (unat fields_count) (off1 + 2)) (\<lambda>off2.
        if off2 + 2 > sz then fail
        else Option.bind (rd_be16 d off2) (\<lambda>methods_decl.
        pbind (parse_methods d (unat methods_decl) (off2 + 2) (jc\<lparr>jc_this := this\<rparr>)) (\<lambda>(jc1, off3).
        if off3 + 2 > sz then fail
        else Option.bind (rd_be16 d off3) (\<lambda>class_attrs.
        pbind (skip_attrs d (unat class_attrs) (off3 + 2)) (\<lambda>off4. done_with jc1))))))))) "

definition jvm_parse_class :: "bytes \<Rightarrow> jclass parse" where
  "jvm_parse_class d =
     (if length d < 10 then fail
      else Option.bind (rd_be32 d 0) (\<lambda>magic.
      if magic \<noteq> 0xCAFEBABE then fail
      else Option.bind (rd_be16 d 4) (\<lambda>minor. Option.bind (rd_be16 d 6) (\<lambda>major.
      Option.bind (rd_be16 d 8) (\<lambda>cnt.
      if cnt = 0 \<or> unat cnt > JVM_CP_MAX then Some (Inl [lit ''java: class constant pool too large'' @ [10]])
      else pbind (cp_loop d (unat cnt) 1 10 (replicate JVM_CP_MAX jcp_zero)) (\<lambda>(cp, off).
           parse_body d
             \<lparr>jc_bytes = d, jc_minor = minor, jc_major = major, jc_cp_count = cnt, jc_cp = cp,
               jc_this = 0, jc_methods = []\<rparr> off))))))"

subsection \<open>Methods and classes by name\<close>

definition static_flag :: "jmethod \<Rightarrow> bool" where "static_flag m \<longleftrightarrow> access_flags m AND 8 \<noteq> 0"

definition jvm_find_method :: "jclass \<Rightarrow> bytes \<Rightarrow> bytes \<Rightarrow> bool \<Rightarrow> jmethod option" where
  "jvm_find_method cls name desc require_static =
     List.find (\<lambda>m. \<not> (require_static \<and> \<not> static_flag m) \<and> cp_utf8_eq cls (name_index m) name \<and>
                    cp_utf8_eq cls (desc_index m) desc) (jc_methods cls)"

definition jvm_get_this_class_name :: "jclass \<Rightarrow> bytes option" where
  "jvm_get_this_class_name cls = cp_class_name cls (jc_this cls)"

definition jvm_class_name_eq :: "jclass \<Rightarrow> bytes \<Rightarrow> bool" where
  "jvm_class_name_eq cls name =
     (case jvm_get_this_class_name cls of None \<Rightarrow> False | Some this \<Rightarrow> length this = length name \<and> this = name)"

definition jvm_find_method_bytes :: "jclass \<Rightarrow> bytes \<Rightarrow> bytes \<Rightarrow> bool \<Rightarrow> jmethod option" where
  "jvm_find_method_bytes cls name desc require_static =
     List.find (\<lambda>m. \<not> (require_static \<and> \<not> static_flag m) \<and>
                    (case cp_utf8 cls (name_index m) of None \<Rightarrow> False | Some cand_name \<Rightarrow>
                     case cp_utf8 cls (desc_index m) of None \<Rightarrow> False | Some cand_desc \<Rightarrow>
                       length cand_name = length name \<and> length cand_desc = length desc \<and>
                       cand_name = name \<and> cand_desc = desc)) (jc_methods cls)"

text \<open>\<open>rt\<close> is the archive the main class came from.\<close>

definition jvm_load_class_from_jar :: "bytes option \<Rightarrow> bytes \<Rightarrow> jclass parse" where
  "jvm_load_class_from_jar rt class_name =
     (case rt of
        None \<Rightarrow> fail
      | Some jar \<Rightarrow>
          if jar = [] \<or> class_name = [] then fail
          else if length class_name + 7 \<ge> 160 then fail
          else Option.bind (java_zip_find_entry jar (cstr_of (class_name @ lit ''.class''))) (\<lambda>r.
            case r of
              None \<Rightarrow> fail
            | Some e \<Rightarrow>
                if ze_method e \<noteq> 0 then Some (Inl [lit ''java: referenced class is compressed; need STORED entries'' @ [10]])
                else jvm_parse_class (ze_payload e)))"

section \<open>Reading what was written\<close>

definition le16 :: "u16 \<Rightarrow> bytes" where "le16 w = [ucast w, ucast (drop_bit 8 w)]"

definition le32 :: "u32 \<Rightarrow> bytes" where
  "le32 w = [ucast w, ucast (drop_bit 8 w), ucast (drop_bit 16 w), ucast (drop_bit 24 w)]"

definition be16 :: "u16 \<Rightarrow> bytes" where "be16 w = [ucast (drop_bit 8 w), ucast w]"

definition be32 :: "u32 \<Rightarrow> bytes" where
  "be32 w = [ucast (drop_bit 24 w), ucast (drop_bit 16 w), ucast (drop_bit 8 w), ucast w]"

lemma enc_length [simp]: "length (le16 w) = 2" "length (le32 v) = 4" "length (be16 w) = 2" "length (be32 v) = 4"
  by (simp_all add: le16_def le32_def be16_def be32_def)

lemma byte_at_app:
  "byte_at (p @ q) (int (length p) + i) = (if 0 \<le> i then byte_at q i else byte_at p (int (length p) + i))"
  by (auto simp: byte_at_def nth_append nat_add_distrib)

lemma byte_at_app0: "byte_at (p @ q) (int (length p)) = byte_at q 0"
  using byte_at_app [of p q 0] by simp

lemma byte_at_tail: "0 < i \<Longrightarrow> byte_at (b # q) i = byte_at q (i - 1)"
  by (auto simp: byte_at_def nth_Cons' nat_diff_distrib)

lemma byte_at_Cons [simp]:
  "byte_at (b # q) 0 = Some b" "byte_at (b # q) 1 = byte_at q 0"
  "byte_at (b # q) (numeral k) = byte_at q (numeral k - 1)"
  by (simp_all only: byte_at_tail zero_less_numeral zero_less_one diff_self) (simp add: byte_at_def)

lemma split_words:
  "ucast (ucast w :: u8) OR push_bit 8 (ucast (ucast (drop_bit 8 w) :: u8)) = (w :: u16)"
  "push_bit 8 (ucast (ucast (drop_bit 8 w) :: u8)) OR ucast (ucast w :: u8) = (w :: u16)"
  by (rule bit_word_eqI, auto simp: bit_simps not_less)+

lemma split_words32:
  "ucast (ucast v :: u8) OR push_bit 8 (ucast (ucast (drop_bit 8 v) :: u8)) OR
     push_bit 16 (ucast (ucast (drop_bit 16 v) :: u8)) OR push_bit 24 (ucast (ucast (drop_bit 24 v) :: u8)) = (v :: u32)"
proof -
  have n: "24 + (n - 24) = n" if "\<not> n - 16 < 8" for n :: nat using that by simp
  show ?thesis by (rule bit_word_eqI) (auto simp: bit_simps not_less, metis n)
qed

lemma split_words32_be:
  "push_bit 24 (ucast (ucast (drop_bit 24 v) :: u8)) OR push_bit 16 (ucast (ucast (drop_bit 16 v) :: u8)) OR
     push_bit 8 (ucast (ucast (drop_bit 8 v) :: u8)) OR ucast (ucast v :: u8) = (v :: u32)"
  using split_words32 [of v] by (simp only: or.commute or.left_commute or.assoc)

lemma rd_at:
  "rd_le16 (p @ le16 w @ q) (int (length p)) = Some w"
  "rd_le32 (p @ le32 v @ q) (int (length p)) = Some v"
  "rd_be16 (p @ be16 w @ q) (int (length p)) = Some w"
  "rd_be32 (p @ be32 v @ q) (int (length p)) = Some v"
  by (simp_all add: rd_le16_def rd_le32_def rd_be16_def rd_be32_def le16_def le32_def be16_def be32_def
      byte_at_app byte_at_app0 split_words split_words32 split_words32_be)

text \<open>The same with the offset and the bytes before it given apart.\<close>

lemma rd_there:
  assumes "d = p @ x @ q" and "off = int (length p)"
  shows "x = le16 w \<Longrightarrow> rd_le16 d off = Some w" "x = le32 v \<Longrightarrow> rd_le32 d off = Some v"
    "x = be16 w \<Longrightarrow> rd_be16 d off = Some w" "x = be32 v \<Longrightarrow> rd_be32 d off = Some v"
  using assms rd_at by auto

lemma sub_bytes_at: "d = p @ x @ q \<Longrightarrow> off = int (length p) \<Longrightarrow> n = int (length x) \<Longrightarrow> sub_bytes d off n = x"
  by (simp add: sub_bytes_def)

section \<open>Archives\<close>

text \<open>The local header of an entry; \<open>csz\<close> is the size field.\<close>

record zip_header =
  zh_version :: u16
  zh_flags :: u16
  zh_method :: u16
  zh_time :: u32
  zh_crc :: u32
  zh_usize :: u32
  zh_name :: bytes
  zh_extra :: bytes

definition zip_local :: "zip_header \<Rightarrow> u32 \<Rightarrow> bytes" where
  "zip_local h csz =
     [80, 75, 3, 4] @ le16 (zh_version h) @ le16 (zh_flags h) @ le16 (zh_method h) @ le32 (zh_time h) @
     le32 (zh_crc h) @ le32 csz @ le32 (zh_usize h) @ le16 (word_of_nat (length (zh_name h))) @
     le16 (word_of_nat (length (zh_extra h))) @ zh_name h @ zh_extra h"

definition zip_header_ok :: "zip_header \<Rightarrow> bool" where
  "zip_header_ok h \<longleftrightarrow> zh_flags h AND 8 = 0 \<and> length (zh_name h) < 65536 \<and> length (zh_extra h) < 65536"

lemma zip_local_length [simp]: "length (zip_local h csz) = 30 + length (zh_name h) + length (zh_extra h)"
  by (simp add: zip_local_def)

lemma u16_length: "n < 65536 \<Longrightarrow> unat (word_of_nat n :: u16) = n"
  by (simp add: unat_of_nat take_bit_nat_eq_self_iff)

lemma zip_next_local:
  assumes h: "zip_header_ok h" and d: "d = pre @ zip_local h csz @ rest"
    and e: "int_add (int (length (pre @ zip_local h csz))) (sint csz) = Some e" "e \<le> int (length d)"
  shows "java_zip_next_entry d (int (length pre)) =
    done_with (\<lparr>ze_name = zh_name h, ze_payload = sub_bytes d (int (length (pre @ zip_local h csz))) (sint csz),
      ze_len = csz, ze_method = zh_method h\<rparr>, e)"
proof -
  let ?o = "int (length pre)"
  have r: "rd_le32 d ?o = Some 0x04034B50" "rd_le16 d (?o + 6) = Some (zh_flags h)"
    "rd_le16 d (?o + 8) = Some (zh_method h)" "rd_le32 d (?o + 18) = Some csz"
    "rd_le16 d (?o + 26) = Some (word_of_nat (length (zh_name h)))"
    "rd_le16 d (?o + 28) = Some (word_of_nat (length (zh_extra h)))"
    by (simp_all add: d zip_local_def rd_le16_def rd_le32_def le16_def le32_def byte_at_app byte_at_app0 add.assoc
        split_words split_words32)
  have name: "sub_bytes d (?o + 30) (int (length (zh_name h))) = zh_name h"
    by (rule sub_bytes_at [of _ "pre @ take 30 (zip_local h csz)" _ "zh_extra h @ rest"])
      (simp_all add: d zip_local_def le16_def le32_def)
  have n: "unat (word_of_nat (length (zh_name h)) :: u16) = length (zh_name h)"
    "unat (word_of_nat (length (zh_extra h)) :: u16) = length (zh_extra h)" "zh_flags h AND 8 = 0"
    using h by (simp_all add: zip_header_ok_def u16_length)
  then have n': "uint (word_of_nat (length (zh_name h)) :: u16) = int (length (zh_name h))"
    "uint (word_of_nat (length (zh_extra h)) :: u16) = int (length (zh_extra h))"
    by (simp_all only: uint_nat)
  have "int (length d) \<ge> ?o + 30 + int (length (zh_name h)) + int (length (zh_extra h))" by (simp add: d)
  then show ?thesis
    using e by (simp add: java_zip_next_entry_def r n n' name Let_def add.assoc)
qed

text \<open>An archive: its entries one behind the other, then anything that is not an entry.\<close>

type_synonym zip_item = "zip_header \<times> bytes"

definition item_bytes :: "zip_item \<Rightarrow> bytes" where
  "item_bytes it = zip_local (fst it) (word_of_nat (length (snd it))) @ snd it"

definition item_entry :: "zip_item \<Rightarrow> zip_entry" where
  "item_entry it = \<lparr>ze_name = zh_name (fst it), ze_payload = snd it, ze_len = word_of_nat (length (snd it)),
     ze_method = zh_method (fst it)\<rparr>"

definition archive :: "zip_item list \<Rightarrow> bytes \<Rightarrow> bytes" where
  "archive items rest = concat (map item_bytes items) @ rest"

definition no_entry :: "bytes \<Rightarrow> bool" where
  "no_entry rest \<longleftrightarrow> length rest < 30 \<or> take 4 rest \<noteq> [80, 75, 3, 4]"

lemma sint_length: "n < 2147483648 \<Longrightarrow> sint (word_of_nat n :: u32) = int n"
  using sint_sbintrunc' [of "int n", where 'a = 32] by (simp add: signed_take_bit_int_eq_self_iff)

lemma sint_minus_length: "n \<le> 2147483648 \<Longrightarrow> sint (- word_of_nat n :: u32) = - int n"
  using sint_sbintrunc' [of "- int n", where 'a = 32] by (simp add: signed_take_bit_int_eq_self_iff)

lemma zip_next_item:
  assumes ok: "zip_header_ok (fst it)" and d: "d = pre @ item_bytes it @ rest" and len: "length d < 2147483648"
  shows "java_zip_next_entry d (int (length pre)) = done_with (item_entry it, int (length (pre @ item_bytes it)))"
proof -
  let ?c = "word_of_nat (length (snd it)) :: u32"
  have c: "sint ?c = int (length (snd it))"
    using len d by (intro sint_length) (simp add: item_bytes_def)
  have "sub_bytes d (int (length (pre @ zip_local (fst it) ?c))) (sint ?c) = snd it"
    by (rule sub_bytes_at [of _ "pre @ zip_local (fst it) ?c" _ rest]) (simp_all add: c d item_bytes_def)
  then show ?thesis
    using zip_next_local [OF ok, of d pre ?c "snd it @ rest" "int (length (pre @ item_bytes it))"] len d c
    by (simp add: item_bytes_def item_entry_def int_add_def)
qed

lemma join_words32:
  fixes b0 b1 b2 b3 :: u8
  defines "w \<equiv> ucast b0 OR push_bit 8 (ucast b1) OR push_bit 16 (ucast b2) OR push_bit 24 (ucast b3) :: u32"
  shows "ucast w = b0" "ucast (drop_bit 8 w) = b1" "ucast (drop_bit 16 w) = b2" "ucast (drop_bit 24 w) = b3"
  by (rule bit_word_eqI, auto simp: w_def bit_simps dest: bit_imp_le_length)+

lemma rd_le32_bytes:
  assumes "rd_le32 d off = Some w"
  shows "byte_at d off = Some (ucast w)" "byte_at d (off + 1) = Some (ucast (drop_bit 8 w))"
    "byte_at d (off + 2) = Some (ucast (drop_bit 16 w))" "byte_at d (off + 3) = Some (ucast (drop_bit 24 w))"
proof -
  obtain b0 b1 b2 b3 where b: "byte_at d off = Some b0" "byte_at d (off + 1) = Some b1"
    "byte_at d (off + 2) = Some b2" "byte_at d (off + 3) = Some b3"
    and w: "w = ucast b0 OR push_bit 8 (ucast b1) OR push_bit 16 (ucast b2) OR push_bit 24 (ucast b3)"
    using assms by (auto simp: rd_le32_def bind_eq_Some_conv)
  then show "byte_at d off = Some (ucast w)" "byte_at d (off + 1) = Some (ucast (drop_bit 8 w))"
    "byte_at d (off + 2) = Some (ucast (drop_bit 16 w))" "byte_at d (off + 3) = Some (ucast (drop_bit 24 w))"
    unfolding b w join_words32 by simp_all
qed

lemma zip_next_none:
  assumes "no_entry rest"
  shows "java_zip_next_entry (pre @ rest) (int (length pre)) = fail"
proof (cases "length rest < 30")
  case False
  then have "4 \<le> length rest" by simp
  then obtain a b c e r where r: "rest = a # b # c # e # r" by (auto simp: Suc_le_length_iff numeral_eq_Suc)
  have "rd_le32 (pre @ rest) (int (length pre)) \<noteq> Some 0x04034B50"
  proof
    assume "rd_le32 (pre @ rest) (int (length pre)) = Some 0x04034B50"
    from rd_le32_bytes [OF this] have "a = 80" "b = 75" "c = 3" "e = 4"
      by (simp_all add: r byte_at_app byte_at_app0)
    then show False using assms False by (simp add: no_entry_def r)
  qed
  moreover obtain w where "rd_le32 (pre @ rest) (int (length pre)) = Some w"
    by (simp add: rd_le32_def r byte_at_app byte_at_app0)
  ultimately show ?thesis by (simp add: java_zip_next_entry_def Let_def)
qed (simp add: java_zip_next_entry_def)

lemma archive_Cons: "archive (it # items) rest = item_bytes it @ archive items rest"
  by (simp add: archive_def)

lemma zip_loops:
  assumes "\<forall>it\<in>set items. zip_header_ok (fst it)" "no_entry rest" "length (pre @ archive items rest) < 2147483648"
  shows "zip_find_loop (pre @ archive items rest) target (int (length pre)) =
      Some (List.find (\<lambda>e. ze_name e = target) (map item_entry items)) \<and>
    zip_class_loop (pre @ archive items rest) (int (length pre)) =
      Some (List.find (\<lambda>e. ends_with_bytes (ze_name e) (lit ''.class'')) (map item_entry items)) \<and>
    zip_list_loop (pre @ archive items rest) (int (length pre)) = Some (map item_entry items)"
  using assms
proof (induction items arbitrary: pre)
  case Nil
  then have n: "java_zip_next_entry (pre @ rest) (int (length pre)) = fail" by (intro zip_next_none)
  show ?case using n
    by (simp add: archive_def zip_find_loop.simps zip_class_loop.simps zip_list_loop.simps)
next
  case (Cons it items)
  let ?d = "pre @ archive (it # items) rest"
  have n: "java_zip_next_entry ?d (int (length pre)) = done_with (item_entry it, int (length (pre @ item_bytes it)))"
    using Cons.prems by (intro zip_next_item [where rest = "archive items rest"]) (simp_all add: archive_Cons)
  have d: "?d = (pre @ item_bytes it) @ archive items rest" by (simp add: archive_Cons)
  note IH = Cons.IH [of "pre @ item_bytes it", folded d]
  show ?case
    using IH Cons.prems n
    by (simp add: d zip_find_loop.simps [of _ _ "int (length pre)"] zip_class_loop.simps [of _ "int (length pre)"]
        zip_list_loop.simps [of _ "int (length pre)"])
qed

text \<open>
  Reading an archive: on the bytes of any list of stored entries (with their names, extra
  fields and payloads) followed by something that is no entry, the search for a name returns the
  first entry of that name with its payload, or reports that there is none; the search for a class
  returns the first entry whose name ends in \<open>.class\<close>; and the listing visits every entry once, in order.
\<close>
lemma archive_lookup:
  assumes "\<forall>it\<in>set items. zip_header_ok (fst it)" and "no_entry rest" and "length (archive items rest) < 2147483648"
  shows "java_zip_find_entry (archive items rest) target =
      Some (List.find (\<lambda>e. ze_name e = target) (map item_entry items)) \<and>
    map_option (map_option fst) (java_zip_find_first_class (archive items rest) 128) =
      Some (List.find (\<lambda>e. ends_with_bytes (ze_name e) (lit ''.class'')) (map item_entry items)) \<and>
    zip_list_loop (archive items rest) 0 = Some (map item_entry items)"
  using zip_loops [where pre = "[]", of items rest target] assms
  by (simp add: java_zip_find_entry_def java_zip_find_first_class_def option.map_comp comp_def map_option.identity)

definition demo_items :: "zip_item list" where
  "demo_items =
     [(\<lparr>zh_version = 20, zh_flags = 0, zh_method = 0, zh_time = 0, zh_crc = 0, zh_usize = 2, zh_name = lit ''a.txt'', zh_extra = [7]\<rparr>, [1, 2]),
      (\<lparr>zh_version = 20, zh_flags = 0, zh_method = 8, zh_time = 0, zh_crc = 0, zh_usize = 9, zh_name = lit ''B.class'', zh_extra = []\<rparr>, [3])]"

theorem archive_lookup_witness:
  "java_zip_find_entry (archive demo_items [80, 75, 1, 2]) (lit ''B.class'') =
     Some (Some \<lparr>ze_name = lit ''B.class'', ze_payload = [3], ze_len = 1, ze_method = 8\<rparr>) \<and>
   zip_list_loop (archive demo_items [80, 75, 1, 2]) 0 = Some (map item_entry demo_items)"
proof -
  have "\<forall>it\<in>set demo_items. zip_header_ok (fst it)" by (simp add: demo_items_def zip_header_ok_def)
  moreover have "no_entry [80, 75, 1, 2]" by (simp add: no_entry_def)
  moreover have "length (archive demo_items [80, 75, 1, 2]) < 2147483648"
    by (simp add: archive_def demo_items_def item_bytes_def)
  ultimately show ?thesis
    using archive_lookup [of demo_items "[80, 75, 1, 2]" "lit ''B.class''"]
    by (simp add: demo_items_def item_entry_def)
qed

text \<open>
  Entries, then a header whose size field leads from its end back to the start of entry
  \<open>k\<close>, or of the header itself when \<open>k\<close> is the number of entries.
\<close>

definition looping_archive :: "zip_item list \<Rightarrow> nat \<Rightarrow> zip_header \<Rightarrow> bytes \<Rightarrow> bytes" where
  "looping_archive items k h rest =
     archive items
       (zip_local h (- word_of_nat (length (concat (map item_bytes (drop k items)) @ zip_local h 0))) @ rest)"

lemma looping_step:
  assumes ok: "\<forall>it\<in>set items. zip_header_ok (fst it)" "zip_header_ok h" and k: "k \<le> length items"
    and len: "length (looping_archive items k h rest) < 2147483648" and i: "i \<le> length items"
  defines "off \<equiv> \<lambda>i. int (length (concat (map item_bytes (take i items))))"
  shows "\<exists>e j. j \<le> length items \<and> java_zip_next_entry (looping_archive items k h rest) (off i) = done_with (e, off j) \<and>
    ze_name e \<in> insert (zh_name h) ((zh_name \<circ> fst) ` set items)"
proof (cases "i < length items")
  case True
  let ?pre = "concat (map item_bytes (take i items))"
  have s: "items = take i items @ items ! i # drop (Suc i) items" using True by (rule id_take_nth_drop)
  have c: "concat (map item_bytes items) = ?pre @ item_bytes (items ! i) @ concat (map item_bytes (drop (Suc i) items))"
    using arg_cong [OF s, of "\<lambda>xs. concat (map item_bytes xs)"] by (simp only: map_append concat_append list.map concat.simps)
  obtain q where d: "looping_archive items k h rest = ?pre @ item_bytes (items ! i) @ q"
    unfolding looping_archive_def archive_def c by simp
  have "java_zip_next_entry (looping_archive items k h rest) (int (length ?pre)) =
      done_with (item_entry (items ! i), int (length (?pre @ item_bytes (items ! i))))"
    by (rule zip_next_item [OF _ d len]) (use ok(1) True in simp)
  then show ?thesis using True
    by (intro exI [of _ "item_entry (items ! i)"] exI [of _ "Suc i"])
      (simp add: off_def take_Suc_conv_app_nth item_entry_def)
next
  case False
  let ?pre = "concat (map item_bytes items)" and ?tail = "concat (map item_bytes (drop k items)) @ zip_local h 0"
  define c where "c = (- word_of_nat (length ?tail) :: u32)"
  have i: "take i items = items" using False i by simp
  have d: "looping_archive items k h rest = ?pre @ zip_local h c @ rest" by (simp add: looping_archive_def archive_def c_def)
  have split: "?pre = concat (map item_bytes (take k items)) @ concat (map item_bytes (drop k items))"
    by (metis append_take_drop_id concat_append map_append)
  have less: "length ?pre + length (zip_local h c) < 2147483648" using len by (subst (asm) d) simp
  then have "length ?tail \<le> 2147483648" by (simp add: split)
  then have c: "sint c = - int (length ?tail)" unfolding c_def by (rule sint_minus_length)
  have e: "int (length (?pre @ zip_local h c)) + sint c = off k" by (simp add: c off_def split)
  have "off k \<le> int (length ?pre)" by (simp add: off_def split)
  then have "int_add (int (length (?pre @ zip_local h c))) (sint c) = Some (off k)" "off k \<le> int (length (looping_archive items k h rest))"
    using e less unfolding d int_add_def by (simp_all add: off_def)
  from zip_next_local [OF ok(2) d this] show ?thesis using k by (auto simp: off_def i)
qed



section \<open>What the class parser guarantees\<close>

text \<open>Every string of the pool and every piece of code lies inside the file, and the arrays are not overrun.\<close>

definition utf8_in :: "bytes \<Rightarrow> jcp_entry \<Rightarrow> bool" where
  "utf8_in d e \<longleftrightarrow>
     (ce_tag e = 1 \<longrightarrow> 0 \<le> sint (ce_a e) \<and> 0 \<le> sint (ce_b e) \<and> sint (ce_b e) < 65536 \<and>
        sint (ce_a e) + sint (ce_b e) \<le> int (length d))"

definition code_in :: "bytes \<Rightarrow> jmethod \<Rightarrow> bool" where
  "code_in d m \<longleftrightarrow>
     (\<forall>c. jm_code m = Some c \<longrightarrow> 0 \<le> c \<and> (0 < sint (jm_code_len m) \<longrightarrow> c + sint (jm_code_len m) \<le> int (length d)))"

definition class_wf :: "jclass \<Rightarrow> bool" where
  "class_wf jc \<longleftrightarrow>
     length (jc_cp jc) = JVM_CP_MAX \<and> unat (jc_cp_count jc) \<le> JVM_CP_MAX \<and>
     (\<forall>e\<in>set (jc_cp jc). utf8_in (jc_bytes jc) e) \<and>
     length (jc_methods jc) \<le> JVM_METHOD_MAX \<and> (\<forall>m\<in>set (jc_methods jc). code_in (jc_bytes jc) m) \<and>
     length (jc_bytes jc) < 2147483648"

lemma byte_at_range: "byte_at d off = Some b \<Longrightarrow> 0 \<le> off \<and> off < int (length d)"
  by (auto simp: byte_at_def split: if_splits)

lemma sint_ucast16: "sint (ucast (w :: u16) :: u32) = uint w"
  using uint_lt2p [of w]
  by (simp add: sint_uint uint_up_ucast is_up signed_take_bit_int_eq_self_iff) (rule order_trans [OF _ uint_ge_0], simp)

lemma cp_body_utf8:
  assumes "cp_body d tag off = Some (Inr (a, b, off1))" "0 \<le> off" "length d < 2147483648"
  shows "utf8_in d \<lparr>ce_tag = tag, ce_a = a, ce_b = b\<rparr>"
proof (cases "tag = 1")
  case True
  then obtain len :: u16 where a: "a = word_of_int (off + 2)" and b: "b = ucast len" and le: "off + 2 + int (unat len) \<le> int (length d)"
    using assms(1) by (auto simp: cp_body_def Let_def bind_eq_Some_conv split: if_splits)
  have "sint a = off + 2" unfolding a by (rule sint_small) (use le assms(2,3) in linarith)+
  then show ?thesis using le assms(2) uint_lt2p [of len] by (simp add: utf8_in_def b sint_ucast16)
qed (simp add: utf8_in_def)

lemma update_all: "\<forall>x\<in>set xs. P x \<Longrightarrow> P v \<Longrightarrow> \<forall>x\<in>set (xs[i := v]). P x"
  using set_update_subset_insert [of xs i v] by blast

lemma cp_loop_wf:
  assumes "cp_loop d cnt i off cp = Some (Inr (cp', off'))" "\<forall>e\<in>set cp. utf8_in d e" "length d < 2147483648"
  shows "length cp' = length cp \<and> (\<forall>e\<in>set cp'. utf8_in d e)"
  using assms
proof (induction d cnt i off cp rule: cp_loop.induct)
  case (1 d cnt i off cp)
  show ?case
  proof (cases "i \<ge> cnt")
    case False
    with "1.prems"(1) obtain tag a b off1 where
      off: "off < int (length d)" and tag: "byte_at d off = Some tag" and body: "cp_body d tag (off + 1) = Some (Inr (a, b, off1))"
      by (subst (asm) cp_loop.simps) (auto simp: bind_eq_Some_conv pbind_done split: if_splits)
    let ?e = "\<lparr>ce_tag = tag, ce_a = a, ce_b = b\<rparr>"
    have e: "utf8_in d ?e" using cp_body_utf8 [OF body] byte_at_range [OF tag] "1.prems"(3) by simp
    have cp1: "\<forall>e\<in>set (cp[i := ?e]). utf8_in d e" using update_all [OF "1.prems"(2) e] .
    then have cp2: "\<forall>e\<in>set ((cp[i := ?e])[i + 1 := (cp[i := ?e] ! (i + 1))\<lparr>ce_tag := 0\<rparr>]). utf8_in d e"
      by (rule update_all) (simp add: utf8_in_def)
    show ?thesis
      using "1.IH" [OF False _ tag body refl refl refl] "1.prems" False off tag body cp1 cp2
      by (simp add: cp_loop.simps [of d cnt i] Let_def split: if_splits)
  qed (use "1.prems" in \<open>subst (asm) cp_loop.simps, simp\<close>)
qed

lemma method_code_wf:
  assumes "method_code d jc ni alen off off1 m = Some m'" "code_in d m" "0 \<le> off" "off1 \<le> int (length d)"
  shows "code_in d m'"
  using assms by (auto simp: method_code_def code_in_def int_add_def bind_eq_Some_conv split: if_splits)

lemma method_attrs_wf:
  assumes "method_attrs d jc k off m = Some (Inr (m', off'))" "code_in d m"
  shows "code_in d m'"
  using assms
proof (induction d jc k off m rule: method_attrs.induct)
  case (2 d jc k off m)
  then obtain ni alen off1 m1 where
    a: "\<not> int (length d) < off + 6" "rd_be16 d off = Some ni" "rd_be32 d (off + 2) = Some alen"
      "int_add (off + 6) (sint alen) = Some off1" "\<not> int (length d) < off1" "method_code d jc ni alen (off + 6) off1 m = Some m1"
    and rest: "method_attrs d jc k off1 m1 = Some (Inr (m', off'))"
    by (auto simp: bind_eq_Some_conv not_less split: if_splits)
  have "0 \<le> off + 6" using a(2) byte_at_range by (fastforce simp: rd_be16_def bind_eq_Some_conv)
  then have "code_in d m1" using method_code_wf [OF a(6) "2.prems"(2)] a(5) by simp
  then show ?case using "2.IH" [OF a rest] by simp
qed simp

lemma parse_methods_wf:
  assumes "parse_methods d k off jc = Some (Inr (jc', off'))" "class_wf jc" "jc_bytes jc = d"
  shows "class_wf jc' \<and> jc_bytes jc' = d \<and> jc_cp jc' = jc_cp jc \<and> jc_cp_count jc' = jc_cp_count jc \<and> jc_this jc' = jc_this jc"
  using assms
proof (induction d k off jc rule: parse_methods.induct)
  case (2 d k off jc)
  then obtain m off1 where m: "parse_method d jc off = Some (Inr (m, off1))" by (auto simp: pbind_done)
  then have code: "code_in d m"
    by (auto simp: parse_method_def bind_eq_Some_conv code_in_def split: if_splits dest!: method_attrs_wf)
  let ?jc = "if length (jc_methods jc) < JVM_METHOD_MAX then jc\<lparr>jc_methods := jc_methods jc @ [m]\<rparr> else jc"
  have "class_wf ?jc" "jc_bytes ?jc = d" using "2.prems" code by (auto simp: class_wf_def)
  then show ?case using "2.IH" [of "(m, off1)" m off1] "2.prems"(1) m by (auto split: if_splits)
qed simp

lemma parse_class_wf:
  assumes "jvm_parse_class d = Some (Inr jc)" "length d < 2147483648"
  shows "class_wf jc \<and> jc_bytes jc = d"
proof -
  obtain minor major cnt cp off where c: "cnt \<noteq> 0" "unat cnt \<le> JVM_CP_MAX"
    "cp_loop d (unat cnt) 1 10 (replicate JVM_CP_MAX jcp_zero) = Some (Inr (cp, off))"
    and body: "parse_body d \<lparr>jc_bytes = d, jc_minor = minor, jc_major = major, jc_cp_count = cnt, jc_cp = cp,
        jc_this = 0, jc_methods = []\<rparr> off = Some (Inr jc)"
    using assms(1) by (auto simp: jvm_parse_class_def bind_eq_Some_conv pbind_done split: if_splits)
  have cp: "length cp = JVM_CP_MAX" "\<forall>e\<in>set cp. utf8_in d e"
    using cp_loop_wf [OF c(3) _ assms(2)] by (auto simp: utf8_in_def jcp_zero_def)
  obtain this k off2 off3 where
    m: "parse_methods d k off2 \<lparr>jc_bytes = d, jc_minor = minor, jc_major = major, jc_cp_count = cnt, jc_cp = cp,
        jc_this = this, jc_methods = []\<rparr> = Some (Inr (jc, off3))"
    using body by (auto simp: parse_body_def Let_def bind_eq_Some_conv pbind_done split: if_splits)
  show ?thesis using parse_methods_wf [OF m] cp c(2) assms(2) by (auto simp: class_wf_def)
qed

section \<open>Class files as the format describes them\<close>

text \<open>
  A class file from its parts.  The constants carry their tags; a \<open>Wide\<close> one fills two places
  of the pool.  An attribute is the code of a method or something the parser skips.
\<close>

datatype const = Utf8 bytes | Num u8 u32 | Wide u8 bytes | Ref1 u8 u16 | Ref2 u8 u16 u16 | Handle u8 u16

datatype attr = Code_attr u16 u16 u16 bytes bytes | Other_attr u16 bytes

record member =
  mb_flags :: u16
  mb_name :: u16
  mb_desc :: u16
  mb_attrs :: "attr list"

record class_parts =
  cl_minor :: u16
  cl_major :: u16
  cl_consts :: "const list"
  cl_access :: u16
  cl_this :: u16
  cl_super :: u16
  cl_ifs :: "u16 list"
  cl_fields :: "member list"
  cl_methods :: "member list"
  cl_attrs :: "attr list"

fun const_bytes :: "const \<Rightarrow> bytes" where
  "const_bytes (Utf8 s) = 1 # be16 (word_of_nat (length s)) @ s"
| "const_bytes (Num tag v) = tag # be32 v"
| "const_bytes (Wide tag v) = tag # v"
| "const_bytes (Ref1 tag a) = tag # be16 a"
| "const_bytes (Ref2 tag a b) = tag # be16 a @ be16 b"
| "const_bytes (Handle a b) = 15 # a # be16 b"

fun const_ok :: "const \<Rightarrow> bool" where
  "const_ok (Utf8 s) \<longleftrightarrow> length s < 65536"
| "const_ok (Num tag v) \<longleftrightarrow> tag \<in> {3, 4}"
| "const_ok (Wide tag v) \<longleftrightarrow> tag \<in> {5, 6} \<and> length v = 8"
| "const_ok (Ref1 tag a) \<longleftrightarrow> tag \<in> {7, 8, 16}"
| "const_ok (Ref2 tag a b) \<longleftrightarrow> tag \<in> {9, 10, 11, 12, 18}"
| "const_ok (Handle a b) \<longleftrightarrow> True"

text \<open>The constants by their index: a wide one is followed by an unusable place, index 0 is unused.\<close>

fun slots :: "const list \<Rightarrow> const option list" where
  "slots [] = []"
| "slots (c # cs) = Some c # (case c of Wide _ _ \<Rightarrow> [None] | _ \<Rightarrow> []) @ slots cs"

definition utf8_at :: "const list \<Rightarrow> u16 \<Rightarrow> bytes option" where
  "utf8_at cs i =
     (if i = 0 \<or> unat i > length (slots cs) then None
      else case slots cs ! (unat i - 1) of Some (Utf8 s) \<Rightarrow> Some s | _ \<Rightarrow> None)"

text \<open>
  What the pool must hold for a constant: its tag and its fields, as numbers.  The parser keeps
  the tag of a wide constant and drops its value; the unusable place has the tag 0.
\<close>

fun slot_is :: "jcp_entry \<Rightarrow> const option \<Rightarrow> bool" where
  "slot_is e None \<longleftrightarrow> ce_tag e = 0"
| "slot_is e (Some (Utf8 s)) \<longleftrightarrow> ce_tag e = 1 \<and> unat (ce_b e) = length s"
| "slot_is e (Some (Num tag v)) \<longleftrightarrow> ce_tag e = tag \<and> unat (ce_a e) = unat v"
| "slot_is e (Some (Wide tag v)) \<longleftrightarrow> ce_tag e = tag"
| "slot_is e (Some (Ref1 tag a)) \<longleftrightarrow> ce_tag e = tag \<and> unat (ce_a e) = unat a"
| "slot_is e (Some (Ref2 tag a b)) \<longleftrightarrow> ce_tag e = tag \<and> unat (ce_a e) = unat a \<and> unat (ce_b e) = unat b"
| "slot_is e (Some (Handle a b)) \<longleftrightarrow> ce_tag e = 15 \<and> unat (ce_a e) = unat a \<and> unat (ce_b e) = unat b"

text \<open>The class, name and descriptor of a member reference, read off the constants.\<close>

definition const_at :: "const list \<Rightarrow> u16 \<Rightarrow> const option" where
  "const_at cs i = (if i = 0 \<or> unat i > length (slots cs) then None else slots cs ! (unat i - 1))"

definition class_at :: "const list \<Rightarrow> u16 \<Rightarrow> bytes option" where
  "class_at cs i = (case const_at cs i of Some (Ref1 tag u) \<Rightarrow> if tag = 7 then utf8_at cs u else None | _ \<Rightarrow> None)"

definition pair_at :: "const list \<Rightarrow> u16 \<Rightarrow> (bytes \<times> bytes) option" where
  "pair_at cs i =
     (case const_at cs i of
        Some (Ref2 tag x y) \<Rightarrow>
          if tag = 12 then (case (utf8_at cs x, utf8_at cs y) of (Some nm, Some ty) \<Rightarrow> Some (nm, ty) | _ \<Rightarrow> None) else None
      | _ \<Rightarrow> None)"

definition member_at :: "const list \<Rightarrow> u16 \<Rightarrow> u8 \<Rightarrow> (bytes \<times> bytes \<times> bytes) option" where
  "member_at cs i kind =
     (case const_at cs i of
        Some (Ref2 tag x y) \<Rightarrow>
          if tag = kind then
            (case (class_at cs x, pair_at cs y) of (Some cls, Some (nm, ty)) \<Rightarrow> Some (cls, nm, ty) | _ \<Rightarrow> None)
          else None
      | _ \<Rightarrow> None)"

fun attr_body :: "attr \<Rightarrow> bytes" where
  "attr_body (Code_attr n ms ml code rest) = be16 ms @ be16 ml @ be32 (word_of_nat (length code)) @ code @ rest"
| "attr_body (Other_attr n body) = body"

fun attr_name :: "attr \<Rightarrow> u16" where
  "attr_name (Code_attr n ms ml code rest) = n"
| "attr_name (Other_attr n body) = n"

definition attr_bytes :: "attr \<Rightarrow> bytes" where
  "attr_bytes a = be16 (attr_name a) @ be32 (word_of_nat (length (attr_body a))) @ attr_body a"

fun attr_ok :: "const list \<Rightarrow> attr \<Rightarrow> bool" where
  "attr_ok cs (Code_attr n ms ml code rest) \<longleftrightarrow> utf8_at cs n = Some (lit ''Code'')"
| "attr_ok cs (Other_attr n body) \<longleftrightarrow> utf8_at cs n \<noteq> Some (lit ''Code'')"

definition attrs_bytes :: "attr list \<Rightarrow> bytes" where
  "attrs_bytes as = be16 (word_of_nat (length as)) @ concat (map attr_bytes as)"

definition member_bytes :: "member \<Rightarrow> bytes" where
  "member_bytes m = be16 (mb_flags m) @ be16 (mb_name m) @ be16 (mb_desc m) @ attrs_bytes (mb_attrs m)"

definition class_bytes :: "class_parts \<Rightarrow> bytes" where
  "class_bytes c =
     be32 0xCAFEBABE @ be16 (cl_minor c) @ be16 (cl_major c) @ be16 (word_of_nat (1 + length (slots (cl_consts c)))) @
     concat (map const_bytes (cl_consts c)) @
     be16 (cl_access c) @ be16 (cl_this c) @ be16 (cl_super c) @
     be16 (word_of_nat (length (cl_ifs c))) @ concat (map be16 (cl_ifs c)) @
     be16 (word_of_nat (length (cl_fields c))) @ concat (map member_bytes (cl_fields c)) @
     be16 (word_of_nat (length (cl_methods c))) @ concat (map member_bytes (cl_methods c)) @
     attrs_bytes (cl_attrs c)"

definition members_ok :: "const list \<Rightarrow> member list \<Rightarrow> bool" where
  "members_ok cs ms \<longleftrightarrow>
     length ms < 65536 \<and> (\<forall>m\<in>set ms. length (mb_attrs m) < 65536 \<and> (\<forall>a\<in>set (mb_attrs m). attr_ok cs a))"

definition class_ok :: "class_parts \<Rightarrow> bool" where
  "class_ok c \<longleftrightarrow>
     (\<forall>k\<in>set (cl_consts c). const_ok k) \<and> length (slots (cl_consts c)) \<le> 255 \<and>
     length (cl_ifs c) < 65536 \<and> members_ok (cl_consts c) (cl_fields c) \<and> members_ok (cl_consts c) (cl_methods c) \<and>
     length (cl_attrs c) < 65536 \<and> length (class_bytes c) < 2147483648"

text \<open>What the interpreter needs of a method: flags, name, descriptor and the code with its limits.\<close>

fun attr_code :: "attr \<Rightarrow> (u16 \<times> u16 \<times> bytes) option \<Rightarrow> (u16 \<times> u16 \<times> bytes) option" where
  "attr_code (Code_attr n ms ml code rest) r = Some (ms, ml, code)"
| "attr_code (Other_attr n body) r = r"

definition member_view :: "member \<Rightarrow> u16 \<times> u16 \<times> u16 \<times> (u16 \<times> u16 \<times> bytes) option" where
  "member_view m = (mb_flags m, mb_name m, mb_desc m, fold attr_code (mb_attrs m) None)"

definition code_view :: "bytes \<Rightarrow> jmethod \<Rightarrow> (u16 \<times> u16 \<times> bytes) option" where
  "code_view d m =
     map_option (\<lambda>c. (max_stack m, max_locals m, sub_bytes d c (sint (jm_code_len m)))) (jm_code m)"

definition method_view :: "bytes \<Rightarrow> jmethod \<Rightarrow> u16 \<times> u16 \<times> u16 \<times> (u16 \<times> u16 \<times> bytes) option" where
  "method_view d m = (access_flags m, name_index m, desc_index m, code_view d m)"

subsection \<open>The constant pool\<close>

fun const_entry :: "int \<Rightarrow> const \<Rightarrow> jcp_entry" where
  "const_entry off (Utf8 s) = \<lparr>ce_tag = 1, ce_a = word_of_int (off + 3), ce_b = word_of_nat (length s)\<rparr>"
| "const_entry off (Num tag v) = \<lparr>ce_tag = tag, ce_a = v, ce_b = 0\<rparr>"
| "const_entry off (Wide tag v) = \<lparr>ce_tag = tag, ce_a = 0, ce_b = 0\<rparr>"
| "const_entry off (Ref1 tag a) = \<lparr>ce_tag = tag, ce_a = ucast a, ce_b = 0\<rparr>"
| "const_entry off (Ref2 tag a b) = \<lparr>ce_tag = tag, ce_a = ucast a, ce_b = ucast b\<rparr>"
| "const_entry off (Handle a b) = \<lparr>ce_tag = 15, ce_a = ucast a, ce_b = ucast b\<rparr>"

fun pool_image :: "int \<Rightarrow> const list \<Rightarrow> jcp_entry list" where
  "pool_image off [] = []"
| "pool_image off (c # cs) =
     const_entry off c # (case c of Wide _ _ \<Rightarrow> [jcp_zero] | _ \<Rightarrow> []) @ pool_image (off + int (length (const_bytes c))) cs"

lemma pool_image_length: "length (pool_image off cs) = length (slots cs)"
  by (induction cs arbitrary: off) (auto split: const.split)

lemma unat_wide: "unat (ucast (a :: u16) :: u32) = unat a" "unat (ucast (b :: u8) :: u32) = unat b"
proof -
  have "unat a < 2 ^ 32" "unat b < 2 ^ 32" by (rule less_le_trans [OF unsigned_less], simp)+
  then show "unat (ucast a :: u32) = unat a" "unat (ucast b :: u32) = unat b"
    by (simp_all add: unsigned_ucast_eq take_bit_nat_eq_self)
qed

lemma unat_narrow: "unat (w :: u32) = unat (a :: u16) \<Longrightarrow> ucast w = a"
proof -
  have "unat a < 2 ^ LENGTH(16)" by (rule unsigned_less)
  then show "unat w = unat a \<Longrightarrow> ucast w = a"
    by (simp add: word_unat_eq_iff unsigned_ucast_eq take_bit_nat_eq_self)
qed

lemma pool_image_slots: "\<forall>c\<in>set cs. const_ok c \<Longrightarrow> list_all2 slot_is (pool_image off cs) (slots cs)"
proof (induction cs arbitrary: off)
  case (Cons c cs)
  have "slot_is (const_entry off c) (Some c)"
    using Cons.prems by (cases c) (simp_all add: unat_wide unsigned_of_nat take_bit_nat_eq_self)
  then show ?case using Cons by (cases c) (simp_all add: jcp_zero_def)
qed simp

lemmas be_reads = rd_be16_def rd_be32_def be16_def be32_def byte_at_app byte_at_app0 add.assoc split_words split_words32_be

lemma cp_body_const:
  assumes "const_ok c" and d: "d = pre @ const_bytes c @ post"
  shows "byte_at d (int (length pre)) = Some (ce_tag (const_entry (int (length pre)) c)) \<and>
    cp_body d (ce_tag (const_entry (int (length pre)) c)) (int (length pre) + 1) =
      done_with (ce_a (const_entry (int (length pre)) c), ce_b (const_entry (int (length pre)) c),
        int (length pre) + int (length (const_bytes c)))"
proof (cases c)
  case (Utf8 s)
  then have n: "length s < 65536" using assms(1) by simp
  then have "(ucast (word_of_nat (length s) :: u16) :: u32) = word_of_nat (length s)"
    by (simp add: unsigned_of_nat take_bit_nat_eq_self)
  moreover have "uint (word_of_nat (length s) :: u16) = int (length s)" by (simp only: uint_nat u16_length [OF n])
  ultimately show ?thesis by (simp add: d Utf8 cp_body_def be_reads)
qed (use assms in \<open>auto simp: cp_body_def be_reads\<close>)

lemma entry_eta: "\<lparr>ce_tag = ce_tag e, ce_a = ce_a e, ce_b = ce_b e\<rparr> = e"
  by (cases e) simp

lemma jcp_zero_tag: "jcp_zero\<lparr>ce_tag := 0\<rparr> = jcp_zero"
  by (simp add: jcp_zero_def)

lemma cp_loop_pool:
  assumes "\<forall>c\<in>set cs. const_ok c" and "cnt = length xs + length (slots cs)"
    and "d = pre @ concat (map const_bytes cs) @ post" and "length (slots cs) \<le> k"
  shows "cp_loop d cnt (length xs) (int (length pre)) (xs @ replicate k jcp_zero) =
    done_with (xs @ pool_image (int (length pre)) cs @ replicate (k - length (slots cs)) jcp_zero,
      int (length (pre @ concat (map const_bytes cs))))"
  using assms
proof (induction cs arbitrary: xs pre k)
  case Nil
  then show ?case by (simp add: cp_loop.simps)
next
  case (Cons c cs)
  let ?o = "int (length pre)" and ?e = "const_entry (int (length pre)) c"
  define zs where "zs = (case c of Wide _ _ \<Rightarrow> [jcp_zero] | _ \<Rightarrow> [])"
  have s: "slots (c # cs) = Some c # map (\<lambda>_. None) zs @ slots cs" by (cases c) (simp_all add: zs_def)
  have wide: "ce_tag ?e = 5 \<or> ce_tag ?e = 6 \<longleftrightarrow> zs = [jcp_zero]" "zs = [jcp_zero] \<or> zs = []"
    using Cons.prems(1) by (cases c; auto simp: zs_def)+
  note b = cp_body_const [of c d pre "concat (map const_bytes cs) @ post"]
  have body: "byte_at d ?o = Some (ce_tag ?e)"
    "cp_body d (ce_tag ?e) (?o + 1) = done_with (ce_a ?e, ce_b ?e, ?o + int (length (const_bytes c)))"
    using b Cons.prems(1,3) by simp_all
  have len: "?o < int (length d)" using body(1) byte_at_range by blast
  obtain k1 where k: "k = Suc (length zs + k1)" using that [of "k - Suc (length zs)"] Cons.prems(4) by (simp add: s del: slots.simps)
  have up: "(xs @ replicate k jcp_zero)[length xs := ?e] = xs @ ?e # zs @ replicate k1 jcp_zero"
    using wide(2) by (auto simp: k)
  have "cp_loop d cnt (length xs) ?o (xs @ replicate k jcp_zero) =
    cp_loop d cnt (length (xs @ ?e # zs)) (?o + int (length (const_bytes c))) ((xs @ ?e # zs) @ replicate k1 jcp_zero)"
  proof (cases "zs = []")
    case True
    then show ?thesis using wide(1) Cons.prems(2) len
      by (subst cp_loop.simps) (simp add: body s up Let_def entry_eta del: slots.simps)
  next
    case False
    then have "k = Suc (Suc k1)" using wide(2) by (auto simp: k)
    then show ?thesis using False wide Cons.prems(2) len
      by (subst cp_loop.simps)
        (simp add: body s Let_def entry_eta jcp_zero_tag nth_append list_update_append del: slots.simps)
  qed
  also have "\<dots> = done_with ((xs @ ?e # zs) @ pool_image (int (length (pre @ const_bytes c))) cs @
      replicate (k1 - length (slots cs)) jcp_zero, int (length ((pre @ const_bytes c) @ concat (map const_bytes cs))))"
    using Cons.IH [of "xs @ ?e # zs" "pre @ const_bytes c" k1] Cons.prems by (simp add: s k del: slots.simps)
  finally show ?case by (simp add: s k zs_def [symmetric] del: slots.simps)
qed

lemma pool_utf8:
  assumes "\<forall>c\<in>set cs. const_ok c" and "d = pre @ concat (map const_bytes cs) @ post" and "length d < 2147483648"
    and "j < length (slots cs)"
  shows "case slots cs ! j of
      Some (Utf8 s) \<Rightarrow> ce_tag (pool_image (int (length pre)) cs ! j) = 1 \<and>
        sint (ce_a (pool_image (int (length pre)) cs ! j)) + sint (ce_b (pool_image (int (length pre)) cs ! j)) \<le> int (length d) \<and>
        sub_bytes d (sint (ce_a (pool_image (int (length pre)) cs ! j)))
          (int (unat (ucast (ce_b (pool_image (int (length pre)) cs ! j)) :: u16))) = s
    | _ \<Rightarrow> ce_tag (pool_image (int (length pre)) cs ! j) \<noteq> 1"
  using assms
proof (induction cs arbitrary: pre j)
  case (Cons c cs)
  define zs where "zs = (case c of Wide _ _ \<Rightarrow> [jcp_zero] | _ \<Rightarrow> [])"
  have s: "slots (c # cs) = (Some c # map (\<lambda>_. None) zs) @ slots cs"
    "pool_image (int (length pre)) (c # cs) =
       (const_entry (int (length pre)) c # zs) @ pool_image (int (length (pre @ const_bytes c))) cs"
    by (cases c, simp_all add: zs_def)
  have zs: "zs = [] \<or> zs = [jcp_zero]" by (cases c) (simp_all add: zs_def)
  have j: "j < Suc (length zs) + length (slots cs)" using Cons.prems(4) by (simp add: s del: slots.simps)
  consider "j = 0" | "j = 1" "zs = [jcp_zero]" | "Suc (length zs) \<le> j"
    using zs by (cases "Suc (length zs) \<le> j") (auto simp: not_le less_Suc_eq)
  then show ?case
  proof cases
    case 1
    show ?thesis
    proof (cases c)
      case (Utf8 t)
      have n: "length t < 65536" "length pre + 3 + length t \<le> length d" using Cons.prems(1,2) Utf8 by simp_all
      have a: "sint (word_of_nat (length pre) + 3 :: u32) = int (length pre) + 3"
        using sint_small [of "int (length pre) + 3"] n Cons.prems(3) by simp
      have b: "sint (word_of_nat (length t) :: u32) = int (length t)" using n(1) by (simp add: sint_length)
      have u: "unat (ucast (word_of_nat (length t) :: u32) :: u16) = length t"
        using n(1) by (simp add: unsigned_of_nat take_bit_nat_eq_self unat_of_nat)
      have "sub_bytes d (int (length pre) + 3) (int (length t)) = t"
        by (rule sub_bytes_at [of _ "pre @ take 3 (const_bytes c)" _ "concat (map const_bytes cs) @ post"])
          (simp_all add: Cons.prems(2) Utf8 be16_def)
      then show ?thesis using n by (simp add: 1 Utf8 a b u)
    qed (use 1 Cons.prems(1) in auto)
  next
    case 2
    then show ?thesis unfolding s by (simp add: jcp_zero_def)
  next
    case 3
    define j1 where "j1 = j - Suc (length zs)"
    have j1: "j = Suc (length zs) + j1" "j1 < length (slots cs)" using 3 j by (simp_all add: j1_def)
    have e: "slots (c # cs) ! j = slots cs ! j1"
      "pool_image (int (length pre)) (c # cs) ! j = pool_image (int (length (pre @ const_bytes c))) cs ! j1"
      unfolding s j1(1) by (simp_all add: nth_append)
    show ?thesis unfolding e by (rule Cons.IH) (use Cons.prems j1(2) in simp_all)
  qed
qed simp

subsection \<open>Members\<close>

lemma rd_header:
  "rd_be16 (pre @ be16 a @ be16 b @ be16 c @ be16 e @ post) (int (length pre)) = Some a"
  "rd_be16 (pre @ be16 a @ be16 b @ be16 c @ be16 e @ post) (int (length pre) + 2) = Some b"
  "rd_be16 (pre @ be16 a @ be16 b @ be16 c @ be16 e @ post) (int (length pre) + 4) = Some c"
  "rd_be16 (pre @ be16 a @ be16 b @ be16 c @ be16 e @ post) (int (length pre) + 6) = Some e"
  by (simp_all add: be_reads)

lemma rd_code:
  "rd_be16 (q @ be16 a @ be16 b @ be32 v @ post) (int (length q)) = Some a"
  "rd_be16 (q @ be16 a @ be16 b @ be32 v @ post) (int (length q) + 2) = Some b"
  "rd_be32 (q @ be16 a @ be16 b @ be32 v @ post) (int (length q) + 4) = Some v"
  by (simp_all add: be_reads)

lemma attr_read:
  assumes "d = pre @ attr_bytes a @ post" and "length d < 2147483648"
  shows "rd_be16 d (int (length pre)) = Some (attr_name a) \<and>
    rd_be32 d (int (length pre) + 2) = Some (word_of_nat (length (attr_body a))) \<and>
    sint (word_of_nat (length (attr_body a)) :: u32) = int (length (attr_body a)) \<and>
    int_add (int (length pre) + 6) (int (length (attr_body a))) = Some (int (length (pre @ attr_bytes a))) \<and>
    int (length pre) + 6 \<le> int (length d) \<and> int (length (pre @ attr_bytes a)) \<le> int (length d)"
proof -
  have n: "sint (word_of_nat (length (attr_body a)) :: u32) = int (length (attr_body a))"
    using assms by (intro sint_length) (simp add: attr_bytes_def)
  show ?thesis unfolding n using assms(2) by (simp add: assms(1) attr_bytes_def be_reads int_add_def)
qed

lemma skip_attrs_bytes:
  assumes "d = pre @ concat (map attr_bytes as) @ post" and "length d < 2147483648"
  shows "skip_attrs d (length as) (int (length pre)) = done_with (int (length (pre @ concat (map attr_bytes as))))"
  using assms(1)
proof (induction as arbitrary: pre)
  case (Cons a as)
  have r: "d = pre @ attr_bytes a @ (concat (map attr_bytes as) @ post)" using Cons.prems by simp
  note r = attr_read [OF r assms(2)]
  have "skip_attrs d (length as) (int (length (pre @ attr_bytes a))) = done_with (int (length ((pre @ attr_bytes a) @ concat (map attr_bytes as))))"
    by (rule Cons.IH) (use Cons.prems in simp)
  then show ?case using r by (simp add: not_less)
qed simp

lemma skip_members_bytes:
  assumes "d = pre @ concat (map member_bytes ms) @ post" and "length d < 2147483648"
    and "\<forall>m\<in>set ms. length (mb_attrs m) < 65536"
  shows "skip_members d (length ms) (int (length pre)) = done_with (int (length (pre @ concat (map member_bytes ms))))"
  using assms(1,3)
proof (induction ms arbitrary: pre)
  case (Cons m ms)
  let ?h = "be16 (mb_flags m) @ be16 (mb_name m) @ be16 (mb_desc m) @ be16 (word_of_nat (length (mb_attrs m)))"
  have d: "d = (pre @ ?h) @ concat (map attr_bytes (mb_attrs m)) @ (concat (map member_bytes ms) @ post)"
    using Cons.prems by (simp add: member_bytes_def [of m] attrs_bytes_def)
  have "rd_be16 d (int (length pre) + 6) = Some (word_of_nat (length (mb_attrs m)))" unfolding d by (simp add: rd_header)
  then have "parse_member_info_skip d (int (length pre)) = done_with (int (length (pre @ member_bytes m)))"
    using skip_attrs_bytes [OF d assms(2)] Cons.prems(2) d
    by (simp add: parse_member_info_skip_def u16_length member_bytes_def [of m] attrs_bytes_def add.assoc)
  moreover have "skip_members d (length ms) (int (length (pre @ member_bytes m))) =
      done_with (int (length ((pre @ member_bytes m) @ concat (map member_bytes ms))))"
    by (rule Cons.IH) (use Cons.prems in simp_all)
  ultimately show ?case by simp
qed simp

definition same_header :: "jmethod \<Rightarrow> jmethod \<Rightarrow> bool" where
  "same_header m m' \<longleftrightarrow> access_flags m' = access_flags m \<and> name_index m' = name_index m \<and> desc_index m' = desc_index m"

lemma method_code_attr:
  assumes d: "d = pre @ attr_bytes a @ post" "length d < 2147483648" and a: "attr_ok cs a"
    and u: "\<forall>i. cp_utf8 jc i = utf8_at cs i"
  shows "\<exists>m'. method_code d jc (attr_name a) (word_of_nat (length (attr_body a))) (int (length pre) + 6)
      (int (length (pre @ attr_bytes a))) m = Some m' \<and> same_header m m' \<and> code_view d m' = attr_code a (code_view d m)"
proof (cases a)
  case (Code_attr n ms ml code rest)
  define q where "q = pre @ be16 n @ be32 (word_of_nat (length (attr_body a)))"
  have q: "d = q @ be16 ms @ be16 ml @ be32 (word_of_nat (length code)) @ code @ rest @ post" "int (length pre) + 6 = int (length q)"
    using d(1) Code_attr by (simp_all add: q_def attr_bytes_def)
  have "length (attr_body a) < 2 ^ 32" "8 \<le> length (attr_body a)"
    using d Code_attr by (simp_all add: attr_bytes_def)
  then have big: "8 \<le> (word_of_nat (length (attr_body a)) :: u32)"
    by (simp add: word_le_nat_alt unat_of_nat take_bit_nat_eq_self)
  have len: "sint (word_of_nat (length code) :: u32) = int (length code)"
    using d(2) q(1) by (intro sint_length) simp
  have r: "rd_be32 d (int (length q) + 4) = Some (word_of_nat (length code))" "rd_be16 d (int (length q)) = Some ms"
    "rd_be16 d (int (length q) + 2) = Some ml"
    unfolding q(1) by (simp_all only: rd_code)
  have "sub_bytes d (int (length q) + 8) (int (length code)) = code"
    by (rule sub_bytes_at [of _ "q @ be16 ms @ be16 ml @ be32 (word_of_nat (length code))" _ "rest @ post"])
      (simp_all add: q(1))
  moreover have "int_add (int (length q) + 8) (int (length code)) = Some (int (length q) + 8 + int (length code))"
    "int (length q) + 8 \<le> int (length d)" "int (length q) + 8 + int (length code) \<le> int (length (pre @ attr_bytes a))"
    using d(2) q Code_attr by (simp_all add: int_add_def attr_bytes_def q_def)
  moreover have "cp_utf8_eq jc n (lit ''Code'')" using a u Code_attr by (simp add: cp_utf8_eq_def bytes_eq_lit_def)
  ultimately show ?thesis
    using big unfolding q(2)
    by (simp add: Code_attr method_code_def r len same_header_def code_view_def del: lit_Cons)
next
  case (Other_attr n body)
  then have "\<not> cp_utf8_eq jc n (lit ''Code'')" using a u by (auto simp: cp_utf8_eq_def bytes_eq_lit_def split: option.split)
  then show ?thesis by (simp add: Other_attr method_code_def same_header_def del: lit_Cons)
qed

lemma method_attrs_bytes:
  assumes "d = pre @ concat (map attr_bytes as) @ post" and len: "length d < 2147483648" and "\<forall>a\<in>set as. attr_ok cs a"
    and u: "\<forall>i. cp_utf8 jc i = utf8_at cs i"
  shows "\<exists>m'. method_attrs d jc (length as) (int (length pre)) m = done_with (m', int (length (pre @ concat (map attr_bytes as)))) \<and>
    same_header m m' \<and> code_view d m' = fold attr_code as (code_view d m)"
  using assms(1,3)
proof (induction as arbitrary: pre m)
  case Nil
  then show ?case by (simp add: same_header_def)
next
  case (Cons a as)
  have d: "d = pre @ attr_bytes a @ (concat (map attr_bytes as) @ post)" using Cons.prems by simp
  note r = attr_read [OF d len]
  obtain m1 where m1: "method_code d jc (attr_name a) (word_of_nat (length (attr_body a))) (int (length pre) + 6)
      (int (length (pre @ attr_bytes a))) m = Some m1" "same_header m m1" "code_view d m1 = attr_code a (code_view d m)"
    using method_code_attr [OF d len _ u] Cons.prems(2) by auto
  obtain m' where m': "method_attrs d jc (length as) (int (length (pre @ attr_bytes a))) m1 =
      done_with (m', int (length ((pre @ attr_bytes a) @ concat (map attr_bytes as))))"
    "same_header m1 m'" "code_view d m' = fold attr_code as (code_view d m1)"
    using Cons.IH [of "pre @ attr_bytes a" m1] Cons.prems by auto
  have "method_attrs d jc (length (a # as)) (int (length pre)) m = method_attrs d jc (length as) (int (length (pre @ attr_bytes a))) m1"
    using r m1(1) by (simp add: not_less)
  then show ?case using m1(2,3) m' by (auto simp: same_header_def)
qed

lemma parse_method_bytes:
  assumes d: "d = pre @ member_bytes mb @ post" "length d < 2147483648"
    and m: "length (mb_attrs mb) < 65536" "\<forall>a\<in>set (mb_attrs mb). attr_ok cs a" and u: "\<forall>i. cp_utf8 jc i = utf8_at cs i"
  shows "\<exists>m. parse_method d jc (int (length pre)) = done_with (m, int (length (pre @ member_bytes mb))) \<and>
    method_view d m = member_view mb"
proof -
  define h where "h = be16 (mb_flags mb) @ be16 (mb_name mb) @ be16 (mb_desc mb) @ be16 (word_of_nat (length (mb_attrs mb)))"
  have h: "d = (pre @ h) @ concat (map attr_bytes (mb_attrs mb)) @ post" "length h = 8"
    "pre @ member_bytes mb = (pre @ h) @ concat (map attr_bytes (mb_attrs mb))"
    using d(1) by (simp_all add: h_def member_bytes_def attrs_bytes_def)
  have "rd_be16 d (int (length pre)) = Some (mb_flags mb)" "rd_be16 d (int (length pre) + 2) = Some (mb_name mb)"
    "rd_be16 d (int (length pre) + 4) = Some (mb_desc mb)" "rd_be16 d (int (length pre) + 6) = Some (word_of_nat (length (mb_attrs mb)))"
    unfolding d(1) member_bytes_def attrs_bytes_def append.assoc by (simp_all only: rd_header)
  moreover obtain m' where "method_attrs d jc (length (mb_attrs mb)) (int (length (pre @ h)))
      \<lparr>access_flags = mb_flags mb, name_index = mb_name mb, desc_index = mb_desc mb, max_stack = 0, max_locals = 0,
        jm_code = None, jm_code_len = 0\<rparr> = done_with (m', int (length (pre @ member_bytes mb)))"
    "access_flags m' = mb_flags mb \<and> name_index m' = mb_name mb \<and> desc_index m' = mb_desc mb"
    "code_view d m' = fold attr_code (mb_attrs mb) None"
    using method_attrs_bytes [OF h(1) d(2) m(2) u, of "\<lparr>access_flags = mb_flags mb, name_index = mb_name mb, desc_index = mb_desc mb,
        max_stack = 0, max_locals = 0, jm_code = None, jm_code_len = 0\<rparr>"]
    unfolding h(3) same_header_def by (auto simp: code_view_def)
  moreover have "int (length pre) + 8 \<le> int (length d)" using h by simp
  ultimately show ?thesis
    using m(1) h(2) by (simp add: parse_method_def u16_length method_view_def member_view_def)
qed

lemma cp_utf8_methods: "cp_utf8 (jc\<lparr>jc_methods := ms\<rparr>) i = cp_utf8 jc i"
  by (simp add: cp_utf8_def cp_entry_def cong: if_cong)

lemma parse_methods_bytes:
  assumes "d = pre @ concat (map member_bytes mbs) @ post" and len: "length d < 2147483648"
    and "\<forall>m\<in>set mbs. length (mb_attrs m) < 65536 \<and> (\<forall>a\<in>set (mb_attrs m). attr_ok cs a)"
    and "\<forall>i. cp_utf8 jc i = utf8_at cs i" and "length (jc_methods jc) \<le> JVM_METHOD_MAX"
  shows "\<exists>ms. parse_methods d (length mbs) (int (length pre)) jc =
      done_with (jc\<lparr>jc_methods := ms\<rparr>, int (length (pre @ concat (map member_bytes mbs)))) \<and>
    map (method_view d) ms = take JVM_METHOD_MAX (map (method_view d) (jc_methods jc) @ map member_view mbs)"
  using assms(1,3,4,5)
proof (induction mbs arbitrary: pre jc)
  case Nil
  then show ?case by (intro exI [of _ "jc_methods jc"]) simp
next
  case (Cons mb mbs)
  have d: "d = pre @ member_bytes mb @ (concat (map member_bytes mbs) @ post)" using Cons.prems(1) by simp
  obtain m where m: "parse_method d jc (int (length pre)) = done_with (m, int (length (pre @ member_bytes mb)))"
    "method_view d m = member_view mb"
    using parse_method_bytes [OF d len _ _ Cons.prems(3)] Cons.prems(2) by auto
  define jc1 where "jc1 = (if length (jc_methods jc) < JVM_METHOD_MAX then jc\<lparr>jc_methods := jc_methods jc @ [m]\<rparr> else jc)"
  have jc1: "\<forall>i. cp_utf8 jc1 i = utf8_at cs i" "length (jc_methods jc1) \<le> JVM_METHOD_MAX" "jc1\<lparr>jc_methods := ms\<rparr> = jc\<lparr>jc_methods := ms\<rparr>" for ms
    using Cons.prems(3,4) by (auto simp: jc1_def cp_utf8_methods)
  have "\<exists>ms. parse_methods d (length mbs) (int (length (pre @ member_bytes mb))) jc1 =
      done_with (jc1\<lparr>jc_methods := ms\<rparr>, int (length ((pre @ member_bytes mb) @ concat (map member_bytes mbs)))) \<and>
    map (method_view d) ms = take JVM_METHOD_MAX (map (method_view d) (jc_methods jc1) @ map member_view mbs)"
    by (rule Cons.IH) (use Cons.prems(1,2) jc1 in simp_all)
  then obtain ms where ms: "parse_methods d (length mbs) (int (length (pre @ member_bytes mb))) jc1 =
      done_with (jc1\<lparr>jc_methods := ms\<rparr>, int (length ((pre @ member_bytes mb) @ concat (map member_bytes mbs))))"
    "map (method_view d) ms = take JVM_METHOD_MAX (map (method_view d) (jc_methods jc1) @ map member_view mbs)"
    by (elim exE conjE)
  have "map (method_view d) ms = take JVM_METHOD_MAX (map (method_view d) (jc_methods jc) @ map member_view (mb # mbs))"
    using ms(2) m(2) Cons.prems(4) by (auto simp: jc1_def take_Cons' split: if_splits)
  moreover have "parse_methods d (length (mb # mbs)) (int (length pre)) jc = parse_methods d (length mbs) (int (length (pre @ member_bytes mb))) jc1"
    using m(1) by (simp add: jc1_def)
  ultimately show ?case using ms(1) jc1(3) by auto
qed

subsection \<open>The whole file\<close>

lemma concat_be16_length [simp]: "length (concat (map be16 ws)) = 2 * length ws"
  by (induction ws) simp_all

lemma cp_utf8_pool:
  assumes cs: "\<forall>k\<in>set cs. const_ok k" and d: "d = pre @ concat (map const_bytes cs) @ post" "length d < 2147483648"
    and n: "length (slots cs) \<le> 255" "jc_cp_count jc = word_of_nat (1 + length (slots cs))" "jc_bytes jc = d"
    and cp: "jc_cp jc = z # pool_image (int (length pre)) cs @ zs"
  shows "cp_utf8 jc i = utf8_at cs i"
proof -
  have cnt: "unat (jc_cp_count jc) = 1 + length (slots cs)" using n(1) by (subst n(2), subst u16_length) simp_all
  show ?thesis
  proof (cases "i = 0 \<or> length (slots cs) < unat i")
    case True
    then show ?thesis using cnt by (auto simp: cp_utf8_def cp_entry_def utf8_at_def word_le_nat_alt)
  next
    case False
    define j where "j = unat i - 1"
    have j: "unat i = Suc j" "j < length (slots cs)" using False by (auto simp: j_def word_unat_eq_iff)
    have "jc_cp jc ! unat i = pool_image (int (length pre)) cs ! j"
      using j by (simp add: cp nth_append pool_image_length)
    then show ?thesis
      using pool_utf8 [OF cs d j(2)] False j cnt
      by (auto simp: cp_utf8_def cp_entry_def utf8_at_def word_le_nat_alt n(3) Let_def split: option.splits const.splits)
  qed
qed

lemma cp_entry_pool:
  assumes cs: "\<forall>k\<in>set cs. const_ok k"
    and n: "length (slots cs) \<le> 255" "jc_cp_count jc = word_of_nat (1 + length (slots cs))"
    and cp: "jc_cp jc = z # pool_image off cs @ zs"
  shows "\<forall>j<length (slots cs). slot_is (jc_cp jc ! Suc j) (slots cs ! j)"
    and "const_at cs i = None \<Longrightarrow> tag \<noteq> 0 \<Longrightarrow> cp_entry jc i tag = None"
    and "const_at cs i = Some k \<Longrightarrow> \<exists>e. slot_is e (Some k) \<and> cp_entry jc i tag = (if ce_tag e = tag then Some e else None)"
proof -
  have all: "slot_is (jc_cp jc ! Suc j) (slots cs ! j)" if "j < length (slots cs)" for j
    using list_all2_nthD [OF pool_image_slots [OF cs, of off], of j] that by (simp add: cp nth_append pool_image_length)
  then show "\<forall>j<length (slots cs). slot_is (jc_cp jc ! Suc j) (slots cs ! j)" by blast
  have cnt: "unat (jc_cp_count jc) = 1 + length (slots cs)" using n(1) by (subst n(2), subst u16_length) simp_all
  have at: "cp_entry jc i tag = (let e = jc_cp jc ! Suc (unat i - 1) in if ce_tag e = tag then Some e else None)"
    "unat i - 1 < length (slots cs)" if "\<not> (i = 0 \<or> unat i > length (slots cs))"
  proof -
    have nz: "unat i \<noteq> 0" using that by (simp add: unat_eq_zero)
    show "unat i - 1 < length (slots cs)" using that nz by linarith
    show "cp_entry jc i tag = (let e = jc_cp jc ! Suc (unat i - 1) in if ce_tag e = tag then Some e else None)"
      using that cnt nz by (simp add: cp_entry_def Let_def word_le_nat_alt)
  qed
  have out: "cp_entry jc i tag = None" if "i = 0 \<or> unat i > length (slots cs)"
    using that cnt by (auto simp: cp_entry_def word_le_nat_alt)
  show "cp_entry jc i tag = None" if no: "const_at cs i = None" "tag \<noteq> 0"
  proof (cases "i = 0 \<or> unat i > length (slots cs)")
    case False
    then have "slots cs ! (unat i - 1) = None" using no(1) by (simp add: const_at_def)
    then show ?thesis using all [OF at(2) [OF False]] at(1) [OF False] no(2) by (simp add: Let_def)
  qed (rule out)
  show "\<exists>e. slot_is e (Some k) \<and> cp_entry jc i tag = (if ce_tag e = tag then Some e else None)" if "const_at cs i = Some k"
    using that at all [of "unat i - 1"] by (intro exI [of _ "jc_cp jc ! Suc (unat i - 1)"]) (simp add: const_at_def Let_def split: if_splits)
qed

lemma const_at_ok: "\<forall>k\<in>set cs. const_ok k \<Longrightarrow> const_at cs i = Some k \<Longrightarrow> const_ok k"
proof -
  have "Some k \<in> set (slots cs) \<Longrightarrow> k \<in> set cs" by (induction cs) (auto split: const.splits)
  moreover assume "const_at cs i = Some k"
  then have "Some k \<in> set (slots cs)"
    by (auto simp: const_at_def word_unat_eq_iff intro!: nth_mem split: if_splits elim!: subst)
  moreover assume "\<forall>k\<in>set cs. const_ok k"
  ultimately show ?thesis by blast
qed

lemma cp_members_pool:
  assumes cs: "\<forall>k\<in>set cs. const_ok k"
    and n: "length (slots cs) \<le> 255" "jc_cp_count jc = word_of_nat (1 + length (slots cs))"
    and cp: "jc_cp jc = z # pool_image off cs @ zs" and u: "\<forall>i. cp_utf8 jc i = utf8_at cs i"
  shows "cp_class_name jc i = class_at cs i" and "cp_name_type jc i = pair_at cs i"
    and "kind \<in> {9, 10, 11} \<Longrightarrow> cp_resolve_ref jc i kind = member_at cs i kind"
proof -
  note none = cp_entry_pool(2) [OF cs n cp] and some = cp_entry_pool(3) [OF cs n cp] and ok = const_at_ok [OF cs]
  have cn: "cp_class_name jc i = class_at cs i" for i
  proof (cases "const_at cs i")
    case None
    then show ?thesis using none [of i 7] by (simp add: cp_class_name_def class_at_def)
  next
    case (Some k)
    obtain e where "slot_is e (Some k)" "cp_entry jc i 7 = (if ce_tag e = 7 then Some e else None)" using some [OF Some] by blast
    then show ?thesis using Some ok [OF Some] u
      by (cases k) (auto simp: cp_class_name_def class_at_def dest!: unat_narrow)
  qed
  have pair: "cp_name_type jc i = pair_at cs i" for i
  proof (cases "const_at cs i")
    case None
    then show ?thesis using none [of i 12] by (simp add: cp_name_type_def pair_at_def)
  next
    case (Some k)
    obtain e where "slot_is e (Some k)" "cp_entry jc i 12 = (if ce_tag e = 12 then Some e else None)" using some [OF Some] by blast
    then show ?thesis using Some ok [OF Some] u
      by (cases k) (auto simp: cp_name_type_def pair_at_def dest!: unat_narrow split: option.splits)
  qed
  have mem: "cp_resolve_ref jc i kind = member_at cs i kind" if kind: "kind \<in> {9, 10, 11}"
  proof (cases "const_at cs i")
    case None
    then show ?thesis using none [of i kind] kind by (auto simp: cp_resolve_ref_def member_at_def)
  next
    case (Some k)
    obtain e where "slot_is e (Some k)" "cp_entry jc i kind = (if ce_tag e = kind then Some e else None)" using some [OF Some] by blast
    then show ?thesis using Some ok [OF Some] kind
      by (cases k) (auto simp: cp_resolve_ref_def member_at_def cn pair dest!: unat_narrow split: option.splits)
  qed
  show "cp_class_name jc i = class_at cs i" "cp_name_type jc i = pair_at cs i" by (rule cn, rule pair)
  show "kind \<in> {9, 10, 11} \<Longrightarrow> cp_resolve_ref jc i kind = member_at cs i kind" by (rule mem)
qed

lemma parse_body_bytes:
  assumes c: "class_ok c" and d: "d = pre @ be16 (cl_access c) @ be16 (cl_this c) @ be16 (cl_super c) @
     be16 (word_of_nat (length (cl_ifs c))) @ concat (map be16 (cl_ifs c)) @
     be16 (word_of_nat (length (cl_fields c))) @ concat (map member_bytes (cl_fields c)) @
     be16 (word_of_nat (length (cl_methods c))) @ concat (map member_bytes (cl_methods c)) @ attrs_bytes (cl_attrs c)"
    and len: "length d < 2147483648" and u: "\<forall>i. cp_utf8 jc i = utf8_at (cl_consts c) i" and jc: "jc_methods jc = []"
  shows "\<exists>ms. parse_body d jc (int (length pre)) = done_with (jc\<lparr>jc_this := cl_this c, jc_methods := ms\<rparr>) \<and>
    map (method_view d) ms = map member_view (take JVM_METHOD_MAX (cl_methods c))"
proof -
  define q1 where "q1 = pre @ be16 (cl_access c) @ be16 (cl_this c) @ be16 (cl_super c) @
     be16 (word_of_nat (length (cl_ifs c))) @ concat (map be16 (cl_ifs c))"
  define q2 where "q2 = q1 @ be16 (word_of_nat (length (cl_fields c)))"
  define q3 where "q3 = q2 @ concat (map member_bytes (cl_fields c))"
  define q4 where "q4 = q3 @ be16 (word_of_nat (length (cl_methods c)))"
  define q5 where "q5 = q4 @ concat (map member_bytes (cl_methods c))"
  define q6 where "q6 = q5 @ be16 (word_of_nat (length (cl_attrs c)))"
  note qs = q6_def q5_def q4_def q3_def q2_def q1_def
  have d1: "d = q1 @ be16 (word_of_nat (length (cl_fields c))) @ drop (length q2) d"
    "d = q2 @ concat (map member_bytes (cl_fields c)) @ drop (length q3) d"
    "d = q3 @ be16 (word_of_nat (length (cl_methods c))) @ drop (length q4) d"
    "d = q4 @ concat (map member_bytes (cl_methods c)) @ drop (length q5) d"
    "d = q5 @ be16 (word_of_nat (length (cl_attrs c))) @ drop (length q6) d"
    "d = q6 @ concat (map attr_bytes (cl_attrs c)) @ []"
    unfolding d qs attrs_bytes_def by simp_all
  have r: "rd_be16 d (int (length pre) + 2) = Some (cl_this c)" "rd_be16 d (int (length pre) + 6) = Some (word_of_nat (length (cl_ifs c)))"
    unfolding d by (simp_all only: rd_header)
  have r1: "rd_be16 d (int (length q1)) = Some (word_of_nat (length (cl_fields c)))"
    "rd_be16 d (int (length q3)) = Some (word_of_nat (length (cl_methods c)))"
    "rd_be16 d (int (length q5)) = Some (word_of_nat (length (cl_attrs c)))"
    using rd_there(3) [OF d1(1) refl refl] rd_there(3) [OF d1(3) refl refl] rd_there(3) [OF d1(5) refl refl] by simp_all
  have n: "unat (word_of_nat (length (cl_ifs c)) :: u16) = length (cl_ifs c)"
    "unat (word_of_nat (length (cl_fields c)) :: u16) = length (cl_fields c)"
    "unat (word_of_nat (length (cl_methods c)) :: u16) = length (cl_methods c)"
    "unat (word_of_nat (length (cl_attrs c)) :: u16) = length (cl_attrs c)"
    using c by (simp_all add: class_ok_def members_ok_def u16_length)
  have l: "int (length q1) = int (length pre) + 8 + int (length (cl_ifs c)) * 2" "int (length q2) = int (length q1) + 2"
    "int (length q4) = int (length q3) + 2" "int (length q6) = int (length q5) + 2"
    "length q6 \<le> length d" "length q4 \<le> length q5" "length q2 \<le> length q3"
    by (simp_all add: d qs attrs_bytes_def)
  have fields: "skip_members d (length (cl_fields c)) (int (length q2)) = done_with (int (length q3))"
    using skip_members_bytes [OF d1(2) len] c by (simp add: q3_def class_ok_def members_ok_def)
  have attrs: "\<exists>x. skip_attrs d (length (cl_attrs c)) (int (length q6)) = done_with x"
    using skip_attrs_bytes [OF d1(6) len] by simp
  have "\<forall>i. cp_utf8 (jc\<lparr>jc_this := cl_this c\<rparr>) i = utf8_at (cl_consts c) i"
    using u by (simp add: cp_utf8_def cp_entry_def cong: if_cong)
  then obtain ms where ms: "parse_methods d (length (cl_methods c)) (int (length q4)) (jc\<lparr>jc_this := cl_this c\<rparr>) =
      done_with (jc\<lparr>jc_this := cl_this c, jc_methods := ms\<rparr>, int (length q5))"
    "map (method_view d) ms = take JVM_METHOD_MAX (map member_view (cl_methods c))"
    using parse_methods_bytes [OF d1(4) len, of "cl_consts c" "jc\<lparr>jc_this := cl_this c\<rparr>"] c jc
    by (auto simp: class_ok_def members_ok_def q5_def)
  obtain x where x: "skip_attrs d (length (cl_attrs c)) (int (length q6)) = done_with x" using attrs ..
  have fit: "\<not> int (length pre) + 8 > int (length d)" "\<not> int (length q1) > int (length d)" "\<not> int (length q1) + 2 > int (length d)"
    "\<not> int (length q3) + 2 > int (length d)" "\<not> int (length q5) + 2 > int (length d)"
    using l by linarith+
  have "parse_body d jc (int (length pre)) = done_with (jc\<lparr>jc_this := cl_this c, jc_methods := ms\<rparr>)"
    unfolding parse_body_def Let_def r bind.simps n l(1) [symmetric] r1 l(2) [symmetric] fields pbind_simps
      l(3) [symmetric] ms(1) prod.case l(4) [symmetric] x
    using fit l(2-4) by (simp add: r1 n ms(1) fields x)
  then show ?thesis using ms(2) by (auto simp: take_map)
qed

text \<open>
  C15.  Parsing a class file: the bytes of every class whose parts fit the limits of the format
  and of the parser's arrays are accepted.  Each place of the constant pool holds the tag and the
  fields of the constant written there (of a wide constant the tag only, its value is dropped);
  each index gives exactly the string that was written there (and nothing for an entry of another
  kind), and each field, method or interface reference the class, name and descriptor it names.
  The version and the class index are kept, and the first 64 methods come out with their flags,
  names, descriptors, stack and local limits and code.
\<close>
theorem class_parse_roundtrip:
  assumes c: "class_ok c"
  shows "\<exists>jc. jvm_parse_class (class_bytes c) = done_with jc \<and> class_wf jc \<and>
    jc_minor jc = cl_minor c \<and> jc_major jc = cl_major c \<and> jc_this jc = cl_this c \<and>
    unat (jc_cp_count jc) = 1 + length (slots (cl_consts c)) \<and>
    (\<forall>j<length (slots (cl_consts c)). slot_is (jc_cp jc ! Suc j) (slots (cl_consts c) ! j)) \<and>
    (\<forall>i. cp_utf8 jc i = utf8_at (cl_consts c) i) \<and>
    (\<forall>i. \<forall>kind\<in>{9, 10, 11}. cp_resolve_ref jc i kind = member_at (cl_consts c) i kind) \<and>
    map (method_view (class_bytes c)) (jc_methods jc) = map member_view (take JVM_METHOD_MAX (cl_methods c))"
proof -
  let ?d = "class_bytes c"
  define w :: u16 where "w = word_of_nat (1 + length (slots (cl_consts c)))"
  define h where "h = be32 0xCAFEBABE @ be16 (cl_minor c) @ be16 (cl_major c) @ be16 w"
  have d: "?d = h @ concat (map const_bytes (cl_consts c)) @ drop (length (h @ concat (map const_bytes (cl_consts c)))) ?d"
    "length h = 10" by (simp_all add: class_bytes_def h_def w_def)
  have ok: "\<forall>k\<in>set (cl_consts c). const_ok k" "length (slots (cl_consts c)) \<le> 255" "length ?d < 2147483648"
    using c by (simp_all add: class_ok_def)
  have r: "rd_be32 ?d 0 = Some 0xCAFEBABE" "rd_be16 ?d 4 = Some (cl_minor c)" "rd_be16 ?d 6 = Some (cl_major c)"
    "rd_be16 ?d 8 = Some w"
    by (simp_all only: class_bytes_def w_def [symmetric]) (simp_all add: be_reads)
  have cnt: "unat w = 1 + length (slots (cl_consts c))" unfolding w_def by (rule u16_length) (use ok(2) in simp)
  define cp where "cp = jcp_zero # pool_image (int (length h)) (cl_consts c) @ replicate (255 - length (slots (cl_consts c))) jcp_zero"
  have pool: "cp_loop ?d (unat w) 1 10 (replicate JVM_CP_MAX jcp_zero) =
      done_with (cp, int (length (h @ concat (map const_bytes (cl_consts c)))))"
    using cp_loop_pool [OF ok(1), of "1 + length (slots (cl_consts c))" "[jcp_zero]" ?d h _ 255, OF _ d(1) ok(2)] cnt d(2)
    by (simp add: JVM_CP_MAX_def cp_def numeral_eq_Suc)
  define jc where "jc = \<lparr>jc_bytes = ?d, jc_minor = cl_minor c, jc_major = cl_major c, jc_cp_count = w, jc_cp = cp,
     jc_this = 0, jc_methods = []\<rparr>"
  have u: "\<forall>i. cp_utf8 jc i = utf8_at (cl_consts c) i"
    using cp_utf8_pool [OF ok(1) d(1) ok(3) ok(2), of jc jcp_zero] by (simp add: jc_def cp_def w_def)
  obtain ms where ms: "parse_body ?d jc (int (length (h @ concat (map const_bytes (cl_consts c))))) =
      done_with (jc\<lparr>jc_this := cl_this c, jc_methods := ms\<rparr>)"
    "map (method_view ?d) ms = map member_view (take JVM_METHOD_MAX (cl_methods c))"
    using parse_body_bytes [OF c _ ok(3) u, of "h @ concat (map const_bytes (cl_consts c))"]
    by (auto simp: class_bytes_def h_def jc_def w_def)
  have "length ?d \<ge> 10" using d by (metis le_add1 length_append)
  then have p: "jvm_parse_class ?d = done_with (jc\<lparr>jc_this := cl_this c, jc_methods := ms\<rparr>)"
    using pool ms(1) cnt ok(2)
    by (simp add: jvm_parse_class_def r jc_def [symmetric] JVM_CP_MAX_def unat_eq_zero [symmetric] del: unat_eq_zero)
  let ?jc = "jc\<lparr>jc_this := cl_this c, jc_methods := ms\<rparr>"
  have "cp_utf8 ?jc i = cp_utf8 jc i" for i
    by (simp add: cp_utf8_def cp_entry_def cong: if_cong)
  then have u1: "\<forall>i. cp_utf8 ?jc i = utf8_at (cl_consts c) i" using u by simp
  have pool1: "jc_cp_count ?jc = word_of_nat (1 + length (slots (cl_consts c)))"
    "jc_cp ?jc = jcp_zero # pool_image (int (length h)) (cl_consts c) @ replicate (255 - length (slots (cl_consts c))) jcp_zero"
    by (simp_all add: jc_def w_def cp_def)
  have "\<forall>j<length (slots (cl_consts c)). slot_is (jc_cp ?jc ! Suc j) (slots (cl_consts c) ! j)"
    by (rule cp_entry_pool(1) [OF ok(1,2) pool1])
  moreover have "\<forall>i. \<forall>kind\<in>{9, 10, 11}. cp_resolve_ref ?jc i kind = member_at (cl_consts c) i kind"
    using cp_members_pool(3) [OF ok(1,2) pool1 u1] by blast
  moreover have "jc_minor ?jc = cl_minor c" "jc_major ?jc = cl_major c" "jc_this ?jc = cl_this c" "jc_cp_count ?jc = w"
    "jc_methods ?jc = ms" by (simp_all add: jc_def)
  ultimately show ?thesis using parse_class_wf [OF p ok(3)] p ms(2) u1 cnt
    by (intro exI [of _ ?jc] conjI) simp_all
qed

definition demo_class :: class_parts where
  "demo_class = \<lparr>cl_minor = 0, cl_major = 52,
     cl_consts = [Utf8 (lit ''main''), Utf8 (lit ''()V''), Utf8 (lit ''Code''), Wide 5 [0, 0, 0, 0, 0, 0, 0, 9],
       Utf8 (lit ''A''), Ref1 7 6, Ref2 12 1 2, Ref2 10 7 8, Num 3 1234567],
     cl_access = 33, cl_this = 7, cl_super = 0, cl_ifs = [], cl_fields = [],
     cl_methods = [\<lparr>mb_flags = 9, mb_name = 1, mb_desc = 2, mb_attrs = [Code_attr 3 1 0 [177] [0, 0, 0, 0]]\<rparr>],
     cl_attrs = [Other_attr 6 [1, 2]]\<rparr>"

theorem class_parse_roundtrip_witness:
  "\<exists>jc. jvm_parse_class (class_bytes demo_class) = done_with jc \<and> cp_utf8 jc 6 = Some (lit ''A'') \<and> cp_utf8 jc 5 = None \<and>
     ce_tag (jc_cp jc ! 10) = 3 \<and> unat (ce_a (jc_cp jc ! 10)) = 1234567 \<and> ce_tag (jc_cp jc ! 5) = 0 \<and>
     cp_resolve_ref jc 9 10 = Some (lit ''A'', lit ''main'', lit ''()V'') \<and> cp_resolve_ref jc 9 9 = None \<and>
     map (method_view (class_bytes demo_class)) (jc_methods jc) = [(9, 1, 2, Some (1, 0, [177]))]"
proof -
  have "class_ok demo_class"
    by (simp add: class_ok_def demo_class_def members_ok_def utf8_at_def class_bytes_def member_bytes_def attrs_bytes_def attr_bytes_def)
  from class_parse_roundtrip [OF this] obtain jc where
    jc: "jvm_parse_class (class_bytes demo_class) = done_with jc" "\<forall>i. cp_utf8 jc i = utf8_at (cl_consts demo_class) i"
    "map (method_view (class_bytes demo_class)) (jc_methods jc) = map member_view (take JVM_METHOD_MAX (cl_methods demo_class))"
    and s: "\<forall>j<length (slots (cl_consts demo_class)). slot_is (jc_cp jc ! Suc j) (slots (cl_consts demo_class) ! j)"
    and m: "\<forall>i. \<forall>kind\<in>{9, 10, 11}. cp_resolve_ref jc i kind = member_at (cl_consts demo_class) i kind"
    by blast
  have "slot_is (jc_cp jc ! 10) (Some (Num 3 1234567))" using s [rule_format, of 9] by (simp add: demo_class_def)
  moreover have "slot_is (jc_cp jc ! 5) None" using s [rule_format, of 4] by (simp add: demo_class_def)
  moreover have "cp_resolve_ref jc 9 10 = Some (lit ''A'', lit ''main'', lit ''()V'')" "cp_resolve_ref jc 9 9 = None"
    using m by (simp_all add: member_at_def class_at_def pair_at_def const_at_def utf8_at_def demo_class_def)
  ultimately show ?thesis using jc by (auto simp: demo_class_def utf8_at_def member_view_def JVM_METHOD_MAX_def)
qed

end
