(* ===== verification/Jvm.thy ===== *)
theory Jvm
  imports Class_File "HOL-Library.Signed_Division"
begin

text \<open>
  The bytecode interpreter of \<^verbatim>\<open>src/src/commands/java.c\<close>: \<open>jvm_exec_method\<close> and its
  helpers.  A frame holds the operand stack as a list with its top first (the array
  \<open>stack\<close> up to \<open>sp\<close>; no instruction reads above it), the array of locals and the program
  counter.  \<open>int32_t\<close> values are 32-bit words.  One round of the loop is \<open>jvm_step\<close>, with one
  definition per group of opcodes; its result names the next frame, the end of the method or
  the call of another method, together with the text it printed.  An access outside an array
  (the locals, the arguments of a call, the constant pool, the bytes of the file) has no result:
  such a step is \<open>None\<close>.
\<close>

unbundle bit_operations_syntax

definition JVM_STACK_MAX :: nat where "JVM_STACK_MAX = 256"
definition JVM_LOCALS_MAX :: nat where "JVM_LOCALS_MAX = 64"
definition JVM_CALL_DEPTH_MAX :: nat where "JVM_CALL_DEPTH_MAX = 12"
definition JVM_REF_PRINTSTREAM :: u32 where "JVM_REF_PRINTSTREAM = 0x7F000001"
definition JVM_REF_STRING_FLAG :: u32 where "JVM_REF_STRING_FLAG = 0x40000000"
definition JVM_REF_OBJECT_FLAG :: u32 where "JVM_REF_OBJECT_FLAG = 0x20000000"

record frame =
  f_stack :: "u32 list"
  f_locals :: "u32 list"
  f_pc :: nat

text \<open>The result of a method: false, or true with the value it returned, if any.\<close>

datatype jret = Failed | Returned "u32 option"

text \<open>A call holds the class and method, the arguments, whether a value is expected and the frame to go on with.\<close>

datatype jstep = Go frame | Halt jret | Call jclass jmethod "u32 list" bool frame

type_synonym jout = "(jstep \<times> bytes list) option"

abbreviation quit :: jout where "quit \<equiv> Some (Halt Failed, [])"
abbreviation quit_with :: "bytes \<Rightarrow> jout" where "quit_with msg \<equiv> Some (Halt Failed, [msg @ [10]])"
abbreviation go :: "frame \<Rightarrow> jout" where "go fr \<equiv> Some (Go fr, [])"

definition push :: "u32 \<Rightarrow> frame \<Rightarrow> jout" where
  "push v fr = (if length (f_stack fr) \<ge> JVM_STACK_MAX then quit else go (fr\<lparr>f_stack := v # f_stack fr\<rparr>))"

text \<open>Reads and writes of arrays, undefined outside of them.\<close>

definition array_get :: "'a list \<Rightarrow> nat \<Rightarrow> 'a option" where
  "array_get xs i = (if i < length xs then Some (xs ! i) else None)"

definition array_set :: "'a list \<Rightarrow> nat \<Rightarrow> 'a \<Rightarrow> 'a list option" where
  "array_set xs i v = (if i < length xs then Some (xs[i := v]) else None)"

text \<open>Operands of an instruction; the code must reach that far.\<close>

definition code_byte :: "jclass \<Rightarrow> jmethod \<Rightarrow> nat \<Rightarrow> u8 option" where
  "code_byte cls m pc = byte_at (jc_bytes cls) (the (jm_code m) + int pc)"

definition fetch8 :: "jclass \<Rightarrow> jmethod \<Rightarrow> frame \<Rightarrow> (u8 \<Rightarrow> frame \<Rightarrow> jout) \<Rightarrow> jout" where
  "fetch8 cls m fr k =
     (if int (f_pc fr) \<ge> sint (jm_code_len m) then quit
      else Option.bind (code_byte cls m (f_pc fr)) (\<lambda>v. k v (fr\<lparr>f_pc := f_pc fr + 1\<rparr>)))"

definition fetch16 :: "jclass \<Rightarrow> jmethod \<Rightarrow> frame \<Rightarrow> (u16 \<Rightarrow> frame \<Rightarrow> jout) \<Rightarrow> jout" where
  "fetch16 cls m fr k =
     (if int (f_pc fr) + 2 > sint (jm_code_len m) then quit
      else Option.bind (rd_be16 (jc_bytes cls) (the (jm_code m) + int (f_pc fr))) (\<lambda>v.
             k v (fr\<lparr>f_pc := f_pc fr + 2\<rparr>)))"

definition fetch32 :: "jclass \<Rightarrow> jmethod \<Rightarrow> frame \<Rightarrow> (u32 \<Rightarrow> frame \<Rightarrow> jout) \<Rightarrow> jout" where
  "fetch32 cls m fr k =
     (if int (f_pc fr) + 4 > sint (jm_code_len m) then quit
      else Option.bind (rd_be32 (jc_bytes cls) (the (jm_code m) + int (f_pc fr))) (\<lambda>v.
             k v (fr\<lparr>f_pc := f_pc fr + 4\<rparr>)))"

definition pop1 :: "frame \<Rightarrow> (u32 \<Rightarrow> frame \<Rightarrow> jout) \<Rightarrow> jout" where
  "pop1 fr k = (case f_stack fr of v # st \<Rightarrow> k v (fr\<lparr>f_stack := st\<rparr>) | _ \<Rightarrow> quit)"

definition pop2 :: "frame \<Rightarrow> (u32 \<Rightarrow> u32 \<Rightarrow> frame \<Rightarrow> jout) \<Rightarrow> jout" where
  "pop2 fr k = (case f_stack fr of b # a # st \<Rightarrow> k a b (fr\<lparr>f_stack := st\<rparr>) | _ \<Rightarrow> quit)"

section \<open>Constants, locals and the stack\<close>

text \<open>The inner option is the \<open>bool\<close> of the function with the new stack.\<close>

definition jvm_push_ldc :: "jclass \<Rightarrow> u16 \<Rightarrow> frame \<Rightarrow> frame option option" where
  "jvm_push_ldc cls idx fr =
     (if idx = 0 \<or> idx \<ge> jc_cp_count cls then Some None
      else if length (f_stack fr) \<ge> JVM_STACK_MAX then Some None
      else Option.bind (array_get (jc_cp cls) (unat idx)) (\<lambda>e.
             Some (if ce_tag e = 3 then Some (fr\<lparr>f_stack := ce_a e # f_stack fr\<rparr>)
                   else if ce_tag e = 8
                   then Some (fr\<lparr>f_stack := (JVM_REF_STRING_FLAG OR (ce_a e AND 0xFFFF)) # f_stack fr\<rparr>)
                   else None)))"

definition exec_const :: "jclass \<Rightarrow> jmethod \<Rightarrow> u8 \<Rightarrow> frame \<Rightarrow> jout" where
  "exec_const cls m opc fr =
     (if opc = 0x00 then go fr
      else if opc = 0x01 then push 0 fr
      else if opc \<le> 0x08 then push (ucast opc - 3) fr
      else if opc = 0x10 then fetch8 cls m fr (\<lambda>v. push (scast v))
      else if opc = 0x11 then fetch16 cls m fr (\<lambda>v. push (scast v))
      else if opc = 0x12 then fetch8 cls m fr (\<lambda>idx fr1.
        Option.bind (jvm_push_ldc cls (ucast idx) fr1) (\<lambda>r.
          case r of None \<Rightarrow> quit_with (lit ''java: unsupported ldc constant'') | Some fr2 \<Rightarrow> go fr2))
      else fetch16 cls m fr (\<lambda>idx fr1.
        Option.bind (jvm_push_ldc cls idx fr1) (\<lambda>r.
          case r of None \<Rightarrow> quit_with (lit ''java: unsupported ldc_w constant'') | Some fr2 \<Rightarrow> go fr2)))"

definition load_local :: "u8 \<Rightarrow> frame \<Rightarrow> jout" where
  "load_local idx fr =
     (if unat idx \<ge> JVM_LOCALS_MAX then quit
      else Option.bind (array_get (f_locals fr) (unat idx)) (\<lambda>v. push v fr))"

definition store_local :: "u8 \<Rightarrow> frame \<Rightarrow> jout" where
  "store_local idx fr =
     (if unat idx \<ge> JVM_LOCALS_MAX then quit
      else pop1 fr (\<lambda>v fr1.
             Option.bind (array_set (f_locals fr1) (unat idx) v) (\<lambda>ls. go (fr1\<lparr>f_locals := ls\<rparr>))))"

definition exec_local :: "jclass \<Rightarrow> jmethod \<Rightarrow> u8 \<Rightarrow> frame \<Rightarrow> jout" where
  "exec_local cls m opc fr =
     (if opc = 0x15 \<or> opc = 0x19 then fetch8 cls m fr load_local
      else if 0x1a \<le> opc \<and> opc \<le> 0x1d then load_local (opc - 0x1a) fr
      else if 0x2a \<le> opc \<and> opc \<le> 0x2d then load_local (opc - 0x2a) fr
      else if opc = 0x36 \<or> opc = 0x3a then fetch8 cls m fr store_local
      else if 0x3b \<le> opc \<and> opc \<le> 0x3e then store_local (opc - 0x3b) fr
      else store_local (opc - 0x4b) fr)"

definition exec_stack :: "u8 \<Rightarrow> frame \<Rightarrow> jout" where
  "exec_stack opc fr =
     (if opc = 0x57 then pop1 fr (\<lambda>v. go)
      else if opc = 0x59 then (case f_stack fr of v # st \<Rightarrow> push v fr | _ \<Rightarrow> quit)
      else if opc = 0x5a then
        (case f_stack fr of
           b # a # st \<Rightarrow> if length (f_stack fr) \<ge> JVM_STACK_MAX then quit
                          else go (fr\<lparr>f_stack := b # a # b # st\<rparr>)
         | _ \<Rightarrow> quit)
      else pop2 fr (\<lambda>a b fr1. go (fr1\<lparr>f_stack := a # b # f_stack fr1\<rparr>)))"

section \<open>Arithmetic\<close>

text \<open>The processor divides with a fault when the quotient of the least value and -1 does not fit.\<close>

definition divide_faults :: "u32 \<Rightarrow> u32 \<Rightarrow> bool" where
  "divide_faults a b \<longleftrightarrow> a = 0x80000000 \<and> b = 0xFFFFFFFF"

definition arith :: "u8 \<Rightarrow> u32 \<Rightarrow> u32 \<Rightarrow> u32" where
  "arith opc a b =
     (if opc = 0x60 then a + b else if opc = 0x64 then a - b else if opc = 0x68 then a * b
      else if opc = 0x6c then word_of_int (sint a sdiv sint b)
      else if opc = 0x70 then word_of_int (sint a smod sint b)
      else if opc = 0x78 then push_bit (unat (b AND 31)) a
      else if opc = 0x7a then signed_drop_bit (unat (b AND 31)) a
      else if opc = 0x7c then drop_bit (unat (b AND 31)) a
      else if opc = 0x7e then a AND b else if opc = 0x80 then a OR b else a XOR b)"

definition exec_arith :: "u8 \<Rightarrow> frame \<Rightarrow> jout" where
  "exec_arith opc fr =
     pop2 fr (\<lambda>a b fr1.
       if opc = 0x6c \<and> b = 0 then quit_with (lit ''java: division by zero'')
       else if opc = 0x70 \<and> b = 0 then quit_with (lit ''java: modulo by zero'')
       else if (opc = 0x6c \<or> opc = 0x70) \<and> divide_faults a b then None
       else go (fr1\<lparr>f_stack := arith opc a b # f_stack fr1\<rparr>))"

definition exec_neg :: "frame \<Rightarrow> jout" where
  "exec_neg fr = pop1 fr (\<lambda>v fr1. go (fr1\<lparr>f_stack := - v # f_stack fr1\<rparr>))"

definition exec_iinc :: "jclass \<Rightarrow> jmethod \<Rightarrow> frame \<Rightarrow> jout" where
  "exec_iinc cls m fr =
     (if int (f_pc fr) + 2 > sint (jm_code_len m) then quit
      else fetch8 cls m fr (\<lambda>idx fr1. fetch8 cls m fr1 (\<lambda>c fr2.
        if unat idx \<ge> JVM_LOCALS_MAX then quit
        else Option.bind (array_get (f_locals fr2) (unat idx)) (\<lambda>v.
             Option.bind (array_set (f_locals fr2) (unat idx) (v + scast c)) (\<lambda>ls. go (fr2\<lparr>f_locals := ls\<rparr>))))))"

section \<open>Branches\<close>

text \<open>The program counter is never negative.\<close>

definition go_to :: "int \<Rightarrow> frame \<Rightarrow> jout" where
  "go_to dst fr = (if dst < 0 then None else go (fr\<lparr>f_pc := nat dst\<rparr>))"

definition jump :: "jmethod \<Rightarrow> int \<Rightarrow> bool \<Rightarrow> frame \<Rightarrow> jout" where
  "jump m dst taken fr =
     (if taken then (if dst < 0 \<or> dst \<ge> sint (jm_code_len m) then quit else go_to dst fr)
      else go fr)"

definition cond1 :: "u8 \<Rightarrow> u32 \<Rightarrow> bool" where
  "cond1 opc v =
     (if opc = 0x99 \<or> opc = 0xc6 then v = 0
      else if opc = 0x9a \<or> opc = 0xc7 then v \<noteq> 0
      else if opc = 0x9b then sint v < 0 else if opc = 0x9c then sint v \<ge> 0
      else if opc = 0x9d then sint v > 0 else sint v \<le> 0)"

definition cond2 :: "u8 \<Rightarrow> u32 \<Rightarrow> u32 \<Rightarrow> bool" where
  "cond2 opc a b =
     (if opc = 0x9f \<or> opc = 0xa5 then a = b
      else if opc = 0xa0 \<or> opc = 0xa6 then a \<noteq> b
      else if opc = 0xa1 then sint a < sint b else if opc = 0xa2 then sint a \<ge> sint b
      else if opc = 0xa3 then sint a > sint b else sint a \<le> sint b)"

definition exec_branch :: "jclass \<Rightarrow> jmethod \<Rightarrow> nat \<Rightarrow> u8 \<Rightarrow> frame \<Rightarrow> jout" where
  "exec_branch cls m op_pc opc fr =
     (if opc = 0xa7 then fetch16 cls m fr (\<lambda>rel. jump m (int op_pc + sint rel) True)
      else if opc = 0xc8 then
        fetch32 cls m fr (\<lambda>rel fr1. Option.bind (int_add (int op_pc) (sint rel)) (\<lambda>dst. jump m dst True fr1))
      else if (0x99 \<le> opc \<and> opc \<le> 0x9e) \<or> opc = 0xc6 \<or> opc = 0xc7 then
        fetch16 cls m fr (\<lambda>rel fr1. pop1 fr1 (\<lambda>v. jump m (int op_pc + sint rel) (cond1 opc v)))
      else fetch16 cls m fr (\<lambda>rel fr1. pop2 fr1 (\<lambda>a b. jump m (int op_pc + sint rel) (cond2 opc a b))))"

section \<open>Calls\<close>

text \<open>The descriptor of a method: the number of arguments and the kind of the result.\<close>

lemma dropWhile_Cons_length: "dropWhile P xs = c # r \<Longrightarrow> length r < length xs"
  using length_dropWhile_le [of P xs] by simp

function desc_loop :: "nat \<Rightarrow> bytes \<Rightarrow> (nat \<times> bytes) option" where
  "desc_loop args ds =
     (if ds = [] \<or> hd ds = of_char CHR '')'' then Some (args, ds)
      else case dropWhile (\<lambda>c. c = of_char CHR ''['') ds of
             [] \<Rightarrow> None
           | c # r \<Rightarrow>
               if c = of_char CHR ''L'' then
                 (case dropWhile (\<lambda>c. c \<noteq> of_char CHR '';'') r of [] \<Rightarrow> None | _ # r1 \<Rightarrow> desc_loop (args + 1) r1)
               else if c \<in> set (lit ''BCDFIJSZ'') then desc_loop (args + 1) r
               else None)"
  by pat_completeness auto
termination
  by (relation "measure (length \<circ> snd)") (auto dest!: dropWhile_Cons_length)

declare desc_loop.simps [simp del]

definition jvm_desc_args :: "bytes \<Rightarrow> (nat \<times> u8) option" where
  "jvm_desc_args desc =
     (if length desc < 3 \<or> hd desc \<noteq> of_char CHR ''('' then None
      else case desc_loop 0 (tl desc) of
             None \<Rightarrow> None
           | Some (args, r) \<Rightarrow>
               if length r < 2 then None
               else Some (args, if r ! 1 = of_char CHR ''V'' then of_char CHR ''V''
                                else if r ! 1 = of_char CHR ''L'' \<or> r ! 1 = of_char CHR ''['' then of_char CHR ''A''
                                else of_char CHR ''I''))"

definition jvm_print_string_ref :: "jclass \<Rightarrow> u32 \<Rightarrow> bytes list" where
  "jvm_print_string_ref cls ref =
     (if ref = 0 then [lit ''null'']
      else if ref AND JVM_REF_STRING_FLAG = 0 then [lit ''<non-string-ref>'']
      else case cp_utf8 cls (ucast (ref AND 0xFFFF)) of None \<Rightarrow> [lit ''<bad-string-ref>''] | Some s \<Rightarrow> [s])"

definition exec_getstatic :: "jclass \<Rightarrow> jmethod \<Rightarrow> frame \<Rightarrow> jout" where
  "exec_getstatic cls m fr =
     (if length (f_stack fr) \<ge> JVM_STACK_MAX then quit
      else fetch16 cls m fr (\<lambda>idx fr1.
        case cp_resolve_ref cls idx 9 of
          None \<Rightarrow> quit_with (lit ''java: bad fieldref in getstatic'')
        | Some (c, n, d) \<Rightarrow>
            if bytes_eq_lit c (lit ''java/lang/System'') \<and> (bytes_eq_lit n (lit ''out'') \<or> bytes_eq_lit n (lit ''err'')) \<and>
               bytes_eq_lit d (lit ''Ljava/io/PrintStream;'')
            then push JVM_REF_PRINTSTREAM fr1
            else quit_with (lit ''java: unsupported getstatic target'')))"

text \<open>
  The arguments of a call are popped from the last to the first, from a stack that must hold
  them into an array of 8.
\<close>

definition pop_args :: "nat \<Rightarrow> frame \<Rightarrow> (u32 list \<Rightarrow> frame \<Rightarrow> jout) \<Rightarrow> jout" where
  "pop_args argc fr k =
     (if argc > 8 \<or> argc > length (f_stack fr) then None
      else k (rev (take argc (f_stack fr))) (fr\<lparr>f_stack := drop argc (f_stack fr)\<rparr>))"

text \<open>The printed text; a descriptor with one argument reads the first one.\<close>

definition print_args :: "jclass \<Rightarrow> bytes \<Rightarrow> u32 list \<Rightarrow> bytes list option option" where
  "print_args cls d argv =
     (if bytes_eq_lit d (lit ''()V'') then Some (Some [])
      else if bytes_eq_lit d (lit ''(I)V'') \<or> bytes_eq_lit d (lit ''(S)V'') \<or> bytes_eq_lit d (lit ''(B)V'') \<or>
              bytes_eq_lit d (lit ''(C)V'') \<or> bytes_eq_lit d (lit ''(Z)V'') then
        Option.bind (array_get argv 0) (\<lambda>v.
          Some (Some (if bytes_eq_lit d (lit ''(Z)V'') then [if v \<noteq> 0 then lit ''true'' else lit ''false'']
                      else if bytes_eq_lit d (lit ''(C)V'') then [[ucast v]]
                      else [itoa_text v])))
      else if bytes_eq_lit d (lit ''(Ljava/lang/String;)V'') then
        Option.bind (array_get argv 0) (\<lambda>v. Some (Some (jvm_print_string_ref cls v)))
      else Some None)"

definition exec_virtual :: "jclass \<Rightarrow> jmethod \<Rightarrow> frame \<Rightarrow> jout" where
  "exec_virtual cls m fr =
     fetch16 cls m fr (\<lambda>idx fr1.
       case cp_resolve_ref cls idx 10 of
         None \<Rightarrow> quit_with (lit ''java: bad methodref in invokevirtual'')
       | Some (c, n, d) \<Rightarrow>
           case jvm_desc_args d of
             None \<Rightarrow> quit
           | Some (argc, ret_kind) \<Rightarrow>
               if argc > 8 \<or> length (f_stack fr1) < argc + 1 then quit
               else pop_args argc fr1 (\<lambda>argv fr2. pop1 fr2 (\<lambda>obj fr3.
                 if bytes_eq_lit c (lit ''java/io/PrintStream'') \<and>
                    (bytes_eq_lit n (lit ''print'') \<or> bytes_eq_lit n (lit ''println'')) \<and> obj = JVM_REF_PRINTSTREAM
                 then Option.bind (print_args cls d argv) (\<lambda>r.
                        case r of
                          None \<Rightarrow> quit_with (lit ''java: unsupported PrintStream signature'')
                        | Some out \<Rightarrow> Some (Go fr3, out @ (if bytes_eq_lit n (lit ''println'') then [[10]] else [])))
                 else quit_with (lit ''java: unsupported invokevirtual target''))))"

definition exec_special :: "jclass \<Rightarrow> jmethod \<Rightarrow> frame \<Rightarrow> jout" where
  "exec_special cls m fr =
     fetch16 cls m fr (\<lambda>idx fr1.
       case cp_resolve_ref cls idx 10 of
         None \<Rightarrow> quit_with (lit ''java: bad methodref in invokespecial'')
       | Some (c, n, d) \<Rightarrow>
           case jvm_desc_args d of
             None \<Rightarrow> quit
           | Some (argc, ret_kind) \<Rightarrow>
               if argc > 8 \<or> length (f_stack fr1) < argc + 1 then quit
               else pop_args argc fr1 (\<lambda>argv fr2. pop1 fr2 (\<lambda>obj fr3.
                 if obj AND JVM_REF_OBJECT_FLAG = 0 then quit_with (lit ''java: invokespecial on non-object'')
                 else if bytes_eq_lit n (lit ''<init>'')
                 then (if ret_kind \<noteq> of_char CHR ''V'' then quit else go fr3)
                 else quit_with (lit ''java: unsupported invokespecial target''))))"

definition exec_new :: "jclass \<Rightarrow> jmethod \<Rightarrow> frame \<Rightarrow> jout" where
  "exec_new cls m fr =
     (if length (f_stack fr) \<ge> JVM_STACK_MAX then quit
      else fetch16 cls m fr (\<lambda>idx fr1.
        if idx = 0 \<or> idx \<ge> jc_cp_count cls then quit_with (lit ''java: bad class in new'')
        else Option.bind (array_get (jc_cp cls) (unat idx)) (\<lambda>e.
          if ce_tag e \<noteq> 7 then quit_with (lit ''java: bad class in new'')
          else push (JVM_REF_OBJECT_FLAG OR ucast idx) fr1)))"

text \<open>The class of a static call: the running class itself, or one loaded from the archive.\<close>

definition static_class :: "bytes option \<Rightarrow> jclass \<Rightarrow> bytes \<Rightarrow> jclass parse" where
  "static_class rt cls c = (if jvm_class_name_eq cls c then done_with cls else jvm_load_class_from_jar rt c)"

definition exec_static :: "bytes option \<Rightarrow> jclass \<Rightarrow> jmethod \<Rightarrow> frame \<Rightarrow> jout" where
  "exec_static rt cls m fr =
     fetch16 cls m fr (\<lambda>idx fr1.
       case cp_resolve_ref cls idx 10 of
         None \<Rightarrow> quit_with (lit ''java: bad methodref in invokestatic'')
       | Some (c, n, d) \<Rightarrow>
           case jvm_desc_args d of
             None \<Rightarrow> quit
           | Some (argc, ret_kind) \<Rightarrow>
               if argc > 8 \<or> length (f_stack fr1) < argc then quit
               else pop_args argc fr1 (\<lambda>argv fr2.
                 Option.bind (static_class rt cls c) (\<lambda>r.
                   case r of
                     Inl ms \<Rightarrow> Some (Halt Failed, ms @ [lit ''java: target class not found in jar'' @ [10]])
                   | Inr target_cls \<Rightarrow>
                       case jvm_find_method_bytes target_cls n d True of
                         None \<Rightarrow> quit_with (lit ''java: target static method not found'')
                       | Some target \<Rightarrow> Some (Call target_cls target argv (ret_kind \<noteq> of_char CHR ''V'') fr2, []))))"

section \<open>The interpreter\<close>

definition exec_op :: "bytes option \<Rightarrow> jclass \<Rightarrow> jmethod \<Rightarrow> nat \<Rightarrow> u8 \<Rightarrow> frame \<Rightarrow> jout" where
  "exec_op rt cls m op_pc opc fr =
     (if opc \<le> 0x08 \<or> (0x10 \<le> opc \<and> opc \<le> 0x13) then exec_const cls m opc fr
      else if opc \<in> {0x15, 0x19, 0x36, 0x3a} \<or> (0x1a \<le> opc \<and> opc \<le> 0x1d) \<or> (0x2a \<le> opc \<and> opc \<le> 0x2d) \<or>
              (0x3b \<le> opc \<and> opc \<le> 0x3e) \<or> (0x4b \<le> opc \<and> opc \<le> 0x4e) then exec_local cls m opc fr
      else if opc \<in> {0x57, 0x59, 0x5a, 0x5f} then exec_stack opc fr
      else if opc \<in> {0x60, 0x64, 0x68, 0x6c, 0x70, 0x78, 0x7a, 0x7c, 0x7e, 0x80, 0x82} then exec_arith opc fr
      else if opc = 0x74 then exec_neg fr
      else if opc = 0x84 then exec_iinc cls m fr
      else if (0x99 \<le> opc \<and> opc \<le> 0xa7) \<or> opc \<in> {0xc6, 0xc7, 0xc8} then exec_branch cls m op_pc opc fr
      else if opc = 0xac \<or> opc = 0xb0 then pop1 fr (\<lambda>v fr1. Some (Halt (Returned (Some v)), []))
      else if opc = 0xb1 then Some (Halt (Returned None), [])
      else if opc = 0xb2 then exec_getstatic cls m fr
      else if opc = 0xb6 then exec_virtual cls m fr
      else if opc = 0xb7 then exec_special cls m fr
      else if opc = 0xbb then exec_new cls m fr
      else if opc = 0xb8 then exec_static rt cls m fr
      else Some (Halt Failed, [lit ''java: unsupported opcode 0x'', utoa_text (ucast opc) 16, [10]]))"

definition jvm_step :: "bytes option \<Rightarrow> jclass \<Rightarrow> jmethod \<Rightarrow> frame \<Rightarrow> jout" where
  "jvm_step rt cls m fr =
     Option.bind (code_byte cls m (f_pc fr)) (\<lambda>opc. exec_op rt cls m (f_pc fr) opc (fr\<lparr>f_pc := f_pc fr + 1\<rparr>))"

text \<open>The tests at the start of \<open>jvm_exec_method\<close> and the first frame.\<close>

definition jvm_enter :: "nat \<Rightarrow> jmethod \<Rightarrow> u32 list \<Rightarrow> bytes + frame" where
  "jvm_enter depth m args =
     (if jm_code m = None \<or> jm_code_len m = 0 then Inl (lit ''java: invalid method body'' @ [10])
      else if depth > JVM_CALL_DEPTH_MAX then Inl (lit ''java: call depth exceeded'' @ [10])
      else if length args > JVM_LOCALS_MAX then Inl (lit ''java: too many method args'' @ [10])
      else Inr \<lparr>f_stack = [], f_locals = args @ replicate (JVM_LOCALS_MAX - length args) 0, f_pc = 0\<rparr>)"

text \<open>What a static call does with the result of the method it called.\<close>

definition jvm_resume :: "bool \<Rightarrow> u32 option \<Rightarrow> frame \<Rightarrow> bytes list + frame" where
  "jvm_resume want v fr =
     (if \<not> want then Inr fr
      else case v of
             None \<Rightarrow> Inl [lit ''java: missing return value'' @ [10]]
           | Some x \<Rightarrow> if length (f_stack fr) \<ge> JVM_STACK_MAX then Inl []
                       else Inr (fr\<lparr>f_stack := x # f_stack fr\<rparr>))"

partial_function (option) jvm_loop ::
  "bytes option \<Rightarrow> nat \<Rightarrow> jclass \<Rightarrow> jmethod \<Rightarrow> frame \<Rightarrow> terminal \<Rightarrow> (jret \<times> terminal) option" where
  "jvm_loop rt depth cls m fr t =
     (if int (f_pc fr) \<ge> sint (jm_code_len m) then Some (Returned None, t)
      else Option.bind (jvm_step rt cls m fr) (\<lambda>(r, out).
        case r of
          Go fr1 \<Rightarrow> jvm_loop rt depth cls m fr1 (fold term_puts out t)
        | Halt x \<Rightarrow> Some (x, fold term_puts out t)
        | Call c2 m2 argv want fr1 \<Rightarrow>
            (case jvm_enter (depth + 1) m2 argv of
               Inl msg \<Rightarrow> Some (Failed, term_puts msg (fold term_puts out t))
             | Inr fr2 \<Rightarrow>
                 Option.bind (jvm_loop rt (depth + 1) c2 m2 fr2 (fold term_puts out t)) (\<lambda>(x, t2).
                   case x of
                     Failed \<Rightarrow> Some (Failed, t2)
                   | Returned v \<Rightarrow>
                       (case jvm_resume want v fr1 of
                          Inl ms \<Rightarrow> Some (Failed, fold term_puts ms t2)
                        | Inr fr3 \<Rightarrow> jvm_loop rt depth cls m fr3 t2)))))"

declare jvm_loop.simps [code]

definition jvm_exec_method ::
  "bytes option \<Rightarrow> nat \<Rightarrow> jclass \<Rightarrow> jmethod \<Rightarrow> u32 list \<Rightarrow> terminal \<Rightarrow> (jret \<times> terminal) option" where
  "jvm_exec_method rt depth cls m args t =
     (case jvm_enter depth m args of
        Inl msg \<Rightarrow> Some (Failed, term_puts msg t)
      | Inr fr \<Rightarrow> jvm_loop rt depth cls m fr t)"

definition jvm_execute_class_with_rt :: "bytes option \<Rightarrow> bytes \<Rightarrow> terminal \<Rightarrow> (bool \<times> terminal) option" where
  "jvm_execute_class_with_rt rt d t =
     Option.bind (jvm_parse_class d) (\<lambda>r.
       case r of
         Inl ms \<Rightarrow> Some (False, fold term_puts (ms @ [lit ''java: class parse failed'' @ [10]]) t)
       | Inr cls \<Rightarrow>
           let t1 = fold term_puts [lit ''java: TinyJVM class mode (extended)'' @ [10], lit ''  ClassFile version '',
                  utoa_text (ucast (jc_major cls)) 10, [chr_dot], utoa_text (ucast (jc_minor cls)) 10, [10]] t;
               main_m = (case jvm_find_method cls (lit ''main'') (lit ''([Ljava/lang/String;)V'') True of
                           Some m \<Rightarrow> Some m | None \<Rightarrow> jvm_find_method cls (lit ''main'') (lit ''()V'') True)
           in case main_m of
                None \<Rightarrow> Some (False, term_puts (lit ''java: no supported static main method found'' @ [10]) t1)
              | Some m \<Rightarrow>
                  map_option (\<lambda>(x, t2). (x \<noteq> Failed, t2))
                    (jvm_exec_method rt 0 cls m
                       (if cp_utf8_eq cls (desc_index m) (lit ''([Ljava/lang/String;)V'') then [0] else []) t1))"

definition jvm_execute_class :: "bytes \<Rightarrow> terminal \<Rightarrow> (bool \<times> terminal) option" where
  "jvm_execute_class d = jvm_execute_class_with_rt None d"

section \<open>Safety\<close>

text \<open>
  A frame stays in its arrays; a call enters a method of a class whose strings and code lie in
  its file.  With \<open>p\<close> the step may also be undefined.
\<close>

definition frame_wf :: "frame \<Rightarrow> bool" where
  "frame_wf fr \<longleftrightarrow> length (f_stack fr) \<le> JVM_STACK_MAX \<and> length (f_locals fr) = JVM_LOCALS_MAX"

definition jsafe :: "bool \<Rightarrow> jout \<Rightarrow> bool" where
  "jsafe p r \<longleftrightarrow>
     (case r of
        None \<Rightarrow> p
      | Some (Go fr, out) \<Rightarrow> frame_wf fr
      | Some (Halt x, out) \<Rightarrow> True
      | Some (Call c2 m2 argv want fr, out) \<Rightarrow>
          class_wf c2 \<and> m2 \<in> set (jc_methods c2) \<and> length argv \<le> 8 \<and> frame_wf fr)"

lemma jsafe_simps [simp]:
  "jsafe p None = p" "jsafe p (Some (Halt x, out))" "jsafe p (Some (Go fr, out)) = frame_wf fr"
  "jsafe p (Some (Call c2 m2 argv want fr, out)) \<longleftrightarrow> class_wf c2 \<and> m2 \<in> set (jc_methods c2) \<and> length argv \<le> 8 \<and> frame_wf fr"
  by (simp_all add: jsafe_def)

lemma frame_wf_pc [simp]: "frame_wf (fr\<lparr>f_pc := pc\<rparr>) = frame_wf fr"
  by (simp add: frame_wf_def)

lemma jsafe_push: "frame_wf fr \<Longrightarrow> jsafe p (push v fr)"
  by (simp add: push_def frame_wf_def)

lemma code_byte_in:
  assumes "code_in (jc_bytes cls) m" "jm_code m \<noteq> None" "int pc < sint (jm_code_len m)"
  shows "code_byte cls m pc \<noteq> None"
  using assms by (auto simp: code_in_def code_byte_def byte_at_def)

lemma jsafe_fetch8:
  assumes "code_in (jc_bytes cls) m" "jm_code m \<noteq> None" "frame_wf fr" "\<And>v fr1. frame_wf fr1 \<Longrightarrow> jsafe p (k v fr1)"
  shows "jsafe p (fetch8 cls m fr k)"
  using assms code_byte_in [OF assms(1,2), of "f_pc fr"] by (auto simp: fetch8_def)

lemma jsafe_fetch16:
  assumes "code_in (jc_bytes cls) m" "jm_code m \<noteq> None" "frame_wf fr" "\<And>v fr1. frame_wf fr1 \<Longrightarrow> jsafe p (k v fr1)"
  shows "jsafe p (fetch16 cls m fr k)"
  using assms code_byte_in [OF assms(1,2), of "f_pc fr"] code_byte_in [OF assms(1,2), of "f_pc fr + 1"]
  by (auto simp: fetch16_def rd_be16_def code_byte_def ac_simps)

lemma jsafe_pop1: "frame_wf fr \<Longrightarrow> (\<And>v fr1. frame_wf fr1 \<Longrightarrow> length (f_stack fr1) < JVM_STACK_MAX \<Longrightarrow> jsafe p (k v fr1)) \<Longrightarrow> jsafe p (pop1 fr k)"
  by (auto simp: pop1_def frame_wf_def split: list.split)

lemma jsafe_pop2:
  assumes "frame_wf fr"
    and "\<And>a b fr1. f_stack fr = b # a # f_stack fr1 \<Longrightarrow> frame_wf fr1 \<Longrightarrow> Suc (length (f_stack fr1)) < JVM_STACK_MAX \<Longrightarrow> jsafe p (k a b fr1)"
  shows "jsafe p (pop2 fr k)"
  using assms by (auto simp: pop2_def frame_wf_def split: list.split)

lemma jsafe_pop_args:
  "frame_wf fr \<Longrightarrow> argc \<le> 8 \<Longrightarrow> argc \<le> length (f_stack fr) \<Longrightarrow>
    (\<And>fr1. frame_wf fr1 \<Longrightarrow> jsafe p (k (rev (take argc (f_stack fr))) fr1)) \<Longrightarrow> jsafe p (pop_args argc fr k)"
  by (auto simp: pop_args_def frame_wf_def)

lemmas jsafe_rules = jsafe_push jsafe_fetch8 jsafe_fetch16 jsafe_pop1 jsafe_pop_args

text \<open>A guarded access stays in the array.\<close>

lemma array_in [simp]: "i < length xs \<Longrightarrow> array_get xs i = Some (xs ! i)" "i < length xs \<Longrightarrow> array_set xs i v = Some (xs[i := v])"
  by (simp_all add: array_get_def array_set_def)

lemma pool_in: "class_wf cls \<Longrightarrow> \<not> jc_cp_count cls \<le> idx \<Longrightarrow> unat idx < length (jc_cp cls)"
  by (simp add: class_wf_def word_le_nat_alt)

lemma locals_in: "frame_wf fr \<Longrightarrow> \<not> JVM_LOCALS_MAX \<le> unat idx \<Longrightarrow> unat idx < length (f_locals fr)"
  by (simp add: frame_wf_def)

lemma jsafe_ldc:
  assumes "class_wf cls" "frame_wf fr"
  shows "jsafe p (Option.bind (jvm_push_ldc cls idx fr) (\<lambda>r. case r of None \<Rightarrow> Some (Halt Failed, ms) | Some fr2 \<Rightarrow> go fr2))"
  using assms pool_in [OF assms(1), of idx] by (auto simp: jvm_push_ldc_def frame_wf_def)

lemma jsafe_const:
  assumes "class_wf cls" "code_in (jc_bytes cls) m" "jm_code m \<noteq> None" "frame_wf fr"
  shows "jsafe p (exec_const cls m opc fr)"
  unfolding exec_const_def
  using assms by (auto intro!: jsafe_push jsafe_fetch8 jsafe_fetch16 jsafe_ldc)

lemma jsafe_load: "frame_wf fr \<Longrightarrow> jsafe p (load_local idx fr)"
  using locals_in [of fr idx] by (auto simp: load_local_def intro: jsafe_push)

lemma jsafe_store: "frame_wf fr \<Longrightarrow> jsafe p (store_local idx fr)"
  unfolding store_local_def
  by (auto simp: not_le frame_wf_def intro!: jsafe_pop1)

lemma jsafe_local:
  assumes "code_in (jc_bytes cls) m" "jm_code m \<noteq> None" "frame_wf fr"
  shows "jsafe p (exec_local cls m opc fr)"
  using assms by (auto simp: exec_local_def intro!: jsafe_load jsafe_store jsafe_fetch8)

lemma jsafe_if: "(b \<Longrightarrow> jsafe p r) \<Longrightarrow> (\<not> b \<Longrightarrow> jsafe p r') \<Longrightarrow> jsafe p (if b then r else r')"
  by simp

lemma jsafe_neg: "frame_wf fr \<Longrightarrow> jsafe p (exec_neg fr)"
  unfolding exec_neg_def by (auto intro!: jsafe_pop1 simp: frame_wf_def)

lemma jsafe_stack: "frame_wf fr \<Longrightarrow> jsafe p (exec_stack opc fr)"
  unfolding exec_stack_def
  by (auto intro!: jsafe_pop1 jsafe_pop2 jsafe_push simp: frame_wf_def split: list.split)

lemma jsafe_arith:
  assumes "frame_wf fr" "p \<or> \<not> ((opc = 0x6c \<or> opc = 0x70) \<and> (\<exists>st. f_stack fr = 0xFFFFFFFF # 0x80000000 # st))"
  shows "jsafe p (exec_arith opc fr)"
  unfolding exec_arith_def
  by (rule jsafe_pop2 [OF assms(1)]) (use assms(2) in \<open>auto simp: divide_faults_def frame_wf_def\<close>)

lemma jsafe_iinc:
  assumes "code_in (jc_bytes cls) m" "jm_code m \<noteq> None" "frame_wf fr"
  shows "jsafe p (exec_iinc cls m fr)"
  using assms by (auto simp: exec_iinc_def frame_wf_def not_le intro!: jsafe_fetch8)

lemma jsafe_jump: "frame_wf fr \<Longrightarrow> jsafe p (jump m dst taken fr)"
  by (simp add: jump_def go_to_def)

lemma jsafe_branch:
  assumes "code_in (jc_bytes cls) m" "jm_code m \<noteq> None" "frame_wf fr" "opc \<noteq> 0xc8"
  shows "jsafe p (exec_branch cls m op_pc opc fr)"
  using assms by (auto simp: exec_branch_def intro!: jsafe_fetch16 jsafe_pop1 jsafe_pop2 jsafe_jump)

lemma jsafe_field_and_new:
  assumes "class_wf cls" "code_in (jc_bytes cls) m" "jm_code m \<noteq> None" "frame_wf fr"
  shows "jsafe p (exec_getstatic cls m fr)" "jsafe p (exec_new cls m fr)"
  using assms pool_in [OF assms(1)]
  by (auto simp: exec_getstatic_def exec_new_def intro!: jsafe_fetch16 jsafe_push split: option.split)

text \<open>A descriptor that prints an argument has one.\<close>

lemma one_argument:
  "fst (the (jvm_desc_args (lit ''(I)V''))) = 1" "fst (the (jvm_desc_args (lit ''(S)V''))) = 1"
  "fst (the (jvm_desc_args (lit ''(B)V''))) = 1" "fst (the (jvm_desc_args (lit ''(C)V''))) = 1"
  "fst (the (jvm_desc_args (lit ''(Z)V''))) = 1" "fst (the (jvm_desc_args (lit ''(Ljava/lang/String;)V''))) = 1"
  by code_simp+

lemma print_args_defined:
  assumes "jvm_desc_args d = Some (argc, kind)" "length argv = argc"
  shows "print_args cls d argv \<noteq> None"
  using assms one_argument
  by (auto simp: print_args_def bytes_eq_lit_def simp del: lit_Cons)

lemma jsafe_print:
  assumes "map_option fst (jvm_desc_args d) = Some argc" "argc \<le> length st" "\<And>out. jsafe p (k out)"
  shows "jsafe p (Option.bind (print_args cls d (rev (take argc st))) (\<lambda>r. case r of None \<Rightarrow> Some (Halt Failed, ms) | Some out \<Rightarrow> k out))"
  using print_args_defined [of d argc _ "rev (take argc st)" cls] assms by (auto split: option.split)

lemma jsafe_invokes:
  assumes "code_in (jc_bytes cls) m" "jm_code m \<noteq> None" "frame_wf fr"
  shows "jsafe p (exec_virtual cls m fr)" "jsafe p (exec_special cls m fr)"
  using assms
  by (auto simp: exec_virtual_def exec_special_def not_less simp del: lit_Cons
      intro!: jsafe_fetch16 jsafe_pop_args jsafe_pop1 jsafe_print split: option.split)

lemma zip_find_payload: "zip_find_loop d target off = Some r \<Longrightarrow> r = Some e \<longrightarrow> length (ze_payload e) \<le> length d"
proof (rule zip_find_loop.raw_induct [where P = "\<lambda>d target off r. r = Some e \<longrightarrow> length (ze_payload e) \<le> length d"], goal_cases)
  case (1 f d target off r)
  have "length (ze_payload e') \<le> length d" if "java_zip_next_entry d off = done_with (e', off1)" for e' off1
    using that by (auto simp: java_zip_next_entry_def Let_def bind_eq_Some_conv sub_bytes_def split: if_splits)
  then show ?case using 1 by (fastforce split: option.splits sum.splits if_splits)
qed

lemma load_class_wf:
  assumes "jvm_load_class_from_jar rt c = done_with jc" and "\<forall>jar. rt = Some jar \<longrightarrow> length jar < 2147483648"
  shows "class_wf jc"
proof -
  obtain jar e where e: "rt = Some jar" "java_zip_find_entry jar (cstr_of (c @ lit ''.class'')) = Some (Some e)"
    "jvm_parse_class (ze_payload e) = done_with jc"
    using assms(1) by (auto simp: jvm_load_class_from_jar_def bind_eq_Some_conv simp del: lit_Cons split: option.splits if_splits)
  then show ?thesis
    using parse_class_wf [OF e(3)] zip_find_payload [of jar _ 0 "Some e" e] assms(2)
    by (fastforce simp: java_zip_find_entry_def)
qed

lemma find_member: "List.find P xs = Some x \<Longrightarrow> x \<in> set xs"
  by (auto simp: find_Some_iff)

lemma jsafe_static:
  assumes "class_wf cls" "code_in (jc_bytes cls) m" "jm_code m \<noteq> None" "frame_wf fr"
    and jar: "\<forall>jar. rt = Some jar \<longrightarrow> length jar < 2147483648" "p \<or> (\<forall>c. jvm_load_class_from_jar rt c \<noteq> None)"
  shows "jsafe p (exec_static rt cls m fr)"
proof -
  have cls: "(p \<or> r \<noteq> None) \<and> (\<forall>jc. r = done_with jc \<longrightarrow> class_wf jc)" if "static_class rt cls c = r" for c r
    using that assms(1) jar load_class_wf [OF _ jar(1)] by (auto simp: static_class_def split: if_splits)
  have "jsafe p (Option.bind (static_class rt cls c) (\<lambda>r.
      case r of
        Inl ms \<Rightarrow> Some (Halt Failed, ms @ [lit ''java: target class not found in jar'' @ [10]])
      | Inr target_cls \<Rightarrow>
          case jvm_find_method_bytes target_cls n d True of
            None \<Rightarrow> quit_with (lit ''java: target static method not found'')
          | Some target \<Rightarrow> Some (Call target_cls target argv want fr2, [])))"
    if "length argv \<le> 8" "frame_wf fr2" for c n d argv want fr2
    using cls [OF refl, of c] that
    by (cases "static_class rt cls c")
      (auto simp: jvm_find_method_bytes_def dest: find_member split: sum.split option.split)
  then show ?thesis
    using assms(2-4) unfolding exec_static_def
    by (auto simp: not_less intro!: jsafe_fetch16 jsafe_pop_args split: option.split simp del: lit_Cons)
qed

lemma jsafe_goto_w:
  assumes "code_in (jc_bytes cls) m" "jm_code m \<noteq> None" "frame_wf fr"
    and "p \<or> (\<forall>rel. rd_be32 (jc_bytes cls) (the (jm_code m) + int (f_pc fr)) = Some rel \<longrightarrow> int op_pc + sint rel \<le> 2147483647)"
  shows "jsafe p (exec_branch cls m op_pc 0xc8 fr)"
proof (cases "int (f_pc fr) + 4 > sint (jm_code_len m)")
  case False
  then have b: "code_byte cls m (f_pc fr) \<noteq> None" "code_byte cls m (f_pc fr + 1) \<noteq> None"
    "code_byte cls m (f_pc fr + 2) \<noteq> None" "code_byte cls m (f_pc fr + 3) \<noteq> None"
    using code_byte_in [OF assms(1,2)] by simp_all
  then obtain rel where r: "rd_be32 (jc_bytes cls) (the (jm_code m) + int (f_pc fr)) = Some rel"
    by (auto simp: code_byte_def rd_be32_def ac_simps)
  then have "p \<or> int op_pc + sint rel \<le> 2147483647" "- 2147483648 \<le> sint rel" using assms(4) sint_greater_eq [of rel] by auto
  then show ?thesis using False r assms(3) by (auto simp: exec_branch_def fetch32_def int_add_def jsafe_jump)
qed (simp add: exec_branch_def fetch32_def)

text \<open>
  What leaves the behaviour of C or of the model: the division that faults, a far jump beyond
  the range of an \<open>int\<close>, and a static call when some class cannot be searched in the archive.
\<close>

definition undefined_step :: "bytes option \<Rightarrow> jclass \<Rightarrow> jmethod \<Rightarrow> u8 \<Rightarrow> frame \<Rightarrow> bool" where
  "undefined_step rt cls m opc fr \<longleftrightarrow>
     (opc = 0x6c \<or> opc = 0x70) \<and> (\<exists>st. f_stack fr = 0xFFFFFFFF # 0x80000000 # st) \<or>
     opc = 0xc8 \<and> (\<exists>rel. rd_be32 (jc_bytes cls) (the (jm_code m) + int (f_pc fr + 1)) = Some rel \<and>
                      int (f_pc fr) + sint rel > 2147483647) \<or>
     opc = 0xb8 \<and> (\<exists>c. jvm_load_class_from_jar rt c = None)"

lemma jsafe_op:
  assumes cls: "class_wf cls" "jm_code m \<noteq> None" "code_in (jc_bytes cls) m" and wf: "frame_wf fr"
    and jar: "\<forall>jar. rt = Some jar \<longrightarrow> length jar < 2147483648" and u: "p \<or> \<not> undefined_step rt cls m opc fr"
  shows "jsafe p (exec_op rt cls m (f_pc fr) opc (fr\<lparr>f_pc := f_pc fr + 1\<rparr>))"
proof -
  let ?fr = "fr\<lparr>f_pc := f_pc fr + 1\<rparr>"
  have wf: "frame_wf ?fr" using wf by simp
  have arith: "jsafe p (exec_arith opc ?fr)"
    by (rule jsafe_arith [OF wf]) (use u in \<open>auto simp: undefined_step_def\<close>)
  have branch: "jsafe p (exec_branch cls m (f_pc fr) opc ?fr)"
  proof (cases "opc = 0xc8")
    case True
    have "p \<or> (\<forall>rel. rd_be32 (jc_bytes cls) (the (jm_code m) + int (f_pc ?fr)) = Some rel \<longrightarrow> int (f_pc fr) + sint rel \<le> 2147483647)"
      using u True by (auto simp: undefined_step_def not_less)
    then show ?thesis unfolding True by (rule jsafe_goto_w [OF cls(3,2) wf])
  qed (rule jsafe_branch [OF cls(3,2) wf])
  have static: "opc = 0xb8 \<Longrightarrow> jsafe p (exec_static rt cls m ?fr)"
    by (rule jsafe_static [OF cls(1,3,2) wf jar]) (use u in \<open>auto simp: undefined_step_def\<close>)
  have ret: "jsafe p (pop1 ?fr (\<lambda>v fr1. Some (Halt (Returned (Some v)), [])))" by (rule jsafe_pop1 [OF wf]) simp
  note rules = jsafe_local jsafe_iinc jsafe_invokes and pool_rules = jsafe_const jsafe_field_and_new
  show ?thesis unfolding exec_op_def
    by (intro jsafe_if rules [OF cls(3,2) wf] pool_rules [OF cls(1,3,2) wf] jsafe_stack [OF wf] jsafe_neg [OF wf] arith branch ret jsafe_simps(2))
      (rule static, assumption)
qed

text \<open>
  The activations of methods that a run of a class can have: the first one, the next frame of an
  activation, the activation of a called method, and the caller once the call has returned.
\<close>

inductive activation :: "bytes option \<Rightarrow> jclass \<Rightarrow> jmethod \<Rightarrow> u32 list \<Rightarrow> nat \<Rightarrow> jclass \<Rightarrow> jmethod \<Rightarrow> frame \<Rightarrow> bool"
  for rt :: "bytes option" and cls0 :: jclass and m0 :: jmethod and args0 :: "u32 list" where
  first: "jvm_enter 0 m0 args0 = Inr fr \<Longrightarrow> activation rt cls0 m0 args0 0 cls0 m0 fr"
| next_frame: "activation rt cls0 m0 args0 depth cls m fr \<Longrightarrow> int (f_pc fr) < sint (jm_code_len m) \<Longrightarrow>
    jvm_step rt cls m fr = Some (Go fr1, out) \<Longrightarrow> activation rt cls0 m0 args0 depth cls m fr1"
| called: "activation rt cls0 m0 args0 depth cls m fr \<Longrightarrow> int (f_pc fr) < sint (jm_code_len m) \<Longrightarrow>
    jvm_step rt cls m fr = Some (Call c2 m2 argv want fr1, out) \<Longrightarrow> jvm_enter (depth + 1) m2 argv = Inr fr2 \<Longrightarrow>
    activation rt cls0 m0 args0 (depth + 1) c2 m2 fr2"
| resumed: "activation rt cls0 m0 args0 depth cls m fr \<Longrightarrow> int (f_pc fr) < sint (jm_code_len m) \<Longrightarrow>
    jvm_step rt cls m fr = Some (Call c2 m2 argv want fr1, out) \<Longrightarrow> jvm_resume want v fr1 = Inr fr3 \<Longrightarrow>
    activation rt cls0 m0 args0 depth cls m fr3"

lemma enter_wf:
  "jvm_enter depth m args = Inr fr \<Longrightarrow> frame_wf fr \<and> jm_code m \<noteq> None \<and> depth \<le> JVM_CALL_DEPTH_MAX"
  by (auto simp: jvm_enter_def frame_wf_def split: if_splits)

lemma resume_wf: "jvm_resume want v fr = Inr fr1 \<Longrightarrow> frame_wf fr \<Longrightarrow> frame_wf fr1"
  by (auto simp: jvm_resume_def frame_wf_def split: if_splits option.splits)

lemma step_result_wf:
  assumes "class_wf cls" "m \<in> set (jc_methods cls)" "jm_code m \<noteq> None" "frame_wf fr"
    and "\<forall>jar. rt = Some jar \<longrightarrow> length jar < 2147483648" "jvm_step rt cls m fr = Some r"
  shows "jsafe False (Some r)"
proof -
  obtain opc where "exec_op rt cls m (f_pc fr) opc (fr\<lparr>f_pc := f_pc fr + 1\<rparr>) = Some r"
    using assms(6) by (auto simp: jvm_step_def bind_eq_Some_conv)
  with jsafe_op [of cls m fr rt True opc] assms(1-5) have "jsafe True (Some r)" by (simp add: class_wf_def)
  then show ?thesis by (simp add: jsafe_def)
qed

lemma activation_wf:
  assumes "activation rt cls0 m0 args0 depth cls m fr" and "class_wf cls0" "m0 \<in> set (jc_methods cls0)"
    and jar: "\<forall>jar. rt = Some jar \<longrightarrow> length jar < 2147483648"
  shows "class_wf cls \<and> m \<in> set (jc_methods cls) \<and> jm_code m \<noteq> None \<and> frame_wf fr \<and> depth \<le> JVM_CALL_DEPTH_MAX"
  using assms(1)
proof induction
  case (first fr)
  then show ?case using enter_wf assms(2,3) by blast
next
  case (next_frame depth cls m fr fr1 out)
  then show ?case using step_result_wf [OF _ _ _ _ jar next_frame(3)] by auto
next
  case (called depth cls m fr c2 m2 argv want fr1 out fr2)
  then show ?case using step_result_wf [OF _ _ _ _ jar called(3)] enter_wf [OF called(4)] by auto
next
  case (resumed depth cls m fr c2 m2 argv want fr1 out v fr3)
  then show ?case using step_result_wf [OF _ _ _ _ jar resumed(3)] resume_wf [OF resumed(4)] by auto
qed

text \<open>
  C9.  The interpreter on an arbitrary class file: whatever bytes were accepted as a class, in
  every activation of a method that the run of one of its methods reaches (through any depth of
  calls, also into other classes of the archive) the operand stack holds at most 256 words, the
  locals are 64, the call depth is at most 12, and the instruction and its operands are read
  inside the file.  A step is undefined only in three cases: the overflowing division, a far jump
  beyond the range of an \<open>int\<close>, and a static call when the archive cannot be searched; so no
  other step reads or writes outside the locals, the arguments of a call or the entries of the
  constant pool that \<open>ldc\<close> and \<open>new\<close> name, pops below the stack or jumps before the code.
\<close>
theorem jvm_activation_safe:
  assumes "jvm_parse_class d = done_with cls0" and "length d < 2147483648" and "m0 \<in> set (jc_methods cls0)"
    and "\<forall>jar. rt = Some jar \<longrightarrow> length jar < 2147483648"
    and "activation rt cls0 m0 args0 depth cls m fr"
  shows "length (f_stack fr) \<le> JVM_STACK_MAX \<and> length (f_locals fr) = JVM_LOCALS_MAX \<and> depth \<le> JVM_CALL_DEPTH_MAX \<and>
    (int (f_pc fr) < sint (jm_code_len m) \<longrightarrow>
      (\<exists>opc. code_byte cls m (f_pc fr) = Some opc \<and>
        (jvm_step rt cls m fr = None \<longrightarrow> undefined_step rt cls m opc fr)))"
proof -
  have wf: "class_wf cls \<and> m \<in> set (jc_methods cls) \<and> jm_code m \<noteq> None \<and> frame_wf fr \<and> depth \<le> JVM_CALL_DEPTH_MAX"
    using activation_wf [OF assms(5) _ assms(3,4)] parse_class_wf [OF assms(1,2)] by blast
  then have code: "code_in (jc_bytes cls) m" by (simp add: class_wf_def)
  have "undefined_step rt cls m opc fr" if "code_byte cls m (f_pc fr) = Some opc" "jvm_step rt cls m fr = None" for opc
    using jsafe_op [of cls m fr rt False opc] wf code assms(4) that by (auto simp: jvm_step_def)
  then show ?thesis using wf code_byte_in [OF code, of "f_pc fr"] by (auto simp: frame_wf_def)
qed

definition starts :: "bytes \<Rightarrow> bool" where
  "starts d \<longleftrightarrow>
     (case jvm_parse_class d of
        Some (Inr cls) \<Rightarrow>
          (case jc_methods cls of
             m # ms \<Rightarrow> (case jvm_enter 0 m [0] of Inr fr \<Rightarrow> int (f_pc fr) < sint (jm_code_len m) | Inl _ \<Rightarrow> False)
           | [] \<Rightarrow> False)
      | _ \<Rightarrow> False)"

theorem jvm_activation_safe_witness:
  "\<exists>cls0 m0 fr. jvm_parse_class tinyjvm_hello_class = done_with cls0 \<and> activation None cls0 m0 [0] 0 cls0 m0 fr \<and>
     length (f_locals fr) = JVM_LOCALS_MAX \<and> (\<exists>opc. code_byte cls0 m0 (f_pc fr) = Some opc)"
proof -
  have "starts tinyjvm_hello_class" by code_simp
  then obtain cls0 m0 ms fr where s: "jvm_parse_class tinyjvm_hello_class = done_with cls0" "jc_methods cls0 = m0 # ms"
    "jvm_enter 0 m0 [0] = Inr fr" "int (f_pc fr) < sint (jm_code_len m0)"
    unfolding starts_def by (auto split: option.splits sum.splits list.splits)
  have a: "activation None cls0 m0 [0] 0 cls0 m0 fr" using s(3) by (rule activation.first)
  have len: "length tinyjvm_hello_class < 2147483648" by (simp add: tinyjvm_hello_class_def)
  show ?thesis using jvm_activation_safe [OF s(1) len _ _ a] s a by auto
qed

section \<open>Running with a step budget\<close>

text \<open>The interpreter with fuel, one unit per instruction and call, that collects the text instead of drawing it.\<close>

fun jvm_run :: "nat \<Rightarrow> bytes option \<Rightarrow> nat \<Rightarrow> jclass \<Rightarrow> jmethod \<Rightarrow> frame \<Rightarrow> (jret \<times> bytes list) option" where
  "jvm_run 0 rt depth cls m fr = None"
| "jvm_run (Suc n) rt depth cls m fr =
     (if int (f_pc fr) \<ge> sint (jm_code_len m) then Some (Returned None, [])
      else Option.bind (jvm_step rt cls m fr) (\<lambda>(r, out).
        case r of
          Go fr1 \<Rightarrow> map_option (\<lambda>(x, out1). (x, out @ out1)) (jvm_run n rt depth cls m fr1)
        | Halt x \<Rightarrow> Some (x, out)
        | Call c2 m2 argv want fr1 \<Rightarrow>
            (case jvm_enter (depth + 1) m2 argv of
               Inl msg \<Rightarrow> Some (Failed, out @ [msg])
             | Inr fr2 \<Rightarrow>
                 Option.bind (jvm_run n rt (depth + 1) c2 m2 fr2) (\<lambda>(x, out1).
                   case x of
                     Failed \<Rightarrow> Some (Failed, out @ out1)
                   | Returned v \<Rightarrow>
                       (case jvm_resume want v fr1 of
                          Inl ms \<Rightarrow> Some (Failed, out @ out1 @ ms)
                        | Inr fr3 \<Rightarrow> map_option (\<lambda>(x, out2). (x, out @ out1 @ out2)) (jvm_run n rt depth cls m fr3))))))"

lemma jvm_run_loop:
  "jvm_run n rt depth cls m fr = Some (x, out) \<Longrightarrow> jvm_loop rt depth cls m fr t = Some (x, fold term_puts out t)"
proof (induction n arbitrary: depth cls m fr x out t)
  case (Suc n)
  show ?case
  proof (cases "int (f_pc fr) \<ge> sint (jm_code_len m)")
    case True
    then show ?thesis using Suc.prems by (subst jvm_loop.simps) simp
  next
    case False
    then obtain r out0 where st: "jvm_step rt cls m fr = Some (r, out0)" using Suc.prems by (auto simp: bind_eq_Some_conv)
    show ?thesis
    proof (cases r)
      case (Go fr1)
      then show ?thesis using Suc.prems False st Suc.IH by (subst jvm_loop.simps) auto
    next
      case (Halt y)
      then show ?thesis using Suc.prems False st by (subst jvm_loop.simps) simp
    next
      case (Call c2 m2 argv want fr1)
      note prems = Suc.prems False st Call
      show ?thesis
      proof (cases "jvm_enter (depth + 1) m2 argv")
        case (Inl msg)
        then show ?thesis using prems by (subst jvm_loop.simps) auto
      next
        case (Inr fr2)
        then obtain y out1 where y: "jvm_run n rt (depth + 1) c2 m2 fr2 = Some (y, out1)"
          using prems by (auto simp: bind_eq_Some_conv)
        note call = Suc.IH [OF y, of "fold term_puts out0 t"]
        show ?thesis
        proof (cases y)
          case (Returned v)
          then show ?thesis
            using prems Inr y call Suc.IH by (subst jvm_loop.simps) (auto split: sum.splits)
        qed (use prems Inr y call in \<open>subst jvm_loop.simps, auto\<close>)
      qed
    qed
  qed
qed simp

section \<open>Integer arithmetic\<close>

text \<open>
  The operators as the Java language describes them, on integers between \<open>-2^31\<close> and
  \<open>2^31 - 1\<close>: sums, differences and products are brought back into that range, the quotient is
  cut towards zero, shifts use the distance modulo 32, and \<open>>>>\<close> shifts the 32 bits as an
  unsigned number.  A division by zero and the one quotient outside the range have no value.
\<close>

definition int32 :: "int \<Rightarrow> int" where
  "int32 n = (n + 2 ^ 31) mod 2 ^ 32 - 2 ^ 31"

definition quot :: "int \<Rightarrow> int \<Rightarrow> int" where
  "quot x y = (if (x < 0) = (y < 0) then \<bar>x\<bar> div \<bar>y\<bar> else - (\<bar>x\<bar> div \<bar>y\<bar>))"

definition jbin :: "u8 \<Rightarrow> int \<Rightarrow> int \<Rightarrow> int option" where
  "jbin opc x y =
     (if opc = 0x60 then Some (int32 (x + y))
      else if opc = 0x64 then Some (int32 (x - y))
      else if opc = 0x68 then Some (int32 (x * y))
      else if opc = 0x6c then (if y = 0 \<or> x = - (2 ^ 31) \<and> y = - 1 then None else Some (quot x y))
      else if opc = 0x70 then (if y = 0 \<or> x = - (2 ^ 31) \<and> y = - 1 then None else Some (x - quot x y * y))
      else if opc = 0x78 then Some (int32 (x * 2 ^ nat (y mod 32)))
      else if opc = 0x7a then Some (x div 2 ^ nat (y mod 32))
      else if opc = 0x7c then Some (int32 ((x mod 2 ^ 32) div 2 ^ nat (y mod 32)))
      else if opc = 0x7e then Some (x AND y)
      else if opc = 0x80 then Some (x OR y)
      else if opc = 0x82 then Some (x XOR y)
      else None)"

lemma int32_sint: "int32 n = sint (word_of_int n :: u32)"
  by (simp add: int32_def sint_sbintrunc' signed_take_bit_eq_take_bit_shift take_bit_eq_mod)

lemma sint_zero: "sint (a :: u32) = 0 \<longleftrightarrow> a = 0"
  by (metis signed_0 signed_word_eqI)

lemma sint_range: "- 2147483648 \<le> sint (a :: u32)" "sint (a :: u32) < 2147483648"
  using sint_greater_eq [of a] sint_less [of a] by simp_all

lemma sint_back: "- 2147483648 \<le> n \<Longrightarrow> n < 2147483648 \<Longrightarrow> sint (word_of_int n :: u32) = n"
  by (simp add: sint_sbintrunc' signed_take_bit_int_eq_self_iff)

lemma divide_faults_sint: "divide_faults a b \<longleftrightarrow> sint a = - 2147483648 \<and> sint b = - 1"
proof -
  have "sint (0x80000000 :: u32) = - 2147483648" "sint (0xFFFFFFFF :: u32) = - 1" by simp_all
  then show ?thesis unfolding divide_faults_def by (metis signed_word_eqI)
qed

lemma quot_sdiv: "sint a sdiv sint b = quot (sint a) (sint b)"
  by (auto simp: signed_divide_int_def quot_def sgn_if)

lemma quot_bounds:
  assumes "- 2147483648 \<le> x" "x < 2147483648" "y \<noteq> 0" "\<not> (x = - 2147483648 \<and> y = - 1)"
  shows "- 2147483648 \<le> quot x y" "quot x y < 2147483648" "\<bar>x - quot x y * y\<bar> \<le> \<bar>x\<bar>"
    "x < 0 \<Longrightarrow> x - quot x y * y \<le> 0" "0 \<le> x \<Longrightarrow> 0 \<le> x - quot x y * y"
proof -
  let ?q = "\<bar>x\<bar> div \<bar>y\<bar>"
  have q: "0 \<le> ?q" "?q \<le> \<bar>x\<bar>" using assms(3) zdiv_mono2 [of "\<bar>x\<bar>" 1 "\<bar>y\<bar>"] by (simp_all add: pos_imp_zdiv_nonneg_iff)
  have "?q < 2147483648" if "(x < 0) = (y < 0)"
  proof (cases "x = - 2147483648")
    case True
    then have "\<bar>y\<bar> \<ge> 2" using assms(4) that by simp
    then have "?q \<le> \<bar>x\<bar> div 2" by (intro zdiv_mono2) simp_all
    then show ?thesis using True by simp
  next
    case False
    then show ?thesis using q(2) assms(1,2) by linarith
  qed
  then show "- 2147483648 \<le> quot x y" "quot x y < 2147483648" using q assms(1,2) by (auto simp: quot_def)
  have m: "\<bar>x\<bar> - ?q * \<bar>y\<bar> = \<bar>x\<bar> mod \<bar>y\<bar>" by (simp add: minus_div_mult_eq_mod)
  have r: "0 \<le> \<bar>x\<bar> mod \<bar>y\<bar>" "\<bar>x\<bar> mod \<bar>y\<bar> \<le> \<bar>x\<bar>" using assms(3) by (simp_all add: zmod_le_nonneg_dividend)
  have e: "x - quot x y * y = (if x < 0 then - (\<bar>x\<bar> mod \<bar>y\<bar>) else \<bar>x\<bar> mod \<bar>y\<bar>)"
    unfolding m [symmetric] by (simp add: quot_def split: if_splits)
  show "\<bar>x - quot x y * y\<bar> \<le> \<bar>x\<bar>" "x < 0 \<Longrightarrow> x - quot x y * y \<le> 0" "0 \<le> x \<Longrightarrow> 0 \<le> x - quot x y * y"
    unfolding e using r by auto
qed

lemma shift_distance: "unat ((b :: u32) AND 31) = nat (sint b mod 32)"
proof -
  have "uint (b AND 31) = take_bit 5 (uint b)"
    by (simp add: uint_and take_bit_eq_mask mask_eq_exp_minus_1)
  also have "\<dots> = take_bit 5 (take_bit 32 (sint b))" using uint_sint [of b] by simp
  also have "\<dots> = sint b mod 32" by (simp add: take_bit_eq_mod mod_mod_cancel)
  finally show ?thesis by (simp add: unat_eq_nat_uint)
qed

lemma uint_mod_sint: "sint (a :: u32) mod 4294967296 = uint a"
  using uint_sint [of a] by (simp add: take_bit_eq_mod)

text \<open>The arithmetic of the interpreter on words is the one on integers.\<close>

lemma arith_int:
  assumes "opc \<in> {0x60, 0x64, 0x68, 0x6c, 0x70, 0x78, 0x7a, 0x7c, 0x7e, 0x80, 0x82}"
  shows "jbin opc (sint a) (sint b) =
    (if (opc = 0x6c \<or> opc = 0x70) \<and> (b = 0 \<or> divide_faults a b) then None else Some (sint (arith opc a b)))"
proof -
  note rng = sint_range [of a]
  have div: "sint (word_of_int (quot (sint a) (sint b)) :: u32) = quot (sint a) (sint b)"
    "sint (word_of_int (sint a - quot (sint a) (sint b) * sint b) :: u32) = sint a - quot (sint a) (sint b) * sint b"
    if "b \<noteq> 0" "\<not> divide_faults a b"
  proof -
    have "sint b \<noteq> 0" "\<not> (sint a = - 2147483648 \<and> sint b = - 1)" using that by (simp_all add: sint_zero divide_faults_sint)
    note q = quot_bounds [OF rng this]
    show "sint (word_of_int (quot (sint a) (sint b)) :: u32) = quot (sint a) (sint b)" by (rule sint_back [OF q(1,2)])
    show "sint (word_of_int (sint a - quot (sint a) (sint b) * sint b) :: u32) = sint a - quot (sint a) (sint b) * sint b"
      by (rule sint_back) (use q(3-5) rng in \<open>cases "sint a < 0"; linarith\<close>)+
  qed
  have md: "sint a smod sint b = sint a - quot (sint a) (sint b) * sint b"
    using sdiv_mult_smod_eq [of "sint a" "sint b"] by (simp add: quot_sdiv)
  have sh: "sint (push_bit n a) = int32 (sint a * 2 ^ n)" "sint (signed_drop_bit n a) = sint a div 2 ^ n"
    "sint (drop_bit n a) = int32 (uint a div 2 ^ n)" for n
  proof -
    show "sint (push_bit n a) = int32 (sint a * 2 ^ n)" by (simp add: int32_sint push_bit_eq_mult)
    show "sint (signed_drop_bit n a) = sint a div 2 ^ n" by (simp add: sint_signed_drop_bit_eq drop_bit_eq_div)
    have "uint (drop_bit n a) = uint a div 2 ^ n"
      unfolding drop_bit_eq_div [symmetric] by (rule bit_eqI) (simp add: bit_simps)
    then have "word_of_int (uint a div 2 ^ n) = drop_bit n a" by (metis word_of_int_uint)
    then show "sint (drop_bit n a) = int32 (uint a div 2 ^ n)" by (simp add: int32_sint)
  qed
  have ring: "int32 (sint a + sint b) = sint (a + b)" "int32 (sint a - sint b) = sint (a - b)"
    "int32 (sint a * sint b) = sint (a * b)"
    by (simp_all add: int32_sint)
  show ?thesis
    using assms div
    by (auto simp: ring jbin_def arith_def int32_sint [symmetric] sint_zero divide_faults_sint [symmetric] quot_sdiv md
        sh shift_distance uint_mod_sint signed_and_eq signed_or_eq signed_xor_eq)
qed

section \<open>Expressions\<close>

text \<open>
  Integer expressions over the locals with the code a Java compiler makes of them, and their
  value in integers; a division by zero, and the quotient outside the range, has none.
\<close>

datatype jexp = Lit u16 | Local u8 | Bin u8 jexp jexp | Neg jexp

fun jexp_code :: "jexp \<Rightarrow> bytes" where
  "jexp_code (Lit n) = 0x11 # be16 n"
| "jexp_code (Local i) = [0x15, i]"
| "jexp_code (Bin opc a b) = jexp_code a @ jexp_code b @ [opc]"
| "jexp_code (Neg a) = jexp_code a @ [0x74]"

fun jexp_ok :: "jexp \<Rightarrow> bool" where
  "jexp_ok (Lit n) = True"
| "jexp_ok (Local i) \<longleftrightarrow> unat i < JVM_LOCALS_MAX"
| "jexp_ok (Bin opc a b) \<longleftrightarrow>
     opc \<in> {0x60, 0x64, 0x68, 0x6c, 0x70, 0x78, 0x7a, 0x7c, 0x7e, 0x80, 0x82} \<and> jexp_ok a \<and> jexp_ok b"
| "jexp_ok (Neg a) = jexp_ok a"

fun jexp_depth :: "jexp \<Rightarrow> nat" where
  "jexp_depth (Lit n) = 1"
| "jexp_depth (Local i) = 1"
| "jexp_depth (Bin opc a b) = max (jexp_depth a) (1 + jexp_depth b)"
| "jexp_depth (Neg a) = jexp_depth a"

fun jexp_val :: "int list \<Rightarrow> jexp \<Rightarrow> int option" where
  "jexp_val ls (Lit n) = Some (sint n)"
| "jexp_val ls (Local i) = Some (ls ! unat i)"
| "jexp_val ls (Bin opc a b) =
     Option.bind (jexp_val ls a) (\<lambda>x. Option.bind (jexp_val ls b) (\<lambda>y. jbin opc x y))"
| "jexp_val ls (Neg a) = map_option (\<lambda>x. int32 (- x)) (jexp_val ls a)"

text \<open>The word the interpreter leaves on its stack for it.\<close>

fun jexp_word :: "u32 list \<Rightarrow> jexp \<Rightarrow> u32 option" where
  "jexp_word ls (Lit n) = Some (scast n)"
| "jexp_word ls (Local i) = Some (ls ! unat i)"
| "jexp_word ls (Bin opc a b) =
     Option.bind (jexp_word ls a) (\<lambda>x. Option.bind (jexp_word ls b) (\<lambda>y.
       if (opc = 0x6c \<or> opc = 0x70) \<and> (y = 0 \<or> divide_faults x y) then None else Some (arith opc x y)))"
| "jexp_word ls (Neg a) = map_option uminus (jexp_word ls a)"

lemma sint_scast16: "sint (scast (n :: u16) :: u32) = sint n"
  using sint_greater_eq [of n] sint_less [of n]
  by (simp add: signed_scast_eq signed_take_bit_int_eq_self_iff)

lemma jexp_word_val:
  "jexp_ok e \<Longrightarrow> length ls = JVM_LOCALS_MAX \<Longrightarrow> jexp_val (map sint ls) e = map_option sint (jexp_word ls e)"
proof (induction e)
  case (Bin opc a b)
  then show ?case using arith_int [of opc]
    by (cases "jexp_word ls a"; cases "jexp_word ls b") simp_all
next
  case (Neg a)
  then show ?case by (cases "jexp_word ls a") (simp_all add: int32_sint)
qed (simp_all add: sint_scast16)

definition code_at :: "jclass \<Rightarrow> jmethod \<Rightarrow> nat \<Rightarrow> bytes \<Rightarrow> bool" where
  "code_at cls m pc xs \<longleftrightarrow>
     int pc + int (length xs) \<le> sint (jm_code_len m) \<and> (\<forall>i<length xs. code_byte cls m (pc + i) = Some (xs ! i))"

lemma code_at_append: "code_at cls m pc (xs @ ys) \<longleftrightarrow> code_at cls m pc xs \<and> code_at cls m (pc + length xs) ys"
proof -
  have "(\<forall>i<length (xs @ ys). code_byte cls m (pc + i) = Some ((xs @ ys) ! i)) \<longleftrightarrow>
    (\<forall>i<length xs. code_byte cls m (pc + i) = Some (xs ! i)) \<and>
    (\<forall>j<length ys. code_byte cls m (pc + length xs + j) = Some (ys ! j))"
    by (auto simp: nth_append add.assoc) (metis add_diff_inverse_nat nat_add_left_cancel_less)
  then show ?thesis by (auto simp: code_at_def)
qed

lemma code_at_Cons: "code_at cls m pc (x # xs) \<longleftrightarrow>
    code_byte cls m pc = Some x \<and> int pc < sint (jm_code_len m) \<and> code_at cls m (Suc pc) xs"
  using code_at_append [of cls m pc "[x]" xs] by (auto simp: code_at_def)

lemma jvm_loop_go:
  assumes "int (f_pc fr) < sint (jm_code_len m)" "jvm_step rt cls m fr = Some (Go fr1, [])"
  shows "jvm_loop rt depth cls m fr t = jvm_loop rt depth cls m fr1 t"
  using assms by (subst jvm_loop.simps) simp

lemma code_at_rd16:
  assumes "code_at cls m pc (be16 n)"
  shows "rd_be16 (jc_bytes cls) (the (jm_code m) + int pc) = Some n" "int pc + 2 \<le> sint (jm_code_len m)"
proof -
  have "code_byte cls m pc = Some (ucast (drop_bit 8 n))" "code_byte cls m (Suc pc) = Some (ucast n)"
    using assms by (simp_all add: be16_def code_at_Cons)
  then show "rd_be16 (jc_bytes cls) (the (jm_code m) + int pc) = Some n"
    by (simp add: rd_be16_def code_byte_def add.assoc add.commute [of 1] split_words(2))
  show "int pc + 2 \<le> sint (jm_code_len m)" using assms by (simp add: code_at_def)
qed

lemma step_opcode:
  "code_byte cls m (f_pc fr) = Some opc \<Longrightarrow> jvm_step rt cls m fr = exec_op rt cls m (f_pc fr) opc (fr\<lparr>f_pc := Suc (f_pc fr)\<rparr>)"
  by (simp add: jvm_step_def)

lemma step_sipush:
  assumes "code_at cls m (f_pc fr) (0x11 # be16 n)" "length (f_stack fr) < JVM_STACK_MAX"
  shows "jvm_step rt cls m fr = Some (Go (fr\<lparr>f_stack := scast n # f_stack fr, f_pc := f_pc fr + 3\<rparr>), [])"
  using assms code_at_rd16 [of cls m "Suc (f_pc fr)" n]
  by (simp add: code_at_Cons step_opcode exec_op_def exec_const_def fetch16_def push_def)

lemma step_iload:
  assumes "code_at cls m (f_pc fr) [0x15, i]" "length (f_stack fr) < JVM_STACK_MAX" "unat i < JVM_LOCALS_MAX"
    "length (f_locals fr) = JVM_LOCALS_MAX"
  shows "jvm_step rt cls m fr = Some (Go (fr\<lparr>f_stack := f_locals fr ! unat i # f_stack fr, f_pc := f_pc fr + 2\<rparr>), [])"
  using assms
  by (simp add: code_at_Cons step_opcode exec_op_def exec_local_def fetch8_def load_local_def push_def)

lemma step_binop:
  assumes "code_byte cls m (f_pc fr) = Some opc" "opc \<in> {0x60, 0x64, 0x68, 0x6c, 0x70, 0x78, 0x7a, 0x7c, 0x7e, 0x80, 0x82}"
    and "f_stack fr = y # x # st" "\<not> ((opc = 0x6c \<or> opc = 0x70) \<and> (y = 0 \<or> divide_faults x y))"
  shows "jvm_step rt cls m fr = Some (Go (fr\<lparr>f_stack := arith opc x y # st, f_pc := f_pc fr + 1\<rparr>), [])"
proof -
  have "exec_op rt cls m (f_pc fr) opc (fr\<lparr>f_pc := Suc (f_pc fr)\<rparr>) = exec_arith opc (fr\<lparr>f_pc := Suc (f_pc fr)\<rparr>)"
    using assms(2) by (elim insertE emptyE) (simp_all add: exec_op_def)
  moreover have "exec_arith opc (fr\<lparr>f_pc := Suc (f_pc fr)\<rparr>) = Some (Go (fr\<lparr>f_stack := arith opc x y # st, f_pc := f_pc fr + 1\<rparr>), [])"
    using assms(3,4) by (simp add: exec_arith_def pop2_def) blast
  ultimately show ?thesis by (simp add: step_opcode [OF assms(1)])
qed

lemma step_ineg:
  assumes "code_byte cls m (f_pc fr) = Some 0x74" "f_stack fr = x # st"
  shows "jvm_step rt cls m fr = Some (Go (fr\<lparr>f_stack := - x # st, f_pc := f_pc fr + 1\<rparr>), [])"
  using assms by (simp add: step_opcode exec_op_def exec_neg_def pop1_def)

lemma jexp_runs:
  assumes "code_at cls m (f_pc fr) (jexp_code e)" "jexp_ok e" "length (f_stack fr) + jexp_depth e \<le> JVM_STACK_MAX"
    "jexp_word (f_locals fr) e = Some v" "length (f_locals fr) = JVM_LOCALS_MAX"
  shows "jvm_loop rt depth cls m fr t =
    jvm_loop rt depth cls m (fr\<lparr>f_stack := v # f_stack fr, f_pc := f_pc fr + length (jexp_code e)\<rparr>) t"
  using assms
proof (induction e arbitrary: fr v)
  case (Lit n)
  then show ?case using jvm_loop_go [OF _ step_sipush [of cls m fr n]] by (simp add: code_at_Cons)
next
  case (Local i)
  then show ?case using jvm_loop_go [OF _ step_iload [of cls m fr i]] by (simp add: code_at_Cons)
next
  case (Bin opc a b)
  obtain x y where v: "jexp_word (f_locals fr) a = Some x" "jexp_word (f_locals fr) b = Some y" "v = arith opc x y"
    and ok: "\<not> ((opc = 0x6c \<or> opc = 0x70) \<and> (y = 0 \<or> divide_faults x y))"
    using Bin.prems(4) by (auto simp: bind_eq_Some_conv split: if_splits)
  let ?fa = "fr\<lparr>f_stack := x # f_stack fr, f_pc := f_pc fr + length (jexp_code a)\<rparr>"
  let ?fb = "fr\<lparr>f_stack := y # x # f_stack fr, f_pc := f_pc fr + length (jexp_code a) + length (jexp_code b)\<rparr>"
  have "jvm_loop rt depth cls m fr t = jvm_loop rt depth cls m ?fa t"
    by (rule Bin.IH(1)) (use Bin.prems v in \<open>simp_all add: code_at_append\<close>)
  also have "\<dots> = jvm_loop rt depth cls m ?fb t"
    using Bin.IH(2) [of ?fa y] Bin.prems v by (simp add: code_at_append)
  also have "\<dots> = jvm_loop rt depth cls m (?fb\<lparr>f_stack := arith opc x y # f_stack fr, f_pc := f_pc ?fb + 1\<rparr>) t"
    by (rule jvm_loop_go [OF _ step_binop]) (use Bin.prems ok in \<open>simp_all add: code_at_append code_at_Cons\<close>)
  finally show ?case by (simp add: v(3) add.assoc)
next
  case (Neg a)
  obtain x where v: "jexp_word (f_locals fr) a = Some x" "v = - x" using Neg.prems(4) by auto
  let ?fa = "fr\<lparr>f_stack := x # f_stack fr, f_pc := f_pc fr + length (jexp_code a)\<rparr>"
  have "jvm_loop rt depth cls m fr t = jvm_loop rt depth cls m ?fa t"
    by (rule Neg.IH) (use Neg.prems v in \<open>simp_all add: code_at_append\<close>)
  also have "\<dots> = jvm_loop rt depth cls m (?fa\<lparr>f_stack := - x # f_stack fr, f_pc := f_pc ?fa + 1\<rparr>) t"
    by (rule jvm_loop_go [OF _ step_ineg]) (use Neg.prems in \<open>simp_all add: code_at_append code_at_Cons\<close>)
  finally show ?case by (simp add: v(2))
qed

text \<open>
  C16.  Arithmetic of the interpreter: a method whose code is the compiled form of an integer
  expression over its arguments followed by \<open>ireturn\<close> returns the value of the expression and
  prints nothing, for every expression that needs at most 256 places of the stack and whose
  divisions are defined, at every call depth up to the limit.  The value is that of Java's
  operators on signed 32-bit integers (\<open>jbin\<close>), computed in integers.
\<close>
theorem jvm_expression_correct:
  assumes "jm_code m = Some c" and "jm_code_len m = word_of_nat (length (jexp_code e @ [0xac]))"
    and "sub_bytes (jc_bytes cls) c (int (length (jexp_code e @ [0xac]))) = jexp_code e @ [0xac]" "0 \<le> c"
    and "length (jexp_code e) < 2147483647" and "jexp_ok e" and "jexp_depth e \<le> JVM_STACK_MAX"
    and "length args \<le> JVM_LOCALS_MAX" and "depth \<le> JVM_CALL_DEPTH_MAX"
    and "jexp_val (map sint args @ replicate (JVM_LOCALS_MAX - length args) 0) e = Some n"
  shows "\<exists>v. jvm_exec_method rt depth cls m args t = Some (Returned (Some v), t) \<and> sint v = n"
proof -
  let ?ls = "args @ replicate (JVM_LOCALS_MAX - length args) 0"
  have ls: "length ?ls = JVM_LOCALS_MAX" using assms(8) by simp
  have "map_option sint (jexp_word ?ls e) = Some n"
    using jexp_word_val [OF assms(6) ls] assms(10) by (simp add: map_replicate_const)
  then obtain v where v: "jexp_word ?ls e = Some v" "sint v = n" unfolding map_option_eq_Some by blast
  let ?code = "jexp_code e @ [0xac]"
  let ?fr = "\<lparr>f_stack = [], f_locals = args @ replicate (JVM_LOCALS_MAX - length args) 0, f_pc = 0\<rparr>"
  let ?fv = "?fr\<lparr>f_stack := [v], f_pc := length (jexp_code e)\<rparr>"
  have len: "sint (jm_code_len m) = int (length ?code)"
    unfolding assms(2) by (rule sint_length) (use assms(5) in simp)
  have "jm_code_len m \<noteq> 0" using len by auto
  then have "jvm_enter depth m args = Inr ?fr" using assms(1,8,9) by (simp add: jvm_enter_def)
  moreover have "code_byte cls m i = Some (?code ! i)" if "i < length ?code" for i
  proof -
    have eq: "?code = take (length ?code) (drop (nat c) (jc_bytes cls))" using assms(3) by (simp only: sub_bytes_def nat_int)
    have i: "nat c + i < length (jc_bytes cls)" using that arg_cong [OF eq, of length] by simp
    have "?code ! i = jc_bytes cls ! (nat c + i)" using that i by (subst eq) simp
    then show ?thesis using i assms(1,4) by (simp add: code_byte_def byte_at_def nat_add_distrib)
  qed
  then have at: "code_at cls m 0 ?code" by (simp add: code_at_def len)
  then have "code_at cls m 0 (jexp_code e)" "code_byte cls m (length (jexp_code e)) = Some 0xac"
    by (simp_all add: code_at_append code_at_Cons)
  moreover have "jvm_loop rt depth cls m ?fr t = jvm_loop rt depth cls m ?fv t"
    using jexp_runs [of cls m ?fr e v] calculation assms(6,7) v(1) ls by simp
  moreover have "jvm_loop rt depth cls m ?fv t = Some (Returned (Some v), t)"
    using calculation(3) len by (subst jvm_loop.simps) (simp add: step_opcode exec_op_def pop1_def)
  ultimately show ?thesis using v(2) by (simp add: jvm_exec_method_def)
qed

definition demo_exp :: jexp where
  "demo_exp = Bin 0x6c (Bin 0x64 (Local 0) (Lit 3)) (Neg (Local 1))"

definition demo_method :: jmethod where
  "demo_method = \<lparr>access_flags = 8, name_index = 1, desc_index = 2, max_stack = 2, max_locals = 2,
     jm_code = Some 1, jm_code_len = word_of_nat (length (jexp_code demo_exp @ [0xac]))\<rparr>"

definition demo_cls :: jclass where
  "demo_cls = \<lparr>jc_bytes = [7] @ jexp_code demo_exp @ [0xac, 9], jc_minor = 0, jc_major = 52, jc_cp_count = 1,
     jc_cp = replicate 256 jcp_zero, jc_this = 0, jc_methods = [demo_method]\<rparr>"

theorem jvm_expression_correct_witness:
  "\<exists>v. jvm_exec_method None 0 demo_cls demo_method [10, 2] terminal_boot = Some (Returned (Some v), terminal_boot) \<and> sint v = - 3"
proof -
  have "jexp_val (map sint [10 :: u32, 2] @ replicate (JVM_LOCALS_MAX - length [10 :: u32, 2]) 0) demo_exp = Some (- 3)" by code_simp
  then show ?thesis
    using jvm_expression_correct [of demo_method 1 demo_exp demo_cls "[10, 2]" 0 "- 3" None terminal_boot]
    by (simp add: demo_method_def demo_cls_def demo_exp_def sub_bytes_def be16_def
        JVM_LOCALS_MAX_def JVM_STACK_MAX_def JVM_CALL_DEPTH_MAX_def)
qed

end
