(* ===== verification/Java.thy ===== *)
theory Java
  imports Jvm
begin

text \<open>
  The rest of \<^verbatim>\<open>src/src/commands/java.c\<close>: the mini format HJAR with its own stack
  machine, the search for the file to run, and the commands \<open>java\<close>, \<open>jarinfo\<close> and \<open>/java\<close>.
\<close>

unbundle bit_operations_syntax

definition JAVA_BUF_CAP :: nat where "JAVA_BUF_CAP = 8192"

section \<open>Formats\<close>

text \<open>0 is unknown, 1 HJAR, 2 an archive and 3 a class file.\<close>

definition java_detect_format :: "bytes \<Rightarrow> nat" where
  "java_detect_format d =
     (if length d < 4 then 0
      else if length d \<ge> 5 \<and> take 4 d = lit ''HJAR'' then 1
      else if take 4 d = [80, 75, 3, 4] then 2
      else if rd_be32 d 0 = Some 0xCAFEBABE then 3 else 0)"

text \<open>The loop of \<open>java_hjar_exec\<close> over the bytes from \<open>pc\<close> on; the result holds the printed text.\<close>

function hjar_loop :: "bytes \<Rightarrow> u32 list \<Rightarrow> (bool \<times> bytes list) option" where
  "hjar_loop [] st = Some (False, [lit ''java: HJAR ended without return'' @ [10]])"
| "hjar_loop (opc # r) st =
     (if opc = 0x10 then
        (case r of
           v # r1 \<Rightarrow> if length st \<ge> 64 then Some (False, [lit ''java: HJAR stack/bytecode error'' @ [10]])
                     else hjar_loop r1 (scast v # st)
         | [] \<Rightarrow> Some (False, [lit ''java: HJAR stack/bytecode error'' @ [10]]))
      else if opc = 0x60 \<or> opc = 0x64 \<or> opc = 0x68 \<or> opc = 0x6c then
        (case st of
           b # a # st1 \<Rightarrow>
             if opc = 0x6c \<and> b = 0 then Some (False, [lit ''java: divide by zero'' @ [10]])
             else if opc = 0x6c \<and> divide_faults a b then None
             else hjar_loop r (arith opc a b # st1)
         | _ \<Rightarrow> Some (False, [lit ''java: HJAR stack underflow'' @ [10]]))
      else if opc = 0xFC then
        (case r of
           n # r1 \<Rightarrow>
             if unat n > length r1 then Some (False, [lit ''java: HJAR literal out of range'' @ [10]])
             else map_option (\<lambda>(ok, out). (ok, take (unat n) r1 # out)) (hjar_loop (drop (unat n) r1) st)
         | [] \<Rightarrow> Some (False, [lit ''java: HJAR truncated literal'' @ [10]]))
      else if opc = 0xFE then
        (case st of
           v # st1 \<Rightarrow> map_option (\<lambda>(ok, out). (ok, itoa_text v # out)) (hjar_loop r st1)
         | [] \<Rightarrow> Some (False, [lit ''java: HJAR print stack underflow'' @ [10]]))
      else if opc = 0xB1 then Some (True, [[10]])
      else Some (False, [lit ''java: unknown HJAR opcode 0x'', utoa_text (ucast opc) 16, [10]]))"
  by pat_completeness auto
termination
  by (relation "measure (length \<circ> fst)") auto

definition java_hjar_exec :: "bytes \<Rightarrow> terminal \<Rightarrow> (bool \<times> terminal) option" where
  "java_hjar_exec d t =
     (if length d < 5 \<or> java_detect_format d \<noteq> 1 then Some (False, term_puts (lit ''java: invalid HJAR'' @ [10]) t)
      else map_option (\<lambda>(ok, out). (ok, fold term_puts out t)) (hjar_loop (drop 5 d) []))"

section \<open>Finding the file\<close>

definition java_file_exists :: "fs \<Rightarrow> bytes \<Rightarrow> bool option" where
  "java_file_exists f path =
     (if path = [] then Some False
      else map_option (\<lambda>r. case r of None \<Rightarrow> False | Some n \<Rightarrow> fs_is_file f n) (fs_resolve_checked f (Some path)))"

definition java_copy_path :: "nat \<Rightarrow> bytes \<Rightarrow> bytes option" where
  "java_copy_path dst_cap src = (if length src + 1 > dst_cap then None else Some src)"

definition java_path_has_extension :: "bytes \<Rightarrow> bool" where
  "java_path_has_extension path \<longleftrightarrow> chr_dot \<in> set (takeWhile (\<lambda>c. c \<noteq> chr_slash) (rev path))"

definition java_join_path :: "nat \<Rightarrow> bytes \<Rightarrow> bytes \<Rightarrow> bytes option" where
  "java_join_path out_cap dir name =
     (let need_sep = (dir \<noteq> [] \<and> last dir \<noteq> chr_slash)
      in if length dir + length name + (if need_sep then 1 else 0) + 1 > out_cap then None
         else Some (dir @ (if need_sep then [chr_slash] else []) @ name))"

fun try_exts :: "fs \<Rightarrow> bytes \<Rightarrow> nat \<Rightarrow> bytes list \<Rightarrow> bytes option option" where
  "try_exts f base cap [] = Some None"
| "try_exts f base cap (e # es) =
     (if length base + length e + 1 > 160 then try_exts f base cap es
      else Option.bind (java_file_exists f (base @ e)) (\<lambda>ok.
             if ok then Some (java_copy_path cap (base @ e)) else try_exts f base cap es))"

definition java_try_base_and_ext :: "fs \<Rightarrow> bytes \<Rightarrow> nat \<Rightarrow> bytes option option" where
  "java_try_base_and_ext f base resolved_cap =
     (if base = [] then Some None
      else Option.bind (java_file_exists f base) (\<lambda>ok.
        if ok then Some (java_copy_path resolved_cap base)
        else if java_path_has_extension base then Some None
        else try_exts f base resolved_cap [lit ''.jar'', lit ''.class'', lit ''.hjar'']))"

fun default_loop :: "fs \<Rightarrow> bytes list \<Rightarrow> bytes option option" where
  "default_loop f [] = Some None"
| "default_loop f (p # ps) =
     Option.bind (java_file_exists f p) (\<lambda>ok. if ok then Some (Some p) else default_loop f ps)"

definition java_default_path :: "fs \<Rightarrow> bytes option option" where
  "java_default_path f =
     default_loop f [lit ''/java/tinyjvm.jar'', lit ''/java/hello.class'', lit ''/java/hello.jar'', lit ''/java/sample.jar'']"

fun strip_dot_slash :: "bytes \<Rightarrow> bytes" where
  "strip_dot_slash (a # b # r) = (if a = chr_dot \<and> b = chr_slash then strip_dot_slash r else a # b # r)"
| "strip_dot_slash p = p"

fun search_dirs :: "fs \<Rightarrow> bytes \<Rightarrow> bytes list \<Rightarrow> bytes option option" where
  "search_dirs f path [] = Some None"
| "search_dirs f path (d # ds) =
     (case java_join_path 160 d path of
        None \<Rightarrow> search_dirs f path ds
      | Some candidate \<Rightarrow>
          Option.bind (java_try_base_and_ext f candidate 160) (\<lambda>r.
            case r of Some p \<Rightarrow> Some (Some p) | None \<Rightarrow> search_dirs f path ds))"

text \<open>The path to run, if there is one, and whether it is a fallback.\<close>

definition java_resolve_path :: "fs \<Rightarrow> bytes option \<Rightarrow> (bytes option \<times> bool) option" where
  "java_resolve_path f raw_path =
     (let path = strip_dot_slash (case raw_path of None \<Rightarrow> [] | Some p \<Rightarrow> p)
      in if path = [] then map_option (\<lambda>r. (r, True)) (java_default_path f)
         else Option.bind (java_try_base_and_ext f path 160) (\<lambda>r.
           case r of
             Some p \<Rightarrow> Some (Some p, False)
           | None \<Rightarrow>
               Option.bind
                 (if hd path \<noteq> chr_slash
                  then Option.bind (fs_build_path f (fs_cwd_get f) False 64) (\<lambda>cwd.
                         search_dirs f path [cwd, lit ''/java'', lit ''/home'', lit ''/docs''])
                  else Some None)
                 (\<lambda>r1. case r1 of
                    Some p \<Rightarrow> Some (Some p, False)
                  | None \<Rightarrow> map_option (\<lambda>d. (d, d \<noteq> None)) (java_default_path f))))"

definition java_load_file :: "bytes \<Rightarrow> nat \<Rightarrow> fs \<times> terminal \<Rightarrow> ((bytes \<times> nat) option \<times> fs \<times> terminal) option" where
  "java_load_file path cap s =
     (if path = [] then Some (None, say [lit ''java: missing file path'' @ [10]] s)
      else Option.bind (fs_resolve_checked (fst s) (Some path)) (\<lambda>r.
        if r = None \<or> \<not> fs_is_file (fst s) (the r)
        then Some (None, say [lit ''java: file not found: '', path, [10]] s)
        else let rd = fs_read (fst s) (the r) False (int cap)
             in if fst rd \<le> 0 then Some (None, say [lit ''java: failed to read file'' @ [10]] s)
                else Some (Some (snd rd, java_detect_format (snd rd)), s)))"

section \<open>Commands\<close>

definition java_class_info :: "bytes \<Rightarrow> bytes list option" where
  "java_class_info d =
     (if length d < 10 \<or> rd_be32 d 0 \<noteq> Some 0xCAFEBABE then Some [lit ''java: invalid class file'' @ [10]]
      else Option.bind (rd_be16 d 4) (\<lambda>minor. Option.bind (rd_be16 d 6) (\<lambda>major. Option.bind (rd_be16 d 8) (\<lambda>cp_count.
        Some [lit ''ClassFile version: '', utoa_text (ucast major) 10, [chr_dot], utoa_text (ucast minor) 10,
              lit ''  cp_count='', utoa_text (ucast cp_count) 10, [10],
              lit ''Execution path: TinyJVM extended mode (class + jar + cross-class static calls).'' @ [10]]))))"

text \<open>The entry of the class to run: the main class of the manifest, or the first class.\<close>

definition jar_target :: "bytes \<Rightarrow> bytes option option" where
  "jar_target d =
     map_option (\<lambda>r. case r of None \<Rightarrow> None
                     | Some e \<Rightarrow> if ze_method e = 0 then java_manifest_main_class (ze_payload e) 128 else None)
       (java_zip_find_entry d (lit ''META-INF/MANIFEST.MF''))"

definition java_run_entry :: "bytes \<Rightarrow> zip_entry \<Rightarrow> terminal \<Rightarrow> (bool \<times> terminal) option" where
  "java_run_entry d e t =
     (if ze_method e \<noteq> 0
      then Some (False, term_puts (lit ''java: compressed class entries are not supported yet (need STORED, method=0)'' @ [10]) t)
      else jvm_execute_class_with_rt (Some d) (ze_payload e) t)"

definition java_run_jar :: "bytes \<Rightarrow> terminal \<Rightarrow> (bool \<times> terminal) option" where
  "java_run_jar d t =
     Option.bind (jar_target d) (\<lambda>target.
       case target of
         Some class_path \<Rightarrow>
           Option.bind (java_zip_find_entry d class_path) (\<lambda>r.
             case r of
               None \<Rightarrow> Some (False, term_puts (lit ''java: Main-Class entry not found in jar'' @ [10]) t)
             | Some e \<Rightarrow> java_run_entry d e (fold term_puts [lit ''java: jar Main-Class => '', class_path, [10]] t))
       | None \<Rightarrow>
           Option.bind (java_zip_find_first_class d 128) (\<lambda>r.
             case r of
               None \<Rightarrow> Some (False, term_puts (lit ''java: jar has no .class entry'' @ [10]) t)
             | Some (e, first_name) \<Rightarrow>
                 java_run_entry d e (fold term_puts [lit ''java: jar fallback class => '', first_name, [10]] t)))"

text \<open>The start that \<open>java\<close> and \<open>jarinfo\<close> share: the path, the note about a fallback and the file.\<close>

definition java_open :: "bytes \<Rightarrow> bytes \<Rightarrow> bytes option \<Rightarrow> fs \<times> terminal \<Rightarrow> ((bytes \<times> nat) option \<times> fs \<times> terminal) option" where
  "java_open none_msg used_msg args s =
     Option.bind (java_resolve_path (fst s) (if no_args args then None else args)) (\<lambda>(path, used_fallback).
       case path of
         None \<Rightarrow> Some (None, say [none_msg] s)
       | Some p \<Rightarrow>
           java_load_file p JAVA_BUF_CAP (if \<not> no_args args \<and> used_fallback then say [used_msg, p, [10]] s else s))"

definition jarinfo_report :: "bytes \<Rightarrow> nat \<Rightarrow> fs \<times> terminal \<Rightarrow> (fs \<times> terminal) option" where
  "jarinfo_report d fmt s =
     (if fmt = 1 then
        Some (say [lit ''jarinfo: HJAR (HeatOS mini format), version='', utoa_text (ucast (d ! 4)) 10,
               lit '' size='', utoa_text (word_of_nat (length d)) 10, [10]] s)
      else if fmt = 2 then
        map_option (\<lambda>(ok, t). (fst s, t)) (java_zip_list_entries d (snd (say [lit ''jarinfo: ZIP/JAR detected'' @ [10]] s)))
      else if fmt = 3 then
        map_option (\<lambda>ms. say ms (say [lit ''jarinfo: ClassFile detected'' @ [10]] s)) (java_class_info d)
      else Some (say [lit ''jarinfo: unknown file format'' @ [10]] s))"

definition cmd_jarinfo :: "fs cmd" where
  "cmd_jarinfo args s =
     Option.bind (java_open (lit ''jarinfo: no default Java file found. try: ls /java'' @ [10])
                    (lit ''jarinfo: requested file not found, using '') args s) (\<lambda>(r, s1).
       case r of None \<Rightarrow> Some s1 | Some (d, fmt) \<Rightarrow> jarinfo_report d fmt s1)"

definition java_start :: "bytes \<Rightarrow> nat \<Rightarrow> fs \<times> terminal \<Rightarrow> (fs \<times> terminal) option" where
  "java_start d fmt s =
     (if fmt = 1 then
        map_option (\<lambda>(ok, t). (fst s, t)) (java_hjar_exec d (snd (say [lit ''java: running HJAR app'' @ [10]] s)))
      else if fmt = 2 then
        map_option (\<lambda>(ok, t). if ok then (fst s, t) else say [lit ''java: jar execution failed'' @ [10]] (fst s, t))
          (java_run_jar d (snd (say [lit ''java: ZIP/JAR detected'' @ [10]] s)))
      else if fmt = 3 then
        Option.bind (java_class_info d) (\<lambda>ms.
          map_option (\<lambda>(ok, t). if ok then (fst s, t) else say [lit ''java: class execution failed'' @ [10]] (fst s, t))
            (jvm_execute_class d (snd (say ms (say [lit ''java: direct .class input detected'' @ [10]] s)))))
      else Some (say [lit ''java: unsupported file format'' @ [10]] s))"

definition cmd_java :: "fs cmd" where
  "cmd_java args s =
     Option.bind (java_open (lit ''java: no default Java file found. try: ls /java'' @ [10])
                    (lit ''java: requested path not found, running '') args s) (\<lambda>(r, s1).
       case r of None \<Rightarrow> Some s1 | Some (d, fmt) \<Rightarrow> java_start d fmt s1)"

definition cmd_java_dir :: "fs cmd" where
  "cmd_java_dir args s =
     Option.bind (fs_resolve_checked (fst s) (Some (lit ''/java''))) (\<lambda>r.
       if r = None \<or> \<not> fs_is_dir (fst s) (the r) then Some (say [lit ''/java: directory not found'' @ [10]] s)
       else cmd_ls None (say [lit ''cwd => /java'' @ [10]] (fs_cwd_set (the r) (fst s), snd s)))"

section \<open>The mini format\<close>

text \<open>
  Programs of the mini format: texts and printed expressions over signed bytes, with their values
  in integers, and the decimal text of an integer.
\<close>

datatype hexp = HNum u8 | HBin u8 hexp hexp

datatype hstmt = HText bytes | HPrint hexp

fun hexp_code :: "hexp \<Rightarrow> bytes" where
  "hexp_code (HNum n) = [0x10, n]"
| "hexp_code (HBin opc a b) = hexp_code a @ hexp_code b @ [opc]"

fun hexp_ok :: "hexp \<Rightarrow> bool" where
  "hexp_ok (HNum n) = True"
| "hexp_ok (HBin opc a b) \<longleftrightarrow> opc \<in> {0x60, 0x64, 0x68, 0x6c} \<and> hexp_ok a \<and> hexp_ok b"

fun hexp_depth :: "hexp \<Rightarrow> nat" where
  "hexp_depth (HNum n) = 1"
| "hexp_depth (HBin opc a b) = max (hexp_depth a) (1 + hexp_depth b)"

fun hexp_val :: "hexp \<Rightarrow> int option" where
  "hexp_val (HNum n) = Some (sint n)"
| "hexp_val (HBin opc a b) =
     Option.bind (hexp_val a) (\<lambda>x. Option.bind (hexp_val b) (\<lambda>y. jbin opc x y))"

fun dec_nat :: "nat \<Rightarrow> bytes" where
  "dec_nat n = (if n < 10 then [] else dec_nat (n div 10)) @ [word_of_nat (48 + n mod 10)]"

declare dec_nat.simps [simp del]

definition dec_int :: "int \<Rightarrow> bytes" where
  "dec_int v = (if v < 0 then 45 # dec_nat (nat (- v)) else dec_nat (nat v))"

text \<open>The word the stack machine computes for an expression.\<close>

fun hexp_word :: "hexp \<Rightarrow> u32 option" where
  "hexp_word (HNum n) = Some (scast n)"
| "hexp_word (HBin opc a b) =
     Option.bind (hexp_word a) (\<lambda>x. Option.bind (hexp_word b) (\<lambda>y.
       if opc = 0x6c \<and> (y = 0 \<or> divide_faults x y) then None else Some (arith opc x y)))"

fun hstmt_code :: "hstmt \<Rightarrow> bytes" where
  "hstmt_code (HText s) = 0xFC # word_of_nat (length s) # s"
| "hstmt_code (HPrint e) = hexp_code e @ [0xFE]"

fun hstmt_ok :: "hstmt \<Rightarrow> bool" where
  "hstmt_ok (HText s) \<longleftrightarrow> length s < 256"
| "hstmt_ok (HPrint e) \<longleftrightarrow> hexp_ok e \<and> hexp_depth e \<le> 64 \<and> hexp_val e \<noteq> None"

fun hstmt_text :: "hstmt \<Rightarrow> bytes" where
  "hstmt_text (HText s) = s"
| "hstmt_text (HPrint e) = dec_int (the (hexp_val e))"

definition hjar_file :: "u8 \<Rightarrow> hstmt list \<Rightarrow> bytes \<Rightarrow> bytes" where
  "hjar_file version ps rest = lit ''HJAR'' @ [version] @ concat (map hstmt_code ps) @ [0xB1] @ rest"

lemma sint_scast8: "sint (scast (n :: u8) :: u32) = sint n"
  using sint_greater_eq [of n] sint_less [of n]
  by (simp add: signed_scast_eq signed_take_bit_int_eq_self_iff)

lemma hexp_word_val: "hexp_ok e \<Longrightarrow> hexp_val e = map_option sint (hexp_word e)"
proof (induction e)
  case (HBin opc a b)
  show ?case
  proof (cases "hexp_word a = None \<or> hexp_word b = None")
    case False
    then obtain x y where xy: "hexp_word a = Some x" "hexp_word b = Some y" by auto
    have "opc \<in> {0x60, 0x64, 0x68, 0x6c, 0x70, 0x78, 0x7a, 0x7c, 0x7e, 0x80, 0x82}" "opc \<noteq> 0x70" using HBin.prems by auto
    then show ?thesis using HBin xy arith_int [of opc x y] by (simp only: hexp_ok.simps hexp_val.simps hexp_word.simps) simp
  qed (use HBin in auto)
qed (simp add: sint_scast8)

lemma digits_loop_dec: "digits_loop n 10 acc = Some (acc @ rev (dec_nat n))"
proof (induction n arbitrary: acc rule: dec_nat.induct)
  case (1 n)
  have d: "digit_char (n mod 10) = word_of_nat (48 + n mod 10)"
    by (simp add: digit_char_def byte_of_nat_def)
  show ?case using 1 d
    by (subst digits_loop.simps, subst dec_nat.simps) (auto simp: Let_def div_eq_0_iff not_less)
qed

lemma itoa_text_dec: "itoa_text w = dec_int (sint w)"
proof -
  have "int (unat (- w)) = - sint w" if "sint w < 0"
    using that by (simp add: sint_u32 uint_word_ariths zmod_zminus1_eq_if split: if_splits)
  then have "unat (- w) = nat (- sint w)" if "sint w < 0" using that by (metis nat_int)
  moreover have "int (unat w) = sint w" if "\<not> sint w < 0"
    using that by (simp add: sint_u32 split: if_splits)
  then have "unat w = nat (sint w)" if "\<not> sint w < 0" using that by (metis nat_int)
  ultimately show ?thesis
    by (simp add: itoa_text_def itoa_str_def digits_loop_dec dec_int_def Let_def)
qed

lemma hexp_runs:
  assumes "hexp_ok e" "length st + hexp_depth e \<le> 64" "hexp_word e = Some v"
  shows "hjar_loop (hexp_code e @ r) st = hjar_loop r (v # st)"
  using assms
proof (induction e arbitrary: st v r)
  case (HBin opc a b)
  obtain x y where v: "hexp_word a = Some x" "hexp_word b = Some y" "v = arith opc x y"
    "\<not> (opc = 0x6c \<and> (y = 0 \<or> divide_faults x y))"
    using HBin.prems(3) by (auto simp: bind_eq_Some_conv split: if_splits)
  have "hjar_loop (hexp_code (HBin opc a b) @ r) st = hjar_loop (hexp_code b @ opc # r) (x # st)"
    using HBin.IH(1) [of st x] HBin.prems v(1) by simp
  also have "\<dots> = hjar_loop (opc # r) (y # x # st)"
    using HBin.IH(2) [of "x # st" y] HBin.prems v(2) by simp
  also have "\<dots> = hjar_loop r (arith opc x y # st)" using HBin.prems(1) v(4) by auto
  finally show ?case by (simp add: v(3))
qed simp

lemma hstmts_run:
  assumes "\<forall>p\<in>set ps. hstmt_ok p"
  shows "hjar_loop (concat (map hstmt_code ps) @ 0xB1 # rest) [] = Some (True, map hstmt_text ps @ [[10]])"
  using assms
proof (induction ps)
  case (Cons p ps)
  show ?case
  proof (cases p)
    case (HText s)
    then have "unat (word_of_nat (length s) :: u8) = length s" using Cons.prems by (simp add: unat_of_nat take_bit_nat_eq_self)
    then show ?thesis using Cons HText by simp
  next
    case (HPrint e)
    then have e: "hexp_ok e" "hexp_depth e \<le> 64" "hexp_val e \<noteq> None" using Cons.prems by auto
    then obtain v where v: "hexp_word e = Some v" "hexp_val e = Some (sint v)" using hexp_word_val by fastforce
    then show ?thesis using Cons HPrint e hexp_runs [of e "[]" v] by (simp add: itoa_text_dec)
  qed
qed simp

text \<open>
  C33.  The mini format: a file made of any texts of at most 255 bytes and any printed expressions
  (with defined divisions and at most 64 places of stack) runs to its end, prints the texts and
  the decimal values of the expressions in their order, and a line end.  The values are those of
  Java's operators on signed 32-bit integers (\<open>jbin\<close>), computed in integers.
\<close>
theorem hjar_runs_correct:
  assumes "\<forall>p\<in>set ps. hstmt_ok p"
  shows "java_hjar_exec (hjar_file version ps rest) t = Some (True, fold term_puts (map hstmt_text ps @ [[10]]) t)"
  using hstmts_run [OF assms, of rest]
  by (simp add: java_hjar_exec_def hjar_file_def java_detect_format_def)

theorem hjar_runs_correct_witness:
  "java_hjar_exec (hjar_file 1 [HText (lit ''7 * -5 = ''), HPrint (HBin 0x68 (HNum 7) (HNum 251))] []) terminal_boot =
     Some (True, fold term_puts [lit ''7 * -5 = '', lit ''-35'', [10]] terminal_boot)"
proof -
  have "hexp_val (HBin 0x68 (HNum 7) (HNum 251)) = Some (- 35)" by code_simp
  moreover have "dec_int (- 35) = lit ''-35''" by code_simp
  ultimately show ?thesis
    using hjar_runs_correct [of "[HText (lit ''7 * -5 = ''), HPrint (HBin 0x68 (HNum 7) (HNum 251))]" 1 "[]" terminal_boot]
    by (simp del: lit_Cons hexp_val.simps)
qed

section \<open>The programs on the disk\<close>

text \<open>The run of the main method of a class with a step budget: the version, the outcome and the text.\<close>

definition run_main :: "nat \<Rightarrow> bytes option \<Rightarrow> bytes \<Rightarrow> (u16 \<times> u16 \<times> jret \<times> bytes list) option" where
  "run_main n rt d =
     (case jvm_parse_class d of
        Some (Inr cls) \<Rightarrow>
          (case jvm_find_method cls (lit ''main'') (lit ''([Ljava/lang/String;)V'') True of
             Some m \<Rightarrow>
               (case jvm_enter 0 m [0] of
                  Inr fr \<Rightarrow> map_option (\<lambda>(x, out). (jc_major cls, jc_minor cls, x, out)) (jvm_run n rt 0 cls m fr)
                | Inl _ \<Rightarrow> None)
           | None \<Rightarrow> None)
      | _ \<Rightarrow> None)"

lemma run_main_executes:
  assumes "run_main n rt d = Some (major, minor, x, out)"
  shows "jvm_execute_class_with_rt rt d t =
    Some (x \<noteq> Failed, fold term_puts ([lit ''java: TinyJVM class mode (extended)'' @ [10], lit ''  ClassFile version '',
      utoa_text (ucast major) 10, [chr_dot], utoa_text (ucast minor) 10, [10]] @ out) t)"
proof -
  obtain cls m fr where c: "jvm_parse_class d = done_with cls"
    "jvm_find_method cls (lit ''main'') (lit ''([Ljava/lang/String;)V'') True = Some m"
    "jvm_enter 0 m [0] = Inr fr" "jvm_run n rt 0 cls m fr = Some (x, out)" "major = jc_major cls" "minor = jc_minor cls"
    using assms by (auto simp: run_main_def simp del: lit_Cons split: option.splits sum.splits)
  have "cp_utf8_eq cls (desc_index m) (lit ''([Ljava/lang/String;)V'')"
    using c(2) by (auto simp: jvm_find_method_def find_Some_iff simp del: lit_Cons)
  then show ?thesis
    using c(5,6) jvm_run_loop [OF c(4)]
    by (simp add: jvm_execute_class_with_rt_def c(1-3) jvm_exec_method_def Let_def del: lit_Cons)
qed

declare digits_loop.simps [code]

lemma hello_class_run:
  "run_main 20 rt tinyjvm_hello_class = Some (52, 0, Returned None, [lit ''Hello from TinyJVM'', [10], lit ''12'', [10]])"
  by code_simp

lemma hello_jar_run:
  "java_zip_find_entry tinyjvm_hello_jar (lit ''META-INF/MANIFEST.MF'') \<noteq> None \<and>
   jar_target tinyjvm_hello_jar = Some (Some (lit ''Hello.class'')) \<and>
   (case java_zip_find_entry tinyjvm_hello_jar (lit ''Hello.class'') of
      Some (Some e) \<Rightarrow> ze_method e = 0 \<and> ze_payload e = tinyjvm_hello_class
    | _ \<Rightarrow> False)"
  by code_simp

lemma hjar_demo_run:
  "java_hjar_exec hjar t = Some (False, fold term_puts [take 25 (drop 7 hjar), lit ''java: unknown HJAR opcode 0x'', lit ''12'', [10]] t)"
proof -
  have "hjar_loop (drop 5 hjar) [] = Some (False, [take 25 (drop 7 hjar), lit ''java: unknown HJAR opcode 0x'', lit ''12'', [10]])"
    by code_simp
  moreover have "java_detect_format hjar = 1" "\<not> length hjar < 5" by code_simp+
  ultimately show ?thesis by (simp add: java_hjar_exec_def del: lit_Cons)
qed

text \<open>
  The Java programs that the RAM disk ships: the class \<open>hello.class\<close> runs to its end and
  prints its greeting and the sum 12, and so does the archive \<open>tinyjvm.jar\<close>, whose manifest names
  that class; the HJAR program \<open>hello.jar\<close> fails, because its first text is announced one byte too
  long and the interpreter then meets the opcode 0x12.
\<close>
lemma shipped_java_programs:
  "jvm_execute_class tinyjvm_hello_class t =
     Some (True, fold term_puts ([lit ''java: TinyJVM class mode (extended)'' @ [10], lit ''  ClassFile version '',
       utoa_text 52 10, [chr_dot], utoa_text 0 10, [10]] @ [lit ''Hello from TinyJVM'', [10], lit ''12'', [10]]) t) \<and>
   java_run_jar tinyjvm_hello_jar t =
     Some (True, fold term_puts ([lit ''java: jar Main-Class => '', lit ''Hello.class'', [10]] @
       [lit ''java: TinyJVM class mode (extended)'' @ [10], lit ''  ClassFile version '',
       utoa_text 52 10, [chr_dot], utoa_text 0 10, [10]] @ [lit ''Hello from TinyJVM'', [10], lit ''12'', [10]]) t) \<and>
   java_hjar_exec hjar t =
     Some (False, fold term_puts [take 25 (drop 7 hjar), lit ''java: unknown HJAR opcode 0x'', lit ''12'', [10]] t)"
proof (intro conjI)
  obtain e where e: "java_zip_find_entry tinyjvm_hello_jar (lit ''Hello.class'') = Some (Some e)" "ze_method e = 0"
    "ze_payload e = tinyjvm_hello_class" "jar_target tinyjvm_hello_jar = Some (Some (lit ''Hello.class''))"
    using hello_jar_run by (auto simp del: lit_Cons split: option.splits)
  then show "java_run_jar tinyjvm_hello_jar t =
     Some (True, fold term_puts ([lit ''java: jar Main-Class => '', lit ''Hello.class'', [10]] @
       [lit ''java: TinyJVM class mode (extended)'' @ [10], lit ''  ClassFile version '',
       utoa_text 52 10, [chr_dot], utoa_text 0 10, [10]] @ [lit ''Hello from TinyJVM'', [10], lit ''12'', [10]]) t)"
    by (simp add: java_run_jar_def java_run_entry_def run_main_executes [OF hello_class_run] del: lit_Cons)
qed (simp_all add: jvm_execute_class_def run_main_executes [OF hello_class_run] hjar_demo_run del: lit_Cons)

section \<open>Output only\<close>

lemma puts_trans: "draws (fold term_puts ms t) u \<Longrightarrow> draws t u"
  by (rule draws_trans [OF fold_puts_draws [OF draws_refl]])

lemma jvm_loop_draws:
  assumes "jvm_loop rt depth cls m fr t = Some r"
  shows "draws t (snd r)"
proof (rule jvm_loop.raw_induct [where P = "\<lambda>rt depth cls m fr t r. draws t (snd r)", OF _ assms], goal_cases)
  case (1 f rt depth cls m fr t r)
  then consider "r = (Returned None, t)"
    | q out where "jvm_step rt cls m fr = Some (q, out)" "(case q of
          Go fr1 \<Rightarrow> f rt depth cls m fr1 (fold term_puts out t)
        | Halt x \<Rightarrow> Some (x, fold term_puts out t)
        | Call c2 m2 argv want fr1 \<Rightarrow>
            (case jvm_enter (depth + 1) m2 argv of
               Inl msg \<Rightarrow> Some (Failed, term_puts msg (fold term_puts out t))
             | Inr fr2 \<Rightarrow>
                 Option.bind (f rt (depth + 1) c2 m2 fr2 (fold term_puts out t)) (\<lambda>(x, t2).
                   case x of
                     Failed \<Rightarrow> Some (Failed, t2)
                   | Returned v \<Rightarrow>
                       (case jvm_resume want v fr1 of
                          Inl ms \<Rightarrow> Some (Failed, fold term_puts ms t2)
                        | Inr fr3 \<Rightarrow> f rt depth cls m fr3 t2)))) = Some r"
    by (auto simp: bind_eq_Some_conv split: if_splits)
  then show ?case
  proof cases
    case 2
    show ?thesis
    proof (cases q)
      case (Call c2 m2 argv want fr1)
      show ?thesis
      proof (cases "jvm_enter (depth + 1) m2 argv")
        case (Inr fr2)
        then obtain x t2 where x: "f rt (depth + 1) c2 m2 fr2 (fold term_puts out t) = Some (x, t2)"
          using 2(2) Call by (auto simp: bind_eq_Some_conv)
        have t2: "draws t t2" using puts_trans 1(1) [OF x] by auto
        show ?thesis
          using 2(2) Call Inr x t2 draws_trans [OF t2] 1(1)
          by (auto simp: fold_puts_draws split: jret.splits sum.splits)
      qed (use 2(2) Call in \<open>auto intro!: draws_puts fold_puts_draws\<close>)
    next
      case (Go fr1)
      then have "f rt depth cls m fr1 (fold term_puts out t) = Some r" using 2(2) by simp
      from 1(1) [OF this] show ?thesis by (rule puts_trans)
    next
      case (Halt x)
      then show ?thesis using 2(2) by (auto intro!: fold_puts_draws)
    qed
  qed simp
qed

lemma exec_method_draws: "jvm_exec_method rt depth cls m args t = Some (x, u) \<Longrightarrow> draws t u"
  using jvm_loop_draws by (fastforce simp: jvm_exec_method_def split: sum.splits intro: draws_puts)

lemma execute_class_draws:
  assumes "jvm_execute_class_with_rt rt d t = Some (ok, u)"
  shows "draws t u"
proof (cases "jvm_parse_class d")
  case (Some r)
  show ?thesis
  proof (cases r)
    case (Inr cls)
    define t1 where "t1 = fold term_puts [lit ''java: TinyJVM class mode (extended)'' @ [10], lit ''  ClassFile version '',
        utoa_text (ucast (jc_major cls)) 10, [chr_dot], utoa_text (ucast (jc_minor cls)) 10, [10]] t"
    have t1: "draws t t1" unfolding t1_def by (intro fold_puts_draws draws_refl)
    define main_m where "main_m = (case jvm_find_method cls (lit ''main'') (lit ''([Ljava/lang/String;)V'') True of
        Some m \<Rightarrow> Some m | None \<Rightarrow> jvm_find_method cls (lit ''main'') (lit ''()V'') True)"
    have "jvm_execute_class_with_rt rt d t =
        (case main_m of
           None \<Rightarrow> Some (False, term_puts (lit ''java: no supported static main method found'' @ [10]) t1)
         | Some m \<Rightarrow>
             map_option (\<lambda>(x, t2). (x \<noteq> Failed, t2))
               (jvm_exec_method rt 0 cls m
                  (if cp_utf8_eq cls (desc_index m) (lit ''([Ljava/lang/String;)V'') then [0] else []) t1))"
      by (simp only: jvm_execute_class_with_rt_def Some Inr bind.simps sum.case Let_def t1_def main_m_def)
    from trans [OF this [symmetric] assms] have "draws t1 u"
      by (cases main_m) (auto simp del: lit_Cons intro: draws_puts dest: exec_method_draws)
    then show ?thesis by (rule draws_trans [OF t1])
  qed (use assms Some in \<open>auto simp: jvm_execute_class_with_rt_def intro!: fold_puts_draws draws_puts simp del: lit_Cons\<close>)
qed (use assms in \<open>simp add: jvm_execute_class_with_rt_def\<close>)

lemma puts_one: "draws (term_puts s t) u \<Longrightarrow> draws t u"
  by (rule draws_trans [OF draws_term_puts])

lemma run_entry_draws: "java_run_entry d e t = Some (ok, u) \<Longrightarrow> draws t u"
  by (auto simp: java_run_entry_def quiet_rules simp del: lit_Cons split: if_split_asm intro: execute_class_draws)

lemma run_jar_draws: "java_run_jar d t = Some (ok, u) \<Longrightarrow> draws t u"
  by (auto simp: java_run_jar_def bind_eq_Some_conv quiet_rules simp del: lit_Cons fold_simps
      split: option.split_asm dest!: run_entry_draws puts_one)

lemma load_file_draws: "java_load_file p cap (f, t) = Some (r, f', t') \<Longrightarrow> draws t t' \<and> f' = f"
  by (auto simp: java_load_file_def bind_eq_Some_conv Let_def quiet_rules simp del: lit_Cons split: if_split_asm)

lemma java_open_draws:
  assumes "java_open none_msg used_msg args (f, t) = Some (r, f', t')"
  shows "draws t t' \<and> f' = f"
proof -
  obtain path used where p: "(case path of
         None \<Rightarrow> Some (None, say [none_msg] (f, t))
       | Some p \<Rightarrow>
           java_load_file p JAVA_BUF_CAP (if \<not> no_args args \<and> used then say [used_msg, p, [10]] (f, t) else (f, t))) = Some (r, f', t')"
    using assms by (auto simp: java_open_def bind_eq_Some_conv)
  then show ?thesis
    by (cases path; cases "\<not> no_args args \<and> used")
      (auto simp: say_pair quiet_rules simp del: fold_simps dest!: load_file_draws puts_one)
qed

lemma quiet_java_dir: "quiet cmd_java_dir"
proof (rule quiet_I)
  fix args f t f' t'
  assume run: "cmd_java_dir args (f, t) = Some (f', t')"
  have ls: "draws t1 t'" if "cmd_ls None (f1, t1) = Some (f', t')" for f1 t1
    using quiet_file_commands(3) that unfolding quiet_def by blast
  show "draws t t'"
    using run by (auto simp: cmd_java_dir_def bind_eq_Some_conv say_pair quiet_rules simp del: lit_Cons fold_simps
        split: if_split_asm dest!: ls puts_one)
qed

lemma jarinfo_report_draws: "jarinfo_report d fmt (f, t) = Some (f', t') \<Longrightarrow> draws t t'"
  by (auto simp: jarinfo_report_def java_zip_list_entries_def Let_def say_pair quiet_rules simp del: lit_Cons fold_simps
      split: option.split_asm if_split_asm intro: fold_puts_draws draws_puts)

lemma java_start_draws: "java_start d fmt (f, t) = Some (f', t') \<Longrightarrow> draws t t'"
  by (auto simp: java_start_def java_hjar_exec_def jvm_execute_class_def bind_eq_Some_conv say_pair quiet_rules
      simp del: lit_Cons fold_simps split: option.split_asm if_split_asm
      dest!: run_jar_draws execute_class_draws puts_one puts_trans intro: fold_puts_draws draws_puts)

lemma opened_quiet:
  assumes k: "\<And>d fmt f t f' t'. k d fmt (f, t) = Some (f', t') \<Longrightarrow> draws t t'"
  shows "quiet (\<lambda>args s. Option.bind (java_open m n args s) (\<lambda>(r, s1). case r of None \<Rightarrow> Some s1 | Some (d, fmt) \<Rightarrow> k d fmt s1))"
  by (rule quiet_I) (auto simp: bind_eq_Some_conv split: option.split_asm dest!: java_open_draws dest: k intro: draws_trans)

lemma quiet_jarinfo: "quiet cmd_jarinfo"
  unfolding cmd_jarinfo_def [abs_def] by (rule opened_quiet [OF jarinfo_report_draws])

lemma quiet_java: "quiet cmd_java"
  unfolding cmd_java_def [abs_def] by (rule opened_quiet [OF java_start_draws])

end
