(* ===== verification/Calc.thy ===== *)
theory Calc
  imports File_Commands
begin

text \<open>
  The calculator command, \<^verbatim>\<open>src/src/commands/calc.c\<close>: a recursive-descent evaluator
  over the argument string.  \<open>int32_t\<close> values are integers in the signed 32-bit range and
  arithmetic wraps as the compiled code does; the division of the least value by -1, which
  raises the processor's divide error, is the outcome \<open>Fault\<close>.  The recursion carries fuel,
  one unit per nested call or loop round; \<open>3 n + 3\<close> units are enough for a text of \<open>n\<close>
  characters, so \<open>cmd_calc\<close> never runs out of it.
\<close>

section \<open>The evaluator\<close>

datatype 'a outcome = Value 'a | Fault | Out_of_fuel

definition and_then :: "'a outcome \<Rightarrow> ('a \<Rightarrow> 'b outcome) \<Rightarrow> 'b outcome" where
  "and_then x g = (case x of Value a \<Rightarrow> g a | Fault \<Rightarrow> Fault | Out_of_fuel \<Rightarrow> Out_of_fuel)"

lemma and_then_simps [simp]:
  "and_then (Value a) g = g a" "and_then Fault g = Fault" "and_then Out_of_fuel g = Out_of_fuel"
  by (simp_all add: and_then_def)

lemma and_then_cong [fundef_cong]: "x = y \<Longrightarrow> (\<And>a. y = Value a \<Longrightarrow> g a = h a) \<Longrightarrow> and_then x g = and_then y h"
  by (cases y) simp_all

definition wrap32 :: "int \<Rightarrow> int" where
  "wrap32 x = sint (word_of_int x :: u32)"

record calc =
  g_pos :: bytes
  g_err :: bool

definition is_blank :: "u8 \<Rightarrow> bool" where "is_blank c \<longleftrightarrow> c = chr_sp \<or> c = 9"
definition is_digit :: "u8 \<Rightarrow> bool" where "is_digit c \<longleftrightarrow> 48 \<le> c \<and> c \<le> 57"

definition skip_ws :: "calc \<Rightarrow> calc" where
  "skip_ws s = s\<lparr>g_pos := dropWhile is_blank (g_pos s)\<rparr>"

definition at_char :: "u8 \<Rightarrow> calc \<Rightarrow> bool" where
  "at_char c s \<longleftrightarrow> g_pos s \<noteq> [] \<and> hd (g_pos s) = c"

definition advance :: "calc \<Rightarrow> calc" where
  "advance s = s\<lparr>g_pos := tl (g_pos s)\<rparr>"

text \<open>The digits of a number; an empty run is an error.\<close>

definition digits_value :: "bytes \<Rightarrow> int" where
  "digits_value ds = foldl (\<lambda>v c. wrap32 (v * 10 + int (unat c - 48))) 0 ds"

definition parse_number :: "calc \<Rightarrow> int \<times> calc" where
  "parse_number s =
     (let ds = takeWhile is_digit (g_pos s)
      in (digits_value ds, s\<lparr>g_pos := dropWhile is_digit (g_pos s), g_err := (ds = [] \<or> g_err s)\<rparr>))"

fun parse_factor :: "nat \<Rightarrow> calc \<Rightarrow> (int \<times> calc) outcome"
  and parse_term :: "nat \<Rightarrow> calc \<Rightarrow> (int \<times> calc) outcome"
  and term_loop :: "nat \<Rightarrow> int \<Rightarrow> calc \<Rightarrow> (int \<times> calc) outcome"
  and parse_expr :: "nat \<Rightarrow> calc \<Rightarrow> (int \<times> calc) outcome"
  and expr_loop :: "nat \<Rightarrow> int \<Rightarrow> calc \<Rightarrow> (int \<times> calc) outcome" where
  "parse_factor 0 s = Out_of_fuel"
| "parse_factor (Suc k) s =
     (if at_char 40 (skip_ws s) then
        and_then (parse_expr k (advance (skip_ws s))) (\<lambda>r.
          Value (fst r, if at_char 41 (skip_ws (snd r)) then advance (skip_ws (snd r)) else skip_ws (snd r)))
      else if at_char 45 (skip_ws s) then
        and_then (parse_factor k (advance (skip_ws s))) (\<lambda>r. Value (wrap32 (- fst r), snd r))
      else Value (parse_number (skip_ws s)))"
| "parse_term 0 s = Out_of_fuel"
| "parse_term (Suc k) s = and_then (parse_factor k s) (\<lambda>r. term_loop k (fst r) (snd r))"
| "term_loop 0 v s = Out_of_fuel"
| "term_loop (Suc k) v s =
     (if at_char 42 (skip_ws s) then
        and_then (parse_factor k (advance (skip_ws s))) (\<lambda>r. term_loop k (wrap32 (v * fst r)) (snd r))
      else if at_char 47 (skip_ws s) then
        and_then (parse_factor k (advance (skip_ws s))) (\<lambda>r.
          if fst r = 0 then Value (0, (snd r)\<lparr>g_err := True\<rparr>)
          else if v = -2147483648 \<and> fst r = -1 then Fault
          else term_loop k (c_div v (fst r)) (snd r))
      else Value (v, skip_ws s))"
| "parse_expr 0 s = Out_of_fuel"
| "parse_expr (Suc k) s = and_then (parse_term k s) (\<lambda>r. expr_loop k (fst r) (snd r))"
| "expr_loop 0 v s = Out_of_fuel"
| "expr_loop (Suc k) v s =
     (if at_char 43 (skip_ws s) then
        and_then (parse_term k (advance (skip_ws s))) (\<lambda>r. expr_loop k (wrap32 (v + fst r)) (snd r))
      else if at_char 45 (skip_ws s) then
        and_then (parse_term k (advance (skip_ws s))) (\<lambda>r. expr_loop k (wrap32 (v - fst r)) (snd r))
      else Value (v, skip_ws s))"

definition cmd_calc :: "bytes option \<Rightarrow> terminal \<Rightarrow> terminal outcome" where
  "cmd_calc args t =
     (if no_args args then
        Value (fold term_puts [lit ''Usage: calc <expression>'' @ [10], lit ''  e.g.  calc 2 + 3 * 4'' @ [10]] t)
      else and_then (parse_expr (3 * length (the args) + 3) \<lparr>g_pos = the args, g_err = False\<rparr>) (\<lambda>r.
        if g_err (snd r) then Value (term_puts (lit ''calc: parse error'' @ [10]) t)
        else Value (term_putc 10 7 (fold term_puts [lit ''= '', itoa_text (word_of_int (fst r))] t))))"

section \<open>Fuel\<close>

text \<open>No call of the evaluator moves the position backwards, and \<open>3 n + 3\<close> units suffice.\<close>

definition ends_by :: "nat \<Rightarrow> (int \<times> calc) outcome \<Rightarrow> bool" where
  "ends_by n x \<longleftrightarrow> x \<noteq> Out_of_fuel \<and> (\<forall>v s. x = Value (v, s) \<longrightarrow> length (g_pos s) \<le> n)"

lemma ends_by_simps [simp]:
  "ends_by n (Value r) \<longleftrightarrow> length (g_pos (snd r)) \<le> n" "ends_by n Fault" "\<not> ends_by n Out_of_fuel"
  by (cases r, simp_all add: ends_by_def)

lemma ends_by_and_then:
  "ends_by m x \<Longrightarrow> (\<And>v s. length (g_pos s) \<le> m \<Longrightarrow> ends_by n (g (v, s))) \<Longrightarrow> ends_by n (and_then x g)"
  by (cases x) (auto simp: ends_by_def)

lemma length_skip_ws: "length (g_pos (skip_ws s)) \<le> length (g_pos s)"
  by (simp add: skip_ws_def length_dropWhile_le)

lemma length_advance: "at_char c (skip_ws s) \<Longrightarrow> length (g_pos (advance (skip_ws s))) < length (g_pos s)"
  using length_skip_ws [of s] by (cases "g_pos (skip_ws s)") (auto simp: at_char_def advance_def)

lemma length_parse_number: "length (g_pos (snd (parse_number s))) \<le> length (g_pos s)"
  by (simp add: parse_number_def Let_def length_dropWhile_le)

lemma ends_by_mono: "ends_by m x \<Longrightarrow> m \<le> n \<Longrightarrow> ends_by n x"
  by (cases x) auto

definition enough :: "nat \<Rightarrow> bool" where
  "enough k \<longleftrightarrow> (\<forall>s v.
     (3 * length (g_pos s) + 1 \<le> k \<longrightarrow> ends_by (length (g_pos s)) (parse_factor k s)) \<and>
     (3 * length (g_pos s) + 2 \<le> k \<longrightarrow> ends_by (length (g_pos s)) (parse_term k s)) \<and>
     (3 * length (g_pos s) + 1 \<le> k \<longrightarrow> ends_by (length (g_pos s)) (term_loop k v s)) \<and>
     (3 * length (g_pos s) + 3 \<le> k \<longrightarrow> ends_by (length (g_pos s)) (parse_expr k s)) \<and>
     (3 * length (g_pos s) + 1 \<le> k \<longrightarrow> ends_by (length (g_pos s)) (expr_loop k v s)))"

lemma enoughD:
  assumes "enough k" and "length (g_pos s) \<le> m"
  shows "3 * m + 1 \<le> k \<Longrightarrow> ends_by m (parse_factor k s)"
    "3 * m + 2 \<le> k \<Longrightarrow> ends_by m (parse_term k s)"
    "3 * m + 1 \<le> k \<Longrightarrow> ends_by m (term_loop k v s)"
    "3 * m + 3 \<le> k \<Longrightarrow> ends_by m (parse_expr k s)"
    "3 * m + 1 \<le> k \<Longrightarrow> ends_by m (expr_loop k v s)"
  using assms(1) unfolding enough_def using assms(2)
  by (auto intro!: ends_by_mono [OF _ assms(2)])

lemma enough_step:
  assumes k: "enough k"
  shows "enough (Suc k)"
  unfolding enough_def
proof (intro allI conjI impI)
  fix s :: calc and v
  let ?n = "length (g_pos s)" and ?a = "advance (skip_ws s)"
  have adv: "length (g_pos ?a) \<le> ?n - 1 \<and> 0 < ?n" if "at_char c (skip_ws s)" for c
    using length_advance [OF that] by arith
  show "ends_by ?n (parse_factor (Suc k) s)" if f: "3 * ?n + 1 \<le> Suc k"
  proof (cases "at_char 40 (skip_ws s)")
    case True
    have tail: "length (g_pos (if at_char 41 (skip_ws u) then advance (skip_ws u) else skip_ws u)) \<le> ?n"
      if "length (g_pos u) \<le> ?n - 1" for u :: calc
      using that length_advance [of 41 u] length_skip_ws [of u] by auto
    have e: "ends_by (?n - 1) (parse_expr k ?a)" by (rule enoughD(4) [OF k]) (use adv [OF True] f in arith)+
    show ?thesis using True by (simp del: One_nat_def) (rule ends_by_and_then [OF e], unfold ends_by_simps snd_conv, rule tail)
  next
    case False
    have e: "ends_by (?n - 1) (parse_factor k ?a)" if m: "at_char 45 (skip_ws s)"
      by (rule enoughD(1) [OF k]) (use adv [OF m] f in arith)+
    show ?thesis using False order_trans [OF length_parse_number length_skip_ws, of s]
      by (auto intro!: ends_by_and_then [OF e])
  qed
  show "ends_by ?n (parse_term (Suc k) s)" if f: "3 * ?n + 2 \<le> Suc k"
    unfolding parse_term.simps
    by (rule ends_by_and_then [OF enoughD(1) [OF k order_refl]]) (use f enoughD(3) [OF k] in auto)
  show "ends_by ?n (term_loop (Suc k) v s)" if f: "3 * ?n + 1 \<le> Suc k"
  proof -
    have fac: "ends_by (?n - 1) (parse_factor k ?a)" if "at_char c (skip_ws s)" for c
      by (rule enoughD(1) [OF k]) (use adv [OF that] f in arith)+
    have loop: "ends_by ?n (term_loop k w u)" if "at_char c (skip_ws s)" "length (g_pos u) \<le> ?n - 1" for c w u
      by (rule ends_by_mono [OF enoughD(3) [OF k that(2)]]) (use adv [OF that(1)] f in arith)+
    show ?thesis
      using fac loop length_skip_ws [of s] by (auto intro!: ends_by_and_then [OF fac] intro: loop)
  qed
  show "ends_by ?n (parse_expr (Suc k) s)" if f: "3 * ?n + 3 \<le> Suc k"
    unfolding parse_expr.simps
    by (rule ends_by_and_then [OF enoughD(2) [OF k order_refl]]) (use f enoughD(5) [OF k] in auto)
  show "ends_by ?n (expr_loop (Suc k) v s)" if f: "3 * ?n + 1 \<le> Suc k"
  proof -
    have trm: "ends_by (?n - 1) (parse_term k ?a)" if "at_char c (skip_ws s)" for c
      by (rule enoughD(2) [OF k]) (use adv [OF that] f in arith)+
    have loop: "ends_by ?n (expr_loop k w u)" if "at_char c (skip_ws s)" "length (g_pos u) \<le> ?n - 1" for c w u
      by (rule ends_by_mono [OF enoughD(5) [OF k that(2)]]) (use adv [OF that(1)] f in arith)+
    show ?thesis
      using trm loop length_skip_ws [of s] by (auto intro!: ends_by_and_then [OF trm] intro: loop)
  qed
qed

lemma enough_all: "enough k"
proof (induction k)
  case 0
  show ?case by (simp add: enough_def)
qed (rule enough_step)

section \<open>The grammar\<close>

text \<open>
  The grammar in the comment of the source, as concrete syntax trees: every token carries the
  blanks before it.  \<open>ev_\<close> is the meaning: multiplication and division bind tighter than
  addition and subtraction, and operators of one level group to the left; \<open>None\<close> is a division
  by zero or the division that overflows.
\<close>

datatype fac = Num bytes bytes | Par bytes ex bytes | Neg bytes fac
  and tms = TEnd | TMul bytes fac tms | TDiv bytes fac tms
  and tm = Tm fac tms
  and exs = EEnd | EAdd bytes tm exs | ESub bytes tm exs
  and ex = Ex tm exs

primrec fac_text :: "fac \<Rightarrow> bytes" and tms_text :: "tms \<Rightarrow> bytes" and tm_text :: "tm \<Rightarrow> bytes"
  and exs_text :: "exs \<Rightarrow> bytes" and ex_text :: "ex \<Rightarrow> bytes" where
  "fac_text (Num ws ds) = ws @ ds"
| "fac_text (Par ws e ws2) = ws @ 40 # ex_text e @ ws2 @ [41]"
| "fac_text (Neg ws f) = ws @ 45 # fac_text f"
| "tms_text TEnd = []"
| "tms_text (TMul ws f r) = ws @ 42 # fac_text f @ tms_text r"
| "tms_text (TDiv ws f r) = ws @ 47 # fac_text f @ tms_text r"
| "tm_text (Tm f r) = fac_text f @ tms_text r"
| "exs_text EEnd = []"
| "exs_text (EAdd ws a r) = ws @ 43 # tm_text a @ exs_text r"
| "exs_text (ESub ws a r) = ws @ 45 # tm_text a @ exs_text r"
| "ex_text (Ex a r) = tm_text a @ exs_text r"

definition blanks :: "bytes \<Rightarrow> bool" where "blanks ws \<longleftrightarrow> (\<forall>c\<in>set ws. is_blank c)"

primrec fac_ok :: "fac \<Rightarrow> bool" and tms_ok :: "tms \<Rightarrow> bool" and tm_ok :: "tm \<Rightarrow> bool"
  and exs_ok :: "exs \<Rightarrow> bool" and ex_ok :: "ex \<Rightarrow> bool" where
  "fac_ok (Num ws ds) \<longleftrightarrow> blanks ws \<and> ds \<noteq> [] \<and> (\<forall>c\<in>set ds. is_digit c)"
| "fac_ok (Par ws e ws2) \<longleftrightarrow> blanks ws \<and> ex_ok e \<and> blanks ws2"
| "fac_ok (Neg ws f) \<longleftrightarrow> blanks ws \<and> fac_ok f"
| "tms_ok TEnd \<longleftrightarrow> True"
| "tms_ok (TMul ws f r) \<longleftrightarrow> blanks ws \<and> fac_ok f \<and> tms_ok r"
| "tms_ok (TDiv ws f r) \<longleftrightarrow> blanks ws \<and> fac_ok f \<and> tms_ok r"
| "tm_ok (Tm f r) \<longleftrightarrow> fac_ok f \<and> tms_ok r"
| "exs_ok EEnd \<longleftrightarrow> True"
| "exs_ok (EAdd ws a r) \<longleftrightarrow> blanks ws \<and> tm_ok a \<and> exs_ok r"
| "exs_ok (ESub ws a r) \<longleftrightarrow> blanks ws \<and> tm_ok a \<and> exs_ok r"
| "ex_ok (Ex a r) \<longleftrightarrow> tm_ok a \<and> exs_ok r"

definition div32 :: "int \<Rightarrow> int \<Rightarrow> int option" where
  "div32 v d = (if d = 0 \<or> v = -2147483648 \<and> d = -1 then None else Some (c_div v d))"

primrec ev_fac :: "fac \<Rightarrow> int option" and ev_tms :: "tms \<Rightarrow> int \<Rightarrow> int option" and ev_tm :: "tm \<Rightarrow> int option"
  and ev_exs :: "exs \<Rightarrow> int \<Rightarrow> int option" and ev_ex :: "ex \<Rightarrow> int option" where
  "ev_fac (Num ws ds) = Some (wrap32 (int (num_of 10 ds)))"
| "ev_fac (Par ws e ws2) = ev_ex e"
| "ev_fac (Neg ws f) = map_option (\<lambda>v. wrap32 (- v)) (ev_fac f)"
| "ev_tms TEnd v = Some v"
| "ev_tms (TMul ws f r) v = Option.bind (ev_fac f) (\<lambda>d. ev_tms r (wrap32 (v * d)))"
| "ev_tms (TDiv ws f r) v = Option.bind (ev_fac f) (\<lambda>d. Option.bind (div32 v d) (ev_tms r))"
| "ev_tm (Tm f r) = Option.bind (ev_fac f) (ev_tms r)"
| "ev_exs EEnd v = Some v"
| "ev_exs (EAdd ws a r) v = Option.bind (ev_tm a) (\<lambda>d. ev_exs r (wrap32 (v + d)))"
| "ev_exs (ESub ws a r) v = Option.bind (ev_tm a) (\<lambda>d. ev_exs r (wrap32 (v - d)))"
| "ev_ex (Ex a r) = Option.bind (ev_tm a) (ev_exs r)"

section \<open>The evaluator meets the grammar\<close>

text \<open>An error that has been noted stays noted.\<close>

definition failing :: "(int \<times> calc) outcome \<Rightarrow> bool" where
  "failing x \<longleftrightarrow> (\<forall>r. x = Value r \<longrightarrow> g_err (snd r))"

lemma failing_simps [simp]:
  "failing (Value r) \<longleftrightarrow> g_err (snd r)" "failing Fault" "failing Out_of_fuel"
  by (simp_all add: failing_def)

lemma failing_and_then:
  "failing x \<Longrightarrow> (\<And>r. x = Value r \<Longrightarrow> g_err (snd r) \<Longrightarrow> failing (g r)) \<Longrightarrow> failing (and_then x g)"
  by (cases x) simp_all

lemma err_kept [simp]: "g_err (skip_ws s) = g_err s" "g_err (advance s) = g_err s"
  "g_err s \<Longrightarrow> g_err (snd (parse_number s))"
  by (simp_all add: skip_ws_def advance_def parse_number_def Let_def)

lemma err_sticky:
  "g_err s \<Longrightarrow> failing (parse_factor k s)" "g_err s \<Longrightarrow> failing (parse_term k s)" "g_err s \<Longrightarrow> failing (term_loop k v s)"
  "g_err s \<Longrightarrow> failing (parse_expr k s)" "g_err s \<Longrightarrow> failing (expr_loop k v s)"
  by (induction k s and k s and k v s and k s and k v s rule: parse_factor_parse_term_term_loop_parse_expr_expr_loop.induct)
    (auto intro!: failing_and_then)

text \<open>The result of a parse: out of fuel, or the value of the tree and the rest of the text, or a failure.\<close>

definition meets :: "(int \<times> calc) outcome \<Rightarrow> int option \<Rightarrow> bytes \<Rightarrow> bool \<Rightarrow> bool" where
  "meets x v rest err \<longleftrightarrow> x = Out_of_fuel \<or>
     (case v of Some n \<Rightarrow> x = Value (n, \<lparr>g_pos = rest, g_err = err\<rparr>) | None \<Rightarrow> failing x)"

lemma meets_and_then:
  assumes "meets x v rest err"
    and "\<And>n. v = Some n \<Longrightarrow> meets (g (n, \<lparr>g_pos = rest, g_err = err\<rparr>)) (w n) rest' err"
    and "\<And>r. g_err (snd r) \<Longrightarrow> failing (g r)"
  shows "meets (and_then x g) (Option.bind v w) rest' err"
  using assms by (cases x; cases v) (auto simp: meets_def)

lemma digits_value_num: "\<forall>c\<in>set ds. is_digit c \<Longrightarrow> digits_value ds = wrap32 (int (num_of 10 ds))"
proof (induction ds rule: rev_induct)
  case Nil
  then show ?case by (simp add: digits_value_def num_of_def wrap32_def)
next
  case (snoc c ds)
  have d: "digit_val c = unat c - 48" using snoc.prems
    by (auto simp: digit_val_def is_digit_def word_le_nat_alt)
  have "wrap32 (wrap32 a * 10 + b) = wrap32 (a * 10 + b)" for a b
    unfolding wrap32_def by (simp only: of_int_add of_int_mult of_int_sint scast_id)
  then show ?case using snoc d by (simp add: digits_value_def num_of_def)
qed

text \<open>What may follow a number, and what may follow a term or an expression.\<close>

definition sep :: "bytes \<Rightarrow> bool" where
  "sep rest \<longleftrightarrow> rest = [] \<or> \<not> is_digit (hd rest)"

definition stops :: "u8 set \<Rightarrow> bytes \<Rightarrow> bool" where
  "stops ops rest \<longleftrightarrow> dropWhile is_blank rest = [] \<or> hd (dropWhile is_blank rest) \<notin> ops"

lemma char_classes [simp]:
  "is_digit 40 = False" "is_digit 41 = False" "is_digit 42 = False" "is_digit 43 = False" "is_digit 45 = False" "is_digit 47 = False"
  "is_blank 40 = False" "is_blank 41 = False" "is_blank 42 = False" "is_blank 43 = False" "is_blank 45 = False" "is_blank 47 = False"
  by (simp_all add: is_digit_def is_blank_def)

lemma blank_not_digit: "is_blank c \<Longrightarrow> \<not> is_digit c"
  by (auto simp: is_digit_def is_blank_def)

lemma drop_blanks: "blanks ws \<Longrightarrow> dropWhile is_blank (ws @ p) = dropWhile is_blank p"
  by (induction ws) (auto simp: blanks_def)

lemma sep_blanks: "blanks ws \<Longrightarrow> \<not> is_digit c \<Longrightarrow> sep (ws @ c # p)"
  by (cases ws) (auto simp: sep_def blanks_def blank_not_digit)

lemma stops_blanks: "blanks ws \<Longrightarrow> \<not> is_blank c \<Longrightarrow> stops ops (ws @ c # p) \<longleftrightarrow> c \<notin> ops"
  by (simp add: stops_def drop_blanks)

lemma follow_tms: "tms_ok r \<Longrightarrow> sep rest \<Longrightarrow> sep (tms_text r @ rest)"
  by (cases r) (simp_all add: sep_blanks)

lemma follow_exs: "exs_ok x \<Longrightarrow> sep rest \<Longrightarrow> sep (exs_text x @ rest)"
  by (cases x) (simp_all add: sep_blanks)

lemma stops_exs: "exs_ok x \<Longrightarrow> stops {42, 47, 43, 45} rest \<Longrightarrow> stops {42, 47} (exs_text x @ rest)"
  by (cases x) (auto simp: stops_blanks stops_def [of _ rest])

lemma expr_loop_blank:
  "expr_loop k v \<lparr>g_pos = dropWhile is_blank p, g_err = e\<rparr> = expr_loop k v \<lparr>g_pos = p, g_err = e\<rparr>"
  by (cases k) (simp_all add: skip_ws_def)

lemma skip_ws_pos [simp]: "skip_ws \<lparr>g_pos = p, g_err = e\<rparr> = \<lparr>g_pos = dropWhile is_blank p, g_err = e\<rparr>"
  by (simp add: skip_ws_def)

lemma at_char_pos [simp]: "at_char c \<lparr>g_pos = d # p, g_err = e\<rparr> \<longleftrightarrow> d = c" "\<not> at_char c \<lparr>g_pos = [], g_err = e\<rparr>"
  "advance \<lparr>g_pos = d # p, g_err = e\<rparr> = \<lparr>g_pos = p, g_err = e\<rparr>"
  by (simp_all add: at_char_def advance_def)

lemma stops_at: "stops ops rest \<Longrightarrow> c \<in> ops \<Longrightarrow> \<not> at_char c \<lparr>g_pos = dropWhile is_blank rest, g_err = e\<rparr>"
  by (auto simp: stops_def at_char_def)

lemma parse_number_text:
  assumes "ds \<noteq> []" "\<forall>c\<in>set ds. is_digit c" "sep rest"
  shows "parse_number \<lparr>g_pos = ds @ rest, g_err = e\<rparr> = (wrap32 (int (num_of 10 ds)), \<lparr>g_pos = rest, g_err = e\<rparr>)"
proof -
  have "takeWhile is_digit rest = []" "dropWhile is_digit rest = rest" using assms(3) by (cases rest; simp add: sep_def)+
  then show ?thesis using assms(1,2)
    by (simp add: parse_number_def Let_def takeWhile_append dropWhile_append digits_value_num)
qed

lemma parse_meets:
  "fac_ok f \<Longrightarrow> sep rest \<Longrightarrow> meets (parse_factor k \<lparr>g_pos = fac_text f @ rest, g_err = err\<rparr>) (ev_fac f) rest err"
  "tms_ok tr \<Longrightarrow> sep rest \<Longrightarrow> stops {42, 47} rest \<Longrightarrow>
     meets (term_loop k v \<lparr>g_pos = tms_text tr @ rest, g_err = err\<rparr>) (ev_tms tr v) (dropWhile is_blank rest) err"
  "tm_ok a \<Longrightarrow> sep rest \<Longrightarrow> stops {42, 47} rest \<Longrightarrow>
     meets (parse_term k \<lparr>g_pos = tm_text a @ rest, g_err = err\<rparr>) (ev_tm a) (dropWhile is_blank rest) err"
  "exs_ok er \<Longrightarrow> sep rest \<Longrightarrow> stops {42, 47, 43, 45} rest \<Longrightarrow>
     meets (expr_loop k v \<lparr>g_pos = exs_text er @ rest, g_err = err\<rparr>) (ev_exs er v) (dropWhile is_blank rest) err"
  "ex_ok e \<Longrightarrow> sep rest \<Longrightarrow> stops {42, 47, 43, 45} rest \<Longrightarrow>
     meets (parse_expr k \<lparr>g_pos = ex_text e @ rest, g_err = err\<rparr>) (ev_ex e) (dropWhile is_blank rest) err"
proof (induction f and tr and a and er and e arbitrary: k rest err and k v rest err and k rest err and k v rest err and k rest err)
  case (Num ws ds)
  then have d: "dropWhile is_blank (ws @ ds @ rest) = ds @ rest"
    using blank_not_digit by (cases ds) (auto simp: drop_blanks)
  have "hd ds \<noteq> 40" "hd ds \<noteq> 45" using Num by (cases ds; auto)+
  then show ?case using Num d parse_number_text [of ds rest err]
    by (cases k; cases ds) (simp_all add: meets_def)
next
  case (Par ws e ws2)
  show ?case
  proof (cases k)
    case (Suc j)
    have "sep (ws2 @ 41 # rest)" "stops {42, 47, 43, 45} (ws2 @ 41 # rest)"
      using Par.prems by (simp_all add: sep_blanks stops_blanks)
    then have m: "meets (parse_expr j \<lparr>g_pos = ex_text e @ ws2 @ 41 # rest, g_err = err\<rparr>) (ev_ex e) (41 # rest) err"
      using Par.IH [of "ws2 @ 41 # rest" j err] Par.prems by (simp add: drop_blanks)
    have "meets (and_then (parse_expr j \<lparr>g_pos = ex_text e @ ws2 @ 41 # rest, g_err = err\<rparr>) (\<lambda>r.
        Value (fst r, if at_char 41 (skip_ws (snd r)) then advance (skip_ws (snd r)) else skip_ws (snd r))))
        (Option.bind (ev_ex e) Some) rest err"
      by (rule meets_and_then [OF m]) (simp_all add: meets_def)
    then show ?thesis using Suc Par.prems by (simp add: drop_blanks)
  qed (simp add: meets_def)
next
  case (Neg ws f)
  show ?case
  proof (cases k)
    case (Suc j)
    have "meets (and_then (parse_factor j \<lparr>g_pos = fac_text f @ rest, g_err = err\<rparr>) (\<lambda>r. Value (wrap32 (- fst r), snd r)))
        (Option.bind (ev_fac f) (\<lambda>v. Some (wrap32 (- v)))) rest err"
      by (rule meets_and_then [OF Neg.IH]) (use Neg.prems in \<open>simp_all add: meets_def\<close>)
    then show ?thesis using Suc Neg.prems by (simp add: drop_blanks map_conv_bind_option comp_def)
  qed (simp add: meets_def)
next
  case TEnd
  then show ?case by (cases k) (simp_all add: meets_def stops_at)
next
  case (TMul ws f r)
  show ?case
  proof (cases k)
    case (Suc j)
    have "meets (and_then (parse_factor j \<lparr>g_pos = fac_text f @ tms_text r @ rest, g_err = err\<rparr>)
        (\<lambda>r. term_loop j (wrap32 (v * fst r)) (snd r)))
        (Option.bind (ev_fac f) (\<lambda>d. ev_tms r (wrap32 (v * d)))) (dropWhile is_blank rest) err"
      by (rule meets_and_then [OF TMul.IH(1)]) (use TMul in \<open>simp_all add: follow_tms err_sticky\<close>)
    then show ?thesis using Suc TMul.prems by (simp add: drop_blanks)
  qed (simp add: meets_def)
next
  case (TDiv ws f r)
  show ?case
  proof (cases k)
    case (Suc j)
    have "meets (and_then (parse_factor j \<lparr>g_pos = fac_text f @ tms_text r @ rest, g_err = err\<rparr>) (\<lambda>r.
          if fst r = 0 then Value (0, (snd r)\<lparr>g_err := True\<rparr>)
          else if v = -2147483648 \<and> fst r = -1 then Fault
          else term_loop j (c_div v (fst r)) (snd r)))
        (Option.bind (ev_fac f) (\<lambda>d. Option.bind (div32 v d) (ev_tms r))) (dropWhile is_blank rest) err"
      by (rule meets_and_then [OF TDiv.IH(1)])
        (use TDiv in \<open>auto simp: follow_tms err_sticky div32_def meets_def [of Fault] meets_def [of "Value _"]\<close>)
    then show ?thesis using Suc TDiv.prems by (simp add: drop_blanks)
  qed (simp add: meets_def)
next
  case (Tm f r)
  show ?case
  proof (cases k)
    case (Suc j)
    have "meets (and_then (parse_factor j \<lparr>g_pos = fac_text f @ tms_text r @ rest, g_err = err\<rparr>)
        (\<lambda>r. term_loop j (fst r) (snd r))) (Option.bind (ev_fac f) (ev_tms r)) (dropWhile is_blank rest) err"
      by (rule meets_and_then [OF Tm.IH(1)]) (use Tm in \<open>simp_all add: follow_tms err_sticky\<close>)
    then show ?thesis using Suc by simp
  qed (simp add: meets_def)
next
  case EEnd
  then show ?case by (cases k) (simp_all add: meets_def stops_at)
next
  case (EAdd ws a r)
  show ?case
  proof (cases k)
    case (Suc j)
    have "meets (and_then (parse_term j \<lparr>g_pos = tm_text a @ exs_text r @ rest, g_err = err\<rparr>)
        (\<lambda>r. expr_loop j (wrap32 (v + fst r)) (snd r)))
        (Option.bind (ev_tm a) (\<lambda>d. ev_exs r (wrap32 (v + d)))) (dropWhile is_blank rest) err"
      by (rule meets_and_then [OF EAdd.IH(1)])
        (use EAdd in \<open>simp_all add: follow_exs stops_exs err_sticky expr_loop_blank\<close>)
    then show ?thesis using Suc EAdd.prems by (simp add: drop_blanks)
  qed (simp add: meets_def)
next
  case (ESub ws a r)
  show ?case
  proof (cases k)
    case (Suc j)
    have "meets (and_then (parse_term j \<lparr>g_pos = tm_text a @ exs_text r @ rest, g_err = err\<rparr>)
        (\<lambda>r. expr_loop j (wrap32 (v - fst r)) (snd r)))
        (Option.bind (ev_tm a) (\<lambda>d. ev_exs r (wrap32 (v - d)))) (dropWhile is_blank rest) err"
      by (rule meets_and_then [OF ESub.IH(1)])
        (use ESub in \<open>simp_all add: follow_exs stops_exs err_sticky expr_loop_blank\<close>)
    then show ?thesis using Suc ESub.prems by (simp add: drop_blanks)
  qed (simp add: meets_def)
next
  case (Ex a r)
  show ?case
  proof (cases k)
    case (Suc j)
    have "meets (and_then (parse_term j \<lparr>g_pos = tm_text a @ exs_text r @ rest, g_err = err\<rparr>)
        (\<lambda>r. expr_loop j (fst r) (snd r))) (Option.bind (ev_tm a) (ev_exs r)) (dropWhile is_blank rest) err"
      by (rule meets_and_then [OF Ex.IH(1)]) (use Ex in \<open>simp_all add: follow_exs stops_exs err_sticky expr_loop_blank\<close>)
    then show ?thesis using Suc by simp
  qed (simp add: meets_def)
qed

lemma ex_text_nonempty: "ex_ok e \<Longrightarrow> ex_text e \<noteq> []"
proof (cases e)
  case (Ex a r)
  moreover assume "ex_ok e"
  ultimately show ?thesis by (cases a; cases "case a of Tm f r \<Rightarrow> f") auto
qed

lemma cmd_calc_returns: "cmd_calc args t \<noteq> Out_of_fuel"
proof (cases "no_args args")
  case False
  let ?s = "\<lparr>g_pos = the args, g_err = False\<rparr>"
  have "ends_by (length (the args)) (parse_expr (3 * length (the args) + 3) ?s)"
    using enoughD(4) [OF enough_all, of ?s "length (the args)"] by simp
  then show ?thesis using False
    by (cases "parse_expr (3 * length (the args) + 3) ?s") (auto simp: cmd_calc_def)
qed (simp add: cmd_calc_def)

lemma cmd_calc_draws: "cmd_calc args t = Value t' \<Longrightarrow> draws t t'"
  by (cases "parse_expr (3 * length (the args) + 3) \<lparr>g_pos = the args, g_err = False\<rparr>")
    (auto simp: cmd_calc_def quiet_rules split: if_splits
      intro!: draws_trans [OF _ draws_term_putc])

section \<open>Properties\<close>

text \<open>
  C31.  \<open>calc\<close> meets the grammar of its comment: on the text of an expression, with any blanks
  between the tokens and at the end, it prints the value that precedence and grouping to the
  left give in 32-bit arithmetic; if a division is not defined it reports a parse error or the
  processor faults; and it returns on every argument.
\<close>

theorem calc_correct:
  assumes "ex_ok e" and "blanks ws"
  shows "(case ev_ex e of
       Some v \<Rightarrow> cmd_calc (Some (ex_text e @ ws)) t =
         Value (term_putc 10 7 (fold term_puts [lit ''= '', itoa_text (word_of_int v)] t))
     | None \<Rightarrow> cmd_calc (Some (ex_text e @ ws)) t \<in> {Fault, Value (term_puts (lit ''calc: parse error'' @ [10]) t)}) \<and>
     cmd_calc args t \<noteq> Out_of_fuel"
proof -
  let ?x = "parse_expr (3 * length (ex_text e @ ws) + 3) \<lparr>g_pos = ex_text e @ ws, g_err = False\<rparr>"
  have w: "sep ws" "stops {42, 47, 43, 45} ws" "dropWhile is_blank ws = []"
    using assms(2) blank_not_digit by (cases ws; auto simp: sep_def stops_def blanks_def)+
  have m: "meets ?x (ev_ex e) [] False"
    using parse_meets(5) [OF assms(1) w(1,2), of "3 * length (ex_text e @ ws) + 3" False] unfolding w(3) .
  have "?x \<noteq> Out_of_fuel"
    using enoughD(4) [OF enough_all, of "\<lparr>g_pos = ex_text e @ ws, g_err = False\<rparr>" "length (ex_text e @ ws)"]
    by (auto simp: ends_by_def)
  moreover have "\<not> no_args (Some (ex_text e @ ws))" using ex_text_nonempty [OF assms(1)] by (simp add: no_args_def)
  ultimately show ?thesis using m cmd_calc_returns [of args t]
    by (cases ?x; cases "ev_ex e") (auto simp: meets_def cmd_calc_def)
qed

theorem calc_correct_witness:
  "cmd_calc (Some (lit ''2 + 3 * 4'')) terminal_boot =
     Value (term_putc 10 7 (fold term_puts [lit ''= '', itoa_text 14] terminal_boot))"
proof -
  let ?e = "Ex (Tm (Num [] [50]) TEnd) (EAdd [32] (Tm (Num [32] [51]) (TMul [32] (Num [32] [52]) TEnd)) EEnd)"
  have "ex_ok ?e" by (simp add: blanks_def is_blank_def is_digit_def)
  moreover have "ev_ex ?e = Some 14" by (simp add: wrap32_def num_of_def digit_val_def)
  moreover have "blanks []" by (simp add: blanks_def)
  ultimately show ?thesis using calc_correct [of ?e "[]" terminal_boot] by simp
qed

end
