(* ===== verification/Net_Format.thy ===== *)
theory Net_Format
  imports CString
begin

text \<open>
  The wire formats of \<^verbatim>\<open>src/src/drivers/network.c\<close>: big-endian fields, the Internet checksum,
  ARP frames, DNS names and queries, and the dotted form of an address.  A buffer that the
  code reads through a pointer is a function from the index to the byte, and \<open>&p[k]\<close> is the
  shifted function; a block that the code writes is the list of its bytes.  Lengths and
  offsets are natural numbers, and \<open>w16\<close> is the cast to \<^verbatim>\<open>uint16_t\<close> where the source has it.
\<close>

type_synonym buf = "nat \<Rightarrow> u8"

definition w16 :: "nat \<Rightarrow> nat" where
  "w16 n = n mod 65536"

lemma w16_id [simp]: "n < 65536 \<Longrightarrow> w16 n = n"
  by (simp add: w16_def)

definition bufslice :: "buf \<Rightarrow> nat \<Rightarrow> nat \<Rightarrow> bytes" where
  "bufslice p off n = map (\<lambda>i. p (off + i)) [0..<n]"

definition at :: "buf \<Rightarrow> nat \<Rightarrow> buf" where
  "at p k = (\<lambda>i. p (k + i))"

definition buf_of :: "bytes \<Rightarrow> buf" where
  "buf_of bs = (\<lambda>i. if i < length bs then bs ! i else 0)"

fun bytes_equal :: "bytes \<Rightarrow> bytes \<Rightarrow> nat \<Rightarrow> bool" where
  "bytes_equal a b 0 = True"
| "bytes_equal (x # a) (y # b) (Suc n) = (if x \<noteq> y then False else bytes_equal a b n)"
| "bytes_equal _ _ (Suc n) = False"

definition rd16be :: "buf \<Rightarrow> u16" where
  "rd16be p = push_bit 8 (ucast (p 0)) OR ucast (p 1)"

definition wr16be :: "u16 \<Rightarrow> bytes" where
  "wr16be v = [ucast (drop_bit 8 v), ucast (v AND 255)]"

section \<open>Checksum\<close>

text \<open>The first loop; its index is even and stays below the 16-bit length, so no cast changes it.\<close>

fun checksum_sum :: "bytes \<Rightarrow> u32 \<Rightarrow> u32" where
  "checksum_sum [] acc = acc"
| "checksum_sum [a] acc = acc + push_bit 8 (ucast a)"
| "checksum_sum (a # b # data) acc = checksum_sum data (acc + ucast (rd16be (buf_of [a, b])))"

lemma drop_bit_16: "unat (drop_bit 16 (v :: u32)) = unat v div 65536"
  by (simp add: drop_bit_eq_div unat_div_distrib)

lemma take_16: "unat ((v :: u32) AND 65535) = unat v mod 65536"
proof -
  have "v AND 65535 = v mod 65536" by (simp add: mask_literals flip: take_bit_eq_mask) (simp add: take_bit_eq_mod)
  then show ?thesis by (simp add: unat_mod_distrib)
qed

lemma fold_less:
  assumes "drop_bit 16 (v :: u32) \<noteq> 0"
  shows "unat ((v AND 65535) + drop_bit 16 v) = unat v mod 65536 + unat v div 65536"
    and "unat ((v AND 65535) + drop_bit 16 v) < unat v"
proof -
  have d: "unat v div 65536 < 65536" using unat_u32_less [of v] by (simp add: div_less_mono less_mult_imp_div_less del: unat_u32_less)
  have "unat ((v AND 65535) + drop_bit 16 v) = (unat v mod 65536 + unat v div 65536) mod 2 ^ 32"
    by (simp add: unat_word_ariths take_16 drop_bit_16)
  also have "\<dots> = unat v mod 65536 + unat v div 65536"
    using d by (intro mod_less) (use mod_less_divisor [of 65536 "unat v"] in simp)
  finally show e: "unat ((v AND 65535) + drop_bit 16 v) = unat v mod 65536 + unat v div 65536" .
  have "unat v div 65536 \<noteq> 0" using assms drop_bit_16 [of v] by (metis unat_eq_zero)
  moreover have "unat v = unat v div 65536 * 65536 + unat v mod 65536" by simp
  ultimately show "unat ((v AND 65535) + drop_bit 16 v) < unat v" unfolding e by linarith
qed

function checksum_fold :: "u32 \<Rightarrow> u32" where
  "checksum_fold acc =
     (if drop_bit 16 acc \<noteq> 0 then checksum_fold ((acc AND 65535) + drop_bit 16 acc) else acc)"
  by pat_completeness auto
termination by (relation "measure unat") (auto simp: fold_less(2))

declare checksum_fold.simps [simp del]

definition checksum16 :: "bytes \<Rightarrow> u16" where
  "checksum16 data = ucast (NOT (checksum_fold (checksum_sum data 0)))"

section \<open>Names\<close>

definition to_lower_ascii :: "u8 \<Rightarrow> u8" where
  "to_lower_ascii c = (if c \<ge> 65 \<and> c \<le> 90 then c - 65 + 97 else c)"

definition host_char_ok :: "u8 \<Rightarrow> bool" where
  "host_char_ok c \<longleftrightarrow> (c \<ge> 97 \<and> c \<le> 122) \<or> (c \<ge> 65 \<and> c \<le> 90) \<or> (c \<ge> 48 \<and> c \<le> 57) \<or> c = 45"

text \<open>
  \<open>dns_skip_name\<close>: the result is the new offset, or \<open>None\<close> inside for the return value false.
  The guard counter is 16 bits wide too, so for a message of 65535 bytes the loop need not end.
\<close>

partial_function (option) dns_skip_loop :: "buf \<Rightarrow> nat \<Rightarrow> nat \<Rightarrow> nat \<Rightarrow> nat option option" where
  "dns_skip_loop msg msg_len off guard =
     (if off < msg_len then
        (let len = msg off
         in if len = 0 then Some (Some (w16 (off + 1)))
            else if len AND 192 = 192 then
              (if w16 (off + 1) \<ge> msg_len then Some None else Some (Some (w16 (off + 2))))
            else if len AND 192 \<noteq> 0 then Some None
            else if w16 (w16 (off + 1) + unat len) > msg_len then Some None
            else if w16 (guard + 1) > msg_len then Some None
            else dns_skip_loop msg msg_len (w16 (w16 (off + 1) + unat len)) (w16 (guard + 1)))
      else Some None)"

definition dns_skip_name :: "buf \<Rightarrow> nat \<Rightarrow> nat \<Rightarrow> nat option option" where
  "dns_skip_name msg msg_len off = dns_skip_loop msg msg_len off 0"

text \<open>
  The loop of \<open>build_dns_query\<close> on the bytes written behind the twelve of the header.  \<open>lp\<close> is
  \<open>label_len_pos\<close> as an index into them, and \<open>out_max\<close> bounds the whole message.
\<close>

fun dns_labels :: "bytes \<Rightarrow> nat \<Rightarrow> bytes \<Rightarrow> nat \<Rightarrow> nat \<Rightarrow> (bytes \<times> nat \<times> nat) option" where
  "dns_labels [] out_max out lp label_len = Some (out, lp, label_len)"
| "dns_labels (c # p) out_max out lp label_len =
     (if c = chr_dot then
        (if label_len = 0 then None
         else let out1 = out[lp := byte_of_nat label_len]
         in if p = [] then Some (out1, lp, 0)
            else if 12 + length out1 \<ge> out_max then None
            else dns_labels p out_max (out1 @ [0]) (length out1) 0)
      else if \<not> host_char_ok c then None
      else if label_len \<ge> 63 then None
      else if 12 + length out \<ge> out_max then None
      else dns_labels p out_max (out @ [to_lower_ascii c]) lp (label_len + 1))"

text \<open>The message up to \<open>*out_len\<close>; the rest of the buffer is zero.\<close>

definition build_dns_query :: "bytes option \<Rightarrow> u16 \<Rightarrow> nat \<Rightarrow> bytes option" where
  "build_dns_query host ident out_max =
     (case host of None \<Rightarrow> None
      | Some h \<Rightarrow>
         if out_max < 18 then None
         else let p = dropWhile (\<lambda>c. c = chr_sp) h
         in if p = [] then None
         else case dns_labels p out_max [0] 0 0 of None \<Rightarrow> None
         | Some (out, lp, label_len) \<Rightarrow>
             if label_len = 0 then None
             else let out1 = out[lp := byte_of_nat label_len]
             in if 12 + length out1 + 5 > out_max then None
             else Some (wr16be ident @ wr16be 256 @ wr16be 1 @ replicate 6 0 @ out1 @ [0] @ wr16be 1 @ wr16be 1))"

section \<open>Addresses\<close>

definition is_broadcast_mac :: "bytes \<Rightarrow> bool" where
  "is_broadcast_mac mac \<longleftrightarrow> mac ! 0 = 255 \<and> mac ! 1 = 255 \<and> mac ! 2 = 255 \<and> mac ! 3 = 255 \<and> mac ! 4 = 255 \<and> mac ! 5 = 255"

definition ip_same_subnet :: "bytes \<Rightarrow> bytes \<Rightarrow> bytes \<Rightarrow> bool" where
  "ip_same_subnet netmask a b \<longleftrightarrow> list_all (\<lambda>i. a ! i AND netmask ! i = b ! i AND netmask ! i) [0..<4]"

text \<open>One decimal part: the digits from \<open>p\<close> on, or \<open>None\<close> when the value exceeds 255.\<close>

fun parse_part :: "bytes \<Rightarrow> nat \<Rightarrow> (nat \<times> bytes) option" where
  "parse_part [] v = Some (v, [])"
| "parse_part (c # p) v =
     (if c \<ge> 48 \<and> c \<le> 57 then
        (let v1 = v * 10 + (unat c - 48) in if v1 > 255 then None else parse_part p v1)
      else Some (v, c # p))"

definition parse_octet :: "bytes \<Rightarrow> (u8 \<times> bytes) option" where
  "parse_octet p =
     (case p of [] \<Rightarrow> None
      | c # _ \<Rightarrow> if c < 48 \<or> c > 57 then None else map_option (\<lambda>(v, q). (byte_of_nat v, q)) (parse_part p 0))"

fun parse_parts :: "nat \<Rightarrow> bytes \<Rightarrow> (bytes \<times> bytes) option" where
  "parse_parts 0 p = Some ([], p)"
| "parse_parts (Suc k) p =
     (case parse_octet p of None \<Rightarrow> None
      | Some (v, q) \<Rightarrow>
          if k > 0 then
            (case q of [] \<Rightarrow> None
             | c # q1 \<Rightarrow> if c \<noteq> chr_dot then None else map_option (\<lambda>(vs, r). (v # vs, r)) (parse_parts k q1))
          else map_option (\<lambda>(vs, r). (v # vs, r)) (parse_parts k q))"

definition network_parse_ipv4 :: "bytes option \<Rightarrow> bytes option" where
  "network_parse_ipv4 txt =
     (case txt of None \<Rightarrow> None
      | Some s \<Rightarrow>
         (case parse_parts 4 (dropWhile (\<lambda>c. c = chr_sp) s) of None \<Rightarrow> None
          | Some (ip, p) \<Rightarrow> if dropWhile (\<lambda>c. c = chr_sp) p = [] then Some ip else None))"

text \<open>The 42 bytes of an ARP frame.\<close>

definition build_arp_frame :: "bytes \<Rightarrow> u16 \<Rightarrow> bytes \<Rightarrow> bytes \<Rightarrow> bytes \<Rightarrow> bytes \<Rightarrow> bytes" where
  "build_arp_frame dst_mac op sender_mac sender_ip target_mac target_ip =
     dst_mac @ sender_mac @ wr16be 2054 @
     wr16be 1 @ wr16be 2048 @ [6] @ [4] @ wr16be op @
     sender_mac @ sender_ip @ target_mac @ target_ip"

section \<open>Big-endian fields\<close>

lemma unat_ucast_up [simp]:
  "unat (ucast (b :: u8) :: u16) = unat b" "unat (ucast (b :: u8) :: u32) = unat b"
  "unat (ucast (c :: u16) :: u32) = unat c"
proof -
  have "unat b < 65536" "unat b < 4294967296" "unat c < 4294967296"
    using unat_u8_less [of b] unat_u16_less [of c] by linarith+
  then show "unat (ucast b :: u16) = unat b" "unat (ucast b :: u32) = unat b" "unat (ucast c :: u32) = unat c"
    by (simp_all add: unsigned_ucast_eq take_bit_nat_eq_self)
qed

lemma unat_ucast_down:
  "unat (ucast (c :: u16) :: u8) = unat c mod 256" "unat (ucast (v :: u32) :: u16) = unat v mod 65536"
  by (simp_all add: unsigned_ucast_eq take_bit_eq_mod)

lemma unat_rd16be: "unat (rd16be p) = 256 * unat (p 0) + unat (p 1)"
proof -
  have "rd16be p = push_bit 8 (ucast (p 0)) + ucast (p 1)"
    unfolding rd16be_def by (rule disjunctive_add_eq_or [symmetric]) (rule bit_word_eqI, auto simp: bit_simps dest: bit_imp_le_length)
  also have "unat \<dots> = 256 * unat (p 0) + unat (p 1)"
  proof -
    have s: "unat (p 0) < 256" "unat (p 1) < 256" by simp_all
    have "unat (push_bit 8 (ucast (p 0)) :: u16) = 256 * unat (p 0)"
      using s(1) by (simp add: push_bit_eq_mult unat_word_ariths)
    moreover have "256 * unat (p 0) + unat (p 1) < 65536" using s by linarith
    ultimately show ?thesis by (simp add: unat_word_ariths)
  qed
  finally show ?thesis .
qed

lemma unat_wr16be: "unat (wr16be v ! 0) = unat v div 256" "unat (wr16be v ! 1) = unat v mod 256"
proof -
  have m: "v AND 255 = v mod 256" by (simp add: mask_literals flip: take_bit_eq_mask) (simp add: take_bit_eq_mod)
  have lt: "unat v div 256 < 256" using unat_u16_less [of v] by linarith
  have "unat (v AND 255) = unat v mod 256" unfolding m by (simp add: unat_mod_distrib)
  then show "unat (wr16be v ! 1) = unat v mod 256" by (simp add: wr16be_def unat_ucast_down)
  have "unat (drop_bit 8 v) = unat v div 256" by (simp add: drop_bit_eq_div unat_div_distrib)
  then show "unat (wr16be v ! 0) = unat v div 256" using lt by (simp add: wr16be_def unat_ucast_down)
qed

lemma length_wr16be [simp]: "length (wr16be v) = 2"
  by (simp add: wr16be_def)

lemma rd_wr16be: "p 0 = wr16be v ! 0 \<Longrightarrow> p 1 = wr16be v ! 1 \<Longrightarrow> rd16be p = v"
  using unat_rd16be [of p] unat_wr16be [of v] by (simp add: word_unat_eq_iff)

section \<open>The Internet checksum\<close>

fun wsum :: "bytes \<Rightarrow> nat" where
  "wsum [] = 0"
| "wsum [a] = 256 * unat a"
| "wsum (a # b # data) = 256 * unat a + unat b + wsum data"

lemma wsum_bound: "wsum data \<le> 65535 * ((length data + 1) div 2)"
proof (induction data rule: wsum.induct)
  case (2 a)
  have "unat a < 256" by simp
  then show ?case unfolding wsum.simps by (simp del: unat_u8_less)
next
  case (3 a b data)
  have "unat a < 256" "unat b < 256" by simp_all
  then have "256 * unat a + unat b \<le> 65535" by linarith
  then show ?case using 3 by simp
qed simp

lemma wsum_append: "even (length a) \<Longrightarrow> wsum (a @ b) = wsum a + wsum b"
  by (induction a rule: wsum.induct) auto

lemma checksum_sum_wsum: "unat s + wsum data < 2 ^ 32 \<Longrightarrow> unat (checksum_sum data s) = unat s + wsum data"
proof (induction data s rule: checksum_sum.induct)
  case (2 a s)
  have "unat (push_bit 8 (ucast a) :: u32) = 256 * unat a"
  proof -
    have "256 * unat a < 4294967296" using unat_u8_less [of a] by linarith
    then show ?thesis by (simp add: push_bit_eq_mult unat_word_ariths mult.commute)
  qed
  then show ?case using 2 by (simp add: unat_word_ariths)
next
  case (3 a b data s)
  have "unat (ucast (rd16be (buf_of [a, b])) :: u32) = 256 * unat a + unat b"
    by (simp add: unat_rd16be buf_of_def)
  then show ?case using 3 by (simp add: unat_word_ariths)
qed simp

lemma checksum_fold_spec:
  "unat (checksum_fold v) < 65536 \<and> unat (checksum_fold v) mod 65535 = unat v mod 65535 \<and>
   (checksum_fold v = 0 \<longleftrightarrow> v = 0)"
proof (induction v rule: checksum_fold.induct)
  case (1 v)
  show ?case
  proof (cases "drop_bit 16 v = 0")
    case True
    then have z: "unat v div 65536 = 0" using drop_bit_16 [of v] by simp
    show ?thesis unfolding checksum_fold.simps [of v] using True z by simp
  next
    case False
    let ?w = "(v AND 65535) + drop_bit 16 v"
    have w: "unat ?w = unat v mod 65536 + unat v div 65536" by (rule fold_less(1) [OF False])
    have "unat v = unat ?w + 65535 * (unat v div 65536)"
      unfolding w using mod_mult_div_eq [of "unat v" 65536] by linarith
    then have "unat v mod 65535 = unat ?w mod 65535" by (metis mod_mult_self2)
    moreover have "?w \<noteq> 0"
    proof
      assume "?w = 0"
      then have "unat v div 65536 = 0" using w by simp
      then show False using False drop_bit_16 [of v] by (simp add: unat_eq_zero)
    qed
    moreover have "v \<noteq> 0" using False by auto
    ultimately show ?thesis
      unfolding checksum_fold.simps [of v] using 1 [OF False] False by (simp del: checksum_fold.simps)
  qed
qed

lemma unat_checksum16: "unat (checksum16 data) = 65535 - unat (checksum_fold (checksum_sum data 0))"
proof -
  let ?f = "checksum_fold (checksum_sum data 0)"
  have lt: "unat ?f < 65536" using checksum_fold_spec by blast
  have "unat (- 1 - ?f) = unat (- 1 :: u32) - unat ?f" by (rule unat_sub) simp
  moreover have "unat (- 1 :: u32) = 4294967295"
    by (simp add: unsigned_minus_1_eq_mask mask_eq_exp_minus_1)
  ultimately have "unat (NOT ?f) = 4294967295 - unat ?f" by (simp add: not_eq_complement minus_diff_commute)
  then have "unat (checksum16 data) = (4294967295 - unat ?f) mod 65536"
    by (simp add: checksum16_def unat_ucast_down)
  also have "\<dots> = 65535 - unat ?f"
  proof -
    have e: "4294967295 - unat ?f = (65535 - unat ?f) + 65535 * 65536" using lt by linarith
    show ?thesis unfolding e mod_mult_self1 using lt by (intro mod_less) linarith
  qed
  finally show ?thesis .
qed

lemma mod_zero_cancel:
  fixes s u v m :: nat
  assumes "(s + v) mod m = 0" and "(s + u) mod m = 0"
  shows "v mod m = u mod m"
proof -
  have "m dvd (s + x) - (s + y)" if "(s + x) mod m = 0" "(s + y) mod m = 0" for x y
    using that by (intro dvd_diff_nat) auto
  then have "m dvd v - u" "m dvd u - v" using assms by auto
  then show ?thesis
    using mod_eq_dvd_iff_nat [of u v m] mod_eq_dvd_iff_nat [of v u m] by (cases "u \<le> v") auto
qed

lemma checksum16_zero_iff:
  assumes "length data \<le> 65535"
  shows "checksum16 data = 0 \<longleftrightarrow> wsum data \<noteq> 0 \<and> wsum data mod 65535 = 0"
proof -
  have "wsum data \<le> 65535 * 32768" using wsum_bound [of data] assms by (rule_tac order_trans) auto
  then have s: "unat (checksum_sum data 0) = wsum data" using checksum_sum_wsum [of 0 data] by simp
  let ?f = "checksum_fold (checksum_sum data 0)"
  have f: "unat ?f < 65536" "unat ?f mod 65535 = wsum data mod 65535" "?f = 0 \<longleftrightarrow> wsum data = 0"
    using checksum_fold_spec [of "checksum_sum data 0"] s by (auto simp flip: unat_eq_zero)
  have "checksum16 data = 0 \<longleftrightarrow> unat ?f = 65535"
    using unat_checksum16 [of data] f(1) by (auto simp flip: unat_eq_zero)
  also have "\<dots> \<longleftrightarrow> ?f \<noteq> 0 \<and> unat ?f mod 65535 = 0"
  proof -
    have "unat ?f = 65535 \<or> unat ?f < 65535" using f(1) by linarith
    then show ?thesis by (auto simp flip: unat_eq_zero)
  qed
  finally show ?thesis using f by simp
qed

lemma wsum_field:
  assumes "even (length a)"
  shows "wsum (a @ wr16be v @ b) = wsum a + unat v + wsum b"
proof -
  have "wsum (wr16be v @ b) = unat v + wsum b"
    using unat_wr16be [of v] by (simp add: wr16be_def)
  then show ?thesis using wsum_append [OF assms] by simp
qed

lemma checksum_stored:
  assumes "even (length a)" and "length a + 2 + length b \<le> 65535"
  shows "checksum16 (a @ wr16be (checksum16 (a @ wr16be 0 @ b)) @ b) = 0"
proof -
  note w = wsum_field [OF assms(1)]
  have len: "length (a @ wr16be v @ b) \<le> 65535" for v using assms(2) by simp
  let ?z = "a @ wr16be 0 @ b" and ?c = "checksum16 (a @ wr16be 0 @ b)"
  let ?f = "checksum_fold (checksum_sum ?z 0)"
  have z: "wsum ?z = wsum a + wsum b" using w [of 0] by simp
  have "wsum ?z \<le> 65535 * 32768" using wsum_bound [of ?z] len [of 0] by (rule_tac order_trans) auto
  then have s: "unat (checksum_sum ?z 0) = wsum ?z" using checksum_sum_wsum [of 0 ?z] by simp
  have f: "unat ?f < 65536" "unat ?f mod 65535 = wsum ?z mod 65535" "?f = 0 \<longleftrightarrow> wsum ?z = 0"
    using checksum_fold_spec [of "checksum_sum ?z 0"] s by (auto simp flip: unat_eq_zero)
  have c: "unat ?c = 65535 - unat ?f" by (rule unat_checksum16)
  have "wsum (a @ wr16be ?c @ b) = wsum ?z + (65535 - unat ?f)" using w [of ?c] z c by simp
  moreover have "(wsum ?z + (65535 - unat ?f)) mod 65535 = 0"
  proof -
    have "(wsum ?z + (65535 - unat ?f)) mod 65535 = (unat ?f + (65535 - unat ?f)) mod 65535"
      by (rule mod_add_cong [OF f(2) [symmetric] refl])
    then show ?thesis using f(1) by simp
  qed
  moreover have "wsum ?z + (65535 - unat ?f) \<noteq> 0" using f by (cases "wsum ?z = 0") auto
  ultimately show ?thesis using checksum16_zero_iff [OF len [of ?c]] by simp
qed

text \<open>
  The Internet checksum verifies: storing the checksum of a block, computed with a zero
  field, into that field (at an even offset) gives a block whose own checksum is zero, which
  is what a receiver tests; and changing a 16-bit word of such a block by an amount that is
  not a multiple of 65535 is always detected.
\<close>

lemma checksum_verifies:
  assumes "even (length a)" and "length a + 2 + length b \<le> 65535"
  shows "checksum16 (a @ wr16be (checksum16 (a @ wr16be 0 @ b)) @ b) = 0 \<and>
    (\<forall>v w. checksum16 (a @ wr16be v @ b) = 0 \<and> checksum16 (a @ wr16be w @ b) = 0 \<longrightarrow>
       unat v mod 65535 = unat w mod 65535)"
proof -
  have len: "length (a @ wr16be v @ b) \<le> 65535" for v using assms(2) by simp
  have "unat v mod 65535 = unat u mod 65535"
    if "checksum16 (a @ wr16be v @ b) = 0" "checksum16 (a @ wr16be u @ b) = 0" for v u
  proof -
    have "(wsum a + wsum b + unat v) mod 65535 = 0" "(wsum a + wsum b + unat u) mod 65535 = 0"
      using that checksum16_zero_iff [OF len] wsum_field [OF assms(1)] by (simp_all add: ac_simps)
    then show ?thesis by (rule mod_zero_cancel)
  qed
  then show ?thesis using checksum_stored [OF assms] by blast
qed

theorem checksum_verifies_witness:
  "checksum16 ([69, 0, 0, 28] @ wr16be (checksum16 ([69, 0, 0, 28] @ wr16be 0 @ [10, 0, 2])) @ [10, 0, 2]) = 0"
  using checksum_verifies [of "[69, 0, 0, 28]" "[10, 0, 2]"] by simp

section \<open>Dotted addresses\<close>

definition is_digit :: "u8 \<Rightarrow> bool" where
  "is_digit c \<longleftrightarrow> c \<ge> 48 \<and> c \<le> 57"

definition octet :: "bytes \<Rightarrow> u8 \<Rightarrow> bool" where
  "octet ds b \<longleftrightarrow> ds \<noteq> [] \<and> (\<forall>c \<in> set ds. is_digit c) \<and> num_of 10 ds \<le> 255 \<and> b = byte_of_nat (num_of 10 ds)"

definition stops :: "bytes \<Rightarrow> bool" where
  "stops r \<longleftrightarrow> r = [] \<or> \<not> is_digit (hd r)"

abbreviation digit_step :: "nat \<Rightarrow> u8 \<Rightarrow> nat" where
  "digit_step v c \<equiv> v * 10 + (unat c - 48)"

lemma num_of_digits: "\<forall>c \<in> set ds. is_digit c \<Longrightarrow> foldl (\<lambda>a c. a * 10 + digit_val c) v ds = foldl digit_step v ds"
  by (induction ds arbitrary: v) (auto simp: is_digit_def digit_val_def word_le_nat_alt)

lemma foldl_digit_mono: "v \<le> foldl digit_step v ds"
proof (induction ds arbitrary: v)
  case (Cons c ds)
  have "v \<le> digit_step v c" by simp
  also have "\<dots> \<le> foldl digit_step (digit_step v c) ds" by (rule Cons)
  finally show ?case by simp
qed simp

lemma parse_part_digits:
  assumes "\<forall>c \<in> set ds. is_digit c" and "foldl digit_step v ds \<le> 255" and "stops r"
  shows "parse_part (ds @ r) v = Some (foldl digit_step v ds, r)"
  using assms(1,2)
proof (induction ds arbitrary: v)
  case Nil
  then show ?case using assms(3) by (cases r) (auto simp: stops_def is_digit_def)
next
  case (Cons c ds)
  have "digit_step v c \<le> 255" using Cons.prems(2) foldl_digit_mono [of "digit_step v c" ds] by simp
  then show ?case using Cons by (simp add: is_digit_def)
qed

lemma parse_part_Some:
  assumes "parse_part p v = Some (n, r)" and "v \<le> 255"
  shows "\<exists>ds. p = ds @ r \<and> (\<forall>c \<in> set ds. is_digit c) \<and> n = foldl digit_step v ds \<and> n \<le> 255 \<and> stops r"
  using assms
proof (induction p v rule: parse_part.induct)
  case (1 v)
  then show ?case by (simp add: stops_def)
next
  case (2 c p v)
  show ?case
  proof (cases "is_digit c")
    case True
    then have "parse_part p (digit_step v c) = Some (n, r)" "digit_step v c \<le> 255"
      using 2(2) by (auto simp: is_digit_def Let_def split: if_splits)
    then obtain ds where "p = ds @ r" "\<forall>c \<in> set ds. is_digit c" "n = foldl digit_step (digit_step v c) ds"
      "n \<le> 255" "stops r"
      using 2(1) True by (auto simp: is_digit_def)
    then show ?thesis using True by (intro exI [of _ "c # ds"]) simp
  next
    case False
    then show ?thesis using 2(2,3) by (intro exI [of _ "[]"]) (auto simp: is_digit_def stops_def split: if_splits)
  qed
qed

lemma parse_octet_iff:
  "parse_octet p = Some (b, r) \<longleftrightarrow> (\<exists>ds. p = ds @ r \<and> octet ds b \<and> stops r)"
proof
  assume a: "parse_octet p = Some (b, r)"
  then obtain c q where p: "p = c # q" "is_digit c"
    by (auto simp: parse_octet_def is_digit_def split: list.splits if_splits)
  then obtain n where n: "parse_part p 0 = Some (n, r)" "b = byte_of_nat n"
    using a by (auto simp: parse_octet_def split: if_splits)
  then obtain ds where ds: "p = ds @ r" "\<forall>c \<in> set ds. is_digit c" "n = foldl digit_step 0 ds" "n \<le> 255" "stops r"
    using parse_part_Some by (metis zero_le)
  have "ds \<noteq> []" using ds(1,5) p by (auto simp: stops_def)
  then show "\<exists>ds. p = ds @ r \<and> octet ds b \<and> stops r"
    using ds n(2) num_of_digits [OF ds(2), of 0] by (auto simp: octet_def num_of_def)
next
  assume "\<exists>ds. p = ds @ r \<and> octet ds b \<and> stops r"
  then obtain ds where ds: "p = ds @ r" "octet ds b" "stops r" by blast
  then obtain c ds' where c: "ds = c # ds'" "is_digit c" by (cases ds) (auto simp: octet_def)
  have "parse_part p 0 = Some (num_of 10 ds, r)"
    using ds parse_part_digits [of ds 0 r] num_of_digits [of ds 0] by (simp add: octet_def num_of_def)
  then show "parse_octet p = Some (b, r)"
    using ds c by (auto simp: parse_octet_def is_digit_def octet_def)
qed

lemma stops_dot: "stops (chr_dot # r)"
  by (simp add: stops_def is_digit_def)

lemma parse_parts_last: "parse_parts (Suc 0) p = Some (ip, r) \<longleftrightarrow> (\<exists>ds b. p = ds @ r \<and> octet ds b \<and> stops r \<and> ip = [b])"
proof -
  have "parse_parts (Suc 0) p = map_option (\<lambda>(v, q). ([v], q)) (parse_octet p)"
    by (cases "parse_octet p") auto
  then have "parse_parts (Suc 0) p = Some (ip, r) \<longleftrightarrow> (\<exists>b. parse_octet p = Some (b, r) \<and> ip = [b])" by auto
  then show ?thesis using parse_octet_iff by blast
qed

lemma parse_parts_dot:
  "parse_parts (Suc (Suc k)) p = Some (ip, r) \<longleftrightarrow>
    (\<exists>ds b q vs. p = ds @ [chr_dot] @ q \<and> octet ds b \<and> parse_parts (Suc k) q = Some (vs, r) \<and> ip = b # vs)"
proof
  assume a: "parse_parts (Suc (Suc k)) p = Some (ip, r)"
  then obtain v q where o1: "parse_octet p = Some (v, q)" by (auto split: option.splits)
  with a obtain q1 vs where q: "q = chr_dot # q1" "parse_parts (Suc k) q1 = Some (vs, r)" "ip = v # vs"
    by (auto simp del: parse_parts.simps(2) [of k] split: list.splits if_splits)
  obtain ds where "p = ds @ q" "octet ds v" using o1 parse_octet_iff by blast
  then show "\<exists>ds b q vs. p = ds @ [chr_dot] @ q \<and> octet ds b \<and> parse_parts (Suc k) q = Some (vs, r) \<and> ip = b # vs"
    using q by (intro exI [of _ ds] exI [of _ v] exI [of _ q1] exI [of _ vs]) simp
next
  assume "\<exists>ds b q vs. p = ds @ [chr_dot] @ q \<and> octet ds b \<and> parse_parts (Suc k) q = Some (vs, r) \<and> ip = b # vs"
  then obtain ds b q vs where p: "p = ds @ [chr_dot] @ q" "octet ds b" "parse_parts (Suc k) q = Some (vs, r)" "ip = b # vs"
    by blast
  have "parse_octet p = Some (b, chr_dot # q)"
    unfolding parse_octet_iff using p stops_dot by (intro exI [of _ ds]) simp
  then show "parse_parts (Suc (Suc k)) p = Some (ip, r)" using p by simp
qed

lemma parse_four:
  "parse_parts 4 p = Some (ip, r) \<longleftrightarrow>
    (\<exists>d1 d2 d3 d4 b1 b2 b3 b4. p = d1 @ [chr_dot] @ d2 @ [chr_dot] @ d3 @ [chr_dot] @ d4 @ r \<and>
       octet d1 b1 \<and> octet d2 b2 \<and> octet d3 b3 \<and> octet d4 b4 \<and> stops r \<and> ip = [b1, b2, b3, b4])"
proof -
  have four: "4 = Suc (Suc (Suc (Suc 0)))" by simp
  show ?thesis unfolding four parse_parts_dot parse_parts_last by (rule iffI) (clarsimp, blast)+
qed

lemma dropWhile_spaces: "\<exists>sp. set sp \<subseteq> {chr_sp} \<and> s = sp @ dropWhile (\<lambda>c. c = chr_sp) s"
  by (rule exI [of _ "takeWhile (\<lambda>c. c = chr_sp) s"]) (auto dest: set_takeWhileD)

lemma dropWhile_prefix: "set sp \<subseteq> {chr_sp} \<Longrightarrow> dropWhile (\<lambda>c. c = chr_sp) (sp @ s) = dropWhile (\<lambda>c. c = chr_sp) s"
  by (induction sp) auto

lemma stops_spaces: "set sp \<subseteq> {chr_sp} \<Longrightarrow> stops sp"
  by (cases sp) (auto simp: stops_def is_digit_def)

text \<open>
  Parsing an address accepts exactly the dotted form: four groups of decimal digits, each
  of value at most 255, separated by single dots, with spaces allowed around; the address
  returned is the four values.
\<close>

lemma parse_ipv4_iff:
  "network_parse_ipv4 (Some s) = Some ip \<longleftrightarrow>
    (\<exists>sp d1 d2 d3 d4 sp' b1 b2 b3 b4.
       s = sp @ d1 @ [chr_dot] @ d2 @ [chr_dot] @ d3 @ [chr_dot] @ d4 @ sp' \<and>
       set sp \<subseteq> {chr_sp} \<and> set sp' \<subseteq> {chr_sp} \<and>
       octet d1 b1 \<and> octet d2 b2 \<and> octet d3 b3 \<and> octet d4 b4 \<and> ip = [b1, b2, b3, b4])"
proof
  let ?drop = "dropWhile (\<lambda>c. c = chr_sp)"
  assume "network_parse_ipv4 (Some s) = Some ip"
  then obtain r where r: "parse_parts 4 (?drop s) = Some (ip, r)" "?drop r = []"
    by (auto simp: network_parse_ipv4_def split: option.splits if_splits)
  obtain sp where sp: "set sp \<subseteq> {chr_sp}" "s = sp @ ?drop s" using dropWhile_spaces by blast
  have "set r \<subseteq> {chr_sp}" using r(2) by (auto simp: dropWhile_eq_Nil_conv)
  with r(1) sp show "\<exists>sp d1 d2 d3 d4 sp' b1 b2 b3 b4.
       s = sp @ d1 @ [chr_dot] @ d2 @ [chr_dot] @ d3 @ [chr_dot] @ d4 @ sp' \<and>
       set sp \<subseteq> {chr_sp} \<and> set sp' \<subseteq> {chr_sp} \<and>
       octet d1 b1 \<and> octet d2 b2 \<and> octet d3 b3 \<and> octet d4 b4 \<and> ip = [b1, b2, b3, b4]"
    unfolding parse_four by (metis append.assoc)
next
  let ?drop = "dropWhile (\<lambda>c. c = chr_sp)"
  assume "\<exists>sp d1 d2 d3 d4 sp' b1 b2 b3 b4.
       s = sp @ d1 @ [chr_dot] @ d2 @ [chr_dot] @ d3 @ [chr_dot] @ d4 @ sp' \<and>
       set sp \<subseteq> {chr_sp} \<and> set sp' \<subseteq> {chr_sp} \<and>
       octet d1 b1 \<and> octet d2 b2 \<and> octet d3 b3 \<and> octet d4 b4 \<and> ip = [b1, b2, b3, b4]"
  then obtain sp d1 d2 d3 d4 sp' b1 b2 b3 b4 where
    s: "s = sp @ d1 @ [chr_dot] @ d2 @ [chr_dot] @ d3 @ [chr_dot] @ d4 @ sp'" "set sp \<subseteq> {chr_sp}" "set sp' \<subseteq> {chr_sp}"
      "octet d1 b1" "octet d2 b2" "octet d3 b3" "octet d4 b4" "ip = [b1, b2, b3, b4]" by blast
  let ?p = "d1 @ [chr_dot] @ d2 @ [chr_dot] @ d3 @ [chr_dot] @ d4 @ sp'"
  obtain c q where c: "?p = c # q" "is_digit c" using s(4) by (cases d1) (auto simp: octet_def)
  have "?drop s = ?p" using s(1,2) dropWhile_prefix [of sp ?p] c by (auto simp: is_digit_def)
  moreover have "parse_parts 4 ?p = Some (ip, sp')" unfolding parse_four using s stops_spaces [OF s(3)] by blast
  moreover have "?drop sp' = []" using s(3) by (auto simp: dropWhile_eq_Nil_conv)
  ultimately show "network_parse_ipv4 (Some s) = Some ip" by (simp add: network_parse_ipv4_def)
qed

section \<open>DNS queries\<close>

definition dns_label :: "bytes \<Rightarrow> bool" where
  "dns_label l \<longleftrightarrow> l \<noteq> [] \<and> length l \<le> 63 \<and> (\<forall>c \<in> set l. host_char_ok c)"

fun join_dots :: "bytes list \<Rightarrow> bytes" where
  "join_dots [] = []"
| "join_dots [l] = l"
| "join_dots (l # ls) = l @ [chr_dot] @ join_dots ls"

definition enc_label :: "bytes \<Rightarrow> bytes" where
  "enc_label l = byte_of_nat (length l) # map to_lower_ascii l"

definition enc_labels :: "bytes list \<Rightarrow> bytes" where
  "enc_labels ls = concat (map enc_label ls)"

lemma enc_labels_simps [simp]:
  "enc_labels [] = []" "enc_labels (l # ls) = enc_label l @ enc_labels ls"
  "enc_labels (ls @ ms) = enc_labels ls @ enc_labels ms"
  by (simp_all add: enc_labels_def)

lemma length_enc_label [simp]: "length (enc_label l) = Suc (length l)"
  by (simp add: enc_label_def)

lemma dns_labels_label:
  assumes "\<forall>c \<in> set l. host_char_ok c" and "n + length l \<le> 63" and "12 + length out + length l \<le> M"
  shows "dns_labels (l @ p) M out lp n = dns_labels p M (out @ map to_lower_ascii l) lp (n + length l)"
  using assms
proof (induction l arbitrary: out n)
  case (Cons c l)
  have "c \<noteq> chr_dot" using Cons.prems(1) by (auto simp: host_char_ok_def)
  then show ?case using Cons by simp
qed simp

lemma dns_labels_join:
  assumes "ls \<noteq> []" and "\<forall>l \<in> set ls. dns_label l" and "12 + length pre + length (enc_labels ls) \<le> M"
  shows "dns_labels (join_dots ls @ p) M (pre @ [0]) (length pre) 0 =
    dns_labels p M (pre @ enc_labels (butlast ls) @ 0 # map to_lower_ascii (last ls))
      (length pre + length (enc_labels (butlast ls))) (length (last ls))"
  using assms
proof (induction ls arbitrary: pre rule: join_dots.induct)
  case (2 l)
  then show ?case
    using dns_labels_label [of l 0 "pre @ [0]" M p "length pre"] by (simp add: dns_label_def)
next
  case (3 l l' ls)
  let ?rest = "join_dots (l' # ls) @ p"
  have l: "dns_label l" using 3 by simp
  have "l' \<noteq> []" using 3 by (simp add: dns_label_def)
  then have ne: "?rest \<noteq> []" by (cases ls) auto
  have "dns_labels (l @ chr_dot # ?rest) M (pre @ [0]) (length pre) 0 =
      dns_labels (chr_dot # ?rest) M (pre @ 0 # map to_lower_ascii l) (length pre) (length l)"
    using dns_labels_label [of l 0 "pre @ [0]" M] l 3(4) by (simp add: dns_label_def)
  also have "\<dots> = dns_labels ?rest M ((pre @ enc_label l) @ [0]) (length (pre @ enc_label l)) 0"
    using l ne 3(4) by (auto simp: dns_label_def enc_label_def list_update_append Let_def)
  also have "\<dots> = dns_labels p M ((pre @ enc_label l) @ enc_labels (butlast (l' # ls)) @ 0 # map to_lower_ascii (last (l' # ls)))
      (length (pre @ enc_label l) + length (enc_labels (butlast (l' # ls)))) (length (last (l' # ls)))"
    using 3 by (intro 3(1)) auto
  finally show ?case by (simp add: add.assoc)
qed simp

lemma take_bit_6: "take_bit 6 (b :: u8) = b \<longleftrightarrow> unat b < 64"
proof -
  have "unat (take_bit 6 b) = unat b mod 64" by (simp add: take_bit_eq_mod unat_mod_distrib)
  then have "take_bit 6 b = b \<longleftrightarrow> unat b mod 64 = unat b" by (simp add: word_unat_eq_iff)
  then show ?thesis by (metis mod_less mod_less_divisor zero_less_numeral)
qed

lemma len_byte:
  assumes "unat (b :: u8) < 64"
  shows "b AND 192 = 0"
proof -
  have m: "(192 :: u8) = push_bit 6 (mask 2)" by (simp add: mask_eq_exp_minus_1 push_bit_eq_mult)
  have t: "take_bit 6 b = b" using assms by (simp only: take_bit_6)
  show ?thesis
  proof (rule bit_word_eqI)
    fix n
    have "bit b n = (n < 6 \<and> bit b n)" using t by (metis bit_take_bit_iff)
    then show "bit (b AND 192) n = bit 0 n" unfolding m by (auto simp: bit_simps)
  qed
qed

lemma len_byte_top:
  assumes "(b :: u8) AND 192 = 0"
  shows "unat b < 64"
proof -
  have m: "(192 :: u8) = push_bit 6 (mask 2)" by (simp add: mask_eq_exp_minus_1 push_bit_eq_mult)
  have "bit b n \<longrightarrow> n < 6" for n
  proof
    assume n: "bit b n"
    then have "n < 8" using bit_imp_le_length by fastforce
    moreover have "\<not> bit (b AND 192) n" using assms by simp
    ultimately show "n < 6" using n unfolding m by (auto simp: bit_simps)
  qed
  then have "take_bit 6 b = b" by (intro bit_word_eqI) (auto simp: bit_simps)
  then show ?thesis by (simp only: take_bit_6)
qed

lemma dns_skip_loop_returns:
  assumes "msg_len \<le> 65000" and "guard \<le> msg_len"
  shows "\<exists>r. dns_skip_loop msg msg_len off guard = Some r \<and>
    (case r of None \<Rightarrow> True | Some off' \<Rightarrow> off < off' \<and> off' \<le> msg_len)"
  using assms(2)
proof (induction "msg_len - guard" arbitrary: off guard rule: less_induct)
  case less
  show ?case
  proof (cases "off < msg_len \<and> msg off \<noteq> 0 \<and> msg off AND 192 = 0 \<and>
      off + 1 + unat (msg off) \<le> msg_len \<and> guard + 1 \<le> msg_len")
    case True
    then have "unat (msg off) < 64" using len_byte_top by blast
    then have e: "dns_skip_loop msg msg_len off guard =
        dns_skip_loop msg msg_len (off + 1 + unat (msg off)) (guard + 1)"
      using True assms(1) by (subst dns_skip_loop.simps) (simp add: Let_def)
    have "\<exists>r. dns_skip_loop msg msg_len (off + 1 + unat (msg off)) (guard + 1) = Some r \<and>
        (case r of None \<Rightarrow> True | Some off' \<Rightarrow> off + 1 + unat (msg off) < off' \<and> off' \<le> msg_len)"
      using True by (intro less) auto
    then show ?thesis unfolding e by (auto split: option.splits)
  next
    case False
    have "unat (msg off) < 64" if "msg off AND 192 = 0" using len_byte_top [OF that] .
    with False assms(1) less.prems show ?thesis
      by (subst dns_skip_loop.simps) (auto simp: Let_def)
  qed
qed

text \<open>The name at an offset of a buffer.\<close>

lemma bufslice_Cons: "bufslice p off (Suc n) = p off # bufslice p (off + 1) n"
  by (simp add: bufslice_def upt_conv_Cons del: upt_Suc) (simp add: map_Suc_upt [symmetric] comp_def del: upt_Suc)

lemma bufslice_append: "bufslice p off (m + n) = bufslice p off m @ bufslice p (off + m) n"
proof (induction m arbitrary: off)
  case (Suc m)
  then show ?case by (simp add: bufslice_Cons)
qed (simp add: bufslice_def)

lemma length_bufslice [simp]: "length (bufslice p off n) = n"
  by (simp add: bufslice_def)

lemma dns_skip_labels:
  assumes "\<forall>l \<in> set ls. dns_label l" and "bufslice msg off (length (enc_labels ls) + 1) = enc_labels ls @ [0]"
    and "off + length (enc_labels ls) + 1 \<le> msg_len" and "msg_len \<le> 65000" and "guard + length ls \<le> msg_len"
  shows "dns_skip_loop msg msg_len off guard = Some (Some (off + length (enc_labels ls) + 1))"
  using assms
proof (induction ls arbitrary: off guard)
  case Nil
  then have "msg off = 0" by (simp add: bufslice_def)
  then show ?case using Nil by (subst dns_skip_loop.simps) simp
next
  case (Cons l ls)
  have "bufslice msg off (Suc (length l) + (length (enc_labels ls) + 1)) = enc_label l @ enc_labels ls @ [0]"
    using Cons.prems(2) by simp
  then have s: "bufslice msg off (Suc (length l)) = enc_label l"
    "bufslice msg (off + Suc (length l)) (length (enc_labels ls) + 1) = enc_labels ls @ [0]"
    unfolding bufslice_append by (simp_all add: append_eq_append_conv)
  have l: "dns_label l" using Cons.prems(1) by simp
  have b: "msg off = byte_of_nat (length l)" using s(1) by (simp add: bufslice_Cons enc_label_def)
  then have u: "unat (msg off) = length l" "length l \<noteq> 0" "length l < 64"
    using l by (simp_all add: dns_label_def unat_byte_of_nat)
  then have nz: "msg off \<noteq> 0" "msg off AND 192 = 0" using len_byte [of "msg off"] by auto
  have "dns_skip_loop msg msg_len off guard = dns_skip_loop msg msg_len (off + Suc (length l)) (guard + 1)"
    using Cons.prems(3-5) u nz by (subst dns_skip_loop.simps) (simp add: Let_def)
  also have "\<dots> = Some (Some (off + Suc (length l) + length (enc_labels ls) + 1))"
    using Cons.prems s(2) by (intro Cons.IH) auto
  finally show ?case by simp
qed

lemma enc_labels_snoc: "ls \<noteq> [] \<Longrightarrow> enc_labels (butlast ls) @ enc_label (last ls) = enc_labels ls"
  by (metis append_butlast_last_id append_Nil2 enc_labels_simps)

lemma join_dots_head:
  assumes "ls \<noteq> []" and "\<forall>l \<in> set ls. dns_label l"
  shows "\<exists>c q. join_dots ls = c # q \<and> host_char_ok c"
proof -
  obtain l ms where ls: "ls = l # ms" using assms(1) by (cases ls) auto
  then obtain c l' where "l = c # l'" "host_char_ok c" using assms(2) by (cases l) (auto simp: dns_label_def)
  then show ?thesis using ls by (cases ms) auto
qed

definition dns_query :: "u16 \<Rightarrow> bytes list \<Rightarrow> bytes" where
  "dns_query ident ls =
     wr16be ident @ wr16be 256 @ wr16be 1 @ replicate 6 0 @ enc_labels ls @ [0] @ wr16be 1 @ wr16be 1"

lemma build_dns_query_labels:
  assumes ls: "ls \<noteq> []" "\<forall>l \<in> set ls. dns_label l" and M: "length (enc_labels ls) + 17 \<le> M" "18 \<le> M"
  shows "build_dns_query (Some (join_dots ls)) ident M = Some (dns_query ident ls)"
    and "build_dns_query (Some (join_dots ls @ [chr_dot])) ident M = None"
proof -
  have sp: "dropWhile (\<lambda>c. c = chr_sp) (join_dots ls @ p) = join_dots ls @ p" "join_dots ls \<noteq> []" for p
    using join_dots_head [OF ls] by (auto simp: host_char_ok_def)
  have jp: "dns_labels (join_dots ls @ p) M [0] 0 0 = dns_labels p M (enc_labels (butlast ls) @ 0 # map to_lower_ascii (last ls))
      (length (enc_labels (butlast ls))) (length (last ls))" for p
    using dns_labels_join [OF ls, of "[]" M p] M by simp
  have last: "last ls \<noteq> []" using ls by (auto simp: dns_label_def)
  have upd: "(enc_labels (butlast ls) @ 0 # map to_lower_ascii (last ls))[length (enc_labels (butlast ls)) := byte_of_nat (length (last ls))] =
      enc_labels ls"
    using enc_labels_snoc [OF ls(1)] by (simp add: list_update_append enc_label_def)
  have M12: "12 + length (enc_labels ls) \<le> M" "\<not> 12 + length (enc_labels ls) + 5 > M" using M by auto
  show "build_dns_query (Some (join_dots ls)) ident M = Some (dns_query ident ls)"
    using sp(1) [of "[]"] sp(2) jp [of "[]"] M last upd M12
    by (simp add: build_dns_query_def dns_query_def Let_def)
  show "build_dns_query (Some (join_dots ls @ [chr_dot])) ident M = None"
    using sp jp [of "[chr_dot]"] M12 last by (simp add: build_dns_query_def Let_def)
qed

text \<open>
  The DNS query of a host name: for every name of valid labels (letters, digits and
  hyphens, 1 to 63 characters) that fits the buffer, the query is the header with the
  identifier, the lower-case labels with their lengths, the end mark and the type and class;
  skipping the name from offset 12 ends exactly at the type field.  The same name with a
  trailing dot, the fully qualified form, is refused.
\<close>

lemma dns_query_correct:
  assumes "ls \<noteq> []" and "\<forall>l \<in> set ls. dns_label l" and "length (enc_labels ls) + 17 \<le> M" and "18 \<le> M" and "M \<le> 65000"
  shows "build_dns_query (Some (join_dots ls)) ident M = Some (dns_query ident ls) \<and>
    dns_skip_name (buf_of (dns_query ident ls)) (length (dns_query ident ls)) 12 =
      Some (Some (length (dns_query ident ls) - 4)) \<and>
    build_dns_query (Some (join_dots ls @ [chr_dot])) ident M = None"
proof -
  let ?q = "dns_query ident ls" and ?n = "length (enc_labels ls)"
  have len: "length ?q = 12 + ?n + 5" by (simp add: dns_query_def)
  have "bufslice (buf_of ?q) 12 (?n + 1) = enc_labels ls @ [0]"
  proof (rule nth_equalityI)
    fix i assume "i < length (bufslice (buf_of ?q) 12 (?n + 1))"
    then have i: "i < ?n + 1" by simp
    have "bufslice (buf_of ?q) 12 (?n + 1) ! i = ?q ! (12 + i)"
      using i len by (simp add: bufslice_def buf_of_def del: upt_Suc)
    also have "?q ! (12 + i) =
        ((wr16be ident @ wr16be 256 @ wr16be 1 @ replicate 6 0) @ (enc_labels ls @ [0]) @ wr16be 1 @ wr16be 1) ! (12 + i)"
      by (simp add: dns_query_def)
    also have "\<dots> = (enc_labels ls @ [0]) ! i"
      using i by (subst nth_append) (simp add: nth_append)
    finally show "bufslice (buf_of ?q) 12 (?n + 1) ! i = (enc_labels ls @ [0]) ! i" .
  qed simp
  moreover have "length ls \<le> ?n" by (induction ls) auto
  ultimately have "dns_skip_loop (buf_of ?q) (length ?q) 12 0 = Some (Some (12 + ?n + 1))"
    using assms(2,3,5) len by (intro dns_skip_labels) auto
  then show ?thesis
    using build_dns_query_labels [OF assms(1-4)] len by (simp add: dns_skip_name_def)
qed

theorem dns_query_correct_witness:
  "build_dns_query (Some (join_dots [[119, 119], [73, 79]])) 7 512 = Some (dns_query 7 [[119, 119], [73, 79]])"
  using dns_query_correct [of "[[119, 119], [73, 79]]" 512 7]
  by (simp add: dns_label_def host_char_ok_def)

section \<open>Reading a known block from a buffer\<close>

definition has :: "buf \<Rightarrow> nat \<Rightarrow> bytes \<Rightarrow> bool" where
  "has p off xs \<longleftrightarrow> bufslice p off (length xs) = xs"

lemma has_simps [simp]:
  "has p off []" "has p off (x # xs) \<longleftrightarrow> p off = x \<and> has p (off + 1) xs"
  "has p off (xs @ ys) \<longleftrightarrow> has p off xs \<and> has p (off + length xs) ys"
proof -
  show "has p off []" by (simp add: has_def bufslice_def)
  show "has p off (x # xs) \<longleftrightarrow> p off = x \<and> has p (off + 1) xs" by (simp add: has_def bufslice_Cons)
  show "has p off (xs @ ys) \<longleftrightarrow> has p off xs \<and> has p (off + length xs) ys"
    by (simp add: has_def bufslice_append append_eq_append_conv)
qed

lemma has_at: "has (at p k) off xs \<longleftrightarrow> has p (k + off) xs"
  by (simp add: has_def bufslice_def at_def add.assoc)

lemma at_at: "at (at p j) k = at p (j + k)"
  by (simp add: at_def add.assoc)

lemma at_apply: "at p k i = p (k + i)"
  by (simp add: at_def)

lemma bufslice_at: "bufslice (at p k) off n = bufslice p (k + off) n"
  by (simp add: bufslice_def at_def add.assoc)

lemma has_bufslice: "has p off xs \<Longrightarrow> length xs = n \<Longrightarrow> bufslice p off n = xs"
  by (auto simp: has_def)

lemma has_rd16be: "has p off (wr16be v) \<Longrightarrow> rd16be (at p off) = v"
  by (rule rd_wr16be) (auto simp: has_def bufslice_def wr16be_def at_def)

lemma bytes_equal_iff: "n \<le> length a \<Longrightarrow> n \<le> length b \<Longrightarrow> bytes_equal a b n \<longleftrightarrow> take n a = take n b"
  by (induction a b n rule: bytes_equal.induct) auto

lemma has_buf_of: "has (buf_of (xs @ ys)) 0 xs"
  by (auto simp: has_def bufslice_def buf_of_def nth_append intro!: nth_equalityI)

end
