(* ===== verification/Port_IO.thy ===== *)
theory Port_IO
  imports Prelude
begin

text \<open>
  Port input and output, \<^verbatim>\<open>src/src/include/io.h\<close>.  The hardware behind the ports is not
  part of the program: a device is an argument of the definitions, a bundle of transition
  functions on a state of its own.  What a driver relies on is stated as a predicate on the
  device where the driver is verified.  The 16 and 32 bit accesses are an extension that only
  the network card and the PCI bus use.
\<close>

record 'd device =
  dev_in :: "nat \<Rightarrow> 'd \<Rightarrow> u8 \<times> 'd"
  dev_out :: "nat \<Rightarrow> u8 \<Rightarrow> 'd \<Rightarrow> 'd"

record 'd wide_device = "'d device" +
  dev_inw :: "nat \<Rightarrow> 'd \<Rightarrow> u16 \<times> 'd"
  dev_outw :: "nat \<Rightarrow> u16 \<Rightarrow> 'd \<Rightarrow> 'd"
  dev_inl :: "nat \<Rightarrow> 'd \<Rightarrow> u32 \<times> 'd"
  dev_outl :: "nat \<Rightarrow> u32 \<Rightarrow> 'd \<Rightarrow> 'd"

definition inb :: "('d, 'z) device_scheme \<Rightarrow> nat \<Rightarrow> 'd \<Rightarrow> u8 \<times> 'd" where
  "inb dv port d = dev_in dv port d"

definition outb :: "('d, 'z) device_scheme \<Rightarrow> nat \<Rightarrow> u8 \<Rightarrow> 'd \<Rightarrow> 'd" where
  "outb dv port v d = dev_out dv port v d"

definition inw :: "'d wide_device \<Rightarrow> nat \<Rightarrow> 'd \<Rightarrow> u16 \<times> 'd" where
  "inw dv port d = dev_inw dv port d"

definition outw :: "'d wide_device \<Rightarrow> nat \<Rightarrow> u16 \<Rightarrow> 'd \<Rightarrow> 'd" where
  "outw dv port v d = dev_outw dv port v d"

definition inl_port :: "'d wide_device \<Rightarrow> nat \<Rightarrow> 'd \<Rightarrow> u32 \<times> 'd" where
  "inl_port dv port d = dev_inl dv port d"

definition outl_port :: "'d wide_device \<Rightarrow> nat \<Rightarrow> u32 \<Rightarrow> 'd \<Rightarrow> 'd" where
  "outl_port dv port v d = dev_outl dv port v d"

end
