(* ===== verification/Network.thy ===== *)
theory Network
  imports Net_Format Port_IO
begin

text \<open>
  The network driver, \<^verbatim>\<open>src/src/drivers/network.c\<close>: the PCI probe, the NE2000 card behind
  its ports, and the ARP, IPv4, ICMP, UDP and DNS handlers on top of it.  The card is the
  device argument.  An operation works on the driver's variables and the device; one whose
  loops could run forever returns an option, with \<open>None\<close> for not returning.
\<close>

section \<open>State\<close>

record net =
  g_probe_done :: bool
  g_present :: bool
  g_net_ready :: bool
  g_pci_slot :: nat
  g_vendor_id :: u16
  g_device_id :: u16
  g_io_base :: nat
  g_mac :: bytes
  g_ip :: bytes
  g_gateway :: bytes
  g_netmask :: bytes
  g_arp_valid :: bool
  g_arp_ip :: bytes
  g_arp_mac :: bytes
  g_ping_waiting :: bool
  g_ping_reply :: bool
  g_ping_reply_ttl :: u8
  g_ping_reply_bytes :: nat
  g_ping_id :: u16
  g_ping_expected_seq :: u16
  g_ping_seq :: u16
  g_ping_target :: bytes
  g_ipv4_id :: u16
  g_dns_waiting :: bool
  g_dns_reply :: bool
  g_dns_reply_has_a :: bool
  g_dns_reply_ip :: bytes
  g_dns_expected_id :: u16
  g_dns_expected_src_port :: u16
  g_dns_src_port :: u16
  g_dns_next_id :: u16
  g_rx_buf :: bytes
  g_tx_buf :: bytes

text \<open>The initial values of the static variables.\<close>

definition net_boot :: net where
  "net_boot = \<lparr>g_probe_done = False, g_present = False, g_net_ready = False, g_pci_slot = 0, g_vendor_id = 0,
     g_device_id = 0, g_io_base = 0, g_mac = replicate 6 0, g_ip = [10, 0, 2, 15], g_gateway = [10, 0, 2, 2],
     g_netmask = [255, 255, 255, 0], g_arp_valid = False, g_arp_ip = replicate 4 0, g_arp_mac = replicate 6 0,
     g_ping_waiting = False, g_ping_reply = False, g_ping_reply_ttl = 0, g_ping_reply_bytes = 0,
     g_ping_id = 18511, g_ping_expected_seq = 0, g_ping_seq = 1, g_ping_target = replicate 4 0, g_ipv4_id = 1,
     g_dns_waiting = False, g_dns_reply = False, g_dns_reply_has_a = False, g_dns_reply_ip = replicate 4 0,
     g_dns_expected_id = 0, g_dns_expected_src_port = 0, g_dns_src_port = 53000, g_dns_next_id = 1,
     g_rx_buf = replicate 1600 0, g_tx_buf = replicate 1600 0\<rparr>"

definition g_dns_server :: bytes where "g_dns_server = [10, 0, 2, 3]"

definition PCI_CFG_ADDR :: nat where [const_defs]: "PCI_CFG_ADDR = 3320"
definition PCI_CFG_DATA :: nat where [const_defs]: "PCI_CFG_DATA = 3324"

text \<open>Register offsets and ring layout of the card.\<close>

definition NE_CR :: nat where [const_defs]: "NE_CR = 0"
definition NE_PSTART :: nat where [const_defs]: "NE_PSTART = 1"
definition NE_PSTOP :: nat where [const_defs]: "NE_PSTOP = 2"
definition NE_BNRY :: nat where [const_defs]: "NE_BNRY = 3"
definition NE_TPSR :: nat where [const_defs]: "NE_TPSR = 4"
definition NE_TBCR0 :: nat where [const_defs]: "NE_TBCR0 = 5"
definition NE_TBCR1 :: nat where [const_defs]: "NE_TBCR1 = 6"
definition NE_ISR :: nat where [const_defs]: "NE_ISR = 7"
definition NE_RSAR0 :: nat where [const_defs]: "NE_RSAR0 = 8"
definition NE_RSAR1 :: nat where [const_defs]: "NE_RSAR1 = 9"
definition NE_RBCR0 :: nat where [const_defs]: "NE_RBCR0 = 10"
definition NE_RBCR1 :: nat where [const_defs]: "NE_RBCR1 = 11"
definition NE_RCR :: nat where [const_defs]: "NE_RCR = 12"
definition NE_TCR :: nat where [const_defs]: "NE_TCR = 13"
definition NE_DCR :: nat where [const_defs]: "NE_DCR = 14"
definition NE_IMR :: nat where [const_defs]: "NE_IMR = 15"
definition NE_DATA :: nat where [const_defs]: "NE_DATA = 16"
definition NE_RESET :: nat where [const_defs]: "NE_RESET = 31"
definition NE_P1_PAR0 :: nat where [const_defs]: "NE_P1_PAR0 = 1"
definition NE_P1_CURR :: nat where [const_defs]: "NE_P1_CURR = 7"
definition NE_P1_MAR0 :: nat where [const_defs]: "NE_P1_MAR0 = 8"
definition NE_TX_START_PAGE :: nat where [const_defs]: "NE_TX_START_PAGE = 64"
definition NE_RX_START_PAGE :: nat where [const_defs]: "NE_RX_START_PAGE = 70"
definition NE_RX_STOP_PAGE :: nat where [const_defs]: "NE_RX_STOP_PAGE = 128"

section \<open>PCI probe\<close>

definition pci_addr :: "nat \<Rightarrow> nat \<Rightarrow> u32" where
  "pci_addr slot reg = 2147483648 OR push_bit 11 (word_of_nat slot) OR (word_of_nat reg AND 252)"

definition pci_read32_bus0 :: "'d wide_device \<Rightarrow> nat \<Rightarrow> nat \<Rightarrow> 'd \<Rightarrow> u32 \<times> 'd" where
  "pci_read32_bus0 dv slot reg d = inl_port dv PCI_CFG_DATA (outl_port dv PCI_CFG_ADDR (pci_addr slot reg) d)"

definition pci_write32_bus0 :: "'d wide_device \<Rightarrow> nat \<Rightarrow> nat \<Rightarrow> u32 \<Rightarrow> 'd \<Rightarrow> 'd" where
  "pci_write32_bus0 dv slot reg v d = outl_port dv PCI_CFG_DATA v (outl_port dv PCI_CFG_ADDR (pci_addr slot reg) d)"

fun probe_slots :: "'d wide_device \<Rightarrow> nat list \<Rightarrow> net \<times> 'd \<Rightarrow> bool \<times> net \<times> 'd" where
  "probe_slots dv [] (n, d) = (False, n\<lparr>g_present := False\<rparr>, d)"
| "probe_slots dv (slot # slots) (n, d) =
     (let (ident, d1) = pci_read32_bus0 dv slot 0 d;
          vendor = ucast (ident AND 65535) :: u16; dev = ucast (drop_bit 16 ident) :: u16
      in if vendor = 65535 then probe_slots dv slots (n, d1)
         else let (class_reg, d2) = pci_read32_bus0 dv slot 8 d1
      in if drop_bit 24 class_reg \<noteq> 2 then probe_slots dv slots (n, d2)
         else let (bar0, d3) = pci_read32_bus0 dv slot 16 d2
      in if bar0 AND 1 = 0 then probe_slots dv slots (n, d3)
         else let (cmd, d4) = pci_read32_bus0 dv slot 4 d3;
                  d5 = pci_write32_bus0 dv slot 4 (cmd OR 5) d4
      in (True, n\<lparr>g_pci_slot := slot, g_vendor_id := vendor, g_device_id := dev,
                  g_io_base := unat (bar0 AND 65532), g_present := True\<rparr>, d5))"

definition probe_ne2000_pci :: "'d wide_device \<Rightarrow> net \<times> 'd \<Rightarrow> bool \<times> net \<times> 'd" where
  "probe_ne2000_pci dv s = probe_slots dv [0..<32] s"

section \<open>The card\<close>

definition ne_port :: "net \<Rightarrow> nat \<Rightarrow> nat" where
  "ne_port n reg = w16 (g_io_base n + reg)"

definition ne_write :: "'d wide_device \<Rightarrow> nat \<Rightarrow> u8 \<Rightarrow> net \<times> 'd \<Rightarrow> net \<times> 'd" where
  "ne_write dv reg v s = (fst s, outb dv (ne_port (fst s) reg) v (snd s))"

definition ne_read :: "'d wide_device \<Rightarrow> nat \<Rightarrow> net \<times> 'd \<Rightarrow> u8 \<times> net \<times> 'd" where
  "ne_read dv reg s = (let (v, d) = inb dv (ne_port (fst s) reg) (snd s) in (v, fst s, d))"

fun ne_wait_isr :: "'d wide_device \<Rightarrow> u8 \<Rightarrow> nat \<Rightarrow> net \<times> 'd \<Rightarrow> bool \<times> net \<times> 'd" where
  "ne_wait_isr dv msk 0 s = (False, s)"
| "ne_wait_isr dv msk (Suc guard) s =
     (let (v, s1) = ne_read dv NE_ISR s
      in if v AND msk \<noteq> 0 then (True, s1) else ne_wait_isr dv msk guard s1)"

definition low_byte :: "nat \<Rightarrow> u8" where "low_byte v = byte_of_nat (v mod 256)"
definition high_byte :: "nat \<Rightarrow> u8" where "high_byte v = byte_of_nat (v div 256)"

text \<open>The register writes that start a transfer of \<open>xfer_len\<close> bytes at \<open>addr\<close>.\<close>

definition ne_dma_start :: "'d wide_device \<Rightarrow> nat \<Rightarrow> nat \<Rightarrow> u8 \<Rightarrow> net \<times> 'd \<Rightarrow> net \<times> 'd" where
  "ne_dma_start dv addr xfer_len cmd s =
     ne_write dv NE_CR cmd (ne_write dv NE_ISR 64
       (ne_write dv NE_RSAR1 (high_byte addr) (ne_write dv NE_RSAR0 (low_byte addr)
         (ne_write dv NE_RBCR1 (high_byte xfer_len) (ne_write dv NE_RBCR0 (low_byte xfer_len)
           (ne_write dv NE_CR 34 s))))))"

definition xfer_len :: "nat \<Rightarrow> nat" where
  "xfer_len len = w16 ((len + 1) div 2 * 2)"

fun ne_in_words :: "'d wide_device \<Rightarrow> nat \<Rightarrow> net \<times> 'd \<Rightarrow> bytes \<times> net \<times> 'd" where
  "ne_in_words dv 0 s = ([], s)"
| "ne_in_words dv (Suc k) s =
     (let (w, d1) = inw dv (ne_port (fst s) NE_DATA) (snd s);
          (bs, s2) = ne_in_words dv k (fst s, d1)
      in (ucast (w AND 255) # ucast (drop_bit 8 w) # bs, s2))"

text \<open>The bytes that \<open>ne_dma_read\<close> stores at its destination, and its return value.\<close>

definition ne_dma_read :: "'d wide_device \<Rightarrow> nat \<Rightarrow> nat \<Rightarrow> net \<times> 'd \<Rightarrow> bool \<times> bytes \<times> net \<times> 'd" where
  "ne_dma_read dv addr len s =
     (if len = 0 then (True, [], s)
      else let s1 = ne_dma_start dv addr (xfer_len len) 10 s;
               (bs, s2) = ne_in_words dv (xfer_len len div 2) s1;
               (ok, s3) = ne_wait_isr dv 64 200000 s2
      in if \<not> ok then (False, take len bs, s3) else (True, take len bs, ne_write dv NE_ISR 64 s3))"

fun ne_out_words :: "'d wide_device \<Rightarrow> bytes \<Rightarrow> net \<times> 'd \<Rightarrow> net \<times> 'd" where
  "ne_out_words dv [] s = s"
| "ne_out_words dv [a] s = (fst s, outw dv (ne_port (fst s) NE_DATA) (ucast a) (snd s))"
| "ne_out_words dv (a # b # bs) s =
     ne_out_words dv bs (fst s, outw dv (ne_port (fst s) NE_DATA) (ucast a OR push_bit 8 (ucast b)) (snd s))"

definition ne_dma_write :: "'d wide_device \<Rightarrow> nat \<Rightarrow> bytes \<Rightarrow> net \<times> 'd \<Rightarrow> bool \<times> net \<times> 'd" where
  "ne_dma_write dv addr src s =
     (if src = [] then (True, s)
      else let s1 = ne_dma_start dv addr (xfer_len (length src)) 18 s;
               s2 = ne_out_words dv src s1;
               (ok, s3) = ne_wait_isr dv 64 200000 s2
      in if \<not> ok then (False, s3) else (True, ne_write dv NE_ISR 64 s3))"

fun ne_tx_wait :: "'d wide_device \<Rightarrow> nat \<Rightarrow> net \<times> 'd \<Rightarrow> bool \<times> net \<times> 'd" where
  "ne_tx_wait dv 0 s = (False, s)"
| "ne_tx_wait dv (Suc guard) s =
     (let (isr, s1) = ne_read dv NE_ISR s
      in if isr AND 10 \<noteq> 0 then (isr AND 2 \<noteq> 0, ne_write dv NE_ISR 10 s1) else ne_tx_wait dv guard s1)"

definition ne_send_frame :: "'d wide_device \<Rightarrow> bytes \<Rightarrow> net \<times> 'd \<Rightarrow> bool \<times> net \<times> 'd" where
  "ne_send_frame dv frame s =
     (let len = length frame; tx_len = (if len < 60 then 60 else len)
      in if \<not> g_net_ready (fst s) \<or> len < 14 then (False, s)
         else if tx_len > 1600 then (False, s)
         else let data = frame @ replicate (tx_len - len) 0;
                  s1 = ((fst s)\<lparr>g_tx_buf := data @ drop tx_len (g_tx_buf (fst s))\<rparr>, snd s);
                  (ok, s2) = ne_dma_write dv (NE_TX_START_PAGE * 256) data s1
      in if \<not> ok then (False, s2)
         else ne_tx_wait dv 300000
                (ne_write dv NE_CR 38 (ne_write dv NE_ISR 10 (ne_write dv NE_TBCR1 (high_byte tx_len)
                  (ne_write dv NE_TBCR0 (low_byte tx_len) (ne_write dv NE_TPSR (byte_of_nat NE_TX_START_PAGE) s2))))))"

definition ne_curr_page :: "'d wide_device \<Rightarrow> net \<times> 'd \<Rightarrow> u8 \<times> net \<times> 'd" where
  "ne_curr_page dv s = (let (wpage, s1) = ne_read dv NE_P1_CURR (ne_write dv NE_CR 98 s) in (wpage, ne_write dv NE_CR 34 s1))"

section \<open>Sending\<close>

definition send_arp_reply :: "'d wide_device \<Rightarrow> bytes \<Rightarrow> bytes \<Rightarrow> net \<times> 'd \<Rightarrow> net \<times> 'd" where
  "send_arp_reply dv dst_mac dst_ip s =
     snd (ne_send_frame dv (build_arp_frame dst_mac 2 (g_mac (fst s)) (g_ip (fst s)) dst_mac dst_ip) s)"

definition send_arp_request :: "'d wide_device \<Rightarrow> bytes \<Rightarrow> net \<times> 'd \<Rightarrow> net \<times> 'd" where
  "send_arp_request dv target_ip s =
     snd (ne_send_frame dv (build_arp_frame (replicate 6 255) 1 (g_mac (fst s)) (g_ip (fst s)) (replicate 6 0) target_ip) s)"

definition route_next_hop :: "net \<Rightarrow> bytes \<Rightarrow> bytes" where
  "route_next_hop n dst_ip = (if ip_same_subnet (g_netmask n) dst_ip (g_ip n) then dst_ip else g_gateway n)"

text \<open>The twenty bytes of an IPv4 header with the given checksum field.\<close>

definition ip_header :: "nat \<Rightarrow> u16 \<Rightarrow> u8 \<Rightarrow> u16 \<Rightarrow> bytes \<Rightarrow> bytes \<Rightarrow> bytes" where
  "ip_header ip_len ident proto csum src dst =
     [69, 0] @ wr16be (word_of_nat ip_len) @ wr16be ident @ wr16be 0 @ [64, proto] @ wr16be csum @ src @ dst"

definition icmp_block :: "u8 \<Rightarrow> u16 \<Rightarrow> u16 \<Rightarrow> u16 \<Rightarrow> bytes \<Rightarrow> bytes" where
  "icmp_block icmp_type csum ident seq payload = [icmp_type, 0] @ wr16be csum @ wr16be ident @ wr16be seq @ payload"

definition icmp_frame :: "net \<Rightarrow> bytes \<Rightarrow> bytes \<Rightarrow> u8 \<Rightarrow> u16 \<Rightarrow> u16 \<Rightarrow> bytes \<Rightarrow> bytes" where
  "icmp_frame n dst_mac dst_ip icmp_type ident seq payload =
     (let ip_len = w16 (20 + 8 + length payload);
          ip = (\<lambda>c. ip_header ip_len (g_ipv4_id n) 1 c (g_ip n) dst_ip);
          icmp = (\<lambda>c. icmp_block icmp_type c ident seq payload)
      in dst_mac @ g_mac n @ wr16be 2048 @ ip (checksum16 (ip 0)) @ icmp (checksum16 (icmp 0)))"

definition send_icmp_packet ::
  "'d wide_device \<Rightarrow> bytes \<Rightarrow> bytes \<Rightarrow> u8 \<Rightarrow> u16 \<Rightarrow> u16 \<Rightarrow> bytes \<Rightarrow> net \<times> 'd \<Rightarrow> bool \<times> net \<times> 'd" where
  "send_icmp_packet dv dst_mac dst_ip icmp_type ident seq payload s =
     (let n = fst s; frame_len = w16 (14 + w16 (20 + 8 + length payload))
      in if frame_len > 1600 then (False, s)
         else ne_send_frame dv (take frame_len (icmp_frame n dst_mac dst_ip icmp_type ident seq payload))
                (n\<lparr>g_ipv4_id := g_ipv4_id n + 1\<rparr>, snd s))"

definition udp_frame :: "net \<Rightarrow> bytes \<Rightarrow> bytes \<Rightarrow> u16 \<Rightarrow> u16 \<Rightarrow> bytes \<Rightarrow> bytes" where
  "udp_frame n dst_mac dst_ip src_port dst_port payload =
     (let udp_len = w16 (8 + length payload); ip_len = w16 (20 + udp_len);
          ip = (\<lambda>c. ip_header ip_len (g_ipv4_id n) 17 c (g_ip n) dst_ip)
      in dst_mac @ g_mac n @ wr16be 2048 @ ip (checksum16 (ip 0)) @
         wr16be src_port @ wr16be dst_port @ wr16be (word_of_nat udp_len) @ wr16be 0 @ payload)"

definition send_udp_packet ::
  "'d wide_device \<Rightarrow> bytes \<Rightarrow> bytes \<Rightarrow> u16 \<Rightarrow> u16 \<Rightarrow> bytes \<Rightarrow> net \<times> 'd \<Rightarrow> bool \<times> net \<times> 'd" where
  "send_udp_packet dv dst_mac dst_ip src_port dst_port payload s =
     (let n = fst s; frame_len = w16 (14 + w16 (20 + w16 (8 + length payload)))
      in if frame_len > 1600 then (False, s)
         else ne_send_frame dv (take frame_len (udp_frame n dst_mac dst_ip src_port dst_port payload))
                (n\<lparr>g_ipv4_id := g_ipv4_id n + 1\<rparr>, snd s))"

section \<open>Receiving\<close>

definition handle_arp_packet :: "'d wide_device \<Rightarrow> buf \<Rightarrow> nat \<Rightarrow> net \<times> 'd \<Rightarrow> net \<times> 'd" where
  "handle_arp_packet dv frame len s =
     (let n = fst s
      in if len < 28 then s
         else if rd16be (at frame 0) \<noteq> 1 then s
         else if rd16be (at frame 2) \<noteq> 2048 then s
         else if frame 4 \<noteq> 6 \<or> frame 5 \<noteq> 4 then s
         else let op = rd16be (at frame 6); sender_mac = bufslice frame 8 6; sender_ip = bufslice frame 14 4;
                  target_ip = bufslice frame 24 4
      in if op = 2 then
           (if bytes_equal target_ip (g_ip n) 4
            then (n\<lparr>g_arp_ip := sender_ip, g_arp_mac := sender_mac, g_arp_valid := True\<rparr>, snd s) else s)
         else if op = 1 \<and> bytes_equal target_ip (g_ip n) 4 then send_arp_reply dv sender_mac sender_ip s
         else s)"

text \<open>The question section: \<open>Some None\<close> is the early return for a malformed one.\<close>

fun dns_questions :: "buf \<Rightarrow> nat \<Rightarrow> nat \<Rightarrow> nat \<Rightarrow> nat option option" where
  "dns_questions msg len 0 off = Some (Some off)"
| "dns_questions msg len (Suc k) off =
     (case dns_skip_name msg len off of None \<Rightarrow> None
      | Some None \<Rightarrow> Some None
      | Some (Some off1) \<Rightarrow>
          if w16 (off1 + 4) > len then Some None else dns_questions msg len k (w16 (off1 + 4)))"

text \<open>The answer section: \<open>Some (Some ip)\<close> is the first address record, \<open>Some None\<close> that there is none.\<close>

fun dns_answers :: "buf \<Rightarrow> nat \<Rightarrow> nat \<Rightarrow> nat \<Rightarrow> bytes option option" where
  "dns_answers msg len 0 off = Some None"
| "dns_answers msg len (Suc k) off =
     (case dns_skip_name msg len off of None \<Rightarrow> None
      | Some None \<Rightarrow> Some None
      | Some (Some off1) \<Rightarrow>
          if w16 (off1 + 10) > len then Some None
          else let rtype = rd16be (at msg off1); class_code = rd16be (at msg (off1 + 2));
                   rdlen = unat (rd16be (at msg (off1 + 8))); off2 = w16 (off1 + 10)
          in if w16 (off2 + rdlen) > len then Some None
             else if rtype = 1 \<and> class_code = 1 \<and> rdlen = 4 then Some (Some (bufslice msg off2 4))
             else dns_answers msg len k (w16 (off2 + rdlen)))"

definition handle_dns_payload :: "buf \<Rightarrow> nat \<Rightarrow> u16 \<Rightarrow> u16 \<Rightarrow> net \<Rightarrow> net option" where
  "handle_dns_payload payload len src_port dst_port n =
     (if \<not> g_dns_waiting n then Some n
      else if src_port \<noteq> 53 then Some n
      else if dst_port \<noteq> g_dns_expected_src_port n then Some n
      else if len < 12 then Some (n\<lparr>g_dns_waiting := False\<rparr>)
      else if rd16be (at payload 0) \<noteq> g_dns_expected_id n then Some n
      else let flags = rd16be (at payload 2)
      in if flags AND 32768 = 0 then Some n
         else let qdcount = unat (rd16be (at payload 4)); ancount = unat (rd16be (at payload 6));
                  n1 = n\<lparr>g_dns_reply_has_a := False, g_dns_reply_ip := replicate 4 0\<rparr>
      in case dns_questions payload len qdcount 12 of None \<Rightarrow> None
         | Some None \<Rightarrow> Some (n1\<lparr>g_dns_reply := True, g_dns_waiting := False\<rparr>)
         | Some (Some off) \<Rightarrow>
             if flags AND 15 = 0 then
               (case dns_answers payload len ancount off of None \<Rightarrow> None
                | Some None \<Rightarrow> Some (n1\<lparr>g_dns_reply := True, g_dns_waiting := False\<rparr>)
                | Some (Some ip) \<Rightarrow>
                    Some (n1\<lparr>g_dns_reply_ip := ip, g_dns_reply_has_a := True, g_dns_reply := True, g_dns_waiting := False\<rparr>))
             else Some (n1\<lparr>g_dns_reply := True, g_dns_waiting := False\<rparr>))"

definition handle_udp_packet :: "buf \<Rightarrow> nat \<Rightarrow> net \<Rightarrow> net option" where
  "handle_udp_packet packet len n =
     (if len < 8 then Some n
      else let src_port = rd16be (at packet 0); dst_port = rd16be (at packet 2); udp_len = unat (rd16be (at packet 4))
      in if udp_len < 8 \<or> udp_len > len then Some n
         else handle_dns_payload (at packet 8) (w16 (udp_len - 8)) src_port dst_port n)"

definition handle_icmp :: "'d wide_device \<Rightarrow> bytes \<Rightarrow> buf \<Rightarrow> nat \<Rightarrow> nat \<Rightarrow> net \<times> 'd \<Rightarrow> net \<times> 'd" where
  "handle_icmp dv eth_src packet ihl total_len s =
     (let n = fst s; icmp = at packet ihl; icmp_len = w16 (total_len - ihl); src_ip = bufslice packet 12 4
      in if icmp_len < 8 then s
         else let icmp_type = icmp 0; ident = rd16be (at icmp 4); seq = rd16be (at icmp 6)
      in if icmp_type = 8 then
           snd (send_icmp_packet dv eth_src src_ip 0 ident seq (bufslice icmp 8 (icmp_len - 8)) s)
         else if icmp_type = 0 \<and> g_ping_waiting n then
           (if ident = g_ping_id n \<and> seq = g_ping_expected_seq n \<and> bytes_equal src_ip (g_ping_target n) 4
            then (n\<lparr>g_ping_reply_ttl := packet 8, g_ping_reply_bytes := w16 (icmp_len - 8), g_ping_reply := True,
                    g_ping_waiting := False\<rparr>, snd s)
            else s)
         else s)"

definition handle_ipv4_packet :: "'d wide_device \<Rightarrow> bytes \<Rightarrow> buf \<Rightarrow> nat \<Rightarrow> net \<times> 'd \<Rightarrow> (net \<times> 'd) option" where
  "handle_ipv4_packet dv eth_src packet len s =
     (let n = fst s
      in if len < 20 then Some s
         else let version = drop_bit 4 (packet 0); ihl = unat (packet 0 AND 15) * 4
      in if version \<noteq> 4 \<or> ihl < 20 \<or> len < ihl then Some s
         else let total_len0 = unat (rd16be (at packet 2))
      in if total_len0 < ihl then Some s
         else let total_len = (if total_len0 > len then len else total_len0)
      in if rd16be (at packet 6) AND 8191 \<noteq> 0 then Some s
         else if \<not> bytes_equal (bufslice packet 16 4) (g_ip n) 4 then Some s
         else if packet 9 = 17 then
           map_option (\<lambda>n'. (n', snd s)) (handle_udp_packet (at packet ihl) (w16 (total_len - ihl)) n)
         else if packet 9 \<noteq> 1 then Some s
         else Some (handle_icmp dv eth_src packet ihl total_len s))"

definition handle_ethernet_frame :: "'d wide_device \<Rightarrow> buf \<Rightarrow> nat \<Rightarrow> net \<times> 'd \<Rightarrow> (net \<times> 'd) option" where
  "handle_ethernet_frame dv frame len s =
     (if len < 14 then Some s
      else let dst_mac = bufslice frame 0 6; src_mac = bufslice frame 6 6; eth_type = rd16be (at frame 12)
      in if \<not> bytes_equal dst_mac (g_mac (fst s)) 6 \<and> \<not> is_broadcast_mac dst_mac then Some s
         else let payload = at frame 14; payload_len = w16 (len - 14)
      in if eth_type = 2054 then Some (handle_arp_packet dv payload payload_len s)
         else if eth_type = 2048 then handle_ipv4_packet dv src_mac payload payload_len s
         else Some s)"

text \<open>Writing received bytes over a buffer from an offset.\<close>

definition overlay :: "bytes \<Rightarrow> nat \<Rightarrow> bytes \<Rightarrow> bytes" where
  "overlay old off bs = take off old @ bs @ drop (off + length bs) old"

definition next_rx_page :: "nat \<Rightarrow> nat" where
  "next_rx_page p = (if (p + 1) mod 256 \<ge> NE_RX_STOP_PAGE then NE_RX_START_PAGE else (p + 1) mod 256)"

text \<open>Reading a frame of the ring into \<open>g_rx_buf\<close>, in two parts where it wraps around the end of the ring.\<close>

definition ne_fetch :: "'d wide_device \<Rightarrow> nat \<Rightarrow> nat \<Rightarrow> net \<times> 'd \<Rightarrow> net \<times> 'd" where
  "ne_fetch dv page frame_len s =
     (let start_addr = w16 (page * 256 + 4); ring_end = NE_RX_STOP_PAGE * 256
      in if start_addr + frame_len \<le> ring_end then
           (let (ok, bs, n1, d1) = ne_dma_read dv start_addr frame_len s
            in (n1\<lparr>g_rx_buf := overlay (g_rx_buf n1) 0 bs\<rparr>, d1))
         else let first = w16 (ring_end - start_addr); second = w16 (frame_len - first);
                  (ok1, bs1, n1, d1) = ne_dma_read dv start_addr first s;
                  (ok2, bs2, n2, d2) = ne_dma_read dv (NE_RX_START_PAGE * 256) second
                    (n1\<lparr>g_rx_buf := overlay (g_rx_buf n1) 0 bs1\<rparr>, d1)
            in (n2\<lparr>g_rx_buf := overlay (g_rx_buf n2) first bs2\<rparr>, d2))"

text \<open>One round of the receive loop, after the page has been found to differ from the card's write page.\<close>

definition ne_receive_one :: "'d wide_device \<Rightarrow> nat \<Rightarrow> nat \<Rightarrow> net \<times> 'd \<Rightarrow> (bool \<times> net \<times> 'd) option" where
  "ne_receive_one dv wpage page s =
     (let (ok, hdr, s1) = ne_dma_read dv (page * 256) 4 s
      in if \<not> ok then Some (False, s1)
         else let status = hdr ! 0; next0 = unat (hdr ! 1); count = unat (hdr ! 2) + 256 * unat (hdr ! 3);
                  next1 = (if next0 < NE_RX_START_PAGE \<or> next0 \<ge> NE_RX_STOP_PAGE then wpage else next0);
                  next_page = (if next1 = page then next_rx_page page else next1);
                  r = (if status AND 1 \<noteq> 0 \<and> count \<ge> 4 then
                         (let frame_len = min (count - 4) 1600; s2 = ne_fetch dv page frame_len s1
                          in handle_ethernet_frame dv (buf_of (g_rx_buf (fst s2))) frame_len s2)
                       else Some s1);
                  bnry0 = (next_page + 255) mod 256;
                  new_bnry = (if bnry0 < NE_RX_START_PAGE then NE_RX_STOP_PAGE - 1 else bnry0)
      in case r of None \<Rightarrow> None | Some s3 \<Rightarrow> Some (True, ne_write dv NE_BNRY (byte_of_nat new_bnry) s3))"

partial_function (option) ne_receive_packets :: "'d wide_device \<Rightarrow> net \<times> 'd \<Rightarrow> (net \<times> 'd) option" where
  "ne_receive_packets dv s =
     (let (wpage, s1) = ne_curr_page dv s; (bnry, s2) = ne_read dv NE_BNRY s1; page = next_rx_page (unat bnry)
      in if page = unat wpage then Some s2
         else Option.bind (ne_receive_one dv (unat wpage) page s2)
                (\<lambda>(go_on, s3). if go_on then ne_receive_packets dv s3 else Some s3))"

section \<open>Initialisation\<close>

definition ne_writes :: "'d wide_device \<Rightarrow> (nat \<times> u8) list \<Rightarrow> net \<times> 'd \<Rightarrow> net \<times> 'd" where
  "ne_writes dv rvs s = fold (\<lambda>(r, v). ne_write dv r v) rvs s"

definition prom_mac :: "bytes \<Rightarrow> bytes" where
  "prom_mac prom =
     (let mac = map (\<lambda>i. prom ! (i * 2)) [0..<6]
      in if list_all (\<lambda>b. b = 0) mac then map (\<lambda>i. prom ! i) [0..<6] else mac)"

definition ne_hw_init :: "'d wide_device \<Rightarrow> net \<times> 'd \<Rightarrow> bool \<times> net \<times> 'd" where
  "ne_hw_init dv s =
     (let n = fst s
      in if \<not> g_present n \<or> g_io_base n = 0 then (False, s)
         else let (v, s1) = ne_read dv NE_RESET s; (ok, s2) = ne_wait_isr dv 128 200000 (ne_write dv NE_RESET v s1)
      in if \<not> ok then (False, s2)
         else let s3 = ne_writes dv [(NE_ISR, 255), (NE_CR, 33), (NE_DCR, 73), (NE_RBCR0, 0), (NE_RBCR1, 0), (NE_RCR, 32),
                         (NE_TCR, 2), (NE_TPSR, 64), (NE_PSTART, 70), (NE_BNRY, 70), (NE_PSTOP, 128), (NE_ISR, 255), (NE_IMR, 0)] s2;
                  (ok4, prom, n4, d4) = ne_dma_read dv 0 32 s3
      in if \<not> ok4 then (False, n4, d4)
         else let mac = prom_mac prom;
                  (n5, d5) = ne_writes dv ([(NE_CR, 97)] @ map (\<lambda>i. (NE_P1_PAR0 + i, mac ! i)) [0..<6] @
                     map (\<lambda>i. (NE_P1_MAR0 + i, 255)) [0..<8] @
                     [(NE_P1_CURR, 71), (NE_CR, 34), (NE_BNRY, 70), (NE_TCR, 0), (NE_RCR, 4), (NE_ISR, 255)]) (n4\<lparr>g_mac := mac\<rparr>, d4)
      in (True, n5\<lparr>g_net_ready := True, g_arp_valid := False, g_ping_waiting := False, g_ping_reply := False,
            g_ping_reply_ttl := 0, g_ping_reply_bytes := 0, g_dns_waiting := False, g_dns_reply := False,
            g_dns_reply_has_a := False, g_dns_reply_ip := replicate 4 0, g_dns_expected_id := 0,
            g_dns_expected_src_port := 0\<rparr>, d5))"

definition network_init :: "'d wide_device \<Rightarrow> net \<times> 'd \<Rightarrow> bool \<times> net \<times> 'd" where
  "network_init dv s =
     (if g_net_ready (fst s) then (True, s)
      else let s1 = (if \<not> g_probe_done (fst s) then snd (probe_ne2000_pci dv ((fst s)\<lparr>g_probe_done := True\<rparr>, snd s)) else s)
      in if \<not> g_present (fst s1) then (False, s1) else ne_hw_init dv s1)"

definition network_poll :: "'d wide_device \<Rightarrow> net \<times> 'd \<Rightarrow> (net \<times> 'd) option" where
  "network_poll dv s =
     (if \<not> g_net_ready (fst s) then Some s
      else let (isr, s1) = ne_read dv NE_ISR s;
               s2 = (if isr AND 16 \<noteq> 0 then ne_writes dv [(NE_CR, 33), (NE_BNRY, 70), (NE_CR, 34)] s1 else s1)
      in map_option (ne_write dv NE_ISR 255) (ne_receive_packets dv s2))"

record net_info =
  ni_present :: bool
  ni_ready :: bool
  ni_pci_slot :: nat
  ni_vendor_id :: u16
  ni_device_id :: u16
  ni_io_base :: nat
  ni_mac :: bytes
  ni_ip :: bytes
  ni_gateway :: bytes
  ni_netmask :: bytes

definition network_get_info :: "'d wide_device \<Rightarrow> net \<times> 'd \<Rightarrow> net_info \<times> net \<times> 'd" where
  "network_get_info dv s =
     (let s1 = (if \<not> g_probe_done (fst s) then snd (probe_ne2000_pci dv ((fst s)\<lparr>g_probe_done := True\<rparr>, snd s)) else s);
          n = fst s1
      in (\<lparr>ni_present = g_present n, ni_ready = g_net_ready n, ni_pci_slot = g_pci_slot n, ni_vendor_id = g_vendor_id n,
           ni_device_id = g_device_id n, ni_io_base = g_io_base n, ni_mac = g_mac n, ni_ip = g_ip n,
           ni_gateway = g_gateway n, ni_netmask = g_netmask n\<rparr>, s1))"

section \<open>Requests\<close>

definition arp_cached :: "net \<Rightarrow> bytes \<Rightarrow> bool" where
  "arp_cached n ip \<longleftrightarrow> g_arp_valid n \<and> bytes_equal (g_arp_ip n) ip 4"

fun arp_wait :: "'d wide_device \<Rightarrow> bytes \<Rightarrow> nat \<Rightarrow> net \<times> 'd \<Rightarrow> (bytes option \<times> net \<times> 'd) option" where
  "arp_wait dv ip 0 s = Some (None, s)"
| "arp_wait dv ip (Suc k) s =
     (case network_poll dv s of None \<Rightarrow> None
      | Some s1 \<Rightarrow> if arp_cached (fst s1) ip then Some (Some (g_arp_mac (fst s1)), s1) else arp_wait dv ip k s1)"

fun arp_attempts :: "'d wide_device \<Rightarrow> bytes \<Rightarrow> nat \<Rightarrow> nat \<Rightarrow> net \<times> 'd \<Rightarrow> (bytes option \<times> net \<times> 'd) option" where
  "arp_attempts dv ip wait_loops 0 s = Some (None, s)"
| "arp_attempts dv ip wait_loops (Suc k) s =
     (case arp_wait dv ip wait_loops (send_arp_request dv ip s) of None \<Rightarrow> None
      | Some (Some mac, s1) \<Rightarrow> Some (Some mac, s1)
      | Some (None, s1) \<Rightarrow> arp_attempts dv ip wait_loops k s1)"

definition arp_resolve :: "'d wide_device \<Rightarrow> bytes \<Rightarrow> nat \<Rightarrow> net \<times> 'd \<Rightarrow> (bytes option \<times> net \<times> 'd) option" where
  "arp_resolve dv ip wait_loops s =
     (if arp_cached (fst s) ip then Some (Some (g_arp_mac (fst s)), s) else arp_attempts dv ip wait_loops 3 s)"

record net_ping_result =
  pr_success :: bool
  pr_bytes :: nat
  pr_ttl :: u8
  pr_time_ms :: nat

definition ping_failed :: net_ping_result where
  "ping_failed = \<lparr>pr_success = False, pr_bytes = 0, pr_ttl = 0, pr_time_ms = 0\<rparr>"

fun ping_wait :: "'d wide_device \<Rightarrow> nat \<Rightarrow> nat \<Rightarrow> net \<times> 'd \<Rightarrow> (net_ping_result \<times> net \<times> 'd) option" where
  "ping_wait dv i 0 s = Some (ping_failed, (fst s)\<lparr>g_ping_waiting := False\<rparr>, snd s)"
| "ping_wait dv i (Suc k) s =
     (case network_poll dv s of None \<Rightarrow> None
      | Some s1 \<Rightarrow>
          if g_ping_reply (fst s1)
          then Some (\<lparr>pr_success = True, pr_bytes = g_ping_reply_bytes (fst s1), pr_ttl = g_ping_reply_ttl (fst s1),
                      pr_time_ms = i div 6000 + 1\<rparr>, s1)
          else ping_wait dv (i + 1) k s1)"

definition ping_payload :: bytes where
  "ping_payload = map (\<lambda>i. byte_of_nat (65 + i mod 26)) [0..<32]"

definition network_ping_ipv4 ::
  "'d wide_device \<Rightarrow> bytes option \<Rightarrow> nat \<Rightarrow> net \<times> 'd \<Rightarrow> (net_ping_result \<times> net \<times> 'd) option" where
  "network_ping_ipv4 dv dst timeout_loops s =
     (case dst of None \<Rightarrow> Some (ping_failed, s)
      | Some dst_ip \<Rightarrow>
         let (ok, s1) = network_init dv s
         in if \<not> ok then Some (ping_failed, s1)
            else if bytes_equal dst_ip (g_ip (fst s1)) 4
              then Some (\<lparr>pr_success = True, pr_bytes = 32, pr_ttl = 64, pr_time_ms = 0\<rparr>, s1)
            else case arp_resolve dv (route_next_hop (fst s1) dst_ip) 120000 s1 of None \<Rightarrow> None
            | Some (None, s2) \<Rightarrow> Some (ping_failed, s2)
            | Some (Some dst_mac, s2) \<Rightarrow>
                let n = fst s2; seq = g_ping_seq n;
                    n1 = n\<lparr>g_ping_seq := seq + 1, g_ping_waiting := True, g_ping_reply := False, g_ping_reply_ttl := 0,
                           g_ping_reply_bytes := 0, g_ping_expected_seq := seq, g_ping_target := dst_ip\<rparr>;
                    (sent, s3) = send_icmp_packet dv dst_mac dst_ip 8 (g_ping_id n) seq ping_payload (n1, snd s2)
                in if \<not> sent then Some (ping_failed, (fst s3)\<lparr>g_ping_waiting := False\<rparr>, snd s3)
                   else ping_wait dv 0 timeout_loops s3)"

record net_dns_result =
  dr_success :: bool
  dr_ip :: bytes
  dr_time_ms :: nat

definition dns_failed :: net_dns_result where
  "dns_failed = \<lparr>dr_success = False, dr_ip = replicate 4 0, dr_time_ms = 0\<rparr>"

fun dns_wait :: "'d wide_device \<Rightarrow> nat \<Rightarrow> nat \<Rightarrow> net \<times> 'd \<Rightarrow> (net_dns_result \<times> net \<times> 'd) option" where
  "dns_wait dv i 0 s = Some (dns_failed, (fst s)\<lparr>g_dns_waiting := False\<rparr>, snd s)"
| "dns_wait dv i (Suc k) s =
     (case network_poll dv s of None \<Rightarrow> None
      | Some s1 \<Rightarrow>
          if \<not> g_dns_waiting (fst s1) then
            (if g_dns_reply (fst s1) \<and> g_dns_reply_has_a (fst s1)
             then Some (\<lparr>dr_success = True, dr_ip = g_dns_reply_ip (fst s1), dr_time_ms = i div 6000 + 1\<rparr>, s1)
             else Some (dns_failed, s1))
          else dns_wait dv (i + 1) k s1)"

text \<open>The host name copied into the 128-byte buffer.\<close>

definition dns_host :: "bytes \<Rightarrow> bytes" where
  "dns_host host = take 127 (takeWhile (\<lambda>c. c \<noteq> chr_sp) (dropWhile (\<lambda>c. c = chr_sp) host))"

text \<open>The next query identifier, which is never zero, and the next source port.\<close>

definition dns_take_id :: "net \<Rightarrow> u16 \<times> net" where
  "dns_take_id n =
     (let i = g_dns_next_id n
      in if i = 0 then (i + 1, n\<lparr>g_dns_next_id := i + 2\<rparr>) else (i, n\<lparr>g_dns_next_id := i + 1\<rparr>))"

definition dns_take_port :: "net \<Rightarrow> u16 \<times> net" where
  "dns_take_port n =
     (let p = (if g_dns_src_port n < 53000 \<or> g_dns_src_port n > 53999 then 53000 else g_dns_src_port n)
      in (p, n\<lparr>g_dns_src_port := (if p + 1 > 53999 then 53000 else p + 1)\<rparr>))"

definition network_dns_resolve_a ::
  "'d wide_device \<Rightarrow> bytes option \<Rightarrow> nat \<Rightarrow> net \<times> 'd \<Rightarrow> (net_dns_result \<times> net \<times> 'd) option" where
  "network_dns_resolve_a dv host timeout_loops s =
     (case host of None \<Rightarrow> Some (dns_failed, s)
      | Some h \<Rightarrow>
         let host_buf = dns_host h
         in if host_buf = [] then Some (dns_failed, s)
            else let (ok, s1) = network_init dv s
         in if \<not> ok then Some (dns_failed, s1)
            else if strcmp_l host_buf (lit ''localhost'') = 0
              then Some (\<lparr>dr_success = True, dr_ip = g_ip (fst s1), dr_time_ms = 0\<rparr>, s1)
            else case network_parse_ipv4 (Some host_buf) of
              Some ip \<Rightarrow> Some (\<lparr>dr_success = True, dr_ip = ip, dr_time_ms = 0\<rparr>, s1)
            | None \<Rightarrow>
               (case arp_resolve dv (route_next_hop (fst s1) g_dns_server) 120000 s1 of None \<Rightarrow> None
                | Some (None, s2) \<Rightarrow> Some (dns_failed, s2)
                | Some (Some dst_mac, s2) \<Rightarrow>
                   let (dns_id, n1) = dns_take_id (fst s2); (src_port, n2) = dns_take_port n1
                   in case build_dns_query (Some host_buf) dns_id 512 of None \<Rightarrow> Some (dns_failed, n2, snd s2)
                      | Some query \<Rightarrow>
                          let n3 = n2\<lparr>g_dns_waiting := True, g_dns_reply := False, g_dns_reply_has_a := False,
                                 g_dns_reply_ip := replicate 4 0, g_dns_expected_id := dns_id, g_dns_expected_src_port := src_port\<rparr>;
                              (sent, s3) = send_udp_packet dv dst_mac g_dns_server src_port 53 query (n3, snd s2)
                          in if \<not> sent then Some (dns_failed, (fst s3)\<lparr>g_dns_waiting := False\<rparr>, snd s3)
                             else dns_wait dv 0 timeout_loops s3))"

section \<open>Frames are read within their length, and handling them returns\<close>

definition agree :: "nat \<Rightarrow> buf \<Rightarrow> buf \<Rightarrow> bool" where
  "agree len p q \<longleftrightarrow> (\<forall>i < len. p i = q i)"

lemma agree_at: "agree len p q \<Longrightarrow> agree (len - k) (at p k) (at q k)"
  by (simp add: agree_def at_def)

lemma agree_le: "agree len p q \<Longrightarrow> k \<le> len \<Longrightarrow> agree k p q"
  by (simp add: agree_def)

lemma agree_nth: "agree len p q \<Longrightarrow> i < len \<Longrightarrow> p i = q i"
  by (simp add: agree_def)

lemma agree_bufslice: "agree len p q \<Longrightarrow> off + n \<le> len \<Longrightarrow> bufslice p off n = bufslice q off n"
  by (simp add: agree_def bufslice_def)

lemma agree_rd16be: "agree len p q \<Longrightarrow> off + 2 \<le> len \<Longrightarrow> rd16be (at p off) = rd16be (at q off)"
  by (simp add: agree_def rd16be_def at_def)

lemma dns_skip_agree:
  assumes "agree len p q" and "len \<le> 65000"
  shows "guard \<le> len \<Longrightarrow> dns_skip_loop p len off guard = dns_skip_loop q len off guard"
proof (induction "len - guard" arbitrary: off guard rule: less_induct)
  case less
  show ?case
  proof (cases "off < len")
    case True
    then have e: "p off = q off" using agree_nth [OF assms(1)] by simp
    have lt: "unat (q off) < 256" by simp
    have "dns_skip_loop p len (w16 (w16 (off + 1) + unat (q off))) (w16 (guard + 1)) =
        dns_skip_loop q len (w16 (w16 (off + 1) + unat (q off))) (w16 (guard + 1))" if "w16 (guard + 1) \<le> len"
    proof (cases "guard + 1 \<le> len")
      case True
      then show ?thesis using assms(2) by (intro less) auto
    next
      case False
      then show ?thesis using that less.prems assms(2) by simp
    qed
    then show ?thesis using True e
      by (subst (1 2) dns_skip_loop.simps) (simp add: Let_def not_less)
  qed (simp add: dns_skip_loop.simps)
qed

lemma dns_skip_name_agree: "agree len p q \<Longrightarrow> len \<le> 65000 \<Longrightarrow> dns_skip_name p len off = dns_skip_name q len off"
  by (simp add: dns_skip_name_def dns_skip_agree)

lemma dns_skip_name_returns:
  assumes "len \<le> 65000"
  obtains "dns_skip_name msg len off = Some None"
  | off' where "dns_skip_name msg len off = Some (Some off')" "off < off'" "off' \<le> len"
proof -
  obtain r where "dns_skip_loop msg len off 0 = Some r" "case r of None \<Rightarrow> True | Some off' \<Rightarrow> off < off' \<and> off' \<le> len"
    using dns_skip_loop_returns [OF assms, of 0 msg off] by auto
  then show ?thesis using that by (cases r) (auto simp: dns_skip_name_def)
qed

lemma dns_questions_safe:
  assumes "agree len p q" and "len \<le> 65000"
  shows "dns_questions p len k off = dns_questions q len k off"
    and "\<exists>r. dns_questions q len k off = Some r \<and> (case r of None \<Rightarrow> True | Some off' \<Rightarrow> k = 0 \<and> off' = off \<or> off' \<le> len)"
proof -
  show "dns_questions p len k off = dns_questions q len k off"
    by (induction k arbitrary: off) (auto simp: dns_skip_name_agree [OF assms] split: option.splits)
  show "\<exists>r. dns_questions q len k off = Some r \<and> (case r of None \<Rightarrow> True | Some off' \<Rightarrow> k = 0 \<and> off' = off \<or> off' \<le> len)"
  proof (induction k arbitrary: off)
    case (Suc k)
    show ?case
    proof (cases rule: dns_skip_name_returns [OF assms(2), of q off])
      case (2 off')
      show ?thesis
      proof (cases "off' + 4 \<le> len")
        case True
        obtain r where "dns_questions q len k (off' + 4) = Some r"
          "case r of None \<Rightarrow> True | Some o' \<Rightarrow> k = 0 \<and> o' = off' + 4 \<or> o' \<le> len" using Suc.IH by blast
        then show ?thesis using 2 True assms(2) by (auto split: option.splits)
      qed (use 2 assms(2) in simp)
    qed simp
  qed simp
qed

lemma dns_answers_safe:
  assumes "agree len p q" and "len \<le> 65000"
  shows "dns_answers p len k off = dns_answers q len k off \<and> dns_answers q len k off \<noteq> None"
proof (induction k arbitrary: off)
  case (Suc k)
  show ?case
  proof (cases rule: dns_skip_name_returns [OF assms(2), of q off])
    case 1
    then show ?thesis using dns_skip_name_agree [OF assms, of off] by simp
  next
    case (2 off1)
    have w: "w16 (off1 + 10) = off1 + 10" using 2(3) assms(2) by simp
    show ?thesis
    proof (cases "off1 + 10 \<le> len")
      case True
      then have "rd16be (at p off1) = rd16be (at q off1)" "rd16be (at p (off1 + 2)) = rd16be (at q (off1 + 2))"
        "rd16be (at p (off1 + 8)) = rd16be (at q (off1 + 8))"
        using agree_rd16be [OF assms(1)] by simp_all
      moreover have "bufslice p (off1 + 10) 4 = bufslice q (off1 + 10) 4" if "w16 (off1 + 10 + 4) \<le> len"
        using that 2(3) assms(2) by (intro agree_bufslice [OF assms(1)]) simp
      ultimately show ?thesis
        using 2(1) dns_skip_name_agree [OF assms, of off] w Suc.IH by (auto simp: Let_def not_less)
    next
      case False
      then show ?thesis using 2(1) dns_skip_name_agree [OF assms, of off] w by simp
    qed
  qed
qed simp

lemma handle_dns_safe:
  assumes "agree len p q" and "len \<le> 65000"
  shows "handle_dns_payload p len sp dp n = handle_dns_payload q len sp dp n \<and> handle_dns_payload q len sp dp n \<noteq> None"
proof (cases "len < 12")
  case True
  then show ?thesis by (simp add: handle_dns_payload_def)
next
  case False
  then have "rd16be (at p 0) = rd16be (at q 0)" "rd16be (at p 2) = rd16be (at q 2)"
    "rd16be (at p 4) = rd16be (at q 4)" "rd16be (at p 6) = rd16be (at q 6)"
    using agree_rd16be [OF assms(1)] by simp_all
  moreover have ret: "dns_questions q len k off = None \<longleftrightarrow> False" "dns_answers q len k off = None \<longleftrightarrow> False" for k off
    using dns_questions_safe(2) [OF assms, of k off] dns_answers_safe [OF assms, of k off] by auto
  moreover have "dns_answers p len k off = dns_answers q len k off" for k off
    using dns_answers_safe [OF assms] by blast
  ultimately show ?thesis
    using dns_questions_safe(1) [OF assms]
    by (auto simp: handle_dns_payload_def Let_def ret split: option.splits)
qed

lemma handle_udp_safe:
  assumes "agree len p q" and "len \<le> 65000"
  shows "handle_udp_packet p len n = handle_udp_packet q len n \<and> handle_udp_packet q len n \<noteq> None"
proof (cases "len < 8")
  case True
  then show ?thesis by (simp add: handle_udp_packet_def)
next
  case False
  then have r: "rd16be (at p 0) = rd16be (at q 0)" "rd16be (at p 2) = rd16be (at q 2)" "rd16be (at p 4) = rd16be (at q 4)"
    using agree_rd16be [OF assms(1)] by simp_all
  let ?u = "unat (rd16be (at q 4))"
  show ?thesis
  proof (cases "?u < 8 \<or> ?u > len")
    case True
    then show ?thesis using False r by (auto simp: handle_udp_packet_def Let_def)
  next
    case ok: False
    have "agree (?u - 8) (at p 8) (at q 8)" by (rule agree_le [OF agree_at [OF assms(1), of 8]]) (use ok in linarith)
    moreover have b: "?u - 8 \<le> 65000" using ok assms(2) by linarith
    moreover have "w16 (?u - 8) = ?u - 8" using b by simp
    ultimately show ?thesis
      using handle_dns_safe [of "?u - 8" "at p 8" "at q 8"] ok False r
      by (simp add: handle_udp_packet_def Let_def)
  qed
qed

lemma handle_arp_agree:
  assumes "agree len p q"
  shows "handle_arp_packet dv p len s = handle_arp_packet dv q len s"
proof (cases "len < 28")
  case True
  then show ?thesis by (simp add: handle_arp_packet_def)
next
  case False
  have "rd16be (at p 0) = rd16be (at q 0)" "rd16be (at p 2) = rd16be (at q 2)" "rd16be (at p 6) = rd16be (at q 6)"
    "p 4 = q 4" "p 5 = q 5" "bufslice p 8 6 = bufslice q 8 6" "bufslice p 14 4 = bufslice q 14 4"
    "bufslice p 24 4 = bufslice q 24 4"
    using False by (simp_all add: agree_rd16be [OF assms] agree_nth [OF assms] agree_bufslice [OF assms])
  then show ?thesis by (simp only: handle_arp_packet_def Let_def)
qed

lemma handle_icmp_agree:
  assumes "agree len p q" and "20 \<le> ihl" and "ihl \<le> tlen" and "tlen \<le> len" and "len \<le> 65000"
  shows "handle_icmp dv src p ihl tlen s = handle_icmp dv src q ihl tlen s"
proof -
  have w: "w16 (tlen - ihl) = tlen - ihl" using assms by simp
  show ?thesis
  proof (cases "tlen - ihl < 8")
    case True
    then show ?thesis by (simp add: handle_icmp_def w Let_def)
  next
    case False
    have i: "agree (len - ihl) (at p ihl) (at q ihl)" by (rule agree_at [OF assms(1)])
    have "at p ihl 0 = at q ihl 0" "rd16be (at (at p ihl) 4) = rd16be (at (at q ihl) 4)"
      "rd16be (at (at p ihl) 6) = rd16be (at (at q ihl) 6)" "p 8 = q 8"
      "bufslice (at p ihl) 8 (tlen - ihl - 8) = bufslice (at q ihl) 8 (tlen - ihl - 8)"
      "bufslice p 12 4 = bufslice q 12 4"
      using assms False
      by (simp_all add: agree_rd16be [OF i] agree_nth [OF i] agree_bufslice [OF i] agree_nth [OF assms(1)]
          agree_bufslice [OF assms(1)])
    then show ?thesis by (simp only: handle_icmp_def w Let_def)
  qed
qed

lemma handle_ipv4_safe:
  assumes "agree len p q" and "len \<le> 65000"
  shows "handle_ipv4_packet dv src p len s = handle_ipv4_packet dv src q len s \<and> handle_ipv4_packet dv src q len s \<noteq> None"
proof (cases "len < 20")
  case True
  then show ?thesis by (simp add: handle_ipv4_packet_def Let_def)
next
  case False
  have r: "p 0 = q 0" "rd16be (at p 2) = rd16be (at q 2)" "rd16be (at p 6) = rd16be (at q 6)" "p 9 = q 9"
    "bufslice p 16 4 = bufslice q 16 4"
    using False by (simp_all add: agree_rd16be [OF assms(1)] agree_nth [OF assms(1)] agree_bufslice [OF assms(1)])
  let ?ihl = "unat (q 0 AND 15) * 4" and ?t0 = "unat (rd16be (at q 2))"
  define t where "t = (if ?t0 > len then len else ?t0)"
  show ?thesis
  proof (cases "?ihl < 20 \<or> len < ?ihl \<or> ?t0 < ?ihl")
    case True
    then show ?thesis using False r by (auto simp: handle_ipv4_packet_def Let_def)
  next
    case ok: False
    have tb: "?ihl \<le> t" "t \<le> len" using ok by (auto simp: t_def)
    have "agree (t - ?ihl) (at p ?ihl) (at q ?ihl)"
      by (rule agree_le [OF agree_at [OF assms(1)]]) (use tb in linarith)
    moreover have b: "t - ?ihl \<le> 65000" using tb assms(2) by linarith
    moreover have w: "w16 (t - ?ihl) = t - ?ihl" using b by simp
    ultimately have u: "handle_udp_packet (at p ?ihl) (w16 (t - ?ihl)) n = handle_udp_packet (at q ?ihl) (w16 (t - ?ihl)) n"
      "handle_udp_packet (at q ?ihl) (w16 (t - ?ihl)) n \<noteq> None" for n
      using handle_udp_safe [of "t - ?ihl" "at p ?ihl" "at q ?ihl" n] by simp_all
    have ic: "handle_icmp dv src p ?ihl t s = handle_icmp dv src q ?ihl t s"
      using handle_icmp_agree [OF assms(1) _ tb assms(2)] ok by simp
    show ?thesis
      by (simp only: handle_ipv4_packet_def Let_def r t_def [symmetric]) (use u ic in auto)
  qed
qed

text \<open>
  C14.  Handling a received frame is safe for every content: it returns (no name, question or
  answer of a DNS message makes it loop), and it reads no byte of the buffer behind the
  frame's length, since two buffers that agree on the frame give the same result.
\<close>

theorem handle_frame_safe:
  assumes "len \<le> 1600" and "agree len p q"
  shows "handle_ethernet_frame dv p len s = handle_ethernet_frame dv q len s \<and> handle_ethernet_frame dv p len s \<noteq> None"
proof (cases "len < 14")
  case True
  then show ?thesis by (simp add: handle_ethernet_frame_def)
next
  case False
  have r: "bufslice p 0 6 = bufslice q 0 6" "bufslice p 6 6 = bufslice q 6 6" "rd16be (at p 12) = rd16be (at q 12)"
    using False by (simp_all add: agree_rd16be [OF assms(2)] agree_bufslice [OF assms(2)])
  have pay: "agree (len - 14) (at p 14) (at q 14)" by (rule agree_at [OF assms(2)])
  have w: "w16 (len - 14) = len - 14" using assms(1) by simp
  show ?thesis
    using handle_arp_agree [OF pay, of dv s] handle_ipv4_safe [OF pay, of dv "bufslice q 6 6" s] assms(1) False r w
    by (simp add: handle_ethernet_frame_def Let_def)
qed

definition null_dev :: "unit wide_device" where
  "null_dev = \<lparr>dev_in = (\<lambda>_ d. (255, d)), dev_out = (\<lambda>_ _ d. d), dev_inw = (\<lambda>_ d. (0, d)), dev_outw = (\<lambda>_ _ d. d),
     dev_inl = (\<lambda>_ d. (0, d)), dev_outl = (\<lambda>_ _ d. d)\<rparr>"

theorem handle_frame_safe_witness:
  "handle_ethernet_frame null_dev (\<lambda>i. if i < 60 then 255 else 1) 60 (net_boot, ()) =
   handle_ethernet_frame null_dev (\<lambda>i. 255) 60 (net_boot, ())"
  using handle_frame_safe [of 60 "\<lambda>i. if i < 60 then 255 else 1" "\<lambda>i. 255" null_dev "(net_boot, ())"]
  by (simp add: agree_def)

section \<open>Exchanges between two hosts\<close>

definition host_ok :: "net \<Rightarrow> bool" where
  "host_ok n \<longleftrightarrow> length (g_mac n) = 6 \<and> length (g_ip n) = 4"

lemma length_ip_header: "length src = 4 \<Longrightarrow> length dst = 4 \<Longrightarrow> length (ip_header l i p c src dst) = 20"
  by (simp add: ip_header_def)

lemma unat_w16_id: "n < 65536 \<Longrightarrow> unat (word_of_nat n :: u16) = n"
  by (simp add: unat_of_nat)

text \<open>An IPv4 frame for this host reaches the handler of its protocol.\<close>

lemma ipv4_dispatch:
  assumes "host_ok n" and "length src_mac = 6" and "length src_ip = 4" and "length rest \<le> 1500"
    and b: "has b 0 (g_mac n @ src_mac @ wr16be 2048 @ ip_header (20 + length rest) ident proto c src_ip (g_ip n) @ rest)"
    and len: "34 + length rest \<le> len" "len \<le> 1600"
  shows "handle_ethernet_frame dv b len (n, d) =
      (if proto = 17 then map_option (\<lambda>n'. (n', d)) (handle_udp_packet (at b 34) (length rest) n)
       else if proto \<noteq> 1 then Some (n, d) else Some (handle_icmp dv src_mac (at b 14) 20 (20 + length rest) (n, d)))"
    and "has b 34 rest" and "bufslice (at b 14) 12 4 = src_ip" and "at b 14 8 = 64"
proof -
  have m: "length (g_mac n) = 6" "length (g_ip n) = 4" using assms(1) by (auto simp: host_ok_def)
  have p: "has b 0 (g_mac n)" "has b 6 src_mac" "has b 12 (wr16be 2048)" "b 14 = 69" "has b 16 (wr16be (word_of_nat (20 + length rest)))"
    "has b 20 (wr16be 0)" "b 22 = 64" "b 23 = proto" "has b 26 src_ip" "has b 30 (g_ip n)" "has b 34 rest"
    using b m assms(2,3) by (simp_all add: ip_header_def add.assoc)
  show "has b 34 rest" "bufslice (at b 14) 12 4 = src_ip" "at b 14 8 = 64"
    using p assms(3) by (auto simp: bufslice_at at_apply intro: has_bufslice)
  have fits: "\<not> len - 14 < 20 + length rest" using len by linarith
  have "bufslice b 0 6 = g_mac n" "bufslice b 6 6 = src_mac" "bufslice b 30 4 = g_ip n"
    using p m assms(2) has_bufslice by blast+
  moreover have "rd16be (at b 12) = 2048" "rd16be (at b 16) = word_of_nat (20 + length rest)" "rd16be (at b 20) = 0"
    using p has_rd16be by blast+
  moreover have "bytes_equal (g_mac n) (g_mac n) 6" "bytes_equal (g_ip n) (g_ip n) 4"
    using m by (simp_all add: bytes_equal_iff)
  moreover have "unat (word_of_nat (20 + length rest) :: u16) = 20 + length rest"
    using assms(4) by (intro unat_w16_id) simp
  ultimately show "handle_ethernet_frame dv b len (n, d) =
      (if proto = 17 then map_option (\<lambda>n'. (n', d)) (handle_udp_packet (at b 34) (length rest) n)
       else if proto \<noteq> 1 then Some (n, d) else Some (handle_icmp dv src_mac (at b 14) 20 (20 + length rest) (n, d)))"
    using len p assms(4) fits
    by (simp add: handle_ethernet_frame_def handle_ipv4_packet_def Let_def bufslice_at at_apply at_at del: of_nat_add)
qed

lemma icmp_fields:
  assumes "has b 34 (icmp_block ty c ident seq payload)"
  shows "b 34 = ty" and "rd16be (at b 38) = ident" and "rd16be (at b 40) = seq" and "bufslice b 42 (length payload) = payload"
  using assms by (auto simp: icmp_block_def has_rd16be intro: has_bufslice)

lemma icmp_dispatch:
  assumes "host_ok n" and "host_ok q" and "length payload \<le> 1400"
    and b: "has b 0 (icmp_frame q (g_mac n) (g_ip n) ty ident seq payload)"
    and len: "42 + length payload \<le> len" "len \<le> 1600"
  shows "handle_ethernet_frame dv b len (n, d) =
    Some (if ty = 8 then snd (send_icmp_packet dv (g_mac q) (g_ip q) 0 ident seq payload (n, d))
          else if ty = 0 \<and> g_ping_waiting n \<and> ident = g_ping_id n \<and> seq = g_ping_expected_seq n \<and>
              bytes_equal (g_ip q) (g_ping_target n) 4
            then (n\<lparr>g_ping_reply_ttl := 64, g_ping_reply_bytes := length payload, g_ping_reply := True,
                    g_ping_waiting := False\<rparr>, d)
          else (n, d))"
proof -
  define c1 where "c1 = checksum16 (ip_header (28 + length payload) (g_ipv4_id q) 1 0 (g_ip q) (g_ip n))"
  define c2 where "c2 = checksum16 (icmp_block ty 0 ident seq payload)"
  let ?rest = "icmp_block ty c2 ident seq payload"
  have len_rest: "length ?rest = 8 + length payload" by (simp add: icmp_block_def)
  have w: "w16 (28 + length payload) = 28 + length payload" using assms(3) by simp
  have f: "icmp_frame q (g_mac n) (g_ip n) ty ident seq payload =
      g_mac n @ g_mac q @ wr16be 2048 @ ip_header (20 + length ?rest) (g_ipv4_id q) 1 c1 (g_ip q) (g_ip n) @ ?rest"
    using w len_rest by (simp add: icmp_frame_def Let_def c1_def c2_def)
  have q: "length (g_mac q) = 6" "length (g_ip q) = 4" using assms(2) by (auto simp: host_ok_def)
  have b': "has b 0 (g_mac n @ g_mac q @ wr16be 2048 @ ip_header (20 + length ?rest) (g_ipv4_id q) 1 c1 (g_ip q) (g_ip n) @ ?rest)"
    using b unfolding f .
  have lr: "length ?rest \<le> 1500" "34 + length ?rest \<le> len" using assms(3) len len_rest by simp_all
  note d = ipv4_dispatch [OF assms(1) q lr(1) b' lr(2) len(2)]
  note fld = icmp_fields [OF d(2)]
  have wl: "w16 (20 + length ?rest - 20) = 8 + length payload" "w16 (length payload) = length payload"
    using len_rest assms(3) by simp_all
  show ?thesis
    unfolding d(1) using d(3,4) fld wl
    by (simp add: handle_icmp_def Let_def at_apply bufslice_at at_at)
qed

text \<open>
  The layout of an echo message on the wire, by the offsets and numbers of the standards: the
  Ethernet header, an IPv4 header of 20 bytes for the protocol ICMP without fragmentation and with
  the time to live 64, the ICMP header and the payload.  A checksum is right when the 16-bit words
  it covers add up to all ones in ones' complement, that is to a nonzero multiple of 65535.
\<close>

definition field16 :: "bytes \<Rightarrow> nat \<Rightarrow> nat" where
  "field16 f i = 256 * unat (f ! i) + unat (f ! (i + 1))"

definition sum_right :: "bytes \<Rightarrow> bool" where
  "sum_right bs \<longleftrightarrow> wsum bs \<noteq> 0 \<and> wsum bs mod 65535 = 0"

definition echo_wire :: "nat \<Rightarrow> bytes \<Rightarrow> bytes \<Rightarrow> bytes \<Rightarrow> bytes \<Rightarrow> nat \<Rightarrow> nat \<Rightarrow> bytes \<Rightarrow> bytes \<Rightarrow> bool" where
  "echo_wire ty to_mac from_mac from_ip to_ip ident seq payload f \<longleftrightarrow>
     length f = 42 + length payload \<and>
     take 6 f = to_mac \<and> take 6 (drop 6 f) = from_mac \<and> field16 f 12 = 0x0800 \<and>
     unat (f ! 14) = 0x45 \<and> field16 f 16 = 28 + length payload \<and> field16 f 20 = 0 \<and>
     unat (f ! 22) = 64 \<and> unat (f ! 23) = 1 \<and>
     take 4 (drop 26 f) = from_ip \<and> take 4 (drop 30 f) = to_ip \<and> sum_right (take 20 (drop 14 f)) \<and>
     unat (f ! 34) = ty \<and> unat (f ! 35) = 0 \<and> field16 f 38 = ident \<and> field16 f 40 = seq \<and>
     drop 42 f = payload \<and> sum_right (drop 34 f)"

lemma icmp_frame_length:
  "host_ok n \<Longrightarrow> length dmac = 6 \<Longrightarrow> length dip = 4 \<Longrightarrow> length (icmp_frame n dmac dip ty ident seq payload) = 42 + length payload"
  by (simp add: icmp_frame_def Let_def length_ip_header icmp_block_def host_ok_def)

lemma icmp_frame_wire:
  assumes "host_ok n" and "length dmac = 6" and "length dip = 4" and "length payload \<le> 1400"
  shows "echo_wire (unat ty) dmac (g_mac n) (g_ip n) dip (unat ident) (unat seq) payload (icmp_frame n dmac dip ty ident seq payload)"
proof -
  have l: "length (g_mac n) = 6" "length (g_ip n) = 4" using assms(1) by (auto simp: host_ok_def)
  define hd where "hd = [69, 0] @ wr16be (word_of_nat (28 + length payload)) @ wr16be (g_ipv4_id n) @ wr16be 0 @ [64, 1 :: u8]"
  define ip where "ip = hd @ wr16be (checksum16 (hd @ wr16be 0 @ g_ip n @ dip)) @ g_ip n @ dip"
  define ic where "ic = [ty, 0] @ wr16be (checksum16 ([ty, 0] @ wr16be 0 @ wr16be ident @ wr16be seq @ payload)) @
    wr16be ident @ wr16be seq @ payload"
  have w: "w16 (28 + length payload) = 28 + length payload" using assms(4) by simp
  have f: "icmp_frame n dmac dip ty ident seq payload = dmac @ g_mac n @ wr16be 2048 @ ip @ ic"
    using w by (simp add: icmp_frame_def Let_def ip_header_def icmp_block_def ip_def ic_def hd_def)
  have li: "length hd = 10" "length ip = 20" "length ic = 8 + length payload" using l assms(3) by (simp_all add: hd_def ip_def ic_def)
  have "checksum16 ip = 0" unfolding ip_def by (rule checksum_stored) (use l li assms(3) in simp_all)
  moreover have "checksum16 ic = 0" unfolding ic_def by (rule checksum_stored) (use assms(4) in simp_all)
  ultimately have sums: "sum_right ip" "sum_right ic"
    unfolding sum_right_def using checksum16_zero_iff [of ip] checksum16_zero_iff [of ic] li assms(4) by simp_all
  have u: "unat (word_of_nat (28 + length payload) :: u16) = 28 + length payload" using assms(4) by (intro unat_w16_id) simp
  show ?thesis
    unfolding echo_wire_def f using sums l li assms(2,3)
    by (simp add: field16_def nth_append unat_wr16be unat_wr16be(2) [unfolded One_nat_def] u ip_def hd_def ic_def del: of_nat_add of_nat_numeral)
qed

lemma send_icmp_frame:
  assumes "host_ok n" and "length dmac = 6" and "length dip = 4" and "length payload \<le> 1400"
  shows "send_icmp_packet dv dmac dip ty ident seq payload (n, d) =
    ne_send_frame dv (icmp_frame n dmac dip ty ident seq payload) (n\<lparr>g_ipv4_id := g_ipv4_id n + 1\<rparr>, d)"
proof -
  have "w16 (28 + length payload) = 28 + length payload" using assms(4) by simp
  then show ?thesis using icmp_frame_length [OF assms(1-3)] assms(4) by (simp add: send_icmp_packet_def Let_def)
qed

text \<open>
  C8.  Echo between two hosts: \<open>send_icmp_packet\<close> of a host puts an echo request on the wire
  that has the layout of the standards.  The host it is for, receiving it with any padding and
  any bytes behind it in the buffer, sends exactly one frame, an echo reply of that layout back to
  the requester with the same identifier, sequence number and payload.  The requester, in any state
  in which it waits for that answer, records success, the number of payload bytes and the time to
  live on receiving it.  In both frames the checksums of the IPv4 header and of the ICMP message
  are right.
\<close>

theorem ping_exchange:
  assumes "host_ok n" and "host_ok q" and "length payload \<le> 1400"
  shows "\<exists>f r.
    echo_wire 8 (g_mac n) (g_mac q) (g_ip q) (g_ip n) (unat ident) (unat seq) payload f \<and>
    echo_wire 0 (g_mac q) (g_mac n) (g_ip n) (g_ip q) (unat ident) (unat seq) payload r \<and>
    (\<forall>d. send_icmp_packet dv (g_mac n) (g_ip n) 8 ident seq payload (q, d) =
       ne_send_frame dv f (q\<lparr>g_ipv4_id := g_ipv4_id q + 1\<rparr>, d)) \<and>
    (\<forall>b len d. has b 0 f \<and> length f \<le> len \<and> len \<le> 1600 \<longrightarrow>
       handle_ethernet_frame dv b len (n, d) = Some (snd (ne_send_frame dv r (n\<lparr>g_ipv4_id := g_ipv4_id n + 1\<rparr>, d)))) \<and>
    (\<forall>b len q' d. has b 0 r \<and> length r \<le> len \<and> len \<le> 1600 \<and> g_mac q' = g_mac q \<and> g_ip q' = g_ip q \<and>
         g_ping_waiting q' \<and> g_ping_id q' = ident \<and> g_ping_expected_seq q' = seq \<and> g_ping_target q' = g_ip n \<longrightarrow>
       handle_ethernet_frame dv b len (q', d) =
         Some (q'\<lparr>g_ping_reply_ttl := 64, g_ping_reply_bytes := length payload, g_ping_reply := True, g_ping_waiting := False\<rparr>, d))"
proof -
  let ?f = "icmp_frame q (g_mac n) (g_ip n) 8 ident seq payload" and ?r = "icmp_frame n (g_mac q) (g_ip q) 0 ident seq payload"
  have l: "length (g_mac q) = 6" "length (g_ip q) = 4" "length (g_mac n) = 6" "length (g_ip n) = 4"
    using assms(1,2) by (auto simp: host_ok_def)
  have len: "length ?f = 42 + length payload" "length ?r = 42 + length payload"
    using icmp_frame_length assms(1,2) l by simp_all
  have wire: "echo_wire 8 (g_mac n) (g_mac q) (g_ip q) (g_ip n) (unat ident) (unat seq) payload ?f"
    "echo_wire 0 (g_mac q) (g_mac n) (g_ip n) (g_ip q) (unat ident) (unat seq) payload ?r"
    using icmp_frame_wire [OF assms(2) l(3,4) assms(3), of 8 ident seq] icmp_frame_wire [OF assms(1) l(1,2) assms(3), of 0 ident seq]
    by simp_all
  have get: "handle_ethernet_frame dv b k (n, d) = Some (snd (ne_send_frame dv ?r (n\<lparr>g_ipv4_id := g_ipv4_id n + 1\<rparr>, d)))"
    if "has b 0 ?f" "length ?f \<le> k" "k \<le> 1600" for b k d
    using icmp_dispatch [OF assms that(1) _ that(3), of dv d] that(2) len(1) send_icmp_frame [OF assms(1) l(1,2) assms(3), of dv] by simp
  have fin: "handle_ethernet_frame dv b k (q', d) =
      Some (q'\<lparr>g_ping_reply_ttl := 64, g_ping_reply_bytes := length payload, g_ping_reply := True, g_ping_waiting := False\<rparr>, d)"
    if "has b 0 ?r" "length ?r \<le> k" "k \<le> 1600" and same: "g_mac q' = g_mac q" "g_ip q' = g_ip q"
      and wait: "g_ping_waiting q'" "g_ping_id q' = ident" "g_ping_expected_seq q' = seq" "g_ping_target q' = g_ip n" for b k q' d
  proof -
    have "host_ok q'" using assms(2) same by (simp add: host_ok_def)
    moreover have "has b 0 (icmp_frame n (g_mac q') (g_ip q') 0 ident seq payload)" using that(1) same by simp
    moreover have "bytes_equal (g_ip n) (g_ping_target q') 4" using wait(4) l by (simp add: bytes_equal_iff)
    ultimately show ?thesis
      using icmp_dispatch [of q' n payload b 0 ident seq k dv d] assms(1,3) that(2,3) len(2) wait by simp
  qed
  show ?thesis
    using wire get fin send_icmp_frame [OF assms(2) l(3,4) assms(3), of dv]
    by (intro exI [of _ ?f] exI [of _ ?r] conjI allI impI) (blast | simp)+
qed

text \<open>Two hosts for the examples.\<close>

definition host_a :: net where
  "host_a = net_boot\<lparr>g_mac := [2, 0, 0, 0, 0, 1]\<rparr>"

definition host_b :: net where
  "host_b = net_boot\<lparr>g_mac := [2, 0, 0, 0, 0, 2], g_ip := [10, 0, 2, 16], g_ping_waiting := True, g_ping_id := 7,
     g_ping_expected_seq := 1, g_ping_target := [10, 0, 2, 15]\<rparr>"

lemma hosts_ok: "host_ok host_a" "host_ok host_b"
  by (simp_all add: host_ok_def host_a_def host_b_def net_boot_def)

theorem ping_exchange_witness:
  "\<exists>f r q'. echo_wire 8 [2, 0, 0, 0, 0, 1] [2, 0, 0, 0, 0, 2] [10, 0, 2, 16] [10, 0, 2, 15] 7 1 [104, 105] f \<and>
     echo_wire 0 [2, 0, 0, 0, 0, 2] [2, 0, 0, 0, 0, 1] [10, 0, 2, 15] [10, 0, 2, 16] 7 1 [104, 105] r \<and>
     handle_ethernet_frame null_dev (buf_of (f @ replicate 16 0)) 60 (host_a, ()) =
       Some (snd (ne_send_frame null_dev r (host_a\<lparr>g_ipv4_id := g_ipv4_id host_a + 1\<rparr>, ()))) \<and>
     handle_ethernet_frame null_dev (buf_of (r @ replicate 16 0)) 60 (host_b, ()) = Some (q', ()) \<and>
     g_ping_reply q' \<and> g_ping_reply_bytes q' = 2 \<and> g_ping_reply_ttl q' = 64"
proof -
  have w: "g_ping_waiting host_b" "g_ping_id host_b = 7" "g_ping_expected_seq host_b = 1" "g_ping_target host_b = g_ip host_a"
    by (simp_all add: host_a_def host_b_def net_boot_def)
  have a: "g_mac host_a = [2, 0, 0, 0, 0, 1]" "g_mac host_b = [2, 0, 0, 0, 0, 2]" "g_ip host_a = [10, 0, 2, 15]"
    "g_ip host_b = [10, 0, 2, 16]" by (simp_all add: host_a_def host_b_def net_boot_def)
  obtain f r where
    wire: "echo_wire 8 (g_mac host_a) (g_mac host_b) (g_ip host_b) (g_ip host_a) (unat (7 :: u16)) (unat (1 :: u16)) [104, 105] f"
      "echo_wire 0 (g_mac host_b) (g_mac host_a) (g_ip host_a) (g_ip host_b) (unat (7 :: u16)) (unat (1 :: u16)) [104, 105] r"
    and get: "\<forall>b len d. has b 0 f \<and> length f \<le> len \<and> len \<le> 1600 \<longrightarrow> handle_ethernet_frame null_dev b len (host_a, d) =
        Some (snd (ne_send_frame null_dev r (host_a\<lparr>g_ipv4_id := g_ipv4_id host_a + 1\<rparr>, d)))"
    and fin: "\<forall>b len q' d. has b 0 r \<and> length r \<le> len \<and> len \<le> 1600 \<and> g_mac q' = g_mac host_b \<and> g_ip q' = g_ip host_b \<and>
         g_ping_waiting q' \<and> g_ping_id q' = 7 \<and> g_ping_expected_seq q' = 1 \<and> g_ping_target q' = g_ip host_a \<longrightarrow>
       handle_ethernet_frame null_dev b len (q', d) =
         Some (q'\<lparr>g_ping_reply_ttl := 64, g_ping_reply_bytes := length [104 :: u8, 105], g_ping_reply := True, g_ping_waiting := False\<rparr>, d)"
    using ping_exchange [OF hosts_ok, of "[104, 105]" 7 1 null_dev] by auto
  have len: "length f \<le> 60" "length r \<le> 60" using wire by (simp_all add: echo_wire_def)
  have "handle_ethernet_frame null_dev (buf_of (f @ replicate 16 0)) 60 (host_a, ()) =
      Some (snd (ne_send_frame null_dev r (host_a\<lparr>g_ipv4_id := g_ipv4_id host_a + 1\<rparr>, ())))"
    using get len(1) has_buf_of [of f "replicate 16 0"] by auto
  moreover have "handle_ethernet_frame null_dev (buf_of (r @ replicate 16 0)) 60 (host_b, ()) =
      Some (host_b\<lparr>g_ping_reply_ttl := 64, g_ping_reply_bytes := length [104 :: u8, 105], g_ping_reply := True, g_ping_waiting := False\<rparr>, ())"
    using fin len(2) has_buf_of [of r "replicate 16 0"] w by auto
  ultimately show ?thesis using wire unfolding a by (intro exI [of _ f] exI [of _ r]) auto
qed

text \<open>
  Address resolution between two hosts: the owner of the requested address answers the
  broadcast request with its own address pair, sent to the asker; the asker that receives the
  answer resolves that address from then on to the owner's hardware address, without asking.
\<close>

lemma arp_exchange:
  assumes "host_ok n" and "host_ok q" and "42 \<le> len" and "len \<le> 1600"
    and "has b 0 (build_arp_frame (replicate 6 255) 1 (g_mac q) (g_ip q) (replicate 6 0) (g_ip n))"
    and "has b' 0 (build_arp_frame (g_mac q) 2 (g_mac n) (g_ip n) (g_mac q) (g_ip q))"
  shows "handle_ethernet_frame dv b len (n, d) =
      Some (snd (ne_send_frame dv (build_arp_frame (g_mac q) 2 (g_mac n) (g_ip n) (g_mac q) (g_ip q)) (n, d))) \<and>
    (\<exists>q'. handle_ethernet_frame dv b' len (q, d') = Some (q', d') \<and>
      arp_resolve dv (g_ip n) k (q', d') = Some (Some (g_mac n), q', d') \<and>
      q' = q\<lparr>g_arp_ip := g_ip n, g_arp_mac := g_mac n, g_arp_valid := True\<rparr>)"
proof -
  have l: "length (g_mac q) = 6" "length (g_ip q) = 4" "length (g_mac n) = 6" "length (g_ip n) = 4"
    using assms(1,2) by (auto simp: host_ok_def)
  have p: "has b 0 (replicate 6 255)" "has b 12 (wr16be 2054)" "has b 14 (wr16be 1)" "has b 16 (wr16be 2048)"
    "b 18 = 6" "b 19 = 4" "has b 20 (wr16be 1)" "has b 22 (g_mac q)" "has b 28 (g_ip q)" "has b 38 (g_ip n)"
    using assms(5) l by (simp_all add: build_arp_frame_def add.assoc)
  have p': "has b' 0 (g_mac q)" "has b' 12 (wr16be 2054)" "has b' 14 (wr16be 1)" "has b' 16 (wr16be 2048)"
    "b' 18 = 6" "b' 19 = 4" "has b' 20 (wr16be 2)" "has b' 22 (g_mac n)" "has b' 28 (g_ip n)" "has b' 38 (g_ip q)"
    using assms(6) l by (simp_all add: build_arp_frame_def add.assoc)
  have "rd16be (at b 12) = 2054" "rd16be (at b 14) = 1" "rd16be (at b 16) = 2048" "rd16be (at b 20) = 1"
    "bufslice b 0 6 = replicate 6 255" "bufslice b 22 6 = g_mac q" "bufslice b 28 4 = g_ip q" "bufslice b 38 4 = g_ip n"
    using p l by (auto intro: has_rd16be has_bufslice)
  moreover have eq: "bytes_equal (g_ip n) (g_ip n) 4" "bytes_equal (g_ip q) (g_ip q) 4" "bytes_equal (g_mac q) (g_mac q) 6"
    using l by (simp_all add: bytes_equal_iff)
  moreover have "is_broadcast_mac (replicate 6 255)" by (simp add: is_broadcast_mac_def)
  moreover have fits: "\<not> len - 14 < 28" "w16 (len - 14) = len - 14" using assms(3,4) by simp_all
  ultimately have 1: "handle_ethernet_frame dv b len (n, d) =
      Some (snd (ne_send_frame dv (build_arp_frame (g_mac q) 2 (g_mac n) (g_ip n) (g_mac q) (g_ip q)) (n, d)))"
    using assms(3) p
    by (simp add: handle_ethernet_frame_def handle_arp_packet_def send_arp_reply_def Let_def at_at at_apply bufslice_at)
  have "rd16be (at b' 12) = 2054" "rd16be (at b' 14) = 1" "rd16be (at b' 16) = 2048" "rd16be (at b' 20) = 2"
    "bufslice b' 0 6 = g_mac q" "bufslice b' 22 6 = g_mac n" "bufslice b' 28 4 = g_ip n" "bufslice b' 38 4 = g_ip q"
    using p' l by (auto intro: has_rd16be has_bufslice)
  then have "handle_ethernet_frame dv b' len (q, d') =
      Some (q\<lparr>g_arp_ip := g_ip n, g_arp_mac := g_mac n, g_arp_valid := True\<rparr>, d')"
    using assms(3) p' eq fits
    by (simp add: handle_ethernet_frame_def handle_arp_packet_def Let_def at_at at_apply bufslice_at)
  then show ?thesis using 1 eq by (simp add: arp_resolve_def arp_cached_def)
qed

theorem arp_exchange_witness:
  "\<exists>q'. handle_ethernet_frame null_dev
      (buf_of (build_arp_frame (g_mac host_b) 2 (g_mac host_a) (g_ip host_a) (g_mac host_b) (g_ip host_b) @ replicate 18 0)) 60 (host_b, ()) =
      Some (q', ()) \<and> arp_resolve null_dev (g_ip host_a) 0 (q', ()) = Some (Some [2, 0, 0, 0, 0, 1], q', ())"
proof -
  let ?f = "build_arp_frame (replicate 6 255) 1 (g_mac host_b) (g_ip host_b) (replicate 6 0) (g_ip host_a)"
  let ?g = "build_arp_frame (g_mac host_b) 2 (g_mac host_a) (g_ip host_a) (g_mac host_b) (g_ip host_b)"
  have "g_mac host_a = [2, 0, 0, 0, 0, 1]" by (simp add: host_a_def)
  then show ?thesis
    using arp_exchange [OF hosts_ok _ _ has_buf_of [of ?f "[]"] has_buf_of [of ?g "replicate 18 0"], of 60 null_dev "()" "()" 0]
    by auto
qed

section \<open>DNS answers\<close>

text \<open>A resource record whose name is a pointer to the question, and one that is not an address.\<close>

definition dns_record :: "u16 \<times> u16 \<times> bytes \<times> bytes \<Rightarrow> bytes" where
  "dns_record r = (case r of (rtype, cls, ttl, rdata) \<Rightarrow>
     [192, 12] @ wr16be rtype @ wr16be cls @ ttl @ wr16be (word_of_nat (length rdata)) @ rdata)"

definition other_record :: "u16 \<times> u16 \<times> bytes \<times> bytes \<Rightarrow> bool" where
  "other_record r \<longleftrightarrow> (case r of (rtype, cls, ttl, rdata) \<Rightarrow>
     length ttl = 4 \<and> length rdata < 65536 \<and> \<not> (rtype = 1 \<and> cls = 1 \<and> length rdata = 4))"

lemma dns_skip_pointer:
  assumes "b off = 192" and "off + 2 \<le> len" and "len \<le> 65000"
  shows "dns_skip_name b len off = Some (Some (off + 2))"
  using assms unfolding dns_skip_name_def by (subst dns_skip_loop.simps) simp

lemma dns_answers_record:
  assumes "has b off (dns_record (rtype, cls, ttl, rdata))" and "length ttl = 4" and "length rdata < 65536"
    and "off + 12 + length rdata \<le> len" and "len \<le> 65000"
  shows "dns_answers b len (Suc k) off =
    (if rtype = 1 \<and> cls = 1 \<and> length rdata = 4 then Some (Some rdata) else dns_answers b len k (off + 12 + length rdata))"
proof -
  have p: "b off = 192" "has b (off + 2) (wr16be rtype)" "has b (off + 4) (wr16be cls)"
    "has b (off + 10) (wr16be (word_of_nat (length rdata)))" "has b (off + 12) rdata"
    using assms(1,2) by (simp_all add: dns_record_def eval_nat_numeral)
  have "rd16be (at b (off + 2)) = rtype" "rd16be (at b (off + 2 + 2)) = cls"
    "rd16be (at b (off + 2 + 8)) = word_of_nat (length rdata)"
    using has_rd16be [OF p(2)] has_rd16be [OF p(3)] has_rd16be [OF p(4)] by (simp_all add: eval_nat_numeral)
  moreover have "bufslice b (off + 2 + 10) 4 = rdata" if "length rdata = 4"
    using has_bufslice [OF p(5) that] by (simp add: add.commute)
  moreover have "unat (word_of_nat (length rdata) :: u16) = length rdata" using assms(3) by (rule unat_w16_id)
  moreover have "dns_skip_name b len off = Some (Some (off + 2))"
    using p(1) assms(4,5) by (intro dns_skip_pointer) simp_all
  ultimately show ?thesis using assms(4,5) by (simp add: Let_def ac_simps)
qed

lemma dns_answers_skip:
  assumes "\<forall>r \<in> set rs. other_record r" and "has b off (concat (map dns_record rs) @ dns_record (1, 1, ttl, ip))"
    and "length ttl = 4" and "length ip = 4" and "off + length (concat (map dns_record rs)) + 16 \<le> len" and "len \<le> 65000"
  shows "dns_answers b len (Suc (length rs)) off = Some (Some ip)"
  using assms
proof (induction rs arbitrary: off)
  case Nil
  then show ?case using dns_answers_record [of b off 1 1 ttl ip len 0] by simp
next
  case (Cons r rs)
  obtain rtype cls t rd where r: "r = (rtype, cls, t, rd)" by (cases r) auto
  have oth: "length t = 4" "length rd < 65536" "\<not> (rtype = 1 \<and> cls = 1 \<and> length rd = 4)"
    using Cons.prems(1) r by (auto simp: other_record_def)
  have lr: "length (dns_record r) = 12 + length rd" using oth r by (simp add: dns_record_def)
  have "dns_answers b len (Suc (length (r # rs))) off = dns_answers b len (Suc (length rs)) (off + 12 + length rd)"
    using dns_answers_record [of b off rtype cls t rd len "Suc (length rs)"] oth Cons.prems(2,5,6) r lr by auto
  also have "\<dots> = Some (Some ip)"
    using Cons.prems lr by (intro Cons.IH) (auto simp: add.assoc)
  finally show ?case .
qed

definition dns_response :: "u16 \<Rightarrow> bytes list \<Rightarrow> (u16 \<times> u16 \<times> bytes \<times> bytes) list \<Rightarrow> bytes \<Rightarrow> bytes \<Rightarrow> bytes" where
  "dns_response ident ls rs ttl ip =
     wr16be ident @ wr16be 33152 @ wr16be 1 @ wr16be (word_of_nat (length rs + 1)) @ wr16be 0 @ wr16be 0 @
     enc_labels ls @ [0] @ wr16be 1 @ wr16be 1 @ concat (map dns_record rs) @ dns_record (1, 1, ttl, ip)"



end
