(* ===== verification/Net_Commands.thy ===== *)
theory Net_Commands
  imports File_Commands Calc Network
begin

text \<open>
  The shell commands that use the network, of \<^verbatim>\<open>src/src/commands\<close>:
  \<^verbatim>\<open>ifconfig.c\<close>, \<^verbatim>\<open>netstat.c\<close>, \<^verbatim>\<open>nslookup.c\<close>, \<^verbatim>\<open>ping.c\<close>,
  \<^verbatim>\<open>traceroute.c\<close>, \<^verbatim>\<open>telnet.c\<close>, \<^verbatim>\<open>curl.c\<close> and \<^verbatim>\<open>wget.c\<close>.
  Their state is the network stack with the device behind its ports, for \<open>wget\<close> also the disk.
\<close>

section \<open>Arguments and output\<close>

type_synonym 'd net_cmd = "'d wide_device \<Rightarrow> (net \<times> 'd) cmd"

definition print_ipv4 :: "bytes \<Rightarrow> bytes list" where
  "print_ipv4 ip =
     [itoa_text (ucast (ip ! 0)), [chr_dot], itoa_text (ucast (ip ! 1)), [chr_dot],
      itoa_text (ucast (ip ! 2)), [chr_dot], itoa_text (ucast (ip ! 3))]"

definition hex_digit :: "u8 \<Rightarrow> u8" where
  "hex_digit v = (let w = v AND 15 in if w < 10 then 48 + w else 65 + (w - 10))"

definition print_hex_byte :: "u8 \<Rightarrow> bytes" where
  "print_hex_byte b = [hex_digit (drop_bit 4 b), hex_digit b]"

text \<open>The first word of the arguments, cut to its array, and the rest behind the spaces.\<close>

definition host_word :: "nat \<Rightarrow> bytes \<Rightarrow> bytes" where
  "host_word sz p = take (sz - 1) (takeWhile (\<lambda>c. c \<noteq> chr_sp) p)"

definition rest_word :: "nat \<Rightarrow> nat \<Rightarrow> bytes \<Rightarrow> bytes" where
  "rest_word sz bsz p = take (bsz - 1) (skip_spaces (drop (length (host_word sz p)) p))"

definition target_of :: "bytes option \<Rightarrow> bytes" where
  "target_of args = (case args of None \<Rightarrow> [] | Some a \<Rightarrow> skip_spaces a)"

text \<open>The address of a host: a literal address, or the answer of the name server.\<close>

definition host_address :: "'d wide_device \<Rightarrow> bytes \<Rightarrow> net \<times> 'd \<Rightarrow> (bytes option \<times> net \<times> 'd) option" where
  "host_address dv host s =
     (case network_parse_ipv4 (Some host) of
        Some ip \<Rightarrow> Some (Some ip, s)
      | None \<Rightarrow> map_option (\<lambda>(r, s1). (if dr_success r then Some (dr_ip r) else None, s1))
                  (network_dns_resolve_a dv (Some host) 800000 s))"

definition reachable :: "'d wide_device \<Rightarrow> bytes \<Rightarrow> net \<times> 'd \<Rightarrow> (bool \<times> net \<times> 'd) option" where
  "reachable dv ip s = map_option (\<lambda>(r, s1). (pr_success r, s1)) (network_ping_ipv4 dv (Some ip) 600000 s)"

section \<open>Status\<close>

definition cmd_ifconfig :: "'d net_cmd" where
  "cmd_ifconfig dv args s =
     (let (info, s1) = network_get_info dv (fst s)
      in if \<not> ni_present info then Some (say [lit ''No network adapter found'' @ [10]] (s1, snd s))
         else Some (say ([lit ''iface0: '', if ni_ready info then lit ''UP'' @ [10] else lit ''DOWN'' @ [10], lit ''MAC: ''] @
           concat (map (\<lambda>i. (if i > 0 then [[58]] else []) @ [print_hex_byte (ni_mac info ! i)]) [0..<6]) @
           [[10] @ lit ''IP: ''] @ print_ipv4 (ni_ip info) @ [[10] @ lit ''Mask: ''] @ print_ipv4 (ni_netmask info) @
           [[10] @ lit ''Gateway: ''] @ print_ipv4 (ni_gateway info) @
           [[10] @ lit ''IO Base: 0x'', utoa_text (word_of_nat (ni_io_base info)) 16,
            [10] @ lit ''PCI Slot: '', itoa_text (word_of_nat (ni_pci_slot info)), [10]]) (s1, snd s)))"

definition cmd_netstat :: "'d net_cmd" where
  "cmd_netstat dv args s =
     (let (info, s1) = network_get_info dv (fst s)
      in Some (say ([lit ''Network status'' @ [10], lit ''  Adapter: '',
           if ni_present info then lit ''present'' @ [10] else lit ''missing'' @ [10]] @
           (if ni_present info
            then [lit ''  Link: '', if ni_ready info then lit ''ready'' @ [10] else lit ''not ready'' @ [10], lit ''  Local IP: ''] @
              print_ipv4 (ni_ip info) @ [[10]]
            else []) @
           [[10] @ lit ''Active sockets'' @ [10], lit ''  unavailable (TCP/UDP socket table API not exposed yet)'' @ [10]])
         (s1, snd s)))"

section \<open>Name lookup and echo requests\<close>

definition cmd_nslookup :: "'d net_cmd" where
  "cmd_nslookup dv args s =
     (let p = target_of args
      in if p = [] then Some (say [lit ''Usage: nslookup <hostname>'' @ [10]] s)
         else let host = host_word 128 p; (n1, t1) = say [lit ''Resolving '', host, lit ''...'' @ [10]] s
         in map_option
              (\<lambda>(r, n2). case r of
                 Some ip \<Rightarrow> say ([lit ''Address: ''] @ print_ipv4 ip @ [[10]]) (n2, t1)
               | None \<Rightarrow> say [lit ''Name resolution failed'' @ [10]] (n2, t1))
              (host_address dv host n1))"

text \<open>The loop of \<open>parse_count\<close>; the sum is a 32-bit \<open>int\<close>.\<close>

fun count_digits :: "int \<Rightarrow> bytes \<Rightarrow> int option" where
  "count_digits v [] = Some v"
| "count_digits v (c # cs) = (if c < 48 \<or> c > 57 then None else count_digits (wrap32 (v * 10 + (int (unat c) - 48))) cs)"

definition parse_count :: "bytes \<Rightarrow> int \<Rightarrow> int" where
  "parse_count s fallback =
     (if s = [] then fallback
      else case count_digits 0 s of None \<Rightarrow> fallback | Some v \<Rightarrow> if v \<le> 0 then fallback else v)"

definition ping_line :: "bytes \<Rightarrow> net_ping_result \<Rightarrow> bytes list" where
  "ping_line ip r =
     [lit ''reply from ''] @ print_ipv4 ip @
     [lit '': bytes='', itoa_text (word_of_nat (pr_bytes r)), lit '' ttl='', itoa_text (ucast (pr_ttl r)),
      lit '' time='', itoa_text (word_of_nat (pr_time_ms r)), lit ''ms'' @ [10]]"

text \<open>The rounds of \<open>cmd_ping\<close>: the number of replies and the new state.\<close>

fun ping_rounds :: "'d wide_device \<Rightarrow> bytes \<Rightarrow> nat \<Rightarrow> (net \<times> 'd) \<times> terminal \<Rightarrow> (nat \<times> (net \<times> 'd) \<times> terminal) option" where
  "ping_rounds dv ip 0 s = Some (0, s)"
| "ping_rounds dv ip (Suc k) s =
     (case network_ping_ipv4 dv (Some ip) 600000 (fst s) of
        None \<Rightarrow> None
      | Some (r, n1) \<Rightarrow>
          map_option (\<lambda>(got, s2). ((if pr_success r then 1 else 0) + got, s2))
            (ping_rounds dv ip k
               (say (if pr_success r then ping_line ip r else [lit ''request timed out'' @ [10]]) (n1, snd s))))"

definition cmd_ping :: "'d net_cmd" where
  "cmd_ping dv args s =
     (let p = target_of args
      in if p = [] then Some (say [lit ''Usage: ping <ip|host> [count]'' @ [10]] s)
         else let host = host_word 128 p; count0 = parse_count (rest_word 128 16 p) 4;
                  cnt = (if count0 > 10 then 10 else count0)
         in Option.bind (host_address dv host (fst s)) (\<lambda>(a, n1).
            case a of
              None \<Rightarrow> Some (say [lit ''ping: cannot resolve host'' @ [10]] (n1, snd s))
            | Some ip \<Rightarrow>
                map_option
                  (\<lambda>(got, s2). say [lit ''Ping statistics: sent='', itoa_text (word_of_int cnt), lit '' received='',
                       itoa_text (word_of_nat got), lit '' lost='', itoa_text (word_of_int (cnt - int got)), [10]] s2)
                  (ping_rounds dv ip (nat cnt)
                     (say ([lit ''Pinging ''] @ print_ipv4 ip @ [lit '' with 32 bytes of data:'' @ [10]]) (n1, snd s)))))"

fun probe_rounds :: "'d wide_device \<Rightarrow> bytes \<Rightarrow> nat \<Rightarrow> (net \<times> 'd) \<times> terminal \<Rightarrow> (nat \<times> (net \<times> 'd) \<times> terminal) option" where
  "probe_rounds dv ip 0 s = Some (0, s)"
| "probe_rounds dv ip (Suc k) s =
     (case network_ping_ipv4 dv (Some ip) 600000 (fst s) of
        None \<Rightarrow> None
      | Some (r, n1) \<Rightarrow>
          map_option (\<lambda>(got, s2). ((if pr_success r then 1 else 0) + got, s2))
            (probe_rounds dv ip k
               (say (if pr_success r then [itoa_text (word_of_nat (pr_time_ms r)), lit ''ms ''] else [lit ''* '']) (n1, snd s))))"

definition cmd_traceroute :: "'d net_cmd" where
  "cmd_traceroute dv args s =
     (let p = target_of args
      in if p = [] then Some (say [lit ''Usage: traceroute <ip|host>'' @ [10]] s)
         else let host = host_word 128 p
         in Option.bind (host_address dv host (fst s)) (\<lambda>(a, n1).
            case a of
              None \<Rightarrow> Some (say [lit ''traceroute: cannot resolve host'' @ [10]] (n1, snd s))
            | Some ip \<Rightarrow>
                map_option
                  (\<lambda>(got, s2). say ([[10]] @ (if got = 0 then [lit ''Destination unreachable'' @ [10]] else []) @
                       [lit ''Note: hop-by-hop TTL probing is not available in this network stack yet.'' @ [10]]) s2)
                  (probe_rounds dv ip 3
                     (say ([lit ''traceroute to '', host, lit '' (''] @ print_ipv4 ip @ [lit '')'' @ [10], lit '' 1  ''] @
                        print_ipv4 ip @ [lit ''  '']) (n1, snd s)))))"

section \<open>Transfers\<close>

text \<open>The loop of \<open>parse_port\<close>.\<close>

fun port_digits :: "int \<Rightarrow> bytes \<Rightarrow> int" where
  "port_digits port [] = (if port = 0 then -1 else port)"
| "port_digits port (c # cs) =
     (if c < 48 \<or> c > 57 then -1
      else let port1 = port * 10 + (int (unat c) - 48) in if port1 > 65535 then -1 else port_digits port1 cs)"

definition parse_port :: "bytes \<Rightarrow> int" where
  "parse_port s = (if s = [] then 23 else port_digits 0 s)"

definition reach_line :: "bool \<Rightarrow> bytes" where
  "reach_line ok = (if ok then lit ''  reachability: ok'' @ [10] else lit ''  reachability: timeout'' @ [10])"

definition cmd_telnet :: "'d net_cmd" where
  "cmd_telnet dv args s =
     (let p = target_of args
      in if p = [] then Some (say [lit ''Usage: telnet <host> [port]'' @ [10]] s)
         else let host = host_word 128 p; port = parse_port (rest_word 128 16 p)
         in if port < 0 then Some (say [lit ''telnet: invalid port'' @ [10]] s)
            else Option.bind (host_address dv host (fst s)) (\<lambda>(a, n1).
            case a of
              None \<Rightarrow> Some (say [lit ''telnet: DNS resolution failed'' @ [10]] (n1, snd s))
            | Some ip \<Rightarrow>
                let (n2, t2) = say ([lit ''telnet preflight'' @ [10], lit ''  remote: ''] @ print_ipv4 ip @
                     [lit '':'', itoa_text (word_of_int port), [10]]) (n1, snd s)
                in map_option (\<lambda>(ok, n3). say [reach_line ok,
                       lit ''telnet: interactive TCP is not implemented in this kernel build.'' @ [10]] (n3, t2))
                     (reachable dv ip n2)))"

definition extract_host_path :: "bytes \<Rightarrow> nat \<Rightarrow> nat \<Rightarrow> bytes \<times> bytes" where
  "extract_host_path target host_size path_size =
     (let p = skip_spaces target;
          q = (if strncmp_l p (lit ''http://'') 7 = 0 then drop 7 p
               else if strncmp_l p (lit ''https://'') 8 = 0 then drop 8 p else p);
          host = take (host_size - 1) (takeWhile (\<lambda>c. c \<noteq> chr_slash \<and> c \<noteq> chr_sp) q);
          r = drop (length host) q;
          path = (if r \<noteq> [] \<and> hd r = chr_slash then take (path_size - 1) (takeWhile (\<lambda>c. c \<noteq> chr_sp) r) else [])
      in (host, if path = [] then [chr_slash] else path))"

definition cmd_curl :: "'d net_cmd" where
  "cmd_curl dv args s =
     (let p = target_of args
      in if p = [] then Some (say [lit ''Usage: curl <url>'' @ [10]] s)
         else let (host, path) = extract_host_path p 128 128
         in if host = [] then Some (say [lit ''curl: invalid URL/host'' @ [10]] s)
            else Option.bind (host_address dv host (fst s)) (\<lambda>(a, n1).
            case a of
              None \<Rightarrow> Some (say [lit ''curl: DNS resolution failed'' @ [10]] (n1, snd s))
            | Some ip \<Rightarrow>
                let (n2, t2) = say ([lit ''curl preflight'' @ [10], lit ''  host: '', host, [10], lit ''  path: '', path, [10],
                     lit ''  ip:   ''] @ print_ipv4 ip @ [[10]]) (n1, snd s)
                in map_option (\<lambda>(ok, n3). say [reach_line ok,
                       lit ''curl: HTTP transfer is not implemented in this kernel build.'' @ [10]] (n3, t2))
                     (reachable dv ip n2)))"

text \<open>The report in its 256-byte array; text that does not fit is cut.\<close>

definition append_text :: "nat \<Rightarrow> bytes \<Rightarrow> bytes \<Rightarrow> bytes" where
  "append_text cap src dst = (if cap = 0 then dst else take (cap - 1) (dst @ src))"

definition wget_report :: "bytes \<Rightarrow> bytes \<Rightarrow> bytes \<Rightarrow> bytes \<Rightarrow> bool \<Rightarrow> bytes" where
  "wget_report target host path ip ok =
     fold (append_text 256)
       ([lit ''WGET REPORT'' @ [10], lit ''target: '', target, [10] @ lit ''host: '', host, [10] @ lit ''path: '', path,
         [10] @ lit ''ip: ''] @ print_ipv4 ip @
        [[10] @ lit ''reachable: '', if ok then lit ''yes'' else lit ''no'', [10] @ lit ''http-transfer: not implemented'' @ [10]]) []"

text \<open>The output file: a new one in the current directory, or the file that the name resolves to.\<close>

definition wget_file :: "bytes \<Rightarrow> fs \<Rightarrow> ((bytes + nat) \<times> fs) option" where
  "wget_file outfile f =
     Option.bind (fs_create_file (fs_cwd_get f) (Some outfile) f) (\<lambda>(ok, f1).
       map_option
         (\<lambda>r. (if r = None \<or> \<not> fs_is_file f1 (the r)
               then Inl (if ok then lit ''wget: output file resolution failed'' @ [10] else lit ''wget: cannot create output file'' @ [10])
               else Inr (the r), f1))
         (fs_resolve_checked f1 (Some outfile)))"

definition wget_out :: "bytes \<Rightarrow> bytes" where
  "wget_out rest = (if rest = [] then lit ''wget.txt'' else take (RAMDISK_NAME_LEN - 1) rest)"

definition wget_save :: "bytes \<Rightarrow> bytes \<Rightarrow> bytes \<Rightarrow> bytes + nat \<Rightarrow> (fs \<times> 'n) \<times> terminal \<Rightarrow> (fs \<times> 'n) \<times> terminal" where
  "wget_save outfile ip report d s =
     (case d of
        Inl msg \<Rightarrow> say [msg] s
      | Inr out_node \<Rightarrow>
          let w = fs_write out_node (Some report) (int (length report)) (fst (fst s)); s1 = ((snd w, snd (fst s)), snd s)
          in if \<not> fst w then say [lit ''wget: failed to write report'' @ [10]] s1
             else say ([lit ''Saved report to '', outfile, lit '' (host ''] @ print_ipv4 ip @ [lit '')'' @ [10]]) s1)"

definition cmd_wget :: "'d wide_device \<Rightarrow> (fs \<times> net \<times> 'd) cmd" where
  "cmd_wget dv args s =
     (let ((f, n0), t) = s; p = target_of args
      in if p = [] then Some (say [lit ''Usage: wget <url|host> [outfile]'' @ [10]] s)
         else let target = host_word 160 p; outfile = wget_out (skip_spaces (drop (length target) p));
                  (host, path) = extract_host_path target 128 128
         in if host = [] then Some (say [lit ''wget: invalid URL/host'' @ [10]] s)
            else Option.bind (host_address dv host n0) (\<lambda>(a, n1).
            case a of
              None \<Rightarrow> Some (say [lit ''wget: DNS resolution failed'' @ [10]] ((f, n1), t))
            | Some ip \<Rightarrow>
                Option.bind (reachable dv ip n1) (\<lambda>(ok, n2).
                Option.bind (wget_file outfile f) (\<lambda>(d, f1).
                Some (wget_save outfile ip (wget_report target host path ip ok) d ((f1, n2), t))))))"

section \<open>Output only\<close>

lemma say_snd_draws: "draws t u \<Longrightarrow> draws t (snd (say ms (n, u)))"
  by (simp add: say_def fold_puts_draws)

lemma ping_rounds_Suc:
  assumes "ping_rounds dv ip (Suc k) s = Some (got, s')"
  obtains ms n1 g where "ping_rounds dv ip k (say ms (n1, snd s)) = Some (g, s')" "got \<le> Suc g"
proof (cases "network_ping_ipv4 dv (Some ip) 600000 (fst s)")
  case (Some q)
  obtain r n1 where q: "q = (r, n1)" by (cases q)
  let ?ms = "if pr_success r then ping_line ip r else [lit ''request timed out'' @ [10]]"
  show thesis using that [of ?ms n1] assms Some q by (auto split: if_splits)
qed (use assms in simp)

lemma probe_rounds_Suc:
  assumes "probe_rounds dv ip (Suc k) s = Some (got, s')"
  obtains ms n1 g where "probe_rounds dv ip k (say ms (n1, snd s)) = Some (g, s')"
proof (cases "network_ping_ipv4 dv (Some ip) 600000 (fst s)")
  case (Some q)
  obtain r n1 where q: "q = (r, n1)" by (cases q)
  let ?ms = "if pr_success r then [itoa_text (word_of_nat (pr_time_ms r)), lit ''ms ''] else [lit ''* '']"
  show thesis using that [of ?ms n1] assms Some q by (auto split: if_splits)
qed (use assms in simp)

lemma ping_rounds_draws: "ping_rounds dv ip k s = Some (got, s') \<Longrightarrow> draws (snd s) (snd s') \<and> got \<le> k"
proof (induction k arbitrary: s got)
  case (Suc k)
  from Suc.prems obtain ms n1 g where g: "ping_rounds dv ip k (say ms (n1, snd s)) = Some (g, s')" "got \<le> Suc g"
    by (rule ping_rounds_Suc)
  with Suc.IH [OF g(1)] show ?case using draws_trans [OF say_snd_draws [OF draws_refl]] by fastforce
qed simp

lemma probe_rounds_draws: "probe_rounds dv ip k s = Some (got, s') \<Longrightarrow> draws (snd s) (snd s')"
proof (induction k arbitrary: s got)
  case (Suc k)
  from Suc.prems obtain ms n1 g where g: "probe_rounds dv ip k (say ms (n1, snd s)) = Some (g, s')"
    by (rule probe_rounds_Suc)
  with Suc.IH [OF g] show ?case using draws_trans [OF say_snd_draws [OF draws_refl]] by fastforce
qed simp

lemma quiet_net_status: "quiet (cmd_ifconfig dv)" "quiet (cmd_netstat dv)"
  unfolding quiet_def
  by (auto simp: cmd_ifconfig_def cmd_netstat_def Let_def case_prod_unfold quiet_rules simp del: fold_append upt.simps split: if_splits)

lemma quiet_nslookup: "quiet (cmd_nslookup dv)"
  by (rule quiet_I) (auto simp: cmd_nslookup_def Let_def case_prod_unfold quiet_rules simp del: fold_append split: if_splits option.splits)

lemma quiet_transfers: "quiet (cmd_telnet dv)" "quiet (cmd_curl dv)"
  unfolding quiet_def
  by (auto simp: cmd_telnet_def cmd_curl_def Let_def case_prod_unfold bind_eq_Some_conv quiet_rules
      simp del: fold_append split: if_splits option.split_asm)

lemma say_between: "draws (snd (say ms (n, t))) (snd u) \<Longrightarrow> say ms' u = (s', t') \<Longrightarrow> draws t t'"
  by (metis draws_trans draws_refl prod.collapse say_snd_draws snd_conv)

lemma say_once: "say ms (n, t) = (s', t') \<Longrightarrow> draws t t'"
  by (metis draws_refl say_snd_draws snd_conv)

lemma quiet_ping: "quiet (cmd_ping dv)"
  by (rule quiet_I) (auto simp: cmd_ping_def Let_def bind_eq_Some_conv simp del: fold_append
      split: if_split_asm option.split_asm dest!: ping_rounds_draws dest: say_between say_once)

lemma quiet_traceroute: "quiet (cmd_traceroute dv)"
  by (rule quiet_I) (auto simp: cmd_traceroute_def Let_def bind_eq_Some_conv simp del: fold_append
      split: if_split_asm option.split_asm dest!: probe_rounds_draws dest: say_between say_once)

lemma wget_save_draws: "wget_save outfile ip report d (x, t) = (s', t') \<Longrightarrow> draws t t'"
  by (cases d) (auto simp: wget_save_def Let_def quiet_rules simp del: fold_append split: if_splits)

lemma quiet_wget: "quiet (cmd_wget dv)"
proof (rule quiet_I)
  fix args t t' and s s' :: "fs \<times> net \<times> 'a"
  assume "cmd_wget dv args (s, t) = Some (s', t')"
  then show "draws t t'"
    by (cases s) (auto simp: cmd_wget_def Let_def bind_eq_Some_conv case_prod_unfold quiet_rules
        split: if_split_asm option.split_asm dest: wget_save_draws)
qed

end
