(* ===== verification/Graphics.thy ===== *)
theory Graphics
  imports Port_IO Vga
begin

text \<open>
  The display back end, \<^verbatim>\<open>src/src/drivers/graphics.c\<close>: detection of a virtio display on
  PCI bus 0 and the drawing calls, all of which end in the text screen.
\<close>

datatype gfx_backend_t = GFX_BACKEND_VGA_TEXT | GFX_BACKEND_VIRTIO_TEXT

record gfx =
  g_backend :: gfx_backend_t
  g_virtio_present :: bool

definition gfx_boot :: gfx where
  "gfx_boot = \<lparr>g_backend = GFX_BACKEND_VGA_TEXT, g_virtio_present = False\<rparr>"

definition gfx_pci_read32 :: "'d wide_device \<Rightarrow> nat \<Rightarrow> nat \<Rightarrow> 'd \<Rightarrow> u32 \<times> 'd" where
  "gfx_pci_read32 dv slot reg d =
     inl_port dv 3324 (outl_port dv 3320
       (2147483648 OR push_bit 11 (word_of_nat slot) OR (word_of_nat reg AND 252)) d)"

fun detect_slots :: "'d wide_device \<Rightarrow> nat list \<Rightarrow> 'd \<Rightarrow> bool \<times> 'd" where
  "detect_slots dv [] d = (False, d)"
| "detect_slots dv (slot # slots) d =
     (let (ident, d1) = gfx_pci_read32 dv slot 0 d
      in if ident AND 65535 = 65535 then detect_slots dv slots d1
         else let (class_reg, d2) = gfx_pci_read32 dv slot 8 d1
              in if ident AND 65535 = 6900 \<and> drop_bit 24 class_reg = 3 then (True, d2)
                 else detect_slots dv slots d2)"

definition detect_virtio_gpu :: "'d wide_device \<Rightarrow> 'd \<Rightarrow> bool \<times> 'd" where
  "detect_virtio_gpu dv d = detect_slots dv [0..<32] d"

definition gfx_init :: "'d wide_device \<Rightarrow> gfx \<times> 'd \<Rightarrow> gfx \<times> 'd" where
  "gfx_init dv s =
     (let (found, d1) = detect_virtio_gpu dv (snd s)
      in (\<lparr>g_backend = (if found then GFX_BACKEND_VIRTIO_TEXT else GFX_BACKEND_VGA_TEXT), g_virtio_present = found\<rparr>, d1))"

definition gfx_backend :: "gfx \<Rightarrow> gfx_backend_t" where "gfx_backend g = g_backend g"

definition gfx_backend_name :: "gfx \<Rightarrow> bytes" where
  "gfx_backend_name g = (if g_backend g = GFX_BACKEND_VIRTIO_TEXT then lit ''virtio-text'' else lit ''vga-text'')"

definition gfx_virtio_present :: "gfx \<Rightarrow> bool" where "gfx_virtio_present g = g_virtio_present g"

definition gfx_clear :: "u8 \<Rightarrow> vga \<Rightarrow> vga" where "gfx_clear attr v = vga_clear attr v"

definition gfx_put_cell :: "int \<Rightarrow> int \<Rightarrow> u8 \<Rightarrow> u8 \<Rightarrow> vga \<Rightarrow> vga" where
  "gfx_put_cell row col c attr v = vga_putchar_at row col c attr v"

definition gfx_write_text :: "int \<Rightarrow> int \<Rightarrow> bytes \<Rightarrow> u8 \<Rightarrow> vga \<Rightarrow> vga" where
  "gfx_write_text row col s attr v = vga_write_at row col s attr v"

definition gfx_fill_rect :: "int \<Rightarrow> int \<Rightarrow> int \<Rightarrow> int \<Rightarrow> u8 \<Rightarrow> u8 \<Rightarrow> vga \<Rightarrow> vga" where
  "gfx_fill_rect row col h w c attr v = vga_fill_rect row col h w c attr v"

definition gfx_fill_row :: "int \<Rightarrow> u8 \<Rightarrow> u8 \<Rightarrow> vga \<Rightarrow> vga" where
  "gfx_fill_row row c attr v = vga_fill_row row c attr v"

definition gfx_read_cell :: "int \<Rightarrow> int \<Rightarrow> vga \<Rightarrow> u16" where
  "gfx_read_cell row col v = vga_read_at row col v"

text \<open>The flag and the back end agree from the start and after every initialisation.\<close>

definition gfx_wf :: "gfx \<Rightarrow> bool" where
  "gfx_wf g \<longleftrightarrow> (g_backend g = GFX_BACKEND_VIRTIO_TEXT) = g_virtio_present g"

lemma gfx_init_wf: "gfx_wf gfx_boot" "gfx_wf (fst (gfx_init dv s))"
  by (simp_all add: gfx_wf_def gfx_boot_def gfx_init_def case_prod_unfold Let_def)

end
