(* ===== verification/Memory.thy ===== *)
theory Memory
  imports CString
begin

text \<open>
  Little-endian 32-bit loads and stores of the i386 over the byte store of
  \<^verbatim>\<open>CString\<close>, and regions of the address space.  The memory manager and the
  scheduler keep their structures in the same store, so that what one of them writes is
  shown not to reach what the other one owns.
\<close>

section \<open>Words in memory\<close>

definition ld32 :: "mem \<Rightarrow> addr \<Rightarrow> u32" where
  "ld32 m a = word_of_nat (unat (m a) + 256 * (unat (m (a + 1)) +
                           256 * (unat (m (a + 2)) + 256 * unat (m (a + 3)))))"

definition st32 :: "mem \<Rightarrow> addr \<Rightarrow> u32 \<Rightarrow> mem" where
  "st32 m a v = m(a := word_of_nat (unat v), a + 1 := word_of_nat (unat v div 256),
                  a + 2 := word_of_nat (unat v div 65536), a + 3 := word_of_nat (unat v div 16777216))"

text \<open>Pointer arithmetic on 32-bit addresses.\<close>

definition padd :: "addr \<Rightarrow> nat \<Rightarrow> addr" where
  "padd a n = (a + n) mod 4294967296"

lemma padd_small [simp]: "a + n < 4294967296 \<Longrightarrow> padd a n = a + n"
  by (simp add: padd_def)

lemma four_bytes:
  fixes n :: nat
  assumes "n < 4294967296"
  shows "n mod 256 + 256 * (n div 256 mod 256 + 256 * (n div 65536 mod 256 + 256 * (n div 16777216 mod 256))) = n"
proof -
  have "n div 16777216 < 256" using assms by (simp add: less_mult_imp_div_less)
  then have d3: "n div 16777216 mod 256 = n div 16777216" by simp
  have e3: "n div 16777216 = n div 65536 div 256" and e2: "n div 65536 = n div 256 div 256"
    by (simp_all add: div_mult2_eq [symmetric])
  have "n div 65536 mod 256 + 256 * (n div 16777216) = n div 65536"
    unfolding e3 by simp
  moreover have "n div 256 mod 256 + 256 * (n div 65536) = n div 256"
    unfolding e2 by simp
  moreover have "n mod 256 + 256 * (n div 256) = n" by simp
  ultimately show ?thesis using d3 by simp
qed

lemma ld32_st32_same [simp]: "ld32 (st32 m a v) a = v"
proof -
  have b: "unat (word_of_nat n :: u8) = n mod 256" for n :: nat
    by (simp add: unat_of_nat)
  have "ld32 (st32 m a v) a = word_of_nat (unat v mod 256 + 256 * (unat v div 256 mod 256 +
      256 * (unat v div 65536 mod 256 + 256 * (unat v div 16777216 mod 256))))"
    unfolding ld32_def st32_def by (simp only: b [symmetric]) simp
  then show ?thesis unfolding four_bytes [OF unat_u32_less] by simp
qed

lemma st32_other: "b < a \<or> a + 4 \<le> b \<Longrightarrow> st32 m a v b = m b"
  by (auto simp: st32_def)

lemma ld32_cong:
  assumes "\<And>i. i < 4 \<Longrightarrow> m (a + i) = m' (a + i)"
  shows "ld32 m a = ld32 m' a"
proof -
  have "m a = m' a" "m (a + 1) = m' (a + 1)" "m (a + 2) = m' (a + 2)" "m (a + 3) = m' (a + 3)"
    using assms [of 0] assms [of 1] assms [of 2] assms [of 3] by simp_all
  then show ?thesis unfolding ld32_def by (simp only:)
qed

lemma ld32_st32_other: "a + 4 \<le> b \<or> b + 4 \<le> a \<Longrightarrow> ld32 (st32 m a v) b = ld32 m b"
  by (rule ld32_cong) (auto intro: st32_other)

lemma ld32_upd_other: "x < b \<or> b + 4 \<le> x \<Longrightarrow> ld32 (m(x := v)) b = ld32 m b"
  by (rule ld32_cong) auto

section \<open>Regions\<close>

text \<open>Two stores agree on the addresses \<open>lo\<close> to \<open>hi - 1\<close>.\<close>

definition same_on :: "nat set \<Rightarrow> mem \<Rightarrow> mem \<Rightarrow> bool" where
  "same_on A m m' \<longleftrightarrow> (\<forall>x\<in>A. m' x = m x)"

lemma same_on_refl [simp]: "same_on A m m"
  by (simp add: same_on_def)

lemma same_on_trans: "same_on A m m' \<Longrightarrow> same_on A m' m'' \<Longrightarrow> same_on A m m''"
  by (simp add: same_on_def)

lemma same_on_mono: "same_on A m m' \<Longrightarrow> B \<subseteq> A \<Longrightarrow> same_on B m m'"
  by (auto simp: same_on_def)

lemma same_on_st32: "{a..<a + 4} \<inter> A = {} \<Longrightarrow> same_on A m m0 \<Longrightarrow> same_on A m (st32 m0 a v)"
  unfolding same_on_def disjoint_iff atLeastLessThan_iff
  by (metis st32_other not_less)

lemma same_on_upd: "a \<notin> A \<Longrightarrow> same_on A m m0 \<Longrightarrow> same_on A m (m0(a := v))"
  by (auto simp: same_on_def)

lemma same_on_ld32: "same_on A m m' \<Longrightarrow> {a..<a + 4} \<subseteq> A \<Longrightarrow> ld32 m' a = ld32 m a"
  by (rule ld32_cong) (auto simp: same_on_def subset_iff)

end
