(* ===== verification/Allocator.thy ===== *)
theory Allocator
  imports Memory
begin

text \<open>
  The contract of an allocator of memory regions.  The heap (\<open>kmalloc\<close>,
  \<open>kfree\<close>) and the page allocator (\<open>pmm_alloc_page\<close>, \<open>pmm_free_page\<close>) of
  \<^verbatim>\<open>src/src/kernel/mm.c\<close> both implement it.  \<open>live s\<close> holds the regions handed
  out, as pairs of an address and a length.  The client lemmas say what a holder of a region
  may rely on, whatever the other clients of the allocator do.
\<close>

type_synonym region = "addr \<times> nat"

definition region_bytes :: "region \<Rightarrow> nat set" where
  "region_bytes r = {fst r..<fst r + snd r}"

definition live_bytes :: "region set \<Rightarrow> nat set" where
  "live_bytes L = (\<Union>r\<in>L. region_bytes r)"

lemma live_bytes_mono: "L \<subseteq> L' \<Longrightarrow> live_bytes L \<subseteq> live_bytes L'"
  by (auto simp: live_bytes_def)

lemma region_bytes_live: "r \<in> L \<Longrightarrow> region_bytes r \<subseteq> live_bytes L"
  by (auto simp: live_bytes_def)

definition separate :: "region set \<Rightarrow> bool" where
  "separate L \<longleftrightarrow> (\<forall>r\<in>L. \<forall>q\<in>L. r \<noteq> q \<longrightarrow> region_bytes r \<inter> region_bytes q = {})"

datatype 'r alloc_op = Alloc 'r | Release addr

text \<open>One operation of some client, an allocation or the release of a region it holds, and sequences of them.\<close>

definition op_ok :: "('s \<Rightarrow> region set) \<Rightarrow> 'r alloc_op \<Rightarrow> 's \<Rightarrow> bool" where
  "op_ok live c s = (case c of Alloc _ \<Rightarrow> True | Release p \<Rightarrow> p \<in> fst ` live s)"

definition run_op ::
  "('r \<Rightarrow> 's \<Rightarrow> ('s \<times> addr) option) \<Rightarrow> (addr \<Rightarrow> 's \<Rightarrow> 's option) \<Rightarrow> 'r alloc_op \<Rightarrow> 's \<Rightarrow> 's option" where
  "run_op alloc release c s = (case c of Alloc r \<Rightarrow> map_option fst (alloc r s) | Release p \<Rightarrow> release p s)"

fun run_ops ::
  "('r \<Rightarrow> 's \<Rightarrow> ('s \<times> addr) option) \<Rightarrow> (addr \<Rightarrow> 's \<Rightarrow> 's option) \<Rightarrow> ('s \<Rightarrow> region set) \<Rightarrow>
   'r alloc_op list \<Rightarrow> 's \<Rightarrow> 's option" where
  "run_ops alloc release live [] s = Some s"
| "run_ops alloc release live (c # cs) s =
     (if op_ok live c s then Option.bind (run_op alloc release c s) (run_ops alloc release live cs) else Some s)"

locale region_allocator =
  fixes alloc :: "'r \<Rightarrow> 's \<Rightarrow> ('s \<times> addr) option"
    and release :: "addr \<Rightarrow> 's \<Rightarrow> 's option"
    and need :: "'r \<Rightarrow> nat"
    and live :: "'s \<Rightarrow> region set"
    and store :: "'s \<Rightarrow> mem"
    and wf :: "'s \<Rightarrow> bool"
  assumes alloc_law: "wf s \<Longrightarrow> \<exists>s' p. alloc r s = Some (s', p) \<and> wf s' \<and>
      same_on (live_bytes (live s)) (store s) (store s') \<and>
      (if p = 0 then live s' = live s
       else \<exists>n\<ge>need r. (p, n) \<notin> live s \<and> live s' = insert (p, n) (live s))"
    and release_law: "wf s \<Longrightarrow> (p, n) \<in> live s \<Longrightarrow> \<exists>s'. release p s = Some s' \<and> wf s' \<and>
      live s' = live s - {(p, n)} \<and> same_on (live_bytes (live s')) (store s) (store s')"
    and separate_law: "wf s \<Longrightarrow> separate (live s)"
    and address_law: "wf s \<Longrightarrow> (p, n) \<in> live s \<Longrightarrow> (p, k) \<in> live s \<Longrightarrow> n = k"
begin

lemma run_op_ok:
  assumes "wf s" and "op_ok live c s" and "(p, n) \<in> live s" and "c \<noteq> Release p"
  shows "\<exists>s'. run_op alloc release c s = Some s' \<and> wf s' \<and> (p, n) \<in> live s' \<and>
     same_on (region_bytes (p, n)) (store s) (store s')"
proof (cases c)
  case (Alloc r)
  obtain s' q where "alloc r s = Some (s', q)" "wf s'"
      "same_on (live_bytes (live s)) (store s) (store s')" "live s \<subseteq> live s'"
    using alloc_law [OF assms(1), of r] by (auto split: if_splits)
  then show ?thesis
    using Alloc assms(3) by (auto simp: run_op_def intro: same_on_mono [OF _ region_bytes_live])
next
  case (Release q)
  then obtain k where q: "(q, k) \<in> live s" using assms(2) by (auto simp: op_ok_def)
  obtain s' where s': "release q s = Some s'" "wf s'" "live s' = live s - {(q, k)}"
      "same_on (live_bytes (live s')) (store s) (store s')"
    using release_law [OF assms(1) q] by blast
  then have "(p, n) \<in> live s'" using assms(3,4) Release by auto
  then show ?thesis
    using Release s' by (auto simp: run_op_def intro: same_on_mono [OF _ region_bytes_live])
qed

lemma run_op_wf: "wf s \<Longrightarrow> op_ok live c s \<Longrightarrow> \<exists>s'. run_op alloc release c s = Some s' \<and> wf s'"
  using alloc_law release_law unfolding op_ok_def run_op_def
  by (cases c) (fastforce, force)

lemma holder_safe:
  assumes "wf s" and "(p, n) \<in> live s" and "Release p \<notin> set cs"
  shows "\<exists>s'. run_ops alloc release live cs s = Some s' \<and> wf s' \<and> (p, n) \<in> live s' \<and>
     same_on (region_bytes (p, n)) (store s) (store s')"
  using assms
proof (induction cs arbitrary: s)
  case (Cons c cs)
  show ?case
  proof (cases "op_ok live c s")
    case ok: True
  obtain s1 where s1: "run_op alloc release c s = Some s1" "wf s1" "(p, n) \<in> live s1"
      "same_on (region_bytes (p, n)) (store s) (store s1)"
    using run_op_ok [of s c p n] Cons.prems ok by auto
  from Cons.IH [of s1] obtain s' where "run_ops alloc release live cs s1 = Some s'" "wf s'" "(p, n) \<in> live s'"
      "same_on (region_bytes (p, n)) (store s1) (store s')"
    using s1 Cons.prems by auto
    then show ?thesis using s1 ok by (auto intro: same_on_trans)
  qed (use Cons.prems in auto)
qed simp

lemma alloc_fresh:
  assumes "wf s" and "alloc r s = Some (s', p)" and "p \<noteq> 0" and "q \<in> live s"
  shows "\<exists>n\<ge>need r. (p, n) \<in> live s' \<and> region_bytes (p, n) \<inter> region_bytes q = {}"
proof -
  obtain n where n: "n \<ge> need r" "(p, n) \<notin> live s" "live s' = insert (p, n) (live s)" "wf s'"
    using alloc_law [OF assms(1), of r] assms(2,3) by auto
  moreover have "separate (live s')" using n separate_law by blast
  ultimately show ?thesis using assms(4) unfolding separate_def by (metis insertCI)
qed

end

end
