(* ===== verification/Mm.thy ===== *)
theory Mm
  imports Allocator
begin

text \<open>
  The memory manager, \<^verbatim>\<open>src/src/kernel/mm.c\<close>: the page bitmap at
  \<open>0x100000\<close> and the first-fit heap, whose block headers lie in the same byte store.
  The heap is abstracted to the list of its blocks (size, free); every operation is shown to
  compute the corresponding list operation, and both allocators are interpreted as
  \<open>region_allocator\<close>.
\<close>

section \<open>State\<close>

definition PAGE_SIZE :: nat where [const_defs]: "PAGE_SIZE = 4096"
definition HEAP_START :: nat where [const_defs]: "HEAP_START = 16777216"
definition HEAP_SIZE :: nat where [const_defs]: "HEAP_SIZE = 16777216"
definition PMM_BITMAP :: nat where [const_defs]: "PMM_BITMAP = 1048576"

abbreviation HEAP_END :: nat where "HEAP_END \<equiv> HEAP_START + HEAP_SIZE"

text \<open>\<open>sizeof(heap_block_t)\<close> on i386: size, next, free and padding.\<close>

definition HB :: nat where [const_defs]: "HB = 12"

record mm =
  ram :: mem
  pmm_bitmap :: addr
  pmm_max_blocks :: u32
  pmm_used_blocks :: u32
  pmm_reserved_blocks :: u32
  heap_head :: addr
  heap_ready :: bool

definition hb_size :: "mem \<Rightarrow> addr \<Rightarrow> u32" where "hb_size m b = ld32 m b"
definition hb_next :: "mem \<Rightarrow> addr \<Rightarrow> addr" where "hb_next m b = unat (ld32 m (b + 4))"
definition hb_free :: "mem \<Rightarrow> addr \<Rightarrow> u8" where "hb_free m b = m (b + 8)"
definition set_size :: "addr \<Rightarrow> u32 \<Rightarrow> mem \<Rightarrow> mem" where "set_size b v m = st32 m b v"
definition set_next :: "addr \<Rightarrow> addr \<Rightarrow> mem \<Rightarrow> mem" where "set_next b v m = st32 m (b + 4) (word_of_nat v)"
definition set_free :: "addr \<Rightarrow> u8 \<Rightarrow> mem \<Rightarrow> mem" where "set_free b v m = m(b + 8 := v)"

section \<open>The heap\<close>

definition heap_align8 :: "u32 \<Rightarrow> u32" where
  "heap_align8 v = (v + 7) AND NOT 7"

definition heap_init :: "mm \<Rightarrow> mm" where
  "heap_init s =
     s\<lparr>heap_head := HEAP_START,
       ram := set_free HEAP_START 1 (set_next HEAP_START 0
                (set_size HEAP_START (word_of_nat (HEAP_SIZE - HB)) (ram s))),
       heap_ready := True\<rparr>"

partial_function (option) heap_coalesce_loop :: "addr \<Rightarrow> mem \<Rightarrow> mem option" where
  "heap_coalesce_loop block m =
     (if block \<noteq> 0 \<and> hb_next m block \<noteq> 0 then
        let nxt = hb_next m block;
            block_end = padd (padd block HB) (unat (hb_size m block))
        in if hb_free m block \<noteq> 0 \<and> hb_free m nxt \<noteq> 0 \<and> block_end = nxt then
             let m1 = set_size block (hb_size m block + (word_of_nat HB + hb_size m nxt)) m
             in heap_coalesce_loop block (set_next block (hb_next m1 (hb_next m1 block)) m1)
           else heap_coalesce_loop nxt m
      else Some m)"

definition heap_coalesce :: "mm \<Rightarrow> mm option" where
  "heap_coalesce s = map_option (\<lambda>m. s\<lparr>ram := m\<rparr>) (heap_coalesce_loop (heap_head s) (ram s))"

text \<open>The body of \<open>kmalloc\<close> on the block that fits: the split, then the mark.\<close>

definition kmalloc_take :: "u32 \<Rightarrow> addr \<Rightarrow> mem \<Rightarrow> mem" where
  "kmalloc_take need block m =
     (let m1 = (if hb_size m block \<ge> need + word_of_nat HB + 8 then
                  let split = padd (padd block HB) (unat need);
                      ma = set_size split (hb_size m block - need - word_of_nat HB) m;
                      mb = set_next split (hb_next ma block) ma;
                      mc = set_free split 1 mb;
                      md = set_next block split mc
                  in set_size block need md
                else m)
      in set_free block 0 m1)"

partial_function (option) kmalloc_loop :: "u32 \<Rightarrow> addr \<Rightarrow> mem \<Rightarrow> (mem \<times> addr) option" where
  "kmalloc_loop need block m =
     (if block \<noteq> 0 then
        if hb_free m block \<noteq> 0 \<and> hb_size m block \<ge> need
        then Some (kmalloc_take need block m, padd block HB)
        else kmalloc_loop need (hb_next m block) m
      else Some (m, 0))"

definition kmalloc :: "u32 \<Rightarrow> mm \<Rightarrow> (mm \<times> addr) option" where
  "kmalloc sz s =
     (if \<not> heap_ready s \<or> sz = 0 then Some (s, 0)
      else let need = heap_align8 sz
           in if need = 0 \<or> need > word_of_nat HEAP_SIZE then Some (s, 0)
              else map_option (\<lambda>(m, p). (s\<lparr>ram := m\<rparr>, p)) (kmalloc_loop need (heap_head s) (ram s)))"

definition kfree :: "addr \<Rightarrow> mm \<Rightarrow> mm option" where
  "kfree p s =
     (if \<not> heap_ready s \<or> p = 0 then Some s
      else if p < HEAP_START + HB \<or> p \<ge> HEAP_END then Some s
      else let block = p - HB
           in if block < HEAP_START \<or> block \<ge> HEAP_END then Some s
              else heap_coalesce (s\<lparr>ram := set_free block 1 (ram s)\<rparr>))"

partial_function (option) kheap_sum_loop :: "bool \<Rightarrow> addr \<Rightarrow> mem \<Rightarrow> u32 \<Rightarrow> u32 option" where
  "kheap_sum_loop want_free block m acc =
     (if block \<noteq> 0
      then kheap_sum_loop want_free (hb_next m block) m
             (if (hb_free m block \<noteq> 0) = want_free then acc + hb_size m block else acc)
      else Some acc)"

definition kheap_used_bytes :: "mm \<Rightarrow> u32 option" where
  "kheap_used_bytes s = (if \<not> heap_ready s then Some 0 else kheap_sum_loop False (heap_head s) (ram s) 0)"

definition kheap_free_bytes :: "mm \<Rightarrow> u32 option" where
  "kheap_free_bytes s = (if \<not> heap_ready s then Some 0 else kheap_sum_loop True (heap_head s) (ram s) 0)"

section \<open>The page bitmap\<close>

definition pmm_bitmap_set :: "nat \<Rightarrow> mm \<Rightarrow> mm" where
  "pmm_bitmap_set b s =
     (let a = pmm_bitmap s + b div 8 in s\<lparr>ram := (ram s)(a := ram s a OR push_bit (b mod 8) 1)\<rparr>)"

definition pmm_bitmap_clear :: "nat \<Rightarrow> mm \<Rightarrow> mm" where
  "pmm_bitmap_clear b s =
     (let a = pmm_bitmap s + b div 8 in s\<lparr>ram := (ram s)(a := ram s a AND NOT (push_bit (b mod 8) 1))\<rparr>)"

definition pmm_bitmap_test :: "nat \<Rightarrow> mm \<Rightarrow> bool" where
  "pmm_bitmap_test b s \<longleftrightarrow> ram s (pmm_bitmap s + b div 8) AND push_bit (b mod 8) 1 \<noteq> 0"

definition pmm_init :: "u32 \<Rightarrow> mm \<Rightarrow> mm" where
  "pmm_init mem_size0 s =
     (let mem_size = (if mem_size0 < word_of_nat PAGE_SIZE then word_of_nat PAGE_SIZE else mem_size0);
          max_blocks = mem_size div word_of_nat PAGE_SIZE;
          reserve_bytes = (if word_of_nat HEAP_END > mem_size then mem_size else word_of_nat HEAP_END);
          reserved0 = reserve_bytes div word_of_nat PAGE_SIZE;
          reserved = (if reserved0 > max_blocks then max_blocks else reserved0);
          bitmap_bytes = (max_blocks + 7) div 8;
          s1 = s\<lparr>pmm_max_blocks := max_blocks, pmm_reserved_blocks := reserved, pmm_bitmap := PMM_BITMAP,
                 ram := memset (ram s) PMM_BITMAP 255 (unat bitmap_bytes)\<rparr>;
          s2 = fold pmm_bitmap_clear [unat reserved..<unat max_blocks] s1
      in heap_init (s2\<lparr>pmm_used_blocks := reserved\<rparr>))"

function pmm_alloc_loop :: "nat \<Rightarrow> mm \<Rightarrow> mm \<times> addr" where
  "pmm_alloc_loop i s =
     (if i < unat (pmm_max_blocks s) then
        if \<not> pmm_bitmap_test i s
        then ((pmm_bitmap_set i s)\<lparr>pmm_used_blocks := pmm_used_blocks s + 1\<rparr>, i * PAGE_SIZE)
        else pmm_alloc_loop (Suc i) s
      else (s, 0))"
  by pat_completeness auto
termination
  by (relation "measure (\<lambda>(i, s). unat (pmm_max_blocks s) - i)") auto

declare pmm_alloc_loop.simps [simp del]

definition pmm_alloc_page :: "mm \<Rightarrow> mm \<times> addr" where
  "pmm_alloc_page s = pmm_alloc_loop (unat (pmm_reserved_blocks s)) s"

definition pmm_free_page :: "addr \<Rightarrow> mm \<Rightarrow> mm" where
  "pmm_free_page p s =
     (if p = 0 then s
      else let block = p div PAGE_SIZE
           in if block < unat (pmm_reserved_blocks s) \<or> block \<ge> unat (pmm_max_blocks s) then s
              else if \<not> pmm_bitmap_test block s then s
              else let s1 = pmm_bitmap_clear block s
                   in if pmm_used_blocks s1 > 0 then s1\<lparr>pmm_used_blocks := pmm_used_blocks s1 - 1\<rparr> else s1)"

definition pmm_total_blocks :: "mm \<Rightarrow> u32" where "pmm_total_blocks s = pmm_max_blocks s"
definition pmm_used_blocks_count :: "mm \<Rightarrow> u32" where "pmm_used_blocks_count s = pmm_used_blocks s"

definition pmm_free_blocks_count :: "mm \<Rightarrow> u32" where
  "pmm_free_blocks_count s =
     (if pmm_max_blocks s < pmm_used_blocks s then 0 else pmm_max_blocks s - pmm_used_blocks s)"

section \<open>The heap as a list of blocks\<close>

text \<open>The blocks of the heap from address \<open>a\<close> on, as sizes and free marks.\<close>

type_synonym blocks = "(nat \<times> bool) list"

fun chain :: "mem \<Rightarrow> addr \<Rightarrow> blocks \<Rightarrow> bool" where
  "chain m a [] \<longleftrightarrow> a = HEAP_END"
| "chain m a ((n, f) # bs) \<longleftrightarrow>
     unat (hb_size m a) = n \<and> hb_next m a = (if bs = [] then 0 else a + HB + n) \<and>
     (hb_free m a \<noteq> 0) = f \<and> chain m (a + HB + n) bs"

text \<open>The bytes of the headers, and the regions handed out.\<close>

fun hdr_bytes :: "addr \<Rightarrow> blocks \<Rightarrow> nat set" where
  "hdr_bytes a [] = {}"
| "hdr_bytes a ((n, f) # bs) = {a..<a + HB} \<union> hdr_bytes (a + HB + n) bs"

fun used_at :: "addr \<Rightarrow> blocks \<Rightarrow> region set" where
  "used_at a [] = {}"
| "used_at a ((n, f) # bs) = (if f then {} else {(a + HB, n)}) \<union> used_at (a + HB + n) bs"

fun fit :: "nat \<Rightarrow> addr \<Rightarrow> blocks \<Rightarrow> (addr \<times> blocks) option" where
  "fit need a [] = None"
| "fit need a ((n, f) # bs) =
     (if f \<and> need \<le> n then
        Some (a + HB, if need + HB + 8 \<le> n then (need, False) # (n - need - HB, True) # bs else (n, False) # bs)
      else map_option (\<lambda>(p, bs'). (p, (n, f) # bs')) (fit need (a + HB + n) bs))"

fun coalesce :: "blocks \<Rightarrow> blocks" where
  "coalesce [] = []"
| "coalesce [b] = [b]"
| "coalesce ((n, f) # (k, g) # bs) =
     (if f \<and> g then coalesce ((n + HB + k, True) # bs) else (n, f) # coalesce ((k, g) # bs))"

fun mark_free :: "addr \<Rightarrow> addr \<Rightarrow> blocks \<Rightarrow> blocks" where
  "mark_free p a [] = []"
| "mark_free p a ((n, f) # bs) = (if p = a + HB then (n, True) # bs else (n, f) # mark_free p (a + HB + n) bs)"

fun no_adjacent_free :: "blocks \<Rightarrow> bool" where
  "no_adjacent_free ((n, f) # (k, g) # bs) \<longleftrightarrow> \<not> (f \<and> g) \<and> no_adjacent_free ((k, g) # bs)"
| "no_adjacent_free _ \<longleftrightarrow> True"

definition blocks_total :: "blocks \<Rightarrow> nat" where
  "blocks_total bs = (\<Sum>(n, f)\<leftarrow>bs. HB + n)"

lemma blocks_total_simps [simp]:
  "blocks_total [] = 0" "blocks_total ((n, f) # bs) = HB + n + blocks_total bs"
  by (simp_all add: blocks_total_def)

lemma chain_total: "chain m a bs \<Longrightarrow> a + blocks_total bs = HEAP_END"
  by (induction m a bs rule: chain.induct) (auto simp: add.assoc)

lemma hdr_bytes_range: "x \<in> hdr_bytes a bs \<Longrightarrow> a \<le> x \<and> x < a + blocks_total bs"
  by (induction a bs rule: hdr_bytes.induct) (fastforce simp: const_defs)+

lemma used_at_range: "(p, n) \<in> used_at a bs \<Longrightarrow> a + HB \<le> p \<and> p + n \<le> a + blocks_total bs"
  by (induction a bs rule: used_at.induct) (fastforce split: if_splits)+

lemma header_cong:
  assumes "same_on A m m'" and "{a..<a + HB} \<subseteq> A"
  shows "hb_size m' a = hb_size m a" and "hb_next m' a = hb_next m a" and "hb_free m' a = hb_free m a"
proof -
  have "{a..<a + 4} \<subseteq> A" "{a + 4..<a + 4 + 4} \<subseteq> A" "a + 8 \<in> A" using assms(2) by (auto simp: const_defs)
  with assms(1) show "hb_size m' a = hb_size m a" "hb_next m' a = hb_next m a" "hb_free m' a = hb_free m a"
    by (auto simp: hb_size_def hb_next_def hb_free_def same_on_ld32 same_on_def)
qed

lemma chain_cong: "chain m a bs \<Longrightarrow> same_on (hdr_bytes a bs) m m' \<Longrightarrow> chain m' a bs"
proof (induction m a bs rule: chain.induct)
  case (2 m a n f bs)
  have "same_on {a..<a + HB} m m'" using 2 by (auto intro: same_on_mono)
  then show ?case using 2 header_cong [of "{a..<a + HB}" m m' a] by (auto intro: same_on_mono)
qed simp

text \<open>Reads after writes of header fields, for the same block and for blocks that do not overlap.\<close>

lemma hb_same [simp]:
  "hb_size (set_size b v m) b = v" "hb_next (set_size b v m) b = hb_next m b" "hb_free (set_size b v m) b = hb_free m b"
  "hb_size (set_next b w m) b = hb_size m b" "hb_free (set_next b w m) b = hb_free m b"
  "hb_size (set_free b u m) b = hb_size m b" "hb_next (set_free b u m) b = hb_next m b" "hb_free (set_free b u m) b = u"
  by (simp_all add: hb_size_def hb_next_def hb_free_def set_size_def set_next_def set_free_def
      ld32_st32_other ld32_upd_other st32_other)

lemma hb_next_same [simp]: "w < 4294967296 \<Longrightarrow> hb_next (set_next b w m) b = w"
  by (simp add: hb_next_def set_next_def unat_of_nat)

lemma hb_other:
  assumes "b + 12 \<le> c \<or> c + 12 \<le> b"
  shows "hb_size (set_size b v m) c = hb_size m c" "hb_next (set_size b v m) c = hb_next m c"
    "hb_free (set_size b v m) c = hb_free m c"
    "hb_size (set_next b w m) c = hb_size m c" "hb_next (set_next b w m) c = hb_next m c"
    "hb_free (set_next b w m) c = hb_free m c"
    "hb_size (set_free b u m) c = hb_size m c" "hb_next (set_free b u m) c = hb_next m c"
    "hb_free (set_free b u m) c = hb_free m c"
  using assms
  by (auto simp: hb_size_def hb_next_def hb_free_def set_size_def set_next_def set_free_def
      ld32_st32_other ld32_upd_other st32_other)

lemma same_on_header_writes:
  assumes "{b..<b + HB} \<inter> A = {}" and "same_on A m m0"
  shows "same_on A m (set_size b v m0)" "same_on A m (set_next b w m0)" "same_on A m (set_free b u m0)"
  using assms by (auto simp: set_size_def set_next_def set_free_def const_defs disjoint_iff
      intro!: same_on_st32 same_on_upd)

lemma same_on_header_writes_comp:
  assumes "b + HB \<le> lo \<or> hi \<le> b" and "same_on {lo..<hi} m m0"
  shows "same_on {lo..<hi} m (set_size b v m0)" "same_on {lo..<hi} m (set_next b w m0)"
    "same_on {lo..<hi} m (set_free b u m0)"
  using assms by (auto intro!: same_on_header_writes simp: const_defs)

section \<open>The operations on the list of blocks\<close>

lemma unat_of_nat_small: "n < 4294967296 \<Longrightarrow> unat (word_of_nat n :: u32) = n"
  by (simp add: unat_of_nat)

lemma chain_in_heap: "chain m a ((n, f) # bs) \<Longrightarrow> a + HB + n \<le> HEAP_END"
  using chain_total [of m a "(n, f) # bs"] by simp

text \<open>Merging a block with its free successor.\<close>

lemma chain_merge:
  assumes c: "chain m a ((n, True) # (k, True) # bs)"
  defines "m1 \<equiv> set_size a (hb_size m a + (word_of_nat HB + hb_size m (a + HB + n))) m"
  defines "m2 \<equiv> set_next a (hb_next m1 (hb_next m1 a)) m1"
  shows "chain m2 a ((n + HB + k, True) # bs)" and "same_on (- {a..<a + HB}) m m2"
proof -
  let ?b = "a + HB + n"
  have tot: "a + HB + n + HB + k \<le> HEAP_END"
    using chain_total [OF c] by simp
  have sz: "hb_size m a + (word_of_nat HB + hb_size m ?b) = word_of_nat (n + HB + k)"
    using c by (auto simp flip: word_unat_eq_iff)
  have nx: "hb_next m1 a = ?b" "hb_next m1 ?b = hb_next m ?b" "hb_free m1 a = hb_free m a"
      "hb_size m1 a = word_of_nat (n + HB + k)"
    using c unfolding m1_def sz by (simp_all add: hb_other const_defs)
  have lt: "hb_next m ?b < 4294967296" using c tot by (simp add: const_defs)
  show frame: "same_on (- {a..<a + HB}) m m2"
    unfolding m2_def m1_def by (intro same_on_header_writes same_on_refl) auto
  have tail: "chain m2 (a + HB + n + HB + k) bs"
    by (rule chain_cong [where m = m]) (use c frame in \<open>auto intro!: same_on_mono [OF frame] dest: hdr_bytes_range\<close>)
  have "unat (hb_size m2 a) = n + HB + k"
    unfolding m2_def hb_same nx(4) by (rule unat_of_nat_small) (use tot in \<open>simp add: const_defs\<close>)
  moreover have "hb_next m2 a = (if bs = [] then 0 else a + HB + (n + HB + k))"
    using c lt nx(1,2) by (simp add: m2_def add.assoc)
  moreover have "hb_free m2 a \<noteq> 0" using c nx(3) by (simp add: m2_def)
  ultimately show "chain m2 a ((n + HB + k, True) # bs)"
    using tail by (simp add: add.assoc)
qed

lemma hdr_bytes_merge: "hdr_bytes a ((n + HB + k, True) # bs) \<subseteq> hdr_bytes a ((n, True) # (k, True) # bs)"
  by (auto simp: ac_simps)

lemma heap_coalesce_loop_chain:
  "chain m a bs \<Longrightarrow> bs \<noteq> [] \<Longrightarrow> 0 < a \<Longrightarrow>
   \<exists>m'. heap_coalesce_loop a m = Some m' \<and> chain m' a (coalesce bs) \<and> same_on (- hdr_bytes a bs) m m'"
proof (induction bs arbitrary: m a rule: coalesce.induct)
  case 1
  then show ?case by simp
next
  case (2 b)
  then show ?case by (cases b) (auto simp: heap_coalesce_loop.simps)
next
  case (3 n f k g bs)
  have le: "a + HB + n + HB + k \<le> HEAP_END" using chain_total [OF 3(3)] by simp
  have hd: "hb_next m a = a + HB + n" "padd (padd a HB) (unat (hb_size m a)) = a + HB + n"
      "0 < a + HB + n"
    using 3(3) le 3(5) by (auto simp: const_defs)
  show ?case
  proof (cases "f \<and> g")
    case True
    define m1 where "m1 = set_size a (hb_size m a + (word_of_nat HB + hb_size m (a + HB + n))) m"
    define m2 where "m2 = set_next a (hb_next m1 (hb_next m1 a)) m1"
    have c0: "chain m a ((n, True) # (k, True) # bs)" using 3(3) True by simp
    have c: "chain m2 a ((n + HB + k, True) # bs)" "same_on (- {a..<a + HB}) m m2"
      unfolding m2_def m1_def by (rule chain_merge [OF c0])+
    have step: "heap_coalesce_loop a m = heap_coalesce_loop a m2"
      unfolding m2_def m1_def
      by (subst heap_coalesce_loop.simps) (use hd True 3(3) 3(5) in \<open>simp add: Let_def\<close>)
    obtain m' where "heap_coalesce_loop a m2 = Some m'" "chain m' a (coalesce ((n + HB + k, True) # bs))"
        "same_on (- hdr_bytes a ((n + HB + k, True) # bs)) m2 m'"
      using 3(1) [OF True c(1)] 3(5) by auto
    moreover have "same_on (- hdr_bytes a ((n, f) # (k, g) # bs)) m m'"
      using hdr_bytes_merge [of a n k bs] True
      by (intro same_on_trans [OF same_on_mono [OF c(2)] same_on_mono [OF calculation(3)]]) auto
    ultimately show ?thesis using step True by auto
  next
    case False
    have step: "heap_coalesce_loop a m = heap_coalesce_loop (a + HB + n) m"
      by (subst heap_coalesce_loop.simps) (use hd False 3(3) 3(5) in \<open>auto simp: Let_def\<close>)
    have c: "chain m (a + HB + n) ((k, g) # bs)" using 3(3) by simp
    obtain m' where m': "heap_coalesce_loop (a + HB + n) m = Some m'"
        "chain m' (a + HB + n) (coalesce ((k, g) # bs))"
        "same_on (- hdr_bytes (a + HB + n) ((k, g) # bs)) m m'"
      using 3(2) [OF False c _ hd(3)] by auto
    have low: "same_on {a..<a + HB} m m'"
      by (rule same_on_mono [OF m'(3)]) (auto dest: hdr_bytes_range)
    have ne: "coalesce ((k, g) # bs) \<noteq> []" by (induction "(k, g) # bs" arbitrary: k g bs rule: coalesce.induct) auto
    have "chain m' a ((n, f) # coalesce ((k, g) # bs))"
      using 3(3) m'(2) header_cong [OF low] ne by simp
    moreover have "same_on (- hdr_bytes a ((n, f) # (k, g) # bs)) m m'"
      by (rule same_on_mono [OF m'(3)]) auto
    ultimately show ?thesis using step m'(1) False by auto
  qed
qed

text \<open>Taking a free block, with and without a split.\<close>

lemma same_on_tail:
  assumes "chain m (a + HB + n) bs" and "same_on (- {a..<a + HB + n}) m m'"
  shows "chain m' (a + HB + n) bs"
  by (rule chain_cong [OF assms(1)])
    (auto intro!: same_on_mono [OF assms(2)] dest: hdr_bytes_range)

lemma kmalloc_take_whole:
  assumes c: "chain m a ((n, True) # bs)" and no: "\<not> need + word_of_nat HB + 8 \<le> hb_size m a"
  shows "chain (kmalloc_take need a m) a ((n, False) # bs)"
    and "same_on (- {a..<a + HB}) m (kmalloc_take need a m)"
proof -
  have t: "kmalloc_take need a m = set_free a 0 m"
    using no by (simp add: kmalloc_take_def)
  show f: "same_on (- {a..<a + HB}) m (kmalloc_take need a m)"
    unfolding t by (rule same_on_header_writes) auto
  have "chain (kmalloc_take need a m) (a + HB + n) bs"
    by (rule same_on_tail) (use c in \<open>auto intro!: same_on_mono [OF f]\<close>)
  then show "chain (kmalloc_take need a m) a ((n, False) # bs)"
    using c unfolding t by simp
qed

lemma kmalloc_take_split:
  assumes c: "chain m a ((n, True) # bs)" and yes: "need + word_of_nat HB + 8 \<le> hb_size m a"
    and fits: "unat need + HB + 8 \<le> n"
  shows "chain (kmalloc_take need a m) a ((unat need, False) # (n - unat need - HB, True) # bs)"
    and "same_on (- ({a..<a + HB} \<union> {a + HB + unat need..<a + HB + unat need + HB})) m (kmalloc_take need a m)"
proof -
  define d where "d = a + HB + unat need"
  define rest where "rest = hb_size m a - need - word_of_nat HB"
  define m1 where "m1 = set_free d 1 (set_next d (hb_next (set_size d rest m) a) (set_size d rest m))"
  have tot: "a + HB + n \<le> HEAP_END" using chain_in_heap [OF c] .
  have d: "padd (padd a HB) (unat need) = d" "d < 4294967296" "a + 12 \<le> d"
    using tot fits by (simp_all add: d_def const_defs)
  have t: "kmalloc_take need a m = set_free a 0 (set_size a need (set_next a d m1))"
    using yes by (simp add: kmalloc_take_def Let_def d(1) m1_def rest_def)
  have hsz: "unat (hb_size m a) = n" using c by simp
  have "rest = word_of_nat (n - unat need - HB)"
    using fits by (simp add: rest_def hsz [symmetric] of_nat_diff)
  then have rest: "unat rest = n - unat need - HB"
    using tot by (simp add: unat_of_nat_small const_defs)
  have nxt: "hb_next (set_size d rest m) a = hb_next m a" "hb_next m a < 4294967296"
    using hb_other [of d a] d c tot by (auto simp: const_defs)
  show f: "same_on (- ({a..<a + HB} \<union> {a + HB + unat need..<a + HB + unat need + HB})) m (kmalloc_take need a m)"
    unfolding t m1_def d_def by (intro same_on_header_writes same_on_refl) auto
  have tail: "chain (kmalloc_take need a m) (a + HB + n) bs"
    by (rule same_on_tail) (use c fits in \<open>auto intro!: same_on_mono [OF f]\<close>)
  have D: "hb_size (kmalloc_take need a m) d = rest" "hb_free (kmalloc_take need a m) d = 1"
      "hb_next (kmalloc_take need a m) d = hb_next m a"
    using d nxt unfolding t m1_def by (simp_all add: hb_other)
  have A: "hb_size (kmalloc_take need a m) a = need" "hb_free (kmalloc_take need a m) a = 0"
      "hb_next (kmalloc_take need a m) a = d"
    using d unfolding t by simp_all
  have e: "d + HB + (n - (unat need + HB)) = a + HB + n" "d + (n - (unat need + HB)) = a + n"
    using fits by (simp_all add: d_def)
  show "chain (kmalloc_take need a m) a ((unat need, False) # (n - unat need - HB, True) # bs)"
    using A D c rest tail by (simp add: d_def [symmetric] e)
qed

lemma fit_hdr_bytes: "fit need a bs = Some (p, bs') \<Longrightarrow> hdr_bytes a bs \<subseteq> hdr_bytes a bs'"
  by (induction need a bs arbitrary: p bs' rule: fit.induct)
    (force split: if_splits simp: add.assoc)+

lemma split_test:
  assumes "unat (need :: u32) \<le> HEAP_SIZE"
  shows "(need + word_of_nat HB + 8 \<le> v) = (unat need + HB + 8 \<le> unat v)"
proof -
  have "unat (need + word_of_nat HB + 8) = unat need + HB + 8"
    using assms by (simp add: const_defs unat_word_ariths unat_of_nat)
  then show ?thesis by (simp add: word_le_nat_alt)
qed

lemma fit_ne: "fit need a bs = Some (p, bs') \<Longrightarrow> bs' \<noteq> []"
  by (induction need a bs rule: fit.induct) (auto split: if_splits)

lemma kmalloc_loop_fit:
  assumes "chain m a bs" and "bs \<noteq> []" and "0 < a" and need: "unat need \<le> HEAP_SIZE"
  shows "case fit (unat need) a bs of
           None \<Rightarrow> kmalloc_loop need a m = Some (m, 0)
         | Some (p, bs') \<Rightarrow> \<exists>m'. kmalloc_loop need a m = Some (m', p) \<and> chain m' a bs' \<and>
             same_on (- hdr_bytes a bs') m m'"
  using assms(1-3)
proof (induction bs arbitrary: a)
  case (Cons b bs)
  obtain n f where b: "b = (n, f)" by (cases b)
  have c: "chain m a ((n, f) # bs)" using Cons.prems b by simp
  have le: "a + HB + n \<le> HEAP_END" using chain_in_heap [OF c] .
  have hs: "unat (hb_size m a) = n" "(hb_free m a \<noteq> 0) = f" "padd a HB = a + HB"
    using c le by (auto simp: const_defs)
  show ?case
  proof (cases "f \<and> unat need \<le> n")
    case True
    then have now: "kmalloc_loop need a m = Some (kmalloc_take need a m, a + HB)"
      using hs Cons.prems(3) by (subst kmalloc_loop.simps) (auto simp: word_le_nat_alt)
    have c: "chain m a ((n, True) # bs)" using c True by simp
    note sp = split_test [OF need, of "hb_size m a", unfolded hs]
    show ?thesis
    proof (cases "unat need + HB + 8 \<le> n")
      case split: True
      let ?bs = "(unat need, False) # (n - unat need - HB, True) # bs"
      have "same_on (- hdr_bytes a ?bs) m (kmalloc_take need a m)"
        by (rule same_on_mono [OF kmalloc_take_split(2) [OF c sp [THEN iffD2, OF split] split]]) auto
      then show ?thesis
        using kmalloc_take_split(1) [OF c sp [THEN iffD2, OF split] split] split now True
        by (simp add: b del: chain.simps hdr_bytes.simps)
    next
      case False
      then have no: "\<not> need + word_of_nat HB + 8 \<le> hb_size m a" using sp by simp
      have "same_on (- hdr_bytes a ((n, False) # bs)) m (kmalloc_take need a m)"
        by (rule same_on_mono [OF kmalloc_take_whole(2) [OF c no]]) auto
      then show ?thesis
        using kmalloc_take_whole(1) [OF c no] False now True
        by (simp add: b del: chain.simps hdr_bytes.simps)
    qed
  next
    case False
    then have step: "kmalloc_loop need a m = kmalloc_loop need (hb_next m a) m"
      using hs Cons.prems(3) by (subst kmalloc_loop.simps) (auto simp: word_le_nat_alt)
    show ?thesis
    proof (cases "bs = []")
      case True
      then show ?thesis using False step c b by (subst step) (auto simp: kmalloc_loop.simps [of need 0])
    next
      case ne: False
      have ih: "case fit (unat need) (a + HB + n) bs of
           None \<Rightarrow> kmalloc_loop need (a + HB + n) m = Some (m, 0)
         | Some (p, bs') \<Rightarrow> \<exists>m'. kmalloc_loop need (a + HB + n) m = Some (m', p) \<and>
             chain m' (a + HB + n) bs' \<and> same_on (- hdr_bytes (a + HB + n) bs') m m'"
        using Cons.IH [of "a + HB + n"] c ne Cons.prems(3) by simp
      have nx: "hb_next m a = a + HB + n" using c ne by simp
      show ?thesis
      proof (cases "fit (unat need) (a + HB + n) bs")
        case None
        then show ?thesis using ih False step nx by (auto simp: b)
      next
        case (Some r)
        obtain p bs' where r: "r = (p, bs')" by (cases r)
        obtain m' where m': "kmalloc_loop need (a + HB + n) m = Some (m', p)"
            "chain m' (a + HB + n) bs'" "same_on (- hdr_bytes (a + HB + n) bs') m m'"
          using ih Some r by auto
        have low: "same_on {a..<a + HB} m m'"
          by (rule same_on_mono [OF m'(3)]) (auto dest: hdr_bytes_range)
        have "chain m' a ((n, f) # bs')"
          using c m'(2) ne fit_ne Some r header_cong [OF low] by simp
        moreover have "same_on (- hdr_bytes a ((n, f) # bs')) m m'"
          by (rule same_on_mono [OF m'(3)]) auto
        ultimately show ?thesis using False step nx m'(1) Some r by (auto simp: b)
      qed
    qed
  qed
qed simp

section \<open>What the list operations do to the regions\<close>

lemma fit_used:
  "fit need a bs = Some (p, bs') \<Longrightarrow>
   \<exists>n\<ge>need. used_at a bs' = insert (p, n) (used_at a bs) \<and> (p, n) \<notin> used_at a bs \<and> a + HB \<le> p"
proof (induction need a bs arbitrary: p bs' rule: fit.induct)
  case (2 need a n f bs)
  have later: "(a + HB, k) \<notin> used_at (a + HB + n) bs" for k
    using used_at_range [of "a + HB" k "a + HB + n" bs] by (auto simp: const_defs)
  show ?case
  proof (cases "f \<and> need \<le> n")
    case True
    then show ?thesis using 2(2) later
      by (auto split: if_splits simp: add.assoc)
  next
    case False
    then obtain bs1 where bs1: "fit need (a + HB + n) bs = Some (p, bs1)" "bs' = (n, f) # bs1"
      using 2(2) by auto
    then obtain k where "k \<ge> need" "used_at (a + HB + n) bs1 = insert (p, k) (used_at (a + HB + n) bs)"
        "(p, k) \<notin> used_at (a + HB + n) bs" "a + HB + n + HB \<le> p"
      using 2(1) [OF False] by blast
    then show ?thesis using bs1 by (intro exI [of _ k]) (auto simp: const_defs)
  qed
qed simp

lemma coalesce_used: "used_at a (coalesce bs) = used_at a bs"
  by (induction bs arbitrary: a rule: coalesce.induct) (auto simp: add.assoc)

lemma coalesce_total: "blocks_total (coalesce bs) = blocks_total bs"
  by (induction bs rule: coalesce.induct) auto

lemma coalesce_head_used: "\<exists>k bs'. coalesce ((n, False) # bs) = (n, False) # bs'"
  by (cases bs) auto

lemma coalesce_no_adjacent: "no_adjacent_free (coalesce bs)"
proof (induction bs rule: coalesce.induct)
  case (2 b)
  then show ?case by (cases b) simp
next
  case (3 n f k g bs)
  show ?case
  proof (cases "f \<and> g")
    case False
    obtain k' g' bs' where c: "coalesce ((k, g) # bs) = (k', g') # bs'" and g': "\<not> g \<Longrightarrow> \<not> g'"
    proof (cases g)
      case True
      have "coalesce ((k, g) # bs) \<noteq> []"
        by (induction "(k, g) # bs" arbitrary: k g bs rule: coalesce.induct) auto
      then show thesis using that True by (metis list.exhaust surj_pair)
    next
      case False
      then show thesis using that coalesce_head_used [of k bs] by auto
    qed
    show ?thesis using 3(2) [OF False] False c g' by auto
  qed (use 3 in auto)
qed simp

lemma fit_head: "fit need a ((n, f) # bs) = Some (p, bs') \<Longrightarrow> \<exists>k g r. bs' = (k, g) # r \<and> (g \<longrightarrow> f)"
  by (auto split: if_splits)

lemma fit_no_adjacent: "fit need a bs = Some (p, bs') \<Longrightarrow> no_adjacent_free bs \<Longrightarrow> no_adjacent_free bs'"
proof (induction need a bs arbitrary: p bs' rule: fit.induct)
  case (2 need a n f bs)
  show ?case
  proof (cases "f \<and> need \<le> n")
    case True
    then show ?thesis using 2 by (cases bs) (auto split: if_splits)
  next
    case False
    then obtain bs1 where bs1: "fit need (a + HB + n) bs = Some (p, bs1)" "bs' = (n, f) # bs1"
      using 2(2) by auto
    have tl: "no_adjacent_free bs" using 2(3) by (cases bs) auto
    obtain k g r where b: "bs = (k, g) # r" using bs1(1) by (cases bs) auto
    show ?thesis
      using 2(1) [OF False bs1(1) tl] fit_head [OF bs1(1) [unfolded b]] 2(3) b bs1(2) by auto
  qed
qed simp

lemma mark_free_used:
  "(p, n) \<in> used_at a bs \<Longrightarrow> used_at a (mark_free p a bs) = used_at a bs - {(p, n)}"
proof (induction a bs rule: used_at.induct)
  case (2 a k f bs)
  have later: "(a + HB, j) \<notin> used_at (a + HB + k) bs" for j
    using used_at_range [of "a + HB" j "a + HB + k" bs] by (auto simp: const_defs)
  show ?case
  proof (cases "p = a + HB")
    case True
    then show ?thesis using 2(2) later by (auto split: if_splits)
  next
    case False
    then show ?thesis using 2 by (auto split: if_splits)
  qed
qed simp

lemma mark_free_chain:
  "chain m a bs \<Longrightarrow> (p, n) \<in> used_at a bs \<Longrightarrow> chain (set_free (p - HB) 1 m) a (mark_free p a bs)"
proof (induction bs arbitrary: a)
  case (Cons b bs)
  obtain k f where b: "b = (k, f)" by (cases b)
  show ?case
  proof (cases "p = a + HB")
    case True
    then have e: "p - HB = a" by simp
    have "chain (set_free a 1 m) (a + HB + k) bs"
      by (rule same_on_tail [where m = m]) (use Cons.prems b in \<open>auto intro!: same_on_header_writes\<close>)
    then show ?thesis using Cons.prems(1) True b by (simp add: e)
  next
    case False
    then have u: "(p, n) \<in> used_at (a + HB + k) bs" using Cons.prems(2) b by (auto split: if_splits)
    have "a + HB + k \<le> p - HB" using used_at_range [OF u] by linarith
    moreover have ne: "bs \<noteq> []" using u by auto
    then have "mark_free p (a + HB + k) bs \<noteq> []" by (cases bs) (auto split: if_splits)
    ultimately show ?thesis using u ne
      using Cons.prems(1) Cons.IH [of "a + HB + k"] False b
      by (auto simp: hb_other const_defs)
  qed
qed simp

lemma mark_free_hdr: "hdr_bytes a (mark_free p a bs) = hdr_bytes a bs"
  by (induction p a bs rule: mark_free.induct) auto

lemma used_hdr_disjoint: "(p, n) \<in> used_at a bs \<Longrightarrow> region_bytes (p, n) \<inter> hdr_bytes a bs = {}"
proof (induction a bs rule: used_at.induct)
  case (2 a k f bs)
  show ?case
  proof (cases "(p, n) \<in> used_at (a + HB + k) bs")
    case True
    then show ?thesis using 2(1) used_at_range [OF True] by (auto simp: region_bytes_def)
  next
    case False
    then show ?thesis using 2(2)
      by (auto simp: region_bytes_def dest!: hdr_bytes_range split: if_splits)
  qed
qed simp

lemma used_header: "(p, n) \<in> used_at a bs \<Longrightarrow> {p - HB..<p} \<subseteq> hdr_bytes a bs"
  by (induction a bs rule: used_at.induct) (auto split: if_splits)

lemma used_separate: "separate (used_at a bs)"
proof (induction a bs rule: used_at.induct)
  case (2 a k f bs)
  have "region_bytes (a + HB, k) \<inter> region_bytes q = {}" if "q \<in> used_at (a + HB + k) bs" for q
    using that used_at_range [of "fst q" "snd q" "a + HB + k" bs] by (auto simp: region_bytes_def)
  then show ?case using 2 unfolding separate_def by (auto simp: Int_commute split: if_splits)
qed (simp add: separate_def)

lemma used_address: "(p, n) \<in> used_at a bs \<Longrightarrow> (p, k) \<in> used_at a bs \<Longrightarrow> n = k"
proof (induction a bs rule: used_at.induct)
  case (2 a j f bs)
  have later: "(a + HB, i) \<notin> used_at (a + HB + j) bs" for i
    using used_at_range [of "a + HB" i "a + HB + j" bs] by (auto simp: const_defs)
  then show ?case using 2 by (auto split: if_splits)
qed simp

section \<open>The heap implements the allocator contract\<close>

definition sizes_ok :: "blocks \<Rightarrow> bool" where
  "sizes_ok bs \<longleftrightarrow> (\<forall>b\<in>set bs. 8 \<le> fst b)"

lemma sizes_ok_coalesce: "sizes_ok bs \<Longrightarrow> sizes_ok (coalesce bs)"
  by (induction bs rule: coalesce.induct) (auto simp: sizes_ok_def)

lemma sizes_ok_mark_free: "sizes_ok bs \<Longrightarrow> sizes_ok (mark_free p a bs)"
  by (induction p a bs rule: mark_free.induct) (auto simp: sizes_ok_def)

lemma sizes_ok_fit: "fit need a bs = Some (p, bs') \<Longrightarrow> 8 \<le> need \<Longrightarrow> sizes_ok bs \<Longrightarrow> sizes_ok bs'"
  by (induction need a bs arbitrary: p bs' rule: fit.induct) (fastforce simp: sizes_ok_def split: if_splits)+

lemma sizes_ok_used: "(p, n) \<in> used_at a bs \<Longrightarrow> sizes_ok bs \<Longrightarrow> 8 \<le> n"
  by (induction a bs rule: used_at.induct) (auto simp: sizes_ok_def split: if_splits)

definition heap_wf :: "mm \<Rightarrow> bool" where
  "heap_wf s \<longleftrightarrow> heap_ready s \<and> heap_head s = HEAP_START \<and>
     (\<exists>bs. bs \<noteq> [] \<and> chain (ram s) HEAP_START bs \<and> no_adjacent_free bs \<and> sizes_ok bs)"

definition heap_live :: "mm \<Rightarrow> region set" where
  "heap_live s = (\<Union>bs\<in>{bs. chain (ram s) HEAP_START bs}. used_at HEAP_START bs)"

lemma chain_Nil_iff: "chain m a bs \<Longrightarrow> bs = [] \<longleftrightarrow> a = HEAP_END"
  using chain_total [of m a bs] by (cases bs) (auto simp: HB_def)

lemma chain_unique: "chain m a bs \<Longrightarrow> chain m a bs' \<Longrightarrow> bs = bs'"
proof (induction bs arbitrary: a bs')
  case Nil
  then show ?case using chain_Nil_iff by blast
next
  case (Cons b bs)
  then have "bs' \<noteq> []" using chain_Nil_iff by blast
  then obtain b' r where bs': "bs' = b' # r" by (cases bs') auto
  have "b' = b" using Cons.prems bs' by (cases b; cases b') auto
  then show ?case using Cons.prems Cons.IH bs' by (cases b) auto
qed

lemma heap_live_eq: "chain (ram s) HEAP_START bs \<Longrightarrow> heap_live s = used_at HEAP_START bs"
  unfolding heap_live_def using chain_unique by blast

lemma align_down: "unat (w AND NOT 7 :: u32) = unat w div 8 * 8"
proof -
  have "w AND NOT 7 = push_bit 3 (drop_bit 3 w)"
  proof (rule bit_word_eqI)
    fix n assume "n < LENGTH(32)"
    have m3: "(7 :: u32) = mask 3" by (simp add: mask_eq_exp_minus_1)
    show "bit (w AND NOT 7) n = bit (push_bit 3 (drop_bit 3 w)) n"
      using \<open>n < LENGTH(32)\<close> unfolding m3
      by (auto simp: bit_and_iff bit_not_iff bit_mask_iff bit_push_bit_iff bit_drop_bit_eq possible_bit_word)
  qed
  moreover have "unat w div 8 * 8 < 4294967296"
    using unat_u32_less [of w] by (meson le_less_trans div_times_less_eq_dividend)
  moreover have "unat (push_bit 3 (drop_bit 3 w)) = take_bit 32 (unat w div 8 * 8)"
    by (simp only: unsigned_push_bit_eq unsigned_drop_bit_eq)
      (simp add: push_bit_eq_mult drop_bit_eq_div take_bit_nat_eq_self)
  ultimately show ?thesis by (simp add: take_bit_nat_eq_self)
qed

lemma heap_align8_unat:
  "unat (heap_align8 v) = (if unat v + 7 < 4294967296 then (unat v + 7) div 8 * 8 else 0)"
proof -
  have "unat (v + 7) = (unat v + 7) mod 4294967296" by (simp add: unat_word_ariths)
  moreover have "(unat v + 7) mod 4294967296 = unat v + 7 - 4294967296" if "\<not> unat v + 7 < 4294967296"
  proof (rule mod_nat_eqI)
    show "unat v + 7 - 4294967296 < 4294967296" using unat_u32_less [of v] by linarith
  qed (use that in auto)
  moreover have "unat v + 7 - 4294967296 < 8" using unat_u32_less [of v] by linarith
  ultimately show ?thesis unfolding heap_align8_def align_down by auto
qed

lemma heap_align8_ge:
  assumes "unat (heap_align8 v) \<noteq> 0"
  shows "unat v \<le> unat (heap_align8 v)" and "8 \<le> unat (heap_align8 v)"
proof -
  have e: "unat (heap_align8 v) = (unat v + 7) div 8 * 8"
    using assms heap_align8_unat [of v] by presburger
  then show "unat v \<le> unat (heap_align8 v)" by simp
  show "8 \<le> unat (heap_align8 v)" using e assms by (cases "(unat v + 7) div 8") auto
qed

text \<open>\<open>kmalloc\<close> on the block list: nothing for a size it refuses, else the first block that fits.\<close>

definition kmalloc_need :: "u32 \<Rightarrow> nat option" where
  "kmalloc_need sz = (let need = unat (heap_align8 sz) in
     if sz = 0 \<or> need = 0 \<or> HEAP_SIZE < need then None else Some need)"

lemma heap_wfE:
  assumes "heap_wf s"
  obtains bs where "heap_ready s" "heap_head s = HEAP_START" "bs \<noteq> []" "chain (ram s) HEAP_START bs"
    "no_adjacent_free bs" "sizes_ok bs"
  using assms unfolding heap_wf_def by blast

lemma kmalloc_refused: "kmalloc_need sz = None \<Longrightarrow> kmalloc sz s = Some (s, 0)"
  by (auto simp: kmalloc_need_def kmalloc_def Let_def unat_eq_0 word_less_nat_alt unat_of_nat_small const_defs
      split: if_splits)

lemma kmalloc_list:
  assumes "heap_ready s" "heap_head s = HEAP_START" "chain (ram s) HEAP_START bs" "bs \<noteq> []"
    and need: "kmalloc_need sz = Some need"
  shows "case fit need HEAP_START bs of
      None \<Rightarrow> kmalloc sz s = Some (s, 0)
    | Some (p, bs') \<Rightarrow> \<exists>m. kmalloc sz s = Some (s\<lparr>ram := m\<rparr>, p) \<and> chain m HEAP_START bs' \<and>
        same_on (- hdr_bytes HEAP_START bs') (ram s) m"
proof -
  have n: "unat (heap_align8 sz) = need" "need \<le> HEAP_SIZE"
    "\<not> (heap_align8 sz = 0 \<or> heap_align8 sz > word_of_nat HEAP_SIZE)" "sz \<noteq> 0"
    using need by (auto simp: kmalloc_need_def Let_def word_less_nat_alt unat_of_nat_small const_defs split: if_splits)
  have "kmalloc sz s = map_option (\<lambda>(m, p). (s\<lparr>ram := m\<rparr>, p)) (kmalloc_loop (heap_align8 sz) HEAP_START (ram s))"
    using assms n by (simp add: kmalloc_def Let_def)
  then show ?thesis
    using kmalloc_loop_fit [OF assms(3,4), of "heap_align8 sz"] n
    by (auto simp: const_defs split: option.splits)
qed

lemma live_hdr_frame: "same_on (- hdr_bytes a bs) m m' \<Longrightarrow> same_on (live_bytes (used_at a bs)) m m'"
  by (erule same_on_mono) (use used_hdr_disjoint in \<open>fastforce simp: live_bytes_def\<close>)

lemma kmalloc_alloc_law:
  assumes "heap_wf s"
  shows "\<exists>s' p. kmalloc sz s = Some (s', p) \<and> heap_wf s' \<and>
      same_on (live_bytes (heap_live s)) (ram s) (ram s') \<and>
      (if p = 0 then heap_live s' = heap_live s
       else \<exists>n\<ge>unat sz. (p, n) \<notin> heap_live s \<and> heap_live s' = insert (p, n) (heap_live s))"
proof -
  obtain bs where w: "heap_ready s" "heap_head s = HEAP_START" "bs \<noteq> []" "chain (ram s) HEAP_START bs"
    "no_adjacent_free bs" "sizes_ok bs" using assms by (rule heap_wfE)
  show ?thesis
  proof (cases "kmalloc_need sz")
    case None
    then show ?thesis using kmalloc_refused assms by auto
  next
    case (Some need)
    then have ge: "unat sz \<le> need" "8 \<le> need"
      using heap_align8_ge [of sz] by (auto simp: kmalloc_need_def Let_def split: if_splits)
    note l = kmalloc_list [OF w(1,2,4,3) Some]
    show ?thesis
    proof (cases "fit need HEAP_START bs")
      case None
      then show ?thesis using l assms by auto
    next
      case f: (Some r)
      then obtain p bs' where r: "fit need HEAP_START bs = Some (p, bs')" by (cases r) auto
      obtain m where m: "kmalloc sz s = Some (s\<lparr>ram := m\<rparr>, p)" "chain m HEAP_START bs'"
        "same_on (- hdr_bytes HEAP_START bs') (ram s) m" using l r by auto
      obtain n where n: "n \<ge> need" "used_at HEAP_START bs' = insert (p, n) (used_at HEAP_START bs)"
        "(p, n) \<notin> used_at HEAP_START bs" "HEAP_START + HB \<le> p" using fit_used [OF r] by blast
      have live: "heap_live (s\<lparr>ram := m\<rparr>) = insert (p, n) (heap_live s)" "(p, n) \<notin> heap_live s"
        using heap_live_eq [OF w(4)] heap_live_eq [of "s\<lparr>ram := m\<rparr>" bs'] m(2) n by simp_all
      have "same_on (live_bytes (heap_live s)) (ram s) m"
        unfolding heap_live_eq [OF w(4)]
        by (rule same_on_mono [OF live_hdr_frame [OF m(3)] live_bytes_mono]) (auto simp: n(2))
      moreover have "heap_wf (s\<lparr>ram := m\<rparr>)"
        using w m fit_ne [OF r] fit_no_adjacent [OF r w(5)] sizes_ok_fit [OF r ge(2) w(6)] unfolding heap_wf_def by auto
      moreover have "p \<noteq> 0" using n(4) by (simp add: const_defs)
      ultimately show ?thesis using m(1) live n(1) ge
        by (intro exI [of _ "s\<lparr>ram := m\<rparr>"] exI [of _ p]) (auto intro: le_trans)
    qed
  qed
qed

lemma kfree_release_law:
  assumes "heap_wf s" and "(p, n) \<in> heap_live s"
  shows "\<exists>s'. kfree p s = Some s' \<and> heap_wf s' \<and> heap_live s' = heap_live s - {(p, n)} \<and>
     same_on (live_bytes (heap_live s')) (ram s) (ram s')"
proof -
  obtain bs where w: "heap_ready s" "heap_head s = HEAP_START" "bs \<noteq> []" "chain (ram s) HEAP_START bs"
    "no_adjacent_free bs" "sizes_ok bs" using assms(1) by (rule heap_wfE)
  have u: "(p, n) \<in> used_at HEAP_START bs" using assms(2) heap_live_eq [OF w(4)] by simp
  let ?bs = "mark_free p HEAP_START bs" and ?m = "set_free (p - HB) 1 (ram s)"
  have r: "HEAP_START + HB \<le> p" "p + n \<le> HEAP_END"
    using used_at_range [OF u] chain_total [OF w(4)] by auto
  have c: "chain ?m HEAP_START ?bs" using mark_free_chain [OF w(4) u] .
  have ne: "?bs \<noteq> []" using w(3) by (cases bs) (auto split: if_splits)
  obtain m where m: "heap_coalesce_loop HEAP_START ?m = Some m" "chain m HEAP_START (coalesce ?bs)"
      "same_on (- hdr_bytes HEAP_START ?bs) ?m m"
    using heap_coalesce_loop_chain [OF c ne] by (auto simp: const_defs)
  have "p < HEAP_END" using r sizes_ok_used [OF u w(6)] by linarith
  moreover have "HEAP_START \<le> p - HB" "p - HB < HEAP_END" "p \<noteq> 0"
    using r calculation by (simp_all add: const_defs)
  ultimately have k: "kfree p s = Some (s\<lparr>ram := m\<rparr>)"
    using w(1,2) r(1) m(1) by (simp add: kfree_def heap_coalesce_def Let_def)
  have live: "heap_live (s\<lparr>ram := m\<rparr>) = heap_live s - {(p, n)}"
    using heap_live_eq [of "s\<lparr>ram := m\<rparr>" "coalesce ?bs"] heap_live_eq [OF w(4)] m(2) mark_free_used [OF u]
    by (simp add: coalesce_used)
  have "same_on (- hdr_bytes HEAP_START bs) (ram s) ?m"
  proof (rule same_on_header_writes)
    have "{p - HB..<p} \<subseteq> hdr_bytes HEAP_START bs" using used_header [OF u] .
    then show "{p - HB..<p - HB + HB} \<inter> - hdr_bytes HEAP_START bs = {}" using r(1) by auto
  qed simp
  then have "same_on (- hdr_bytes HEAP_START bs) (ram s) m"
    using m(3) mark_free_hdr same_on_trans by simp
  then have "same_on (live_bytes (heap_live s)) (ram s) m"
    unfolding heap_live_eq [OF w(4)] by (rule live_hdr_frame)
  then have "same_on (live_bytes (heap_live (s\<lparr>ram := m\<rparr>))) (ram s) m"
    by (rule same_on_mono) (simp add: live live_bytes_mono)
  moreover have "coalesce ?bs \<noteq> []"
    using chain_Nil_iff [OF m(2)] chain_Nil_iff [OF c] ne by simp
  then have "heap_wf (s\<lparr>ram := m\<rparr>)"
    using w m(2) coalesce_no_adjacent sizes_ok_coalesce [OF sizes_ok_mark_free [OF w(6)]]
    unfolding heap_wf_def by auto
  ultimately show ?thesis using k live by auto
qed

interpretation hp: region_allocator kmalloc kfree unat heap_live ram heap_wf
proof unfold_locales
  fix s :: mm
  assume "heap_wf s"
  then obtain bs where "chain (ram s) HEAP_START bs" by (rule heap_wfE)
  then show "separate (heap_live s)"
    and "(p, n) \<in> heap_live s \<Longrightarrow> (p, k) \<in> heap_live s \<Longrightarrow> n = k" for p n k
    using used_separate used_address by (auto simp: heap_live_eq)
qed (use kmalloc_alloc_law kfree_release_law in auto)

section \<open>Frames: the heap writes inside the heap only\<close>

lemma chain_frame:
  "chain m HEAP_START bs \<Longrightarrow> same_on (- hdr_bytes HEAP_START bs) m0 m' \<Longrightarrow> same_on (- {HEAP_START..<HEAP_END}) m0 m'"
  using chain_total [of m HEAP_START bs] hdr_bytes_range [of _ HEAP_START bs]
  by (elim same_on_mono) auto

lemma kmalloc_frame:
  assumes "heap_wf s" and "kmalloc sz s = Some (s', p)"
  shows "\<exists>m. s' = s\<lparr>ram := m\<rparr> \<and> same_on (- {HEAP_START..<HEAP_END}) (ram s) m"
proof -
  obtain bs where w: "heap_ready s" "heap_head s = HEAP_START" "bs \<noteq> []" "chain (ram s) HEAP_START bs"
    using assms(1) by (rule heap_wfE)
  have triv: ?thesis if "s' = s" using that by (intro exI [of _ "ram s"]) simp
  show ?thesis
  proof (cases "kmalloc_need sz")
    case None
    then show ?thesis using kmalloc_refused [of sz s] assms(2) triv by simp
  next
    case (Some need)
    show ?thesis
      using kmalloc_list [OF w(1,2,4,3) Some] assms(2) triv
      by (auto split: option.splits intro: chain_frame)
  qed
qed

lemma kfree_frame:
  assumes "heap_wf s" and "(p, n) \<in> heap_live s" and "kfree p s = Some s'"
  shows "\<exists>m. s' = s\<lparr>ram := m\<rparr> \<and> same_on (- {HEAP_START..<HEAP_END}) (ram s) m"
proof -
  obtain bs where w: "heap_ready s" "heap_head s = HEAP_START" "bs \<noteq> []" "chain (ram s) HEAP_START bs"
    using assms(1) by (rule heap_wfE)
  have u: "(p, n) \<in> used_at HEAP_START bs" using assms(2) heap_live_eq [OF w(4)] by simp
  let ?bs = "mark_free p HEAP_START bs" and ?m = "set_free (p - HB) 1 (ram s)"
  have c: "chain ?m HEAP_START ?bs" using mark_free_chain [OF w(4) u] .
  have ne: "?bs \<noteq> []" using w(3) by (cases bs) (auto split: if_splits)
  obtain m where m: "heap_coalesce_loop HEAP_START ?m = Some m" "same_on (- hdr_bytes HEAP_START ?bs) ?m m"
    using heap_coalesce_loop_chain [OF c ne] by (auto simp: const_defs)
  have r: "HEAP_START + HB \<le> p" "p \<le> HEAP_END"
    using used_at_range [OF u] chain_total [OF w(4)] by auto
  have "same_on (- {HEAP_START..<HEAP_END}) (ram s) ?m"
    by (rule same_on_header_writes) (use r in auto)
  then have f: "same_on (- {HEAP_START..<HEAP_END}) (ram s) m"
    using chain_frame [OF c m(2)] same_on_trans by blast
  show ?thesis
  proof (cases "s' = s")
    case True
    then show ?thesis by (intro exI [of _ "ram s"]) simp
  next
    case False
    then have "s' = s\<lparr>ram := m\<rparr>"
      using assms(3) m(1) w(2) by (auto simp: kfree_def heap_coalesce_def Let_def split: if_splits)
    then show ?thesis using f by blast
  qed
qed

lemma heap_wf_cong:
  assumes "heap_wf s" and "heap_ready s' = heap_ready s" and "heap_head s' = heap_head s"
    and "same_on {HEAP_START..<HEAP_END} (ram s) (ram s')"
  shows "heap_wf s' \<and> heap_live s' = heap_live s"
proof -
  obtain bs where w: "heap_ready s" "heap_head s = HEAP_START" "bs \<noteq> []" "chain (ram s) HEAP_START bs"
      "no_adjacent_free bs" "sizes_ok bs"
    using assms(1) by (rule heap_wfE)
  have "same_on (hdr_bytes HEAP_START bs) (ram s) (ram s')"
    using assms(4) chain_total [OF w(4)] hdr_bytes_range [of _ HEAP_START bs] by (elim same_on_mono) auto
  then have "chain (ram s') HEAP_START bs" by (rule chain_cong [OF w(4)])
  then show ?thesis using w assms(2,3) heap_live_eq unfolding heap_wf_def by auto
qed

section \<open>The page allocator implements the contract\<close>

lemma pmm_bitmap_test_bit: "pmm_bitmap_test b s = bit (ram s (pmm_bitmap s + b div 8)) (b mod 8)"
  by (simp add: pmm_bitmap_test_def bit_iff_and_push_bit_not_eq_0)

lemma div_mod_8_eq: "b div 8 = c div 8 \<Longrightarrow> b mod 8 = c mod 8 \<Longrightarrow> b = (c :: nat)"
  by (metis div_mult_mod_eq)

lemma bit_u8_flag: "k < 8 \<Longrightarrow> bit (2 ^ k :: u8) j = (j = k)"
  by (auto simp: bit_exp_iff possible_bit_word)

lemma test_set [simp]: "pmm_bitmap_test b (pmm_bitmap_set c s) = (b = c \<or> pmm_bitmap_test b s)"
  by (auto simp: pmm_bitmap_test_bit pmm_bitmap_set_def Let_def bit_or_iff bit_u8_flag dest: div_mod_8_eq)

lemma test_clear [simp]: "pmm_bitmap_test b (pmm_bitmap_clear c s) = (b \<noteq> c \<and> pmm_bitmap_test b s)"
  by (auto simp: pmm_bitmap_test_bit pmm_bitmap_clear_def Let_def bit_and_iff bit_not_iff bit_u8_flag
      possible_bit_word dest: div_mod_8_eq)

lemma pmm_fields [simp]:
  "pmm_max_blocks (pmm_bitmap_set c s) = pmm_max_blocks s" "pmm_max_blocks (pmm_bitmap_clear c s) = pmm_max_blocks s"
  "pmm_reserved_blocks (pmm_bitmap_set c s) = pmm_reserved_blocks s"
  "pmm_reserved_blocks (pmm_bitmap_clear c s) = pmm_reserved_blocks s"
  "pmm_used_blocks (pmm_bitmap_set c s) = pmm_used_blocks s" "pmm_used_blocks (pmm_bitmap_clear c s) = pmm_used_blocks s"
  "pmm_bitmap (pmm_bitmap_set c s) = pmm_bitmap s" "pmm_bitmap (pmm_bitmap_clear c s) = pmm_bitmap s"
  "heap_head (pmm_bitmap_set c s) = heap_head s" "heap_head (pmm_bitmap_clear c s) = heap_head s"
  "heap_ready (pmm_bitmap_set c s) = heap_ready s" "heap_ready (pmm_bitmap_clear c s) = heap_ready s"
  by (simp_all add: pmm_bitmap_set_def pmm_bitmap_clear_def Let_def)

lemma test_used_update [simp]: "pmm_bitmap_test b (s\<lparr>pmm_used_blocks := v\<rparr>) = pmm_bitmap_test b s"
  by (simp add: pmm_bitmap_test_def)

definition bitmap_bytes :: "nat set" where
  "bitmap_bytes = {PMM_BITMAP..<PMM_BITMAP + 131072}"

definition page_index :: "mm \<Rightarrow> nat set" where
  "page_index s = {i. unat (pmm_reserved_blocks s) \<le> i \<and> i < unat (pmm_max_blocks s) \<and> pmm_bitmap_test i s}"

definition page_live :: "mm \<Rightarrow> region set" where
  "page_live s = (\<lambda>i. (i * PAGE_SIZE, PAGE_SIZE)) ` page_index s"

definition pmm_wf :: "mm \<Rightarrow> bool" where
  "pmm_wf s \<longleftrightarrow> pmm_bitmap s = PMM_BITMAP \<and> unat (pmm_max_blocks s) < 1048576 \<and>
     unat (pmm_reserved_blocks s) \<le> unat (pmm_max_blocks s) \<and>
     (unat (pmm_reserved_blocks s) < unat (pmm_max_blocks s) \<longrightarrow>
        HEAP_END \<le> unat (pmm_reserved_blocks s) * PAGE_SIZE) \<and>
     unat (pmm_used_blocks s) = unat (pmm_reserved_blocks s) + card (page_index s)"

lemma finite_page_index [simp]: "finite (page_index s)"
  by (rule finite_subset [of _ "{..<unat (pmm_max_blocks s)}"]) (auto simp: page_index_def)

lemma set_frame:
  assumes "pmm_bitmap s = PMM_BITMAP" and "c < 1048576"
  shows "same_on (- bitmap_bytes) (ram s) (ram (pmm_bitmap_set c s))"
    and "same_on (- bitmap_bytes) (ram s) (ram (pmm_bitmap_clear c s))"
proof -
  have "c div 8 < 131072" using assms(2) by (simp add: less_mult_imp_div_less)
  then show "same_on (- bitmap_bytes) (ram s) (ram (pmm_bitmap_set c s))"
    "same_on (- bitmap_bytes) (ram s) (ram (pmm_bitmap_clear c s))"
    using assms(1) by (auto simp: pmm_bitmap_set_def pmm_bitmap_clear_def Let_def bitmap_bytes_def intro!: same_on_upd)
qed

lemma page_index_set:
  "unat (pmm_reserved_blocks s) \<le> c \<Longrightarrow> c < unat (pmm_max_blocks s) \<Longrightarrow>
   page_index ((pmm_bitmap_set c s)\<lparr>pmm_used_blocks := v\<rparr>) = insert c (page_index s)"
  by (auto simp: page_index_def)

lemma page_index_clear:
  "page_index ((pmm_bitmap_clear c s)\<lparr>pmm_used_blocks := v\<rparr>) = page_index s - {c}"
  by (auto simp: page_index_def)

lemma pmm_alloc_loop_cases:
  "(\<exists>j\<ge>i. j < unat (pmm_max_blocks s) \<and> \<not> pmm_bitmap_test j s \<and> (\<forall>k. i \<le> k \<and> k < j \<longrightarrow> pmm_bitmap_test k s) \<and>
      pmm_alloc_loop i s = ((pmm_bitmap_set j s)\<lparr>pmm_used_blocks := pmm_used_blocks s + 1\<rparr>, j * PAGE_SIZE)) \<or>
   (\<forall>j\<ge>i. j < unat (pmm_max_blocks s) \<longrightarrow> pmm_bitmap_test j s) \<and> pmm_alloc_loop i s = (s, 0)"
proof (induction i s rule: pmm_alloc_loop.induct)
  case (1 i s)
  show ?case
  proof (cases "i < unat (pmm_max_blocks s) \<and> pmm_bitmap_test i s")
    case True
    then have e: "pmm_alloc_loop i s = pmm_alloc_loop (Suc i) s" by (simp add: pmm_alloc_loop.simps [of i])
    have up: "(i \<le> k) = (k = i \<or> Suc i \<le> k)" for k by auto
    show ?thesis using 1 True unfolding e by (auto simp: up)
  next
    case False
    then show ?thesis by (cases "i < unat (pmm_max_blocks s)") (auto simp: pmm_alloc_loop.simps [of i])
  qed
qed

lemma PAGE_SIZE_pos [simp]: "0 < PAGE_SIZE" "PAGE_SIZE \<noteq> 0"
  by (simp_all add: const_defs)

lemma page_of_byte: "i * PAGE_SIZE \<le> x \<Longrightarrow> x < i * PAGE_SIZE + PAGE_SIZE \<Longrightarrow> x div PAGE_SIZE = i"
  by (rule div_nat_eqI) (simp_all add: mult.commute)

lemma pages_above:
  assumes "pmm_wf s" and "r \<in> page_live s"
  shows "region_bytes r \<inter> (bitmap_bytes \<union> {HEAP_START..<HEAP_END}) = {}" and "HEAP_END \<le> fst r"
    and "fst r + snd r < 4294967296"
proof -
  obtain i where i: "r = (i * PAGE_SIZE, PAGE_SIZE)" "unat (pmm_reserved_blocks s) \<le> i" "i < unat (pmm_max_blocks s)"
    using assms(2) by (auto simp: page_live_def page_index_def)
  then have "HEAP_END \<le> unat (pmm_reserved_blocks s) * PAGE_SIZE" using assms(1) by (simp add: pmm_wf_def)
  also have "\<dots> \<le> i * PAGE_SIZE" using i by simp
  finally show le: "HEAP_END \<le> fst r" using i by simp
  then show "region_bytes r \<inter> (bitmap_bytes \<union> {HEAP_START..<HEAP_END}) = {}"
    by (auto simp: region_bytes_def bitmap_bytes_def const_defs)
  show "fst r + snd r < 4294967296" using i assms(1) by (simp add: pmm_wf_def const_defs)
qed

lemma pages_frame: "pmm_wf s \<Longrightarrow> same_on (- bitmap_bytes) m m' \<Longrightarrow> same_on (live_bytes (page_live s)) m m'"
  by (elim same_on_mono) (use pages_above in \<open>fastforce simp: live_bytes_def\<close>)

lemma pmm_alloc_page_cases:
  assumes "pmm_wf s"
  obtains (full) "page_index s = {unat (pmm_reserved_blocks s)..<unat (pmm_max_blocks s)}" "pmm_alloc_page s = (s, 0)"
  | (page) j where "unat (pmm_reserved_blocks s) \<le> j" "j < unat (pmm_max_blocks s)" "j \<notin> page_index s"
      "{unat (pmm_reserved_blocks s)..<j} \<subseteq> page_index s"
      "pmm_alloc_page s = ((pmm_bitmap_set j s)\<lparr>pmm_used_blocks := pmm_used_blocks s + 1\<rparr>, j * PAGE_SIZE)"
      "HEAP_END \<le> j * PAGE_SIZE"
  using pmm_alloc_loop_cases [of "unat (pmm_reserved_blocks s)" s]
proof (elim disjE exE conjE)
  fix j
  assume j: "unat (pmm_reserved_blocks s) \<le> j" "j < unat (pmm_max_blocks s)" "\<not> pmm_bitmap_test j s"
    "\<forall>k. unat (pmm_reserved_blocks s) \<le> k \<and> k < j \<longrightarrow> pmm_bitmap_test k s"
    "pmm_alloc_loop (unat (pmm_reserved_blocks s)) s =
      ((pmm_bitmap_set j s)\<lparr>pmm_used_blocks := pmm_used_blocks s + 1\<rparr>, j * PAGE_SIZE)"
  have "HEAP_END \<le> unat (pmm_reserved_blocks s) * PAGE_SIZE" using assms j(1,2) by (simp add: pmm_wf_def)
  also have "\<dots> \<le> j * PAGE_SIZE" using j(1) by simp
  finally have he: "HEAP_END \<le> j * PAGE_SIZE" .
  have pa: "pmm_alloc_page s = ((pmm_bitmap_set j s)\<lparr>pmm_used_blocks := pmm_used_blocks s + 1\<rparr>, j * PAGE_SIZE)"
    using j(5) by (simp add: pmm_alloc_page_def)
  show thesis by (rule page [OF j(1,2) _ _ pa he]) (use j in \<open>auto simp: page_index_def\<close>)
next
  assume "\<forall>j\<ge>unat (pmm_reserved_blocks s). j < unat (pmm_max_blocks s) \<longrightarrow> pmm_bitmap_test j s"
    "pmm_alloc_loop (unat (pmm_reserved_blocks s)) s = (s, 0)"
  then show thesis by (intro full) (auto simp: page_index_def pmm_alloc_page_def)
qed

lemma page_card: "pmm_wf s \<Longrightarrow> unat (pmm_reserved_blocks s) + card (page_index s) \<le> unat (pmm_max_blocks s)"
proof -
  assume w: "pmm_wf s"
  have "card (page_index s) \<le> card {unat (pmm_reserved_blocks s)..<unat (pmm_max_blocks s)}"
    by (rule card_mono) (auto simp: page_index_def)
  then show ?thesis using w unfolding pmm_wf_def card_atLeastLessThan by linarith
qed

lemma pmm_alloc_wf:
  assumes "pmm_wf s" and "unat (pmm_reserved_blocks s) \<le> j" and "j < unat (pmm_max_blocks s)" and "j \<notin> page_index s"
  shows "pmm_wf ((pmm_bitmap_set j s)\<lparr>pmm_used_blocks := pmm_used_blocks s + 1\<rparr>)"
proof -
  have "unat (pmm_used_blocks s + 1) = unat (pmm_used_blocks s) + 1"
    using page_card [OF assms(1)] assms(1) by (simp add: pmm_wf_def unat_word_ariths)
  then show ?thesis using assms page_index_set [OF assms(2,3)] by (simp add: pmm_wf_def)
qed

lemma page_live_inj: "i * PAGE_SIZE = j * PAGE_SIZE \<longleftrightarrow> i = j"
  by (simp add: const_defs)

lemma pmm_alloc_law:
  assumes "pmm_wf s"
  shows "\<exists>s' p. Some (pmm_alloc_page s) = Some (s', p) \<and> pmm_wf s' \<and>
      same_on (live_bytes (page_live s)) (ram s) (ram s') \<and>
      (if p = 0 then page_live s' = page_live s
       else \<exists>n\<ge>PAGE_SIZE. (p, n) \<notin> page_live s \<and> page_live s' = insert (p, n) (page_live s))"
  using assms
proof (cases rule: pmm_alloc_page_cases)
  case full
  then show ?thesis using assms by simp
next
  case (page j)
  let ?s = "(pmm_bitmap_set j s)\<lparr>pmm_used_blocks := pmm_used_blocks s + 1\<rparr>"
  have "same_on (- bitmap_bytes) (ram s) (ram ?s)"
    using set_frame(1) [of s j] assms page(2) by (simp add: pmm_wf_def)
  then have "same_on (live_bytes (page_live s)) (ram s) (ram ?s)" by (rule pages_frame [OF assms])
  moreover have "page_live ?s = insert (j * PAGE_SIZE, PAGE_SIZE) (page_live s)"
    using page_index_set [OF page(1,2)] by (simp add: page_live_def)
  moreover have "(j * PAGE_SIZE, PAGE_SIZE) \<notin> page_live s"
    using page(3) by (auto simp: page_live_def page_live_inj)
  moreover have "j * PAGE_SIZE \<noteq> 0" using page(6) unfolding const_defs by linarith
  ultimately show ?thesis
    using page(5) pmm_alloc_wf [OF assms page(1-3)] by (auto intro!: exI [of _ PAGE_SIZE])
qed

lemma pmm_free_page_eq:
  assumes "pmm_wf s" and "(p, n) \<in> page_live s"
  shows "n = PAGE_SIZE" and "p div PAGE_SIZE \<in> page_index s" and "p = p div PAGE_SIZE * PAGE_SIZE"
    and "pmm_free_page p s = (pmm_bitmap_clear (p div PAGE_SIZE) s)\<lparr>pmm_used_blocks := pmm_used_blocks s - 1\<rparr>"
proof -
  obtain i where i: "p = i * PAGE_SIZE" "n = PAGE_SIZE" "i \<in> page_index s"
    using assms(2) by (auto simp: page_live_def)
  then have d: "p div PAGE_SIZE = i" by (simp add: const_defs)
  show "n = PAGE_SIZE" "p div PAGE_SIZE \<in> page_index s" "p = p div PAGE_SIZE * PAGE_SIZE"
    using i d by simp_all
  have "0 < card (page_index s)" using i(3) card_gt_0_iff by force
  then have "0 < pmm_used_blocks s" using assms(1) by (simp add: pmm_wf_def word_less_nat_alt)
  moreover have "p \<noteq> 0" using pages_above(2) [OF assms] by (simp add: const_defs)
  ultimately show "pmm_free_page p s = (pmm_bitmap_clear (p div PAGE_SIZE) s)\<lparr>pmm_used_blocks := pmm_used_blocks s - 1\<rparr>"
    using i(3) by (simp add: pmm_free_page_def Let_def d page_index_def)
qed

lemma pmm_release_law:
  assumes "pmm_wf s" and "(p, n) \<in> page_live s"
  shows "\<exists>s'. Some (pmm_free_page p s) = Some s' \<and> pmm_wf s' \<and> page_live s' = page_live s - {(p, n)} \<and>
     same_on (live_bytes (page_live s')) (ram s) (ram s')"
proof -
  note f = pmm_free_page_eq [OF assms]
  let ?i = "p div PAGE_SIZE"
  let ?s = "(pmm_bitmap_clear ?i s)\<lparr>pmm_used_blocks := pmm_used_blocks s - 1\<rparr>"
  have idx: "page_index ?s = page_index s - {?i}" by (rule page_index_clear)
  have "0 < card (page_index s)" using f(2) card_gt_0_iff by force
  moreover from this have "unat (pmm_used_blocks s - 1) = unat (pmm_used_blocks s) - 1"
    using assms(1) unfolding pmm_wf_def by (subst unat_minus_one) auto
  ultimately have wf: "pmm_wf ?s" using assms(1) idx f(2) by (simp add: pmm_wf_def card_Diff_singleton)
  have "page_live ?s = page_live s - {(p, n)}"
    using f(1-3) unfolding page_live_def idx by (auto simp: page_live_inj)
  moreover have "same_on (- bitmap_bytes) (ram s) (ram ?s)"
    using set_frame(2) [of s ?i] assms(1) f(2) by (simp add: pmm_wf_def page_index_def)
  then have "same_on (live_bytes (page_live ?s)) (ram s) (ram ?s)" by (rule pages_frame [OF wf])
  ultimately show ?thesis using f(4) wf by auto
qed

interpretation pg: region_allocator "\<lambda>_::unit. \<lambda>s. Some (pmm_alloc_page s)" "\<lambda>p s. Some (pmm_free_page p s)"
  "\<lambda>_. PAGE_SIZE" page_live ram pmm_wf
proof unfold_locales
  fix s :: mm
  show "separate (page_live s)"
  proof -
    have "{i * PAGE_SIZE..<i * PAGE_SIZE + PAGE_SIZE} \<inter> {j * PAGE_SIZE..<j * PAGE_SIZE + PAGE_SIZE} = {}"
      if "i \<noteq> j" for i j :: nat
      using that page_of_byte [of i] page_of_byte [of j] by fastforce
    then show ?thesis by (auto simp: separate_def page_live_def region_bytes_def)
  qed
  show "(p, n) \<in> page_live s \<Longrightarrow> (p, k) \<in> page_live s \<Longrightarrow> n = k" for p n k
    by (auto simp: page_live_def)
qed ((rule pmm_alloc_law pmm_release_law; assumption)+)

section \<open>Initialisation\<close>

definition mm_wf :: "mm \<Rightarrow> bool" where
  "mm_wf s \<longleftrightarrow> pmm_wf s \<and> heap_wf s"

lemma memset_loop_at: "memset_loop m d v n x = (if d \<le> x \<and> x < d + n then v else m x)"
  by (induction n arbitrary: m d) (auto simp: Suc_le_eq)

lemma memset_at: "memset m d v n x = (if d \<le> x \<and> x < d + n then word_of_int v else m x)"
  by (simp add: memset_def memset_loop_at)

lemma fold_clear_test [simp]:
  "pmm_bitmap_test b (fold pmm_bitmap_clear cs s) \<longleftrightarrow> b \<notin> set cs \<and> pmm_bitmap_test b s"
  by (induction cs arbitrary: s) auto

lemma fold_clear_fields [simp]:
  "pmm_max_blocks (fold pmm_bitmap_clear cs s) = pmm_max_blocks s"
  "pmm_reserved_blocks (fold pmm_bitmap_clear cs s) = pmm_reserved_blocks s"
  "pmm_bitmap (fold pmm_bitmap_clear cs s) = pmm_bitmap s"
  by (induction cs arbitrary: s) auto

lemma heap_init_wf: "heap_wf (heap_init s) \<and> heap_live (heap_init s) = {}"
proof -
  let ?bs = "[(HEAP_SIZE - HB, True)]"
  have c: "chain (ram (heap_init s)) HEAP_START ?bs"
    by (simp add: heap_init_def unat_of_nat_small const_defs)
  then show ?thesis using heap_live_eq [OF c]
    by (auto simp: heap_wf_def heap_init_def sizes_ok_def const_defs intro!: exI [of _ ?bs])
qed

lemma heap_init_test [simp]:
  assumes "pmm_bitmap s = PMM_BITMAP" and "b < 1048576"
  shows "pmm_bitmap_test b (heap_init s) = pmm_bitmap_test b s"
proof -
  have "b div 8 < 131072" using assms(2) by (simp add: less_mult_imp_div_less)
  then have "ram (heap_init s) (PMM_BITMAP + b div 8) = ram s (PMM_BITMAP + b div 8)"
    by (simp add: heap_init_def set_size_def set_next_def set_free_def st32_other const_defs)
  then show ?thesis using assms(1) by (simp add: pmm_bitmap_test_def heap_init_def)
qed

lemma heap_init_fields [simp]:
  "pmm_max_blocks (heap_init s) = pmm_max_blocks s" "pmm_reserved_blocks (heap_init s) = pmm_reserved_blocks s"
  "pmm_used_blocks (heap_init s) = pmm_used_blocks s" "pmm_bitmap (heap_init s) = pmm_bitmap s"
  by (simp_all add: heap_init_def)

lemma pmm_init_state:
  assumes "s' = pmm_init mem_size s"
  defines "size' \<equiv> max (unat mem_size) PAGE_SIZE"
  shows "mm_wf s' \<and> page_live s' = {} \<and> heap_live s' = {} \<and>
     unat (pmm_max_blocks s') = size' div PAGE_SIZE \<and>
     unat (pmm_reserved_blocks s') = min size' HEAP_END div PAGE_SIZE \<and>
     pmm_used_blocks s' = pmm_reserved_blocks s'"
proof -
  define ms :: u32 where "ms = (if mem_size < word_of_nat PAGE_SIZE then word_of_nat PAGE_SIZE else mem_size)"
  define mx where "mx = ms div word_of_nat PAGE_SIZE"
  define rb :: u32 where "rb = (if word_of_nat HEAP_END > ms then ms else word_of_nat HEAP_END)"
  define rv where "rv = rb div word_of_nat PAGE_SIZE"
  define bb where "bb = (mx + 7) div 8"
  define s1 where "s1 = s\<lparr>pmm_max_blocks := mx, pmm_reserved_blocks := rv, pmm_bitmap := PMM_BITMAP,
                 ram := memset (ram s) PMM_BITMAP 255 (unat bb)\<rparr>"
  have ms: "unat ms = size'"
    by (auto simp: ms_def size'_def word_less_nat_alt unat_of_nat_small const_defs max_def)
  have rb: "unat rb = min size' HEAP_END"
    using ms by (auto simp: rb_def word_less_nat_alt unat_of_nat_small const_defs)
  have mx: "unat mx = size' div PAGE_SIZE" by (simp add: mx_def unat_div ms unat_of_nat_small const_defs)
  have rv: "unat rv = min size' HEAP_END div PAGE_SIZE"
    by (simp add: rv_def unat_div rb unat_of_nat_small const_defs)
  have le: "unat rv \<le> unat mx" unfolding rv mx by (rule div_le_mono) simp
  have lt: "unat mx < 1048576"
    using unat_u32_less [of ms] unfolding mx ms by (simp add: const_defs less_mult_imp_div_less)
  have bb: "unat bb = (unat mx + 7) div 8"
    using lt by (simp add: bb_def unat_div unat_word_ariths)
  have s': "s' = heap_init ((fold pmm_bitmap_clear [unat rv..<unat mx] s1)\<lparr>pmm_used_blocks := rv\<rparr>)"
    using le unfolding assms(1) pmm_init_def Let_def s1_def ms_def [symmetric] mx_def [symmetric] rb_def [symmetric]
      rv_def [symmetric] bb_def [symmetric]
    by (simp add: word_less_nat_alt not_less)
  have all: "pmm_bitmap_test b s1" if "b < unat mx" for b
  proof -
    have "b div 8 < unat bb" using that unfolding bb by linarith
    moreover have "bit (255 :: u8) k" if "k < 8" for k
      using that bit_mask_iff [where ?'a = "8 word", of 8 k] by (simp add: possible_bit_word mask_eq_exp_minus_1)
    ultimately show ?thesis
      unfolding pmm_bitmap_test_bit by (simp add: s1_def memset_at)
  qed
  have f: "pmm_max_blocks s' = mx" "pmm_reserved_blocks s' = rv" "pmm_used_blocks s' = rv" "pmm_bitmap s' = PMM_BITMAP"
    unfolding s' by (simp_all add: s1_def)
  have idx: "page_index s' = {}"
    using f lt unfolding page_index_def s' by (auto simp: s1_def)
  have big: "HEAP_END \<le> unat rv * PAGE_SIZE" if "unat rv < unat mx"
    using that unfolding rv mx by (cases "size' \<le> HEAP_END") (auto simp: const_defs min_def)
  have "heap_wf s'" "heap_live s' = {}" unfolding s' using heap_init_wf by auto
  then show ?thesis
    using f idx big le lt mx rv by (simp add: mm_wf_def pmm_wf_def page_live_def)
qed

lemma kheap_sum_loop_chain:
  "chain m a bs \<Longrightarrow> bs \<noteq> [] \<Longrightarrow> 0 < a \<Longrightarrow>
   kheap_sum_loop w a m acc = Some (acc + word_of_nat (\<Sum>(n, f)\<leftarrow>bs. if f = w then n else 0))"
proof (induction bs arbitrary: a acc)
  case (Cons b bs)
  obtain n f where b: "b = (n, f)" by (cases b)
  have s: "kheap_sum_loop w a m acc =
      kheap_sum_loop w (hb_next m a) m (if f = w then acc + word_of_nat n else acc)"
    using Cons.prems b by (subst kheap_sum_loop.simps) (auto simp flip: word_unat_eq_iff)
  show ?case
  proof (cases "bs = []")
    case True
    then show ?thesis using s Cons.prems b by (auto simp: kheap_sum_loop.simps [of w 0])
  next
    case False
    then show ?thesis using s Cons.prems b Cons.IH [of "a + HB + n"] by (auto simp: add.assoc)
  qed
qed simp

section \<open>Both allocators together\<close>

lemma fit_None_iff: "fit need a bs = None \<longleftrightarrow> (\<forall>(n, f)\<in>set bs. f \<longrightarrow> n < need)"
  by (induction need a bs rule: fit.induct) auto

lemma same_heap_bitmap: "same_on (- {HEAP_START..<HEAP_END}) m m' \<Longrightarrow> same_on bitmap_bytes m m'"
  by (erule same_on_mono) (auto simp: bitmap_bytes_def const_defs)

lemma same_bitmap_heap: "same_on (- bitmap_bytes) m m' \<Longrightarrow> same_on {HEAP_START..<HEAP_END} m m'"
  by (erule same_on_mono) (auto simp: bitmap_bytes_def const_defs)

lemma pmm_wf_ram:
  assumes "pmm_wf s" and "same_on (- {HEAP_START..<HEAP_END}) (ram s) m"
  shows "pmm_wf (s\<lparr>ram := m\<rparr>)" and "page_live (s\<lparr>ram := m\<rparr>) = page_live s"
    and "same_on (live_bytes (page_live s)) (ram s) m"
proof -
  have "pmm_bitmap_test i (s\<lparr>ram := m\<rparr>) = pmm_bitmap_test i s" if "i < unat (pmm_max_blocks s)" for i
  proof -
    have "i div 8 < 131072" using that assms(1) by (simp add: pmm_wf_def less_mult_imp_div_less)
    then have "PMM_BITMAP + i div 8 \<in> bitmap_bytes" by (simp add: bitmap_bytes_def)
    then show ?thesis
      using same_heap_bitmap [OF assms(2)] assms(1) by (simp add: pmm_bitmap_test_def same_on_def pmm_wf_def)
  qed
  then have "page_index (s\<lparr>ram := m\<rparr>) = page_index s" by (auto simp: page_index_def)
  then show "pmm_wf (s\<lparr>ram := m\<rparr>)" "page_live (s\<lparr>ram := m\<rparr>) = page_live s"
    using assms(1) by (simp_all add: pmm_wf_def page_live_def)
  show "same_on (live_bytes (page_live s)) (ram s) m"
    by (rule same_on_mono [OF assms(2)]) (use pages_above(1) [OF assms(1)] in \<open>fastforce simp: live_bytes_def\<close>)
qed

lemma heap_wf_pmm:
  assumes "heap_wf s" and "heap_ready s' = heap_ready s" and "heap_head s' = heap_head s"
    and "same_on (- bitmap_bytes) (ram s) (ram s')"
  shows "heap_wf s'" and "heap_live s' = heap_live s" and "same_on (live_bytes (heap_live s)) (ram s) (ram s')"
proof -
  note h = same_bitmap_heap [OF assms(4)]
  show "heap_wf s'" "heap_live s' = heap_live s" using heap_wf_cong [OF assms(1-3) h] by auto
  obtain bs where c: "chain (ram s) HEAP_START bs" using assms(1) by (rule heap_wfE)
  have "live_bytes (heap_live s) \<subseteq> {HEAP_START..<HEAP_END}"
    using chain_total [OF c] used_at_range [of _ _ HEAP_START bs] heap_live_eq [OF c]
    by (fastforce simp: live_bytes_def region_bytes_def)
  then show "same_on (live_bytes (heap_live s)) (ram s) (ram s')" using same_on_mono [OF h] by blast
qed

lemma heap_region_range: "heap_wf s \<Longrightarrow> (p, n) \<in> heap_live s \<Longrightarrow> HEAP_START + HB \<le> p \<and> p + n \<le> HEAP_END \<and> 8 \<le> n"
proof -
  assume "heap_wf s" and l: "(p, n) \<in> heap_live s"
  then obtain bs where c: "chain (ram s) HEAP_START bs" "sizes_ok bs" by (elim heap_wfE)
  then have u: "(p, n) \<in> used_at HEAP_START bs" using l heap_live_eq by simp
  show ?thesis using used_at_range [OF u] chain_total [OF c(1)] sizes_ok_used [OF u c(2)] by auto
qed

lemma kmalloc_mm:
  assumes "mm_wf s"
  obtains s' p where "kmalloc sz s = Some (s', p)" "mm_wf s'" "page_live s' = page_live s"
    "same_on (live_bytes (heap_live s \<union> page_live s)) (ram s) (ram s')"
    "\<exists>m. s' = s\<lparr>ram := m\<rparr> \<and> same_on (- {HEAP_START..<HEAP_END}) (ram s) m"
    "p = 0 \<Longrightarrow> heap_live s' = heap_live s"
    "p \<noteq> 0 \<Longrightarrow> \<exists>n\<ge>unat sz. (p, n) \<notin> heap_live s \<and> heap_live s' = insert (p, n) (heap_live s)"
proof -
  have w: "pmm_wf s" "heap_wf s" using assms by (simp_all add: mm_wf_def)
  obtain s' p where k: "kmalloc sz s = Some (s', p)" "heap_wf s'" "same_on (live_bytes (heap_live s)) (ram s) (ram s')"
      "if p = 0 then heap_live s' = heap_live s
       else \<exists>n\<ge>unat sz. (p, n) \<notin> heap_live s \<and> heap_live s' = insert (p, n) (heap_live s)"
    using hp.alloc_law [OF w(2), of sz] by blast
  obtain m where m: "s' = s\<lparr>ram := m\<rparr>" "same_on (- {HEAP_START..<HEAP_END}) (ram s) m"
    using kmalloc_frame [OF w(2) k(1)] by blast
  note pm = pmm_wf_ram [OF w(1) m(2)]
  show thesis
    by (rule that [OF k(1)]) (use k m pm in \<open>auto simp: mm_wf_def same_on_def live_bytes_def\<close>)
qed

lemma kfree_mm:
  assumes "mm_wf s" and "(p, n) \<in> heap_live s"
  obtains s' where "kfree p s = Some s'" "mm_wf s'" "page_live s' = page_live s"
    "heap_live s' = heap_live s - {(p, n)}"
    "same_on (live_bytes (heap_live s' \<union> page_live s)) (ram s) (ram s')"
    "\<exists>m. s' = s\<lparr>ram := m\<rparr> \<and> same_on (- {HEAP_START..<HEAP_END}) (ram s) m"
proof -
  have w: "pmm_wf s" "heap_wf s" using assms by (simp_all add: mm_wf_def)
  obtain s' where k: "kfree p s = Some s'" "heap_wf s'" "heap_live s' = heap_live s - {(p, n)}"
      "same_on (live_bytes (heap_live s')) (ram s) (ram s')"
    using hp.release_law [OF w(2) assms(2)] by blast
  obtain m where m: "s' = s\<lparr>ram := m\<rparr>" "same_on (- {HEAP_START..<HEAP_END}) (ram s) m"
    using kfree_frame [OF w(2) assms(2) k(1)] by blast
  note pm = pmm_wf_ram [OF w(1) m(2)]
  show thesis
    by (rule that [OF k(1)]) (use k m pm in \<open>auto simp: mm_wf_def same_on_def live_bytes_def\<close>)
qed

lemma pmm_alloc_frame:
  assumes "pmm_wf s"
  shows "same_on (- bitmap_bytes) (ram s) (ram (fst (pmm_alloc_page s)))"
    "heap_ready (fst (pmm_alloc_page s)) = heap_ready s" "heap_head (fst (pmm_alloc_page s)) = heap_head s"
  using assms
  by (cases rule: pmm_alloc_page_cases; use set_frame(1) [of s] assms in \<open>simp add: pmm_wf_def\<close>)+

lemma pmm_free_frame:
  assumes "pmm_wf s"
  shows "same_on (- bitmap_bytes) (ram s) (ram (pmm_free_page p s))"
    "heap_ready (pmm_free_page p s) = heap_ready s" "heap_head (pmm_free_page p s) = heap_head s"
  using set_frame(2) [of s "p div PAGE_SIZE"] assms
  by (auto simp: pmm_free_page_def Let_def pmm_wf_def)

lemma pmm_alloc_mm:
  assumes "mm_wf s" and "pmm_alloc_page s = (s', p)"
  shows "mm_wf s'" "heap_live s' = heap_live s"
    "same_on (live_bytes (heap_live s \<union> page_live s)) (ram s) (ram s')"
    "p = 0 \<Longrightarrow> page_live s' = page_live s"
    "p \<noteq> 0 \<Longrightarrow> (p, PAGE_SIZE) \<notin> page_live s \<and> page_live s' = insert (p, PAGE_SIZE) (page_live s)"
    "same_on (- bitmap_bytes) (ram s) (ram s')"
proof -
  have w: "pmm_wf s" "heap_wf s" using assms by (simp_all add: mm_wf_def)
  note fr = pmm_alloc_frame [OF w(1)]
  note h = heap_wf_pmm [OF w(2) fr(2,3,1)]
  have l: "pmm_wf s'" "same_on (live_bytes (page_live s)) (ram s) (ram s')"
      "if p = 0 then page_live s' = page_live s
       else \<exists>n\<ge>PAGE_SIZE. (p, n) \<notin> page_live s \<and> page_live s' = insert (p, n) (page_live s)"
    using pg.alloc_law [OF w(1)] assms(2) by auto
  show "mm_wf s'" "heap_live s' = heap_live s" "same_on (- bitmap_bytes) (ram s) (ram s')"
    using h l fr assms(2) by (simp_all add: mm_wf_def)
  show "same_on (live_bytes (heap_live s \<union> page_live s)) (ram s) (ram s')"
    using h(3) l(2) assms(2) by (auto simp: same_on_def live_bytes_def)
  show "p = 0 \<Longrightarrow> page_live s' = page_live s" using l(3) by simp
  assume "p \<noteq> 0"
  then obtain n where n: "(p, n) \<notin> page_live s" "page_live s' = insert (p, n) (page_live s)" using l(3) by auto
  then have "(p, n) \<in> page_live s'" by simp
  then have "n = PAGE_SIZE" by (auto simp: page_live_def)
  with n show "(p, PAGE_SIZE) \<notin> page_live s \<and> page_live s' = insert (p, PAGE_SIZE) (page_live s)" by simp
qed

lemma pmm_free_mm:
  assumes "mm_wf s" and "(p, n) \<in> page_live s"
  shows "mm_wf (pmm_free_page p s)" "heap_live (pmm_free_page p s) = heap_live s"
    "page_live (pmm_free_page p s) = page_live s - {(p, n)}"
    "same_on (- bitmap_bytes) (ram s) (ram (pmm_free_page p s))"
proof -
  have w: "pmm_wf s" "heap_wf s" using assms by (simp_all add: mm_wf_def)
  note fr = pmm_free_frame [OF w(1)]
  show "mm_wf (pmm_free_page p s)" "heap_live (pmm_free_page p s) = heap_live s"
    "page_live (pmm_free_page p s) = page_live s - {(p, n)}"
    "same_on (- bitmap_bytes) (ram s) (ram (pmm_free_page p s))"
    using heap_wf_pmm [OF w(2) fr(2,3,1)] pg.release_law [OF w(1) assms(2)] fr by (auto simp: mm_wf_def)
qed

lemma sum_blocks: "blocks_total bs = HB * length bs + (\<Sum>(n, f)\<leftarrow>bs. if f then 0 else n) + (\<Sum>(n, f)\<leftarrow>bs. if f then n else 0)"
  by (induction bs) auto

lemma finite_used: "finite (used_at a bs)"
  by (induction a bs rule: used_at.induct) auto

lemma used_sum: "(\<Sum>(n, f)\<leftarrow>bs. if f then 0 else n) = sum snd (used_at a bs)"
proof (induction a bs rule: used_at.induct)
  case (2 a n f bs)
  have "(a + HB, n) \<notin> used_at (a + HB + n) bs"
    using used_at_range [of "a + HB" n "a + HB + n" bs] by (auto simp: const_defs)
  then show ?case using 2 finite_used by simp
qed simp

lemma unused_all_free: "used_at a bs = {} \<Longrightarrow> (\<forall>(n, f)\<in>set bs. f)"
  by (induction a bs rule: used_at.induct) (auto split: if_splits)

lemma all_free_single: "(\<forall>(n, f)\<in>set bs. f) \<Longrightarrow> no_adjacent_free bs \<Longrightarrow> bs \<noteq> [] \<Longrightarrow> \<exists>n. bs = [(n, True)]"
  by (cases bs rule: no_adjacent_free.cases) auto

lemma nothing_live_single:
  assumes "heap_wf s" and "heap_live s = {}"
  shows "chain (ram s) HEAP_START [(HEAP_SIZE - HB, True)]"
proof -
  obtain bs where w: "bs \<noteq> []" "chain (ram s) HEAP_START bs" "no_adjacent_free bs"
    using assms(1) by (elim heap_wfE)
  have "used_at HEAP_START bs = {}" using heap_live_eq [OF w(2)] assms(2) by simp
  then obtain n where "bs = [(n, True)]" using all_free_single [OF unused_all_free w(3,1)] by blast
  moreover from this have "n = HEAP_SIZE - HB" using chain_total [OF w(2)] by simp
  ultimately show ?thesis using w(2) by simp
qed

section \<open>Properties of the memory manager\<close>

text \<open>
  C5.  On a well-formed memory \<open>kmalloc\<close> returns.  A non-null result is a region
  of at least the requested size inside the heap, disjoint from every live heap region
  and from every live page; all live bytes keep their contents.  The result is null exactly
  when the request is refused (zero, or too large after rounding) or no free block is large
  enough, and then the state is unchanged.
\<close>

theorem kmalloc_correct:
  assumes "mm_wf s"
  shows "\<exists>s' p. kmalloc sz s = Some (s', p) \<and> mm_wf s' \<and> page_live s' = page_live s \<and>
     same_on (live_bytes (heap_live s \<union> page_live s)) (ram s) (ram s') \<and>
     (p = 0 \<longleftrightarrow> (\<forall>need bs. kmalloc_need sz = Some need \<and> chain (ram s) HEAP_START bs \<longrightarrow>
                     (\<forall>(n, f)\<in>set bs. f \<longrightarrow> n < need))) \<and>
     (p = 0 \<longrightarrow> s' = s) \<and>
     (p \<noteq> 0 \<longrightarrow> (\<exists>n\<ge>unat sz. heap_live s' = insert (p, n) (heap_live s) \<and>
        HEAP_START + HB \<le> p \<and> p + n \<le> HEAP_END \<and>
        (\<forall>q\<in>heap_live s \<union> page_live s. region_bytes (p, n) \<inter> region_bytes q = {})))"
proof -
  have w: "pmm_wf s" "heap_wf s" using assms by (simp_all add: mm_wf_def)
  obtain s' p where k: "kmalloc sz s = Some (s', p)" "mm_wf s'" "page_live s' = page_live s"
    "same_on (live_bytes (heap_live s \<union> page_live s)) (ram s) (ram s')"
    "p \<noteq> 0 \<Longrightarrow> \<exists>n\<ge>unat sz. (p, n) \<notin> heap_live s \<and> heap_live s' = insert (p, n) (heap_live s)"
    using assms by (rule kmalloc_mm [where sz = sz]) blast
  obtain bs where b: "heap_ready s" "heap_head s = HEAP_START" "bs \<noteq> []" "chain (ram s) HEAP_START bs"
    using w(2) by (rule heap_wfE)
  have uniq: "chain (ram s) HEAP_START bs' \<longleftrightarrow> bs' = bs" for bs' using chain_unique b(4) by blast
  have null: "(p = 0 \<longleftrightarrow> (\<forall>need. kmalloc_need sz = Some need \<longrightarrow> fit need HEAP_START bs = None)) \<and> (p = 0 \<longrightarrow> s' = s)"
  proof (cases "kmalloc_need sz")
    case None
    then show ?thesis using kmalloc_refused [of sz s] k(1) by simp
  next
    case (Some need)
    have "HEAP_START \<noteq> 0" by (simp add: const_defs)
    then show ?thesis
      using kmalloc_list [OF b(1,2,4,3) Some] Some k(1)
      by (auto split: option.splits dest: fit_used)
  qed
  have ok: "\<exists>n\<ge>unat sz. heap_live s' = insert (p, n) (heap_live s) \<and> HEAP_START + HB \<le> p \<and> p + n \<le> HEAP_END \<and>
        (\<forall>q\<in>heap_live s \<union> page_live s. region_bytes (p, n) \<inter> region_bytes q = {})" if p0: "p \<noteq> 0"
  proof -
    obtain n where n: "n \<ge> unat sz" "(p, n) \<notin> heap_live s" "heap_live s' = insert (p, n) (heap_live s)"
      using k(5) [OF p0] by blast
    have r: "HEAP_START + HB \<le> p" "p + n \<le> HEAP_END"
      using heap_region_range [of s' p n] k(2) n(3) by (auto simp: mm_wf_def)
    have "region_bytes (p, n) \<inter> region_bytes q = {}" if "q \<in> heap_live s" for q
      using hp.separate_law [of s'] k(2) n that unfolding separate_def mm_wf_def by (metis insert_iff)
    moreover have "region_bytes (p, n) \<inter> region_bytes q = {}" if "q \<in> page_live s" for q
      using pages_above(2) [OF w(1) that] r by (auto simp: region_bytes_def)
    ultimately show ?thesis using n r by (intro exI [of _ n]) blast
  qed
  show ?thesis using k null ok unfolding uniq by (auto simp: fit_None_iff)
qed

definition mm_boot :: mm where
  "mm_boot = pmm_init 67108864 \<lparr>ram = \<lambda>_. 0, pmm_bitmap = 0, pmm_max_blocks = 0, pmm_used_blocks = 0,
     pmm_reserved_blocks = 0, heap_head = 0, heap_ready = False\<rparr>"

lemma mm_boot_wf: "mm_wf mm_boot" "heap_live mm_boot = {}" "page_live mm_boot = {}"
    "unat (pmm_max_blocks mm_boot) = 16384" "unat (pmm_reserved_blocks mm_boot) = 8192"
  using pmm_init_state [OF mm_boot_def] by (simp_all add: const_defs)

lemma boot_kmalloc:
  assumes "kmalloc_need sz = Some need" and "need \<le> HEAP_SIZE - HB"
  shows "\<exists>s. kmalloc sz mm_boot = Some (s, HEAP_START + HB)"
proof -
  have c: "chain (ram mm_boot) HEAP_START [(HEAP_SIZE - HB, True)]"
    using mm_boot_wf by (intro nothing_live_single) (simp_all add: mm_wf_def)
  have "heap_ready mm_boot" "heap_head mm_boot = HEAP_START"
    using mm_boot_wf(1) by (auto simp: mm_wf_def heap_wf_def)
  then show ?thesis using kmalloc_list [of mm_boot "[(HEAP_SIZE - HB, True)]" sz need] c assms by auto
qed

theorem kmalloc_correct_witness:
  "\<exists>s' p. kmalloc 100 mm_boot = Some (s', p) \<and> mm_wf s' \<and> p \<noteq> 0"
proof -
  have c: "chain (ram mm_boot) HEAP_START [(HEAP_SIZE - HB, True)]"
    using mm_boot_wf by (intro nothing_live_single) (simp_all add: mm_wf_def)
  have "kmalloc_need 100 = Some 104"
    by (simp add: kmalloc_need_def heap_align8_unat const_defs)
  then show ?thesis
    using kmalloc_correct [OF mm_boot_wf(1), of 100] c chain_unique [OF c] by (fastforce simp: const_defs)
qed

text \<open>
  C10.  \<open>kfree\<close> of a live heap region returns, removes exactly that region, keeps the
  contents of every other live region and page, and leaves no two adjacent free blocks.
  A null pointer, or one outside the heap, changes nothing.
\<close>

theorem kfree_correct:
  assumes "mm_wf s"
  shows "((p, n) \<in> heap_live s \<longrightarrow>
      (\<exists>s' bs. kfree p s = Some s' \<and> mm_wf s' \<and> heap_live s' = heap_live s - {(p, n)} \<and>
         page_live s' = page_live s \<and> same_on (live_bytes (heap_live s' \<union> page_live s)) (ram s) (ram s') \<and>
         chain (ram s') HEAP_START bs \<and> no_adjacent_free bs)) \<and>
     (q < HEAP_START + HB \<or> HEAP_END \<le> q \<longrightarrow> kfree q s = Some s)"
proof (intro conjI impI)
  assume l: "(p, n) \<in> heap_live s"
  obtain s' where k: "kfree p s = Some s'" "mm_wf s'" "page_live s' = page_live s"
    "heap_live s' = heap_live s - {(p, n)}" "same_on (live_bytes (heap_live s' \<union> page_live s)) (ram s) (ram s')"
    using assms l by (rule kfree_mm) blast
  moreover obtain bs where "chain (ram s') HEAP_START bs" "no_adjacent_free bs"
    using k(2) unfolding mm_wf_def by (blast elim: heap_wfE)
  ultimately show "\<exists>s' bs. kfree p s = Some s' \<and> mm_wf s' \<and> heap_live s' = heap_live s - {(p, n)} \<and>
         page_live s' = page_live s \<and> same_on (live_bytes (heap_live s' \<union> page_live s)) (ram s) (ram s') \<and>
         chain (ram s') HEAP_START bs \<and> no_adjacent_free bs"
    by blast
next
  assume "q < HEAP_START + HB \<or> HEAP_END \<le> q"
  then show "kfree q s = Some s" by (auto simp: kfree_def)
qed

theorem kfree_correct_witness:
  "\<exists>s p s'. kmalloc 100 mm_boot = Some (s, p) \<and> kfree p s = Some s' \<and> heap_live s' = {}"
proof -
  obtain s p where k: "kmalloc 100 mm_boot = Some (s, p)" "mm_wf s"
      "p \<noteq> 0 \<Longrightarrow> \<exists>n\<ge>unat (100 :: u32). (p, n) \<notin> heap_live mm_boot \<and> heap_live s = insert (p, n) (heap_live mm_boot)"
      "p = 0 \<Longrightarrow> heap_live s = heap_live mm_boot"
    using mm_boot_wf(1) by (rule kmalloc_mm [where sz = 100]) blast
  show ?thesis
  proof (cases "p = 0")
    case True
    then show ?thesis using k kfree_correct [OF k(2), of 0 0 0] mm_boot_wf(2)
      by (intro exI [of _ s] exI [of _ p]) (auto simp: const_defs)
  next
    case False
    then obtain n where "heap_live s = {(p, n)}" using k(3) mm_boot_wf(2) by auto
    then show ?thesis using k kfree_correct [OF k(2), of p n 0] by auto
  qed
qed

text \<open>
  Bytes are conserved: \<open>kheap_used_bytes\<close> and \<open>kheap_free_bytes\<close> return, the
  first is the total length of the live regions, and together with 12 bytes per block header
  they add up to the size of the heap.
\<close>

lemma heap_accounting:
  assumes "mm_wf s"
  shows "\<exists>used fre bs. kheap_used_bytes s = Some used \<and> kheap_free_bytes s = Some fre \<and>
     chain (ram s) HEAP_START bs \<and> unat used = sum snd (heap_live s) \<and>
     unat used + unat fre + HB * length bs = HEAP_SIZE"
proof -
  obtain bs where w: "heap_ready s" "heap_head s = HEAP_START" "bs \<noteq> []" "chain (ram s) HEAP_START bs"
    using assms unfolding mm_wf_def by (blast elim: heap_wfE)
  define u where "u = (\<Sum>(n, f)\<leftarrow>bs. if f then 0 else n)"
  define r where "r = (\<Sum>(n, f)\<leftarrow>bs. if f then n else 0)"
  have tot: "HB * length bs + u + r = HEAP_SIZE"
    using chain_total [OF w(4)] sum_blocks [of bs] by (simp add: u_def r_def)
  have e: "(\<Sum>(n, f)\<leftarrow>bs. if f = False then n else 0) = u" "(\<Sum>(n, f)\<leftarrow>bs. if f = True then n else 0) = r"
    by (auto simp: u_def r_def intro!: arg_cong [where f = sum_list] map_cong)
  have "kheap_used_bytes s = Some (word_of_nat u)" "kheap_free_bytes s = Some (word_of_nat r)"
    using kheap_sum_loop_chain [OF w(4,3)] w e
    by (simp_all add: kheap_used_bytes_def kheap_free_bytes_def const_defs)
  moreover have "unat (word_of_nat u :: u32) = u" "unat (word_of_nat r :: u32) = r"
    using tot by (simp_all add: unat_of_nat_small const_defs)
  moreover have "u = sum snd (heap_live s)" using heap_live_eq [OF w(4)] used_sum [of bs HEAP_START] by (simp add: u_def)
  ultimately show ?thesis using w(4) tot
    by (intro exI [of _ "word_of_nat u"] exI [of _ "word_of_nat r"] exI [of _ bs]) simp
qed

theorem heap_accounting_witness:
  "kheap_used_bytes mm_boot = Some 0"
  using heap_accounting [OF mm_boot_wf(1)] mm_boot_wf(2) by (auto simp: unat_eq_0)

text \<open>
  The heap does not fragment for good: once nothing is live, \<open>kfree\<close> has merged
  the heap back into the single block it started with, and any request of up to
  \<open>HEAP_SIZE - 24\<close> bytes succeeds at the start of the heap.
\<close>

lemma heap_all_freed:
  assumes "mm_wf s" and "heap_live s = {}"
  shows "kheap_free_bytes s = Some (word_of_nat (HEAP_SIZE - HB)) \<and>
     (0 < unat sz \<and> unat sz \<le> HEAP_SIZE - 24 \<longrightarrow> (\<exists>s'. kmalloc sz s = Some (s', HEAP_START + HB)))"
proof -
  have c: "chain (ram s) HEAP_START [(HEAP_SIZE - HB, True)]"
    using assms by (intro nothing_live_single) (simp_all add: mm_wf_def)
  have w: "heap_ready s" "heap_head s = HEAP_START" using assms(1) by (auto simp: mm_wf_def heap_wf_def)
  have "kheap_free_bytes s = Some (word_of_nat (HEAP_SIZE - HB))"
    using kheap_sum_loop_chain [OF c, of True 0] w by (simp add: kheap_free_bytes_def HEAP_START_def)
  moreover have "\<exists>s'. kmalloc sz s = Some (s', HEAP_START + HB)" if sz: "0 < unat sz" "unat sz \<le> HEAP_SIZE - 24"
  proof -
    define need where "need = (unat sz + 7) div 8 * 8"
    have "need \<le> HEAP_SIZE - 16" "0 < need" using sz by (auto simp: need_def const_defs)
    moreover have "unat (heap_align8 sz) = need"
      using sz by (simp add: heap_align8_unat need_def const_defs)
    ultimately have "kmalloc_need sz = Some need" "need \<le> HEAP_SIZE - HB"
      using sz by (auto simp: kmalloc_need_def const_defs)
    then show ?thesis using kmalloc_list [OF w c, of sz need] by auto
  qed
  ultimately show ?thesis by blast
qed

theorem heap_all_freed_witness: "\<exists>s'. kmalloc 4096 mm_boot = Some (s', HEAP_START + HB)"
  using heap_all_freed [OF mm_boot_wf(1,2), of 4096] by (simp add: const_defs)

text \<open>
  C13.  Whatever sequence of allocations and releases other clients run on the heap, the
  holder of a live region that nobody releases keeps it, at the same address and length and
  with every byte unchanged; the sequence itself returns.
\<close>

theorem heap_holder_safe:
  assumes "heap_wf s" and "(p, n) \<in> heap_live s" and "Release p \<notin> set cs"
  shows "\<exists>s'. run_ops kmalloc kfree heap_live cs s = Some s' \<and> heap_wf s' \<and> (p, n) \<in> heap_live s' \<and>
     same_on (region_bytes (p, n)) (ram s) (ram s')"
  using assms by (rule hp.holder_safe)

theorem heap_holder_safe_witness:
  "\<exists>s1 p s2 q k n s'. kmalloc 100 mm_boot = Some (s1, p) \<and> kmalloc 8 s1 = Some (s2, q) \<and> (q, k) \<in> heap_live s2 \<and>
     (p, n) \<in> heap_live s2 \<and> run_ops kmalloc kfree heap_live [Release q, Alloc 4096] s2 = Some s' \<and>
     (p, n) \<in> heap_live s' \<and> same_on (region_bytes (p, n)) (ram s2) (ram s')"
proof -
  have c: "chain (ram mm_boot) HEAP_START [(HEAP_SIZE - HB, True)]"
    using mm_boot_wf by (intro nothing_live_single) (simp_all add: mm_wf_def)
  have h: "heap_ready mm_boot" "heap_head mm_boot = HEAP_START" using mm_boot_wf(1) by (auto simp: mm_wf_def heap_wf_def)
  have need: "kmalloc_need 100 = Some 104" "kmalloc_need 8 = Some 8" by (simp_all add: kmalloc_need_def heap_align8_unat const_defs)
  let ?p = "HEAP_START + HB" and ?q = "HEAP_START + HB + 104 + HB"
  obtain m1 where m1: "kmalloc 100 mm_boot = Some (mm_boot\<lparr>ram := m1\<rparr>, ?p)"
      "chain m1 HEAP_START [(104, False), (HEAP_SIZE - HB - 104 - HB, True)]"
    using kmalloc_list [OF h c _ need(1)] by (auto simp: const_defs)
  obtain m2 where m2: "kmalloc 8 (mm_boot\<lparr>ram := m1\<rparr>) = Some (mm_boot\<lparr>ram := m2\<rparr>, ?q)"
      "chain m2 HEAP_START [(104, False), (8, False), (HEAP_SIZE - HB - 104 - HB - 8 - HB, True)]"
    using kmalloc_list [of "mm_boot\<lparr>ram := m1\<rparr>" "[(104, False), (HEAP_SIZE - HB - 104 - HB, True)]", OF _ _ _ _ need(2)] h m1(2)
    by (auto simp: const_defs)
  have w1: "mm_wf (mm_boot\<lparr>ram := m1\<rparr>)" using mm_boot_wf(1) by (rule kmalloc_mm [where sz = 100]) (use m1(1) in simp)
  have w2: "heap_wf (mm_boot\<lparr>ram := m2\<rparr>)" using w1 by (rule kmalloc_mm [where sz = 8]) (use m2(1) in \<open>simp add: mm_wf_def\<close>)
  have l: "heap_live (mm_boot\<lparr>ram := m2\<rparr>) = {(?p, 104), (?q, 8)}"
    by (subst heap_live_eq [where s = "mm_boot\<lparr>ram := m2\<rparr>", simplified, OF m2(2)]) (auto simp: add.assoc)
  then have "(?p, 104) \<in> heap_live (mm_boot\<lparr>ram := m2\<rparr>)" by simp
  moreover have "Release ?p \<notin> set [Release ?q, Alloc 4096]" by (simp add: HB_def)
  ultimately obtain s' where s': "run_ops kmalloc kfree heap_live [Release ?q, Alloc 4096] (mm_boot\<lparr>ram := m2\<rparr>) = Some s'"
      "(?p, 104) \<in> heap_live s'" "same_on (region_bytes (?p, 104)) (ram (mm_boot\<lparr>ram := m2\<rparr>)) (ram s')"
    using heap_holder_safe [OF w2, of ?p 104 "[Release ?q, Alloc 4096]"] by blast
  have "(?q, 8) \<in> heap_live (mm_boot\<lparr>ram := m2\<rparr>)" using l by simp
  then show ?thesis using m1(1) m2(1) l s' by blast
qed

text \<open>
  \<open>pmm_alloc_page\<close> hands out the lowest free page above the reserved area, counts
  it, keeps the contents of every live page and heap region, and returns null exactly when
  every page is taken.
\<close>

lemma pmm_alloc_page_correct:
  assumes "mm_wf s" and "pmm_alloc_page s = (s', p)"
  shows "mm_wf s' \<and> heap_live s' = heap_live s \<and>
     same_on (live_bytes (heap_live s \<union> page_live s)) (ram s) (ram s') \<and>
     (p = 0 \<longleftrightarrow> pmm_free_blocks_count s = 0) \<and>
     (p = 0 \<longrightarrow> s' = s) \<and>
     (p \<noteq> 0 \<longrightarrow> (\<exists>j. p = j * PAGE_SIZE \<and> j \<notin> page_index s \<and> page_index s' = insert j (page_index s) \<and>
        {unat (pmm_reserved_blocks s)..<j} \<subseteq> page_index s \<and> HEAP_END \<le> p \<and>
        pmm_free_blocks_count s' = pmm_free_blocks_count s - 1))"
proof -
  have w: "pmm_wf s" using assms(1) by (simp add: mm_wf_def)
  note m = pmm_alloc_mm [OF assms]
  have card: "unat (pmm_used_blocks s) \<le> unat (pmm_max_blocks s)" using page_card [OF w] w by (simp add: pmm_wf_def)
  have fr: "pmm_free_blocks_count s = pmm_max_blocks s - pmm_used_blocks s"
    using card by (simp add: pmm_free_blocks_count_def word_less_nat_alt not_less [symmetric])
  show ?thesis
    using w
  proof (cases rule: pmm_alloc_page_cases)
    case full
    then have "unat (pmm_used_blocks s) = unat (pmm_max_blocks s)" using w by (simp add: pmm_wf_def)
    then have "pmm_used_blocks s = pmm_max_blocks s" by (simp only: word_unat_eq_iff)
    then show ?thesis using full m assms(2) fr by simp
  next
    case (page j)
    have p: "p = j * PAGE_SIZE" and s': "s' = (pmm_bitmap_set j s)\<lparr>pmm_used_blocks := pmm_used_blocks s + 1\<rparr>"
      using page(5) assms(2) by auto
    have p0: "p \<noteq> 0" using page(6) p unfolding const_defs by linarith
    have idx: "page_index s' = insert j (page_index s)" unfolding s' by (rule page_index_set [OF page(1,2)])
    have w': "pmm_wf s'" using m(1) by (simp add: mm_wf_def)
    have "unat (pmm_used_blocks s') \<le> unat (pmm_max_blocks s')"
      using page_card [OF w'] w' by (simp add: pmm_wf_def)
    then have fr': "pmm_free_blocks_count s' = pmm_free_blocks_count s - 1"
      unfolding fr by (simp add: pmm_free_blocks_count_def word_less_nat_alt not_less [symmetric] s')
    have "unat (pmm_used_blocks s') = unat (pmm_used_blocks s) + 1"
      using w w' idx page(3) by (simp add: pmm_wf_def s')
    then have "pmm_max_blocks s \<noteq> pmm_used_blocks s"
      using \<open>unat (pmm_used_blocks s') \<le> unat (pmm_max_blocks s')\<close> by (auto simp: s')
    then show ?thesis using m p p0 page idx fr' fr by auto
  qed
qed

theorem pmm_alloc_page_correct_witness:
  "snd (pmm_alloc_page mm_boot) \<noteq> 0 \<and> mm_wf (fst (pmm_alloc_page mm_boot))"
proof -
  obtain s' p where e: "pmm_alloc_page mm_boot = (s', p)" by (cases "pmm_alloc_page mm_boot")
  have "page_index mm_boot = {}" using mm_boot_wf(3) by (simp add: page_live_def)
  then have u: "unat (pmm_used_blocks mm_boot) = 8192" using mm_boot_wf by (simp add: mm_wf_def pmm_wf_def)
  have "unat (pmm_max_blocks mm_boot) \<noteq> unat (pmm_used_blocks mm_boot)" using u mm_boot_wf(4) by simp
  then have "pmm_free_blocks_count mm_boot \<noteq> 0"
    using u mm_boot_wf(4) by (auto simp: pmm_free_blocks_count_def word_less_nat_alt)
  then show ?thesis using pmm_alloc_page_correct [OF mm_boot_wf(1) e] e by simp
qed

text \<open>
  \<open>pmm_free_page\<close> releases exactly a page that is taken, whatever address inside
  it is passed, and is without effect on every other address: null, reserved memory, memory
  above the last page and pages that are free already.  Freeing a page just allocated
  restores the set of taken pages and the count.
\<close>

lemma pmm_free_page_correct:
  assumes "mm_wf s"
  shows "mm_wf (pmm_free_page p s) \<and> heap_live (pmm_free_page p s) = heap_live s \<and>
     page_index (pmm_free_page p s) = (if p = 0 then page_index s else page_index s - {p div PAGE_SIZE}) \<and>
     (p = 0 \<or> p div PAGE_SIZE \<notin> page_index s \<longrightarrow> pmm_free_page p s = s) \<and>
     (pmm_alloc_page s = (s', q) \<and> q \<noteq> 0 \<longrightarrow>
        page_index (pmm_free_page q s') = page_index s \<and>
        pmm_used_blocks (pmm_free_page q s') = pmm_used_blocks s)"
proof -
  have w: "pmm_wf s" "heap_wf s" using assms by (simp_all add: mm_wf_def)
  have noop: "pmm_free_page p s = s" if "p = 0 \<or> p div PAGE_SIZE \<notin> page_index s"
    using that by (auto simp: pmm_free_page_def Let_def page_index_def)
  have one: "mm_wf (pmm_free_page p s) \<and> heap_live (pmm_free_page p s) = heap_live s \<and>
      page_index (pmm_free_page p s) = page_index s - {p div PAGE_SIZE}"
    if "p \<noteq> 0" "p div PAGE_SIZE \<in> page_index s"
  proof -
    let ?q = "p div PAGE_SIZE * PAGE_SIZE"
    have l: "(?q, PAGE_SIZE) \<in> page_live s" using that(2) by (simp add: page_live_def)
    have "?q \<noteq> 0" using pages_above(2) [OF w(1) l] by (simp add: const_defs)
    then have "pmm_free_page p s = pmm_free_page ?q s" using that by (simp add: pmm_free_page_def)
    then show ?thesis
      using pmm_free_mm [OF assms l] pmm_free_page_eq(4) [OF w(1) l] page_index_clear by simp
  qed
  have undo: "page_index (pmm_free_page q s') = page_index s \<and> pmm_used_blocks (pmm_free_page q s') = pmm_used_blocks s"
    if a: "pmm_alloc_page s = (s', q)" "q \<noteq> 0"
    using w(1)
  proof (cases rule: pmm_alloc_page_cases)
    case full
    then show ?thesis using a by simp
  next
    case (page j)
    note m = pmm_alloc_mm [OF assms a(1)]
    have s': "s' = (pmm_bitmap_set j s)\<lparr>pmm_used_blocks := pmm_used_blocks s + 1\<rparr>" "q = j * PAGE_SIZE"
      using page(5) a(1) by auto
    have l: "(q, PAGE_SIZE) \<in> page_live s'" using m(5) a(2) by simp
    have w': "pmm_wf s'" using m(1) by (simp add: mm_wf_def)
    show ?thesis
      using pmm_free_page_eq(4) [OF w' l] page_index_clear [where c = "q div PAGE_SIZE" and s = s']
        page_index_set [OF page(1,2)] page(3) s' by simp
  qed
  show ?thesis using noop one undo assms by (cases "p = 0 \<or> p div PAGE_SIZE \<notin> page_index s") auto
qed

theorem pmm_free_page_correct_witness: "pmm_free_page 4096 mm_boot = mm_boot"
proof -
  have "(4096 :: nat) div PAGE_SIZE \<notin> page_index mm_boot"
    using mm_boot_wf(3) by (simp add: page_live_def)
  then show ?thesis using pmm_free_page_correct [OF mm_boot_wf(1), of 4096] by simp
qed

text \<open>
  \<open>pmm_init\<close> establishes the invariant of both allocators from any state and any
  memory size: nothing is live, all memory below the end of the heap is reserved for good,
  and the counters agree.
\<close>

lemma pmm_init_correct:
  fixes mem_size :: u32 and s :: mm
  defines "s' \<equiv> pmm_init mem_size s" and "size' \<equiv> max (unat mem_size) PAGE_SIZE"
  shows "mm_wf s' \<and> page_live s' = {} \<and> heap_live s' = {} \<and>
     unat (pmm_total_blocks s') = size' div PAGE_SIZE \<and>
     unat (pmm_used_blocks_count s') = min size' HEAP_END div PAGE_SIZE \<and>
     pmm_reserved_blocks s' = pmm_used_blocks_count s'"
  using pmm_init_state [of s' mem_size s]
  by (simp add: s'_def size'_def pmm_total_blocks_def pmm_used_blocks_count_def)

end
