(* ===== verification/Serial.thy ===== *)
theory Serial
  imports CString
begin

text \<open>
  The serial console, \<^verbatim>\<open>src/src/drivers/serial.c\<close>.  The UART is not part of the
  program: \<open>tx\<close>, an argument of the definitions, is the device, which answers the
  \<open>n\<close>-th read of the line status register with "transmit holding register empty" or
  not.  The state records the driver's flag, how often the status was read, and the
  port writes, oldest first.
\<close>

type_synonym uart = "nat \<Rightarrow> bool"

record serial =
  g_serial_ready :: bool
  tx_polls :: nat
  port_log :: "(nat \<times> u8) list"

definition SERIAL_COM1 :: nat where [const_defs]: "SERIAL_COM1 = 1016"

definition outb_serial :: "nat \<Rightarrow> u8 \<Rightarrow> serial \<Rightarrow> serial" where
  "outb_serial port v s = s\<lparr>port_log := port_log s @ [(port, v)]\<rparr>"

definition serial_tx_ready :: "uart \<Rightarrow> serial \<Rightarrow> bool \<times> serial" where
  "serial_tx_ready tx s = (tx (tx_polls s), s\<lparr>tx_polls := Suc (tx_polls s)\<rparr>)"

definition serial_init :: "serial \<Rightarrow> serial" where
  "serial_init s =
     (let s1 = outb_serial (SERIAL_COM1 + 1) 0 s;
          s2 = outb_serial (SERIAL_COM1 + 3) 128 s1;
          s3 = outb_serial (SERIAL_COM1 + 0) 3 s2;
          s4 = outb_serial (SERIAL_COM1 + 1) 0 s3;
          s5 = outb_serial (SERIAL_COM1 + 3) 3 s4;
          s6 = outb_serial (SERIAL_COM1 + 2) 199 s5;
          s7 = outb_serial (SERIAL_COM1 + 4) 11 s6
      in s7\<lparr>g_serial_ready := True\<rparr>)"

definition serial_is_ready :: "serial \<Rightarrow> bool" where
  "serial_is_ready s = g_serial_ready s"

text \<open>The polling loop of \<open>serial_putc\<close>; \<open>False\<close> is the early return after 1000001 polls.\<close>

function serial_wait :: "uart \<Rightarrow> nat \<Rightarrow> serial \<Rightarrow> bool \<times> serial" where
  "serial_wait tx guard s =
     (let (ok, s1) = serial_tx_ready tx s
      in if ok then (True, s1)
         else if guard + 1 > 1000000 then (False, s1)
         else serial_wait tx (guard + 1) s1)"
  by pat_completeness auto
termination
  by (relation "measure (\<lambda>(tx, guard, s). 1000001 - guard)") auto

declare serial_wait.simps [simp del]

definition serial_out :: "uart \<Rightarrow> u8 \<Rightarrow> serial \<Rightarrow> serial" where
  "serial_out tx c s =
     (let (ok, s1) = serial_wait tx 0 s in if ok then outb_serial SERIAL_COM1 c s1 else s1)"

text \<open>The recursive call for the carriage return never recurses further.\<close>

definition serial_putc :: "uart \<Rightarrow> u8 \<Rightarrow> serial \<Rightarrow> serial" where
  "serial_putc tx c s =
     (if \<not> g_serial_ready s then s
      else if c = 10 then serial_out tx c (serial_out tx 13 s) else serial_out tx c s)"

text \<open>The argument is \<open>None\<close> for a null pointer.\<close>

definition serial_write :: "uart \<Rightarrow> bytes option \<Rightarrow> serial \<Rightarrow> serial" where
  "serial_write tx str s = (case str of None \<Rightarrow> s | Some bs \<Rightarrow> fold (serial_putc tx) bs s)"

section \<open>What reaches the wire\<close>

text \<open>The bytes written to the data register, in order.\<close>

definition sent :: "serial \<Rightarrow> bytes" where
  "sent s = map snd (filter (\<lambda>(p, _). p = SERIAL_COM1) (port_log s))"

text \<open>A live device becomes ready again within a million reads of its status.\<close>

definition live_uart :: "uart \<Rightarrow> bool" where
  "live_uart tx \<longleftrightarrow> (\<forall>n. \<exists>k \<le> 1000000. tx (n + k))"

definition crlf :: "bytes \<Rightarrow> bytes" where
  "crlf bs = concat (map (\<lambda>c. if c = 10 then [13, 10] else [c]) bs)"

lemma crlf_Nil [simp]: "crlf [] = []" and
  crlf_Cons [simp]: "crlf (c # bs) = (if c = 10 then [13, 10] else [c]) @ crlf bs" and
  crlf_append [simp]: "crlf (as @ bs) = crlf as @ crlf bs"
  by (simp_all add: crlf_def)

lemma serial_wait_frame:
  "serial_wait tx guard s = (ok, s') \<Longrightarrow> port_log s' = port_log s \<and> g_serial_ready s' = g_serial_ready s"
proof (induction tx guard s rule: serial_wait.induct)
  case (1 tx guard s)
  then show ?case
    by (auto simp: serial_wait.simps [of tx guard s] serial_tx_ready_def split: if_splits)
qed

lemma serial_wait_ok:
  assumes "tx (tx_polls s + k)" and "guard + k \<le> 1000000"
  shows "fst (serial_wait tx guard s)"
  using assms
proof (induction k arbitrary: guard s)
  case 0
  then show ?case by (simp add: serial_wait.simps [of tx guard s] serial_tx_ready_def)
next
  case (Suc k)
  let ?s1 = "s\<lparr>tx_polls := Suc (tx_polls s)\<rparr>"
  have "fst (serial_wait tx (guard + 1) ?s1)"
    using Suc.prems by (intro Suc.IH) auto
  with Suc.prems show ?case
    by (simp add: serial_wait.simps [of tx guard s] serial_tx_ready_def)
qed

lemma serial_out_live:
  assumes "live_uart tx"
  shows "sent (serial_out tx c s) = sent s @ [c]"
    and "g_serial_ready (serial_out tx c s) = g_serial_ready s"
proof -
  obtain ok s1 where w: "serial_wait tx 0 s = (ok, s1)" by fastforce
  obtain k where "k \<le> 1000000" "tx (tx_polls s + k)" using assms by (auto simp: live_uart_def)
  then have "ok" using serial_wait_ok [of tx s k 0] w by simp
  with w serial_wait_frame [OF w] show "sent (serial_out tx c s) = sent s @ [c]"
    and "g_serial_ready (serial_out tx c s) = g_serial_ready s"
    by (simp_all add: serial_out_def outb_serial_def sent_def)
qed

lemma serial_putc_live:
  assumes "live_uart tx" and "g_serial_ready s"
  shows "sent (serial_putc tx c s) = sent s @ crlf [c]" and "g_serial_ready (serial_putc tx c s)"
  using assms by (simp_all add: serial_putc_def serial_out_live)

lemma serial_puts_live:
  assumes "live_uart tx" and "g_serial_ready s"
  shows "sent (fold (serial_putc tx) bs s) = sent s @ crlf bs \<and> g_serial_ready (fold (serial_putc tx) bs s)"
  using assms(2) by (induction bs arbitrary: s) (simp_all add: serial_putc_live [OF assms(1)])

lemma serial_not_ready: "\<not> g_serial_ready s \<Longrightarrow> fold (serial_putc tx) bs s = s"
  by (induction bs) (simp_all add: serial_putc_def)

text \<open>
  After \<open>serial_init\<close>, \<open>serial_write\<close> delivers every byte in order, each line feed
  preceded by a carriage return, whenever the device becomes ready within a million status
  reads; a device that never becomes ready makes \<open>serial_putc\<close> give up instead of hanging,
  since the loop is a total function.
\<close>

lemma serial_write_delivers:
  assumes "live_uart tx"
  shows "sent (serial_write tx (Some bs) (serial_init s)) = sent (serial_init s) @ crlf bs"
proof -
  have "g_serial_ready (serial_init s)" by (simp add: serial_init_def Let_def)
  with serial_puts_live [OF assms this] show ?thesis by (simp add: serial_write_def)
qed

theorem serial_write_delivers_witness:
  "sent (serial_write (\<lambda>n. odd n) (Some [104, 10])
     (serial_init \<lparr>g_serial_ready = False, tx_polls = 0, port_log = []\<rparr>)) = [3, 104, 13, 10]"
proof -
  have "live_uart (\<lambda>n. odd n)"
    unfolding live_uart_def
  proof
    fix n :: nat
    show "\<exists>k\<le>1000000. odd (n + k)" by (cases "odd n") (auto intro: exI [of _ 0] exI [of _ 1])
  qed
  show ?thesis
    by (subst serial_write_delivers [OF \<open>live_uart (\<lambda>n. odd n)\<close>]) (simp add: serial_init_def outb_serial_def sent_def SERIAL_COM1_def Let_def)
qed

end
