(* ===== verification/Klog.thy ===== *)
theory Klog
  imports Serial Bounded_Ring
begin

text \<open>
  The kernel log, \<^verbatim>\<open>src/src/kernel/klog.c\<close>: a ring of 8192 bytes, its line
  counter, the formatting of a record, and the copy of every record to the serial console.
  The ring is interpreted as a \<open>bounded_ring\<close>, from which the properties of
  \<open>klog_log\<close> and \<open>klog_read\<close> follow.
\<close>

definition KLOG_RING_CAPACITY :: nat where [const_defs]: "KLOG_RING_CAPACITY = 8192"

record klog =
  g_klog_ring :: "nat \<Rightarrow> u8"
  g_klog_head :: nat
  g_klog_size :: nat
  g_klog_lines :: u32

text \<open>The levels of \<open>klog_level_t\<close>.\<close>

abbreviation (input) KLOG_EMERG :: nat where "KLOG_EMERG \<equiv> 0"
abbreviation (input) KLOG_ALERT :: nat where "KLOG_ALERT \<equiv> 1"
abbreviation (input) KLOG_CRIT :: nat where "KLOG_CRIT \<equiv> 2"
abbreviation (input) KLOG_ERR :: nat where "KLOG_ERR \<equiv> 3"
abbreviation (input) KLOG_WARN :: nat where "KLOG_WARN \<equiv> 4"
abbreviation (input) KLOG_NOTICE :: nat where "KLOG_NOTICE \<equiv> 5"
abbreviation (input) KLOG_INFO :: nat where "KLOG_INFO \<equiv> 6"
abbreviation (input) KLOG_DEBUG :: nat where "KLOG_DEBUG \<equiv> 7"

definition klog_level_char :: "nat \<Rightarrow> u8" where
  "klog_level_char level =
     (if level = KLOG_EMERG then 48 else if level = KLOG_ALERT then 49
      else if level = KLOG_CRIT then 50 else if level = KLOG_ERR then 51
      else if level = KLOG_WARN then 52 else if level = KLOG_NOTICE then 53
      else if level = KLOG_INFO then 54 else if level = KLOG_DEBUG then 55 else 63)"

definition klog_ring_putc :: "u8 \<Rightarrow> klog \<Rightarrow> klog" where
  "klog_ring_putc c k =
     k\<lparr>g_klog_ring := (g_klog_ring k)(g_klog_head k := c),
       g_klog_head := (g_klog_head k + 1) mod KLOG_RING_CAPACITY,
       g_klog_size := (if g_klog_size k < KLOG_RING_CAPACITY then g_klog_size k + 1 else g_klog_size k)\<rparr>"

definition klog_ring_puts :: "bytes option \<Rightarrow> klog \<Rightarrow> klog" where
  "klog_ring_puts s k = (case s of None \<Rightarrow> k | Some bs \<Rightarrow> fold klog_ring_putc bs k)"

text \<open>
  \<open>klog_append(dst, cap, src)\<close> on the string the buffer holds: the loop
  \<open>while (len + 1 < cap && *src) dst[len++] = *src++\<close>.
\<close>

fun klog_append_loop :: "bytes \<Rightarrow> nat \<Rightarrow> bytes \<Rightarrow> bytes" where
  "klog_append_loop dst cap [] = dst"
| "klog_append_loop dst cap (c # src) =
     (if length dst + 1 < cap then klog_append_loop (dst @ [c]) cap src else dst)"

definition klog_append :: "bytes \<Rightarrow> nat \<Rightarrow> bytes option \<Rightarrow> bytes" where
  "klog_append dst cap src =
     (case src of None \<Rightarrow> dst | Some s \<Rightarrow> if cap = 0 then dst else klog_append_loop dst cap s)"

definition klog_init :: "klog \<Rightarrow> klog" where
  "klog_init k = k\<lparr>g_klog_head := 0, g_klog_size := 0, g_klog_lines := 0, g_klog_ring := (\<lambda>_. 0)\<rparr>"

definition klog_clear :: "klog \<Rightarrow> klog" where
  "klog_clear k = k\<lparr>g_klog_head := 0, g_klog_size := 0, g_klog_ring := (\<lambda>_. 0)\<rparr>"

text \<open>\<open>klog_log\<close>: first the ring, then the same bytes to the serial port when it is ready.\<close>

definition klog_log_ring :: "nat \<Rightarrow> bytes \<Rightarrow> bytes \<Rightarrow> bytes \<Rightarrow> klog \<Rightarrow> klog" where
  "klog_log_ring level seq_buf subsys msg k =
     (let c = klog_level_char level;
          k1 = fold klog_ring_putc [60, c, 62, 32, 91] k;
          k2 = klog_ring_puts (Some seq_buf) k1;
          k3 = fold klog_ring_putc [93, 32, 91] k2;
          k4 = klog_ring_puts (Some subsys) k3;
          k5 = fold klog_ring_putc [93, 32] k4;
          k6 = klog_ring_puts (Some msg) k5
      in klog_ring_putc 10 k6)"

definition klog_log_serial :: "uart \<Rightarrow> nat \<Rightarrow> bytes \<Rightarrow> bytes \<Rightarrow> bytes \<Rightarrow> serial \<Rightarrow> serial" where
  "klog_log_serial tx level seq_buf subsys msg s =
     (let c = klog_level_char level;
          s1 = fold (serial_putc tx) [60, c, 62, 32, 91] s;
          s2 = serial_write tx (Some seq_buf) s1;
          s3 = fold (serial_putc tx) [93, 32, 91] s2;
          s4 = serial_write tx (Some subsys) s3;
          s5 = fold (serial_putc tx) [93, 32] s4;
          s6 = serial_write tx (Some msg) s5
      in serial_putc tx 10 s6)"

definition klog_log ::
  "uart \<Rightarrow> nat \<Rightarrow> bytes option \<Rightarrow> bytes option \<Rightarrow> klog \<times> serial \<Rightarrow> klog \<times> serial" where
  "klog_log tx level subsys0 msg0 ks =
     (let (k, s) = ks;
          subsys = (case subsys0 of None \<Rightarrow> lit ''core'' | Some b \<Rightarrow> if b = [] then lit ''core'' else b);
          msg = (case msg0 of None \<Rightarrow> [] | Some b \<Rightarrow> b);
          k1 = k\<lparr>g_klog_lines := g_klog_lines k + 1\<rparr>;
          seq_buf = utoa_text (g_klog_lines k1) 10;
          k2 = klog_log_ring level seq_buf subsys msg k1
      in (k2, if serial_is_ready s then klog_log_serial tx level seq_buf subsys msg s else s))"

definition klog_u32_line :: "bytes option \<Rightarrow> u32 \<Rightarrow> nat \<Rightarrow> bytes" where
  "klog_u32_line prefix value base0 =
     (let base = (if base0 \<noteq> 16 then 10 else base0);
          line0 = (case prefix of None \<Rightarrow> []
                   | Some p \<Rightarrow> if p \<noteq> [] then klog_append [] 96 (Some p) else []);
          line1 = (if line0 \<noteq> [] then klog_append line0 96 (Some [32]) else line0);
          line2 = (if base = 16 then klog_append line1 96 (Some (lit ''0x'')) else line1);
          value_buf = (if base = 16 then utoa_text value 16 else utoa_text value 10)
      in klog_append line2 96 (Some value_buf))"

definition klog_log_u32 ::
  "uart \<Rightarrow> nat \<Rightarrow> bytes option \<Rightarrow> bytes option \<Rightarrow> u32 \<Rightarrow> nat \<Rightarrow> klog \<times> serial \<Rightarrow> klog \<times> serial" where
  "klog_log_u32 tx level subsys prefix value base ks =
     klog_log tx level subsys (Some (klog_u32_line prefix value base)) ks"

text \<open>
  \<open>klog_read(out, max_len)\<close>: the returned length and the bytes stored at \<open>out\<close>, the
  terminator included; \<open>None\<close> as the first argument is a null \<open>out\<close>.
\<close>

definition klog_read :: "klog \<Rightarrow> bool \<Rightarrow> int \<Rightarrow> int \<times> bytes" where
  "klog_read k out_null max_len =
     (if out_null \<or> max_len \<le> 0 then (0, [])
      else if g_klog_size k = 0 then (0, [0])
      else let copy_len = (if int (g_klog_size k) > max_len - 1 then max_len - 1 else int (g_klog_size k));
               start = (g_klog_head k + KLOG_RING_CAPACITY - g_klog_size k) mod KLOG_RING_CAPACITY
           in (copy_len,
               map (\<lambda>i. g_klog_ring k ((start + i) mod KLOG_RING_CAPACITY)) [0..<nat copy_len] @ [0]))"

definition klog_bytes_used :: "klog \<Rightarrow> nat" where
  "klog_bytes_used k = g_klog_size k"

definition klog_line_count :: "klog \<Rightarrow> u32" where
  "klog_line_count k = g_klog_lines k"

section \<open>The log as a bounded ring\<close>

definition klog_wf :: "klog \<Rightarrow> bool" where
  "klog_wf k \<longleftrightarrow> g_klog_head k < KLOG_RING_CAPACITY \<and> g_klog_size k \<le> KLOG_RING_CAPACITY"

definition klog_text :: "klog \<Rightarrow> bytes" where
  "klog_text k = ring_contents KLOG_RING_CAPACITY (g_klog_ring k) (g_klog_head k) (g_klog_size k)"

lemma klog_wf_putc: "klog_wf k \<Longrightarrow> klog_wf (klog_ring_putc c k)"
  by (auto simp: klog_wf_def klog_ring_putc_def const_defs)

lemma klog_text_putc:
  "klog_wf k \<Longrightarrow> klog_text (klog_ring_putc c k) = take_last KLOG_RING_CAPACITY (klog_text k @ [c])"
  using ring_contents_push [of "g_klog_head k" KLOG_RING_CAPACITY "g_klog_size k" "g_klog_ring k" c]
  by (simp add: klog_text_def klog_wf_def klog_ring_putc_def)

lemma klog_text_length: "klog_wf k \<Longrightarrow> length (klog_text k) \<le> KLOG_RING_CAPACITY"
  by (simp add: klog_text_def klog_wf_def)

interpretation kring: bounded_ring KLOG_RING_CAPACITY klog_ring_putc klog_text klog_wf
  by unfold_locales (auto simp: klog_text_putc klog_wf_putc intro: klog_text_length)

lemma klog_init_text [simp]: "klog_wf (klog_init k)" "klog_text (klog_init k) = []"
  by (simp_all add: klog_wf_def klog_init_def klog_text_def ring_contents_def const_defs)

lemma klog_clear_text [simp]: "klog_wf (klog_clear k)" "klog_text (klog_clear k) = []"
  by (simp_all add: klog_wf_def klog_clear_def klog_text_def ring_contents_def const_defs)

text \<open>The record of one message.\<close>

definition klog_record :: "nat \<Rightarrow> bytes \<Rightarrow> bytes \<Rightarrow> bytes \<Rightarrow> bytes" where
  "klog_record level seq_buf subsys msg =
     [60, klog_level_char level, 62, 32, 91] @ seq_buf @ [93, 32, 91] @ subsys @ [93, 32] @ msg @ [10]"

lemma klog_log_ring_fold:
  "klog_log_ring level seq_buf subsys msg k = fold klog_ring_putc (klog_record level seq_buf subsys msg) k"
  by (simp add: klog_log_ring_def klog_record_def klog_ring_puts_def Let_def)

lemma klog_log_serial_fold:
  "klog_log_serial tx level seq_buf subsys msg s = fold (serial_putc tx) (klog_record level seq_buf subsys msg) s"
  by (simp add: klog_log_serial_def klog_record_def serial_write_def Let_def)

lemma fold_putc_lines [simp]: "g_klog_lines (fold klog_ring_putc bs k) = g_klog_lines k"
  by (induction bs arbitrary: k) (simp_all add: klog_ring_putc_def)

lemma klog_append_eq:
  "length dst < cap \<Longrightarrow> klog_append dst cap (Some src) = dst @ take (cap - 1 - length dst) src"
proof -
  have "klog_append_loop dst cap src = dst @ take (cap - 1 - length dst) src" if "length dst < cap"
    using that
  proof (induction dst cap src rule: klog_append_loop.induct)
    case (2 dst cap c src)
    then show ?case
      by (cases "length dst + 1 < cap") (auto simp: take_Cons' Suc_diff_Suc)
  qed simp
  then show "length dst < cap \<Longrightarrow> ?thesis" by (simp add: klog_append_def)
qed

lemma length_klog_append: "length dst < cap \<Longrightarrow> length (klog_append dst cap (Some src)) < cap"
  by (simp add: klog_append_eq)

section \<open>Properties of the kernel log\<close>

definition subsys_or_core :: "bytes option \<Rightarrow> bytes" where
  "subsys_or_core s = (case s of None \<Rightarrow> lit ''core'' | Some b \<Rightarrow> if b = [] then lit ''core'' else b)"

definition msg_or_empty :: "bytes option \<Rightarrow> bytes" where
  "msg_or_empty m = (case m of None \<Rightarrow> [] | Some b \<Rightarrow> b)"

text \<open>
  \<open>klog_log\<close> appends exactly one record \<open>"<level> [seq] [subsys] msg\<newline>"\<close> to
  the log, with the sequence number counted up, keeps the last 8192 bytes of the whole log
  and the ring's bounds; and when the serial port is ready the same record, with its line
  feeds expanded, goes out on the wire.
\<close>

lemma klog_log_appends:
  assumes "klog_wf k" and "live_uart tx"
  shows "\<exists>k' s'. klog_log tx level subsys msg (k, s) = (k', s') \<and> klog_wf k' \<and>
    g_klog_lines k' = g_klog_lines k + 1 \<and>
    klog_text k' = take_last KLOG_RING_CAPACITY (klog_text k @
       klog_record level (utoa_text (g_klog_lines k + 1) 10) (subsys_or_core subsys) (msg_or_empty msg)) \<and>
    (g_serial_ready s \<longrightarrow> sent s' = sent s @
       crlf (klog_record level (utoa_text (g_klog_lines k + 1) 10) (subsys_or_core subsys) (msg_or_empty msg))) \<and>
    (\<not> g_serial_ready s \<longrightarrow> s' = s)"
proof -
  let ?k1 = "k\<lparr>g_klog_lines := g_klog_lines k + 1\<rparr>"
  have wf: "klog_wf ?k1" using assms(1) by (simp add: klog_wf_def)
  have ktxt: "klog_text ?k1 = klog_text k" by (simp add: klog_text_def)
  show ?thesis
    unfolding klog_log_def Let_def prod.case klog_log_ring_fold klog_log_serial_fold
      subsys_or_core_def msg_or_empty_def
    using wf serial_puts_live [OF assms(2)]
    by (simp add: kring.wf_pushes kring.contents_pushes ktxt serial_is_ready_def)
qed

theorem klog_log_appends_witness:
  "\<exists>k' s'. klog_log (\<lambda>_. True) KLOG_WARN None (Some [104, 105])
       (klog_init \<lparr>g_klog_ring = \<lambda>_. 7, g_klog_head = 5, g_klog_size = 3, g_klog_lines = 9\<rparr>,
        \<lparr>g_serial_ready = True, tx_polls = 0, port_log = []\<rparr>) = (k', s') \<and>
     klog_text k' = lit ''<4> [1] [core] hi'' @ [10]"
proof -
  let ?k = "klog_init \<lparr>g_klog_ring = \<lambda>_. 7, g_klog_head = 5, g_klog_size = 3, g_klog_lines = 9\<rparr>"
  have "live_uart (\<lambda>_. True)" by (auto simp: live_uart_def)
  from klog_log_appends [OF klog_init_text(1) this]
  obtain k' s' where "klog_log (\<lambda>_. True) KLOG_WARN None (Some [104, 105])
       (?k, \<lparr>g_serial_ready = True, tx_polls = 0, port_log = []\<rparr>) = (k', s')"
    and ktxt: "klog_text k' = take_last KLOG_RING_CAPACITY (klog_text ?k @
       klog_record KLOG_WARN (utoa_text (g_klog_lines ?k + 1) 10) (subsys_or_core None)
         (msg_or_empty (Some [104, 105])))"
    by blast
  moreover have "utoa_text (g_klog_lines ?k + 1) 10 = [49]"
    by (simp add: klog_init_def utoa_text_def utoa_str_def digits_loop.simps digit_char_def byte_of_nat_def)
  ultimately show ?thesis
    by (simp add: klog_record_def klog_level_char_def subsys_or_core_def msg_or_empty_def const_defs)
qed

text \<open>
  \<open>klog_read\<close> copies the oldest bytes of the log, in order, as many as fit before
  the terminator, returns how many it copied, and never stores more than \<open>max_len\<close> bytes;
  on a null buffer or a non-positive length it stores nothing.
\<close>

lemma klog_read_correct:
  assumes "klog_wf k"
  shows "klog_read k out_null max_len =
     (if out_null \<or> max_len \<le> 0 then (0, [])
      else (int (length (take (nat (max_len - 1)) (klog_text k))),
            take (nat (max_len - 1)) (klog_text k) @ [0]))"
proof (cases "out_null \<or> max_len \<le> 0 \<or> g_klog_size k = 0")
  case True
  then show ?thesis by (auto simp: klog_read_def klog_text_def ring_contents_def)
next
  case False
  let ?n = "nat (if int (g_klog_size k) > max_len - 1 then max_len - 1 else int (g_klog_size k))"
  let ?start = "(g_klog_head k + KLOG_RING_CAPACITY - g_klog_size k) mod KLOG_RING_CAPACITY"
  have "map (\<lambda>i. g_klog_ring k ((?start + i) mod KLOG_RING_CAPACITY)) [0..<?n] =
        take (nat (max_len - 1)) (klog_text k)"
    by (rule nth_equalityI) (auto simp: klog_text_def mod_add_left_eq split: if_splits)
  moreover have "length (take (nat (max_len - 1)) (klog_text k)) = ?n"
    by (auto simp: klog_text_def)
  ultimately show ?thesis using False
    by (auto simp: klog_read_def Let_def)
qed

theorem klog_read_correct_witness:
  "klog_read (klog_ring_putc 66 (klog_ring_putc 65 (klog_init undefined))) False 2 = (1, [65, 0])"
proof -
  let ?k = "klog_ring_putc 66 (klog_ring_putc 65 (klog_init undefined))"
  have "klog_wf ?k" by (simp add: klog_wf_putc)
  moreover have "klog_text ?k = [65, 66]"
    using kring.contents_pushes [of "klog_init undefined" "[65, 66]"] by (simp add: const_defs)
  ultimately show ?thesis using klog_read_correct [of ?k False 2] by simp
qed

lemma klog_u32_line_bound: "length (klog_u32_line prefix v base) < 96"
  by (auto simp: klog_u32_line_def Let_def length_klog_append split: option.splits)

lemma klog_u32_line_exact:
  assumes "length p \<le> 80" and "p \<noteq> []"
  shows "klog_u32_line (Some p) v base =
     p @ [32] @ (if base = 16 then lit ''0x'' @ utoa_text v 16 else utoa_text v 10)"
  using assms length_utoa_text_10 [of v] length_utoa_text_16 [of v]
  by (simp add: klog_u32_line_def Let_def klog_append_eq)

text \<open>
  The line that \<open>klog_log_u32\<close> builds always fits its 96-byte buffer with the
  terminator, and for a prefix of up to 80 bytes nothing is cut off: it is the prefix, a
  blank and the number, with \<open>0x\<close> in base 16.
\<close>

lemma klog_u32_line_fits:
  "length (klog_u32_line prefix v base) < 96 \<and>
   (length p \<le> 80 \<and> p \<noteq> [] \<longrightarrow>
      klog_u32_line (Some p) v base =
        p @ [32] @ (if base = 16 then lit ''0x'' @ utoa_text v 16 else utoa_text v 10))"
  using klog_u32_line_bound klog_u32_line_exact by blast

theorem klog_u32_line_fits_witness:
  "klog_u32_line (Some [112]) 5 10 = [112, 32] @ utoa_text 5 10"
  using klog_u32_line_fits [of None 5 10 "[112]"] by simp

end
