(* ===== verification/Scheduler.thy ===== *)
theory Scheduler
  imports Mm Klog
begin

text \<open>
  The scheduler, \<^verbatim>\<open>src/src/kernel/scheduler.c\<close>: the circular list of
  \<open>process_t\<close> structures, which lie in the kernel heap, with their stacks on pages of
  the page allocator.  Structures, stacks, block headers and the page bitmap share one byte
  store; the separation of the list from everything the allocators hand out later comes
  from the allocator contract.
\<close>

section \<open>State and operations\<close>

record sched =
  current_process :: addr
  process_list :: addr
  next_pid :: u32
  scheduler_ticks :: u32

record kernel =
  kmm :: mm
  ksched :: sched
  klg :: "klog \<times> serial"

text \<open>The fields of \<open>process_t\<close>, 28 bytes on i386.\<close>

definition PROC :: nat where [const_defs]: "PROC = 28"

definition p_id :: "mem \<Rightarrow> addr \<Rightarrow> u32" where "p_id m p = ld32 m p"
definition p_esp :: "mem \<Rightarrow> addr \<Rightarrow> u32" where "p_esp m p = ld32 m (p + 4)"
definition p_stack_base :: "mem \<Rightarrow> addr \<Rightarrow> u32" where "p_stack_base m p = ld32 m (p + 16)"
definition p_state :: "mem \<Rightarrow> addr \<Rightarrow> u32" where "p_state m p = ld32 m (p + 20)"
definition p_next :: "mem \<Rightarrow> addr \<Rightarrow> addr" where "p_next m p = unat (ld32 m (p + 24))"

lemmas proc_defs = p_id_def p_esp_def p_stack_base_def p_state_def p_next_def

definition kram :: "kernel \<Rightarrow> mem" where "kram k = ram (kmm k)"

definition poke :: "addr \<Rightarrow> u32 \<Rightarrow> mm \<Rightarrow> mm" where "poke a v s = s\<lparr>ram := st32 (ram s) a v\<rparr>"

function scheduler_count_loop :: "mem \<Rightarrow> addr \<Rightarrow> nat \<Rightarrow> addr \<Rightarrow> nat" where
  "scheduler_count_loop m plist cnt p =
     (if p \<noteq> 0 \<and> p \<noteq> plist then
        if cnt + 1 > 4096 then cnt + 1 else scheduler_count_loop m plist (cnt + 1) (p_next m p)
      else cnt)"
  by pat_completeness auto
termination
  by (relation "measure (\<lambda>(m, plist, cnt, p). 4096 - cnt)") auto

declare scheduler_count_loop.simps [simp del]

definition scheduler_count_internal :: "kernel \<Rightarrow> nat" where
  "scheduler_count_internal k =
     (let l = process_list (ksched k)
      in if l = 0 then 0 else scheduler_count_loop (kram k) l 1 (p_next (kram k) l))"

definition panic_sched_msg :: bytes where
  "panic_sched_msg = lit ''scheduler init failed: kmalloc returned null''"

text \<open>\<open>PANIC\<close> halts the machine with its message: the left side of the sum.\<close>

definition scheduler_init :: "kernel \<Rightarrow> (bytes + kernel) option" where
  "scheduler_init k =
     (case kmalloc 28 (kmm k) of
        None \<Rightarrow> None
      | Some (s, p) \<Rightarrow>
          if p = 0 then Some (Inl panic_sched_msg)
          else let s1 = poke p 0 s; s2 = poke (p + 4) 0 s1; s3 = poke (p + 8) 0 s2; s4 = poke (p + 12) 0 s3;
                   s5 = poke (p + 16) 0 s4; s6 = poke (p + 20) 1 s5; s7 = poke (p + 24) (word_of_nat p) s6
               in Some (Inr (k\<lparr>kmm := s7,
                     ksched := (ksched k)\<lparr>current_process := p, process_list := p\<rparr>\<rparr>)))"

definition msg_no_struct :: bytes where
  "msg_no_struct = lit ''create_process failed: no process struct memory''"
definition msg_no_stack :: bytes where
  "msg_no_stack = lit ''create_process failed: no free page for stack''"

text \<open>The six words of the first context, from the top of the stack page downwards.\<close>

definition fake_context :: "addr \<Rightarrow> u32 \<Rightarrow> mm \<Rightarrow> mm" where
  "fake_context stack entry_point s =
     fold (\<lambda>(i, v). poke (stack + 4096 - 4 * i) v)
       [(1, entry_point), (2, 0), (3, 0), (4, 0), (5, 0), (6, 0)] s"

definition create_process :: "uart \<Rightarrow> u32 \<Rightarrow> kernel \<Rightarrow> (kernel \<times> int) option" where
  "create_process tx entry_point k =
     (case kmalloc 28 (kmm k) of
        None \<Rightarrow> None
      | Some (s, np) \<Rightarrow>
          if np = 0 \<or> process_list (ksched k) = 0
          then Some (k\<lparr>kmm := s, klg := klog_log tx KLOG_ERR (Some (lit ''sched'')) (Some msg_no_struct) (klg k)\<rparr>, -1)
          else
            let pid = next_pid (ksched k);
                s1 = poke np pid s;
                sc = (ksched k)\<lparr>next_pid := pid + 1\<rparr>;
                s2 = poke (np + 20) 1 s1;
                (s3, stack) = pmm_alloc_page s2
            in if stack = 0
               then Some (k\<lparr>kmm := s3, ksched := sc,
                      klg := klog_log tx KLOG_ERR (Some (lit ''sched'')) (Some msg_no_stack) (klg k)\<rparr>, -1)
               else
                 let s4 = fake_context stack entry_point s3;
                     s5 = poke (np + 4) (word_of_nat (stack + 4096 - 24)) s4;
                     s6 = poke (np + 16) (word_of_nat stack) s5;
                     s7 = poke (np + 24) (ld32 (ram s6) (process_list sc + 24)) s6;
                     s8 = poke (process_list sc + 24) (word_of_nat np) s7
                 in Some (k\<lparr>kmm := s8, ksched := sc,
                      klg := klog_log_u32 tx KLOG_INFO (Some (lit ''sched'')) (Some (lit ''created pid'')) pid 10 (klg k)\<rparr>,
                      sint pid))"

definition yield :: "kernel \<Rightarrow> kernel" where
  "yield k =
     (let c = current_process (ksched k)
      in if c = 0 \<or> c = p_next (kram k) c then k
         else k\<lparr>ksched := (ksched k)\<lparr>current_process := p_next (kram k) c,
                                       scheduler_ticks := scheduler_ticks (ksched k) + 1\<rparr>\<rparr>)"

record scheduler_proc_info =
  pi_id :: u32
  pi_state :: u32
  pi_current :: bool

text \<open>The \<open>do ... while\<close> loop of \<open>scheduler_snapshot\<close>; the list holds the entries written so far.\<close>

function snapshot_loop ::
  "kernel \<Rightarrow> int \<Rightarrow> addr \<Rightarrow> scheduler_proc_info list \<Rightarrow> scheduler_proc_info list" where
  "snapshot_loop k max_count p out =
     (if int (length out) \<ge> max_count then out
      else let out' = out @ [\<lparr>pi_id = p_id (kram k) p, pi_state = p_state (kram k) p,
                              pi_current = (p = current_process (ksched k))\<rparr>];
               q = p_next (kram k) p
           in if q \<noteq> 0 \<and> q \<noteq> process_list (ksched k) then snapshot_loop k max_count q out' else out')"
  by pat_completeness auto
termination
  by (relation "measure (\<lambda>(k, max_count, p, out). nat (max_count - int (length out)))") auto

declare snapshot_loop.simps [simp del]

definition scheduler_snapshot :: "kernel \<Rightarrow> bool \<Rightarrow> int \<Rightarrow> scheduler_proc_info list" where
  "scheduler_snapshot k out_null max_count =
     (if out_null \<or> max_count \<le> 0 \<or> process_list (ksched k) = 0 then []
      else snapshot_loop k max_count (process_list (ksched k)) [])"

definition scheduler_process_count :: "kernel \<Rightarrow> nat" where
  "scheduler_process_count k = scheduler_count_internal k"

definition scheduler_current_pid :: "kernel \<Rightarrow> u32" where
  "scheduler_current_pid k =
     (if current_process (ksched k) = 0 then 0 else p_id (kram k) (current_process (ksched k)))"

definition scheduler_tick_count :: "kernel \<Rightarrow> u32" where
  "scheduler_tick_count k = scheduler_ticks (ksched k)"

text \<open>The body of the kill loop once the process is found.\<close>

definition kill_found :: "uart \<Rightarrow> u32 \<Rightarrow> addr \<Rightarrow> addr \<Rightarrow> kernel \<Rightarrow> kernel option" where
  "kill_found tx pid prev cur k =
     (let s1 = poke (prev + 24) (ld32 (kram k) (cur + 24)) (kmm k);
          sc = (if current_process (ksched k) = cur
                then (ksched k)\<lparr>current_process := (if p_next (ram s1) cur \<noteq> 0 then p_next (ram s1) cur
                                                     else process_list (ksched k))\<rparr>
                else ksched k);
          s2 = (if p_stack_base (ram s1) cur \<noteq> 0 then pmm_free_page (unat (p_stack_base (ram s1) cur)) s1 else s1)
      in map_option
           (\<lambda>s3. k\<lparr>kmm := s3, ksched := sc,
                klg := klog_log_u32 tx KLOG_WARN (Some (lit ''sched'')) (Some (lit ''killed pid'')) pid 10 (klg k)\<rparr>)
           (kfree cur s2))"

partial_function (option) kill_loop :: "uart \<Rightarrow> u32 \<Rightarrow> addr \<Rightarrow> addr \<Rightarrow> kernel \<Rightarrow> (kernel \<times> bool) option" where
  "kill_loop tx pid prev cur k =
     (if cur \<noteq> 0 \<and> cur \<noteq> process_list (ksched k) then
        if p_id (kram k) cur = pid then map_option (\<lambda>k'. (k', True)) (kill_found tx pid prev cur k)
        else kill_loop tx pid cur (p_next (kram k) cur) k
      else Some (k, False))"

definition scheduler_kill :: "uart \<Rightarrow> u32 \<Rightarrow> kernel \<Rightarrow> (kernel \<times> bool) option" where
  "scheduler_kill tx pid k =
     (if process_list (ksched k) = 0 then Some (k, False)
      else if pid = 0 then Some (k, False)
      else kill_loop tx pid (process_list (ksched k)) (p_next (kram k) (process_list (ksched k))) k)"

section \<open>The ring\<close>

fun linked :: "mem \<Rightarrow> addr list \<Rightarrow> addr \<Rightarrow> bool" where
  "linked m [] z = True"
| "linked m [x] z = (p_next m x = z)"
| "linked m (x # y # xs) z = (p_next m x = y \<and> linked m (y # xs) z)"

text \<open>
  The invariant: \<open>ps\<close> are the addresses of the ring from \<open>process_list\<close> on.  Each is
  a live heap region of at least 28 bytes, the first is the kernel process with pid 0 and no
  stack of its own, each other has its own live stack page; pids are distinct and below
  \<open>next_pid\<close>, and the current process is in the ring.
\<close>

definition ring_ok :: "mem \<Rightarrow> region set \<Rightarrow> region set \<Rightarrow> addr list \<Rightarrow> bool" where
  "ring_ok m hl pl ps \<longleftrightarrow> ps \<noteq> [] \<and> distinct ps \<and> linked m ps (hd ps) \<and>
     (\<forall>p\<in>set ps. \<exists>n\<ge>PROC. (p, n) \<in> hl) \<and>
     p_id m (hd ps) = 0 \<and> p_stack_base m (hd ps) = 0 \<and>
     distinct (map (p_id m) ps) \<and> distinct (map (p_stack_base m) ps) \<and>
     (\<forall>p\<in>set (tl ps). (unat (p_stack_base m p), PAGE_SIZE) \<in> pl)"

definition sched_inv :: "kernel \<Rightarrow> addr list \<Rightarrow> bool" where
  "sched_inv k ps \<longleftrightarrow> mm_wf (kmm k) \<and> ring_ok (kram k) (heap_live (kmm k)) (page_live (kmm k)) ps \<and>
     process_list (ksched k) = hd ps \<and> current_process (ksched k) \<in> set ps \<and>
     0 < unat (next_pid (ksched k)) \<and> (\<forall>p\<in>set ps. unat (p_id (kram k) p) < unat (next_pid (ksched k)))"

section \<open>Clients write their own bytes\<close>

lemma client_write:
  assumes "mm_wf s" and "same_on (- live_bytes (heap_live s \<union> page_live s)) (ram s) m"
  shows "mm_wf (s\<lparr>ram := m\<rparr>)" "heap_live (s\<lparr>ram := m\<rparr>) = heap_live s" "page_live (s\<lparr>ram := m\<rparr>) = page_live s"
proof -
  have w: "pmm_wf s" "heap_wf s" using assms by (simp_all add: mm_wf_def)
  obtain bs where b: "bs \<noteq> []" "chain (ram s) HEAP_START bs" "no_adjacent_free bs" "sizes_ok bs" "heap_ready s"
      "heap_head s = HEAP_START" using w(2) by (rule heap_wfE)
  have page_hi: "x \<notin> region_bytes r" if "r \<in> page_live s" "x < HEAP_END" for x r
    using pages_above(2) [OF w(1) that(1)] that(2) by (auto simp: region_bytes_def)
  have heap_in: "HEAP_START \<le> x" if "r \<in> heap_live s" "x \<in> region_bytes r" for x r
    using heap_region_range [OF w(2), of "fst r" "snd r"] that by (auto simp: region_bytes_def)
  have "same_on (hdr_bytes HEAP_START bs) (ram s) m"
  proof (rule same_on_mono [OF assms(2)], rule subsetI)
    fix x assume x: "x \<in> hdr_bytes HEAP_START bs"
    then have "x < HEAP_END" using hdr_bytes_range [OF x] chain_total [OF b(2)] by simp
    moreover have "x \<notin> region_bytes r" if "r \<in> heap_live s" for r
      using used_hdr_disjoint [of "fst r" "snd r" HEAP_START bs] heap_live_eq [OF b(2)] that x by auto
    ultimately show "x \<in> - live_bytes (heap_live s \<union> page_live s)" using page_hi by (auto simp: live_bytes_def)
  qed
  then have c: "chain m HEAP_START bs" by (rule chain_cong [OF b(2)])
  have "heap_wf (s\<lparr>ram := m\<rparr>)" using b c by (auto simp: heap_wf_def)
  moreover show "heap_live (s\<lparr>ram := m\<rparr>) = heap_live s"
    using heap_live_eq [OF b(2)] heap_live_eq [of "s\<lparr>ram := m\<rparr>" bs] c by simp
  have test: "pmm_bitmap_test i (s\<lparr>ram := m\<rparr>) = pmm_bitmap_test i s" if "i < unat (pmm_max_blocks s)" for i
  proof -
    have "i div 8 < 131072" using that w(1) by (simp add: pmm_wf_def less_mult_imp_div_less)
    then have "PMM_BITMAP + i div 8 < HEAP_START" by (simp add: const_defs)
    then have "PMM_BITMAP + i div 8 \<in> - live_bytes (heap_live s \<union> page_live s)"
      using page_hi [of _ "PMM_BITMAP + i div 8"] heap_in [of _ "PMM_BITMAP + i div 8"] by (force simp: live_bytes_def)
    then show ?thesis using assms(2) w(1) by (simp add: pmm_bitmap_test_def same_on_def pmm_wf_def)
  qed
  have "page_index (s\<lparr>ram := m\<rparr>) = page_index s" using test by (auto simp: page_index_def)
  then have "pmm_wf (s\<lparr>ram := m\<rparr>)" using w(1) by (simp add: pmm_wf_def)
  moreover show "page_live (s\<lparr>ram := m\<rparr>) = page_live s"
    using \<open>page_index (s\<lparr>ram := m\<rparr>) = page_index s\<close> by (simp add: page_live_def)
  ultimately show "mm_wf (s\<lparr>ram := m\<rparr>)" by (simp add: mm_wf_def)
qed

lemma ram_poke [simp]: "ram (poke a v s) = st32 (ram s) a v"
  by (simp add: poke_def)

lemma poke_live:
  assumes "mm_wf s" and "r \<in> heap_live s \<union> page_live s" and "fst r \<le> a" and "a + 4 \<le> fst r + snd r"
  shows "mm_wf (poke a v s)" "heap_live (poke a v s) = heap_live s" "page_live (poke a v s) = page_live s"
proof -
  have "same_on (- live_bytes (heap_live s \<union> page_live s)) (ram s) (st32 (ram s) a v)"
    by (rule same_on_st32) (use assms(2-4) in \<open>fastforce simp: live_bytes_def region_bytes_def\<close>)+
  from client_write [OF assms(1) this] show "mm_wf (poke a v s)" "heap_live (poke a v s) = heap_live s"
    "page_live (poke a v s) = page_live s" by (simp_all add: poke_def)
qed

text \<open>A structure at \<open>p\<close> is determined by its 28 bytes.\<close>

definition proc_bytes :: "addr \<Rightarrow> nat set" where "proc_bytes p = {p..<p + PROC}"

lemma proc_cong:
  assumes "same_on (proc_bytes p) m m'"
  shows "p_id m' p = p_id m p" "p_stack_base m' p = p_stack_base m p" "p_state m' p = p_state m p" "p_next m' p = p_next m p"
    "p_esp m' p = p_esp m p"
  using assms by (auto simp: proc_defs proc_bytes_def const_defs intro!: same_on_ld32 arg_cong [where f = unat])

lemma linked_cong: "(\<And>x. x \<in> set xs \<Longrightarrow> p_next m' x = p_next m x) \<Longrightarrow> linked m' xs z = linked m xs z"
  by (induction m xs z rule: linked.induct) auto

lemma linked_insert:
  assumes "linked m (h # t) z" and "p_next m' h = np" and "p_next m' np = p_next m h"
    and same: "\<And>x. x \<in> set t \<Longrightarrow> p_next m' x = p_next m x"
  shows "linked m' (h # np # t) z"
proof (cases t)
  case Nil
  then show ?thesis using assms by simp
next
  case (Cons y ys)
  have "linked m' t z = linked m t z" using same by (rule linked_cong)
  then show ?thesis using assms(1-3) Cons by simp
qed

lemma linked_hd: "linked m (x # xs) z \<Longrightarrow> p_next m x = (case xs of [] \<Rightarrow> z | y # _ \<Rightarrow> y)"
  by (cases xs) auto

lemma linked_tl: "linked m (x # xs) z \<Longrightarrow> linked m xs z"
  by (cases xs) auto

lemma linked_remove:
  "linked m (xs @ a # c # ys) z \<Longrightarrow> p_next m' a = p_next m c \<Longrightarrow>
   (\<And>x. x \<in> set xs \<union> set ys \<Longrightarrow> p_next m' x = p_next m x) \<Longrightarrow> linked m' (xs @ a # ys) z"
proof (induction xs)
  case Nil
  then have "linked m' ys z" using linked_tl [of m c ys z] linked_cong [of ys m' m z] by (cases ys) auto
  then show ?case using Nil linked_hd [of m c ys z] by (cases ys) auto
next
  case (Cons x xs)
  then have "linked m' (xs @ a # ys) z" using linked_tl [of m x] by auto
  moreover have "p_next m' x = p_next m x" using Cons.prems by simp
  ultimately show ?case using Cons.prems(1) by (cases xs) auto
qed

lemma linked_append_hd: "linked m (xs @ a # ys) z \<Longrightarrow> p_next m a = (case ys of [] \<Rightarrow> z | y # _ \<Rightarrow> y)"
  by (induction xs) (auto dest: linked_tl linked_hd)

section \<open>Creating a process\<close>

lemma ring_cong:
  assumes "ring_ok m hl pl ps" and "\<And>p. p \<in> set ps \<Longrightarrow> same_on (proc_bytes p) m m'" and "hl \<subseteq> hl'" and "pl \<subseteq> pl'"
  shows "ring_ok m' hl' pl' ps"
proof -
  have ne: "hd ps \<in> set ps" and tl: "set (tl ps) \<subseteq> set ps"
    using assms(1) by (auto simp: ring_ok_def dest: list.set_sel(2))
  note c = proc_cong [OF assms(2)]
  have "distinct (map (p_id m') ps)" "distinct (map (p_stack_base m') ps)"
    using assms(1) c by (simp_all add: ring_ok_def cong: map_cong)
  moreover have "linked m' ps z = linked m ps z" for z using c by (intro linked_cong) auto
  moreover have "(unat (p_stack_base m' p), PAGE_SIZE) \<in> pl'" if "p \<in> set (tl ps)" for p
  proof -
    have "p \<in> set ps" using that tl by blast
    then show ?thesis using that c(2) assms(1,4) by (auto simp: ring_ok_def)
  qed
  moreover have "\<exists>n\<ge>PROC. (p, n) \<in> hl'" if "p \<in> set ps" for p
    using that assms(1,3) unfolding ring_ok_def by blast
  ultimately show ?thesis using assms(1) c(1,2) [OF ne] by (simp add: ring_ok_def)
qed

lemma proc_in_live: "(p, n) \<in> L \<Longrightarrow> PROC \<le> n \<Longrightarrow> proc_bytes p \<subseteq> live_bytes L"
  by (force simp: proc_bytes_def live_bytes_def region_bytes_def)

lemma ring_in_live: "ring_ok m hl pl ps \<Longrightarrow> p \<in> set ps \<Longrightarrow> proc_bytes p \<subseteq> live_bytes (hl \<union> P)"
  unfolding ring_ok_def by (meson proc_in_live Un_iff)

lemma proc_disjoint:
  assumes "mm_wf s" and "(p, n) \<in> heap_live s" and "(q, k) \<in> heap_live s" and "PROC \<le> n" and "PROC \<le> k" and "p \<noteq> q"
  shows "proc_bytes p \<inter> proc_bytes q = {}"
proof -
  have "separate (heap_live s)" using assms(1) hp.separate_law by (simp add: mm_wf_def)
  then have "region_bytes (p, n) \<inter> region_bytes (q, k) = {}"
    using assms(2,3,6) unfolding separate_def by blast
  moreover have "proc_bytes p \<subseteq> region_bytes (p, n)" "proc_bytes q \<subseteq> region_bytes (q, k)"
    using assms(4,5) by (auto simp: proc_bytes_def region_bytes_def)
  ultimately show ?thesis by blast
qed

lemma new_struct:
  fixes pid :: u32
  assumes w: "mm_wf s0" and r: "ring_ok (ram s0) (heap_live s0) (page_live s0) ps"
    and k: "kmalloc 28 s0 = Some (s, np)" and np: "np \<noteq> 0"
  defines "s2 \<equiv> poke (np + 20) 1 (poke np pid s)"
  obtains n where "mm_wf s2" "PROC \<le> n" "(np, n) \<notin> heap_live s0" "heap_live s2 = insert (np, n) (heap_live s0)"
    "page_live s2 = page_live s0" "ring_ok (ram s2) (heap_live s2) (page_live s2) ps"
    "p_id (ram s2) np = pid" "p_state (ram s2) np = 1" "np \<notin> set ps"
    "\<And>q. q \<in> set ps \<Longrightarrow> same_on (proc_bytes q) (ram s0) (ram s2)"
proof -
  obtain n where n: "mm_wf s" "page_live s = page_live s0" "PROC \<le> n" "(np, n) \<notin> heap_live s0"
      "heap_live s = insert (np, n) (heap_live s0)"
      "same_on (live_bytes (heap_live s0 \<union> page_live s0)) (ram s0) (ram s)"
    using w by (rule kmalloc_mm [where sz = 28]) (use k np in \<open>auto simp: const_defs\<close>)
  have live: "(np, n) \<in> heap_live s \<union> page_live s" using n by simp
  note p1 = poke_live [OF n(1) live, of np pid]
  have w1: "mm_wf (poke np pid s)" "heap_live (poke np pid s) = heap_live s" "page_live (poke np pid s) = page_live s"
    using p1 n(3) by (simp_all add: const_defs)
  note p2 = poke_live [OF w1(1), of "(np, n)" "np + 20" 1]
  have w2: "mm_wf s2" "heap_live s2 = heap_live s" "page_live s2 = page_live s"
    using p2 w1 n(3,5) by (simp_all add: s2_def const_defs)
  have notin: "np \<notin> set ps"
  proof
    assume "np \<in> set ps"
    then obtain k where "(np, k) \<in> heap_live s0" using r by (auto simp: ring_ok_def)
    then show False using n(4,5) hp.address_law [of s np n k] n(1) by (auto simp: mm_wf_def)
  qed
  have same: "same_on (proc_bytes p) (ram s0) (ram s2)" if p: "p \<in> set ps" for p
  proof -
    obtain k where "(p, k) \<in> heap_live s0" and k: "PROC \<le> k" using r p unfolding ring_ok_def by blast
    then have kk: "(p, k) \<in> heap_live s" "PROC \<le> k" using n(5) by auto
    have d: "proc_bytes np \<inter> proc_bytes p = {}"
      using proc_disjoint [OF n(1) _ kk(1) n(3) kk(2)] n(5) notin p by auto
    have "same_on (proc_bytes p) (ram s0) (ram s)"
      using n(6) ring_in_live [OF r p] by (rule same_on_mono)
    then show ?thesis using d unfolding s2_def ram_poke
      by (intro same_on_st32) (auto simp: proc_bytes_def const_defs)
  qed
  have "ring_ok (ram s2) (heap_live s2) (page_live s2) ps"
    by (rule ring_cong [OF r same]) (use w2 n in auto)
  moreover have "p_id (ram s2) np = pid" "p_state (ram s2) np = 1"
    by (simp_all add: s2_def p_id_def p_state_def ld32_st32_other)
  ultimately show thesis using n w2 notin same by (intro that [of n]) auto
qed

lemma fake_context_frame: "same_on (- {stack + 4072..<stack + 4096}) (ram s) (ram (fake_context stack e s))"
  unfolding fake_context_def
  by (simp only: fold_simps prod.case ram_poke comp_apply id_apply) (intro same_on_st32 same_on_refl; auto)

lemma fake_context_words:
  "ld32 (ram (fake_context stack e s)) (stack + 4092) = e"
  by (simp add: fake_context_def ld32_st32_other add.commute)

lemma fake_context_live:
  assumes "mm_wf s" and "(stack, PAGE_SIZE) \<in> page_live s"
  shows "mm_wf (fake_context stack e s)" "heap_live (fake_context stack e s) = heap_live s"
    "page_live (fake_context stack e s) = page_live s"
proof -
  have "same_on (- live_bytes (heap_live s \<union> page_live s)) (ram s) (ram (fake_context stack e s))"
    by (rule same_on_mono [OF fake_context_frame])
      (use assms(2) in \<open>fastforce simp: live_bytes_def region_bytes_def const_defs\<close>)
  moreover have "fake_context stack e s = s\<lparr>ram := ram (fake_context stack e s)\<rparr>"
    by (simp add: fake_context_def poke_def)
  ultimately show "mm_wf (fake_context stack e s)" "heap_live (fake_context stack e s) = heap_live s"
    "page_live (fake_context stack e s) = page_live s" using client_write [OF assms(1)] by metis+
qed

lemma new_stack:
  assumes w: "mm_wf s2" and live: "(p, n) \<in> heap_live s2" "PROC \<le> n"
    and a: "pmm_alloc_page s2 = (s3, stack)" "stack \<noteq> 0"
  shows "same_on (proc_bytes p) (ram s2) (ram (fake_context stack e s3))"
proof -
  note m = pmm_alloc_mm [OF w a(1)]
  have "same_on (proc_bytes p) (ram s2) (ram s3)"
    using m(3) proc_in_live [OF live] by (auto elim!: same_on_mono simp: live_bytes_def)
  moreover have "same_on (proc_bytes p) (ram s3) (ram (fake_context stack e s3))"
  proof (rule same_on_mono [OF fake_context_frame])
    have "HEAP_END \<le> stack" using pages_above(2) [of s3 "(stack, PAGE_SIZE)"] m(1,5) a(2) by (simp add: mm_wf_def)
    moreover have "p + PROC \<le> HEAP_END" using heap_region_range [of s2 p n] w live by (auto simp: mm_wf_def)
    ultimately show "proc_bytes p \<subseteq> - {stack + 4072..<stack + 4096}" by (auto simp: proc_bytes_def)
  qed
  ultimately show ?thesis by (rule same_on_trans)
qed

text \<open>The four stores that complete the structure and put it behind the head of the ring.\<close>

definition link_in :: "addr \<Rightarrow> addr \<Rightarrow> addr \<Rightarrow> mm \<Rightarrow> mm" where
  "link_in np stack h s =
     (let s5 = poke (np + 4) (word_of_nat (stack + 4096 - 24)) s;
          s6 = poke (np + 16) (word_of_nat stack) s5;
          s7 = poke (np + 24) (ld32 (ram s6) (h + 24)) s6
      in poke (h + 24) (word_of_nat np) s7)"

lemma link_in_live:
  assumes "mm_wf s" and "(np, n) \<in> heap_live s" and "(h, k) \<in> heap_live s" and "PROC \<le> n" and "PROC \<le> k"
  shows "mm_wf (link_in np stack h s)" "heap_live (link_in np stack h s) = heap_live s"
    "page_live (link_in np stack h s) = page_live s"
proof -
  define s5 where "s5 = poke (np + 4) (word_of_nat (stack + 4096 - 24)) s"
  define s6 where "s6 = poke (np + 16) (word_of_nat stack) s5"
  define s7 where "s7 = poke (np + 24) (ld32 (ram s6) (h + 24)) s6"
  have e: "link_in np stack h s = poke (h + 24) (word_of_nat np) s7"
    by (simp add: link_in_def Let_def s7_def s6_def s5_def)
  have 5: "mm_wf s5" "heap_live s5 = heap_live s" "page_live s5 = page_live s"
    unfolding s5_def using poke_live [OF assms(1), of "(np, n)" "np + 4"] assms by (simp_all add: const_defs)
  have 6: "mm_wf s6" "heap_live s6 = heap_live s" "page_live s6 = page_live s"
    unfolding s6_def using poke_live [OF 5(1), of "(np, n)" "np + 16"] assms 5 by (simp_all add: const_defs)
  have 7: "mm_wf s7" "heap_live s7 = heap_live s" "page_live s7 = page_live s"
    unfolding s7_def using poke_live [OF 6(1), of "(np, n)" "np + 24"] assms 6 by (simp_all add: const_defs)
  show "mm_wf (link_in np stack h s)" "heap_live (link_in np stack h s) = heap_live s"
    "page_live (link_in np stack h s) = page_live s"
    unfolding e using poke_live [OF 7(1), of "(h, k)" "h + 24"] assms 7 by (simp_all add: const_defs)
qed

lemma link_in_fields:
  fixes s :: mm
  assumes "proc_bytes np \<inter> proc_bytes h = {}" and "np < 4294967296" and "stack < 4294967296"
  defines "m \<equiv> ram s" and "m' \<equiv> ram (link_in np stack h s)"
  shows "p_next m' h = np" "p_id m' h = p_id m h" "p_stack_base m' h = p_stack_base m h"
    "p_next m' np = p_next m h" "p_id m' np = p_id m np" "unat (p_stack_base m' np) = stack"
    "unat (p_esp m' np) = (stack + 4072) mod 4294967296" "p_state m' np = p_state m np"
    "proc_bytes q \<inter> proc_bytes np = {} \<Longrightarrow> proc_bytes q \<inter> proc_bytes h = {} \<Longrightarrow> same_on (proc_bytes q) m m'"
proof -
  have d: "np + 28 \<le> h \<or> h + 28 \<le> np" using assms(1) by (auto simp: proc_bytes_def const_defs)
  show "p_next m' h = np" "p_id m' h = p_id m h" "p_stack_base m' h = p_stack_base m h"
    "p_next m' np = p_next m h" "p_id m' np = p_id m np" "unat (p_stack_base m' np) = stack"
    "p_state m' np = p_state m np"
    using d assms(2,3) unfolding m'_def m_def link_in_def Let_def ram_poke proc_defs
    by (auto simp: ld32_st32_other unat_of_nat)
  have "p_esp m' np = word_of_nat (stack + 4072)"
    using d unfolding m'_def link_in_def Let_def ram_poke proc_defs by (auto simp: ld32_st32_other)
  then show "unat (p_esp m' np) = (stack + 4072) mod 4294967296" by (simp only: unat_of_nat) simp
  show "same_on (proc_bytes q) m m'"
    if "proc_bytes q \<inter> proc_bytes np = {}" "proc_bytes q \<inter> proc_bytes h = {}"
    unfolding m'_def m_def link_in_def Let_def ram_poke
    using that by (intro same_on_st32 same_on_refl) (auto simp: proc_bytes_def const_defs)
qed

lemma link_in_ring:
  assumes w: "mm_wf s" and r: "ring_ok (ram s) (heap_live s) (page_live s) (h # t)"
    and np: "(np, n) \<in> heap_live s" "PROC \<le> n" "np \<notin> set (h # t)"
    and st: "(stack, PAGE_SIZE) \<in> page_live s" "\<And>q. q \<in> set t \<Longrightarrow> unat (p_stack_base (ram s) q) \<noteq> stack"
    and pid: "\<And>q. q \<in> set (h # t) \<Longrightarrow> p_id (ram s) q \<noteq> p_id (ram s) np"
  shows "ring_ok (ram (link_in np stack h s)) (heap_live s) (page_live s) (h # np # t)"
proof -
  let ?m = "ram (link_in np stack h s)"
  obtain k where h: "(h, k) \<in> heap_live s" "PROC \<le> k" using r by (auto simp: ring_ok_def)
  have d: "proc_bytes np \<inter> proc_bytes h = {}" using proc_disjoint [OF w np(1) h(1) np(2) h(2)] np(3) by simp
  have lt: "np < 4294967296" "stack < 4294967296" "stack \<noteq> 0"
    using heap_region_range [of s np n] w np(1) pages_above [of s "(stack, PAGE_SIZE)"] st(1)
    by (auto simp: mm_wf_def const_defs)
  note f = link_in_fields [where s = s, OF d lt(1,2)]
  have same: "same_on (proc_bytes q) (ram s) ?m" if q: "q \<in> set t" for q
  proof -
    obtain j where j: "(q, j) \<in> heap_live s" "PROC \<le> j" using r q by (auto simp: ring_ok_def)
    have "q \<noteq> h" "q \<noteq> np" using r np(3) q by (auto simp: ring_ok_def)
    then show ?thesis
      using f(9) proc_disjoint [OF w j(1) np(1) j(2) np(2)] proc_disjoint [OF w j(1) h(1) j(2) h(2)] by simp
  qed
  note c = proc_cong [OF same]
  have "linked ?m (h # np # t) h"
    by (rule linked_insert [where m = "ram s"]) (use r f c in \<open>auto simp: ring_ok_def\<close>)
  moreover have "p_stack_base (ram s) h \<noteq> p_stack_base ?m np"
    using f(6) lt(3) r by (auto simp: ring_ok_def)
  moreover have "p_stack_base (ram s) q \<noteq> p_stack_base ?m np" if "q \<in> set t" for q
    using f(6) st(2) [OF that] by auto
  moreover have mt: "map (p_id ?m) t = map (p_id (ram s)) t" "map (p_stack_base ?m) t = map (p_stack_base (ram s)) t"
    using c by simp_all
  have "distinct (map (p_id ?m) (h # np # t))"
  proof -
    have "p_id (ram s) np \<notin> p_id (ram s) ` set (h # t)" using pid by (force simp del: set_simps)
    then show ?thesis unfolding list.map mt f using r by (auto simp: ring_ok_def)
  qed
  moreover have "distinct (map (p_stack_base ?m) (h # np # t))"
  proof -
    have "p_stack_base ?m np \<notin> p_stack_base (ram s) ` set t" using calculation(3) by force
    then show ?thesis unfolding list.map mt f(3) using r calculation(2) by (auto simp: ring_ok_def)
  qed
  moreover have "(unat (p_stack_base ?m q), PAGE_SIZE) \<in> page_live s" if "q \<in> set t" for q
    using that c(2) [OF that] r by (auto simp: ring_ok_def)
  moreover have "\<exists>n\<ge>PROC. (np, n) \<in> heap_live s" using np by blast
  ultimately show ?thesis using r np st(1) f(2,3,6) by (simp add: ring_ok_def)
qed

section \<open>Killing a process\<close>

lemma ring_split:
  assumes "ring_ok m hl pl ps" and "c \<in> set (tl ps)"
  obtains xs a ys where "ps = xs @ a # c # ys"
proof -
  obtain us ys where t: "tl ps = us @ c # ys" using assms(2) by (auto simp: in_set_conv_decomp)
  then have "ps = (hd ps # us) @ c # ys" using assms(1) by (cases ps) (auto simp: ring_ok_def)
  moreover have "hd ps # us = butlast (hd ps # us) @ [last (hd ps # us)]" by simp
  ultimately show thesis using that [of "butlast (hd ps # us)" "last (hd ps # us)" ys]
    by (metis append.assoc append_Cons append_Nil)
qed

lemma kill_loop_search:
  assumes "ps = xs @ prev # ys" and "linked (kram k) ps (hd ps)" and "distinct ps" and "0 \<notin> set ps"
    and "process_list (ksched k) = hd ps"
  shows "kill_loop tx pid prev (p_next (kram k) prev) k =
     (case dropWhile (\<lambda>c. p_id (kram k) c \<noteq> pid) ys of
        [] \<Rightarrow> Some (k, False)
      | c # _ \<Rightarrow> map_option (\<lambda>k'. (k', True))
           (kill_found tx pid (last (prev # takeWhile (\<lambda>c. p_id (kram k) c \<noteq> pid) ys)) c k))"
  using assms
proof (induction ys arbitrary: xs prev)
  case Nil
  then have "p_next (kram k) prev = hd ps" using linked_append_hd [of "kram k" xs prev "[]" "hd ps"] by simp
  then show ?case using Nil.prems by (simp add: kill_loop.simps)
next
  case (Cons c ys)
  have n: "p_next (kram k) prev = c" using Cons.prems linked_append_hd [of "kram k" xs prev "c # ys" "hd ps"] by simp
  have c: "c \<noteq> 0" "c \<noteq> hd ps" using Cons.prems(1,3,4) by (cases xs; auto)+
  show ?case
  proof (cases "p_id (kram k) c = pid")
    case True
    then show ?thesis using n c Cons.prems(5) by (subst kill_loop.simps) simp
  next
    case False
    then have "kill_loop tx pid prev (p_next (kram k) prev) k = kill_loop tx pid c (p_next (kram k) c) k"
      using n c Cons.prems(5) by (subst kill_loop.simps) simp
    moreover have "dropWhile (\<lambda>c. p_id (kram k) c \<noteq> pid) (c # ys) = dropWhile (\<lambda>c. p_id (kram k) c \<noteq> pid) ys"
      "last (prev # takeWhile (\<lambda>c. p_id (kram k) c \<noteq> pid) (c # ys)) = last (c # takeWhile (\<lambda>c. p_id (kram k) c \<noteq> pid) ys)"
      using False by simp_all
    moreover have "ps = (xs @ [prev]) @ c # ys" using Cons.prems(1) by simp
    ultimately show ?thesis using Cons.IH [OF _ Cons.prems(2-5)] by (simp only:)
  qed
qed

text \<open>The store after the unlinking, the release of the stack page and of the structure.\<close>

lemma ring_poke_unlink:
  assumes w: "mm_wf s" and r: "ring_ok (ram s) (heap_live s) (page_live s) ps"
    and ps: "ps = xs @ a # c # ys"
  defines "s1 \<equiv> poke (a + 24) (ld32 (ram s) (c + 24)) s"
  shows "mm_wf s1" "heap_live s1 = heap_live s" "page_live s1 = page_live s"
    "p_next (ram s1) a = p_next (ram s) c"
    "\<And>q. q \<in> set ps \<Longrightarrow> q \<noteq> a \<Longrightarrow> same_on (proc_bytes q) (ram s) (ram s1)"
    "p_id (ram s1) a = p_id (ram s) a" "p_stack_base (ram s1) a = p_stack_base (ram s) a"
proof -
  have "a \<in> set ps" using ps by simp
  then obtain n where n: "(a, n) \<in> heap_live s" "PROC \<le> n" using r unfolding ring_ok_def by blast
  show "mm_wf s1" "heap_live s1 = heap_live s" "page_live s1 = page_live s"
    unfolding s1_def using poke_live [OF w, of "(a, n)" "a + 24"] n by (simp_all add: const_defs)
  show "p_next (ram s1) a = p_next (ram s) c" "p_id (ram s1) a = p_id (ram s) a"
    "p_stack_base (ram s1) a = p_stack_base (ram s) a"
    unfolding s1_def by (simp_all add: proc_defs ld32_st32_other)
  fix q assume q: "q \<in> set ps" "q \<noteq> a"
  then obtain k where k: "(q, k) \<in> heap_live s" "PROC \<le> k" using r unfolding ring_ok_def by blast
  have "proc_bytes a \<inter> proc_bytes q = {}" using proc_disjoint [OF w n(1) k(1) n(2) k(2)] q(2) by simp
  then show "same_on (proc_bytes q) (ram s) (ram s1)"
    unfolding s1_def ram_poke by (intro same_on_st32) (auto simp: proc_bytes_def const_defs)
qed

lemma ring_stack_inj:
  "ring_ok m hl pl ps \<Longrightarrow> p \<in> set ps \<Longrightarrow> q \<in> set ps \<Longrightarrow> p_stack_base m p = p_stack_base m q \<Longrightarrow> p = q"
  by (auto simp: ring_ok_def distinct_map dest: inj_onD)

lemma ring_id_inj: "ring_ok m hl pl ps \<Longrightarrow> p \<in> set ps \<Longrightarrow> q \<in> set ps \<Longrightarrow> p_id m p = p_id m q \<Longrightarrow> p = q"
  by (auto simp: ring_ok_def distinct_map dest: inj_onD)

lemma ring_remove:
  assumes r: "ring_ok m hl pl (xs @ a # c # ys)"
    and nx: "p_next m' a = p_next m c" "\<And>q. q \<in> set xs \<union> set ys \<Longrightarrow> p_next m' q = p_next m q"
    and f: "\<And>q. q \<in> set (xs @ a # ys) \<Longrightarrow> p_id m' q = p_id m q"
       "\<And>q. q \<in> set (xs @ a # ys) \<Longrightarrow> p_stack_base m' q = p_stack_base m q"
    and hl: "hl' = hl - {(c, n)}"
    and pl: "pl' = pl - {(unat (p_stack_base m c), PAGE_SIZE)}"
  shows "ring_ok m' hl' pl' (xs @ a # ys)"
proof -
  let ?ps = "xs @ a # c # ys" and ?qs = "xs @ a # ys"
  have hd: "hd ?qs = hd ?ps" "hd ?qs \<in> set ?qs" by (cases xs; simp)+
  have sub: "set ?qs \<subseteq> set ?ps" "set (tl ?qs) \<subseteq> set (tl ?ps)" "c \<notin> set ?qs" "set (tl ?qs) \<subseteq> set ?qs"
    using r by (cases xs; auto simp: ring_ok_def)+
  have "linked m' ?qs (hd ?ps)"
    by (rule linked_remove [where m = m and c = c]) (use r nx in \<open>auto simp: ring_ok_def\<close>)
  moreover have "distinct (map (p_id m') ?qs)" "distinct (map (p_stack_base m') ?qs)"
    using r f by (simp_all add: ring_ok_def cong: map_cong)
  moreover have "\<exists>k\<ge>PROC. (q, k) \<in> hl'" if "q \<in> set ?qs" for q
  proof -
    have "q \<in> set ?ps" "q \<noteq> c" using that sub by auto
    then show ?thesis using r hl unfolding ring_ok_def by blast
  qed
  moreover have "(unat (p_stack_base m' q), PAGE_SIZE) \<in> pl'" if q: "q \<in> set (tl ?qs)" for q
  proof -
    have in_qs: "q \<in> set ?qs" and "q \<noteq> c" and t: "q \<in> set (tl ?ps)" using q sub by auto
    moreover have "p_stack_base m q \<noteq> p_stack_base m c"
      using ring_stack_inj [OF r, of q c] sub(1) in_qs \<open>q \<noteq> c\<close> by auto
    moreover have "(unat (p_stack_base m q), PAGE_SIZE) \<in> pl" using r t unfolding ring_ok_def by blast
    moreover have "unat (p_stack_base m q) \<noteq> unat (p_stack_base m c)"
      using calculation(1-4) by (metis word_unat_eq_iff)
    ultimately show ?thesis using f(2) [OF in_qs] pl by simp
  qed
  moreover have "p_id m' (hd ?qs) = 0" "p_stack_base m' (hd ?qs) = 0"
    using r f [OF hd(2)] hd(1) by (auto simp: ring_ok_def)
  moreover have "distinct ?qs" using r by (simp add: ring_ok_def)
  ultimately show ?thesis using hd(1) unfolding ring_ok_def by simp
qed

lemma kill_found_ok:
  assumes inv: "sched_inv k ps" and ps: "ps = xs @ a # c # ys"
  obtains k' n where "kill_found tx pid a c k = Some k'" "sched_inv k' (xs @ a # ys)"
    "(c, n) \<in> heap_live (kmm k)" "heap_live (kmm k') = heap_live (kmm k) - {(c, n)}"
    "page_live (kmm k') = page_live (kmm k) - {(unat (p_stack_base (kram k) c), PAGE_SIZE)}"
    "current_process (ksched k') = (if current_process (ksched k) = c then p_next (kram k) c else current_process (ksched k))"
    "next_pid (ksched k') = next_pid (ksched k)" "scheduler_ticks (ksched k') = scheduler_ticks (ksched k)"
    "\<And>q. q \<in> set (xs @ a # ys) \<Longrightarrow> p_id (kram k') q = p_id (kram k) q"
    "klg k' = klog_log_u32 tx KLOG_WARN (Some (lit ''sched'')) (Some (lit ''killed pid'')) pid 10 (klg k)"
proof -
  have w: "mm_wf (kmm k)" and r: "ring_ok (kram k) (heap_live (kmm k)) (page_live (kmm k)) ps"
    and pl: "process_list (ksched k) = hd ps" and cur: "current_process (ksched k) \<in> set ps"
    using inv by (simp_all add: sched_inv_def)
  define s1 where "s1 = poke (a + 24) (ld32 (kram k) (c + 24)) (kmm k)"
  note u = ring_poke_unlink [OF w r [unfolded kram_def] ps, folded kram_def, folded s1_def]
  have c: "c \<in> set ps" "c \<noteq> a" "c \<in> set (tl ps)" "c \<noteq> hd ps"
    using ps r by (cases xs; auto simp: ring_ok_def)+
  obtain n where n: "(c, n) \<in> heap_live (kmm k)" "PROC \<le> n" using r c(1) unfolding ring_ok_def by blast
  note cc = proc_cong [OF u(5) [OF c(1,2)]]
  let ?sb = "unat (p_stack_base (kram k) c)"
  have sb: "(?sb, PAGE_SIZE) \<in> page_live s1" "p_stack_base (kram k) c \<noteq> 0"
  proof -
    show "(?sb, PAGE_SIZE) \<in> page_live s1" using r c(3) u(3) unfolding ring_ok_def by simp
    have "p_stack_base (kram k) c \<noteq> p_stack_base (kram k) (hd ps)"
      using ring_stack_inj [OF r c(1), of "hd ps"] c(4) ps by (cases xs) auto
    then show "p_stack_base (kram k) c \<noteq> 0" using r by (simp add: ring_ok_def)
  qed
  define s2 where "s2 = pmm_free_page ?sb s1"
  note f2 = pmm_free_mm [OF u(1) sb(1), folded s2_def]
  have n2: "(c, n) \<in> heap_live s2" using n u f2 by simp
  obtain s3 where s3: "kfree c s2 = Some s3" "mm_wf s3" "page_live s3 = page_live s2"
      "heap_live s3 = heap_live s2 - {(c, n)}" "same_on (live_bytes (heap_live s3 \<union> page_live s2)) (ram s2) (ram s3)"
    using f2(1) n2 by (rule kfree_mm) blast
  have same: "same_on (proc_bytes q) (ram s1) (ram s3)" if q: "q \<in> set ps" "q \<noteq> c" for q
  proof -
    obtain j where j: "(q, j) \<in> heap_live s3" "PROC \<le> j"
      using r q s3(4) f2(2) u(2) unfolding ring_ok_def by blast
    then have "(q, j) \<in> heap_live s2" using s3(4) by simp
    then have "HEAP_START \<le> q" "q + PROC \<le> HEAP_END"
      using heap_region_range [of s2 q j] f2(1) j(2) by (auto simp: mm_wf_def)
    then have "proc_bytes q \<subseteq> - bitmap_bytes" by (auto simp: proc_bytes_def bitmap_bytes_def const_defs)
    then have "same_on (proc_bytes q) (ram s1) (ram s2)" using f2(4) by (elim same_on_mono)
    moreover have "same_on (proc_bytes q) (ram s2) (ram s3)"
      using s3(5) proc_in_live [OF j] by (auto elim!: same_on_mono simp: live_bytes_def)
    ultimately show ?thesis by (rule same_on_trans)
  qed
  note c3 = proc_cong [OF same]
  have out: "q \<in> set ps \<and> q \<noteq> c" if "q \<in> set (xs @ a # ys)" for q
    using that r ps by (auto simp: ring_ok_def)
  have flds: "p_id (ram s3) q = p_id (kram k) q" "p_stack_base (ram s3) q = p_stack_base (kram k) q"
    if "q \<in> set (xs @ a # ys)" for q
    using c3 [of q] out [OF that] u(6,7) proc_cong [OF u(5), of q] by (cases "q = a"; simp)+
  have nxt: "p_next (ram s3) a = p_next (kram k) c" "\<And>q. q \<in> set xs \<union> set ys \<Longrightarrow> p_next (ram s3) q = p_next (kram k) q"
  proof -
    show "p_next (ram s3) a = p_next (kram k) c" using c3(4) [of a] u(4) out [of a] by simp
    fix q assume q: "q \<in> set xs \<union> set ys"
    then have "q \<noteq> a" using r ps by (auto simp: ring_ok_def)
    then show "p_next (ram s3) q = p_next (kram k) q" using c3(4) [of q] out [of q] q proc_cong(4) [OF u(5), of q] by auto
  qed
  have ring: "ring_ok (ram s3) (heap_live s3) (page_live s3) (xs @ a # ys)"
    by (rule ring_remove [OF r [unfolded ps] nxt flds]) (use s3 f2 u in simp_all)
  define k' where "k' = k\<lparr>kmm := s3, ksched := (if current_process (ksched k) = c
        then (ksched k)\<lparr>current_process := p_next (kram k) c\<rparr> else ksched k),
      klg := klog_log_u32 tx KLOG_WARN (Some (lit ''sched'')) (Some (lit ''killed pid'')) pid 10 (klg k)\<rparr>"
  have nc: "p_next (kram k) c \<in> set (xs @ a # ys)" "p_next (kram k) c \<noteq> 0"
  proof -
    have "p_next (kram k) c = (case ys of [] \<Rightarrow> hd ps | y # _ \<Rightarrow> y)"
      using linked_append_hd [of "kram k" "xs @ [a]" c ys "hd ps"] r ps by (simp add: ring_ok_def)
    then show "p_next (kram k) c \<in> set (xs @ a # ys)" using ps by (cases ys; cases xs) auto
    then obtain j where "(p_next (kram k) c, j) \<in> heap_live s3" using ring unfolding ring_ok_def by blast
    then show "p_next (kram k) c \<noteq> 0" using heap_region_range [of s3] s3(2) by (force simp: mm_wf_def const_defs)
  qed
  have res: "kill_found tx pid a c k = Some k'"
    unfolding kill_found_def Let_def s1_def [symmetric] cc sb using nc(2) sb(2) s3(1)
    by (simp add: s2_def [symmetric] k'_def)
  have hdq: "hd (xs @ a # ys) = hd ps" using ps by (cases xs) auto
  have "unat (p_id (ram s3) q) < unat (next_pid (ksched k))" if "q \<in> set (xs @ a # ys)" for q
    using flds(1) [OF that] out [OF that] inv by (simp add: sched_inv_def)
  moreover have "current_process (ksched k') \<in> set (xs @ a # ys)" using cur nc(1) ps by (auto simp: k'_def)
  moreover have "kram k' = ram s3" "kmm k' = s3" "process_list (ksched k') = hd ps" "next_pid (ksched k') = next_pid (ksched k)"
    using pl by (simp_all add: k'_def kram_def)
  ultimately have "sched_inv k' (xs @ a # ys)"
    using s3(2) ring hdq inv unfolding sched_inv_def by simp
  then show thesis
    by (rule that [OF res _ n(1)]) (use s3 f2 u flds in \<open>auto simp: k'_def kram_def\<close>)
qed

section \<open>Walking the ring\<close>

lemma ring_no_null: "mm_wf s \<Longrightarrow> ring_ok m (heap_live s) pl ps \<Longrightarrow> 0 \<notin> set ps"
proof
  assume w: "mm_wf s" and r: "ring_ok m (heap_live s) pl ps" and "0 \<in> set ps"
  then obtain n where "(0, n) \<in> heap_live s" unfolding ring_ok_def by blast
  then show False using heap_region_range [of s 0 n] w by (simp add: mm_wf_def const_defs)
qed

definition proc_info :: "kernel \<Rightarrow> addr \<Rightarrow> scheduler_proc_info" where
  "proc_info k p = \<lparr>pi_id = p_id (kram k) p, pi_state = p_state (kram k) p, pi_current = (p = current_process (ksched k))\<rparr>"

lemma snapshot_loop_ring:
  assumes "ps = xs @ p # ys" and "linked (kram k) ps (hd ps)" and "distinct ps" and "0 \<notin> set ps"
    and "process_list (ksched k) = hd ps"
  shows "snapshot_loop k mx p out = out @ take (nat (mx - int (length out))) (map (proc_info k) (p # ys))"
  using assms
proof (induction ys arbitrary: xs p out)
  case Nil
  then have "p_next (kram k) p = hd ps" using linked_append_hd [of "kram k" xs p "[]" "hd ps"] by simp
  then show ?case using Nil.prems(5)
    by (subst snapshot_loop.simps) (simp add: proc_info_def Let_def take_Cons' nat_eq_iff)
next
  case (Cons c ys)
  have n: "p_next (kram k) p = c" using Cons.prems linked_append_hd [of "kram k" xs p "c # ys" "hd ps"] by simp
  have c: "c \<noteq> 0" "c \<noteq> hd ps" using Cons.prems(1,3,4) by (cases xs; auto)+
  have ps: "ps = (xs @ [p]) @ c # ys" using Cons.prems(1) by simp
  show ?case
  proof (cases "int (length out) \<ge> mx")
    case True
    then show ?thesis by (subst snapshot_loop.simps) simp
  next
    case False
    then have "snapshot_loop k mx p out = snapshot_loop k mx c (out @ [proc_info k p])"
      using n c Cons.prems(5) by (subst snapshot_loop.simps) (simp add: proc_info_def Let_def)
    also have "\<dots> = (out @ [proc_info k p]) @ take (nat (mx - int (length (out @ [proc_info k p])))) (map (proc_info k) (c # ys))"
      by (rule Cons.IH [OF ps Cons.prems(2-5)])
    also have "\<dots> = out @ take (nat (mx - int (length out))) (map (proc_info k) (p # c # ys))"
    proof -
      have "nat (mx - int (length out)) = Suc (nat (mx - int (length (out @ [proc_info k p]))))" using False by simp
      then show ?thesis by (simp only: list.map take_Suc_Cons append.assoc append.simps)
    qed
    finally show ?thesis .
  qed
qed

lemma count_loop_ring:
  assumes "ps = xs @ p # ys" and "linked (kram k) ps (hd ps)" and "distinct ps" and "0 \<notin> set ps"
  shows "cnt \<le> 4096 \<Longrightarrow> scheduler_count_loop (kram k) (hd ps) cnt (p_next (kram k) p) = min 4097 (cnt + length ys)"
  using assms
proof (induction ys arbitrary: xs p cnt)
  case Nil
  then have "p_next (kram k) p = hd ps" using linked_append_hd [of "kram k" xs p "[]" "hd ps"] by simp
  then show ?case using Nil.prems(1) by (subst scheduler_count_loop.simps) simp
next
  case (Cons c ys)
  have n: "p_next (kram k) p = c" using Cons.prems linked_append_hd [of "kram k" xs p "c # ys" "hd ps"] by simp
  have c: "c \<noteq> 0" "c \<noteq> hd ps" using Cons.prems(2,4,5) by (cases xs; auto)+
  have ps: "ps = (xs @ [p]) @ c # ys" using Cons.prems(2) by simp
  show ?case
    using n c Cons.IH [OF _ ps Cons.prems(3-5), of "cnt + 1"] Cons.prems(1)
    by (subst scheduler_count_loop.simps) auto
qed

section \<open>Properties of the scheduler\<close>

lemma inv_parts:
  assumes "sched_inv k ps"
  shows "mm_wf (kmm k)" "ring_ok (ram (kmm k)) (heap_live (kmm k)) (page_live (kmm k)) ps"
    "process_list (ksched k) = hd ps" "current_process (ksched k) \<in> set ps" "ps = hd ps # tl ps" "0 \<notin> set ps" "distinct ps"
    "linked (kram k) ps (hd ps)"
  using assms ring_no_null [of "kmm k" "kram k" "page_live (kmm k)" ps]
  by (auto simp: sched_inv_def kram_def ring_ok_def)

text \<open>The kernel after a change of memory, counters and log that keeps the ring's structures.\<close>

lemma sched_inv_cong:
  assumes "sched_inv k ps" and "mm_wf s" and "ring_ok (ram s) (heap_live s) (page_live s) ps"
    and "\<And>p. p \<in> set ps \<Longrightarrow> p_id (ram s) p = p_id (kram k) p"
    and "unat (next_pid (ksched k)) \<le> unat pid"
  shows "sched_inv (k\<lparr>kmm := s, ksched := (ksched k)\<lparr>next_pid := pid\<rparr>, klg := l\<rparr>) ps"
    and "sched_inv (k\<lparr>kmm := s, klg := l\<rparr>) ps"
  using assms(1-4) le_less_trans [OF _ less_le_trans [OF _ assms(5)]] less_le_trans [OF _ assms(5)]
  by (auto simp: sched_inv_def kram_def)

text \<open>
  The memory of a process that is about to be linked: its structure and its stack are live, the ring is as it was and
  neither the structure, the pid nor the stack belongs to a process of the ring.
\<close>

definition unlinked :: "mm \<Rightarrow> addr list \<Rightarrow> addr \<Rightarrow> addr \<Rightarrow> bool" where
  "unlinked s ps np stack \<longleftrightarrow> mm_wf s \<and> (\<exists>n\<ge>PROC. (np, n) \<in> heap_live s) \<and> (stack, PAGE_SIZE) \<in> page_live s \<and>
     ring_ok (ram s) (heap_live s) (page_live s) ps \<and> np \<notin> set ps \<and> (\<forall>q\<in>set ps. p_id (ram s) q \<noteq> p_id (ram s) np) \<and>
     (\<forall>q\<in>set (tl ps). unat (p_stack_base (ram s) q) \<noteq> stack)"

lemma new_process_unlinked:
  fixes e :: u32
  assumes inv: "sched_inv k ps" and km: "kmalloc 28 (kmm k) = Some (s, np)" "np \<noteq> 0"
  defines "s2 \<equiv> poke (np + 20) 1 (poke np (next_pid (ksched k)) s)"
  assumes pa: "pmm_alloc_page s2 = (s3, stack)" "stack \<noteq> 0"
  defines "s4 \<equiv> fake_context stack e s3"
  shows "unlinked s4 ps np stack" and "p_id (ram s4) np = next_pid (ksched k)" and "p_state (ram s4) np = 1"
    and "page_live s4 = insert (stack, PAGE_SIZE) (page_live (kmm k))"
    and "\<exists>n\<ge>PROC. (np, n) \<notin> heap_live (kmm k) \<and> heap_live s4 = insert (np, n) (heap_live (kmm k))"
    and "(stack, PAGE_SIZE) \<notin> page_live (kmm k)" and "\<And>q. q \<in> set ps \<Longrightarrow> p_id (ram s4) q = p_id (kram k) q"
proof -
  note i = inv_parts [OF inv]
  obtain n where n: "mm_wf s2" "PROC \<le> n" "heap_live s2 = insert (np, n) (heap_live (kmm k))"
      "page_live s2 = page_live (kmm k)" "ring_ok (ram s2) (heap_live s2) (page_live s2) ps"
      "p_id (ram s2) np = next_pid (ksched k)" "p_state (ram s2) np = 1" "np \<notin> set ps"
      "\<And>q. q \<in> set ps \<Longrightarrow> same_on (proc_bytes q) (ram (kmm k)) (ram s2)" "(np, n) \<notin> heap_live (kmm k)"
    using new_struct [OF i(1,2) km, of "next_pid (ksched k)", folded s2_def] by metis
  note m = pmm_alloc_mm [OF n(1) pa(1)]
  have st: "(stack, PAGE_SIZE) \<in> page_live s3" "(stack, PAGE_SIZE) \<notin> page_live s2" using m(5) pa(2) by auto
  note f4 = fake_context_live [OF m(1) st(1), of e, folded s4_def]
  have h4: "heap_live s4 = heap_live s2" "page_live s4 = insert (stack, PAGE_SIZE) (page_live s2)"
    using f4 m pa(2) by simp_all
  have same: "same_on (proc_bytes q) (ram s2) (ram s4)" if "(q, j) \<in> heap_live s2" "PROC \<le> j" for q j
    using new_stack [OF n(1) that pa] by (simp add: s4_def)
  have live: "\<exists>j\<ge>PROC. (q, j) \<in> heap_live s2" if "q \<in> set ps" for q using n(5) that unfolding ring_ok_def by blast
  have ring4: "ring_ok (ram s4) (heap_live s4) (page_live s4) ps"
    by (rule ring_cong [OF n(5)]) (use live same h4 in auto)
  show np4: "p_id (ram s4) np = next_pid (ksched k)" "p_state (ram s4) np = 1"
    using proc_cong [OF same [of np n]] n by auto
  show "(stack, PAGE_SIZE) \<notin> page_live (kmm k)" using st(2) n(4) by simp
  show "page_live s4 = insert (stack, PAGE_SIZE) (page_live (kmm k))"
    "\<exists>n\<ge>PROC. (np, n) \<notin> heap_live (kmm k) \<and> heap_live s4 = insert (np, n) (heap_live (kmm k))"
    using h4 n(2-4,10) by auto
  show id4: "p_id (ram s4) q = p_id (kram k) q" if q: "q \<in> set ps" for q
    using live [OF q] proc_cong(1) [OF same] proc_cong(1) [OF n(9) [OF q]] by (auto simp: kram_def)
  have "unat (p_stack_base (ram s4) q) \<noteq> stack" if "q \<in> set (tl ps)" for q
  proof -
    have "q \<in> set ps" using that i(5) by (metis list.set_intros(2))
    then have "p_stack_base (ram s4) q = p_stack_base (ram s2) q" using live proc_cong(2) [OF same, of q] by blast
    moreover have "(unat (p_stack_base (ram s2) q), PAGE_SIZE) \<in> page_live s2" using n(5) that by (simp add: ring_ok_def)
    ultimately show ?thesis using st(2) by auto
  qed
  moreover have "p_id (ram s4) q \<noteq> p_id (ram s4) np" if "q \<in> set ps" for q
    using inv id4 [OF that] np4(1) that by (auto simp: sched_inv_def)
  ultimately show "unlinked s4 ps np stack" using f4(1) n(2,3,8) h4 ring4 by (auto simp: unlinked_def)
qed

lemma link_in_unlinked:
  assumes u: "unlinked s ps np stack" and ps: "ps = hd ps # tl ps"
  defines "s' \<equiv> link_in np stack (hd ps) s"
  shows "mm_wf s'" and "ring_ok (ram s') (heap_live s') (page_live s') (hd ps # np # tl ps)"
    and "p_id (ram s') np = p_id (ram s) np" and "p_state (ram s') np = p_state (ram s) np"
    and "unat (p_stack_base (ram s') np) = stack" and "unat (p_esp (ram s') np) = stack + 4072"
    and "heap_live s' = heap_live s" and "page_live s' = page_live s"
    and "\<And>q. q \<in> set ps \<Longrightarrow> p_id (ram s') q = p_id (ram s) q" and "ld32 (ram s') (stack + 4092) = ld32 (ram s) (stack + 4092)"
proof -
  obtain n where n: "PROC \<le> n" "(np, n) \<in> heap_live s" using u by (auto simp: unlinked_def)
  have w: "mm_wf s" "ring_ok (ram s) (heap_live s) (page_live s) ps" "np \<notin> set ps" "(stack, PAGE_SIZE) \<in> page_live s"
    using u by (simp_all add: unlinked_def)
  have hd: "hd ps \<in> set ps" using ps by (metis list.set_intros(1))
  have live: "\<exists>j\<ge>PROC. (q, j) \<in> heap_live s" if "q \<in> set ps" for q using w(2) that unfolding ring_ok_def by blast
  obtain j where h: "PROC \<le> j" "(hd ps, j) \<in> heap_live s" using live [OF hd] by blast
  have "ring_ok (ram s) (heap_live s) (page_live s) (hd ps # tl ps)" using w(2) ps by simp
  note ring = link_in_ring [OF w(1) this n(2,1) _ w(4)]
  note l = link_in_live [OF w(1) n(2) h(2) n(1) h(1), of stack, folded s'_def]
  show "mm_wf s'" "heap_live s' = heap_live s" "page_live s' = page_live s" by (rule l)+
  show "ring_ok (ram s') (heap_live s') (page_live s') (hd ps # np # tl ps)"
  proof -
    have "ring_ok (ram s') (heap_live s) (page_live s) (hd ps # np # tl ps)"
      unfolding s'_def by (rule ring [unfolded ps [symmetric]]) (use u in \<open>auto simp: unlinked_def\<close>)
    then show ?thesis using l(2,3) by simp
  qed
  have d: "proc_bytes q \<inter> proc_bytes r = {}" if "(q, a) \<in> heap_live s" "(r, b) \<in> heap_live s" "PROC \<le> a" "PROC \<le> b" "q \<noteq> r"
    for q r a b using proc_disjoint [OF w(1) that(1-4)] that(5) by auto
  have b: "np + PROC \<le> HEAP_END" "hd ps + PROC \<le> HEAP_END" "HEAP_END \<le> stack"
    using heap_region_range [of s np n] heap_region_range [of s "hd ps" j] pages_above(2) [of s "(stack, PAGE_SIZE)"] w n h
    by (auto simp: mm_wf_def)
  have lt: "np < 4294967296" "stack < 4294967296" "stack + 4072 < 4294967296"
    using b(1) w(1,4) pages_above(3) [of s "(stack, PAGE_SIZE)"] by (auto simp: mm_wf_def const_defs)
  have np: "np \<noteq> hd ps" using hd w(3) by auto
  note f = link_in_fields [where s = s, OF d [OF n(2) h(2) n(1) h(1) np] lt(1,2), folded s'_def]
  show "p_id (ram s') np = p_id (ram s) np" "p_state (ram s') np = p_state (ram s) np"
    "unat (p_stack_base (ram s') np) = stack" "unat (p_esp (ram s') np) = stack + 4072"
    using f lt(3) by simp_all
  show "ld32 (ram s') (stack + 4092) = ld32 (ram s) (stack + 4092)"
    using b unfolding s'_def link_in_def Let_def ram_poke by (simp add: ld32_st32_other const_defs)
  show "p_id (ram s') q = p_id (ram s) q" if q: "q \<in> set ps" for q
  proof (cases "q = hd ps")
    case False
    obtain i where i: "PROC \<le> i" "(q, i) \<in> heap_live s" using live [OF q] by blast
    then have "same_on (proc_bytes q) (ram s) (ram s')"
      using f(9) d [OF i(2) n(2) i(1) n(1)] d [OF i(2) h(2) i(1) h(1) False] q w(3) by auto
    then show ?thesis by (rule proc_cong(1))
  qed (use f(2) in simp)
qed

lemma new_process_inv:
  fixes e :: u32
  assumes inv: "sched_inv k ps" and pid: "unat (next_pid (ksched k)) + 1 < 4294967296"
    and km: "kmalloc 28 (kmm k) = Some (s, np)" "np \<noteq> 0"
  defines "s2 \<equiv> poke (np + 20) 1 (poke np (next_pid (ksched k)) s)"
  assumes pa: "pmm_alloc_page s2 = (s3, stack)" "stack \<noteq> 0"
  defines "s8 \<equiv> link_in np stack (hd ps) (fake_context stack e s3)"
  shows "sched_inv (k\<lparr>kmm := s8, ksched := (ksched k)\<lparr>next_pid := next_pid (ksched k) + 1\<rparr>, klg := l\<rparr>) (hd ps # np # tl ps)"
    and "np \<notin> set ps" and "p_id (ram s8) np = next_pid (ksched k)" and "p_state (ram s8) np = 1"
    and "unat (p_stack_base (ram s8) np) = stack" and "(stack, PAGE_SIZE) \<notin> page_live (kmm k)"
    and "unat (p_esp (ram s8) np) = stack + 4072" and "ld32 (ram s8) (stack + 4092) = e"
    and "page_live s8 = insert (stack, PAGE_SIZE) (page_live (kmm k))"
    and "\<exists>n\<ge>PROC. (np, n) \<notin> heap_live (kmm k) \<and> heap_live s8 = insert (np, n) (heap_live (kmm k))"
proof -
  note i = inv_parts [OF inv]
  note u = new_process_unlinked(1-5) [where e = e, OF inv km pa [unfolded s2_def]]
    new_process_unlinked(6) [OF inv km pa [unfolded s2_def]] new_process_unlinked(7) [where e = e, OF inv km pa [unfolded s2_def]]
  note f = link_in_unlinked [OF u(1) i(5), folded s8_def]
  show "np \<notin> set ps" "(stack, PAGE_SIZE) \<notin> page_live (kmm k)" using u(1,6) by (simp_all add: unlinked_def)
  show "page_live s8 = insert (stack, PAGE_SIZE) (page_live (kmm k))"
    "\<exists>n\<ge>PROC. (np, n) \<notin> heap_live (kmm k) \<and> heap_live s8 = insert (np, n) (heap_live (kmm k))"
    using f(7,8) u(4,5) by simp_all
  show np: "p_id (ram s8) np = next_pid (ksched k)" "p_state (ram s8) np = 1"
    "unat (p_stack_base (ram s8) np) = stack" "unat (p_esp (ram s8) np) = stack + 4072" "ld32 (ram s8) (stack + 4092) = e"
    using f u(2,3) fake_context_words by simp_all
  have pid1: "unat (next_pid (ksched k) + 1) = unat (next_pid (ksched k)) + 1"
    using pid by (simp add: unat_word_ariths)
  have "unat (p_id (ram s8) q) < unat (next_pid (ksched k)) + 1" if "q \<in> set (hd ps # np # tl ps)" for q
  proof (cases "q = np")
    case False
    then have "q \<in> set ps" using that i(5) by (metis list.set_intros set_ConsD)
    then show ?thesis using f(9) u(7) inv by (auto simp: sched_inv_def less_Suc_eq)
  qed (use np(1) in simp)
  moreover have "current_process (ksched k) \<in> set (hd ps # np # tl ps)"
    using i(4,5) by (metis list.set_intros set_ConsD)
  ultimately show "sched_inv (k\<lparr>kmm := s8, ksched := (ksched k)\<lparr>next_pid := next_pid (ksched k) + 1\<rparr>, klg := l\<rparr>)
      (hd ps # np # tl ps)"
    using f(1,2) i(3) pid1 by (simp add: sched_inv_def kram_def)
qed

lemma scheduler_init_inv:
  assumes w: "mm_wf (kmm k)" and pid: "next_pid (ksched k) \<noteq> 0"
  shows "\<exists>s p. kmalloc 28 (kmm k) = Some (s, p) \<and>
     (if p = 0 then scheduler_init k = Some (Inl panic_sched_msg)
      else \<exists>k'. scheduler_init k = Some (Inr k') \<and> sched_inv k' [p] \<and> current_process (ksched k') = p \<and>
             p_id (kram k') p = 0 \<and> p_state (kram k') p = 1)"
proof -
  obtain s p where km: "kmalloc 28 (kmm k) = Some (s, p)" "mm_wf s"
      "p \<noteq> 0 \<Longrightarrow> \<exists>n\<ge>unat (28 :: u32). (p, n) \<notin> heap_live (kmm k) \<and> heap_live s = insert (p, n) (heap_live (kmm k))"
    using w by (rule kmalloc_mm [where sz = 28]) blast
  have "\<exists>k'. scheduler_init k = Some (Inr k') \<and> sched_inv k' [p] \<and> current_process (ksched k') = p \<and>
             p_id (kram k') p = 0 \<and> p_state (kram k') p = 1" if p: "p \<noteq> 0"
  proof -
    obtain n where n: "PROC \<le> n" "(p, n) \<in> heap_live s" using km(3) [OF p] by (auto simp: const_defs)
    define m where "m = fold (\<lambda>(d, v) m. st32 m (p + d) v)
        [(0, 0), (4, 0), (8, 0), (12, 0), (16, 0), (20, 1), (24, word_of_nat p)] (ram s)"
    define k' where "k' = k\<lparr>kmm := s\<lparr>ram := m\<rparr>, ksched := (ksched k)\<lparr>current_process := p, process_list := p\<rparr>\<rparr>"
    have init: "scheduler_init k = Some (Inr k')"
      using km(1) p by (simp add: scheduler_init_def Let_def k'_def m_def poke_def)
    have "same_on (- proc_bytes p) (ram s) m"
      unfolding m_def
      by (simp only: fold_simps prod.case) (intro same_on_st32 same_on_refl; auto simp: proc_bytes_def const_defs)
    then have "same_on (- live_bytes (heap_live s \<union> page_live s)) (ram s) m"
      by (rule same_on_mono) (use proc_in_live [OF n(2,1)] in \<open>auto simp: live_bytes_def\<close>)
    note c = client_write [OF km(2) this]
    have lt: "p < 4294967296" using heap_region_range [of s p n] km(2) n(2) by (auto simp: mm_wf_def const_defs)
    have f: "p_id m p = 0" "p_stack_base m p = 0" "p_state m p = 1" "p_next m p = p"
      using lt by (simp_all add: m_def proc_defs ld32_st32_other unat_of_nat)
    have "ring_ok m (heap_live s) (page_live s) [p]" using f n by (auto simp: ring_ok_def)
    then have "sched_inv k' [p]"
      using c pid f by (simp add: sched_inv_def k'_def kram_def unat_gt_0)
    then show ?thesis using init f by (auto simp: k'_def kram_def)
  qed
  then show ?thesis using km(1) by (auto simp: scheduler_init_def)
qed

definition kernel_boot :: kernel where
  "kernel_boot = \<lparr>kmm = mm_boot,
     ksched = \<lparr>current_process = 0, process_list = 0, next_pid = 1, scheduler_ticks = 0\<rparr>,
     klg = (\<lparr>g_klog_ring = \<lambda>_. 0, g_klog_head = 0, g_klog_size = 0, g_klog_lines = 0\<rparr>,
            \<lparr>g_serial_ready = False, tx_polls = 0, port_log = []\<rparr>)\<rparr>"

lemma kernel_boot_fields: "mm_wf (kmm kernel_boot)" "next_pid (ksched kernel_boot) = 1" "heap_live (kmm kernel_boot) = {}"
  using mm_boot_wf by (simp_all add: kernel_boot_def)

lemma boot_sched: "\<exists>k p. scheduler_init kernel_boot = Some (Inr k) \<and> sched_inv k [p] \<and> next_pid (ksched k) = 1"
proof -
  obtain s where s: "kmalloc 28 (kmm kernel_boot) = Some (s, HEAP_START + HB)" using boot_kmalloc [of 28 32]
    by (auto simp: kernel_boot_def kmalloc_need_def heap_align8_unat const_defs)
  have "HEAP_START + HB \<noteq> 0" by (simp add: const_defs)
  then show ?thesis
    using scheduler_init_inv [of kernel_boot] kernel_boot_fields s
    by (auto simp: scheduler_init_def Let_def split: if_splits)
qed

section \<open>Creating a process\<close>

text \<open>A free block of the heap that holds \<open>need\<close> bytes.\<close>

definition heap_room :: "nat \<Rightarrow> mm \<Rightarrow> bool" where
  "heap_room need s \<longleftrightarrow> (\<exists>bs n. chain (ram s) HEAP_START bs \<and> (n, True) \<in> set bs \<and> need \<le> n)"

lemma kmalloc_room:
  assumes "mm_wf s" and "kmalloc_need sz = Some need" and "kmalloc sz s = Some (s', p)"
  shows "p \<noteq> 0 \<longleftrightarrow> heap_room need s" and "p = 0 \<Longrightarrow> s' = s" and "pmm_free_blocks_count s' = pmm_free_blocks_count s"
proof -
  have "heap_wf s" using assms(1) by (simp add: mm_wf_def)
  then obtain bs where b: "bs \<noteq> []" "chain (ram s) HEAP_START bs" "heap_ready s" "heap_head s = HEAP_START"
    by (rule heap_wfE)
  have uniq: "chain (ram s) HEAP_START bs' \<longleftrightarrow> bs' = bs" for bs' using chain_unique b(2) by blast
  have "HEAP_START \<noteq> 0" by (simp add: const_defs)
  then have f: "(p \<noteq> 0 \<longleftrightarrow> fit need HEAP_START bs \<noteq> None) \<and> (p = 0 \<longrightarrow> s' = s) \<and> (\<exists>m. s' = s\<lparr>ram := m\<rparr>)"
    using kmalloc_list [OF b(3,4,2,1) assms(2)] assms(3) by (auto split: option.splits dest: fit_used intro: exI [of _ "ram s"])
  then show "p \<noteq> 0 \<longleftrightarrow> heap_room need s" unfolding heap_room_def uniq fit_None_iff by (fastforce simp: not_less)
  show "p = 0 \<Longrightarrow> s' = s" using f by simp
  show "pmm_free_blocks_count s' = pmm_free_blocks_count s" using f by (auto simp: pmm_free_blocks_count_def)
qed

lemma need_struct: "kmalloc_need 28 = Some 32"
  by (simp add: kmalloc_need_def heap_align8_unat const_defs)

lemma free_blocks_poke [simp]: "pmm_free_blocks_count (poke a v s) = pmm_free_blocks_count s"
  by (simp add: poke_def pmm_free_blocks_count_def)

text \<open>The structure of a new process; nothing happens when there is no room for it.\<close>

lemma create_struct:
  assumes inv: "sched_inv k ps"
  obtains "\<not> heap_room 32 (kmm k)" "kmalloc 28 (kmm k) = Some (kmm k, 0)"
  | s np where "heap_room 32 (kmm k)" "kmalloc 28 (kmm k) = Some (s, np)" "np \<noteq> 0"
      "pmm_free_blocks_count (poke (np + 20) 1 (poke np (next_pid (ksched k)) s)) = pmm_free_blocks_count (kmm k)"
proof -
  have w: "mm_wf (kmm k)" using inv by (simp add: sched_inv_def)
  then obtain s np where k: "kmalloc 28 (kmm k) = Some (s, np)" by (rule kmalloc_mm [where sz = 28]) blast
  note r = kmalloc_room [OF w need_struct k]
  show thesis
  proof (cases "np = 0")
    case True
    then show thesis using that(1) r k by simp
  next
    case False
    then show thesis using that(2) [of s np] r k by simp
  qed
qed

lemma create_no_struct:
  assumes "sched_inv k ps" and "\<not> heap_room 32 (kmm k)"
  shows "\<exists>k'. create_process tx e k = Some (k', -1) \<and> sched_inv k' ps \<and> kmm k' = kmm k \<and> ksched k' = ksched k"
  using assms(1)
proof (cases rule: create_struct)
  case 1
  then show ?thesis using assms(1) by (simp add: create_process_def sched_inv_def kram_def)
qed (use assms(2) in simp)

lemma create_no_stack:
  assumes inv: "sched_inv k ps" and pid: "unat (next_pid (ksched k)) + 1 < 4294967296"
    and room: "heap_room 32 (kmm k)" and full: "pmm_free_blocks_count (kmm k) = 0"
  shows "\<exists>k' np n. create_process tx e k = Some (k', -1) \<and> sched_inv k' ps \<and> next_pid (ksched k') = next_pid (ksched k) + 1 \<and>
    page_live (kmm k') = page_live (kmm k) \<and> np \<notin> set ps \<and> (np, n) \<notin> heap_live (kmm k) \<and>
    heap_live (kmm k') = insert (np, n) (heap_live (kmm k))"
  using inv
proof (cases rule: create_struct)
  case (2 s np)
  note i = inv_parts [OF inv]
  define s2 where "s2 = poke (np + 20) 1 (poke np (next_pid (ksched k)) s)"
  obtain n where n: "mm_wf s2" "(np, n) \<notin> heap_live (kmm k)" "heap_live s2 = insert (np, n) (heap_live (kmm k))"
      "page_live s2 = page_live (kmm k)" "ring_ok (ram s2) (heap_live s2) (page_live s2) ps" "np \<notin> set ps"
      "\<And>q. q \<in> set ps \<Longrightarrow> same_on (proc_bytes q) (ram (kmm k)) (ram s2)"
    using new_struct [OF i(1,2) 2(2,3), of "next_pid (ksched k)", folded s2_def] by metis
  obtain s3 stack where pa: "pmm_alloc_page s2 = (s3, stack)" by (cases "pmm_alloc_page s2")
  have a: "stack = 0" "s3 = s2" using pmm_alloc_page_correct [OF n(1) pa] full 2(4) by (auto simp: s2_def)
  have up: "unat (next_pid (ksched k)) \<le> unat (next_pid (ksched k) + 1)" using pid by (simp add: unat_word_ariths)
  have "sched_inv (k\<lparr>kmm := s2, ksched := (ksched k)\<lparr>next_pid := next_pid (ksched k) + 1\<rparr>, klg := l\<rparr>) ps" for l
    by (rule sched_inv_cong(1) [OF inv n(1,5) _ up]) (use proc_cong(1) [OF n(7)] in \<open>simp add: kram_def\<close>)
  moreover have "process_list (ksched k) \<noteq> 0" using i(3,5,6) by (metis list.set_intros(1))
  ultimately show ?thesis
    using 2(2,3) pa a n(2-4,6) by (auto simp: create_process_def Let_def s2_def [symmetric])
qed (use room in simp)

lemma create_ok:
  assumes inv: "sched_inv k ps" and pid: "unat (next_pid (ksched k)) + 1 < 4294967296"
    and room: "heap_room 32 (kmm k)" and free: "pmm_free_blocks_count (kmm k) \<noteq> 0"
  shows "\<exists>k' np n stack. create_process tx e k = Some (k', sint (next_pid (ksched k))) \<and> np \<notin> set ps \<and>
    sched_inv k' (hd ps # np # tl ps) \<and> current_process (ksched k') = current_process (ksched k) \<and>
    (np, n) \<notin> heap_live (kmm k) \<and> heap_live (kmm k') = insert (np, n) (heap_live (kmm k)) \<and>
    (stack, PAGE_SIZE) \<notin> page_live (kmm k) \<and> page_live (kmm k') = insert (stack, PAGE_SIZE) (page_live (kmm k)) \<and>
    p_id (kram k') np = next_pid (ksched k) \<and> p_state (kram k') np = 1 \<and> unat (p_stack_base (kram k') np) = stack \<and>
    unat (p_esp (kram k') np) = stack + 4072 \<and> ld32 (kram k') (stack + 4092) = e"
  using inv
proof (cases rule: create_struct)
  case (2 s np)
  note i = inv_parts [OF inv]
  define s2 where "s2 = poke (np + 20) 1 (poke np (next_pid (ksched k)) s)"
  have w2: "mm_wf s2" using new_struct [OF i(1,2) 2(2,3), of "next_pid (ksched k)", folded s2_def] by metis
  obtain s3 stack where pa: "pmm_alloc_page s2 = (s3, stack)" by (cases "pmm_alloc_page s2")
  have st: "stack \<noteq> 0" using pmm_alloc_page_correct [OF w2 pa] free 2(4) by (auto simp: s2_def)
  note np = new_process_inv(1,3-5,7-10) [where e = e, OF inv pid 2(2,3) pa [unfolded s2_def] st]
    new_process_inv(2,6) [OF inv pid 2(2,3) pa [unfolded s2_def] st]
  define l where "l = klog_log_u32 tx KLOG_INFO (Some (lit ''sched'')) (Some (lit ''created pid'')) (next_pid (ksched k)) 10 (klg k)"
  define k' where "k' = k\<lparr>kmm := link_in np stack (hd ps) (fake_context stack e s3),
      ksched := (ksched k)\<lparr>next_pid := next_pid (ksched k) + 1\<rparr>, klg := l\<rparr>"
  have "process_list (ksched k) \<noteq> 0" using i(3,5,6) by (metis list.set_intros(1))
  then have "create_process tx e k = Some (k', sint (next_pid (ksched k)))"
    using 2(2,3) pa st i(3) by (simp add: create_process_def Let_def s2_def [symmetric] link_in_def k'_def l_def)
  moreover have e: "kmm k' = link_in np stack (hd ps) (fake_context stack e s3)"
    "kram k' = ram (link_in np stack (hd ps) (fake_context stack e s3))" "current_process (ksched k') = current_process (ksched k)"
    by (simp_all add: k'_def kram_def)
  moreover obtain n where "(np, n) \<notin> heap_live (kmm k)" "heap_live (kmm k') = insert (np, n) (heap_live (kmm k))"
    using np(8) by (auto simp: k'_def)
  moreover have "sched_inv k' (hd ps # np # tl ps)" using np(1) [of l] by (simp add: k'_def)
  ultimately show ?thesis
    using np(2-7,9,10) by (intro exI [of _ k'] exI [of _ np] exI [of _ n] exI [of _ stack]) simp
qed (use room in simp)

text \<open>
  C19.  \<open>create_process\<close> returns on every state that satisfies the scheduler invariant and keeps the invariant; what
  it does is decided by the memory.  Without a free block of 32 bytes it answers \<open>-1\<close> and changes neither
  the memory nor the scheduler.  With such a block but no free page it answers \<open>-1\<close>, the pid is used up and the
  structure stays allocated although the ring does not hold it.  With both it answers the fresh pid of a new process that
  stands behind the kernel process in the ring, with state 1, a structure and a stack page that nobody held and that are
  all that was taken, the entry point on top of the stack and the saved stack pointer below the six words of the first context.
\<close>

theorem create_process_correct:
  assumes inv: "sched_inv k ps" and pid: "unat (next_pid (ksched k)) + 1 < 4294967296"
  shows "\<exists>k' r. create_process tx e k = Some (k', r) \<and>
     (\<not> heap_room 32 (kmm k) \<longrightarrow> r = -1 \<and> sched_inv k' ps \<and> kmm k' = kmm k \<and> ksched k' = ksched k) \<and>
     (heap_room 32 (kmm k) \<and> pmm_free_blocks_count (kmm k) = 0 \<longrightarrow>
        r = -1 \<and> sched_inv k' ps \<and> next_pid (ksched k') = next_pid (ksched k) + 1 \<and> page_live (kmm k') = page_live (kmm k) \<and>
        (\<exists>np n. np \<notin> set ps \<and> (np, n) \<notin> heap_live (kmm k) \<and> heap_live (kmm k') = insert (np, n) (heap_live (kmm k)))) \<and>
     (heap_room 32 (kmm k) \<and> pmm_free_blocks_count (kmm k) \<noteq> 0 \<longrightarrow>
        r = sint (next_pid (ksched k)) \<and>
        (\<exists>np n stack. np \<notin> set ps \<and> sched_inv k' (hd ps # np # tl ps) \<and> current_process (ksched k') = current_process (ksched k) \<and>
           (np, n) \<notin> heap_live (kmm k) \<and> heap_live (kmm k') = insert (np, n) (heap_live (kmm k)) \<and>
           (stack, PAGE_SIZE) \<notin> page_live (kmm k) \<and> page_live (kmm k') = insert (stack, PAGE_SIZE) (page_live (kmm k)) \<and>
           p_id (kram k') np = next_pid (ksched k) \<and> p_state (kram k') np = 1 \<and> unat (p_stack_base (kram k') np) = stack \<and>
           unat (p_esp (kram k') np) = stack + 4072 \<and> ld32 (kram k') (stack + 4092) = e))"
proof (cases "heap_room 32 (kmm k)")
  case False
  then show ?thesis using create_no_struct [OF inv, of tx e] by auto
next
  case room: True
  show ?thesis
  proof (cases "pmm_free_blocks_count (kmm k) = 0")
    case True
    obtain k' where "create_process tx e k = Some (k', -1)" "sched_inv k' ps" "next_pid (ksched k') = next_pid (ksched k) + 1"
        "page_live (kmm k') = page_live (kmm k)"
        "\<exists>np n. np \<notin> set ps \<and> (np, n) \<notin> heap_live (kmm k) \<and> heap_live (kmm k') = insert (np, n) (heap_live (kmm k))"
      using create_no_stack [OF inv pid room True, of tx e] by blast
    then show ?thesis using room True by (intro exI conjI) auto
  next
    case False
    then show ?thesis using create_ok [OF inv pid room False, of tx e] room by (elim exE conjE) (intro exI conjI impI; simp; blast)
  qed
qed

text \<open>The first kernel process as the loader and \<open>scheduler_init\<close> leave it: it has room for a second process.\<close>

lemma boot_process:
  "\<exists>k p. sched_inv k [p] \<and> current_process (ksched k) = p \<and> next_pid (ksched k) = 1 \<and> heap_room 32 (kmm k) \<and>
     pmm_free_blocks_count (kmm k) \<noteq> 0"
proof -
  have h: "heap_wf mm_boot" using mm_boot_wf(1) by (simp add: mm_wf_def)
  have w: "heap_ready mm_boot" "heap_head mm_boot = HEAP_START" using h by (auto simp: heap_wf_def)
  have c: "chain (ram mm_boot) HEAP_START [(HEAP_SIZE - HB, True)]" by (rule nothing_live_single [OF h mm_boot_wf(2)])
  define bs where "bs = [(32 :: nat, False), (HEAP_SIZE - HB - 32 - HB, True)]"
  obtain m where m: "kmalloc 28 mm_boot = Some (mm_boot\<lparr>ram := m\<rparr>, HEAP_START + HB)" "chain m HEAP_START bs"
    using kmalloc_list [OF w c _ need_struct] by (auto simp: bs_def const_defs)
  let ?p = "HEAP_START + HB"
  define k where "k = (case scheduler_init kernel_boot of Some (Inr k') \<Rightarrow> k' | _ \<Rightarrow> kernel_boot)"
  have nz: "?p \<noteq> 0" by (simp add: const_defs)
  have k: "scheduler_init kernel_boot = Some (Inr k)" "sched_inv k [?p]" "current_process (ksched k) = ?p"
    using scheduler_init_inv [of kernel_boot] kernel_boot_fields m(1) nz by (auto simp: kernel_boot_def k_def split: if_splits)
  have kk: "next_pid (ksched k) = 1" "\<exists>m'. kmm k = mm_boot\<lparr>ram := m'\<rparr> \<and> same_on (- proc_bytes ?p) m m'"
    using k(1) m(1) nz
    by (auto simp: scheduler_init_def kernel_boot_def Let_def poke_def proc_bytes_def const_defs
        intro!: same_on_st32 same_on_refl)
  then obtain m' where m': "kmm k = mm_boot\<lparr>ram := m'\<rparr>" "same_on (- proc_bytes ?p) m m'" by blast
  have "chain m' HEAP_START bs"
    by (rule chain_cong [OF m(2)], rule same_on_mono [OF m'(2)]) (auto simp: bs_def proc_bytes_def const_defs)
  then have "heap_room 32 (kmm k)" using m'(1) unfolding heap_room_def by (intro exI [of _ bs]) (auto simp: bs_def const_defs)
  moreover have "pmm_free_blocks_count (kmm k) = pmm_free_blocks_count mm_boot" using m'(1) by (simp add: pmm_free_blocks_count_def)
  moreover have "page_index mm_boot = {}" using mm_boot_wf(3) by (simp add: page_live_def)
  then have "unat (pmm_used_blocks mm_boot) = 8192" using mm_boot_wf by (simp add: mm_wf_def pmm_wf_def)
  then have "pmm_free_blocks_count mm_boot \<noteq> 0"
    using mm_boot_wf(4) by (auto simp: pmm_free_blocks_count_def word_less_nat_alt)
  ultimately show ?thesis using k(2,3) kk(1) by metis
qed

lemma two_processes:
  "\<exists>k p c. sched_inv k [p, c] \<and> current_process (ksched k) = p \<and> p_id (kram k) c = 1"
proof -
  obtain k p where k: "sched_inv k [p]" "current_process (ksched k) = p" "next_pid (ksched k) = 1" "heap_room 32 (kmm k)"
      "pmm_free_blocks_count (kmm k) \<noteq> 0"
    using boot_process by blast
  obtain k' c where "create_process (\<lambda>_. True) 4096 k = Some (k', 1)" "sched_inv k' [p, c]" "current_process (ksched k') = p"
      "p_id (kram k') c = 1"
    using create_ok [OF k(1) _ k(4,5), of "\<lambda>_. True" 4096] k(2,3) by auto
  then show ?thesis by blast
qed

theorem create_process_correct_witness:
  "\<exists>k p k' c stack. sched_inv k [p] \<and> create_process (\<lambda>_. True) 4096 k = Some (k', 1) \<and> sched_inv k' [p, c] \<and>
     p_id (kram k') c = 1 \<and> unat (p_stack_base (kram k') c) = stack \<and> ld32 (kram k') (stack + 4092) = 4096"
proof -
  obtain k p where k: "sched_inv k [p]" "next_pid (ksched k) = 1" "heap_room 32 (kmm k)" "pmm_free_blocks_count (kmm k) \<noteq> 0"
    using boot_process by blast
  then show ?thesis using create_process_correct [OF k(1), of "\<lambda>_. True" 4096] by fastforce
qed



lemma linked_nth:
  assumes "linked m ps (hd ps)" and "i < length ps"
  shows "p_next m (ps ! i) = ps ! (Suc i mod length ps)"
proof -
  have ps: "ps = take i ps @ ps ! i # drop (Suc i) ps" using assms(2) by (simp add: id_take_nth_drop)
  have "p_next m (ps ! i) = (case drop (Suc i) ps of [] \<Rightarrow> hd ps | y # _ \<Rightarrow> y)"
    using linked_append_hd [of m "take i ps" "ps ! i" "drop (Suc i) ps" "hd ps"] ps assms(1) by simp
  also have "\<dots> = ps ! (Suc i mod length ps)"
  proof (cases "Suc i < length ps")
    case True
    then show ?thesis by (simp add: Cons_nth_drop_Suc [symmetric])
  next
    case False
    then have "Suc i = length ps" using assms(2) by simp
    moreover have "ps \<noteq> []" using assms(2) by auto
    ultimately show ?thesis by (simp add: hd_conv_nth)
  qed
  finally show ?thesis .
qed

lemma yield_step:
  assumes inv: "sched_inv k ps" and i: "current_process (ksched k) = ps ! i" "i < length ps"
  shows "sched_inv (yield k) ps" and "current_process (ksched (yield k)) = ps ! (Suc i mod length ps)"
    and "scheduler_ticks (ksched (yield k)) = scheduler_ticks (ksched k) + (if length ps = 1 then 0 else 1)"
proof -
  note j = inv_parts [OF inv]
  have n: "p_next (kram k) (ps ! i) = ps ! (Suc i mod length ps)" by (rule linked_nth [OF j(8) i(2)])
  have ne: "ps ! i \<noteq> 0" using j(6) i(2) by (metis nth_mem)
  have lt: "Suc i mod length ps < length ps" using i(2) by (intro mod_less_divisor) linarith
  have same: "ps ! i = ps ! (Suc i mod length ps) \<longleftrightarrow> i = Suc i mod length ps"
    using j(7) i(2) lt by (simp add: nth_eq_iff_index_eq)
  moreover have "i = Suc i mod length ps \<longleftrightarrow> length ps = 1"
    using i(2) by (auto simp: mod_Suc)
  ultimately have one: "ps ! i = ps ! (Suc i mod length ps) \<longleftrightarrow> length ps = 1" by simp
  have inr: "ps ! (Suc i mod length ps) \<in> set ps" using lt by (rule nth_mem)
  show "sched_inv (yield k) ps" using inv inr by (auto simp: yield_def Let_def sched_inv_def kram_def i n [unfolded kram_def])
  show "current_process (ksched (yield k)) = ps ! (Suc i mod length ps)"
    using i one n ne by (auto simp: yield_def Let_def)
  show "scheduler_ticks (ksched (yield k)) = scheduler_ticks (ksched k) + (if length ps = 1 then 0 else 1)"
    using i one n ne by (auto simp: yield_def Let_def)
qed

text \<open>
  C20.  \<open>yield\<close> is round robin: after \<open>j\<close> calls the current process is the one \<open>j\<close>
  places further around the ring, so that every process is current once in every
  \<open>length ps\<close> calls, and the invariant holds throughout.
\<close>

theorem yield_round_robin:
  assumes "sched_inv k ps" and "current_process (ksched k) = ps ! i" and "i < length ps"
  shows "sched_inv ((yield ^^ j) k) ps \<and>
     current_process (ksched ((yield ^^ j) k)) = ps ! ((i + j) mod length ps)"
proof (induction j)
  case 0
  then show ?case using assms by simp
next
  case (Suc j)
  have "(i + j) mod length ps < length ps" using assms(3) by (intro mod_less_divisor) linarith
  then show ?case
    using yield_step [of "(yield ^^ j) k" ps "(i + j) mod length ps"] Suc.IH by (simp add: mod_Suc_eq)
qed

theorem yield_round_robin_witness:
  "\<exists>k p c. p \<noteq> c \<and> sched_inv k [p, c] \<and> current_process (ksched k) = p \<and>
     current_process (ksched ((yield ^^ 5) k)) = c \<and> current_process (ksched ((yield ^^ 6) k)) = p"
proof -
  obtain k p c where k: "sched_inv k [p, c]" "current_process (ksched k) = p" using two_processes by blast
  moreover have "p \<noteq> c" using inv_parts(7) [OF k(1)] by simp
  ultimately show ?thesis
    using yield_round_robin [OF k(1), of 0 5] yield_round_robin [OF k(1), of 0 6]
    by (intro exI [of _ k] exI [of _ p] exI [of _ c]) (simp del: funpow.simps flip: numeral_2_eq_2)
qed

text \<open>
  \<open>scheduler_snapshot\<close> reports the processes of the ring in order, starting with the
  kernel process, at most \<open>max_count\<close> of them, with exactly one marked current, and
  \<open>scheduler_process_count\<close> is the length of the ring, cut off at 4097.
\<close>

lemma scheduler_snapshot_correct:
  assumes "sched_inv k ps"
  shows "scheduler_snapshot k out_null max_count =
       (if out_null then [] else take (nat max_count) (map (proc_info k) ps)) \<and>
     length (filter pi_current (map (proc_info k) ps)) = 1 \<and>
     scheduler_process_count k = min 4097 (length ps)"
proof -
  note i = inv_parts [OF assms]
  have pl: "process_list (ksched k) \<noteq> 0" using i(3,5,6) by (metis list.set_intros(1))
  have e: "hd ps # tl ps = ps" using i(5) by simp
  have "snapshot_loop k max_count (hd ps) [] = take (nat max_count) (map (proc_info k) ps)" if "0 < max_count"
    using snapshot_loop_ring [of ps "[]" "hd ps" "tl ps" k max_count "[]"] i(3,6-8) e by simp
  then have "scheduler_snapshot k out_null max_count = (if out_null then [] else take (nat max_count) (map (proc_info k) ps))"
    using pl i(3) by (auto simp: scheduler_snapshot_def)
  moreover have "length (filter pi_current (map (proc_info k) ps)) = 1"
  proof -
    have "filter (\<lambda>p. p = current_process (ksched k)) ps = [current_process (ksched k)]"
      using i(4,7) by (induction ps) (auto simp: filter_empty_conv)
    moreover have "filter pi_current (map (proc_info k) ps) =
        map (proc_info k) (filter (\<lambda>p. p = current_process (ksched k)) ps)"
      by (simp add: filter_map comp_def proc_info_def)
    ultimately show ?thesis by simp
  qed
  moreover have "scheduler_process_count k = min 4097 (length ps)"
  proof -
    have "scheduler_process_count k = min 4097 (1 + length (tl ps))"
      using count_loop_ring [of ps "[]" "hd ps" "tl ps" k 1] i(3,6-8) pl e
      by (simp add: scheduler_process_count_def scheduler_count_internal_def Let_def)
    moreover have "length ps = 1 + length (tl ps)" using arg_cong [OF e, of length] by simp
    ultimately show ?thesis by (simp only:)
  qed
  ultimately show ?thesis by blast
qed

theorem scheduler_snapshot_correct_witness:
  "\<exists>k p. sched_inv k [p] \<and> scheduler_snapshot k False 32 = [proc_info k p] \<and> scheduler_process_count k = 1"
proof -
  obtain k p where k: "sched_inv k [p]" using boot_sched by blast
  then show ?thesis using scheduler_snapshot_correct [OF k, of False 32] by auto
qed

text \<open>
  \<open>scheduler_init\<close> returns on every well-formed memory: it panics exactly when
  \<open>kmalloc\<close> answers null, and otherwise establishes the scheduler invariant with the
  kernel process alone in the ring and current.
\<close>

lemma scheduler_init_correct:
  assumes w: "mm_wf (kmm k)" and pid: "next_pid (ksched k) \<noteq> 0"
  shows "\<exists>s p. kmalloc 28 (kmm k) = Some (s, p) \<and>
     (if p = 0 then scheduler_init k = Some (Inl panic_sched_msg)
      else \<exists>k'. scheduler_init k = Some (Inr k') \<and> sched_inv k' [p] \<and> current_process (ksched k') = p \<and>
             p_id (kram k') p = 0 \<and> p_state (kram k') p = 1)"
  using assms by (rule scheduler_init_inv)

theorem scheduler_init_correct_witness:
  "\<exists>p k. scheduler_init kernel_boot = Some (Inr k) \<and> sched_inv k [p] \<and> current_process (ksched k) = p"
proof -
  obtain s where s: "kmalloc 28 (kmm kernel_boot) = Some (s, HEAP_START + HB)"
    using boot_kmalloc [of 28 32] by (auto simp: kernel_boot_def kmalloc_need_def heap_align8_unat const_defs)
  have "HEAP_START + HB \<noteq> 0" by (simp add: const_defs)
  then show ?thesis using scheduler_init_correct [OF kernel_boot_fields(1)] kernel_boot_fields(2) s by auto
qed

end
