(* ===== verification/Descriptors.thy ===== *)
theory Descriptors
  imports Prelude
begin

text \<open>
  The segment and interrupt descriptor tables, \<^verbatim>\<open>src/src/kernel/gdt.c\<close> and
  \<^verbatim>\<open>src/src/kernel/idt.c\<close>.  The tables are maps from the index to the packed entry; the
  pointer structures carry the limit and the base address, an argument, that the flush routines in
  assembly load.
\<close>

section \<open>Global descriptor table\<close>

record gdt_entry =
  limit_low :: u16
  base_low :: u16
  base_middle :: u8
  access :: u8
  granularity :: u8
  base_high :: u8

record gdt =
  gdt_entries :: "nat \<Rightarrow> gdt_entry"
  gdt_limit :: u16
  gdt_base :: u32

definition gdt_set_gate :: "nat \<Rightarrow> u32 \<Rightarrow> u32 \<Rightarrow> u8 \<Rightarrow> u8 \<Rightarrow> gdt \<Rightarrow> gdt" where
  "gdt_set_gate num base limit acc gran g =
     g\<lparr>gdt_entries := (gdt_entries g)(num :=
       \<lparr>limit_low = ucast (limit AND 65535),
        base_low = ucast (base AND 65535),
        base_middle = ucast (drop_bit 16 base AND 255),
        access = acc,
        granularity = ucast (drop_bit 16 limit AND 15) OR (gran AND 240),
        base_high = ucast (drop_bit 24 base AND 255)\<rparr>)\<rparr>"

definition gdt_init :: "u32 \<Rightarrow> gdt \<Rightarrow> gdt" where
  "gdt_init addr g =
     gdt_set_gate 2 0 4294967295 146 207
       (gdt_set_gate 1 0 4294967295 154 207
         (gdt_set_gate 0 0 0 0 0 (g\<lparr>gdt_limit := 8 * 3 - 1, gdt_base := addr\<rparr>)))"

text \<open>What the processor reads back from an entry.\<close>

definition seg_base :: "gdt_entry \<Rightarrow> u32" where
  "seg_base e = ucast (base_low e) OR push_bit 16 (ucast (base_middle e)) OR push_bit 24 (ucast (base_high e))"

definition seg_limit :: "gdt_entry \<Rightarrow> u32" where
  "seg_limit e = ucast (limit_low e) OR push_bit 16 (ucast (granularity e AND 15))"

section \<open>Interrupt descriptor table\<close>

record idt_entry =
  base_lo :: u16
  sel :: u16
  always0 :: u8
  flags :: u8
  base_hi :: u16

record idt =
  idt_entries :: "nat \<Rightarrow> idt_entry"
  idt_limit :: u16
  idt_base :: u32

definition idt_set_gate :: "u8 \<Rightarrow> u32 \<Rightarrow> u16 \<Rightarrow> u8 \<Rightarrow> idt \<Rightarrow> idt" where
  "idt_set_gate num base s fl i =
     i\<lparr>idt_entries := (idt_entries i)(unat num :=
       \<lparr>base_lo = ucast (base AND 65535), sel = s, always0 = 0, flags = fl,
        base_hi = ucast (drop_bit 16 base AND 65535)\<rparr>)\<rparr>"

definition idt_init :: "u32 \<Rightarrow> idt \<Rightarrow> idt" where
  "idt_init addr i =
     fold (\<lambda>n. idt_set_gate (word_of_nat n) 0 8 142) [0..<256] (i\<lparr>idt_limit := 8 * 256 - 1, idt_base := addr\<rparr>)"

definition idt_register_handler :: "u8 \<Rightarrow> u32 \<Rightarrow> idt \<Rightarrow> idt" where
  "idt_register_handler num handler_fn i = idt_set_gate num handler_fn 8 142 i"

text \<open>The handler address the processor reads back.\<close>

definition gate_target :: "idt_entry \<Rightarrow> u32" where
  "gate_target e = ucast (base_lo e) OR push_bit 16 (ucast (base_hi e))"

section \<open>The encodings lose nothing\<close>

lemma gate_target_set [simp]:
  "gate_target \<lparr>base_lo = ucast (h AND 65535), sel = s, always0 = z, flags = f,
     base_hi = ucast (drop_bit 16 h AND 65535)\<rparr> = (h :: u32)"
  unfolding mask_literals
  by (rule bit_word_eqI) (auto simp: gate_target_def bit_simps)

lemma seg_base_set:
  "seg_base (gdt_entries (gdt_set_gate num base limit acc gran g) num) = base"
proof (rule bit_word_eqI)
  fix n :: nat
  assume "n < LENGTH(32)"
  then show "bit (seg_base (gdt_entries (gdt_set_gate num base limit acc gran g) num)) n = bit base n"
    unfolding gdt_set_gate_def mask_literals
    by (cases "n < 24") (auto simp: seg_base_def bit_simps)
qed

lemma seg_limit_set:
  "seg_limit (gdt_entries (gdt_set_gate num base limit acc gran g) num) = limit AND 1048575"
proof -
  have m: "(1048575 :: u32) = mask 20" by (simp add: mask_eq_exp_minus_1)
  show ?thesis
    unfolding gdt_set_gate_def seg_limit_def mask_literals m
    by (rule bit_word_eqI) (auto simp: bit_simps)
qed

lemma idt_fold_entries:
  "idt_entries (fold (\<lambda>n. idt_set_gate (word_of_nat n) b s f) ns i) k =
    (if k \<in> (\<lambda>n. n mod 256) ` set ns
     then \<lparr>base_lo = ucast (b AND 65535), sel = s, always0 = 0, flags = f, base_hi = ucast (drop_bit 16 b AND 65535)\<rparr>
     else idt_entries i k)"
  by (induction ns arbitrary: i) (auto simp: idt_set_gate_def unat_of_nat)

text \<open>
  The descriptor tables: \<open>gdt_init\<close> leaves a null entry and two flat segments over the
  whole address space in pages of 4 KB; \<open>idt_init\<close> fills all 256 gates of the table whose
  limit it announces; and a handler registered afterwards is the one the processor reads back
  from its gate, in ring 0 and the kernel code segment, while every other gate is unchanged.
\<close>

lemma descriptors_correct:
  "(\<forall>n \<in> {1, 2}. seg_base (gdt_entries (gdt_init a g) n) = 0 \<and>
      seg_limit (gdt_entries (gdt_init a g) n) = 1048575 \<and> bit (granularity (gdt_entries (gdt_init a g) n)) 7) \<and>
   access (gdt_entries (gdt_init a g) 0) = 0 \<and> unat (gdt_limit (gdt_init a g)) + 1 = 3 * 8 \<and>
   unat (idt_limit (idt_init b i)) + 1 = 256 * 8 \<and>
   (\<forall>n < 256. sel (idt_entries (idt_init b i) n) = 8 \<and> flags (idt_entries (idt_init b i) n) = 142) \<and>
   gate_target (idt_entries (idt_register_handler v h i) (unat v)) = h \<and>
   (\<forall>n. n \<noteq> unat v \<longrightarrow> idt_entries (idt_register_handler v h i) n = idt_entries i n)"
proof -
  have lim: "idt_limit (fold (\<lambda>n. idt_set_gate (word_of_nat n) x y z) ns j) = idt_limit j" for x y z ns j
    by (induction ns arbitrary: j) (simp_all add: idt_set_gate_def)
  have mem: "n \<in> (\<lambda>n. n mod 256) ` set [0..<256]" if "n < 256" for n :: nat
    using that by (intro image_eqI [of _ _ n]) auto
  show ?thesis
    using seg_base_set [of 2 0 4294967295 146 207] seg_limit_set [of 2 0 4294967295 146 207]
    by (auto simp: gdt_init_def gdt_set_gate_def seg_base_def seg_limit_def idt_init_def idt_fold_entries lim mem
        idt_register_handler_def idt_set_gate_def simp del: upt_rec_numeral)
qed

theorem descriptors_correct_witness:
  "gate_target (idt_entries (idt_register_handler 32 1052672 \<lparr>idt_entries = (\<lambda>_. \<lparr>base_lo = 0, sel = 0,
     always0 = 0, flags = 0, base_hi = 0\<rparr>), idt_limit = 0, idt_base = 0\<rparr>) 32) = 1052672"
  using descriptors_correct [where v = 32 and h = 1052672
    and i = "\<lparr>idt_entries = (\<lambda>_. \<lparr>base_lo = 0, sel = 0, always0 = 0, flags = 0, base_hi = 0\<rparr>), idt_limit = 0, idt_base = 0\<rparr>"]
  by simp

end
