(* ===== verification/Pit.thy ===== *)
theory Pit
  imports Port_IO Descriptors
begin

text \<open>
  The interval timer and the speaker, \<^verbatim>\<open>src/src/drivers/pit.c\<close> and
  \<^verbatim>\<open>src/src/drivers/speaker.c\<close>.  The tick counter is a 32-bit word that the interrupt handler
  increments.  How many timer interrupts arrive during the \<open>n\<close>-th \<^verbatim>\<open>hlt\<close> is up to
  the hardware: \<open>irq n\<close>, an argument of the waiting loop (a halt can also end by another
  interrupt, then it is 0).
\<close>

definition PIT_CHANNEL0 :: nat where [const_defs]: "PIT_CHANNEL0 = 64"
definition PIT_CHANNEL2 :: nat where [const_defs]: "PIT_CHANNEL2 = 66"
definition PIT_CMD :: nat where [const_defs]: "PIT_CMD = 67"
definition PIC_MASTER_IMR :: nat where [const_defs]: "PIC_MASTER_IMR = 33"
definition PC_SPEAKER_CTL :: nat where [const_defs]: "PC_SPEAKER_CTL = 97"
definition PIT_HZ :: u32 where [const_defs]: "PIT_HZ = 100"
definition PIT_BASE_FREQ :: u32 where [const_defs]: "PIT_BASE_FREQ = 1193180"
definition PIT_DIVISOR :: u32 where [const_defs]: "PIT_DIVISOR = 11931"
definition MS_PER_TICK :: u32 where [const_defs]: "MS_PER_TICK = 10"

type_synonym ticks = u32

definition pit_irq0 :: "'d device \<Rightarrow> ticks \<times> 'd \<Rightarrow> ticks \<times> 'd" where
  "pit_irq0 dv s = (fst s + 1, outb dv 32 32 (snd s))"

definition pit_init :: "'d device \<Rightarrow> u32 \<Rightarrow> idt \<times> 'd \<Rightarrow> idt \<times> 'd" where
  "pit_init dv irq0_addr s =
     (let d1 = outb dv PIT_CMD 54 (snd s);
          d2 = outb dv PIT_CHANNEL0 (ucast (PIT_DIVISOR AND 255)) d1;
          d3 = outb dv PIT_CHANNEL0 (ucast (drop_bit 8 PIT_DIVISOR)) d2;
          i1 = idt_register_handler 32 irq0_addr (fst s);
          (mask, d4) = inb dv PIC_MASTER_IMR d3
      in (i1, outb dv PIC_MASTER_IMR (mask AND NOT 1) d4))"

definition pit_ticks :: "ticks \<Rightarrow> u32" where
  "pit_ticks g_ticks = g_ticks"

definition pit_ms_since_boot :: "ticks \<Rightarrow> u32" where
  "pit_ms_since_boot g_ticks = g_ticks * MS_PER_TICK"

definition uptime_seconds :: "ticks \<Rightarrow> u32" where
  "uptime_seconds g_ticks = g_ticks div PIT_HZ"

text \<open>The waiting loop of \<open>sleep_ms\<close>: the number of halts so far is its own first argument.\<close>

partial_function (option) sleep_loop :: "(nat \<Rightarrow> nat) \<Rightarrow> nat \<Rightarrow> ticks \<Rightarrow> u32 \<Rightarrow> (nat \<times> ticks) option" where
  "sleep_loop irq n g_ticks stop =
     (if g_ticks < stop then sleep_loop irq (Suc n) (g_ticks + word_of_nat (irq n)) stop
      else Some (n, g_ticks))"

definition ticks_needed :: "u32 \<Rightarrow> u32" where
  "ticks_needed ms = (if ms div MS_PER_TICK = 0 then 1 else ms div MS_PER_TICK)"

definition sleep_ms :: "(nat \<Rightarrow> nat) \<Rightarrow> nat \<Rightarrow> u32 \<Rightarrow> ticks \<Rightarrow> (nat \<times> ticks) option" where
  "sleep_ms irq n ms g_ticks = sleep_loop irq n g_ticks (g_ticks + ticks_needed ms)"

definition speaker_off :: "'d device \<Rightarrow> 'd \<Rightarrow> 'd" where
  "speaker_off dv d = (let (v, d1) = inb dv PC_SPEAKER_CTL d in outb dv PC_SPEAKER_CTL (v AND NOT 3) d1)"

definition speaker_beep ::
  "'d device \<Rightarrow> (nat \<Rightarrow> nat) \<Rightarrow> nat \<Rightarrow> u32 \<Rightarrow> u32 \<Rightarrow> ticks \<times> 'd \<Rightarrow> (nat \<times> ticks \<times> 'd) option" where
  "speaker_beep dv irq n freq_hz duration_ms s =
     (if freq_hz = 0 \<or> freq_hz > 20000 then Some (n, fst s, speaker_off dv (snd s))
      else let divisor = PIT_BASE_FREQ div freq_hz;
               d1 = outb dv PIT_CMD 182 (snd s);
               d2 = outb dv PIT_CHANNEL2 (ucast (divisor AND 255)) d1;
               d3 = outb dv PIT_CHANNEL2 (ucast (drop_bit 8 divisor)) d2;
               (v, d4) = inb dv PC_SPEAKER_CTL d3;
               d5 = outb dv PC_SPEAKER_CTL (v OR 3) d4
      in map_option (\<lambda>(n1, t1). (n1, t1, speaker_off dv d5)) (sleep_ms irq n duration_ms (fst s)))"

section \<open>The waiting loop\<close>

text \<open>The timer interrupts that arrived before halt \<open>n + k\<close>, starting with halt \<open>n\<close>.\<close>

definition arrived :: "(nat \<Rightarrow> nat) \<Rightarrow> nat \<Rightarrow> nat \<Rightarrow> nat" where
  "arrived irq n k = sum irq {n..<n + k}"

lemma arrived_Suc: "arrived irq n (Suc k) = irq n + arrived irq (Suc n) k"
  by (simp add: arrived_def sum.atLeast_Suc_lessThan)

lemma sleep_loop_returns:
  assumes "unat t + need < 2 ^ 32" and "stop = t + word_of_nat need" and "\<forall>i. irq i \<le> 1"
    and "need \<le> arrived irq n k"
  shows "\<exists>h \<le> k. sleep_loop irq n t stop = Some (n + h, stop) \<and> arrived irq n h = need \<and>
    (\<forall>h' < h. arrived irq n h' < need)"
  using assms
proof (induction k arbitrary: n t need)
  case 0
  then show ?case by (simp add: arrived_def sleep_loop.simps)
next
  case (Suc k)
  have u: "unat stop = unat t + need"
  proof -
    have "unat (word_of_nat need :: u32) = need" using Suc.prems(1) by (simp add: unat_of_nat)
    then show ?thesis using Suc.prems(1,2) by (simp add: unat_word_ariths)
  qed
  show ?case
  proof (cases "need = 0")
    case True
    then show ?thesis using Suc.prems(2) by (intro exI [of _ 0]) (simp add: sleep_loop.simps arrived_def)
  next
    case False
    let ?t1 = "t + word_of_nat (irq n)" and ?need = "need - irq n"
    have le: "irq n \<le> need" using Suc.prems(3) [rule_format, of n] False by linarith
    have t1: "unat ?t1 = unat t + irq n"
    proof -
      have "unat (word_of_nat (irq n) :: u32) = irq n" using le Suc.prems(1) by (simp add: unat_of_nat)
      then show ?thesis using le Suc.prems(1) by (simp add: unat_word_ariths)
    qed
    have stop: "stop = ?t1 + word_of_nat ?need"
      using Suc.prems(2) le by (simp add: of_nat_diff)
    have "need \<le> irq n + arrived irq (Suc n) k" using Suc.prems(4) by (simp add: arrived_Suc)
    then have "\<exists>h \<le> k. sleep_loop irq (Suc n) ?t1 stop = Some (Suc n + h, stop) \<and>
        arrived irq (Suc n) h = ?need \<and> (\<forall>h' < h. arrived irq (Suc n) h' < ?need)"
      using Suc.prems(1,3) le t1 stop by (intro Suc.IH) auto
    then obtain h where h: "h \<le> k" "sleep_loop irq (Suc n) ?t1 stop = Some (Suc n + h, stop)"
      "arrived irq (Suc n) h = ?need" "\<forall>h' < h. arrived irq (Suc n) h' < ?need" by blast
    have "t < stop" using u False by (simp add: word_less_nat_alt)
    then have "sleep_loop irq n t stop = Some (n + Suc h, stop)" using h(2) by (subst sleep_loop.simps) simp
    moreover have "arrived irq n h' < need" if "h' < Suc h" for h'
      using that h(4) le False by (cases h') (auto simp: arrived_Suc arrived_def [of irq n 0])
    ultimately show ?thesis using h(1,3) le by (intro exI [of _ "Suc h"]) (simp add: arrived_Suc)
  qed
qed

text \<open>
  C26.  Sleeping: when the timer keeps ticking, at most one tick per halt, and the counter
  does not wrap during the sleep, \<open>sleep_ms\<close> returns at the halt in which the tick number
  \<open>max 1 (ms div 10)\<close> arrives, not earlier and not later.  When the sum wraps around, it
  returns at once without halting.
\<close>

theorem sleep_ms_correct:
  assumes "\<forall>i. irq i \<le> 1" and "unat (ticks_needed ms) \<le> arrived irq n k"
  shows "unat (ticks_needed ms) = max 1 (unat ms div 10) \<and>
    (unat t + unat (ticks_needed ms) < 2 ^ 32 \<longrightarrow>
      (\<exists>h \<le> k. sleep_ms irq n ms t = Some (n + h, t + ticks_needed ms) \<and>
        arrived irq n h = unat (ticks_needed ms) \<and> (\<forall>h' < h. arrived irq n h' < unat (ticks_needed ms)))) \<and>
    (unat t + unat (ticks_needed ms) \<ge> 2 ^ 32 \<longrightarrow> sleep_ms irq n ms t = Some (n, t))"
proof -
  have "unat (ms div 10) = unat ms div 10" by (simp add: unat_div_distrib)
  moreover have "unat (ms div 10) \<noteq> 0 \<longleftrightarrow> ms div 10 \<noteq> 0" by (simp add: unat_eq_zero)
  ultimately have need: "unat (ticks_needed ms) = max 1 (unat ms div 10)"
    by (auto simp: ticks_needed_def const_defs max_def)
  have "sleep_ms irq n ms t = Some (n, t)" if wrap: "unat t + unat (ticks_needed ms) \<ge> 2 ^ 32"
  proof -
    have "unat (t + ticks_needed ms) = (unat t + unat (ticks_needed ms)) mod 2 ^ 32"
      by (simp add: unat_word_ariths)
    also have "\<dots> = unat t + unat (ticks_needed ms) - 2 ^ 32"
    proof -
      have r: "unat t < 2 ^ 32" "unat (ticks_needed ms) < 2 ^ 32" by simp_all
      have lt: "unat t + unat (ticks_needed ms) - 2 ^ 32 < 2 ^ 32"
        using r by linarith
      show ?thesis unfolding le_mod_geq [OF wrap] by (rule mod_less [OF lt])
    qed
    finally have eq: "unat (t + ticks_needed ms) = unat t + unat (ticks_needed ms) - 2 ^ 32" .
    have "unat (ticks_needed ms) < 2 ^ 32" by simp
    then have "unat (t + ticks_needed ms) \<le> unat t" unfolding eq by linarith
    then have "\<not> t < t + ticks_needed ms" by (simp add: word_less_nat_alt not_less)
    then show ?thesis by (simp add: sleep_ms_def sleep_loop.simps)
  qed
  moreover have "\<exists>h \<le> k. sleep_ms irq n ms t = Some (n + h, t + ticks_needed ms) \<and>
        arrived irq n h = unat (ticks_needed ms) \<and> (\<forall>h' < h. arrived irq n h' < unat (ticks_needed ms))"
    if "unat t + unat (ticks_needed ms) < 2 ^ 32"
    unfolding sleep_ms_def by (rule sleep_loop_returns [OF that _ assms(1,2)]) simp
  ultimately show ?thesis using need by blast
qed

theorem sleep_ms_correct_witness:
  "sleep_ms (\<lambda>i. i mod 2) 0 25 7 = Some (4, 9) \<and> sleep_ms (\<lambda>_. 1) 0 25 4294967295 = Some (0, 4294967295)"
proof -
  have a: "arrived (\<lambda>i. i mod 2) 0 h = h div 2" for h
    by (induction h) (auto simp: arrived_def div_Suc mod_Suc)
  have le: "\<forall>i. i mod 2 \<le> Suc 0"
  proof
    fix i :: nat
    show "i mod 2 \<le> Suc 0" by (simp add: Suc_leI less_Suc_eq_le [symmetric])
  qed
  have need: "ticks_needed 25 = 2" by (simp add: ticks_needed_def const_defs)
  have "\<exists>h \<le> 4. sleep_ms (\<lambda>i. i mod 2) 0 25 7 = Some (0 + h, 7 + ticks_needed 25) \<and>
      arrived (\<lambda>i. i mod 2) 0 h = unat (ticks_needed 25) \<and> (\<forall>h' < h. arrived (\<lambda>i. i mod 2) 0 h' < unat (ticks_needed 25))"
    using sleep_ms_correct [of "\<lambda>i. i mod 2" 25 0 4 7] a need le by simp
  then obtain h where "h \<le> 4" "sleep_ms (\<lambda>i. i mod 2) 0 25 7 = Some (h, 9)" "h div 2 = 2" "\<forall>h' < h. h' div 2 < 2"
    using a need by auto
  moreover have "h = 4" using \<open>h \<le> 4\<close> \<open>h div 2 = 2\<close> by presburger
  moreover have "arrived (\<lambda>_. 1) 0 (2 :: nat) = 2" by (simp add: arrived_def)
  then have "sleep_ms (\<lambda>_. 1) 0 25 4294967295 = Some (0, 4294967295)"
    using sleep_ms_correct [of "\<lambda>_. 1" 25 0 2 4294967295] need by simp
  ultimately show ?thesis by simp
qed

end
