(* ===== verification/System_Commands.thy ===== *)
theory System_Commands
  imports File_Commands Calc Graphics Scheduler Pit
begin

text \<open>
  The shell commands about the running system, of \<^verbatim>\<open>src/src/commands\<close>:
  \<^verbatim>\<open>uname.c\<close>, \<^verbatim>\<open>whoami.c\<close>, \<^verbatim>\<open>kill.c\<close>, \<^verbatim>\<open>ps.c\<close>, \<^verbatim>\<open>top.c\<close>,
  \<^verbatim>\<open>kstats.c\<close>, \<^verbatim>\<open>dmesg.c\<close>, \<^verbatim>\<open>uptime.c\<close>, \<^verbatim>\<open>date.c\<close>,
  \<^verbatim>\<open>sleep_cmd.c\<close>, \<^verbatim>\<open>beep.c\<close>, \<^verbatim>\<open>reboot.c\<close> and
  \<^verbatim>\<open>shutdown.c\<close>.  They work on the kernel's state, the timer and the ports; \<open>hw\<close> holds the
  parameters that stand for the hardware.  \<open>None\<close> is a command that never returns, that faults
  or that leaves the behaviour C defines by writing past an array.
\<close>

section \<open>State\<close>

record 'd hw =
  hw_dev :: "'d wide_device"
  hw_tx :: uart
  hw_irq :: "nat \<Rightarrow> nat"

record 'd sys =
  sys_kernel :: kernel
  sys_gfx :: gfx
  sys_ticks :: ticks
  sys_halts :: nat
  sys_dev :: 'd

type_synonym 'd sys_cmd = "'d hw \<Rightarrow> 'd sys cmd"

definition cmd_uname :: "'s cmd" where
  "cmd_uname args s = Some (say [lit ''HeatOS 1.0 (32-bit Protected Mode)'' @ [10]] s)"

definition cmd_whoami :: "'s cmd" where
  "cmd_whoami args s = Some (say [lit ''root'' @ [10]] s)"

section \<open>Processes\<close>

text \<open>The loop of \<open>parse_pid\<close>.\<close>

fun pid_digits :: "u32 \<Rightarrow> bytes \<Rightarrow> u32 option" where
  "pid_digits v [] = Some v"
| "pid_digits v (c # cs) = (if c < 48 \<or> c > 57 then None else pid_digits (v * 10 + (ucast c - 48)) cs)"

definition parse_pid :: "bytes option \<Rightarrow> u32 option" where
  "parse_pid s =
     (case s of None \<Rightarrow> None
      | Some s0 \<Rightarrow> let p = skip_spaces s0 in if p = [] then None else pid_digits 0 p)"

definition cmd_kill :: "'d sys_cmd" where
  "cmd_kill hw args s =
     (case parse_pid args of
        None \<Rightarrow> Some (say [lit ''Usage: kill <pid>'' @ [10]] s)
      | Some pid \<Rightarrow>
          if pid = 0 then Some (say [lit ''kill: cannot kill kernel process'' @ [10]] s)
          else map_option
                 (\<lambda>(k, ok). say [if ok then lit ''OK'' @ [10] else lit ''kill: pid not found'' @ [10]]
                    ((fst s)\<lparr>sys_kernel := k\<rparr>, snd s))
                 (scheduler_kill (hw_tx hw) pid (sys_kernel (fst s))))"

definition state_name :: "u32 \<Rightarrow> bytes" where
  "state_name state = (if state = 1 then lit ''running'' else if state = 0 then lit ''stopped'' else lit ''unknown'')"

definition pid_pad :: "u32 \<Rightarrow> bytes" where
  "pid_pad pid = (if pid < 10 then lit ''    '' else if pid < 100 then lit ''   '' else lit ''  '')"

definition ps_line :: "scheduler_proc_info \<Rightarrow> bytes list" where
  "ps_line p =
     [itoa_text (pi_id p), pid_pad (pi_id p), state_name (pi_state p),
      if pi_state p = 1 then lit ''  '' else lit '' '', if pi_current p then lit ''*'' else lit ''-'', [10]]"

definition cmd_ps :: "'d sys_cmd" where
  "cmd_ps hw args s =
     Some (say ([lit ''PID  STATE    CURRENT'' @ [10]] @
       concat (map ps_line (scheduler_snapshot (sys_kernel (fst s)) False 32))) s)"

definition hms :: "u32 \<Rightarrow> bytes list" where
  "hms secs =
     [itoa_text (secs div 3600), lit ''h '', itoa_text ((secs mod 3600) div 60), lit ''m '',
      itoa_text (secs mod 60), lit ''s'']"

definition top_line :: "scheduler_proc_info \<Rightarrow> bytes list" where
  "top_line p =
     [itoa_text (pi_id p), pid_pad (pi_id p), state_name (pi_state p)] @
     (if pi_current p then [lit '' *''] else []) @ [[10]]"

definition cmd_top :: "'d sys_cmd" where
  "cmd_top hw args s =
     (let k = sys_kernel (fst s); m = kmm k; procs = scheduler_snapshot k False 32
      in Option.bind (kheap_used_bytes m) (\<lambda>used.
         Option.bind (kheap_free_bytes m) (\<lambda>free.
         Some (say ([lit ''HeatOS top'' @ [10], lit ''Uptime:  ''] @ hms (uptime_seconds (sys_ticks (fst s))) @
           [lit ''  (ticks: '', itoa_text (pit_ticks (sys_ticks (fst s))), lit '')'' @ [10],
            lit ''Heap:    '', itoa_text (used div 1024), lit '' KB used  /  '', itoa_text (free div 1024), lit '' KB free'' @ [10],
            lit ''Pages:   '', itoa_text (pmm_free_blocks_count m), lit '' free (4 KB each)'' @ [10],
            lit ''Procs:   '', itoa_text (word_of_nat (scheduler_process_count k)),
            lit ''  current PID: '', itoa_text (scheduler_current_pid k), [10, 10],
            lit ''PID  STATE'' @ [10]] @ concat (map top_line procs)) s))))"

section \<open>Kernel state\<close>

definition print_u32_line :: "bytes \<Rightarrow> u32 \<Rightarrow> bytes list" where
  "print_u32_line label v = [label, utoa_text v 10, [10]]"

definition cmd_kstats :: "'d sys_cmd" where
  "cmd_kstats hw args s =
     (let k = sys_kernel (fst s); m = kmm k; g = sys_gfx (fst s)
      in Option.bind (kheap_used_bytes m) (\<lambda>used.
         Option.bind (kheap_free_bytes m) (\<lambda>free.
         Some (say ([lit ''Kernel Stats'' @ [10], lit ''------------'' @ [10]] @
           print_u32_line (lit ''PMM pages total: '') (pmm_total_blocks m) @
           print_u32_line (lit ''PMM pages used:  '') (pmm_used_blocks_count m) @
           print_u32_line (lit ''PMM pages free:  '') (pmm_free_blocks_count m) @
           print_u32_line (lit ''Heap bytes used: '') used @
           print_u32_line (lit ''Heap bytes free: '') free @
           print_u32_line (lit ''Scheduler procs: '') (word_of_nat (scheduler_process_count k)) @
           print_u32_line (lit ''Scheduler ticks: '') (scheduler_tick_count k) @
           [lit ''Graphics backend: '', gfx_backend_name g, [10],
            lit ''Virtio display:  '', if gfx_virtio_present g then lit ''detected'' else lit ''not detected'', [10]] @
           print_u32_line (lit ''klog lines:      '') (klog_line_count (fst (klg k))) @
           print_u32_line (lit ''klog bytes:      '') (word_of_nat (klog_bytes_used (fst (klg k))))) s))))"

definition DMESG_PRINT_BUFFER :: nat where [const_defs]: "DMESG_PRINT_BUFFER = 4096"

definition cmd_dmesg :: "'d sys_cmd" where
  "cmd_dmesg hw args s =
     (let k = sys_kernel (fst s);
          clear_after = (case args of None \<Rightarrow> False | Some a \<Rightarrow> strcmp_l (skip_spaces a) (lit ''-c'') = 0);
          (n, dump) = klog_read (fst (klg k)) False (int DMESG_PRINT_BUFFER);
          shown = (if n \<le> 0 then [lit ''dmesg: log buffer is empty'' @ [10]]
                   else [cstr_of dump] @
                     (if klog_bytes_used (fst (klg k)) \<ge> DMESG_PRINT_BUFFER - 1
                      then [lit ''dmesg: output truncated, use a larger buffer in kernel build'' @ [10]] else []));
          s1 = say shown s
      in if clear_after
         then Some (say [lit ''dmesg: buffer cleared'' @ [10]]
                ((fst s1)\<lparr>sys_kernel := k\<lparr>klg := (klog_clear (fst (klg k)), snd (klg k))\<rparr>\<rparr>, snd s1))
         else Some s1)"

section \<open>Time\<close>

text \<open>
  \<open>cmd_uptime\<close> formats into an array of 8 bytes: the text of the milliseconds must be shorter,
  else \<open>itoa\<close> writes behind the array.
\<close>

definition cmd_uptime :: "'d sys_cmd" where
  "cmd_uptime hw args s =
     (let secs = uptime_seconds (sys_ticks (fst s)); ms = itoa_text (pit_ms_since_boot (sys_ticks (fst s)))
      in if length ms + 1 > 8 then None
         else Some (say ([lit ''Uptime: ''] @ hms secs @ [lit ''  ('', ms, lit '' ms since boot)'' @ [10]]) s))"

text \<open>The digits at the start of a text, and the text behind them.\<close>

definition leading_number :: "bytes \<Rightarrow> u32" where
  "leading_number p = foldl (\<lambda>v c. v * 10 + (ucast c - 48)) 0 (takeWhile is_digit p)"

definition cmd_sleep :: "'d sys_cmd" where
  "cmd_sleep hw args s =
     (if no_args args then Some (say [lit ''Usage: sleep <milliseconds>'' @ [10]] s)
      else let ms = leading_number (the args)
           in if ms = 0 then Some (say [lit ''sleep: invalid duration'' @ [10]] s)
              else map_option (\<lambda>(n, tk). ((fst s)\<lparr>sys_halts := n, sys_ticks := tk\<rparr>, snd s))
                     (sleep_ms (hw_irq hw) (sys_halts (fst s)) ms (sys_ticks (fst s))))"

definition beep_args :: "bytes option \<Rightarrow> u32 \<times> u32" where
  "beep_args args =
     (if no_args args then (440, 200)
      else let p = the args; v = leading_number p;
               q = skip_spaces (dropWhile is_digit p); w = leading_number q
           in (if v > 0 then v else 440, if w > 0 then w else 200))"

definition cmd_beep :: "'d sys_cmd" where
  "cmd_beep hw args s =
     map_option (\<lambda>(n, tk, d). ((fst s)\<lparr>sys_halts := n, sys_ticks := tk, sys_dev := d\<rparr>, snd s))
       (speaker_beep (device.truncate (hw_dev hw)) (hw_irq hw) (sys_halts (fst s)) (fst (beep_args args)) (snd (beep_args args))
          (sys_ticks (fst s), sys_dev (fst s)))"

definition cmos_read :: "'d wide_device \<Rightarrow> u8 \<Rightarrow> 'd \<Rightarrow> u8 \<times> 'd" where
  "cmos_read dv reg d = inb dv 113 (outb dv 112 reg d)"

definition bcd_to_bin :: "u8 \<Rightarrow> u8" where
  "bcd_to_bin v = drop_bit 4 v * 10 + (v AND 15)"

fun rtc_wait :: "'d wide_device \<Rightarrow> nat \<Rightarrow> 'd \<Rightarrow> bool \<times> 'd" where
  "rtc_wait dv n d =
     (if n = 0 then (False, d)
      else let (v, d1) = cmos_read dv 10 d in if v AND 128 = 0 then (True, d1) else rtc_wait dv (n - 1) d1)"

declare rtc_wait.simps [simp del]

definition rtc_wait_ready :: "'d wide_device \<Rightarrow> 'd \<Rightarrow> bool \<times> 'd" where
  "rtc_wait_ready dv d = rtc_wait dv 100000 d"

definition print2 :: "u8 \<Rightarrow> bytes" where
  "print2 v = [48 + v div 10, 48 + v mod 10]"

text \<open>The registers that \<open>cmd_date\<close> reads, in the order of the reads, and their conversion.\<close>

record rtc =
  r_sec :: u8
  r_min :: u8
  r_hour :: u8
  r_day :: u8
  r_month :: u8
  r_year :: u8
  r_b :: u8

definition rtc_read :: "'d wide_device \<Rightarrow> 'd \<Rightarrow> rtc \<times> 'd" where
  "rtc_read dv d0 =
     (let (sec, d1) = cmos_read dv 0 d0; (min, d2) = cmos_read dv 2 d1; (hour, d3) = cmos_read dv 4 d2;
          (day, d4) = cmos_read dv 7 d3; (month, d5) = cmos_read dv 8 d4; (year, d6) = cmos_read dv 9 d5;
          (reg_b, d7) = cmos_read dv 11 d6
      in (\<lparr>r_sec = sec, r_min = min, r_hour = hour, r_day = day, r_month = month, r_year = year, r_b = reg_b\<rparr>, d7))"

definition rtc_decode :: "rtc \<Rightarrow> rtc" where
  "rtc_decode r =
     (if r_b r AND 4 = 0
      then r\<lparr>r_sec := bcd_to_bin (r_sec r), r_min := bcd_to_bin (r_min r), r_hour := bcd_to_bin (r_hour r AND 127),
             r_day := bcd_to_bin (r_day r), r_month := bcd_to_bin (r_month r), r_year := bcd_to_bin (r_year r)\<rparr>
      else r)"

definition rtc_hour24 :: "rtc \<Rightarrow> u8" where
  "rtc_hour24 r =
     (if r_b r AND 2 = 0
      then let pm = r_hour r AND 128 \<noteq> 0; h = r_hour r AND 127;
               h1 = (if pm \<and> h < 12 then h + 12 else h)
           in if \<not> pm \<and> h1 = 12 then 0 else h1
      else r_hour r)"

definition cmd_date :: "'d sys_cmd" where
  "cmd_date hw args s =
     (let (ready, d1) = rtc_wait_ready (hw_dev hw) (sys_dev (fst s))
      in if \<not> ready then Some (say [lit ''date: RTC busy'' @ [10]] ((fst s)\<lparr>sys_dev := d1\<rparr>, snd s))
         else let (raw, d2) = rtc_read (hw_dev hw) d1; r = rtc_decode raw
              in Some (say [itoa_text (2000 + ucast (r_year r)), lit ''-'', print2 (r_month r), lit ''-'', print2 (r_day r),
                   lit '' '', print2 (rtc_hour24 r), lit '':'', print2 (r_min r), lit '':'', print2 (r_sec r), [10]]
                   ((fst s)\<lparr>sys_dev := d2\<rparr>, snd s)))"

section \<open>Restarting\<close>

text \<open>The writes to the reset port; the delay loop before them and the halt behind them change nothing.\<close>

definition cmd_reboot :: "'d sys_cmd" where
  "cmd_reboot hw args s =
     (let (m, t) = say [lit ''Rebooting...'' @ [10]] s
      in Some (m\<lparr>sys_dev := outb (hw_dev hw) 3321 6 (outb (hw_dev hw) 3321 2 (sys_dev m))\<rparr>, t))"

definition cmd_shutdown :: "'d sys_cmd" where
  "cmd_shutdown hw args s =
     (let (m, t) = say [lit ''Shutting down...'' @ [10]] s
      in Some (m\<lparr>sys_dev := outb (hw_dev hw) 3321 14 (outb (hw_dev hw) 3321 0 (sys_dev m))\<rparr>, t))"

definition cmd_calc_cmd :: "'s cmd" where
  "cmd_calc_cmd args s = (case cmd_calc args (snd s) of Value t \<Rightarrow> Some (fst s, t) | _ \<Rightarrow> None)"

section \<open>Output only\<close>

lemma quiet_system_commands:
  "quiet cmd_uname" "quiet cmd_whoami" "quiet (cmd_kill hw)" "quiet (cmd_ps hw)" "quiet (cmd_top hw)" "quiet (cmd_kstats hw)"
  "quiet (cmd_dmesg hw)" "quiet (cmd_uptime hw)" "quiet (cmd_sleep hw)" "quiet (cmd_beep hw)" "quiet (cmd_date hw)"
  "quiet (cmd_reboot hw)" "quiet (cmd_shutdown hw)" "quiet cmd_calc_cmd"
proof -
  show "quiet cmd_uname" "quiet cmd_whoami" "quiet (cmd_ps hw)"
    unfolding quiet_def by (simp_all add: cmd_uname_def cmd_whoami_def cmd_ps_def quiet_rules)
  show "quiet (cmd_kill hw)"
    by (rule quiet_I) (auto simp: cmd_kill_def quiet_rules split: option.splits if_splits)
  show "quiet (cmd_top hw)" "quiet (cmd_kstats hw)"
    unfolding quiet_def by (auto simp: cmd_top_def cmd_kstats_def Let_def bind_eq_Some_conv quiet_rules simp del: fold_append)
  show "quiet (cmd_dmesg hw)"
    by (rule quiet_I) (auto simp: cmd_dmesg_def Let_def quiet_rules case_prod_unfold split: if_splits)
  show "quiet (cmd_uptime hw)"
    by (rule quiet_I) (auto simp: cmd_uptime_def Let_def quiet_rules simp del: fold_append split: if_splits)
  show "quiet (cmd_sleep hw)"
    by (rule quiet_I) (auto simp: cmd_sleep_def Let_def quiet_rules split: if_splits)
  show "quiet (cmd_beep hw)" by (rule quiet_I) (auto simp: cmd_beep_def)
  show "quiet (cmd_date hw)"
    by (rule quiet_I) (auto simp: cmd_date_def Let_def quiet_rules case_prod_unfold split: if_splits)
  show "quiet (cmd_reboot hw)" "quiet (cmd_shutdown hw)"
    unfolding quiet_def by (auto simp: cmd_reboot_def cmd_shutdown_def quiet_rules)
  show "quiet cmd_calc_cmd"
    by (rule quiet_I) (auto simp: cmd_calc_cmd_def split: outcome.splits dest: cmd_calc_draws)
qed

section \<open>The clock\<close>

text \<open>
  How the clock chip stores a number in the two data modes, and an hour in the two hour modes:
  a twelve-hour value carries the mark of the afternoon in bit 7.
\<close>

definition rtc_num :: "bool \<Rightarrow> nat \<Rightarrow> u8" where
  "rtc_num binary v = word_of_nat (if binary then v else v div 10 * 16 + v mod 10)"

definition rtc_hour :: "bool \<Rightarrow> bool \<Rightarrow> nat \<Rightarrow> u8" where
  "rtc_hour binary h24 h =
     (if h24 then rtc_num binary h
      else rtc_num binary (if h mod 12 = 0 then 12 else h mod 12) OR (if h \<ge> 12 then 128 else 0))"

definition rtc_mode :: "bool \<Rightarrow> bool \<Rightarrow> u8" where
  "rtc_mode binary h24 = (if binary then 4 else 0) OR (if h24 then 2 else 0)"

lemma bcd_all: "list_all (\<lambda>v. bcd_to_bin (rtc_num False v) = word_of_nat v) [0..<100]"
  by code_simp

lemma bcd_roundtrip: "v < 100 \<Longrightarrow> bcd_to_bin (rtc_num False v) = word_of_nat v"
  using bcd_all by (simp add: list_all_iff)

lemma rtc_fields:
  "v < 100 \<Longrightarrow> (if binary then rtc_num binary v else bcd_to_bin (rtc_num binary v)) = word_of_nat v"
  by (cases binary) (simp_all add: bcd_roundtrip rtc_num_def [of True])

lemma rtc_hours_all:
  "list_all (\<lambda>h. list_all (\<lambda>(binary, h24).
     rtc_hour24 (rtc_decode \<lparr>r_sec = 0, r_min = 0, r_hour = rtc_hour binary h24 h, r_day = 0, r_month = 0, r_year = 0,
        r_b = rtc_mode binary h24\<rparr>) = word_of_nat (if \<not> binary \<and> \<not> h24 \<and> h \<ge> 12 then h - 12 else h))
     [(False, False), (False, True), (True, False), (True, True)]) [0..<24]"
  by code_simp

lemma rtc_hour_decoded:
  assumes "h < 24" and "r_hour r = rtc_hour binary h24 h" and "r_b r = rtc_mode binary h24"
  shows "rtc_hour24 (rtc_decode r) = word_of_nat (if \<not> binary \<and> \<not> h24 \<and> h \<ge> 12 then h - 12 else h)"
proof -
  let ?r = "\<lparr>r_sec = 0, r_min = 0, r_hour = rtc_hour binary h24 h, r_day = 0, r_month = 0, r_year = 0,
        r_b = rtc_mode binary h24\<rparr>"
  have "rtc_hour24 (rtc_decode r) = rtc_hour24 (rtc_decode ?r)"
    by (simp add: rtc_hour24_def rtc_decode_def assms Let_def)
  then show ?thesis using rtc_hours_all assms(1) by (cases binary; cases h24) (simp_all add: list_all_iff)
qed

definition two_digits :: "nat \<Rightarrow> bytes" where
  "two_digits v = [byte_of_nat (48 + v div 10), byte_of_nat (48 + v mod 10)]"

lemma print2_all: "list_all (\<lambda>v. print2 (word_of_nat v) = two_digits v) [0..<100]"
  by code_simp

lemma print2_two: "v < 100 \<Longrightarrow> print2 (word_of_nat v) = two_digits v"
  using print2_all by (simp add: list_all_iff)

text \<open>The registers of the chip for a date and time, given as numbers.\<close>

definition rtc_encode :: "bool \<Rightarrow> bool \<Rightarrow> nat \<times> nat \<times> nat \<Rightarrow> nat \<times> nat \<times> nat \<Rightarrow> rtc" where
  "rtc_encode binary h24 date time =
     (let (y, mo, d) = date; (h, mi, s) = time
      in \<lparr>r_sec = rtc_num binary s, r_min = rtc_num binary mi, r_hour = rtc_hour binary h24 h, r_day = rtc_num binary d,
          r_month = rtc_num binary mo, r_year = rtc_num binary y, r_b = rtc_mode binary h24\<rparr>)"

lemma rtc_decode_fields:
  "r_year (rtc_decode r) = (if r_b r AND 4 = 0 then bcd_to_bin (r_year r) else r_year r)"
  "r_month (rtc_decode r) = (if r_b r AND 4 = 0 then bcd_to_bin (r_month r) else r_month r)"
  "r_day (rtc_decode r) = (if r_b r AND 4 = 0 then bcd_to_bin (r_day r) else r_day r)"
  "r_min (rtc_decode r) = (if r_b r AND 4 = 0 then bcd_to_bin (r_min r) else r_min r)"
  "r_sec (rtc_decode r) = (if r_b r AND 4 = 0 then bcd_to_bin (r_sec r) else r_sec r)"
  by (simp_all add: rtc_decode_def)

lemma rtc_encode_fields:
  "r_year (rtc_encode b2 h24 (y, mo, d) (h, mi, s)) = rtc_num b2 y" "r_month (rtc_encode b2 h24 (y, mo, d) (h, mi, s)) = rtc_num b2 mo"
  "r_day (rtc_encode b2 h24 (y, mo, d) (h, mi, s)) = rtc_num b2 d" "r_min (rtc_encode b2 h24 (y, mo, d) (h, mi, s)) = rtc_num b2 mi"
  "r_sec (rtc_encode b2 h24 (y, mo, d) (h, mi, s)) = rtc_num b2 s"
  "r_hour (rtc_encode b2 h24 (y, mo, d) (h, mi, s)) = rtc_hour b2 h24 h"
  "r_b (rtc_encode b2 h24 (y, mo, d) (h, mi, s)) = rtc_mode b2 h24"
  "rtc_mode b2 h24 AND 4 = 0 \<longleftrightarrow> \<not> b2"
  by (simp_all add: rtc_encode_def rtc_mode_def)

lemma rtc_field_read: "v < 100 \<Longrightarrow> (if \<not> b2 then bcd_to_bin (rtc_num b2 v) else rtc_num b2 v) = word_of_nat v"
  using rtc_fields [of v b2] by (simp split: if_splits)

text \<open>
  \<open>date\<close> prints the date and time of the clock chip in each of its data and hour modes,
  but one: with decimal data and twelve-hour times the mark of the afternoon is removed before
  it is tested, and every afternoon hour is printed twelve hours too early.
\<close>

lemma date_correct:
  assumes ready: "rtc_wait_ready (hw_dev hw) (sys_dev m) = (True, d1)"
    and regs: "rtc_read (hw_dev hw) d1 = (rtc_encode binary h24 (y, mo, d) (h, mi, s), d2)"
    and b: "y < 100" "mo < 100" "d < 100" "h < 24" "mi < 100" "s < 100"
  shows "cmd_date hw args (m, t) = Some (m\<lparr>sys_dev := d2\<rparr>, fold term_puts
     [itoa_text (word_of_nat (2000 + y)), lit ''-'', two_digits mo, lit ''-'', two_digits d, lit '' '',
      two_digits (if \<not> binary \<and> \<not> h24 \<and> h \<ge> 12 then h - 12 else h), lit '':'', two_digits mi, lit '':'', two_digits s, [10]] t)"
proof -
  let ?r = "rtc_encode binary h24 (y, mo, d) (h, mi, s)"
  have "r_year (rtc_decode ?r) = word_of_nat y" "r_month (rtc_decode ?r) = word_of_nat mo" "r_day (rtc_decode ?r) = word_of_nat d"
      "r_min (rtc_decode ?r) = word_of_nat mi" "r_sec (rtc_decode ?r) = word_of_nat s"
    unfolding rtc_decode_fields rtc_encode_fields by (rule rtc_field_read, fact b)+
  moreover have hour: "rtc_hour24 (rtc_decode ?r) = word_of_nat (if \<not> binary \<and> \<not> h24 \<and> h \<ge> 12 then h - 12 else h)"
    by (rule rtc_hour_decoded [OF b(4)]) (simp_all add: rtc_encode_fields)
  have "print2 (rtc_hour24 (rtc_decode ?r)) = two_digits (if \<not> binary \<and> \<not> h24 \<and> h \<ge> 12 then h - 12 else h)"
    unfolding hour by (rule print2_two) (use b(4) in auto)
  moreover note this
  moreover have "ucast (word_of_nat y :: u8) = (word_of_nat y :: u32)"
    using b(1) by (simp add: word_unat_eq_iff unat_of_nat unsigned_ucast_eq take_bit_nat_eq_self)
  ultimately show ?thesis using ready regs b by (simp add: cmd_date_def say_pair print2_two del: of_nat_diff)
qed

text \<open>A clock chip: the index register and the registers that are read.\<close>

definition chip :: "(nat \<Rightarrow> u8) \<Rightarrow> u8 wide_device" where
  "chip reg = \<lparr>dev_in = (\<lambda>p d. (reg (unat d), d)), dev_out = (\<lambda>p v d. v), dev_inw = (\<lambda>p d. (0, d)),
     dev_outw = (\<lambda>p v d. d), dev_inl = (\<lambda>p d. (0, d)), dev_outl = (\<lambda>p v d. d)\<rparr>"

theorem date_correct_witness:
  "\<exists>hw :: u8 hw. \<forall>m t. \<exists>d. cmd_date hw None (m, t) = Some (m\<lparr>sys_dev := d\<rparr>, fold term_puts
     [itoa_text (word_of_nat (2000 + 24)), lit ''-'', two_digits 2, lit ''-'', two_digits 29, lit '' '',
      two_digits 1, lit '':'', two_digits 45, lit '':'', two_digits 7, [10]] t)"
proof -
  let ?reg = "\<lambda>i :: nat. if i = 0 then 7 else if i = 2 then 69 else if i = 4 then 129 else if i = 7 then 41
     else if i = 8 then 2 else if i = 9 then 36 else 0 :: u8"
  let ?hw = "\<lparr>hw_dev = chip ?reg, hw_tx = (\<lambda>_. True), hw_irq = (\<lambda>_. 1)\<rparr>"
  have r: "rtc_wait_ready (chip ?reg) d = (True, 10)" for d
    by (simp add: rtc_wait_ready_def rtc_wait.simps [of _ 100000] cmos_read_def inb_def outb_def chip_def)
  have e: "rtc_read (chip ?reg) 10 = (rtc_encode False False (24, 2, 29) (13, 45, 7), 11)"
    by (simp add: rtc_read_def cmos_read_def inb_def outb_def chip_def rtc_encode_def rtc_num_def rtc_hour_def rtc_mode_def)
  have "cmd_date ?hw None (m, t) = Some (m\<lparr>sys_dev := 11\<rparr>, fold term_puts
     [itoa_text (word_of_nat (2000 + 24)), lit ''-'', two_digits 2, lit ''-'', two_digits 29, lit '' '',
      two_digits 1, lit '':'', two_digits 45, lit '':'', two_digits 7, [10]] t)" for m :: "u8 sys" and t
    using date_correct [of ?hw m 10 False False 24 2 29 13 45 7 11 None t] r e by simp
  then show ?thesis by blast
qed

section \<open>The time since boot\<close>

lemma num_of_bound: "\<forall>c\<in>set s. digit_val c < 10 \<Longrightarrow> num_of 10 s < 10 ^ length s"
proof (induction s rule: rev_induct)
  case Nil
  then show ?case by (simp add: num_of_def)
next
  case (snoc c s)
  then show ?case by (simp add: num_of_def)
qed

lemma itoa_text_pos: "0 \<le> sint v \<Longrightarrow> itoa_text v = utoa_text v 10"
  by (simp add: itoa_text_def utoa_text_def itoa_str_def utoa_str_def Let_def)

lemma itoa_text_length:
  assumes "unat v < 2147483648"
  shows "length (itoa_text v) \<le> 7 \<longleftrightarrow> unat v < 10000000"
proof -
  have "uint v = int (unat v)" by (rule uint_nat)
  then have "uint v < 2147483648" using assms by linarith
  then have "0 \<le> sint v" by (simp add: sint_u32)
  then have i: "itoa_text v = utoa_text v 10" by (rule itoa_text_pos)
  show ?thesis
  proof
    assume l: "length (itoa_text v) \<le> 7"
    have "\<forall>c\<in>set (utoa_text v 10). digit_val c < 10" using utoa_text_eq(4) [of 10 v] by auto
    then have "unat v < 10 ^ length (utoa_text v 10)" using num_of_bound utoa_text_eq(2) [of 10 v] by fastforce
    also have "\<dots> \<le> 10 ^ 7" using l i by (intro power_increasing) auto
    finally show "unat v < 10000000" by simp
  next
    assume "unat v < 10000000"
    then have "unat v < 10 ^ Suc 6" by simp
    from utoa_str_returns [of 10, OF _ _ this] show "length (itoa_text v) \<le> 7" unfolding i by (auto simp: utoa_text_def)
  qed
qed

text \<open>
  \<open>uptime\<close> stays within its 8-byte array, and prints hours, minutes, seconds and
  milliseconds, exactly as long as less than 10,000,000 milliseconds have passed since boot;
  from then on, after two hours and 47 minutes, \<open>itoa\<close> writes behind the array.
\<close>

lemma uptime_bounds:
  assumes "unat (sys_ticks m) < 214748364"
  shows "(cmd_uptime hw args (m, t) = None \<longleftrightarrow> 1000000 \<le> unat (sys_ticks m)) \<and>
     (unat (sys_ticks m) < 1000000 \<longrightarrow> cmd_uptime hw args (m, t) = Some (m, fold term_puts
        ([lit ''Uptime: ''] @ hms (sys_ticks m div 100) @
         [lit ''  ('', itoa_text (word_of_nat (unat (sys_ticks m) * 10)), lit '' ms since boot)'' @ [10]]) t))"
proof -
  have ms: "pit_ms_since_boot (sys_ticks m) = word_of_nat (unat (sys_ticks m) * 10)"
    by (simp add: pit_ms_since_boot_def MS_PER_TICK_def)
  have "unat (word_of_nat (unat (sys_ticks m) * 10) :: u32) = unat (sys_ticks m) * 10"
    unfolding unat_of_nat using assms by (simp add: take_bit_nat_eq_self_iff)
  then have "length (itoa_text (pit_ms_since_boot (sys_ticks m))) \<le> 7 \<longleftrightarrow> unat (sys_ticks m) < 1000000"
    using itoa_text_length [of "pit_ms_since_boot (sys_ticks m)"] assms by (simp add: ms)
  then show ?thesis
    by (auto simp: cmd_uptime_def Let_def say_pair uptime_seconds_def PIT_HZ_def ms simp del: fold_append)
qed

theorem uptime_bounds_witness:
  "\<forall>(hw :: unit hw) m t. cmd_uptime hw None (m\<lparr>sys_ticks := 1000000\<rparr>, t) = None"
proof (intro allI)
  fix hw :: "unit hw" and m :: "unit sys" and t
  show "cmd_uptime hw None (m\<lparr>sys_ticks := 1000000\<rparr>, t) = None"
    using uptime_bounds [of "m\<lparr>sys_ticks := 1000000\<rparr>" hw None t] by simp
qed

end
