(* ===== verification/App_Screen.thy ===== *)
theory App_Screen
  imports Terminal
begin

text \<open>
  What the full-screen programs share: the colours of \<^verbatim>\<open>src/src/include/vga.h\<close>, the keys
  they read and the fact that their drawing stays on the screen.  The keyboard is the list of
  the values that the calls of \<open>keyboard_poll\<close> return, in order, 0 for no key; a program that
  has used up the list and still runs has the result \<open>None\<close>.  Busy-wait loops have no effect on
  the state and are left out.
\<close>

section \<open>Colours\<close>

definition THEME_TOPBAR :: u8 where "THEME_TOPBAR = VGA_ATTR 15 8"
definition THEME_TITLE :: u8 where "THEME_TITLE = VGA_ATTR 14 1"
definition THEME_MENU_BG :: u8 where "THEME_MENU_BG = VGA_ATTR 15 8"
definition THEME_APP_BG :: u8 where "THEME_APP_BG = VGA_ATTR 15 1"
definition THEME_BORDER :: u8 where "THEME_BORDER = VGA_ATTR 7 1"

section \<open>Keys\<close>

type_synonym polls = "nat list"

text \<open>\<open>keyboard_wait\<close>: the polls up to the first key.\<close>

fun wait_key :: "polls \<Rightarrow> (nat \<times> polls) option" where
  "wait_key [] = None"
| "wait_key (k # ks) = (if k = 0 then wait_key ks else Some (k, ks))"

text \<open>\<open>while ((k = keyboard_poll()) != 0) pending = k;\<close>: the last key before the first empty poll.\<close>

fun last_key :: "nat \<Rightarrow> polls \<Rightarrow> (nat \<times> polls) option" where
  "last_key pending [] = None"
| "last_key pending (k # ks) = (if k = 0 then Some (pending, ks) else last_key k ks)"

lemma wait_key_less: "wait_key ks = Some (k, ks') \<Longrightarrow> length ks' < length ks \<and> k \<noteq> 0"
  by (induction ks) (auto split: if_splits)

lemma last_key_less: "last_key p ks = Some (k, ks') \<Longrightarrow> length ks' < length ks"
  by (induction p ks rule: last_key.induct) (auto split: if_splits)

section \<open>Drawing\<close>

text \<open>The frame buffer beyond the screen's 2000 cells, and the cursor registers, stay as they are.\<close>

definition paints :: "vga \<Rightarrow> vga \<Rightarrow> bool" where
  "paints v v' \<longleftrightarrow> (\<forall>i. i < 0 \<or> 2000 \<le> i \<longrightarrow> cells v' i = cells v i) \<and> crtc v' = crtc v"

named_theorems paint_rules \<open>the drawing calls stay on the screen\<close>

lemma paints_refl [simp, paint_rules]: "paints v v"
  by (simp add: paints_def)

lemma paints_if [paint_rules]: "(b \<Longrightarrow> paints u v) \<Longrightarrow> (\<not> b \<Longrightarrow> paints u w) \<Longrightarrow> paints u (if b then v else w)"
  by simp

lemma paints_trans: "paints u v \<Longrightarrow> paints v w \<Longrightarrow> paints u w"
  by (simp add: paints_def)

lemma crtc_vga_putchar_at: "crtc (vga_putchar_at row col c attr v) = crtc v"
  by (simp add: vga_putchar_at_def)

lemma paints_putchar [paint_rules]: "paints u v \<Longrightarrow> paints u (vga_putchar_at row col c attr v)"
  by (erule paints_trans) (simp_all add: paints_def vga_putchar_at_off_screen crtc_vga_putchar_at)

lemma crtc_vga_write_at: "crtc (vga_write_at row col s attr v) = crtc v"
  by (induction row col s attr v rule: vga_write_at.induct) (auto simp: crtc_vga_putchar_at)

lemma paints_write_at [paint_rules]: "paints u v \<Longrightarrow> paints u (vga_write_at row col s attr v)"
  by (erule paints_trans) (auto simp: paints_def vga_write_at_off_screen crtc_vga_write_at)

lemma paints_fold: "(\<And>x w. x \<in> set xs \<Longrightarrow> paints w (f x w)) \<Longrightarrow> paints u v \<Longrightarrow> paints u (fold f xs v)"
proof (induction xs arbitrary: v)
  case (Cons x xs)
  have "paints u (f x v)" using Cons.prems by (auto intro: paints_trans)
  with Cons show ?case by simp
qed simp

lemma paints_put_cell: "0 \<le> i \<Longrightarrow> i < 2000 \<Longrightarrow> paints v (put_cell i e v)"
  by (auto simp: paints_def)

lemma paints_clear [paint_rules]: "paints u v \<Longrightarrow> paints u (vga_clear attr v)"
  unfolding vga_clear_def by (rule paints_fold) (auto intro: paints_put_cell simp: const_defs)

lemma paints_fill_rect:
  assumes "0 \<le> row" and "0 \<le> col"
  shows "paints u v \<Longrightarrow> paints u (vga_fill_rect row col h w c attr v)"
  unfolding vga_fill_rect_def
  by (intro paints_fold paints_put_cell) (use assms in \<open>auto simp: const_defs\<close>)

lemma paints_fill_row [paint_rules]: "0 \<le> row \<Longrightarrow> paints u v \<Longrightarrow> paints u (vga_fill_row row c attr v)"
  unfolding vga_fill_row_def by (rule paints_fill_rect) auto

lemma draws_paints: "paints (scr t) v \<Longrightarrow> draws t (t\<lparr>scr := v\<rparr>)"
  by (auto simp: draws_def paints_def same_outside_def on_screen_def editor_part_def)

lemma draws_app:
  assumes "paints (scr t) v"
  shows "draws t (term_reset_screen (t\<lparr>scr := v\<rparr>))"
  by (rule draws_trans [OF draws_paints [OF assms] draws_term_reset_screen])

end
