(* ===== verification/Pong.thy ===== *)
theory Pong
  imports App_Screen "HOL-Library.Signed_Division"
begin

text \<open>
  The Pong game, \<^verbatim>\<open>src/src/commands/pong.c\<close>.  A round of the inner loop is split into the
  keys, the computer's paddle, the ball and the drawing, in the order of the code.
\<close>

section \<open>State\<close>

definition PONG_LEFT :: int where [const_defs]: "PONG_LEFT = 6"
definition PONG_TOP :: int where [const_defs]: "PONG_TOP = 2"
definition PONG_WIDTH :: int where [const_defs]: "PONG_WIDTH = 68"
definition PONG_HEIGHT :: int where [const_defs]: "PONG_HEIGHT = 20"
definition PONG_PADDLE_H :: int where [const_defs]: "PONG_PADDLE_H = 4"
definition PONG_WIN_SCORE :: int where [const_defs]: "PONG_WIN_SCORE = 7"
definition PONG_SPEEDUP_TICKS :: int where [const_defs]: "PONG_SPEEDUP_TICKS = 220"
definition PONG_MAX_SPEED_STAGE :: int where [const_defs]: "PONG_MAX_SPEED_STAGE = 20"
definition PONG_BASE_MOVE_STRIDE :: int where [const_defs]: "PONG_BASE_MOVE_STRIDE = 6"
definition PONG_MIN_MOVE_STRIDE :: int where [const_defs]: "PONG_MIN_MOVE_STRIDE = 2"

record pong =
  player_y :: int
  ai_y :: int
  ball_x :: int
  ball_y :: int
  ball_dx :: int
  ball_dy :: int
  rally_ticks :: int
  player_score :: int
  ai_score :: int

definition pong_clamp_paddle :: "int \<Rightarrow> int" where
  "pong_clamp_paddle y =
     (if y < 0 then 0 else if y > PONG_HEIGHT - PONG_PADDLE_H then PONG_HEIGHT - PONG_PADDLE_H else y)"

section \<open>Drawing\<close>

definition pong_draw_scene :: "int \<Rightarrow> int \<Rightarrow> int \<Rightarrow> int \<Rightarrow> int \<Rightarrow> int \<Rightarrow> vga \<Rightarrow> vga" where
  "pong_draw_scene py ay bx0 by0 ps cs v0 =
     (let v1 = vga_clear (VGA_ATTR 15 0) v0;
          v2 = vga_write_at 0 2 (lit ''PONG  (W/S or Arrows)  Esc=Quit'') (VGA_ATTR 11 0) v1;
          v3 = vga_write_at 0 44 (lit ''You:'') (VGA_ATTR 15 0) v2;
          v4 = vga_write_at 0 49 (itoa_text (word_of_int ps)) (VGA_ATTR 10 0) v3;
          v5 = vga_write_at 0 55 (lit ''CPU:'') (VGA_ATTR 15 0) v4;
          v6 = vga_write_at 0 60 (itoa_text (word_of_int cs)) (VGA_ATTR 12 0) v5;
          v7 = fold (\<lambda>x v. vga_putchar_at (PONG_TOP + PONG_HEIGHT) (PONG_LEFT - 1 + x) 61 (VGA_ATTR 7 0)
                             (vga_putchar_at (PONG_TOP - 1) (PONG_LEFT - 1 + x) 61 (VGA_ATTR 7 0) v))
                 [0..PONG_WIDTH + 1] v6;
          v8 = fold (\<lambda>y v.
                 let w = vga_putchar_at (PONG_TOP + y) (PONG_LEFT + PONG_WIDTH) 124 (VGA_ATTR 7 0)
                           (vga_putchar_at (PONG_TOP + y) (PONG_LEFT - 1) 124 (VGA_ATTR 7 0) v)
                 in if y mod 2 = 0
                    then vga_putchar_at (PONG_TOP + y) (PONG_LEFT + PONG_WIDTH div 2) 58 (VGA_ATTR 8 0) w else w)
                 [0..PONG_HEIGHT - 1] v7;
          v9 = fold (\<lambda>i v. vga_putchar_at (PONG_TOP + ay + i) (PONG_LEFT + (PONG_WIDTH - 3)) 35 (VGA_ATTR 12 0)
                             (vga_putchar_at (PONG_TOP + py + i) (PONG_LEFT + 2) 35 (VGA_ATTR 10 0) v))
                 [0..PONG_PADDLE_H - 1] v8
      in vga_putchar_at (PONG_TOP + by0) (PONG_LEFT + bx0) 79 (VGA_ATTR 14 0) v9)"

definition pong_wait_serve :: "int \<Rightarrow> int \<Rightarrow> vga \<Rightarrow> vga" where
  "pong_wait_serve ps cs v =
     vga_write_at (PONG_TOP + PONG_HEIGHT div 2) (PONG_LEFT + PONG_WIDTH div 2 - 12)
       (lit ''Next serve in 1 second...'') (VGA_ATTR 7 0)
       (pong_draw_scene (PONG_HEIGHT div 2 - 1) (PONG_HEIGHT div 2 - 1) (PONG_WIDTH div 2) (PONG_HEIGHT div 2) ps cs v)"

section \<open>The game\<close>

definition pong_serve :: "int \<Rightarrow> int \<Rightarrow> pong" where
  "pong_serve ps cs =
     \<lparr>player_y = PONG_HEIGHT div 2 - PONG_PADDLE_H div 2, ai_y = PONG_HEIGHT div 2 - PONG_PADDLE_H div 2,
      ball_x = PONG_WIDTH div 2, ball_y = PONG_HEIGHT div 2,
      ball_dx = (if (ps + cs) AND 1 \<noteq> 0 then 1 else -1), ball_dy = (if (ps + cs) AND 2 \<noteq> 0 then 1 else -1),
      rally_ticks = 0, player_score = ps, ai_score = cs\<rparr>"

text \<open>The keys of one round: the paddle after them, or no paddle when the game was left.\<close>

fun pong_keys :: "int \<Rightarrow> polls \<Rightarrow> (int option \<times> polls) option" where
  "pong_keys y [] = None"
| "pong_keys y (k # ks) =
     (if k = 0 then Some (Some y, ks)
      else if k = KEY_ESCAPE then Some (None, ks)
      else pong_keys (y - (if k = KEY_UP \<or> k = 119 \<or> k = 87 then 1 else 0)
                        + (if k = KEY_DOWN \<or> k = 115 \<or> k = 83 then 1 else 0)) ks)"

definition pong_ai :: "pong \<Rightarrow> pong" where
  "pong_ai p =
     p\<lparr>ai_y := pong_clamp_paddle
        (if ball_y p < ai_y p + PONG_PADDLE_H div 2 then ai_y p - 1
         else if ball_y p > ai_y p + PONG_PADDLE_H div 2 then ai_y p + 1 else ai_y p)\<rparr>"

text \<open>The stride between two moves of the ball; the counter is a 32-bit \<^verbatim>\<open>int\<close>.\<close>

definition speed_stage :: "int \<Rightarrow> int" where
  "speed_stage ticks = (let s = ticks sdiv PONG_SPEEDUP_TICKS in if s > PONG_MAX_SPEED_STAGE then PONG_MAX_SPEED_STAGE else s)"

definition move_stride :: "int \<Rightarrow> int" where
  "move_stride ticks =
     (let m = PONG_BASE_MOVE_STRIDE - speed_stage ticks sdiv 4
      in if m < PONG_MIN_MOVE_STRIDE then PONG_MIN_MOVE_STRIDE else m)"

definition tick_count :: "pong \<Rightarrow> pong" where
  "tick_count p = p\<lparr>rally_ticks := sint (word_of_int (rally_ticks p + 1) :: u32)\<rparr>"

definition ball_walls :: "pong \<Rightarrow> pong" where
  "ball_walls p =
     (let p1 = (if ball_y p \<le> 0 then p\<lparr>ball_y := 0, ball_dy := 1\<rparr> else p)
      in if ball_y p1 \<ge> PONG_HEIGHT - 1 then p1\<lparr>ball_y := PONG_HEIGHT - 1, ball_dy := -1\<rparr> else p1)"

definition hits :: "int \<Rightarrow> pong \<Rightarrow> bool" where
  "hits y p \<longleftrightarrow> ball_y p \<ge> y \<and> ball_y p < y + PONG_PADDLE_H"

definition bounce_dy :: "int \<Rightarrow> pong \<Rightarrow> int" where
  "bounce_dy y p = (if ball_y p < y + PONG_PADDLE_H div 2 then -1 else 1)"

definition ball_paddles :: "pong \<Rightarrow> pong" where
  "ball_paddles p =
     (let p1 = (if ball_dx p < 0 \<and> ball_x p = 2 + 1 \<and> hits (player_y p) p
                then p\<lparr>ball_dx := 1, ball_dy := bounce_dy (player_y p) p\<rparr> else p)
      in if ball_dx p1 > 0 \<and> ball_x p1 = PONG_WIDTH - 3 - 1 \<and> hits (ai_y p1) p1
         then p1\<lparr>ball_dx := -1, ball_dy := bounce_dy (ai_y p1) p1\<rparr> else p1)"

text \<open>The ball's move; the flag says that the rally is over.\<close>

definition ball_move :: "pong \<Rightarrow> bool \<times> pong" where
  "ball_move p =
     (let p1 = ball_paddles (ball_walls (p\<lparr>ball_x := ball_x p + ball_dx p, ball_y := ball_y p + ball_dy p\<rparr>))
      in if ball_x p1 < 0 then (True, p1\<lparr>ai_score := ai_score p1 + 1\<rparr>)
         else if ball_x p1 \<ge> PONG_WIDTH then (True, p1\<lparr>player_score := player_score p1 + 1\<rparr>)
         else (False, p1))"

definition pong_tick :: "pong \<Rightarrow> bool \<times> pong" where
  "pong_tick p =
     (let p1 = tick_count (pong_ai (p\<lparr>player_y := pong_clamp_paddle (player_y p)\<rparr>))
      in if rally_ticks p1 smod move_stride (rally_ticks p1) = 0 then ball_move p1 else (False, p1))"

definition pong_show :: "pong \<Rightarrow> vga \<Rightarrow> vga" where
  "pong_show p v = pong_draw_scene (player_y p) (ai_y p) (ball_x p) (ball_y p) (player_score p) (ai_score p) v"

lemma pong_keys_less: "pong_keys y ks = Some (r, ks') \<Longrightarrow> length ks' < length ks"
  by (induction y ks rule: pong_keys.induct) (auto split: if_splits)

text \<open>A rally: the state at its end, or no state when the game was left.\<close>

function pong_rally :: "pong \<Rightarrow> vga \<Rightarrow> polls \<Rightarrow> (pong option \<times> vga \<times> polls) option" where
  "pong_rally p v ks =
     (case pong_keys (player_y p) ks of
        None \<Rightarrow> None
      | Some (None, ks1) \<Rightarrow> Some (None, v, ks1)
      | Some (Some y, ks1) \<Rightarrow>
          (let (over, p1) = pong_tick (p\<lparr>player_y := y\<rparr>)
           in if over then Some (Some p1, v, ks1) else pong_rally p1 (pong_show p1 v) ks1))"
  by pat_completeness auto
termination
  by (relation "measure (\<lambda>(p, v, ks). length ks)") (auto dest: pong_keys_less)

declare pong_rally.simps [simp del]

text \<open>The wait after a finished game: play again or leave.\<close>

fun pong_again :: "polls \<Rightarrow> (bool \<times> polls) option" where
  "pong_again [] = None"
| "pong_again (k # ks) =
     (if k = KEY_ESCAPE then Some (False, ks) else if k = KEY_ENTER then Some (True, ks) else pong_again ks)"

definition pong_final :: "int \<Rightarrow> int \<Rightarrow> vga \<Rightarrow> vga" where
  "pong_final ps cs v0 =
     (let y = PONG_HEIGHT div 2 - PONG_PADDLE_H div 2;
          v1 = pong_draw_scene y y (PONG_WIDTH div 2) (PONG_HEIGHT div 2) ps cs v0;
          v2 = (if ps > cs
                then vga_write_at (PONG_TOP + PONG_HEIGHT div 2 - 1) (PONG_LEFT + PONG_WIDTH div 2 - 6)
                       (lit ''YOU WIN!'') (VGA_ATTR 15 2) v1
                else vga_write_at (PONG_TOP + PONG_HEIGHT div 2 - 1) (PONG_LEFT + PONG_WIDTH div 2 - 7)
                       (lit ''CPU WINS!'') (VGA_ATTR 15 4) v1)
      in vga_write_at (PONG_TOP + PONG_HEIGHT div 2 + 1) (PONG_LEFT + PONG_WIDTH div 2 - 16)
           (lit ''Enter=Play Again  Esc=Quit'') (VGA_ATTR 7 0) v2)"

lemma pong_rally_less: "pong_rally p v ks = Some (r, v', ks') \<Longrightarrow> length ks' < length ks"
proof (induction p v ks rule: pong_rally.induct)
  case (1 p v ks)
  obtain y ks1 where k: "pong_keys (player_y p) ks = Some (y, ks1)"
    using "1.prems" by (auto simp: pong_rally.simps [of p v ks] split: option.splits)
  note less = pong_keys_less [OF k]
  show ?case
  proof (cases y)
    case (Some z)
    show ?thesis
      using "1.prems" "1.IH" [OF k _ Some] less Some k
      by (fastforce simp: pong_rally.simps [of p v ks] split: prod.splits if_splits)
  qed (use "1.prems" less k in \<open>auto simp: pong_rally.simps [of p v ks]\<close>)
qed

lemma pong_again_less: "pong_again ks = Some (b, ks') \<Longrightarrow> length ks' < length ks"
  by (induction ks) (auto split: if_splits)

function pong_game :: "int \<Rightarrow> int \<Rightarrow> vga \<Rightarrow> polls \<Rightarrow> (vga \<times> polls) option" where
  "pong_game ps cs v ks =
     (case pong_rally (pong_serve ps cs) (pong_wait_serve ps cs v) ks of
        None \<Rightarrow> None
      | Some (None, v1, ks1) \<Rightarrow> Some (v1, ks1)
      | Some (Some p, v1, ks1) \<Rightarrow>
          if player_score p \<ge> PONG_WIN_SCORE \<or> ai_score p \<ge> PONG_WIN_SCORE then
            (case pong_again ks1 of
               None \<Rightarrow> None
             | Some (False, ks2) \<Rightarrow> Some (pong_final (player_score p) (ai_score p) v1, ks2)
             | Some (True, ks2) \<Rightarrow> pong_game 0 0 (pong_final (player_score p) (ai_score p) v1) ks2)
          else pong_game (player_score p) (ai_score p) v1 ks1)"
  by pat_completeness auto
termination
  by (relation "measure (\<lambda>(ps, cs, v, ks). length ks)") (auto dest!: pong_rally_less pong_again_less)

declare pong_game.simps [simp del]

definition cmd_pong :: "bytes option \<Rightarrow> polls \<times> terminal \<Rightarrow> (polls \<times> terminal) option" where
  "cmd_pong args s =
     map_option (\<lambda>(v, ks). (ks, term_reset_screen ((snd s)\<lparr>scr := v\<rparr>))) (pong_game 0 0 (scr (snd s)) (fst s))"

section \<open>What a round keeps\<close>

lemmas pong_defs = pong_tick_def ball_move_def ball_paddles_def ball_walls_def pong_ai_def tick_count_def
  hits_def bounce_dy_def pong_clamp_paddle_def Let_def const_defs

text \<open>
  The ball is on the court, it moves one cell per step in each direction, and the computer's
  paddle is at most one cell from the place that it aims for.  A ball that flies to the right
  has not yet reached the column before the computer's paddle.
\<close>

definition pong_inv :: "pong \<Rightarrow> bool" where
  "pong_inv p \<longleftrightarrow>
     ball_dx p \<in> {-1, 1} \<and> ball_dy p \<in> {-1, 1} \<and>
     0 \<le> ball_x p \<and> ball_x p \<le> 64 \<and> (ball_dx p = 1 \<longrightarrow> ball_x p \<le> 63) \<and>
     0 \<le> ball_y p \<and> ball_y p \<le> 19 \<and> 0 \<le> ai_y p \<and> ai_y p \<le> 16 \<and>
     \<bar>ai_y p - pong_clamp_paddle (ball_y p - 2)\<bar> \<le> 1"

lemma pong_serve_inv: "pong_inv (pong_serve ps cs)"
  by (simp add: pong_inv_def pong_serve_def pong_clamp_paddle_def const_defs)

lemma pong_inv_player [simp]: "pong_inv (p\<lparr>player_y := y\<rparr>) = pong_inv p"
  by (simp add: pong_inv_def)

lemma pong_inv_ticks [simp]: "pong_inv (p\<lparr>rally_ticks := y\<rparr>) = pong_inv p"
  by (simp add: pong_inv_def)

text \<open>After the computer's move its paddle is where it aims.\<close>

lemma pong_ai_aims:
  assumes "pong_inv p"
  shows "ai_y (pong_ai p) = pong_clamp_paddle (ball_y p - 2)" and "pong_inv (pong_ai p)"
  using assms by (auto simp: pong_inv_def pong_ai_def pong_clamp_paddle_def const_defs)

lemma pong_ai_frame:
  "ball_x (pong_ai p) = ball_x p" "ball_y (pong_ai p) = ball_y p" "player_y (pong_ai p) = player_y p"
  "player_score (pong_ai p) = player_score p" "ai_score (pong_ai p) = ai_score p"
  by (simp_all add: pong_ai_def)

text \<open>From there the ball cannot pass the paddle.\<close>

lemma ball_walls_law:
  assumes "0 \<le> y" "y \<le> 19" "ball_y p = y + ball_dy p" "ball_dy p \<in> {-1, 1}"
  defines "q \<equiv> ball_walls p"
  shows "\<bar>ball_y q - y\<bar> \<le> 1" "0 \<le> ball_y q" "ball_y q \<le> 19" "ball_dy q \<in> {-1, 1}"
    and "ball_x q = ball_x p" "ball_dx q = ball_dx p" "ai_y q = ai_y p" "player_y q = player_y p"
      "ai_score q = ai_score p" "player_score q = player_score p"
  using assms(1-4) unfolding q_def ball_walls_def Let_def const_defs by auto

lemma ball_paddles_frame:
  "ball_x (ball_paddles p) = ball_x p" "ball_y (ball_paddles p) = ball_y p" "ai_y (ball_paddles p) = ai_y p"
  "player_y (ball_paddles p) = player_y p" "ai_score (ball_paddles p) = ai_score p"
  "player_score (ball_paddles p) = player_score p"
  by (simp_all add: ball_paddles_def Let_def)

lemma ball_paddles_law:
  assumes "ball_dx p \<in> {-1, 1}" "ball_dy p \<in> {-1, 1}" "hits (ai_y p) p" "ball_x p \<le> 64"
  shows "ball_dx (ball_paddles p) \<in> {-1, 1}" "ball_dy (ball_paddles p) \<in> {-1, 1}"
    and "ball_dx (ball_paddles p) = 1 \<longrightarrow> ball_x p \<le> 63"
  using assms by (auto simp: ball_paddles_def bounce_dy_def hits_def Let_def const_defs)

lemma ball_move_inv:
  assumes i: "pong_inv p" and a: "ai_y p = pong_clamp_paddle (ball_y p - 2)" and m: "ball_move p = (over, p')"
  shows "player_score p' = player_score p"
    and "ai_score p' = ai_score p + (if over then 1 else 0)"
    and "player_y p' = player_y p"
    and "\<not> over \<longrightarrow> pong_inv p'"
proof -
  define q where "q = ball_walls (p\<lparr>ball_x := ball_x p + ball_dx p, ball_y := ball_y p + ball_dy p\<rparr>)"
  define r where "r = ball_paddles q"
  have i': "ball_dx p \<in> {-1, 1}" "ball_dy p \<in> {-1, 1}" "0 \<le> ball_x p" "ball_x p \<le> 64" "ball_dx p = 1 \<longrightarrow> ball_x p \<le> 63"
      "0 \<le> ball_y p" "ball_y p \<le> 19" "0 \<le> ai_y p" "ai_y p \<le> 16"
    using i by (auto simp: pong_inv_def)
  have q: "\<bar>ball_y q - ball_y p\<bar> \<le> 1" "0 \<le> ball_y q" "ball_y q \<le> 19" "ball_dy q \<in> {-1, 1}"
      "ball_x q = ball_x p + ball_dx p" "ball_dx q = ball_dx p" "ai_y q = ai_y p" "player_y q = player_y p"
      "ai_score q = ai_score p" "player_score q = player_score p"
    unfolding q_def using ball_walls_law [of "ball_y p" "p\<lparr>ball_x := ball_x p + ball_dx p, ball_y := ball_y p + ball_dy p\<rparr>"] i'
    by simp_all
  have near: "\<bar>ai_y p - pong_clamp_paddle (ball_y q - 2)\<bar> \<le> 1" and h: "hits (ai_y q) q"
    using q(1-3,7) i' a by (auto simp: pong_clamp_paddle_def hits_def const_defs)
  have x: "-1 \<le> ball_x q" "ball_x q \<le> 64" using i' q(5) by auto
  note r = ball_paddles_law [OF _ q(4) h x(2)] and rf = ball_paddles_frame [of q, folded r_def]
  have rd: "ball_dx r \<in> {-1, 1}" "ball_dy r \<in> {-1, 1}" "ball_dx r = 1 \<longrightarrow> ball_x r \<le> 63"
    using r i'(1) q(6) rf(1) by (simp_all add: r_def)
  have mv: "(if ball_x r < 0 then (True, r\<lparr>ai_score := ai_score r + 1\<rparr>)
      else if ball_x r \<ge> PONG_WIDTH then (True, r\<lparr>player_score := player_score r + 1\<rparr>) else (False, r)) = (over, p')"
    using m unfolding ball_move_def Let_def r_def q_def .
  have "\<not> ball_x r \<ge> PONG_WIDTH" using x rf(1) by (simp add: const_defs)
  then have o: "over \<longleftrightarrow> ball_x r < 0" "p' = (if over then r\<lparr>ai_score := ai_score r + 1\<rparr> else r)"
    using mv by (auto split: if_splits)
  show "player_score p' = player_score p" "ai_score p' = ai_score p + (if over then 1 else 0)" "player_y p' = player_y p"
    by (simp_all add: o(2) rf q(8-10))
  show "\<not> over \<longrightarrow> pong_inv p'"
    using rd near q(2,3,7) x i' by (simp add: o pong_inv_def rf)
qed

lemma pong_tick_inv:
  assumes "pong_inv p" and "pong_tick p = (over, p')"
  shows "player_score p' = player_score p"
    and "ai_score p' = ai_score p + (if over then 1 else 0)"
    and "0 \<le> player_y p' \<and> player_y p' \<le> 16"
    and "\<not> over \<longrightarrow> pong_inv p'"
proof -
  define q where "q = tick_count (pong_ai (p\<lparr>player_y := pong_clamp_paddle (player_y p)\<rparr>))"
  have q: "pong_inv q" "ai_y q = pong_clamp_paddle (ball_y q - 2)" "player_score q = player_score p" "ai_score q = ai_score p"
    "player_y q = pong_clamp_paddle (player_y p)"
    using pong_ai_aims [of "p\<lparr>player_y := pong_clamp_paddle (player_y p)\<rparr>"] assms(1)
    by (simp_all add: q_def tick_count_def pong_ai_frame)
  have y: "0 \<le> player_y q \<and> player_y q \<le> 16" by (simp add: q(5) pong_clamp_paddle_def const_defs)
  have t: "(if rally_ticks q smod move_stride (rally_ticks q) = 0 then ball_move q else (False, q)) = (over, p')"
    using assms(2) unfolding pong_tick_def Let_def q_def .
  have "player_score p' = player_score p \<and> ai_score p' = ai_score p + (if over then 1 else 0) \<and>
      (0 \<le> player_y p' \<and> player_y p' \<le> 16) \<and> (\<not> over \<longrightarrow> pong_inv p')"
  proof (cases "rally_ticks q smod move_stride (rally_ticks q) = 0")
    case True
    with t have "ball_move q = (over, p')" by simp
    from ball_move_inv [OF q(1,2) this] show ?thesis using q(3,4) y by simp
  qed (use t q y in simp)
  then show "player_score p' = player_score p" "ai_score p' = ai_score p + (if over then 1 else 0)"
    "0 \<le> player_y p' \<and> player_y p' \<le> 16" "\<not> over \<longrightarrow> pong_inv p'" by simp_all
qed

text \<open>One round of a rally.\<close>

lemma pong_rally_cases:
  assumes "pong_rally p v ks = Some (r, v', ks')"
  obtains (quit) ks1 where "pong_keys (player_y p) ks = Some (None, ks1)" "r = None" "v' = v" "ks' = ks1"
  | (point) y ks1 p1 where "pong_keys (player_y p) ks = Some (Some y, ks1)" "pong_tick (p\<lparr>player_y := y\<rparr>) = (True, p1)"
      "r = Some p1" "v' = v" "ks' = ks1"
  | (play) y ks1 p1 where "pong_keys (player_y p) ks = Some (Some y, ks1)" "pong_tick (p\<lparr>player_y := y\<rparr>) = (False, p1)"
      "pong_rally p1 (pong_show p1 v) ks1 = Some (r, v', ks')"
  using assms by (subst (asm) pong_rally.simps) (auto split: option.split_asm prod.split_asm if_split_asm)

lemma pong_rally_scores:
  assumes "pong_inv p" and "pong_rally p v ks = Some (Some p', v', ks')"
  shows "player_score p' = player_score p \<and> ai_score p' = ai_score p + 1"
  using assms
proof (induction "length ks" arbitrary: p v ks rule: less_induct)
  case less
  from less.prems(2) show ?case
  proof (cases rule: pong_rally_cases)
    case (point y ks1 p1)
    then show ?thesis using pong_tick_inv [of "p\<lparr>player_y := y\<rparr>" True p1] less.prems(1) by simp
  next
    case (play y ks1 p1)
    then show ?thesis
      using pong_tick_inv [of "p\<lparr>player_y := y\<rparr>" False p1] less.hyps [of ks1 p1] pong_keys_less [of "player_y p" ks]
        less.prems(1) by simp
  qed simp
qed

section \<open>Drawing stays on the screen\<close>

lemma paints_draw_scene [paint_rules]: "paints u v \<Longrightarrow> paints u (pong_draw_scene py ay x y ps cs v)"
  unfolding pong_draw_scene_def Let_def
  by (intro paint_rules paints_fold)

lemma paints_rally: "pong_rally p v ks = Some (r, v', ks') \<Longrightarrow> paints u v \<Longrightarrow> paints u v'"
proof (induction "length ks" arbitrary: p v ks rule: less_induct)
  case less
  from less.prems(1) show ?case
  proof (cases rule: pong_rally_cases)
    case (play y ks1 p1)
    then show ?thesis
      using less.hyps [of ks1 p1 "pong_show p1 v"] pong_keys_less [of "player_y p" ks] less.prems(2)
      by (simp add: pong_show_def paints_draw_scene)
  qed (use less.prems in simp_all)
qed

lemma paints_final: "paints u v \<Longrightarrow> paints u (pong_final ps cs v)"
  unfolding pong_final_def Let_def by (intro paint_rules)

lemma paints_game: "pong_game ps cs v ks = Some (v', ks') \<Longrightarrow> paints u v \<Longrightarrow> paints u v'"
proof (induction "length ks" arbitrary: ps cs v ks rule: less_induct)
  case less
  have s: "paints u (pong_wait_serve ps cs v)"
    unfolding pong_wait_serve_def using less.prems(2) by (intro paint_rules)
  obtain r v1 ks1 where r: "pong_rally (pong_serve ps cs) (pong_wait_serve ps cs v) ks = Some (r, v1, ks1)"
    using less.prems(1) by (subst (asm) pong_game.simps) (auto split: option.split_asm)
  note v1 = paints_rally [OF r s] and l1 = pong_rally_less [OF r]
  show ?case
  proof (cases r)
    case None
    then show ?thesis using less.prems(1) r v1 by (simp add: pong_game.simps [of ps])
  next
    case (Some p)
    let ?w = "pong_final (player_score p) (ai_score p) v1"
    show ?thesis
    proof (cases "player_score p \<ge> PONG_WIN_SCORE \<or> ai_score p \<ge> PONG_WIN_SCORE")
      case True
      then obtain b ks2 where a: "pong_again ks1 = Some (b, ks2)"
        using less.prems(1) r Some by (cases "pong_again ks1") (auto simp: pong_game.simps [of ps])
      then have "length ks2 < length ks" using pong_again_less l1 by fastforce
      then show ?thesis
        using less.prems(1) r Some a True less.hyps [of ks2 0 0 ?w] paints_final [OF v1]
        by (cases b) (auto simp: pong_game.simps [of ps])
    qed (use less.prems(1) r Some v1 l1 less.hyps [of ks1 "player_score p" "ai_score p" v1] in \<open>simp add: pong_game.simps [of ps]\<close>)
  qed
qed

lemma cmd_pong_draws: "cmd_pong args (ks, t) = Some (ks', t') \<Longrightarrow> draws t t'"
  by (auto simp: cmd_pong_def dest!: paints_game [where u = "scr t"] intro: draws_app)

section \<open>A rally without a player\<close>

text \<open>The rounds of a rally in which no key is pressed.\<close>

fun pong_idle :: "nat \<Rightarrow> pong \<Rightarrow> pong option" where
  "pong_idle 0 p = None"
| "pong_idle (Suc n) p = (let (over, p1) = pong_tick p in if over then (if n = 0 then Some p1 else None) else pong_idle n p1)"

lemma pong_idle_numeral:
  "pong_idle (numeral k) p =
     (let (over, p1) = pong_tick p in if over then (if pred_numeral k = 0 then Some p1 else None) else pong_idle (pred_numeral k) p1)"
  by (simp add: numeral_eq_Suc)

lemma pong_idle_rally: "pong_idle n p = Some p' \<Longrightarrow> \<exists>v'. pong_rally p v (replicate n 0) = Some (Some p', v', [])"
proof (induction n arbitrary: p v)
  case (Suc n)
  obtain over p1 where t: "pong_tick p = (over, p1)" by fastforce
  show ?case
  proof (cases over)
    case True
    then show ?thesis using Suc.prems t by (auto simp: pong_rally.simps [of p v] split: if_splits)
  next
    case False
    then show ?thesis using Suc.prems t Suc.IH [of p1 "pong_show p1 v"] by (simp add: pong_rally.simps [of p v])
  qed
qed simp

section \<open>Properties\<close>

text \<open>C34. Whatever keys the player presses, every rally of Pong that ends is won by the computer: its
  paddle moves in every round, the ball at most one row per round, so it never misses. The player's
  score never changes and the text of a won game is never shown.\<close>

theorem pong_cpu_never_misses:
  assumes "pong_rally (pong_serve ps cs) v ks = Some (Some p, v', ks')"
  shows "player_score p = ps \<and> ai_score p = cs + 1"
  using pong_rally_scores [OF pong_serve_inv assms] by (simp add: pong_serve_def)

lemma pong_tick_early:
  assumes "0 \<le> t" and "t < 800"
  shows "pong_tick \<lparr>player_y = py, ai_y = ay, ball_x = x, ball_y = y, ball_dx = dx, ball_dy = dy, rally_ticks = t,
      player_score = ps, ai_score = cs\<rparr> =
    (let p = \<lparr>player_y = pong_clamp_paddle py, ai_y = pong_clamp_paddle (if y < ay + 2 then ay - 1 else if y > ay + 2 then ay + 1 else ay),
         ball_x = x, ball_y = y, ball_dx = dx, ball_dy = dy, rally_ticks = t + 1, player_score = ps, ai_score = cs\<rparr>
     in if (t + 1) mod 6 = 0 then ball_move p else (False, p))"
proof -
  have w: "sint (word_of_int (t + 1) :: u32) = t + 1" by (rule sint_small) (use assms in auto)
  have "(t + 1) sdiv 220 div 4 = 0" "0 \<le> (t + 1) sdiv 220" "(t + 1) sdiv 220 \<le> 20"
    using assms by (auto simp: signed_divide_int_def)
  then have "move_stride (t + 1) = 6"
    by (simp add: move_stride_def speed_stage_def const_defs Let_def signed_divide_int_def)
  then show ?thesis
    using assms w by (simp add: pong_tick_def pong_ai_def tick_count_def signed_modulo_int_def const_defs)
qed

lemma pong_idle_serve: "pong_idle 210 (pong_serve 0 0) =
  Some \<lparr>player_y = 8, ai_y = 12, ball_x = -1, ball_y = 13, ball_dx = -1, ball_dy = -1, rally_ticks = 210,
    player_score = 0, ai_score = 1\<rparr>"
  by (simp add: pong_serve_def pong_idle_numeral pong_tick_early ball_move_def ball_paddles_def ball_walls_def
      hits_def bounce_dy_def pong_clamp_paddle_def const_defs)

theorem pong_cpu_never_misses_witness:
  "\<exists>p v'. pong_rally (pong_serve 0 0) \<lparr>cells = \<lambda>_. 0, crtc = []\<rparr> (replicate 210 0) = Some (Some p, v', []) \<and>
     player_score p = 0 \<and> ai_score p = 0 + 1"
  using pong_idle_rally [OF pong_idle_serve, of "\<lparr>cells = \<lambda>_. 0, crtc = []\<rparr>"] pong_cpu_never_misses [of 0 0 _ "replicate 210 0"]
  by blast

end
