(* ===== verification/Plinko.thy ===== *)
theory Plinko
  imports App_Screen
begin

text \<open>
  The Plinko game, \<^verbatim>\<open>src/src/apps/plinko.c\<close>, with its static variables as a record.  The
  random generator and the credits are 32 bits wide.
\<close>

section \<open>State\<close>

definition GRID_ROWS :: nat where [const_defs]: "GRID_ROWS = 8"
definition PEG_X_SPACING :: int where [const_defs]: "PEG_X_SPACING = 4"
definition PEG_Y_SPACING :: int where [const_defs]: "PEG_Y_SPACING = 2"
definition START_X :: int where [const_defs]: "START_X = 40"
definition START_Y :: int where [const_defs]: "START_Y = 2"
definition BOARD_L :: int where [const_defs]: "BOARD_L = 15"
definition BOARD_T :: int where [const_defs]: "BOARD_T = 1"

record plinko =
  plinko_rng :: u32
  credits :: int
  last_win :: int

definition plinko_boot :: plinko where
  "plinko_boot = \<lparr>plinko_rng = 0x54123456, credits = 250, last_win = 0\<rparr>"

definition plinko_rng_next :: "u32 \<Rightarrow> u32" where
  "plinko_rng_next r = r * 1664525 + 1013904223"

definition first_bucket_x :: int where
  "first_bucket_x = START_X - int GRID_ROWS * (PEG_X_SPACING div 2)"

definition labels :: "bytes list" where
  "labels = [lit ''500'', lit ''200'', lit ''100'', lit ''50'', lit ''10'', lit ''50'', lit ''100'', lit ''200'', lit ''500'']"

definition multipliers :: "int list" where
  "multipliers = [500, 200, 100, 50, 10, 50, 100, 200, 500]"

section \<open>Drawing\<close>

definition draw_pegs :: "vga \<Rightarrow> vga" where
  "draw_pegs v =
     fold (\<lambda>r. fold (\<lambda>p. vga_putchar_at (START_Y + r * PEG_Y_SPACING)
                           (START_X - r * (PEG_X_SPACING div 2) + p * PEG_X_SPACING) 46 (VGA_ATTR 15 1))
                 [0..r])
       [0..int GRID_ROWS - 1] v"

definition draw_buckets :: "vga \<Rightarrow> vga" where
  "draw_buckets v =
     fold (\<lambda>i v. let bx = first_bucket_x + int i * PEG_X_SPACING - 1; y = START_Y + int GRID_ROWS * PEG_Y_SPACING
                  in vga_putchar_at (y - 1) (bx + 1) 124 THEME_BORDER (vga_write_at y bx (labels ! i) (VGA_ATTR 14 8) v))
       [0..<GRID_ROWS + 1] v"

definition draw_stats :: "plinko \<Rightarrow> vga \<Rightarrow> vga" where
  "draw_stats g v0 =
     (let x = BOARD_L + 52;
          v1 = vga_write_at (BOARD_T + 1) x (lit ''Credits:   '') THEME_TOPBAR v0;
          v2 = vga_write_at (BOARD_T + 2) x (lit ''          '') (VGA_ATTR 0 0) v1;
          v3 = vga_write_at (BOARD_T + 2) x (itoa_text (word_of_int (credits g))) (VGA_ATTR 10 0) v2;
          v4 = vga_write_at (BOARD_T + 4) x (lit ''Last Win:  '') THEME_TOPBAR v3;
          v5 = vga_write_at (BOARD_T + 5) x (lit ''          '') (VGA_ATTR 0 0) v4;
          v6 = vga_write_at (BOARD_T + 5) x (itoa_text (word_of_int (last_win g))) (VGA_ATTR 14 0) v5;
          v7 = vga_write_at (BOARD_T + 8) x (lit ''SPACE to Drop'') THEME_TOPBAR v6;
          v8 = vga_write_at (BOARD_T + 9) x (lit ''-10 Credits'') (VGA_ATTR 12 0) v7
      in vga_write_at (BOARD_T + 11) x (lit ''ESC to Exit '') THEME_TOPBAR v8)"

definition plinko_draw_layout :: "plinko \<Rightarrow> vga \<Rightarrow> vga" where
  "plinko_draw_layout g v0 =
     (let v1 = vga_clear THEME_APP_BG v0;
          v2 = vga_fill_rect BOARD_T BOARD_L 22 50 chr_sp THEME_BORDER v1;
          v3 = vga_fill_rect (BOARD_T + 1) (BOARD_L + 1) 20 48 chr_sp THEME_APP_BG v2;
          v4 = vga_write_at BOARD_T (BOARD_L + 18) (lit '' PLINKO DELUXE '') THEME_TITLE v3
      in draw_stats g (draw_buckets (draw_pegs v4)))"

section \<open>The game\<close>

text \<open>The poll loop: the generator advances once for each empty poll.\<close>

fun plinko_poll :: "u32 \<Rightarrow> polls \<Rightarrow> (nat \<times> u32 \<times> polls) option" where
  "plinko_poll r [] = None"
| "plinko_poll r (k # ks) = (if k = 0 then plinko_poll (r * 1664525 + 1013904223) ks else Some (k, r, ks))"

text \<open>The fall of the ball over the remaining rows.\<close>

fun plinko_fall :: "nat \<Rightarrow> u32 \<Rightarrow> int \<Rightarrow> int \<Rightarrow> vga \<Rightarrow> u32 \<times> int \<times> int \<times> vga" where
  "plinko_fall 0 r x y v = (r, x, y, v)"
| "plinko_fall (Suc n) r x y v =
     (let v1 = vga_putchar_at y x chr_sp THEME_APP_BG v;
          y1 = y + PEG_Y_SPACING;
          r1 = plinko_rng_next r;
          x1 = (if drop_bit 16 r1 mod 2 = 0 then x - PEG_X_SPACING div 2 else x + PEG_X_SPACING div 2)
      in plinko_fall n r1 x1 y1 (vga_putchar_at y1 x1 79 (VGA_ATTR 12 1) v1))"

definition bucket_of :: "int \<Rightarrow> int" where
  "bucket_of x =
     (let i = (x - first_bucket_x) div PEG_X_SPACING;
          j = (if i < 0 then 0 else i)
      in if j \<ge> int GRID_ROWS + 1 then int GRID_ROWS else j)"

definition plinko_drop :: "plinko \<Rightarrow> vga \<Rightarrow> plinko \<times> vga" where
  "plinko_drop g v =
     (let g1 = g\<lparr>credits := credits g - 10\<rparr>;
          v1 = vga_putchar_at (START_Y - 1) START_X 79 (VGA_ATTR 12 1) (plinko_draw_layout g1 v);
          (r, x, y, v2) = plinko_fall GRID_ROWS (plinko_rng g1) START_X (START_Y - 1) v1;
          idx = bucket_of x;
          win = multipliers ! nat idx;
          g2 = g1\<lparr>plinko_rng := r, last_win := win, credits := sint (word_of_int (credits g1 + win) :: u32)\<rparr>
      in (g2, vga_write_at (START_Y + int GRID_ROWS * PEG_Y_SPACING) (first_bucket_x + idx * PEG_X_SPACING - 1)
                (lit ''WIN!'') (VGA_ATTR 15 4) v2))"

lemma plinko_poll_less: "plinko_poll r ks = Some (k, r', ks') \<Longrightarrow> length ks' < length ks"
  by (induction r ks rule: plinko_poll.induct) (auto split: if_splits)

function plinko_run :: "plinko \<Rightarrow> vga \<Rightarrow> polls \<Rightarrow> (plinko \<times> vga \<times> polls) option" where
  "plinko_run g v ks =
     (let v1 = plinko_draw_layout g v
      in case plinko_poll (plinko_rng g) ks of
           None \<Rightarrow> None
         | Some (k, r, ks1) \<Rightarrow>
             (let g1 = g\<lparr>plinko_rng := r\<rparr>
              in if k = KEY_ESCAPE then Some (g1, v1, ks1)
                 else if (k = 32 \<or> k = KEY_ENTER) \<and> \<not> credits g1 < 10 then
                   (let (g2, v2) = plinko_drop g1 v1
                    in case last_key 0 ks1 of None \<Rightarrow> None | Some (_, ks2) \<Rightarrow> plinko_run g2 v2 ks2)
                 else plinko_run g1 v1 ks1))"
  by pat_completeness auto
termination
  by (relation "measure (\<lambda>(g, v, ks). length ks)") (auto dest!: plinko_poll_less last_key_less)

declare plinko_run.simps [simp del]

definition cmd_plinko :: "bytes option \<Rightarrow> (plinko \<times> polls) \<times> terminal \<Rightarrow> ((plinko \<times> polls) \<times> terminal) option" where
  "cmd_plinko args s =
     map_option (\<lambda>(g, v, ks). ((g, ks), term_reset_screen ((snd s)\<lparr>scr := v\<rparr>)))
       (plinko_run (fst (fst s)) (scr (snd s)) (snd (fst s)))"

section \<open>The ball\<close>

lemma paints_layout: "paints v (plinko_draw_layout g v)"
  unfolding plinko_draw_layout_def draw_stats_def draw_buckets_def draw_pegs_def Let_def
  by (intro paint_rules paints_fold paints_fill_rect) (auto simp: const_defs intro: paint_rules paints_fold)

text \<open>The turns that the generator decides, true for a step to the right.\<close>

fun turns :: "nat \<Rightarrow> u32 \<Rightarrow> bool list" where
  "turns 0 r = []"
| "turns (Suc n) r = (let r1 = plinko_rng_next r in (drop_bit 16 r1 mod 2 \<noteq> 0) # turns n r1)"

definition rights :: "bool list \<Rightarrow> nat" where
  "rights bs = length (filter (\<lambda>b. b) bs)"

lemma length_turns [simp]: "length (turns n r) = n"
  by (induction n r rule: turns.induct) (auto simp: Let_def)

lemma rights_le: "rights (turns n r) \<le> n"
  using length_filter_le [of "\<lambda>b. b" "turns n r"] by (simp add: rights_def)

lemma plinko_fall_law:
  "plinko_fall n r x y v = (r', x', y', v') \<Longrightarrow>
     r' = (plinko_rng_next ^^ n) r \<and> x' = x - 2 * int n + 4 * int (rights (turns n r)) \<and> y' = y + 2 * int n \<and> paints v v'"
proof (induction n r x y v rule: plinko_fall.induct)
  case (2 n r x y v)
  from "2.IH" [OF refl refl refl refl] "2.prems" show ?case
    by (auto simp: Let_def rights_def const_defs funpow_swap1
        dest!: paints_trans [OF paints_putchar [OF paints_putchar [OF paints_refl]]])
qed (simp add: rights_def)

lemma bucket_of_fall: "j \<le> 8 \<Longrightarrow> bucket_of (40 - 16 + 4 * int j) = int j"
  by (simp add: bucket_of_def first_bucket_x_def const_defs)

lemma plinko_drop_law:
  fixes g :: plinko
  defines "j \<equiv> rights (turns 8 (plinko_rng g))"
  assumes "plinko_drop g v = (g', v')"
  shows "j \<le> 8" and "last_win g' = multipliers ! j"
    and "plinko_rng g' = (plinko_rng_next ^^ 8) (plinko_rng g)"
    and "credits g' = sint (word_of_int (credits g - 10 + multipliers ! j) :: u32)"
    and "paints v v'"
proof -
  show j: "j \<le> 8" unfolding j_def by (rule rights_le)
  let ?g = "g\<lparr>credits := credits g - 10\<rparr>"
  let ?v = "vga_putchar_at (START_Y - 1) START_X 79 (VGA_ATTR 12 1) (plinko_draw_layout ?g v)"
  have pv: "paints v ?v" by (rule paints_putchar [OF paints_layout])
  obtain r x y v2 where f: "plinko_fall GRID_ROWS (plinko_rng ?g) START_X (START_Y - 1) ?v = (r, x, y, v2)"
    by (metis prod_cases4)
  have x: "x = 40 - 16 + 4 * int j" and r: "r = (plinko_rng_next ^^ 8) (plinko_rng g)" and v2: "paints ?v v2"
    using plinko_fall_law [OF f] by (auto simp: const_defs j_def)
  have b: "bucket_of x = int j" unfolding x by (rule bucket_of_fall [OF j])
  show "last_win g' = multipliers ! j" "plinko_rng g' = (plinko_rng_next ^^ 8) (plinko_rng g)"
    "credits g' = sint (word_of_int (credits g - 10 + multipliers ! j) :: u32)" "paints v v'"
    using assms(2) f b r paints_trans [OF pv v2] by (auto simp: plinko_drop_def Let_def paints_write_at simp del: lit_Cons)
qed

section \<open>A game\<close>

lemma multipliers_range: "j \<le> 8 \<Longrightarrow> 10 \<le> multipliers ! j \<and> multipliers ! j \<le> 500"
  by (auto simp: multipliers_def less_Suc_eq_le [symmetric] nth_Cons' numeral_eq_Suc less_Suc_eq)

lemma plinko_drop_credits:
  assumes "plinko_drop g v = (g', v')" and "10 \<le> credits g" and "credits g < 2147483158"
  shows "credits g \<le> credits g'" "credits g' \<le> credits g + 490"
proof -
  let ?j = "rights (turns 8 (plinko_rng g))"
  note law = plinko_drop_law [OF assms(1)]
  have m: "10 \<le> multipliers ! ?j \<and> multipliers ! ?j \<le> 500" by (rule multipliers_range [OF law(1)])
  have "credits g' = credits g - 10 + multipliers ! ?j"
    unfolding law(4) by (rule sint_small) (use m assms(2,3) in linarith)+
  then show "credits g \<le> credits g'" "credits g' \<le> credits g + 490" using m by simp_all
qed

lemma plinko_run_cases:
  assumes "plinko_run g v ks = Some (g', v', ks')"
  obtains (quit) r where "plinko_poll (plinko_rng g) ks = Some (KEY_ESCAPE, r, ks')" "g' = g\<lparr>plinko_rng := r\<rparr>"
      "v' = plinko_draw_layout g v"
  | (drop) k r ks1 g2 v2 x ks2 where "plinko_poll (plinko_rng g) ks = Some (k, r, ks1)" "10 \<le> credits g"
      "plinko_drop (g\<lparr>plinko_rng := r\<rparr>) (plinko_draw_layout g v) = (g2, v2)" "last_key 0 ks1 = Some (x, ks2)"
      "plinko_run g2 v2 ks2 = Some (g', v', ks')"
  | (other) k r ks1 where "plinko_poll (plinko_rng g) ks = Some (k, r, ks1)"
      "plinko_run (g\<lparr>plinko_rng := r\<rparr>) (plinko_draw_layout g v) ks1 = Some (g', v', ks')"
  using assms
  by (subst (asm) plinko_run.simps)
    (auto simp: Let_def not_less split: option.split_asm prod.split_asm if_split_asm)

lemma plinko_run_bounds:
  assumes "plinko_run g v ks = Some (g', v', ks')" and "credits g + 490 * int (length ks) < 2147483158"
  shows "credits g \<le> credits g' \<and> credits g' + 490 * int (length ks') \<le> credits g + 490 * int (length ks)"
  using assms
proof (induction "length ks" arbitrary: g v ks rule: less_induct)
  case less
  from less.prems(1) show ?case
  proof (cases rule: plinko_run_cases)
    case (quit r)
    then show ?thesis using plinko_poll_less [of "plinko_rng g" ks] by fastforce
  next
    case (drop k r ks1 g2 v2 x ks2)
    note l = plinko_poll_less [OF drop(1)] last_key_less [OF drop(4)]
    have "credits g \<le> credits g2" "credits g2 \<le> credits g + 490"
      using plinko_drop_credits [OF drop(3)] drop(2) less.prems(2) by auto
    with less.hyps [OF _ drop(5)] l less.prems(2) show ?thesis by auto
  next
    case (other k r ks1)
    note l = plinko_poll_less [OF other(1)]
    with less.hyps [OF l other(2)] less.prems(2) show ?thesis by auto
  qed
qed

lemma plinko_run_paints: "plinko_run g v ks = Some (g', v', ks') \<Longrightarrow> paints v v'"
proof (induction "length ks" arbitrary: g v ks rule: less_induct)
  case less
  note lay = paints_layout [of v g]
  from less.prems(1) show ?case
  proof (cases rule: plinko_run_cases)
    case (drop k r ks1 g2 v2 x ks2)
    have "length ks2 < length ks" using plinko_poll_less [OF drop(1)] last_key_less [OF drop(4)] by simp
    then show ?thesis
      using less.hyps [OF _ drop(5)] paints_trans [OF lay plinko_drop_law(5) [OF drop(3)]] by (blast intro: paints_trans)
  next
    case (other k r ks1)
    show ?thesis by (rule paints_trans [OF lay less.hyps [OF plinko_poll_less [OF other(1)] other(2)]])
  qed (use lay in simp)
qed

lemma cmd_plinko_draws: "cmd_plinko args (w, t) = Some (w', t') \<Longrightarrow> draws t t'"
  by (auto simp: cmd_plinko_def dest!: plinko_run_paints intro: draws_app)

section \<open>Properties\<close>

text \<open>A drop of the Plinko ball pays what the number of turns to the right says: over the eight rows
  the ball stays on the board, the bucket it falls into is that number, the win is the number on
  the bucket and the credits change by the win less the price of ten. Since no bucket pays less than
  ten, a drop never costs the player anything.\<close>

lemma plinko_drop_correct:
  assumes "10 \<le> credits g" and "credits g < 2147483158"
  shows "let (g', v') = plinko_drop g v; j = rights (turns 8 (plinko_rng g))
     in j \<le> 8 \<and> last_win g' = multipliers ! j \<and> credits g' = credits g - 10 + multipliers ! j \<and>
        credits g \<le> credits g' \<and> plinko_rng g' = (plinko_rng_next ^^ 8) (plinko_rng g)"
proof -
  obtain g' v' where d: "plinko_drop g v = (g', v')" by fastforce
  note law = plinko_drop_law [OF d]
  have m: "10 \<le> multipliers ! rights (turns 8 (plinko_rng g)) \<and> multipliers ! rights (turns 8 (plinko_rng g)) \<le> 500"
    by (rule multipliers_range [OF law(1)])
  have "credits g' = credits g - 10 + multipliers ! rights (turns 8 (plinko_rng g))"
    unfolding law(4) by (rule sint_small) (use m assms in linarith)+
  with m show ?thesis using d law(1-3) by simp
qed

theorem plinko_drop_correct_witness:
  "let (g', v') = plinko_drop plinko_boot \<lparr>cells = \<lambda>_. 0, crtc = []\<rparr>
   in last_win g' = 10 \<and> credits g' = 250"
proof -
  have "rights (turns 8 (plinko_rng plinko_boot)) = 4" by code_simp
  then show ?thesis
    using plinko_drop_correct [of plinko_boot "\<lparr>cells = \<lambda>_. 0, crtc = []\<rparr>"]
    by (auto simp: plinko_boot_def multipliers_def Let_def split: prod.splits)
qed

end
