(* ===== verification/Catnake.thy ===== *)
theory Catnake
  imports App_Screen
begin

text \<open>
  The snake game, \<^verbatim>\<open>src/src/apps/catnake.c\<close>.  The static variables are the record
  \<open>catnake\<close>, the variables of one game the record \<open>snake\<close>; the array \<open>body\<close> and its length
  \<open>len\<close> are a list.  A frame is split into the keys, the turn, the move, the drawing and the
  delay, in the order of the code.
\<close>

section \<open>State\<close>

definition CATNAKE_WIDTH :: int where [const_defs]: "CATNAKE_WIDTH = 40"
definition CATNAKE_HEIGHT :: int where [const_defs]: "CATNAKE_HEIGHT = 18"
definition CATNAKE_X :: int where [const_defs]: "CATNAKE_X = 20"
definition CATNAKE_Y :: int where [const_defs]: "CATNAKE_Y = 3"
definition CATNAKE_MAX :: nat where [const_defs]: "CATNAKE_MAX = 720"

type_synonym pt = "int \<times> int"

record catnake =
  catnake_rng :: u32
  pending_input :: nat
  high_score :: int

record snake =
  body :: "pt list"
  dir :: pt
  pending_dir :: pt
  score :: int
  food :: pt
  dead :: bool
  old_tail :: pt

definition catnake_boot :: catnake where
  "catnake_boot = \<lparr>catnake_rng = 0xC0FFEE11, pending_input = 0, high_score = 0\<rparr>"

definition catnake_rng_next :: "u32 \<Rightarrow> u32" where
  "catnake_rng_next r = r * 1664525 + 1013904223"

section \<open>Drawing\<close>

definition catnake_draw_border :: "vga \<Rightarrow> vga" where
  "catnake_draw_border v0 =
     (let b = VGA_ATTR 7 0;
          v1 = fold (\<lambda>x v. vga_putchar_at (CATNAKE_Y + CATNAKE_HEIGHT) (CATNAKE_X - 1 + x) 61 b
                             (vga_putchar_at (CATNAKE_Y - 1) (CATNAKE_X - 1 + x) 61 b v)) [0..CATNAKE_WIDTH + 1] v0;
          v2 = fold (\<lambda>y v. vga_putchar_at (CATNAKE_Y + y) (CATNAKE_X + CATNAKE_WIDTH) 124 b
                             (vga_putchar_at (CATNAKE_Y + y) (CATNAKE_X - 1) 124 b v)) [0..CATNAKE_HEIGHT - 1] v1;
          v3 = vga_putchar_at (CATNAKE_Y - 1) (CATNAKE_X - 1) 43 b v2;
          v4 = vga_putchar_at (CATNAKE_Y - 1) (CATNAKE_X + CATNAKE_WIDTH) 43 b v3;
          v5 = vga_putchar_at (CATNAKE_Y + CATNAKE_HEIGHT) (CATNAKE_X - 1) 43 b v4;
          v6 = vga_putchar_at (CATNAKE_Y + CATNAKE_HEIGHT) (CATNAKE_X + CATNAKE_WIDTH) 43 b v5
      in vga_write_at (CATNAKE_Y - 1) (CATNAKE_X + CATNAKE_WIDTH div 2 - 4) (lit '' CATNAKE '') (VGA_ATTR 14 0) v6)"

definition catnake_draw_cell :: "pt \<Rightarrow> u8 \<Rightarrow> u8 \<Rightarrow> vga \<Rightarrow> vga" where
  "catnake_draw_cell p ch attr v = vga_putchar_at (CATNAKE_Y + snd p) (CATNAKE_X + fst p) ch attr v"

definition segment_look :: "bool \<Rightarrow> nat \<Rightarrow> u8 \<times> u8" where
  "segment_look is_dead i =
     (if i = 0 then (67, if is_dead then VGA_ATTR 8 0 else VGA_ATTR 11 0)
      else if i = 1 then (126, if is_dead then VGA_ATTR 8 0 else VGA_ATTR 10 0)
      else (111, if is_dead then VGA_ATTR 8 0 else VGA_ATTR 2 0))"

definition catnake_render_all :: "snake \<Rightarrow> int \<Rightarrow> vga \<Rightarrow> vga" where
  "catnake_render_all s best v0 =
     (let v1 = (if fst (old_tail s) \<noteq> -1 then catnake_draw_cell (old_tail s) chr_sp (VGA_ATTR 15 0) v0 else v0);
          v2 = vga_write_at 1 2 (lit ''Catnake Deluxe  (WASD/Arrows)  Esc=Quit'') (VGA_ATTR 15 0) v1;
          v3 = vga_write_at 1 45 (lit ''Score:'') (VGA_ATTR 15 0) v2;
          v4 = vga_write_at 1 52 (itoa_text (word_of_int (score s))) (VGA_ATTR 11 0) v3;
          v5 = vga_write_at 1 60 (lit ''Best:'') (VGA_ATTR 15 0) v4;
          v6 = vga_write_at 1 66 (itoa_text (word_of_int best)) (VGA_ATTR 14 0) v5;
          v7 = catnake_draw_cell (food s) 42 (VGA_ATTR 12 0) v6;
          v8 = fold (\<lambda>i. let (ch, attr) = segment_look (dead s) i in catnake_draw_cell (body s ! i) ch attr)
                 (rev [0..<length (body s)]) v7
      in if dead s then
           vga_write_at (CATNAKE_Y + CATNAKE_HEIGHT div 2 + 1) (CATNAKE_X + CATNAKE_WIDTH div 2 - 14)
             (lit '' Press ENTER to Restart '') (VGA_ATTR 7 0)
             (vga_write_at (CATNAKE_Y + CATNAKE_HEIGHT div 2 - 1) (CATNAKE_X + CATNAKE_WIDTH div 2 - 9)
               (lit ''  GAME OVER!  '') (VGA_ATTR 15 4) v8)
         else v8)"

section \<open>The game\<close>

definition catnake_occupied :: "pt list \<Rightarrow> pt \<Rightarrow> bool" where
  "catnake_occupied b p = list_ex (\<lambda>q. fst q = fst p \<and> snd q = snd p) b"

fun place_food_loop :: "nat \<Rightarrow> pt list \<Rightarrow> u32 \<Rightarrow> pt \<times> u32" where
  "place_food_loop 0 b r = ((-1, -1), r)"
| "place_food_loop (Suc n) b r =
     (let r1 = catnake_rng_next r; r2 = catnake_rng_next r1;
          f = (uint (r1 mod 40), uint (r2 mod 18))
      in if \<not> catnake_occupied b f then (f, r2) else place_food_loop n b r2)"

definition catnake_place_food :: "pt list \<Rightarrow> u32 \<Rightarrow> pt \<times> u32" where
  "catnake_place_food b r = place_food_loop 1000 b r"

text \<open>The start of a game: four segments to the left of the middle, moving right.\<close>

definition snake_start :: "u32 \<Rightarrow> snake \<times> u32" where
  "snake_start r =
     (let b = map (\<lambda>i. (CATNAKE_WIDTH div 4 - int i, CATNAKE_HEIGHT div 2)) [0..<4];
          (f, r1) = catnake_place_food b r
      in (\<lparr>body = b, dir = (1, 0), pending_dir = (1, 0), score = 0, food = f, dead = False, old_tail = (-1, -1)\<rparr>, r1))"

definition snake_turn :: "nat \<Rightarrow> snake \<Rightarrow> snake" where
  "snake_turn k s =
     (let s1 = (if (k = KEY_UP \<or> k = 119 \<or> k = 87) \<and> snd (dir s) = 0 then s\<lparr>pending_dir := (0, -1)\<rparr> else s);
          s2 = (if (k = KEY_DOWN \<or> k = 115 \<or> k = 83) \<and> snd (dir s) = 0 then s1\<lparr>pending_dir := (0, 1)\<rparr> else s1);
          s3 = (if (k = KEY_LEFT \<or> k = 97 \<or> k = 65) \<and> fst (dir s) = 0 then s2\<lparr>pending_dir := (-1, 0)\<rparr> else s2)
      in if (k = KEY_RIGHT \<or> k = 100 \<or> k = 68) \<and> fst (dir s) = 0 then s3\<lparr>pending_dir := (1, 0)\<rparr> else s3)"

definition next_cell :: "snake \<Rightarrow> pt" where
  "next_cell s = (fst (hd (body s)) + fst (dir s), snd (hd (body s)) + snd (dir s))"

definition in_grid :: "pt \<Rightarrow> bool" where
  "in_grid p \<longleftrightarrow> \<not> (fst p < 0 \<or> fst p \<ge> CATNAKE_WIDTH \<or> snd p < 0 \<or> snd p \<ge> CATNAKE_HEIGHT)"

definition snake_eat :: "catnake \<times> snake \<Rightarrow> catnake \<times> snake" where
  "snake_eat cs =
     (let (c, s) = cs;
          b = (if length (body s) < CATNAKE_MAX then body s @ [old_tail s] else body s);
          (f, r) = catnake_place_food b (catnake_rng c)
      in (c\<lparr>catnake_rng := r, high_score := (if score s + 1 > high_score c then score s + 1 else high_score c)\<rparr>,
          s\<lparr>body := b, old_tail := (-1, snd (old_tail s)), score := score s + 1, food := f\<rparr>))"

definition snake_move :: "catnake \<times> snake \<Rightarrow> catnake \<times> snake" where
  "snake_move cs =
     (let (c, s0) = cs; s = s0\<lparr>dir := pending_dir s0\<rparr>; p = next_cell s
      in if \<not> in_grid p then (c, s\<lparr>dead := True\<rparr>)
         else if catnake_occupied (body s) p then (c, s\<lparr>dead := True\<rparr>)
         else let s1 = s\<lparr>old_tail := last (body s), body := p # butlast (body s)\<rparr>
              in if fst p = fst (food s1) \<and> snd p = snd (food s1) then snake_eat (c, s1) else (c, s1))"

text \<open>The part of a frame in which the snake lives: the pending key is used up, then the move.\<close>

definition snake_step :: "catnake \<times> snake \<Rightarrow> catnake \<times> snake" where
  "snake_step cs =
     (let (c, s) = cs
      in if pending_input c \<noteq> 0 then snake_move (c\<lparr>pending_input := 0\<rparr>, snake_turn (pending_input c) s)
         else snake_move (c, s))"

text \<open>The number of delay rounds, computed in 32 unsigned bits.\<close>

definition delay_loops :: "bool \<Rightarrow> int \<Rightarrow> u32" where
  "delay_loops is_dead n =
     (if is_dead then 50
      else let d = word_of_int (60 - n div 2) :: u32 in if d < 15 then 15 else d)"

text \<open>The delay rounds: the pending key at their end; they stop early on a key that ends the game.\<close>

fun delay_keys :: "nat \<Rightarrow> bool \<Rightarrow> nat \<Rightarrow> polls \<Rightarrow> (nat \<times> polls) option" where
  "delay_keys 0 is_dead pending ks = Some (pending, ks)"
| "delay_keys (Suc n) is_dead pending ks =
     (case last_key pending ks of
        None \<Rightarrow> None
      | Some (k, ks1) \<Rightarrow>
          if k = KEY_ESCAPE \<or> is_dead \<and> k = KEY_ENTER then Some (k, ks1) else delay_keys n is_dead k ks1)"

lemma delay_keys_less: "delay_keys n d p ks = Some (k, ks') \<Longrightarrow> length ks' \<le> length ks"
proof (induction n arbitrary: p ks)
  case (Suc n)
  then show ?case
    by (auto split: option.splits if_splits dest!: last_key_less Suc.IH)
qed simp

text \<open>The frames of one game; the flag of the result says that a new game starts.\<close>

function snake_game :: "catnake \<times> snake \<Rightarrow> vga \<Rightarrow> polls \<Rightarrow> (bool \<times> catnake \<times> vga \<times> polls) option" where
  "snake_game cs v ks =
     (case last_key (pending_input (fst cs)) ks of
        None \<Rightarrow> None
      | Some (k, ks1) \<Rightarrow>
          (let c = (fst cs)\<lparr>pending_input := k\<rparr>; s = snd cs
           in if k = KEY_ESCAPE then Some (False, c, v, ks1)
              else if dead s \<and> k = KEY_ENTER then Some (True, c, v, ks1)
              else let (c1, s1) = (if dead s then (c, s) else snake_step (c, s));
                       v1 = catnake_render_all s1 (high_score c1) v;
                       s2 = s1\<lparr>old_tail := (-1, snd (old_tail s1))\<rparr>
                   in case delay_keys (unat (delay_loops (dead s2) (score s2))) (dead s2) (pending_input c1) ks1 of
                        None \<Rightarrow> None
                      | Some (k2, ks2) \<Rightarrow>
                          (let c2 = c1\<lparr>pending_input := k2\<rparr>
                           in if k2 = KEY_ESCAPE then Some (False, c2, v1, ks2)
                              else if dead s2 \<and> k2 = KEY_ENTER then Some (True, c2, v1, ks2)
                              else snake_game (c2, s2) v1 ks2)))"
  by pat_completeness auto
termination
  by (relation "measure (\<lambda>(cs, v, ks). length ks)") (auto dest!: last_key_less delay_keys_less)

declare snake_game.simps [simp del]

lemma snake_game_less: "snake_game cs v ks = Some (b, c', v', ks') \<Longrightarrow> length ks' < length ks"
proof (induction "length ks" arbitrary: cs v ks rule: less_induct)
  case less
  from less.prems show ?case
    by (subst (asm) snake_game.simps)
      (auto simp: Let_def split: option.split_asm if_split_asm prod.split_asm dest!: last_key_less delay_keys_less less.hyps [rotated])
qed

function catnake_run :: "catnake \<Rightarrow> vga \<Rightarrow> polls \<Rightarrow> (catnake \<times> vga \<times> polls) option" where
  "catnake_run c v [] = None"
| "catnake_run c v (k # ks) =
     (let (s, r) = snake_start (0xC0FFEE11 + word_of_nat k);
          v1 = catnake_draw_border (vga_clear (VGA_ATTR 15 0) v)
      in case snake_game (c\<lparr>catnake_rng := r, pending_input := 0\<rparr>, s) v1 ks of
           None \<Rightarrow> None
         | Some (again, c1, v2, ks1) \<Rightarrow> if again then catnake_run c1 v2 ks1 else Some (c1, v2, ks1))"
  by pat_completeness auto
termination
  by (relation "measure (\<lambda>(c, v, ks). length ks)") (auto dest!: snake_game_less)

declare catnake_run.simps(2) [simp del]

definition cmd_catnake :: "bytes option \<Rightarrow> (catnake \<times> polls) \<times> terminal \<Rightarrow> ((catnake \<times> polls) \<times> terminal) option" where
  "cmd_catnake args s =
     map_option (\<lambda>(c, v, ks). ((c, ks), term_reset_screen ((snd s)\<lparr>scr := v\<rparr>)))
       (catnake_run (fst (fst s)) (scr (snd s)) (snd (fst s)))"

section \<open>Drawing stays on the screen\<close>

lemma paints_draw_cell [paint_rules]: "paints u v \<Longrightarrow> paints u (catnake_draw_cell p ch attr v)"
  unfolding catnake_draw_cell_def by (rule paints_putchar)

lemma paints_render: "paints u v \<Longrightarrow> paints u (catnake_render_all s best v)"
  unfolding catnake_render_all_def Let_def case_prod_unfold
  by (intro paint_rules paints_fold)

lemma paints_border: "paints u v \<Longrightarrow> paints u (catnake_draw_border v)"
  unfolding catnake_draw_border_def Let_def by (intro paint_rules paints_fold)

lemma snake_game_paints: "snake_game cs v ks = Some (b, c', v', ks') \<Longrightarrow> paints u v \<Longrightarrow> paints u v'"
proof (induction "length ks" arbitrary: cs v ks rule: less_induct)
  case less
  from less.prems show ?case
    by (subst (asm) snake_game.simps)
      (auto simp: Let_def paints_render split: option.split_asm if_split_asm prod.split_asm
        dest!: last_key_less delay_keys_less less.hyps [rotated])
qed

lemma catnake_run_paints: "catnake_run c v ks = Some (c', v', ks') \<Longrightarrow> paints u v \<Longrightarrow> paints u v'"
proof (induction "length ks" arbitrary: c v ks rule: less_induct)
  case less
  show ?case
  proof (cases ks)
    case (Cons k ks1)
    let ?v = "catnake_draw_border (vga_clear (VGA_ATTR 15 0) v)"
    have p: "paints u ?v" using less.prems(2) by (intro paints_border paints_clear)
    obtain s r where s: "snake_start (0xC0FFEE11 + word_of_nat k) = (s, r)" by fastforce
    obtain again c1 v2 ks2 where g: "snake_game (c\<lparr>catnake_rng := r, pending_input := 0\<rparr>, s) ?v ks1 = Some (again, c1, v2, ks2)"
      using less.prems(1) s Cons by (auto simp: catnake_run.simps split: option.split_asm)
    note p2 = snake_game_paints [OF g p] and l = snake_game_less [OF g]
    then show ?thesis
      using less.prems(1) g s Cons less.hyps [of ks2 c1 v2]
      by (cases again) (auto simp: catnake_run.simps)
  qed (use less.prems in simp)
qed

lemma cmd_catnake_draws: "cmd_catnake args (w, t) = Some (w', t') \<Longrightarrow> draws t t'"
  by (auto simp: cmd_catnake_def dest!: catnake_run_paints [where u = "scr t"] intro: draws_app)

section \<open>The snake\<close>

text \<open>
  Between two frames: the body is a chain of different cells of the grid, one longer than four for
  every piece of food until the array is full; the neck lies opposite to the direction of the last
  move, and the pending direction never points back to it; the food lies off the body.
\<close>

definition unit_dir :: "pt \<Rightarrow> bool" where
  "unit_dir d \<longleftrightarrow> d \<in> {(1, 0), (-1, 0), (0, 1), (0, -1)}"

fun chain :: "pt list \<Rightarrow> bool" where
  "chain (p # q # b) \<longleftrightarrow> \<bar>fst p - fst q\<bar> + \<bar>snd p - snd q\<bar> = 1 \<and> chain (q # b)"
| "chain b \<longleftrightarrow> True"

definition snake_inv :: "catnake \<times> snake \<Rightarrow> bool" where
  "snake_inv cs \<longleftrightarrow> (let (c, s) = cs in
     distinct (body s) \<and> (\<forall>p\<in>set (body s). in_grid p) \<and> chain (body s) \<and>
     4 \<le> length (body s) \<and> int (length (body s)) = min 720 (4 + score s) \<and>
     unit_dir (dir s) \<and> unit_dir (pending_dir s) \<and> pending_dir s \<noteq> (- fst (dir s), - snd (dir s)) \<and>
     body s ! 1 = (fst (body s ! 0) - fst (dir s), snd (body s ! 0) - snd (dir s)) \<and>
     (food s = (-1, -1) \<or> in_grid (food s) \<and> food s \<notin> set (body s)) \<and>
     0 \<le> score s \<and> score s \<le> high_score c)"

lemma catnake_occupied_iff: "catnake_occupied b p \<longleftrightarrow> p \<in> set b"
  by (auto simp: catnake_occupied_def list_ex_iff prod_eq_iff)

lemma place_food_law:
  "place_food_loop n b r = (f, r') \<Longrightarrow> f = (-1, -1) \<or> in_grid f \<and> f \<notin> set b"
proof (induction n b r rule: place_food_loop.induct)
  case (2 n b r)
  have m: "\<not> 40 \<le> uint (x mod 40 :: u32)" "\<not> 18 \<le> uint (x mod 18 :: u32)" for x
    using word_mod_less_divisor [of 40 x] word_mod_less_divisor [of 18 x] by (simp_all add: word_less_def)
  show ?case
    using 2 m by (auto simp: Let_def catnake_occupied_iff in_grid_def const_defs split: if_splits)
qed simp

lemma chain_butlast: "chain (b @ [x]) \<Longrightarrow> chain b"
  by (induction b rule: chain.induct) auto

lemma chain_Cons: "b \<noteq> [] \<Longrightarrow> chain (p # b) \<longleftrightarrow> \<bar>fst p - fst (hd b)\<bar> + \<bar>snd p - snd (hd b)\<bar> = 1 \<and> chain b"
  by (cases b) auto

lemma snake_start_inv:
  assumes "snake_start r = (s, r')" and "0 \<le> high_score c"
  shows "snake_inv (c, s)" "\<not> dead s"
proof -
  let ?b = "[(10, 9), (9, 9), (8, 9), (7, 9)] :: pt list"
  have b: "map (\<lambda>i. (CATNAKE_WIDTH div 4 - int i, CATNAKE_HEIGHT div 2)) [0..<4] = ?b"
    by (simp add: const_defs upt_rec numeral_eq_Suc)
  obtain f r1 where f: "catnake_place_food ?b r = (f, r1)" by fastforce
  have s: "s = \<lparr>body = ?b, dir = (1, 0), pending_dir = (1, 0), score = 0, food = f, dead = False, old_tail = (-1, -1)\<rparr>"
    using assms(1) f by (simp add: snake_start_def b)
  show "\<not> dead s" by (simp add: s)
  have "f = (-1, -1) \<or> in_grid f \<and> f \<notin> set ?b"
    using f unfolding catnake_place_food_def by (rule place_food_law)
  then show "snake_inv (c, s)"
    using assms(2) by (auto simp: s snake_inv_def unit_dir_def in_grid_def const_defs)
qed

lemma turn_if: "Q (pending_dir s) \<Longrightarrow> (b \<Longrightarrow> Q d) \<Longrightarrow> Q (pending_dir (if b then s\<lparr>pending_dir := d\<rparr> else s))"
  by simp

lemma turn_if_frame:
  "body (if b then s\<lparr>pending_dir := d\<rparr> else s) = body s" "score (if b then s\<lparr>pending_dir := d\<rparr> else s) = score s"
  "food (if b then s\<lparr>pending_dir := d\<rparr> else s) = food s" "dead (if b then s\<lparr>pending_dir := d\<rparr> else s) = dead s"
  "dir (if b then s\<lparr>pending_dir := d\<rparr> else s) = dir s"
  by simp_all

lemma snake_turn_frame:
  "body (snake_turn k s) = body s" "score (snake_turn k s) = score s" "food (snake_turn k s) = food s"
  "dead (snake_turn k s) = dead s" "dir (snake_turn k s) = dir s"
  by (simp_all only: snake_turn_def Let_def turn_if_frame)

lemma snake_turn_inv:
  assumes "snake_inv (c, s)"
  shows "snake_inv (c\<lparr>pending_input := n\<rparr>, snake_turn k s)"
proof -
  let ?Q = "\<lambda>d. unit_dir d \<and> d \<noteq> (- fst (dir s), - snd (dir s))"
  have "unit_dir (dir s)" "?Q (pending_dir s)" using assms by (auto simp: snake_inv_def)
  then have "?Q (pending_dir (snake_turn k s))"
    unfolding snake_turn_def Let_def by (intro turn_if [where Q = ?Q]) (auto simp: unit_dir_def)
  then show ?thesis using assms by (simp add: snake_inv_def snake_turn_frame)
qed

text \<open>The body after a move to a free cell.\<close>

lemma moved_body:
  assumes b: "distinct b" "\<forall>p\<in>set b. in_grid p" "chain b" "4 \<le> length b"
    and p: "in_grid p" "p \<notin> set b" "\<bar>fst p - fst (b ! 0)\<bar> + \<bar>snd p - snd (b ! 0)\<bar> = 1"
    and b': "b' \<in> {p # b, p # butlast b}"
  shows "distinct b'" "\<forall>p\<in>set b'. in_grid p" "chain b'" "4 \<le> length b'" "b' ! 0 = p" "b' ! 1 = b ! 0"
proof -
  have "b \<noteq> []" "butlast b \<noteq> []" using b(4) by (cases b rule: rev_cases; auto)+
  then have h: "hd b = b ! 0" "hd (butlast b) = b ! 0" "butlast b ! 0 = b ! 0"
    by (simp_all add: hd_conv_nth nth_butlast flip: length_greater_0_conv)
  have "chain (butlast b)" using b(3) \<open>b \<noteq> []\<close> chain_butlast [of "butlast b" "last b"] by simp
  then show "chain b'" using b' p(3) b(3) h \<open>b \<noteq> []\<close> \<open>butlast b \<noteq> []\<close> by (auto simp: chain_Cons)
  show "distinct b'" "\<forall>p\<in>set b'. in_grid p"
    using b' b(1,2) p(1,2) by (force simp: distinct_butlast dest: in_set_butlastD)+
  show "4 \<le> length b'" "b' ! 0 = p" "b' ! 1 = b ! 0" using b' b(4) h by auto
qed

lemma snake_move_dead:
  assumes "snake_inv (c, s)" and "snake_move (c, s) = (c', s')"
  defines "p \<equiv> (fst (body s ! 0) + fst (dir s'), snd (body s ! 0) + snd (dir s'))"
  shows "dir s' = pending_dir s" "\<not> dead s \<Longrightarrow> dead s' \<longleftrightarrow> \<not> in_grid p \<or> p \<in> set (body s)"
proof -
  have h: "hd (body s) = body s ! 0" using assms(1) by (cases "body s") (auto simp: snake_inv_def)
  show d: "dir s' = pending_dir s"
    using assms(2) by (auto simp: snake_move_def snake_eat_def Let_def split: prod.split_asm if_split_asm)
  show "\<not> dead s \<Longrightarrow> dead s' \<longleftrightarrow> \<not> in_grid p \<or> p \<in> set (body s)"
    using assms(2) unfolding p_def d
    by (auto simp: snake_move_def snake_eat_def next_cell_def catnake_occupied_iff h Let_def split: prod.split_asm if_split_asm)
qed

lemma snake_move_inv:
  assumes i: "snake_inv (c, s)" and m: "snake_move (c, s) = (c', s')" and d: "\<not> dead s"
  defines "p \<equiv> (fst (body s ! 0) + fst (dir s'), snd (body s ! 0) + snd (dir s'))"
  shows "dead s' \<longrightarrow> body s' = body s \<and> score s' = score s \<and> high_score c' = high_score c"
    and "\<not> dead s' \<longrightarrow> snake_inv (c', s')"
    and "\<not> dead s' \<longrightarrow> body s' = p # (if p = food s \<and> length (body s) < 720 then body s else butlast (body s))"
    and "\<not> dead s' \<longrightarrow> score s' = score s + (if p = food s then 1 else 0)"
    and "p \<noteq> body s ! 1"
proof -
  note dd = snake_move_dead [OF i m, folded p_def]
  have h: "hd (body s) = body s ! 0" "body s \<noteq> []" using i by (cases "body s"; auto simp: snake_inv_def)+
  have u: "unit_dir (dir s)" "unit_dir (pending_dir s)" "pending_dir s \<noteq> (- fst (dir s), - snd (dir s))"
      "body s ! 1 = (fst (body s ! 0) - fst (dir s), snd (body s ! 0) - snd (dir s))"
    using i by (auto simp: snake_inv_def)
  show "p \<noteq> body s ! 1" using u by (auto simp: p_def dd(1) unit_dir_def)
  show "dead s' \<longrightarrow> body s' = body s \<and> score s' = score s \<and> high_score c' = high_score c"
    using m d by (auto simp: snake_move_def snake_eat_def Let_def split: prod.split_asm if_split_asm)
  let ?s1 = "s\<lparr>dir := pending_dir s, old_tail := last (body s), body := p # butlast (body s)\<rparr>"
  have n: "next_cell (s\<lparr>dir := pending_dir s\<rparr>) = p" by (simp add: next_cell_def p_def dd(1) h)
  have alive: "(if p = food s then snake_eat (c, ?s1) else (c, ?s1)) = (c', s')" if "\<not> dead s'"
    using m dd(2) [OF d] that by (auto simp: snake_move_def Let_def n catnake_occupied_iff prod_eq_iff)
  obtain f r where f: "catnake_place_food (p # (if length (body s) < 720 then body s else butlast (body s))) (catnake_rng c) = (f, r)"
    by fastforce
  have eat: "snake_eat (c, ?s1) =
      (c\<lparr>catnake_rng := r, high_score := (if score s + 1 > high_score c then score s + 1 else high_score c)\<rparr>,
       ?s1\<lparr>body := p # (if length (body s) < 720 then body s else butlast (body s)), old_tail := (-1, snd (last (body s))),
           score := score s + 1, food := f\<rparr>)"
    using f h(2) by (cases "length (body s) < 720") (simp_all add: snake_eat_def const_defs)
  show b': "\<not> dead s' \<longrightarrow> body s' = p # (if p = food s \<and> length (body s) < 720 then body s else butlast (body s))"
    and s': "\<not> dead s' \<longrightarrow> score s' = score s + (if p = food s then 1 else 0)"
    using alive eat by (auto split: if_splits)
  show "\<not> dead s' \<longrightarrow> snake_inv (c', s')"
  proof
    assume a: "\<not> dead s'"
    have p1: "in_grid p" "p \<notin> set (body s)" using dd(2) [OF d] a by auto
    have p2: "\<bar>fst p - fst (body s ! 0)\<bar> + \<bar>snd p - snd (body s ! 0)\<bar> = 1"
      using u(2) by (auto simp: p_def dd(1) unit_dir_def)
    have bi: "distinct (body s)" "\<forall>p\<in>set (body s). in_grid p" "chain (body s)" "4 \<le> length (body s)"
        "int (length (body s)) = min 720 (4 + score s)" "0 \<le> score s" "score s \<le> high_score c"
        "food s = (-1, -1) \<or> in_grid (food s) \<and> food s \<notin> set (body s)"
      using i by (auto simp: snake_inv_def)
    have in2: "body s' \<in> {p # body s, p # butlast (body s)}" using b' a by simp
    note mb = moved_body [OF bi(1-4) p1 p2 in2]
    have len: "int (length (body s')) = min 720 (4 + score s')" using b' s' a bi(4,5) by auto
    have fd: "food s' = (-1, -1) \<or> in_grid (food s') \<and> food s' \<notin> set (body s')"
    proof (cases "p = food s")
      case True
      then have "food s' = f" "body s' = p # (if length (body s) < 720 then body s else butlast (body s))"
        using alive [OF a] b' a eat by auto
      then show ?thesis using place_food_law [OF f [unfolded catnake_place_food_def]] by simp
    next
      case False
      then have "food s' = food s" using alive [OF a] by auto
      then show ?thesis using bi(8) False b' a by (auto dest: in_set_butlastD)
    qed
    have "pending_dir s' = pending_dir s" "score s' \<le> high_score c'"
      using alive [OF a] bi(7) eat by (auto split: if_splits)
    then show "snake_inv (c', s')"
      using mb len fd u(2) bi(6) s' a by (auto simp: snake_inv_def dd(1) p_def unit_dir_def)
  qed
qed

section \<open>Properties\<close>

text \<open>C35. A frame of the snake game: as long as the snake lives its body is a chain of different cells of the
  grid, its length is four more than the score until the array of 720 cells is full, and the food
  lies off the body; a frame moves the head one cell in the direction taken and keeps the
  tail exactly when the head is on the food. The snake dies only when that cell is off the grid or on
  its body, never on the segment behind its head, and then keeps its body and score. The state
  a game starts with satisfies this.\<close>

theorem snake_step_correct:
  assumes i: "snake_inv (c, s)" and d: "\<not> dead s" and m: "snake_step (c, s) = (c', s')"
  defines "p \<equiv> (fst (body s ! 0) + fst (dir s'), snd (body s ! 0) + snd (dir s'))"
  shows "(dead s' \<longleftrightarrow> \<not> in_grid p \<or> p \<in> set (body s)) \<and> p \<noteq> body s ! 1 \<and>
    (dead s' \<longrightarrow> body s' = body s \<and> score s' = score s) \<and>
    (\<not> dead s' \<longrightarrow> snake_inv (c', s') \<and> score s' = score s + (if p = food s then 1 else 0) \<and>
       body s' = p # (if p = food s \<and> length (body s) < 720 then body s else butlast (body s)))"
proof (cases "pending_input c \<noteq> 0")
  case True
  define c1 s1 where "c1 = c\<lparr>pending_input := 0\<rparr>" and "s1 = snake_turn (pending_input c) s"
  have t: "snake_inv (c1, s1)" "body s1 = body s" "score s1 = score s" "food s1 = food s" "\<not> dead s1"
    using snake_turn_inv [OF i] d by (simp_all add: c1_def s1_def snake_turn_frame)
  have "snake_move (c1, s1) = (c', s')" using m True by (simp add: snake_step_def c1_def s1_def)
  from snake_move_inv [OF t(1) this t(5)] snake_move_dead(2) [OF t(1) this t(5)] show ?thesis
    unfolding p_def t(2-4) by blast
next
  case False
  then have "snake_move (c, s) = (c', s')" using m by (simp add: snake_step_def)
  from snake_move_inv [OF i this d] snake_move_dead(2) [OF i this d] show ?thesis
    unfolding p_def by blast
qed

theorem snake_step_correct_witness:
  "let (s, r) = snake_start 0xC0FFEE11; c = catnake_boot\<lparr>catnake_rng := r, pending_input := KEY_UP\<rparr>;
       (c', s') = snake_step (c, s)
   in snake_inv (c', s') \<and> hd (body s') = (10, 8)"
proof -
  obtain s r where s: "snake_start 0xC0FFEE11 = (s, r)" by fastforce
  let ?c = "catnake_boot\<lparr>catnake_rng := r, pending_input := KEY_UP\<rparr>"
  obtain c' s' where m: "snake_step (?c, s) = (c', s')" by fastforce
  have i: "snake_inv (?c, s)" "\<not> dead s" using snake_start_inv [OF s, of ?c] by (simp_all add: catnake_boot_def)
  have b: "body s = [(10, 9), (9, 9), (8, 9), (7, 9)]" "dir s = (1, 0)"
    using s by (auto simp: snake_start_def const_defs upt_rec numeral_eq_Suc Let_def split: prod.split_asm)
  have "pending_dir (snake_turn KEY_UP s) = (0, -1)" by (simp add: snake_turn_def b const_defs)
  moreover have "snake_move (?c\<lparr>pending_input := 0\<rparr>, snake_turn KEY_UP s) = (c', s')"
    using m by (simp add: snake_step_def KEY_UP_def)
  ultimately have "dir s' = (0, -1)" using snake_move_dead(1) [OF snake_turn_inv [OF i(1)]] by metis
  with snake_step_correct [OF i m] b have "snake_inv (c', s')" "hd (body s') = (10, 8)"
    by (auto simp: in_grid_def const_defs)
  then show ?thesis using s m by simp
qed

text \<open>C36. The delay between two frames: up to a score of 121 it falls from 60 rounds to no fewer than 15, as the
  comment on the cap says. From a score of 122 on, the difference 60 - score / 2 is negative, its
  conversion to an unsigned number wraps round, the cap does not see it and the delay is more than four
  billion rounds: the game stands still.\<close>

theorem catnake_delay_wraps:
  assumes "0 \<le> n" and "n \<le> 716"
  shows "uint (delay_loops False n) = (if n < 122 then max 15 (60 - n div 2) else 4294967356 - n div 2)"
proof -
  define m where "m = n div 2"
  have m: "0 \<le> m" "m \<le> 358" "n < 122 \<longleftrightarrow> m \<le> 60" using assms by (auto simp: m_def)
  have w: "uint (word_of_int (60 - m) :: u32) = (if m \<le> 60 then 60 - m else 4294967356 - m)"
  proof -
    have "uint (word_of_int (60 - m) :: u32) = (60 - m) mod 4294967296"
      using uint_word_of_int [of "60 - m", where 'a = 32] by simp
    moreover have "(60 - m) mod 4294967296 = (if m \<le> 60 then 60 - m else 4294967356 - m)"
      using m(1,2) mod_add_self2 [of "60 - m" 4294967296] by (auto simp: mod_pos_pos_trivial [of "4294967356 - m"])
    ultimately show ?thesis by (simp only:)
  qed
  have l: "(word_of_int (60 - m) :: u32) < 15 \<longleftrightarrow> m \<le> 60 \<and> 60 - m < 15"
    unfolding word_less_def w using m(1,2) by auto
  show ?thesis
    unfolding delay_loops_def Let_def m_def [symmetric] m(3) using l w m(1,2) by (auto simp: max_def)
qed

theorem catnake_delay_wraps_witness: "uint (delay_loops False 122) = 4294967295"
  using catnake_delay_wraps [of 122] by simp

end
