(* ===== verification/Mamu.thy ===== *)
theory Mamu
  imports App_Screen File_Commands
begin

text \<open>
  The text editor, \<^verbatim>\<open>src/src/apps/mamu.c\<close>.  Its static variables are set anew by every run and
  are the record \<open>mamu\<close>; the arrays are lists of the arrays' sizes.
\<close>

section \<open>State and drawing\<close>

definition BUFFER_MAX :: nat where [const_defs]: "BUFFER_MAX = 4096"

record mamu =
  text_buffer :: bytes
  text_len :: nat
  curr_file :: bytes

text \<open>One character of the text at row \<open>r\<close> and column \<open>c\<close>.\<close>

definition render_char :: "u8 \<Rightarrow> int \<times> int \<times> vga \<Rightarrow> int \<times> int \<times> vga" where
  "render_char ch rcv =
     (let (r, c, v) = rcv
      in if r < VGA_HEIGHT - 1 then
           if ch = 10 then (r + 1, 0, v)
           else if c < VGA_WIDTH then (r, c + 1, vga_putchar_at r c ch THEME_APP_BG v) else (r, c, v)
         else (r, c, v))"

definition draw_ui :: "mamu \<Rightarrow> vga \<Rightarrow> vga" where
  "draw_ui m v0 =
     (let v1 = vga_fill_row 0 chr_sp THEME_TOPBAR v0;
          v2 = vga_write_at 0 2 (lit ''Mamu Editor v0.1 - File: '') THEME_TOPBAR v1;
          v3 = vga_write_at 0 27 (if curr_file m ! 0 \<noteq> 0 then cstr_of (curr_file m) else lit ''(untitled)'') THEME_TOPBAR v2;
          v4 = vga_fill_rect 1 0 (VGA_HEIGHT - 2) VGA_WIDTH chr_sp THEME_APP_BG v3;
          (r, c, v5) = fold render_char (take (text_len m) (text_buffer m)) (1, 0, v4);
          v6 = vga_fill_row (VGA_HEIGHT - 1) chr_sp THEME_MENU_BG v5
      in vga_write_at (VGA_HEIGHT - 1) 2 (lit ''F2: Save    F10: Exit    Arrows: Move'') THEME_MENU_BG v6)"

section \<open>Files\<close>

definition status_text :: "bytes \<Rightarrow> u8 \<Rightarrow> vga \<Rightarrow> vga" where
  "status_text msg attr v = vga_write_at (VGA_HEIGHT - 1) 40 msg attr v"

definition save_text :: "mamu \<Rightarrow> nat \<Rightarrow> fs \<times> vga \<Rightarrow> fs \<times> vga" where
  "save_text m node fv =
     (let (f, v) = fv
      in if node \<noteq> 0 \<and> fs_is_file f node then
           (let (ok, f1) = fs_write node (Some (take (text_len m) (text_buffer m))) (int (text_len m)) f
            in (f1, if ok then status_text (lit ''Saved successfully!'') (VGA_ATTR 15 2) v
                    else status_text (lit ''Error writing file!'') (VGA_ATTR 15 4) v))
         else (f, v))"

definition save_file :: "mamu \<Rightarrow> fs \<times> vga \<Rightarrow> (fs \<times> vga) option" where
  "save_file m fv =
     (let (f, v) = fv; name = cstr_of (curr_file m)
      in if curr_file m ! 0 = 0 then Some (f, v)
         else Option.bind (fs_resolve f (Some name)) (\<lambda>node.
           if node = 0 then
             Option.bind (fs_create_file (fs_cwd_get f) (Some name) f) (\<lambda>(ok, f1).
               if \<not> ok then Some (f1, status_text (lit ''Error creating file!'') (VGA_ATTR 15 4) v)
               else Option.bind (fs_resolve f1 (Some name)) (\<lambda>node1. Some (save_text m node1 (f1, v))))
           else Some (save_text m node (f, v))))"

definition mamu_open :: "bytes \<Rightarrow> fs \<Rightarrow> mamu option" where
  "mamu_open filename f =
     (let buf = replicate BUFFER_MAX 0
      in if filename = [] then Some \<lparr>text_buffer = buf, text_len = 0, curr_file = replicate 16 0\<rparr>
         else Option.bind (fs_resolve f (Some filename)) (\<lambda>node.
           let name = strncpy_l filename 15 @ [0]
           in if node \<noteq> 0 \<and> fs_is_file f node then
                (let (n, data) = fs_read f node False (int BUFFER_MAX - 1);
                     len = (if n < 0 then 0 else nat n)
                 in Some \<lparr>text_buffer = (data @ drop (length data) buf)[len := 0], text_len = len, curr_file = name\<rparr>)
              else Some \<lparr>text_buffer = buf, text_len = 0, curr_file = name\<rparr>))"

section \<open>Keys\<close>

definition mamu_append :: "u8 \<Rightarrow> mamu \<Rightarrow> mamu" where
  "mamu_append c m =
     (if text_len m < BUFFER_MAX - 1
      then m\<lparr>text_buffer := (text_buffer m)[text_len m := c, text_len m + 1 := 0], text_len := text_len m + 1\<rparr> else m)"

definition mamu_key :: "nat \<Rightarrow> mamu \<Rightarrow> mamu" where
  "mamu_key k m =
     (if k = KEY_BACKSPACE then
        (if text_len m > 0 then m\<lparr>text_buffer := (text_buffer m)[text_len m - 1 := 0], text_len := text_len m - 1\<rparr> else m)
      else if k = KEY_ENTER then mamu_append 10 m
      else if k \<ge> 32 \<and> k < 127 then mamu_append (byte_of_nat k) m
      else m)"

function mamu_loop :: "mamu \<Rightarrow> fs \<times> vga \<Rightarrow> polls \<Rightarrow> ((fs \<times> vga) \<times> polls) option" where
  "mamu_loop m fv ks =
     (let fv1 = (fst fv, draw_ui m (snd fv))
      in case wait_key ks of
           None \<Rightarrow> None
         | Some (k, ks1) \<Rightarrow>
             if k = KEY_F10 then Some (fv1, ks1)
             else if k = KEY_F2 then
               (case save_file m fv1 of None \<Rightarrow> None | Some fv2 \<Rightarrow> mamu_loop m fv2 ks1)
             else mamu_loop (mamu_key k m) fv1 ks1)"
  by pat_completeness auto
termination
  by (relation "measure (\<lambda>(m, fv, ks). length ks)") (auto dest: wait_key_less)

declare mamu_loop.simps [simp del]

definition mamu_run :: "bytes \<Rightarrow> fs \<times> vga \<Rightarrow> polls \<Rightarrow> ((fs \<times> vga) \<times> polls) option" where
  "mamu_run filename fv ks =
     Option.bind (mamu_open filename (fst fv)) (\<lambda>m. mamu_loop m (fst fv, vga_clear THEME_APP_BG (snd fv)) ks)"

definition cmd_mamu :: "bytes option \<Rightarrow> (fs \<times> polls) \<times> terminal \<Rightarrow> ((fs \<times> polls) \<times> terminal) option" where
  "cmd_mamu args s =
     map_option (\<lambda>((f, v), ks). ((f, ks), term_reset_screen ((snd s)\<lparr>scr := v\<rparr>)))
       (mamu_run (case args of None \<Rightarrow> [] | Some a \<Rightarrow> a) (fst (fst s), scr (snd s)) (snd (fst s)))"

section \<open>Drawing stays on the screen\<close>

lemma paints_render_chars: "paints u v \<Longrightarrow> fold render_char xs (r, c, v) = (r', c', v') \<Longrightarrow> paints u v'"
proof (induction xs arbitrary: r c v)
  case (Cons x xs)
  obtain r1 c1 v1 where s: "render_char x (r, c, v) = (r1, c1, v1)" by (metis prod_cases3)
  then have "paints u v1" using Cons.prems(1)
    by (auto simp: render_char_def paints_putchar split: if_splits)
  then show ?case using Cons.IH Cons.prems(2) s by simp
qed simp

lemma paints_ui: "paints u v \<Longrightarrow> paints u (draw_ui m v)"
  unfolding draw_ui_def Let_def
  by (auto split: prod.split intro!: paint_rules paints_fill_rect elim!: paints_render_chars [rotated] simp: const_defs simp del: lit_Cons)

lemma save_file_paints:
  assumes "save_file m (f, v) = Some (f', v')" and "paints u v"
  shows "paints u v'"
proof -
  have st: "paints u w'" if "save_text m n (g, w) = (g', w')" "paints u w" for n g w g' w'
    using that by (auto simp: save_text_def status_text_def paints_write_at simp del: lit_Cons split: prod.split_asm if_split_asm)
  show ?thesis
    using assms st
    by (auto simp: save_file_def Let_def bind_eq_Some_conv status_text_def paints_write_at simp del: lit_Cons
        split: if_split_asm prod.split_asm)
qed

lemma mamu_loop_paints: "mamu_loop m (f, v) ks = Some ((f', v'), ks') \<Longrightarrow> paints u v \<Longrightarrow> paints u v'"
proof (induction "length ks" arbitrary: m f v ks rule: less_induct)
  case less
  let ?v = "draw_ui m v"
  have d: "paints u ?v" using less.prems(2) by (rule paints_ui)
  obtain k ks1 where w: "wait_key ks = Some (k, ks1)"
    using less.prems(1) by (cases "wait_key ks") (auto simp: mamu_loop.simps [of m])
  note l = wait_key_less [OF w]
  consider "k = KEY_F10" | "k \<noteq> KEY_F10" "k = KEY_F2" | "k \<noteq> KEY_F10" "k \<noteq> KEY_F2" by blast
  then show ?case
  proof cases
    case 1
    then show ?thesis using less.prems(1) w d by (auto simp: mamu_loop.simps [of m "(f, v)"])
  next
    case 2
    then obtain f1 v1 where s: "save_file m (f, ?v) = Some (f1, v1)" "mamu_loop m (f1, v1) ks1 = Some ((f', v'), ks')"
      using less.prems(1) w by (cases "save_file m (f, ?v)") (auto simp: mamu_loop.simps [of m "(f, v)"])
    show ?thesis using less.hyps [OF _ s(2)] l save_file_paints [OF s(1) d] by blast
  next
    case 3
    then have "mamu_loop (mamu_key k m) (f, ?v) ks1 = Some ((f', v'), ks')"
      using less.prems(1) w by (simp add: mamu_loop.simps [of m "(f, v)"])
    from less.hyps [OF _ this d] l show ?thesis by blast
  qed
qed

lemma cmd_mamu_draws: "cmd_mamu args (w, t) = Some (w', t') \<Longrightarrow> draws t t'"
  by (auto simp: cmd_mamu_def mamu_run_def bind_eq_Some_conv paints_clear dest!: mamu_loop_paints [where u = "scr t"]
      intro: draws_app)

section \<open>The text\<close>

text \<open>What the buffer holds, and the editor as an operation on that text.\<close>

definition mamu_wf :: "mamu \<Rightarrow> bool" where
  "mamu_wf m \<longleftrightarrow> length (text_buffer m) = 4096 \<and> text_len m \<le> 4095 \<and> length (curr_file m) = 16 \<and> curr_file m ! 15 = 0"

definition mamu_text :: "mamu \<Rightarrow> bytes" where
  "mamu_text m = take (text_len m) (text_buffer m)"

definition add_char :: "u8 \<Rightarrow> bytes \<Rightarrow> bytes" where
  "add_char c s = (if length s < 4095 then s @ [c] else s)"

definition edit_text :: "nat \<Rightarrow> bytes \<Rightarrow> bytes" where
  "edit_text k s =
     (if k = KEY_BACKSPACE then butlast s
      else if k = KEY_ENTER then add_char 10 s
      else if 32 \<le> k \<and> k < 127 then add_char (byte_of_nat k) s else s)"

lemma mamu_text_length: "mamu_wf m \<Longrightarrow> length (mamu_text m) = text_len m"
  by (simp add: mamu_wf_def mamu_text_def)

lemma mamu_append_text:
  assumes "mamu_wf m"
  shows "mamu_wf (mamu_append c m)" "mamu_text (mamu_append c m) = add_char c (mamu_text m)"
    "curr_file (mamu_append c m) = curr_file m"
proof -
  have w: "length (text_buffer m) = 4096" "text_len m \<le> 4095" using assms by (simp_all add: mamu_wf_def)
  show "mamu_wf (mamu_append c m)" "curr_file (mamu_append c m) = curr_file m"
    using assms by (auto simp: mamu_wf_def mamu_append_def const_defs)
  show "mamu_text (mamu_append c m) = add_char c (mamu_text m)"
  proof (cases "text_len m < 4095")
    case True
    then show ?thesis
      using w by (simp add: mamu_text_def mamu_append_def add_char_def const_defs take_Suc_conv_app_nth)
  qed (use w in \<open>simp add: mamu_text_def mamu_append_def add_char_def const_defs\<close>)
qed

lemma mamu_key_text:
  assumes "mamu_wf m"
  shows "mamu_wf (mamu_key k m)" "mamu_text (mamu_key k m) = edit_text k (mamu_text m)"
    "curr_file (mamu_key k m) = curr_file m"
proof -
  have w: "length (text_buffer m) = 4096" "text_len m \<le> 4095" using assms by (simp_all add: mamu_wf_def)
  have b: "take (text_len m - 1) (text_buffer m) = butlast (take (text_len m) (text_buffer m))"
    using w by (simp add: butlast_take)
  show "mamu_wf (mamu_key k m)" "curr_file (mamu_key k m) = curr_file m"
    using assms mamu_append_text [OF assms] by (auto simp: mamu_key_def mamu_wf_def)
  show "mamu_text (mamu_key k m) = edit_text k (mamu_text m)"
  proof (cases "k = KEY_BACKSPACE")
    case True
    then show ?thesis using b w by (auto simp: mamu_key_def edit_text_def mamu_text_def)
  qed (simp add: mamu_key_def edit_text_def mamu_append_text(2) [OF assms])
qed

lemma mamu_keys_text:
  assumes "mamu_wf m" "KEY_F2 \<notin> set keys" "KEY_F10 \<notin> set keys"
  shows "\<exists>m' v'. mamu_loop m (f, v) (keys @ rest) = mamu_loop m' (f, v') rest \<and> mamu_wf m' \<and>
    mamu_text m' = fold edit_text keys (mamu_text m) \<and> curr_file m' = curr_file m"
  using assms
proof (induction keys arbitrary: m v)
  case (Cons k keys)
  show ?case
  proof (cases "k = 0")
    case True
    then have "edit_text k s = s" for s by (simp add: edit_text_def const_defs)
    moreover have "mamu_loop m (f, v) ((k # keys) @ rest) = mamu_loop m (f, v) (keys @ rest)"
      using True by (simp add: mamu_loop.simps [of m "(f, v)"])
    ultimately show ?thesis using Cons.IH [OF Cons.prems(1), of v] Cons.prems by simp
  next
    case False
    then have "mamu_loop m (f, v) ((k # keys) @ rest) = mamu_loop (mamu_key k m) (f, draw_ui m v) (keys @ rest)"
      using Cons.prems by (subst mamu_loop.simps) (auto simp: Let_def)
    then show ?thesis
      using Cons.IH [of "mamu_key k m" "draw_ui m v"] mamu_key_text [OF Cons.prems(1), of k] Cons.prems by simp
  qed
qed auto

section \<open>Files\<close>

lemma mamu_open_law:
  assumes "fs_resolve_checked f (Some name) = Some (Some n)" and "n \<noteq> 0" and "fs_is_file f n" and "name \<noteq> []"
  shows "\<exists>m. mamu_open name f = Some m \<and> mamu_wf m \<and> mamu_text m = take 4095 (fs_contents f n) \<and>
    curr_file m = strncpy_l name 15 @ [0]"
proof -
  let ?d = "take 4095 (fs_contents f n)"
  let ?b = "(?d @ drop (length ?d) (replicate 4096 0))[length ?d := 0]"
  have rd: "fs_read f n False (int BUFFER_MAX - 1) = (int (length ?d), ?d)"
    using fs_read_contents [OF assms(3), of 4095] by (simp add: const_defs min.commute)
  have m: "mamu_open name f = Some \<lparr>text_buffer = ?b, text_len = length ?d, curr_file = strncpy_l name 15 @ [0]\<rparr>"
    unfolding mamu_open_def using assms rd by (simp add: fs_resolve_def const_defs Let_def del: length_take)
  have "length ?b = 4096" "take (length ?d) ?b = ?d" by (auto simp: min_def)
  then show ?thesis
    unfolding m by (auto simp: mamu_wf_def mamu_text_def strncpy_l_def nth_append min_def)
qed

lemma name_array:
  assumes "0 \<notin> set name" and "name \<noteq> []"
  shows "cstr_of (strncpy_l name 15 @ [0]) = take 15 name" "(strncpy_l name 15 @ [0]) ! 0 \<noteq> 0"
proof -
  have nz: "\<forall>b\<in>set (take 15 name). b \<noteq> 0" using assms(1) by (auto dest: in_set_takeD)
  have "strncpy_l name 15 @ [0] = take 15 name @ replicate (Suc (15 - length name)) 0"
    by (simp add: strncpy_l_def replicate_append_same)
  then show "cstr_of (strncpy_l name 15 @ [0]) = take 15 name"
    unfolding cstr_of_def by (simp only: takeWhile_replicate_stop [OF nz] simp_thms)
  show "(strncpy_l name 15 @ [0]) ! 0 \<noteq> 0"
    using assms by (cases name) (auto simp: strncpy_l_def)
qed

lemma save_law:
  assumes wf: "shell_wf f" and m: "mamu_wf m" "curr_file m = strncpy_l name 15 @ [0]"
    and name: "0 \<notin> set name" "name \<noteq> []"
    and r: "fs_resolve_checked f (Some (take 15 name)) = Some (Some n)" "fs_is_file f n"
    and room: "fs_data_free f + text_len m \<le> RAMDISK_DATA_CAP"
  shows "\<exists>f' v'. save_file m (f, v) = Some (f', v') \<and> shell_wf f' \<and> fs_contents f' n = mamu_text m \<and>
    (\<forall>x. fs_is_file f' x = fs_is_file f x) \<and> (\<forall>x. fs_is_file f x \<and> x \<noteq> n \<longrightarrow> fs_contents f' x = fs_contents f x)"
proof -
  note nm = name_array [OF name]
  have n: "n \<noteq> 0" using file_deletable [OF wf r(2)] by (simp add: deletable_def)
  have len: "length (mamu_text m) = text_len m" by (rule mamu_text_length [OF m(1)])
  have "length (mamu_text m) < 2147400000" using m(1) len by (simp add: mamu_wf_def)
  then obtain f1 where w: "fs_write n (Some (mamu_text m)) (int (length (mamu_text m))) f = (write_ok f n (mamu_text m), f1)"
      "shell_wf f1" "write_ok f n (mamu_text m) \<Longrightarrow> fs_contents f1 n = mamu_text m"
      "\<And>x. fs_is_file f x \<Longrightarrow> x \<noteq> n \<Longrightarrow> fs_contents f1 x = fs_contents f x" "fs_node_type f1 = fs_node_type f"
    using write_shell [OF wf] by metis
  have ok: "write_ok f n (mamu_text m)" using r(2) room len by (simp add: write_ok_def)
  have "fs_write n (Some (take (text_len m) (text_buffer m))) (int (text_len m)) f = (True, f1)"
    using w(1) ok len by (simp add: mamu_text_def)
  then have "save_file m (f, v) = Some (f1, status_text (lit ''Saved successfully!'') (VGA_ATTR 15 2) v)"
    unfolding save_file_def m(2) using nm r n by (simp add: fs_resolve_def save_text_def del: lit_Cons)
  then show ?thesis using w(2-5) ok by (auto simp: fs_is_file_def)
qed

section \<open>Properties\<close>

text \<open>C37. A session of the editor: the file is opened, any keys but F2 and F10 are pressed, then F2 and F10.
  The session ends, and the text that the keys make of the first 4095 bytes of the file is stored under the
  path cut to 15 characters: for a path of at most 15 characters in the file itself, for a longer one in
  whatever file the cut path names. All other files keep their contents.\<close>

theorem mamu_session_saves:
  assumes wf: "shell_wf f" and name: "0 \<notin> set name" "name \<noteq> []"
    and n: "fs_resolve_checked f (Some name) = Some (Some n)" "fs_is_file f n"
    and d: "fs_resolve_checked f (Some (take 15 name)) = Some (Some d)" "fs_is_file f d"
    and keys: "KEY_F2 \<notin> set keys" "KEY_F10 \<notin> set keys"
    and room: "fs_data_free f + length (fold edit_text keys (take 4095 (fs_contents f n))) \<le> RAMDISK_DATA_CAP"
  shows "\<exists>f' v'. mamu_run name (f, v) (keys @ [KEY_F2, KEY_F10]) = Some ((f', v'), []) \<and> shell_wf f' \<and>
    fs_contents f' d = fold edit_text keys (take 4095 (fs_contents f n)) \<and>
    (\<forall>x. fs_is_file f x \<and> x \<noteq> d \<longrightarrow> fs_is_file f' x \<and> fs_contents f' x = fs_contents f x)"
proof -
  have "n \<noteq> 0" using file_deletable [OF wf n(2)] by (simp add: deletable_def)
  then obtain m where m: "mamu_open name f = Some m" "mamu_wf m" "mamu_text m = take 4095 (fs_contents f n)"
      "curr_file m = strncpy_l name 15 @ [0]"
    using mamu_open_law [OF n(1) _ n(2) name(2)] by blast
  obtain m' v1 where k: "mamu_loop m (f, vga_clear THEME_APP_BG v) (keys @ [KEY_F2, KEY_F10]) = mamu_loop m' (f, v1) [KEY_F2, KEY_F10]"
      "mamu_wf m'" "mamu_text m' = fold edit_text keys (mamu_text m)" "curr_file m' = curr_file m"
    using mamu_keys_text [OF m(2) keys] by blast
  have "fs_data_free f + text_len m' \<le> RAMDISK_DATA_CAP"
    using room k(3) m(3) mamu_text_length [OF k(2)] by simp
  then obtain f' v2 where s: "save_file m' (f, draw_ui m' v1) = Some (f', v2)" "shell_wf f'" "fs_contents f' d = mamu_text m'"
      "\<forall>x. fs_is_file f' x = fs_is_file f x" "\<forall>x. fs_is_file f x \<and> x \<noteq> d \<longrightarrow> fs_contents f' x = fs_contents f x"
    using save_law [OF wf k(2) _ name d] k(4) m(4) by metis
  have keyvals: "KEY_F2 \<noteq> 0" "KEY_F10 \<noteq> 0" "KEY_F2 \<noteq> KEY_F10" by (simp_all add: const_defs)
  have "mamu_loop m' (f, v1) [KEY_F2, KEY_F10] = Some ((f', draw_ui m' v2), [])"
    using s(1) keyvals by (simp add: mamu_loop.simps [of m' "(f, v1)"] mamu_loop.simps [of m' "(f', v2)"])
  then show ?thesis using m(1,3) k(1,3) s by (simp add: mamu_run_def)
qed

theorem mamu_session_saves_witness:
  "\<exists>f' v'. mamu_run [97] (disk_da, \<lparr>cells = \<lambda>_. 0, crtc = []\<rparr>) ([104, 0, KEY_BACKSPACE, 72, 105, KEY_ENTER] @ [KEY_F2, KEY_F10]) =
     Some ((f', v'), []) \<and> fs_contents f' 2 = [72, 105, 10]"
proof -
  have e: "fold edit_text [104, 0, KEY_BACKSPACE, 72, 105, KEY_ENTER] [] = [72, 105, 10]"
    by (simp add: edit_text_def add_char_def byte_of_nat_def const_defs)
  have "KEY_F2 \<notin> set [104, 0, KEY_BACKSPACE, 72, 105, KEY_ENTER]" "KEY_F10 \<notin> set [104, 0, KEY_BACKSPACE, 72, 105, KEY_ENTER]"
    by (simp_all add: const_defs)
  from mamu_session_saves [OF disk_da_shell _ _ disk_da_resolve(1,2) _ _ this, where d = 2 and v = "\<lparr>cells = \<lambda>_. 0, crtc = []\<rparr>"]
  show ?thesis using disk_da_resolve e by (auto simp: RAMDISK_DATA_CAP_def)
qed

end
