(* ===== verification/Mouse.thy ===== *)
theory Mouse
  imports Port_IO Vga
begin

text \<open>
  The PS/2 mouse, \<^verbatim>\<open>src/src/drivers/mouse.c\<close>: the handshake with the controller, whose waits
  are bounded by a guard, and the three-byte packet machine that moves the pointer.  The
  controller is the device argument.  The accumulated deltas are integers here; they grow by at most
  128 per packet and are reset by \<open>mouse_get_delta\<close>.
\<close>

definition KB_DATA_PORT :: nat where [const_defs]: "KB_DATA_PORT = 96"
definition KB_STATUS_PORT :: nat where [const_defs]: "KB_STATUS_PORT = 100"
definition KB_STATUS_OBF :: u8 where [const_defs]: "KB_STATUS_OBF = 1"
definition KB_STATUS_IBF :: u8 where [const_defs]: "KB_STATUS_IBF = 2"
definition KB_STATUS_AUX :: u8 where [const_defs]: "KB_STATUS_AUX = 32"

record mouse =
  g_mouse_x :: int
  g_mouse_y :: int
  g_dx_accum :: int
  g_dy_accum :: int
  g_buttons :: u8
  g_has_event :: bool
  g_ready :: bool
  g_packet :: bytes
  g_packet_idx :: nat

definition clampi :: "int \<Rightarrow> int \<Rightarrow> int \<Rightarrow> int" where
  "clampi v lo hi = (if v < lo then lo else if v > hi then hi else v)"

fun ps2_wait_input_clear :: "'d device \<Rightarrow> nat \<Rightarrow> 'd \<Rightarrow> bool \<times> 'd" where
  "ps2_wait_input_clear dv 0 d = (False, d)"
| "ps2_wait_input_clear dv (Suc guard) d =
     (let (st, d1) = inb dv KB_STATUS_PORT d
      in if st AND KB_STATUS_IBF = 0 then (True, d1) else ps2_wait_input_clear dv guard d1)"

fun ps2_wait_output_full :: "'d device \<Rightarrow> nat \<Rightarrow> 'd \<Rightarrow> bool \<times> 'd" where
  "ps2_wait_output_full dv 0 d = (False, d)"
| "ps2_wait_output_full dv (Suc guard) d =
     (let (st, d1) = inb dv KB_STATUS_PORT d
      in if st AND KB_STATUS_OBF \<noteq> 0 then (True, d1) else ps2_wait_output_full dv guard d1)"

definition mouse_read_data :: "'d device \<Rightarrow> 'd \<Rightarrow> u8 option \<times> 'd" where
  "mouse_read_data dv d =
     (let (ok, d1) = ps2_wait_output_full dv 800000 d
      in if ok then (let (v, d2) = inb dv KB_DATA_PORT d1 in (Some v, d2)) else (None, d1))"

text \<open>The pattern \<open>if (!ps2_wait_input_clear(800000u)) return 0; outb(port, v);\<close>.\<close>

definition ps2_send :: "'d device \<Rightarrow> nat \<Rightarrow> u8 \<Rightarrow> 'd \<Rightarrow> bool \<times> 'd" where
  "ps2_send dv port v d =
     (let (ok, d1) = ps2_wait_input_clear dv 800000 d
      in if ok then (True, outb dv port v d1) else (False, d1))"

definition mouse_write_device :: "'d device \<Rightarrow> u8 \<Rightarrow> 'd \<Rightarrow> bool \<times> 'd" where
  "mouse_write_device dv v d =
     (let (ok1, d1) = ps2_send dv KB_STATUS_PORT 212 d
      in if \<not> ok1 then (False, d1)
         else let (ok2, d2) = ps2_send dv KB_DATA_PORT v d1
      in if \<not> ok2 then (False, d2)
         else let (ack, d3) = mouse_read_data dv d2
      in (ack = Some 250, d3))"

definition mouse_process_packet :: "u8 \<Rightarrow> u8 \<Rightarrow> u8 \<Rightarrow> mouse \<Rightarrow> mouse" where
  "mouse_process_packet b0 b1 b2 m =
     (if b0 AND 192 \<noteq> 0 then m
      else let dx = sint b1; dy = sint b2; new_buttons = b0 AND 7
      in m\<lparr>g_dx_accum := g_dx_accum m + dx, g_dy_accum := g_dy_accum m - dy,
           g_mouse_x := clampi (g_mouse_x m + dx) 0 (VGA_WIDTH - 1),
           g_mouse_y := clampi (g_mouse_y m - dy) 0 (VGA_HEIGHT - 1),
           g_has_event := (if dx \<noteq> 0 \<or> dy \<noteq> 0 \<or> new_buttons \<noteq> g_buttons m then True else g_has_event m),
           g_buttons := new_buttons\<rparr>)"

text \<open>The assignments at the start of \<open>mouse_init\<close>.\<close>

definition mouse_reset :: "mouse \<Rightarrow> mouse" where
  "mouse_reset m =
     m\<lparr>g_mouse_x := VGA_WIDTH div 2, g_mouse_y := VGA_HEIGHT div 2, g_dx_accum := 0, g_dy_accum := 0,
       g_buttons := 0, g_has_event := False, g_packet_idx := 0, g_ready := False\<rparr>"

definition mouse_init :: "'d device \<Rightarrow> mouse \<times> 'd \<Rightarrow> int \<times> mouse \<times> 'd" where
  "mouse_init dv s =
     (let m = mouse_reset (fst s); (ok1, d1) = ps2_send dv KB_STATUS_PORT 168 (snd s)
      in if \<not> ok1 then (0, m, d1)
         else let (ok2, d2) = ps2_send dv KB_STATUS_PORT 32 d1
      in if \<not> ok2 then (0, m, d2)
         else let (r, d3) = mouse_read_data dv d2
      in case r of None \<Rightarrow> (0, m, d3)
      | Some cmd \<Rightarrow>
         let (ok4, d4) = ps2_send dv KB_STATUS_PORT 96 d3
      in if \<not> ok4 then (0, m, d4)
         else let (ok5, d5) = ps2_send dv KB_DATA_PORT ((cmd OR 2) AND NOT 32) d4
      in if \<not> ok5 then (0, m, d5)
         else let (ok6, d6) = mouse_write_device dv 246 d5
      in if \<not> ok6 then (0, m, d6)
         else let (ok7, d7) = mouse_write_device dv 244 d6
      in if \<not> ok7 then (0, m, d7) else (1, m\<lparr>g_ready := True\<rparr>, d7))"

definition mouse_handle_aux_byte :: "u8 \<Rightarrow> mouse \<Rightarrow> mouse" where
  "mouse_handle_aux_byte data m =
     (if \<not> g_ready m then m
      else if g_packet_idx m = 0 \<and> data AND 8 = 0 then m
      else let m1 = m\<lparr>g_packet := (g_packet m)[g_packet_idx m := data], g_packet_idx := g_packet_idx m + 1\<rparr>
      in if g_packet_idx m1 \<ge> 3
         then (mouse_process_packet (g_packet m1 ! 0) (g_packet m1 ! 1) (g_packet m1 ! 2) m1)\<lparr>g_packet_idx := 0\<rparr>
         else m1)"

text \<open>The loop of \<open>mouse_poll\<close> reads the status twice per byte and ends as the controller runs dry.\<close>

partial_function (option) mouse_poll :: "'d device \<Rightarrow> mouse \<times> 'd \<Rightarrow> (mouse \<times> 'd) option" where
  "mouse_poll dv s =
     (let (st1, d1) = inb dv KB_STATUS_PORT (snd s)
      in if st1 AND KB_STATUS_OBF = 0 then Some (fst s, d1)
         else let (st2, d2) = inb dv KB_STATUS_PORT d1
      in if st2 AND KB_STATUS_AUX = 0 then Some (fst s, d2)
         else let (v, d3) = inb dv KB_DATA_PORT d2
      in mouse_poll dv (mouse_handle_aux_byte v (fst s), d3))"

definition mouse_get_screen_pos :: "mouse \<Rightarrow> int \<times> int" where
  "mouse_get_screen_pos m = (g_mouse_x m, g_mouse_y m)"

definition mouse_get_buttons :: "mouse \<Rightarrow> u8" where
  "mouse_get_buttons m = g_buttons m"

definition mouse_has_event :: "mouse \<Rightarrow> bool" where
  "mouse_has_event m = g_has_event m"

definition mouse_clear_event :: "mouse \<Rightarrow> mouse" where
  "mouse_clear_event m = m\<lparr>g_has_event := False\<rparr>"

definition mouse_get_delta :: "mouse \<Rightarrow> (int \<times> int) \<times> mouse" where
  "mouse_get_delta m = ((g_dx_accum m, g_dy_accum m), m\<lparr>g_dx_accum := 0, g_dy_accum := 0\<rparr>)"

definition mouse_set_screen_pos :: "int \<Rightarrow> int \<Rightarrow> mouse \<Rightarrow> mouse" where
  "mouse_set_screen_pos x y m =
     m\<lparr>g_mouse_x := clampi x 0 (VGA_WIDTH - 1), g_mouse_y := clampi y 0 (VGA_HEIGHT - 1)\<rparr>"

section \<open>Invariant\<close>

definition mouse_wf :: "mouse \<Rightarrow> bool" where
  "mouse_wf m \<longleftrightarrow> 0 \<le> g_mouse_x m \<and> g_mouse_x m < 80 \<and> 0 \<le> g_mouse_y m \<and> g_mouse_y m < 25 \<and>
     length (g_packet m) = 3 \<and> g_packet_idx m < 3"

lemma clampi_bounds: "lo \<le> hi \<Longrightarrow> lo \<le> clampi v lo hi \<and> clampi v lo hi \<le> hi"
  by (simp add: clampi_def)

lemma clampi_range [simp]: "0 \<le> hi \<Longrightarrow> 0 \<le> clampi v 0 hi" "0 \<le> hi \<Longrightarrow> clampi v 0 hi < hi + 1"
  by (simp_all add: clampi_def)

lemma clampi_screen [simp]: "clampi v 0 79 < 80" "clampi v 0 24 < 25"
  by (simp_all add: clampi_def)

lemma process_packet_frame [simp]:
  "g_packet (mouse_process_packet b0 b1 b2 m) = g_packet m"
  "g_packet_idx (mouse_process_packet b0 b1 b2 m) = g_packet_idx m"
  "g_ready (mouse_process_packet b0 b1 b2 m) = g_ready m"
  by (simp_all add: mouse_process_packet_def Let_def)

lemma process_packet_pos:
  "mouse_wf m \<Longrightarrow> 0 \<le> g_mouse_x (mouse_process_packet b0 b1 b2 m) \<and> g_mouse_x (mouse_process_packet b0 b1 b2 m) < 80 \<and>
    0 \<le> g_mouse_y (mouse_process_packet b0 b1 b2 m) \<and> g_mouse_y (mouse_process_packet b0 b1 b2 m) < 25"
  by (simp add: mouse_process_packet_def Let_def mouse_wf_def const_defs)

lemma mouse_wf_aux [intro]: "mouse_wf m \<Longrightarrow> mouse_wf (mouse_handle_aux_byte b m)"
  using process_packet_pos [of "m\<lparr>g_packet := (g_packet m)[g_packet_idx m := b], g_packet_idx := 0\<rparr>"]
  by (auto simp: mouse_handle_aux_byte_def mouse_wf_def Let_def mouse_process_packet_def const_defs)

lemma mouse_wf_stream: "mouse_wf m \<Longrightarrow> mouse_wf (fold mouse_handle_aux_byte bs m)"
  by (induction bs arbitrary: m) auto

lemma mouse_init_cases:
  assumes "mouse_init dv (m, d) = (r, m', d')"
  shows "r = 0 \<and> m' = mouse_reset m \<or> r = 1 \<and> m' = (mouse_reset m)\<lparr>g_ready := True\<rparr>"
  using assms by (auto simp: mouse_init_def Let_def split: prod.splits if_splits option.splits)

section \<open>Packets\<close>

text \<open>A packet in sync: the always-one bit of its first byte is set.  Its effect on the pointer.\<close>

definition packet_bytes :: "u8 \<times> u8 \<times> u8 \<Rightarrow> bytes" where
  "packet_bytes p = (case p of (b0, b1, b2) \<Rightarrow> [b0, b1, b2])"

lemma packet_bytes_simp [simp]: "packet_bytes (b0, b1, b2) = [b0, b1, b2]"
  by (simp add: packet_bytes_def)

definition move_pointer :: "u8 \<times> u8 \<times> u8 \<Rightarrow> int \<times> int \<Rightarrow> int \<times> int" where
  "move_pointer p pos = (case p of (b0, b1, b2) \<Rightarrow>
     if b0 AND 192 \<noteq> 0 then pos
     else (max 0 (min 79 (fst pos + sint b1)), max 0 (min 24 (snd pos - sint b2))))"

lemma clampi_max_min: "0 \<le> hi \<Longrightarrow> clampi v 0 hi = max 0 (min hi v)"
  by (simp add: clampi_def)

lemma packet_step:
  assumes "mouse_wf m" and "g_ready m" and "g_packet_idx m = 0" and "b0 AND 8 \<noteq> 0"
  shows "mouse_get_screen_pos (fold mouse_handle_aux_byte [b0, b1, b2] m) = move_pointer (b0, b1, b2) (mouse_get_screen_pos m)"
    and "g_ready (fold mouse_handle_aux_byte [b0, b1, b2] m)"
    and "g_packet_idx (fold mouse_handle_aux_byte [b0, b1, b2] m) = 0"
    and "g_buttons (fold mouse_handle_aux_byte [b0, b1, b2] m) = (if b0 AND 192 \<noteq> 0 then g_buttons m else b0 AND 7)"
proof -
  have len: "length (g_packet m) = 3" using assms(1) by (simp add: mouse_wf_def)
  let ?m1 = "m\<lparr>g_packet := [b0, b1, b2], g_packet_idx := 3\<rparr>"
  have f: "fold mouse_handle_aux_byte [b0, b1, b2] m = (mouse_process_packet b0 b1 b2 ?m1)\<lparr>g_packet_idx := 0\<rparr>"
  proof -
    obtain x y z where "g_packet m = [x, y, z]" using len by (auto simp: numeral_3_eq_3 length_Suc_conv)
    then show ?thesis using assms(2-4) by (simp add: mouse_handle_aux_byte_def Let_def numeral_3_eq_3)
  qed
  show "mouse_get_screen_pos (fold mouse_handle_aux_byte [b0, b1, b2] m) = move_pointer (b0, b1, b2) (mouse_get_screen_pos m)"
    unfolding f
    by (simp add: mouse_get_screen_pos_def move_pointer_def mouse_process_packet_def Let_def const_defs clampi_max_min)
  show "g_ready (fold mouse_handle_aux_byte [b0, b1, b2] m)"
    "g_packet_idx (fold mouse_handle_aux_byte [b0, b1, b2] m) = 0"
    unfolding f using assms(2) by simp_all
  show "g_buttons (fold mouse_handle_aux_byte [b0, b1, b2] m) = (if b0 AND 192 \<noteq> 0 then g_buttons m else b0 AND 7)"
    unfolding f by (simp add: mouse_process_packet_def Let_def)
qed

lemma mouse_wf_reset: "length (g_packet m) = 3 \<Longrightarrow> mouse_wf (mouse_reset m)"
  by (simp add: mouse_wf_def mouse_reset_def const_defs)

lemma packets_move:
  assumes "mouse_wf m" and "g_ready m" and "g_packet_idx m = 0" and "\<forall>p \<in> set ps. fst p AND 8 \<noteq> 0"
  shows "mouse_get_screen_pos (fold mouse_handle_aux_byte (concat (map packet_bytes ps)) m) =
    fold move_pointer ps (mouse_get_screen_pos m)"
  using assms
proof (induction ps arbitrary: m)
  case (Cons p ps)
  obtain b0 b1 b2 where p: "p = (b0, b1, b2)" by (cases p) auto
  let ?m = "fold mouse_handle_aux_byte [b0, b1, b2] m"
  have "mouse_wf ?m" using Cons.prems(1) by (rule mouse_wf_stream)
  moreover have "g_ready ?m" "g_packet_idx ?m = 0"
    using packet_step(2,3) [OF Cons.prems(1-3), of b0] Cons.prems(4) p by auto
  ultimately have "mouse_get_screen_pos (fold mouse_handle_aux_byte (concat (map packet_bytes ps)) ?m) =
      fold move_pointer ps (mouse_get_screen_pos ?m)"
    using Cons.IH Cons.prems(4) by auto
  then show ?case
    using packet_step(1) [OF Cons.prems(1-3), of b0 b1 b2] Cons.prems(4) p by simp
qed simp

text \<open>
  C25.  The mouse: whatever the controller answers, \<open>mouse_init\<close> returns; after it, whatever
  bytes arrive, the pointer stays on the screen and the packet index stays inside the
  three-byte buffer; and when the initialisation succeeded, stray bytes without the sync bit
  are skipped and every packet in sync moves the pointer by its signed deltas, the vertical
  one reversed, clamped to the screen, while packets that report an overflow move nothing.
\<close>

theorem mouse_packets_correct:
  assumes "length (g_packet m) = 3" and "mouse_init dv (m, d) = (r, m', d')"
  shows "mouse_wf (fold mouse_handle_aux_byte bs m') \<and> (r = 0 \<or> r = 1) \<and>
    (r = 1 \<and> (\<forall>b \<in> set junk. b AND 8 = 0) \<and> (\<forall>p \<in> set ps. fst p AND 8 \<noteq> 0) \<longrightarrow>
      mouse_get_screen_pos (fold mouse_handle_aux_byte (junk @ concat (map packet_bytes ps)) m') =
        fold move_pointer ps (40, 12))"
proof -
  note i = mouse_init_cases [OF assms(2)]
  have wf: "mouse_wf m'" using i mouse_wf_reset [OF assms(1)] by (auto simp: mouse_wf_def)
  have junk: "fold mouse_handle_aux_byte junk m' = m'" if "\<forall>b \<in> set junk. b AND 8 = 0" "g_packet_idx m' = 0"
    using that by (induction junk) (simp_all add: mouse_handle_aux_byte_def)
  have idx: "g_packet_idx m' = 0" using i by (auto simp: mouse_reset_def)
  have "mouse_get_screen_pos m' = (40, 12)" using i by (auto simp: mouse_reset_def mouse_get_screen_pos_def const_defs)
  moreover have "g_ready m'" if "r = 1" using i that by auto
  ultimately show ?thesis
    using i mouse_wf_stream [OF wf] packets_move [OF wf _ idx, of ps] junk idx by auto
qed

text \<open>A controller that is always ready and acknowledges every command.\<close>

definition obliging :: "unit device" where
  "obliging = \<lparr>dev_in = (\<lambda>port d. (if port = 100 then 1 else 250, d)), dev_out = (\<lambda>_ _ d. d)\<rparr>"

theorem mouse_packets_correct_witness:
  "\<exists>m'. mouse_init obliging (\<lparr>g_mouse_x = 0, g_mouse_y = 0, g_dx_accum = 0, g_dy_accum = 0, g_buttons = 0,
       g_has_event = False, g_ready = False, g_packet = [0, 0, 0], g_packet_idx = 0\<rparr>, ()) = (1, m', ()) \<and>
    mouse_get_screen_pos (fold mouse_handle_aux_byte [0, 9, 5, 254] m') = (45, 14)"
proof -
  let ?m = "\<lparr>g_mouse_x = 0, g_mouse_y = 0, g_dx_accum = 0, g_dy_accum = 0, g_buttons = 0,
       g_has_event = False, g_ready = False, g_packet = [0, 0, 0], g_packet_idx = 0\<rparr> :: mouse"
  have w: "ps2_wait_input_clear obliging 800000 d = (True, d)" "ps2_wait_output_full obliging 800000 d = (True, d)" for d
    using ps2_wait_input_clear.simps(2) [of obliging 799999 d] ps2_wait_output_full.simps(2) [of obliging 799999 d]
    by (simp_all add: obliging_def inb_def const_defs del: ps2_wait_input_clear.simps ps2_wait_output_full.simps)
  have i: "mouse_init obliging (?m, ()) = (1, (mouse_reset ?m)\<lparr>g_ready := True\<rparr>, ())"
    unfolding mouse_init_def mouse_write_device_def ps2_send_def mouse_read_data_def w Let_def
    by (simp add: obliging_def inb_def outb_def const_defs)
  have "mouse_get_screen_pos (fold mouse_handle_aux_byte ([0] @ concat (map packet_bytes [(9, 5, 254)]))
      ((mouse_reset ?m)\<lparr>g_ready := True\<rparr>)) = fold move_pointer [(9, 5, 254)] (40, 12)"
    using mouse_packets_correct [OF _ i, of "[]" "[0]" "[(9, 5, 254)]"] by simp
  moreover have "fold move_pointer [(9, 5, 254)] (40, 12) = (45, 14)"
    by (simp add: move_pointer_def)
  ultimately show ?thesis using i by auto
qed

end
