(* ===== verification/Desktop.thy ===== *)
theory Desktop
  imports App_Screen Graphics Mouse
begin

text \<open>
  The windowed desktop, \<^verbatim>\<open>src/src/apps/desktop.c\<close>.  Its static variables are the record
  \<open>desktop\<close>; the pointer is that of the mouse driver.  The program runs over the list of the
  keyboard polls and the list of the bytes that the mouse sends from one frame's reading of the
  mouse to the next (\<open>mouse_poll\<close> and \<open>keyboard_poll\<close> hand all of them to the driver).
\<close>

unbundle bit_operations_syntax

section \<open>State\<close>

definition DESKTOP_TOP :: int where [const_defs]: "DESKTOP_TOP = 1"
definition DESKTOP_BOTTOM :: int where [const_defs]: "DESKTOP_BOTTOM = 21"
definition DOCK_TOP :: int where [const_defs]: "DOCK_TOP = 22"
definition DOCK_HEIGHT :: int where [const_defs]: "DOCK_HEIGHT = 3"
definition WINDOW_COUNT :: nat where [const_defs]: "WINDOW_COUNT = 4"
definition MENU_X :: int where [const_defs]: "MENU_X = 1"
definition MENU_Y :: int where [const_defs]: "MENU_Y = 1"
definition MENU_W :: int where [const_defs]: "MENU_W = 28"
definition MENU_H :: int where [const_defs]: "MENU_H = 7"
definition DOCK_SLOT_W :: int where [const_defs]: "DOCK_SLOT_W = 14"
definition DOCK_START_X :: int where [const_defs]: "DOCK_START_X = (VGA_WIDTH - int WINDOW_COUNT * DOCK_SLOT_W) div 2"

record desk_window =
  win_id :: bytes
  win_title :: bytes
  win_x :: int
  win_y :: int
  win_w :: int
  win_h :: int
  win_visible :: bool

record desktop =
  g_windows :: "desk_window list"
  g_zorder :: "nat list"
  g_active_win :: nat
  g_dock_index :: int
  g_menu_open :: bool
  g_drag_active :: bool
  g_drag_window :: int
  desk_mouse_ok :: bool
  desk_mouse_x :: int
  desk_mouse_y :: int
  g_left_prev :: bool
  g_frame_counter :: u32

definition desk_windows_boot :: "desk_window list" where
  "desk_windows_boot =
     [\<lparr>win_id = lit ''term'', win_title = lit ''Terminal'', win_x = 4, win_y = 4, win_w = 38, win_h = 12, win_visible = True\<rparr>,
      \<lparr>win_id = lit ''notes'', win_title = lit ''Notes'', win_x = 18, win_y = 6, win_w = 34, win_h = 11, win_visible = True\<rparr>,
      \<lparr>win_id = lit ''about'', win_title = lit ''About HeatOS'', win_x = 28, win_y = 5, win_w = 44, win_h = 12, win_visible = True\<rparr>,
      \<lparr>win_id = lit ''retro'', win_title = lit ''Retro Board'', win_x = 12, win_y = 8, win_w = 36, win_h = 10, win_visible = False\<rparr>]"

definition g_dock_items :: "bytes list" where
  "g_dock_items = [lit ''Terminal'', lit ''Notes'', lit ''About'', lit ''Retro'']"

definition desktop_boot :: desktop where
  "desktop_boot =
     \<lparr>g_windows = desk_windows_boot, g_zorder = [0, 1, 3, 2], g_active_win = 2, g_dock_index = 0, g_menu_open = False,
      g_drag_active = False, g_drag_window = -1, desk_mouse_ok = False, desk_mouse_x = VGA_WIDTH div 2,
      desk_mouse_y = VGA_HEIGHT div 2, g_left_prev = False, g_frame_counter = 0\<rparr>"

section \<open>Windows\<close>

definition desk_clampi :: "int \<Rightarrow> int \<Rightarrow> int \<Rightarrow> int" where
  "desk_clampi v lo hi = (if v < lo then lo else if v > hi then hi else v)"

definition dock_slot_x :: "int \<Rightarrow> int" where
  "dock_slot_x idx = DOCK_START_X + idx * DOCK_SLOT_W"

definition clamp_window :: "desk_window \<Rightarrow> desk_window" where
  "clamp_window w =
     (let min_x = 1; max_x = VGA_WIDTH - win_w w - 1; min_y = DESKTOP_TOP + 1; max_y = DESKTOP_BOTTOM - win_h w
      in w\<lparr>win_x := desk_clampi (win_x w) min_x (if max_x < min_x then min_x else max_x),
           win_y := desk_clampi (win_y w) min_y (if max_y < min_y then min_y else max_y)\<rparr>)"

definition bring_to_front :: "int \<Rightarrow> desktop \<Rightarrow> desktop" where
  "bring_to_front win_idx d =
     (if win_idx < 0 \<or> win_idx \<ge> int WINDOW_COUNT then d
      else let z = g_zorder d; pos = length (takeWhile (\<lambda>x. x \<noteq> nat win_idx) z)
           in if pos \<ge> WINDOW_COUNT then d
              else d\<lparr>g_zorder := (fold (\<lambda>i z. z[i := z ! (i + 1)]) [pos..<WINDOW_COUNT - 1] z)[WINDOW_COUNT - 1 := nat win_idx],
                     g_active_win := nat win_idx\<rparr>)"

definition window_from_dock :: "int \<Rightarrow> int" where
  "window_from_dock idx = (if idx < 0 \<or> idx \<ge> int WINDOW_COUNT then 0 else idx)"

definition show_window :: "bool \<Rightarrow> int \<Rightarrow> desktop \<Rightarrow> desktop" where
  "show_window b i d = d\<lparr>g_windows := (g_windows d)[nat i := (g_windows d ! nat i)\<lparr>win_visible := b\<rparr>]\<rparr>"

definition in_window :: "int \<Rightarrow> int \<Rightarrow> desk_window \<Rightarrow> bool" where
  "in_window x y w \<longleftrightarrow> x \<ge> win_x w \<and> x < win_x w + win_w w \<and> y \<ge> win_y w \<and> y < win_y w + win_h w"

text \<open>The loop from the front to the back: the first visible window under the point.\<close>

fun hit_loop :: "desktop \<Rightarrow> int \<Rightarrow> int \<Rightarrow> nat list \<Rightarrow> int" where
  "hit_loop d x y [] = -1"
| "hit_loop d x y (i # is) =
     (if \<not> win_visible (g_windows d ! i) then hit_loop d x y is
      else if in_window x y (g_windows d ! i) then int i else hit_loop d x y is)"

definition window_hit_test :: "int \<Rightarrow> int \<Rightarrow> desktop \<Rightarrow> int" where
  "window_hit_test x y d = hit_loop d x y (rev (g_zorder d))"

fun dock_hit_loop :: "int \<Rightarrow> nat list \<Rightarrow> int" where
  "dock_hit_loop x [] = -1"
| "dock_hit_loop x (i # is) =
     (let sx = dock_slot_x (int i); ex = sx + DOCK_SLOT_W - 1
      in if x \<ge> sx \<and> x < ex then int i else dock_hit_loop x is)"

definition dock_item_hit_test :: "int \<Rightarrow> int \<Rightarrow> int" where
  "dock_item_hit_test x y = (if y \<noteq> DOCK_TOP + 1 then -1 else dock_hit_loop x [0..<WINDOW_COUNT])"

definition menu_contains :: "int \<Rightarrow> int \<Rightarrow> bool" where
  "menu_contains x y \<longleftrightarrow> x \<ge> MENU_X \<and> x < MENU_X + MENU_W \<and> y \<ge> MENU_Y \<and> y < MENU_Y + MENU_H"

definition menu_item_hit_test :: "int \<Rightarrow> int \<Rightarrow> int" where
  "menu_item_hit_test x y =
     (if \<not> menu_contains x y then -1
      else if y = MENU_Y + 1 then 0 else if y = MENU_Y + 2 then 1
      else if y = MENU_Y + 3 then 2 else if y = MENU_Y + 4 then 3 else -1)"

definition place_window :: "nat \<Rightarrow> int \<Rightarrow> int \<Rightarrow> bool \<Rightarrow> desk_window list \<Rightarrow> desk_window list" where
  "place_window i x y b ws = ws[i := (ws ! i)\<lparr>win_x := x, win_y := y, win_visible := b\<rparr>]"

definition reset_layout :: "desktop \<Rightarrow> desktop" where
  "reset_layout d =
     d\<lparr>g_windows := place_window 3 12 8 False (place_window 2 28 5 True (place_window 1 18 6 True (place_window 0 4 4 True (g_windows d)))),
       g_zorder := [0, 1, 3, 2], g_active_win := 2, g_dock_index := 0, g_menu_open := False,
       g_drag_active := False, g_drag_window := -1, g_left_prev := False\<rparr>"

section \<open>Input\<close>

definition handle_menu_action :: "int \<Rightarrow> desktop \<Rightarrow> desktop" where
  "handle_menu_action item d =
     (let d1 = (if item = 0 then bring_to_front 2 (show_window True 2 d)
                else if item = 1 then reset_layout d
                else if item = 2 then show_window False (int (g_active_win d)) d else d)
      in d1\<lparr>g_menu_open := False\<rparr>)"

text \<open>The press on a window: it comes to the front; its close button hides it, its title bar starts a drag.\<close>

definition press_window :: "int \<Rightarrow> desktop \<Rightarrow> desktop" where
  "press_window win_idx d =
     (let w = g_windows d ! nat win_idx; d1 = bring_to_front win_idx d
      in if desk_mouse_y d = win_y w \<and> desk_mouse_x d \<ge> win_x w + 1 \<and> desk_mouse_x d \<le> win_x w + 2
         then show_window False win_idx d1
         else if desk_mouse_y d = win_y w then d1\<lparr>g_drag_active := True, g_drag_window := win_idx\<rparr> else d1)"

definition press_desktop :: "desktop \<Rightarrow> desktop" where
  "press_desktop d =
     (let dock_idx = dock_item_hit_test (desk_mouse_x d) (desk_mouse_y d)
      in if dock_idx \<ge> 0 then
           (let win_idx = window_from_dock dock_idx in bring_to_front win_idx (show_window True win_idx (d\<lparr>g_dock_index := dock_idx\<rparr>)))
         else let win_idx = window_hit_test (desk_mouse_x d) (desk_mouse_y d) d
              in if win_idx \<ge> 0 then press_window win_idx d else d)"

definition handle_mouse_press :: "desktop \<Rightarrow> desktop" where
  "handle_mouse_press d =
     (if desk_mouse_y d = 0 \<and> desk_mouse_x d \<le> 8 then d\<lparr>g_menu_open := \<not> g_menu_open d\<rparr>
      else if g_menu_open d \<and> menu_item_hit_test (desk_mouse_x d) (desk_mouse_y d) \<ge> 0
      then handle_menu_action (menu_item_hit_test (desk_mouse_x d) (desk_mouse_y d)) d
      else press_desktop
        (if g_menu_open d \<and> \<not> menu_contains (desk_mouse_x d) (desk_mouse_y d) then d\<lparr>g_menu_open := False\<rparr> else d))"

definition drag_window :: "int \<Rightarrow> int \<Rightarrow> desktop \<Rightarrow> desktop" where
  "drag_window dx dy d =
     (let i = nat (g_drag_window d); w = g_windows d ! i
      in d\<lparr>g_windows := (g_windows d)[i := clamp_window (w\<lparr>win_x := win_x w + dx, win_y := win_y w + dy\<rparr>)]\<rparr>)"

text \<open>What a frame does with the position, the movement and the left button.\<close>

definition mouse_frame :: "int \<times> int \<Rightarrow> int \<times> int \<Rightarrow> bool \<Rightarrow> desktop \<Rightarrow> desktop" where
  "mouse_frame xy dxy left d0 =
     (let d1 = d0\<lparr>desk_mouse_x := fst xy, desk_mouse_y := snd xy\<rparr>;
          d2 = (if g_drag_active d1 \<and> g_drag_window d1 \<ge> 0 \<and> left then drag_window (fst dxy) (snd dxy) d1 else d1);
          d3 = (if left \<and> \<not> g_left_prev d2 then handle_mouse_press d2 else d2);
          d4 = (if \<not> left \<and> g_left_prev d3 then d3\<lparr>g_drag_active := False, g_drag_window := -1\<rparr> else d3)
      in d4\<lparr>g_left_prev := left\<rparr>)"

definition process_mouse :: "bytes \<Rightarrow> mouse \<times> desktop \<Rightarrow> mouse \<times> desktop" where
  "process_mouse bs s =
     (let m = fold mouse_handle_aux_byte bs (fst s);
          (dxy, m1) = mouse_get_delta m;
          left = (mouse_get_buttons m AND 1 \<noteq> 0)
      in (m1, mouse_frame (mouse_get_screen_pos m) dxy left (snd s)))"

definition handle_keyboard_fallback :: "nat \<Rightarrow> desktop \<Rightarrow> desktop" where
  "handle_keyboard_fallback key d =
     (if key = KEY_TAB then
        (let pos = (length (takeWhile (\<lambda>z. z \<noteq> g_active_win d) (g_zorder d)) + 1) mod WINDOW_COUNT;
             d1 = bring_to_front (int (g_zorder d ! pos)) d
         in d1\<lparr>g_dock_index := int (g_active_win d1)\<rparr>)
      else if key = KEY_LEFT then
        d\<lparr>g_dock_index := (if g_dock_index d - 1 < 0 then int WINDOW_COUNT - 1 else g_dock_index d - 1)\<rparr>
      else if key = KEY_RIGHT then
        d\<lparr>g_dock_index := (if g_dock_index d + 1 \<ge> int WINDOW_COUNT then 0 else g_dock_index d + 1)\<rparr>
      else if key = KEY_ENTER then
        (let win_idx = window_from_dock (g_dock_index d) in bring_to_front win_idx (show_window True win_idx d))
      else if key = 109 \<or> key = 77 then d\<lparr>g_menu_open := \<not> g_menu_open d\<rparr>
      else d)"

section \<open>Drawing\<close>

definition draw_wallpaper :: "vga \<Rightarrow> vga" where
  "draw_wallpaper v0 =
     (let v1 = fold (\<lambda>r. fold (\<lambda>c. gfx_put_cell r c (if (c + r) mod 11 = 0 then chr_dot else chr_sp)
                                (if r mod 2 = 1 then VGA_ATTR 3 1 else VGA_ATTR 11 1)) [0..VGA_WIDTH - 1])
                 [DESKTOP_TOP..DESKTOP_BOTTOM] v0;
          v2 = gfx_write_text 3 3 (lit ''HeatOS Desktop'') (VGA_ATTR 15 1) v1
      in gfx_write_text 4 3 (lit ''Simple. Educational. Nostalgic.'') (VGA_ATTR 7 1) v2)"

definition draw_menu_panel :: "desktop \<Rightarrow> vga \<Rightarrow> vga" where
  "draw_menu_panel d v =
     (if \<not> g_menu_open d then v
      else fold (\<lambda>(r, s). gfx_write_text (MENU_Y + r) (MENU_X + 2) s (VGA_ATTR 0 7))
             [(1, lit ''About Desktop''), (2, lit ''Reset Layout''), (3, lit ''Hide Active Window''), (4, lit ''Close Menu'')]
             (gfx_fill_rect MENU_Y MENU_X MENU_H MENU_W chr_sp (VGA_ATTR 0 7) v))"

definition clock_text :: "u32 \<Rightarrow> bytes" where
  "clock_text frames =
     (let mins = unat (frames div 50 mod 60); hours = 9 + unat (frames div (50 * 60) mod 9)
      in [byte_of_nat (48 + hours div 10), byte_of_nat (48 + hours mod 10), 58,
          byte_of_nat (48 + mins div 10), byte_of_nat (48 + mins mod 10)])"

definition draw_menu_bar :: "gfx \<Rightarrow> desktop \<Rightarrow> vga \<Rightarrow> vga" where
  "draw_menu_bar g d v0 =
     (let a = VGA_ATTR 0 7;
          v1 = gfx_fill_row 0 chr_sp a v0;
          v2 = gfx_write_text 0 2 (lit ''HeatOS'') a v1;
          v3 = gfx_write_text 0 10 (lit ''File  Edit  View  Window  Help'') a v2;
          v4 = (if gfx_backend g = GFX_BACKEND_VIRTIO_TEXT then gfx_write_text 0 45 (lit ''Backend: virtio API'') a v3
                else gfx_write_text 0 48 (lit ''Backend: VGA API'') a v3);
          v5 = gfx_write_text 0 74 (clock_text (g_frame_counter d)) a v4
      in draw_menu_panel d v5)"

definition content_lines :: "bytes \<Rightarrow> bytes list" where
  "content_lines i =
     (if strcmp_l i (lit ''term'') = 0 then
        [lit ''$ HeatOS desktop terminal'', lit ''$ Click title bar and drag windows'', lit ''$ Press Esc to return to shell'']
      else if strcmp_l i (lit ''notes'') = 0 then
        [lit ''Notes'', lit ''- Build from scratch'', lit ''- Keep systems understandable'', lit ''- Learn by reading code'']
      else if strcmp_l i (lit ''about'') = 0 then
        [lit ''Aesthetic: modern macOS-inspired'', lit ''Philosophy: simple + educational'',
         lit ''Nostalgic desktop shell for learning'', lit ''Not Linux, not production, just craft'']
      else
        [lit ''+--------------------------+'', lit ''| Retro Board             |'', lit ''| o o o o o o             |'',
         lit ''| Keep hacking            |'', lit ''+--------------------------+''])"

definition draw_window_content :: "desk_window \<Rightarrow> vga \<Rightarrow> vga" where
  "draw_window_content w v =
     fold (\<lambda>(i, s). gfx_write_text (win_y w + 2 + int i) (win_x w + 2) s (VGA_ATTR 0 15)) (enumerate 0 (content_lines (win_id w))) v"

definition draw_shadow :: "desk_window \<Rightarrow> vga \<Rightarrow> vga" where
  "draw_shadow w v0 =
     (let a = VGA_ATTR 8 0;
          v1 = fold (\<lambda>r v. if win_x w + win_w w < VGA_WIDTH then gfx_put_cell r (win_x w + win_w w) chr_sp a v else v)
                 [win_y w + 1..min (win_y w + win_h w) (VGA_HEIGHT - 1)] v0
      in if win_y w + win_h w < VGA_HEIGHT
         then fold (\<lambda>c. gfx_put_cell (win_y w + win_h w) c chr_sp a) [win_x w + 1..min (win_x w + win_w w) (VGA_WIDTH - 1)] v1
         else v1)"

definition draw_window_frame :: "desk_window \<Rightarrow> bool \<Rightarrow> vga \<Rightarrow> vga" where
  "draw_window_frame w active v0 =
     (if \<not> win_visible w then v0
      else let title_attr = (if active then VGA_ATTR 15 1 else VGA_ATTR 7 8); bg = (if active then 1 else 8);
               frame_attr = VGA_ATTR 0 7; content_attr = VGA_ATTR 0 15;
               v1 = draw_shadow w v0;
               v2 = gfx_fill_rect (win_y w) (win_x w) 1 (win_w w) chr_sp title_attr v1;
               v3 = gfx_put_cell (win_y w) (win_x w + 1) 111 (VGA_ATTR 12 bg) v2;
               v4 = gfx_put_cell (win_y w) (win_x w + 3) 111 (VGA_ATTR 14 bg) v3;
               v5 = gfx_put_cell (win_y w) (win_x w + 5) 111 (VGA_ATTR 10 bg) v4;
               v6 = gfx_write_text (win_y w) (win_x w + 8) (win_title w) title_attr v5;
               v7 = fold (\<lambda>r v. gfx_put_cell r (win_x w + win_w w - 1) 124 frame_attr
                               (gfx_fill_rect r (win_x w + 1) 1 (win_w w - 2) chr_sp content_attr
                                 (gfx_put_cell r (win_x w) 124 frame_attr v)))
                      [win_y w + 1..win_y w + win_h w - 1] v6;
               v8 = fold (\<lambda>c. gfx_put_cell (win_y w + win_h w - 1) c 45 frame_attr) [win_x w..win_x w + win_w w - 1] v7
           in draw_window_content w v8)"

definition draw_dock :: "desktop \<Rightarrow> vga \<Rightarrow> vga" where
  "draw_dock d v0 =
     (let v1 = gfx_fill_rect DOCK_TOP 0 DOCK_HEIGHT VGA_WIDTH chr_sp (VGA_ATTR 0 1) v0;
          v2 = gfx_fill_rect DOCK_TOP (DOCK_START_X - 2) 3 (int WINDOW_COUNT * DOCK_SLOT_W + 4) chr_sp (VGA_ATTR 0 7) v1
      in fold (\<lambda>i v. let x = dock_slot_x (int i); attr = (if int i = g_dock_index d then VGA_ATTR 15 1 else VGA_ATTR 15 8)
                      in gfx_write_text (DOCK_TOP + 1) (x + 1) (g_dock_items ! i) attr
                           (gfx_fill_rect (DOCK_TOP + 1) x 1 (DOCK_SLOT_W - 1) chr_sp attr v))
           [0..<WINDOW_COUNT] v2)"

definition draw_mouse_cursor :: "desktop \<Rightarrow> vga \<Rightarrow> vga" where
  "draw_mouse_cursor d v =
     (let cell = gfx_read_cell (desk_mouse_y d) (desk_mouse_x d) v;
          ch = ucast (cell AND 255) :: u8; attr = ucast (drop_bit 8 cell) :: u8;
          fg = attr AND 15; bg = drop_bit 4 attr AND 15
      in gfx_put_cell (desk_mouse_y d) (desk_mouse_x d) (if ch = chr_sp then 43 else ch) (VGA_ATTR (unat bg) (unat fg)) v)"

definition render_desktop :: "gfx \<Rightarrow> desktop \<Rightarrow> vga \<Rightarrow> vga" where
  "render_desktop g d v0 =
     (let v1 = draw_wallpaper v0;
          v2 = fold (\<lambda>i v. if i = g_active_win d then v else draw_window_frame (g_windows d ! i) False v) (g_zorder d) v1;
          v3 = draw_window_frame (g_windows d ! g_active_win d) True v2;
          v4 = draw_dock d (draw_menu_bar g d v3);
          v5 = (if desk_mouse_ok d
                then gfx_write_text 21 2 (lit ''Mouse: click menu and dock, drag title bars, Esc exits'') (VGA_ATTR 15 1) v4
                else gfx_write_text 21 2 (lit ''Mouse init failed. Use Tab focus + Enter dock fallback. Esc exits'') (VGA_ATTR 15 1) v4)
      in draw_mouse_cursor d v5)"

section \<open>The program\<close>

text \<open>One frame up to the drawing; the flag says that Escape ends the program.\<close>

definition desktop_input :: "bytes \<Rightarrow> nat \<Rightarrow> mouse \<times> desktop \<Rightarrow> bool \<times> mouse \<times> desktop" where
  "desktop_input bs key s =
     (let d1 = (snd s)\<lparr>g_frame_counter := g_frame_counter (snd s) + 1\<rparr>;
          (m2, d2) = (if desk_mouse_ok d1 then process_mouse bs (fst s, d1) else (fst s, d1))
      in if key = KEY_ESCAPE then (True, m2, d2)
         else (False, m2, if key \<noteq> 0 then handle_keyboard_fallback key d2 else d2))"

text \<open>The frames; the mouse's bytes are those of the frame with the same position in the list, none beyond its end.\<close>

fun desktop_loop :: "gfx \<Rightarrow> mouse \<times> desktop \<Rightarrow> vga \<Rightarrow> bytes list \<Rightarrow> polls \<Rightarrow> ((mouse \<times> desktop) \<times> vga \<times> bytes list \<times> polls) option" where
  "desktop_loop g s v bss [] = None"
| "desktop_loop g s v bss (k # ks) =
     (let bs = (case bss of [] \<Rightarrow> [] | b # _ \<Rightarrow> b)
      in case desktop_input bs k s of
           (True, s1) \<Rightarrow> Some (s1, v, tl bss, ks)
         | (False, s1) \<Rightarrow> desktop_loop g s1 (render_desktop g (snd s1) v) (tl bss) ks)"

definition desktop_start :: "bool \<Rightarrow> mouse \<times> desktop \<Rightarrow> mouse \<times> desktop" where
  "desktop_start ok s =
     (mouse_set_screen_pos (VGA_WIDTH div 2) (VGA_HEIGHT div 2) (fst s),
      (reset_layout ((snd s)\<lparr>desk_mouse_ok := ok\<rparr>))\<lparr>g_frame_counter := 0\<rparr>)"

text \<open>The whole program; the device answers the search for the display and the mouse's handshake.\<close>

definition desktop_run ::
  "'d wide_device \<Rightarrow> gfx \<times> 'd \<Rightarrow> mouse \<times> desktop \<Rightarrow> vga \<Rightarrow> bytes list \<Rightarrow> polls \<Rightarrow>
   ((gfx \<times> 'd) \<times> (mouse \<times> desktop) \<times> vga \<times> bytes list \<times> polls) option" where
  "desktop_run dv ge s v bss ks =
     (let (g1, e1) = gfx_init dv ge;
          (r, m1, e2) = mouse_init (device.truncate dv) (fst s, e1)
      in map_option (Pair (g1, e2)) (desktop_loop g1 (desktop_start (r \<noteq> 0) (m1, snd s)) v bss ks))"

record 'd desk_state =
  ds_gfx :: "gfx \<times> 'd"
  ds_desk :: "mouse \<times> desktop"
  ds_aux :: "bytes list"
  ds_polls :: polls

definition cmd_desktop :: "'d wide_device \<Rightarrow> bytes option \<Rightarrow> 'd desk_state \<times> terminal \<Rightarrow> ('d desk_state \<times> terminal) option" where
  "cmd_desktop dv args s =
     (let st = fst s
      in map_option (\<lambda>(ge, md, v, bss, ks).
           (\<lparr>ds_gfx = ge, ds_desk = md, ds_aux = bss, ds_polls = ks\<rparr>, term_reset_screen ((snd s)\<lparr>scr := v\<rparr>)))
         (desktop_run dv (ds_gfx st) (ds_desk st) (scr (snd s)) (ds_aux st) (ds_polls st)))"

section \<open>The stacking order\<close>

lemma shift_fold:
  assumes "pos + n < length z"
  shows "fold (\<lambda>i z. z[i := z ! (i + 1)]) [pos..<pos + n] z = take pos z @ take n (drop (Suc pos) z) @ drop (pos + n) z"
  using assms
proof (induction n)
  case (Suc n)
  let ?z = "take pos z @ take n (drop (Suc pos) z) @ drop (pos + n) z"
  have l: "length (take pos z @ take n (drop (Suc pos) z)) = pos + n" using Suc.prems by simp
  have "?z[pos + n := ?z ! Suc (pos + n)] =
      take pos z @ take n (drop (Suc pos) z) @ z ! Suc (pos + n) # drop (Suc (pos + n)) z"
  proof -
    have u: "(drop (pos + n) z)[0 := x] = x # drop (Suc (pos + n)) z" for x
      using Suc.prems by (simp flip: Cons_nth_drop_Suc [of "pos + n" z])
    show ?thesis
      unfolding append_assoc [symmetric] using l Suc.prems by (simp add: list_update_append nth_append u)
  qed
  also have "\<dots> = take pos z @ take (Suc n) (drop (Suc pos) z) @ drop (Suc (pos + n)) z"
    using Suc.prems by (simp add: take_Suc_conv_app_nth)
  finally show ?case using Suc by simp
qed (simp add: append_take_drop_id)

lemma bring_to_front_order:
  assumes z: "length (g_zorder d) = 4" "distinct (g_zorder d)" and i: "i \<in> set (g_zorder d)" "i < 4"
  shows "bring_to_front (int i) d =
    d\<lparr>g_zorder := filter (\<lambda>x. x \<noteq> i) (g_zorder d) @ [i], g_active_win := i\<rparr>"
proof -
  let ?z = "g_zorder d"
  obtain a b where ab: "?z = a @ i # b" using i(1) by (meson split_list)
  have ni: "i \<notin> set a" "i \<notin> set b" using z(2) ab by auto
  have pos: "length (takeWhile (\<lambda>x. x \<noteq> i) ?z) = length a"
    using takeWhile_append_stop [of a "\<lambda>x. x \<noteq> i" i b] ab ni by metis
  have len: "length a + length b = 3" using z(1) ab by simp
  have "fold (\<lambda>i z. z[i := z ! (i + 1)]) [length a..<length a + length b] ?z = a @ b @ drop (length a + length b) ?z"
    by (subst shift_fold) (simp_all add: ab)
  then have f: "fold (\<lambda>i z. z[i := z ! (i + 1)]) [length a..<3] ?z = a @ b @ drop 3 ?z" using len by simp
  have dr: "length (drop 3 ?z) = 1" using z(1) by simp
  then obtain y where "drop 3 ?z = [y]" by (cases "drop 3 ?z") auto
  with f have "(fold (\<lambda>i z. z[i := z ! (i + 1)]) [length a..<3] ?z)[3 := i] = (a @ b @ [y])[length (a @ b) := i]"
    using len by simp
  then have "(fold (\<lambda>i z. z[i := z ! (i + 1)]) [length a..<3] ?z)[3 := i] = a @ b @ [i]"
    by (simp only: append_assoc [symmetric] list_update_length)
  moreover have "filter (\<lambda>x. x \<noteq> i) a = a" "filter (\<lambda>x. x \<noteq> i) b = b"
    using ni by (auto simp: filter_id_conv)
  then have "filter (\<lambda>x. x \<noteq> i) ?z = a @ b" using ab by simp
  moreover have "length a < 4" using len by simp
  ultimately show ?thesis using pos i(2) by (simp add: bring_to_front_def Let_def const_defs)
qed

section \<open>The invariant\<close>

text \<open>
  The stacking order is an order of the four windows with the active one in front, every window
  lies between the menu bar and the dock, and the indices that the code keeps are in range.
\<close>

definition win_sizes :: "(int \<times> int) list" where
  "win_sizes = [(38, 12), (34, 11), (44, 12), (36, 10)]"

definition win_fits :: "desk_window \<Rightarrow> bool" where
  "win_fits w \<longleftrightarrow> 1 \<le> win_x w \<and> win_x w + win_w w \<le> 79 \<and> 2 \<le> win_y w \<and> win_y w + win_h w \<le> 21"

definition desk_wf :: "desktop \<Rightarrow> bool" where
  "desk_wf d \<longleftrightarrow>
     map (\<lambda>w. (win_w w, win_h w)) (g_windows d) = win_sizes \<and> (\<forall>w\<in>set (g_windows d). win_fits w) \<and>
     distinct (g_zorder d) \<and> set (g_zorder d) = {0..<4} \<and> g_active_win d = last (g_zorder d) \<and>
     0 \<le> g_dock_index d \<and> g_dock_index d < 4 \<and> -1 \<le> g_drag_window d \<and> g_drag_window d < 4"

lemma desk_wf_length:
  assumes "desk_wf d"
  shows "length (g_windows d) = 4" "length (g_zorder d) = 4" "g_active_win d < 4"
proof -
  have z: "distinct (g_zorder d)" "set (g_zorder d) = {0..<4}" using assms by (auto simp: desk_wf_def)
  show l: "length (g_zorder d) = 4" using distinct_card [OF z(1)] z(2) by simp
  show "length (g_windows d) = 4"
  proof -
    have "length (map (\<lambda>w. (win_w w, win_h w)) (g_windows d)) = length win_sizes"
      using assms unfolding desk_wf_def by argo
    then show ?thesis by (simp add: win_sizes_def)
  qed
  have "g_active_win d \<in> set (g_zorder d)" using assms l by (cases "g_zorder d" rule: rev_cases) (auto simp: desk_wf_def)
  then show "g_active_win d < 4" using z(2) by simp
qed

lemma front_order:
  assumes "desk_wf d" and "0 \<le> k" and "k < 4"
  shows "bring_to_front k d = d\<lparr>g_zorder := filter (\<lambda>x. x \<noteq> nat k) (g_zorder d) @ [nat k], g_active_win := nat k\<rparr>"
  using bring_to_front_order [of d "nat k"] assms desk_wf_length [OF assms(1)] by (simp add: desk_wf_def)

lemma desk_wf_front: "desk_wf d \<Longrightarrow> desk_wf (bring_to_front k d)"
proof (cases "0 \<le> k \<and> k < 4")
  case True
  assume d: "desk_wf d"
  have "nat k \<in> set (g_zorder d)" using d True by (simp add: desk_wf_def nat_less_iff)
  then show ?thesis using front_order [OF d, of k] True d by (auto simp: desk_wf_def)
qed (auto simp: bring_to_front_def const_defs)

lemma map_update_same: "i < length xs \<Longrightarrow> f y = f (xs ! i) \<Longrightarrow> map f (xs[i := y]) = map f xs"
  by (rule nth_equalityI) (auto simp: nth_list_update)

lemma desk_wf_window:
  assumes "desk_wf d" and "i < 4" and "(win_w w, win_h w) = (win_w (g_windows d ! i), win_h (g_windows d ! i))" and "win_fits w"
  shows "desk_wf (d\<lparr>g_windows := (g_windows d)[i := w]\<rparr>)"
proof -
  have l: "i < length (g_windows d)" using desk_wf_length [OF assms(1)] assms(2) by simp
  have "map (\<lambda>w. (win_w w, win_h w)) ((g_windows d)[i := w]) = map (\<lambda>w. (win_w w, win_h w)) (g_windows d)"
    by (rule map_update_same [OF l]) (use assms(3) in simp)
  moreover have "\<forall>x\<in>set ((g_windows d)[i := w]). win_fits x"
    using assms(1,4) set_update_subset_insert [of "g_windows d" i w] by (auto simp: desk_wf_def)
  ultimately show ?thesis using assms(1) by (simp add: desk_wf_def)
qed

lemma desk_window_fits: "desk_wf d \<Longrightarrow> i < 4 \<Longrightarrow> win_fits (g_windows d ! i)"
  using desk_wf_length [of d] by (auto simp: desk_wf_def)

lemma desk_wf_show: "desk_wf d \<Longrightarrow> nat i < 4 \<Longrightarrow> desk_wf (show_window b i d)"
  unfolding show_window_def by (rule desk_wf_window) (use desk_window_fits [of d "nat i"] in \<open>auto simp: win_fits_def\<close>)

lemma desk_wf_flags [simp]:
  "desk_wf (d\<lparr>g_menu_open := b\<rparr>) = desk_wf d" "desk_wf (d\<lparr>g_left_prev := b\<rparr>) = desk_wf d"
  "desk_wf (d\<lparr>desk_mouse_ok := b\<rparr>) = desk_wf d" "desk_wf (d\<lparr>g_drag_active := b\<rparr>) = desk_wf d"
  "desk_wf (d\<lparr>g_frame_counter := n\<rparr>) = desk_wf d" "desk_wf (d\<lparr>desk_mouse_x := x, desk_mouse_y := y\<rparr>) = desk_wf d"
  by (simp_all add: desk_wf_def)

lemma desk_wf_reset:
  assumes "map (\<lambda>w. (win_w w, win_h w)) (g_windows d) = win_sizes"
  shows "desk_wf (reset_layout d)"
proof -
  obtain a b c e where w: "g_windows d = [a, b, c, e]"
    using assms by (auto simp: win_sizes_def map_eq_Cons_conv)
  have "set [0, 1, 3, 2] = {0..<4::nat}" by auto
  then show ?thesis
    using assms by (auto simp: desk_wf_def reset_layout_def place_window_def w win_fits_def win_sizes_def numeral_2_eq_2 numeral_3_eq_3)
qed

lemma desk_wf_menu: "desk_wf d \<Longrightarrow> desk_wf (handle_menu_action item d)"
  unfolding handle_menu_action_def Let_def
  using desk_wf_front [OF desk_wf_show [of d 2 True], of 2] desk_wf_show [of d "int (g_active_win d)" False] desk_wf_length [of d]
    desk_wf_reset [of d] by (auto simp: desk_wf_def [of d])

section \<open>Hit tests\<close>

lemma hit_loop_find:
  "hit_loop d x y is = (case find (\<lambda>i. win_visible (g_windows d ! i) \<and> in_window x y (g_windows d ! i)) is of None \<Rightarrow> -1 | Some i \<Rightarrow> int i)"
  by (induction "is") auto

lemma find_last: "find P (rev xs) = (if filter P xs = [] then None else Some (last (filter P xs)))"
  by (induction xs rule: rev_induct) auto

definition hits :: "int \<Rightarrow> int \<Rightarrow> desktop \<Rightarrow> nat list" where
  "hits x y d = filter (\<lambda>i. win_visible (g_windows d ! i) \<and> in_window x y (g_windows d ! i)) (g_zorder d)"

lemma window_hit_test_hits: "window_hit_test x y d = (if hits x y d = [] then -1 else int (last (hits x y d)))"
  by (simp add: window_hit_test_def hit_loop_find find_last hits_def)

lemma last_hit:
  assumes "desk_wf d" and "hits x y d \<noteq> []"
  shows "last (hits x y d) < 4" "last (hits x y d) \<in> set (g_zorder d)"
proof -
  have "last (hits x y d) \<in> set (hits x y d)" using assms(2) by (rule last_in_set)
  then show "last (hits x y d) \<in> set (g_zorder d)" by (simp add: hits_def)
  then show "last (hits x y d) < 4" using assms(1) by (simp add: desk_wf_def)
qed

lemma hit_test_range: "desk_wf d \<Longrightarrow> window_hit_test x y d < 4"
  using last_hit(1) [of d x y] by (simp add: window_hit_test_hits)

lemma dock_hit_range: "dock_item_hit_test x y < 4"
  by (simp add: dock_item_hit_test_def const_defs upt_rec Let_def)

lemma desk_wf_press_window: "desk_wf d \<Longrightarrow> 0 \<le> i \<Longrightarrow> i < 4 \<Longrightarrow> desk_wf (press_window i d)"
proof -
  assume a: "desk_wf d" "0 \<le> i" "i < 4"
  then have f: "desk_wf (bring_to_front i d)" by (simp add: desk_wf_front)
  moreover have "desk_wf ((bring_to_front i d)\<lparr>g_drag_active := True, g_drag_window := i\<rparr>)"
    using f a by (simp add: desk_wf_def)
  ultimately show ?thesis using desk_wf_show [OF f, of i False] a by (simp add: press_window_def Let_def)
qed

lemma desk_wf_press: "desk_wf d \<Longrightarrow> desk_wf (handle_mouse_press d)"
proof -
  have p: "desk_wf (press_desktop e)" if e: "desk_wf e" for e
  proof -
    let ?k = "dock_item_hit_test (desk_mouse_x e) (desk_mouse_y e)"
    have k: "?k < 4" by (rule dock_hit_range)
    have "desk_wf (bring_to_front ?k (show_window True ?k (e\<lparr>g_dock_index := ?k\<rparr>)))" if "0 \<le> ?k"
      by (rule desk_wf_front [OF desk_wf_show]) (use that k e in \<open>auto simp: desk_wf_def\<close>)
    then show ?thesis
      using e k desk_wf_press_window [OF e] hit_test_range [OF e] by (auto simp: press_desktop_def Let_def window_from_dock_def const_defs)
  qed
  assume "desk_wf d"
  then show ?thesis using p desk_wf_menu by (auto simp: handle_mouse_press_def)
qed

lemma clamp_fits:
  assumes "1 \<le> 79 - win_w w" and "2 \<le> 21 - win_h w"
  shows "win_fits (clamp_window w)" "win_w (clamp_window w) = win_w w" "win_h (clamp_window w) = win_h w"
  using assms by (auto simp: clamp_window_def Let_def desk_clampi_def win_fits_def const_defs)

lemma win_size_nth: "desk_wf d \<Longrightarrow> i < 4 \<Longrightarrow> win_w (g_windows d ! i) \<le> 44 \<and> win_h (g_windows d ! i) \<le> 12"
proof -
  assume a: "desk_wf d" "i < 4"
  then have "(win_w (g_windows d ! i), win_h (g_windows d ! i)) = win_sizes ! i"
    using desk_wf_length [OF a(1)] by (simp add: desk_wf_def flip: nth_map [of i "g_windows d" "\<lambda>w. (win_w w, win_h w)"])
  moreover have "fst (win_sizes ! i) \<le> 44 \<and> snd (win_sizes ! i) \<le> 12"
    using a(2) by (auto simp: win_sizes_def numeral_eq_Suc less_Suc_eq)
  ultimately show ?thesis by (metis fst_conv snd_conv)
qed

lemma desk_wf_drag:
  assumes "desk_wf d" and "0 \<le> g_drag_window d"
  shows "desk_wf (drag_window dx dy d)"
proof -
  have i: "nat (g_drag_window d) < 4" using assms by (auto simp: desk_wf_def)
  note sz = win_size_nth [OF assms(1) i]
  show ?thesis
    unfolding drag_window_def Let_def
    by (rule desk_wf_window [OF assms(1) i]) (use sz clamp_fits in simp_all)
qed

lemma desk_wf_frame:
  assumes "desk_wf d"
  shows "desk_wf (mouse_frame xy dxy left d)"
proof -
  define d1 where "d1 = d\<lparr>desk_mouse_x := fst xy, desk_mouse_y := snd xy\<rparr>"
  define d2 where "d2 = (if g_drag_active d1 \<and> g_drag_window d1 \<ge> 0 \<and> left then drag_window (fst dxy) (snd dxy) d1 else d1)"
  define d3 where "d3 = (if left \<and> \<not> g_left_prev d2 then handle_mouse_press d2 else d2)"
  have "desk_wf d1" using assms by (simp add: d1_def)
  then have "desk_wf d2" by (simp add: d2_def desk_wf_drag)
  then have d3: "desk_wf d3" by (simp add: d3_def desk_wf_press)
  then have "desk_wf (d3\<lparr>g_drag_active := False, g_drag_window := -1\<rparr>)" by (simp add: desk_wf_def)
  with d3 show ?thesis
    unfolding mouse_frame_def Let_def d1_def [symmetric] d2_def [symmetric] d3_def [symmetric] by simp
qed

lemma desk_wf_key:
  assumes "desk_wf d"
  shows "desk_wf (handle_keyboard_fallback k d)"
proof -
  note l = desk_wf_length [OF assms]
  let ?pos = "(length (takeWhile (\<lambda>z. z \<noteq> g_active_win d) (g_zorder d)) + 1) mod 4"
  have "desk_wf (bring_to_front (int (g_zorder d ! ?pos)) d)" by (rule desk_wf_front [OF assms])
  then have tab: "desk_wf ((bring_to_front (int (g_zorder d ! ?pos)) d)\<lparr>g_dock_index := int (g_active_win (bring_to_front (int (g_zorder d ! ?pos)) d))\<rparr>)"
    using desk_wf_length(3) by (simp add: desk_wf_def)
  have "0 \<le> window_from_dock i \<and> window_from_dock i < 4" for i by (simp add: window_from_dock_def const_defs)
  then have "desk_wf (bring_to_front (window_from_dock i) (show_window True (window_from_dock i) d))" for i
    by (intro desk_wf_front desk_wf_show assms) (simp add: nat_less_iff)
  moreover have "desk_wf (d\<lparr>g_dock_index := j\<rparr>)" if "0 \<le> j" "j < 4" for j using assms that by (simp add: desk_wf_def)
  ultimately show ?thesis
    using assms tab by (simp add: handle_keyboard_fallback_def Let_def desk_wf_def const_defs)
qed

lemma desk_wf_input:
  assumes "desktop_input bs k (m, d) = (e, m', d')" and "desk_wf d" and "mouse_wf m"
  shows "desk_wf d'" "mouse_wf m'"
proof -
  let ?d = "d\<lparr>g_frame_counter := g_frame_counter d + 1\<rparr>"
  have d: "desk_wf ?d" using assms(2) by simp
  have "mouse_wf (fold mouse_handle_aux_byte bs m)" by (rule mouse_wf_stream [OF assms(3)])
  then have m: "mouse_wf (fst (process_mouse bs (m, ?d)))"
    by (simp add: process_mouse_def mouse_get_delta_def mouse_wf_def Let_def)
  have "desk_wf (snd (process_mouse bs (m, ?d)))"
    using desk_wf_frame [OF d] by (simp add: process_mouse_def Let_def case_prod_unfold)
  with m d assms show "desk_wf d'" "mouse_wf m'"
    by (auto simp: desktop_input_def Let_def case_prod_unfold desk_wf_key split: if_split_asm)
qed

section \<open>Drawing stays on the screen\<close>

lemmas gfx_unfold = gfx_put_cell_def gfx_write_text_def gfx_fill_rect_def gfx_fill_row_def

lemma paints_wallpaper: "paints u v \<Longrightarrow> paints u (draw_wallpaper v)"
  unfolding draw_wallpaper_def Let_def gfx_unfold by (intro paint_rules paints_fold)

lemma paints_menu_bar: "paints u v \<Longrightarrow> paints u (draw_menu_bar g d v)"
  unfolding draw_menu_bar_def draw_menu_panel_def Let_def gfx_unfold case_prod_unfold
  by (intro paint_rules paints_fold paints_fill_rect) (simp_all add: const_defs)

lemma paints_shadow: "paints u v \<Longrightarrow> paints u (draw_shadow w v)"
  unfolding draw_shadow_def Let_def gfx_unfold by (intro paint_rules paints_fold)

lemma paints_content: "paints u v \<Longrightarrow> paints u (draw_window_content w v)"
  unfolding draw_window_content_def Let_def gfx_unfold case_prod_unfold by (intro paint_rules paints_fold)

lemma paints_window:
  assumes "win_fits w" and "paints u v"
  shows "paints u (draw_window_frame w active v)"
proof -
  have w: "0 \<le> win_x w" "0 \<le> win_y w" "0 \<le> win_x w + 1" using assms(1) by (auto simp: win_fits_def)
  show ?thesis
    unfolding draw_window_frame_def Let_def gfx_unfold
    by (intro paint_rules paints_fold paints_content paints_fill_rect w paints_shadow assms(2)) (use w in auto)
qed

lemma paints_dock: "paints u v \<Longrightarrow> paints u (draw_dock d v)"
  unfolding draw_dock_def Let_def gfx_unfold
  by (intro paint_rules paints_fold paints_fill_rect) (auto simp: const_defs dock_slot_x_def)

lemma paints_desktop:
  assumes "desk_wf d" and "paints u v"
  shows "paints u (render_desktop g d v)"
proof -
  have f: "win_fits (g_windows d ! i)" if "i \<in> set (g_zorder d)" for i
    using desk_window_fits [OF assms(1)] assms(1) that by (simp add: desk_wf_def)
  have a: "win_fits (g_windows d ! g_active_win d)" by (rule desk_window_fits [OF assms(1) desk_wf_length(3) [OF assms(1)]])
  show ?thesis
    unfolding render_desktop_def draw_mouse_cursor_def Let_def gfx_put_cell_def gfx_write_text_def
    by (intro paint_rules paints_dock paints_menu_bar paints_window a paints_fold f paints_wallpaper assms(2))
qed

lemma desktop_loop_paints:
  "desktop_loop g (m, d) v bss ks = Some (s', v', rest) \<Longrightarrow> desk_wf d \<Longrightarrow> mouse_wf m \<Longrightarrow> paints u v \<Longrightarrow> paints u v'"
proof (induction g "(m, d)" v bss ks arbitrary: m d rule: desktop_loop.induct)
  case (2 g v bss k ks)
  let ?bs = "case bss of [] \<Rightarrow> [] | b # _ \<Rightarrow> b"
  obtain e m1 d1 where i: "desktop_input ?bs k (m, d) = (e, m1, d1)" by (metis prod_cases3)
  note wf = desk_wf_input [OF i "2.prems"(2,3)]
  show ?case
  proof (cases e)
    case True
    then show ?thesis using "2.prems" i by simp
  next
    case False
    have "desktop_loop g (m1, d1) (render_desktop g d1 v) (tl bss) ks = Some (s', v', rest)"
      using "2.prems"(1) i False by simp
    then show ?thesis
      using "2.hyps" [OF refl i [symmetric]] False wf paints_desktop [OF wf(1) "2.prems"(4)] by simp
  qed
qed simp

text \<open>What the static variables of the desktop and of the mouse driver keep between two runs.\<close>

definition desk_static :: "mouse \<times> desktop \<Rightarrow> bool" where
  "desk_static s \<longleftrightarrow> length (g_packet (fst s)) = 3 \<and> map (\<lambda>w. (win_w w, win_h w)) (g_windows (snd s)) = win_sizes"

lemma desk_static_wf: "desk_wf d \<Longrightarrow> mouse_wf m \<Longrightarrow> desk_static (m, d)"
  by (simp add: desk_static_def desk_wf_def mouse_wf_def)

lemma desktop_start_wf:
  assumes "desk_static (m, d)" and "mouse_init dv (m, e) = (r, m1, e1)" and "desktop_start ok (m1, d) = (m2, d2)"
  shows "desk_wf d2" "mouse_wf m2"
proof -
  have "length (g_packet m1) = 3" "g_packet_idx m1 = 0"
    using mouse_init_cases [OF assms(2)] assms(1) by (auto simp: desk_static_def mouse_reset_def)
  then show "mouse_wf m2"
    using assms(3) by (auto simp: desktop_start_def mouse_set_screen_pos_def mouse_wf_def clampi_def const_defs)
  show "desk_wf d2"
    using assms(1,3) desk_wf_reset [of "d\<lparr>desk_mouse_ok := ok\<rparr>"] by (auto simp: desktop_start_def desk_static_def)
qed

lemma desktop_loop_wf:
  "desktop_loop g (m, d) v bss ks = Some ((m', d'), rest) \<Longrightarrow> desk_wf d \<Longrightarrow> mouse_wf m \<Longrightarrow> desk_wf d' \<and> mouse_wf m'"
proof (induction g "(m, d)" v bss ks arbitrary: m d rule: desktop_loop.induct)
  case (2 g v bss k ks)
  let ?bs = "case bss of [] \<Rightarrow> [] | b # _ \<Rightarrow> b"
  obtain e m1 d1 where i: "desktop_input ?bs k (m, d) = (e, m1, d1)" by (metis prod_cases3)
  note wf = desk_wf_input [OF i "2.prems"(2,3)]
  show ?case
    using "2.hyps" [OF refl i [symmetric]] "2.prems"(1) i wf by (cases e) auto
qed simp

lemma desktop_run_keeps:
  assumes "desktop_run dv ge s v bss ks = Some (ge', s', v', rest)" and "desk_static s"
  shows "desk_static s'" "paints v v'"
proof -
  obtain m d where s: "s = (m, d)" by fastforce
  obtain r m1 e2 where i: "mouse_init (device.truncate dv) (m, snd (gfx_init dv ge)) = (r, m1, e2)" by (metis prod_cases3)
  obtain m2 d2 where t: "desktop_start (r \<noteq> 0) (m1, d) = (m2, d2)" by fastforce
  have l: "desktop_loop (fst (gfx_init dv ge)) (m2, d2) v bss ks = Some (s', v', rest)"
    using assms(1) i t by (auto simp: desktop_run_def s Let_def case_prod_unfold)
  note wf = desktop_start_wf [OF assms(2) [unfolded s] i t]
  show "paints v v'" using desktop_loop_paints [OF l wf] by simp
  show "desk_static s'" using desktop_loop_wf [of _ m2 d2 _ _ _ "fst s'" "snd s'"] l wf desk_static_wf by (metis prod.collapse)
qed

lemma cmd_desktop_draws:
  assumes "cmd_desktop dv args (w, t) = Some (w', t')" and "desk_static (ds_desk w)"
  shows "draws t t'" "desk_static (ds_desk w')"
proof -
  obtain ge s v bss ks where r: "desktop_run dv (ds_gfx w) (ds_desk w) (scr t) (ds_aux w) (ds_polls w) = Some (ge, s, v, bss, ks)"
      "t' = term_reset_screen (t\<lparr>scr := v\<rparr>)" "ds_desk w' = s"
    using assms(1) by (auto simp: cmd_desktop_def Let_def)
  note k = desktop_run_keeps [OF r(1) assms(2)]
  show "draws t t'" "desk_static (ds_desk w')" using k draws_app r by auto
qed

section \<open>The states of the frame loop\<close>

text \<open>
  The states at the head of the frame loop: after the start of the first run, after a frame that
  does not end the run, and after the start of a run that follows one ended by Escape.
\<close>

inductive desk_reach :: "'d device \<Rightarrow> mouse \<times> desktop \<Rightarrow> bool" for dv where
  first_run: "length (g_packet m) = 3 \<Longrightarrow> mouse_init dv (m, e) = (r, m1, e1) \<Longrightarrow>
    desk_reach dv (desktop_start (r \<noteq> 0) (m1, desktop_boot))"
| frame: "desk_reach dv s \<Longrightarrow> desktop_input bs k s = (False, s') \<Longrightarrow> desk_reach dv s'"
| again: "desk_reach dv s \<Longrightarrow> desktop_input bs k s = (True, m, d) \<Longrightarrow> mouse_init dv (m, e) = (r, m1, e1) \<Longrightarrow>
    desk_reach dv (desktop_start (r \<noteq> 0) (m1, d))"

definition pointer_ok :: "desktop \<Rightarrow> bool" where
  "pointer_ok d \<longleftrightarrow> 0 \<le> desk_mouse_x d \<and> desk_mouse_x d < 80 \<and> 0 \<le> desk_mouse_y d \<and> desk_mouse_y d < 25"

lemma pointer_ok_flags [simp]:
  "pointer_ok (d\<lparr>g_menu_open := b\<rparr>) = pointer_ok d" "pointer_ok (d\<lparr>g_left_prev := b\<rparr>) = pointer_ok d"
  "pointer_ok (d\<lparr>g_drag_active := b, g_drag_window := i\<rparr>) = pointer_ok d" "pointer_ok (d\<lparr>g_dock_index := i\<rparr>) = pointer_ok d"
  "pointer_ok (d\<lparr>g_frame_counter := n\<rparr>) = pointer_ok d" "pointer_ok (d\<lparr>desk_mouse_ok := b\<rparr>) = pointer_ok d"
  "pointer_ok (d\<lparr>g_windows := ws\<rparr>) = pointer_ok d"
  by (simp_all add: pointer_ok_def)

lemma pointer_ok_ops [simp]:
  "pointer_ok (bring_to_front k d) = pointer_ok d" "pointer_ok (show_window b k d) = pointer_ok d"
  "pointer_ok (reset_layout d) = pointer_ok d" "pointer_ok (drag_window dx dy d) = pointer_ok d"
  by (simp_all add: pointer_ok_def bring_to_front_def show_window_def reset_layout_def drag_window_def Let_def)

lemma pointer_ok_press [simp]: "pointer_ok (handle_mouse_press d) = pointer_ok d"
  by (simp add: handle_mouse_press_def handle_menu_action_def press_desktop_def press_window_def Let_def)

lemma pointer_ok_key [simp]: "pointer_ok (handle_keyboard_fallback k d) = pointer_ok d"
  by (simp add: handle_keyboard_fallback_def Let_def)

lemma pointer_ok_input:
  assumes "desktop_input bs k (m, d) = (e, m', d')" and "pointer_ok d" and "mouse_wf m"
  shows "pointer_ok d'"
proof -
  have "mouse_wf (fold mouse_handle_aux_byte bs m)" by (rule mouse_wf_stream [OF assms(3)])
  then have "pointer_ok (c\<lparr>desk_mouse_x := fst (mouse_get_screen_pos (fold mouse_handle_aux_byte bs m)),
      desk_mouse_y := snd (mouse_get_screen_pos (fold mouse_handle_aux_byte bs m))\<rparr>)" for c
    by (simp add: pointer_ok_def mouse_get_screen_pos_def mouse_wf_def)
  then have "pointer_ok (snd (process_mouse bs (m, c)))" for c
    by (simp add: process_mouse_def mouse_frame_def Let_def case_prod_unfold)
  then have "process_mouse bs (m, c) = (m2, d2) \<Longrightarrow> pointer_ok d2" for c m2 d2 by (metis snd_conv)
  with assms(1,2) show ?thesis
    by (auto simp: desktop_input_def Let_def split: if_split_asm prod.split_asm)
qed

lemma desktop_boot_static: "length (g_packet m) = 3 \<Longrightarrow> desk_static (m, desktop_boot)" "pointer_ok desktop_boot"
  by (simp_all add: desk_static_def desktop_boot_def desk_windows_boot_def win_sizes_def pointer_ok_def const_defs)

lemma pointer_ok_start: "pointer_ok (snd (desktop_start ok (m, d))) = pointer_ok d"
  by (simp add: desktop_start_def)

lemma desk_reach_wf: "desk_reach dv s \<Longrightarrow> desk_wf (snd s) \<and> mouse_wf (fst s) \<and> pointer_ok (snd s)"
proof (induction rule: desk_reach.induct)
  case (first_run m e r m1 e1)
  then show ?case
    using desktop_start_wf [OF desktop_boot_static(1) [OF first_run(1)] first_run(2) prod.collapse [symmetric]]
      desktop_boot_static(2) by (simp add: pointer_ok_start)
next
  case (frame s bs k s')
  then show ?case using desk_wf_input [of bs k "fst s" "snd s" False "fst s'" "snd s'"]
      pointer_ok_input [of bs k "fst s" "snd s" False "fst s'" "snd s'"] by simp
next
  case (again s bs k m d e r m1 e1)
  then have i: "desktop_input bs k (fst s, snd s) = (True, m, d)" by simp
  have "desk_static (m, d)" "pointer_ok d"
    using desk_wf_input [OF i] pointer_ok_input [OF i] again.IH desk_static_wf by auto
  then show ?case
    using desktop_start_wf [OF _ again.hyps(3) prod.collapse [symmetric]] by (simp add: pointer_ok_start)
qed

section \<open>Properties\<close>

text \<open>C12. In every state of the desktop's frame loop, over any number of runs, whatever bytes the mouse sends
  (also broken packets), whatever keys are pressed and whatever the controller answers to the mouse's
  handshake: the stacking order lists each of the four windows once with the active one in front, every
  window lies wholly between the menu bar and the dock, the window and dock indices are those of windows, and the pointer is on
  the screen.\<close>

theorem desktop_invariant:
  assumes "desk_reach dv (m, d)"
  shows "distinct (g_zorder d) \<and> set (g_zorder d) = {0, 1, 2, 3} \<and> last (g_zorder d) = g_active_win d \<and>
    length (g_windows d) = 4 \<and>
    (\<forall>w\<in>set (g_windows d). 1 \<le> win_x w \<and> win_x w + win_w w < 80 \<and> DESKTOP_TOP < win_y w \<and> win_y w + win_h w \<le> DESKTOP_BOTTOM) \<and>
    0 \<le> g_dock_index d \<and> g_dock_index d < 4 \<and> -1 \<le> g_drag_window d \<and> g_drag_window d < 4 \<and>
    0 \<le> desk_mouse_x d \<and> desk_mouse_x d < 80 \<and> 0 \<le> desk_mouse_y d \<and> desk_mouse_y d < 25"
proof -
  have wf: "desk_wf d" "pointer_ok d" using desk_reach_wf [OF assms] by simp_all
  have "set (g_zorder d) = {0, 1, 2, 3}" using wf(1) by (auto simp: desk_wf_def)
  moreover have "\<forall>w\<in>set (g_windows d). 1 \<le> win_x w \<and> win_x w + win_w w < 80 \<and> DESKTOP_TOP < win_y w \<and> win_y w + win_h w \<le> DESKTOP_BOTTOM"
    using wf(1) by (auto simp: desk_wf_def win_fits_def const_defs)
  ultimately show ?thesis
    using wf desk_wf_length(1) [OF wf(1)] unfolding pointer_ok_def desk_wf_def by simp
qed

text \<open>A mouse that does not answer, and a run of frames on it: Tab, then Enter.\<close>

definition deaf :: "unit device" where
  "deaf = \<lparr>dev_in = (\<lambda>_ u. (2, u)), dev_out = (\<lambda>_ _ u. u)\<rparr>"

lemma deaf_wait: "ps2_wait_input_clear deaf n u = (False, u)"
  by (induction n) (simp_all add: inb_def deaf_def const_defs)

theorem desktop_invariant_witness:
  "\<exists>m d. desk_reach deaf (m, d) \<and> g_zorder d = [1, 3, 2, 0] \<and> set (g_zorder d) = {0, 1, 2, 3} \<and> g_active_win d = 0"
proof -
  define m where "m = \<lparr>g_mouse_x = 0, g_mouse_y = 0, g_dx_accum = 0, g_dy_accum = 0, g_buttons = 0, g_has_event = False,
    g_ready = False, g_packet = [0, 0, 0], g_packet_idx = 0\<rparr>"
  have "mouse_init deaf (m, ()) = (0, mouse_reset m, ())" by (simp add: mouse_init_def ps2_send_def deaf_wait)
  from first_run [OF _ this] have a: "desk_reach deaf (desktop_start False (mouse_reset m, desktop_boot))" by (simp add: m_def)
  let ?d = "snd (desktop_start False (mouse_reset m, desktop_boot))"
  have z: "g_zorder ?d = [0, 1, 3, 2]" "g_active_win ?d = 2" "\<not> desk_mouse_ok ?d"
    by (simp_all add: desktop_start_def reset_layout_def)
  define c where "c = ?d\<lparr>g_frame_counter := g_frame_counter ?d + 1\<rparr>"
  have c: "desk_wf c" "g_zorder c = [0, 1, 3, 2]" "g_active_win c = 2" using desk_reach_wf [OF a] z by (simp_all add: c_def)
  obtain e s' where s': "desktop_input [] KEY_TAB (desktop_start False (mouse_reset m, desktop_boot)) = (e, s')" by (metis surj_pair)
  then have "\<not> e" "snd s' = handle_keyboard_fallback KEY_TAB c"
    using z by (auto simp: desktop_input_def c_def Let_def const_defs)
  moreover have "g_zorder (handle_keyboard_fallback KEY_TAB c) = [1, 3, 2, 0]" "g_active_win (handle_keyboard_fallback KEY_TAB c) = 0"
    using front_order [OF c(1), of 0] c(2,3) by (simp_all add: handle_keyboard_fallback_def const_defs)
  ultimately have "\<not> e" "g_zorder (snd s') = [1, 3, 2, 0]" "g_active_win (snd s') = 0" by simp_all
  then show ?thesis
    using frame [OF a] s' desktop_invariant [of deaf "fst s'" "snd s'"] by (metis prod.collapse)
qed



end
