(* ===== verification/Commands.thy ===== *)
theory Commands
  imports Java Net_Commands System_Commands Pong Plinko Catnake Mamu Desktop
begin

text \<open>
  The command table of the shell, \<^verbatim>\<open>src/src/commands/commands.c\<close>, over the state of the whole
  system, and the shell loop of \<^verbatim>\<open>src/src/terminal/terminal.c\<close> with this table.  A handler works on
  its part of the system; the lifts below run it on the whole.
\<close>

section \<open>The system\<close>

record 'd machine =
  mc_fs :: fs
  mc_net :: net
  mc_sys :: "'d sys"
  mc_mouse :: mouse
  mc_desktop :: desktop
  mc_plinko :: plinko
  mc_catnake :: catnake
  mc_aux :: "bytes list"
  mc_polls :: polls

definition lift_cmd :: "('m \<Rightarrow> 's) \<Rightarrow> ('s \<Rightarrow> 'm \<Rightarrow> 'm) \<Rightarrow> 's cmd \<Rightarrow> 'm cmd" where
  "lift_cmd get put c args s = map_option (\<lambda>(x, t). (put x (fst s), t)) (c args (get (fst s), snd s))"

definition on_fs :: "fs cmd \<Rightarrow> 'd machine cmd" where
  "on_fs = lift_cmd mc_fs (\<lambda>f m. m\<lparr>mc_fs := f\<rparr>)"

definition on_sys :: "'d sys cmd \<Rightarrow> 'd machine cmd" where
  "on_sys = lift_cmd mc_sys (\<lambda>y m. m\<lparr>mc_sys := y\<rparr>)"

definition put_net :: "net \<times> 'd \<Rightarrow> 'd machine \<Rightarrow> 'd machine" where
  "put_net nd m = m\<lparr>mc_net := fst nd, mc_sys := (mc_sys m)\<lparr>sys_dev := snd nd\<rparr>\<rparr>"

definition on_net :: "(net \<times> 'd) cmd \<Rightarrow> 'd machine cmd" where
  "on_net = lift_cmd (\<lambda>m. (mc_net m, sys_dev (mc_sys m))) put_net"

definition on_fs_net :: "(fs \<times> net \<times> 'd) cmd \<Rightarrow> 'd machine cmd" where
  "on_fs_net = lift_cmd (\<lambda>m. (mc_fs m, mc_net m, sys_dev (mc_sys m))) (\<lambda>x m. (put_net (snd x) m)\<lparr>mc_fs := fst x\<rparr>)"

definition on_polls :: "polls cmd \<Rightarrow> 'd machine cmd" where
  "on_polls = lift_cmd mc_polls (\<lambda>ks m. m\<lparr>mc_polls := ks\<rparr>)"

definition on_plinko :: "(plinko \<times> polls) cmd \<Rightarrow> 'd machine cmd" where
  "on_plinko = lift_cmd (\<lambda>m. (mc_plinko m, mc_polls m)) (\<lambda>x m. m\<lparr>mc_plinko := fst x, mc_polls := snd x\<rparr>)"

definition on_catnake :: "(catnake \<times> polls) cmd \<Rightarrow> 'd machine cmd" where
  "on_catnake = lift_cmd (\<lambda>m. (mc_catnake m, mc_polls m)) (\<lambda>x m. m\<lparr>mc_catnake := fst x, mc_polls := snd x\<rparr>)"

definition on_mamu :: "(fs \<times> polls) cmd \<Rightarrow> 'd machine cmd" where
  "on_mamu = lift_cmd (\<lambda>m. (mc_fs m, mc_polls m)) (\<lambda>x m. m\<lparr>mc_fs := fst x, mc_polls := snd x\<rparr>)"

definition desk_of :: "'d machine \<Rightarrow> 'd desk_state" where
  "desk_of m = \<lparr>ds_gfx = (sys_gfx (mc_sys m), sys_dev (mc_sys m)), ds_desk = (mc_mouse m, mc_desktop m), ds_aux = mc_aux m, ds_polls = mc_polls m\<rparr>"

definition put_desk :: "'d desk_state \<Rightarrow> 'd machine \<Rightarrow> 'd machine" where
  "put_desk s m =
     m\<lparr>mc_sys := (mc_sys m)\<lparr>sys_gfx := fst (ds_gfx s), sys_dev := snd (ds_gfx s)\<rparr>, mc_mouse := fst (ds_desk s),
       mc_desktop := snd (ds_desk s), mc_aux := ds_aux s, mc_polls := ds_polls s\<rparr>"

definition on_desk :: "'d desk_state cmd \<Rightarrow> 'd machine cmd" where
  "on_desk = lift_cmd desk_of put_desk"

text \<open>The static variables as the loader leaves them, with an empty disk, on hardware in the state \<open>e\<close>.\<close>

definition machine_boot :: "'d \<Rightarrow> 'd machine" where
  "machine_boot e =
     \<lparr>mc_fs = fs_cleared, mc_net = net_boot,
      mc_sys = \<lparr>sys_kernel = kernel_boot, sys_gfx = gfx_boot, sys_ticks = 0, sys_halts = 0, sys_dev = e\<rparr>,
      mc_mouse = \<lparr>g_mouse_x = 40, g_mouse_y = 12, g_dx_accum = 0, g_dy_accum = 0, g_buttons = 0, g_has_event = False,
        g_ready = False, g_packet = [0, 0, 0], g_packet_idx = 0\<rparr>,
      mc_desktop = desktop_boot, mc_plinko = plinko_boot, mc_catnake = catnake_boot, mc_aux = [], mc_polls = []\<rparr>"

section \<open>The table\<close>

type_synonym 'd cmd_entry = "bytes \<times> bytes \<times> 'd machine cmd"

definition g_commands :: "'d hw \<Rightarrow> 'd cmd_entry list" where
  "g_commands hw =
    [(lit ''cd'', lit ''change working directory'', on_fs cmd_cd),
     (lit ''pwd'', lit ''print working directory'', on_fs cmd_pwd),
     (lit ''tree'', lit ''print directory tree'', on_fs cmd_tree),
     (lit ''cp'', lit ''copy file'', on_fs cmd_cp),
     (lit ''mv'', lit ''move or rename file'', on_fs cmd_mv),
     (lit ''rmdir'', lit ''remove empty directory'', on_fs cmd_rmdir),
     (lit ''find'', lit ''search files by name'', on_fs cmd_find),
     (lit ''grep'', lit ''search file content'', on_fs cmd_grep),
     (lit ''echo'', lit ''print text'', on_fs cmd_echo),
     (lit ''cat'', lit ''display file'', on_fs cmd_cat),
     (lit ''uname'', lit ''print kernel info'', cmd_uname),
     (lit ''whoami'', lit ''print active user'', cmd_whoami),
     (lit ''date'', lit ''print RTC date and time'', on_sys (cmd_date hw)),
     (lit ''reboot'', lit ''restart the system'', on_sys (cmd_reboot hw)),
     (lit ''shutdown'', lit ''halt the system'', on_sys (cmd_shutdown hw)),
     (lit ''ifconfig'', lit ''show network interfaces'', on_net (cmd_ifconfig (hw_dev hw))),
     (lit ''netstat'', lit ''show network sockets'', on_net (cmd_netstat (hw_dev hw))),
     (lit ''nslookup'', lit ''resolve DNS names'', on_net (cmd_nslookup (hw_dev hw))),
     (lit ''traceroute'', lit ''trace route hops'', on_net (cmd_traceroute (hw_dev hw))),
     (lit ''curl'', lit ''download URL'', on_net (cmd_curl (hw_dev hw))),
     (lit ''telnet'', lit ''open TCP connection'', on_net (cmd_telnet (hw_dev hw))),
     (lit ''ps'', lit ''list running tasks'', on_sys (cmd_ps hw)),
     (lit ''kill'', lit ''terminate task'', on_sys (cmd_kill hw)),
     (lit ''top'', lit ''live task monitor'', on_sys (cmd_top hw)),
     (lit ''dmesg'', lit ''show kernel ring log'', on_sys (cmd_dmesg hw)),
     (lit ''kstats'', lit ''show kernel subsystem stats'', on_sys (cmd_kstats hw)),
     (lit ''catnake'', lit ''snake game'', on_catnake cmd_catnake),
     (lit ''pong'', lit ''launch Pong game'', on_polls cmd_pong),
     (lit ''ls'', lit ''list files'', on_fs cmd_ls),
     (lit ''mkdir'', lit ''make directory'', on_fs cmd_mkdir),
     (lit ''rm'', lit ''remove file/dir'', on_fs cmd_rm),
     (lit ''touch'', lit ''create file'', on_fs cmd_touch),
     (lit ''ping'', lit ''ping IP address'', on_net (cmd_ping (hw_dev hw))),
     (lit ''wget'', lit ''download file'', on_fs_net (cmd_wget (hw_dev hw))),
     (lit ''mamu'', lit ''text editor'', on_mamu cmd_mamu),
     (lit ''desktop'', lit ''launch desktop environment'', on_desk (cmd_desktop (hw_dev hw))),
     (lit ''kat'', lit ''display file'', on_fs cmd_kat),
     (lit ''uptime'', lit ''show time since boot'', on_sys (cmd_uptime hw)),
     (lit ''sleep'', lit ''sleep N milliseconds'', on_sys (cmd_sleep hw)),
     (lit ''calc'', lit ''evaluate integer expression'', cmd_calc_cmd),
     (lit ''beep'', lit ''play PC speaker tone'', on_sys (cmd_beep hw)),
     (lit ''java'', lit ''run TinyJVM/HJAR app'', on_fs cmd_java),
     (lit ''jarinfo'', lit ''inspect JAR/ZIP contents'', on_fs cmd_jarinfo),
     (lit ''plinko'', lit ''play Plinko game'', on_plinko cmd_plinko),
     (lit ''/java'', lit ''jump to /java directory'', on_fs cmd_java_dir)]"

fun dispatch_loop :: "'d cmd_entry list \<Rightarrow> 'd machine dispatch" where
  "dispatch_loop [] cmd args s = Some (False, s)"
| "dispatch_loop ((name, help, handler) # es) cmd args s =
     (if strcmp_l cmd name = 0 then map_option (Pair True) (handler args s) else dispatch_loop es cmd args s)"

definition cmd_dispatch :: "'d hw \<Rightarrow> 'd machine dispatch" where
  "cmd_dispatch hw cmd args s = (if cmd = [] then Some (False, s) else dispatch_loop (g_commands hw) cmd args s)"

section \<open>What the table keeps\<close>

text \<open>The condition that the desktop puts on the static variables, kept by a handler that draws only.\<close>

definition machine_ok :: "'d machine \<Rightarrow> bool" where
  "machine_ok m \<longleftrightarrow> desk_static (mc_mouse m, mc_desktop m)"

definition tame :: "'d machine cmd \<Rightarrow> bool" where
  "tame c \<longleftrightarrow> (\<forall>args m t m' t'. c args (m, t) = Some (m', t') \<and> machine_ok m \<longrightarrow> draws t t' \<and> machine_ok m')"

lemma tame_lift:
  assumes "quiet c" and "\<And>x m. machine_ok (put x m) = machine_ok m"
  shows "tame (lift_cmd get put c)"
  using assms unfolding tame_def quiet_def lift_cmd_def by auto

lemma tame_lifts [simp]:
  "quiet c1 \<Longrightarrow> tame (on_fs c1)" "quiet c2 \<Longrightarrow> tame (on_sys c2)" "quiet c3 \<Longrightarrow> tame (on_net c3)"
  "quiet c4 \<Longrightarrow> tame (on_fs_net c4)" "quiet c5 \<Longrightarrow> tame (on_polls c5)" "quiet c6 \<Longrightarrow> tame (on_plinko c6)"
  "quiet c7 \<Longrightarrow> tame (on_catnake c7)" "quiet c8 \<Longrightarrow> tame (on_mamu c8)"
  unfolding on_fs_def on_sys_def on_net_def on_fs_net_def on_polls_def on_plinko_def on_catnake_def on_mamu_def
  by (erule tame_lift, simp add: machine_ok_def put_net_def)+

lemma quiet_programs: "quiet cmd_pong" "quiet cmd_plinko" "quiet cmd_catnake" "quiet cmd_mamu"
  using cmd_pong_draws cmd_plinko_draws cmd_catnake_draws cmd_mamu_draws by (auto intro!: quiet_I)

lemma tame_desktop: "tame (on_desk (cmd_desktop dv))"
  unfolding tame_def on_desk_def lift_cmd_def using cmd_desktop_draws [of dv _ "desk_of _"]
  by (auto simp: machine_ok_def put_desk_def desk_of_def)

lemma tame_same: "(\<And>args m t m' t'. c args (m, t) = Some (m', t') \<Longrightarrow> draws t t' \<and> m' = m) \<Longrightarrow> tame c"
  unfolding tame_def by blast

lemma tame_printers: "tame cmd_uname" "tame cmd_whoami" "tame cmd_calc_cmd"
proof -
  show "tame cmd_uname" "tame cmd_whoami"
    by (rule tame_same, auto simp: cmd_uname_def cmd_whoami_def say_pair quiet_rules)+
  show "tame cmd_calc_cmd"
    using quiet_system_commands(14) by (intro tame_same) (auto simp: cmd_calc_cmd_def quiet_def split: outcome.split_asm)
qed

lemmas quiet_commands = quiet_file_commands quiet_system_commands quiet_net_status quiet_nslookup quiet_transfers
  quiet_ping quiet_traceroute quiet_wget quiet_java quiet_jarinfo quiet_java_dir quiet_programs

lemma table_tame: "(n, h, c) \<in> set (g_commands hw) \<Longrightarrow> tame c"
  unfolding g_commands_def by (auto simp: quiet_commands tame_desktop tame_printers simp del: lit_Cons)

lemma dispatch_tame:
  assumes "dispatch_loop es cmd args (m, t) = Some (b, m', t')" and "\<forall>(n, h, c)\<in>set es. tame c" and "machine_ok m"
  shows "draws t t' \<and> machine_ok m'"
  using assms by (induction es cmd args "(m, t)" rule: dispatch_loop.induct) (auto simp: tame_def split: if_split_asm)

interpretation shell: command_table "cmd_dispatch hw" machine_ok
proof
  fix c a w t h w' t'
  assume "cmd_dispatch hw c a (w, t) = Some (h, w', t')" "machine_ok w"
  then have "draws t t' \<and> machine_ok w'"
    using dispatch_tame [of "g_commands hw" c a w t h w' t'] table_tame [of _ _ _ hw]
    by (auto simp: cmd_dispatch_def split: if_split_asm)
  then show "draws t t'" "machine_ok w'" by simp_all
qed

section \<open>Finding the handler\<close>

lemma of_char_nat: "unat (of_char c :: u8) = of_char c"
proof -
  have "(of_char c :: u8) = word_of_nat (of_char c)" by (simp only: of_nat_of_char)
  moreover have "of_char c < (256 :: nat)" by simp
  ultimately show ?thesis by (simp add: unat_of_nat del: of_nat_of_char)
qed

lemma lit_eq: "lit a = lit b \<longleftrightarrow> a = b"
proof (induction a arbitrary: b)
  case Nil
  then show ?case by (cases b) auto
next
  case (Cons c a)
  have "of_char c = (of_char d :: u8) \<Longrightarrow> c = d" for d
    using of_char_nat [of c] of_char_nat [of d] by (metis of_char_eq_iff)
  with Cons show ?case by (cases b) auto
qed

lemma lit_zero: "CHR 0x00 \<notin> set a \<Longrightarrow> 0 \<notin> set (lit a)"
proof (induction a)
  case (Cons c a)
  have "of_char (CHR 0x00) = (0 :: nat)" by simp
  then have "of_char c = (0 :: u8) \<Longrightarrow> c = CHR 0x00" using of_char_nat [of c] by (metis of_char_eq_iff unat_0)
  with Cons show ?case by auto
qed simp

definition command_names :: "string list" where
  "command_names =
    [''cd'', ''pwd'', ''tree'', ''cp'', ''mv'', ''rmdir'', ''find'', ''grep'', ''echo'', ''cat'', ''uname'', ''whoami'', ''date'',
     ''reboot'', ''shutdown'', ''ifconfig'', ''netstat'', ''nslookup'', ''traceroute'', ''curl'', ''telnet'', ''ps'', ''kill'', ''top'',
     ''dmesg'', ''kstats'', ''catnake'', ''pong'', ''ls'', ''mkdir'', ''rm'', ''touch'', ''ping'', ''wget'', ''mamu'', ''desktop'', ''kat'',
     ''uptime'', ''sleep'', ''calc'', ''beep'', ''java'', ''jarinfo'', ''plinko'', ''/java'']"

lemma names_eq: "map fst (g_commands hw) = map lit command_names"
  unfolding g_commands_def command_names_def by (simp del: lit_Cons lit_Nil)

lemma command_names_distinct: "distinct command_names"
  unfolding command_names_def by code_simp

lemma command_names_text: "\<forall>a\<in>set command_names. CHR 0x00 \<notin> set a \<and> a \<noteq> []"
  unfolding command_names_def by simp

lemma table_names:
  "distinct (map fst (g_commands hw))" "\<forall>n\<in>set (map fst (g_commands hw)). 0 \<notin> set n \<and> n \<noteq> []"
  unfolding names_eq using command_names_distinct command_names_text
  by (auto simp: distinct_map inj_on_def lit_eq lit_zero) (simp add: lit_def)

lemma dispatch_hit:
  assumes "(n, h, c) \<in> set es" and "distinct (map fst es)" and "\<forall>k\<in>set (map fst es). 0 \<notin> set k"
  shows "dispatch_loop es n args s = map_option (Pair True) (c args s)"
  using assms
proof (induction es)
  case (Cons e es)
  then show ?case by (cases e) force
qed simp

lemma dispatch_miss:
  assumes "n \<notin> set (map fst es)" and "0 \<notin> set n" and "\<forall>k\<in>set (map fst es). 0 \<notin> set k"
  shows "dispatch_loop es n args s = Some (False, s)"
  using assms by (induction es) auto

lemma dispatch_entry: "(n, h, c) \<in> set (g_commands hw) \<Longrightarrow> cmd_dispatch hw n args s = map_option (Pair True) (c args s)"
  using dispatch_hit [of n h c "g_commands hw" args s] table_names [of hw] by (force simp: cmd_dispatch_def)

lemma dispatch_other: "n \<notin> set (map fst (g_commands hw)) \<Longrightarrow> 0 \<notin> set n \<Longrightarrow> cmd_dispatch hw n args s = Some (False, s)"
  using dispatch_miss [of n "g_commands hw" args s] table_names [of hw] by (auto simp: cmd_dispatch_def)

section \<open>Sessions\<close>

text \<open>The lines that a sequence of keys enters into the editor.\<close>

fun entered :: "nat list \<Rightarrow> editor \<Rightarrow> bytes list" where
  "entered [] e = []"
| "entered (k # ks) e =
     (if (k = KEY_ENTER \<or> k = 10) \<and> ed_line e \<noteq> [] then [ed_line e] else []) @ entered ks (ed_step k e)"

text \<open>The commands that end on every well-formed disk and keep it well formed.\<close>

definition safe_words :: "string list" where
  "safe_words = [''cd'', ''pwd'', ''ls'', ''tree'', ''find'', ''grep'', ''kat'', ''cat'', ''mkdir'', ''touch'', ''cp'', ''echo'', ''uname'', ''whoami'']"

definition line_word :: "bytes \<Rightarrow> bytes" where
  "line_word l = map lower_char (fst (split_command l))"

definition safe_line :: "bytes \<Rightarrow> bool" where
  "safe_line l \<longleftrightarrow> line_word l \<in> set (map lit safe_words) \<or> line_word l \<notin> set (map lit command_names)"

definition sound :: "'d machine cmd \<Rightarrow> bool" where
  "sound c \<longleftrightarrow> (\<forall>args m t. shell_wf (mc_fs m) \<and> clean args \<longrightarrow> (\<exists>m' t'. c args (m, t) = Some (m', t') \<and> shell_wf (mc_fs m')))"

lemma sound_fs: "keeps c \<Longrightarrow> sound (on_fs c)"
  unfolding keeps_def sound_def on_fs_def lift_cmd_def by fastforce

lemma sound_printers: "sound cmd_uname" "sound cmd_whoami"
  by (simp_all add: sound_def cmd_uname_def cmd_whoami_def say_pair)

lemma safe_entry:
  assumes "(n, h, c) \<in> set (g_commands hw)" and "n \<in> set (map lit safe_words)"
  shows "sound c"
proof -
  note k = keeps_cd keeps_pwd keeps_ls keeps_tree keeps_find keeps_grep keeps_kat keeps_create keeps_cp keeps_echo
  show ?thesis
    using assms unfolding g_commands_def safe_words_def
    by (auto simp: sound_fs k sound_printers lit_eq simp del: lit_Cons)
qed

lemma split_clean:
  assumes "split_command l = (a, b)" and "0 \<notin> set l"
  shows "0 \<notin> set a" "clean b"
proof -
  define r where "r = dropWhile (\<lambda>c. c = chr_sp) (tl (dropWhile (\<lambda>c. c \<noteq> chr_sp) l))"
  define w where "w = takeWhile (\<lambda>c. c \<noteq> chr_sp) l"
  have "set (tl ys) \<subseteq> set ys" for ys :: bytes by (cases ys) auto
  then have "set (tl (dropWhile (\<lambda>c. c \<noteq> chr_sp) l)) \<subseteq> set l" by (meson set_dropWhileD subset_iff)
  then have r: "0 \<notin> set r" using assms(2) unfolding r_def by (meson set_dropWhileD subset_iff)
  have w: "0 \<notin> set w" using assms(2) unfolding w_def by (meson set_takeWhileD)
  have "(a, b) = (if chr_sp \<in> set l then (w, if r = [] then None else Some r) else (l, None))"
    unfolding assms(1) [symmetric] split_command_def Let_def r_def w_def ..
  then show "0 \<notin> set a" "clean b" using r w assms(2) by (auto simp: clean_def split: if_split_asm)
qed

lemma lower_char_nz: "lower_char c = 0 \<longleftrightarrow> c = 0"
proof (cases "c \<ge> 65 \<and> c \<le> 90")
  case True
  then have "unat (c - 65) = unat c - 65" "65 \<le> unat c" "unat c \<le> 90" by (auto simp: unat_sub word_le_nat_alt)
  then have "unat (c - 65 + 97) = unat c + 32" by (simp add: unat_word_ariths)
  then have "c - 65 + 97 \<noteq> 0" by (metis add_is_0 unat_0 zero_neq_numeral)
  then show ?thesis using True by (auto simp: lower_char_def)
qed (auto simp: lower_char_def)

lemma command_line:
  assumes "0 \<notin> set l" and "length l \<le> 255"
  shows "split_command (cstr_of (strncpy_l l (HIST_LEN - 1) @ [0])) = split_command l"
  using strncpy_l_array(4) [of l "HIST_LEN - 1"] assms by (simp add: HIST_LEN_def)

lemma safe_line_runs:
  assumes l: "0 \<notin> set l" "length l \<le> 255" and safe: "safe_line l" and wf: "shell_wf (mc_fs w)"
  shows "\<exists>w' t'. run_command (cmd_dispatch hw) l (w, t) = Some (w', t') \<and> shell_wf (mc_fs w')"
proof -
  obtain a b where ab: "split_command l = (a, b)" by fastforce
  note cl = split_clean [OF ab l(1)]
  let ?c = "line_word l"
  have c: "?c = map lower_char a" "0 \<notin> set ?c" using cl(1) ab by (auto simp: line_word_def lower_char_nz dest: sym)
  have "\<exists>h w' t'. cmd_dispatch hw ?c b (w, t) = Some (h, w', t') \<and> shell_wf (mc_fs w')"
  proof (cases "?c \<in> set (map fst (g_commands hw))")
    case True
    then obtain h k where e: "(?c, h, k) \<in> set (g_commands hw)" by auto
    have "?c \<in> set (map lit safe_words)" using safe True by (simp add: safe_line_def flip: names_eq [of hw])
    from safe_entry [OF e this] obtain w' t' where "k b (w, t) = Some (w', t')" "shell_wf (mc_fs w')"
      unfolding sound_def using wf cl(2) by blast
    then have "cmd_dispatch hw ?c b (w, t) = Some (True, w', t')" using dispatch_entry [OF e] by simp
    then show ?thesis using \<open>shell_wf (mc_fs w')\<close> by blast
  next
    case False
    then have "cmd_dispatch hw ?c b (w, t) = Some (False, w, t)" by (rule dispatch_other [OF _ c(2)])
    then show ?thesis using wf by blast
  qed
  then show ?thesis
    using wf unfolding run_command_def Let_def command_line [OF l] ab prod.case c(1) [symmetric] by (auto split: if_split)
qed

lemma key_enter_returns:
  assumes t: "on_screen t" "editor_wf t"
    and run: "\<And>u. line_of t \<noteq> [] \<Longrightarrow> \<exists>w' t'. run_command disp (line_of t) (w, u) = Some (w', t') \<and> P w'" and w: "P w"
  shows "\<exists>w' t'. key_enter disp (w, t) = Some (w', t') \<and> P w'"
proof -
  define t1 where "t1 = t\<lparr>cmdbuf := (cmdbuf t)[cmdlen t := 0]\<rparr>"
  define t2 where "t2 = (term_putc 10 7 t1)\<lparr>g_nav_pos := 0\<rparr>"
  have t1: "t1 = t" using t(2) by (cases t) (simp add: t1_def editor_wf_def list_update_same_conv)
  have d: "draws t (term_putc 10 7 t)" ..
  then have t2: "editor_wf t2" "ed_abs t2 = (ed_abs t)\<lparr>steps := 0\<rparr>"
    using t editor_part_cong [of "term_putc 10 7 t" t] editor_wf_nav [where t = "term_putc 10 7 t" and k = 0]
    by (auto simp: t2_def t1 draws_def)
  have line: "cstr_of (cmdbuf t2) = line_of t" "cmdlen t2 = length (line_of t)"
    using cstr_of_cmdbuf [OF t2(1)] line_of_length [OF t2(1)] arg_cong [OF t2(2), of ed_line]
    by (simp_all add: ed_line_def ed_abs_def)
  show ?thesis
    unfolding key_enter_def Let_def prod.case t1_def [symmetric] t2_def [symmetric] line
    using run [of "hist_add (Some (line_of t)) t2"] w by (cases "line_of t = []") auto
qed

lemma session_returns:
  assumes "on_screen t" and "editor_wf t" and "machine_ok w" and "shell_wf (mc_fs w)"
    and "\<forall>l\<in>set (entered keys (ed_abs t)). safe_line l"
  shows "\<exists>w' t'. terminal_loop (cmd_dispatch hw) keys (w, t) = Some (w', t') \<and> shell_wf (mc_fs w')"
  using assms
proof (induction keys arbitrary: w t)
  case (Cons k keys)
  have line: "ed_line (ed_abs t) = line_of t" by (simp add: ed_line_def ed_abs_def)
  have l: "0 \<notin> set (line_of t)" "length (line_of t) \<le> 255" using Cons.prems(2) by (auto simp: editor_wf_def line_of_def)
  have "\<exists>w' t'. terminal_key (cmd_dispatch hw) k (w, t) = Some (w', t') \<and> shell_wf (mc_fs w')"
  proof (cases "k \<noteq> 0 \<and> (k = KEY_ENTER \<or> k = 10)")
    case True
    have "\<exists>w' t'. run_command (cmd_dispatch hw) (line_of t) (w, u) = Some (w', t') \<and> shell_wf (mc_fs w')" if "line_of t \<noteq> []" for u
      using safe_line_runs [OF l _ Cons.prems(4), of hw u] Cons.prems(5) True that line by auto
    from key_enter_returns [OF Cons.prems(1,2) this Cons.prems(4)] show ?thesis using True by (auto simp: terminal_key_def)
  qed (use Cons.prems(4) in \<open>auto simp: terminal_key_def\<close>)
  then obtain w1 t1 where s: "terminal_key (cmd_dispatch hw) k (w, t) = Some (w1, t1)" "shell_wf (mc_fs w1)" by blast
  note r = shell.terminal_key_refines [OF Cons.prems(1-3) s(1)]
  then show ?case using Cons.IH [of t1 w1] s Cons.prems(5) by (auto simp: ed_ok_def)
qed simp

section \<open>Properties\<close>


definition idle_hw :: "unit hw" where
  "idle_hw = \<lparr>hw_dev = \<lparr>dev_in = (\<lambda>_ u. (0, u)), dev_out = (\<lambda>_ _ u. u), dev_inw = (\<lambda>_ u. (0, u)), dev_outw = (\<lambda>_ _ u. u),
     dev_inl = (\<lambda>_ u. (0, u)), dev_outl = (\<lambda>_ _ u. u)\<rparr>, hw_tx = (\<lambda>_. True), hw_irq = (\<lambda>_. 1)\<rparr>"


text \<open>C2. A session of the shell with the real command table, whatever is typed and whatever commands run (also the
  full-screen programs): if it returns, the terminal's editor and history are those of the abstract editor after the same keys,
  the cursor is on the screen, the buffers are within their bounds, no cell outside the screen has been written, and the
  static variables of the desktop and the mouse are still well formed.\<close>

theorem shell_session_refines:
  assumes "on_screen t" and "editor_wf t" and "machine_ok w"
    and "terminal_run (cmd_dispatch hw) keys (w, t) = Some (w', t')"
  shows "ed_abs t' = fold ed_step keys ((ed_abs t)\<lparr>before := [], after := []\<rparr>) \<and> on_screen t' \<and> editor_wf t' \<and>
    same_outside t t' \<and> machine_ok w'"
proof -
  have s: "ed_ok t (terminal_start t) ((ed_abs t)\<lparr>before := [], after := []\<rparr>)"
    by (rule terminal_start_refines [OF assms(1,2)])
  have "ed_ok (terminal_start t) t' (fold ed_step keys (ed_abs (terminal_start t))) \<and> machine_ok w'"
    by (rule shell.terminal_loop_refines) (use s assms(3,4) in \<open>simp_all add: ed_ok_def terminal_run_def\<close>)
  with s show ?thesis by (auto simp: ed_ok_def intro: same_outside_trans)
qed

text \<open>C3. On a well-formed disk every session returns in which the lines entered begin with \<open>cd\<close>, \<open>pwd\<close>, \<open>ls\<close>, \<open>tree\<close>,
  \<open>find\<close>, \<open>grep\<close>, \<open>kat\<close>, \<open>cat\<close>, \<open>mkdir\<close>, \<open>touch\<close>, \<open>cp\<close>, \<open>echo\<close>, \<open>uname\<close>, \<open>whoami\<close>, a built-in command or a word that is
  no command, with any arguments and any editing in between; it leaves the disk well formed and the history holds its last fifty lines.\<close>

theorem shell_session_safe:
  assumes "on_screen t" and "editor_wf t" and "machine_ok w" and "shell_wf (mc_fs w)"
    and "\<forall>l\<in>set (entered keys ((ed_abs t)\<lparr>before := [], after := []\<rparr>)). safe_line l"
  shows "\<exists>w' t'. terminal_run (cmd_dispatch hw) keys (w, t) = Some (w', t') \<and> shell_wf (mc_fs w') \<and>
    ed_abs t' = fold ed_step keys ((ed_abs t)\<lparr>before := [], after := []\<rparr>)"
proof -
  have s: "ed_ok t (terminal_start t) ((ed_abs t)\<lparr>before := [], after := []\<rparr>)"
    by (rule terminal_start_refines [OF assms(1,2)])
  then have t: "on_screen (terminal_start t)" "editor_wf (terminal_start t)"
    "ed_abs (terminal_start t) = (ed_abs t)\<lparr>before := [], after := []\<rparr>" by (simp_all add: ed_ok_def)
  obtain w' t' where r: "terminal_loop (cmd_dispatch hw) keys (w, terminal_start t) = Some (w', t')" "shell_wf (mc_fs w')"
    using session_returns [OF t(1,2) assms(3,4), of keys hw] assms(5) t(3) by auto
  then show ?thesis
    using shell.terminal_loop_refines [OF t(1,2) assms(3) r(1)] t(3) by (auto simp: terminal_run_def ed_ok_def)
qed

lemma machine_boot_ok: "machine_ok (machine_boot e)" "shell_wf (mc_fs (machine_boot e))"
  using desktop_boot_static(1) cleared_shell by (simp_all add: machine_ok_def machine_boot_def)

text \<open>Two lines, the second edited: the typist types \<open>x\<close>, deletes it and types \<open>ls\<close>.\<close>

definition demo_keys :: "nat list" where
  "demo_keys = type_keys (lit ''mkdir d'') @ [120, KEY_BACKSPACE] @ type_keys (lit ''ls'')"

lemma demo_entered:
  "entered demo_keys ((ed_abs terminal_boot)\<lparr>before := [], after := []\<rparr>) = [lit ''mkdir d'', lit ''ls'']"
  by (simp add: demo_keys_def type_keys_def terminal_boot_wf ed_step_def ed_key_def ed_enter_def ed_line_def const_defs byte_of_nat_def)

lemma demo_safe: "\<forall>l\<in>set [lit ''mkdir d'', lit ''ls'']. safe_line l"
  by (simp add: safe_line_def line_word_def split_command_def safe_words_def lower_char_def)

theorem shell_session_safe_witness:
  "\<exists>w' t'. terminal_run (cmd_dispatch idle_hw) demo_keys (machine_boot (), terminal_boot) = Some (w', t') \<and> shell_wf (mc_fs w')"
  using shell_session_safe [OF terminal_boot_wf(1,2) machine_boot_ok, of demo_keys] demo_entered demo_safe by metis

theorem shell_session_refines_witness:
  "\<exists>w' t'. terminal_run (cmd_dispatch idle_hw) demo_keys (machine_boot (), terminal_boot) = Some (w', t') \<and> on_screen t' \<and> editor_wf t'"
proof -
  have "\<exists>w' t'. terminal_loop (cmd_dispatch idle_hw) demo_keys (machine_boot (), terminal_start terminal_boot) = Some (w', t') \<and> shell_wf (mc_fs w')"
    using terminal_start_refines [OF terminal_boot_wf(1,2)] demo_entered demo_safe machine_boot_ok
    by (intro session_returns) (auto simp: ed_ok_def)
  then show ?thesis
    using shell_session_refines [OF terminal_boot_wf(1,2) machine_boot_ok(1)] unfolding terminal_run_def by fastforce
qed

end
