(* ===== verification/Printf.thy ===== *)
theory Printf
  imports Serial
begin

text \<open>
  Formatted output, \<^verbatim>\<open>src/src/kernel/printf.c\<close>.  The output function and its
  context are parameters, as in the code; the variable arguments are a list of tagged values,
  and taking an argument of the wrong kind or past the end, which C leaves undefined, has no
  result.  Formatting is shown to hand the characters of one text, in order, to the output
  function; what a sink makes of them is its own contract, the locale \<open>char_sink\<close>,
  interpreted for the bounded buffer of \<open>kvsnprintf\<close> and for the serial port of
  \<open>kprintf\<close>.
\<close>

section \<open>The code\<close>

datatype varg = VInt u32 | VStr "bytes option"

definition emit_char :: "(u8 \<Rightarrow> 'c \<Rightarrow> 'c) option \<Rightarrow> u8 \<Rightarrow> 'c \<Rightarrow> 'c \<times> nat" where
  "emit_char out c ctx = (case out of None \<Rightarrow> (ctx, 0) | Some put \<Rightarrow> (put c ctx, 1))"

fun emit_loop :: "(u8 \<Rightarrow> 'c \<Rightarrow> 'c) option \<Rightarrow> bytes \<Rightarrow> 'c \<times> nat \<Rightarrow> 'c \<times> nat" where
  "emit_loop out [] (ctx, written) = (ctx, written)"
| "emit_loop out (c # s) (ctx, written) =
     (let (ctx', w) = emit_char out c ctx in emit_loop out s (ctx', written + w))"

definition emit_str :: "(u8 \<Rightarrow> 'c \<Rightarrow> 'c) option \<Rightarrow> bytes option \<Rightarrow> 'c \<Rightarrow> 'c \<times> nat" where
  "emit_str out s ctx = emit_loop out (case s of None \<Rightarrow> lit ''(null)'' | Some b \<Rightarrow> b) (ctx, 0)"

definition u64_digit :: "bool \<Rightarrow> nat \<Rightarrow> u8" where
  "u64_digit upper d = (if d < 10 then byte_of_nat (48 + d) else byte_of_nat ((if upper then 65 else 97) + (d - 10)))"

text \<open>The \<open>do ... while\<close> loop that fills \<open>tmp\<close>, least significant digit first.\<close>

function u64_loop :: "nat \<Rightarrow> bool \<Rightarrow> nat \<Rightarrow> bytes \<Rightarrow> bytes" where
  "u64_loop base upper v tmp =
     (let tmp' = tmp @ [u64_digit upper (v mod base)]; v' = v div base
      in if v' \<noteq> 0 \<and> length tmp' < 32 then u64_loop base upper v' tmp' else tmp')"
  by pat_completeness auto
termination
  by (relation "measure (\<lambda>(base, upper, v, tmp). 32 - length tmp)") auto

declare u64_loop.simps [simp del]

definition emit_u64_base :: "(u8 \<Rightarrow> 'c \<Rightarrow> 'c) option \<Rightarrow> nat \<Rightarrow> nat \<Rightarrow> bool \<Rightarrow> 'c \<Rightarrow> 'c \<times> nat" where
  "emit_u64_base out v base upper ctx =
     (if base < 2 \<or> base > 16 then (ctx, 0) else emit_loop out (rev (u64_loop base upper v [])) (ctx, 0))"

text \<open>One conversion: the remaining arguments, the context and the count.\<close>

definition kv_conv :: "(u8 \<Rightarrow> 'c \<Rightarrow> 'c) option \<Rightarrow> u8 \<Rightarrow> varg list \<Rightarrow> 'c \<Rightarrow> (varg list \<times> 'c \<times> nat) option" where
  "kv_conv out f ap ctx =
     (if f = 37 then Some (ap, emit_char out 37 ctx)
      else if f = 99 then
        (case ap of VInt v # ap' \<Rightarrow> Some (ap', emit_char out (ucast v) ctx) | _ \<Rightarrow> None)
      else if f = 115 then
        (case ap of VStr s # ap' \<Rightarrow> Some (ap', emit_str out s ctx) | _ \<Rightarrow> None)
      else if f = 100 \<or> f = 105 then
        (case ap of
           VInt v # ap' \<Rightarrow>
             (if sint v < 0
              then let (c1, w1) = emit_char out 45 ctx; (c2, w2) = emit_u64_base out (nat (- sint v)) 10 False c1
                   in Some (ap', c2, w1 + w2)
              else Some (ap', emit_u64_base out (nat (sint v)) 10 False ctx))
         | _ \<Rightarrow> None)
      else if f = 117 then
        (case ap of VInt v # ap' \<Rightarrow> Some (ap', emit_u64_base out (unat v) 10 False ctx) | _ \<Rightarrow> None)
      else if f = 120 then
        (case ap of VInt v # ap' \<Rightarrow> Some (ap', emit_u64_base out (unat v) 16 False ctx) | _ \<Rightarrow> None)
      else if f = 88 then
        (case ap of VInt v # ap' \<Rightarrow> Some (ap', emit_u64_base out (unat v) 16 True ctx) | _ \<Rightarrow> None)
      else if f = 112 then
        (case ap of
           VInt v # ap' \<Rightarrow>
             (let (c1, w1) = emit_str out (Some (lit ''0x'')) ctx; (c2, w2) = emit_u64_base out (unat v) 16 False c1
              in Some (ap', c2, w1 + w2))
         | _ \<Rightarrow> None)
      else let (c1, w1) = emit_char out 37 ctx; (c2, w2) = emit_char out f c1 in Some (ap, c2, w1 + w2))"

fun kvprintf_loop :: "(u8 \<Rightarrow> 'c \<Rightarrow> 'c) option \<Rightarrow> bytes \<Rightarrow> varg list \<Rightarrow> 'c \<Rightarrow> nat \<Rightarrow> ('c \<times> nat) option" where
  "kvprintf_loop out [] ap ctx written = Some (ctx, written)"
| "kvprintf_loop out [f] ap ctx written =
     (if f \<noteq> 37 then let (ctx', w) = emit_char out f ctx in Some (ctx', written + w) else Some (ctx, written))"
| "kvprintf_loop out (f # g # fmt) ap ctx written =
     (if f \<noteq> 37
      then let (ctx', w) = emit_char out f ctx in kvprintf_loop out (g # fmt) ap ctx' (written + w)
      else case kv_conv out g ap ctx of
             None \<Rightarrow> None
           | Some (ap', ctx', w) \<Rightarrow> kvprintf_loop out fmt ap' ctx' (written + w))"

definition kvprintf :: "(u8 \<Rightarrow> 'c \<Rightarrow> 'c) option \<Rightarrow> 'c \<Rightarrow> bytes option \<Rightarrow> varg list \<Rightarrow> ('c \<times> nat) option" where
  "kvprintf out ctx fmt ap = (case fmt of None \<Rightarrow> Some (ctx, 0) | Some f \<Rightarrow> kvprintf_loop out f ap ctx 0)"

record snprintf_ctx =
  sn_buf :: "nat \<Rightarrow> u8"
  sn_cap :: nat
  sn_pos :: nat

definition snprintf_putc :: "u8 \<Rightarrow> snprintf_ctx \<Rightarrow> snprintf_ctx" where
  "snprintf_putc c ctx =
     (let ctx1 = (if sn_cap ctx > 0 \<and> sn_pos ctx + 1 < sn_cap ctx
                  then ctx\<lparr>sn_buf := (sn_buf ctx)(sn_pos ctx := c)\<rparr> else ctx)
      in ctx1\<lparr>sn_pos := sn_pos ctx1 + 1\<rparr>)"

text \<open>The bytes of the buffer after the call and the result; a null buffer is \<open>None\<close>.\<close>

definition kvsnprintf :: "(nat \<Rightarrow> u8) option \<Rightarrow> nat \<Rightarrow> bytes option \<Rightarrow> varg list \<Rightarrow> ((nat \<Rightarrow> u8) \<times> nat) option" where
  "kvsnprintf buf cap fmt ap =
     (if buf = None \<and> cap > 0 then Some (\<lambda>_. 0, 0)
      else let b = (case buf of None \<Rightarrow> (\<lambda>_. 0) | Some b \<Rightarrow> b)
           in map_option
                (\<lambda>(ctx, total). (if cap > 0
                   then (sn_buf ctx)((if sn_pos ctx < cap then sn_pos ctx else cap - 1) := 0) else sn_buf ctx, total))
                (kvprintf (Some snprintf_putc) \<lparr>sn_buf = b, sn_cap = cap, sn_pos = 0\<rparr> fmt ap))"

definition ksnprintf :: "(nat \<Rightarrow> u8) option \<Rightarrow> nat \<Rightarrow> bytes option \<Rightarrow> varg list \<Rightarrow> ((nat \<Rightarrow> u8) \<times> nat) option" where
  "ksnprintf buf cap fmt args = kvsnprintf buf cap fmt args"

definition serial_printf_putc :: "uart \<Rightarrow> u8 \<Rightarrow> serial \<Rightarrow> serial" where
  "serial_printf_putc tx c s = serial_putc tx c s"

definition kprintf :: "uart \<Rightarrow> bytes option \<Rightarrow> varg list \<Rightarrow> serial \<Rightarrow> (serial \<times> nat) option" where
  "kprintf tx fmt args s = kvprintf (Some (serial_printf_putc tx)) s fmt args"

section \<open>The text of a format\<close>

definition conv_text :: "u8 \<Rightarrow> varg list \<Rightarrow> (varg list \<times> bytes) option" where
  "conv_text f ap =
     (if f = 37 then Some (ap, [37])
      else if f \<in> {99, 100, 105, 117, 120, 88, 112} then
        (case ap of
           VInt v # ap' \<Rightarrow> Some (ap',
             if f = 99 then [ucast v]
             else if f = 100 \<or> f = 105 then
               (if sint v < 0 then 45 # rev (u64_loop 10 False (nat (- sint v)) []) else rev (u64_loop 10 False (nat (sint v)) []))
             else if f = 117 then rev (u64_loop 10 False (unat v) [])
             else (if f = 112 then lit ''0x'' else []) @ rev (u64_loop 16 (f = 88) (unat v) []))
         | _ \<Rightarrow> None)
      else if f = 115 then
        (case ap of VStr s # ap' \<Rightarrow> Some (ap', case s of None \<Rightarrow> lit ''(null)'' | Some b \<Rightarrow> b) | _ \<Rightarrow> None)
      else Some (ap, [37, f]))"

fun format_text :: "bytes \<Rightarrow> varg list \<Rightarrow> bytes option" where
  "format_text [] ap = Some []"
| "format_text [f] ap = Some (if f \<noteq> 37 then [f] else [])"
| "format_text (f # g # fmt) ap =
     (if f \<noteq> 37 then map_option (\<lambda>t. f # t) (format_text (g # fmt) ap)
      else case conv_text g ap of
             None \<Rightarrow> None
           | Some (ap', t) \<Rightarrow> map_option (\<lambda>r. t @ r) (format_text fmt ap'))"

lemma emit_loop_fold: "emit_loop (Some put) s (ctx, w) = (fold put s ctx, w + length s)"
  by (induction s arbitrary: ctx w) (auto simp: emit_char_def)

lemma kv_conv_text:
  "kv_conv (Some put) f ap ctx = map_option (\<lambda>(ap', t). (ap', fold put t ctx, length t)) (conv_text f ap)"
  by (auto simp: kv_conv_def conv_text_def emit_char_def emit_str_def emit_u64_base_def emit_loop_fold Let_def
      split: list.split varg.split option.split)

lemma kvprintf_loop_text:
  "kvprintf_loop (Some put) fmt ap ctx w = map_option (\<lambda>t. (fold put t ctx, w + length t)) (format_text fmt ap)"
proof (induction "Some put" fmt ap ctx w rule: kvprintf_loop.induct)
  case (3 f g fmt ap ctx w)
  then show ?case
    by (auto simp: emit_char_def kv_conv_text option.map_comp comp_def split: option.split)
      (simp add: add.assoc)
qed (auto simp: emit_char_def)

section \<open>Sinks\<close>

text \<open>
  A sink takes characters one by one; \<open>shown s bs\<close> says that the sink \<open>s\<close> is in the
  state that receiving exactly \<open>bs\<close> leaves.
\<close>

locale char_sink =
  fixes put :: "u8 \<Rightarrow> 'c \<Rightarrow> 'c"
    and shown :: "'c \<Rightarrow> bytes \<Rightarrow> bool"
  assumes shown_put: "shown s bs \<Longrightarrow> shown (put b s) (bs @ [b])"
begin

lemma shown_fold: "shown s bs \<Longrightarrow> shown (fold put cs s) (bs @ cs)"
proof (induction cs arbitrary: s bs)
  case (Cons c cs)
  then show ?case using Cons.IH [OF shown_put, of s bs c] by simp
qed simp

lemma kvprintf_shown:
  assumes "shown s []" and "format_text fmt ap = Some t"
  shows "\<exists>s'. kvprintf (Some put) s (Some fmt) ap = Some (s', length t) \<and> shown s' t"
  using shown_fold [OF assms(1), of t] assms(2) by (simp add: kvprintf_def kvprintf_loop_text)

end

definition sn_shown :: "(nat \<Rightarrow> u8) \<Rightarrow> nat \<Rightarrow> snprintf_ctx \<Rightarrow> bytes \<Rightarrow> bool" where
  "sn_shown buf cap c bs \<longleftrightarrow> sn_cap c = cap \<and> sn_pos c = length bs \<and>
     (\<forall>i. sn_buf c i = (if i < length bs \<and> i + 1 < cap then bs ! i else buf i))"

interpretation sn: char_sink snprintf_putc "sn_shown buf cap" for buf cap
  by unfold_locales (auto simp: sn_shown_def snprintf_putc_def Let_def nth_append less_Suc_eq)

definition serial_shown :: "uart \<Rightarrow> bytes \<Rightarrow> serial \<Rightarrow> bytes \<Rightarrow> bool" where
  "serial_shown tx before s bs \<longleftrightarrow> live_uart tx \<longrightarrow> g_serial_ready s \<and> sent s = before @ crlf bs"

interpretation ser: char_sink "serial_printf_putc tx" "serial_shown tx before" for tx before
  by unfold_locales (auto simp: serial_shown_def serial_printf_putc_def serial_putc_live)

section \<open>Numbers\<close>

definition upper_ok :: "nat \<Rightarrow> bool \<Rightarrow> bool" where
  "upper_ok base upper \<longleftrightarrow> 2 \<le> base \<and> base \<le> 16 \<and> (base \<le> 10 \<or> upper)"

lemma digit_val_u64: "d < base \<Longrightarrow> upper_ok base upper \<Longrightarrow> digit_val (u64_digit upper d) = d"
  by (auto simp: upper_ok_def u64_digit_def digit_val_def unat_byte_of_nat)

lemma u64_digit_not_minus: "d < 16 \<Longrightarrow> u64_digit upper d \<noteq> 45"
proof -
  assume "d < 16"
  then have "unat (u64_digit upper d) \<noteq> unat (45 :: u8)" by (simp add: u64_digit_def unat_byte_of_nat)
  then show ?thesis by auto
qed

lemma u64_loop_returns:
  assumes b: "upper_ok base upper" and "v < base ^ Suc k" and "length tmp + k < 32"
  shows "\<exists>ds. u64_loop base upper v tmp = tmp @ ds \<and> ds \<noteq> [] \<and> length ds \<le> Suc k \<and>
     foldr (\<lambda>c a. a * base + digit_val c) ds 0 = v \<and> (\<forall>c\<in>set ds. c \<noteq> 45)"
  using assms(2,3)
proof (induction k arbitrary: v tmp)
  have m: "v mod base < base" for v using b by (simp add: upper_ok_def)
  note dv = digit_val_u64 [OF m b]
  have nm: "u64_digit upper (v mod base) \<noteq> 45" for v
    by (rule u64_digit_not_minus, rule less_le_trans [OF m]) (use b in \<open>simp add: upper_ok_def\<close>)
  {
    case 0
    then have "v div base = 0" by simp
    then show ?case using 0 dv [of v] nm [of v] by (subst u64_loop.simps) (simp add: Let_def)
  next
    case (Suc k)
    show ?case
    proof (cases "v div base = 0")
      case True
      then have "v mod base = v" using b by (metis div_mult_mod_eq mult_0 add_0)
      then show ?thesis using True dv [of v] nm [of v] by (subst u64_loop.simps) (simp add: Let_def)
    next
      case False
      let ?t = "tmp @ [u64_digit upper (v mod base)]"
      have "v div base < base ^ Suc k"
        using Suc.prems(1) b by (simp add: upper_ok_def div_less_iff_less_mult mult.commute)
      then obtain ds where ds: "u64_loop base upper (v div base) ?t = ?t @ ds" "ds \<noteq> []" "length ds \<le> Suc k"
          "foldr (\<lambda>c a. a * base + digit_val c) ds 0 = v div base" "\<forall>c\<in>set ds. c \<noteq> 45"
        using Suc.IH [of "v div base" ?t] Suc.prems(2) by auto
      have "u64_loop base upper v tmp = u64_loop base upper (v div base) ?t"
        using False Suc.prems(2) by (subst u64_loop.simps) (simp add: Let_def)
      then show ?thesis using ds dv [of v] nm
        by (intro exI [of _ "u64_digit upper (v mod base) # ds"]) auto
    qed
  }
qed

lemma u64_text:
  assumes "upper_ok base upper" and "10 \<le> base" and "v < 18446744073709551616"
  shows "num_of base (rev (u64_loop base upper v [])) = v \<and> rev (u64_loop base upper v []) \<noteq> [] \<and>
     45 \<notin> set (u64_loop base upper v []) \<and> length (u64_loop base upper v []) \<le> 20"
proof -
  have "(18446744073709551616 :: nat) < 10 ^ Suc 19" by simp
  also have "\<dots> \<le> base ^ Suc 19" using assms(2) by (rule power_mono) simp
  finally have "v < base ^ Suc 19" using assms(3) by simp
  from u64_loop_returns [OF assms(1) this, of "[]"] show ?thesis by (auto simp: num_of_rev)
qed

lemma dec_of_digits: "s \<noteq> [] \<Longrightarrow> 45 \<notin> set s \<Longrightarrow> dec_of s = int (num_of 10 s)"
  by (cases s) (auto simp: dec_of_def)

section \<open>Properties of formatted output\<close>

text \<open>
  C23.  \<open>kvsnprintf\<close> into a buffer of \<open>cap > 0\<close> bytes returns the length of the whole
  formatted text, stores its first \<open>cap - 1\<close> characters followed by a terminator, and
  writes nothing beyond the buffer.
\<close>

theorem kvsnprintf_correct:
  assumes "format_text fmt args = Some t" and "0 < cap"
  shows "\<exists>b. kvsnprintf (Some buf) cap (Some fmt) args = Some (b, length t) \<and>
     (\<forall>i < min (length t) (cap - 1). b i = t ! i) \<and> b (min (length t) (cap - 1)) = 0 \<and>
     (\<forall>i\<ge>cap. b i = buf i)"
proof -
  let ?c = "\<lparr>sn_buf = buf, sn_cap = cap, sn_pos = 0\<rparr>"
  have "sn_shown buf cap ?c []" by (simp add: sn_shown_def)
  then obtain c where c: "kvprintf (Some snprintf_putc) ?c (Some fmt) args = Some (c, length t)" "sn_shown buf cap c t"
    using sn.kvprintf_shown [OF _ assms(1)] by blast
  have "(if sn_pos c < cap then sn_pos c else cap - 1) = min (length t) (cap - 1)"
    using c(2) assms(2) by (auto simp: sn_shown_def)
  then have "kvsnprintf (Some buf) cap (Some fmt) args = Some ((sn_buf c)(min (length t) (cap - 1) := 0), length t)"
    using c(1) assms(2) by (simp add: kvsnprintf_def)
  then show ?thesis using c(2) assms(2) by (auto simp: sn_shown_def)
qed

theorem kvsnprintf_correct_witness:
  "\<exists>b. kvsnprintf (Some (\<lambda>_. 9)) 4 (Some [37, 115, 33]) [VStr (Some [104, 101, 121])] = Some (b, 4) \<and>
     b 0 = 104 \<and> b 3 = 0 \<and> b 4 = 9"
proof -
  have f: "format_text [37, 115, 33] [VStr (Some [104, 101, 121])] = Some [104, 101, 121, 33]"
    by (simp add: conv_text_def)
  obtain b where "kvsnprintf (Some (\<lambda>_. 9)) 4 (Some [37, 115, 33]) [VStr (Some [104, 101, 121])] = Some (b, 4)"
      "\<forall>i < 3. b i = [104, 101, 121, 33] ! i" "b 3 = 0" "\<forall>i\<ge>4. b i = 9"
    using kvsnprintf_correct [OF f, of 4 "\<lambda>_. 9"] by (auto simp: numeral_eq_Suc)
  then show ?thesis by (intro exI [of _ b]) auto
qed

text \<open>
  Numbers print so that they read back: \<open>%d\<close> and \<open>%i\<close> give the decimal text of
  the signed value, the most negative one included, \<open>%u\<close> of the unsigned value and
  \<open>%X\<close> its hexadecimal digits.
\<close>

lemma format_number_roundtrip:
  "\<exists>td tu tx. format_text [37, 100] [VInt v] = Some td \<and> format_text [37, 105] [VInt v] = Some td \<and> dec_of td = sint v \<and>
     format_text [37, 117] [VInt v] = Some tu \<and> dec_of tu = int (unat v) \<and>
     format_text [37, 88] [VInt v] = Some tx \<and> num_of 16 tx = unat v"
proof -
  have ok: "upper_ok 10 False" "upper_ok 16 True" by (simp_all add: upper_ok_def)
  have lt: "unat v < 18446744073709551616" using unat_u32_less [of v] by linarith
  have r: "- 2147483648 \<le> sint v" "sint v < 2147483648"
  proof -
    have "0 \<le> uint v" "uint v < 4294967296" by simp_all
    moreover have "sint v = (if uint v < 2147483648 then uint v else uint v - 4294967296)" using sint_u32 [of v] by simp
    ultimately show "- 2147483648 \<le> sint v" "sint v < 2147483648" by presburger+
  qed
  then have sl: "nat (- sint v) < 18446744073709551616" "nat (sint v) < 18446744073709551616" by linarith+
  note n = u64_text [OF ok(1) _ sl(1)] and p = u64_text [OF ok(1) _ sl(2)] and u = u64_text [OF ok(1) _ lt]
    and x = u64_text [OF ok(2) _ lt]
  let ?td = "if sint v < 0 then 45 # rev (u64_loop 10 False (nat (- sint v)) []) else rev (u64_loop 10 False (nat (sint v)) [])"
  have "dec_of ?td = sint v"
  proof (cases "sint v < 0")
    case True
    then show ?thesis using n by (simp add: dec_of_def)
  next
    case False
    then show ?thesis using p dec_of_digits [of "rev (u64_loop 10 False (nat (sint v)) [])"] by simp
  qed
  moreover have "dec_of (rev (u64_loop 10 False (unat v) [])) = int (unat v)"
    using u dec_of_digits [of "rev (u64_loop 10 False (unat v) [])"] by simp
  ultimately show ?thesis using x
    by (intro exI [of _ ?td] exI [of _ "rev (u64_loop 10 False (unat v) [])"] exI [of _ "rev (u64_loop 16 True (unat v) [])"])
      (simp add: conv_text_def)
qed

end
