(* ===== verification/Keyboard.thy ===== *)
theory Keyboard
  imports Mouse Terminal
begin

text \<open>
  The keyboard, \<^verbatim>\<open>src/src/drivers/keyboard.c\<close>: translation of scancode set 1 to key codes with
  the shift and extended-prefix state, and the polling loops that share the controller with
  the mouse.  A loop that the controller could feed forever is a partial function; on a
  controller that holds finitely many bytes it is shown to return.
\<close>

text \<open>The two tables; the entries after the last initialiser are zero.\<close>

definition scancode_ascii :: bytes where
  "scancode_ascii = [
    0, 27, 49, 50, 51, 52, 53, 54, 55, 56, 57, 48, 45, 61, 8, 9, 113, 119, 101, 114, 116, 121, 117, 105,
    111, 112, 91, 93, 13, 0, 97, 115, 100, 102, 103, 104, 106, 107, 108, 59, 39, 96, 0, 92, 122, 120,
    99, 118, 98, 110, 109, 44, 46, 47, 0, 42, 0, 32, 0] @ replicate 69 0"

definition scancode_shift :: bytes where
  "scancode_shift = [
    0, 27, 33, 64, 35, 36, 37, 94, 38, 42, 40, 41, 95, 43, 8, 9, 81, 87, 69, 82, 84, 89, 85, 73, 79, 80,
    123, 125, 13, 0, 65, 83, 68, 70, 71, 72, 74, 75, 76, 58, 34, 126, 0, 124, 90, 88, 67, 86, 66, 78,
    77, 60, 62, 63, 0, 42, 0, 32, 0] @ replicate 69 0"

record keyboard =
  g_shift_left :: bool
  g_shift_right :: bool
  g_extended :: bool

definition shift_held :: "keyboard \<Rightarrow> bool" where
  "shift_held k \<longleftrightarrow> g_shift_left k \<or> g_shift_right k"

partial_function (option) keyboard_flush :: "'d device \<Rightarrow> 'd \<Rightarrow> 'd option" where
  "keyboard_flush dv d =
     (let (st, d1) = inb dv KB_STATUS_PORT d
      in if st AND KB_STATUS_OBF \<noteq> 0 then keyboard_flush dv (snd (inb dv KB_DATA_PORT d1)) else Some d1)"

definition keyboard_init :: "'d device \<Rightarrow> keyboard \<times> 'd \<Rightarrow> (keyboard \<times> 'd) option" where
  "keyboard_init dv s =
     map_option (\<lambda>d. ((fst s)\<lparr>g_shift_left := False, g_shift_right := False, g_extended := False\<rparr>, d))
       (keyboard_flush dv (snd s))"

partial_function (option) keyboard_has_key :: "'d device \<Rightarrow> mouse \<times> 'd \<Rightarrow> (bool \<times> mouse \<times> 'd) option" where
  "keyboard_has_key dv s =
     (let (st, d1) = inb dv KB_STATUS_PORT (snd s)
      in if st AND KB_STATUS_OBF = 0 then Some (False, fst s, d1)
         else if st AND KB_STATUS_AUX \<noteq> 0 then
           (let (v, d2) = inb dv KB_DATA_PORT d1 in keyboard_has_key dv (mouse_handle_aux_byte v (fst s), d2))
         else Some (True, fst s, d1))"

text \<open>The two \<open>switch\<close> statements; 0 is the \<open>default\<close> case.\<close>

definition extended_key :: "u8 \<Rightarrow> nat" where
  "extended_key code =
     (if code = 72 then KEY_UP else if code = 80 then KEY_DOWN else if code = 75 then KEY_LEFT
      else if code = 77 then KEY_RIGHT else if code = 71 then KEY_HOME else if code = 79 then KEY_END
      else if code = 83 then KEY_DELETE else if code = 73 then KEY_PAGEUP
      else if code = 81 then KEY_PAGEDOWN else 0)"

definition special_key :: "u8 \<Rightarrow> nat" where
  "special_key code =
     (if code = 1 then KEY_ESCAPE else if code = 14 then KEY_BACKSPACE else if code = 15 then KEY_TAB
      else if code = 28 then KEY_ENTER else if code = 59 then KEY_F1 else if code = 60 then KEY_F2
      else if code = 61 then KEY_F3 else if code = 62 then KEY_F4 else if code = 68 then KEY_F10
      else if code = 72 then KEY_UP else if code = 80 then KEY_DOWN else if code = 75 then KEY_LEFT
      else if code = 77 then KEY_RIGHT else 0)"

text \<open>One round of \<open>keyboard_poll\<close> on a keyboard byte: 0 stands for \<open>continue\<close>.\<close>

definition kb_scan :: "u8 \<Rightarrow> keyboard \<Rightarrow> nat \<times> keyboard" where
  "kb_scan sc k =
     (if sc = 224 then (0, k\<lparr>g_extended := True\<rparr>)
      else if sc = 225 then (0, k\<lparr>g_extended := False\<rparr>)
      else let released = (sc AND 128 \<noteq> 0); code = sc AND 127
      in if code = 42 then (0, k\<lparr>g_shift_left := \<not> released\<rparr>)
         else if code = 54 then (0, k\<lparr>g_shift_right := \<not> released\<rparr>)
         else if released then (0, k\<lparr>g_extended := False\<rparr>)
         else if g_extended k then (extended_key code, k\<lparr>g_extended := False\<rparr>)
         else if special_key code \<noteq> 0 then (special_key code, k)
         else if unat code < 128
           then (unat (if shift_held k then scancode_shift ! unat code else scancode_ascii ! unat code), k)
         else (0, k))"

partial_function (option) keyboard_poll ::
  "'d device \<Rightarrow> keyboard \<times> mouse \<times> 'd \<Rightarrow> (nat \<times> keyboard \<times> mouse \<times> 'd) option" where
  "keyboard_poll dv s =
     (let (k, m, d) = s; (st, d1) = inb dv KB_STATUS_PORT d
      in if st AND KB_STATUS_OBF = 0 then Some (0, k, m, d1)
         else if st AND KB_STATUS_AUX \<noteq> 0 then
           (let (v, d2) = inb dv KB_DATA_PORT d1 in keyboard_poll dv (k, mouse_handle_aux_byte v m, d2))
         else
           (let (sc, d2) = inb dv KB_DATA_PORT d1; (key, k1) = kb_scan sc k
            in if key = 0 then keyboard_poll dv (k1, m, d2) else Some (key, k1, m, d2)))"

partial_function (option) keyboard_wait ::
  "'d device \<Rightarrow> keyboard \<times> mouse \<times> 'd \<Rightarrow> (nat \<times> keyboard \<times> mouse \<times> 'd) option" where
  "keyboard_wait dv s =
     Option.bind (keyboard_poll dv s) (\<lambda>(key, s1). if key = 0 then keyboard_wait dv s1 else Some (key, s1))"

section \<open>A controller that holds a queue\<close>

text \<open>
  What the driver relies on of the 8042 controller, with \<open>q\<close> reading the bytes it holds, each
  with its origin (\<open>True\<close> for the auxiliary device): reading the status changes nothing and
  reports whether a byte is ready and where it comes from; reading the data port takes the byte.
\<close>

definition ps2_queue :: "'d device \<Rightarrow> ('d \<Rightarrow> (bool \<times> u8) list) \<Rightarrow> bool" where
  "ps2_queue dv q \<longleftrightarrow>
     (\<forall>d. q (snd (inb dv KB_STATUS_PORT d)) = q d \<and>
        (fst (inb dv KB_STATUS_PORT d) AND KB_STATUS_OBF = 0 \<longleftrightarrow> q d = []) \<and>
        (q d \<noteq> [] \<longrightarrow> (fst (inb dv KB_STATUS_PORT d) AND KB_STATUS_AUX \<noteq> 0 \<longleftrightarrow> fst (hd (q d))) \<and>
           fst (inb dv KB_DATA_PORT d) = snd (hd (q d)) \<and> q (snd (inb dv KB_DATA_PORT d)) = tl (q d)))"

lemma ps2_queueD:
  assumes "ps2_queue dv q" and "inb dv KB_STATUS_PORT d = (st, d1)"
  shows "q d1 = q d" and "st AND KB_STATUS_OBF = 0 \<longleftrightarrow> q d = []"
    and "q d = (a, b) # xs \<Longrightarrow> st AND KB_STATUS_AUX \<noteq> 0 \<longleftrightarrow> a"
    and "q d = (a, b) # xs \<Longrightarrow> \<exists>d2. inb dv KB_DATA_PORT d1 = (b, d2) \<and> q d2 = xs"
proof -
  have 1: "q (snd (inb dv KB_STATUS_PORT d)) = q d"
    "fst (inb dv KB_STATUS_PORT d) AND KB_STATUS_OBF = 0 \<longleftrightarrow> q d = []"
    "q d \<noteq> [] \<longrightarrow> (fst (inb dv KB_STATUS_PORT d) AND KB_STATUS_AUX \<noteq> 0 \<longleftrightarrow> fst (hd (q d)))"
    using assms(1) unfolding ps2_queue_def by blast+
  have 2: "q d1 \<noteq> [] \<longrightarrow> fst (inb dv KB_DATA_PORT d1) = snd (hd (q d1)) \<and> q (snd (inb dv KB_DATA_PORT d1)) = tl (q d1)"
    using assms(1) unfolding ps2_queue_def by blast
  show q1: "q d1 = q d" and "st AND KB_STATUS_OBF = 0 \<longleftrightarrow> q d = []" using 1 assms(2) by simp_all
  show "st AND KB_STATUS_AUX \<noteq> 0 \<longleftrightarrow> a" if "q d = (a, b) # xs" using 1(3) assms(2) that by simp
  show "\<exists>d2. inb dv KB_DATA_PORT d1 = (b, d2) \<and> q d2 = xs" if "q d = (a, b) # xs"
    using 2 q1 that by (cases "inb dv KB_DATA_PORT d1") simp
qed

text \<open>The keyboard and the mouse bytes of a queue, and the decoding of keyboard bytes alone.\<close>

definition kb_bytes :: "(bool \<times> u8) list \<Rightarrow> bytes" where
  "kb_bytes q = map snd (filter (\<lambda>p. \<not> fst p) q)"

definition aux_bytes :: "(bool \<times> u8) list \<Rightarrow> bytes" where
  "aux_bytes q = map snd (filter fst q)"

fun scan_all :: "bytes \<Rightarrow> keyboard \<Rightarrow> nat list \<times> keyboard" where
  "scan_all [] k = ([], k)"
| "scan_all (sc # scs) k =
     (let (key, k1) = kb_scan sc k; (keys, k2) = scan_all scs k1
      in (if key = 0 then keys else key # keys, k2))"

lemma kb_aux_simps [simp]:
  "kb_bytes [] = []" "kb_bytes ((a, b) # q) = (if a then kb_bytes q else b # kb_bytes q)"
  "aux_bytes [] = []" "aux_bytes ((a, b) # q) = (if a then b # aux_bytes q else aux_bytes q)"
  by (simp_all add: kb_bytes_def aux_bytes_def)

lemma keyboard_poll_queue:
  assumes "ps2_queue dv q"
  shows "\<exists>key k' m' d' ys. keyboard_poll dv (k, m, d) = Some (key, k', m', d') \<and> q d = ys @ q d' \<and>
    m' = fold mouse_handle_aux_byte (aux_bytes ys) m \<and>
    scan_all (kb_bytes ys) k = (if key = 0 then [] else [key], k') \<and> (key = 0 \<longrightarrow> q d' = [])"
proof (induction "q d" arbitrary: k m d)
  case Nil
  obtain st d1 where i: "inb dv KB_STATUS_PORT d = (st, d1)" by fastforce
  show ?case
    using ps2_queueD(1,2) [OF assms i] Nil i
    by (intro exI [of _ 0] exI [of _ k] exI [of _ m] exI [of _ d1] exI [of _ "[]"])
      (simp add: keyboard_poll.simps)
next
  case (Cons p xs)
  obtain a b where p: "p = (a, b)" by (cases p)
  obtain st d1 where i: "inb dv KB_STATUS_PORT d = (st, d1)" by fastforce
  have qd: "q d = (a, b) # xs" using Cons.hyps(2) p by simp
  obtain d2 where d2: "inb dv KB_DATA_PORT d1 = (b, d2)" "q d2 = xs" using ps2_queueD(4) [OF assms i qd] by blast
  have st: "st AND KB_STATUS_OBF \<noteq> 0" "st AND KB_STATUS_AUX \<noteq> 0 \<longleftrightarrow> a"
    using ps2_queueD(2,3) [OF assms i] qd by auto
  show ?case
  proof (cases a)
    case True
    have e: "keyboard_poll dv (k, m, d) = keyboard_poll dv (k, mouse_handle_aux_byte b m, d2)"
      using i d2 st True by (subst keyboard_poll.simps) simp
    obtain key k' m' d' ys where ih: "keyboard_poll dv (k, mouse_handle_aux_byte b m, d2) = Some (key, k', m', d')"
      "q d2 = ys @ q d'" "m' = fold mouse_handle_aux_byte (aux_bytes ys) (mouse_handle_aux_byte b m)"
      "scan_all (kb_bytes ys) k = (if key = 0 then [] else [key], k')" "key = 0 \<longrightarrow> q d' = []"
      using Cons.hyps(1) [OF d2(2) [symmetric]] by metis
    show ?thesis
      by (intro exI [of _ key] exI [of _ k'] exI [of _ m'] exI [of _ d'] exI [of _ "(a, b) # ys"])
        (use ih e qd d2 True in simp)
  next
    case False
    obtain key1 k1 where s: "kb_scan b k = (key1, k1)" by fastforce
    show ?thesis
    proof (cases "key1 = 0")
      case zero: True
      have e: "keyboard_poll dv (k, m, d) = keyboard_poll dv (k1, m, d2)"
        using i d2 st False s zero by (subst keyboard_poll.simps) simp
      obtain key k' m' d' ys where ih: "keyboard_poll dv (k1, m, d2) = Some (key, k', m', d')"
        "q d2 = ys @ q d'" "m' = fold mouse_handle_aux_byte (aux_bytes ys) m"
        "scan_all (kb_bytes ys) k1 = (if key = 0 then [] else [key], k')" "key = 0 \<longrightarrow> q d' = []"
        using Cons.hyps(1) [OF d2(2) [symmetric]] by metis
      show ?thesis
        by (intro exI [of _ key] exI [of _ k'] exI [of _ m'] exI [of _ d'] exI [of _ "(a, b) # ys"])
          (use ih e qd d2 False zero s in simp)
    next
      case key: False
      have e: "keyboard_poll dv (k, m, d) = Some (key1, k1, m, d2)"
        using i d2 st False s key by (subst keyboard_poll.simps) simp
      show ?thesis
        by (intro exI [of _ key1] exI [of _ k1] exI [of _ m] exI [of _ d2] exI [of _ "[(a, b)]"])
          (use e qd d2 False key s in simp)
    qed
  qed
qed

section \<open>Polling until the controller is empty\<close>

text \<open>A client that polls until no key is left, as the shell loop does before it halts.\<close>

partial_function (option) poll_keys ::
  "'d device \<Rightarrow> keyboard \<times> mouse \<times> 'd \<Rightarrow> (nat list \<times> keyboard \<times> mouse \<times> 'd) option" where
  "poll_keys dv s =
     Option.bind (keyboard_poll dv s) (\<lambda>(key, s1).
       if key = 0 then Some ([], s1)
       else Option.bind (poll_keys dv s1) (\<lambda>(keys, s2). Some (key # keys, s2)))"

lemma scan_all_append:
  "scan_all (as @ bs) k = (let (x, k1) = scan_all as k; (y, k2) = scan_all bs k1 in (x @ y, k2))"
  by (induction as arbitrary: k) (auto simp: Let_def split: prod.splits)

lemma kb_bytes_append [simp]: "kb_bytes (as @ bs) = kb_bytes as @ kb_bytes bs"
  and aux_bytes_append [simp]: "aux_bytes (as @ bs) = aux_bytes as @ aux_bytes bs"
  by (simp_all add: kb_bytes_def aux_bytes_def)

lemma poll_keys_queue:
  assumes "ps2_queue dv q"
  shows "\<exists>k' d'. poll_keys dv (k, m, d) =
      Some (fst (scan_all (kb_bytes (q d)) k), k', fold mouse_handle_aux_byte (aux_bytes (q d)) m, d') \<and>
    k' = snd (scan_all (kb_bytes (q d)) k) \<and> q d' = []"
proof (induction "length (q d)" arbitrary: k m d rule: less_induct)
  case less
  obtain key k1 m1 d1 ys where 1: "keyboard_poll dv (k, m, d) = Some (key, k1, m1, d1)" "q d = ys @ q d1"
    "m1 = fold mouse_handle_aux_byte (aux_bytes ys) m"
    "scan_all (kb_bytes ys) k = (if key = 0 then [] else [key], k1)" "key = 0 \<longrightarrow> q d1 = []"
    using keyboard_poll_queue [OF assms] by metis
  show ?case
  proof (cases "key = 0")
    case True
    then show ?thesis using 1 by (intro exI [of _ k1] exI [of _ d1]) (simp add: poll_keys.simps)
  next
    case False
    then have "ys \<noteq> []" using 1(4) by auto
    then have "length (q d1) < length (q d)" using 1(2) by simp
    then obtain k2 d2 where 2: "poll_keys dv (k1, m1, d1) =
        Some (fst (scan_all (kb_bytes (q d1)) k1), k2, fold mouse_handle_aux_byte (aux_bytes (q d1)) m1, d2)"
      "k2 = snd (scan_all (kb_bytes (q d1)) k1)" "q d2 = []"
      using less by blast
    have "scan_all (kb_bytes (q d)) k = (key # fst (scan_all (kb_bytes (q d1)) k1), k2)"
      using 1(2,4) 2(2) False by (simp add: scan_all_append split: prod.splits)
    moreover have "fold mouse_handle_aux_byte (aux_bytes (q d)) m = fold mouse_handle_aux_byte (aux_bytes (q d1)) m1"
      using 1(2,3) by simp
    ultimately show ?thesis
      using 1(1) 2 False by (intro exI [of _ k2] exI [of _ d2]) (simp add: poll_keys.simps [of dv "(k, m, d)"])
  qed
qed

section \<open>Typing\<close>

definition idle :: keyboard where
  "idle = \<lparr>g_shift_left = False, g_shift_right = False, g_extended = False\<rparr>"

text \<open>The position of a character in a table.\<close>

definition key_at :: "bytes \<Rightarrow> u8 \<Rightarrow> u8" where
  "key_at tab c = word_of_nat (length (takeWhile (\<lambda>x. x \<noteq> c) tab))"

text \<open>Pressing and releasing the key of a character, with the left shift key where it is needed.\<close>

definition strokes :: "u8 \<Rightarrow> bytes" where
  "strokes c =
     (if c \<in> set scancode_ascii then [key_at scancode_ascii c, key_at scancode_ascii c + 128]
      else [42, key_at scancode_shift c, key_at scancode_shift c + 128, 170])"

definition printable :: "u8 list" where
  "printable = map word_of_nat [32..<127]"

lemma strokes_scan_all: "list_all (\<lambda>c. scan_all (strokes c) idle = ([unat c], idle)) printable"
  by code_simp

lemma printable_mem: "32 \<le> unat c \<Longrightarrow> unat c \<le> 126 \<Longrightarrow> c \<in> set printable"
  unfolding printable_def set_map set_upt by (rule image_eqI [of _ _ "unat c"]) simp_all

lemma strokes_scan: "32 \<le> unat c \<Longrightarrow> unat c \<le> 126 \<Longrightarrow> scan_all (strokes c) idle = ([unat c], idle)"
  using strokes_scan_all printable_mem [of c] by (auto simp: list_all_iff)

lemma typing_scan:
  assumes "\<forall>c \<in> set s. 32 \<le> unat c \<and> unat c \<le> 126"
  shows "scan_all (concat (map strokes s)) idle = (map unat s, idle)"
  using assms by (induction s) (simp_all add: scan_all_append strokes_scan)

text \<open>
  C24.  Sharing the controller: whatever bytes of keyboard and mouse the controller holds, in
  whatever order, polling until no key is left returns; the keys are those of the keyboard
  bytes alone and the mouse has seen exactly the mouse bytes, each in their order, and the
  controller is empty afterwards.
\<close>

theorem keyboard_mouse_independent:
  assumes "ps2_queue dv q"
  shows "\<exists>k' d'. poll_keys dv (k, m, d) =
      Some (fst (scan_all (kb_bytes (q d)) k), k', fold mouse_handle_aux_byte (aux_bytes (q d)) m, d') \<and>
    k' = snd (scan_all (kb_bytes (q d)) k) \<and> q d' = []"
  by (rule poll_keys_queue [OF assms])

text \<open>A controller whose state is the queue.\<close>

definition queue_dev :: "(bool \<times> u8) list device" where
  "queue_dev = \<lparr>dev_in = (\<lambda>port q. if port = 100
       then (if q = [] then 0 else if fst (hd q) then 33 else 1, q) else (snd (hd q), tl q)),
     dev_out = (\<lambda>_ _ q. q)\<rparr>"

lemma ps2_queue_dev: "ps2_queue queue_dev (\<lambda>q. q)"
  by (auto simp: ps2_queue_def queue_dev_def inb_def const_defs)

definition still_mouse :: mouse where
  "still_mouse = \<lparr>g_mouse_x = 40, g_mouse_y = 12, g_dx_accum = 0, g_dy_accum = 0, g_buttons = 0,
     g_has_event = False, g_ready = True, g_packet = [0, 0, 0], g_packet_idx = 0\<rparr>"

theorem keyboard_mouse_independent_witness:
  "\<exists>k' m' d'. poll_keys queue_dev (idle, still_mouse, [(True, 9), (False, 42), (True, 5), (False, 30), (True, 254)]) =
     Some ([65], k', m', d') \<and> mouse_get_screen_pos m' = (45, 14)"
proof -
  let ?q = "[(True, 9), (False, 42), (True, 5), (False, 30), (True, 254)] :: (bool \<times> u8) list"
  have "fst (scan_all (kb_bytes ?q) idle) = [65]"
    "mouse_get_screen_pos (fold mouse_handle_aux_byte (aux_bytes ?q) still_mouse) = (45, 14)"
    by code_simp+
  then show ?thesis
    using keyboard_mouse_independent [OF ps2_queue_dev, of idle still_mouse ?q] by auto
qed

text \<open>
  Every printable text can be typed: when the keyboard bytes that the controller holds
  are the strokes of a text of printable ASCII characters, however interleaved with mouse
  bytes, the keys polled are exactly its characters and no modifier is left held.
\<close>

lemma keyboard_types_text:
  assumes "ps2_queue dv q" and "\<forall>c \<in> set s. 32 \<le> unat c \<and> unat c \<le> 126"
    and "kb_bytes (q d) = concat (map strokes s)"
  shows "\<exists>m' d'. poll_keys dv (idle, m, d) = Some (map unat s, idle, m', d')"
  using poll_keys_queue [OF assms(1), of idle m d] typing_scan [OF assms(2)] assms(3) by auto

theorem keyboard_types_text_witness:
  "\<exists>m' d'. poll_keys queue_dev (idle, still_mouse, map (Pair False) (concat (map strokes [72, 105, 33]))) =
     Some ([72, 105, 33], idle, m', d')"
  using keyboard_types_text [OF ps2_queue_dev, of "[72, 105, 33]"
      "map (Pair False) (concat (map strokes [72, 105, 33]))" still_mouse]
  by (auto simp: kb_bytes_def filter_map comp_def)

end
