(* ===== verification/Boot.thy ===== *)
theory Boot
  imports Commands Printf Descriptors Keyboard
begin

text \<open>
  The start of the 32-bit kernel, \<^verbatim>\<open>src/src/kernel/main.c\<close>, with the panic screen of
  \<^verbatim>\<open>src/src/kernel/panic.c\<close>, the storage entry points of \<^verbatim>\<open>src/src/kernel/fat32.c\<close>, the two empty
  initialisers of \<^verbatim>\<open>tcp_stack.c\<close> and \<^verbatim>\<open>web_stack.c\<close>, and the table of
  \<^verbatim>\<open>src/src/terminal/shell_stubs.c\<close>, which the command table has replaced.  A \<open>board\<close> is the state of the whole system.  The
  addresses that the linker gives to the tables and to the timer's handler are the record \<open>layout\<close>.
\<close>

section \<open>State\<close>

record 'd board =
  bd_machine :: "'d machine"
  bd_term :: terminal
  bd_gdt :: gdt
  bd_idt :: idt
  bd_kb :: keyboard

record layout =
  gdt_addr :: u32
  idt_addr :: u32
  irq0_addr :: u32

definition bd_kernel :: "'d board \<Rightarrow> kernel" where
  "bd_kernel b = sys_kernel (mc_sys (bd_machine b))"

definition on_machine :: "('d machine \<Rightarrow> 'd machine) \<Rightarrow> 'd board \<Rightarrow> 'd board" where
  "on_machine g b = b\<lparr>bd_machine := g (bd_machine b)\<rparr>"

definition on_kernel :: "(kernel \<Rightarrow> kernel) \<Rightarrow> 'd board \<Rightarrow> 'd board" where
  "on_kernel g = on_machine (\<lambda>m. m\<lparr>mc_sys := (mc_sys m)\<lparr>sys_kernel := g (sys_kernel (mc_sys m))\<rparr>\<rparr>)"

definition on_log :: "(klog \<times> serial \<Rightarrow> klog \<times> serial) \<Rightarrow> 'd board \<Rightarrow> 'd board" where
  "on_log g = on_kernel (\<lambda>k. k\<lparr>klg := g (klg k)\<rparr>)"

definition on_serial :: "(serial \<Rightarrow> serial) \<Rightarrow> 'd board \<Rightarrow> 'd board" where
  "on_serial g = on_log (\<lambda>(l, s). (l, g s))"

definition klog_info :: "uart \<Rightarrow> bytes \<Rightarrow> bytes \<Rightarrow> 'd board \<Rightarrow> 'd board" where
  "klog_info tx subsys msg = on_log (klog_log tx KLOG_INFO (Some subsys) (Some msg))"

definition klog_warn :: "uart \<Rightarrow> bytes \<Rightarrow> bytes \<Rightarrow> 'd board \<Rightarrow> 'd board" where
  "klog_warn tx subsys msg = on_log (klog_log tx KLOG_WARN (Some subsys) (Some msg))"

definition boot_printf :: "uart \<Rightarrow> bytes \<Rightarrow> varg list \<Rightarrow> 'd board \<Rightarrow> 'd board option" where
  "boot_printf tx fmt args b =
     map_option (\<lambda>(s, n). on_serial (\<lambda>_. s) b) (kprintf tx (Some fmt) args (snd (klg (bd_kernel b))))"

section \<open>Panic\<close>

text \<open>The state in which \<open>kernel_panic\<close> halts.\<close>

definition kernel_panic :: "uart \<Rightarrow> bytes option \<Rightarrow> bytes option \<Rightarrow> u32 \<Rightarrow> (klog \<times> serial) \<times> vga \<Rightarrow> (klog \<times> serial) \<times> vga" where
  "kernel_panic tx msg0 file0 line s =
     (let msg = (case msg0 of None \<Rightarrow> lit ''fatal kernel error'' | Some m \<Rightarrow> m);
          path = (case file0 of None \<Rightarrow> lit ''unknown'' | Some f \<Rightarrow> f);
          a = VGA_ATTR 15 4;
          l1 = klog_log tx KLOG_CRIT (Some (lit ''panic'')) (Some msg) (fst s);
          v1 = vga_clear a (snd s);
          v2 = vga_write_at 1 2 (lit ''KERNEL PANIC'') (VGA_ATTR 14 4) v1;
          v3 = vga_write_at 3 2 (lit ''Reason:'') a v2;
          v4 = vga_write_at 3 10 msg a v3;
          v5 = vga_write_at 5 2 (lit ''Location:'') a v4;
          v6 = vga_write_at 5 12 path a v5;
          v7 = vga_write_at 5 (12 + int (length path)) (lit '':'') a v6;
          v8 = vga_write_at 5 (13 + int (length path)) (itoa_text line) a v7
      in (l1, vga_write_at 7 2 (lit ''System halted. Restart required.'') a v8))"

section \<open>Storage\<close>

definition fat32_init :: "fs option" where
  "fat32_init = ramdisk_init"

text \<open>The result, and the size and the bytes that are stored.\<close>

definition fat32_read_file :: "bytes \<Rightarrow> int \<times> (nat \<times> bytes) option" where
  "fat32_read_file filename =
     (if strcmp_l filename (lit ''test.txt'') = 0 then (0, Some (13, lit ''Hello FAT32!'' @ [10])) else (-1, None))"

definition net_stack_init :: "'d board \<Rightarrow> 'd board" where "net_stack_init b = b"

definition web_stack_init :: "'d board \<Rightarrow> 'd board" where "web_stack_init b = b"

section \<open>The start\<close>

definition KERNEL_BOOT_MEM_BYTES :: u32 where "KERNEL_BOOT_MEM_BYTES = 0x4000000"

text \<open>Up to the timer.\<close>

definition boot_tables :: "layout \<Rightarrow> 'd hw \<Rightarrow> 'd board \<Rightarrow> 'd board option" where
  "boot_tables lay hw b0 =
     (let tx = hw_tx hw;
          b1 = on_serial (serial_write tx (Some (lit ''HeatOS: kernel entry'' @ [10]))) (on_serial serial_init b0)
      in map_option (\<lambda>b2.
           let b3 = klog_info tx (lit ''boot'') (lit ''kernel entry'') (on_log (\<lambda>(l, s). (klog_init l, s)) b2);
               b4 = klog_info tx (lit ''boot'') (lit ''gdt initialized'') (b3\<lparr>bd_gdt := gdt_init (gdt_addr lay) (bd_gdt b3)\<rparr>);
               b5 = klog_info tx (lit ''boot'') (lit ''idt initialized'') (b4\<lparr>bd_idt := idt_init (idt_addr lay) (bd_idt b4)\<rparr>);
               (i, e) = pit_init (device.truncate (hw_dev hw)) (irq0_addr lay) (bd_idt b5, sys_dev (mc_sys (bd_machine b5)))
           in klog_info tx (lit ''boot'') (lit ''pit timer initialized @100Hz'')
                (on_machine (\<lambda>m. m\<lparr>mc_sys := (mc_sys m)\<lparr>sys_dev := e\<rparr>\<rparr>) (b5\<lparr>bd_idt := i\<rparr>)))
         (boot_printf tx (lit ''[boot] serial console online'' @ [10]) [] b1))"

text \<open>The memory and the scheduler; the left side is the message of a panic.\<close>

definition boot_memory :: "'d hw \<Rightarrow> 'd board \<Rightarrow> (bytes + 'd board) option" where
  "boot_memory hw b0 =
     (let tx = hw_tx hw;
          b1 = on_kernel (\<lambda>k. k\<lparr>kmm := pmm_init KERNEL_BOOT_MEM_BYTES (kmm k)\<rparr>) b0;
          free = pmm_free_blocks_count (kmm (bd_kernel b1));
          b2 = on_log (klog_log_u32 tx KLOG_INFO (Some (lit ''mm'')) (Some (lit ''pmm free pages'')) free 10) b1
      in Option.bind (boot_printf tx (lit ''[mm] free pages=%u'' @ [10]) [VInt free] b2) (\<lambda>b3.
         if pmm_free_blocks_count (kmm (bd_kernel b3)) = 0 then Some (Inl (lit ''no free pages after pmm_init''))
         else map_option (\<lambda>r. case r of
                Inl msg \<Rightarrow> Inl msg
              | Inr k \<Rightarrow> Inr (klog_info tx (lit ''boot'') (lit ''scheduler initialized'') (on_kernel (\<lambda>_. k) b3)))
              (scheduler_init (bd_kernel b3))))"

text \<open>The disk, the display and the keyboard.\<close>

definition boot_devices :: "'d hw \<Rightarrow> 'd board \<Rightarrow> 'd board option" where
  "boot_devices hw b0 =
     Option.bind fat32_init (\<lambda>f.
       let tx = hw_tx hw;
           b1 = klog_info tx (lit ''boot'') (lit ''fat32 initialized'') (on_machine (\<lambda>m. m\<lparr>mc_fs := f\<rparr>) b0);
           b2 = klog_info tx (lit ''boot'') (lit ''network stack initialized'') (net_stack_init b1);
           b3 = klog_info tx (lit ''boot'') (lit ''web stack initialized'') (web_stack_init b2);
           b4 = b3\<lparr>bd_term := (bd_term b3)\<lparr>scr := vga_init (scr (bd_term b3))\<rparr>\<rparr>;
           y = mc_sys (bd_machine b4);
           (g, e) = gfx_init (hw_dev hw) (sys_gfx y, sys_dev y);
           b5 = on_machine (\<lambda>m. m\<lparr>mc_sys := (mc_sys m)\<lparr>sys_gfx := g, sys_dev := e\<rparr>\<rparr>) b4;
           b6 = (if gfx_virtio_present g
                 then klog_info tx (lit ''gfx'') (lit ''virtio display detected (graphics API active)'') b5
                 else klog_warn tx (lit ''gfx'') (lit ''virtio display not detected, using VGA backend'') b5)
       in map_option (\<lambda>(kb, e1).
            klog_info tx (lit ''boot'') (lit ''terminal start'')
              (on_machine (\<lambda>m. m\<lparr>mc_sys := (mc_sys m)\<lparr>sys_dev := e1\<rparr>\<rparr>) (b6\<lparr>bd_kb := kb\<rparr>)))
          (keyboard_init (device.truncate (hw_dev hw)) (bd_kb b6, sys_dev (mc_sys (bd_machine b6)))))"

definition boot_all :: "layout \<Rightarrow> 'd hw \<Rightarrow> 'd board \<Rightarrow> (bytes + 'd board) option" where
  "boot_all lay hw b =
     Option.bind (boot_tables lay hw b) (\<lambda>b1. Option.bind (boot_memory hw b1) (\<lambda>r.
       case r of Inl msg \<Rightarrow> Some (Inl msg) | Inr b2 \<Rightarrow> map_option Inr (boot_devices hw b2)))"

text \<open>The kernel up to the end of the keys; the halt behind the shell is not reached while there are keys.\<close>

definition kernel_main :: "layout \<Rightarrow> 'd hw \<Rightarrow> nat list \<Rightarrow> 'd board \<Rightarrow> (bytes + 'd board) option" where
  "kernel_main lay hw keys b =
     Option.bind (boot_all lay hw b) (\<lambda>r.
       case r of
         Inl msg \<Rightarrow> Some (Inl msg)
       | Inr b1 \<Rightarrow> map_option (\<lambda>(m, t). Inr (b1\<lparr>bd_machine := m, bd_term := t\<rparr>))
                     (terminal_run (cmd_dispatch hw) keys (bd_machine b1, bd_term b1)))"

section \<open>Stubs\<close>

definition g_stub_commands :: "(bytes \<times> bytes) list" where
  "g_stub_commands =
    [(lit ''cd'', lit ''change working directory''), (lit ''pwd'', lit ''print working directory''),
     (lit ''tree'', lit ''print directory tree''), (lit ''cp'', lit ''copy file''), (lit ''mv'', lit ''move or rename file''),
     (lit ''rmdir'', lit ''remove empty directory''), (lit ''find'', lit ''search files by name''),
     (lit ''grep'', lit ''search file content''), (lit ''echo'', lit ''print text''), (lit ''uname'', lit ''print kernel info''),
     (lit ''whoami'', lit ''print active user''), (lit ''date'', lit ''print RTC date and time''),
     (lit ''reboot'', lit ''restart the system''), (lit ''shutdown'', lit ''halt the system''),
     (lit ''ifconfig'', lit ''show network interfaces''), (lit ''netstat'', lit ''show network sockets''),
     (lit ''nslookup'', lit ''resolve DNS names''), (lit ''traceroute'', lit ''trace route hops''), (lit ''curl'', lit ''download URL''),
     (lit ''telnet'', lit ''open TCP connection''), (lit ''ps'', lit ''list running tasks''), (lit ''kill'', lit ''terminate task''),
     (lit ''top'', lit ''live task monitor''), (lit ''pong'', lit ''launch Pong game'')]"

fun stub_loop :: "(bytes \<times> bytes) list \<Rightarrow> bytes \<Rightarrow> terminal \<Rightarrow> bool \<times> terminal" where
  "stub_loop [] cmd t = (False, t)"
| "stub_loop ((name, note) # es) cmd t =
     (if strcmp_l cmd name = 0
      then (True, fold term_puts [lit ''Command found: '', cmd, [10], lit ''This command is a stub and does nothing yet.'' @ [10],
              lit ''Planned behavior: '', note, [10]] t)
      else stub_loop es cmd t)"

definition shell_try_stub_command :: "bytes option \<Rightarrow> bytes option \<Rightarrow> terminal \<Rightarrow> bool \<times> terminal" where
  "shell_try_stub_command cmd args t =
     (case cmd of None \<Rightarrow> (False, t) | Some c \<Rightarrow> if c = [] then (False, t) else stub_loop g_stub_commands c t)"

section \<open>What the initialisers establish\<close>

lemma fresh_kmalloc:
  assumes "mm_wf s" and "heap_live s = {}" and "kmalloc_need sz = Some need" and "need \<le> HEAP_SIZE - HB"
  shows "\<exists>s'. kmalloc sz s = Some (s', HEAP_START + HB)"
proof -
  have c: "Mm.chain (ram s) HEAP_START [(HEAP_SIZE - HB, True)]" using assms(1,2) by (intro nothing_live_single) (simp_all add: mm_wf_def)
  have "heap_ready s" "heap_head s = HEAP_START" using assms(1) by (auto simp: mm_wf_def heap_wf_def)
  then show ?thesis using kmalloc_list [of s "[(HEAP_SIZE - HB, True)]" sz need] c assms(3,4) by auto
qed

lemma keyboard_flush_returns:
  assumes "ps2_queue dv q"
  shows "\<exists>d'. keyboard_flush dv d = Some d'"
proof (induction "length (q d)" arbitrary: d rule: less_induct)
  case less
  obtain st d1 where st: "inb dv KB_STATUS_PORT d = (st, d1)" by fastforce
  note p = ps2_queueD [OF assms st]
  show ?case
  proof (cases "q d")
    case Nil
    then show ?thesis using st p(2) by (subst keyboard_flush.simps) simp
  next
    case (Cons x xs)
    obtain a b where x: "x = (a, b)" by fastforce
    obtain d2 where d2: "inb dv KB_DATA_PORT d1 = (b, d2)" "q d2 = xs" using p(4) [of a b xs] Cons x by auto
    then have "\<exists>d'. keyboard_flush dv d2 = Some d'" using less [of d2] Cons by simp
    then show ?thesis using st p(2) d2 Cons by (subst keyboard_flush.simps) simp
  qed
qed

lemma new_child_cwd: "fs_new_child ty p nm f = Some (ok, f') \<Longrightarrow> fs_cwd f' = fs_cwd f"
  by (auto simp: fs_new_child_def fs_link_node_def Let_def split: option.split_asm if_split_asm)

lemma mkdirs_cwd: "fs_mkdirs p nms f = Some f' \<Longrightarrow> fs_cwd f' = fs_cwd f"
  by (induction p nms f rule: fs_mkdirs.induct) (auto simp: bind_eq_Some_conv fs_mkdir_child_def dest: new_child_cwd)

lemma write_cwd: "fs_cwd (snd (fs_write n b sz f)) = fs_cwd f"
  by (simp add: fs_write_def Let_def)

lemma klog_wf_log:
  assumes "klog_wf (fst ks)"
  shows "klog_wf (fst (klog_log tx level subsys msg ks))"
proof -
  have "klog_wf ((fst ks)\<lparr>g_klog_lines := g_klog_lines (fst ks) + 1\<rparr>)" using assms by (simp add: klog_wf_def)
  then show ?thesis
    by (cases ks) (simp add: klog_log_def Let_def klog_log_ring_fold kring.wf_pushes)
qed

lemma demo_cwd: "ramdisk_write_demo_file parent name data f = Some f' \<Longrightarrow> fs_cwd f' = fs_cwd f"
proof -
  assume a: "ramdisk_write_demo_file parent name data f = Some f'"
  then obtain ok f1 where c: "fs_create_file parent (Some name) f = Some (ok, f1)"
    by (auto simp: ramdisk_write_demo_file_def split: option.split_asm)
  have "fs_cwd f1 = fs_cwd f" using c new_child_cwd by (simp add: fs_create_file_def)
  moreover have "fs_cwd f' = fs_cwd f1"
    using a c write_cwd by (auto simp: ramdisk_write_demo_file_def split: option.split_asm if_split_asm)
  ultimately show ?thesis by simp
qed

text \<open>If the step returns, it leaves a disk with the current directory \<open>c\<close>.\<close>

definition leaves_cwd :: "nat \<Rightarrow> fs option \<Rightarrow> bool" where
  "leaves_cwd c r \<longleftrightarrow> (\<forall>f. r = Some f \<longrightarrow> fs_cwd f = c)"

lemma leaves_rules:
  "fs_cwd f = c \<Longrightarrow> leaves_cwd c (Some f)"
  "fs_cwd f = c \<Longrightarrow> leaves_cwd c (ramdisk_write_demo_file p n d f)"
  "fs_cwd f = c \<Longrightarrow> leaves_cwd c (fs_mkdirs q nms f)"
  "leaves_cwd c r \<Longrightarrow> leaves_cwd c r' \<Longrightarrow> leaves_cwd c (if b then r else r')"
  by (auto simp: leaves_cwd_def dest: demo_cwd mkdirs_cwd)

lemma leaves_value: "(\<And>x. leaves_cwd c (g x)) \<Longrightarrow> leaves_cwd c (Option.bind (r :: nat option) g)"
  by (auto simp: leaves_cwd_def bind_eq_Some_conv)

lemma leaves_bind: "leaves_cwd c r \<Longrightarrow> (\<And>f. fs_cwd f = c \<Longrightarrow> leaves_cwd c (g f)) \<Longrightarrow> leaves_cwd c (Option.bind r g)"
  by (auto simp: leaves_cwd_def bind_eq_Some_conv)

lemma leaves_seed: "fs_cwd f = c \<Longrightarrow> leaves_cwd c (ramdisk_seed_demo_files f)"
  unfolding ramdisk_seed_demo_files_def ramdisk_seed_ppm_demo_def ramdisk_seed_text_demo_def ramdisk_seed_tinyjvm_jar_demo_def
    ramdisk_seed_class_demo_def ramdisk_seed_java_demo_def ramdisk_seed_zip_jar_demo_def
  by (intro leaves_value leaves_bind leaves_rules)

lemma fat32_init_shell: "\<exists>f. fat32_init = Some f \<and> shell_wf f"
proof -
  obtain f where f: "ramdisk_init = Some f" "fs_wf f" using ramdisk_init_wf by blast
  have "fs_cwd fs_cleared = 0" by (simp add: fs_cleared_def)
  then have "leaves_cwd 0 ramdisk_init"
    unfolding ramdisk_init_def by (intro leaves_value leaves_bind leaves_rules leaves_seed)
  then have "fs_cwd f = 0" using f(1) by (simp add: leaves_cwd_def)
  moreover have "fs_is_dir f 0" using f(2) by (auto simp: fs_wf_def tree_inv_def fs_is_dir_def)
  ultimately have "shell_wf f" using f(2) by (simp add: shell_wf_def)
  then show ?thesis using f(1) unfolding fat32_init_def by blast
qed

section \<open>What the steps keep\<close>

lemmas board_defs = klog_info_def klog_warn_def on_serial_def on_log_def on_kernel_def on_machine_def bd_kernel_def

text \<open>The parts that no step before the shell changes.\<close>

definition kept :: "'d board \<Rightarrow> 'd board \<Rightarrow> bool" where
  "kept b b' \<longleftrightarrow> editor_part (bd_term b') = editor_part (bd_term b) \<and> (on_screen (bd_term b) \<longrightarrow> on_screen (bd_term b')) \<and>
     mc_mouse (bd_machine b') = mc_mouse (bd_machine b) \<and> mc_desktop (bd_machine b') = mc_desktop (bd_machine b)"

lemma kept_trans: "kept a b \<Longrightarrow> kept b c \<Longrightarrow> kept a c"
  by (simp add: kept_def)

lemma boot_printf_returns:
  assumes "format_text fmt args = Some t"
  shows "\<exists>s. boot_printf tx fmt args b = Some (on_serial (\<lambda>_. s) b)"
  using assms by (auto simp: boot_printf_def kprintf_def kvprintf_def kvprintf_loop_text)

lemma klog_wf_info: "klog_wf (fst (klg (bd_kernel b))) \<Longrightarrow> klog_wf (fst (klg (bd_kernel (klog_info tx a m b))))"
  "klog_wf (fst (klg (bd_kernel b))) \<Longrightarrow> klog_wf (fst (klg (bd_kernel (klog_warn tx a m b))))"
  by (simp_all add: board_defs klog_wf_log)

lemma info_frame [simp]:
  "kmm (bd_kernel (klog_info tx a m b)) = kmm (bd_kernel b)" "ksched (bd_kernel (klog_info tx a m b)) = ksched (bd_kernel b)"
  "kmm (bd_kernel (klog_warn tx a m b)) = kmm (bd_kernel b)" "ksched (bd_kernel (klog_warn tx a m b)) = ksched (bd_kernel b)"
  "mc_fs (bd_machine (klog_info tx a m b)) = mc_fs (bd_machine b)" "mc_fs (bd_machine (klog_warn tx a m b)) = mc_fs (bd_machine b)"
  "sys_gfx (mc_sys (bd_machine (klog_info tx a m b))) = sys_gfx (mc_sys (bd_machine b))"
  "sys_gfx (mc_sys (bd_machine (klog_warn tx a m b))) = sys_gfx (mc_sys (bd_machine b))"
  "kept c (klog_info tx a m b) = kept c b" "kept c (klog_warn tx a m b) = kept c b"
  by (simp_all add: board_defs kept_def)

lemma boot_tables_returns:
  "\<exists>b1. boot_tables lay hw b = Some b1 \<and> kept b b1 \<and> ksched (bd_kernel b1) = ksched (bd_kernel b) \<and>
     klog_wf (fst (klg (bd_kernel b1)))"
proof -
  define b1 where "b1 = on_serial (serial_write (hw_tx hw) (Some (lit ''HeatOS: kernel entry'' @ [10]))) (on_serial serial_init b)"
  have "\<exists>t. format_text (lit ''[boot] serial console online'' @ [10]) [] = Some t" by simp
  then obtain s where s: "boot_printf (hw_tx hw) (lit ''[boot] serial console online'' @ [10]) [] b1 = Some (on_serial (\<lambda>_. s) b1)"
    using boot_printf_returns by blast
  show ?thesis
    unfolding boot_tables_def Let_def b1_def [symmetric] s
    by (auto simp: case_prod_unfold b1_def kept_def board_defs klog_wf_log simp del: lit_Cons)
qed

lemma klog_wf_u32: "klog_wf (fst ks) \<Longrightarrow> klog_wf (fst (klog_log_u32 tx level subsys prefix v base ks))"
  by (simp add: klog_log_u32_def Let_def klog_wf_log)

lemma boot_pages:
  assumes "s' = pmm_init KERNEL_BOOT_MEM_BYTES s"
  shows "mm_wf s'" and "heap_live s' = {}" and "pmm_free_blocks_count s' = 8192"
proof -
  note i = pmm_init_state [OF assms]
  show "mm_wf s'" "heap_live s' = {}" using i by auto
  have "pmm_max_blocks s' = 16384" using i by (simp add: word_unat_eq_iff KERNEL_BOOT_MEM_BYTES_def const_defs)
  moreover have "pmm_used_blocks s' = 8192" using i by (simp add: word_unat_eq_iff KERNEL_BOOT_MEM_BYTES_def const_defs)
  ultimately show "pmm_free_blocks_count s' = 8192" by (simp add: pmm_free_blocks_count_def)
qed

lemma first_process:
  assumes "mm_wf (kmm k)" and "heap_live (kmm k) = {}" and "next_pid (ksched k) \<noteq> 0"
  shows "\<exists>k' p. scheduler_init k = Some (Inr k') \<and> sched_inv k' [p] \<and> current_process (ksched k') = p \<and> klg k' = klg k"
proof -
  have "\<exists>s. kmalloc 28 (kmm k) = Some (s, HEAP_START + HB)"
    using assms(1,2) by (rule fresh_kmalloc [where need = 32]) (simp_all add: kmalloc_need_def heap_align8_unat const_defs)
  then obtain s where s: "kmalloc 28 (kmm k) = Some (s, HEAP_START + HB)" by blast
  have nz: "HEAP_START + HB \<noteq> 0" by (simp add: const_defs)
  then obtain k' where k: "scheduler_init k = Some (Inr k')" "sched_inv k' [HEAP_START + HB]"
      "current_process (ksched k') = HEAP_START + HB"
    using scheduler_init_inv [OF assms(1,3)] s by auto
  moreover have "klg k' = klg k" using k(1) s nz by (auto simp: scheduler_init_def Let_def)
  ultimately show ?thesis by blast
qed

lemma sched_inv_klg: "sched_inv (k\<lparr>klg := l\<rparr>) ps = sched_inv k ps"
  by (simp add: sched_inv_def kram_def)

lemma boot_memory_returns:
  assumes "next_pid (ksched (bd_kernel b)) \<noteq> 0" and "klog_wf (fst (klg (bd_kernel b)))"
  shows "\<exists>b' p. boot_memory hw b = Some (Inr b') \<and> kept b b' \<and> klog_wf (fst (klg (bd_kernel b'))) \<and>
     sched_inv (bd_kernel b') [p] \<and> current_process (ksched (bd_kernel b')) = p"
proof -
  define b1 where "b1 = on_kernel (\<lambda>k. k\<lparr>kmm := pmm_init KERNEL_BOOT_MEM_BYTES (kmm k)\<rparr>) b"
  have m: "kmm (bd_kernel b1) = pmm_init KERNEL_BOOT_MEM_BYTES (kmm (bd_kernel b))" by (simp add: b1_def board_defs)
  note pg = boot_pages [OF m]
  define b2 where "b2 = on_log (klog_log_u32 (hw_tx hw) KLOG_INFO (Some (lit ''mm'')) (Some (lit ''pmm free pages'')) 8192 10) b1"
  have "\<exists>t. format_text (lit ''[mm] free pages=%u'' @ [10]) [VInt 8192] = Some t" by (simp add: conv_text_def)
  then obtain s where s: "boot_printf (hw_tx hw) (lit ''[mm] free pages=%u'' @ [10]) [VInt 8192] b2 = Some (on_serial (\<lambda>_. s) b2)"
    using boot_printf_returns by blast
  define b3 where "b3 = on_serial (\<lambda>_. s) b2"
  have k3: "kmm (bd_kernel b3) = kmm (bd_kernel b1)" "ksched (bd_kernel b3) = ksched (bd_kernel b)"
    by (simp_all add: b3_def b2_def b1_def board_defs)
  have w3: "klog_wf (fst (klg (bd_kernel b3)))" "kept b b3"
    using assms(2) by (simp_all add: b3_def b2_def b1_def board_defs klog_wf_u32 kept_def case_prod_unfold)
  obtain k' p where k: "scheduler_init (bd_kernel b3) = Some (Inr k')" "sched_inv k' [p]" "current_process (ksched k') = p"
      "klg k' = klg (bd_kernel b3)"
    using first_process [of "bd_kernel b3"] pg assms(1) k3 by auto
  define b4 where "b4 = klog_info (hw_tx hw) (lit ''boot'') (lit ''scheduler initialized'') (on_kernel (\<lambda>_. k') b3)"
  have "boot_memory hw b = Some (Inr b4)"
    unfolding boot_memory_def Let_def b1_def [symmetric] pg(3) b2_def [symmetric] s Option.bind.simps b3_def [symmetric]
      k3(1) k(1) b4_def by simp
  moreover have "kept b b4" "klog_wf (fst (klg (bd_kernel b4)))"
    using w3 k(4) by (simp_all add: b4_def klog_wf_log kept_def board_defs)
  moreover have "sched_inv (bd_kernel b4) [p]" "current_process (ksched (bd_kernel b4)) = p"
    using k(2,3) by (simp_all add: b4_def board_defs sched_inv_klg)
  ultimately show ?thesis by blast
qed

lemma boot_devices_returns:
  assumes "ps2_queue (device.truncate (hw_dev hw)) q" and "klog_wf (fst (klg (bd_kernel b)))" and "sched_inv (bd_kernel b) ps"
  shows "\<exists>b'. boot_devices hw b = Some b' \<and> kept b b' \<and> klog_wf (fst (klg (bd_kernel b'))) \<and> sched_inv (bd_kernel b') ps \<and>
     current_process (ksched (bd_kernel b')) = current_process (ksched (bd_kernel b)) \<and>
     shell_wf (mc_fs (bd_machine b')) \<and> gfx_wf (sys_gfx (mc_sys (bd_machine b')))"
proof -
  obtain f where f: "fat32_init = Some f" "shell_wf f" using fat32_init_shell by blast
  define b3 where "b3 = klog_info (hw_tx hw) (lit ''boot'') (lit ''web stack initialized'')
    (klog_info (hw_tx hw) (lit ''boot'') (lit ''network stack initialized'')
      (klog_info (hw_tx hw) (lit ''boot'') (lit ''fat32 initialized'') (on_machine (\<lambda>m. m\<lparr>mc_fs := f\<rparr>) b)))"
  define b4 where "b4 = b3\<lparr>bd_term := (bd_term b3)\<lparr>scr := vga_init (scr (bd_term b3))\<rparr>\<rparr>"
  define y where "y = mc_sys (bd_machine b4)"
  obtain g e where g: "gfx_init (hw_dev hw) (sys_gfx y, sys_dev y) = (g, e)" by fastforce
  then have gw: "gfx_wf g" using gfx_init_wf(2) [of "hw_dev hw" "(sys_gfx y, sys_dev y)"] by simp
  define b5 where "b5 = on_machine (\<lambda>m. m\<lparr>mc_sys := (mc_sys m)\<lparr>sys_gfx := g, sys_dev := e\<rparr>\<rparr>) b4"
  define b6 where "b6 = (if gfx_virtio_present g
    then klog_info (hw_tx hw) (lit ''gfx'') (lit ''virtio display detected (graphics API active)'') b5
    else klog_warn (hw_tx hw) (lit ''gfx'') (lit ''virtio display not detected, using VGA backend'') b5)"
  obtain d where d: "keyboard_flush (device.truncate (hw_dev hw)) (sys_dev (mc_sys (bd_machine b6))) = Some d"
    using keyboard_flush_returns [OF assms(1)] by blast
  define kb where "kb = (bd_kb b6)\<lparr>g_shift_left := False, g_shift_right := False, g_extended := False\<rparr>"
  define b7 where "b7 = klog_info (hw_tx hw) (lit ''boot'') (lit ''terminal start'')
    (on_machine (\<lambda>m. m\<lparr>mc_sys := (mc_sys m)\<lparr>sys_dev := d\<rparr>\<rparr>) (b6\<lparr>bd_kb := kb\<rparr>))"
  have "boot_devices hw b = Some b7"
    unfolding boot_devices_def f(1) Option.bind.simps Let_def net_stack_init_def web_stack_init_def b3_def [symmetric]
      b4_def [symmetric] y_def [symmetric] g prod.case b5_def [symmetric] b6_def [symmetric]
    by (simp add: keyboard_init_def d b7_def kb_def)
  moreover have "\<exists>l. bd_kernel b7 = (bd_kernel b)\<lparr>klg := l\<rparr> \<and> klog_wf (fst l)"
    using assms(2)
    by (intro exI [of _ "klg (bd_kernel b7)"])
      (auto simp: b7_def b6_def b5_def b4_def b3_def board_defs klog_wf_log simp del: lit_Cons)
  then obtain l where "bd_kernel b7 = (bd_kernel b)\<lparr>klg := l\<rparr>" "klog_wf (fst l)" by blast
  then have "klog_wf (fst (klg (bd_kernel b7)))" "sched_inv (bd_kernel b7) ps"
    "current_process (ksched (bd_kernel b7)) = current_process (ksched (bd_kernel b))"
    using assms(3) by (simp_all add: sched_inv_klg)
  moreover have "kept b b7" "mc_fs (bd_machine b7) = f" "sys_gfx (mc_sys (bd_machine b7)) = g"
    by (auto simp: b7_def b6_def b5_def b4_def b3_def board_defs kept_def editor_part_def on_screen_def simp del: lit_Cons)
  ultimately show ?thesis using f(2) gw by metis
qed

text \<open>What the shell finds when it starts, with the process \<open>p\<close> alone in the ring.\<close>

definition booted :: "'d board \<Rightarrow> addr \<Rightarrow> bool" where
  "booted b p \<longleftrightarrow> sched_inv (bd_kernel b) [p] \<and> current_process (ksched (bd_kernel b)) = p \<and> klog_wf (fst (klg (bd_kernel b))) \<and>
     shell_wf (mc_fs (bd_machine b)) \<and> gfx_wf (sys_gfx (mc_sys (bd_machine b))) \<and>
     on_screen (bd_term b) \<and> editor_wf (bd_term b) \<and> machine_ok (bd_machine b)"

lemma boot_all_returns:
  assumes "ps2_queue (device.truncate (hw_dev hw)) q" and "next_pid (ksched (bd_kernel b)) \<noteq> 0"
    and "on_screen (bd_term b)" and "editor_wf (bd_term b)" and "machine_ok (bd_machine b)"
  shows "\<exists>b' p. boot_all lay hw b = Some (Inr b') \<and> booted b' p \<and> ed_abs (bd_term b') = ed_abs (bd_term b)"
proof -
  obtain b1 where b1: "boot_tables lay hw b = Some b1" "kept b b1" "ksched (bd_kernel b1) = ksched (bd_kernel b)"
      "klog_wf (fst (klg (bd_kernel b1)))"
    using boot_tables_returns by blast
  obtain b2 p where b2: "boot_memory hw b1 = Some (Inr b2)" "kept b1 b2" "klog_wf (fst (klg (bd_kernel b2)))"
      "sched_inv (bd_kernel b2) [p]" "current_process (ksched (bd_kernel b2)) = p"
    using boot_memory_returns [of b1 hw] b1 assms(2) by auto
  obtain b3 where b3: "boot_devices hw b2 = Some b3" "kept b2 b3" "klog_wf (fst (klg (bd_kernel b3)))"
      "sched_inv (bd_kernel b3) [p]" "current_process (ksched (bd_kernel b3)) = current_process (ksched (bd_kernel b2))"
      "shell_wf (mc_fs (bd_machine b3))" "gfx_wf (sys_gfx (mc_sys (bd_machine b3)))"
    using boot_devices_returns [OF assms(1) b2(3,4)] by blast
  have k: "kept b b3" using b1(2) b2(2) b3(2) kept_trans by blast
  then have "booted b3 p" "ed_abs (bd_term b3) = ed_abs (bd_term b)"
    using b2(5) b3 assms(3-5) editor_part_cong [of "bd_term b3" "bd_term b"]
    by (simp_all add: booted_def kept_def machine_ok_def)
  moreover have "boot_all lay hw b = Some (Inr b3)" using b1(1) b2(1) b3(1) by (simp add: boot_all_def)
  ultimately show ?thesis by blast
qed

text \<open>
  The panic screen: it writes no cell outside the screen and shows the message in row 3 from column 10, cut at the right edge.
\<close>

lemma panic_screen_bounds:
  "i < 0 \<or> 2000 \<le> i \<Longrightarrow> cells (snd (kernel_panic tx msg path line s)) i = cells (snd s) i"
  by (auto simp: kernel_panic_def Let_def vga_write_at_off_screen vga_clear_cells simp del: lit_Cons)

lemma panic_shows_message:
  assumes "k < length msg" and "10 + k < 80"
  shows "vga_read_at 3 (10 + int k) (snd (kernel_panic tx (Some msg) path line s)) = vga_entry (msg ! k) (VGA_ATTR 15 4)"
  using assms by (simp add: kernel_panic_def Let_def vga_read_write_at del: lit_Cons)

text \<open>A word of the table of stubs is found, and what is drawn leaves the editor alone.\<close>

lemma stub_loop_found: "fst (stub_loop es c t) = (\<exists>n\<in>set (map fst es). strcmp_l c n = 0)"
  by (induction es c t rule: stub_loop.induct) auto

lemma stub_loop_draws: "draws t (snd (stub_loop es c t))"
  by (induction es c t rule: stub_loop.induct) (auto simp: draws_puts simp del: lit_Cons fold_simps intro: fold_puts_draws)

text \<open>The static variables as the loader leaves them.\<close>

definition board_boot :: "'d \<Rightarrow> 'd board" where
  "board_boot e =
     \<lparr>bd_machine = machine_boot e, bd_term = terminal_boot,
      bd_gdt = \<lparr>gdt_entries = (\<lambda>_. \<lparr>limit_low = 0, base_low = 0, base_middle = 0, access = 0, granularity = 0, base_high = 0\<rparr>),
        gdt_limit = 0, gdt_base = 0\<rparr>,
      bd_idt = \<lparr>idt_entries = (\<lambda>_. \<lparr>base_lo = 0, sel = 0, always0 = 0, flags = 0, base_hi = 0\<rparr>), idt_limit = 0, idt_base = 0\<rparr>,
      bd_kb = \<lparr>g_shift_left = False, g_shift_right = False, g_extended = False\<rparr>\<rparr>"

lemma board_boot_ok:
  "on_screen (bd_term (board_boot e))" "editor_wf (bd_term (board_boot e))" "machine_ok (bd_machine (board_boot e))"
  "next_pid (ksched (bd_kernel (board_boot e))) \<noteq> 0" "ed_abs (bd_term (board_boot e)) = ed_abs terminal_boot"
  using terminal_boot_wf machine_boot_ok(1) [of e]
  by (simp_all add: board_boot_def bd_kernel_def machine_boot_def kernel_boot_fields)

lemma idle_queue: "ps2_queue (device.truncate (hw_dev idle_hw)) (\<lambda>_. [])"
  by (simp add: ps2_queue_def idle_hw_def device.defs inb_def)

end
