(* ===== verification/Monitor64.thy ===== *)
theory Monitor64
  imports Java Keyboard Serial
begin

text \<open>
  The 64-bit kernel, \<^verbatim>\<open>src/src/kernel/main64.c\<close>: a monitor with its own screen output, scancode
  decoder, line input and commands over the RAM disk.  The names that another file of the kernel
  also uses carry the suffix 64; the decoder state is the record \<open>keyboard\<close>.  The instruction \<open>cpuid\<close> is an argument of the
  definitions that use it.  The routines \<open>rd_le16\<close>, \<open>rd_le32\<close>, \<open>rd_be16\<close>, \<open>rd_be32\<close>,
  \<open>java_detect_format\<close>, the loop of \<open>java_hjar_exec\<close> and \<open>str_to_lower_in_place\<close> are the same text as in
  \<^verbatim>\<open>src/src/commands/java.c\<close> and \<^verbatim>\<open>src/src/terminal/terminal.c\<close> and are not defined again.
  \<open>None\<close> is a monitor that does not come back (\<open>halt\<close>, \<open>reboot\<close>, a loop without end) or that leaves the
  behaviour C defines.
\<close>

unbundle bit_operations_syntax

section \<open>State\<close>

record cpu_info64 =
  vendor :: bytes
  family :: u32
  model :: u32
  stepping :: u32
  has_apic :: bool
  has_sse2 :: bool
  has_long_mode :: bool

record monitor =
  mon_vga :: vga
  g_row :: int
  g_col :: int
  mon_serial :: serial
  g_cpu :: cpu_info64
  mon_kb :: keyboard
  mon_fs :: fs
  mon_line :: bytes
  mon_len :: nat

definition TERM_ATTR :: u8 where "TERM_ATTR = 7"

section \<open>Screen\<close>

definition vga_sync_cursor64 :: "monitor \<Rightarrow> monitor" where
  "vga_sync_cursor64 m = m\<lparr>mon_vga := vga_set_cursor (g_row m) (g_col m) (mon_vga m)\<rparr>"

definition set_cell64 :: "int \<Rightarrow> u8 \<Rightarrow> monitor \<Rightarrow> monitor" where
  "set_cell64 i c m = m\<lparr>mon_vga := put_cell i (vga_entry c TERM_ATTR) (mon_vga m)\<rparr>"

definition vga_scroll_up64 :: "monitor \<Rightarrow> monitor" where
  "vga_scroll_up64 m =
     (let v1 = fold (\<lambda>r. fold (\<lambda>c v. put_cell ((r - 1) * VGA_WIDTH + c) (cells v (r * VGA_WIDTH + c)) v) [0..VGA_WIDTH - 1])
                 [1..VGA_HEIGHT - 1] (mon_vga m);
          v2 = fold (\<lambda>c. put_cell ((VGA_HEIGHT - 1) * VGA_WIDTH + c) (vga_entry chr_sp TERM_ATTR)) [0..VGA_WIDTH - 1] v1
      in m\<lparr>mon_vga := v2, g_row := VGA_HEIGHT - 1, g_col := 0\<rparr>)"

definition line_break64 :: "monitor \<Rightarrow> monitor" where
  "line_break64 m =
     (let m1 = m\<lparr>g_col := 0, g_row := g_row m + 1\<rparr> in if g_row m1 \<ge> VGA_HEIGHT then vga_scroll_up64 m1 else m1)"

definition serial_putc64 :: "uart \<Rightarrow> u8 \<Rightarrow> monitor \<Rightarrow> monitor" where
  "serial_putc64 tx c m = m\<lparr>mon_serial := serial_putc tx c (mon_serial m)\<rparr>"

definition term_putc64 :: "uart \<Rightarrow> u8 \<Rightarrow> monitor \<Rightarrow> monitor" where
  "term_putc64 tx ch m =
     (if ch = 10 then vga_sync_cursor64 (line_break64 (serial_putc64 tx 10 m))
      else if ch = 8 then
        (if g_col m > 0
         then vga_sync_cursor64 (set_cell64 (g_row m * VGA_WIDTH + (g_col m - 1)) chr_sp (m\<lparr>g_col := g_col m - 1\<rparr>))
         else m)
      else let m1 = set_cell64 (g_row m * VGA_WIDTH + g_col m) ch (serial_putc64 tx ch m);
               m2 = m1\<lparr>g_col := g_col m1 + 1\<rparr>
           in vga_sync_cursor64 (if g_col m2 \<ge> VGA_WIDTH then line_break64 m2 else m2))"

definition term_puts64 :: "uart \<Rightarrow> bytes \<Rightarrow> monitor \<Rightarrow> monitor" where
  "term_puts64 tx s m = fold (term_putc64 tx) s m"

definition term_clear64 :: "monitor \<Rightarrow> monitor" where
  "term_clear64 m =
     vga_sync_cursor64 ((fold (\<lambda>i. set_cell64 i chr_sp) [0..VGA_WIDTH * VGA_HEIGHT - 1] m)\<lparr>g_row := 0, g_col := 0\<rparr>)"

text \<open>The texts that a command prints, in order.\<close>

definition say64 :: "uart \<Rightarrow> bytes list \<Rightarrow> monitor \<Rightarrow> monitor" where
  "say64 tx ms m = fold (term_puts64 tx) ms m"

section \<open>Keyboard\<close>

text \<open>The two tables with the lengths that their initialisers give them: 135 and 113.\<close>

definition scancode_ascii64 :: bytes where
  "scancode_ascii64 = [
    0, 27, 49, 50, 51, 52, 53, 54, 55, 56, 57, 48, 45, 61, 8, 9, 113, 119, 101, 114, 116, 121, 117, 105,
    111, 112, 91, 93, 13, 0, 97, 115, 100, 102, 103, 104, 106, 107, 108, 59, 39, 96, 0, 92, 122, 120,
    99, 118, 98, 110, 109, 44, 46, 47, 0, 42, 0, 32, 0] @ replicate 76 0"

definition scancode_shift64 :: bytes where
  "scancode_shift64 = [
    0, 27, 33, 64, 35, 36, 37, 94, 38, 42, 40, 41, 95, 43, 8, 9, 81, 87, 69, 82, 84, 89, 85, 73, 79, 80,
    123, 125, 13, 0, 65, 83, 68, 70, 71, 72, 74, 75, 76, 58, 34, 126, 0, 124, 90, 88, 67, 86, 66, 78,
    77, 60, 62, 63, 0, 42, 0, 32, 0] @ replicate 54 0"

definition extended_key64 :: "u8 \<Rightarrow> nat" where
  "extended_key64 code =
     (if code = 72 then KEY_UP else if code = 80 then KEY_DOWN else if code = 75 then KEY_LEFT
      else if code = 77 then KEY_RIGHT else if code = 71 then KEY_HOME else if code = 79 then KEY_END
      else if code = 83 then KEY_DELETE else 0)"

definition special_key64 :: "u8 \<Rightarrow> nat" where
  "special_key64 code = (if code = 14 then KEY_BACKSPACE else if code = 28 then KEY_ENTER else if code = 1 then KEY_ESCAPE else 0)"

text \<open>An entry of a table; \<open>None\<close> is a read outside it.\<close>

definition table_entry :: "bytes \<Rightarrow> nat \<Rightarrow> u8 option" where
  "table_entry tb i = (if i < length tb then Some (tb ! i) else None)"

definition scan64 :: "u8 \<Rightarrow> keyboard \<Rightarrow> (nat \<times> keyboard) option" where
  "scan64 sc k =
     (if sc = 224 then Some (0, k\<lparr>g_extended := True\<rparr>)
      else let released = (sc AND 128 \<noteq> 0); code = sc AND 127
      in if code = 42 then Some (0, k\<lparr>g_shift_left := \<not> released\<rparr>)
         else if code = 54 then Some (0, k\<lparr>g_shift_right := \<not> released\<rparr>)
         else if released then Some (0, k\<lparr>g_extended := False\<rparr>)
         else if g_extended k then Some (extended_key64 code, k\<lparr>g_extended := False\<rparr>)
         else if special_key64 code \<noteq> 0 then Some (special_key64 code, k)
         else if unat code < 128
           then map_option (\<lambda>c. (unat c, k)) (table_entry (if shift_held k then scancode_shift64 else scancode_ascii64) (unat code))
         else Some (0, k))"

definition keyboard_poll_ps2 :: "'d device \<Rightarrow> keyboard \<times> 'd \<Rightarrow> (nat \<times> keyboard \<times> 'd) option" where
  "keyboard_poll_ps2 dv s =
     (let (status, d1) = inb dv KB_STATUS_PORT (snd s)
      in if status AND KB_STATUS_OBF = 0 then Some (0, fst s, d1)
         else let (sc, d2) = inb dv KB_DATA_PORT d1 in map_option (\<lambda>(key, k). (key, k, d2)) (scan64 sc (fst s)))"

section \<open>Processor\<close>

type_synonym cpuid = "u32 \<Rightarrow> u32 \<Rightarrow> u32 \<times> u32 \<times> u32 \<times> u32"

text \<open>The four bytes of a register, lowest first.\<close>

definition reg_bytes :: "u32 \<Rightarrow> bytes" where
  "reg_bytes r = [ucast r, ucast (drop_bit 8 r), ucast (drop_bit 16 r), ucast (drop_bit 24 r)]"

definition cpu_signature :: "u32 \<Rightarrow> u32 \<Rightarrow> cpu_info64 \<Rightarrow> cpu_info64" where
  "cpu_signature a d i =
     (let model0 = drop_bit 4 a AND 15; family0 = drop_bit 8 a AND 15;
          ext_model = drop_bit 16 a AND 15; ext_family = drop_bit 20 a AND 255
      in i\<lparr>stepping := a AND 15,
           model := (if family0 = 6 \<or> family0 = 15 then model0 OR push_bit 4 ext_model else model0),
           family := (if family0 = 15 then family0 + ext_family else family0),
           has_apic := (d AND push_bit 9 1 \<noteq> 0), has_sse2 := (d AND push_bit 26 1 \<noteq> 0)\<rparr>)"

definition cpu_collect :: "cpuid \<Rightarrow> cpu_info64" where
  "cpu_collect cpuid_ex =
     (let (max_leaf, b, c, d) = cpuid_ex 0 0;
          i0 = \<lparr>vendor = reg_bytes b @ reg_bytes d @ reg_bytes c @ [0], family = 0, model = 0, stepping = 0,
                has_apic = False, has_sse2 = False, has_long_mode = False\<rparr>;
          i1 = (if max_leaf \<ge> 1 then (let (a1, b1, c1, d1) = cpuid_ex 1 0 in cpu_signature a1 d1 i0) else i0);
          (max_ext_leaf, b2, c2, d2) = cpuid_ex 0x80000000 0
      in if max_ext_leaf \<ge> 0x80000001
         then (let (a3, b3, c3, d3) = cpuid_ex 0x80000001 0 in i1\<lparr>has_long_mode := (d3 AND push_bit 29 1 \<noteq> 0)\<rparr>)
         else i1)"

definition yes_no :: "bool \<Rightarrow> bytes" where
  "yes_no b = (if b then lit ''yes'' else lit ''no'')"

definition cmd_info :: "uart \<Rightarrow> monitor \<Rightarrow> monitor" where
  "cmd_info tx m =
     (let i = g_cpu m
      in say64 tx [lit ''CPU vendor: '', cstr_of (vendor i), [10], lit ''Family/Model/Stepping: '', utoa_text (family i) 10, lit ''/'',
           utoa_text (model i) 10, lit ''/'', utoa_text (stepping i) 10, [10], lit ''Features: APIC='', yes_no (has_apic i),
           lit '' SSE2='', yes_no (has_sse2 i), lit '' LongMode='', yes_no (has_long_mode i), [10]] m)"

section \<open>Files\<close>

text \<open>The outer \<open>None\<close> is the path search that does not return, as in \<open>fs_resolve_checked\<close>.\<close>

definition resolve_node :: "fs \<Rightarrow> bytes option \<Rightarrow> nat option option" where
  "resolve_node f path = (if no_args path then Some (Some (fs_cwd_get f)) else fs_resolve_checked f path)"

definition cmd_pwd64 :: "uart \<Rightarrow> monitor \<Rightarrow> monitor option" where
  "cmd_pwd64 tx m = map_option (\<lambda>path. say64 tx [path, [10]] m) (fs_build_path (mon_fs m) (fs_cwd_get (mon_fs m)) False 64)"

definition cmd_cd64 :: "uart \<Rightarrow> bytes option \<Rightarrow> monitor \<Rightarrow> monitor option" where
  "cmd_cd64 tx args m =
     (let f = mon_fs m
      in if no_args args then Some (m\<lparr>mon_fs := fs_cwd_set 0 f\<rparr>)
         else map_option (\<lambda>r. case r of
                Some node \<Rightarrow> if fs_is_dir f node then m\<lparr>mon_fs := fs_cwd_set node f\<rparr>
                             else say64 tx [lit ''cd: directory not found'' @ [10]] m
              | None \<Rightarrow> say64 tx [lit ''cd: directory not found'' @ [10]] m) (resolve_node f args))"

partial_function (option) ls_loop64 :: "uart \<Rightarrow> nat \<Rightarrow> monitor \<Rightarrow> monitor option" where
  "ls_loop64 tx iter m =
     (case fs_list_next (mon_fs m) iter of
        None \<Rightarrow> Some m
      | Some (child, iter1) \<Rightarrow>
          ls_loop64 tx iter1 (say64 tx [if fs_is_dir (mon_fs m) child then lit ''[D] '' else lit ''[F] '', fs_get_name (mon_fs m) child, [10]] m))"

definition cmd_ls64 :: "uart \<Rightarrow> bytes option \<Rightarrow> monitor \<Rightarrow> monitor option" where
  "cmd_ls64 tx args m =
     Option.bind (resolve_node (mon_fs m) args) (\<lambda>r.
       case r of
         None \<Rightarrow> Some (say64 tx [lit ''ls: path not found'' @ [10]] m)
       | Some node \<Rightarrow>
           if fs_is_file (mon_fs m) node then Some (say64 tx [fs_get_name (mon_fs m) node, [10]] m)
           else case list_start (mon_fs m) node of
                  Some iter \<Rightarrow> ls_loop64 tx iter m
                | None \<Rightarrow> Some (say64 tx [lit ''(empty)'' @ [10]] m))"

definition cmd_cat64 :: "uart \<Rightarrow> bytes option \<Rightarrow> monitor \<Rightarrow> monitor option" where
  "cmd_cat64 tx args m =
     (if no_args args then Some (say64 tx [lit ''cat: missing file path'' @ [10]] m)
      else map_option (\<lambda>r.
        if r = None \<or> \<not> fs_is_file (mon_fs m) (the r) then say64 tx [lit ''cat: file not found'' @ [10]] m
        else let (n, data) = fs_read (mon_fs m) (the r) False 1023
             in if n < 0 then say64 tx [lit ''cat: read failed'' @ [10]] m
                else say64 tx ([cstr_of (data @ [0])] @ (if n > 0 \<and> data ! (nat n - 1) \<noteq> 10 then [[10]] else [])) m)
        (resolve_node (mon_fs m) args))"

section \<open>Java files\<close>

definition java_hjar_exec64 :: "uart \<Rightarrow> bytes \<Rightarrow> monitor \<Rightarrow> (bool \<times> monitor) option" where
  "java_hjar_exec64 tx d m =
     (if length d < 5 \<or> java_detect_format d \<noteq> 1 then Some (False, say64 tx [lit ''java: invalid HJAR'' @ [10]] m)
      else map_option (\<lambda>(ok, out). (ok, say64 tx out m)) (hjar_loop (drop 5 d) []))"

text \<open>The header at an offset: the texts of its line and the offset behind the entry, or the message of the failure.\<close>

definition zip_entry64 :: "bytes \<Rightarrow> int \<Rightarrow> (bytes + bytes list \<times> int) option" where
  "zip_entry64 d off =
     Option.bind (rd_le16 d (off + 6)) (\<lambda>flags. Option.bind (rd_le16 d (off + 8)) (\<lambda>method.
     Option.bind (rd_le32 d (off + 18)) (\<lambda>comp_size. Option.bind (rd_le16 d (off + 26)) (\<lambda>name_len.
     Option.bind (rd_le16 d (off + 28)) (\<lambda>extra_len.
       let sz = int (length d); name_off = off + 30; data_off = name_off + int (unat name_len) + int (unat extra_len)
       in if name_off + int (unat name_len) > sz \<or> data_off > sz then Some (Inl (lit ''jarinfo: truncated header'' @ [10]))
          else if flags AND 8 \<noteq> 0 then Some (Inl (lit ''jarinfo: data-descriptor jars not supported yet'' @ [10]))
          else Option.bind (int_add data_off (sint comp_size)) (\<lambda>end_off.
            if end_off > sz then Some (Inl (lit ''jarinfo: entry size out of range'' @ [10]))
            else Some (Inr ([lit ''  - '', cstr_of (sub_bytes d name_off (int (min (unat name_len) 63)) @ [0]),
                   lit ''  method='', utoa_text (ucast method) 10, lit ''  bytes='', utoa_text comp_size 10, [10]], end_off))))))))"

partial_function (option) zip_list_loop64 :: "uart \<Rightarrow> bytes \<Rightarrow> int \<Rightarrow> u32 \<Rightarrow> monitor \<Rightarrow> (u32 option \<times> monitor) option" where
  "zip_list_loop64 tx d off entries m =
     (if off + 30 > int (length d) then Some (Some entries, m)
      else Option.bind (rd_le32 d off) (\<lambda>sig.
        if sig \<noteq> 0x04034B50 then Some (Some entries, m)
        else Option.bind (zip_entry64 d off) (\<lambda>r.
          case r of
            Inl msg \<Rightarrow> Some (None, say64 tx [msg] m)
          | Inr (ms, off1) \<Rightarrow> zip_list_loop64 tx d off1 (entries + 1) (say64 tx ms m))))"

definition java_zip_list_entries64 :: "uart \<Rightarrow> bytes \<Rightarrow> monitor \<Rightarrow> (bool \<times> monitor) option" where
  "java_zip_list_entries64 tx d m =
     map_option (\<lambda>(r, m1).
       case r of
         None \<Rightarrow> (False, m1)
       | Some entries \<Rightarrow>
           if entries = 0 then (False, say64 tx [lit ''jarinfo: no local file headers found'' @ [10]] m1)
           else (True, say64 tx [lit ''jarinfo: entries parsed='', utoa_text entries 10, [10]] m1))
       (zip_list_loop64 tx d 0 0 m)"

definition java_class_info64 :: "uart \<Rightarrow> bytes \<Rightarrow> monitor \<Rightarrow> monitor option" where
  "java_class_info64 tx d m =
     (if length d < 10 \<or> rd_be32 d 0 \<noteq> Some 0xCAFEBABE then Some (say64 tx [lit ''java: invalid class file'' @ [10]] m)
      else Option.bind (rd_be16 d 4) (\<lambda>minor. Option.bind (rd_be16 d 6) (\<lambda>major. Option.bind (rd_be16 d 8) (\<lambda>cp_count.
        Some (say64 tx [lit ''ClassFile version: '', utoa_text (ucast major) 10, [chr_dot], utoa_text (ucast minor) 10,
              lit ''  cp_count='', utoa_text (ucast cp_count) 10, [10],
              lit ''Execution: full JVM class execution is not implemented yet.'' @ [10]] m)))))"

text \<open>The bytes of the file and its format, if it could be read.\<close>

definition load_file_to_buf :: "uart \<Rightarrow> bytes option \<Rightarrow> nat \<Rightarrow> monitor \<Rightarrow> ((bytes \<times> nat) option \<times> monitor) option" where
  "load_file_to_buf tx path cap m =
     (if no_args path then Some (None, say64 tx [lit ''java: missing file path'' @ [10]] m)
      else map_option (\<lambda>r.
        if r = None \<or> \<not> fs_is_file (mon_fs m) (the r) then (None, say64 tx [lit ''java: file not found'' @ [10]] m)
        else let (n, data) = fs_read (mon_fs m) (the r) False (int cap)
             in if n \<le> 0 then (None, say64 tx [lit ''java: failed to read file'' @ [10]] m)
                else (Some (data, java_detect_format data), m))
        (resolve_node (mon_fs m) path))"

definition jarinfo64 :: "uart \<Rightarrow> bytes \<Rightarrow> nat \<Rightarrow> monitor \<Rightarrow> monitor option" where
  "jarinfo64 tx d fmt m =
     (if fmt = 1 then
        Some (say64 tx [lit ''jarinfo: HJAR (HeatOS mini format), version='', utoa_text (ucast (d ! 4)) 10, lit '' size='',
          utoa_text (word_of_nat (length d)) 10, [10]] m)
      else if fmt = 2 then map_option snd (java_zip_list_entries64 tx d (say64 tx [lit ''jarinfo: ZIP/JAR detected'' @ [10]] m))
      else if fmt = 3 then java_class_info64 tx d (say64 tx [lit ''jarinfo: ClassFile detected'' @ [10]] m)
      else Some (say64 tx [lit ''jarinfo: unknown file format'' @ [10]] m))"

definition cmd_jarinfo64 :: "uart \<Rightarrow> bytes option \<Rightarrow> monitor \<Rightarrow> monitor option" where
  "cmd_jarinfo64 tx args m =
     Option.bind (load_file_to_buf tx args 4096 m) (\<lambda>(r, m1). case r of None \<Rightarrow> Some m1 | Some (d, fmt) \<Rightarrow> jarinfo64 tx d fmt m1)"

definition java64 :: "uart \<Rightarrow> bytes \<Rightarrow> nat \<Rightarrow> monitor \<Rightarrow> monitor option" where
  "java64 tx d fmt m =
     (if fmt = 1 then map_option snd (java_hjar_exec64 tx d (say64 tx [lit ''java: running HJAR app'' @ [10]] m))
      else if fmt = 2 then
        map_option (\<lambda>(ok, m1). say64 tx [lit ''java: full JVM .jar execution is in progress (class loader + verifier pending).'' @ [10]] m1)
          (java_zip_list_entries64 tx d (say64 tx [lit ''java: ZIP/JAR detected. Entry listing:'' @ [10]] m))
      else if fmt = 3 then java_class_info64 tx d (say64 tx [lit ''java: direct .class input detected'' @ [10]] m)
      else Some (say64 tx [lit ''java: unsupported file format'' @ [10]] m))"

definition cmd_java64 :: "uart \<Rightarrow> bytes option \<Rightarrow> monitor \<Rightarrow> monitor option" where
  "cmd_java64 tx args m =
     Option.bind (load_file_to_buf tx args 4096 m) (\<lambda>(r, m1). case r of None \<Rightarrow> Some m1 | Some (d, fmt) \<Rightarrow> java64 tx d fmt m1)"

section \<open>The monitor\<close>

definition help64 :: "bytes list" where
  "help64 =
    [lit ''x64 monitor commands:'' @ [10],
     lit ''  help               - show this list'' @ [10],
     lit ''  clear              - clear screen'' @ [10],
     lit ''  info               - CPU + feature info'' @ [10],
     lit ''  pwd                - print working directory'' @ [10],
     lit ''  cd <path>          - change directory'' @ [10],
     lit ''  ls [path]          - list files'' @ [10],
     lit ''  cat <path>         - print file'' @ [10],
     lit ''  jarinfo <path>     - inspect HJAR/ZIP/Class file'' @ [10],
     lit ''  java <path>        - run HJAR or inspect ZIP/Class'' @ [10],
     lit ''  reboot             - keyboard-controller reset'' @ [10],
     lit ''  halt               - halt CPU'' @ [10]]"

definition shell_exec_line :: "uart \<Rightarrow> bytes \<Rightarrow> monitor \<Rightarrow> monitor option" where
  "shell_exec_line tx line m =
     (if line = [] then Some m
      else let (word, args) = split_command line; cmd = map lower_char word
           in if strcmp_l cmd (lit ''help'') = 0 then Some (say64 tx help64 m)
              else if strcmp_l cmd (lit ''clear'') = 0 then Some (term_clear64 m)
              else if strcmp_l cmd (lit ''info'') = 0 then Some (cmd_info tx m)
              else if strcmp_l cmd (lit ''pwd'') = 0 then cmd_pwd64 tx m
              else if strcmp_l cmd (lit ''cd'') = 0 then cmd_cd64 tx args m
              else if strcmp_l cmd (lit ''ls'') = 0 then cmd_ls64 tx args m
              else if strcmp_l cmd (lit ''cat'') = 0 then cmd_cat64 tx args m
              else if strcmp_l cmd (lit ''jarinfo'') = 0 then cmd_jarinfo64 tx args m
              else if strcmp_l cmd (lit ''java'') = 0 then cmd_java64 tx args m
              else if strcmp_l cmd (lit ''reboot'') = 0 then None
              else if strcmp_l cmd (lit ''halt'') = 0 then None
              else Some (say64 tx [lit ''Unknown command: '', cmd, [10]] m))"

text \<open>One round of the loop of \<open>kernel_main64\<close> for the key that \<open>keyboard_poll_ps2\<close> returned.\<close>

definition enter64 :: "uart \<Rightarrow> monitor \<Rightarrow> monitor option" where
  "enter64 tx m =
     (let m1 = term_putc64 tx 10 (m\<lparr>mon_line := (mon_line m)[mon_len m := 0]\<rparr>)
      in map_option (\<lambda>m2. say64 tx [lit ''x64> ''] (m2\<lparr>mon_len := 0, mon_line := (mon_line m2)[0 := 0]\<rparr>))
           (if mon_len m1 > 0 then shell_exec_line tx (cstr_of (mon_line m1)) m1 else Some m1))"

definition key64 :: "uart \<Rightarrow> nat \<Rightarrow> monitor \<Rightarrow> monitor option" where
  "key64 tx key m =
     (if key = 0 then Some m
      else if key = KEY_ENTER \<or> key = 10 then enter64 tx m
      else if key = KEY_BACKSPACE \<or> key = 8 then
        Some (if mon_len m > 0
              then term_putc64 tx 8 (m\<lparr>mon_len := mon_len m - 1, mon_line := (mon_line m)[mon_len m - 1 := 0]\<rparr>) else m)
      else if key \<ge> 32 \<and> key \<le> 126 \<and> mon_len m < 255 then
        Some (term_putc64 tx (byte_of_nat key)
               (m\<lparr>mon_line := (mon_line m)[mon_len m := byte_of_nat key, mon_len m + 1 := 0], mon_len := mon_len m + 1\<rparr>))
      else Some m)"

text \<open>The loop over the bytes that the keyboard controller delivers; a poll that finds none changes nothing.\<close>

fun loop64 :: "uart \<Rightarrow> bytes \<Rightarrow> monitor \<Rightarrow> monitor option" where
  "loop64 tx [] m = Some m"
| "loop64 tx (sc # scs) m =
     Option.bind (scan64 sc (mon_kb m)) (\<lambda>(key, k). Option.bind (key64 tx key (m\<lparr>mon_kb := k\<rparr>)) (loop64 tx scs))"

text \<open>The start up to the first prompt; the disk is the one of \<open>ramdisk_init\<close>.\<close>

definition start64 :: "uart \<Rightarrow> cpuid \<Rightarrow> monitor \<Rightarrow> monitor option" where
  "start64 tx cpuid_ex m =
     (let i = cpu_collect cpuid_ex;
          m1 = term_clear64 (m\<lparr>mon_serial := serial_init (mon_serial m), g_cpu := i\<rparr>);
          m2 = say64 tx [lit ''HeatOS x64 kernel (phase 2)'' @ [10], lit ''Long mode active. Interactive monitor enabled.'' @ [10],
                 [10] @ lit ''CPU: '', cstr_of (vendor i), lit ''  LM='', yes_no (has_long_mode i), [10]] m1
      in map_option (\<lambda>f. (say64 tx [lit ''Ramdisk online (/home, /java, /docs...).'' @ [10],
               lit ''Java phase 1: HJAR execution + ZIP/JAR inspection.'' @ [10],
               lit ''Type '' @ [39] @ lit ''help'' @ [39] @ lit ''.'' @ [10, 10], lit ''x64> '']
             (m2\<lparr>mon_fs := fs_cwd_set 0 f\<rparr>))\<lparr>mon_len := 0, mon_line := (mon_line m2)[0 := 0]\<rparr>) ramdisk_init)"

definition kernel_main64 :: "uart \<Rightarrow> cpuid \<Rightarrow> bytes \<Rightarrow> monitor \<Rightarrow> monitor option" where
  "kernel_main64 tx cpuid_ex scs m = Option.bind (start64 tx cpuid_ex m) (loop64 tx scs)"

section \<open>Output stays on the screen\<close>

definition mon_on_screen :: "monitor \<Rightarrow> bool" where
  "mon_on_screen m \<longleftrightarrow> 0 \<le> g_row m \<and> g_row m < 25 \<and> 0 \<le> g_col m \<and> g_col m < 80"

text \<open>\<open>m'\<close> comes from \<open>m\<close> by output: screen, cursor and serial line may change, nothing beyond the screen's cells.\<close>

definition prints :: "monitor \<Rightarrow> monitor \<Rightarrow> bool" where
  "prints m m' \<longleftrightarrow> (mon_on_screen m \<longrightarrow> mon_on_screen m' \<and> (\<forall>i. i < 0 \<or> 2000 \<le> i \<longrightarrow> cells (mon_vga m') i = cells (mon_vga m) i)) \<and>
     mon_fs m' = mon_fs m \<and> mon_line m' = mon_line m \<and> mon_len m' = mon_len m \<and> mon_kb m' = mon_kb m \<and> g_cpu m' = g_cpu m"

lemma prints_refl [simp]: "prints m m"
  by (simp add: prints_def)

lemma prints_trans: "prints a b \<Longrightarrow> prints b c \<Longrightarrow> prints a c"
  by (auto simp: prints_def)

lemma cells_fold_put:
  assumes "\<And>x v. x \<in> set xs \<Longrightarrow> cells (f x v) i = cells v i"
  shows "cells (fold f xs v) i = cells v i"
  using assms by (induction xs arbitrary: v) auto

lemma scroll_cells:
  assumes "i < 0 \<or> 2000 \<le> i"
  shows "cells (mon_vga (vga_scroll_up64 m)) i = cells (mon_vga m) i"
proof -
  have "cells (put_cell ((r - 1) * 80 + c) e v) i = cells v i" if "1 \<le> r" "r \<le> 25" "0 \<le> c" "c \<le> 79" for r c e v
    using that assms by auto
  note u = this [of 25, simplified] this
  show ?thesis
    unfolding vga_scroll_up64_def Let_def const_defs
    by (simp, subst cells_fold_put, use u in simp, rule cells_fold_put, rule cells_fold_put, use u in simp)
qed

lemma mon_frame [simp]:
  "mon_fs (vga_sync_cursor64 m) = mon_fs m" "mon_line (vga_sync_cursor64 m) = mon_line m" "mon_len (vga_sync_cursor64 m) = mon_len m"
  "mon_kb (vga_sync_cursor64 m) = mon_kb m" "g_cpu (vga_sync_cursor64 m) = g_cpu m"
  "mon_fs (line_break64 m) = mon_fs m" "mon_line (line_break64 m) = mon_line m" "mon_len (line_break64 m) = mon_len m"
  "mon_kb (line_break64 m) = mon_kb m" "g_cpu (line_break64 m) = g_cpu m"
  "mon_fs (set_cell64 i c m) = mon_fs m" "mon_line (set_cell64 i c m) = mon_line m" "mon_len (set_cell64 i c m) = mon_len m"
  "mon_kb (set_cell64 i c m) = mon_kb m" "g_cpu (set_cell64 i c m) = g_cpu m"
  "mon_fs (serial_putc64 tx c m) = mon_fs m" "mon_line (serial_putc64 tx c m) = mon_line m" "mon_len (serial_putc64 tx c m) = mon_len m"
  "mon_kb (serial_putc64 tx c m) = mon_kb m" "g_cpu (serial_putc64 tx c m) = g_cpu m"
  by (simp_all add: vga_sync_cursor64_def line_break64_def vga_scroll_up64_def set_cell64_def serial_putc64_def Let_def)

lemma mon_position [simp]:
  "g_row (vga_sync_cursor64 m) = g_row m" "g_col (vga_sync_cursor64 m) = g_col m" "cells (mon_vga (vga_sync_cursor64 m)) = cells (mon_vga m)"
  "g_row (serial_putc64 tx c m) = g_row m" "g_col (serial_putc64 tx c m) = g_col m" "mon_vga (serial_putc64 tx c m) = mon_vga m"
  "g_row (set_cell64 i c m) = g_row m" "g_col (set_cell64 i c m) = g_col m"
  "cells (mon_vga (set_cell64 i c m)) = (cells (mon_vga m))(i := vga_entry c TERM_ATTR)"
  by (simp_all add: vga_sync_cursor64_def vga_set_cursor_def serial_putc64_def set_cell64_def Let_def)

lemma break_position:
  assumes "0 \<le> g_row m" and "g_row m < 25"
  shows "mon_on_screen (line_break64 m)" "i < 0 \<or> 2000 \<le> i \<Longrightarrow> cells (mon_vga (line_break64 m)) i = cells (mon_vga m) i"
  using assms scroll_cells [of i]
  by (auto simp: line_break64_def Let_def mon_on_screen_def vga_scroll_up64_def [of "m\<lparr>g_col := 0, g_row := 25\<rparr>"] const_defs)
    (auto simp: vga_scroll_up64_def Let_def const_defs)

lemma prints_putc: "prints m (term_putc64 tx c m)"
proof -
  have "mon_on_screen (term_putc64 tx c m) \<and> (\<forall>i. i < 0 \<or> 2000 \<le> i \<longrightarrow> cells (mon_vga (term_putc64 tx c m)) i = cells (mon_vga m) i)"
    if "mon_on_screen m"
  proof -
    have s: "0 \<le> g_row m" "g_row m < 25" "0 \<le> g_col m" "g_col m < 80" using that by (auto simp: mon_on_screen_def)
    let ?m1 = "set_cell64 (g_row m * 80 + g_col m) c (serial_putc64 tx c m)"
    have r: "g_row m * 80 + g_col m < 2000" "0 \<le> g_row m * 80 + g_col m" using s by simp_all
    note b1 = break_position [of "serial_putc64 tx 10 m"] and b2 = break_position [of "?m1\<lparr>g_col := g_col m + 1\<rparr>"]
    consider "c = 10" | "c = 8" "g_col m = 0" | "c = 8" "0 < g_col m" | "c \<noteq> 10" "c \<noteq> 8" using s by fastforce
    then show ?thesis
    proof cases
      case 1
      then show ?thesis using s b1 by (simp add: term_putc64_def mon_on_screen_def)
    next
      case 3
      then have "g_row m * 80 + (g_col m - 1) < 2000" "0 \<le> g_row m * 80 + (g_col m - 1)" using s by simp_all
      then show ?thesis using 3 s by (auto simp: term_putc64_def mon_on_screen_def const_defs)
    next
      case 4
      then show ?thesis using s r b2 by (auto simp: term_putc64_def Let_def mon_on_screen_def const_defs)
    qed (use that in \<open>simp add: term_putc64_def\<close>)
  qed
  then show ?thesis by (simp add: prints_def term_putc64_def Let_def)
qed

lemma prints_fold: "(\<And>x m. prints m (f x m)) \<Longrightarrow> prints m (fold f xs m)"
  by (induction xs arbitrary: m) (auto intro: prints_trans)

lemma prints_puts: "prints m (term_puts64 tx s m)"
  unfolding term_puts64_def by (rule prints_fold) (rule prints_putc)

lemma prints_say [simp]: "prints m (say64 tx ms m)"
  unfolding say64_def by (rule prints_fold) (rule prints_puts)

lemma prints_clear: "prints m (term_clear64 m)"
proof -
  have f: "prints m (fold (\<lambda>i. set_cell64 i chr_sp) xs m)" if "set xs \<subseteq> {0..1999}" for xs
    using that by (induction xs arbitrary: m) (auto simp: prints_def mon_on_screen_def)
  have "prints m ((fold (\<lambda>i. set_cell64 i chr_sp) [0..1999] m)\<lparr>g_row := 0, g_col := 0\<rparr>)"
    using f [of "[0..1999]"] by (auto simp: prints_def mon_on_screen_def)
  then show ?thesis by (simp add: term_clear64_def prints_def mon_on_screen_def const_defs)
qed

section \<open>Commands\<close>

text \<open>A command prints and at most changes the current directory.\<close>

definition runs64 :: "monitor \<Rightarrow> monitor \<Rightarrow> bool" where
  "runs64 m m' \<longleftrightarrow> (\<exists>d. prints (m\<lparr>mon_fs := (mon_fs m)\<lparr>fs_cwd := d\<rparr>\<rparr>) m' \<and> (d = fs_cwd (mon_fs m) \<or> fs_is_dir (mon_fs m) d))"

lemma runs_prints: "prints m m' \<Longrightarrow> runs64 m m'"
  unfolding runs64_def by (rule exI [of _ "fs_cwd (mon_fs m)"]) simp

lemma runs_cwd: "runs64 m (m\<lparr>mon_fs := fs_cwd_set n (mon_fs m)\<rparr>)"
proof (cases "n < RAMDISK_MAX_NODES \<and> fs_is_dir (mon_fs m) n")
  case True
  then show ?thesis unfolding runs64_def fs_cwd_set_def by (intro exI [of _ n]) simp
qed (auto simp: fs_cwd_set_def runs_prints)

lemma runs_say: "runs64 m (say64 tx ms m)"
  by (rule runs_prints) simp

lemma runs_cd: "cmd_cd64 tx args m = Some m' \<Longrightarrow> runs64 m m'"
  using runs_say [of m] runs_cwd [of m]
  by (auto simp: cmd_cd64_def Let_def simp del: lit_Cons split: if_split_asm option.split)

lemma prints_ls_loop: "ls_loop64 tx iter m = Some m' \<Longrightarrow> prints m m'"
proof (induction rule: ls_loop64.raw_induct [where P = "\<lambda>tx iter m m'. prints m m'", rotated, consumes 1])
  case (1 loop tx iter m m')
  show ?case
  proof (cases "fs_list_next (mon_fs m) iter")
    case (Some p)
    obtain child iter1 where p: "p = (child, iter1)" by fastforce
    define ms where "ms = [if fs_is_dir (mon_fs m) child then lit ''[D] '' else lit ''[F] '', fs_get_name (mon_fs m) child, [10]]"
    have "loop tx iter1 (say64 tx ms m) = Some m'" using 1(2) Some unfolding p ms_def by (simp del: lit_Cons)
    then have "prints (say64 tx ms m) m'" by (rule 1(1))
    then show ?thesis by (rule prints_trans [OF prints_say])
  qed (use 1 in simp)
qed

lemma prints_ls: "cmd_ls64 tx args m = Some m' \<Longrightarrow> prints m m'"
proof -
  assume a: "cmd_ls64 tx args m = Some m'"
  then obtain r where r: "resolve_node (mon_fs m) args = Some r" by (auto simp: cmd_ls64_def bind_eq_Some_conv)
  show ?thesis
  proof (cases r)
    case (Some node)
    then show ?thesis
      using a r by (cases "list_start (mon_fs m) node") (auto simp: cmd_ls64_def simp del: lit_Cons split: if_split_asm intro: prints_ls_loop)
  qed (use a r in \<open>auto simp: cmd_ls64_def simp del: lit_Cons\<close>)
qed

lemma prints_files: "cmd_pwd64 tx m = Some m' \<Longrightarrow> prints m m'" "cmd_cat64 tx args m = Some m' \<Longrightarrow> prints m m'"
  by (auto simp: cmd_pwd64_def cmd_cat64_def Let_def case_prod_unfold simp del: lit_Cons split: if_split_asm)

lemma prints_zip_loop: "zip_list_loop64 tx d off n m = Some r \<Longrightarrow> prints m (snd r)"
proof (induction rule: zip_list_loop64.raw_induct [where P = "\<lambda>tx d off n m r. prints m (snd r)", rotated, consumes 1])
  case (1 loop tx d off n m r)
  show ?case
  proof (cases "off + 30 > int (length d) \<or> (\<exists>sig. rd_le32 d off = Some sig \<and> sig \<noteq> 0x04034B50)")
    case True
    then show ?thesis using 1(2) by (auto split: if_split_asm)
  next
    case False
    then obtain e where e: "zip_entry64 d off = Some e" using 1(2) by (auto simp: bind_eq_Some_conv)
    show ?thesis
    proof (cases e)
      case (Inl msg)
      then show ?thesis using 1(2) False e by (auto simp: bind_eq_Some_conv)
    next
      case (Inr x)
      obtain ms off1 where x: "x = (ms, off1)" by fastforce
      have "loop tx d off1 (n + 1) (say64 tx ms m) = Some r"
        using 1(2) False e Inr x by (auto simp: bind_eq_Some_conv)
      then have "prints (say64 tx ms m) (snd r)" by (rule 1(1))
      then show ?thesis by (rule prints_trans [OF prints_say])
    qed
  qed
qed

lemma prints_zip: "java_zip_list_entries64 tx d m = Some (ok, m') \<Longrightarrow> prints m m'"
proof -
  assume a: "java_zip_list_entries64 tx d m = Some (ok, m')"
  then obtain r m1 where r: "zip_list_loop64 tx d 0 0 m = Some (r, m1)" by (auto simp: java_zip_list_entries64_def)
  have "prints m m1" using prints_zip_loop [OF r] by simp
  then show ?thesis
    using a r by (cases r) (auto simp: java_zip_list_entries64_def simp del: lit_Cons split: if_split_asm intro: prints_trans)
qed

lemma prints_class: "java_class_info64 tx d m = Some m' \<Longrightarrow> prints m m'"
  by (auto simp: java_class_info64_def bind_eq_Some_conv simp del: lit_Cons split: if_split_asm)

lemma prints_hjar: "java_hjar_exec64 tx d m = Some (ok, m') \<Longrightarrow> prints m m'"
  by (auto simp: java_hjar_exec64_def simp del: lit_Cons split: if_split_asm)

lemma prints_then: "prints (say64 tx ms m) m' \<Longrightarrow> prints m m'" "prints m m' \<Longrightarrow> prints m (say64 tx ms m')"
  using prints_trans prints_say by blast+

lemma prints_load: "load_file_to_buf tx path cap m = Some (r, m') \<Longrightarrow> prints m m'"
  by (auto simp: load_file_to_buf_def Let_def case_prod_unfold simp del: lit_Cons split: if_split_asm)

lemma prints_jarinfo: "jarinfo64 tx d fmt m = Some m' \<Longrightarrow> prints m m'"
  by (auto simp: jarinfo64_def simp del: lit_Cons split: if_split_asm dest!: prints_zip prints_class prints_then(1))

lemma prints_java: "java64 tx d fmt m = Some m' \<Longrightarrow> prints m m'"
  by (auto simp: java64_def simp del: lit_Cons split: if_split_asm dest!: prints_zip prints_class prints_hjar prints_then(1)
      intro: prints_then(2))

lemma prints_java_commands: "cmd_jarinfo64 tx args m = Some m' \<Longrightarrow> prints m m'" "cmd_java64 tx args m = Some m' \<Longrightarrow> prints m m'"
  by (auto simp: cmd_jarinfo64_def cmd_java64_def bind_eq_Some_conv split: option.split_asm
      dest!: prints_load prints_jarinfo prints_java intro: prints_trans)

lemma runs_line: "shell_exec_line tx line m = Some m' \<Longrightarrow> runs64 m m'"
  by (auto simp: shell_exec_line_def cmd_info_def Let_def runs_say runs_prints prints_clear simp del: lit_Cons
      split: if_split_asm prod.split_asm dest!: runs_cd prints_ls prints_files prints_java_commands intro: runs_prints)

section \<open>The line and the session\<close>

definition mon_wf :: "monitor \<Rightarrow> bool" where
  "mon_wf m \<longleftrightarrow> mon_on_screen m \<and> length (mon_line m) = 256 \<and> mon_len m \<le> 255 \<and> mon_line m ! mon_len m = 0 \<and>
     0 \<notin> set (take (mon_len m) (mon_line m)) \<and> fs_is_dir (mon_fs m) (fs_cwd (mon_fs m))"

definition line64 :: "monitor \<Rightarrow> bytes" where
  "line64 m = take (mon_len m) (mon_line m)"

text \<open>What a key does to the line, on texts.\<close>

definition edit64 :: "nat \<Rightarrow> bytes \<Rightarrow> bytes" where
  "edit64 key s =
     (if key = KEY_ENTER \<or> key = 10 then []
      else if key = KEY_BACKSPACE \<or> key = 8 then butlast s
      else if 32 \<le> key \<and> key \<le> 126 \<and> length s < 255 then s @ [byte_of_nat key] else s)"

text \<open>Nothing but the screen's own cells, the serial line and the current directory has changed.\<close>

definition same64 :: "monitor \<Rightarrow> monitor \<Rightarrow> bool" where
  "same64 m m' \<longleftrightarrow> (\<forall>i. i < 0 \<or> 2000 \<le> i \<longrightarrow> cells (mon_vga m') i = cells (mon_vga m) i) \<and>
     (\<exists>d. mon_fs m' = (mon_fs m)\<lparr>fs_cwd := d\<rparr>)"

lemma same64_trans: "same64 a b \<Longrightarrow> same64 b c \<Longrightarrow> same64 a c"
  by (auto simp: same64_def)

lemma fs_is_dir_cwd [simp]: "fs_is_dir (f\<lparr>fs_cwd := d\<rparr>) n = fs_is_dir f n"
  by (simp add: fs_is_dir_def)

lemma runs_wf:
  assumes "runs64 m m'" and "mon_wf m"
  shows "mon_wf m'" "same64 m m'"
proof -
  obtain d where d: "prints (m\<lparr>mon_fs := (mon_fs m)\<lparr>fs_cwd := d\<rparr>\<rparr>) m'" "d = fs_cwd (mon_fs m) \<or> fs_is_dir (mon_fs m) d"
    using assms(1) by (auto simp: runs64_def)
  moreover have "mon_on_screen (m\<lparr>mon_fs := (mon_fs m)\<lparr>fs_cwd := d\<rparr>\<rparr>)" using assms(2) by (simp add: mon_wf_def mon_on_screen_def)
  ultimately show "mon_wf m'" "same64 m m'" using assms(2) by (auto simp: mon_wf_def same64_def prints_def)
qed

lemma prints_wf:
  assumes "prints m m'" and "mon_wf m"
  shows "mon_wf m'" "same64 m m'" "line64 m' = line64 m"
  using runs_wf [OF runs_prints [OF assms(1)] assms(2)] assms(1) by (auto simp: prints_def line64_def)

lemma line64_array:
  assumes "mon_wf m"
  shows "cstr_of (mon_line m) = line64 m" "length (line64 m) = mon_len m" "(mon_line m)[mon_len m := 0] = mon_line m"
proof -
  have w: "length (mon_line m) = 256" "mon_len m \<le> 255" "mon_line m ! mon_len m = 0" "0 \<notin> set (line64 m)"
    using assms by (auto simp: mon_wf_def line64_def)
  then show "cstr_of (mon_line m) = line64 m"
    unfolding line64_def by (intro cstr_of_take) (auto simp: line64_def)
  show "length (line64 m) = mon_len m" using w by (simp add: line64_def)
  show "(mon_line m)[mon_len m := 0] = mon_line m" using w by (metis list_update_id)
qed

lemma enter64_step:
  assumes wf: "mon_wf m" and e: "enter64 tx m = Some m'"
  shows "mon_wf m'" "same64 m m'" "line64 m' = []"
proof -
  let ?m1 = "term_putc64 tx 10 m"
  note p = prints_wf [OF prints_putc [of m tx 10] wf]
  have m1: "m\<lparr>mon_line := (mon_line m)[mon_len m := 0]\<rparr> = m" using line64_array(3) [OF wf] by simp
  obtain m2 where m2: "(if mon_len ?m1 > 0 then shell_exec_line tx (cstr_of (mon_line ?m1)) ?m1 else Some ?m1) = Some m2"
      "m' = say64 tx [lit ''x64> ''] (m2\<lparr>mon_len := 0, mon_line := (mon_line m2)[0 := 0]\<rparr>)"
    using e unfolding enter64_def Let_def m1 by (auto simp del: lit_Cons)
  have "runs64 ?m1 m2" using m2(1) by (auto simp: runs_prints dest: runs_line split: if_split_asm)
  note r = runs_wf [OF this p(1)]
  let ?m3 = "m2\<lparr>mon_len := 0, mon_line := (mon_line m2)[0 := 0]\<rparr>"
  have m3: "mon_wf ?m3" "same64 m2 ?m3" "line64 ?m3 = []" using r(1)
    by (auto simp: mon_wf_def mon_on_screen_def same64_def line64_def intro: exI [of _ "fs_cwd (mon_fs m2)"])
  note s = prints_wf [OF prints_say [of ?m3 tx "[lit ''x64> '']"] m3(1)]
  show "mon_wf m'" "line64 m' = []" using s m3 unfolding m2(2) by simp_all
  show "same64 m m'" unfolding m2(2) by (rule same64_trans [OF p(2) same64_trans [OF r(2) same64_trans [OF m3(2) s(2)]]])
qed

lemma key64_step:
  assumes wf: "mon_wf m" and k: "key64 tx key m = Some m'"
  shows "mon_wf m'" "same64 m m'" "line64 m' = edit64 key (line64 m)"
proof -
  have w: "mon_on_screen m" "length (mon_line m) = 256" "mon_len m \<le> 255" "mon_line m ! mon_len m = 0" "0 \<notin> set (line64 m)"
    "fs_is_dir (mon_fs m) (fs_cwd (mon_fs m))"
    using wf by (auto simp: mon_wf_def line64_def)
  note ln = line64_array [OF wf]
  let ?goal = "mon_wf m' \<and> same64 m m' \<and> line64 m' = edit64 key (line64 m)"
  consider (none) "m' = m" "edit64 key (line64 m) = line64 m"
    | (enter) "key = KEY_ENTER \<or> key = 10"
    | (bsp) "key = KEY_BACKSPACE \<or> key = 8" "0 < mon_len m"
    | (chr) "32 \<le> key" "key \<le> 126" "mon_len m < 255"
    using k ln(2) by (auto simp: key64_def edit64_def const_defs split: if_split_asm)
  then have ?goal
  proof cases
    case none
    then show ?thesis using wf by (auto simp: same64_def intro: exI [of _ "fs_cwd (mon_fs m)"])
  next
    case enter
    have "enter64 tx m = Some m'" using k enter by (auto simp: key64_def const_defs split: if_split_asm)
    from enter64_step [OF wf this] show ?thesis using enter by (auto simp: edit64_def)
  next
    case bsp
    let ?m1 = "m\<lparr>mon_len := mon_len m - 1, mon_line := (mon_line m)[mon_len m - 1 := 0]\<rparr>"
    have m': "m' = term_putc64 tx 8 ?m1" using k bsp by (auto simp: key64_def const_defs)
    have b: "take (mon_len m - 1) (mon_line m) = butlast (line64 m)" using w by (simp add: line64_def butlast_take)
    have "mon_wf ?m1" "same64 m ?m1" "line64 ?m1 = butlast (line64 m)"
      using w b by (auto simp: mon_wf_def mon_on_screen_def same64_def line64_def dest: in_set_butlastD
        intro: exI [of _ "fs_cwd (mon_fs m)"])
    then show ?thesis
      using prints_wf [OF prints_putc [of ?m1 tx 8]] bsp unfolding m' by (auto simp: edit64_def const_defs intro: same64_trans)
  next
    case chr
    let ?b = "byte_of_nat key"
    let ?m1 = "m\<lparr>mon_line := (mon_line m)[mon_len m := ?b, mon_len m + 1 := 0], mon_len := mon_len m + 1\<rparr>"
    have m': "m' = term_putc64 tx ?b ?m1" using k chr by (auto simp: key64_def const_defs)
    have t: "take (mon_len m + 1) ((mon_line m)[mon_len m := ?b, mon_len m + 1 := 0]) = line64 m @ [?b]"
      using w chr by (simp add: line64_def take_Suc_conv_app_nth)
    have nz: "?b \<noteq> 0" using byte_of_key [OF chr(1,2)] by auto
    have "mon_wf ?m1" "same64 m ?m1" "line64 ?m1 = line64 m @ [?b]"
      using w chr t nz by (auto simp: mon_wf_def mon_on_screen_def same64_def line64_def intro: exI [of _ "fs_cwd (mon_fs m)"])
    then show ?thesis
      using prints_wf [OF prints_putc [of ?m1 tx ?b]] chr ln(2) unfolding m' by (auto simp: edit64_def const_defs intro: same64_trans)
  qed
  then show "mon_wf m'" "same64 m m'" "line64 m' = edit64 key (line64 m)" by simp_all
qed

lemma mon_kb_step [simp]: "mon_wf (m\<lparr>mon_kb := k\<rparr>) = mon_wf m" "line64 (m\<lparr>mon_kb := k\<rparr>) = line64 m"
  "same64 (m\<lparr>mon_kb := k\<rparr>) m' = same64 m m'"
  by (simp_all add: mon_wf_def mon_on_screen_def line64_def same64_def)

lemma same64_refl: "same64 m m"
  unfolding same64_def by (auto intro: exI [of _ "fs_cwd (mon_fs m)"])

lemma loop64_safe: "loop64 tx scs m = Some m' \<Longrightarrow> mon_wf m \<Longrightarrow> mon_wf m' \<and> same64 m m'"
proof (induction scs arbitrary: m)
  case (Cons sc scs)
  then obtain key k m1 where s: "key64 tx key (m\<lparr>mon_kb := k\<rparr>) = Some m1" "loop64 tx scs m1 = Some m'"
    by (auto simp: bind_eq_Some_conv)
  note u = key64_step [of "m\<lparr>mon_kb := k\<rparr>", OF _ s(1)]
  show ?case using Cons.IH [OF s(2)] u Cons.prems(2) by (auto intro: same64_trans)
qed (simp add: same64_refl)

text \<open>The keys of a line, one after the other.\<close>

fun keys64 :: "uart \<Rightarrow> nat list \<Rightarrow> monitor \<Rightarrow> monitor option" where
  "keys64 tx [] m = Some m"
| "keys64 tx (k # ks) m = Option.bind (key64 tx k m) (keys64 tx ks)"

lemma keys64_line:
  assumes "KEY_ENTER \<notin> set ks" and "10 \<notin> set ks" and "mon_wf m"
  shows "\<exists>m'. keys64 tx ks m = Some m' \<and> mon_wf m' \<and> line64 m' = fold edit64 ks (line64 m)"
  using assms
proof (induction ks arbitrary: m)
  case (Cons k ks)
  obtain m1 where m1: "key64 tx k m = Some m1" using Cons.prems by (cases "key64 tx k m") (auto simp: key64_def split: if_split_asm)
  note s = key64_step [OF Cons.prems(3) m1]
  show ?case using Cons.IH [of m1] Cons.prems s m1 by simp
qed simp

lemma key64_enter:
  assumes "mon_wf m" and "line64 m \<noteq> []"
  shows "key64 tx KEY_ENTER m = map_option (\<lambda>m2. say64 tx [lit ''x64> ''] (m2\<lparr>mon_len := 0, mon_line := (mon_line m2)[0 := 0]\<rparr>))
    (shell_exec_line tx (line64 m) (term_putc64 tx 10 m))"
proof -
  note ln = line64_array [OF assms(1)]
  note p = prints_putc [of m tx 10]
  have "m\<lparr>mon_line := (mon_line m)[mon_len m := 0]\<rparr> = m" using ln(3) by simp
  moreover have "mon_len m > 0" using assms(2) ln(2) by (metis length_greater_0_conv)
  ultimately show ?thesis
    using p ln(1) by (simp add: key64_def enter64_def Let_def prints_def const_defs del: lit_Cons)
qed

section \<open>The decoder\<close>

lemma nth_pad: "i < length p + a \<Longrightarrow> i < length p + b \<Longrightarrow> (p @ replicate a (0 :: u8)) ! i = (p @ replicate b 0) ! i"
  by (simp add: nth_append)

lemma tables64:
  "i < 128 \<Longrightarrow> table_entry scancode_ascii64 i = Some (scancode_ascii ! i)"
  "table_entry scancode_shift64 i = (if i < 113 then Some (scancode_shift ! i) else None)"
proof -
  have "length scancode_ascii64 = 135" "length scancode_shift64 = 113" by (simp_all add: scancode_ascii64_def scancode_shift64_def)
  moreover have "scancode_ascii64 ! i = scancode_ascii ! i" if "i < 128"
    unfolding scancode_ascii64_def scancode_ascii_def by (rule nth_pad) (use that in simp_all)
  moreover have "scancode_shift64 ! i = scancode_shift ! i" if "i < 113"
    unfolding scancode_shift64_def scancode_shift_def by (rule nth_pad) (use that in simp_all)
  ultimately show "i < 128 \<Longrightarrow> table_entry scancode_ascii64 i = Some (scancode_ascii ! i)"
    "table_entry scancode_shift64 i = (if i < 113 then Some (scancode_shift ! i) else None)"
    by (simp_all add: table_entry_def)
qed

lemma code_small: "unat (sc AND (127 :: u8)) < 128"
  using word_and_le1 [of sc 127] by (simp add: word_le_nat_alt)

section \<open>Properties\<close>

text \<open>C40. The scancode decoder of the 64-bit kernel is that of the keyboard driver on every byte and in every state of the
  shift keys and the prefix, but for the keys that only the driver knows (Tab, the function keys, the keypad arrows, page up and
  down, the prefix 0xE1), with one exception: with a shift key held, a press of one of the scancodes 0x71 to 0x7F reads outside its table, which
  has 113 entries.\<close>

theorem monitor_decoder_equiv:
  assumes "sc \<noteq> 225"
    and "if g_extended k then sc AND 127 \<notin> {73, 81} else sc AND 127 \<notin> {15, 59, 60, 61, 62, 68, 72, 75, 77, 80}"
  shows "scan64 sc k =
    (if sc AND 128 = 0 \<and> \<not> g_extended k \<and> shift_held k \<and> 0x71 \<le> unat (sc AND 127) then None else Some (kb_scan sc k))"
proof -
  let ?c = "sc AND 127"
  have x: "extended_key64 ?c = extended_key ?c" if "g_extended k"
    using assms(2) that by (simp add: extended_key64_def extended_key_def)
  have sp: "special_key64 ?c = special_key ?c" if "\<not> g_extended k"
    using assms(2) that by (simp add: special_key64_def special_key_def)
  have hi: "?c \<noteq> 42 \<and> ?c \<noteq> 54 \<and> special_key64 ?c = 0" if "0x71 \<le> unat ?c"
    using that by (auto simp: special_key64_def)
  have "sc \<noteq> 224" if "sc AND 128 = 0" using that by auto
  then show ?thesis
    using assms(1) x sp hi code_small [of sc] tables64 [of "unat ?c"]
    by (cases "shift_held k") (auto simp: scan64_def kb_scan_def Let_def)
qed

theorem monitor_decoder_equiv_witness:
  "scan64 30 \<lparr>g_shift_left = True, g_shift_right = False, g_extended = False\<rparr> =
     Some (kb_scan 30 \<lparr>g_shift_left = True, g_shift_right = False, g_extended = False\<rparr>) \<and>
   scan64 0x73 \<lparr>g_shift_left = True, g_shift_right = False, g_extended = False\<rparr> = None"
  using monitor_decoder_equiv [where sc = 30 and k = "\<lparr>g_shift_left = True, g_shift_right = False, g_extended = False\<rparr>"]
    monitor_decoder_equiv [where sc = 115 and k = "\<lparr>g_shift_left = True, g_shift_right = False, g_extended = False\<rparr>"]
  by (simp add: shift_held_def)

text \<open>The static variables as the loader leaves them, with an empty disk and an empty line.\<close>

definition monitor_boot :: monitor where
  "monitor_boot = \<lparr>mon_vga = \<lparr>cells = (\<lambda>_. 0), crtc = []\<rparr>, g_row = 0, g_col = 0,
     mon_serial = \<lparr>g_serial_ready = False, tx_polls = 0, port_log = []\<rparr>,
     g_cpu = cpu_collect (\<lambda>_ _. (0, 0, 0, 0)), mon_kb = idle, mon_fs = fs_cleared, mon_line = replicate 256 0, mon_len = 0\<rparr>"

lemma monitor_boot_wf: "mon_wf monitor_boot" "line64 monitor_boot = []"
  using cleared_shell by (simp_all add: mon_wf_def mon_on_screen_def monitor_boot_def line64_def shell_wf_def)

text \<open>C39. Whatever bytes the keyboard sends, as long as the monitor comes back from its commands: the cursor is on the
  screen, no cell outside the 80 by 25 screen has been written, the line is a text of at most 255 bytes in its array of 256, and of
  the disk nothing but the current directory has changed, which is a directory.\<close>

theorem monitor_session_safe:
  assumes "mon_wf m" and "loop64 tx scs m = Some m'"
  shows "0 \<le> g_row m' \<and> g_row m' < 25 \<and> 0 \<le> g_col m' \<and> g_col m' < 80 \<and>
    (\<forall>i. i < 0 \<or> 2000 \<le> i \<longrightarrow> cells (mon_vga m') i = cells (mon_vga m) i) \<and>
    length (mon_line m') = 256 \<and> mon_len m' \<le> 255 \<and> cstr_of (mon_line m') = take (mon_len m') (mon_line m') \<and>
    (\<exists>d. mon_fs m' = (mon_fs m)\<lparr>fs_cwd := d\<rparr> \<and> fs_is_dir (mon_fs m) d)"
proof -
  have s: "mon_wf m'" "same64 m m'" using loop64_safe [OF assms(2,1)] by simp_all
  have "cstr_of (mon_line m') = take (mon_len m') (mon_line m')" using line64_array(1) [OF s(1)] by (simp add: line64_def)
  then show ?thesis using s by (auto simp: mon_wf_def mon_on_screen_def same64_def)
qed

theorem monitor_session_safe_witness:
  "\<exists>m'. loop64 (\<lambda>_. True) [30, 158] monitor_boot = Some m' \<and> 0 \<le> g_row m' \<and> g_row m' < 25"
proof -
  have s: "scan64 30 idle = Some (97, idle)" "scan64 158 idle = Some (0, idle)"
    using tables64(1) [of 30] by (simp_all add: scan64_def idle_def shift_held_def special_key64_def scancode_ascii_def)
  have kb: "mon_kb (term_putc64 tx c m) = mon_kb m" for tx c m using prints_putc by (simp add: prints_def)
  have "mon_kb monitor_boot = idle" "mon_len monitor_boot = 0" by (simp_all add: monitor_boot_def)
  then obtain m' where m': "loop64 (\<lambda>_. True) [30, 158] monitor_boot = Some m'"
    using s kb by (simp add: key64_def const_defs)
  then show ?thesis using monitor_session_safe [OF monitor_boot_wf(1) m'] by blast
qed

text \<open>The line editor of the monitor: any keys but Enter, typed at an empty line, return and leave the text that they make, where
  printable characters are added up to 255 and Backspace removes the last; Enter then runs the command line on exactly this text, and the
  prompt and an empty line follow if the command comes back.\<close>

lemma monitor_line_correct:
  assumes "mon_wf m" and "line64 m = []" and "KEY_ENTER \<notin> set ks" and "10 \<notin> set ks" and "fold edit64 ks [] \<noteq> []"
  shows "\<exists>m1. keys64 tx ks m = Some m1 \<and> line64 m1 = fold edit64 ks [] \<and>
    key64 tx KEY_ENTER m1 =
      map_option (\<lambda>m2. say64 tx [lit ''x64> ''] (m2\<lparr>mon_len := 0, mon_line := (mon_line m2)[0 := 0]\<rparr>))
        (shell_exec_line tx (fold edit64 ks []) (term_putc64 tx 10 m1)) \<and>
    (\<forall>m3. key64 tx KEY_ENTER m1 = Some m3 \<longrightarrow> line64 m3 = [] \<and> mon_wf m3)"
proof -
  obtain m1 where m1: "keys64 tx ks m = Some m1" "mon_wf m1" "line64 m1 = fold edit64 ks []"
    using keys64_line [OF assms(3,4,1), of tx] assms(2) by auto
  have "line64 m3 = [] \<and> mon_wf m3" if "key64 tx KEY_ENTER m1 = Some m3" for m3
    using key64_step [OF m1(2) that] by (simp add: edit64_def)
  then show ?thesis using m1 key64_enter [OF m1(2), of tx] assms(5) by (auto simp del: lit_Cons)
qed

lemma monitor_line_correct_witness:
  "\<exists>m1. keys64 (\<lambda>_. True) [108, 120, KEY_BACKSPACE, 115] monitor_boot = Some m1 \<and> line64 m1 = [108, 115]"
proof -
  have e: "fold edit64 [108, 120, KEY_BACKSPACE, 115] [] = [108, 115]"
    by (simp add: edit64_def byte_of_nat_def const_defs)
  show ?thesis
    using monitor_line_correct [OF monitor_boot_wf, of "[108, 120, KEY_BACKSPACE, 115]" "\<lambda>_. True"] unfolding e
    by (auto simp: const_defs)
qed

end
