(* ===== verification/Wifi.thy ===== *)
theory Wifi
  imports CString "HOL-Library.Sublist"
begin

text \<open>
  The driver of a WiFi modem that is controlled by text commands over the serial line,
  \<^verbatim>\<open>src/src/drivers/wifi.c\<close>.  The routines that it declares or calls and that no file of the repository defines
  (\<open>millis\<close>, \<open>delay_ms\<close>, \<open>serial_available\<close>, \<open>serial_read_char\<close> and a \<open>serial_write\<close> of single characters) are the
  record \<open>modem\<close>, an argument of every definition.  A loop that does not end is \<open>None\<close>.
\<close>

section \<open>Model\<close>

record 'd modem =
  millis :: "'d \<Rightarrow> u32 \<times> 'd"
  delay_ms :: "nat \<Rightarrow> 'd \<Rightarrow> 'd"
  serial_available :: "'d \<Rightarrow> bool \<times> 'd"
  serial_read_char :: "'d \<Rightarrow> u8 \<times> 'd"
  serial_send :: "u8 \<Rightarrow> 'd \<Rightarrow> 'd"

definition WIFI_CMD_DELAY_MS :: nat where "WIFI_CMD_DELAY_MS = 200"
definition WIFI_LONG_DELAY_MS :: u32 where "WIFI_LONG_DELAY_MS = 8000"

datatype wifi_result_t = WIFI_OK | WIFI_ERROR | WIFI_TIMEOUT | WIFI_BUSY | WIFI_NO_RESPONSE

definition wifi_write_str :: "'d modem \<Rightarrow> bytes \<Rightarrow> 'd \<Rightarrow> 'd" where
  "wifi_write_str md s = fold (serial_send md) s"

text \<open>A carriage return at the end of the stored line is dropped.\<close>

definition chomp :: "bytes \<Rightarrow> bytes" where
  "chomp buf = (if buf \<noteq> [] \<and> last buf = 13 then butlast buf else buf)"

text \<open>The loop of \<open>wifi_read_line\<close>, with the bytes stored so far; no line is the result \<open>-1\<close>.\<close>

partial_function (option) read_line_loop ::
  "'d modem \<Rightarrow> nat \<Rightarrow> u32 \<Rightarrow> bytes \<Rightarrow> u32 \<Rightarrow> 'd \<Rightarrow> (bytes option \<times> 'd) option" where
  "read_line_loop md max_len timeout buf start d =
     (let (now, d1) = millis md d
      in if now - start < timeout then
           let (ready, d2) = serial_available md d1
           in if \<not> ready then read_line_loop md max_len timeout buf start (delay_ms md 1 d2)
              else let (c, d3) = serial_read_char md d2
                   in if c = 10 then Some (Some (chomp buf), d3)
                      else let buf1 = (if length buf < max_len - 1 then buf @ [c] else buf);
                               (now1, d4) = millis md d3
                           in read_line_loop md max_len timeout buf1 now1 d4
         else Some (None, d1))"

definition wifi_read_line :: "'d modem \<Rightarrow> nat \<Rightarrow> u32 \<Rightarrow> 'd \<Rightarrow> (bytes option \<times> 'd) option" where
  "wifi_read_line md max_len timeout d =
     (let (start, d1) = millis md d in read_line_loop md max_len timeout [] start d1)"

text \<open>\<open>strstr\<close> finds \<open>needle\<close> in the string that is stored in the array.\<close>

fun found_in :: "bytes \<Rightarrow> bytes \<Rightarrow> bool" where
  "found_in [] needle = (needle = [])"
| "found_in (h # hs) needle = (take (length needle) (h # hs) = needle \<or> found_in hs needle)"

definition in_line :: "bytes \<Rightarrow> bytes \<Rightarrow> bool" where
  "in_line line needle = found_in (takeWhile (\<lambda>c. c \<noteq> 0) line) needle"

text \<open>What a line means to the waiting command; most lines mean nothing.\<close>

definition line_result :: "bytes \<Rightarrow> bytes \<Rightarrow> wifi_result_t option" where
  "line_result expected line =
     (if line = [] then None
      else if in_line line expected then Some WIFI_OK
      else if in_line line (lit ''ERROR'') \<or> in_line line (lit ''FAIL'') then Some WIFI_ERROR
      else if in_line line (lit ''busy'') then Some WIFI_BUSY else None)"

partial_function (option) wait_loop ::
  "'d modem \<Rightarrow> bytes \<Rightarrow> u32 \<Rightarrow> u32 \<Rightarrow> 'd \<Rightarrow> (wifi_result_t \<times> 'd) option" where
  "wait_loop md expected timeout start d =
     (let (now, d1) = millis md d
      in if now - start < timeout then
           (case wifi_read_line md 128 200 d1 of
              None \<Rightarrow> None
            | Some (r, d2) \<Rightarrow>
                (case Option.bind r (line_result expected) of
                   Some res \<Rightarrow> Some (res, d2)
                 | None \<Rightarrow> wait_loop md expected timeout start d2))
         else Some (WIFI_TIMEOUT, d1))"

definition wifi_wait_response :: "'d modem \<Rightarrow> bytes \<Rightarrow> u32 \<Rightarrow> 'd \<Rightarrow> (wifi_result_t \<times> 'd) option" where
  "wifi_wait_response md expected timeout d =
     (let (start, d1) = millis md d in wait_loop md expected timeout start d1)"

definition wifi_cmd :: "'d modem \<Rightarrow> bytes \<Rightarrow> 'd \<Rightarrow> (wifi_result_t \<times> 'd) option" where
  "wifi_cmd md cmd d =
     (let d1 = wifi_write_str md [13, 10] (wifi_write_str md cmd d)
      in wifi_wait_response md (lit ''OK'') 1500 (delay_ms md WIFI_CMD_DELAY_MS d1))"

text \<open>The results of the commands are not looked at.\<close>

definition wifi_init :: "'d modem \<Rightarrow> 'd \<Rightarrow> 'd option" where
  "wifi_init md d =
     Option.bind (wifi_cmd md (lit ''AT'') d) (\<lambda>(_, d1). Option.bind (wifi_cmd md (lit ''AT+RST'') d1) (\<lambda>(_, d2).
       Option.bind (wifi_cmd md (lit ''AT+CWMODE=1'') (delay_ms md 2000 d2)) (\<lambda>(_, d3).
         map_option snd (wifi_cmd md (lit ''AT+CIPMUX=0'') d3))))"

text \<open>\<open>snprintf\<close> cuts the command to its array of 128 bytes.\<close>

definition answer_code :: "wifi_result_t \<times> 'd \<Rightarrow> int \<times> 'd" where
  "answer_code r = (if fst r = WIFI_OK then 0 else -1, snd r)"

definition wifi_connect :: "'d modem \<Rightarrow> bytes \<Rightarrow> bytes \<Rightarrow> 'd \<Rightarrow> (int \<times> 'd) option" where
  "wifi_connect md ssid password d =
     (let cmd = take 127 (lit ''AT+CWJAP='' @ [34] @ ssid @ [34, 44, 34] @ password @ [34]);
          d1 = wifi_write_str md [13, 10] (wifi_write_str md cmd d)
      in map_option answer_code (wifi_wait_response md (lit ''WIFI GOT IP'') WIFI_LONG_DELAY_MS d1))"

definition wifi_tcp_connect :: "'d modem \<Rightarrow> bytes \<Rightarrow> bytes \<Rightarrow> 'd \<Rightarrow> (int \<times> 'd) option" where
  "wifi_tcp_connect md host port_str d =
     (let cmd = take 127 (lit ''AT+CIPSTART='' @ [34] @ lit ''TCP'' @ [34, 44, 34] @ host @ [34, 44] @ port_str);
          d1 = wifi_write_str md [13, 10] (wifi_write_str md cmd d)
      in map_option answer_code (wifi_wait_response md (lit ''CONNECT'') WIFI_LONG_DELAY_MS d1))"

text \<open>A length beyond the data reads past it: \<open>None\<close>.\<close>

definition wifi_send_data :: "'d modem \<Rightarrow> bytes option \<Rightarrow> int \<Rightarrow> 'd \<Rightarrow> (int \<times> 'd) option" where
  "wifi_send_data md data len d =
     (case data of
        None \<Rightarrow> Some (-1, d)
      | Some bs \<Rightarrow>
          if len \<le> 0 then Some (-1, d)
          else let cmd = take 31 (lit ''AT+CIPSEND='' @ itoa_text (word_of_int len) @ [13, 10])
               in Option.bind (wifi_wait_response md (lit ''>'') 2000 (wifi_write_str md cmd d)) (\<lambda>(r, d1).
                    if r \<noteq> WIFI_OK then Some (-1, d1)
                    else if len > int (length bs) then None
                    else map_option answer_code
                           (wifi_wait_response md (lit ''SEND OK'') 5000 (wifi_write_str md (take (nat len) bs) d1))))"

definition wifi_close :: "'d modem \<Rightarrow> 'd \<Rightarrow> 'd option" where
  "wifi_close md d = map_option snd (wifi_cmd md (lit ''AT+CIPCLOSE'') d)"

definition wifi_get_ip :: "'d modem \<Rightarrow> 'd \<Rightarrow> 'd option" where
  "wifi_get_ip md d = map_option snd (wifi_cmd md (lit ''AT+CIFSR'') d)"

section \<open>A modem that has answered\<close>

text \<open>
  The received bytes \<open>q\<close> are read in order, and the time \<open>clk\<close>, in milliseconds, passes in \<open>delay_ms\<close>; reading takes no time.
\<close>

definition answered :: "'d modem \<Rightarrow> ('d \<Rightarrow> nat) \<Rightarrow> ('d \<Rightarrow> bytes) \<Rightarrow> bool" where
  "answered md clk q \<longleftrightarrow>
     (\<forall>d. fst (millis md d) = word_of_nat (clk d) \<and> clk (snd (millis md d)) = clk d \<and> q (snd (millis md d)) = q d \<and>
        (fst (serial_available md d) \<longleftrightarrow> q d \<noteq> []) \<and> clk (snd (serial_available md d)) = clk d \<and>
        q (snd (serial_available md d)) = q d \<and>
        (q d \<noteq> [] \<longrightarrow> fst (serial_read_char md d) = hd (q d) \<and> q (snd (serial_read_char md d)) = tl (q d) \<and>
           clk (snd (serial_read_char md d)) = clk d) \<and>
        (\<forall>n. clk (delay_ms md n d) = clk d + n \<and> q (delay_ms md n d) = q d))"

lemma answeredD:
  assumes "answered md clk q"
  shows "\<exists>d'. millis md d = (word_of_nat (clk d), d') \<and> clk d' = clk d \<and> q d' = q d"
    and "\<exists>d'. serial_available md d = (q d \<noteq> [], d') \<and> clk d' = clk d \<and> q d' = q d"
    and "q d = c # cs \<Longrightarrow> \<exists>d'. serial_read_char md d = (c, d') \<and> clk d' = clk d \<and> q d' = cs"
    and "clk (delay_ms md n d) = clk d + n" and "q (delay_ms md n d) = q d"
proof -
  note a = assms [unfolded answered_def, rule_format]
  show "\<exists>d'. millis md d = (word_of_nat (clk d), d') \<and> clk d' = clk d \<and> q d' = q d"
    using a [of d] by (intro exI [of _ "snd (millis md d)"]) (simp add: prod_eq_iff)
  show "\<exists>d'. serial_available md d = (q d \<noteq> [], d') \<and> clk d' = clk d \<and> q d' = q d"
    using a [of d] by (intro exI [of _ "snd (serial_available md d)"]) (simp add: prod_eq_iff)
  show "\<exists>d'. serial_read_char md d = (c, d') \<and> clk d' = clk d \<and> q d' = cs" if "q d = c # cs"
    using a [of d] that by (intro exI [of _ "snd (serial_read_char md d)"]) (simp add: prod_eq_iff)
  show "clk (delay_ms md n d) = clk d + n" "q (delay_ms md n d) = q d" using a [of d] by simp_all
qed

lemma found_in_sublist: "found_in h n \<longleftrightarrow> sublist n h"
proof (induction h)
  case (Cons c h)
  have "take (length n) (c # h) = n \<longleftrightarrow> prefix n (c # h)" by (metis append_eq_conv_conj prefix_def take_is_prefix)
  then show ?case using Cons by (simp add: sublist_Cons_right)
qed simp

text \<open>The comparison of the 32-bit clock is right as long as less than 49 days have passed.\<close>

lemma elapsed:
  assumes "t0 \<le> c" and "c - t0 < 4294967296"
  shows "(word_of_nat c - word_of_nat t0 :: u32) < timeout \<longleftrightarrow> c < t0 + unat timeout"
proof -
  have "(word_of_nat c - word_of_nat t0 :: u32) = word_of_nat (c - t0)" using assms(1) by (rule of_nat_diff [symmetric])
  moreover have "unat (word_of_nat (c - t0) :: u32) = c - t0" using assms(2) by (simp add: unat_of_nat del: of_nat_diff)
  ultimately have "unat (word_of_nat c - word_of_nat t0 :: u32) = c - t0" by simp
  then show ?thesis using assms(1) by (auto simp: word_less_nat_alt)
qed

text \<open>One character that has arrived.\<close>

definition store_char :: "nat \<Rightarrow> bytes \<Rightarrow> u8 \<Rightarrow> bytes" where
  "store_char max_len buf c = (if length buf < max_len - 1 then buf @ [c] else buf)"

lemma read_loop_char:
  assumes "answered md clk q" and "0 < timeout" and "q d = c # cs"
  obtains d' where "clk d' = clk d" "q d' = cs"
    "read_line_loop md max_len timeout buf (word_of_nat (clk d)) d =
       (if c = 10 then Some (Some (chomp buf), d')
        else read_line_loop md max_len timeout (store_char max_len buf c) (word_of_nat (clk d')) d')"
proof -
  obtain d1 where d1: "millis md d = (word_of_nat (clk d), d1)" "clk d1 = clk d" "q d1 = q d"
    using answeredD(1) [OF assms(1)] by blast
  obtain d2 where d2: "serial_available md d1 = (q d1 \<noteq> [], d2)" "clk d2 = clk d1" "q d2 = q d1"
    using answeredD(2) [OF assms(1)] by blast
  obtain d3 where d3: "serial_read_char md d2 = (c, d3)" "clk d3 = clk d2" "q d3 = cs"
    using answeredD(3) [OF assms(1), of d2 c cs] d1 d2 assms(3) by auto
  obtain d4 where d4: "millis md d3 = (word_of_nat (clk d3), d4)" "clk d4 = clk d3" "q d4 = q d3"
    using answeredD(1) [OF assms(1)] by blast
  show thesis
    by (rule that [of "if c = 10 then d3 else d4"])
      (use d1 d2 d3 d4 assms(2,3) in \<open>simp_all add: read_line_loop.simps [of _ _ _ buf _ d] store_char_def Let_def\<close>)
qed

text \<open>A line that has arrived is read at once, without its end and cut to the array.\<close>

lemma read_loop_line:
  assumes "answered md clk q" and "0 < timeout" and "10 \<notin> set l" and "q d = l @ 10 # rest"
  shows "\<exists>d'. read_line_loop md max_len timeout buf (word_of_nat (clk d)) d =
      Some (Some (chomp (buf @ take (max_len - 1 - length buf) l)), d') \<and> clk d' = clk d \<and> q d' = rest"
  using assms(3,4)
proof (induction l arbitrary: buf d)
  case Nil
  then show ?case using read_loop_char [OF assms(1,2), of d 10 rest max_len buf] by auto
next
  case (Cons c l)
  obtain d' where d': "clk d' = clk d" "q d' = l @ 10 # rest" "read_line_loop md max_len timeout buf (word_of_nat (clk d)) d =
      read_line_loop md max_len timeout (store_char max_len buf c) (word_of_nat (clk d')) d'"
    using read_loop_char [OF assms(1,2), of d c "l @ 10 # rest" max_len buf] Cons.prems by auto
  have "store_char max_len buf c @ take (max_len - 1 - length (store_char max_len buf c)) l =
      buf @ take (max_len - 1 - length buf) (c # l)"
    by (auto simp: store_char_def take_Cons' not_less)
  then show ?case using Cons.IH [of d' "store_char max_len buf c"] d' Cons.prems by auto
qed

lemma read_line_ready:
  assumes "answered md clk q" and "0 < timeout" and "10 \<notin> set l" and "q d = l @ 10 # rest"
  shows "\<exists>d'. wifi_read_line md max_len timeout d = Some (Some (chomp (take (max_len - 1) l)), d') \<and> clk d' = clk d \<and> q d' = rest"
proof -
  obtain d1 where d1: "millis md d = (word_of_nat (clk d), d1)" "clk d1 = clk d" "q d1 = q d" using answeredD(1) [OF assms(1)] by blast
  then show ?thesis using read_loop_line [OF assms(1-3), of d1 rest max_len "[]"] assms(4) by (simp add: wifi_read_line_def)
qed

text \<open>Bytes without the end of a line are consumed, and the call gives up when its time is over.\<close>

lemma read_loop_idle:
  assumes "answered md clk q" and "q d = []" and "t0 \<le> clk d" and "clk d - t0 \<le> unat timeout"
  shows "\<exists>d'. read_line_loop md max_len timeout buf (word_of_nat t0) d = Some (None, d') \<and> clk d' = t0 + unat timeout \<and> q d' = []"
  using assms(2-4)
proof (induction "t0 + unat timeout - clk d" arbitrary: d rule: less_induct)
  case less
  obtain d1 where d1: "millis md d = (word_of_nat (clk d), d1)" "clk d1 = clk d" "q d1 = q d" using answeredD(1) [OF assms(1)] by blast
  obtain d2 where d2: "serial_available md d1 = (q d1 \<noteq> [], d2)" "clk d2 = clk d1" "q d2 = q d1" using answeredD(2) [OF assms(1)] by blast
  have t: "word_of_nat (clk d) - word_of_nat t0 < timeout \<longleftrightarrow> clk d < t0 + unat timeout"
    by (rule elapsed [OF less.prems(2) le_less_trans [OF less.prems(3) unat_u32_less]])
  show ?case
  proof (cases "clk d < t0 + unat timeout")
    case True
    define d3 where "d3 = delay_ms md 1 d2"
    have d3: "clk d3 = clk d + 1" "q d3 = []" using answeredD(4,5) [OF assms(1)] d1 d2 less.prems(1) by (simp_all add: d3_def)
    have step: "read_line_loop md max_len timeout buf (word_of_nat t0) d = read_line_loop md max_len timeout buf (word_of_nat t0) d3"
      using d1 d2 t True less.prems(1) by (subst read_line_loop.simps) (simp add: d3_def)
    show ?thesis unfolding step by (rule less.hyps) (use d3 True less.prems in auto)
  next
    case False
    then show ?thesis using d1 t less.prems by (subst read_line_loop.simps) auto
  qed
qed

lemma read_loop_partial:
  assumes "answered md clk q" and "0 < timeout" and "10 \<notin> set (q d)"
  shows "\<exists>d'. read_line_loop md max_len timeout buf (word_of_nat (clk d)) d = Some (None, d') \<and> clk d' = clk d + unat timeout \<and> q d' = []"
  using assms(3)
proof (induction "q d" arbitrary: buf d)
  case Nil
  then show ?case using read_loop_idle [OF assms(1), of d "clk d" timeout max_len buf] by simp
next
  case (Cons c l)
  then have qd: "q d = c # l" "c \<noteq> 10" "10 \<notin> set l" by (metis list.set_intros)+
  obtain d' where "clk d' = clk d" "q d' = l" "read_line_loop md max_len timeout buf (word_of_nat (clk d)) d =
      read_line_loop md max_len timeout (store_char max_len buf c) (word_of_nat (clk d')) d'"
    using read_loop_char [OF assms(1,2) qd(1), of max_len buf] qd(2) by auto
  then show ?case using Cons.hyps(1) [of d' "store_char max_len buf c"] qd(3) by auto
qed

lemma read_line_partial:
  assumes "answered md clk q" and "0 < timeout" and "10 \<notin> set (q d)"
  shows "\<exists>d'. wifi_read_line md max_len timeout d = Some (None, d') \<and> clk d' = clk d + unat timeout \<and> q d' = []"
proof -
  obtain d1 where d1: "millis md d = (word_of_nat (clk d), d1)" "clk d1 = clk d" "q d1 = q d"
    using answeredD(1) [OF assms(1)] by blast
  then show ?thesis using read_loop_partial [OF assms(1,2), of d1 max_len "[]"] assms(3) by (simp add: wifi_read_line_def)
qed

section \<open>Answers\<close>

text \<open>Lines on the wire, and the line that the driver keeps of one.\<close>

definition wire :: "bytes list \<Rightarrow> bytes" where
  "wire ls = concat (map (\<lambda>l. l @ [13, 10]) ls)"

definition seen :: "bytes \<Rightarrow> bytes" where
  "seen l = chomp (take 127 (l @ [13]))"

lemma seen_short: "length l \<le> 126 \<Longrightarrow> seen l = l"
  by (simp add: seen_def chomp_def)

lemma wait_loop_line:
  assumes "answered md clk q" and "clk d = t0" and "0 < timeout" and "10 \<notin> set l" and "q d = l @ 13 # 10 # rest"
  obtains d' where "clk d' = t0" "q d' = rest" "wait_loop md expected timeout (word_of_nat t0) d =
     (case line_result expected (seen l) of Some res \<Rightarrow> Some (res, d') | None \<Rightarrow> wait_loop md expected timeout (word_of_nat t0) d')"
proof -
  obtain d1 where d1: "millis md d = (word_of_nat (clk d), d1)" "clk d1 = clk d" "q d1 = q d"
    using answeredD(1) [OF assms(1)] by blast
  obtain d2 where d2: "wifi_read_line md 128 200 d1 = Some (Some (seen l), d2)" "clk d2 = clk d1" "q d2 = rest"
    using read_line_ready [OF assms(1), of 200 "l @ [13]" d1 rest 128] d1 assms(4,5) by (auto simp: seen_def)
  show thesis
    by (rule that [of d2]) (use d1 d2 assms(2,3) in \<open>simp_all add: wait_loop.simps [of _ _ _ _ d]\<close>)
qed

text \<open>The answer to a command is the first line that means something; the lines before it are skipped and the rest stays unread.\<close>

lemma wait_response_lines:
  assumes "answered md clk q" and "0 < timeout" and "\<forall>l\<in>set (ls @ [l]). 10 \<notin> set l"
    and "\<forall>l\<in>set ls. line_result expected (seen l) = None" and "line_result expected (seen l) = Some res"
    and "q d = wire ls @ l @ 13 # 10 # rest"
  shows "\<exists>d'. wifi_wait_response md expected timeout d = Some (res, d') \<and> clk d' = clk d \<and> q d' = rest"
proof -
  have loop: "\<exists>d'. wait_loop md expected timeout (word_of_nat t0) e = Some (res, d') \<and> clk d' = t0 \<and> q d' = rest"
    if "clk e = t0" "q e = wire ls @ l @ 13 # 10 # rest" for e t0
    using assms(3,4) that
  proof (induction ls arbitrary: e)
    case Nil
    then show ?case using wait_loop_line [OF assms(1) Nil(3) assms(2), of l rest expected] assms(5) by (auto simp: wire_def)
  next
    case (Cons h ls)
    obtain e' where "clk e' = t0" "q e' = wire ls @ l @ 13 # 10 # rest"
        "wait_loop md expected timeout (word_of_nat t0) e = wait_loop md expected timeout (word_of_nat t0) e'"
      using wait_loop_line [OF assms(1) Cons.prems(3) assms(2), of h "wire ls @ l @ 13 # 10 # rest" expected] Cons.prems
      by (auto simp: wire_def)
    then show ?case using Cons.IH [of e'] Cons.prems by auto
  qed
  obtain d1 where "millis md d = (word_of_nat (clk d), d1)" "clk d1 = clk d" "q d1 = q d"
    using answeredD(1) [OF assms(1)] by blast
  then show ?thesis using loop [of d1 "clk d"] assms(6) by (simp add: wifi_wait_response_def)
qed

text \<open>
  An answer without the end of a line is never looked at, whatever it says: the call waits until its time is over.  The prompt
  of the modem for data is such an answer.
\<close>

lemma wait_response_partial:
  assumes "answered md clk q" and "10 \<notin> set (q d)" and "unat timeout \<le> 10000"
  shows "\<exists>d'. wifi_wait_response md expected timeout d = Some (WIFI_TIMEOUT, d')"
proof -
  have loop: "\<exists>d'. wait_loop md expected timeout (word_of_nat t0) e = Some (WIFI_TIMEOUT, d')"
    if "t0 \<le> clk e" "clk e \<le> t0 + unat timeout + 200" "10 \<notin> set (q e)" for e t0
    using that
  proof (induction "t0 + unat timeout + 200 - clk e" arbitrary: e rule: less_induct)
    case less
    obtain e1 where e1: "millis md e = (word_of_nat (clk e), e1)" "clk e1 = clk e" "q e1 = q e"
      using answeredD(1) [OF assms(1)] by blast
    obtain e2 where e2: "wifi_read_line md 128 200 e1 = Some (None, e2)" "clk e2 = clk e1 + 200" "q e2 = []"
      using read_line_partial [OF assms(1), of 200 e1 128] less.prems(3) e1 by auto
    have t: "word_of_nat (clk e) - word_of_nat t0 < timeout \<longleftrightarrow> clk e < t0 + unat timeout"
      using less.prems assms(3) by (intro elapsed) simp_all
    show ?case
    proof (cases "clk e < t0 + unat timeout")
      case True
      have "wait_loop md expected timeout (word_of_nat t0) e = wait_loop md expected timeout (word_of_nat t0) e2"
        using e1 e2(1) t True by (simp add: wait_loop.simps [of _ _ _ _ e])
      then show ?thesis using less.hyps [of e2] e1 e2 True less.prems by simp
    qed (use e1 t in \<open>simp add: wait_loop.simps [of _ _ _ _ e]\<close>)
  qed
  obtain d1 where "millis md d = (word_of_nat (clk d), d1)" "clk d1 = clk d" "q d1 = q d"
    using answeredD(1) [OF assms(1)] by blast
  then show ?thesis using loop [of "clk d" d1] assms(2) by (simp add: wifi_wait_response_def)
qed

text \<open>A modem of this kind, with its clock and its received bytes as the state, and the prompt that is missed.\<close>

definition queue_modem :: "(nat \<times> bytes) modem" where
  "queue_modem = \<lparr>millis = (\<lambda>d. (word_of_nat (fst d), d)), delay_ms = (\<lambda>n d. (fst d + n, snd d)),
     serial_available = (\<lambda>d. (snd d \<noteq> [], d)),
     serial_read_char = (\<lambda>d. case snd d of [] \<Rightarrow> (0, d) | c # cs \<Rightarrow> (c, (fst d, cs))), serial_send = (\<lambda>c d. d)\<rparr>"

lemma queue_modem_answered: "answered queue_modem fst snd"
  by (auto simp: answered_def queue_modem_def split: list.split)

lemma prompt_missed: "\<exists>d'. wifi_send_data queue_modem (Some (lit ''hi'')) 2 (0, lit ''> '') = Some (-1, d')"
proof -
  have "\<exists>d'. wifi_wait_response queue_modem (lit ''>'') 2000 (0, lit ''> '') = Some (WIFI_TIMEOUT, d')"
    by (rule wait_response_partial [OF queue_modem_answered]) simp_all
  moreover have "wifi_write_str queue_modem s d = d" for s d
    by (induction s) (simp_all add: wifi_write_str_def queue_modem_def)
  ultimately show ?thesis by (auto simp: wifi_send_data_def Let_def simp del: lit_Cons)
qed

end
