(* ===== verification/Spec2Isabelle.thy ===== *)
theory Spec2Isabelle
  imports Boot Monitor64 Wifi
begin

text \<open>
  HeatOS is a small operating system for the PC: a 32-bit kernel with a heap and a page allocator, a
  round-robin scheduler, a RAM disk, drivers for the text screen, the keyboard, the mouse, the timer and an
  NE2000 network card, and a shell with 45 commands, among them a Java interpreter, an editor, a desktop and
  three games; and a separate 64-bit kernel with a small monitor.  This development models its C code and proves
  that it does what it means to do.  All paths below are relative to \<^verbatim>\<open>src/src\<close>.

  \<^bold>\<open>How the parts interact.\<close>  \<open>kernel_main\<close> (\<^verbatim>\<open>kernel/main.c\<close>) runs the initialisers and enters
  \<open>terminal_run\<close> (\<^verbatim>\<open>terminal/terminal.c\<close>), which reads keys, edits the line and hands each line to
  \<open>cmd_dispatch\<close> (\<^verbatim>\<open>commands/commands.c\<close>).  A command works on the RAM disk, on the kernel (scheduler and log), on
  the network driver or on the hardware directly, and prints through the terminal, which draws on the text screen.  The
  scheduler takes its process records from the heap and its stacks from the page allocator.  The keyboard and the mouse share one
  controller: the keyboard driver passes the bytes of the mouse on to the mouse driver.  The log is copied to the serial port.

  \<^bold>\<open>Theories and sources.\<close>  State is passed explicitly; each component keeps its static variables in a record with the
  names of the source, and every function of the source has a definition of the same name.

  \<^item> \<^verbatim>\<open>Prelude\<close>: machine words, byte strings and shared lemmas (\<^verbatim>\<open>include/types.h\<close>).  \<^verbatim>\<open>CString\<close>:
    \<^verbatim>\<open>lib/string.c\<close> over a byte-addressed memory.  \<^verbatim>\<open>Memory\<close>: little-endian loads and stores.
    \<^verbatim>\<open>Port_IO\<close>: \<^verbatim>\<open>include/io.h\<close>, with the hardware behind the ports as a parameter of type \<open>device\<close>.
  \<^item> \<^verbatim>\<open>Serial\<close>, \<^verbatim>\<open>Klog\<close>, \<^verbatim>\<open>Printf\<close>: \<^verbatim>\<open>drivers/serial.c\<close>, \<^verbatim>\<open>kernel/klog.c\<close>, \<^verbatim>\<open>kernel/printf.c\<close>.
  \<^item> \<^verbatim>\<open>Mm\<close>, \<^verbatim>\<open>Scheduler\<close>, \<^verbatim>\<open>Descriptors\<close>: \<^verbatim>\<open>kernel/mm.c\<close>, \<^verbatim>\<open>kernel/scheduler.c\<close>, \<^verbatim>\<open>kernel/gdt.c\<close> and
    \<^verbatim>\<open>kernel/idt.c\<close>.  The heap's headers and the process records lie in the modelled memory, at their addresses and widths.
  \<^item> \<^verbatim>\<open>Ramdisk\<close>: \<^verbatim>\<open>lib/ramdisk.c\<close>, with the files that it ships.
  \<^item> \<^verbatim>\<open>Vga\<close>, \<^verbatim>\<open>Graphics\<close>, \<^verbatim>\<open>Keyboard\<close>, \<^verbatim>\<open>Mouse\<close>, \<^verbatim>\<open>Pit\<close>: the drivers of the same names; \<^verbatim>\<open>Pit\<close> has the
    speaker too.  \<^verbatim>\<open>Net_Format\<close> and \<^verbatim>\<open>Network\<close>: \<^verbatim>\<open>drivers/network.c\<close>, the wire formats and the driver.
  \<^item> \<^verbatim>\<open>Terminal\<close>: \<^verbatim>\<open>terminal/terminal.c\<close>.  \<^verbatim>\<open>Commands\<close>: \<^verbatim>\<open>commands/commands.c\<close>, over the state \<open>machine\<close> of the whole system.
  \<^item> \<^verbatim>\<open>File_Commands\<close>, \<^verbatim>\<open>System_Commands\<close>, \<^verbatim>\<open>Net_Commands\<close>, \<^verbatim>\<open>Calc\<close>: the commands on files, on the
    kernel and the clock, on the network, and the calculator (\<^verbatim>\<open>commands\<close>, \<^verbatim>\<open>apps/kat.c\<close>).
  \<^item> \<^verbatim>\<open>Class_File\<close>, \<^verbatim>\<open>Jvm\<close>, \<^verbatim>\<open>Java\<close>: \<^verbatim>\<open>commands/java.c\<close>: archives and class files, the bytecode
    interpreter, and the mini format with the commands.
  \<^item> \<^verbatim>\<open>App_Screen\<close>, \<^verbatim>\<open>Pong\<close>, \<^verbatim>\<open>Plinko\<close>, \<^verbatim>\<open>Catnake\<close>, \<^verbatim>\<open>Mamu\<close>, \<^verbatim>\<open>Desktop\<close>: the full-screen programs
    \<^verbatim>\<open>commands/pong.c\<close>, \<^verbatim>\<open>apps/plinko.c\<close>, \<^verbatim>\<open>apps/catnake.c\<close>, \<^verbatim>\<open>apps/mamu.c\<close> and \<^verbatim>\<open>apps/desktop.c\<close>.
  \<^item> \<^verbatim>\<open>Boot\<close>: \<^verbatim>\<open>kernel/main.c\<close>, \<^verbatim>\<open>kernel/panic.c\<close>, \<^verbatim>\<open>kernel/fat32.c\<close>, \<^verbatim>\<open>kernel/tcp_stack.c\<close>,
    \<^verbatim>\<open>kernel/web_stack.c\<close> and \<^verbatim>\<open>terminal/shell_stubs.c\<close>.  \<^verbatim>\<open>Monitor64\<close>: \<^verbatim>\<open>kernel/main64.c\<close>.
    \<^verbatim>\<open>Wifi\<close>: \<^verbatim>\<open>drivers/wifi.c\<close>, which nothing calls.

  \<^bold>\<open>Interfaces.\<close>  \<^verbatim>\<open>Allocator\<close> states the contract of an allocator (\<open>region_allocator\<close>); the heap and the page allocator
  interpret it, and its client lemmas say that regions held by different clients never overlap.  \<^verbatim>\<open>Bounded_Ring\<close> (\<open>bounded_ring\<close>) is
  interpreted by the kernel log and by the command history; \<^verbatim>\<open>File_Store\<close> (\<open>file_store\<close>) by the RAM disk; \<open>char_sink\<close> of
  \<^verbatim>\<open>Printf\<close> by the bounded buffer and by the serial port; \<open>command_table\<close> of \<^verbatim>\<open>Terminal\<close>, what the line editor
  needs of the commands, by the real command table in \<^verbatim>\<open>Commands\<close>.

  \<^bold>\<open>What is shown.\<close>
  \<^item> The start and the shell: the kernel reaches the shell with every component in its invariant (below); every session
    implements an abstract line editor with a history; a line selects and runs one entry of the table; sessions
    that delete nothing return and keep the disk well formed.
  \<^item> Memory and processes: what \<open>kmalloc\<close> and \<open>kfree\<close> return and change, that holders keep their bytes, and
    what creating, killing and scheduling does to the ring of processes.
  \<^item> The disk: the tree invariant, creation, deletion, writing and reading, path resolution against an abstract tree, and the
    commands on top (copies, search, redirection, editing).
  \<^item> Devices: mouse packets, the decoding of keys independent of the mouse, the timer, and the network stack up to the exchange
    of echo messages and the reading of DNS responses; no received frame makes the stack read outside its buffers.
  \<^item> Programs: calculator, Java class files and bytecode, the mini format, games, desktop, and the 64-bit monitor.

  \<^bold>\<open>Conventions.\<close>  A loop that may not end is a \<open>partial_function\<close> into an option type, and \<open>None\<close> is a run that does not return;
  where the C code would read or write outside its arrays or divide by zero, the model is \<open>None\<close> too, so
  that a theorem with \<open>Some\<close> excludes both.  Panics are the left side of a sum.  The parsers of \<^verbatim>\<open>Calc\<close> carry fuel: 3 n + 3 is
  proved to be enough for n characters.  The hardware is a parameter: ports (\<open>device\<close>, \<open>wide_device\<close>), the ready bit of the
  serial port (\<open>uart\<close>), the interrupts during a halt, the \<^verbatim>\<open>cpuid\<close> instruction, the clock and the
  modem of \<^verbatim>\<open>Wifi\<close>, and the addresses that the linker assigns.  The shell gets
  its keys as a list, and a full-screen program the results of its keyboard polls, with 0 for an empty poll; the desktop also gets the
  bytes of the mouse in each frame.  A list that ends before the program does gives \<open>None\<close>.  Busy waits whose only effect is time are left out.

  \<^bold>\<open>Not modelled.\<close>  \<^verbatim>\<open>include/font_8x16.h\<close> is a table of bitmaps that nothing reads; \<^verbatim>\<open>boot/boot.asm\<close> and the \<^verbatim>\<open>.asm\<close> files of
  \<^verbatim>\<open>kernel\<close> (entry points, loads of the descriptor tables, interrupt stubs) are assembly; the rest are scripts and build files.
\<close>

section \<open>From the entry to the shell\<close>

text \<open>
  C1.  The kernel boots and serves.  From any contents of memory, disk, log and screen, with the static variables of the terminal, the
  mouse and the desktop within their bounds and a process number to give, and with any keyboard controller that behaves as a queue, the start
  passes every initialiser without a panic and hands the shell a system in which one process runs alone and the heap, the
  page allocator, the log, the disk, the display and the line editor satisfy their invariants.  When the
  entered lines are commands that delete nothing, built-in commands or unknown words, the whole run returns and leaves the disk well formed.
\<close>

theorem kernel_main_safe:
  assumes "ps2_queue (device.truncate (hw_dev hw)) q" and "next_pid (ksched (bd_kernel b)) \<noteq> 0"
    and "on_screen (bd_term b)" and "editor_wf (bd_term b)" and "machine_ok (bd_machine b)"
    and "\<forall>l\<in>set (entered keys ((ed_abs (bd_term b))\<lparr>before := [], after := []\<rparr>)). safe_line l"
  shows "\<exists>b1 p b2. boot_all lay hw b = Some (Inr b1) \<and> booted b1 p \<and>
    kernel_main lay hw keys b = Some (Inr b2) \<and> shell_wf (mc_fs (bd_machine b2)) \<and>
    on_screen (bd_term b2) \<and> editor_wf (bd_term b2) \<and> machine_ok (bd_machine b2)"
proof -
  obtain b1 p where b1: "boot_all lay hw b = Some (Inr b1)" "booted b1 p" "ed_abs (bd_term b1) = ed_abs (bd_term b)"
    using boot_all_returns [OF assms(1-5)] by blast
  have w: "on_screen (bd_term b1)" "editor_wf (bd_term b1)" "machine_ok (bd_machine b1)" "shell_wf (mc_fs (bd_machine b1))"
    using b1(2) by (simp_all add: booted_def)
  have t: "on_screen (terminal_start (bd_term b1))" "editor_wf (terminal_start (bd_term b1))"
    "ed_abs (terminal_start (bd_term b1)) = (ed_abs (bd_term b))\<lparr>before := [], after := []\<rparr>"
    using terminal_start_refines [OF w(1,2)] b1(3) by (simp_all add: ed_ok_def)
  obtain m t' where r: "terminal_loop (cmd_dispatch hw) keys (bd_machine b1, terminal_start (bd_term b1)) = Some (m, t')"
      "shell_wf (mc_fs m)"
    using session_returns [OF t(1,2) w(3,4), of keys hw] assms(6) t(3) by auto
  have "on_screen t' \<and> editor_wf t' \<and> machine_ok m"
    using shell.terminal_loop_refines [OF t(1,2) w(3) r(1)] by (simp add: ed_ok_def)
  then show ?thesis using b1 r by (auto simp: kernel_main_def terminal_run_def)
qed

theorem kernel_main_safe_witness:
  "\<exists>b1 p b2. boot_all \<lparr>gdt_addr = 4096, idt_addr = 8192, irq0_addr = 12288\<rparr> idle_hw (board_boot ()) = Some (Inr b1) \<and> booted b1 p \<and>
    kernel_main \<lparr>gdt_addr = 4096, idt_addr = 8192, irq0_addr = 12288\<rparr> idle_hw demo_keys (board_boot ()) = Some (Inr b2) \<and>
    shell_wf (mc_fs (bd_machine b2))"
  using kernel_main_safe [OF idle_queue board_boot_ok(4,1-3), of demo_keys] demo_entered demo_safe board_boot_ok(5) by metis

end
